(* ===== verification/Prelude.thy ===== *)
theory Prelude
  imports Main "HOL-Library.Word" "HOL-Library.Signed_Division" "HOL-Library.Char_ord"
begin

text \<open>
  Shared vocabulary of the development: the C integer types at their widths, byte
  strings, checked reads of arrays, and the arithmetic facts about 32-bit signed words
  that the component theories rest on.

  \<open>pphp_int\<close> is the default build's \<open>int32_t\<close> (\<open>PPHP_INT64 = 0\<close> in
  \<open>include/pphp/pphp_config.h\<close>); it is read with \<open>sint\<close>.  Sizes and indices that the
  source keeps in \<open>size_t\<close> are natural numbers unless a theory says otherwise.
\<close>

type_synonym u8 = "8 word"
type_synonym u16 = "16 word"
type_synonym u32 = "32 word"
type_synonym u64 = "64 word"
type_synonym pphp_int = "32 word"
type_synonym bytes = "char list"

named_theorems sint_exact \<open>exactness of signed 32-bit operations inside the range\<close>

section \<open>The range of \<open>pphp_int\<close>\<close>

definition PPHP_INT_MAXIMUM :: pphp_int where
  "PPHP_INT_MAXIMUM = 2147483647"

definition PPHP_INT_MINIMUM :: pphp_int where
  "PPHP_INT_MINIMUM = 2147483648"

definition UINT8_MAX :: nat where "UINT8_MAX = 255"
definition UINT16_MAX :: nat where "UINT16_MAX = 65535"
definition SIZE_MAX :: nat where "SIZE_MAX = 2 ^ 64 - 1"

definition int_in_range :: "int \<Rightarrow> bool" where
  "int_in_range i \<longleftrightarrow> - 2147483648 \<le> i \<and> i \<le> 2147483647"

lemma sint_INT_MAXIMUM [simp]: "sint PPHP_INT_MAXIMUM = 2147483647"
  by (simp add: PPHP_INT_MAXIMUM_def)

lemma sint_INT_MINIMUM [simp]: "sint PPHP_INT_MINIMUM = - 2147483648"
  by (simp add: PPHP_INT_MINIMUM_def)

lemma sint_ge32: "- 2147483648 \<le> sint (x :: 32 word)"
  using sint_greater_eq [of x] by simp

lemma sint_le32: "sint (x :: 32 word) \<le> 2147483647"
  using sint_less [of x] by simp

lemma sint_in_range [simp, intro]: "int_in_range (sint (x :: 32 word))"
  using sint_ge32 [of x] sint_le32 [of x] by (simp add: int_in_range_def)

lemma sint_of_int32 [sint_exact]:
  assumes "int_in_range i"
  shows "sint (word_of_int i :: 32 word) = i"
proof -
  have "signed_take_bit 31 i = i"
    by (rule signed_take_bit_int_eq_self) (use assms in \<open>simp_all add: int_in_range_def\<close>)
  then show ?thesis by (simp add: signed_of_int)
qed

lemma sint_add32 [sint_exact]:
  fixes a b :: "32 word"
  assumes "int_in_range (sint a + sint b)"
  shows "sint (a + b) = sint a + sint b"
proof -
  have "a + b = word_of_int (sint a + sint b)" by simp
  then show ?thesis using sint_of_int32 [OF assms] by simp
qed

lemma sint_sub32 [sint_exact]:
  fixes a b :: "32 word"
  assumes "int_in_range (sint a - sint b)"
  shows "sint (a - b) = sint a - sint b"
proof -
  have "a - b = word_of_int (sint a - sint b)" by simp
  then show ?thesis using sint_of_int32 [OF assms] by simp
qed

lemma sint_mult32 [sint_exact]:
  fixes a b :: "32 word"
  assumes "int_in_range (sint a * sint b)"
  shows "sint (a * b) = sint a * sint b"
proof -
  have "a * b = word_of_int (sint a * sint b)" by simp
  then show ?thesis using sint_of_int32 [OF assms] by simp
qed

lemma sint_neg32 [sint_exact]:
  fixes a :: "32 word"
  assumes "int_in_range (- sint a)"
  shows "sint (- a) = - sint a"
proof -
  have "- a = word_of_int (- sint a)" by simp
  then show ?thesis using sint_of_int32 [OF assms] by simp
qed

lemma sint_eq_iff32: "sint (a :: 32 word) = sint b \<longleftrightarrow> a = b"
  using word_eq_iff_signed by blast

section \<open>C's truncating division on \<open>pphp_int\<close>\<close>

definition c_div :: "pphp_int \<Rightarrow> pphp_int \<Rightarrow> pphp_int" where
  "c_div a b = word_of_int (sint a sdiv sint b)"

definition c_rem :: "pphp_int \<Rightarrow> pphp_int \<Rightarrow> pphp_int" where
  "c_rem a b = word_of_int (sint a smod sint b)"

section \<open>Checked reads\<close>

text \<open>
  \<open>rd xs i\<close> is the element at index \<open>i\<close>, or \<open>None\<close> where the C program would read
  outside the object.
\<close>

definition rd :: "'a list \<Rightarrow> nat \<Rightarrow> 'a option" where
  "rd xs i = (if i < length xs then Some (xs ! i) else None)"

lemma rd_Some [simp]: "i < length xs \<Longrightarrow> rd xs i = Some (xs ! i)"
  by (simp add: rd_def)

lemma rd_None [simp]: "length xs \<le> i \<Longrightarrow> rd xs i = None"
  by (simp add: rd_def)

lemma rd_eq_Some_iff: "rd xs i = Some x \<longleftrightarrow> i < length xs \<and> xs ! i = x"
  by (auto simp: rd_def)

lemma rd_append_left: "i < length xs \<Longrightarrow> rd (xs @ ys) i = rd xs i"
  by (simp add: rd_def nth_append)

lemma rd_append_right: "length xs \<le> i \<Longrightarrow> rd (xs @ ys) i = rd ys (i - length xs)"
  by (auto simp: rd_def nth_append)

section \<open>Masks\<close>

unbundle bit_operations_syntax

lemma and_mask_mod: "n AND (2 ^ k - 1) = n mod (2 ^ k :: nat)"
  by (metis mask_eq_exp_minus_1 take_bit_eq_mask take_bit_eq_mod)

section \<open>Characters as bytes\<close>

definition ord :: "char \<Rightarrow> nat" where
  "ord c = of_char c"

lemma ord_less_256 [simp]: "ord c < 256"
  by (simp add: ord_def)

definition is_digit :: "char \<Rightarrow> bool" where
  "is_digit c \<longleftrightarrow> ord CHR ''0'' \<le> ord c \<and> ord c \<le> ord CHR ''9''"

definition digit_value :: "char \<Rightarrow> nat" where
  "digit_value c = ord c - ord CHR ''0''"

lemma digit_value_less_10: "is_digit c \<Longrightarrow> digit_value c < 10"
  unfolding is_digit_def digit_value_def ord_def by (simp; linarith)

definition digit_char :: "nat \<Rightarrow> char" where
  "digit_char d = char_of (ord CHR ''0'' + d)"

lemma ord_digit_char: "d < 10 \<Longrightarrow> ord (digit_char d) = 48 + d"
  by (simp add: digit_char_def ord_def)

lemma is_digit_digit_char [simp]: "d < 10 \<Longrightarrow> is_digit (digit_char d)"
  by (simp add: is_digit_def ord_digit_char) (simp add: ord_def)

lemma digit_value_digit_char [simp]: "d < 10 \<Longrightarrow> digit_value (digit_char d) = d"
  by (simp add: digit_value_def ord_digit_char) (simp add: ord_def)

lemma digit_char_digit_value: "is_digit c \<Longrightarrow> digit_char (digit_value c) = c"
  by (simp add: is_digit_def digit_char_def digit_value_def ord_def)

end
