(* ===== verification/IntOps.thy ===== *)
theory IntOps
  imports Prelude
begin

text \<open>
  Checked integer arithmetic of \<open>src/value_ops.c\<close>: addition, subtraction,
  multiplication, negation, exponentiation, shifts and decimal formatting of
  \<open>pphp_int\<close>.  A function that stores through \<open>result\<close> and returns 1 is an option here:
  \<open>None\<close> is the return value 0, with \<open>*result\<close> not written.

  The lemmas show that each guard is exact: the operation fails precisely when the
  mathematical result does not fit in \<open>pphp_int\<close>, and otherwise returns it.
\<close>

unbundle bit_operations_syntax

section \<open>Addition, subtraction, multiplication, negation\<close>

definition pphp_integer_add :: "pphp_int \<Rightarrow> pphp_int \<Rightarrow> pphp_int option" where
  "pphp_integer_add left right =
     (if (0 <s right \<and> PPHP_INT_MAXIMUM - right <s left) \<or>
         (right <s 0 \<and> left <s PPHP_INT_MINIMUM - right)
      then None else Some (left + right))"

definition pphp_integer_subtract :: "pphp_int \<Rightarrow> pphp_int \<Rightarrow> pphp_int option" where
  "pphp_integer_subtract left right =
     (if (0 <s right \<and> left <s PPHP_INT_MINIMUM + right) \<or>
         (right <s 0 \<and> PPHP_INT_MAXIMUM + right <s left)
      then None else Some (left - right))"

definition pphp_integer_multiply :: "pphp_int \<Rightarrow> pphp_int \<Rightarrow> pphp_int option" where
  "pphp_integer_multiply left right =
     (if 0 <s left \<and>
         ((0 <s right \<and> c_div PPHP_INT_MAXIMUM right <s left) \<or>
          (right <s 0 \<and> right <s c_div PPHP_INT_MINIMUM left)) then None
      else if \<not> 0 <s left \<and> left <s 0 \<and>
         ((0 <s right \<and> left <s c_div PPHP_INT_MINIMUM right) \<or>
          (right <s 0 \<and> left <s c_div PPHP_INT_MAXIMUM right)) then None
      else Some (left * right))"

definition pphp_integer_negate :: "pphp_int \<Rightarrow> pphp_int option" where
  "pphp_integer_negate v = (if v = PPHP_INT_MINIMUM then None else Some (- v))"

definition pphp_integer_division_overflows :: "pphp_int \<Rightarrow> pphp_int \<Rightarrow> bool" where
  "pphp_integer_division_overflows left right \<longleftrightarrow> left = PPHP_INT_MINIMUM \<and> right = -1"

text \<open>
  \<open>while (exponent != 0)\<close> of \<open>pphp_integer_power\<close>; the guard \<open>exponent < 0\<close> has been
  taken, so \<open>exponent >>= 1\<close> is a shift of a non-negative value.
\<close>

function power_loop :: "pphp_int \<Rightarrow> pphp_int \<Rightarrow> pphp_int \<Rightarrow> pphp_int option" where
  "power_loop v base exponent =
     (if exponent = 0 then Some v
      else
        (case (if exponent AND 1 \<noteq> 0 then pphp_integer_multiply v base else Some v) of
           None \<Rightarrow> None
         | Some v' \<Rightarrow>
             let exponent' = drop_bit 1 exponent in
             (case (if exponent' \<noteq> 0 then pphp_integer_multiply base base else Some base) of
                None \<Rightarrow> None
              | Some base' \<Rightarrow> power_loop v' base' exponent')))"
  by pat_completeness auto
termination
proof (relation "measure (\<lambda>(v, base, e). unat e)")
  show "wf (measure (\<lambda>(v :: pphp_int, base :: pphp_int, e :: pphp_int). unat e))" by simp
next
  fix v base exponent v' exponent' base' :: pphp_int
  assume "exponent \<noteq> 0" "exponent' = drop_bit 1 exponent"
  then show "((v', base', exponent'), (v, base, exponent)) \<in> measure (\<lambda>(v, base, e). unat e)"
    by (simp add: unat_drop_bit_eq drop_bit_eq_div unat_gt_0 unat_div div_less_dividend)
qed

declare power_loop.simps [simp del]

definition pphp_integer_power :: "pphp_int \<Rightarrow> pphp_int \<Rightarrow> pphp_int option" where
  "pphp_integer_power base exponent =
     (if exponent <s 0 then None else power_loop 1 base exponent)"

section \<open>Shifts\<close>

definition integer_shift_left :: "pphp_int \<Rightarrow> pphp_int \<Rightarrow> pphp_int" where
  "integer_shift_left v distance =
     (let width = 32 :: nat;
          shift = unat ((scast distance :: u64) AND of_nat (width - 1))
      in push_bit shift v)"

definition integer_shift_right :: "pphp_int \<Rightarrow> pphp_int \<Rightarrow> pphp_int" where
  "integer_shift_right v distance =
     (let width = 32 :: nat;
          shift = unat ((scast distance :: u64) AND of_nat (width - 1))
      in
        if shift = 0 then v
        else if 0 \<le>s v then ucast (drop_bit shift (scast v :: u64))
        else
          let magnitude = (0 :: u64) - scast v;
              quotient = drop_bit shift magnitude;
              remainder_mask = push_bit shift (1 :: u64) - 1;
              quotient = (if magnitude AND remainder_mask \<noteq> 0 then quotient + 1 else quotient)
          in
            if quotient = scast PPHP_INT_MAXIMUM + 1 then PPHP_INT_MINIMUM
            else - (ucast quotient :: pphp_int))"

section \<open>Decimal formatting\<close>

text \<open>
  The digits are produced least significant first in \<open>reversed\<close> (a do-while loop: at
  least one digit), then copied back to front.
\<close>

function reversed_digits :: "u32 \<Rightarrow> bytes" where
  "reversed_digits magnitude =
     digit_char (unat (magnitude mod 10)) #
     (if magnitude div 10 \<noteq> 0 then reversed_digits (magnitude div 10) else [])"
  by pat_completeness auto
termination
proof (relation "measure unat")
  show "wf (measure (unat :: u32 \<Rightarrow> nat))" by simp
next
  fix magnitude :: u32
  assume "magnitude div 10 \<noteq> 0"
  then have "0 < unat magnitude" by (metis div_0 unat_gt_0)
  then show "(magnitude div 10, magnitude) \<in> measure unat"
    by (simp add: unat_div div_less_dividend)
qed

declare reversed_digits.simps [simp del]

text \<open>\<open>None\<close> is the return value -1 (the buffer is too small); the terminating NUL is dropped.\<close>

definition pphp_format_integer :: "nat \<Rightarrow> pphp_int \<Rightarrow> bytes option" where
  "pphp_format_integer capacity v =
     (let magnitude = (if v <s 0 then (- (v + 1)) + 1 else v);
          reversed = reversed_digits magnitude @ (if v <s 0 then [CHR ''-''] else [])
      in if capacity \<le> length reversed then None else Some (rev reversed))"

section \<open>The guards are exact\<close>

lemma word_sless_sint: "(a :: 32 word) <s b \<longleftrightarrow> sint a < sint b"
  by (simp add: word_sless_alt)

lemma word_sle_sint: "(a :: 32 word) \<le>s b \<longleftrightarrow> sint a \<le> sint b"
  by (simp add: word_sle_eq)

lemmas signed_order = word_sless_sint word_sle_sint

lemma integer_add_iff:
  "pphp_integer_add left right = Some v \<longleftrightarrow>
     int_in_range (sint left + sint right) \<and> sint v = sint left + sint right"
proof -
  note r = sint_ge32 [of left] sint_le32 [of left] sint_ge32 [of right] sint_le32 [of right]
  have up: "sint (PPHP_INT_MAXIMUM - right) = 2147483647 - sint right" if "0 < sint right"
    using that r by (subst sint_sub32) (simp_all add: int_in_range_def)
  have lo: "sint (PPHP_INT_MINIMUM - right) = - 2147483648 - sint right" if "sint right < 0"
    using that r by (subst sint_sub32) (simp_all add: int_in_range_def)
  have "(0 <s right \<and> PPHP_INT_MAXIMUM - right <s left) \<or>
        (right <s 0 \<and> left <s PPHP_INT_MINIMUM - right) \<longleftrightarrow>
        \<not> int_in_range (sint left + sint right)"
    using r up lo by (auto simp: signed_order int_in_range_def)
  then show ?thesis
    by (auto simp: pphp_integer_add_def sint_add32 sint_eq_iff32 [symmetric])
qed

lemma integer_subtract_iff:
  "pphp_integer_subtract left right = Some v \<longleftrightarrow>
     int_in_range (sint left - sint right) \<and> sint v = sint left - sint right"
proof -
  note r = sint_ge32 [of left] sint_le32 [of left] sint_ge32 [of right] sint_le32 [of right]
  have lo: "sint (PPHP_INT_MINIMUM + right) = - 2147483648 + sint right" if "0 < sint right"
    using that r by (subst sint_add32) (simp_all add: int_in_range_def)
  have up: "sint (PPHP_INT_MAXIMUM + right) = 2147483647 + sint right" if "sint right < 0"
    using that r by (subst sint_add32) (simp_all add: int_in_range_def)
  have "(0 <s right \<and> left <s PPHP_INT_MINIMUM + right) \<or>
        (right <s 0 \<and> PPHP_INT_MAXIMUM + right <s left) \<longleftrightarrow>
        \<not> int_in_range (sint left - sint right)"
    using r up lo by (auto simp: signed_order int_in_range_def)
  then show ?thesis
    by (auto simp: pphp_integer_subtract_def sint_sub32 sint_eq_iff32 [symmetric])
qed

lemma sint_c_div:
  assumes "\<not> (a = PPHP_INT_MINIMUM \<and> b = -1)"
  shows "sint (c_div a b) = sint a sdiv sint b"
proof -
  have "int_in_range (sint a sdiv sint b)"
  proof (cases "\<bar>sint b\<bar> \<le> 1")
    case True
    then consider "sint b = 0" | "sint b = 1" | "sint b = -1" by linarith
    then show ?thesis
    proof cases
      case 3
      then have "b = -1" by (metis sint_eq_iff32 sint_n1)
      with assms have "sint a \<noteq> - 2147483648"
        by (metis sint_INT_MINIMUM sint_eq_iff32)
      with 3 sint_ge32 [of a] sint_le32 [of a] show ?thesis
        by (simp add: int_in_range_def)
    qed (use sint_ge32 [of a] sint_le32 [of a] in \<open>simp_all add: int_in_range_def\<close>)
  next
    case False
    then have "\<bar>sint a\<bar> div \<bar>sint b\<bar> \<le> \<bar>sint a\<bar> div 2"
      by (intro zdiv_mono2) simp_all
    moreover have "\<bar>sint a\<bar> div 2 \<le> 1073741824"
      using sint_ge32 [of a] sint_le32 [of a] by linarith
    moreover have "0 \<le> \<bar>sint a\<bar> div \<bar>sint b\<bar>"
      using False by (intro pos_imp_zdiv_nonneg_iff [THEN iffD2]) simp_all
    ultimately show ?thesis
      by (auto simp: int_in_range_def signed_divide_int_def sgn_if)
  qed
  then show ?thesis by (simp add: c_div_def sint_of_int32)
qed

lemma int_div_less_iff:
  fixes M a b :: int
  assumes "0 < b"
  shows "M div b < a \<longleftrightarrow> M < a * b"
proof -
  have d: "M = b * (M div b) + M mod b" and m: "0 \<le> M mod b" "M mod b < b"
    using assms by simp_all
  show ?thesis
  proof
    assume "M div b < a"
    then have "b * (M div b + 1) \<le> b * a" using assms by simp
    with d m(2) show "M < a * b" by (simp only: distrib_left mult_1_right mult.commute [of a b])
  next
    assume "M < a * b"
    with d m(1) have "b * (M div b) < b * a" unfolding mult.commute [of b a] by linarith
    then show "M div b < a" using assms by simp
  qed
qed

lemma int_less_neg_div_iff:
  fixes M a b :: int
  assumes "0 < b"
  shows "a < - (M div b) \<longleftrightarrow> M < - a * b"
  using int_div_less_iff [OF assms, of M "- a"] by linarith

lemma multiply_guard_pos_pos:
  assumes "0 < sint left" "0 < sint right"
  shows "c_div PPHP_INT_MAXIMUM right <s left \<longleftrightarrow> 2147483647 < sint left * sint right"
proof -
  have "sint (c_div PPHP_INT_MAXIMUM right) = 2147483647 div sint right"
    using assms by (subst sint_c_div)
      (auto simp: signed_divide_int_def PPHP_INT_MAXIMUM_def PPHP_INT_MINIMUM_def)
  then show ?thesis
    using int_div_less_iff [OF assms(2)] by (simp add: signed_order)
qed

lemma multiply_guard_min:
  assumes "0 < sint l" "sint r < 0"
  shows "r <s c_div PPHP_INT_MINIMUM l \<longleftrightarrow> sint l * sint r < - 2147483648"
proof -
  have "sint (c_div PPHP_INT_MINIMUM l) = - (2147483648 div sint l)"
    using assms by (subst sint_c_div) (auto simp: signed_divide_int_def)
  then have "r <s c_div PPHP_INT_MINIMUM l \<longleftrightarrow> 2147483648 < - sint r * sint l"
    using int_less_neg_div_iff [OF assms(1)] by (simp add: signed_order)
  then show ?thesis by (simp add: mult.commute) linarith
qed

lemma multiply_guard_neg_neg:
  assumes "sint left < 0" "sint right < 0"
  shows "left <s c_div PPHP_INT_MAXIMUM right \<longleftrightarrow> 2147483647 < sint left * sint right"
proof -
  have "sint (c_div PPHP_INT_MAXIMUM right) = - (2147483647 div (- sint right))"
    using assms by (subst sint_c_div)
      (auto simp: signed_divide_int_def PPHP_INT_MAXIMUM_def PPHP_INT_MINIMUM_def)
  then show ?thesis
    using int_less_neg_div_iff [of "- sint right" "sint left"] assms(2)
    by (simp add: signed_order)
qed

lemma integer_multiply_iff:
  "pphp_integer_multiply left right = Some v \<longleftrightarrow>
     int_in_range (sint left * sint right) \<and> sint v = sint left * sint right"
proof -
  let ?p = "sint left * sint right"
  have guard: "pphp_integer_multiply left right =
      (if int_in_range ?p then Some (left * right) else None)"
  proof -
    consider "sint left = 0 \<or> sint right = 0" | "0 < sint left" "0 < sint right"
      | "0 < sint left" "sint right < 0" | "sint left < 0" "0 < sint right"
      | "sint left < 0" "sint right < 0" by linarith
    then show ?thesis
    proof cases
      case 1
      then show ?thesis
        by (auto simp: pphp_integer_multiply_def signed_order int_in_range_def)
    next
      case 2
      then have "- 2147483648 \<le> ?p" using mult_pos_pos [of "sint left" "sint right"] by linarith
      with 2 show ?thesis
        by (auto simp: pphp_integer_multiply_def multiply_guard_pos_pos signed_order [of 0]
            signed_order [of _ 0] int_in_range_def)
    next
      case 3
      then have "?p \<le> 2147483647" using mult_pos_neg [of "sint left" "sint right"] by linarith
      with 3 show ?thesis
        by (auto simp: pphp_integer_multiply_def multiply_guard_min signed_order [of 0]
            signed_order [of _ 0] int_in_range_def)
    next
      case 4
      then have "?p \<le> 2147483647" using mult_neg_pos [of "sint left" "sint right"] by linarith
      with 4 multiply_guard_min [of right left] show ?thesis
        by (auto simp: pphp_integer_multiply_def signed_order [of 0]
            signed_order [of _ 0] int_in_range_def mult.commute)
    next
      case 5
      then have "- 2147483648 \<le> ?p" using mult_neg_neg [of "sint left" "sint right"] by linarith
      with 5 show ?thesis
        by (auto simp: pphp_integer_multiply_def multiply_guard_neg_neg signed_order [of 0]
            signed_order [of _ 0] int_in_range_def)
    qed
  qed
  then show ?thesis
    by (auto simp: sint_mult32 sint_eq_iff32 [symmetric])
qed

lemma integer_negate_iff:
  "pphp_integer_negate a = Some v \<longleftrightarrow> int_in_range (- sint a) \<and> sint v = - sint a"
proof -
  have "a = PPHP_INT_MINIMUM \<longleftrightarrow> \<not> int_in_range (- sint a)"
    using sint_ge32 [of a] sint_le32 [of a]
    by (auto simp: int_in_range_def sint_eq_iff32 [symmetric])
  then show ?thesis
    by (auto simp: pphp_integer_negate_def sint_neg32 sint_eq_iff32 [symmetric])
qed

section \<open>Exponentiation by squaring\<close>

text \<open>
  Once some power of the base leaves the range, every higher power does: the early
  \<open>return 0\<close> of the loop never loses a representable result.
\<close>

lemma power_out_of_range_mono:
  fixes b :: int
  assumes "\<not> int_in_range (b ^ k)" "k \<le> e"
  shows "\<not> int_in_range (b ^ e)"
proof -
  have big: "2147483648 \<le> \<bar>b ^ k\<bar>"
    using assms(1) by (auto simp: int_in_range_def)
  have b2: "2 \<le> \<bar>b\<bar>"
  proof (rule ccontr)
    assume "\<not> 2 \<le> \<bar>b\<bar>"
    then have "\<bar>b\<bar> \<le> 1" by linarith
    then have "\<bar>b ^ k\<bar> \<le> 1" by (simp add: power_abs power_le_one)
    with big show False by simp
  qed
  show ?thesis
  proof (cases "k = e")
    case True
    with assms(1) show ?thesis by simp
  next
    case False
    with assms(2) have ke: "Suc k \<le> e" by simp
    have "2 * \<bar>b ^ k\<bar> \<le> \<bar>b\<bar> * \<bar>b ^ k\<bar>"
      using b2 by (intro mult_right_mono) simp_all
    also have "\<dots> = \<bar>b\<bar> ^ Suc k" by (simp add: power_abs)
    also have "\<dots> \<le> \<bar>b\<bar> ^ e"
      using b2 ke by (intro power_increasing) simp_all
    finally have "2 * 2147483648 \<le> \<bar>b ^ e\<bar>" using big by (simp add: power_abs)
    then show ?thesis by (auto simp: int_in_range_def)
  qed
qed


lemma word_and_1_odd: "(e :: 32 word) AND 1 \<noteq> 0 \<longleftrightarrow> odd (unat e)"
proof -
  have "e AND 1 = of_bool (odd e)" by (simp add: and_one_eq mod_2_eq_odd)
  moreover have "odd e \<longleftrightarrow> odd (unat e)"
    by (simp add: bit_0 [symmetric] bit_unsigned_iff del: bit_0)
  ultimately show ?thesis by simp
qed

lemma unat_halve: "unat (drop_bit 1 (e :: 32 word)) = unat e div 2"
  by (simp add: unat_drop_bit_eq drop_bit_eq_div unat_div)

lemma power_loop_correct:
  assumes "sint base = b ^ m" "sint v = b ^ n"
  shows "case power_loop v base e of
           None \<Rightarrow> \<not> int_in_range (b ^ (n + m * unat e))
         | Some r \<Rightarrow> sint r = b ^ (n + m * unat e)"
  using assms
proof (induction v base e arbitrary: m n rule: power_loop.induct)
  case (1 v base e)
  note base = "1.prems"(1) and v = "1.prems"(2)
  show ?case
  proof (cases "e = 0")
    case True
    with v show ?thesis by (simp add: power_loop.simps)
  next
    case False
    define k where "k = unat e"
    have k: "0 < k" using False by (simp add: k_def unat_gt_0)
    let ?e' = "drop_bit 1 e"
    have e': "unat ?e' = k div 2" by (simp only: unat_halve k_def)
    have odd: "e AND 1 \<noteq> 0 \<longleftrightarrow> odd k" by (simp only: word_and_1_odd k_def)
    define V where "V = (if odd k then pphp_integer_multiply v base else Some v)"
    define n' where "n' = (if odd k then n + m else n)"
    have step: "power_loop v base e =
        (case V of None \<Rightarrow> None
         | Some v' \<Rightarrow>
            (case (if ?e' \<noteq> 0 then pphp_integer_multiply base base else Some base) of
               None \<Rightarrow> None
             | Some base' \<Rightarrow> power_loop v' base' ?e'))"
      using False by (subst power_loop.simps) (simp only: odd V_def Let_def if_False)
    have n'_le: "n' \<le> n + m * k" using k by (auto simp: n'_def)
    show ?thesis
    proof (cases V)
      case None
      then have "odd k" "\<not> int_in_range (b ^ n')"
        using integer_multiply_iff [of v base] base v
        by (auto simp: V_def n'_def power_add sint_mult32 split: if_splits)
          (metis not_None_eq integer_multiply_iff sint_mult32)
      then show ?thesis
        using power_out_of_range_mono [OF _ n'_le] step None by (simp add: k_def)
    next
      case (Some v')
      then have v': "sint v' = b ^ n'"
        using integer_multiply_iff [of v base v'] base v
        by (auto simp: V_def n'_def power_add split: if_splits)
      show ?thesis
      proof (cases "?e' = 0")
        case True
        then have "k = 1" using e' k by simp
        with True v' step Some show ?thesis
          by (simp add: power_loop.simps n'_def k_def)
      next
        case e'0: False
        then have k2: "2 \<le> k" using e' k by (metis div_less not_less unat_eq_zero)
        show ?thesis
        proof (cases "pphp_integer_multiply base base")
          case None
          then have "\<not> int_in_range (b ^ (m + m))"
            using integer_multiply_iff [of base base] base
            by (metis not_None_eq power_add sint_mult32)
          moreover have "m + m \<le> n + m * k"
            using k2 by (metis add.commute le_add2 le_trans mult.commute mult_2 mult_le_mono1)
          ultimately show ?thesis
            using power_out_of_range_mono step Some None e'0 by (simp add: k_def)
        next
          case base': (Some base')
          then have "sint base' = b ^ (m + m)"
            using integer_multiply_iff [of base base base'] base by (simp add: power_add)
          then have "case power_loop v' base' ?e' of
              None \<Rightarrow> \<not> int_in_range (b ^ (n' + (m + m) * unat ?e'))
            | Some r \<Rightarrow> sint r = b ^ (n' + (m + m) * unat ?e')"
            using False Some base' e'0 v'
            by (intro "1.IH" [OF False _ refl]) (simp_all only: odd V_def if_True not_False_eq_True)
          moreover have "n' + (m + m) * unat ?e' = n + m * unat e"
          proof -
            have "k = (if odd k then 1 else 0) + 2 * (k div 2)" by presburger
            then have "m * k = m * ((if odd k then 1 else 0) + 2 * (k div 2))"
              by (rule arg_cong)
            then have "m * k = m * (if odd k then 1 else 0) + (m + m) * (k div 2)"
              by (simp only: distrib_left distrib_right mult_2)
            then show ?thesis
              by (cases "odd k") (simp_all only: e' n'_def k_def [symmetric] if_True if_False
                  not_False_eq_True mult_1_right mult_0_right add_0_left add.assoc)
          qed
          moreover have "power_loop v base e = power_loop v' base' ?e'"
            unfolding step Some using base' e'0 by (simp only: option.case if_True not_False_eq_True)
          ultimately show ?thesis by (simp only:)
        qed
      qed
    qed
  qed
qed

lemma sint_uint32:
  "sint (x :: 32 word) = (if uint x < 2147483648 then uint x else uint x - 4294967296)"
proof -
  have r: "0 \<le> uint x" "uint x < 4294967296" using uint_lt2p [of x] by simp_all
  show ?thesis
  proof (cases "uint x < 2147483648")
    case True
    then have "sint (word_of_int (uint x) :: 32 word) = uint x"
      using r by (intro sint_of_int32) (unfold int_in_range_def, linarith)
    with True show ?thesis by simp
  next
    case False
    have "word_of_int (uint x - 4294967296) = x"
      by simp
    then show ?thesis
      using sint_of_int32 [of "uint x - 4294967296"] False r
      by (simp only: int_in_range_def if_False) linarith
  qed
qed

lemma nat_sint32: "0 \<le> sint (x :: 32 word) \<Longrightarrow> nat (sint x) = unat x"
  using uint_lt2p [of x] by (auto simp: sint_uint32 split: if_splits)

lemma integer_power_iff:
  assumes "0 \<le> sint exponent"
  shows "pphp_integer_power base exponent = Some v \<longleftrightarrow>
    int_in_range (sint base ^ nat (sint exponent)) \<and> sint v = sint base ^ nat (sint exponent)"
proof -
  have neg: "\<not> exponent <s 0" using assms by (simp add: signed_order)
  have "case power_loop 1 base exponent of
          None \<Rightarrow> \<not> int_in_range (sint base ^ (0 + 1 * unat exponent))
        | Some r \<Rightarrow> sint r = sint base ^ (0 + 1 * unat exponent)"
    by (rule power_loop_correct) simp_all
  then show ?thesis
    using neg sint_in_range
    by (auto simp: pphp_integer_power_def nat_sint32 [OF assms] sint_eq_iff32 [symmetric]
        split: option.splits)
qed

lemma integer_power_negative: "sint exponent < 0 \<Longrightarrow> pphp_integer_power base exponent = None"
  by (simp add: pphp_integer_power_def signed_order)

section \<open>Shifts\<close>

lemma uint_scast64: "uint (scast (v :: pphp_int) :: u64) = take_bit 64 (sint v)"
  unfolding scast_eq by (rule uint_word_of_int_eq [where 'a = 64, simplified])

lemma shift_amount:
  "unat ((scast (d :: pphp_int) :: u64) AND of_nat (32 - 1)) = nat (sint d mod 32)"
proof -
  have "(scast d :: u64) AND of_nat (32 - 1) = take_bit 5 (scast d :: u64)"
    by (simp add: take_bit_eq_mask mask_eq_exp_minus_1)
  also have "uint \<dots> = take_bit 5 (sint d)"
    by (simp add: unsigned_take_bit_eq uint_scast64)
  finally show ?thesis by (simp add: take_bit_eq_mod unat_eq_nat_uint)
qed

lemma integer_shift_left_value:
  "integer_shift_left v d = word_of_int (sint v * 2 ^ nat (sint d mod 32))"
  by (simp add: integer_shift_left_def shift_amount [simplified] push_bit_eq_mult)

text \<open>
  The right shift works on the magnitude, because C leaves the shift of a negative value
  to the implementation; it is the arithmetic shift, rounding towards minus infinity.
\<close>

lemma ceiling_quotient:
  fixes m p :: int
  assumes "0 < p"
  shows "(- m) div p = - (if m mod p \<noteq> 0 then m div p + 1 else m div p)"
  using zdiv_zminus1_eq_if [of p m] assms by auto

lemma sint_ucast64:
  assumes "uint (w :: u64) \<le> 2147483647"
  shows "sint (ucast w :: pphp_int) = uint w"
  unfolding ucast_eq
  by (rule sint_of_int32) (use assms uint_ge_0 [of w] in \<open>unfold int_in_range_def, linarith\<close>)

lemma uint_drop_bit64: "uint (drop_bit s (w :: u64)) = uint w div 2 ^ s"
proof -
  have "take_bit 64 (uint w) = uint w"
    using uint_lt2p [of w] by (simp add: take_bit_int_eq_self)
  then show ?thesis
    unfolding unsigned_drop_bit_eq by (simp add: drop_bit_eq_div)
qed

lemma shift_right_positive:
  fixes v :: pphp_int
  assumes "0 \<le> sint v" "s < 32"
  shows "sint (ucast (drop_bit s (scast v :: u64)) :: pphp_int) = sint v div 2 ^ s"
proof -
  have "uint (scast v :: u64) = sint v"
    using assms sint_le32 [of v] by (simp add: uint_scast64 take_bit_int_eq_self)
  then have "uint (drop_bit s (scast v :: u64)) = sint v div 2 ^ s"
    by (simp only: uint_drop_bit64)
  moreover have "sint v div 2 ^ s \<le> sint v"
    using zdiv_mono2 [of "sint v" 1 "2 ^ s"] assms by simp
  ultimately show ?thesis
    using sint_le32 [of v] by (subst sint_ucast64) simp_all
qed

lemma shift_right_magnitude:
  fixes v :: pphp_int
  assumes "sint v < 0"
  shows "uint ((0 :: u64) - scast v) = - sint v"
proof -
  have "(0 :: u64) - scast v = word_of_int (- sint v)"
    unfolding scast_eq by (simp only: of_int_minus diff_0)
  also have "uint \<dots> = take_bit 64 (- sint v)"
    by (rule uint_word_of_int_eq [where 'a = 64, simplified])
  also have "\<dots> = - sint v"
    using assms sint_ge32 [of v] by (simp add: take_bit_int_eq_self)
  finally show ?thesis .
qed

lemma remainder_mask_iff:
  assumes "s < 64"
  shows "(w :: u64) AND (push_bit s 1 - 1) \<noteq> 0 \<longleftrightarrow> uint w mod 2 ^ s \<noteq> 0"
proof -
  have "w AND (push_bit s 1 - 1) = take_bit s w"
    by (simp add: take_bit_eq_mask mask_eq_exp_minus_1 push_bit_of_1)
  then have "uint (w AND (push_bit s 1 - 1)) = uint w mod 2 ^ s"
    by (simp only: unsigned_take_bit_eq) (simp only: take_bit_eq_mod)
  then show ?thesis by (metis uint_0_iff)
qed

lemma integer_shift_right_floor:
  "sint (integer_shift_right v d) = sint v div 2 ^ nat (sint d mod 32)"
proof -
  define s where "s = nat (sint d mod 32)"
  have s32: "s < 32" by (simp add: s_def nat_less_iff)
  have amount: "unat ((scast d :: u64) AND of_nat (32 - 1)) = s"
    by (simp only: shift_amount s_def)
  show ?thesis
  proof (cases "s = 0 \<or> 0 \<le> sint v")
    case True
    then show ?thesis
      unfolding integer_shift_right_def Let_def amount s_def [symmetric] signed_order
      using shift_right_positive [OF _ s32] by auto
  next
    case False
    define m where "m = - sint v"
    define q where "q = (if m mod 2 ^ s \<noteq> 0 then m div 2 ^ s + 1 else m div 2 ^ s)"
    define magnitude where "magnitude = (0 :: u64) - scast v"
    define Q where "Q = (if magnitude AND (push_bit s 1 - 1) \<noteq> 0
      then drop_bit s magnitude + 1 else drop_bit s magnitude)"
    have m: "0 < m" "m \<le> 2147483648" using False sint_ge32 [of v] by (simp_all add: m_def)
    have mag: "uint magnitude = m"
      using shift_right_magnitude [of v] False by (simp add: magnitude_def m_def)
    have half: "0 \<le> m div 2 ^ s" "m div 2 ^ s \<le> 1073741824"
    proof -
      have "(2 :: int) ^ 1 \<le> 2 ^ s" using False by (intro power_increasing) simp_all
      then have "m div 2 ^ s \<le> m div 2" using m by (intro zdiv_mono2) simp_all
      then show "m div 2 ^ s \<le> 1073741824" using m by linarith
    qed (use m in \<open>simp add: pos_imp_zdiv_nonneg_iff\<close>)
    have "uint (drop_bit s magnitude + 1) = m div 2 ^ s + 1"
      using half by (subst uint_plus_simple_iff [THEN iffD1])
        (simp_all add: uint_drop_bit64 mag word_le_def uint_word_ariths del: drop_bit_eq_div)
    then have Q: "uint Q = q"
      using s32 by (simp only: Q_def q_def remainder_mask_iff mag uint_drop_bit64 split: if_split) simp
    have q: "0 \<le> q" "q \<le> 1073741825" using half by (auto simp: q_def)
    have notmin: "Q \<noteq> scast PPHP_INT_MAXIMUM + 1"
      using Q q by (auto simp: PPHP_INT_MAXIMUM_def)
    have "integer_shift_right v d = - ucast Q"
      unfolding integer_shift_right_def Let_def amount signed_order
      using False notmin
      by (simp only: de_Morgan_disj if_False sint_0 Q_def [symmetric] magnitude_def [symmetric])
    moreover have "sint (- (ucast Q :: pphp_int)) = - q"
      using q Q by (subst sint_neg32) (simp_all add: sint_ucast64 int_in_range_def)
    moreover have "sint v div 2 ^ s = - q"
      using ceiling_quotient [of "2 ^ s" m] by (simp add: m_def q_def)
    ultimately show ?thesis by (simp add: s_def)
  qed
qed

section \<open>Decimal formatting\<close>

text \<open>The decimal numeral of a natural number, most significant digit first.\<close>

fun decimal :: "nat \<Rightarrow> bytes" where
  "decimal n = (if n < 10 then [digit_char n] else decimal (n div 10) @ [digit_char (n mod 10)])"

declare decimal.simps [simp del]

lemma rev_reversed_digits: "rev (reversed_digits m) = decimal (unat m)"
proof (induction m rule: reversed_digits.induct)
  case (1 m)
  have d: "unat (m mod 10) = unat m mod 10" "unat (m div 10) = unat m div 10"
    by (simp_all add: unat_mod unat_div)
  have z: "m div 10 = 0 \<longleftrightarrow> unat m < 10"
    using d(2) by (metis div_eq_0_iff unat_eq_zero zero_neq_numeral)
  show ?case
  proof (cases "unat m < 10")
    case True
    then show ?thesis using z d
      by (subst reversed_digits.simps, subst decimal.simps) simp
  next
    case False
    then show ?thesis using "1.IH" z d
      by (subst reversed_digits.simps, subst decimal.simps) simp
  qed
qed

lemma length_decimal: "0 < k \<Longrightarrow> n < 10 ^ k \<Longrightarrow> length (decimal n) \<le> k"
proof (induction n arbitrary: k rule: decimal.induct)
  case (1 n)
  show ?case
  proof (cases "n < 10")
    case True
    with "1.prems" show ?thesis by (subst decimal.simps) simp
  next
    case False
    with "1.prems" obtain j where k: "k = Suc j" "0 < j"
      by (cases k; cases "k = 1") (auto simp: gr0_conv_Suc)
    with "1.prems" have "n div 10 < 10 ^ j" by (simp add: less_mult_imp_div_less mult.commute)
    with "1.IH" [OF False k(2)] k False show ?thesis by (subst decimal.simps) simp
  qed
qed

lemma decimal_digits: "c \<in> set (decimal n) \<Longrightarrow> is_digit c"
proof (induction n rule: decimal.induct)
  case (1 n)
  then show ?case
    by (cases "n < 10") (auto simp: decimal.simps [of n])
qed

lemma decimal_nonempty [simp]: "decimal n \<noteq> []"
  by (simp add: decimal.simps [of n])

text \<open>The magnitude computed without overflow: \<open>-(value + 1)\<close>, then \<open>+ 1\<close> unsigned.\<close>

lemma unat_magnitude:
  fixes v :: pphp_int
  shows "unat (if v <s 0 then (- (v + 1)) + 1 else v) = nat \<bar>sint v\<bar>"
proof (cases "sint v < 0")
  case True
  then have u: "uint v = sint v + 4294967296"
    using sint_uint32 [of v] uint_ge_0 [of v] by (auto split: if_splits)
  have "uint (- v) = - sint v"
  proof -
    have "- v = word_of_int (- sint v)" by simp
    also have "uint \<dots> = take_bit 32 (- sint v)"
      by (rule uint_word_of_int_eq [where 'a = 32, simplified])
    also have "\<dots> = - sint v"
      using True sint_ge32 [of v] by (simp add: take_bit_int_eq_self)
    finally show ?thesis .
  qed
  with True show ?thesis by (simp add: signed_order unat_eq_nat_uint)
next
  case False
  then show ?thesis by (simp add: signed_order nat_sint32)
qed

lemma format_integer_eq:
  "pphp_format_integer capacity v =
     (let text = (if sint v < 0 then ''-'' else []) @ decimal (nat \<bar>sint v\<bar>)
      in if capacity \<le> length text then None else Some text)"
proof -
  have "length (reversed_digits m) = length (decimal (unat m))" for m
    by (simp flip: rev_reversed_digits)
  then show ?thesis
    using unat_magnitude [of v]
    by (cases "sint v < 0")
      (simp_all add: pphp_format_integer_def Let_def rev_reversed_digits signed_order)
qed

lemma format_integer_total:
  assumes "12 \<le> capacity"
  shows "pphp_format_integer capacity v = Some ((if sint v < 0 then ''-'' else []) @
           decimal (nat \<bar>sint v\<bar>))"
proof -
  have "length (decimal (nat \<bar>sint v\<bar>)) \<le> 10"
    using sint_ge32 [of v] sint_le32 [of v] by (intro length_decimal) simp_all
  with assms show ?thesis by (cases "sint v < 0") (simp_all add: format_integer_eq Let_def)
qed

section \<open>Properties\<close>

text \<open>
  C6. The overflow guards of addition, subtraction, multiplication and negation are exact:
  the operation returns a value if and only if the mathematical result fits into
  \<open>pphp_int\<close>, and the value is that result.
\<close>

theorem checked_arithmetic_exact:
  "(pphp_integer_add left right = Some v \<longleftrightarrow>
      int_in_range (sint left + sint right) \<and> sint v = sint left + sint right) \<and>
   (pphp_integer_subtract left right = Some v \<longleftrightarrow>
      int_in_range (sint left - sint right) \<and> sint v = sint left - sint right) \<and>
   (pphp_integer_multiply left right = Some v \<longleftrightarrow>
      int_in_range (sint left * sint right) \<and> sint v = sint left * sint right) \<and>
   (pphp_integer_negate left = Some v \<longleftrightarrow>
      int_in_range (- sint left) \<and> sint v = - sint left)"
  by (intro conjI integer_add_iff integer_subtract_iff integer_multiply_iff integer_negate_iff)

text \<open>
  C7. Exponentiation by squaring returns a value if and only if the exponent is not
  negative and the power is representable; the loop never gives up on a representable
  power because of an overflowing intermediate square.
\<close>

theorem integer_power_exact:
  "pphp_integer_power base exponent = Some v \<longleftrightarrow>
     0 \<le> sint exponent \<and> int_in_range (sint base ^ nat (sint exponent)) \<and>
     sint v = sint base ^ nat (sint exponent)"
proof (cases "0 \<le> sint exponent")
  case True
  then show ?thesis using integer_power_iff by simp
next
  case False
  then show ?thesis using integer_power_negative by simp
qed

text \<open>
  The shifts use the distance modulo 32; the right shift of a negative value, computed
  on unsigned magnitudes, is the floor of the division by a power of two, and the left
  shift is multiplication modulo \<open>2^32\<close>.
\<close>

theorem integer_shifts_correct:
  "sint (integer_shift_right v d) = sint v div 2 ^ nat (sint d mod 32) \<and>
   integer_shift_left v d = word_of_int (sint v * 2 ^ nat (sint d mod 32))"
  using integer_shift_right_floor integer_shift_left_value by blast

text \<open>
  Formatting an integer writes its sign and its decimal numeral, also for the minimum
  whose negation overflows, and fails if and only if the text with its terminator does not
  fit into the buffer; twelve bytes always suffice.
\<close>

theorem format_integer_correct:
  "pphp_format_integer capacity v =
     (let text = (if sint v < 0 then ''-'' else []) @ decimal (nat \<bar>sint v\<bar>)
      in if capacity \<le> length text then None else Some text) \<and>
   pphp_format_integer (12 + k) v \<noteq> None"
  using format_integer_eq [of capacity v] format_integer_total [of "12 + k" v] by simp

end
