(* ===== verification/HeapIface.thy ===== *)
theory HeapIface
  imports Prelude
begin

text \<open>
  The interface of the memory pool as its clients use it: \<open>pphp_alloc\<close>, \<open>pphp_free\<close> and
  \<open>pphp_realloc\<close> of \<open>include/pphp/pphp.h\<close>.  A client's definitions take the three
  operations as a record, so that they are executable on any heap; the locale states what
  the pool promises, and \<open>Alloc\<close> interprets it on the model of \<open>src/alloc.c\<close>.
  Addresses are natural numbers, the null pointer is \<open>None\<close>.
\<close>

type_synonym addr = nat

record 'h heap_ops =
  h_alloc :: "nat \<Rightarrow> 'h \<Rightarrow> addr option \<times> 'h"
  h_free :: "addr option \<Rightarrow> 'h \<Rightarrow> 'h"
  h_realloc :: "addr option \<Rightarrow> nat \<Rightarrow> 'h \<Rightarrow> addr option \<times> 'h"

definition sizeof_ptr :: nat where
  "sizeof_ptr = 8"

text \<open>
  \<open>live h p = Some n\<close>: \<open>p\<close> is the address of an allocated block with \<open>n\<close> usable bytes.
  Requests are bounded by \<open>max_request\<close>; above it the size computation of the pool may wrap
  around.
\<close>

locale allocator =
  fixes ops :: "'h heap_ops"
    and heap_inv :: "'h \<Rightarrow> bool"
    and live :: "'h \<Rightarrow> addr \<Rightarrow> nat option"
    and max_request :: nat
  assumes alloc_fail: "heap_inv h \<Longrightarrow> h_alloc ops n h = (None, h') \<Longrightarrow> h' = h"
    and alloc_ok: "heap_inv h \<Longrightarrow> n \<le> max_request \<Longrightarrow> h_alloc ops n h = (Some p, h') \<Longrightarrow>
      heap_inv h' \<and> live h p = None \<and> (\<exists>m \<ge> n. live h' = (live h)(p \<mapsto> m))"
    and free_null: "h_free ops None h = h"
    and free_ok: "heap_inv h \<Longrightarrow> live h p = Some m \<Longrightarrow>
      heap_inv (h_free ops (Some p) h) \<and> live (h_free ops (Some p) h) = (live h)(p := None)"
    and realloc_null: "h_realloc ops None n h = h_alloc ops n h"
    and realloc_fail: "heap_inv h \<Longrightarrow> live h p = Some m \<Longrightarrow> 0 < n \<Longrightarrow>
      h_realloc ops (Some p) n h = (None, h') \<Longrightarrow> h' = h"
    and realloc_ok: "heap_inv h \<Longrightarrow> live h p = Some m \<Longrightarrow> 0 < n \<Longrightarrow> n \<le> max_request \<Longrightarrow>
      h_realloc ops (Some p) n h = (Some q, h') \<Longrightarrow>
      heap_inv h' \<and> (q = p \<or> live h q = None) \<and>
      (\<exists>k \<ge> n. live h' = ((live h)(p := None))(q \<mapsto> k))"
begin

lemma alloc_cases:
  assumes "heap_inv h" "n \<le> max_request" "h_alloc ops n h = (r, h')"
  obtains "r = None" "h' = h"
  | p m where "r = Some p" "heap_inv h'" "live h p = None" "n \<le> m" "live h' = (live h)(p \<mapsto> m)"
  using assms alloc_fail alloc_ok by (cases r) blast+

lemma alloc_inv: "heap_inv h \<Longrightarrow> n \<le> max_request \<Longrightarrow> h_alloc ops n h = (r, h') \<Longrightarrow> heap_inv h'"
  by (metis alloc_fail alloc_ok option.exhaust)

lemma alloc_then_free:
  assumes "heap_inv h" "n \<le> max_request" "h_alloc ops n h = (Some p, h')"
  shows "live (h_free ops (Some p) h') = live h"
proof -
  from alloc_ok [OF assms] obtain m where
    inv: "heap_inv h'" "live h p = None" "live h' = (live h)(p \<mapsto> m)" by blast
  then show ?thesis using free_ok [of h' p m] by (simp add: fun_eq_iff)
qed

end

end
