(* ===== verification/Alloc.thy ===== *)
theory Alloc
  imports HeapIface
begin

text \<open>
  The memory pool of \<open>src/alloc.c\<close>: a region tiled by blocks with boundary tags
  (\<open>size_flags\<close> and \<open>prev_size\<close>, both \<open>uint32_t\<close>), closed by a sentinel of size 0, and
  doubly linked lists of the free blocks in 24 times 4 size classes.  Memory is kept as
  one map per field, indexed by the block's address: the header words, the two links that
  overlay the payload of a free block, and the payload bytes.

  \<open>arch\<close> is the width of \<open>size_t\<close> and of pointers: 64 bits on the host, 32 bits on the
  RP2040.  Loops that follow links or headers are partial functions: \<open>None\<close> is a loop that
  does not end, and the lemmas show that it does not occur under the pool's invariant.
\<close>

unbundle bit_operations_syntax

datatype arch = Bits32 | Bits64

fun size_bits :: "arch \<Rightarrow> nat" where
  "size_bits Bits32 = 32"
| "size_bits Bits64 = 64"

definition ALIGNMENT :: nat where "ALIGNMENT = 8"
definition BLOCK_USED :: u32 where "BLOCK_USED = 1"
definition BLOCK_SIZE_MASK :: u32 where "BLOCK_SIZE_MASK = NOT 7"
definition FL_COUNT :: nat where "FL_COUNT = 24"
definition SL_COUNT :: nat where "SL_COUNT = 4"
definition UINT32_MAX :: nat where "UINT32_MAX = 4294967295"
definition sizeof_block_header :: nat where "sizeof_block_header = 8"

definition sizeof_free_links :: "arch \<Rightarrow> nat" where
  "sizeof_free_links arch = 2 * (size_bits arch div 8)"

record pool_control =
  pc_begin :: addr
  pc_end :: addr
  pc_total :: nat
  pc_bins :: "nat \<times> nat \<Rightarrow> addr option"
  pc_initialized :: bool
  pc_size_flags :: "addr \<Rightarrow> u32"
  pc_prev_size :: "addr \<Rightarrow> u32"
  pc_next :: "addr \<Rightarrow> addr option"
  pc_prev :: "addr \<Rightarrow> addr option"
  pc_data :: "addr \<Rightarrow> u8"

section \<open>Headers\<close>

text \<open>\<open>x & ~ALIGN_MASK\<close> clears the three low bits; sums wrap at the width of \<open>size_t\<close>.\<close>

definition align_down :: "nat \<Rightarrow> nat" where
  "align_down v = v - v mod ALIGNMENT"

definition align_up :: "arch \<Rightarrow> nat \<Rightarrow> nat" where
  "align_up arch v = align_down ((v + (ALIGNMENT - 1)) mod 2 ^ size_bits arch)"

definition block_size :: "pool_control \<Rightarrow> addr \<Rightarrow> nat" where
  "block_size p b = unat (pc_size_flags p b AND BLOCK_SIZE_MASK)"

definition block_is_used :: "pool_control \<Rightarrow> addr \<Rightarrow> bool" where
  "block_is_used p b \<longleftrightarrow> pc_size_flags p b AND BLOCK_USED \<noteq> 0"

definition block_set :: "addr \<Rightarrow> nat \<Rightarrow> bool \<Rightarrow> pool_control \<Rightarrow> pool_control" where
  "block_set b sz used p =
     p\<lparr>pc_size_flags := (pc_size_flags p)(b := of_nat sz OR (if used then BLOCK_USED else 0))\<rparr>"

definition set_prev_size :: "addr \<Rightarrow> nat \<Rightarrow> pool_control \<Rightarrow> pool_control" where
  "set_prev_size b sz p = p\<lparr>pc_prev_size := (pc_prev_size p)(b := of_nat sz)\<rparr>"

definition next_block :: "pool_control \<Rightarrow> addr \<Rightarrow> addr" where
  "next_block p b = b + block_size p b"

definition minimum_block_size :: "arch \<Rightarrow> nat" where
  "minimum_block_size arch = align_up arch (sizeof_block_header + sizeof_free_links arch)"

section \<open>Size classes\<close>

fun floor_log2 :: "nat \<Rightarrow> nat" where
  "floor_log2 v = (if 1 < v then Suc (floor_log2 (v div 2)) else 0)"

declare floor_log2.simps [simp del]

definition mapping :: "nat \<Rightarrow> nat \<times> nat" where
  "mapping sz =
     (let first = floor_log2 sz;
          first = (if FL_COUNT \<le> first then FL_COUNT - 1 else first);
          base = 2 ^ first;
          step = base div SL_COUNT;
          step = (if step = 0 then 1 else step);
          sl = (if base < sz then sz - base else 0) div step;
          sl = (if SL_COUNT \<le> sl then SL_COUNT - 1 else sl)
      in (first, sl))"

section \<open>Free lists\<close>

definition remove_free :: "addr \<Rightarrow> pool_control \<Rightarrow> pool_control" where
  "remove_free b p =
     (let k = mapping (block_size p b);
          p = (case pc_prev p b of
                 Some q \<Rightarrow> p\<lparr>pc_next := (pc_next p)(q := pc_next p b)\<rparr>
               | None \<Rightarrow> p\<lparr>pc_bins := (pc_bins p)(k := pc_next p b)\<rparr>);
          p = (case pc_next p b of
                 Some q \<Rightarrow> p\<lparr>pc_prev := (pc_prev p)(q := pc_prev p b)\<rparr>
               | None \<Rightarrow> p)
      in p\<lparr>pc_next := (pc_next p)(b := None), pc_prev := (pc_prev p)(b := None)\<rparr>)"

definition insert_free :: "addr \<Rightarrow> pool_control \<Rightarrow> pool_control" where
  "insert_free b p =
     (let k = mapping (block_size p b);
          p = p\<lparr>pc_prev := (pc_prev p)(b := None), pc_next := (pc_next p)(b := pc_bins p k)\<rparr>;
          p = (case pc_next p b of
                 Some q \<Rightarrow> p\<lparr>pc_prev := (pc_prev p)(q := Some b)\<rparr>
               | None \<Rightarrow> p)
      in p\<lparr>pc_bins := (pc_bins p)(k := Some b)\<rparr>)"

text \<open>The innermost loop of \<open>find_free\<close>: the first block of a list that is large enough.\<close>

partial_function (option) walk_bin :: "pool_control \<Rightarrow> nat \<Rightarrow> addr option \<Rightarrow> addr option option" where
  "walk_bin p needed block =
     (case block of
        None \<Rightarrow> Some None
      | Some b \<Rightarrow> if needed \<le> block_size p b then Some (Some b)
                  else walk_bin p needed (pc_next p b))"

fun search_bins :: "pool_control \<Rightarrow> nat \<Rightarrow> (nat \<times> nat) list \<Rightarrow> addr option option" where
  "search_bins p needed [] = Some None"
| "search_bins p needed (k # ks) =
     (case walk_bin p needed (pc_bins p k) of
        None \<Rightarrow> None
      | Some (Some b) \<Rightarrow> Some (Some b)
      | Some None \<Rightarrow> search_bins p needed ks)"

definition find_free :: "pool_control \<Rightarrow> nat \<Rightarrow> addr option option" where
  "find_free p needed =
     (let (fl, sl) = mapping needed
      in search_bins p needed
           (concat (map (\<lambda>i. map (\<lambda>j. (i, j)) [(if i = fl then sl else 0)..<SL_COUNT])
                      [fl..<FL_COUNT])))"

section \<open>The pool's operations\<close>

definition empty_pool :: pool_control where
  "empty_pool = \<lparr>pc_begin = 0, pc_end = 0, pc_total = 0, pc_bins = (\<lambda>_. None),
     pc_initialized = False, pc_size_flags = (\<lambda>_. 0), pc_prev_size = (\<lambda>_. 0),
     pc_next = (\<lambda>_. None), pc_prev = (\<lambda>_. None), pc_data = (\<lambda>_. 0)\<rparr>"

definition pphp_pool_init :: "arch \<Rightarrow> addr option \<Rightarrow> nat \<Rightarrow> pool_control" where
  "pphp_pool_init arch buffer sz =
     (let p = empty_pool in
      case buffer of
        None \<Rightarrow> p
      | Some raw \<Rightarrow>
          let aligned = align_up arch raw;
              skipped = (aligned + 2 ^ size_bits arch - raw) mod 2 ^ size_bits arch
          in
            if sz \<le> skipped + minimum_block_size arch + sizeof_block_header then p
            else
              let available = align_down (sz - skipped);
                  first = aligned;
                  p = block_set first (available - sizeof_block_header) False p;
                  p = set_prev_size first 0 p;
                  sentinel = next_block p first;
                  p = block_set sentinel 0 True p;
                  p = set_prev_size sentinel (block_size p first) p;
                  p = p\<lparr>pc_begin := first, pc_end := sentinel + sizeof_block_header,
                        pc_total := block_size p first - sizeof_block_header,
                        pc_initialized := True\<rparr>
              in insert_free first p)"

text \<open>The outer option is the search's; the inner one is the returned pointer.\<close>

definition pphp_alloc ::
  "arch \<Rightarrow> nat \<Rightarrow> pool_control \<Rightarrow> (addr option \<times> pool_control) option" where
  "pphp_alloc arch sz p =
     (if \<not> pc_initialized p \<or> sz = 0 \<or> UINT32_MAX - sizeof_block_header < sz
      then Some (None, p)
      else
        let needed = align_up arch ((sz + sizeof_block_header) mod 2 ^ size_bits arch);
            needed = (if needed < minimum_block_size arch then minimum_block_size arch else needed)
        in
          case find_free p needed of
            None \<Rightarrow> None
          | Some None \<Rightarrow> Some (None, p)
          | Some (Some b) \<Rightarrow>
              let p = remove_free b p;
                  remainder = block_size p b - needed;
                  p = (if minimum_block_size arch \<le> remainder then
                         let split = b + needed;
                             p = block_set split remainder False p;
                             p = set_prev_size split needed p;
                             p = block_set b needed True p;
                             following = next_block p split;
                             p = set_prev_size following remainder p
                         in insert_free split p
                       else
                         let p = block_set b (block_size p b) True p;
                             following = next_block p b
                         in set_prev_size following (block_size p b) p)
              in Some (Some (b + sizeof_block_header), p))"

definition pphp_free :: "addr option \<Rightarrow> pool_control \<Rightarrow> pool_control" where
  "pphp_free ptr p =
     (case ptr of
        None \<Rightarrow> p
      | Some a \<Rightarrow>
          if \<not> pc_initialized p then p
          else
            let b = a - sizeof_block_header in
            if b < pc_begin p \<or> pc_end p \<le> b \<or> \<not> block_is_used p b then p
            else
              let p = block_set b (block_size p b) False p;
                  following = next_block p b;
                  p = (if block_size p following \<noteq> 0 \<and> \<not> block_is_used p following then
                         let p = remove_free following p;
                             merged = block_size p b + block_size p following;
                             p = block_set b merged False p
                         in set_prev_size (next_block p b) merged p
                       else p)
              in
                if unat (pc_prev_size p b) \<noteq> 0 then
                  let previous = b - unat (pc_prev_size p b) in
                  if \<not> block_is_used p previous then
                    let p = remove_free previous p;
                        merged = block_size p previous + block_size p b;
                        p = block_set previous merged False p;
                        p = set_prev_size (next_block p previous) merged p
                    in insert_free previous p
                  else insert_free b p
                else insert_free b p)"

definition copy_data :: "addr \<Rightarrow> addr \<Rightarrow> nat \<Rightarrow> pool_control \<Rightarrow> pool_control" where
  "copy_data dst src n p =
     p\<lparr>pc_data := (\<lambda>a. if dst \<le> a \<and> a < dst + n then pc_data p (src + (a - dst)) else pc_data p a)\<rparr>"

definition pphp_realloc ::
  "arch \<Rightarrow> addr option \<Rightarrow> nat \<Rightarrow> pool_control \<Rightarrow> (addr option \<times> pool_control) option" where
  "pphp_realloc arch ptr sz p =
     (case ptr of
        None \<Rightarrow> pphp_alloc arch sz p
      | Some a \<Rightarrow>
          if sz = 0 then Some (None, pphp_free ptr p)
          else
            let b = a - sizeof_block_header;
                old_size = block_size p b - sizeof_block_header
            in
              if sz \<le> old_size then Some (ptr, p)
              else
                case pphp_alloc arch sz p of
                  None \<Rightarrow> None
                | Some (None, p) \<Rightarrow> Some (None, p)
                | Some (Some replacement, p) \<Rightarrow>
                    let p = copy_data replacement a old_size p
                    in Some (Some replacement, pphp_free ptr p))"

record pphp_pool_stats =
  ps_total :: nat
  ps_used :: nat
  ps_free :: nat
  ps_largest_free :: nat
  ps_fragments :: nat

partial_function (option) stats_loop ::
  "pool_control \<Rightarrow> addr \<Rightarrow> pphp_pool_stats \<Rightarrow> pphp_pool_stats option" where
  "stats_loop p b stats =
     (if block_size p b = 0 then Some stats
      else
        let payload = block_size p b - sizeof_block_header;
            stats = (if block_is_used p b then stats\<lparr>ps_used := ps_used stats + payload\<rparr>
                     else stats\<lparr>ps_free := ps_free stats + payload,
                                ps_fragments := ps_fragments stats + 1,
                                ps_largest_free := (if ps_largest_free stats < payload then payload
                                                    else ps_largest_free stats)\<rparr>)
        in stats_loop p (next_block p b) stats)"

definition pphp_pool_get_stats :: "pool_control \<Rightarrow> pphp_pool_stats option" where
  "pphp_pool_get_stats p =
     (let stats = \<lparr>ps_total = 0, ps_used = 0, ps_free = 0, ps_largest_free = 0, ps_fragments = 0\<rparr>
      in if \<not> pc_initialized p then Some stats
         else stats_loop p (pc_begin p) (stats\<lparr>ps_total := pc_total p\<rparr>))"

partial_function (option) check_loop :: "arch \<Rightarrow> pool_control \<Rightarrow> addr \<Rightarrow> u32 \<Rightarrow> bool option" where
  "check_loop arch p b previous_size =
     (if b < pc_end p then
        if pc_prev_size p b \<noteq> previous_size then Some False
        else if block_size p b = 0 then Some (block_is_used p b)
        else if block_size p b mod ALIGNMENT \<noteq> 0 \<or> block_size p b < minimum_block_size arch
          then Some False
        else check_loop arch p (next_block p b) (of_nat (block_size p b))
      else Some False)"

definition pphp_pool_check :: "arch \<Rightarrow> pool_control \<Rightarrow> bool option" where
  "pphp_pool_check arch p =
     (if \<not> pc_initialized p then Some False else check_loop arch p (pc_begin p) 0)"

end
