(* ===== verification/AllocInv.thy ===== *)
theory AllocInv
  imports Alloc
begin

text \<open>
  The pool's invariant and the functional correctness of its operations.  The region is
  abstracted to the list of its blocks' sizes and used bits, in address order
  (\<open>pool_blocks\<close>, an executable walk over the headers); the free lists are abstracted to
  the set of free addresses.  Every operation is a simple edit of the block list; the
  theory ends with the interpretation of the allocator interface.
\<close>

unbundle bit_operations_syntax

section \<open>Reading back a header\<close>

lemma size_flags_parts:
  fixes w :: u32
  assumes "take_bit 3 w = 0"
  shows "(w OR (if used then 1 else 0)) AND NOT 7 = w"
    and "(w OR (if used then 1 else 0)) AND 1 \<noteq> 0 \<longleftrightarrow> used"
proof -
  have low: "\<not> bit w n" if "n < 3" for n
    using assms that by (metis bit_0_eq bit_take_bit_iff bot_apply bot_bool_def)
  have seven: "(7 :: u32) = mask 3" by (simp add: mask_eq_exp_minus_1)
  show "(w OR (if used then 1 else 0)) AND NOT 7 = w"
    unfolding seven
    using low by (intro bit_word_eqI) (auto simp: bit_simps bit_1_iff not_less [symmetric])
  have "(w OR (if used then 1 else 0)) AND 1 = of_bool used"
    using low [of 0] by (intro bit_word_eqI) (auto simp: bit_simps bit_1_iff intro: gr0I)
  then show "(w OR (if used then 1 else 0)) AND 1 \<noteq> 0 \<longleftrightarrow> used" by simp
qed

lemma take_bit_of_nat_dvd8: "8 dvd n \<Longrightarrow> take_bit 3 (of_nat n :: u32) = 0"
proof -
  assume "8 dvd n"
  then have "take_bit 3 n = 0" by (simp add: take_bit_eq_mod)
  have "take_bit 3 (of_nat n :: u32) = of_nat (take_bit 3 n)"
    by (rule of_nat_take_bit [symmetric])
  also have "\<dots> = 0" unfolding \<open>take_bit 3 n = 0\<close> by (rule semiring_1_class.of_nat_0)
  finally show ?thesis .
qed

lemma unat_of_nat32: "n < 4294967296 \<Longrightarrow> unat (of_nat n :: u32) = n"
  by (simp add: unat_of_nat)

lemma block_size_block_set:
  assumes "8 dvd s" "s < 4294967296"
  shows "block_size (block_set b s used p) x = (if x = b then s else block_size p x)"
  using size_flags_parts(1) [OF take_bit_of_nat_dvd8 [OF assms(1)], of used] assms(2)
  by (cases used) (simp_all add: block_size_def block_set_def BLOCK_SIZE_MASK_def BLOCK_USED_def
      unat_of_nat32)

lemma block_is_used_block_set:
  assumes "8 dvd s"
  shows "block_is_used (block_set b s used p) x = (if x = b then used else block_is_used p x)"
  using size_flags_parts(2) [OF take_bit_of_nat_dvd8 [OF assms], of used]
  by (cases used) (simp_all add: block_is_used_def block_set_def BLOCK_USED_def)

lemma prev_size_set_prev_size:
  assumes "s < 4294967296"
  shows "unat (pc_prev_size (set_prev_size b s p) x) =
    (if x = b then s else unat (pc_prev_size p x))"
  using assms by (simp add: set_prev_size_def unat_of_nat32)

definition hdr :: "pool_control \<Rightarrow> addr \<Rightarrow> nat \<times> bool \<times> nat" where
  "hdr p a = (block_size p a, block_is_used p a, unat (pc_prev_size p a))"

lemma hdr_block_set:
  assumes "8 dvd s" "s < 4294967296"
  shows "hdr (block_set b s used p) x = (if x = b then (s, used, snd (snd (hdr p b))) else hdr p x)"
  using assms by (simp add: hdr_def block_size_block_set block_is_used_block_set)
    (simp add: block_set_def)

lemma hdr_set_prev_size:
  assumes "s < 4294967296"
  shows "hdr (set_prev_size b s p) x =
    (if x = b then (fst (hdr p b), fst (snd (hdr p b)), s) else hdr p x)"
  using assms by (simp add: hdr_def prev_size_set_prev_size)
    (simp add: set_prev_size_def block_size_def block_is_used_def)

text \<open>The free lists never touch a header, nor the pool's bounds.\<close>

definition same_links :: "pool_control \<Rightarrow> pool_control \<Rightarrow> bool" where
  "same_links p q \<longleftrightarrow> pc_bins q = pc_bins p \<and> pc_next q = pc_next p \<and> pc_prev q = pc_prev p"

lemma same_links_ops [simp]:
  "same_links p (block_set b s u p)" "same_links p (set_prev_size b s p)"
  by (simp_all add: same_links_def block_set_def set_prev_size_def)

lemma hdr_lists [simp]:
  "hdr (remove_free b p) = hdr p" "hdr (insert_free b p) = hdr p"
  by (auto simp: hdr_def block_size_def block_is_used_def remove_free_def insert_free_def
      Let_def fun_eq_iff split: option.splits)

lemma frame_ops [simp]:
  "pc_begin (block_set b s u p) = pc_begin p" "pc_begin (set_prev_size b s p) = pc_begin p"
  "pc_begin (remove_free b p) = pc_begin p" "pc_begin (insert_free b p) = pc_begin p"
  "pc_end (block_set b s u p) = pc_end p" "pc_end (set_prev_size b s p) = pc_end p"
  "pc_end (remove_free b p) = pc_end p" "pc_end (insert_free b p) = pc_end p"
  "pc_total (block_set b s u p) = pc_total p" "pc_total (set_prev_size b s p) = pc_total p"
  "pc_total (remove_free b p) = pc_total p" "pc_total (insert_free b p) = pc_total p"
  "pc_initialized (block_set b s u p) = pc_initialized p"
  "pc_initialized (set_prev_size b s p) = pc_initialized p"
  "pc_initialized (remove_free b p) = pc_initialized p"
  "pc_initialized (insert_free b p) = pc_initialized p"
  "pc_data (block_set b s u p) = pc_data p" "pc_data (set_prev_size b s p) = pc_data p"
  "pc_data (remove_free b p) = pc_data p" "pc_data (insert_free b p) = pc_data p"
  by (auto simp: block_set_def set_prev_size_def remove_free_def insert_free_def Let_def
      split: option.splits)

lemma block_size_hdr: "block_size p a = fst (hdr p a)"
  by (simp add: hdr_def)

lemma block_is_used_hdr: "block_is_used p a = fst (snd (hdr p a))"
  by (simp add: hdr_def)

lemma prev_size_hdr: "unat (pc_prev_size p a) = snd (snd (hdr p a))"
  by (simp add: hdr_def)

lemma block_size_lists [simp]:
  "block_size (remove_free b p) a = block_size p a" "block_size (insert_free b p) a = block_size p a"
  by (simp_all add: block_size_hdr)

section \<open>Tilings\<close>

text \<open>
  \<open>seg m p a q bs\<close>: from address \<open>a\<close> on, whose predecessor has size \<open>q\<close>, the headers
  describe the blocks \<open>bs\<close>, each a multiple of 8 and at least \<open>m\<close> bytes.
\<close>

type_synonym blocks = "(nat \<times> bool) list"

fun seg :: "nat \<Rightarrow> pool_control \<Rightarrow> addr \<Rightarrow> nat \<Rightarrow> blocks \<Rightarrow> bool" where
  "seg m p a q [] = True"
| "seg m p a q ((s, u) # bs) = (hdr p a = (s, u, q) \<and> 8 dvd s \<and> m \<le> s \<and> seg m p (a + s) s bs)"

definition extent :: "blocks \<Rightarrow> nat" where
  "extent bs = sum_list (map fst bs)"

fun last_size :: "nat \<Rightarrow> blocks \<Rightarrow> nat" where
  "last_size q [] = q"
| "last_size q ((s, u) # bs) = last_size s bs"

lemma extent_simps [simp]:
  "extent [] = 0" "extent ((s, u) # bs) = s + extent bs" "extent (bs @ cs) = extent bs + extent cs"
  by (simp_all add: extent_def)

lemma last_size_append [simp]: "last_size q (bs @ cs) = last_size (last_size q bs) cs"
  by (induction bs arbitrary: q) auto

lemma seg_append:
  "seg m p a q (bs @ cs) \<longleftrightarrow> seg m p a q bs \<and> seg m p (a + extent bs) (last_size q bs) cs"
  by (induction bs arbitrary: a q) (auto simp: add.assoc)

lemma seg_cong:
  assumes "0 < m" "\<And>x. a \<le> x \<Longrightarrow> x < a + extent bs \<Longrightarrow> hdr p' x = hdr p x"
  shows "seg m p' a q bs \<longleftrightarrow> seg m p a q bs"
  using assms(2)
proof (induction bs arbitrary: a q)
  case Nil
  then show ?case by simp
next
  case (Cons b bs)
  obtain s u where b: "b = (s, u)" by (cases b)
  show ?case
  proof (cases "0 < s")
    case True
    have "hdr p' a = hdr p a" using Cons.prems [of a] True b by simp
    moreover have "seg m p' (a + s) s bs \<longleftrightarrow> seg m p (a + s) s bs"
      by (rule Cons.IH) (use Cons.prems b in simp)
    ultimately show ?thesis by (simp add: b)
  next
    case False
    then show ?thesis using \<open>0 < m\<close> b by auto
  qed
qed

lemma seg_dvd: "seg m p a q bs \<Longrightarrow> 8 dvd extent bs"
  by (induction m p a q bs rule: seg.induct) auto

lemma last_size_dvd: "seg m p a q bs \<Longrightarrow> 8 dvd q \<Longrightarrow> 8 dvd last_size q bs"
  by (induction m p a q bs rule: seg.induct) auto

lemma last_size_le: "last_size 0 bs \<le> extent bs"
proof -
  have "last_size q bs \<le> q + extent bs" for q
  proof (induction bs arbitrary: q)
    case (Cons b bs)
    from Cons [of "fst b"] show ?case by (cases b) auto
  qed simp
  from this [of 0] show ?thesis by simp
qed

text \<open>Free and used blocks of a tiling, with their addresses.\<close>

fun free_at :: "addr \<Rightarrow> blocks \<Rightarrow> addr set" where
  "free_at a [] = {}"
| "free_at a ((s, u) # bs) = (if u then {} else {a}) \<union> free_at (a + s) bs"

fun used_at :: "addr \<Rightarrow> blocks \<Rightarrow> addr \<Rightarrow> nat option" where
  "used_at a [] = Map.empty"
| "used_at a ((s, u) # bs) =
     (if u then (used_at (a + s) bs)(a + 8 \<mapsto> s - 8) else used_at (a + s) bs)"

lemma free_at_append [simp]: "free_at a (bs @ cs) = free_at a bs \<union> free_at (a + extent bs) cs"
  by (induction bs arbitrary: a) (auto simp: add.assoc)

lemma seg_least: "seg m p a q bs \<Longrightarrow> (s, u) \<in> set bs \<Longrightarrow> m \<le> s"
  by (induction m p a q bs rule: seg.induct) auto

lemma free_at_bounds:
  "x \<in> free_at a bs \<Longrightarrow> a \<le> x \<and> x \<le> a + extent bs"
  by (induction a bs rule: free_at.induct) (fastforce split: if_splits)+

lemma free_at_less:
  "\<forall>b \<in> set bs. 0 < fst b \<Longrightarrow> x \<in> free_at a bs \<Longrightarrow> a \<le> x \<and> x < a + extent bs"
  by (induction a bs rule: free_at.induct) (force split: if_splits)+

lemma used_at_bounds:
  "\<forall>b \<in> set bs. 0 < fst b \<Longrightarrow> used_at a bs x = Some n \<Longrightarrow> a + 8 \<le> x \<and> x < a + 8 + extent bs"
  by (induction a bs rule: used_at.induct) (force split: if_splits)+

lemma used_at_append:
  "used_at a (bs @ cs) = used_at (a + extent bs) cs ++ used_at a bs"
  by (induction a bs rule: used_at.induct)
    (auto simp: add.assoc map_add_def fun_eq_iff split: option.splits)

lemma free_block_split:
  assumes "x \<in> free_at a bs"
  obtains xs s ys where "bs = xs @ (s, False) # ys" "x = a + extent xs"
  using assms
proof (induction a bs arbitrary: thesis rule: free_at.induct)
  case (2 a s u bs)
  show ?case
  proof (cases "x \<in> free_at (a + s) bs")
    case True
    from 2(1) [OF _ True] obtain xs s' ys where
      "bs = xs @ (s', False) # ys" "x = a + s + extent xs" by blast
    then show ?thesis using 2(2) [of "(s, u) # xs" s' ys] by (simp add: add.assoc)
  next
    case False
    with 2(3) have "\<not> u" "x = a" by (auto split: if_splits)
    then show ?thesis using 2(2) [of "[]" s bs] by simp
  qed
qed simp

lemma used_block_split:
  assumes "used_at a bs x = Some n"
  obtains xs s ys where "bs = xs @ (s, True) # ys" "x = a + extent xs + 8" "n = s - 8"
  using assms
proof (induction a bs arbitrary: thesis rule: used_at.induct)
  case (2 a s u bs)
  show ?case
  proof (cases "u \<and> x = a + 8")
    case True
    with 2(4) show ?thesis using 2(3) [of "[]" s bs] by simp
  next
    case False
    with 2(4) have "used_at (a + s) bs x = Some n" by (auto split: if_splits)
    then obtain xs s' ys where
      "bs = xs @ (s', True) # ys" "x = a + s + extent xs + 8" "n = s' - 8"
      using 2(1,2) by (cases u) blast+
    then show ?thesis using 2(3) [of "(s, u) # xs" s' ys] by (simp add: add.assoc)
  qed
qed simp

text \<open>No two neighbouring blocks are both free.\<close>

fun coalesced :: "blocks \<Rightarrow> bool" where
  "coalesced (x # y # bs) = ((snd x \<or> snd y) \<and> coalesced (y # bs))"
| "coalesced _ = True"

lemma coalesced_append_Cons:
  "coalesced (xs @ y # ys) \<longleftrightarrow>
     coalesced xs \<and> coalesced (y # ys) \<and> (xs \<noteq> [] \<longrightarrow> snd (last xs) \<or> snd y)"
  by (induction xs rule: coalesced.induct) auto

lemma coalesced_Cons [simp]:
  "coalesced ((s, True) # ys) = coalesced ys"
  "coalesced ((s, False) # ys) \<longleftrightarrow> coalesced ys \<and> (ys \<noteq> [] \<longrightarrow> snd (hd ys))"
  by (cases ys; auto)+

lemma coalesced_used:
  "coalesced (xs @ (s, True) # ys) \<longleftrightarrow> coalesced xs \<and> coalesced ys"
  by (simp add: coalesced_append_Cons)

lemma coalesced_free:
  "coalesced (xs @ (s, False) # ys) \<longleftrightarrow>
     coalesced xs \<and> coalesced ys \<and> (xs \<noteq> [] \<longrightarrow> snd (last xs)) \<and> (ys \<noteq> [] \<longrightarrow> snd (hd ys))"
  by (auto simp: coalesced_append_Cons)

section \<open>Free lists\<close>

text \<open>
  \<open>dll p q x bs y\<close>: the links lead from \<open>x\<close>, whose predecessor is \<open>q\<close>, through the
  blocks \<open>bs\<close> to \<open>y\<close>.
\<close>

fun dll :: "pool_control \<Rightarrow> addr option \<Rightarrow> addr option \<Rightarrow> addr list \<Rightarrow> addr option \<Rightarrow> bool" where
  "dll p q x [] y = (x = y)"
| "dll p q x (b # bs) y = (x = Some b \<and> pc_prev p b = q \<and> dll p (Some b) (pc_next p b) bs y)"

definition last_opt :: "addr option \<Rightarrow> addr list \<Rightarrow> addr option" where
  "last_opt q bs = (if bs = [] then q else Some (last bs))"

lemma dll_append:
  "dll p q x (bs @ cs) y \<longleftrightarrow> (\<exists>z. dll p q x bs z \<and> dll p (last_opt q bs) z cs y)"
  by (induction bs arbitrary: q x) (auto simp: last_opt_def)

lemma dll_cong:
  assumes "\<And>b. b \<in> set bs \<Longrightarrow> pc_next p' b = pc_next p b \<and> pc_prev p' b = pc_prev p b"
  shows "dll p' q x bs y \<longleftrightarrow> dll p q x bs y"
  using assms by (induction bs arbitrary: q x) auto

lemma dll_relink_end:
  assumes "dll p q x bs y" "\<And>c. c \<in> set bs \<Longrightarrow> pc_prev p' c = pc_prev p c"
    and "\<And>c. c \<in> set (butlast bs) \<Longrightarrow> pc_next p' c = pc_next p c"
    and "bs \<noteq> [] \<Longrightarrow> pc_next p' (last bs) = z"
  shows "dll p' q (if bs = [] then z else x) bs z"
  using assms
proof (induction bs arbitrary: q x)
  case (Cons c cs)
  have "dll p' (Some c) (if cs = [] then z else pc_next p c) cs z"
    by (rule Cons.IH) (use Cons.prems in \<open>auto split: if_splits\<close>)
  then show ?case using Cons.prems by (auto split: if_splits)
qed simp

lemma dll_relink_start:
  assumes "dll p q x bs y" "\<And>c. c \<in> set bs \<Longrightarrow> pc_next p' c = pc_next p c"
    and "\<And>c. c \<in> set (tl bs) \<Longrightarrow> pc_prev p' c = pc_prev p c"
    and "bs \<noteq> [] \<Longrightarrow> pc_prev p' (hd bs) = q'"
  shows "dll p' q' x bs y"
proof (cases bs)
  case (Cons c cs)
  have "dll p' (Some c) (pc_next p c) cs y \<longleftrightarrow> dll p (Some c) (pc_next p c) cs y"
    by (rule dll_cong) (use assms Cons in auto)
  then show ?thesis using assms Cons by auto
qed (use assms(1) in simp)

lemma dll_next: "dll p q x bs None \<Longrightarrow> x = (if bs = [] then None else Some (hd bs))"
  by (cases bs) auto

text \<open>Every size class heads a well-linked list, and the lists hold exactly the blocks \<open>S\<close>.\<close>

definition lists :: "pool_control \<Rightarrow> (nat \<times> nat \<Rightarrow> addr list) \<Rightarrow> addr set \<Rightarrow> bool" where
  "lists p F S \<longleftrightarrow>
     (\<forall>k. dll p None (pc_bins p k) (F k) None \<and> distinct (F k) \<and>
          set (F k) = {b \<in> S. mapping (block_size p b) = k})"

lemma listsI:
  assumes "\<And>k. dll p None (pc_bins p k) (F k) None" "\<And>k. distinct (F k)"
    and "\<And>k b. b \<in> set (F k) \<longleftrightarrow> b \<in> S \<and> mapping (block_size p b) = k"
  shows "lists p F S"
  using assms unfolding lists_def by blast

lemma lists_dll: "lists p F S \<Longrightarrow> dll p None (pc_bins p k) (F k) None"
  unfolding lists_def by blast

lemma lists_distinct: "lists p F S \<Longrightarrow> distinct (F k)"
  unfolding lists_def by blast

lemma lists_set: "lists p F S \<Longrightarrow> b \<in> set (F k) \<longleftrightarrow> b \<in> S \<and> mapping (block_size p b) = k"
  unfolding lists_def by blast

lemma lists_cong:
  assumes "lists p F S" "same_links p p'" "\<And>b. b \<in> S \<Longrightarrow> block_size p' b = block_size p b"
  shows "lists p' F S"
proof (rule listsI)
  fix k b
  show "dll p' None (pc_bins p' k) (F k) None"
    using lists_dll [OF assms(1), of k] dll_cong [of "F k" p' p] assms(2)
    by (simp add: same_links_def)
  show "distinct (F k)" using assms(1) by (rule lists_distinct)
  show "b \<in> set (F k) \<longleftrightarrow> b \<in> S \<and> mapping (block_size p' b) = k"
    using lists_set [OF assms(1)] assms(3) by metis
qed

lemma same_links_trans: "same_links p q \<Longrightarrow> same_links q r \<Longrightarrow> same_links p r"
  by (simp add: same_links_def)

lemma remove_free_links:
  "pc_next (remove_free b p) c =
     (if c = b then None else if pc_prev p b = Some c then pc_next p b else pc_next p c)"
  "pc_prev p b \<noteq> Some b \<Longrightarrow> pc_prev (remove_free b p) c =
     (if c = b then None else if pc_next p b = Some c then pc_prev p b else pc_prev p c)"
  "pc_bins (remove_free b p) k =
     (if k = mapping (block_size p b) \<and> pc_prev p b = None then pc_next p b else pc_bins p k)"
  by (auto simp: remove_free_def Let_def split: option.splits)

lemma insert_free_links:
  "pc_next (insert_free b p) c = (if c = b then pc_bins p (mapping (block_size p b)) else pc_next p c)"
  "pc_bins p (mapping (block_size p b)) \<noteq> Some b \<Longrightarrow> pc_prev (insert_free b p) c =
     (if c = b then None else if pc_bins p (mapping (block_size p b)) = Some c then Some b
      else pc_prev p c)"
  "pc_bins (insert_free b p) k = (if k = mapping (block_size p b) then Some b else pc_bins p k)"
  by (auto simp: insert_free_def Let_def split: option.splits)

text \<open>Unlinking a free block, and linking one in at the head of its class.\<close>

lemma lists_disjoint:
  "lists p F S \<Longrightarrow> c \<in> set (F k) \<Longrightarrow> c \<in> set (F k') \<Longrightarrow> k = k'"
  by (simp add: lists_set)

lemma lists_remove:
  assumes L: "lists p F S" and b: "b \<in> S"
  shows "\<exists>F. lists (remove_free b p) F (S - {b})"
proof -
  define k0 where "k0 = mapping (block_size p b)"
  have "b \<in> set (F k0)" using lists_set [OF L] b k0_def by blast
  then obtain xs ys where F: "F k0 = xs @ b # ys" by (meson split_list)
  from lists_dll [OF L, of k0] F have
    left: "dll p None (pc_bins p k0) xs (Some b)" and prev: "pc_prev p b = last_opt None xs" and
    right: "dll p (Some b) (pc_next p b) ys None"
    by (auto simp: dll_append)
  from lists_distinct [OF L, of k0] F have
    dist: "distinct xs" "distinct ys" "b \<notin> set xs" "b \<notin> set ys" "set xs \<inter> set ys = {}"
    by auto
  have nself: "pc_prev p b \<noteq> Some b" using prev dist(3) by (auto simp: last_opt_def)
  have nxt: "pc_next p b = (if ys = [] then None else Some (hd ys))" using dll_next [OF right] .
  note links = remove_free_links(1) [of b p] remove_free_links(2) [OF nself]
  have lasts: "c \<in> set (butlast xs) \<Longrightarrow> c \<noteq> last xs" for c
    using dist(1) by (metis append_butlast_last_id distinct_butlast distinct_append
        in_set_butlastD empty_iff empty_set disjoint_insert(1) list.simps(15))
  have l: "dll (remove_free b p) None (if xs = [] then pc_next p b else pc_bins p k0) xs (pc_next p b)"
  proof (rule dll_relink_end [OF left])
    show "pc_prev (remove_free b p) c = pc_prev p c" if "c \<in> set xs" for c
      using that dist nxt by (auto simp: links split: if_splits)
    show "pc_next (remove_free b p) c = pc_next p c" if "c \<in> set (butlast xs)" for c
      using that dist(3) lasts [OF that] prev in_set_butlastD [OF that]
      by (auto simp: links last_opt_def split: if_splits)
    show "pc_next (remove_free b p) (last xs) = pc_next p b" if "xs \<noteq> []"
      using that dist(3) prev by (auto simp: links last_opt_def)
  qed
  have r: "dll (remove_free b p) (last_opt None xs) (pc_next p b) ys None"
  proof (rule dll_relink_start [OF right])
    show "pc_next (remove_free b p) c = pc_next p c" if "c \<in> set ys" for c
    proof -
      have "pc_prev p b \<noteq> Some c"
        using that dist(5) prev last_in_set [of xs]
        by (metis disjoint_iff last_opt_def option.distinct(1) option.inject)
      then show ?thesis using that dist(4) by (auto simp: links)
    qed
    show "pc_prev (remove_free b p) c = pc_prev p c" if "c \<in> set (tl ys)" for c
      using that dist(2,4) nxt by (cases ys) (auto simp: links)
    show "pc_prev (remove_free b p) (hd ys) = last_opt None xs" if "ys \<noteq> []"
      using that dist(4) nxt prev by (auto simp: links)
  qed
  have "lists (remove_free b p) (F(k0 := xs @ ys)) (S - {b})"
  proof (rule listsI)
    fix k c
    show "distinct ((F(k0 := xs @ ys)) k)" using lists_distinct [OF L, of k] dist by simp
    show "c \<in> set ((F(k0 := xs @ ys)) k) \<longleftrightarrow>
        c \<in> S - {b} \<and> mapping (block_size (remove_free b p) c) = k"
      using lists_set [OF L, of c k] F dist k0_def by auto
    show "dll (remove_free b p) None (pc_bins (remove_free b p) k) ((F(k0 := xs @ ys)) k) None"
    proof (cases "k = k0")
      case True
      have "pc_bins (remove_free b p) k0 = (if xs = [] then pc_next p b else pc_bins p k0)"
        using prev by (simp add: remove_free_links(3) k0_def last_opt_def)
      then show ?thesis using l r True by (auto simp: dll_append)
    next
      case False
      have "c \<noteq> b \<and> pc_prev p b \<noteq> Some c \<and> pc_next p b \<noteq> Some c" if "c \<in> set (F k)" for c
        using lists_disjoint [OF L that, of k0] False F prev nxt
        by (auto simp: last_opt_def split: if_splits)
      then show ?thesis
        using dll_cong [of "F k" "remove_free b p" p] lists_dll [OF L, of k] False
        by (simp add: links remove_free_links(3) k0_def [symmetric])
    qed
  qed
  then show ?thesis by blast
qed

lemma lists_insert:
  assumes L: "lists p F S" and b: "b \<notin> S"
  shows "\<exists>F. lists (insert_free b p) F (insert b S)"
proof -
  define k0 where "k0 = mapping (block_size p b)"
  have notin: "b \<notin> set (F k)" for k using lists_set [OF L] b by blast
  have head: "pc_bins p k0 = (if F k0 = [] then None else Some (hd (F k0)))"
    using dll_next [OF lists_dll [OF L]] .
  have nself: "pc_bins p (mapping (block_size p b)) \<noteq> Some b"
    using head notin [of k0] by (auto simp: k0_def [symmetric])
  note links = insert_free_links(1,3) [of b p] insert_free_links(2) [OF nself]
  have r: "dll (insert_free b p) (Some b) (pc_bins p k0) (F k0) None"
  proof (rule dll_relink_start [OF lists_dll [OF L]])
    show "pc_next (insert_free b p) c = pc_next p c" if "c \<in> set (F k0)" for c
      using that notin [of k0] by (auto simp: links)
    show "pc_prev (insert_free b p) c = pc_prev p c" if "c \<in> set (tl (F k0))" for c
      using that notin [of k0] lists_distinct [OF L, of k0] head
      by (cases "F k0") (auto simp: links k0_def [symmetric])
    show "pc_prev (insert_free b p) (hd (F k0)) = Some b" if "F k0 \<noteq> []"
      using that head notin [of k0] by (auto simp: links k0_def [symmetric])
  qed
  have "lists (insert_free b p) (F(k0 := b # F k0)) (insert b S)"
  proof (rule listsI)
    fix k c
    show "distinct ((F(k0 := b # F k0)) k)" using lists_distinct [OF L] notin by simp
    show "c \<in> set ((F(k0 := b # F k0)) k) \<longleftrightarrow>
        c \<in> insert b S \<and> mapping (block_size (insert_free b p) c) = k"
      using lists_set [OF L, of c k] k0_def by auto
    show "dll (insert_free b p) None (pc_bins (insert_free b p) k) ((F(k0 := b # F k0)) k) None"
    proof (cases "k = k0")
      case True
      then show ?thesis using r by (simp add: links k0_def [symmetric])
    next
      case False
      have "c \<noteq> b \<and> pc_bins p k0 \<noteq> Some c" if "c \<in> set (F k)" for c
        using lists_disjoint [OF L that, of k0] False head that notin [of k]
        by (auto split: if_splits)
      then show ?thesis
        using dll_cong [of "F k" "insert_free b p" p] lists_dll [OF L, of k] False
        by (auto simp: links k0_def [symmetric])
    qed
  qed
  then show ?thesis by blast
qed

section \<open>Searching\<close>

lemma floor_log2_mono: "a \<le> b \<Longrightarrow> floor_log2 a \<le> floor_log2 b"
proof (induction a arbitrary: b rule: floor_log2.induct)
  case (1 a)
  show ?case
  proof (cases "1 < a")
    case True
    then have "floor_log2 (a div 2) \<le> floor_log2 (b div 2)"
      using 1 by (simp add: div_le_mono)
    then show ?thesis using True 1(2) by (simp add: floor_log2.simps [of a] floor_log2.simps [of b])
  qed (simp add: floor_log2.simps [of a])
qed

definition class_le :: "nat \<times> nat \<Rightarrow> nat \<times> nat \<Rightarrow> bool" where
  "class_le k l \<longleftrightarrow> fst k < fst l \<or> fst k = fst l \<and> snd k \<le> snd l"

lemma mapping_mono:
  assumes "a \<le> b"
  shows "class_le (mapping a) (mapping b)"
proof -
  define f where "f n = (if FL_COUNT \<le> floor_log2 n then FL_COUNT - 1 else floor_log2 n)" for n
  define g where "g e n = (let step = 2 ^ e div SL_COUNT; step = (if step = 0 then 1 else step);
      sl = (if 2 ^ e < n then n - 2 ^ e else 0) div step in if SL_COUNT \<le> sl then SL_COUNT - 1 else sl)"
    for e n :: nat
  have m: "mapping n = (f n, g (f n) n)" for n
    by (simp add: mapping_def f_def g_def Let_def)
  have "f a \<le> f b" using floor_log2_mono [OF assms] by (auto simp: f_def FL_COUNT_def)
  moreover have "g e a \<le> g e b" for e
  proof -
    define step where "step = (let step = 2 ^ e div SL_COUNT in if step = 0 then 1 else step)"
    define cap where "cap n = (if SL_COUNT \<le> n then SL_COUNT - 1 else n)" for n
    have "(if 2 ^ e < a then a - 2 ^ e else 0) div step \<le> (if 2 ^ e < b then b - 2 ^ e else 0) div step"
      using assms by (intro div_le_mono) auto
    moreover have "cap m \<le> cap n" if "m \<le> n" for m n
      using that by (auto simp: cap_def SL_COUNT_def)
    moreover have "g e n = cap ((if 2 ^ e < n then n - 2 ^ e else 0) div step)" for n
      unfolding g_def Let_def cap_def step_def by (rule refl)
    ultimately show ?thesis by metis
  qed
  ultimately show ?thesis by (auto simp: class_le_def m)
qed

lemma mapping_bounds: "fst (mapping n) < FL_COUNT" "snd (mapping n) < SL_COUNT"
  by (simp_all add: mapping_def Let_def FL_COUNT_def SL_COUNT_def)

lemma walk_bin_correct:
  "dll p q x bs None \<Longrightarrow>
     \<exists>r. walk_bin p needed x = Some r \<and>
       (case r of None \<Rightarrow> \<forall>b \<in> set bs. block_size p b < needed
        | Some b \<Rightarrow> b \<in> set bs \<and> needed \<le> block_size p b)"
proof (induction bs arbitrary: q x)
  case Nil
  then show ?case by (simp add: walk_bin.simps)
next
  case (Cons b bs)
  then have x: "x = Some b" and rest: "dll p (Some b) (pc_next p b) bs None" by auto
  show ?case
  proof (cases "needed \<le> block_size p b")
    case True
    then show ?thesis using x by (simp add: walk_bin.simps)
  next
    case False
    then have "walk_bin p needed x = walk_bin p needed (pc_next p b)"
      using x by (simp add: walk_bin.simps)
    with Cons.IH [OF rest] False show ?thesis by (auto split: option.splits)
  qed
qed

lemma search_bins_correct:
  assumes "lists p F S"
  shows "\<exists>r. search_bins p needed ks = Some r \<and>
    (case r of None \<Rightarrow> \<forall>b \<in> S. mapping (block_size p b) \<in> set ks \<longrightarrow> block_size p b < needed
     | Some b \<Rightarrow> b \<in> S \<and> needed \<le> block_size p b)"
proof (induction ks)
  case (Cons k ks)
  from walk_bin_correct [OF lists_dll [OF assms, of k], of needed] obtain r where
    r: "walk_bin p needed (pc_bins p k) = Some r"
      "case r of None \<Rightarrow> \<forall>b \<in> set (F k). block_size p b < needed
       | Some b \<Rightarrow> b \<in> set (F k) \<and> needed \<le> block_size p b" by blast
  show ?case
  proof (cases r)
    case None
    with r Cons.IH lists_set [OF assms, of _ k] show ?thesis by (auto split: option.splits)
  next
    case (Some b)
    with r lists_set [OF assms, of b k] show ?thesis by auto
  qed
qed simp

lemma class_list_mem:
  "fl \<le> i \<Longrightarrow> i < m \<Longrightarrow> st i \<le> j \<Longrightarrow> j < n \<Longrightarrow>
     (i, j) \<in> set (concat (map (\<lambda>i. map (\<lambda>j. (i, j)) [st i..<n]) [fl..<m]))"
  by (simp, rule bexI [of _ i]) auto

lemma find_free_correct:
  assumes "lists p F S"
  obtains "find_free p needed = Some None" "\<And>b. b \<in> S \<Longrightarrow> block_size p b < needed"
  | b where "find_free p needed = Some (Some b)" "b \<in> S" "needed \<le> block_size p b"
proof -
  obtain fl sl where m: "mapping needed = (fl, sl)" by (cases "mapping needed")
  define ks where "ks = concat (map (\<lambda>i. map (\<lambda>j. (i, j)) [(if i = fl then sl else 0)..<SL_COUNT])
                      [fl..<FL_COUNT])"
  have f: "find_free p needed = search_bins p needed ks"
    by (simp add: find_free_def m ks_def)
  have searched: "mapping (block_size p b) \<in> set ks" if "needed \<le> block_size p b" for b
  proof -
    obtain i j where ij: "mapping (block_size p b) = (i, j)" by (cases "mapping (block_size p b)")
    have "fl < i \<or> fl = i \<and> sl \<le> j" "i < FL_COUNT" "j < SL_COUNT"
      using mapping_mono [OF that] mapping_bounds [of "block_size p b"] m ij
      by (auto simp: class_le_def)
    then show ?thesis
      unfolding ks_def ij by (intro class_list_mem) auto
  qed
  from search_bins_correct [OF assms, of needed ks] obtain r where
    r: "search_bins p needed ks = Some r"
      "case r of None \<Rightarrow> \<forall>b \<in> S. mapping (block_size p b) \<in> set ks \<longrightarrow> block_size p b < needed
       | Some b \<Rightarrow> b \<in> S \<and> needed \<le> block_size p b" by blast
  show ?thesis
  proof (cases r)
    case None
    show ?thesis
    proof (rule that(1))
      show "find_free p needed = Some None" using f r(1) None by simp
      show "block_size p b < needed" if "b \<in> S" for b
      proof (rule ccontr)
        assume "\<not> block_size p b < needed"
        with searched [of b] r(2) None that show False by (simp add: not_less)
      qed
    qed
  next
    case (Some b)
    show ?thesis by (rule that(2) [of b]) (use f r Some in simp_all)
  qed
qed

end
