(* ===== verification/Pool.thy ===== *)
theory Pool
  imports AllocInv
begin

text \<open>
  Functional correctness of the memory pool.  \<open>pool_repr arch p bs\<close> says that the pool
  \<open>p\<close> is well formed and tiled by the blocks \<open>bs\<close>; each operation is proved to edit that
  list in the way the comments of \<open>src/alloc.c\<close> intend.  The last section discharges the
  laws of the allocator interface for the pool.
\<close>

section \<open>The invariant\<close>

lemma minimum_block_size_cases:
  "minimum_block_size Bits32 = 16" "minimum_block_size Bits64 = 24"
  by (simp_all add: minimum_block_size_def align_up_def align_down_def ALIGNMENT_def
      sizeof_block_header_def sizeof_free_links_def)

lemma minimum_block_size_facts:
  "8 dvd minimum_block_size arch" "16 \<le> minimum_block_size arch" "minimum_block_size arch \<le> 24"
  "0 < minimum_block_size arch"
  by (cases arch; simp add: minimum_block_size_cases)+

partial_function (option) walk_blocks :: "pool_control \<Rightarrow> addr \<Rightarrow> blocks option" where
  "walk_blocks p a =
     (if block_size p a = 0 then Some []
      else Option.bind (walk_blocks p (next_block p a))
             (\<lambda>bs. Some ((block_size p a, block_is_used p a) # bs)))"

definition pool_blocks :: "pool_control \<Rightarrow> blocks" where
  "pool_blocks p = (case walk_blocks p (pc_begin p) of None \<Rightarrow> [] | Some bs \<Rightarrow> bs)"

definition chain :: "nat \<Rightarrow> pool_control \<Rightarrow> addr \<Rightarrow> nat \<Rightarrow> blocks \<Rightarrow> bool" where
  "chain m p a q bs \<longleftrightarrow> seg m p a q bs \<and> hdr p (a + extent bs) = (0, True, last_size q bs)"

definition framed :: "pool_control \<Rightarrow> nat \<Rightarrow> bool" where
  "framed p t \<longleftrightarrow> pc_initialized p \<and> 8 dvd pc_begin p \<and> pc_end p = pc_begin p + t + 8 \<and>
     pc_total p = t - 8 \<and> 8 \<le> t \<and> t < 4294967296"

text \<open>\<open>loose\<close>: a free block between \<open>xs\<close> and \<open>ys\<close> that is in no list, as during an operation.\<close>

definition loose :: "arch \<Rightarrow> pool_control \<Rightarrow> blocks \<Rightarrow> nat \<Rightarrow> blocks \<Rightarrow> bool" where
  "loose arch p xs s ys \<longleftrightarrow>
     framed p (extent xs + s + extent ys) \<and>
     chain (minimum_block_size arch) p (pc_begin p) 0 (xs @ (s, False) # ys) \<and>
     (\<exists>F. lists p F (free_at (pc_begin p) xs \<union> free_at (pc_begin p + extent xs + s) ys))"

definition pool_repr :: "arch \<Rightarrow> pool_control \<Rightarrow> blocks \<Rightarrow> bool" where
  "pool_repr arch p bs \<longleftrightarrow>
     framed p (extent bs) \<and> chain (minimum_block_size arch) p (pc_begin p) 0 bs \<and> coalesced bs \<and>
     (\<exists>F. lists p F (free_at (pc_begin p) bs))"

definition pool_inv :: "arch \<Rightarrow> pool_control \<Rightarrow> bool" where
  "pool_inv arch p \<longleftrightarrow> (\<exists>bs. pool_repr arch p bs)"

lemma chain_walk:
  assumes "0 < m" "chain m p a q bs"
  shows "walk_blocks p a = Some bs"
  using assms(2)
proof (induction bs arbitrary: a q)
  case Nil
  then show ?case by (simp add: chain_def walk_blocks.simps block_size_hdr)
next
  case (Cons b bs)
  obtain s u where b: "b = (s, u)" by (cases b)
  with Cons.prems have "hdr p a = (s, u, q)" "m \<le> s" "chain m p (a + s) s bs"
    by (simp_all add: chain_def add.assoc)
  then show ?case
    using Cons.IH [of "a + s" s] assms(1) b
    by (simp add: walk_blocks.simps [of p a] block_size_hdr block_is_used_hdr next_block_def)
qed

lemma pool_repr_blocks: "pool_repr arch p bs \<Longrightarrow> pool_blocks p = bs"
  using chain_walk [OF minimum_block_size_facts(4), of arch p "pc_begin p" 0 bs]
  by (simp add: pool_repr_def pool_blocks_def)

lemma pool_inv_iff: "pool_inv arch p \<longleftrightarrow> pool_repr arch p (pool_blocks p)"
  using pool_repr_blocks by (auto simp: pool_inv_def)

lemma chain_append:
  "chain m p a q (xs @ ys) \<longleftrightarrow> seg m p a q xs \<and> chain m p (a + extent xs) (last_size q xs) ys"
  by (auto simp: chain_def seg_append add.assoc)

text \<open>
  Rewriting the blocks \<open>mid\<close> in the middle: the headers before are untouched, the one
  after gets a new \<open>prev_size\<close>, the later ones are untouched.
\<close>

lemma chain_relink:
  assumes "0 < m" "chain m p a q bs" "hdr p' a = (fst (hdr p a), fst (snd (hdr p a)), q')"
    and "\<And>x. a < x \<Longrightarrow> hdr p' x = hdr p x"
  shows "chain m p' a q' bs"
proof (cases bs)
  case Nil
  with assms show ?thesis by (simp add: chain_def)
next
  case (Cons b cs)
  obtain s u where b: "b = (s, u)" by (cases b)
  with Cons assms(1,2) have s: "0 < s" by (auto simp: chain_def)
  have "seg m p' (a + s) s cs = seg m p (a + s) s cs"
    by (rule seg_cong) (use assms(1,4) s in auto)
  moreover have "hdr p' (a + extent bs) = hdr p (a + extent bs)"
    using assms(4) [of "a + extent bs"] s Cons b by simp
  ultimately show ?thesis using assms(2,3) Cons b by (simp add: chain_def)
qed

lemma chain_edit:
  assumes m: "0 < m" and c: "chain m p a q (xs @ mid @ ys)"
    and t: "extent mid' = extent mid" "0 < extent mid"
    and before: "\<And>x. x < a + extent xs \<Longrightarrow> hdr p' x = hdr p x"
    and here: "seg m p' (a + extent xs) (last_size q xs) mid'"
    and next_hdr: "\<And>n u k. hdr p (a + extent xs + extent mid) = (n, u, k) \<Longrightarrow>
          k = last_size (last_size q xs) mid \<Longrightarrow>
          hdr p' (a + extent xs + extent mid) = (n, u, last_size (last_size q xs) mid')"
    and after: "\<And>x. a + extent xs + extent mid < x \<Longrightarrow> hdr p' x = hdr p x"
  shows "chain m p' a q (xs @ mid' @ ys)"
proof -
  from c have "seg m p a q xs" by (simp add: chain_append)
  then have "seg m p' a q xs" using seg_cong [OF m, of a xs p' p q] before by simp
  moreover have "chain m p' (a + extent xs + extent mid) (last_size (last_size q xs) mid') ys"
  proof (rule chain_relink [OF m])
    show ys: "chain m p (a + extent xs + extent mid) (last_size (last_size q xs) mid) ys"
      using c by (simp add: chain_append)
    from ys have "snd (snd (hdr p (a + extent xs + extent mid))) = last_size (last_size q xs) mid"
      by (cases ys) (auto simp: chain_def)
    then show "hdr p' (a + extent xs + extent mid) =
        (fst (hdr p (a + extent xs + extent mid)), fst (snd (hdr p (a + extent xs + extent mid))),
         last_size (last_size q xs) mid')"
      by (intro next_hdr) (auto simp: prod_eq_iff)
  qed (use after in simp)
  ultimately show ?thesis using here t(1) by (simp add: chain_append)
qed

lemma chain_at:
  assumes "chain m p a q (xs @ (s, u) # ys)"
  shows "hdr p (a + extent xs) = (s, u, last_size q xs)" "8 dvd s" "m \<le> s"
  using assms by (auto simp: chain_def seg_append)

lemma chain_positive: "0 < m \<Longrightarrow> chain m p a q bs \<Longrightarrow> b \<in> set bs \<Longrightarrow> 0 < fst b"
  using seg_least [of m p a q bs "fst b" "snd b"] by (auto simp: chain_def)

lemma framed_ops [simp]:
  "framed (block_set b s u p) t = framed p t" "framed (set_prev_size b s p) t = framed p t"
  "framed (remove_free b p) t = framed p t" "framed (insert_free b p) t = framed p t"
  by (simp_all add: framed_def)

section \<open>Steps on a loose block\<close>

lemma loose_at:
  assumes "loose arch p xs s ys"
  defines "b \<equiv> pc_begin p + extent xs"
  shows "hdr p b = (s, False, last_size 0 xs)" "8 dvd s" "minimum_block_size arch \<le> s"
    "extent xs + s + extent ys < 4294967296"
  using assms chain_at [of "minimum_block_size arch" p "pc_begin p" 0 xs s False ys]
  by (auto simp: loose_def framed_def)

lemma below_free:
  assumes "0 < m" "seg m p a q bs" "x \<in> free_at a bs"
  shows "a \<le> x" "x < a + extent bs"
  using free_at_less [of bs x a] assms seg_least [OF assms(2)] by fastforce+

text \<open>Where the free blocks of the three parts of a loose pool lie.\<close>

lemma loose_apart:
  assumes "loose arch p xs s ys"
  defines "b \<equiv> pc_begin p + extent xs"
  shows "x \<in> free_at (pc_begin p) xs \<Longrightarrow> x < b"
    and "x \<in> free_at (b + s) ys \<Longrightarrow> b + s \<le> x"
    and "b \<notin> free_at (pc_begin p) xs \<union> free_at (b + s) ys"
    and "0 < s"
proof -
  let ?m = "minimum_block_size arch"
  note m = minimum_block_size_facts(4) [of arch]
  have c: "seg ?m p (pc_begin p) 0 xs" and s: "?m \<le> s"
    using assms(1) by (auto simp: loose_def chain_def seg_append)
  then show pos: "0 < s" using m by simp
  show 1: "x < b" if "x \<in> free_at (pc_begin p) xs" for x
    using below_free [OF m c that] by (simp add: b_def)
  show 2: "b + s \<le> x" if "x \<in> free_at (b + s) ys" for x
    using free_at_bounds [OF that] by simp
  show "b \<notin> free_at (pc_begin p) xs \<union> free_at (b + s) ys" using 1 2 pos by fastforce
qed

lemma take_free_block:
  assumes "pool_repr arch p (xs @ (s, False) # ys)"
  defines "b \<equiv> pc_begin p + extent xs"
  shows "loose arch (remove_free b p) xs s ys"
proof -
  let ?S = "free_at (pc_begin p) (xs @ (s, False) # ys)"
  let ?T = "free_at (pc_begin p) xs \<union> free_at (b + s) ys"
  note m = minimum_block_size_facts(4) [of arch]
  have c: "chain (minimum_block_size arch) p (pc_begin p) 0 (xs @ (s, False) # ys)"
    using assms(1) by (simp add: pool_repr_def)
  have c1: "seg (minimum_block_size arch) p (pc_begin p) 0 xs" "minimum_block_size arch \<le> s"
    using c by (auto simp: chain_def seg_append)
  have "b \<notin> free_at (pc_begin p) xs" using below_free(2) [OF m c1(1)] by (auto simp: b_def)
  moreover have "b \<notin> free_at (b + s) ys"
  proof
    assume "b \<in> free_at (b + s) ys"
    from free_at_bounds [OF this] c1(2) m show False by simp
  qed
  ultimately have "?S - {b} = ?T" by (auto simp: b_def)
  moreover obtain F where "lists p F ?S" using assms(1) by (auto simp: pool_repr_def)
  then have "\<exists>F. lists (remove_free b p) F (?S - {b})"
    by (rule lists_remove) (simp add: b_def)
  ultimately have "\<exists>F. lists (remove_free b p) F ?T" by simp
  moreover have "chain (minimum_block_size arch) (remove_free b p) (pc_begin p) 0 (xs @ (s, False) # ys)"
  proof -
    have "seg m (remove_free b p) a q bs = seg m p a q bs" for m a q bs
      by (induction m p a q bs rule: seg.induct) simp_all
    with c show ?thesis by (simp add: chain_def)
  qed
  ultimately show ?thesis
    using assms(1) by (simp add: loose_def pool_repr_def b_def add.assoc)
qed

text \<open>Linking the loose block in completes the operation.\<close>

lemma finish_free:
  assumes "loose arch p xs s ys" "coalesced (xs @ (s, False) # ys)"
  defines "b \<equiv> pc_begin p + extent xs"
  shows "pool_repr arch (insert_free b p) (xs @ (s, False) # ys)"
proof -
  let ?T = "free_at (pc_begin p) xs \<union> free_at (b + s) ys"
  obtain F where "lists p F ?T" using assms(1) by (auto simp: loose_def b_def)
  then have "\<exists>F. lists (insert_free b p) F (insert b ?T)"
    by (rule lists_insert) (use loose_apart(3) [OF assms(1)] b_def in simp)
  moreover have "insert b ?T = free_at (pc_begin p) (xs @ (s, False) # ys)"
    by (auto simp: b_def)
  moreover have "chain (minimum_block_size arch) (insert_free b p) (pc_begin p) 0 (xs @ (s, False) # ys)"
  proof -
    have "seg m (insert_free b p) a q bs = seg m p a q bs" for m a q bs
      by (induction m p a q bs rule: seg.induct) simp_all
    with assms(1) show ?thesis by (simp add: chain_def loose_def)
  qed
  ultimately show ?thesis
    using assms(1,2) by (simp add: loose_def pool_repr_def add.assoc)
qed

text \<open>
  Editing the headers of a loose block and of its successor keeps the lists: none of the
  rewritten addresses is a listed block, except the successor, whose size is unchanged.
\<close>

lemma lists_headers:
  assumes "lists p F S" "same_links p p'" "\<And>x. x \<in> S \<Longrightarrow> fst (hdr p' x) = fst (hdr p x)"
  shows "lists p' F S"
  using lists_cong [OF assms(1,2)] assms(3) by (simp add: block_size_hdr)

lemma release_block:
  assumes "pool_repr arch p (xs @ (s, True) # ys)"
  defines "b \<equiv> pc_begin p + extent xs"
  shows "loose arch (block_set b s False p) xs s ys"
proof -
  let ?m = "minimum_block_size arch" and ?p = "block_set b s False p"
  note m = minimum_block_size_facts(4) [of arch]
  have c: "chain ?m p (pc_begin p) 0 (xs @ [(s, True)] @ ys)" and f: "framed p (extent xs + s + extent ys)"
    using assms(1) by (simp_all add: pool_repr_def add.assoc)
  have at: "hdr p b = (s, True, last_size 0 xs)" "8 dvd s" "?m \<le> s"
    using chain_at [of ?m p "pc_begin p" 0 xs s True ys] c by (simp_all add: b_def)
  have s32: "s < 4294967296" using f by (simp add: framed_def)
  note h = hdr_block_set [OF at(2) s32, of b False p]
  have "chain ?m ?p (pc_begin p) 0 (xs @ [(s, False)] @ ys)"
    by (rule chain_edit [OF m c]) (use at m in \<open>auto simp: h [unfolded b_def] b_def\<close>)
  moreover obtain F where "lists p F (free_at (pc_begin p) xs \<union> free_at (b + s) ys)"
    using assms(1) by (auto simp: pool_repr_def b_def)
  then have "lists ?p F (free_at (pc_begin p) xs \<union> free_at (b + s) ys)"
    by (rule lists_headers) (auto simp: h at(1))
  ultimately show ?thesis using f by (auto simp: loose_def b_def)
qed

lemma chain_lists [simp]:
  "chain m (remove_free b p) a q bs = chain m p a q bs"
  "chain m (insert_free b p) a q bs = chain m p a q bs"
proof -
  have "seg m (remove_free b p) a q bs = seg m p a q bs"
    "seg m (insert_free b p) a q bs = seg m p a q bs"
    by (induction m p a q bs rule: seg.induct) simp_all
  then show "chain m (remove_free b p) a q bs = chain m p a q bs"
    "chain m (insert_free b p) a q bs = chain m p a q bs"
    by (simp_all add: chain_def)
qed

text \<open>Merging two free neighbours: the listed one is unlinked, the first header covers both.\<close>

definition merge_headers :: "addr \<Rightarrow> nat \<Rightarrow> pool_control \<Rightarrow> pool_control" where
  "merge_headers b merged p =
     (let p = block_set b merged False p in set_prev_size (next_block p b) merged p)"

lemma hdr_merge_headers:
  assumes "8 dvd t" "0 < t" "t < 4294967296"
  shows "hdr (merge_headers b t p) x =
    (if x = b then (t, False, snd (snd (hdr p b)))
     else if x = b + t then (fst (hdr p x), fst (snd (hdr p x)), t) else hdr p x)"
  using assms
  by (simp add: merge_headers_def Let_def hdr_set_prev_size hdr_block_set next_block_def
      block_size_hdr)

lemma same_links_merge [simp]: "same_links p (merge_headers b t p)"
  by (simp add: merge_headers_def Let_def same_links_def block_set_def set_prev_size_def)

lemma frame_merge [simp]:
  "framed (merge_headers b t p) n = framed p n" "pc_begin (merge_headers b t p) = pc_begin p"
  "pc_data (merge_headers b t p) = pc_data p"
  by (simp_all add: merge_headers_def Let_def)

lemma merge_blocks:
  assumes f: "framed p (extent xs + (s + t) + extent ys)"
    and c: "chain (minimum_block_size arch) p (pc_begin p) 0 (xs @ (s, False) # (t, False) # ys)"
    and L: "lists p F (free_at (pc_begin p) xs \<union> free_at (pc_begin p + extent xs + (s + t)) ys)"
  defines "b \<equiv> pc_begin p + extent xs"
  shows "loose arch (merge_headers b (s + t) p) xs (s + t) ys"
proof -
  let ?m = "minimum_block_size arch" and ?p = "merge_headers b (s + t) p"
  note m = minimum_block_size_facts(4) [of arch]
  have c': "chain ?m p (pc_begin p) 0 (xs @ [(s, False), (t, False)] @ ys)" using c by simp
  have at: "hdr p b = (s, False, last_size 0 xs)" "8 dvd s" "?m \<le> s"
    using chain_at [of ?m p "pc_begin p" 0 xs s False "(t, False) # ys"] c
    by (simp_all add: b_def)
  have at2: "8 dvd t" "?m \<le> t"
    using chain_at [of ?m p "pc_begin p" 0 "xs @ [(s, False)]" t False ys] c by simp_all
  have st: "8 dvd s + t" "0 < s + t" "s + t < 4294967296"
    using at at2 m f by (simp_all add: framed_def)
  note h = hdr_merge_headers [OF st, of b p]
  have "chain ?m ?p (pc_begin p) 0 (xs @ [(s + t, False)] @ ys)"
    by (rule chain_edit [OF m c'])
      (use at at2 m st in \<open>auto simp: h [unfolded b_def] b_def add.assoc\<close>)
  moreover have "lists ?p F (free_at (pc_begin p) xs \<union> free_at (pc_begin p + extent xs + (s + t)) ys)"
  proof (rule lists_headers [OF L])
    fix x
    assume x: "x \<in> free_at (pc_begin p) xs \<union> free_at (pc_begin p + extent xs + (s + t)) ys"
    have "x \<noteq> b"
    proof
      assume "x = b"
      moreover have "seg ?m p (pc_begin p) 0 xs" using c by (simp add: chain_append)
      ultimately show False
        using x below_free(2) [OF m, of p "pc_begin p" 0 xs x] free_at_bounds [of x] st(2)
        by (fastforce simp: b_def)
    qed
    then show "fst (hdr ?p x) = fst (hdr p x)" by (simp add: h)
  qed simp
  ultimately show ?thesis using f by (auto simp: loose_def)
qed

lemma absorb_next:
  assumes "loose arch p xs s ((t, False) # ys)"
  defines "b \<equiv> pc_begin p + extent xs"
  shows "loose arch (merge_headers b (s + t) (remove_free (b + s) p)) xs (s + t) ys"
proof -
  let ?m = "minimum_block_size arch"
  let ?T = "free_at (pc_begin p) xs \<union> free_at (b + (s + t)) ys"
  note m = minimum_block_size_facts(4) [of arch]
  have c: "chain ?m p (pc_begin p) 0 (xs @ (s, False) # (t, False) # ys)"
    and f: "framed p (extent xs + (s + t) + extent ys)"
    using assms(1) by (simp_all add: loose_def add.assoc)
  have t: "?m \<le> t"
    using chain_at [of ?m p "pc_begin p" 0 "xs @ [(s, False)]" t False ys] c by simp
  obtain F where "lists p F (free_at (pc_begin p) xs \<union> free_at (b + s) ((t, False) # ys))"
    using assms(1) by (auto simp: loose_def b_def)
  from lists_remove [OF this, of "b + s"] obtain F' where F':
    "lists (remove_free (b + s) p) F'
       ((free_at (pc_begin p) xs \<union> free_at (b + s) ((t, False) # ys)) - {b + s})" by auto
  have "b + s \<notin> ?T"
    using loose_apart(1) [OF assms(1)] free_at_bounds [of "b + s" "b + (s + t)" ys] t m
    by (fastforce simp: b_def)
  then have "(free_at (pc_begin p) xs \<union> free_at (b + s) ((t, False) # ys)) - {b + s} = ?T"
    by (auto simp: add.assoc)
  with F' have "lists (remove_free (b + s) p) F' ?T" by simp
  then show ?thesis
    using merge_blocks [of "remove_free (b + s) p" xs s t ys arch F'] c f
    by (simp add: b_def add.assoc)
qed

lemma absorb_prev:
  assumes "loose arch p (xs @ [(t, False)]) s ys"
  defines "a \<equiv> pc_begin p + extent xs"
  shows "loose arch (merge_headers a (t + s) (remove_free a p)) xs (t + s) ys"
proof -
  let ?m = "minimum_block_size arch"
  let ?T = "free_at (pc_begin p) xs \<union> free_at (a + (t + s)) ys"
  note m = minimum_block_size_facts(4) [of arch]
  have c: "chain ?m p (pc_begin p) 0 (xs @ (t, False) # (s, False) # ys)"
    and f: "framed p (extent xs + (t + s) + extent ys)"
    using assms(1) by (simp_all add: loose_def add.assoc)
  have t: "?m \<le> t" and sg: "seg ?m p (pc_begin p) 0 xs"
    using chain_at [of ?m p "pc_begin p" 0 xs t False "(s, False) # ys"] c
    by (simp_all add: chain_append)
  obtain F where "lists p F (insert a ?T)"
    using assms(1) by (auto simp: loose_def a_def add.assoc)
  from lists_remove [OF this, of a] obtain F' where F':
    "lists (remove_free a p) F' (insert a ?T - {a})" by auto
  have "a \<notin> ?T"
    using below_free(2) [OF m sg] free_at_bounds [of a "a + (t + s)" ys] t m
    by (fastforce simp: a_def)
  with F' have "lists (remove_free a p) F' ?T" by simp
  then show ?thesis
    using merge_blocks [of "remove_free a p" xs t s ys arch F'] c f
    by (simp add: a_def add.assoc)
qed

section \<open>Allocation\<close>

text \<open>The block size that serves a request of \<open>n\<close> bytes.\<close>

definition block_request :: "arch \<Rightarrow> nat \<Rightarrow> nat" where
  "block_request arch n = max (minimum_block_size arch) ((n + 15) div 8 * 8)"

definition max_request :: nat where
  "max_request = 4294967280"

lemma block_request_facts:
  "8 dvd block_request arch n" "n + 8 \<le> block_request arch n"
  "minimum_block_size arch \<le> block_request arch n"
  using minimum_block_size_facts(1) [of arch] by (auto simp: block_request_def max_def)

lemma needed_eq:
  assumes "n \<le> max_request"
  shows "(let needed = align_up arch ((n + sizeof_block_header) mod 2 ^ size_bits arch);
              needed = (if needed < minimum_block_size arch then minimum_block_size arch else needed)
          in f needed) = f (block_request arch n)"
proof -
  have "(n + 15) mod 2 ^ size_bits arch = n + 15" "(n + 8) mod 2 ^ size_bits arch = n + 8"
    using assms by (cases arch; simp add: max_request_def)+
  then have "align_up arch ((n + sizeof_block_header) mod 2 ^ size_bits arch) = (n + 15) div 8 * 8"
    by (simp add: align_up_def align_down_def ALIGNMENT_def sizeof_block_header_def
        minus_mod_eq_div_mult add.assoc)
  then show ?thesis by (simp add: block_request_def Let_def max_def)
qed

definition claim_headers :: "addr \<Rightarrow> pool_control \<Rightarrow> pool_control" where
  "claim_headers b p =
     (let p = block_set b (block_size p b) True p
      in set_prev_size (next_block p b) (block_size p b) p)"

lemma claim_whole:
  assumes l: "loose arch p xs s ys" and co: "coalesced xs" "coalesced ys"
  defines "b \<equiv> pc_begin p + extent xs"
  shows "pool_repr arch (claim_headers b p) (xs @ (s, True) # ys)"
proof -
  let ?m = "minimum_block_size arch" and ?p = "claim_headers b p"
  note m = minimum_block_size_facts(4) [of arch]
  note at = loose_at [OF l, folded b_def]
  have s: "0 < s" "s < 4294967296" using at m by simp_all
  have h: "hdr ?p x = (if x = b then (s, True, last_size 0 xs)
      else if x = b + s then (fst (hdr p x), fst (snd (hdr p x)), s) else hdr p x)" for x
    using at s by (simp add: claim_headers_def Let_def hdr_set_prev_size hdr_block_set
        next_block_def block_size_hdr)
  have same: "same_links p ?p"
    by (simp add: claim_headers_def Let_def same_links_def block_set_def set_prev_size_def)
  have c: "chain ?m p (pc_begin p) 0 (xs @ [(s, False)] @ ys)" using l by (simp add: loose_def)
  have "chain ?m ?p (pc_begin p) 0 (xs @ [(s, True)] @ ys)"
    by (rule chain_edit [OF m c]) (use at s in \<open>auto simp: h [unfolded b_def] b_def\<close>)
  moreover obtain F where "lists p F (free_at (pc_begin p) xs \<union> free_at (b + s) ys)"
    using l by (auto simp: loose_def b_def)
  then have "lists ?p F (free_at (pc_begin p) xs \<union> free_at (b + s) ys)"
    by (rule lists_headers [OF _ same]) (auto simp: h at(1))
  ultimately show ?thesis
    using l co by (auto simp: loose_def pool_repr_def b_def coalesced_used claim_headers_def Let_def
        add.assoc)
qed

definition split_headers :: "addr \<Rightarrow> nat \<Rightarrow> nat \<Rightarrow> pool_control \<Rightarrow> pool_control" where
  "split_headers b needed remainder p =
     (let split = b + needed;
          p = block_set split remainder False p;
          p = set_prev_size split needed p;
          p = block_set b needed True p
      in set_prev_size (next_block p split) remainder p)"

lemma claim_split:
  assumes l: "loose arch p xs (needed + r) ys"
    and sizes: "8 dvd needed" "minimum_block_size arch \<le> needed" "minimum_block_size arch \<le> r"
  defines "b \<equiv> pc_begin p + extent xs"
  shows "loose arch (split_headers b needed r p) (xs @ [(needed, True)]) r ys"
proof -
  let ?m = "minimum_block_size arch" and ?p = "split_headers b needed r p"
  note m = minimum_block_size_facts(4) [of arch]
  note at = loose_at [OF l, folded b_def]
  have r: "8 dvd r" using at(2) sizes(1) dvd_add_right_iff by blast
  have s: "0 < needed" "0 < r" "needed < 4294967296" "r < 4294967296"
    using at m sizes by simp_all
  have h: "hdr ?p x = (if x = b then (needed, True, last_size 0 xs)
      else if x = b + needed then (r, False, needed)
      else if x = b + needed + r then (fst (hdr p x), fst (snd (hdr p x)), r) else hdr p x)" for x
    using at(1) s sizes(1) r by (simp add: split_headers_def Let_def hdr_set_prev_size
        hdr_block_set next_block_def block_size_hdr)
  have same: "same_links p ?p"
    by (simp add: split_headers_def Let_def same_links_def block_set_def set_prev_size_def)
  have c: "chain ?m p (pc_begin p) 0 (xs @ [(needed + r, False)] @ ys)"
    using l by (simp add: loose_def)
  have "chain ?m ?p (pc_begin p) 0 (xs @ [(needed, True), (r, False)] @ ys)"
    by (rule chain_edit [OF m c])
      (use at s sizes r in \<open>auto simp: h [unfolded b_def] b_def add.assoc\<close>)
  moreover
  let ?T = "free_at (pc_begin p) xs \<union> free_at (b + (needed + r)) ys"
  obtain F where "lists p F ?T" using l by (auto simp: loose_def b_def)
  then have "lists ?p F ?T"
  proof (rule lists_headers [OF _ same])
    fix x
    assume "x \<in> ?T"
    then have "x < b \<or> b + (needed + r) \<le> x"
      using loose_apart(1,2) [OF l] by (auto simp: b_def)
    then show "fst (hdr ?p x) = fst (hdr p x)" using s by (auto simp: h)
  qed
  ultimately show ?thesis
    using l by (auto simp: loose_def b_def split_headers_def Let_def add.assoc)
qed

lemma frame_headers [simp]:
  "pc_begin (split_headers b n r p) = pc_begin p" "pc_begin (claim_headers b p) = pc_begin p"
  "pc_data (split_headers b n r p) = pc_data p" "pc_data (claim_headers b p) = pc_data p"
  by (simp_all add: split_headers_def claim_headers_def Let_def)

text \<open>What an allocation does to the chosen free block.\<close>

definition claim_blocks :: "arch \<Rightarrow> nat \<Rightarrow> nat \<Rightarrow> blocks" where
  "claim_blocks arch needed s =
     (if minimum_block_size arch \<le> s - needed then [(needed, True), (s - needed, False)]
      else [(s, True)])"

definition claim_block :: "arch \<Rightarrow> nat \<Rightarrow> addr \<Rightarrow> pool_control \<Rightarrow> pool_control" where
  "claim_block arch needed b p =
     (let p = remove_free b p;
          remainder = block_size p b - needed
      in if minimum_block_size arch \<le> remainder
         then insert_free (b + needed) (split_headers b needed remainder p)
         else claim_headers b p)"

lemma pphp_alloc_eq:
  assumes "n \<le> max_request"
  shows "pphp_alloc arch n p =
    (if \<not> pc_initialized p \<or> n = 0 then Some (None, p)
     else case find_free p (block_request arch n) of
            None \<Rightarrow> None
          | Some None \<Rightarrow> Some (None, p)
          | Some (Some b) \<Rightarrow> Some (Some (b + 8), claim_block arch (block_request arch n) b p))"
  using assms
  using assms unfolding pphp_alloc_def needed_eq [OF assms]
  by (simp add: claim_block_def split_headers_def claim_headers_def Let_def
      sizeof_block_header_def UINT32_MAX_def max_request_def not_less split: option.split)

lemma claim_block_repr:
  assumes R: "pool_repr arch p (xs @ (s, False) # ys)"
    and n: "8 dvd needed" "minimum_block_size arch \<le> needed" "needed \<le> s"
  shows "pool_repr arch (claim_block arch needed (pc_begin p + extent xs) p)
           (xs @ claim_blocks arch needed s @ ys)"
proof -
  let ?b = "pc_begin p + extent xs"
  have l: "loose arch (remove_free ?b p) xs s ys" using take_free_block [OF R] .
  have co: "coalesced xs" "coalesced ys" "ys \<noteq> [] \<Longrightarrow> snd (hd ys)"
    using R by (simp_all add: pool_repr_def coalesced_free)
  have size: "block_size (remove_free ?b p) ?b = s"
    using loose_at(1) [OF l] by (simp add: block_size_hdr)
  show ?thesis
  proof (cases "minimum_block_size arch \<le> s - needed")
    case True
    have "loose arch (remove_free ?b p) xs (needed + (s - needed)) ys" using l n by simp
    from claim_split [OF this n(1,2) True]
    have "loose arch (split_headers ?b needed (s - needed) (remove_free ?b p))
        (xs @ [(needed, True)]) (s - needed) ys" by simp
    from finish_free [OF this] co
    have "pool_repr arch (insert_free (?b + needed)
        (split_headers ?b needed (s - needed) (remove_free ?b p)))
        ((xs @ [(needed, True)]) @ (s - needed, False) # ys)"
      by (simp add: coalesced_used add.assoc)
    with True size show ?thesis by (simp add: claim_block_def claim_blocks_def Let_def)
  next
    case False
    with claim_whole [OF l co(1,2)] size show ?thesis
      by (simp add: claim_block_def claim_blocks_def Let_def)
  qed
qed

lemma pphp_alloc_cases:
  assumes R: "pool_repr arch p bs" and n: "0 < n" "n \<le> max_request"
  obtains "pphp_alloc arch n p = Some (None, p)"
      "\<And>s. (s, False) \<in> set bs \<Longrightarrow> s < block_request arch n"
  | xs s ys where "bs = xs @ (s, False) # ys" "block_request arch n \<le> s"
      "pphp_alloc arch n p = Some (Some (pc_begin p + extent xs + 8),
         claim_block arch (block_request arch n) (pc_begin p + extent xs) p)"
      "pool_repr arch (claim_block arch (block_request arch n) (pc_begin p + extent xs) p)
         (xs @ claim_blocks arch (block_request arch n) s @ ys)"
proof -
  have init: "pc_initialized p" using R by (simp add: pool_repr_def framed_def)
  have c: "chain (minimum_block_size arch) p (pc_begin p) 0 bs" using R by (simp add: pool_repr_def)
  have at: "block_size p (pc_begin p + extent xs) = s" if "bs = xs @ (s, u) # ys" for xs s u ys
    using chain_at(1) [of "minimum_block_size arch" p "pc_begin p" 0 xs s u ys] c that
    by (simp add: block_size_hdr)
  from R obtain F where "lists p F (free_at (pc_begin p) bs)" by (auto simp: pool_repr_def)
  then show ?thesis
  proof (cases rule: find_free_correct [where needed = "block_request arch n"])
    case 1
    show ?thesis
    proof (rule that(1))
      show "pphp_alloc arch n p = Some (None, p)"
        using 1(1) n init by (simp add: pphp_alloc_eq)
      fix s
      assume "(s, False) \<in> set bs"
      then obtain xs ys where bs: "bs = xs @ (s, False) # ys" by (meson split_list)
      then have "pc_begin p + extent xs \<in> free_at (pc_begin p) bs" by simp
      from 1(2) [OF this] at [OF bs] show "s < block_request arch n" by simp
    qed
  next
    case (2 b)
    from free_block_split [OF 2(2)] obtain xs s ys where
      bs: "bs = xs @ (s, False) # ys" "b = pc_begin p + extent xs" by blast
    show ?thesis
    proof (rule that(2) [OF bs(1)])
      show le: "block_request arch n \<le> s" using 2(3) at [OF bs(1)] bs(2) by simp
      show "pphp_alloc arch n p = Some (Some (pc_begin p + extent xs + 8),
         claim_block arch (block_request arch n) (pc_begin p + extent xs) p)"
        using 2(1) n init bs(2) by (simp add: pphp_alloc_eq)
      show "pool_repr arch (claim_block arch (block_request arch n) (pc_begin p + extent xs) p)
         (xs @ claim_blocks arch (block_request arch n) s @ ys)"
        using claim_block_repr [OF _ block_request_facts(1,3) le] R bs(1) by simp
    qed
  qed
qed

section \<open>Release\<close>

definition coalesce_next :: "addr \<Rightarrow> pool_control \<Rightarrow> pool_control" where
  "coalesce_next b p =
     (let following = next_block p b
      in if block_size p following \<noteq> 0 \<and> \<not> block_is_used p following
         then merge_headers b (block_size p b + block_size p following) (remove_free following p)
         else p)"

definition coalesce_prev :: "addr \<Rightarrow> pool_control \<Rightarrow> pool_control" where
  "coalesce_prev b p =
     (let previous = b - unat (pc_prev_size p b)
      in if unat (pc_prev_size p b) \<noteq> 0 \<and> \<not> block_is_used p previous
         then insert_free previous
                (merge_headers previous (block_size p previous + block_size p b) (remove_free previous p))
         else insert_free b p)"

lemma pphp_free_eq:
  assumes "pc_initialized p" "pc_begin p \<le> b" "b < pc_end p" "block_is_used p b"
  shows "pphp_free (Some (b + 8)) p =
    coalesce_prev b (coalesce_next b (block_set b (block_size p b) False p))"
  using assms
  by (simp add: pphp_free_def coalesce_prev_def coalesce_next_def merge_headers_def Let_def
      sizeof_block_header_def)

lemma frame_coalesce [simp]:
  "pc_begin (coalesce_next b p) = pc_begin p" "pc_begin (coalesce_prev b p) = pc_begin p"
  "pc_data (coalesce_next b p) = pc_data p" "pc_data (coalesce_prev b p) = pc_data p"
  by (simp_all add: coalesce_next_def coalesce_prev_def Let_def)

fun join_next :: "nat \<Rightarrow> blocks \<Rightarrow> nat \<times> blocks" where
  "join_next s ((t, False) # ys) = (s + t, ys)"
| "join_next s ys = (s, ys)"

definition free_result :: "blocks \<Rightarrow> nat \<Rightarrow> blocks \<Rightarrow> blocks" where
  "free_result xs s ys =
     (let (s, ys) = join_next s ys
      in if xs \<noteq> [] \<and> \<not> snd (last xs) then butlast xs @ (fst (last xs) + s, False) # ys
         else xs @ (s, False) # ys)"

lemma coalesce_next_loose:
  assumes "loose arch p xs s ys"
  shows "loose arch (coalesce_next (pc_begin p + extent xs) p) xs
           (fst (join_next s ys)) (snd (join_next s ys)) \<and>
         pc_begin (coalesce_next (pc_begin p + extent xs) p) = pc_begin p"
proof -
  let ?b = "pc_begin p + extent xs"
  note at = loose_at(1) [OF assms]
  note m = minimum_block_size_facts(4) [of arch]
  have c: "chain (minimum_block_size arch) p (pc_begin p) 0 ((xs @ [(s, False)]) @ ys)"
    using assms by (simp add: loose_def)
  show ?thesis
  proof (cases ys)
    case Nil
    then have "hdr p (?b + s) = (0, True, s)" using c by (simp add: chain_def add.assoc)
    then have "coalesce_next ?b p = p"
      using at by (simp add: coalesce_next_def next_block_def Let_def block_size_hdr)
    then show ?thesis using assms Nil by simp
  next
    case (Cons y zs)
    obtain t u where y: "y = (t, u)" by (cases y)
    have h: "hdr p (?b + s) = (t, u, s)" "minimum_block_size arch \<le> t"
      using chain_at [of "minimum_block_size arch" p "pc_begin p" 0 "xs @ [(s, False)]" t u zs] c Cons y
      by (simp_all add: add.assoc)
    show ?thesis
    proof (cases u)
      case True
      then have "coalesce_next ?b p = p"
        using at h by (simp add: coalesce_next_def next_block_def Let_def block_size_hdr block_is_used_hdr)
      then show ?thesis using assms Cons y True by simp
    next
      case False
      then have "coalesce_next ?b p = merge_headers ?b (s + t) (remove_free (?b + s) p)"
        using at h m by (simp add: coalesce_next_def next_block_def Let_def block_size_hdr
            block_is_used_hdr)
      then show ?thesis using absorb_next [of arch p xs s t zs] assms Cons y False by simp
    qed
  qed
qed

lemma coalesce_prev_repr:
  assumes l: "loose arch p xs s ys"
    and co: "coalesced xs" "coalesced ys" "ys \<noteq> [] \<Longrightarrow> snd (hd ys)"
  shows "pool_repr arch (coalesce_prev (pc_begin p + extent xs) p)
    (if xs \<noteq> [] \<and> \<not> snd (last xs) then butlast xs @ (fst (last xs) + s, False) # ys
     else xs @ (s, False) # ys)"
proof (cases xs rule: rev_cases)
  case Nil
  then have "coalesce_prev (pc_begin p) p = insert_free (pc_begin p) p"
    using loose_at(1) [OF l] by (simp add: coalesce_prev_def Let_def prev_size_hdr)
  then show ?thesis using finish_free [OF l] co Nil by simp
next
  case (snoc zs z)
  obtain t u where z: "z = (t, u)" by (cases z)
  let ?a = "pc_begin p + extent zs" and ?b = "pc_begin p + extent xs"
  have b: "?b = ?a + t" using snoc z by simp
  have at: "hdr p ?b = (s, False, t)" using loose_at(1) [OF l] snoc z by simp
  have h: "hdr p ?a = (t, u, last_size 0 zs)" "minimum_block_size arch \<le> t"
    using chain_at [of "minimum_block_size arch" p "pc_begin p" 0 zs t u "(s, False) # ys"]
      l snoc z by (simp_all add: loose_def)
  have t: "0 < t" using h(2) minimum_block_size_facts(4) [of arch] by simp
  show ?thesis
  proof (cases u)
    case True
    have "coalesce_prev ?b p = insert_free ?b p"
      using at h t True unfolding b
      by (simp add: coalesce_prev_def Let_def prev_size_hdr block_is_used_hdr)
    then show ?thesis using finish_free [OF l] co snoc z True by (simp add: coalesced_used)
  next
    case False
    have "coalesce_prev ?b p = insert_free ?a (merge_headers ?a (t + s) (remove_free ?a p))"
      using at h t False unfolding b
      by (simp add: coalesce_prev_def Let_def prev_size_hdr block_is_used_hdr block_size_hdr)
    moreover have l': "loose arch (merge_headers ?a (t + s) (remove_free ?a p)) zs (t + s) ys"
      using absorb_prev [of arch p zs t s ys] l snoc z False by simp
    have "coalesced (zs @ (t + s, False) # ys)"
      using co snoc z False by (simp add: coalesced_free)
    from finish_free [OF l' this]
    have "pool_repr arch (insert_free ?a (merge_headers ?a (t + s) (remove_free ?a p)))
        (zs @ (t + s, False) # ys)" by simp
    ultimately show ?thesis using snoc z False by simp
  qed
qed

lemma pphp_free_repr:
  assumes R: "pool_repr arch p (xs @ (s, True) # ys)"
  shows "pool_repr arch (pphp_free (Some (pc_begin p + extent xs + 8)) p) (free_result xs s ys)"
    and "pc_begin (pphp_free (Some (pc_begin p + extent xs + 8)) p) = pc_begin p"
    and "pc_data (pphp_free (Some (pc_begin p + extent xs + 8)) p) = pc_data p"
proof -
  let ?b = "pc_begin p + extent xs"
  let ?m = "minimum_block_size arch"
  have at: "hdr p ?b = (s, True, last_size 0 xs)" "?m \<le> s"
    using chain_at [of ?m p "pc_begin p" 0 xs s True ys] R by (simp_all add: pool_repr_def)
  have f: "pc_initialized p" "pc_end p = pc_begin p + (extent xs + s + extent ys) + 8"
    using R by (simp_all add: pool_repr_def framed_def add.assoc)
  let ?p1 = "block_set ?b s False p" and ?p2 = "coalesce_next ?b (block_set ?b s False p)"
  have eq: "pphp_free (Some (?b + 8)) p = coalesce_prev ?b ?p2"
    using pphp_free_eq [of p ?b] f at by (simp add: block_is_used_hdr block_size_hdr)
  have l1: "loose arch ?p1 xs s ys" using release_block [OF R] .
  have b2: "pc_begin ?p2 = pc_begin p"
    and l2: "loose arch ?p2 xs (fst (join_next s ys)) (snd (join_next s ys))"
    using coalesce_next_loose [OF l1] by simp_all
  have co: "coalesced xs" "coalesced ys" using R by (simp_all add: pool_repr_def coalesced_used)
  have co2: "coalesced (snd (join_next s ys))"
    "snd (join_next s ys) \<noteq> [] \<Longrightarrow> snd (hd (snd (join_next s ys)))"
    using co(2) by (cases "(s, ys)" rule: join_next.cases; auto)+
  from coalesce_prev_repr [OF l2 co(1) co2]
  show "pool_repr arch (pphp_free (Some (?b + 8)) p) (free_result xs s ys)"
    unfolding eq by (simp add: b2 free_result_def case_prod_beta Let_def)
  show "pc_begin (pphp_free (Some (?b + 8)) p) = pc_begin p"
    "pc_data (pphp_free (Some (?b + 8)) p) = pc_data p"
    unfolding eq by simp_all
qed

section \<open>The live blocks\<close>

definition live_blocks :: "pool_control \<Rightarrow> addr \<Rightarrow> nat option" where
  "live_blocks p = used_at (pc_begin p) (pool_blocks p)"

definition all_positive :: "blocks \<Rightarrow> bool" where
  "all_positive bs \<longleftrightarrow> (\<forall>b \<in> set bs. 0 < fst b)"

lemma repr_positive: "pool_repr arch p bs \<Longrightarrow> all_positive bs"
  using chain_positive [OF minimum_block_size_facts(4) [of arch]]
  by (auto simp: all_positive_def pool_repr_def)

lemma used_at_None:
  assumes "all_positive bs" "x < a + 8 \<or> a + extent bs + 8 \<le> x"
  shows "used_at a bs x = None"
  using used_at_bounds [of bs a x] assms
  by (cases "used_at a bs x") (auto simp: all_positive_def)

lemma map_add_upd_left: "g k = None \<Longrightarrow> f(k \<mapsto> v) ++ g = (f ++ g)(k \<mapsto> v)"
  by (auto simp: map_add_def fun_eq_iff split: option.splits)

text \<open>Claiming the middle block adds exactly its address; the others are untouched.\<close>

lemma used_at_claim:
  assumes "all_positive xs"
  shows "used_at a (xs @ (s, True) # ys) = (used_at a (xs @ (s, False) # ys))(a + extent xs + 8 \<mapsto> s - 8)"
proof -
  have "used_at a xs (a + extent xs + 8) = None" by (rule used_at_None [OF assms]) simp
  then show ?thesis by (simp add: used_at_append map_add_upd_left)
qed

lemma used_at_middle:
  assumes "all_positive (xs @ ys)" "0 < s"
  shows "used_at a (xs @ (s, False) # ys) (a + extent xs + 8) = None"
  using assms used_at_None [of xs "a + extent xs + 8" a]
    used_at_None [of ys "a + extent xs + 8" "a + extent xs + s"]
  by (simp add: used_at_append map_add_def all_positive_def)

lemma used_at_claim_blocks:
  assumes "all_positive (xs @ ys)" "needed \<le> s"
  obtains k where "needed - 8 \<le> k"
    "used_at a (xs @ claim_blocks arch needed s @ ys) =
       (used_at a (xs @ (s, False) # ys))(a + extent xs + 8 \<mapsto> k)"
proof (cases "minimum_block_size arch \<le> s - needed")
  case True
  have "used_at a (xs @ (needed, False) # (s - needed, False) # ys) = used_at a (xs @ (s, False) # ys)"
    using assms(2) by (simp add: used_at_append flip: add.assoc)
  then have "used_at a (xs @ claim_blocks arch needed s @ ys) =
      (used_at a (xs @ (s, False) # ys))(a + extent xs + 8 \<mapsto> needed - 8)"
    using True used_at_claim [of xs a needed "(s - needed, False) # ys"] assms(1)
    by (simp add: claim_blocks_def all_positive_def)
  then show ?thesis using that by blast
next
  case False
  then have "used_at a (xs @ claim_blocks arch needed s @ ys) =
      (used_at a (xs @ (s, False) # ys))(a + extent xs + 8 \<mapsto> s - 8)"
    using used_at_claim [of xs a s ys] assms(1) by (simp add: claim_blocks_def all_positive_def)
  then show ?thesis using that [of "s - 8"] assms(2) by simp
qed

lemma used_at_free_result: "used_at a (free_result xs s ys) = used_at a (xs @ (s, False) # ys)"
proof -
  have n: "used_at b ((fst (join_next s ys), False) # snd (join_next s ys)) = used_at b ((s, False) # ys)" for b
    by (cases "(s, ys)" rule: join_next.cases) (simp_all add: add.assoc)
  show ?thesis
  proof (cases xs rule: rev_cases)
    case Nil
    then show ?thesis using n by (simp add: free_result_def case_prod_beta)
  next
    case (snoc zs z)
    obtain t u where "z = (t, u)" by (cases z)
    then show ?thesis using n snoc
      by (auto simp: free_result_def case_prod_beta Let_def used_at_append simp flip: add.assoc)
  qed
qed

lemma pool_free_live:
  assumes R: "pool_repr arch p bs" and v: "live_blocks p a = Some n"
  shows "pool_inv arch (pphp_free (Some a) p)"
    "live_blocks (pphp_free (Some a) p) = (live_blocks p)(a := None)"
proof -
  have bs: "pool_blocks p = bs" using pool_repr_blocks [OF R] .
  from v obtain xs s ys where
    split: "bs = xs @ (s, True) # ys" "a = pc_begin p + extent xs + 8" "n = s - 8"
    using used_block_split [of "pc_begin p" bs a n] by (auto simp: live_blocks_def bs)
  note R' = pphp_free_repr [OF R [unfolded split(1)], folded split(2)]
  from R'(1) show "pool_inv arch (pphp_free (Some a) p)" by (auto simp: pool_inv_def)
  have pos: "all_positive (xs @ ys)" "0 < s"
    using repr_positive [OF R] split(1) by (auto simp: all_positive_def)
  have "live_blocks (pphp_free (Some a) p) = used_at (pc_begin p) (xs @ (s, False) # ys)"
    using pool_repr_blocks [OF R'(1)] R'(2) by (simp add: live_blocks_def used_at_free_result)
  also have "\<dots> = (used_at (pc_begin p) bs)(a := None)"
    using used_at_claim [of xs "pc_begin p" s ys] used_at_middle [OF pos, of "pc_begin p"] pos split
    by (auto simp: fun_eq_iff all_positive_def)
  finally show "live_blocks (pphp_free (Some a) p) = (live_blocks p)(a := None)"
    by (simp add: live_blocks_def bs)
qed

lemma frame_claim_block [simp]:
  "pc_begin (claim_block arch n b p) = pc_begin p" "pc_data (claim_block arch n b p) = pc_data p"
  by (simp_all add: claim_block_def Let_def)

lemma pool_alloc_live:
  assumes R: "pool_repr arch p bs" and n: "0 < n" "n \<le> max_request"
    and a: "pphp_alloc arch n p = Some (Some r, p')"
  shows "pool_inv arch p' \<and> live_blocks p r = None \<and> pc_begin p' = pc_begin p \<and>
    pc_data p' = pc_data p \<and> (\<exists>m \<ge> n. live_blocks p' = (live_blocks p)(r \<mapsto> m))"
  using R n
proof (cases rule: pphp_alloc_cases)
  case 1
  then show ?thesis using a by simp
next
  case (2 xs s ys)
  let ?p = "claim_block arch (block_request arch n) (pc_begin p + extent xs) p"
  have r: "r = pc_begin p + extent xs + 8" "p' = ?p" using a 2(3) by simp_all
  have pos: "all_positive (xs @ ys)" "0 < s"
    using repr_positive [OF R] 2(1) by (auto simp: all_positive_def)
  have before: "live_blocks p = used_at (pc_begin p) bs"
    using pool_repr_blocks [OF R] by (simp add: live_blocks_def)
  have after: "live_blocks p' = used_at (pc_begin p)
      (xs @ claim_blocks arch (block_request arch n) s @ ys)"
    using pool_repr_blocks [OF 2(4)] by (simp add: live_blocks_def r(2))
  from used_at_claim_blocks [OF pos(1) 2(2), where arch = arch and a = "pc_begin p"] obtain k where
    "block_request arch n - 8 \<le> k" "live_blocks p' = (live_blocks p)(r \<mapsto> k)"
    using before after r(1) 2(1) by metis
  moreover from this have "n \<le> k" using block_request_facts(2) [of n arch] by linarith
  moreover have "live_blocks p r = None"
    using used_at_middle [OF pos] before r(1) 2(1) by simp
  ultimately show ?thesis using 2(4) r(2) by (auto simp: pool_inv_def)
qed

text \<open>An allocation never gets stuck in a loop of the search.\<close>

lemma pphp_alloc_total:
  assumes "pool_repr arch p bs"
  shows "pphp_alloc arch n p \<noteq> None"
proof -
  from assms obtain F where "lists p F (free_at (pc_begin p) bs)" by (auto simp: pool_repr_def)
  then have "find_free p needed \<noteq> None" for needed
    by (cases rule: find_free_correct [where needed = needed]) auto
  then show ?thesis
    unfolding pphp_alloc_def Let_def by (simp del: not_None_eq split: option.split)
qed

lemma pphp_alloc_fails:
  "pphp_alloc arch n p = Some (None, p') \<Longrightarrow> p' = p"
  by (auto simp: pphp_alloc_def Let_def split: if_splits option.splits)

section \<open>Reallocation\<close>

lemma hdr_data [simp]: "hdr (p\<lparr>pc_data := d\<rparr>) = hdr p"
  by (simp add: hdr_def block_size_def block_is_used_def fun_eq_iff)

lemma pool_repr_data [simp]: "pool_repr arch (p\<lparr>pc_data := d\<rparr>) bs = pool_repr arch p bs"
proof -
  have "seg m (p\<lparr>pc_data := d\<rparr>) a q bs = seg m p a q bs" for m a q bs
    by (induction m p a q bs rule: seg.induct) simp_all
  moreover have "dll (p\<lparr>pc_data := d\<rparr>) q x bs y = dll p q x bs y" for q x bs y
    by (rule dll_cong) simp
  then have "lists (p\<lparr>pc_data := d\<rparr>) F S = lists p F S" for F S
    unfolding lists_def by (simp add: block_size_def)
  ultimately show ?thesis by (simp add: pool_repr_def framed_def chain_def)
qed

lemma copy_data_repr [simp]: "pool_repr arch (copy_data d s n p) bs = pool_repr arch p bs"
  by (simp add: copy_data_def)

lemma copy_data_live:
  assumes "pool_inv arch p"
  shows "live_blocks (copy_data d s n p) = live_blocks p"
proof -
  from assms obtain bs where "pool_repr arch p bs" by (auto simp: pool_inv_def)
  moreover from this have "pool_repr arch (copy_data d s n p) bs" by simp
  moreover have "pc_begin (copy_data d s n p) = pc_begin p" by (simp add: copy_data_def)
  ultimately show ?thesis using pool_repr_blocks by (simp add: live_blocks_def)
qed

lemma live_block_size:
  assumes "pool_repr arch p bs" "live_blocks p a = Some m"
  shows "block_size p (a - sizeof_block_header) - sizeof_block_header = m"
proof -
  have bs: "pool_blocks p = bs" using pool_repr_blocks [OF assms(1)] .
  from assms(2) obtain xs s ys where
    split: "bs = xs @ (s, True) # ys" "a = pc_begin p + extent xs + 8" "m = s - 8"
    using used_block_split [of "pc_begin p" bs a m] by (auto simp: live_blocks_def bs)
  have "hdr p (pc_begin p + extent xs) = (s, True, last_size 0 xs)"
    using assms(1) split(1) chain_at [of "minimum_block_size arch" p "pc_begin p" 0 xs s True ys]
    by (simp add: pool_repr_def)
  then show ?thesis using split by (simp add: block_size_hdr sizeof_block_header_def)
qed

text \<open>Every outcome of growing a block: in place, out of memory, or moved with its contents.\<close>

lemma pphp_realloc_cases:
  assumes R: "pool_repr arch p bs" and v: "live_blocks p a = Some m" and n: "0 < n" "n \<le> max_request"
  obtains "n \<le> m" "pphp_realloc arch (Some a) n p = Some (Some a, p)"
  | "m < n" "pphp_realloc arch (Some a) n p = Some (None, p)" "pphp_alloc arch n p = Some (None, p)"
  | r p' k where "m < n" "pphp_realloc arch (Some a) n p = Some (Some r, p')" "pool_inv arch p'"
      "n \<le> k" "live_blocks p r = None" "live_blocks p' = (live_blocks p)(a := None, r \<mapsto> k)"
      "\<And>i. i < m \<Longrightarrow> pc_data p' (r + i) = pc_data p (a + i)"
proof (cases "n \<le> m")
  case True
  then have "pphp_realloc arch (Some a) n p = Some (Some a, p)"
    using n live_block_size [OF R v] by (simp add: pphp_realloc_def Let_def)
  then show ?thesis using that(1) True by blast
next
  case False
  then have le: "m < n" by simp
  obtain q p1 where alloc: "pphp_alloc arch n p = Some (q, p1)"
    using pphp_alloc_total [OF R, of n] by auto
  show ?thesis
  proof (cases q)
    case None
    then have "p1 = p" using alloc pphp_alloc_fails by blast
    then have "pphp_realloc arch (Some a) n p = Some (None, p)"
      using alloc None n le live_block_size [OF R v] by (simp add: pphp_realloc_def Let_def)
    then show ?thesis using that(2) alloc None le \<open>p1 = p\<close> by blast
  next
    case (Some r)
    note A = pool_alloc_live [OF R n alloc [unfolded Some]]
    from A obtain k where k: "n \<le> k" "live_blocks p1 = (live_blocks p)(r \<mapsto> k)" by blast
    from A v have ra: "r \<noteq> a" by auto
    define p2 where "p2 = copy_data r a m p1"
    have d: "pc_data p2 (r + i) = pc_data p (a + i)" if "i < m" for i
      using that A by (simp add: p2_def copy_data_def)
    from A obtain cs where R1: "pool_repr arch p1 cs" by (auto simp: pool_inv_def)
    then have R2: "pool_repr arch p2 cs" by (simp add: p2_def)
    have l2: "live_blocks p2 = (live_blocks p)(r \<mapsto> k)" using A k copy_data_live [of arch p1] by (simp add: p2_def)
    then have v2: "live_blocks p2 a = Some m" using v ra by simp
    have bs: "pool_blocks p2 = cs" using pool_repr_blocks [OF R2] .
    obtain xs s ys where split: "cs = xs @ (s, True) # ys" "a = pc_begin p2 + extent xs + 8"
      by (rule used_block_split [OF v2 [unfolded live_blocks_def bs]]) (rule that)
    have data: "pc_data (pphp_free (Some a) p2) = pc_data p2"
      using pphp_free_repr(3) [OF R2 [unfolded split(1)]] split(2) by simp
    have "pphp_realloc arch (Some a) n p = Some (Some r, pphp_free (Some a) p2)"
      using alloc Some n le live_block_size [OF R v] by (simp add: pphp_realloc_def Let_def p2_def)
    then show ?thesis
      by (rule that(3) [OF le, of r _ k])
        (use pool_free_live [OF R2 v2] l2 k A ra d data in \<open>auto simp: fun_upd_twist\<close>)
  qed
qed

section \<open>Initialisation\<close>

lemma init_headers:
  fixes first s :: nat
  assumes "8 dvd s" "0 < s" "s < 4294967296"
  defines "p \<equiv> set_prev_size first 0 (block_set first s False empty_pool)"
  defines "p' \<equiv> block_set (next_block p first) 0 True p"
  defines "q \<equiv> set_prev_size (next_block p first) (block_size p' first) p'"
  shows "hdr q first = (s, False, 0)" "hdr q (first + s) = (0, True, s)"
    "next_block p first = first + s" "block_size q first = s" "same_links empty_pool q"
proof -
  have p: "hdr p first = (s, False, 0)"
    using assms(1-3) by (simp add: p_def hdr_set_prev_size hdr_block_set)
  then show np: "next_block p first = first + s"
    by (simp add: next_block_def block_size_hdr)
  have p': "hdr p' x = (if x = first + s then (0, True, snd (snd (hdr p x))) else hdr p x)" for x
    by (simp add: p'_def np hdr_block_set)
  then have "block_size p' first = s" using p assms(2) by (simp add: block_size_hdr)
  then show "hdr q first = (s, False, 0)" "hdr q (first + s) = (0, True, s)"
    using assms(1-3) p by (simp_all add: q_def np hdr_set_prev_size p')
  then show "block_size q first = s" by (simp add: block_size_hdr)
  show "same_links empty_pool q"
    by (simp add: q_def p'_def p_def same_links_def block_set_def set_prev_size_def)
qed

lemma pool_init_repr:
  assumes fits: "raw + 7 < 2 ^ size_bits arch" "sz < 4294967296"
  defines "aligned \<equiv> (raw + 7) div 8 * 8"
  defines "avail \<equiv> (sz - (aligned - raw)) div 8 * 8"
  shows "if sz \<le> aligned - raw + minimum_block_size arch + 8
         then pphp_pool_init arch (Some raw) sz = empty_pool
         else pool_repr arch (pphp_pool_init arch (Some raw) sz) [(avail - 8, False)] \<and>
              pc_begin (pphp_pool_init arch (Some raw) sz) = aligned"
proof -
  have al: "align_up arch raw = aligned"
    using fits(1) by (simp add: align_up_def align_down_def ALIGNMENT_def aligned_def
        minus_mod_eq_div_mult)
  have ge: "raw \<le> aligned" "aligned - raw \<le> 7" "aligned < 2 ^ size_bits arch" "8 dvd aligned"
    using fits(1) unfolding aligned_def by presburger+
  have skip: "(aligned + 2 ^ size_bits arch - raw) mod 2 ^ size_bits arch = aligned - raw"
  proof -
    have "aligned + 2 ^ size_bits arch - raw = (aligned - raw) + 2 ^ size_bits arch" using ge by simp
    moreover have "aligned - raw < 2 ^ size_bits arch" using ge(3) by linarith
    ultimately show ?thesis by (simp only: mod_add_self2 mod_less)
  qed
  show ?thesis
  proof (cases "sz \<le> aligned - raw + minimum_block_size arch + 8")
    case True
    then show ?thesis by (simp add: pphp_pool_init_def al skip Let_def sizeof_block_header_def)
  next
    case False
    define s where "s = avail - 8"
    have av: "8 dvd avail" "minimum_block_size arch + 8 \<le> avail" "avail \<le> sz"
    proof -
      obtain k where k: "minimum_block_size arch = 8 * k"
        using minimum_block_size_facts(1) [of arch] by blast
      define w where "w = sz - (aligned - raw)"
      have w: "8 * k + 8 < w" "w \<le> sz" using False k by (simp_all add: w_def)
      have "8 dvd w div 8 * 8" "8 * k + 8 \<le> w div 8 * 8" "w div 8 * 8 \<le> w"
        using w(1) by (simp, presburger, presburger)
      then show "8 dvd avail" "minimum_block_size arch + 8 \<le> avail" "avail \<le> sz"
        using w(2) k by (simp_all add: avail_def w_def)
    qed
    then have s: "8 dvd s" "0 < s" "s < 4294967296" "minimum_block_size arch \<le> s"
      using fits(2) minimum_block_size_facts(2) [of arch] by (auto simp: s_def dvd_diff_nat)
    define p where "p = set_prev_size aligned 0 (block_set aligned s False empty_pool)"
    define p' where "p' = block_set (next_block p aligned) 0 True p"
    define q where "q = set_prev_size (next_block p aligned) (block_size p' aligned) p'"
    define r where "r = q\<lparr>pc_begin := aligned, pc_end := aligned + s + 8,
                        pc_total := s - 8, pc_initialized := True\<rparr>"
    note h = init_headers [OF s(1-3), of aligned, folded p_def, folded p'_def, folded q_def]
    have hr: "hdr r = hdr q" "same_links empty_pool r"
      using h(5) by (simp_all add: r_def hdr_def block_size_def block_is_used_def same_links_def fun_eq_iff)
    note bq = h(4)
    have av8: "align_down (sz - (aligned - raw)) - sizeof_block_header = s"
      by (simp add: s_def avail_def align_down_def ALIGNMENT_def sizeof_block_header_def
          minus_mod_eq_div_mult)
    have "lists empty_pool (\<lambda>_. []) {}" by (rule listsI) (simp_all add: empty_pool_def)
    then have "lists r (\<lambda>_. []) {}" using hr(2) by (rule lists_cong) simp
    moreover have "pc_begin r = aligned" "pc_end r = aligned + s + 8" "pc_total r = s - 8"
      "pc_initialized r" by (simp_all add: r_def)
    ultimately have "loose arch r [] s []"
      using h(1,2) s ge(4) by (auto simp: loose_def framed_def chain_def hr(1))
    from finish_free [OF this] have "pool_repr arch (insert_free aligned r) [(s, False)]"
      by (simp add: r_def)
    moreover have "pphp_pool_init arch (Some raw) sz = insert_free aligned r"
    proof -
      have sb: "sizeof_block_header = 8" by (simp add: sizeof_block_header_def)
      show ?thesis
        using False unfolding pphp_pool_init_def Let_def option.case al skip av8
          p_def [symmetric] p'_def [symmetric] q_def [symmetric] bq
        unfolding h(3) sb r_def by simp
    qed
    ultimately show ?thesis using False by (simp add: r_def s_def)
  qed
qed

section \<open>Statistics and the consistency check\<close>

definition payloads :: "bool \<Rightarrow> blocks \<Rightarrow> nat list" where
  "payloads used bs = map (\<lambda>b. fst b - 8) (filter (\<lambda>b. snd b = used) bs)"

lemma payloads_simps [simp]:
  "payloads used [] = []"
  "payloads used ((s, u) # bs) = (if u = used then (s - 8) # payloads used bs else payloads used bs)"
  by (simp_all add: payloads_def)

lemma stats_loop_correct:
  assumes "0 < m" "chain m p a q bs"
  shows "stats_loop p a st = Some (st\<lparr>ps_used := ps_used st + sum_list (payloads True bs),
     ps_free := ps_free st + sum_list (payloads False bs),
     ps_largest_free := fold max (payloads False bs) (ps_largest_free st),
     ps_fragments := ps_fragments st + length (payloads False bs)\<rparr>)"
  using assms(2)
proof (induction bs arbitrary: a q st)
  case Nil
  then show ?case by (simp add: chain_def stats_loop.simps block_size_hdr)
next
  case (Cons b bs)
  obtain s u where b: "b = (s, u)" by (cases b)
  with Cons.prems have "hdr p a = (s, u, q)" "m \<le> s" "chain m p (a + s) s bs"
    by (simp_all add: chain_def add.assoc)
  then show ?case
    using Cons.IH [of "a + s" s] assms(1) b
    by (simp add: stats_loop.simps [of p a] block_size_hdr block_is_used_hdr next_block_def Let_def
        sizeof_block_header_def max_def)
qed

lemma payload_total:
  assumes "all_positive bs" "\<forall>b \<in> set bs. 8 \<le> fst b"
  shows "sum_list (payloads True bs) + sum_list (payloads False bs) + 8 * length bs = extent bs"
  using assms by (induction bs) (auto simp: all_positive_def)

lemma word_eqI_unat: "unat (v :: u32) = unat w \<Longrightarrow> v = w"
  by (rule unsigned_word_eqI)

text \<open>
  The check ends on every pool, also on a corrupted one, and accepts exactly the pools
  whose headers form a chain of blocks up to a sentinel inside the region.
\<close>

lemma check_loop_correct:
  "\<exists>r. check_loop arch p b w = Some r \<and>
     (r \<longleftrightarrow> (\<exists>bs. chain (minimum_block_size arch) p b (unat w) bs \<and> b + extent bs < pc_end p))"
proof (induction "pc_end p - b" arbitrary: b w rule: less_induct)
  case less
  let ?m = "minimum_block_size arch"
  note m = minimum_block_size_facts(4) [of arch]
  show ?case
  proof (cases "b < pc_end p \<and> pc_prev_size p b = w \<and> block_size p b \<noteq> 0 \<and>
      block_size p b mod 8 = 0 \<and> ?m \<le> block_size p b")
    case True
    let ?b = "next_block p b" and ?w = "of_nat (block_size p b) :: u32"
    have small: "block_size p b < 4294967296"
      unfolding block_size_def using unsigned_less [of "pc_size_flags p b AND BLOCK_SIZE_MASK"] by simp
    have "pc_end p - ?b < pc_end p - b"
      unfolding next_block_def by (rule diff_less_mono2) (use True in auto)
    from less [OF this, of ?w] obtain r where
      r: "check_loop arch p ?b ?w = Some r"
        "r \<longleftrightarrow> (\<exists>bs. chain ?m p ?b (block_size p b) bs \<and> ?b + extent bs < pc_end p)"
      using small by (auto simp: unat_of_nat32)
    have unfold: "check_loop arch p b w = Some r"
      using True r(1) by (simp add: check_loop.simps [of arch p b w] ALIGNMENT_def)
    have h: "hdr p b = (block_size p b, block_is_used p b, unat w)" using True by (simp add: hdr_def)
    have step: "(\<exists>bs. chain ?m p b (unat w) bs \<and> b + extent bs < pc_end p) \<longleftrightarrow>
        (\<exists>bs. chain ?m p ?b (block_size p b) bs \<and> ?b + extent bs < pc_end p)"
    proof
      assume "\<exists>bs. chain ?m p b (unat w) bs \<and> b + extent bs < pc_end p"
      then obtain bs where bs: "chain ?m p b (unat w) bs" "b + extent bs < pc_end p" by blast
      from bs(1) True h obtain s u cs where "bs = (s, u) # cs"
        by (cases bs) (auto simp: chain_def)
      with bs h show "\<exists>bs. chain ?m p ?b (block_size p b) bs \<and> ?b + extent bs < pc_end p"
        by (intro exI [of _ cs]) (auto simp: chain_def next_block_def add.assoc)
    next
      assume "\<exists>bs. chain ?m p ?b (block_size p b) bs \<and> ?b + extent bs < pc_end p"
      then obtain bs where bs: "chain ?m p ?b (block_size p b) bs" "?b + extent bs < pc_end p" by blast
      with h True show "\<exists>bs. chain ?m p b (unat w) bs \<and> b + extent bs < pc_end p"
        by (intro exI [of _ "(block_size p b, block_is_used p b) # bs"])
          (auto simp: chain_def next_block_def add.assoc)
    qed
    show ?thesis using unfold r(2) step by blast
  next
    case False
    let ?r = "b < pc_end p \<and> pc_prev_size p b = w \<and> block_size p b = 0 \<and> block_is_used p b"
    have "check_loop arch p b w = Some ?r"
      using False by (auto simp: check_loop.simps [of arch p b w] ALIGNMENT_def)
    moreover have "?r \<longleftrightarrow> (\<exists>bs. chain ?m p b (unat w) bs \<and> b + extent bs < pc_end p)"
    proof
      assume ?r
      then show "\<exists>bs. chain ?m p b (unat w) bs \<and> b + extent bs < pc_end p"
        by (intro exI [of _ "[]"]) (simp add: chain_def hdr_def)
    next
      assume "\<exists>bs. chain ?m p b (unat w) bs \<and> b + extent bs < pc_end p"
      then obtain bs where bs: "chain ?m p b (unat w) bs" "b + extent bs < pc_end p" by blast
      show ?r
      proof (cases bs)
        case Nil
        with bs show ?thesis by (auto simp: chain_def hdr_def intro: word_eqI_unat)
      next
        case (Cons c cs)
        with bs False m show ?thesis
          by (cases c) (auto simp: chain_def hdr_def dest: word_eqI_unat)
      qed
    qed
    ultimately show ?thesis by blast
  qed
qed

lemma pool_check_correct:
  "\<exists>r. pphp_pool_check arch p = Some r \<and> (r \<longleftrightarrow> pc_initialized p \<and>
     (\<exists>bs. chain (minimum_block_size arch) p (pc_begin p) 0 bs \<and> pc_begin p + extent bs < pc_end p))"
  using check_loop_correct [of arch p "pc_begin p" 0] by (auto simp: pphp_pool_check_def)

section \<open>The pool is an allocator\<close>

definition pool_ops :: "arch \<Rightarrow> pool_control heap_ops" where
  "pool_ops arch =
     \<lparr>h_alloc = (\<lambda>n p. case pphp_alloc arch n p of Some r \<Rightarrow> r | None \<Rightarrow> (None, p)),
      h_free = pphp_free,
      h_realloc = (\<lambda>a n p. case pphp_realloc arch a n p of Some r \<Rightarrow> r | None \<Rightarrow> (None, p))\<rparr>"

lemma h_alloc_pool:
  assumes "pool_inv arch p"
  shows "h_alloc (pool_ops arch) n p = r \<longleftrightarrow> pphp_alloc arch n p = Some r"
proof -
  from assms obtain v where "pphp_alloc arch n p = Some v"
    using pphp_alloc_total by (metis not_None_eq pool_inv_def)
  then show ?thesis by (simp add: pool_ops_def)
qed

lemma h_realloc_pool:
  assumes "pool_inv arch p" "live_blocks p a = Some m" "0 < n"
  shows "h_realloc (pool_ops arch) (Some a) n p = r \<longleftrightarrow> pphp_realloc arch (Some a) n p = Some r"
proof -
  from assms(1) obtain q p' where "pphp_alloc arch n p = Some (q, p')"
    using pphp_alloc_total by (metis not_None_eq pool_inv_def prod.exhaust_sel)
  then have "\<exists>v. pphp_realloc arch (Some a) n p = Some v"
    using assms(3) by (cases q) (simp_all add: pphp_realloc_def Let_def)
  then show ?thesis by (auto simp: pool_ops_def)
qed

lemma pphp_realloc_fails:
  "0 < n \<Longrightarrow> pphp_realloc arch (Some a) n p = Some (None, p') \<Longrightarrow> p' = p"
  using pphp_alloc_fails by (auto simp: pphp_realloc_def Let_def split: if_splits option.splits)

interpretation pool: allocator "pool_ops arch" "pool_inv arch" live_blocks max_request for arch
proof
  fix h h' :: pool_control and n m :: nat and p q :: addr
  show "h' = h" if "pool_inv arch h" "h_alloc (pool_ops arch) n h = (None, h')"
    using that pphp_alloc_fails by (auto simp: h_alloc_pool)
  show "pool_inv arch h' \<and> live_blocks h p = None \<and> (\<exists>m \<ge> n. live_blocks h' = (live_blocks h)(p \<mapsto> m))"
    if "pool_inv arch h" "n \<le> max_request" "h_alloc (pool_ops arch) n h = (Some p, h')"
  proof -
    have a: "pphp_alloc arch n h = Some (Some p, h')" using that by (simp add: h_alloc_pool)
    then have "0 < n" by (cases "n = 0") (simp_all add: pphp_alloc_def)
    then show ?thesis using that(1,2) pool_alloc_live [OF _ _ _ a] by (auto simp: pool_inv_def)
  qed
  show "h_free (pool_ops arch) None h = h" by (simp add: pool_ops_def pphp_free_def)
  show "pool_inv arch (h_free (pool_ops arch) (Some p) h) \<and>
      live_blocks (h_free (pool_ops arch) (Some p) h) = (live_blocks h)(p := None)"
    if "pool_inv arch h" "live_blocks h p = Some m"
    using that pool_free_live by (auto simp: pool_inv_def [of arch h] pool_ops_def)
  show "h_realloc (pool_ops arch) None n h = h_alloc (pool_ops arch) n h"
    by (simp add: pool_ops_def pphp_realloc_def)
  show "h' = h" if "pool_inv arch h" "live_blocks h p = Some m" "0 < n"
    "h_realloc (pool_ops arch) (Some p) n h = (None, h')"
    using that h_realloc_pool [OF that(1-3)] pphp_realloc_fails [OF that(3)] by blast
  show "pool_inv arch h' \<and> (q = p \<or> live_blocks h q = None) \<and>
      (\<exists>k \<ge> n. live_blocks h' = ((live_blocks h)(p := None))(q \<mapsto> k))"
    if "pool_inv arch h" "live_blocks h p = Some m" "0 < n" "n \<le> max_request"
      "h_realloc (pool_ops arch) (Some p) n h = (Some q, h')"
  proof -
    from that(1) obtain bs where R: "pool_repr arch h bs" by (auto simp: pool_inv_def)
    have e: "pphp_realloc arch (Some p) n h = Some (Some q, h')"
      using that h_realloc_pool by blast
    from R that(2-4) show ?thesis
    proof (cases rule: pphp_realloc_cases)
      case 1
      then have "q = p" "h' = h" using e by simp_all
      then show ?thesis using that(1,2) 1(1) by (auto simp: fun_upd_idem)
    next
      case 2
      then show ?thesis using e by simp
    next
      case (3 r p' k)
      then have "r = q" "p' = h'" using e by simp_all
      with 3 show ?thesis by auto
    qed
  qed
qed

section \<open>Properties\<close>

lemma demo_pool_repr:
  "pool_repr Bits64 (pphp_pool_init Bits64 (Some 4096) 65536) [(65528, False)]"
  "pc_begin (pphp_pool_init Bits64 (Some 4096) 65536) = 4096"
  using pool_init_repr [of 4096 Bits64 65536] by (simp_all add: minimum_block_size_cases)

definition demo_pool :: pool_control where
  "demo_pool = pphp_pool_init Bits64 (Some 4096) 65536"

lemma demo_pool_inv: "pool_inv Bits64 demo_pool" "live_blocks demo_pool = Map.empty"
proof -
  have r: "pool_repr Bits64 demo_pool [(65528, False)]"
    using demo_pool_repr by (simp add: demo_pool_def)
  then show "pool_inv Bits64 demo_pool" by (auto simp: pool_inv_def)
  show "live_blocks demo_pool = Map.empty"
    using pool_repr_blocks [OF r] by (simp add: live_blocks_def)
qed

lemma demo_alloc:
  assumes "0 < n" "n \<le> 1000"
  shows "h_alloc (pool_ops Bits64) n demo_pool \<noteq> (None, demo_pool)"
proof -
  have r: "pool_repr Bits64 demo_pool [(65528, False)]"
    using demo_pool_repr by (simp add: demo_pool_def)
  have n: "n \<le> max_request" using assms by (simp add: max_request_def)
  have "pphp_alloc Bits64 n demo_pool \<noteq> Some (None, demo_pool)"
    using r assms(1) n
  proof (cases rule: pphp_alloc_cases)
    case 1
    then have "65528 < block_request Bits64 n" by simp
    then show ?thesis using assms(2) by (simp add: block_request_def minimum_block_size_cases max_def split: if_splits)
  qed simp
  then show ?thesis using demo_pool_inv(1) by (simp add: h_alloc_pool)
qed

text \<open>
  \<open>pphp_pool_init\<close> either leaves the pool uninitialised, when the buffer cannot hold a
  minimal block and the sentinel, or establishes the pool invariant with one free block
  that spans the aligned buffer.
\<close>

theorem pool_init_correct:
  assumes "raw + 7 < 2 ^ size_bits arch" "sz < 4294967296"
  defines "aligned \<equiv> (raw + 7) div 8 * 8"
  shows "if sz \<le> aligned - raw + minimum_block_size arch + 8
         then pphp_pool_init arch (Some raw) sz = empty_pool
         else pool_repr arch (pphp_pool_init arch (Some raw) sz)
                [((sz - (aligned - raw)) div 8 * 8 - 8, False)] \<and>
              pc_begin (pphp_pool_init arch (Some raw) sz) = aligned"
  using pool_init_repr [OF assms(1,2)] unfolding aligned_def .

theorem pool_init_correct_witness:
  "pool_repr Bits32 (pphp_pool_init Bits32 (Some 4099) 1000) [(984, False)]"
  using pool_init_correct [of 4099 Bits32 1000] by (simp add: minimum_block_size_cases)

text \<open>
  C3. \<open>pphp_alloc\<close> on a well-formed pool always ends.  It fails exactly when no free block
  has the size that the request needs, leaving the pool as it was; otherwise it takes a
  free block that is large enough, splits off the rest when the rest can be a block,
  returns the payload address of an aligned block that was not in use, and keeps the
  invariant and every other block.
\<close>

theorem pool_alloc_correct:
  assumes "pool_repr arch p bs" "0 < n" "n \<le> max_request"
  shows "if \<exists>s. (s, False) \<in> set bs \<and> block_request arch n \<le> s
    then \<exists>xs s ys p'. bs = xs @ (s, False) # ys \<and> block_request arch n \<le> s \<and>
           pphp_alloc arch n p = Some (Some (pc_begin p + extent xs + 8), p') \<and>
           pool_repr arch p' (xs @ claim_blocks arch (block_request arch n) s @ ys) \<and>
           live_blocks p (pc_begin p + extent xs + 8) = None \<and>
           (\<exists>m \<ge> n. live_blocks p' = (live_blocks p)(pc_begin p + extent xs + 8 \<mapsto> m))
    else pphp_alloc arch n p = Some (None, p)"
  using assms
proof (cases rule: pphp_alloc_cases)
  case 1
  then show ?thesis by (auto simp: not_le [symmetric])
next
  case (2 xs s ys)
  note live = pool_alloc_live [OF assms 2(3)]
  have "(s, False) \<in> set bs" using 2(1) by simp
  then show ?thesis using 2 live by auto
qed

theorem pool_alloc_correct_witness:
  "\<exists>p'. pphp_alloc Bits64 100 (pphp_pool_init Bits64 (Some 4096) 65536) = Some (Some 4104, p') \<and>
     pool_repr Bits64 p' [(112, True), (65416, False)]"
proof -
  let ?p = "pphp_pool_init Bits64 (Some 4096) 65536"
  have req: "block_request Bits64 100 = 112"
    by (simp add: block_request_def minimum_block_size_cases)
  have "(xs @ (s, False) # ys = [(65528, False)]) = (xs = [] \<and> s = 65528 \<and> ys = [])"
    for xs s and ys :: blocks by (cases xs) auto
  then show ?thesis
    using pool_alloc_correct [OF demo_pool_repr(1), of 100] demo_pool_repr(2)
    by (auto simp: req max_request_def claim_blocks_def minimum_block_size_cases
        eq_commute [of "[(65528, False)]"])
qed

text \<open>
  C4. \<open>pphp_free\<close> of a live block keeps the invariant, releases exactly that block, and
  merges it with its free neighbours on both sides, so that no two adjacent blocks are
  free afterwards.
\<close>

theorem pool_free_correct:
  assumes "pool_repr arch p (xs @ (s, True) # ys)"
  defines "a \<equiv> pc_begin p + extent xs + 8"
  shows "pool_repr arch (pphp_free (Some a) p) (free_result xs s ys) \<and>
    coalesced (free_result xs s ys) \<and>
    live_blocks p a = Some (s - 8) \<and>
    live_blocks (pphp_free (Some a) p) = (live_blocks p)(a := None)"
proof -
  have bs: "pool_blocks p = xs @ (s, True) # ys" using pool_repr_blocks [OF assms(1)] .
  have "all_positive xs" using repr_positive [OF assms(1)] by (simp add: all_positive_def)
  then have v: "live_blocks p a = Some (s - 8)"
    using used_at_claim [of xs "pc_begin p" s ys] by (simp add: live_blocks_def bs a_def)
  show ?thesis
    using pphp_free_repr(1) [OF assms(1)] pool_free_live(2) [OF assms(1) v] v
    by (simp add: a_def pool_repr_def)
qed

theorem pool_free_correct_witness:
  "\<exists>p. pool_repr Bits64 p ([] @ (112, True) # [(65416, False)]) \<and>
     pool_repr Bits64 (pphp_free (Some 4104) p) [(65528, False)]"
proof -
  let ?p = "pphp_pool_init Bits64 (Some 4096) 65536"
  have req: "block_request Bits64 100 = 112"
    by (simp add: block_request_def minimum_block_size_cases)
  from claim_block_repr [of Bits64 ?p "[]" 65528 "[]" 112] demo_pool_repr
  have r: "pool_repr Bits64 (claim_block Bits64 112 4096 ?p) ([] @ (112, True) # [(65416, False)])"
    by (simp add: claim_blocks_def minimum_block_size_cases)
  from pool_free_correct [OF r] r show ?thesis
    by (intro exI [of _ "claim_block Bits64 112 4096 ?p"])
      (simp add: demo_pool_repr(2) free_result_def)
qed

text \<open>
  C22. \<open>pphp_realloc\<close> of a live block keeps it in place when the new size fits; when no
  block is free it fails and changes nothing; otherwise it moves the block, carries over
  every byte of the old payload, and frees the old block.
\<close>

theorem pool_realloc_correct:
  assumes "pool_repr arch p bs" "live_blocks p a = Some m" "0 < n" "n \<le> max_request"
  shows "if n \<le> m then pphp_realloc arch (Some a) n p = Some (Some a, p)
    else if pphp_alloc arch n p = Some (None, p) then pphp_realloc arch (Some a) n p = Some (None, p)
    else \<exists>r p' k. pphp_realloc arch (Some a) n p = Some (Some r, p') \<and> pool_inv arch p' \<and>
           n \<le> k \<and> live_blocks p' = (live_blocks p)(a := None, r \<mapsto> k) \<and>
           live_blocks p r = None \<and>
           (\<forall>i < m. pc_data p' (r + i) = pc_data p (a + i))"
proof (cases "m < n \<and> pphp_alloc arch n p = Some (None, p)")
  case True
  have "pphp_realloc arch (Some a) n p = Some (None, p)"
    using True assms(3) live_block_size [OF assms(1,2)] by (simp add: pphp_realloc_def Let_def)
  then show ?thesis using True by simp
next
  case False
  from assms show ?thesis
  proof (cases rule: pphp_realloc_cases)
    case (3 r p' k)
    then show ?thesis using False by auto
  qed (use False in auto)
qed

theorem pool_realloc_correct_witness:
  "\<exists>p r p'. live_blocks p 4104 = Some 104 \<and>
     pphp_realloc Bits64 (Some 4104) 200 p = Some (Some r, p') \<and> live_blocks p' 4104 = None"
proof -
  let ?p = "claim_block Bits64 112 4096 (pphp_pool_init Bits64 (Some 4096) 65536)"
  from claim_block_repr [of Bits64 "pphp_pool_init Bits64 (Some 4096) 65536" "[]" 65528 "[]" 112]
    demo_pool_repr
  have r: "pool_repr Bits64 ?p [(112, True), (65416, False)]" and b: "pc_begin ?p = 4096"
    by (simp_all add: claim_blocks_def minimum_block_size_cases)
  then have v: "live_blocks ?p 4104 = Some 104" "\<And>x. x \<noteq> 4104 \<Longrightarrow> live_blocks ?p x = None"
    using pool_repr_blocks [OF r] by (simp_all add: live_blocks_def)
  have "pphp_alloc Bits64 200 ?p \<noteq> Some (None, ?p)"
  proof -
    have n: "0 < (200 :: nat)" "200 \<le> max_request" by (simp_all add: max_request_def)
    from r n show ?thesis
      by (cases rule: pphp_alloc_cases)
        (force simp: block_request_def minimum_block_size_cases, simp)
  qed
  with pool_realloc_correct [OF r v(1), of 200] v show ?thesis
    by (intro exI [of _ ?p]) (auto simp: max_request_def)
qed

text \<open>
  \<open>pphp_pool_check\<close> ends on every pool, also on a corrupted one, and accepts exactly
  the initialised pools whose headers form a chain of aligned blocks of at least the
  minimal size with consistent back links, closed by the used sentinel before the end.
\<close>

theorem pool_check_exact:
  "\<exists>r. pphp_pool_check arch p = Some r \<and> (r \<longleftrightarrow> pc_initialized p \<and>
     (\<exists>bs. chain (minimum_block_size arch) p (pc_begin p) 0 bs \<and> pc_begin p + extent bs < pc_end p))"
  using pool_check_correct .

text \<open>
  On a well-formed pool the statistics end and are exact: the payloads of the used and
  of the free blocks, the largest free payload and the number of free blocks; used and
  free payloads and one header per further block add up to the reported total.
\<close>

theorem pool_stats_correct:
  assumes "pool_repr arch p bs"
  shows "\<exists>st. pphp_pool_get_stats p = Some st \<and>
    ps_used st = sum_list (payloads True bs) \<and> ps_free st = sum_list (payloads False bs) \<and>
    ps_fragments st = length (payloads False bs) \<and>
    ps_largest_free st = fold max (payloads False bs) 0 \<and>
    ps_total st + 8 = ps_used st + ps_free st + 8 * length bs"
proof -
  have c: "chain (minimum_block_size arch) p (pc_begin p) 0 bs" and f: "framed p (extent bs)"
    using assms by (simp_all add: pool_repr_def)
  have least: "\<forall>b \<in> set bs. 8 \<le> fst b"
    using c seg_least [of "minimum_block_size arch" p "pc_begin p" 0 bs]
      minimum_block_size_facts(2) [of arch] by (fastforce simp: chain_def)
  note st = stats_loop_correct [OF minimum_block_size_facts(4) c]
  show ?thesis
    using f payload_total [OF repr_positive [OF assms] least]
    by (simp add: pphp_pool_get_stats_def st framed_def Let_def)
qed

theorem pool_stats_correct_witness:
  "\<exists>st. pphp_pool_get_stats (pphp_pool_init Bits64 (Some 4096) 65536) = Some st \<and>
     ps_free st = 65520 \<and> ps_used st = 0 \<and> ps_largest_free st = 65520"
  using pool_stats_correct [OF demo_pool_repr(1)] by auto

text \<open>
  With 32-bit \<open>size_t\<close> the size computation wraps: a request within the last seven
  bytes that the guard admits is served exactly like a request of one byte, so the caller
  gets a minimal block for almost four gigabytes.
\<close>

theorem alloc_wraps_on_32_bits:
  assumes "4294967280 < n" "n \<le> 4294967287"
  shows "pphp_alloc Bits32 n p = pphp_alloc Bits32 1 p"
proof -
  define k where "k = n - 4294967281"
  have k: "n = 4294967281 + k" "k \<le> 6" using assms by (simp_all add: k_def)
  have "align_up Bits32 ((n + 8) mod 4294967296) = 0"
    using k by (simp add: align_up_def align_down_def ALIGNMENT_def)
  moreover have "align_up Bits32 9 = 16"
    by (simp add: align_up_def align_down_def ALIGNMENT_def)
  ultimately show ?thesis
    using assms by (simp add: pphp_alloc_def sizeof_block_header_def UINT32_MAX_def
        minimum_block_size_cases)
qed

theorem alloc_wraps_on_32_bits_witness:
  "\<exists>p'. pphp_alloc Bits32 4294967287 (pphp_pool_init Bits32 (Some 4096) 1024) = Some (Some 4104, p')"
proof -
  have r: "pool_repr Bits32 (pphp_pool_init Bits32 (Some 4096) 1024) [(1016, False)]"
    "pc_begin (pphp_pool_init Bits32 (Some 4096) 1024) = 4096"
    using pool_init_repr [of 4096 Bits32 1024] by (simp_all add: minimum_block_size_cases)
  have n: "0 < (1 :: nat)" "1 \<le> max_request" by (simp_all add: max_request_def)
  have "\<exists>p'. pphp_alloc Bits32 1 (pphp_pool_init Bits32 (Some 4096) 1024) = Some (Some 4104, p')"
    using r(1) n
  proof (cases rule: pphp_alloc_cases)
    case 1
    then show ?thesis by (auto simp: block_request_def minimum_block_size_cases)
  next
    case (2 xs s ys)
    then show ?thesis using r(2) by (cases xs) auto
  qed
  then show ?thesis using alloc_wraps_on_32_bits [of 4294967287] by simp
qed

end
