(* ===== verification/Value.thy ===== *)
theory Value
  imports Pool
begin

text \<open>
  Tagged values (\<open>include/pphp/value.h\<close>, \<open>src/value.c\<close>) and counted strings
  (\<open>src/pstring.c\<close>).  The bytes of a string are a \<open>char list\<close>; the hash stored in the
  header is kept as its own field, as in the struct.  A float is the 64-bit image of the
  host build's \<open>double\<close>.  Containers are referred to by address.  The reference counts
  of heap values are not part of a value: an operation reports the \<open>pv_retain\<close> and
  \<open>pv_release\<close> calls it makes, in order, as a list of events.
\<close>

unbundle bit_operations_syntax

section \<open>Strings\<close>

record pstring =
  ps_addr :: addr
  ps_rostring :: bool \<comment> \<open>\<open>header.type == PT_ROSTRING\<close>\<close>
  ps_interned :: bool \<comment> \<open>\<open>header.flags & PSTRING_INTERNED\<close>\<close>
  ps_hash :: u32
  ps_data :: bytes

abbreviation ps_length :: "pstring \<Rightarrow> nat" where
  "ps_length s \<equiv> length (ps_data s)"

definition PPHP_STR_MAX :: nat where
  "PPHP_STR_MAX = 65535"

definition sizeof_pstring :: nat where
  "sizeof_pstring = 12"

fun hash_loop :: "u32 \<Rightarrow> bytes \<Rightarrow> u32" where
  "hash_loop hash [] = hash"
| "hash_loop hash (c # cs) = hash_loop ((hash XOR of_nat (ord c)) * 16777619) cs"

definition ps_hash_bytes :: "bytes \<Rightarrow> u32" where
  "ps_hash_bytes b = (let hash = hash_loop 2166136261 b in if hash = 0 then 1 else hash)"

definition ps_new :: "'h heap_ops \<Rightarrow> bytes \<Rightarrow> 'h \<Rightarrow> pstring option \<times> 'h" where
  "ps_new ops b h =
     (if PPHP_STR_MAX < length b then (None, h)
      else
        case h_alloc ops (sizeof_pstring + length b + 1) h of
          (None, h') \<Rightarrow> (None, h')
        | (Some p, h') \<Rightarrow>
            (Some \<lparr>ps_addr = p, ps_rostring = False, ps_interned = False,
                   ps_hash = ps_hash_bytes b, ps_data = b\<rparr>, h'))"

text \<open>
  Two different strings at one address do not exist, so the test for pointer equality
  is the test of equal records.
\<close>

definition ps_equal :: "pstring \<Rightarrow> pstring \<Rightarrow> bool" where
  "ps_equal left right \<longleftrightarrow>
     (if ps_addr left = ps_addr right then True
      else if ps_length left \<noteq> ps_length right \<or> ps_hash left \<noteq> ps_hash right then False
      else ps_data left = ps_data right)"

definition ps_equal_bytes :: "pstring \<Rightarrow> bytes \<Rightarrow> bool" where
  "ps_equal_bytes s b \<longleftrightarrow> (if ps_length s \<noteq> length b then False else ps_data s = b)"

text \<open>
  \<open>ps_contains_cstr\<close>: NUL-terminated strings are the bytes before the NUL.  The inner
  loop compares byte by byte until the needle ends or a byte differs.
\<close>

fun cstr_prefix :: "bytes \<Rightarrow> bytes \<Rightarrow> bool" where
  "cstr_prefix left [] = True"
| "cstr_prefix [] (r # right) = False"
| "cstr_prefix (l # left) (r # right) = (if l = r then cstr_prefix left right else False)"

fun contains_from :: "bytes \<Rightarrow> bytes \<Rightarrow> bool" where
  "contains_from [] needle = False"
| "contains_from (c # start) needle =
     (if cstr_prefix (c # start) needle then True else contains_from start needle)"

definition ps_contains_cstr :: "bytes \<Rightarrow> bytes \<Rightarrow> bool" where
  "ps_contains_cstr haystack needle =
     (if needle = [] then True else contains_from haystack needle)"

definition ps_destroy :: "'h heap_ops \<Rightarrow> pstring option \<Rightarrow> 'h \<Rightarrow> 'h" where
  "ps_destroy ops s h =
     (case s of
        None \<Rightarrow> h
      | Some s \<Rightarrow>
          if ps_rostring s \<or> ps_interned s then h else h_free ops (Some (ps_addr s)) h)"

section \<open>Values\<close>

datatype pvalue =
  PNull | PFalse | PTrue | PInt pphp_int | PFloat u64 | PString pstring
| PArray addr | PObject addr | PClosure addr | PCfunc addr | PResource addr

fun pv_type :: "pvalue \<Rightarrow> nat" where
  "pv_type PNull = 0"
| "pv_type PFalse = 1"
| "pv_type PTrue = 2"
| "pv_type (PInt _) = 3"
| "pv_type (PFloat _) = 4"
| "pv_type (PString _) = 5"
| "pv_type (PArray _) = 6"
| "pv_type (PObject _) = 7"
| "pv_type (PClosure _) = 8"
| "pv_type (PCfunc _) = 9"
| "pv_type (PResource _) = 10"

definition pv_bool :: "bool \<Rightarrow> pvalue" where
  "pv_bool b = (if b then PTrue else PFalse)"

text \<open>A double is zero when every bit but the sign is clear.\<close>

definition float_is_zero :: "u64 \<Rightarrow> bool" where
  "float_is_zero f \<longleftrightarrow> f AND 0x7fffffffffffffff = 0"

text \<open>\<open>array_size\<close> reads the \<open>size\<close> field of the array at an address.\<close>

fun pv_is_truthy :: "(addr \<Rightarrow> nat) \<Rightarrow> pvalue \<Rightarrow> bool" where
  "pv_is_truthy array_size PNull = False"
| "pv_is_truthy array_size PFalse = False"
| "pv_is_truthy array_size PTrue = True"
| "pv_is_truthy array_size (PInt i) = (i \<noteq> 0)"
| "pv_is_truthy array_size (PFloat f) = (\<not> float_is_zero f)"
| "pv_is_truthy array_size (PString s) =
     (ps_length s \<noteq> 0 \<and> \<not> (ps_length s = 1 \<and> ps_data s ! 0 = CHR ''0''))"
| "pv_is_truthy array_size (PArray a) = (array_size a \<noteq> 0)"
| "pv_is_truthy array_size _ = True"

definition pv_type_name :: "nat \<Rightarrow> bytes" where
  "pv_type_name type =
     (let names = [''NULL'', ''boolean'', ''boolean'', ''integer'', ''double'', ''string'',
                   ''array'', ''object'', ''Closure'', ''cfunc'', ''resource'', ''string'']
      in if length names \<le> type then ''unknown'' else names ! type)"

datatype rc_event = Create pvalue | Retain pvalue | Release pvalue

section \<open>Facts about strings\<close>

definition ps_ok :: "pstring \<Rightarrow> bool" where
  "ps_ok s \<longleftrightarrow> ps_length s \<le> PPHP_STR_MAX \<and> ps_hash s = ps_hash_bytes (ps_data s)"

lemma ps_hash_bytes_nonzero: "ps_hash_bytes b \<noteq> 0"
  by (simp add: ps_hash_bytes_def Let_def)

lemma ps_equal_bytes_iff [simp]: "ps_equal_bytes s b \<longleftrightarrow> ps_data s = b"
  by (auto simp: ps_equal_bytes_def)

lemma ps_equal_iff:
  assumes "ps_ok left" "ps_ok right" "ps_addr left = ps_addr right \<Longrightarrow> left = right"
  shows "ps_equal left right \<longleftrightarrow> ps_data left = ps_data right"
  using assms by (auto simp: ps_equal_def ps_ok_def)

lemma ps_new_ok: "ps_new ops b h = (Some s, h') \<Longrightarrow> ps_ok s \<and> ps_data s = b \<and> \<not> ps_interned s \<and> \<not> ps_rostring s"
  by (auto simp: ps_new_def ps_ok_def split: if_splits prod.splits option.splits)

lemma cstr_prefix_iff: "cstr_prefix left right \<longleftrightarrow> (\<exists>rest. left = right @ rest)"
  by (induction left right rule: cstr_prefix.induct) auto

lemma contains_from_iff:
  "needle \<noteq> [] \<Longrightarrow> contains_from haystack needle \<longleftrightarrow> (\<exists>u v. haystack = u @ needle @ v)"
proof (induction haystack)
  case Nil
  then show ?case by simp
next
  case (Cons c cs)
  show ?case
  proof
    assume "contains_from (c # cs) needle"
    then consider "cstr_prefix (c # cs) needle" | "contains_from cs needle"
      by (auto split: if_splits)
    then show "\<exists>u v. c # cs = u @ needle @ v"
    proof cases
      case 1
      then show ?thesis by (metis append_Nil cstr_prefix_iff)
    next
      case 2
      with Cons show ?thesis by (metis append_Cons)
    qed
  next
    assume "\<exists>u v. c # cs = u @ needle @ v"
    then obtain u v where uv: "c # cs = u @ needle @ v" by blast
    show "contains_from (c # cs) needle"
    proof (cases u)
      case Nil
      with uv have "cstr_prefix (c # cs) needle" by (auto simp: cstr_prefix_iff)
      then show ?thesis by simp
    next
      case (Cons d u')
      with uv have "cs = u' @ needle @ v" by simp
      then have "contains_from cs needle" using Cons.IH \<open>needle \<noteq> []\<close> by blast
      then show ?thesis by simp
    qed
  qed
qed

context allocator
begin

lemma ps_new_cases:
  assumes "heap_inv h" "sizeof_pstring + PPHP_STR_MAX + 1 \<le> max_request"
    and "ps_new ops b h = (r, h')"
  obtains "r = None" "h' = h"
  | s m where "r = Some s" "ps_ok s" "ps_data s = b" "\<not> ps_interned s" "\<not> ps_rostring s"
      "heap_inv h'" "live h (ps_addr s) = None" "live h' = (live h)(ps_addr s \<mapsto> m)"
proof (cases "PPHP_STR_MAX < length b")
  case True
  with assms(3) that(1) show ?thesis by (simp add: ps_new_def)
next
  case False
  then have n: "sizeof_pstring + length b + 1 \<le> max_request" using assms(2) by simp
  obtain q h1 where a: "h_alloc ops (sizeof_pstring + length b + 1) h = (q, h1)"
    by (cases "h_alloc ops (sizeof_pstring + length b + 1) h")
  from assms(1) n a show ?thesis
  proof (cases rule: alloc_cases)
    case 1
    with a False assms(3) that(1) show ?thesis by (simp add: ps_new_def)
  next
    case (2 p m)
    with a False assms(3) have r: "r = Some \<lparr>ps_addr = p, ps_rostring = False,
        ps_interned = False, ps_hash = ps_hash_bytes b, ps_data = b\<rparr>" "h' = h1"
      by (simp_all add: ps_new_def)
    show ?thesis
      by (rule that(2) [OF r(1)]) (use 2 r False in \<open>simp_all add: ps_ok_def\<close>)
  qed
qed

lemma ps_destroy_frees:
  assumes "heap_inv h" "live h (ps_addr s) = Some m" "\<not> ps_interned s" "\<not> ps_rostring s"
  shows "heap_inv (ps_destroy ops (Some s) h)"
    and "live (ps_destroy ops (Some s) h) = (live h)(ps_addr s := None)"
  using free_ok [OF assms(1,2)] assms(3,4) by (simp_all add: ps_destroy_def)

end

end
