(* ===== verification/Symbol.thy ===== *)
theory Symbol
  imports Value
begin

text \<open>
  The symbol table of \<open>src/symbol.c\<close>: an open-addressing hash table of interned strings.
  The table of pointers is a list of \<open>capacity\<close> slots; \<open>find_slot\<close> is the probing loop,
  which has no bound of its own, so its result is an option: \<open>None\<close> is a loop that does
  not end (or a read outside the table).  The lemmas show that under the table's
  invariant it always ends, that the table is a partial map from byte strings to interned
  strings, and that \<open>psymbol_intern\<close> extends this map by at most its argument.
\<close>

unbundle bit_operations_syntax

record psymbol_table =
  st_ptr :: "addr option"
  st_entries :: "pstring option list"
  st_capacity :: nat
  st_count :: nat

function next_pow2_loop :: "nat \<Rightarrow> nat \<Rightarrow> nat \<Rightarrow> nat" where
  "next_pow2_loop size_max result v =
     (if 0 < result \<and> result < v \<and> result \<le> size_max div 2
      then next_pow2_loop size_max (result * 2) v else result)"
  by pat_completeness auto
termination
  by (relation "measure (\<lambda>(m, r, v). v - r)") auto

declare next_pow2_loop.simps [simp del]

definition next_power_of_two :: "nat \<Rightarrow> nat" where
  "next_power_of_two v = next_pow2_loop SIZE_MAX 8 v"

partial_function (option) find_slot_loop ::
  "pstring option list \<Rightarrow> nat \<Rightarrow> bytes \<Rightarrow> nat \<Rightarrow> nat option" where
  "find_slot_loop entries capacity b slot =
     (case rd entries slot of
        None \<Rightarrow> None
      | Some None \<Rightarrow> Some slot
      | Some (Some s) \<Rightarrow>
          if ps_equal_bytes s b then Some slot
          else find_slot_loop entries capacity b ((slot + 1) AND (capacity - 1)))"

definition find_slot :: "pstring option list \<Rightarrow> nat \<Rightarrow> bytes \<Rightarrow> u32 \<Rightarrow> nat option" where
  "find_slot entries capacity b hash =
     find_slot_loop entries capacity b (unat hash AND (capacity - 1))"

text \<open>The rehashing loop of \<open>resize_table\<close>: the old slots from first to last.\<close>

fun rehash_loop :: "nat \<Rightarrow> pstring option list \<Rightarrow> pstring option list \<Rightarrow> pstring option list option" where
  "rehash_loop capacity entries [] = Some entries"
| "rehash_loop capacity entries (None # old) = rehash_loop capacity entries old"
| "rehash_loop capacity entries (Some s # old) =
     (case find_slot entries capacity (ps_data s) (ps_hash s) of
        None \<Rightarrow> None
      | Some slot \<Rightarrow> rehash_loop capacity (entries[slot := Some s]) old)"

text \<open>
  \<open>resize_table\<close> and the operations below return \<open>None\<close> only for the unbounded loop;
  inside, the C result: \<open>False\<close> (0) when the allocation failed.
\<close>

definition resize_table ::
  "'h heap_ops \<Rightarrow> psymbol_table \<Rightarrow> nat \<Rightarrow> 'h \<Rightarrow> (bool \<times> psymbol_table \<times> 'h) option" where
  "resize_table ops table capacity h =
     (let capacity = next_power_of_two capacity in
      case h_alloc ops (capacity * sizeof_ptr) h of
        (None, h') \<Rightarrow> Some (False, table, h')
      | (Some p, h') \<Rightarrow>
          (case rehash_loop capacity (replicate capacity None)
                  (take (st_capacity table) (st_entries table)) of
             None \<Rightarrow> None
           | Some entries \<Rightarrow>
               let h'' = h_free ops (st_ptr table) h'
               in Some (True, table\<lparr>st_ptr := Some p, st_entries := entries,
                                    st_capacity := capacity\<rparr>, h'')))"

definition empty_table :: psymbol_table where
  "empty_table = \<lparr>st_ptr = None, st_entries = [], st_capacity = 0, st_count = 0\<rparr>"

definition psymbol_init ::
  "'h heap_ops \<Rightarrow> nat \<Rightarrow> 'h \<Rightarrow> (bool \<times> psymbol_table \<times> 'h) option" where
  "psymbol_init ops initial_capacity h =
     resize_table ops empty_table (if initial_capacity < 64 then 64 else initial_capacity) h"

definition psymbol_find :: "psymbol_table \<Rightarrow> bytes \<Rightarrow> pstring option option" where
  "psymbol_find table b =
     (if st_capacity table = 0 then Some None
      else
        case find_slot (st_entries table) (st_capacity table) b (ps_hash_bytes b) of
          None \<Rightarrow> None
        | Some slot \<Rightarrow> rd (st_entries table) slot)"

definition psymbol_intern ::
  "'h heap_ops \<Rightarrow> psymbol_table \<Rightarrow> bytes \<Rightarrow> 'h \<Rightarrow> (pstring option \<times> psymbol_table \<times> 'h) option" where
  "psymbol_intern ops table b h =
     (if st_capacity table = 0 then Some (None, table, h)
      else
        case (if st_capacity table * 3 \<le> (st_count table + 1) * 4
              then resize_table ops table (st_capacity table * 2) h
              else Some (True, table, h)) of
          None \<Rightarrow> None
        | Some (False, table, h) \<Rightarrow> Some (None, table, h)
        | Some (True, table, h) \<Rightarrow>
            (case find_slot (st_entries table) (st_capacity table) b (ps_hash_bytes b) of
               None \<Rightarrow> None
             | Some slot \<Rightarrow>
                 (case rd (st_entries table) slot of
                    None \<Rightarrow> None
                  | Some (Some s) \<Rightarrow> Some (Some s, table, h)
                  | Some None \<Rightarrow>
                      (case ps_new ops b h of
                         (None, h) \<Rightarrow> Some (None, table, h)
                       | (Some s, h) \<Rightarrow>
                           let s = s\<lparr>ps_interned := True\<rparr>
                           in Some (Some s,
                                table\<lparr>st_entries := (st_entries table)[slot := Some s],
                                      st_count := st_count table + 1\<rparr>, h)))))"

definition psymbol_destroy :: "'h heap_ops \<Rightarrow> psymbol_table \<Rightarrow> 'h \<Rightarrow> psymbol_table \<times> 'h" where
  "psymbol_destroy ops table h =
     (let h = foldl (\<lambda>h e. case e of None \<Rightarrow> h
                       | Some s \<Rightarrow> ps_destroy ops (Some (s\<lparr>ps_interned := False\<rparr>)) h)
                h (take (st_capacity table) (st_entries table));
          h = h_free ops (st_ptr table) h
      in (empty_table, h))"

section \<open>Probing\<close>

definition stops :: "pstring option list \<Rightarrow> bytes \<Rightarrow> nat \<Rightarrow> bool" where
  "stops entries b i \<longleftrightarrow> (case entries ! i of None \<Rightarrow> True | Some s \<Rightarrow> ps_data s = b)"

definition probes :: "pstring option list \<Rightarrow> bytes \<Rightarrow> nat \<Rightarrow> nat \<Rightarrow> bool" where
  "probes entries b st k \<longleftrightarrow>
     (\<forall>j<k. \<not> stops entries b ((st + j) mod length entries)) \<and>
     stops entries b ((st + k) mod length entries)"

lemma probes_unique: "probes entries b st k \<Longrightarrow> probes entries b st k' \<Longrightarrow> k = k'"
  unfolding probes_def by (metis linorder_neqE_nat)

lemma find_slot_loop_probes:
  assumes "length entries = 2 ^ n" "st < 2 ^ n" "probes entries b st k"
  shows "find_slot_loop entries (2 ^ n) b st = Some ((st + k) mod 2 ^ n)"
  using assms(2,3)
proof (induction k arbitrary: st)
  case 0
  then show ?case using assms(1)
    by (subst find_slot_loop.simps) (auto simp: probes_def stops_def split: option.splits)
next
  case (Suc k)
  let ?st' = "(st + 1) AND (2 ^ n - 1)"
  have st': "?st' = (st + 1) mod 2 ^ n" by (rule and_mask_mod)
  have shift: "(?st' + j) mod 2 ^ n = (st + Suc j) mod 2 ^ n" for j
    unfolding st' by (simp add: mod_add_left_eq)
  have "\<not> stops entries b st"
    using Suc.prems assms(1) by (auto simp: probes_def dest: spec [of _ 0])
  moreover have "probes entries b ?st' k"
    using Suc.prems(2) unfolding probes_def assms(1) shift by auto
  moreover have "?st' < 2 ^ n" unfolding st' by simp
  ultimately have "find_slot_loop entries (2 ^ n) b ?st' = Some ((st + Suc k) mod 2 ^ n)"
    using Suc.IH [of ?st'] by (simp only: shift)
  then show ?case
    using \<open>\<not> stops entries b st\<close> Suc.prems(1) assms(1)
    by (subst find_slot_loop.simps) (auto simp: stops_def split: option.splits)
qed

definition home :: "nat \<Rightarrow> u32 \<Rightarrow> nat" where
  "home n hash = unat hash mod 2 ^ n"

lemma find_slot_probes:
  assumes "length entries = 2 ^ n" "probes entries b (home n hash) k"
  shows "find_slot entries (2 ^ n) b hash = Some ((home n hash + k) mod 2 ^ n)"
  using find_slot_loop_probes [OF assms(1) _ assms(2)]
  by (simp only: find_slot_def and_mask_mod home_def) simp

text \<open>One empty slot is enough for the loop to end: probing visits every slot.\<close>

lemma probes_exists:
  assumes "length entries = 2 ^ n" "None \<in> set entries" "st < 2 ^ n"
  shows "\<exists>k. probes entries b st k"
proof -
  obtain e where e: "e < 2 ^ n" "entries ! e = None"
    using assms(1,2) by (auto simp: in_set_conv_nth)
  let ?k = "e + 2 ^ n - st"
  have "(st + ?k) mod length entries = e" using e assms by simp
  then have ex: "stops entries b ((st + ?k) mod length entries)"
    using e by (simp add: stops_def)
  define k where "k = (LEAST k. stops entries b ((st + k) mod length entries))"
  have "stops entries b ((st + k) mod length entries)"
    unfolding k_def by (rule LeastI) (rule ex)
  moreover have "\<not> stops entries b ((st + j) mod length entries)" if "j < k" for j
    using that not_less_Least unfolding k_def by blast
  ultimately have "probes entries b st k" by (simp add: probes_def)
  then show ?thesis ..
qed

lemma find_slot_total:
  assumes "length entries = 2 ^ n" "None \<in> set entries"
  obtains k where "probes entries b (home n hash) k"
    "find_slot entries (2 ^ n) b hash = Some ((home n hash + k) mod 2 ^ n)"
    "stops entries b ((home n hash + k) mod 2 ^ n)"
proof -
  have "home n hash < 2 ^ n" by (simp add: home_def)
  from probes_exists [OF assms this] obtain k where k: "probes entries b (home n hash) k" by blast
  show ?thesis
    using that [OF k find_slot_probes [OF assms(1) k]] k assms(1) by (simp add: probes_def)
qed

text \<open>Filling the empty slot at the end of a probe disturbs no other probe.\<close>

lemma find_slot_update:
  assumes len: "length entries = 2 ^ n"
    and k: "probes entries b (home n hash) k"
    and empty: "entries ! i = None" and i: "i < 2 ^ n"
    and own: "(home n hash + k) mod 2 ^ n = i \<Longrightarrow> ps_data s = b"
  shows "find_slot (entries[i := Some s]) (2 ^ n) b hash = Some ((home n hash + k) mod 2 ^ n)"
proof -
  have stop_other: "stops (entries[i := Some s]) b p = stops entries b p" if "p \<noteq> i" for p
    using that by (simp add: stops_def)
  have "probes (entries[i := Some s]) b (home n hash) k"
    unfolding probes_def
  proof (intro conjI allI impI)
    fix j assume "j < k"
    then have ns: "\<not> stops entries b ((home n hash + j) mod length entries)"
      using k by (simp add: probes_def)
    then have "(home n hash + j) mod length entries \<noteq> i"
      using empty by (auto simp: stops_def)
    with ns show "\<not> stops (entries[i := Some s]) b
        ((home n hash + j) mod length (entries[i := Some s]))"
      by (simp add: stop_other)
  next
    show "stops (entries[i := Some s]) b ((home n hash + k) mod length (entries[i := Some s]))"
    proof (cases "(home n hash + k) mod 2 ^ n = i")
      case True
      with own i len show ?thesis by (simp add: stops_def)
    next
      case False
      with k len show ?thesis by (simp add: stop_other probes_def)
    qed
  qed
  then show ?thesis using len by (intro find_slot_probes) simp_all
qed

section \<open>The table as a map\<close>

definition occupied :: "'a option list \<Rightarrow> nat" where
  "occupied es = length (filter (\<lambda>e. e \<noteq> None) es)"

definition content :: "pstring option list \<Rightarrow> pstring set" where
  "content es = {s. Some s \<in> set es}"

definition placed :: "nat \<Rightarrow> pstring option list \<Rightarrow> bool" where
  "placed n es \<longleftrightarrow> length es = 2 ^ n \<and>
     (\<forall>i < 2 ^ n. \<forall>s. es ! i = Some s \<longrightarrow>
        ps_ok s \<and> find_slot es (2 ^ n) (ps_data s) (ps_hash s) = Some i)"

lemma occupied_simps [simp]:
  "occupied [] = 0" "occupied (None # es) = occupied es" "occupied (Some s # es) = Suc (occupied es)"
  by (simp_all add: occupied_def)

lemma content_simps [simp]:
  "content [] = {}" "content (None # es) = content es"
  "content (Some s # es) = insert s (content es)"
  by (auto simp: content_def)

lemma occupied_le: "occupied es \<le> length es"
  by (simp add: occupied_def)

lemma occupied_less_None: "occupied es < length es \<Longrightarrow> None \<in> set es"
  by (metis (mono_tags, lifting) filter_True less_irrefl occupied_def)

lemma occupied_update:
  "i < length es \<Longrightarrow> es ! i = None \<Longrightarrow> occupied (es[i := Some s]) = Suc (occupied es)"
proof (induction es arbitrary: i)
  case (Cons e es)
  then show ?case by (cases i; cases e) auto
qed simp

lemma content_update:
  "i < length es \<Longrightarrow> es ! i = None \<Longrightarrow> content (es[i := Some s]) = insert s (content es)"
proof (induction es arbitrary: i)
  case (Cons e es)
  then show ?case by (cases i; cases e) auto
qed simp

lemma content_nth: "s \<in> content es \<longleftrightarrow> (\<exists>i < length es. es ! i = Some s)"
  by (auto simp: content_def in_set_conv_nth)

lemma placed_lookup:
  assumes "placed n es" "None \<in> set es"
  obtains (absent) i where "i < 2 ^ n" "find_slot es (2 ^ n) b (ps_hash_bytes b) = Some i"
    "es ! i = None" "\<forall>s \<in> content es. ps_data s \<noteq> b"
  | (present) i s where "i < 2 ^ n" "find_slot es (2 ^ n) b (ps_hash_bytes b) = Some i"
    "es ! i = Some s" "ps_data s = b" "s \<in> content es"
    "\<forall>s' \<in> content es. ps_data s' = b \<longrightarrow> s' = s"
proof -
  have len: "length es = 2 ^ n" using assms(1) by (simp add: placed_def)
  from find_slot_total [OF len assms(2)] obtain k where
    k: "find_slot es (2 ^ n) b (ps_hash_bytes b) = Some ((home n (ps_hash_bytes b) + k) mod 2 ^ n)"
      "stops es b ((home n (ps_hash_bytes b) + k) mod 2 ^ n)" by blast
  define i where "i = (home n (ps_hash_bytes b) + k) mod 2 ^ n"
  have i: "i < 2 ^ n" "find_slot es (2 ^ n) b (ps_hash_bytes b) = Some i"
    using k(1) by (simp_all add: i_def)
  have same: "es ! i = Some s'" if "s' \<in> content es" "ps_data s' = b" for s'
  proof -
    from that(1) len obtain i' where i': "i' < 2 ^ n" "es ! i' = Some s'" by (auto simp: content_nth)
    with assms(1) have "ps_ok s'" "find_slot es (2 ^ n) (ps_data s') (ps_hash s') = Some i'"
      using that(2) by (auto simp: placed_def)
    with k(1) that(2) have "i' = i" by (simp add: ps_ok_def i_def)
    with i' show ?thesis by simp
  qed
  show ?thesis
  proof (cases "es ! i")
    case None
    with same show ?thesis by (intro absent [OF i]) auto
  next
    case (Some s)
    then have "ps_data s = b" using k(2) by (simp add: stops_def i_def)
    moreover have "s \<in> content es" using Some i len by (auto simp: content_nth)
    moreover have "\<forall>s' \<in> content es. ps_data s' = b \<longrightarrow> s' = s"
      using same Some by (metis option.inject)
    ultimately show ?thesis by (rule present [OF i Some])
  qed
qed

lemma placed_insert:
  assumes pl: "placed n es" and none: "None \<in> set es" and s: "ps_ok s"
    and f: "find_slot es (2 ^ n) (ps_data s) (ps_hash s) = Some i" "es ! i = None" "i < 2 ^ n"
  shows "placed n (es[i := Some s])"
proof -
  have len: "length es = 2 ^ n" using pl by (simp add: placed_def)
  have keep: "find_slot (es[i := Some s]) (2 ^ n) (ps_data s') (ps_hash s') = Some j"
    if j: "find_slot es (2 ^ n) (ps_data s') (ps_hash s') = Some j"
      and own: "j = i \<Longrightarrow> ps_data s = ps_data s'" for s' j
  proof -
    from find_slot_total [OF len none] obtain k where
      k: "probes es (ps_data s') (home n (ps_hash s')) k"
      "find_slot es (2 ^ n) (ps_data s') (ps_hash s') = Some ((home n (ps_hash s') + k) mod 2 ^ n)"
      by blast
    with j have jk: "j = (home n (ps_hash s') + k) mod 2 ^ n" by simp
    show ?thesis
      using find_slot_update [OF len k(1) f(2,3)] own unfolding jk by blast
  qed
  show ?thesis
    unfolding placed_def
  proof (intro conjI allI impI)
    show "length (es[i := Some s]) = 2 ^ n" using len by simp
  next
    fix j s' assume j: "j < 2 ^ n" and e: "es[i := Some s] ! j = Some s'"
    show "ps_ok s'"
      using e s pl j by (cases "j = i") (auto simp: len placed_def)
    show "find_slot (es[i := Some s]) (2 ^ n) (ps_data s') (ps_hash s') = Some j"
    proof (cases "j = i")
      case True
      with e j len have "s' = s" by simp
      with True f keep show ?thesis by blast
    next
      case False
      with e have "es ! j = Some s'" by simp
      with pl j have "find_slot es (2 ^ n) (ps_data s') (ps_hash s') = Some j"
        by (simp add: placed_def)
      with False keep show ?thesis by blast
    qed
  qed
qed

section \<open>Resizing\<close>

lemma occupied_replicate [simp]: "occupied (replicate m None) = 0"
  by (simp add: occupied_def)

lemma content_replicate [simp]: "content (replicate m None) = {}"
  by (auto simp: content_def)

lemma placed_replicate: "placed n (replicate (2 ^ n) None)"
  by (simp add: placed_def)

text \<open>Strings of a table are pairwise different byte strings.\<close>

lemma placed_distinct:
  assumes "placed n es" "es ! i = Some s" "es ! j = Some s'" "i < 2 ^ n" "j < 2 ^ n"
    and "ps_data s = ps_data s'"
  shows "i = j"
  using assms unfolding placed_def ps_ok_def by (metis option.inject)

fun keys :: "pstring option list \<Rightarrow> bytes list" where
  "keys [] = []"
| "keys (None # es) = keys es"
| "keys (Some s # es) = ps_data s # keys es"

lemma set_keys: "set (keys es) = ps_data ` content es"
  by (induction es rule: keys.induct) auto

lemma distinct_keysI:
  assumes "\<And>i j s s'. i < j \<Longrightarrow> j < length es \<Longrightarrow> es ! i = Some s \<Longrightarrow> es ! j = Some s' \<Longrightarrow>
    ps_data s \<noteq> ps_data s'"
  shows "distinct (keys es)"
  using assms
proof (induction es rule: keys.induct)
  case (2 es)
  have "distinct (keys es)"
    by (rule "2.IH") (use "2.prems" [of "Suc i" "Suc j" for i j] in fastforce)
  then show ?case by simp
next
  case (3 s es)
  have "distinct (keys es)"
    by (rule "3.IH") (use "3.prems" [of "Suc i" "Suc j" for i j] in fastforce)
  moreover have "ps_data s \<notin> set (keys es)"
  proof
    assume "ps_data s \<in> set (keys es)"
    then obtain s' j where "j < length es" "es ! j = Some s'" "ps_data s' = ps_data s"
      by (auto simp: set_keys content_nth)
    with "3.prems" [of 0 "Suc j" s s'] show False by simp
  qed
  ultimately show ?case by simp
qed simp

lemma placed_distinct_keys:
  assumes "placed n es"
  shows "distinct (keys es)"
proof (rule distinct_keysI)
  fix i j s s'
  assume "i < j" "j < length es" "es ! i = Some s" "es ! j = Some s'"
  then show "ps_data s \<noteq> ps_data s'"
    using placed_distinct [OF assms, of i s j s'] assms by (auto simp: placed_def)
qed

lemma rehash_loop_correct:
  assumes "placed n es" "occupied es + occupied old < 2 ^ n"
    and "\<forall>s \<in> content old. ps_ok s" "distinct (keys old)"
    and "\<forall>s \<in> content old. \<forall>s' \<in> content es. ps_data s \<noteq> ps_data s'"
  shows "\<exists>es'. rehash_loop (2 ^ n) es old = Some es' \<and> placed n es' \<and>
    content es' = content es \<union> content old \<and> occupied es' = occupied es + occupied old"
  using assms
proof (induction "2 ^ n :: nat" es old rule: rehash_loop.induct)
  case (3 es s old)
  note IH = "3.hyps" and prems = "3.prems"
  have len: "length es = 2 ^ n" using prems(1) by (simp add: placed_def)
  have none: "None \<in> set es" using prems(2) len by (intro occupied_less_None) simp
  have ok: "ps_ok s" using prems(3) by simp
  have no: "\<not> (\<exists>s' \<in> content es. ps_data s' = ps_data s)"
    using prems(5) by fastforce
  obtain i where
    i: "i < 2 ^ n" "find_slot es (2 ^ n) (ps_data s) (ps_hash s) = Some i" "es ! i = None"
    using prems(1) none
  proof (cases rule: placed_lookup [where b = "ps_data s"])
    case (absent j)
    then show ?thesis using ok by (intro that [of j]) (simp_all add: ps_ok_def)
  next
    case present
    then show ?thesis using no by blast
  qed
  let ?es = "es[i := Some s]"
  have c: "content ?es = insert s (content es)" "occupied ?es = Suc (occupied es)"
    using content_update [of i es s] occupied_update [of i es s] i len by simp_all
  have "\<exists>es'. rehash_loop (2 ^ n) ?es old = Some es' \<and> placed n es' \<and>
    content es' = content ?es \<union> content old \<and> occupied es' = occupied ?es + occupied old"
  proof (rule IH)
    show "find_slot es (2 ^ n) (ps_data s) (ps_hash s) = Some i" by (rule i(2))
    show "placed n ?es" by (rule placed_insert [OF prems(1) none ok i(2,3,1)])
    show "occupied ?es + occupied old < 2 ^ n" using c prems(2) by simp
    show "\<forall>s \<in> content old. ps_ok s" "distinct (keys old)" using prems(3,4) by simp_all
    show "\<forall>s \<in> content old. \<forall>s' \<in> content ?es. ps_data s \<noteq> ps_data s'"
      using prems(4,5) c by (simp add: set_keys image_iff) metis
  qed
  with i(2) c show ?case by auto
qed auto

section \<open>The invariant of the table\<close>

definition sym_inv :: "psymbol_table \<Rightarrow> bool" where
  "sym_inv t \<longleftrightarrow>
     (\<exists>n. 3 \<le> n \<and> st_capacity t = 2 ^ n \<and> placed n (st_entries t)) \<and>
     st_count t = occupied (st_entries t) \<and> st_count t * 4 < st_capacity t * 3"

lemma next_pow2_loop_power:
  "2 ^ k \<le> m \<Longrightarrow> j \<le> k \<Longrightarrow> next_pow2_loop m (2 ^ j) (2 ^ k) = 2 ^ k"
proof (induction "k - j" arbitrary: j)
  case 0
  then show ?case by (simp add: next_pow2_loop.simps)
next
  case (Suc d)
  then have jk: "j < k" by simp
  have "(2::nat) ^ Suc j \<le> 2 ^ k" using jk by (intro power_increasing) simp_all
  with Suc.prems have "2 ^ j \<le> m div 2" by simp
  moreover have "(2::nat) ^ j < 2 ^ k" using jk by simp
  ultimately have "next_pow2_loop m (2 ^ j) (2 ^ k) = next_pow2_loop m (2 ^ Suc j) (2 ^ k)"
    by (subst next_pow2_loop.simps) (simp add: mult.commute)
  with Suc.hyps(1) [of "Suc j"] Suc.hyps(2) Suc.prems(1) jk show ?case by simp
qed

lemma next_power_of_two_power:
  assumes "3 \<le> k" "k < 64"
  shows "next_power_of_two (2 ^ k) = 2 ^ k"
proof -
  have "(2::nat) ^ k \<le> 2 ^ 63" using assms by (intro power_increasing) simp_all
  then have "(2::nat) ^ k \<le> SIZE_MAX" by (simp add: SIZE_MAX_def)
  then show ?thesis
    using next_pow2_loop_power [of k SIZE_MAX 3] assms by (simp add: next_power_of_two_def)
qed

section \<open>Ownership: what the table holds of the heap\<close>

fun strings :: "pstring option list \<Rightarrow> pstring list" where
  "strings [] = []"
| "strings (None # es) = strings es"
| "strings (Some s # es) = s # strings es"

lemma set_strings: "set (strings es) = content es"
  by (induction es rule: strings.induct) auto

lemma keys_strings: "keys es = map ps_data (strings es)"
  by (induction es rule: strings.induct) auto

definition owned :: "psymbol_table \<Rightarrow> addr set" where
  "owned t = set_option (st_ptr t) \<union> ps_addr ` content (st_entries t)"

text \<open>
  The live blocks \<open>l\<close> are those of \<open>base\<close> (the rest of the program) and the table's own,
  each owned once.
\<close>

definition holds_table ::
  "(addr \<Rightarrow> nat option) \<Rightarrow> psymbol_table \<Rightarrow> (addr \<Rightarrow> nat option) \<Rightarrow> bool" where
  "holds_table base t l \<longleftrightarrow>
     (\<forall>a. a \<notin> owned t \<longrightarrow> l a = base a) \<and>
     (\<forall>a \<in> owned t. l a \<noteq> None \<and> base a = None) \<and>
     inj_on ps_addr (content (st_entries t)) \<and>
     (\<forall>p \<in> set_option (st_ptr t). p \<notin> ps_addr ` content (st_entries t)) \<and>
     (\<forall>s \<in> content (st_entries t). ps_interned s \<and> \<not> ps_rostring s)"

lemma owned_empty [simp]: "owned empty_table = {}"
  by (simp add: owned_def empty_table_def)

lemma holds_empty: "holds_table l empty_table l"
  by (simp add: holds_table_def) (simp add: empty_table_def)

context allocator
begin

lemma resize_table_ok:
  assumes inv: "heap_inv h" and hold: "holds_table base t (live h)"
    and old: "t = empty_table \<or> sym_inv t"
    and k: "3 \<le> k" "k < 64" "2 ^ k * sizeof_ptr \<le> max_request"
    and room: "occupied (st_entries t) < 2 ^ k"
  obtains "resize_table ops t (2 ^ k) h = Some (False, t, h)"
  | t' h' where "resize_table ops t (2 ^ k) h = Some (True, t', h')" "heap_inv h'"
      "holds_table base t' (live h')" "placed k (st_entries t')" "st_capacity t' = 2 ^ k"
      "content (st_entries t') = content (st_entries t)"
      "occupied (st_entries t') = occupied (st_entries t)" "st_count t' = st_count t"
proof -
  have np: "next_power_of_two (2 ^ k) = 2 ^ k" using k by (simp add: next_power_of_two_power)
  obtain q h1 where a: "h_alloc ops (2 ^ k * sizeof_ptr) h = (q, h1)"
    by (cases "h_alloc ops (2 ^ k * sizeof_ptr) h")
  from inv k(3) a show ?thesis
  proof (cases rule: alloc_cases)
    case 1
    with a np that(1) show ?thesis by (simp add: resize_table_def)
  next
    case (2 p m)
    let ?es = "st_entries t"
    have take: "take (st_capacity t) ?es = ?es"
      using old by (auto simp: sym_inv_def placed_def empty_table_def)
    have "\<forall>s \<in> content ?es. ps_ok s" "distinct (keys ?es)"
      using old placed_distinct_keys
      by (auto simp: sym_inv_def placed_def content_nth empty_table_def)
    then obtain es' where es': "rehash_loop (2 ^ k) (replicate (2 ^ k) None) ?es = Some es'"
      "placed k es'" "content es' = content ?es" "occupied es' = occupied ?es"
      using rehash_loop_correct [OF placed_replicate, of k ?es] room by auto
    let ?t = "t\<lparr>st_ptr := Some p, st_entries := es', st_capacity := 2 ^ k\<rparr>"
    have fresh: "p \<notin> owned t" using 2(3) hold unfolding holds_table_def by blast
    then have fresh: "p \<notin> owned t" "base p = None" "p \<notin> ps_addr ` content ?es"
      using 2(3) hold by (auto simp: holds_table_def owned_def)
    define h2 where "h2 = h_free ops (st_ptr t) h1"
    have res: "resize_table ops t (2 ^ k) h = Some (True, ?t, h2)"
      using a 2(1) np es'(1) take by (simp add: resize_table_def h2_def)
    have "heap_inv h2 \<and> live h2 = (\<lambda>a. if a \<in> set_option (st_ptr t) then None else live h1 a)"
    proof (cases "st_ptr t")
      case None
      then show ?thesis using 2(2) by (simp add: h2_def free_null)
    next
      case (Some p0)
      then have "p0 \<noteq> p" "live h p0 \<noteq> None" using fresh hold by (auto simp: holds_table_def owned_def)
      then obtain m0 where "live h1 p0 = Some m0" using 2(5) by auto
      with free_ok [OF 2(2)] Some show ?thesis by (auto simp: h2_def fun_eq_iff)
    qed
    then have h2: "heap_inv h2"
      "live h2 = (\<lambda>a. if a \<in> set_option (st_ptr t) then None else live h1 a)" by simp_all
    have "holds_table base ?t (live h2)"
      using hold fresh 2(5) es'(3) unfolding holds_table_def owned_def h2(2)
      by (auto simp: image_iff)
    with that(2) [OF res h2(1)] es' show ?thesis by simp
  qed
qed

text \<open>The string just created takes the empty slot that the probe found.\<close>

lemma insert_string:
  assumes hold: "holds_table base t (live h)" and pl: "placed n (st_entries t)"
    and none: "None \<in> set (st_entries t)"
    and s: "ps_ok s" "ps_data s = b" "live h (ps_addr s) = None" "\<not> ps_rostring s"
    and l: "live h' = (live h)(ps_addr s \<mapsto> m)"
    and i: "i < 2 ^ n" "find_slot (st_entries t) (2 ^ n) b (ps_hash_bytes b) = Some i"
      "st_entries t ! i = None"
    and t': "t' = t\<lparr>st_entries := (st_entries t)[i := Some (s\<lparr>ps_interned := True\<rparr>)],
      st_count := st_count t + 1\<rparr>"
  shows "holds_table base t' (live h')" "placed n (st_entries t')"
    "content (st_entries t') = insert (s\<lparr>ps_interned := True\<rparr>) (content (st_entries t))"
    "occupied (st_entries t') = Suc (occupied (st_entries t))"
proof -
  let ?s = "s\<lparr>ps_interned := True\<rparr>"
  have len: "length (st_entries t) = 2 ^ n" using pl by (simp add: placed_def)
  have s': "ps_ok ?s" using s(1) by (simp add: ps_ok_def)
  show pl': "placed n (st_entries t')"
    using placed_insert [OF pl none s' _ i(3,1)] i(2) s' s(2) by (simp add: t' ps_ok_def)
  show c: "content (st_entries t') = insert ?s (content (st_entries t))"
    using i len by (simp add: t' content_update)
  show "occupied (st_entries t') = Suc (occupied (st_entries t))"
    using i len by (simp add: t' occupied_update)
  have fresh: "ps_addr s \<notin> owned t"
    using s(3) hold unfolding holds_table_def by blast
  then have base: "base (ps_addr s) = None" using s(3) hold by (auto simp: holds_table_def)
  have own: "owned t' = insert (ps_addr s) (owned t)" using c by (auto simp: owned_def t')
  have ptr: "st_ptr t' = st_ptr t" by (simp add: t')
  show "holds_table base t' (live h')"
    unfolding holds_table_def own ptr c
  proof (intro conjI)
    show "inj_on ps_addr (insert ?s (content (st_entries t)))"
      using hold fresh by (auto simp: holds_table_def owned_def)
  qed (use hold fresh base s(4) in \<open>auto simp: holds_table_def owned_def l\<close>)
qed

lemma intern_at_slot:
  assumes inv: "heap_inv h" and hold: "holds_table base t (live h)"
    and pl: "placed n (st_entries t)" "st_capacity t = 2 ^ n"
    and cnt: "st_count t = occupied (st_entries t)"
    and none: "None \<in> set (st_entries t)"
    and req: "sizeof_pstring + PPHP_STR_MAX + 1 \<le> max_request"
  shows "\<exists>r t' h'.
    (case find_slot (st_entries t) (st_capacity t) b (ps_hash_bytes b) of
       None \<Rightarrow> None
     | Some slot \<Rightarrow>
         (case rd (st_entries t) slot of
            None \<Rightarrow> None
          | Some (Some s) \<Rightarrow> Some (Some s, t, h)
          | Some None \<Rightarrow>
              (case ps_new ops b h of
                 (None, h) \<Rightarrow> Some (None, t, h)
               | (Some s, h) \<Rightarrow>
                   let s = s\<lparr>ps_interned := True\<rparr>
                   in Some (Some s,
                        t\<lparr>st_entries := (st_entries t)[slot := Some s],
                          st_count := st_count t + 1\<rparr>, h)))) = Some (r, t', h') \<and>
    heap_inv h' \<and> holds_table base t' (live h') \<and> placed n (st_entries t') \<and>
    st_capacity t' = 2 ^ n \<and> st_count t' = occupied (st_entries t') \<and>
    st_count t' \<le> Suc (st_count t) \<and>
    (case r of None \<Rightarrow> content (st_entries t') = content (st_entries t)
     | Some s \<Rightarrow> ps_data s = b \<and> s \<in> content (st_entries t') \<and>
         (if \<exists>s' \<in> content (st_entries t). ps_data s' = b
          then content (st_entries t') = content (st_entries t)
          else content (st_entries t') = insert s (content (st_entries t))))"
proof -
  have len: "length (st_entries t) = 2 ^ n" using pl(1) by (simp add: placed_def)
  from pl(1) none show ?thesis
  proof (cases rule: placed_lookup [where b = b])
    case (present i s)
    then have ex: "\<exists>s' \<in> content (st_entries t). ps_data s' = b" by blast
    show ?thesis
      using present(2-5) ex pl cnt inv hold rd_Some [of i "st_entries t"] present(1) len
      by (intro exI [of _ "Some s"] exI [of _ t] exI [of _ h]) simp
  next
    case (absent i)
    then have new: "\<not> (\<exists>s' \<in> content (st_entries t). ps_data s' = b)" by blast
    have rd: "rd (st_entries t) i = Some None" using absent len by simp
    note i = absent(1,2) and None = absent(3)
    obtain q h1 where a: "ps_new ops b h = (q, h1)" by (cases "ps_new ops b h")
    from inv req a show ?thesis
    proof (cases rule: ps_new_cases)
      case 1
      then show ?thesis using i(2) pl cnt inv hold rd None a
        by (intro exI [of _ None] exI [of _ t] exI [of _ h]) simp
    next
      case (2 s m)
      let ?t = "t\<lparr>st_entries := (st_entries t)[i := Some (s\<lparr>ps_interned := True\<rparr>)],
        st_count := st_count t + 1\<rparr>"
      note ins = insert_string [OF hold pl(1) none 2(2,3) 2(7) 2(5) 2(8) i None refl]
      show ?thesis
        using i(2) pl(2) cnt rd None a 2(1,3,6) ins new
        by (intro exI [of _ "Some (s\<lparr>ps_interned := True\<rparr>)"] exI [of _ ?t] exI [of _ h1]) (simp add: Let_def)
    qed
  qed
qed

lemma psymbol_intern_ok:
  assumes inv: "heap_inv h" and hold: "holds_table base t (live h)" and t: "sym_inv t"
    and cap: "st_capacity t < 2 ^ 62" "st_capacity t * 2 * sizeof_ptr \<le> max_request"
      "sizeof_pstring + PPHP_STR_MAX + 1 \<le> max_request"
  shows "\<exists>r t' h'. psymbol_intern ops t b h = Some (r, t', h') \<and>
    heap_inv h' \<and> holds_table base t' (live h') \<and> sym_inv t' \<and>
    (case r of None \<Rightarrow> content (st_entries t') = content (st_entries t)
     | Some s \<Rightarrow> ps_data s = b \<and> s \<in> content (st_entries t') \<and>
         (if \<exists>s' \<in> content (st_entries t). ps_data s' = b
          then content (st_entries t') = content (st_entries t)
          else content (st_entries t') = insert s (content (st_entries t))))"
proof -
  from t obtain n where n: "3 \<le> n" "st_capacity t = 2 ^ n" "placed n (st_entries t)"
    and cnt: "st_count t = occupied (st_entries t)" "st_count t * 4 < 2 ^ n * 3"
    by (auto simp: sym_inv_def)
  have n62: "n < 62" using cap(1) n(2) by (intro power_less_imp_less_exp [of 2 n 62]) simp_all
  have pos: "(8 :: nat) \<le> 2 ^ n" using power_increasing [of 3 n "2 :: nat"] n(1) by simp
  have len: "length (st_entries t) = 2 ^ n" using n(3) by (simp add: placed_def)
  show ?thesis
  proof (cases "st_capacity t * 3 \<le> (st_count t + 1) * 4")
    case False
    have "None \<in> set (st_entries t)"
      using cnt len n(2) False by (intro occupied_less_None) simp
    from intern_at_slot [OF inv hold n(3,2) cnt(1) this cap(3), of b] obtain r t' h' where
      r: "psymbol_intern ops t b h = Some (r, t', h')" "heap_inv h'" "holds_table base t' (live h')"
        "placed n (st_entries t')" "st_capacity t' = 2 ^ n" "st_count t' = occupied (st_entries t')"
        "st_count t' \<le> Suc (st_count t)"
      and spec: "case r of None \<Rightarrow> content (st_entries t') = content (st_entries t)
     | Some s \<Rightarrow> ps_data s = b \<and> s \<in> content (st_entries t') \<and>
         (if \<exists>s' \<in> content (st_entries t). ps_data s' = b
          then content (st_entries t') = content (st_entries t)
          else content (st_entries t') = insert s (content (st_entries t)))"
      unfolding psymbol_intern_def using False pos n(2) by auto
    have "sym_inv t'" unfolding sym_inv_def using r n False by auto
    with r spec show ?thesis by blast
  next
    case True
    have k: "3 \<le> Suc n" "Suc n < 64" "2 ^ Suc n * sizeof_ptr \<le> max_request"
      using n n62 cap(2) by (simp_all add: ac_simps)
    have room: "occupied (st_entries t) < 2 ^ Suc n" using cnt by simp
    have dbl: "st_capacity t * 2 = 2 ^ Suc n" using n(2) by simp
    from inv hold disjI2 [OF t] k room show ?thesis
    proof (cases rule: resize_table_ok)
      case 1
      then have "psymbol_intern ops t b h = Some (None, t, h)"
        unfolding psymbol_intern_def dbl using True pos n(2) by simp
      with inv hold t show ?thesis by auto
    next
      case (2 t1 h1)
      have len1: "length (st_entries t1) = 2 ^ Suc n" using 2(4) by (simp add: placed_def)
      have cnt1: "st_count t1 = occupied (st_entries t1)" using 2 cnt by simp
      have "None \<in> set (st_entries t1)"
        using 2(7) room len1 by (intro occupied_less_None) simp
      from intern_at_slot [OF 2(2,3,4,5) cnt1 this cap(3), of b] obtain r t' h' where
        r: "psymbol_intern ops t b h = Some (r, t', h')" "heap_inv h'" "holds_table base t' (live h')"
          "placed (Suc n) (st_entries t')" "st_capacity t' = 2 ^ Suc n"
          "st_count t' = occupied (st_entries t')" "st_count t' \<le> Suc (st_count t1)"
        and spec: "case r of None \<Rightarrow> content (st_entries t') = content (st_entries t)
     | Some s \<Rightarrow> ps_data s = b \<and> s \<in> content (st_entries t') \<and>
         (if \<exists>s' \<in> content (st_entries t). ps_data s' = b
          then content (st_entries t') = content (st_entries t)
          else content (st_entries t') = insert s (content (st_entries t)))"
        unfolding psymbol_intern_def dbl 2(1) 2(6) using True pos n(2) 2(1) by (auto simp: dbl)
      have "st_count t' * 4 < 2 ^ Suc n * 3" using r(7) 2(8) cnt(2) pos by simp
      then have "sym_inv t'" unfolding sym_inv_def using r n by (auto intro: exI [of _ "Suc n"])
      with r spec show ?thesis by blast
    qed
  qed
qed

lemma psymbol_init_ok:
  assumes inv: "heap_inv h" and req: "64 * sizeof_ptr \<le> max_request"
  shows "psymbol_init ops 0 h = Some (False, empty_table, h) \<or>
    (\<exists>t h'. psymbol_init ops 0 h = Some (True, t, h') \<and> heap_inv h' \<and>
       holds_table (live h) t (live h') \<and> sym_inv t \<and> content (st_entries t) = {} \<and>
       st_capacity t = 64)"
proof -
  have six: "(2::nat) ^ 6 = 64" by simp
  have occ: "occupied (st_entries empty_table) = 0" "content (st_entries empty_table) = {}"
    "st_count empty_table = 0"
    by (simp_all add: empty_table_def)
  have k: "3 \<le> (6::nat)" "(6::nat) < 64" "2 ^ 6 * sizeof_ptr \<le> max_request"
    "occupied (st_entries empty_table) < 2 ^ 6"
    using req by (simp_all add: occ)
  from inv holds_empty disjI1 [OF refl] k show ?thesis
  proof (cases rule: resize_table_ok)
    case 1
    then show ?thesis by (simp add: psymbol_init_def six)
  next
    case (2 t' h')
    then have "sym_inv t'"
      unfolding sym_inv_def using occ by (auto intro: exI [of _ 6])
    with 2 occ show ?thesis by (auto simp: psymbol_init_def six)
  qed
qed

text \<open>Destroying the table gives back exactly what it held.\<close>

lemma destroy_strings:
  assumes "heap_inv h" "distinct (map ps_addr (strings es))"
    and "\<forall>s \<in> content es. live h (ps_addr s) \<noteq> None \<and> \<not> ps_rostring s"
  shows "heap_inv (foldl (\<lambda>h e. case e of None \<Rightarrow> h
             | Some s \<Rightarrow> ps_destroy ops (Some (s\<lparr>ps_interned := False\<rparr>)) h) h es) \<and>
    live (foldl (\<lambda>h e. case e of None \<Rightarrow> h
             | Some s \<Rightarrow> ps_destroy ops (Some (s\<lparr>ps_interned := False\<rparr>)) h) h es) =
      (\<lambda>a. if a \<in> ps_addr ` content es then None else live h a)"
  using assms
proof (induction es arbitrary: h rule: strings.induct)
  case (3 s es)
  from "3.prems"(3) obtain m where m: "live h (ps_addr s) = Some m" by auto
  let ?h = "ps_destroy ops (Some (s\<lparr>ps_interned := False\<rparr>)) h"
  have ro: "\<not> ps_rostring s" using "3.prems"(3) by simp
  have h: "heap_inv ?h" "live ?h = (live h)(ps_addr s := None)"
    using ps_destroy_frees [of h "s\<lparr>ps_interned := False\<rparr>" m] "3.prems"(1) m ro
    by simp_all
  have "ps_addr s \<notin> ps_addr ` content es"
    using "3.prems"(2) by (simp add: set_strings)
  moreover have "\<forall>s' \<in> content es. live h (ps_addr s') \<noteq> None \<and> \<not> ps_rostring s'"
    using "3.prems"(3) by simp
  ultimately have "\<forall>s' \<in> content es. live ?h (ps_addr s') \<noteq> None \<and> \<not> ps_rostring s'"
    unfolding h(2) by (metis fun_upd_other imageI)
  from "3.IH" [OF h(1) _ this] "3.prems"(2) show ?case
    unfolding h(2) by (simp add: fun_eq_iff)
qed simp_all

lemma psymbol_destroy_ok:
  assumes inv: "heap_inv h" and hold: "holds_table base t (live h)" and t: "sym_inv t"
  shows "heap_inv (snd (psymbol_destroy ops t h))"
    and "live (snd (psymbol_destroy ops t h)) = base"
proof -
  let ?es = "st_entries t"
  let ?f = "\<lambda>h e. case e of None \<Rightarrow> h
             | Some s \<Rightarrow> ps_destroy ops (Some (s\<lparr>ps_interned := False\<rparr>)) h"
  have take: "take (st_capacity t) ?es = ?es" using t by (auto simp: sym_inv_def placed_def)
  have "distinct (strings ?es)"
    using t placed_distinct_keys [of _ ?es] by (auto simp: sym_inv_def keys_strings distinct_map)
  then have dist: "distinct (map ps_addr (strings ?es))"
    using hold by (simp add: distinct_map set_strings holds_table_def)
  have "\<forall>s \<in> content ?es. live h (ps_addr s) \<noteq> None \<and> \<not> ps_rostring s"
    using hold by (auto simp: holds_table_def owned_def)
  from destroy_strings [OF inv dist this]
  have h1: "heap_inv (foldl ?f h ?es)"
    "live (foldl ?f h ?es) = (\<lambda>a. if a \<in> ps_addr ` content ?es then None else live h a)"
    by simp_all
  have out: "snd (psymbol_destroy ops t h) = h_free ops (st_ptr t) (foldl ?f h ?es)"
    by (simp add: psymbol_destroy_def take)
  have "heap_inv (h_free ops (st_ptr t) (foldl ?f h ?es)) \<and>
    live (h_free ops (st_ptr t) (foldl ?f h ?es)) =
      (\<lambda>a. if a \<in> owned t then None else live h a)"
  proof (cases "st_ptr t")
    case None
    then show ?thesis using h1 by (auto simp: free_null owned_def)
  next
    case (Some p)
    then obtain m where "live (foldl ?f h ?es) p = Some m"
      using hold h1(2) by (auto simp: holds_table_def owned_def)
    with free_ok [OF h1(1)] Some h1(2) show ?thesis by (auto simp: owned_def fun_eq_iff)
  qed
  moreover have "(\<lambda>a. if a \<in> owned t then None else live h a) = base"
    using hold by (auto simp: holds_table_def fun_eq_iff)
  ultimately show "heap_inv (snd (psymbol_destroy ops t h))"
    "live (snd (psymbol_destroy ops t h)) = base"
    by (simp_all add: out)
qed

end

lemma psymbol_find_ok:
  assumes "sym_inv t"
  shows "\<exists>r. psymbol_find t b = Some r \<and>
    (case r of None \<Rightarrow> \<forall>s \<in> content (st_entries t). ps_data s \<noteq> b
     | Some s \<Rightarrow> s \<in> content (st_entries t) \<and> ps_data s = b)"
proof -
  from assms obtain n where n: "3 \<le> n" "st_capacity t = 2 ^ n" "placed n (st_entries t)"
    and cnt: "st_count t = occupied (st_entries t)" "st_count t * 4 < 2 ^ n * 3"
    by (auto simp: sym_inv_def)
  have len: "length (st_entries t) = 2 ^ n" using n(3) by (simp add: placed_def)
  have none: "None \<in> set (st_entries t)" using cnt len by (intro occupied_less_None) simp
  from n(3) none show ?thesis
  proof (cases rule: placed_lookup [where b = b])
    case (absent i)
    have "psymbol_find t b = Some None"
      using absent(1-3) len by (simp add: psymbol_find_def n(2))
    with absent(4) show ?thesis by simp
  next
    case (present i s)
    have "psymbol_find t b = Some (Some s)"
      using present(1-3) len by (simp add: psymbol_find_def n(2))
    with present(4,5) show ?thesis by simp
  qed
qed

section \<open>Properties\<close>

lemma same_symbol:
  assumes "sym_inv t" "s \<in> content (st_entries t)" "s' \<in> content (st_entries t)"
    and "ps_data s = ps_data s'"
  shows "s = s'"
proof -
  have "distinct (map ps_data (strings (st_entries t)))"
    using assms(1) placed_distinct_keys by (auto simp: sym_inv_def keys_strings [symmetric])
  then show ?thesis using assms(2-4) by (simp add: distinct_map set_strings inj_on_def)
qed

lemma find_content:
  assumes "sym_inv t" "s \<in> content (st_entries t)" "ps_data s = b"
  shows "psymbol_find t b = Some (Some s)"
  using psymbol_find_ok [OF assms(1), of b] same_symbol [OF assms(1)] assms(2,3)
  by (fastforce split: option.splits)

lemma demo_symbols:
  obtains t h where "psymbol_init (pool_ops Bits64) 0 demo_pool = Some (True, t, h)"
    "pool_inv Bits64 h" "holds_table Map.empty t (live_blocks h)" "sym_inv t"
    "content (st_entries t) = {}" "st_capacity t = 64"
proof -
  have "h_alloc (pool_ops Bits64) 512 demo_pool \<noteq> (None, demo_pool)"
    by (rule demo_alloc) simp_all
  moreover have "psymbol_init (pool_ops Bits64) 0 demo_pool = Some (False, empty_table, demo_pool)
      \<Longrightarrow> h_alloc (pool_ops Bits64) 512 demo_pool = (None, demo_pool)"
    using next_power_of_two_power [of 6]
    by (auto simp: psymbol_init_def resize_table_def sizeof_ptr_def Let_def
        split: prod.splits option.splits)
  ultimately show ?thesis
    using that pool.psymbol_init_ok [OF demo_pool_inv(1)] demo_pool_inv(2)
    by (auto simp: max_request_def sizeof_ptr_def)
qed

text \<open>
  C5. Interning on the memory pool always ends and keeps the table's and the pool's
  invariants and every block that the table does not own.  A result carries the requested
  bytes and is afterwards the one string found under them; the table's content grows by
  it, or stays as it was when an equal string was interned before; when memory is
  exhausted the content is unchanged.
\<close>

theorem symbol_intern_correct:
  assumes "pool_inv arch h" "holds_table base t (live_blocks h)" "sym_inv t"
    and "st_capacity t \<le> 2 ^ 27"
  shows "\<exists>r t' h'. psymbol_intern (pool_ops arch) t b h = Some (r, t', h') \<and>
    pool_inv arch h' \<and> holds_table base t' (live_blocks h') \<and> sym_inv t' \<and>
    (case r of None \<Rightarrow> content (st_entries t') = content (st_entries t)
     | Some s \<Rightarrow> ps_data s = b \<and> psymbol_find t' b = Some (Some s) \<and>
         (if \<exists>s' \<in> content (st_entries t). ps_data s' = b
          then content (st_entries t') = content (st_entries t)
          else content (st_entries t') = insert s (content (st_entries t))))"
proof -
  have "st_capacity t < 2 ^ 62" "st_capacity t * 2 * sizeof_ptr \<le> max_request"
    "sizeof_pstring + PPHP_STR_MAX + 1 \<le> max_request"
    using assms(4) by (simp_all add: sizeof_ptr_def max_request_def sizeof_pstring_def PPHP_STR_MAX_def)
  from pool.psymbol_intern_ok [OF assms(1-3) this, of b] obtain r t' h' where
    A: "psymbol_intern (pool_ops arch) t b h = Some (r, t', h')" "pool_inv arch h'"
      "holds_table base t' (live_blocks h')" "sym_inv t'" and
    B: "case r of None \<Rightarrow> content (st_entries t') = content (st_entries t)
     | Some s \<Rightarrow> ps_data s = b \<and> s \<in> content (st_entries t') \<and>
         (if \<exists>s' \<in> content (st_entries t). ps_data s' = b
          then content (st_entries t') = content (st_entries t)
          else content (st_entries t') = insert s (content (st_entries t)))" by blast
  show ?thesis
    by (intro exI [of _ r] exI [of _ t'] exI [of _ h'])
      (use A B find_content [OF A(4)] in \<open>cases r; simp\<close>)
qed

theorem symbol_intern_correct_witness:
  "\<exists>t h r t' h'. psymbol_init (pool_ops Bits64) 0 demo_pool = Some (True, t, h) \<and>
     psymbol_intern (pool_ops Bits64) t ''count'' h = Some (r, t', h') \<and> sym_inv t'"
proof -
  obtain t h where th: "psymbol_init (pool_ops Bits64) 0 demo_pool = Some (True, t, h)"
    "pool_inv Bits64 h" "holds_table Map.empty t (live_blocks h)" "sym_inv t"
    "st_capacity t = 64" using demo_symbols by blast
  from symbol_intern_correct [OF th(2-4), of "''count''"] th(1,5) show ?thesis by fastforce
qed

text \<open>
  Looking up a name always ends; it finds the interned string with these bytes if the
  table has one and nothing otherwise.
\<close>

theorem symbol_find_correct:
  assumes "sym_inv t"
  shows "\<exists>r. psymbol_find t b = Some r \<and>
    (\<forall>s. r = Some s \<longleftrightarrow> s \<in> content (st_entries t) \<and> ps_data s = b)"
proof -
  from psymbol_find_ok [OF assms, of b] obtain r where
    r: "psymbol_find t b = Some r" "case r of None \<Rightarrow> \<forall>s \<in> content (st_entries t). ps_data s \<noteq> b
     | Some s \<Rightarrow> s \<in> content (st_entries t) \<and> ps_data s = b" by blast
  show ?thesis
    by (intro exI [of _ r]) (use r same_symbol [OF assms] in \<open>auto split: option.splits\<close>)
qed

theorem symbol_find_correct_witness:
  "\<exists>t h. psymbol_init (pool_ops Bits64) 0 demo_pool = Some (True, t, h) \<and>
     psymbol_find t ''missing'' = Some None"
proof -
  obtain t h where th: "psymbol_init (pool_ops Bits64) 0 demo_pool = Some (True, t, h)"
    "sym_inv t" "content (st_entries t) = {}" using demo_symbols by blast
  from symbol_find_correct [OF th(2), of "''missing''"] th(1,3) show ?thesis by force
qed

text \<open>
  Destroying the table frees the slot array and every interned string, each once: what
  is live afterwards is exactly what the rest of the program owned.
\<close>

theorem symbol_destroy_frees_all:
  assumes "pool_inv arch h" "holds_table base t (live_blocks h)" "sym_inv t"
  shows "pool_inv arch (snd (psymbol_destroy (pool_ops arch) t h)) \<and>
    live_blocks (snd (psymbol_destroy (pool_ops arch) t h)) = base"
  using pool.psymbol_destroy_ok [OF assms] by blast

theorem symbol_destroy_frees_all_witness:
  "\<exists>t h. psymbol_init (pool_ops Bits64) 0 demo_pool = Some (True, t, h) \<and>
     live_blocks (snd (psymbol_destroy (pool_ops Bits64) t h)) = Map.empty"
proof -
  obtain t h where th: "psymbol_init (pool_ops Bits64) 0 demo_pool = Some (True, t, h)"
    "pool_inv Bits64 h" "holds_table Map.empty t (live_blocks h)" "sym_inv t"
    using demo_symbols by blast
  from symbol_destroy_frees_all [OF th(2-4)] th(1) show ?thesis by blast
qed

end
