(* ===== verification/PArray.thy ===== *)
theory PArray
  imports IntOps Value
begin

text \<open>
  Ordered hash arrays (\<open>src/parray.c\<close>): an entry vector in insertion order, used directly as
  a list while the keys are \<open>0, 1, 2, ...\<close> (packed), and indexed by chained buckets
  afterwards.  Removed entries stay as tombstones with a null key.

  \<open>pa_entries\<close> holds the \<open>used\<close> initialised entries of the vector, whose \<open>capacity\<close> is kept
  as in the struct; bucket contents and \<open>next\<close> links are the \<open>uint16_t\<close> values.  Walking a
  chain is a partial function: \<open>None\<close> is a walk that does not end or leaves the vector.
  Calls of \<open>pv_retain\<close>, \<open>pv_release\<close> and the creation of the temporary key are reported in
  the event list, in the order of the code.
\<close>

unbundle bit_operations_syntax

section \<open>Data\<close>

record pentry =
  pe_key :: pvalue
  pe_value :: pvalue
  pe_next :: nat

record parray =
  pa_addr :: addr
  pa_packed :: bool
  pa_size :: nat
  pa_capacity :: nat
  pa_bucket_count :: nat
  pa_next_index :: pphp_int
  pa_entries_ptr :: "addr option"
  pa_entries :: "pentry list"
  pa_buckets_ptr :: "addr option"
  pa_buckets :: "nat list"

abbreviation pa_used :: "parray \<Rightarrow> nat" where
  "pa_used a \<equiv> length (pa_entries a)"

definition EMPTY_BUCKET :: nat where "EMPTY_BUCKET = UINT16_MAX"
definition sizeof_parray :: nat where "sizeof_parray = 32"
definition sizeof_pentry :: nat where "sizeof_pentry = 40"

section \<open>Keys\<close>

definition integer_hash :: "pphp_int \<Rightarrow> u32" where
  "integer_hash v =
     (let hash = v;
          hash = hash XOR drop_bit 16 hash;
          hash = hash * 0x7feb352d;
          hash = hash XOR drop_bit 15 hash;
          hash = hash * 0x846ca68b
      in hash XOR drop_bit 16 hash)"

text \<open>Keys are integers or strings; any other type does not reach this function.\<close>

fun key_hash :: "pvalue \<Rightarrow> u32" where
  "key_hash (PInt i) = integer_hash i"
| "key_hash (PString s) = ps_hash s"
| "key_hash _ = 0"

fun keys_equal :: "pvalue \<Rightarrow> pvalue \<Rightarrow> bool" where
  "keys_equal (PInt i) (PInt j) = (i = j)"
| "keys_equal (PString s) (PString t) = ps_equal s t"
| "keys_equal _ _ = False"

text \<open>The digit loop of \<open>numeric_string_key\<close>, on the remaining bytes.\<close>

fun key_digits :: "u64 \<Rightarrow> bytes \<Rightarrow> u64 \<Rightarrow> u64 option" where
  "key_digits limit [] v = Some v"
| "key_digits limit (c # cs) v =
     (if \<not> is_digit c then None
      else
        let digit = of_nat (digit_value c) in
        if (limit - digit) div 10 < v then None
        else key_digits limit cs (v * 10 + digit))"

definition numeric_string_key :: "bytes \<Rightarrow> pphp_int option" where
  "numeric_string_key data =
     (if data = [] then None
      else
        let negative = (data ! 0 = CHR ''-'');
            i = (if negative then 1 else 0)
        in
          if negative \<and> i = length data then None
          else if \<not> negative \<and> data ! 0 = CHR ''+'' then None
          else if data ! i = CHR ''0'' \<and> i + 1 < length data then None
          else
            let limit = (scast PPHP_INT_MAXIMUM :: u64) + (if negative then 1 else 0) in
            case key_digits limit (drop i data) 0 of
              None \<Rightarrow> None
            | Some v \<Rightarrow>
                if negative \<and> v = scast PPHP_INT_MAXIMUM + 1 then Some PPHP_INT_MINIMUM
                else
                  let magnitude = (ucast v :: pphp_int)
                  in Some (if negative then - magnitude else magnitude))"

text \<open>
  The comparisons \<open>f >= -2^31\<close> and \<open>f < 2^31\<close> and the conversion \<open>(pphp_int)f\<close> of a finite
  double \<open>(-1)^sign * mantissa * 2^exponent\<close>: truncation towards zero.
\<close>

definition float_key :: "u64 \<Rightarrow> pphp_int option" where
  "float_key f =
     (let negative = bit f 63;
          biased = unat (drop_bit 52 f AND 0x7ff);
          fraction = unat (f AND 0xfffffffffffff);
          mantissa = (if biased = 0 then fraction else fraction + 2 ^ 52);
          exponent = int (if biased = 0 then 1 else biased) - 1075;
          scaled = (if 0 \<le> exponent then mantissa * 2 ^ nat exponent
                    else mantissa div 2 ^ nat (- exponent));
          exact = (0 \<le> exponent \<or> 2 ^ nat (- exponent) dvd mantissa)
      in
        if biased = 0x7ff then None
        else if \<not> negative then (if scaled < 2 ^ 31 then Some (of_nat scaled) else None)
        else if scaled < 2 ^ 31 \<or> (scaled = 2 ^ 31 \<and> exact) then Some (- of_nat scaled)
        else None)"

text \<open>\<open>normalize_key\<close>: the key, and whether it is a temporary string.\<close>

definition normalize_key ::
  "'h heap_ops \<Rightarrow> pvalue \<Rightarrow> 'h \<Rightarrow> (pvalue \<times> bool) option \<times> 'h" where
  "normalize_key ops input h =
     (case input of
        PInt i \<Rightarrow> (Some (input, False), h)
      | PFloat f \<Rightarrow> (case float_key f of
                       None \<Rightarrow> (None, h)
                     | Some i \<Rightarrow> (Some (PInt i, False), h))
      | PTrue \<Rightarrow> (Some (PInt 1, False), h)
      | PFalse \<Rightarrow> (Some (PInt 0, False), h)
      | PNull \<Rightarrow> (case ps_new ops [] h of
                    (None, h) \<Rightarrow> (None, h)
                  | (Some s, h) \<Rightarrow> (Some (PString s, True), h))
      | PString s \<Rightarrow> (case numeric_string_key (ps_data s) of
                       Some i \<Rightarrow> (Some (PInt i, False), h)
                     | None \<Rightarrow> (Some (input, False), h))
      | _ \<Rightarrow> (None, h))"

section \<open>Growth\<close>

definition ensure_entries :: "'h heap_ops \<Rightarrow> parray \<Rightarrow> nat \<Rightarrow> 'h \<Rightarrow> bool \<times> parray \<times> 'h" where
  "ensure_entries ops a minimum h =
     (if minimum \<le> pa_capacity a then (True, a, h)
      else
        let capacity = (if pa_capacity a = 0 then 8 else pa_capacity a * 2);
            capacity = (if capacity < minimum then minimum else capacity)
        in
          if UINT16_MAX < capacity then (False, a, h)
          else
            case h_realloc ops (pa_entries_ptr a) (capacity * sizeof_pentry) h of
              (None, h) \<Rightarrow> (False, a, h)
            | (Some p, h) \<Rightarrow> (True, a\<lparr>pa_entries_ptr := Some p, pa_capacity := capacity\<rparr>, h))"

fun link_entries :: "nat \<Rightarrow> nat \<Rightarrow> pentry list \<Rightarrow> nat list \<Rightarrow> pentry list \<times> nat list" where
  "link_entries bucket_count i [] buckets = ([], buckets)"
| "link_entries bucket_count i (e # es) buckets =
     (if pe_key e \<noteq> PNull then
        let bucket = unat (key_hash (pe_key e)) AND (bucket_count - 1);
            (es', buckets') = link_entries bucket_count (i + 1) es (buckets[bucket := i])
        in (e\<lparr>pe_next := buckets ! bucket\<rparr> # es', buckets')
      else
        let (es', buckets') = link_entries bucket_count (i + 1) es buckets in (e # es', buckets'))"

definition rehash :: "'h heap_ops \<Rightarrow> parray \<Rightarrow> nat \<Rightarrow> 'h \<Rightarrow> bool \<times> parray \<times> 'h" where
  "rehash ops a bucket_count h =
     (let bucket_count = (if bucket_count < 8 then 8 else bucket_count) in
      if UINT16_MAX < bucket_count then (False, a, h)
      else
        case h_alloc ops (bucket_count * 2) h of
          (None, h) \<Rightarrow> (False, a, h)
        | (Some p, h) \<Rightarrow>
            let (entries, buckets) =
                  link_entries bucket_count 0 (pa_entries a) (replicate bucket_count EMPTY_BUCKET);
                h = h_free ops (pa_buckets_ptr a) h
            in (True, a\<lparr>pa_entries := entries, pa_buckets_ptr := Some p, pa_buckets := buckets,
                        pa_bucket_count := bucket_count, pa_packed := False\<rparr>, h))"

function double_until :: "nat \<Rightarrow> nat \<Rightarrow> nat" where
  "double_until buckets target =
     (if 0 < buckets \<and> buckets < target then double_until (buckets * 2) target else buckets)"
  by pat_completeness auto
termination
  by (relation "measure (\<lambda>(b, t). t - b)") auto

declare double_until.simps [simp del]

definition promote_hash :: "'h heap_ops \<Rightarrow> parray \<Rightarrow> 'h \<Rightarrow> bool \<times> parray \<times> 'h" where
  "promote_hash ops a h = rehash ops a (double_until 8 (pa_size a * 2)) h"

section \<open>Lookup\<close>

text \<open>The place that holds an index: a bucket, or the \<open>next\<close> field of an entry.\<close>

datatype link = InBucket nat | InEntry nat

partial_function (option) find_loop ::
  "pentry list \<Rightarrow> pvalue \<Rightarrow> link \<Rightarrow> nat \<Rightarrow> (nat option \<times> link) option" where
  "find_loop entries key link cursor =
     (if cursor = EMPTY_BUCKET then Some (None, link)
      else
        case rd entries cursor of
          None \<Rightarrow> None
        | Some e \<Rightarrow>
            if keys_equal (pe_key e) key then Some (Some cursor, link)
            else find_loop entries key (InEntry cursor) (pe_next e))"

definition find_entry :: "parray \<Rightarrow> pvalue \<Rightarrow> (nat option \<times> link option) option" where
  "find_entry a key =
     (if pa_packed a then
        (case key of
           PInt i \<Rightarrow> if 0 \<le>s i \<and> sint i < int (pa_used a) then Some (Some (unat i), None)
                     else Some (None, None)
         | _ \<Rightarrow> Some (None, None))
      else if pa_bucket_count a = 0 then Some (None, None)
      else
        let bucket = unat (key_hash key) AND (pa_bucket_count a - 1) in
        case rd (pa_buckets a) bucket of
          None \<Rightarrow> None
        | Some cursor \<Rightarrow>
            (case find_loop (pa_entries a) key (InBucket bucket) cursor of
               None \<Rightarrow> None
             | Some (r, link) \<Rightarrow> Some (r, Some link)))"

section \<open>Operations\<close>

definition empty_array :: "addr \<Rightarrow> parray" where
  "empty_array p = \<lparr>pa_addr = p, pa_packed = True, pa_size = 0, pa_capacity = 0,
     pa_bucket_count = 0, pa_next_index = 0, pa_entries_ptr = None, pa_entries = [],
     pa_buckets_ptr = None, pa_buckets = []\<rparr>"

definition pa_new :: "'h heap_ops \<Rightarrow> nat \<Rightarrow> 'h \<Rightarrow> parray option \<times> 'h" where
  "pa_new ops capacity_hint h =
     (case h_alloc ops sizeof_parray h of
        (None, h) \<Rightarrow> (None, h)
      | (Some p, h) \<Rightarrow>
          let a = empty_array p in
          if capacity_hint \<noteq> 0 then
            (case ensure_entries ops a capacity_hint h of
               (True, a, h) \<Rightarrow> (Some a, h)
             | (False, a, h) \<Rightarrow> (None, h_free ops (Some p) h))
          else (Some a, h))"

text \<open>References: creation of a temporary key, \<open>pv_retain\<close> and \<open>pv_release\<close>.\<close>

definition temporary_created :: "bool \<Rightarrow> pvalue \<Rightarrow> rc_event list" where
  "temporary_created temporary key = (if temporary then [Create key] else [])"

definition release_temporary :: "bool \<Rightarrow> pvalue \<Rightarrow> rc_event list" where
  "release_temporary temporary key = (if temporary then [Release key] else [])"

definition retain_entries :: "pentry list \<Rightarrow> rc_event list" where
  "retain_entries es = concat (map (\<lambda>e. if pe_key e \<noteq> PNull
     then [Retain (pe_key e), Retain (pe_value e)] else []) es)"

definition release_entries :: "pentry list \<Rightarrow> rc_event list" where
  "release_entries es = concat (map (\<lambda>e. if pe_key e \<noteq> PNull
     then [Release (pe_key e), Release (pe_value e)] else []) es)"

definition pa_destroy :: "'h heap_ops \<Rightarrow> parray option \<Rightarrow> 'h \<Rightarrow> rc_event list \<times> 'h" where
  "pa_destroy ops a h =
     (case a of
        None \<Rightarrow> ([], h)
      | Some a \<Rightarrow>
          let events = release_entries (pa_entries a);
              h = h_free ops (pa_entries_ptr a) h;
              h = h_free ops (pa_buckets_ptr a) h;
              h = h_free ops (Some (pa_addr a)) h
          in (events, h))"

definition pa_clone :: "'h heap_ops \<Rightarrow> parray \<Rightarrow> 'h \<Rightarrow> parray option \<times> rc_event list \<times> 'h" where
  "pa_clone ops a h =
     (case pa_new ops (pa_capacity a) h of
        (None, h) \<Rightarrow> (None, [], h)
      | (Some copy, h) \<Rightarrow>
          let copy = copy\<lparr>pa_packed := pa_packed a, pa_size := pa_size a,
                          pa_next_index := pa_next_index a, pa_entries := pa_entries a\<rparr>;
              events = retain_entries (pa_entries a)
          in
            if \<not> pa_packed a then
              (case rehash ops copy (pa_bucket_count a) h of
                 (True, copy, h) \<Rightarrow> (Some copy, events, h)
               | (False, copy, h) \<Rightarrow>
                   let (released, h) = pa_destroy ops (Some copy) h in (None, events @ released, h))
            else (Some copy, events, h))"

definition pa_count :: "parray option \<Rightarrow> nat" where
  "pa_count a = (case a of None \<Rightarrow> 0 | Some a \<Rightarrow> pa_size a)"

definition pa_get ::
  "'h heap_ops \<Rightarrow> parray option \<Rightarrow> pvalue \<Rightarrow> 'h \<Rightarrow> (pvalue option \<times> rc_event list \<times> 'h) option" where
  "pa_get ops a input h =
     (case a of
        None \<Rightarrow> Some (None, [], h)
      | Some a \<Rightarrow>
          (case normalize_key ops input h of
             (None, h) \<Rightarrow> Some (None, [], h)
           | (Some (key, temporary), h) \<Rightarrow>
               let created = temporary_created temporary key in
               (case find_entry a key of
                  None \<Rightarrow> None
                | Some (None, _) \<Rightarrow> Some (None, created @ release_temporary temporary key, h)
                | Some (Some index, _) \<Rightarrow>
                    (case rd (pa_entries a) index of
                       None \<Rightarrow> None
                     | Some e \<Rightarrow>
                         Some (Some (pe_value e),
                               created @ Retain (pe_value e) # release_temporary temporary key, h)))))"

text \<open>The insertion of a new entry, after the table has been promoted and has room.\<close>

definition append_entry :: "parray \<Rightarrow> pvalue \<Rightarrow> pvalue \<Rightarrow> parray" where
  "append_entry a key v =
     (let index = pa_used a;
          a = a\<lparr>pa_size := pa_size a + 1,
                pa_entries := pa_entries a @ [\<lparr>pe_key = key, pe_value = v, pe_next = EMPTY_BUCKET\<rparr>]\<rparr>;
          a = (if \<not> pa_packed a then
                 let bucket = unat (key_hash key) AND (pa_bucket_count a - 1)
                 in a\<lparr>pa_entries := (pa_entries a)[index := (pa_entries a ! index)\<lparr>pe_next := pa_buckets a ! bucket\<rparr>],
                      pa_buckets := (pa_buckets a)[bucket := index]\<rparr>
               else a)
      in case key of
           PInt i \<Rightarrow> if pa_next_index a \<le>s i \<and> i <s PPHP_INT_MAXIMUM
                     then a\<lparr>pa_next_index := i + 1\<rparr> else a
         | _ \<Rightarrow> a)"

text \<open>
  \<open>pa_set\<close> and \<open>pa_remove\<close> normalise the key first and release a temporary key on every
  path; \<open>with_key\<close> is this frame, \<open>pa_store\<close> and \<open>pa_delete\<close> are what they do in between.
\<close>

definition with_key ::
  "'h heap_ops \<Rightarrow> parray \<Rightarrow> pvalue \<Rightarrow> 'h \<Rightarrow>
     (pvalue \<Rightarrow> 'h \<Rightarrow> (bool \<times> parray \<times> rc_event list \<times> 'h) option) \<Rightarrow>
     (bool \<times> parray option \<times> rc_event list \<times> 'h) option" where
  "with_key ops a input h body =
     (case normalize_key ops input h of
        (None, h) \<Rightarrow> Some (False, Some a, [], h)
      | (Some (key, temporary), h) \<Rightarrow>
          (case body key h of
             None \<Rightarrow> None
           | Some (ok, a, events, h) \<Rightarrow>
               Some (ok, Some a,
                     temporary_created temporary key @ events @ release_temporary temporary key, h)))"

definition pa_store ::
  "'h heap_ops \<Rightarrow> parray \<Rightarrow> pvalue \<Rightarrow> pvalue \<Rightarrow> 'h \<Rightarrow>
     (bool \<times> parray \<times> rc_event list \<times> 'h) option" where
  "pa_store ops a v key h =
     (case find_entry a key of
        None \<Rightarrow> None
      | Some (Some index, _) \<Rightarrow>
          (case rd (pa_entries a) index of
             None \<Rightarrow> None
           | Some e \<Rightarrow>
               Some (True, a\<lparr>pa_entries := (pa_entries a)[index := e\<lparr>pe_value := v\<rparr>]\<rparr>,
                     [Retain v, Release (pe_value e)], h))
      | Some (None, _) \<Rightarrow>
          (case (if pa_packed a \<and> \<not> (case key of PInt i \<Rightarrow> sint i = int (pa_used a) | _ \<Rightarrow> False)
                 then promote_hash ops a h else (True, a, h)) of
             (False, a, h) \<Rightarrow> Some (False, a, [], h)
           | (True, a, h) \<Rightarrow>
               (case (if \<not> pa_packed a \<and> pa_bucket_count a * 3 < (pa_size a + 1) * 4
                      then rehash ops a (pa_bucket_count a * 2) h else (True, a, h)) of
                  (False, a, h) \<Rightarrow> Some (False, a, [], h)
                | (True, a, h) \<Rightarrow>
                    (case ensure_entries ops a (pa_used a + 1) h of
                       (False, a, h) \<Rightarrow> Some (False, a, [], h)
                     | (True, a, h) \<Rightarrow>
                         Some (True, append_entry a key v, [Retain key, Retain v], h)))))"

definition pa_set ::
  "'h heap_ops \<Rightarrow> parray option \<Rightarrow> pvalue \<Rightarrow> pvalue \<Rightarrow> 'h \<Rightarrow>
     (bool \<times> parray option \<times> rc_event list \<times> 'h) option" where
  "pa_set ops a input v h =
     (case a of
        None \<Rightarrow> Some (False, None, [], h)
      | Some a \<Rightarrow> with_key ops a input h (pa_store ops a v))"

definition pa_push ::
  "'h heap_ops \<Rightarrow> parray option \<Rightarrow> pvalue \<Rightarrow> 'h \<Rightarrow>
     (bool \<times> parray option \<times> rc_event list \<times> 'h) option" where
  "pa_push ops a v h =
     (case a of
        None \<Rightarrow> Some (False, None, [], h)
      | Some a \<Rightarrow> pa_set ops (Some a) (PInt (pa_next_index a)) v h)"

fun store_link :: "link \<Rightarrow> nat \<Rightarrow> parray \<Rightarrow> parray" where
  "store_link (InBucket b) i a = a\<lparr>pa_buckets := (pa_buckets a)[b := i]\<rparr>"
| "store_link (InEntry j) i a =
     a\<lparr>pa_entries := (pa_entries a)[j := (pa_entries a ! j)\<lparr>pe_next := i\<rparr>]\<rparr>"

definition pa_delete ::
  "'h heap_ops \<Rightarrow> parray \<Rightarrow> pvalue \<Rightarrow> 'h \<Rightarrow> (bool \<times> parray \<times> rc_event list \<times> 'h) option" where
  "pa_delete ops a key h =
     (case (if pa_packed a then promote_hash ops a h else (True, a, h)) of
        (False, a, h) \<Rightarrow> Some (False, a, [], h)
      | (True, a, h) \<Rightarrow>
          (case find_entry a key of
             None \<Rightarrow> None
           | Some (None, _) \<Rightarrow> Some (False, a, [], h)
           | Some (Some index, link) \<Rightarrow>
               (case rd (pa_entries a) index of
                  None \<Rightarrow> None
                | Some e \<Rightarrow>
                    let a = (case link of Some l \<Rightarrow> store_link l (pe_next e) a | None \<Rightarrow> a);
                        a = a\<lparr>pa_entries := (pa_entries a)[index :=
                                \<lparr>pe_key = PNull, pe_value = PNull, pe_next = EMPTY_BUCKET\<rparr>],
                              pa_size := pa_size a - 1\<rparr>
                    in Some (True, a, [Release (pe_key e), Release (pe_value e)], h))))"

definition pa_remove ::
  "'h heap_ops \<Rightarrow> parray option \<Rightarrow> pvalue \<Rightarrow> 'h \<Rightarrow>
     (bool \<times> parray option \<times> rc_event list \<times> 'h) option" where
  "pa_remove ops a input h =
     (case a of
        None \<Rightarrow> Some (False, None, [], h)
      | Some a \<Rightarrow> with_key ops a input h (pa_delete ops a))"

function skip_tombstones :: "pentry list \<Rightarrow> nat \<Rightarrow> nat" where
  "skip_tombstones entries position =
     (if position < length entries \<and> pe_key (entries ! position) = PNull
      then skip_tombstones entries (position + 1) else position)"
  by pat_completeness auto
termination
  by (relation "measure (\<lambda>(es, i). length es - i)") auto

declare skip_tombstones.simps [simp del]

definition pa_entry_at :: "parray option \<Rightarrow> nat \<Rightarrow> (pvalue \<times> pvalue \<times> nat \<times> rc_event list) option" where
  "pa_entry_at a position =
     (case a of
        None \<Rightarrow> None
      | Some a \<Rightarrow>
          let position = skip_tombstones (pa_entries a) position in
          if pa_used a \<le> position then None
          else
            let e = pa_entries a ! position
            in Some (pe_key e, pe_value e, position + 1, [Retain (pe_key e), Retain (pe_value e)]))"

end
