(* ===== verification/PArrayInv.thy ===== *)
theory PArrayInv
  imports PArray "HOL-Library.AList"
begin

text \<open>
  The invariant of ordered hash arrays and their refinement to association lists in
  insertion order: \<open>pa_assoc a\<close> lists the normalised keys with their values, skipping
  tombstones.  Lookup, assignment and removal are \<open>map_of\<close>, \<open>AList.update\<close> and
  \<open>AList.delete\<close> on this list, whichever representation the array has.
\<close>

unbundle bit_operations_syntax

section \<open>Normalised keys\<close>

datatype nkey = KInt pphp_int | KStr bytes

fun nkey_of :: "pvalue \<Rightarrow> nkey option" where
  "nkey_of (PInt i) = Some (KInt i)"
| "nkey_of (PString s) = Some (KStr (ps_data s))"
| "nkey_of _ = None"

text \<open>
  \<open>env\<close> gives the string at an address: equal addresses are equal strings, and the cached
  hashes are those of the bytes.
\<close>

type_synonym strings = "addr \<Rightarrow> pstring option"

fun known :: "strings \<Rightarrow> pvalue \<Rightarrow> bool" where
  "known env (PString s) \<longleftrightarrow> env (ps_addr s) = Some s \<and> ps_ok s"
| "known env v \<longleftrightarrow> True"

fun key_ok :: "strings \<Rightarrow> pvalue \<Rightarrow> bool" where
  "key_ok env (PInt i) = True"
| "key_ok env (PString s) \<longleftrightarrow> known env (PString s) \<and> numeric_string_key (ps_data s) = None"
| "key_ok env _ = False"

lemma key_ok_cases:
  assumes "key_ok env k"
  obtains i where "k = PInt i" | s where "k = PString s" "env (ps_addr s) = Some s" "ps_ok s"
      "numeric_string_key (ps_data s) = None"
  using assms by (cases k) auto

lemma key_ok_not_null: "key_ok env k \<Longrightarrow> k \<noteq> PNull"
  by (cases k) auto

lemma map_leD: "m \<subseteq>\<^sub>m m' \<Longrightarrow> m a = Some b \<Longrightarrow> m' a = Some b"
  by (metis domI map_le_def)

lemma known_mono: "env \<subseteq>\<^sub>m env' \<Longrightarrow> known env v \<Longrightarrow> known env' v"
  by (cases v) (auto dest: map_leD)

lemma key_ok_mono: "env \<subseteq>\<^sub>m env' \<Longrightarrow> key_ok env k \<Longrightarrow> key_ok env' k"
  by (cases k) (auto dest: map_leD)

lemma keys_equal_iff:
  assumes "key_ok env k" "key_ok env l"
  shows "keys_equal k l \<longleftrightarrow> nkey_of k = nkey_of l"
  using assms(1)
proof (cases rule: key_ok_cases)
  case (1 i)
  show ?thesis using assms(2) by (cases rule: key_ok_cases) (simp_all add: 1)
next
  case (2 s)
  note s = this
  show ?thesis using assms(2)
  proof (cases rule: key_ok_cases)
    case (2 t)
    have "ps_equal s t \<longleftrightarrow> ps_data s = ps_data t"
      by (rule ps_equal_iff) (use s(2,3) 2(2,3) in \<open>assumption | metis option.inject\<close>)+
    then show ?thesis using s 2 by simp
  qed (simp add: s)
qed

lemma key_hash_cong:
  assumes "key_ok env k" "key_ok env l" "nkey_of k = nkey_of l"
  shows "key_hash k = key_hash l"
  using assms by (elim key_ok_cases) (auto simp: ps_ok_def)

section \<open>Chains\<close>

fun links_to :: "pentry list \<Rightarrow> nat \<Rightarrow> nat list \<Rightarrow> bool" where
  "links_to es cur [] \<longleftrightarrow> cur = EMPTY_BUCKET"
| "links_to es cur (x # xs) \<longleftrightarrow> cur = x \<and> x < length es \<and> x \<noteq> EMPTY_BUCKET \<and> links_to es (pe_next (es ! x)) xs"

definition bucket_of :: "nat \<Rightarrow> pvalue \<Rightarrow> nat" where
  "bucket_of bc k = unat (key_hash k) AND (bc - 1)"

definition members :: "pentry list \<Rightarrow> nat \<Rightarrow> nat \<Rightarrow> nat set" where
  "members es bc b = {i. i < length es \<and> pe_key (es ! i) \<noteq> PNull \<and> bucket_of bc (pe_key (es ! i)) = b}"

definition indexed :: "pentry list \<Rightarrow> nat \<Rightarrow> nat list \<Rightarrow> (nat \<Rightarrow> nat list) \<Rightarrow> bool" where
  "indexed es bc buckets C \<longleftrightarrow> length buckets = bc \<and>
     (\<forall>b < bc. links_to es (buckets ! b) (C b) \<and> distinct (C b) \<and> set (C b) = members es bc b)"

lemma bucket_less: "bucket_of (2 ^ n) k < 2 ^ n"
  unfolding bucket_of_def and_mask_mod by simp

lemma links_to_cong:
  assumes "links_to es cur xs" "length es \<le> length es'"
    and "\<And>x. x \<in> set xs \<Longrightarrow> pe_next (es' ! x) = pe_next (es ! x)"
  shows "links_to es' cur xs"
  using assms by (induction xs arbitrary: cur) auto

lemma links_to_append: "links_to es cur (xs @ ys) \<Longrightarrow> xs \<noteq> [] \<Longrightarrow> links_to es (pe_next (es ! last xs)) ys"
  by (induction xs arbitrary: cur) auto

lemma links_to_less: "links_to es cur xs \<Longrightarrow> x \<in> set xs \<Longrightarrow> x < length es"
  by (induction xs arbitrary: cur) auto

section \<open>Searching a chain\<close>

lemma find_loop_correct:
  assumes "links_to es cur xs" "key_ok env key" "\<forall>x \<in> set xs. key_ok env (pe_key (es ! x))"
  shows "(\<exists>l. find_loop es key link cur = Some (None, l) \<and>
            (\<forall>x \<in> set xs. nkey_of (pe_key (es ! x)) \<noteq> nkey_of key)) \<or>
         (\<exists>ys x zs. xs = ys @ x # zs \<and> nkey_of (pe_key (es ! x)) = nkey_of key \<and>
            find_loop es key link cur = Some (Some x, if ys = [] then link else InEntry (last ys)))"
  using assms(1,3)
proof (induction xs arbitrary: cur link)
  case Nil
  then show ?case by (simp add: find_loop.simps)
next
  case (Cons x xs)
  then have x: "cur = x" "x < length es" "x \<noteq> EMPTY_BUCKET" "links_to es (pe_next (es ! x)) xs"
    by simp_all
  have eq: "keys_equal (pe_key (es ! x)) key \<longleftrightarrow> nkey_of (pe_key (es ! x)) = nkey_of key"
    by (rule keys_equal_iff [of env]) (use Cons.prems(2) assms(2) in simp_all)
  show ?case
  proof (cases "nkey_of (pe_key (es ! x)) = nkey_of key")
    case True
    then have "find_loop es key link cur = Some (Some x, link)"
      using x eq by (simp add: find_loop.simps)
    then show ?thesis using True
      by (intro disjI2 exI [of _ "[]"] exI [of _ x] exI [of _ xs]) simp
  next
    case False
    then have step: "find_loop es key link cur = find_loop es key (InEntry x) (pe_next (es ! x))"
      using x eq by (simp add: find_loop.simps [of es key link])
    have "\<forall>y \<in> set xs. key_ok env (pe_key (es ! y))" using Cons.prems(2) by simp
    from Cons.IH [OF x(4) this, of "InEntry x"] show ?thesis
    proof (elim disjE exE conjE)
      fix l
      assume "find_loop es key (InEntry x) (pe_next (es ! x)) = Some (None, l)"
        "\<forall>x \<in> set xs. nkey_of (pe_key (es ! x)) \<noteq> nkey_of key"
      then show ?thesis using step False by simp
    next
      fix ys z zs
      assume "xs = ys @ z # zs" "nkey_of (pe_key (es ! z)) = nkey_of key"
        "find_loop es key (InEntry x) (pe_next (es ! x)) =
           Some (Some z, if ys = [] then InEntry x else InEntry (last ys))"
      then show ?thesis using step
        by (intro disjI2 exI [of _ "x # ys"] exI [of _ z] exI [of _ zs]) auto
    qed
  qed
qed

section \<open>Maintaining the index\<close>

lemma members_snoc:
  "members (es @ [e]) bc b =
     (if pe_key e \<noteq> PNull \<and> bucket_of bc (pe_key e) = b then insert (length es) (members es bc b)
      else members es bc b)"
  by (auto simp: members_def nth_append less_Suc_eq)

lemma members_cong:
  assumes "length es' = length es" "\<And>i. i < length es \<Longrightarrow> pe_key (es' ! i) = pe_key (es ! i)"
  shows "members es' bc b = members es bc b"
  using assms by (auto simp: members_def)

lemma members_tombstone:
  assumes "length es' = length es"
    and "\<And>i. i < length es \<Longrightarrow> pe_key (es' ! i) = (if i = x then PNull else pe_key (es ! i))"
  shows "members es' bc b = members es bc b - {x}"
  using assms by (auto simp: members_def split: if_splits)

text \<open>A new entry at the end, put at the head of its bucket.\<close>

lemma indexed_snoc:
  assumes I: "indexed es (2 ^ n) buckets C" and e: "pe_key e \<noteq> PNull" and len: "length es < EMPTY_BUCKET"
  defines "b \<equiv> bucket_of (2 ^ n) (pe_key e)"
  shows "indexed (es @ [e\<lparr>pe_next := buckets ! b\<rparr>]) (2 ^ n) (buckets[b := length es])
           (C(b := length es # C b))"
proof -
  have b: "b < 2 ^ n" unfolding b_def by (rule bucket_less)
  let ?es = "es @ [e\<lparr>pe_next := buckets ! b\<rparr>]" and ?bk = "buckets[b := length es]"
  have old: "links_to ?es cur (C c)" if "links_to es cur (C c)" "c < 2 ^ n" for cur c
    by (rule links_to_cong [OF that(1)])
      (use links_to_less [OF that(1)] in \<open>auto simp: nth_append\<close>)
  have notin: "length es \<notin> set (C c)" if "c < 2 ^ n" for c
    using I that by (auto simp: indexed_def members_def)
  have mem: "members ?es (2 ^ n) c = (if c = b then insert (length es) (members es (2 ^ n) c)
      else members es (2 ^ n) c)" for c
    using e by (simp add: members_snoc b_def)
  show ?thesis
    unfolding indexed_def
  proof (intro conjI allI impI)
    show "length ?bk = 2 ^ n" using I by (simp add: indexed_def)
    fix c
    assume c: "c < (2 :: nat) ^ n"
    have lc: "links_to es (buckets ! c) (C c)" "distinct (C c)" "set (C c) = members es (2 ^ n) c"
      using I c by (auto simp: indexed_def)
    show "links_to ?es (?bk ! c) ((C(b := length es # C b)) c)"
      using old [OF lc(1) c] c b I len by (auto simp: indexed_def nth_list_update)
    show "distinct ((C(b := length es # C b)) c)" using lc(2) notin [OF c] by auto
    show "set ((C(b := length es # C b)) c) = members ?es (2 ^ n) c"
      using lc(3) mem [of c] by auto
  qed
qed

lemma indexed_snoc_tombstone:
  assumes I: "indexed es (2 ^ n) buckets C" and e: "pe_key e = PNull"
  shows "indexed (es @ [e]) (2 ^ n) buckets C"
proof -
  have old: "links_to (es @ [e]) cur (C c)" if "links_to es cur (C c)" for cur c
    by (rule links_to_cong [OF that]) (use links_to_less [OF that] in \<open>auto simp: nth_append\<close>)
  then show ?thesis using I e by (auto simp: indexed_def members_snoc)
qed

lemma indexed_empty: "indexed [] bc (replicate bc EMPTY_BUCKET) (\<lambda>_. [])"
  by (simp add: indexed_def members_def)

text \<open>The relinking loop of \<open>rehash\<close> keeps keys and values and builds a correct index.\<close>

lemma link_entries_correct:
  assumes "indexed ps (2 ^ n) buckets C" "length ps + length es \<le> EMPTY_BUCKET"
  shows "\<exists>es' buckets' C'. link_entries (2 ^ n) (length ps) es buckets = (es', buckets') \<and>
     length es' = length es \<and> map pe_key es' = map pe_key es \<and> map pe_value es' = map pe_value es \<and>
     indexed (ps @ es') (2 ^ n) buckets' C'"
  using assms
proof (induction es arbitrary: ps buckets C)
  case Nil
  then show ?case by auto
next
  case (Cons e es)
  show ?case
  proof (cases "pe_key e = PNull")
    case True
    from Cons.IH [OF indexed_snoc_tombstone [OF Cons.prems(1) True]] Cons.prems(2) obtain es' bk' C' where
      "link_entries (2 ^ n) (Suc (length ps)) es buckets = (es', bk')"
      "length es' = length es" "map pe_key es' = map pe_key es" "map pe_value es' = map pe_value es"
      "indexed ((ps @ [e]) @ es') (2 ^ n) bk' C'" by auto
    then show ?thesis using True
      by (intro exI [of _ "e # es'"] exI [of _ bk'] exI [of _ C']) simp
  next
    case False
    let ?b = "bucket_of (2 ^ n) (pe_key e)"
    let ?e = "e\<lparr>pe_next := buckets ! ?b\<rparr>"
    have len: "length ps < EMPTY_BUCKET" using Cons.prems(2) by simp
    from Cons.IH [OF indexed_snoc [OF Cons.prems(1) False len]] Cons.prems(2) obtain es' bk' C' where
      "link_entries (2 ^ n) (Suc (length ps)) es (buckets[?b := length ps]) = (es', bk')"
      "length es' = length es" "map pe_key es' = map pe_key es" "map pe_value es' = map pe_value es"
      "indexed ((ps @ [?e]) @ es') (2 ^ n) bk' C'" by auto
    then show ?thesis using False
      by (intro exI [of _ "?e # es'"] exI [of _ bk'] exI [of _ C'])
        (simp add: Let_def bucket_of_def)
  qed
qed

text \<open>Unlinking the entry \<open>x\<close> of bucket \<open>b\<close> and turning it into a tombstone.\<close>

definition tombstone :: pentry where
  "tombstone = \<lparr>pe_key = PNull, pe_value = PNull, pe_next = EMPTY_BUCKET\<rparr>"

definition unlink :: "nat \<Rightarrow> nat list \<Rightarrow> nat \<Rightarrow> pentry list \<times> nat list \<Rightarrow> pentry list \<times> nat list" where
  "unlink b ys nxt = (\<lambda>(es, buckets).
     if ys = [] then (es, buckets[b := nxt])
     else (es[last ys := (es ! last ys)\<lparr>pe_next := nxt\<rparr>], buckets))"

lemma links_to_prefix:
  assumes "links_to es cur (ys @ x # zs)" "distinct (ys @ x # zs)" "ys \<noteq> []"
    and "links_to es' nxt zs" "length es' = length es"
    and "\<And>i. i \<in> set (butlast ys) \<Longrightarrow> pe_next (es' ! i) = pe_next (es ! i)"
    and "pe_next (es' ! last ys) = nxt"
  shows "links_to es' cur (ys @ zs)"
  using assms
proof (induction ys arbitrary: cur)
  case (Cons y ys)
  show ?case
  proof (cases "ys = []")
    case True
    then show ?thesis using Cons.prems by auto
  next
    case False
    have "links_to es' (pe_next (es ! y)) (ys @ zs)"
      by (rule Cons.IH) (use Cons.prems False in \<open>auto split: if_splits\<close>)
    then show ?thesis using Cons.prems False by auto
  qed
qed simp

lemma indexed_unlink:
  assumes I: "indexed es (2 ^ n) buckets C" and b: "b < 2 ^ n" and C: "C b = ys @ x # zs"
    and u: "(es1, buckets1) = unlink b ys (pe_next (es ! x)) (es, buckets)"
  shows "indexed (es1[x := tombstone]) (2 ^ n) buckets1 (C(b := ys @ zs))"
proof -
  let ?es = "es1[x := tombstone]"
  have lb: "links_to es (buckets ! b) (ys @ x # zs)" "distinct (ys @ x # zs)"
    "insert x (set ys \<union> set zs) = members es (2 ^ n) b"
  proof -
    have "links_to es (buckets ! b) (C b) \<and> distinct (C b) \<and> set (C b) = members es (2 ^ n) b"
      using I b unfolding indexed_def by blast
    then show "links_to es (buckets ! b) (ys @ x # zs)" "distinct (ys @ x # zs)"
      "insert x (set ys \<union> set zs) = members es (2 ^ n) b" unfolding C by auto
  qed
  have len: "length ?es = length es" "length buckets1 = length buckets"
    using u by (auto simp: unlink_def split: if_splits)
  have x: "x < length es" using links_to_less [OF lb(1)] by simp
  have ys: "i < length es" if "i \<in> set ys" for i using links_to_less [OF lb(1)] that by simp
  have nxt: "pe_next (?es ! i) = pe_next (es ! i)" if "i < length es" "i \<noteq> x" "ys = [] \<or> i \<noteq> last ys" for i
    using u that by (auto simp: unlink_def split: if_splits)
  have key: "pe_key (?es ! i) = (if i = x then PNull else pe_key (es ! i))" if "i < length es" for i
    using u that x ys [OF last_in_set [of ys]]
    by (auto simp: unlink_def nth_list_update tombstone_def split: if_splits)
  have mem: "members ?es (2 ^ n) c = members es (2 ^ n) c - {x}" for c
    by (rule members_tombstone [OF len(1) key])
  have xin: "x \<in> members es (2 ^ n) b" using lb(3) by auto
  have other: "c = b" if "i \<in> members es (2 ^ n) c" "i = x \<or> i \<in> set ys" for i c
  proof -
    have "i \<in> members es (2 ^ n) b" using that(2) lb(3) by auto
    then show ?thesis using that(1) by (simp add: members_def)
  qed
  have zs: "links_to ?es (pe_next (es ! x)) zs"
  proof (rule links_to_cong)
    show "links_to es (pe_next (es ! x)) zs" using links_to_append [of es _ "ys @ [x]" zs] lb(1) by simp
    show "pe_next (?es ! i) = pe_next (es ! i)" if "i \<in> set zs" for i
    proof (rule nxt)
      have "i \<notin> set ys" using that lb(2) by auto
      then show "ys = [] \<or> i \<noteq> last ys" by (metis last_in_set)
    qed (use that lb(2) links_to_less [OF lb(1)] in auto)
  qed (use len in simp)
  show ?thesis
    unfolding indexed_def
  proof (intro conjI allI impI)
    show "length buckets1 = 2 ^ n" using I len by (simp add: indexed_def)
    fix c
    assume c: "c < (2 :: nat) ^ n"
    have lc: "links_to es (buckets ! c) (C c)" "distinct (C c)" "set (C c) = members es (2 ^ n) c"
      using I c by (auto simp: indexed_def)
    show "distinct ((C(b := ys @ zs)) c)" using lc(2) lb(2) by auto
    show "set ((C(b := ys @ zs)) c) = members ?es (2 ^ n) c"
    proof (cases "c = b")
      case True
      then show ?thesis using lb(2,3) mem [of b] by auto
    next
      case False
      then have "x \<notin> members es (2 ^ n) c" using other by blast
      then show ?thesis using lc(3) mem [of c] False by auto
    qed
    show "links_to ?es (buckets1 ! c) ((C(b := ys @ zs)) c)"
    proof (cases "c = b")
      case False
      have "links_to ?es (buckets ! c) (C c)"
      proof (rule links_to_cong [OF lc(1)])
        show "pe_next (?es ! i) = pe_next (es ! i)" if "i \<in> set (C c)" for i
        proof (rule nxt)
          have i: "i \<in> members es (2 ^ n) c" using that lc(3) by simp
          show "i \<noteq> x" using other [OF i] False by blast
          have "i \<notin> set ys" using other [OF i] False by blast
          then show "ys = [] \<or> i \<noteq> last ys" by (metis last_in_set)
          show "i < length es" using links_to_less [OF lc(1) that] .
        qed
      qed (use len in simp)
      then show ?thesis using False u by (auto simp: unlink_def split: if_splits)
    next
      case True
      show ?thesis
      proof (cases "ys = []")
        case True
        then show ?thesis using zs u b I \<open>c = b\<close> by (auto simp: unlink_def indexed_def)
      next
        case False
        have last: "last ys < length es" "last ys \<noteq> x" using False ys lb(2) last_in_set [of ys] by auto
        have "links_to ?es (buckets ! b) (ys @ zs)"
        proof (rule links_to_prefix [OF lb(1,2) False zs len(1)])
          show "pe_next (?es ! i) = pe_next (es ! i)" if "i \<in> set (butlast ys)" for i
          proof (rule nxt)
            have "distinct ys" using lb(2) by simp
            then show "ys = [] \<or> i \<noteq> last ys"
              using that False by (metis append_butlast_last_id distinct_append distinct_butlast
                  disjoint_iff list.set_intros(1))
            show "i < length es" "i \<noteq> x" using that ys lb(2) in_set_butlastD [OF that] by auto
          qed
          show "pe_next (?es ! last ys) = pe_next (es ! x)"
            using u False last by (auto simp: unlink_def)
        qed
        then show ?thesis using u False True by (auto simp: unlink_def)
      qed
    qed
  qed
qed

section \<open>The association list of an array\<close>

fun assoc_of :: "pentry list \<Rightarrow> (nkey \<times> pvalue) list" where
  "assoc_of [] = []"
| "assoc_of (e # es) =
     (case nkey_of (pe_key e) of None \<Rightarrow> assoc_of es | Some k \<Rightarrow> (k, pe_value e) # assoc_of es)"

definition pa_assoc :: "parray \<Rightarrow> (nkey \<times> pvalue) list" where
  "pa_assoc a = assoc_of (pa_entries a)"

lemma assoc_of_append [simp]: "assoc_of (es @ fs) = assoc_of es @ assoc_of fs"
  by (induction es) (auto split: option.split)

lemma assoc_of_cong:
  "map pe_key es = map pe_key es' \<Longrightarrow> map pe_value es = map pe_value es' \<Longrightarrow> assoc_of es = assoc_of es'"
proof (induction es arbitrary: es')
  case (Cons e es)
  then obtain f fs where f: "es' = f # fs" by (cases es') auto
  from Cons.prems f have "assoc_of es = assoc_of fs" by (intro Cons.IH) simp_all
  with Cons.prems f show ?case by (auto split: option.split)
qed simp

lemma assoc_of_keys:
  "k \<in> fst ` set (assoc_of es) \<longleftrightarrow> (\<exists>i < length es. nkey_of (pe_key (es ! i)) = Some k)"
proof (induction es)
  case (Cons e es)
  show ?case
  proof (cases "nkey_of (pe_key e) = Some k")
    case True
    then show ?thesis by (auto intro: exI [of _ 0])
  next
    case False
    then have "k \<in> fst ` set (assoc_of (e # es)) \<longleftrightarrow> k \<in> fst ` set (assoc_of es)"
      by (auto split: option.split)
    also have "\<dots> \<longleftrightarrow> (\<exists>i < length (e # es). nkey_of (pe_key ((e # es) ! i)) = Some k)"
      unfolding Cons.IH using False
      by (metis (no_types, lifting) Suc_less_eq length_Cons less_Suc_eq_0_disj nth_Cons_0 nth_Cons_Suc)
    finally show ?thesis .
  qed
qed simp

lemma update_absent: "k \<notin> fst ` set xs \<Longrightarrow> AList.update k v xs = xs @ [(k, v)]"
  by (induction xs) auto

lemma update_middle:
  "k \<notin> fst ` set xs \<Longrightarrow> AList.update k v (xs @ (k, w) # ys) = xs @ (k, v) # ys"
  by (induction xs) auto

lemma delete_absent: "k \<notin> fst ` set xs \<Longrightarrow> AList.delete k xs = xs"
  by (induction xs) auto

lemma delete_middle:
  "k \<notin> fst ` set xs \<Longrightarrow> k \<notin> fst ` set ys \<Longrightarrow> AList.delete k (xs @ (k, w) # ys) = xs @ ys"
  using delete_absent [of k xs] delete_absent [of k ys] by (simp add: AList.delete_eq)

lemma assoc_of_split:
  assumes "i < length es" "nkey_of (pe_key (es ! i)) = Some k" "distinct (map fst (assoc_of es))"
  defines "xs \<equiv> assoc_of (take i es)" and "ys \<equiv> assoc_of (drop (Suc i) es)"
  shows "assoc_of es = xs @ (k, pe_value (es ! i)) # ys" "k \<notin> fst ` set xs" "k \<notin> fst ` set ys"
proof -
  have "es = take i es @ es ! i # drop (Suc i) es" using assms(1) by (rule id_take_nth_drop)
  then have "assoc_of es = assoc_of (take i es @ es ! i # drop (Suc i) es)" by (rule arg_cong)
  then show eq: "assoc_of es = xs @ (k, pe_value (es ! i)) # ys"
    using assms(2) by (simp add: xs_def ys_def)
  show "k \<notin> fst ` set xs" "k \<notin> fst ` set ys" using assms(3) unfolding eq by auto
qed

lemma assoc_of_update:
  assumes "i < length es" "nkey_of (pe_key (es ! i)) = Some k" "distinct (map fst (assoc_of es))"
  shows "assoc_of (es[i := (es ! i)\<lparr>pe_value := v\<rparr>]) = AList.update k v (assoc_of es)"
proof -
  note split = assoc_of_split [OF assms]
  have "assoc_of (es[i := (es ! i)\<lparr>pe_value := v\<rparr>]) =
      assoc_of (take i es) @ (k, v) # assoc_of (drop (Suc i) es)"
    unfolding upd_conv_take_nth_drop [OF assms(1)] using assms(2) by simp
  then show ?thesis using update_middle [OF split(2)] by (simp add: split(1))
qed

lemma assoc_of_delete:
  assumes "i < length es" "nkey_of (pe_key (es ! i)) = Some k" "distinct (map fst (assoc_of es))"
  shows "assoc_of (es[i := tombstone]) = AList.delete k (assoc_of es)"
proof -
  note split = assoc_of_split [OF assms]
  have "assoc_of (es[i := tombstone]) = assoc_of (take i es) @ assoc_of (drop (Suc i) es)"
    unfolding upd_conv_take_nth_drop [OF assms(1)] by (simp add: tombstone_def)
  then show ?thesis using delete_middle [OF split(2,3)] by (simp add: split(1))
qed

lemma assoc_of_lookup:
  assumes "i < length es" "nkey_of (pe_key (es ! i)) = Some k" "distinct (map fst (assoc_of es))"
  shows "map_of (assoc_of es) k = Some (pe_value (es ! i))"
proof -
  have "map_of (assoc_of (take i es)) k = None"
    using assoc_of_split(2) [OF assms] by (simp add: map_of_eq_None_iff)
  then show ?thesis by (simp add: assoc_of_split(1) [OF assms] map_add_def)
qed

lemma assoc_of_absent:
  assumes "\<And>i. i < length es \<Longrightarrow> nkey_of (pe_key (es ! i)) \<noteq> Some k"
  shows "k \<notin> fst ` set (assoc_of es)"
  using assms by (auto simp: assoc_of_keys)

section \<open>The invariant\<close>

definition keys_ok :: "strings \<Rightarrow> parray \<Rightarrow> bool" where
  "keys_ok env a \<longleftrightarrow>
     (\<forall>e \<in> set (pa_entries a). pe_key e = PNull \<or> key_ok env (pe_key e)) \<and>
     distinct (map fst (pa_assoc a)) \<and> pa_size a = length (pa_assoc a) \<and>
     pa_used a \<le> pa_capacity a \<and> pa_capacity a \<le> UINT16_MAX"

definition next_ok :: "parray \<Rightarrow> bool" where
  "next_ok a \<longleftrightarrow> 0 \<le> sint (pa_next_index a) \<and>
     (\<forall>i. KInt i \<in> fst ` set (pa_assoc a) \<longrightarrow> sint i < sint (pa_next_index a) \<or> i = PPHP_INT_MAXIMUM)"

definition packed_ok :: "parray \<Rightarrow> bool" where
  "packed_ok a \<longleftrightarrow> (\<forall>i < pa_used a. pe_key (pa_entries a ! i) = PInt (of_nat i)) \<and>
     pa_buckets_ptr a = None"

definition hashed_ok :: "parray \<Rightarrow> bool" where
  "hashed_ok a \<longleftrightarrow> (\<exists>n C. pa_bucket_count a = 2 ^ n \<and> pa_bucket_count a \<le> UINT16_MAX \<and>
     indexed (pa_entries a) (2 ^ n) (pa_buckets a) C)"

definition arr_inv :: "strings \<Rightarrow> parray \<Rightarrow> bool" where
  "arr_inv env a \<longleftrightarrow> keys_ok env a \<and> next_ok a \<and> (if pa_packed a then packed_ok a else hashed_ok a)"

lemma keys_ok_nth:
  assumes "keys_ok env a" "i < pa_used a" "pe_key (pa_entries a ! i) \<noteq> PNull"
  shows "key_ok env (pe_key (pa_entries a ! i))"
  using assms nth_mem unfolding keys_ok_def by blast

lemma nkey_of_key_ok: "key_ok env k \<Longrightarrow> \<exists>n. nkey_of k = Some n"
  by (cases k) auto

lemma nkey_of_null [simp]: "nkey_of k = None \<longleftrightarrow> \<not> (\<exists>i. k = PInt i) \<and> \<not> (\<exists>s. k = PString s)"
  by (cases k) auto

lemma used_le: "keys_ok env a \<Longrightarrow> pa_used a \<le> UINT16_MAX"
  by (simp add: keys_ok_def)

lemma sint_of_nat16:
  assumes "n \<le> UINT16_MAX"
  shows "sint (of_nat n :: pphp_int) = int n" "unat (of_nat n :: pphp_int) = n"
proof -
  have "sint (word_of_int (int n) :: pphp_int) = int n"
    by (rule sint_of_int32) (use assms in \<open>simp add: int_in_range_def UINT16_MAX_def\<close>)
  then show "sint (of_nat n :: pphp_int) = int n" by simp
  show "unat (of_nat n :: pphp_int) = n"
    by (rule unat_of_nat32) (use assms in \<open>simp add: UINT16_MAX_def\<close>)
qed

text \<open>
  What the search finds; for a found entry of a hashed array also its place in the chain.
\<close>

definition at_link :: "parray \<Rightarrow> nat \<Rightarrow> link option \<Rightarrow> bool" where
  "at_link a i l \<longleftrightarrow> (if pa_packed a then l = None
     else \<exists>n C b ys zs. pa_bucket_count a = 2 ^ n \<and> indexed (pa_entries a) (2 ^ n) (pa_buckets a) C \<and>
            b < 2 ^ n \<and> C b = ys @ i # zs \<and> l = Some (if ys = [] then InBucket b else InEntry (last ys)))"

lemma find_packed:
  assumes "packed_ok a" "keys_ok env a" "pa_packed a" "key_ok env key" "nkey_of key = Some k"
  shows "(\<exists>l. find_entry a key = Some (None, l) \<and> k \<notin> fst ` set (pa_assoc a)) \<or>
    (\<exists>i. find_entry a key = Some (Some i, None) \<and> i < pa_used a \<and>
       nkey_of (pe_key (pa_entries a ! i)) = Some k)"
proof -
  have u: "pa_used a \<le> UINT16_MAX" using assms(2) by (rule used_le)
  have keys: "pe_key (pa_entries a ! i) = PInt (of_nat i)" if "i < pa_used a" for i
    using assms(1) that by (simp add: packed_ok_def)
  have s: "sint (of_nat i :: pphp_int) = int i" "unat (of_nat i :: pphp_int) = i" if "i < pa_used a" for i
    using sint_of_nat16 [of i] u that by simp_all
  from assms(4) show ?thesis
  proof (cases rule: key_ok_cases)
    case (1 j)
    show ?thesis
    proof (cases "0 \<le>s j \<and> sint j < int (pa_used a)")
      case True
      have nat: "0 \<le> sint j" using True by (simp add: signed_order)
      define i where "i = unat j"
      have "i = nat (sint j)" using nat_sint32 [OF nat] by (simp only: i_def)
      then have ij: "int i = sint j" using nat by simp
      have "i < pa_used a" using True ij by linarith
      moreover have "of_nat i = j" by (simp add: i_def)
      ultimately show ?thesis
        using True assms(3,5) 1 keys by (intro disjI2 exI [of _ i]) (simp add: find_entry_def i_def)
    next
      case False
      have "nkey_of (pe_key (pa_entries a ! i)) \<noteq> Some k" if "i < pa_used a" for i
      proof
        assume "nkey_of (pe_key (pa_entries a ! i)) = Some k"
        then have "j = of_nat i" using keys [OF that] 1 assms(5) by auto
        then show False using False s [OF that] that by (simp add: signed_order)
      qed
      then have "k \<notin> fst ` set (pa_assoc a)" unfolding pa_assoc_def by (intro assoc_of_absent)
      moreover have "find_entry a key = Some (None, None)"
        using False assms(3) 1 by (auto simp: find_entry_def)
      ultimately show ?thesis by blast
    qed
  next
    case (2 t)
    have "k \<notin> fst ` set (pa_assoc a)"
      unfolding pa_assoc_def by (intro assoc_of_absent) (use keys 2 assms(5) in auto)
    then show ?thesis using assms(3) 2 by (simp add: find_entry_def)
  qed
qed

lemma find_hashed:
  assumes "hashed_ok a" "keys_ok env a" "\<not> pa_packed a" "key_ok env key" "nkey_of key = Some k"
  shows "(\<exists>l. find_entry a key = Some (None, l) \<and> k \<notin> fst ` set (pa_assoc a)) \<or>
    (\<exists>i l. find_entry a key = Some (Some i, l) \<and> i < pa_used a \<and>
       nkey_of (pe_key (pa_entries a ! i)) = Some k \<and> at_link a i l)"
proof -
  let ?es = "pa_entries a"
  from assms(1) obtain n C where n: "pa_bucket_count a = 2 ^ n"
    and I: "indexed ?es (2 ^ n) (pa_buckets a) C" by (auto simp: hashed_ok_def)
  define b where "b = bucket_of (2 ^ n) key"
  have b: "b < 2 ^ n" unfolding b_def by (rule bucket_less)
  have lb: "links_to ?es (pa_buckets a ! b) (C b)" "set (C b) = members ?es (2 ^ n) b"
    "length (pa_buckets a) = 2 ^ n"
    using I b unfolding indexed_def by blast+
  have mem: "\<forall>x \<in> set (C b). key_ok env (pe_key (?es ! x))"
    unfolding lb(2) members_def using keys_ok_nth [OF assms(2)] by blast
  have start: "find_entry a key =
      (case find_loop ?es key (InBucket b) (pa_buckets a ! b) of
         None \<Rightarrow> None | Some (r, link) \<Rightarrow> Some (r, Some link))"
    using assms(3) n b lb(3) by (simp add: find_entry_def b_def bucket_of_def Let_def)
  from find_loop_correct [OF lb(1) assms(4) mem, of "InBucket b"] show ?thesis
  proof (elim disjE exE conjE)
    fix l
    assume l: "find_loop ?es key (InBucket b) (pa_buckets a ! b) = Some (None, l)"
      "\<forall>x \<in> set (C b). nkey_of (pe_key (?es ! x)) \<noteq> nkey_of key"
    have "nkey_of (pe_key (?es ! i)) \<noteq> Some k" if "i < pa_used a" for i
    proof
      assume k: "nkey_of (pe_key (?es ! i)) = Some k"
      then have nn: "pe_key (?es ! i) \<noteq> PNull" by auto
      have "key_hash (pe_key (?es ! i)) = key_hash key"
        by (rule key_hash_cong [OF keys_ok_nth [OF assms(2) that nn] assms(4)]) (simp add: k assms(5))
      then have "bucket_of (2 ^ n) (pe_key (?es ! i)) = b" by (simp only: b_def bucket_of_def)
      then have "i \<in> set (C b)" using that nn by (simp add: lb(2) members_def)
      then show False using l(2) k assms(5) by auto
    qed
    then have "k \<notin> fst ` set (pa_assoc a)" unfolding pa_assoc_def by (intro assoc_of_absent)
    then show ?thesis using l(1) start by simp
  next
    fix ys x zs
    assume f: "C b = ys @ x # zs" "nkey_of (pe_key (?es ! x)) = nkey_of key"
      "find_loop ?es key (InBucket b) (pa_buckets a ! b) =
         Some (Some x, if ys = [] then InBucket b else InEntry (last ys))"
    have "x < pa_used a" using links_to_less [OF lb(1)] f(1) by simp
    moreover have "at_link a x (Some (if ys = [] then InBucket b else InEntry (last ys)))"
      unfolding at_link_def using assms(3) n I b f(1) by auto
    ultimately show ?thesis using f(2,3) start assms(5) by auto
  qed
qed

lemma find_entry_correct:
  assumes "arr_inv env a" "key_ok env key" "nkey_of key = Some k"
  obtains l where "find_entry a key = Some (None, l)" "k \<notin> fst ` set (pa_assoc a)"
  | i l where "find_entry a key = Some (Some i, l)" "i < pa_used a"
      "nkey_of (pe_key (pa_entries a ! i)) = Some k" "at_link a i l"
proof (cases "pa_packed a")
  case True
  then show ?thesis
    using find_packed [of a env key k] assms that by (auto simp: arr_inv_def at_link_def)
next
  case False
  then show ?thesis
    using find_hashed [of a env key k] assms that by (auto simp: arr_inv_def)
qed

end
