(* ===== verification/PArrayOps.thy ===== *)
theory PArrayOps
  imports PArrayInv "HOL-Library.Multiset"
begin

text \<open>
  Functional correctness of the array operations.  The first part treats the pure edits of
  the entry vector and of the index; the second adds the memory pool, in the context of
  the allocator interface; the properties instantiate it with the pool.
\<close>

section \<open>Edits of a well-formed array\<close>

lemma keys_ok_cong:
  assumes "keys_ok env a" "map pe_key (pa_entries a') = map pe_key (pa_entries a)"
    and "map pe_value (pa_entries a') = map pe_value (pa_entries a)"
    and "pa_size a' = pa_size a" "pa_capacity a' = pa_capacity a"
  shows "keys_ok env a'" "pa_assoc a' = pa_assoc a"
proof -
  show eq: "pa_assoc a' = pa_assoc a" unfolding pa_assoc_def by (rule assoc_of_cong [OF assms(2,3)])
  have all: "(\<forall>e \<in> set (pa_entries a'). P (pe_key e)) \<longleftrightarrow> (\<forall>e \<in> set (pa_entries a). P (pe_key e))" for P
    using arg_cong [OF assms(2), of "\<lambda>ks. \<forall>k \<in> set ks. P k"] by simp
  have "length (pa_entries a') = length (pa_entries a)" using assms(2) map_eq_imp_length_eq by blast
  then show "keys_ok env a'"
    using assms(1,4,5) eq all [of "\<lambda>k. k = PNull \<or> key_ok env k"] by (simp add: keys_ok_def)
qed

lemma list_update_id_nth: "f (xs ! i) = y \<Longrightarrow> (map f xs)[i := y] = map f xs"
  by (cases "i < length xs") (auto simp: list_update_same_conv list_update_beyond)

lemma update_present_length:
  "k \<in> fst ` set xs \<Longrightarrow> length (AList.update k v xs) = length xs"
  by (induction xs) auto

lemma next_ok_cong:
  "next_ok a \<Longrightarrow> pa_assoc a' = pa_assoc a \<Longrightarrow> pa_next_index a' = pa_next_index a \<Longrightarrow> next_ok a'"
  by (simp add: next_ok_def)

lemma relinked_inv:
  fixes q :: "addr option"
  assumes K: "keys_ok env a" "next_ok a" and n: "2 ^ n \<le> UINT16_MAX"
    and l: "link_entries (2 ^ n) 0 (pa_entries a) (replicate (2 ^ n) EMPTY_BUCKET) = (es', bk')"
  defines "a' \<equiv> a\<lparr>pa_entries := es', pa_buckets_ptr := q, pa_buckets := bk',
                   pa_bucket_count := 2 ^ n, pa_packed := False\<rparr>"
  shows "arr_inv env a'" "pa_assoc a' = pa_assoc a"
proof -
  have "0 + length (pa_entries a) \<le> EMPTY_BUCKET" using used_le [OF K(1)] by (simp add: EMPTY_BUCKET_def)
  with link_entries_correct [OF indexed_empty, where n = n and es = "pa_entries a"] l obtain C' where
    e: "map pe_key es' = map pe_key (pa_entries a)" "map pe_value es' = map pe_value (pa_entries a)"
      "indexed es' (2 ^ n) bk' C'" by auto
  have k: "keys_ok env a'" and as: "pa_assoc a' = pa_assoc a"
    by (rule keys_ok_cong [OF K(1)]; simp add: a'_def e)+
  show "pa_assoc a' = pa_assoc a" by (rule as)
  have "hashed_ok a'" using e(3) n by (auto simp: hashed_ok_def a'_def)
  then show "arr_inv env a'"
    using k next_ok_cong [OF K(2) as] by (simp add: arr_inv_def) (simp add: a'_def)
qed

lemma indexed_cong:
  assumes "indexed es bc buckets C" "length es' = length es"
    and "\<And>i. i < length es \<Longrightarrow> pe_key (es' ! i) = pe_key (es ! i) \<and> pe_next (es' ! i) = pe_next (es ! i)"
  shows "indexed es' bc buckets C"
proof -
  have "links_to es' cur xs" if "links_to es cur xs" for cur xs
    by (rule links_to_cong [OF that]) (use assms links_to_less [OF that] in auto)
  moreover have "members es' bc b = members es bc b" for b
    by (rule members_cong) (use assms in auto)
  ultimately show ?thesis using assms(1) by (simp add: indexed_def)
qed

lemma assign_inv:
  fixes v :: pvalue
  assumes A: "arr_inv env a" and i: "i < pa_used a" "nkey_of (pe_key (pa_entries a ! i)) = Some k"
  defines "a' \<equiv> a\<lparr>pa_entries := (pa_entries a)[i := (pa_entries a ! i)\<lparr>pe_value := v\<rparr>]\<rparr>"
  shows "arr_inv env a'" "pa_assoc a' = AList.update k v (pa_assoc a)"
proof -
  let ?es = "(pa_entries a)[i := (pa_entries a ! i)\<lparr>pe_value := v\<rparr>]"
  have K: "keys_ok env a" using A by (simp add: arr_inv_def)
  have d: "distinct (map fst (assoc_of (pa_entries a)))" using K by (simp add: keys_ok_def pa_assoc_def)
  show as: "pa_assoc a' = AList.update k v (pa_assoc a)"
    using assoc_of_update [OF i d] by (simp add: pa_assoc_def a'_def)
  have "k \<in> fst ` set (pa_assoc a)" unfolding pa_assoc_def assoc_of_keys using i by blast
  then have keys: "fst ` set (pa_assoc a') = fst ` set (pa_assoc a)" "length (pa_assoc a') = length (pa_assoc a)"
    "distinct (map fst (pa_assoc a'))"
    using d unfolding as
    by (auto simp: dom_update insert_absorb update_present_length distinct_update pa_assoc_def)
  have same: "pe_key (?es ! j) = pe_key (pa_entries a ! j) \<and> pe_next (?es ! j) = pe_next (pa_entries a ! j)"
    if "j < pa_used a" for j using that i by (cases "j = i") simp_all
  have "\<forall>e \<in> set ?es. pe_key e = PNull \<or> key_ok env (pe_key e)"
    using K same by (metis in_set_conv_nth keys_ok_def length_list_update nth_mem)
  then have "keys_ok env a'" using K keys by (simp add: keys_ok_def a'_def)
  moreover have "next_ok a'" using A keys(1) by (simp add: arr_inv_def next_ok_def a'_def)
  moreover have "packed_ok a'" if "packed_ok a"
    using that same by (simp add: packed_ok_def a'_def del: nth_list_update)
  moreover have "hashed_ok a'" if "hashed_ok a"
    using that indexed_cong [of "pa_entries a" _ _ _ ?es] same by (fastforce simp: hashed_ok_def a'_def)
  ultimately show "arr_inv env a'" using A by (simp add: arr_inv_def) (simp add: a'_def)
qed

lemma append_inv:
  assumes A: "arr_inv env a" and k: "key_ok env key" "nkey_of key = Some k" "k \<notin> fst ` set (pa_assoc a)"
    and room: "pa_used a < pa_capacity a"
    and packed: "pa_packed a \<Longrightarrow> key = PInt (of_nat (pa_used a))"
  shows "arr_inv env (append_entry a key v)" "pa_assoc (append_entry a key v) = AList.update k v (pa_assoc a)"
    "pa_packed (append_entry a key v) = pa_packed a"
proof -
  let ?a = "append_entry a key v"
  have K: "keys_ok env a" and N: "next_ok a" using A by (simp_all add: arr_inv_def)
  define b where "b = bucket_of (pa_bucket_count a) key"
  define e where "e = \<lparr>pe_key = key, pe_value = v, pe_next = EMPTY_BUCKET\<rparr>"
  define e' where "e' = (if pa_packed a then e else e\<lparr>pe_next := pa_buckets a ! b\<rparr>)"
  have f: "pa_entries ?a = pa_entries a @ [e']" "pa_packed ?a = pa_packed a"
    "pa_size ?a = pa_size a + 1" "pa_capacity ?a = pa_capacity a"
    "pa_buckets_ptr ?a = pa_buckets_ptr a" "pa_bucket_count ?a = pa_bucket_count a"
    "pa_buckets ?a = (if pa_packed a then pa_buckets a else (pa_buckets a)[b := pa_used a])"
    by (auto simp: append_entry_def Let_def e'_def e_def b_def bucket_of_def split: pvalue.split)
  show "pa_packed ?a = pa_packed a" by (rule f(2))
  have e': "pe_key e' = key" "pe_value e' = v" by (simp_all add: e'_def e_def)
  have as: "pa_assoc ?a = pa_assoc a @ [(k, v)]" using k(2) by (simp add: pa_assoc_def f(1) e')
  then show "pa_assoc ?a = AList.update k v (pa_assoc a)" using update_absent [OF k(3)] by simp
  have "keys_ok env ?a"
    using K k room by (auto simp: keys_ok_def f as e')
  moreover have "next_ok ?a"
  proof (cases "\<exists>i. key = PInt i \<and> pa_next_index a \<le>s i \<and> i <s PPHP_INT_MAXIMUM")
    case True
    then obtain i where i: "key = PInt i" "sint (pa_next_index a) \<le> sint i" "sint i < 2147483647"
      by (auto simp: signed_order)
    then have n: "pa_next_index ?a = i + 1"
      by (simp add: append_entry_def Let_def signed_order)
    have "0 \<le> sint i" using i(2) N by (simp add: next_ok_def)
    then have "int_in_range (sint i + sint (1 :: pphp_int))" using i(3) by (simp add: int_in_range_def)
    then have s: "sint (i + 1) = sint i + 1" using sint_add32 [of i 1] by simp
    have "k = KInt i" using i(1) k(2) by simp
    then show ?thesis using N i \<open>0 \<le> sint i\<close> unfolding next_ok_def n s as by fastforce
  next
    case False
    then have n: "pa_next_index ?a = pa_next_index a"
      by (auto simp: append_entry_def Let_def split: pvalue.split)
    have "sint i < sint (pa_next_index a) \<or> i = PPHP_INT_MAXIMUM" if "k = KInt i" for i
    proof -
      have "key = PInt i" using that k(2) by (cases key) auto
      then have "\<not> (sint (pa_next_index a) \<le> sint i \<and> sint i < 2147483647)"
        using False by (auto simp: signed_order)
      moreover have "i = PPHP_INT_MAXIMUM" if "\<not> sint i < 2147483647"
        using that sint_le32 [of i] by (simp add: sint_eq_iff32 [symmetric])
      ultimately show ?thesis by linarith
    qed
    then show ?thesis using N unfolding next_ok_def n as by auto
  qed
  moreover have "packed_ok ?a" if "pa_packed a" "packed_ok a"
    using that e' packed [OF that(1)] unfolding packed_ok_def f
    by (auto simp: nth_append less_Suc_eq)
  moreover have "hashed_ok ?a" if "\<not> pa_packed a" "hashed_ok a"
  proof -
    from that(2) obtain n C where n: "pa_bucket_count a = 2 ^ n" "2 ^ n \<le> UINT16_MAX"
      "indexed (pa_entries a) (2 ^ n) (pa_buckets a) C" by (auto simp: hashed_ok_def)
    have "pe_key e \<noteq> PNull" using key_ok_not_null [OF k(1)] by (simp add: e_def)
    moreover have "pa_used a < EMPTY_BUCKET" using room K by (simp add: keys_ok_def EMPTY_BUCKET_def)
    ultimately have "indexed (pa_entries a @ [e']) (2 ^ n) ((pa_buckets a)[b := pa_used a])
        (C(b := pa_used a # C b))"
      using indexed_snoc [OF n(3), of e] that(1) n(1) by (simp add: e'_def e_def b_def)
    then show ?thesis using n that(1) by (auto simp: hashed_ok_def f)
  qed
  ultimately show "arr_inv env ?a" using A by (simp add: arr_inv_def f(2))
qed

lemma remove_inv:
  assumes A: "arr_inv env a" and np: "\<not> pa_packed a"
    and i: "i < pa_used a" "nkey_of (pe_key (pa_entries a ! i)) = Some k" "at_link a i (Some l)"
  defines "a1 \<equiv> store_link l (pe_next (pa_entries a ! i)) a"
  defines "a' \<equiv> a1\<lparr>pa_entries := (pa_entries a1)[i := tombstone], pa_size := pa_size a1 - 1\<rparr>"
  shows "arr_inv env a'" "pa_assoc a' = AList.delete k (pa_assoc a)" "\<not> pa_packed a'"
    "pa_used a' = pa_used a"
proof -
  have K: "keys_ok env a" using A by (simp add: arr_inv_def)
  have d: "distinct (map fst (assoc_of (pa_entries a)))" using K by (simp add: keys_ok_def pa_assoc_def)
  from i(3) np obtain n C b ys zs where n: "pa_bucket_count a = 2 ^ n"
    "indexed (pa_entries a) (2 ^ n) (pa_buckets a) C" "b < 2 ^ n" "C b = ys @ i # zs"
    "l = (if ys = [] then InBucket b else InEntry (last ys))" by (auto simp: at_link_def)
  have u: "(pa_entries a1, pa_buckets a1) =
      unlink b ys (pe_next (pa_entries a ! i)) (pa_entries a, pa_buckets a)"
    by (simp add: a1_def n(5) unlink_def)
  have f: "pa_packed a1 = pa_packed a" "pa_size a1 = pa_size a" "pa_capacity a1 = pa_capacity a"
    "pa_bucket_count a1 = pa_bucket_count a" "pa_next_index a1 = pa_next_index a"
    by (cases l; simp add: a1_def)+
  show "\<not> pa_packed a'" using np by (simp add: a'_def f)
  have len: "length (pa_entries a1) = length (pa_entries a)"
    by (cases l) (simp_all add: a1_def)
  then show "pa_used a' = pa_used a" by (simp add: a'_def)
  have kv: "map pe_key (pa_entries a1) = map pe_key (pa_entries a)"
    "map pe_value (pa_entries a1) = map pe_value (pa_entries a)"
    by (cases l; simp add: a1_def map_update list_update_id_nth)+
  have K1: "keys_ok env a1" and as1: "pa_assoc a1 = pa_assoc a"
    by (rule keys_ok_cong [OF K kv f(2,3)])+
  have key1: "nkey_of (pe_key (pa_entries a1 ! i)) = Some k"
    using i len kv(1) by (metis nth_map)
  have d1: "distinct (map fst (assoc_of (pa_entries a1)))" using d as1 by (simp add: pa_assoc_def)
  have i1: "i < length (pa_entries a1)" using i(1) len by simp
  show as: "pa_assoc a' = AList.delete k (pa_assoc a)"
    using assoc_of_delete [OF i1 key1 d1] as1 by (simp add: pa_assoc_def a'_def)
  have split: "pa_assoc a1 = assoc_of (take i (pa_entries a1)) @
      (k, pe_value (pa_entries a1 ! i)) # assoc_of (drop (Suc i) (pa_entries a1))"
    "pa_assoc a' = assoc_of (take i (pa_entries a1)) @ assoc_of (drop (Suc i) (pa_entries a1))"
    using assoc_of_split [OF i1 key1 d1]
    by (simp_all add: pa_assoc_def a'_def upd_conv_take_nth_drop [OF i1] tombstone_def)
  have "keys_ok env a'"
    unfolding keys_ok_def
  proof (intro conjI ballI)
    fix e
    assume "e \<in> set (pa_entries a')"
    then have "e \<in> insert tombstone (set (pa_entries a1))"
      using set_update_subset_insert [of "pa_entries a1" i tombstone] by (auto simp: a'_def)
    then show "pe_key e = PNull \<or> key_ok env (pe_key e)"
      using K1 by (auto simp: keys_ok_def tombstone_def)
  next
    show "distinct (map fst (pa_assoc a'))" using K1 unfolding keys_ok_def split by auto
    show "pa_size a' = length (pa_assoc a')"
    proof -
      have "pa_size a' = pa_size a1 - 1" by (simp add: a'_def)
      also have "pa_size a1 = length (pa_assoc a1)" using K1 by (simp add: keys_ok_def)
      finally show ?thesis by (simp add: split)
    qed
    show "pa_used a' \<le> pa_capacity a'" "pa_capacity a' \<le> UINT16_MAX"
      using K1 by (simp_all add: keys_ok_def a'_def)
  qed
  moreover have "next_ok a'"
  proof -
    have "fst ` set (pa_assoc a') \<subseteq> fst ` set (pa_assoc a)" unfolding as1 [symmetric] split by auto
    then show ?thesis using A by (auto simp: arr_inv_def next_ok_def a'_def f)
  qed
  moreover have "hashed_ok a'"
    using indexed_unlink [OF n(2-4) u] n(1) A np
    by (auto simp: hashed_ok_def a'_def f arr_inv_def)
  ultimately show "arr_inv env a'" using np by (simp add: arr_inv_def) (simp add: a'_def f)
qed

lemma grow_inv:
  assumes "arr_inv env a" "pa_capacity a \<le> c" "c \<le> UINT16_MAX"
  shows "arr_inv env (a\<lparr>pa_entries_ptr := q, pa_capacity := c\<rparr>)"
    "pa_assoc (a\<lparr>pa_entries_ptr := q, pa_capacity := c\<rparr>) = pa_assoc a"
  using assms by (auto simp: arr_inv_def keys_ok_def next_ok_def packed_ok_def hashed_ok_def pa_assoc_def)

section \<open>References held by an array\<close>

text \<open>
  The references an array holds, as a multiset, and those that an event list acquires and
  gives up.
\<close>

definition entry_refs :: "pentry \<Rightarrow> pvalue multiset" where
  "entry_refs e = (if pe_key e \<noteq> PNull then {#pe_key e, pe_value e#} else {#})"

definition refs :: "parray \<Rightarrow> pvalue multiset" where
  "refs a = sum_list (map entry_refs (pa_entries a))"

fun gains :: "rc_event list \<Rightarrow> pvalue multiset" where
  "gains [] = {#}"
| "gains (Create v # ev) = add_mset v (gains ev)"
| "gains (Retain v # ev) = add_mset v (gains ev)"
| "gains (Release v # ev) = gains ev"

fun losses :: "rc_event list \<Rightarrow> pvalue multiset" where
  "losses [] = {#}"
| "losses (Release v # ev) = add_mset v (losses ev)"
| "losses (_ # ev) = losses ev"

lemma gains_append [simp]: "gains (ev @ ev') = gains ev + gains ev'"
  by (induction ev rule: gains.induct) auto

lemma losses_append [simp]: "losses (ev @ ev') = losses ev + losses ev'"
  by (induction ev rule: losses.induct) auto

lemma entry_refs_retained: "gains (retain_entries es) = sum_list (map entry_refs es)"
  "losses (retain_entries es) = {#}"
  by (induction es) (simp_all add: retain_entries_def entry_refs_def)

lemma entry_refs_released: "losses (release_entries es) = sum_list (map entry_refs es)"
  "gains (release_entries es) = {#}"
  by (induction es) (simp_all add: release_entries_def entry_refs_def)

lemma temporary_balance [simp]:
  "gains (temporary_created t k) = losses (release_temporary t k)"
  "losses (temporary_created t k) = {#}" "gains (release_temporary t k) = {#}"
  by (simp_all add: temporary_created_def release_temporary_def)

lemma entry_refs_update:
  assumes "i < length es"
  shows "sum_list (map entry_refs (es[i := e])) + entry_refs (es ! i) =
    sum_list (map entry_refs es) + entry_refs e"
proof -
  have "sum_list (map entry_refs es) = sum_list (map entry_refs (take i es @ es ! i # drop (Suc i) es))"
    using id_take_nth_drop [OF assms] by simp
  then show ?thesis unfolding upd_conv_take_nth_drop [OF assms] by (simp add: ac_simps)
qed

lemma entry_refs_cong:
  assumes "map pe_key es' = map pe_key es" "map pe_value es' = map pe_value es"
  shows "sum_list (map entry_refs es') = sum_list (map entry_refs es)"
proof -
  have "map entry_refs es' = map entry_refs es"
  proof (rule nth_equalityI)
    show "length (map entry_refs es') = length (map entry_refs es)"
      using assms(1) map_eq_imp_length_eq by fastforce
    fix i
    assume "i < length (map entry_refs es')"
    then have "pe_key (es' ! i) = pe_key (es ! i)" "pe_value (es' ! i) = pe_value (es ! i)" "i < length es"
      using assms by (metis length_map nth_map)+
    then show "map entry_refs es' ! i = map entry_refs es ! i"
      using \<open>i < length (map entry_refs es')\<close> by (simp add: entry_refs_def)
  qed
  then show ?thesis by simp
qed

section \<open>Heap ownership\<close>

definition owns :: "(addr \<Rightarrow> nat option) \<Rightarrow> addr set \<Rightarrow> (addr \<Rightarrow> nat option) \<Rightarrow> bool" where
  "owns base S l \<longleftrightarrow> (\<forall>x. x \<notin> S \<longrightarrow> l x = base x) \<and> (\<forall>x \<in> S. l x \<noteq> None \<and> base x = None)"

lemma owns_alloc:
  "owns base S l \<Longrightarrow> l p = None \<Longrightarrow> owns base (insert p S) (l(p \<mapsto> m)) \<and> p \<notin> S \<and> base p = None"
  by (auto simp: owns_def)

lemma owns_free: "owns base S l \<Longrightarrow> p \<in> S \<Longrightarrow> owns base (S - {p}) (l(p := None))"
  by (auto simp: owns_def)

lemma owns_base:
  "owns base S l \<Longrightarrow> l p = None \<Longrightarrow> owns (base(p \<mapsto> m)) S (l(p \<mapsto> m)) \<and> p \<notin> S \<and> base p = None"
  by (auto simp: owns_def)

lemma owns_live: "owns base S l \<Longrightarrow> p \<in> S \<Longrightarrow> \<exists>m. l p = Some m"
  by (auto simp: owns_def)

lemma owns_dom: "owns base S l \<Longrightarrow> dom base \<subseteq> dom l"
  unfolding owns_def dom_def by fastforce

definition ptrs :: "parray \<Rightarrow> addr list" where
  "ptrs a = pa_addr a # (case pa_entries_ptr a of None \<Rightarrow> [] | Some p \<Rightarrow> [p]) @
     (case pa_buckets_ptr a of None \<Rightarrow> [] | Some p \<Rightarrow> [p])"

definition array_heap :: "(addr \<Rightarrow> nat option) \<Rightarrow> parray \<Rightarrow> (addr \<Rightarrow> nat option) \<Rightarrow> bool" where
  "array_heap base a l \<longleftrightarrow> distinct (ptrs a) \<and> owns base (set (ptrs a)) l"

definition norm_key :: "pvalue \<Rightarrow> nkey option" where
  "norm_key input =
     (case input of
        PInt i \<Rightarrow> Some (KInt i) | PFloat f \<Rightarrow> map_option KInt (float_key f)
      | PTrue \<Rightarrow> Some (KInt 1) | PFalse \<Rightarrow> Some (KInt 0) | PNull \<Rightarrow> Some (KStr [])
      | PString s \<Rightarrow> (case numeric_string_key (ps_data s) of
                       Some i \<Rightarrow> Some (KInt i) | None \<Rightarrow> Some (KStr (ps_data s)))
      | _ \<Rightarrow> None)"

lemma arr_inv_mono: "env \<subseteq>\<^sub>m env' \<Longrightarrow> arr_inv env a \<Longrightarrow> arr_inv env' a"
  using key_ok_mono by (auto simp: arr_inv_def keys_ok_def)

definition array_wf :: "strings \<Rightarrow> (addr \<Rightarrow> nat option) \<Rightarrow> parray \<Rightarrow> (addr \<Rightarrow> nat option) \<Rightarrow> bool" where
  "array_wf env base a l \<longleftrightarrow> arr_inv env a \<and> array_heap base a l \<and> dom env \<subseteq> dom base"

context allocator
begin

lemma ensure_entries_ok:
  assumes inv: "heap_inv h" and hold: "array_heap base a (live h)"
    and req: "3000000 \<le> max_request" and min: "0 < minimum"
  obtains ok a' h' where "ensure_entries ops a minimum h = (ok, a', h')" "heap_inv h'"
    "array_heap base a' (live h')" "ok \<Longrightarrow> minimum \<le> pa_capacity a'"
    "a' = a \<or> (\<exists>p c. a' = a\<lparr>pa_entries_ptr := Some p, pa_capacity := c\<rparr> \<and>
        pa_capacity a \<le> c \<and> c \<le> UINT16_MAX)"
proof (cases "minimum \<le> pa_capacity a")
  case True
  then show ?thesis using that [of True a h] inv hold by (simp add: ensure_entries_def)
next
  case False
  define c where "c = (let capacity = (if pa_capacity a = 0 then 8 else pa_capacity a * 2)
    in if capacity < minimum then minimum else capacity)"
  have def: "ensure_entries ops a minimum h =
      (if UINT16_MAX < c then (False, a, h)
       else case h_realloc ops (pa_entries_ptr a) (c * sizeof_pentry) h of
              (None, h) \<Rightarrow> (False, a, h)
            | (Some p, h) \<Rightarrow> (True, a\<lparr>pa_entries_ptr := Some p, pa_capacity := c\<rparr>, h))"
    using False unfolding ensure_entries_def Let_def c_def by (simp only: if_False)
  show ?thesis
  proof (cases "UINT16_MAX < c")
    case True
    then have "ensure_entries ops a minimum h = (False, a, h)"
      by (simp add: def)
    then show ?thesis using that [of False a h] inv hold by simp
  next
    case small: False
    have n: "0 < c * sizeof_pentry" "c * sizeof_pentry \<le> max_request"
      using small min req by (auto simp: c_def sizeof_pentry_def UINT16_MAX_def Let_def)
    have c: "minimum \<le> c" "pa_capacity a \<le> c" "c \<le> UINT16_MAX" using small by (auto simp: c_def Let_def)
    obtain q h1 where r: "h_realloc ops (pa_entries_ptr a) (c * sizeof_pentry) h = (q, h1)"
      by (cases "h_realloc ops (pa_entries_ptr a) (c * sizeof_pentry) h")
    have eq: "ensure_entries ops a minimum h =
        (case q of None \<Rightarrow> (False, a, h1)
         | Some p \<Rightarrow> (True, a\<lparr>pa_entries_ptr := Some p, pa_capacity := c\<rparr>, h1))"
      using small r by (simp add: def)
    have own: "distinct (ptrs a)" "owns base (set (ptrs a)) (live h)" using hold by (simp_all add: array_heap_def)
    show ?thesis
    proof (cases "pa_entries_ptr a")
      case None
      then have a: "h_alloc ops (c * sizeof_pentry) h = (q, h1)" using r realloc_null by simp
      from inv n(2) a show ?thesis
      proof (cases rule: alloc_cases)
        case 1
        then show ?thesis using that [of False a h] eq inv hold by simp
      next
        case (2 p m)
        let ?a = "a\<lparr>pa_entries_ptr := Some p, pa_capacity := c\<rparr>"
        have "set (ptrs ?a) = insert p (set (ptrs a))" using None by (auto simp: ptrs_def)
        moreover have "distinct (ptrs ?a) \<longleftrightarrow> distinct (p # ptrs a)" using None by (auto simp: ptrs_def)
        ultimately have H: "array_heap base ?a (live h1)"
          using owns_alloc [OF own(2) 2(3), of m] own(1) 2(5) by (simp add: array_heap_def)
        have E: "ensure_entries ops a minimum h = (True, ?a, h1)" by (simp add: eq 2(1))
        have X: "\<exists>p c'. ?a = a\<lparr>pa_entries_ptr := Some p, pa_capacity := c'\<rparr> \<and>
            pa_capacity a \<le> c' \<and> c' \<le> UINT16_MAX" using c by blast
        show ?thesis by (rule that [OF E 2(2) H _ disjI2 [OF X]]) (simp add: c(1))
      qed
    next
      case (Some p0)
      then have p0: "p0 \<in> set (ptrs a)" by (simp add: ptrs_def)
      then obtain m0 where m0: "live h p0 = Some m0" using owns_live [OF own(2)] by blast
      show ?thesis
      proof (cases q)
        case None
        then have "h1 = h" using realloc_fail [OF inv m0 n(1)] r Some by simp
        then show ?thesis using that [of False a h] eq inv hold None by simp
      next
        case q: (Some p)
        from realloc_ok [OF inv m0 n, of p h1] r Some q obtain k where
          R: "heap_inv h1" "p = p0 \<or> live h p = None" "live h1 = ((live h)(p0 := None))(p \<mapsto> k)" by auto
        let ?a = "a\<lparr>pa_entries_ptr := Some p, pa_capacity := c\<rparr>"
        have "set (ptrs ?a) = insert p (set (ptrs a) - {p0})"
          using Some own(1) by (auto simp: ptrs_def split: option.splits)
        moreover have "p = p0 \<or> p \<notin> set (ptrs a)" using R(2) owns_live [OF own(2), of p] by auto
        then have "distinct (ptrs ?a)" using Some own(1) by (auto simp: ptrs_def split: option.splits)
        moreover have "((live h)(p0 := None)) p = None" using R(2) by (cases "p = p0") simp_all
        then have "owns base (insert p (set (ptrs a) - {p0})) (live h1)"
          using owns_alloc [OF owns_free [OF own(2) p0], of p k] unfolding R(3) by blast
        ultimately have H: "array_heap base ?a (live h1)" by (simp add: array_heap_def)
        have E: "ensure_entries ops a minimum h = (True, ?a, h1)" by (simp add: eq q)
        have X: "\<exists>p c'. ?a = a\<lparr>pa_entries_ptr := Some p, pa_capacity := c'\<rparr> \<and>
            pa_capacity a \<le> c' \<and> c' \<le> UINT16_MAX" using c by blast
        show ?thesis by (rule that [OF E R(1) H _ disjI2 [OF X]]) (simp add: c(1))
      qed
    qed
  qed
qed

lemma rehash_ok:
  assumes inv: "heap_inv h" and hold: "array_heap base a (live h)" and K: "keys_ok env a" "next_ok a"
    and req: "3000000 \<le> max_request" and bc: "(if bc < 8 then 8 else bc) = 2 ^ n"
  obtains "rehash ops a bc h = (False, a, h)"
  | a' h' where "rehash ops a bc h = (True, a', h')" "heap_inv h'" "array_heap base a' (live h')"
      "arr_inv env a'" "pa_assoc a' = pa_assoc a" "\<not> pa_packed a'" "pa_bucket_count a' = 2 ^ n"
      "pa_used a' = pa_used a" "pa_capacity a' = pa_capacity a" "pa_next_index a' = pa_next_index a"
      "pa_size a' = pa_size a" "refs a' = refs a" "pa_addr a' = pa_addr a"
proof (cases "UINT16_MAX < (2 :: nat) ^ n")
  case True
  then show ?thesis using that(1) bc by (simp add: rehash_def Let_def)
next
  case False
  then have small: "(2 :: nat) ^ n * 2 \<le> max_request" "(2 :: nat) ^ n \<le> UINT16_MAX"
    using req by (simp_all add: UINT16_MAX_def)
  obtain q h1 where al: "h_alloc ops (2 ^ n * 2) h = (q, h1)" by (cases "h_alloc ops (2 ^ n * 2) h")
  have own: "distinct (ptrs a)" "owns base (set (ptrs a)) (live h)" using hold by (simp_all add: array_heap_def)
  from inv small(1) al show ?thesis
  proof (cases rule: alloc_cases)
    case 1
    then show ?thesis using that(1) al bc False by (simp add: rehash_def Let_def)
  next
    case (2 p m)
    obtain es' bk' where l: "link_entries (2 ^ n) 0 (pa_entries a) (replicate (2 ^ n) EMPTY_BUCKET) = (es', bk')"
      by (cases "link_entries (2 ^ n) 0 (pa_entries a) (replicate (2 ^ n) EMPTY_BUCKET)")
    let ?a = "a\<lparr>pa_entries := es', pa_buckets_ptr := Some p, pa_buckets := bk',
               pa_bucket_count := 2 ^ n, pa_packed := False\<rparr>"
    let ?h = "h_free ops (pa_buckets_ptr a) h1"
    have eq: "rehash ops a bc h = (True, ?a, ?h)"
      using al 2 l bc False by (simp add: rehash_def Let_def)
    have "0 + length (pa_entries a) \<le> EMPTY_BUCKET" using used_le [OF K(1)] by (simp add: EMPTY_BUCKET_def)
    with link_entries_correct [OF indexed_empty, where n = n and es = "pa_entries a"] l have
      e: "length es' = length (pa_entries a)" "map pe_key es' = map pe_key (pa_entries a)"
        "map pe_value es' = map pe_value (pa_entries a)" by auto
    note grown = owns_alloc [OF own(2) 2(3), of m, folded 2(5)]
    have h: "heap_inv ?h \<and> array_heap base ?a (live ?h)"
    proof (cases "pa_buckets_ptr a")
      case None
      then have "set (ptrs ?a) = insert p (set (ptrs a))" "distinct (ptrs ?a) \<longleftrightarrow> distinct (p # ptrs a)"
        by (auto simp: ptrs_def)
      then show ?thesis using None 2(2) grown own(1) by (simp add: array_heap_def free_null)
    next
      case (Some p0)
      then have p0: "p0 \<in> insert p (set (ptrs a))" by (simp add: ptrs_def)
      then obtain m0 where m0: "live h1 p0 = Some m0" using owns_live grown by blast
      have "p0 \<noteq> p" using Some grown by (auto simp: ptrs_def)
      then have "set (ptrs ?a) = insert p (set (ptrs a)) - {p0}"
        using Some own(1) grown by (auto simp: ptrs_def split: option.splits)
      moreover have "distinct (ptrs ?a)"
        using Some own(1) grown by (auto simp: ptrs_def split: option.splits)
      ultimately show ?thesis
        using free_ok [OF 2(2) m0] owns_free [OF _ p0] grown Some by (simp add: array_heap_def)
    qed
    note R = relinked_inv [OF K small(2) l, of "Some p"]
    show ?thesis
      by (rule that(2) [OF eq]) (use h R e entry_refs_cong [OF e(2,3)] in \<open>simp_all add: refs_def\<close>)
  qed
qed

text \<open>Normalising a key; a temporary key is the only new block.\<close>

lemma normalize_key_ok:
  assumes inv: "heap_inv h" and wf: "array_wf env base a (live h)" and known: "known env input"
    and req: "3000000 \<le> max_request"
  obtains "normalize_key ops input h = (None, h)" "norm_key input = None \<or> input = PNull"
  | key temporary h' env' base' k where "normalize_key ops input h = (Some (key, temporary), h')"
      "heap_inv h'" "array_wf env' base' a (live h')" "key_ok env' key"
      "nkey_of key = Some k" "norm_key input = Some k" "env \<subseteq>\<^sub>m env'" "base \<subseteq>\<^sub>m base'"
      "input \<noteq> PNull \<Longrightarrow> env' = env \<and> base' = base"
proof (cases "input = PNull")
  case True
  have n: "sizeof_pstring + PPHP_STR_MAX + 1 \<le> max_request"
    using req by (simp add: sizeof_pstring_def PPHP_STR_MAX_def)
  obtain r h1 where r: "ps_new ops [] h = (r, h1)" by (cases "ps_new ops [] h")
  from inv n r show ?thesis
  proof (cases rule: ps_new_cases)
    case 1
    then show ?thesis using that(1) True r by (simp add: normalize_key_def)
  next
    case (2 s m)
    let ?env = "env(ps_addr s \<mapsto> s)" and ?base = "base(ps_addr s \<mapsto> m)"
    have own: "owns base (set (ptrs a)) (live h)" and d: "dom env \<subseteq> dom base"
      using wf by (simp_all add: array_wf_def array_heap_def)
    note O = owns_base [OF own 2(7), of m]
    have env: "env (ps_addr s) = None" using O d by (metis domI domIff subsetD option.exhaust)
    then have le: "env \<subseteq>\<^sub>m ?env" "base \<subseteq>\<^sub>m ?base" using O by (auto simp: map_le_def)
    have "arr_inv ?env a" using wf arr_inv_mono [OF le(1)] by (simp add: array_wf_def)
    then have wf': "array_wf ?env ?base a (live h1)"
      using O wf d 2(8) by (auto simp: array_wf_def array_heap_def)
    show ?thesis
      by (rule that(2) [of "PString s" True h1 ?env ?base "KStr []"])
        (use True r 2 wf' le in \<open>simp_all add: normalize_key_def norm_key_def numeric_string_key_def\<close>)
  qed
next
  case False
  note found = that(2)
  have keep: thesis if "normalize_key ops input h = (Some (key, False), h)" "key_ok env key"
    "nkey_of key = Some k" "norm_key input = Some k" for key k
    by (rule found [OF that(1) inv wf that(2-4)]) simp_all
  show ?thesis
  proof (cases input)
    case (PString s)
    then show ?thesis
      using keep known by (cases "numeric_string_key (ps_data s)")
        (auto simp: normalize_key_def norm_key_def)
  next
    case (PFloat f)
    then show ?thesis
      using keep that(1) by (cases "float_key f") (auto simp: normalize_key_def norm_key_def)
  qed (use keep that(1) False in \<open>auto simp: normalize_key_def norm_key_def\<close>)
qed

lemma promote_bucket_count:
  obtains n where "(if double_until 8 t < 8 then 8 else double_until 8 t) = 2 ^ n"
proof -
  have "\<exists>n. double_until (2 ^ k) t = 2 ^ n \<and> k \<le> n" for k
  proof (induction "t - 2 ^ k" arbitrary: k rule: less_induct)
    case less
    show ?case
    proof (cases "2 ^ k < t")
      case True
      have "(2 :: nat) ^ k < 2 ^ Suc k" by simp
      with True have "t - 2 ^ Suc k < t - 2 ^ k" by linarith
      from less [OF this] obtain n where "double_until (2 ^ Suc k) t = 2 ^ n" "Suc k \<le> n" by blast
      then show ?thesis using True
        by (intro exI [of _ n]) (simp add: double_until.simps [of "2 ^ k" t] mult.commute)
    next
      case False
      then show ?thesis by (auto simp: double_until.simps [of "2 ^ k" t])
    qed
  qed
  from this [of 3] obtain n where "double_until 8 t = 2 ^ n" "3 \<le> n" by auto
  moreover have "(8 :: nat) \<le> 2 ^ n" using power_increasing [OF \<open>3 \<le> n\<close>, of "2 :: nat"] by simp
  ultimately show ?thesis using that [of n] by simp
qed

text \<open>Each growth step keeps the contents, whether it succeeds or not.\<close>

lemma rehash_step:
  assumes "heap_inv h" "array_wf env base a (live h)" "3000000 \<le> max_request"
    and "(if bc < 8 then 8 else bc) = 2 ^ n"
  obtains ok a' h' where "rehash ops a bc h = (ok, a', h')" "heap_inv h'" "array_wf env base a' (live h')"
    "pa_assoc a' = pa_assoc a" "refs a' = refs a" "pa_used a' = pa_used a" "ok \<Longrightarrow> \<not> pa_packed a'"
    "pa_next_index a' = pa_next_index a"
proof -
  have h: "array_heap base a (live h)" "keys_ok env a" "next_ok a"
    using assms(2) by (simp_all add: array_wf_def arr_inv_def)
  from assms(1) h assms(3,4) show ?thesis
  proof (cases rule: rehash_ok)
    case 1
    then show ?thesis using that [OF 1 assms(1,2)] by simp
  next
    case (2 a' h')
    then show ?thesis using that [OF 2(1)] assms(2) by (simp add: array_wf_def)
  qed
qed

lemma promote_step:
  assumes "heap_inv h" "array_wf env base a (live h)" "3000000 \<le> max_request"
  obtains ok a' h' where "promote_hash ops a h = (ok, a', h')" "heap_inv h'" "array_wf env base a' (live h')"
    "pa_assoc a' = pa_assoc a" "refs a' = refs a" "pa_used a' = pa_used a" "ok \<Longrightarrow> \<not> pa_packed a'"
    "pa_next_index a' = pa_next_index a"
proof -
  obtain n where n: "(if double_until 8 (pa_size a * 2) < 8 then 8 else double_until 8 (pa_size a * 2)) = 2 ^ n"
    by (rule promote_bucket_count)
  show ?thesis
    by (rule rehash_step [OF assms n]) (rule that [unfolded promote_hash_def])
qed

lemma overload_step:
  assumes "heap_inv h" "array_wf env base a (live h)" "3000000 \<le> max_request" "\<not> pa_packed a"
  obtains ok a' h' where "rehash ops a (pa_bucket_count a * 2) h = (ok, a', h')" "heap_inv h'"
    "array_wf env base a' (live h')"
    "pa_assoc a' = pa_assoc a" "refs a' = refs a" "pa_used a' = pa_used a" "ok \<Longrightarrow> \<not> pa_packed a'"
    "pa_next_index a' = pa_next_index a"
proof -
  from assms(2,4) obtain n where n: "pa_bucket_count a = 2 ^ n"
    by (auto simp: array_wf_def arr_inv_def hashed_ok_def)
  have "\<exists>m. (if pa_bucket_count a * 2 < 8 then 8 else pa_bucket_count a * 2) = 2 ^ m"
  proof (cases "pa_bucket_count a * 2 < 8")
    case True
    then show ?thesis by (intro exI [of _ 3]) simp
  next
    case False
    then show ?thesis using n by (intro exI [of _ "Suc n"]) simp
  qed
  then obtain m where "(if pa_bucket_count a * 2 < 8 then 8 else pa_bucket_count a * 2) = 2 ^ m" by blast
  from rehash_step [OF assms(1-3) this] that show ?thesis by metis
qed

lemma ensure_step:
  assumes "heap_inv h" "array_wf env base a (live h)" "3000000 \<le> max_request" "0 < minimum"
  obtains ok a' h' where "ensure_entries ops a minimum h = (ok, a', h')" "heap_inv h'"
    "array_wf env base a' (live h')"
    "pa_assoc a' = pa_assoc a" "refs a' = refs a" "pa_used a' = pa_used a" "pa_packed a' = pa_packed a"
    "ok \<Longrightarrow> minimum \<le> pa_capacity a'" "pa_next_index a' = pa_next_index a"
proof -
  have h: "array_heap base a (live h)" using assms(2) by (simp add: array_wf_def)
  from assms(1) h assms(3,4) show ?thesis
  proof (cases rule: ensure_entries_ok)
    case (1 ok a' h')
    from 1(5) have "arr_inv env a' \<and> pa_assoc a' = pa_assoc a \<and> refs a' = refs a \<and>
        pa_used a' = pa_used a \<and> pa_packed a' = pa_packed a \<and> pa_next_index a' = pa_next_index a"
      using grow_inv [of env a] assms(2) by (auto simp: array_wf_def refs_def)
    with 1 assms(2) show ?thesis using that [OF 1(1)] by (simp add: array_wf_def)
  qed
qed

lemma ptrs_cong:
  "pa_addr a' = pa_addr a \<Longrightarrow> pa_entries_ptr a' = pa_entries_ptr a \<Longrightarrow>
     pa_buckets_ptr a' = pa_buckets_ptr a \<Longrightarrow> ptrs a' = ptrs a"
  by (simp add: ptrs_def)

lemma append_entry_frame:
  "ptrs (append_entry a key v) = ptrs a"
  "map pe_key (pa_entries (append_entry a key v)) = map pe_key (pa_entries a) @ [key]"
  "map pe_value (pa_entries (append_entry a key v)) = map pe_value (pa_entries a) @ [v]"
  by (auto simp: append_entry_def Let_def ptrs_def split: pvalue.split)

lemma pa_store_ok:
  assumes inv: "heap_inv h" and wf: "array_wf env base a (live h)" and req: "3000000 \<le> max_request"
    and key: "key_ok env key" "nkey_of key = Some k"
  shows "\<exists>ok a' ev h'. pa_store ops a v key h = Some (ok, a', ev, h') \<and> heap_inv h' \<and>
    array_wf env base a' (live h') \<and> refs a' + losses ev = refs a + gains ev \<and>
    pa_assoc a' = (if ok then AList.update k v (pa_assoc a) else pa_assoc a)"
proof -
  have A: "arr_inv env a" using wf by (simp add: array_wf_def)
  from A key show ?thesis
  proof (cases rule: find_entry_correct)
    case (2 i l)
    let ?e = "pa_entries a ! i"
    let ?a = "a\<lparr>pa_entries := (pa_entries a)[i := ?e\<lparr>pe_value := v\<rparr>]\<rparr>"
    have nn: "pe_key ?e \<noteq> PNull" using 2(3) by auto
    have "refs ?a + {#pe_value ?e#} = refs a + {#v#}"
      using entry_refs_update [OF 2(2), of "?e\<lparr>pe_value := v\<rparr>"] nn
      by (simp add: refs_def entry_refs_def)
    moreover have "array_wf env base ?a (live h)"
      using assign_inv(1) [OF A 2(2,3), of v] wf by (simp add: array_wf_def array_heap_def ptrs_def)
    ultimately show ?thesis
      using assign_inv(2) [OF A 2(2,3), of v] 2(1,2) inv
      by (intro exI [of _ True]) (simp add: pa_store_def)
  next
    case (1 l)
    let ?promote = "pa_packed a \<and> \<not> (case key of PInt i \<Rightarrow> sint i = int (pa_used a) | _ \<Rightarrow> False)"
    obtain ok1 a1 h1 where s1: "(if ?promote then promote_hash ops a h else (True, a, h)) = (ok1, a1, h1)"
      "heap_inv h1" "array_wf env base a1 (live h1)" "pa_assoc a1 = pa_assoc a" "refs a1 = refs a"
      "pa_used a1 = pa_used a" "ok1 \<Longrightarrow> ?promote \<Longrightarrow> \<not> pa_packed a1" "\<not> ?promote \<Longrightarrow> a1 = a"
      by (rule promote_step [OF inv wf req], cases ?promote) (use inv wf in auto)
    show ?thesis
    proof (cases ok1)
      case False
      then show ?thesis using 1 s1 by (intro exI [of _ False]) (simp add: pa_store_def)
    next
      case ok1: True
      let ?over = "\<not> pa_packed a1 \<and> pa_bucket_count a1 * 3 < (pa_size a1 + 1) * 4"
      obtain ok2 a2 h2 where s2: "(if ?over then rehash ops a1 (pa_bucket_count a1 * 2) h1 else (True, a1, h1)) = (ok2, a2, h2)"
        "heap_inv h2" "array_wf env base a2 (live h2)" "pa_assoc a2 = pa_assoc a1" "refs a2 = refs a1"
        "pa_used a2 = pa_used a1" "ok2 \<Longrightarrow> ?over \<Longrightarrow> \<not> pa_packed a2" "\<not> ?over \<Longrightarrow> a2 = a1"
      proof (cases ?over)
        case True
        from True have np: "\<not> pa_packed a1" by blast
        show ?thesis
        proof (rule overload_step [OF s1(2,3) req np])
          fix ok a' h'
          assume "rehash ops a1 (pa_bucket_count a1 * 2) h1 = (ok, a', h')" "heap_inv h'"
            "array_wf env base a' (live h')" "pa_assoc a' = pa_assoc a1" "refs a' = refs a1"
            "pa_used a' = pa_used a1" "ok \<Longrightarrow> \<not> pa_packed a'"
          with True show ?thesis using that [of ok a' h'] by simp
        qed
      next
        case False
        then show ?thesis using that [of True a1 h1] s1(2,3) by auto
      qed
      show ?thesis
      proof (cases ok2)
        case False
        then show ?thesis using 1 s1 ok1 s2 by (intro exI [of _ False]) (simp add: pa_store_def)
      next
        case ok2: True
        obtain ok3 a3 h3 where s3: "ensure_entries ops a2 (pa_used a2 + 1) h2 = (ok3, a3, h3)"
          "heap_inv h3" "array_wf env base a3 (live h3)" "pa_assoc a3 = pa_assoc a2" "refs a3 = refs a2"
          "pa_used a3 = pa_used a2" "pa_packed a3 = pa_packed a2" "ok3 \<Longrightarrow> pa_used a2 + 1 \<le> pa_capacity a3"
          by (rule ensure_step [OF s2(2,3) req, of "pa_used a2 + 1"]) auto
        have run: "pa_store ops a v key h = (if ok3 then Some (True, append_entry a3 key v, [Retain key, Retain v], h3)
            else Some (False, a3, [], h3))"
          using 1 s1(1) ok1 s2(1) ok2 s3(1) by (simp add: pa_store_def)
        show ?thesis
        proof (cases ok3)
          case False
          then show ?thesis using run s1 s2 s3 by (intro exI [of _ False]) simp
        next
          case ok3: True
          have as: "pa_assoc a3 = pa_assoc a" using s1 s2 s3 by simp
          have packed: "key = PInt (of_nat (pa_used a3))" if "pa_packed a3"
          proof -
            have "pa_packed a2" using that s3(7) by simp
            then have "pa_packed a1" using s2(7,8) ok2 by (cases ?over) auto
            then have "\<not> ?promote" "pa_packed a" using s1(7,8) ok1 by (cases ?promote; auto)+
            then obtain i where i: "key = PInt i" "sint i = int (pa_used a)" by (cases key) auto
            have "pa_used a \<le> UINT16_MAX" using A used_le by (auto simp: arr_inv_def)
            then have "i = of_nat (pa_used a)"
              using i(2) sint_of_nat16(1) by (simp add: sint_eq_iff32 [symmetric])
            then show ?thesis using i(1) s1(6) s2(6) s3(6) by simp
          qed
          have A3: "arr_inv env a3" using s3(3) by (simp add: array_wf_def)
          note app = append_inv [OF A3 key _ _ packed, of v]
          have k: "k \<notin> fst ` set (pa_assoc a3)" "pa_used a3 < pa_capacity a3"
            using 1(2) as s3(6,8) ok3 by simp_all
          have r: "refs (append_entry a3 key v) = refs a3 + {#key, v#}"
          proof -
            have "refs (append_entry a3 key v) = sum_list (map entry_refs (pa_entries a3 @
                [\<lparr>pe_key = key, pe_value = v, pe_next = 0\<rparr>]))"
              unfolding refs_def
              by (rule entry_refs_cong) (simp_all add: append_entry_frame)
            then show ?thesis using key_ok_not_null [OF key(1)] by (simp add: refs_def entry_refs_def)
          qed
          have "array_wf env base (append_entry a3 key v) (live h3)"
            using app(1) [OF k] s3(3) by (simp add: array_wf_def array_heap_def append_entry_frame(1))
          then show ?thesis
            using run ok3 s3(2) app(2) [OF k] as r s1(5) s2(5) s3(5)
            by (intro exI [of _ True]) simp
        qed
      qed
    qed
  qed
qed

lemma pa_delete_ok:
  assumes inv: "heap_inv h" and wf: "array_wf env base a (live h)" and req: "3000000 \<le> max_request"
    and key: "key_ok env key" "nkey_of key = Some k"
  shows "\<exists>ok a' ev h'. pa_delete ops a key h = Some (ok, a', ev, h') \<and> heap_inv h' \<and>
    array_wf env base a' (live h') \<and> refs a' + losses ev = refs a + gains ev \<and>
    (ok \<longrightarrow> k \<in> fst ` set (pa_assoc a)) \<and>
    pa_assoc a' = (if ok then AList.delete k (pa_assoc a) else pa_assoc a)"
proof -
  obtain ok1 a1 h1 where s1: "(if pa_packed a then promote_hash ops a h else (True, a, h)) = (ok1, a1, h1)"
    "heap_inv h1" "array_wf env base a1 (live h1)" "pa_assoc a1 = pa_assoc a" "refs a1 = refs a"
    "ok1 \<Longrightarrow> \<not> pa_packed a1"
    by (rule promote_step [OF inv wf req], cases "pa_packed a") (use inv wf in auto)
  show ?thesis
  proof (cases ok1)
    case False
    then show ?thesis using s1 by (intro exI [of _ False]) (simp add: pa_delete_def)
  next
    case True
    have A: "arr_inv env a1" using s1(3) by (simp add: array_wf_def)
    from A key show ?thesis
    proof (cases rule: find_entry_correct)
      case (1 l)
      then show ?thesis using s1 True by (intro exI [of _ False]) (simp add: pa_delete_def)
    next
      case (2 i l)
      have np: "\<not> pa_packed a1" using s1(6) True by blast
      then obtain l' where l: "l = Some l'" using 2(4) by (auto simp: at_link_def)
      let ?e = "pa_entries a1 ! i"
      let ?a2 = "store_link l' (pe_next ?e) a1"
      let ?a = "?a2\<lparr>pa_entries := (pa_entries ?a2)[i := tombstone], pa_size := pa_size ?a2 - 1\<rparr>"
      note R = remove_inv [OF A np 2(2,3) 2(4) [unfolded l]]
      have run: "pa_delete ops a key h = Some (True, ?a, [Release (pe_key ?e), Release (pe_value ?e)], h1)"
        using s1(1) True 2(1,2) l by (simp add: pa_delete_def tombstone_def Let_def)
      have len: "length (pa_entries ?a2) = length (pa_entries a1)" by (cases l') simp_all
      have kv: "map pe_key (pa_entries ?a2) = map pe_key (pa_entries a1)"
        "map pe_value (pa_entries ?a2) = map pe_value (pa_entries a1)"
        by (cases l'; simp add: map_update list_update_id_nth)+
      have i2: "i < length (pa_entries ?a2)" using 2(2) len by simp
      have e2: "pe_key (pa_entries ?a2 ! i) = pe_key ?e" "pe_value (pa_entries ?a2 ! i) = pe_value ?e"
        using kv 2(2) i2 by (metis nth_map)+
      have nn: "pe_key ?e \<noteq> PNull" using 2(3) by auto
      have "refs ?a + {#pe_key ?e, pe_value ?e#} = refs a1"
        using entry_refs_update [OF i2, of tombstone] entry_refs_cong [OF kv] e2 nn
        by (simp add: refs_def entry_refs_def tombstone_def)
      moreover have "ptrs ?a = ptrs a1" by (cases l') (simp_all add: ptrs_def)
      then have "array_wf env base ?a (live h1)"
        using R(1) s1(3) by (simp add: array_wf_def array_heap_def)
      moreover have "k \<in> fst ` set (pa_assoc a)"
        unfolding s1(4) [symmetric] unfolding pa_assoc_def assoc_of_keys using 2(2,3) by blast
      ultimately show ?thesis using run s1 R(2) by (intro exI [of _ True]) simp
    qed
  qed
qed

text \<open>Creation, copy and destruction.\<close>

lemma free_owned:
  assumes "heap_inv h" "owns base S (live h)" "set_option q \<subseteq> S"
  shows "heap_inv (h_free ops q h) \<and> owns base (S - set_option q) (live (h_free ops q h))"
proof (cases q)
  case None
  then show ?thesis using assms by (simp add: free_null)
next
  case (Some p)
  then have p: "p \<in> S" using assms(3) by simp
  then obtain m where m: "live h p = Some m" using owns_live [OF assms(2)] by blast
  show ?thesis using free_ok [OF assms(1) m] owns_free [OF assms(2) p] Some by simp
qed

lemma ptrs_set: "set (ptrs a) = {pa_addr a} \<union> set_option (pa_entries_ptr a) \<union> set_option (pa_buckets_ptr a)"
  by (auto simp: ptrs_def split: option.splits)

lemma ptrs_distinct:
  assumes "distinct (ptrs a)"
  shows "pa_addr a \<notin> set_option (pa_entries_ptr a)" "pa_addr a \<notin> set_option (pa_buckets_ptr a)"
    "set_option (pa_entries_ptr a) \<inter> set_option (pa_buckets_ptr a) = {}"
  using assms by (auto simp: ptrs_def split: option.splits)

lemma pa_destroy_ok:
  assumes "heap_inv h" "array_heap base a (live h)"
  obtains ev h' where "pa_destroy ops (Some a) h = (ev, h')" "heap_inv h'" "live h' = base"
    "losses ev = refs a" "gains ev = {#}"
proof -
  let ?h1 = "h_free ops (pa_entries_ptr a) h"
  let ?h2 = "h_free ops (pa_buckets_ptr a) ?h1"
  let ?h3 = "h_free ops (Some (pa_addr a)) ?h2"
  have d: "distinct (ptrs a)" and own: "owns base (set (ptrs a)) (live h)"
    using assms(2) by (simp_all add: array_heap_def)
  note D = ptrs_distinct [OF d]
  have h1: "heap_inv ?h1" "owns base (set (ptrs a) - set_option (pa_entries_ptr a)) (live ?h1)"
    using free_owned [OF assms(1) own, of "pa_entries_ptr a"] by (auto simp: ptrs_set)
  have "set_option (pa_buckets_ptr a) \<subseteq> set (ptrs a) - set_option (pa_entries_ptr a)"
    using D by (auto simp: ptrs_set)
  note h2 = free_owned [OF h1 this]
  have "set_option (Some (pa_addr a)) \<subseteq> set (ptrs a) - set_option (pa_entries_ptr a) - set_option (pa_buckets_ptr a)"
    using D by (auto simp: ptrs_set)
  note h3 = free_owned [OF conjunct1 [OF h2] conjunct2 [OF h2] this]
  have "set (ptrs a) - set_option (pa_entries_ptr a) - set_option (pa_buckets_ptr a) -
      set_option (Some (pa_addr a)) = {}" by (auto simp: ptrs_set)
  with h3 have "heap_inv ?h3" "live ?h3 = base" by (auto simp: owns_def)
  moreover have "pa_destroy ops (Some a) h = (release_entries (pa_entries a), ?h3)"
    by (simp add: pa_destroy_def Let_def)
  ultimately show ?thesis
    using that entry_refs_released [of "pa_entries a"] by (simp add: refs_def)
qed

lemma empty_array_wf:
  assumes "live h p = None" "live h' = (live h)(p \<mapsto> m)" "dom env \<subseteq> dom (live h)"
  shows "array_wf env (live h) (empty_array p) (live h')"
proof -
  have "owns (live h) {p} (live h')" using assms(1,2) by (auto simp: owns_def)
  then show ?thesis
    using assms(3) by (simp add: array_wf_def array_heap_def ptrs_def empty_array_def arr_inv_def
        keys_ok_def next_ok_def packed_ok_def pa_assoc_def)
qed

lemma pa_new_ok:
  assumes inv: "heap_inv h" and req: "3000000 \<le> max_request" and env: "dom env \<subseteq> dom (live h)"
  obtains "pa_new ops hint h = (None, h)" |
    h' where "pa_new ops hint h = (None, h')" "heap_inv h'" "live h' = live h" |
    a h' where "pa_new ops hint h = (Some a, h')" "heap_inv h'" "array_wf env (live h) a (live h')"
      "pa_entries a = []" "pa_packed a" "pa_buckets_ptr a = None" "hint \<le> pa_capacity a"
      "pa_capacity a \<le> UINT16_MAX"
proof -
  obtain q h1 where al: "h_alloc ops sizeof_parray h = (q, h1)" by (cases "h_alloc ops sizeof_parray h")
  have n: "sizeof_parray \<le> max_request" using req by (simp add: sizeof_parray_def)
  from inv n al show ?thesis
  proof (cases rule: alloc_cases)
    case 1
    then show ?thesis using that(1) al by (simp add: pa_new_def)
  next
    case (2 p m)
    have wf: "array_wf env (live h) (empty_array p) (live h1)"
      by (rule empty_array_wf [OF 2(3,5) env])
    show ?thesis
    proof (cases "hint = 0")
      case True
      then show ?thesis
        using that(3) [of "empty_array p" h1] al 2 wf by (simp add: pa_new_def Let_def empty_array_def)
    next
      case False
      have H: "array_heap (live h) (empty_array p) (live h1)" using wf by (simp add: array_wf_def)
      obtain ok a' h' where E: "ensure_entries ops (empty_array p) hint h1 = (ok, a', h')" "heap_inv h'"
        "array_heap (live h) a' (live h')" "ok \<Longrightarrow> hint \<le> pa_capacity a'"
        "a' = empty_array p \<or> (\<exists>q c. a' = (empty_array p)\<lparr>pa_entries_ptr := Some q, pa_capacity := c\<rparr> \<and>
            pa_capacity (empty_array p) \<le> c \<and> c \<le> UINT16_MAX)"
        by (rule ensure_entries_ok [OF 2(2) H req, of hint]) (use False in auto)
      have a': "arr_inv env a' \<and> pa_entries a' = [] \<and> pa_packed a' \<and> pa_buckets_ptr a' = None \<and>
          pa_capacity a' \<le> UINT16_MAX \<and> pa_addr a' = p"
        using E(5) grow_inv(1) [of env "empty_array p"] wf
        by (auto simp: array_wf_def empty_array_def)
      show ?thesis
      proof (cases ok)
        case True
        then show ?thesis
          using that(3) [of a' h'] al 2 E a' False env by (simp add: pa_new_def Let_def array_wf_def)
      next
        case not_ok: False
        have "ensure_entries ops (empty_array p) hint h1 = (False, a', h') \<Longrightarrow> a' = empty_array p"
          by (auto simp: ensure_entries_def Let_def split: if_splits prod.splits option.splits)
        then have ae: "a' = empty_array p" using E(1) not_ok by simp
        then have own: "owns (live h) {p} (live h')"
          using E(3) by (simp add: array_heap_def ptrs_def empty_array_def)
        then obtain m' where m': "live h' p = Some m'" using owns_live by blast
        have "live (h_free ops (Some p) h') = live h" "heap_inv (h_free ops (Some p) h')"
          using free_ok [OF E(2) m'] own 2(3) by (auto simp: owns_def fun_eq_iff)
        then show ?thesis
          using that(2) [of "h_free ops (Some p) h'"] al 2(1) E(1) not_ok False
          by (simp add: pa_new_def Let_def)
      qed
    qed
  qed
qed

lemma pa_clone_ok:
  assumes inv: "heap_inv h" and wf: "array_wf env base a (live h)" and req: "3000000 \<le> max_request"
  shows "\<exists>r ev h'. pa_clone ops a h = (r, ev, h') \<and> heap_inv h' \<and>
    (case r of None \<Rightarrow> live h' = live h \<and> gains ev = losses ev
     | Some c \<Rightarrow> array_wf env (live h) c (live h') \<and> pa_assoc c = pa_assoc a \<and>
         pa_next_index c = pa_next_index a \<and> gains ev = refs c \<and> losses ev = {#})"
proof -
  have env: "dom env \<subseteq> dom (live h)"
    using wf owns_dom unfolding array_wf_def array_heap_def by blast
  have A: "arr_inv env a" "keys_ok env a" "next_ok a" using wf by (simp_all add: array_wf_def arr_inv_def)
  let ?ev = "retain_entries (pa_entries a)"
  from inv req env show ?thesis
  proof (cases rule: pa_new_ok [where hint = "pa_capacity a"])
    case 1
    then show ?thesis using inv by (simp add: pa_clone_def)
  next
    case (2 h')
    then show ?thesis by (simp add: pa_clone_def)
  next
    case (3 c h1)
    let ?c = "c\<lparr>pa_packed := pa_packed a, pa_size := pa_size a, pa_next_index := pa_next_index a,
               pa_entries := pa_entries a\<rparr>"
    have as: "pa_assoc ?c = pa_assoc a" by (simp add: pa_assoc_def)
    have K: "keys_ok env ?c" "next_ok ?c"
      using A(2,3) 3(7,8) by (auto simp: keys_ok_def next_ok_def pa_assoc_def)
    have H: "array_heap (live h) ?c (live h1)"
      using 3(3) by (simp add: array_wf_def array_heap_def ptrs_def)
    show ?thesis
    proof (cases "pa_packed a")
      case True
      have "packed_ok ?c" using A(1) True 3(6) by (simp add: arr_inv_def packed_ok_def)
      then have "array_wf env (live h) ?c (live h1)"
        using K H env True by (simp add: array_wf_def arr_inv_def)
      moreover have "pa_clone ops a h = (Some ?c, ?ev, h1)"
        using 3(1) True by (simp add: pa_clone_def Let_def)
      ultimately show ?thesis
        using 3(2) as entry_refs_retained [of "pa_entries a"]
        by (intro exI [of _ "Some ?c"] exI [of _ ?ev] exI [of _ h1]) (simp add: refs_def)
    next
      case False
      then obtain n C where n: "pa_bucket_count a = 2 ^ n" "indexed (pa_entries a) (2 ^ n) (pa_buckets a) C"
        using A(1) by (auto simp: arr_inv_def hashed_ok_def)
      have "\<exists>m. (if pa_bucket_count a < 8 then 8 else pa_bucket_count a) = 2 ^ m"
        using n(1) by (cases "pa_bucket_count a < 8") (auto intro: exI [of _ 3] exI [of _ n])
      then obtain m where m: "(if pa_bucket_count a < 8 then 8 else pa_bucket_count a) = 2 ^ m" by blast
      from 3(2) H K req m show ?thesis
      proof (cases rule: rehash_ok)
        case 1
        obtain ev2 h2 where D: "pa_destroy ops (Some ?c) h1 = (ev2, h2)" "heap_inv h2" "live h2 = live h"
          "losses ev2 = refs ?c" "gains ev2 = {#}" by (rule pa_destroy_ok [OF 3(2) H])
        have "pa_clone ops a h = (None, ?ev @ ev2, h2)"
          using 3(1) False 1 D(1) by (simp add: pa_clone_def Let_def)
        then show ?thesis
          using D entry_refs_retained [of "pa_entries a"]
          by (intro exI [of _ None] exI [of _ "?ev @ ev2"] exI [of _ h2]) (simp add: refs_def)
      next
        case (2 c' h2)
        have "pa_clone ops a h = (Some c', ?ev, h2)"
          using 3(1) False 2(1) by (simp add: pa_clone_def Let_def)
        then show ?thesis
          using 2 as env entry_refs_retained [of "pa_entries a"]
          by (intro exI [of _ "Some c'"] exI [of _ ?ev] exI [of _ h2])
            (simp add: refs_def array_wf_def)
      qed
    qed
  qed
qed

end

end
