(* ===== verification/ArrayProps.thy ===== *)
theory ArrayProps
  imports PArrayOps
begin

text \<open>
  The properties of ordered hash arrays on the memory pool: every operation is the
  corresponding operation on association lists in insertion order, keeps the invariants
  of the array and of the pool, never follows a link out of the entry vector, and its
  retains and releases balance the references that the array holds.
\<close>

section \<open>Witness data\<close>

lemma demo_array:
  obtains a h where "pa_new (pool_ops Bits64) 0 demo_pool = (Some a, h)" "pool_inv Bits64 h"
    "array_wf Map.empty Map.empty a (live_blocks h)" "pa_assoc a = []" "refs a = {#}"
proof -
  have req: "3000000 \<le> max_request" by (simp add: max_request_def)
  have al: "h_alloc (pool_ops Bits64) sizeof_parray demo_pool \<noteq> (None, demo_pool)"
    by (rule demo_alloc) (simp_all add: sizeof_parray_def)
  have env: "dom Map.empty \<subseteq> dom (live_blocks demo_pool)" by simp
  from demo_pool_inv(1) req env show ?thesis
  proof (cases rule: pool.pa_new_ok [where hint = 0])
    case 1
    have "h_alloc (pool_ops Bits64) sizeof_parray demo_pool = (None, demo_pool)"
      using 1 by (simp add: pa_new_def Let_def split: prod.splits option.splits)
    then show ?thesis using al by simp
  next
    case (2 h')
    have "fst (h_alloc (pool_ops Bits64) sizeof_parray demo_pool) = None"
      using 2(1) by (simp add: pa_new_def Let_def split: prod.splits option.splits)
    then have "h_alloc (pool_ops Bits64) sizeof_parray demo_pool = (None, demo_pool)"
      using pool.alloc_fail [OF demo_pool_inv(1)] by (metis prod.collapse)
    then show ?thesis using al by simp
  next
    case (3 a h)
    show ?thesis
      by (rule that [OF 3(1,2)])
        (use 3(3,4) demo_pool_inv(2) in \<open>simp_all add: pa_assoc_def refs_def\<close>)
  qed
qed

section \<open>Assignment, removal, lookup\<close>

text \<open>
  C1. \<open>pa_set\<close> on a well-formed array always ends, and keeps the invariants of the array
  and the pool.  When it succeeds the key had a normal form and the contents are updated
  at it, in place for a present key and at the end for a new one; when it fails the
  contents are unchanged.  The references it acquires and gives up are exactly the change
  of the references the array holds.
\<close>

theorem pa_set_correct:
  assumes "pool_inv arch h" "array_wf env base a (live_blocks h)" "known env input"
  shows "\<exists>ok a' ev h' env' base'. pa_set (pool_ops arch) (Some a) input v h = Some (ok, Some a', ev, h') \<and>
    pool_inv arch h' \<and> array_wf env' base' a' (live_blocks h') \<and> env \<subseteq>\<^sub>m env' \<and> base \<subseteq>\<^sub>m base' \<and>
    refs a' + losses ev = refs a + gains ev \<and>
    (if ok then \<exists>k. norm_key input = Some k \<and> pa_assoc a' = AList.update k v (pa_assoc a)
     else pa_assoc a' = pa_assoc a)"
proof -
  have req: "3000000 \<le> max_request" by (simp add: max_request_def)
  from assms req show ?thesis
  proof (cases rule: pool.normalize_key_ok)
    case 1
    have "env \<subseteq>\<^sub>m env" "base \<subseteq>\<^sub>m base" by simp_all
    then show ?thesis using assms(1,2) 1(1)
      by (intro exI [of _ False] exI [of _ a] exI [of _ "[]"] exI [of _ h] exI [of _ env] exI [of _ base])
        (simp add: pa_set_def with_key_def)
  next
    case (2 key temporary h1 env' base' k)
    from pool.pa_store_ok [OF 2(2,3) req 2(4,5), of v] obtain ok a' ev h' where
      S: "pa_store (pool_ops arch) a v key h1 = Some (ok, a', ev, h')" "pool_inv arch h'"
        "array_wf env' base' a' (live_blocks h')" "refs a' + losses ev = refs a + gains ev"
        "pa_assoc a' = (if ok then AList.update k v (pa_assoc a) else pa_assoc a)" by blast
    let ?ev = "temporary_created temporary key @ ev @ release_temporary temporary key"
    have "pa_set (pool_ops arch) (Some a) input v h = Some (ok, Some a', ?ev, h')"
      using 2(1) S(1) by (simp add: pa_set_def with_key_def)
    moreover have "refs a' + losses ?ev = refs a + gains ?ev" using S(4) by (simp add: ac_simps)
    ultimately show ?thesis using S(2,3,5) 2(6-8)
      by (intro exI [of _ ok] exI [of _ a'] exI [of _ ?ev] exI [of _ h'] exI [of _ env'] exI [of _ base']) simp
  qed
qed

theorem pa_set_correct_witness:
  "\<exists>a h ok a' ev h'. pa_new (pool_ops Bits64) 0 demo_pool = (Some a, h) \<and>
     pa_set (pool_ops Bits64) (Some a) (PInt 7) PTrue h = Some (ok, Some a', ev, h') \<and>
     (ok \<longrightarrow> pa_assoc a' = [(KInt 7, PTrue)])"
proof -
  obtain a h where a: "pa_new (pool_ops Bits64) 0 demo_pool = (Some a, h)" "pool_inv Bits64 h"
    "array_wf Map.empty Map.empty a (live_blocks h)" "pa_assoc a = []" by (rule demo_array)
  from pa_set_correct [OF a(2,3), of "PInt 7" PTrue] obtain ok a' ev h' where
    "pa_set (pool_ops Bits64) (Some a) (PInt 7) PTrue h = Some (ok, Some a', ev, h')"
    "if ok then \<exists>k. norm_key (PInt 7) = Some k \<and> pa_assoc a' = AList.update k PTrue (pa_assoc a)
     else pa_assoc a' = pa_assoc a" by auto
  moreover from this(2) a(4) have "ok \<longrightarrow> pa_assoc a' = [(KInt 7, PTrue)]"
    by (auto simp: norm_key_def)
  ultimately show ?thesis using a(1) by blast
qed

text \<open>
  C2. \<open>pa_remove\<close> always ends and keeps the invariants; when it succeeds, exactly the entry
  of the normalised key is gone and the order of the others is kept; otherwise the contents
  are unchanged.  The references balance as for assignment.
\<close>

theorem pa_remove_correct:
  assumes "pool_inv arch h" "array_wf env base a (live_blocks h)" "known env input"
  shows "\<exists>ok a' ev h' env' base'. pa_remove (pool_ops arch) (Some a) input h = Some (ok, Some a', ev, h') \<and>
    pool_inv arch h' \<and> array_wf env' base' a' (live_blocks h') \<and> env \<subseteq>\<^sub>m env' \<and> base \<subseteq>\<^sub>m base' \<and>
    refs a' + losses ev = refs a + gains ev \<and>
    (if ok then \<exists>k. norm_key input = Some k \<and> k \<in> fst ` set (pa_assoc a) \<and>
                    pa_assoc a' = AList.delete k (pa_assoc a)
     else pa_assoc a' = pa_assoc a)"
proof -
  have req: "3000000 \<le> max_request" by (simp add: max_request_def)
  from assms req show ?thesis
  proof (cases rule: pool.normalize_key_ok)
    case 1
    have "env \<subseteq>\<^sub>m env" "base \<subseteq>\<^sub>m base" by simp_all
    then show ?thesis using assms(1,2) 1(1)
      by (intro exI [of _ False] exI [of _ a] exI [of _ "[]"] exI [of _ h] exI [of _ env] exI [of _ base])
        (simp add: pa_remove_def with_key_def)
  next
    case (2 key temporary h1 env' base' k)
    from pool.pa_delete_ok [OF 2(2,3) req 2(4,5)] obtain ok a' ev h' where
      S: "pa_delete (pool_ops arch) a key h1 = Some (ok, a', ev, h')" "pool_inv arch h'"
        "array_wf env' base' a' (live_blocks h')" "refs a' + losses ev = refs a + gains ev"
        "ok \<longrightarrow> k \<in> fst ` set (pa_assoc a)"
        "pa_assoc a' = (if ok then AList.delete k (pa_assoc a) else pa_assoc a)" by blast
    let ?ev = "temporary_created temporary key @ ev @ release_temporary temporary key"
    have "pa_remove (pool_ops arch) (Some a) input h = Some (ok, Some a', ?ev, h')"
      using 2(1) S(1) by (simp add: pa_remove_def with_key_def)
    moreover have "refs a' + losses ?ev = refs a + gains ?ev" using S(4) by (simp add: ac_simps)
    ultimately show ?thesis using S(2,3,5,6) 2(6-8)
      by (intro exI [of _ ok] exI [of _ a'] exI [of _ ?ev] exI [of _ h'] exI [of _ env'] exI [of _ base']) simp
  qed
qed

theorem pa_remove_correct_witness:
  "\<exists>a h ok a' ev h'. pa_new (pool_ops Bits64) 0 demo_pool = (Some a, h) \<and>
     pa_remove (pool_ops Bits64) (Some a) (PInt 7) h = Some (ok, Some a', ev, h') \<and> \<not> ok"
proof -
  obtain a h where a: "pa_new (pool_ops Bits64) 0 demo_pool = (Some a, h)" "pool_inv Bits64 h"
    "array_wf Map.empty Map.empty a (live_blocks h)" "pa_assoc a = []" by (rule demo_array)
  from pa_remove_correct [OF a(2,3), of "PInt 7"] obtain ok a' ev h' where
    "pa_remove (pool_ops Bits64) (Some a) (PInt 7) h = Some (ok, Some a', ev, h')"
    "if ok then \<exists>k. norm_key (PInt 7) = Some k \<and> k \<in> fst ` set (pa_assoc a) \<and>
       pa_assoc a' = AList.delete k (pa_assoc a) else pa_assoc a' = pa_assoc a" by auto
  with a(1,4) show ?thesis by (intro exI) (auto split: if_splits)
qed

text \<open>
  C23. \<open>pa_get\<close> always ends, leaves array and pool as they are for every key that needs no
  temporary string, and returns the value of the normalised key in the contents, or
  nothing; the returned value is retained.
\<close>

theorem pa_get_correct:
  assumes "pool_inv arch h" "array_wf env base a (live_blocks h)" "known env input"
  shows "\<exists>r ev h'. pa_get (pool_ops arch) (Some a) input h = Some (r, ev, h') \<and> pool_inv arch h' \<and>
    gains ev = losses ev + (case r of None \<Rightarrow> {#} | Some v \<Rightarrow> {#v#}) \<and>
    (input \<noteq> PNull \<longrightarrow> h' = h \<and> r = Option.bind (norm_key input) (map_of (pa_assoc a))) \<and>
    (input = PNull \<longrightarrow> r = None \<or> r = map_of (pa_assoc a) (KStr []))"
proof -
  have req: "3000000 \<le> max_request" by (simp add: max_request_def)
  from assms req show ?thesis
  proof (cases rule: pool.normalize_key_ok)
    case 1
    then show ?thesis using assms(1)
      by (intro exI [of _ None] exI [of _ "[]"] exI [of _ h]) (auto simp: pa_get_def)
  next
    case (2 key temporary h1 env' base' k)
    have A: "arr_inv env' a" using 2(3) by (simp add: array_wf_def)
    have d: "distinct (map fst (assoc_of (pa_entries a)))"
      using A by (simp add: arr_inv_def keys_ok_def pa_assoc_def)
    have same: "h1 = h" if "input \<noteq> PNull"
      using 2(1) that by (auto simp: normalize_key_def split: pvalue.splits option.splits)
    have null: "k = KStr []" if "input = PNull" using that 2(6) by (simp add: norm_key_def)
    from A 2(4,5) show ?thesis
    proof (cases rule: find_entry_correct)
      case (1 l)
      have "map_of (pa_assoc a) k = None" using 1(2) by (simp add: map_of_eq_None_iff)
      then show ?thesis using 1(1) 2(1,2,6) same null
        by (intro exI [of _ None] exI [of _ "temporary_created temporary key @ release_temporary temporary key"]
            exI [of _ h1]) (auto simp: pa_get_def)
    next
      case (2 i l)
      have "map_of (pa_assoc a) k = Some (pe_value (pa_entries a ! i))"
        using assoc_of_lookup [OF 2(2,3) d] by (simp add: pa_assoc_def)
      then show ?thesis
        using 2(1,2) \<open>normalize_key _ _ _ = _\<close> \<open>pool_inv arch h1\<close> \<open>norm_key input = Some k\<close> same null
        by (intro exI [of _ "Some (pe_value (pa_entries a ! i))"] exI [of _ h1]
            exI [of _ "temporary_created temporary key @
              Retain (pe_value (pa_entries a ! i)) # release_temporary temporary key"])
          (auto simp: pa_get_def)
    qed
  qed
qed

theorem pa_get_correct_witness:
  "\<exists>a h ev h'. pa_new (pool_ops Bits64) 0 demo_pool = (Some a, h) \<and>
     pa_get (pool_ops Bits64) (Some a) (PInt 7) h = Some (None, ev, h')"
proof -
  obtain a h where a: "pa_new (pool_ops Bits64) 0 demo_pool = (Some a, h)" "pool_inv Bits64 h"
    "array_wf Map.empty Map.empty a (live_blocks h)" "pa_assoc a = []" by (rule demo_array)
  from pa_get_correct [OF a(2,3), of "PInt 7"] a(1,4) show ?thesis
    by (auto simp: norm_key_def)
qed

section \<open>Appending\<close>

text \<open>
  C24. \<open>pa_push\<close> always ends and keeps the invariants.  A successful push below the largest
  key appends the value under the next index and moves the next index up by one.  When
  the next index has reached the largest integer, the value goes to that key: it is
  appended only when the key is new, and otherwise overwrites the element pushed before.
\<close>

theorem pa_push_correct:
  assumes "pool_inv arch h" "array_wf env base a (live_blocks h)"
  defines "i \<equiv> pa_next_index a"
  shows "\<exists>ok a' ev h'. pa_push (pool_ops arch) (Some a) v h = Some (ok, Some a', ev, h') \<and>
    pool_inv arch h' \<and> array_wf env base a' (live_blocks h') \<and>
    pa_assoc a' = (if \<not> ok then pa_assoc a
      else if KInt i \<in> fst ` set (pa_assoc a) then AList.update (KInt i) v (pa_assoc a)
      else pa_assoc a @ [(KInt i, v)]) \<and>
    (KInt i \<in> fst ` set (pa_assoc a) \<longrightarrow> i = PPHP_INT_MAXIMUM)"
proof -
  have req: "3000000 \<le> max_request" by (simp add: max_request_def)
  have key: "key_ok env (PInt i)" "nkey_of (PInt i) = Some (KInt i)" by simp_all
  from pool.pa_store_ok [OF assms(1,2) req key, of v] obtain ok a' ev h' where
    S: "pa_store (pool_ops arch) a v (PInt i) h = Some (ok, a', ev, h')" "pool_inv arch h'"
      "array_wf env base a' (live_blocks h')"
      "pa_assoc a' = (if ok then AList.update (KInt i) v (pa_assoc a) else pa_assoc a)" by blast
  have "pa_push (pool_ops arch) (Some a) v h = Some (ok, Some a', ev, h')"
    using S(1) by (simp add: pa_push_def pa_set_def with_key_def normalize_key_def i_def
        temporary_created_def release_temporary_def)
  moreover have "KInt i \<in> fst ` set (pa_assoc a) \<longrightarrow> i = PPHP_INT_MAXIMUM"
    using assms(2) by (auto simp: array_wf_def arr_inv_def next_ok_def i_def)
  ultimately show ?thesis
    using S(2-4) update_absent [of "KInt i" "pa_assoc a" v]
    by (intro exI [of _ ok] exI [of _ a'] exI [of _ ev] exI [of _ h']) simp
qed

theorem pa_push_correct_witness:
  "\<exists>a h ok a' ev h'. pa_new (pool_ops Bits64) 0 demo_pool = (Some a, h) \<and>
     pa_push (pool_ops Bits64) (Some a) PTrue h = Some (ok, Some a', ev, h') \<and> length (pa_assoc a') \<le> 1"
proof -
  obtain a h where a: "pa_new (pool_ops Bits64) 0 demo_pool = (Some a, h)" "pool_inv Bits64 h"
    "array_wf Map.empty Map.empty a (live_blocks h)" "pa_assoc a = []" by (rule demo_array)
  from pa_push_correct [OF a(2,3), of PTrue] obtain ok a' ev h' where
    "pa_push (pool_ops Bits64) (Some a) PTrue h = Some (ok, Some a', ev, h')"
    "pa_assoc a' = (if \<not> ok then [] else [(KInt (pa_next_index a), PTrue)])"
    using a(4) by auto
  then have "pa_push (pool_ops Bits64) (Some a) PTrue h = Some (ok, Some a', ev, h') \<and>
      length (pa_assoc a') \<le> 1" by simp
  with a(1) show ?thesis by blast
qed

section \<open>Iteration\<close>

lemma skip_tombstones_correct:
  assumes "keys_ok env a" "pos \<le> pa_used a"
  defines "next \<equiv> skip_tombstones (pa_entries a) pos"
  shows "pos \<le> next \<and> next \<le> pa_used a \<and>
    assoc_of (drop pos (pa_entries a)) = assoc_of (drop next (pa_entries a)) \<and>
    (next < pa_used a \<longrightarrow> pe_key (pa_entries a ! next) \<noteq> PNull)"
  using assms(2) unfolding next_def
proof (induction "pa_used a - pos" arbitrary: pos rule: less_induct)
  case less
  show ?case
  proof (cases "pos < pa_used a \<and> pe_key (pa_entries a ! pos) = PNull")
    case True
    have "drop pos (pa_entries a) = pa_entries a ! pos # drop (Suc pos) (pa_entries a)"
      using True by (simp add: Cons_nth_drop_Suc)
    then have "assoc_of (drop pos (pa_entries a)) = assoc_of (drop (Suc pos) (pa_entries a))"
      using True by simp
    moreover have "skip_tombstones (pa_entries a) pos = skip_tombstones (pa_entries a) (Suc pos)"
      using True by (simp add: skip_tombstones.simps [of "pa_entries a" pos])
    moreover have "pa_used a - Suc pos < pa_used a - pos" "Suc pos \<le> pa_used a" using True by auto
    ultimately show ?thesis using less(1) [of "Suc pos"] by simp
  next
    case False
    then have "skip_tombstones (pa_entries a) pos = pos"
      by (subst skip_tombstones.simps) auto
    then show ?thesis using less(2) False by auto
  qed
qed

text \<open>
  Iterating with \<open>pa_entry_at\<close> enumerates the contents in insertion order: at each
  position it either reports the end, when no contents are left, or returns the first
  entry of what is left and a later position from which exactly the rest is enumerated.
\<close>

theorem pa_entry_at_enumerates:
  assumes "arr_inv env a" "pos \<le> pa_used a"
  shows "case pa_entry_at (Some a) pos of
      None \<Rightarrow> assoc_of (drop pos (pa_entries a)) = []
    | Some (key, v, next, ev) \<Rightarrow> pos < next \<and> next \<le> pa_used a \<and>
        (\<exists>k. nkey_of key = Some k \<and>
           assoc_of (drop pos (pa_entries a)) = (k, v) # assoc_of (drop next (pa_entries a))) \<and>
        ev = [Retain key, Retain v]"
proof -
  have K: "keys_ok env a" using assms(1) by (simp add: arr_inv_def)
  define n where "n = skip_tombstones (pa_entries a) pos"
  have n: "pos \<le> n" "n \<le> pa_used a"
    "assoc_of (drop pos (pa_entries a)) = assoc_of (drop n (pa_entries a))"
    "n < pa_used a \<Longrightarrow> pe_key (pa_entries a ! n) \<noteq> PNull"
    using skip_tombstones_correct [OF K assms(2)] by (auto simp: n_def)
  show ?thesis
  proof (cases "n < pa_used a")
    case True
    have "key_ok env (pe_key (pa_entries a ! n))" by (rule keys_ok_nth [OF K True n(4) [OF True]])
    then obtain k where k: "nkey_of (pe_key (pa_entries a ! n)) = Some k" using nkey_of_key_ok by blast
    have "drop n (pa_entries a) = pa_entries a ! n # drop (Suc n) (pa_entries a)"
      using True by (simp add: Cons_nth_drop_Suc)
    then have "assoc_of (drop n (pa_entries a)) =
        (k, pe_value (pa_entries a ! n)) # assoc_of (drop (Suc n) (pa_entries a))"
      using k by simp
    moreover have "pa_entry_at (Some a) pos = Some (pe_key (pa_entries a ! n), pe_value (pa_entries a ! n),
        Suc n, [Retain (pe_key (pa_entries a ! n)), Retain (pe_value (pa_entries a ! n))])"
      using True by (simp add: pa_entry_at_def n_def [symmetric] Let_def)
    ultimately show ?thesis using n True k by simp
  next
    case False
    then have "pa_entry_at (Some a) pos = None" by (simp add: pa_entry_at_def n_def [symmetric] Let_def)
    then show ?thesis using n(3) False by simp
  qed
qed

theorem pa_entry_at_enumerates_witness:
  "\<exists>a h. pa_new (pool_ops Bits64) 0 demo_pool = (Some a, h) \<and> pa_entry_at (Some a) 0 = None"
proof -
  obtain a h where a: "pa_new (pool_ops Bits64) 0 demo_pool = (Some a, h)"
    "array_wf Map.empty Map.empty a (live_blocks h)" "pa_assoc a = []" by (rule demo_array)
  have "arr_inv Map.empty a" using a(2) by (simp add: array_wf_def)
  from pa_entry_at_enumerates [OF this, of 0] a(1,3) show ?thesis
    by (auto simp: pa_assoc_def split: option.splits)
qed

section \<open>Copies and destruction\<close>

text \<open>
  C26. \<open>pa_clone\<close> either builds a well-formed array of its own with the same contents and
  next index, having retained every key and value once, or fails having given back every
  block and every reference it took.  In both cases the original and all other blocks
  stay as they were.
\<close>

theorem pa_clone_correct:
  assumes "pool_inv arch h" "array_wf env base a (live_blocks h)"
  shows "\<exists>r ev h'. pa_clone (pool_ops arch) a h = (r, ev, h') \<and> pool_inv arch h' \<and>
    (case r of None \<Rightarrow> live_blocks h' = live_blocks h \<and> gains ev = losses ev
     | Some c \<Rightarrow> array_wf env (live_blocks h) c (live_blocks h') \<and> pa_assoc c = pa_assoc a \<and>
         pa_next_index c = pa_next_index a \<and> gains ev = refs c \<and> losses ev = {#})"
  by (rule pool.pa_clone_ok [OF assms]) (simp add: max_request_def)

theorem pa_clone_correct_witness:
  "\<exists>a h r ev h'. pa_new (pool_ops Bits64) 0 demo_pool = (Some a, h) \<and>
     pa_clone (pool_ops Bits64) a h = (r, ev, h') \<and> pool_inv Bits64 h'"
proof -
  obtain a h where a: "pa_new (pool_ops Bits64) 0 demo_pool = (Some a, h)" "pool_inv Bits64 h"
    "array_wf Map.empty Map.empty a (live_blocks h)" by (rule demo_array)
  from pa_clone_correct [OF a(2,3)] a(1) show ?thesis by blast
qed

text \<open>
  C27. \<open>pa_destroy\<close> frees the entry vector, the buckets and the array, each once, so that
  exactly the blocks of the rest of the program stay live, and it releases exactly the
  references the array holds.
\<close>

theorem pa_destroy_frees_all:
  assumes "pool_inv arch h" "array_wf env base a (live_blocks h)"
  shows "\<exists>ev h'. pa_destroy (pool_ops arch) (Some a) h = (ev, h') \<and> pool_inv arch h' \<and>
    live_blocks h' = base \<and> losses ev = refs a \<and> gains ev = {#}"
proof -
  have "array_heap base a (live_blocks h)" using assms(2) by (simp add: array_wf_def)
  from pool.pa_destroy_ok [OF assms(1) this] show ?thesis by metis
qed

theorem pa_destroy_frees_all_witness:
  "\<exists>a h ev h'. pa_new (pool_ops Bits64) 0 demo_pool = (Some a, h) \<and>
     pa_destroy (pool_ops Bits64) (Some a) h = (ev, h') \<and> live_blocks h' = Map.empty"
proof -
  obtain a h where a: "pa_new (pool_ops Bits64) 0 demo_pool = (Some a, h)" "pool_inv Bits64 h"
    "array_wf Map.empty Map.empty a (live_blocks h)" by (rule demo_array)
  from pa_destroy_frees_all [OF a(2,3)] a(1) show ?thesis by blast
qed

end
