(* ===== verification/Opcode.thy ===== *)
theory Opcode
  imports Prelude
begin

text \<open>
  The instruction set (\<open>src/opcode.h\<close>): one byte per opcode, and the names
  \<open>pphp_opcode_name\<close> of \<open>src/pbc.c\<close> gives them.  An opcode is kept as the byte it is in
  the code; \<open>opcode_defs\<close> collects the values.
\<close>

named_theorems opcode_defs \<open>the values of the opcodes\<close>

section \<open>Opcodes\<close>

definition OP_NOP :: u8 where [opcode_defs]: "OP_NOP = 0x00"
definition OP_HALT :: u8 where [opcode_defs]: "OP_HALT = 0x01"
definition OP_POP :: u8 where [opcode_defs]: "OP_POP = 0x02"
definition OP_DUP :: u8 where [opcode_defs]: "OP_DUP = 0x03"
definition OP_SWAP :: u8 where [opcode_defs]: "OP_SWAP = 0x04"
definition OP_LOAD_NULL :: u8 where [opcode_defs]: "OP_LOAD_NULL = 0x10"
definition OP_LOAD_TRUE :: u8 where [opcode_defs]: "OP_LOAD_TRUE = 0x11"
definition OP_LOAD_FALSE :: u8 where [opcode_defs]: "OP_LOAD_FALSE = 0x12"
definition OP_LOAD_I8 :: u8 where [opcode_defs]: "OP_LOAD_I8 = 0x13"
definition OP_LOAD_I32 :: u8 where [opcode_defs]: "OP_LOAD_I32 = 0x14"
definition OP_LOAD_CONST :: u8 where [opcode_defs]: "OP_LOAD_CONST = 0x15"
definition OP_LOAD_LOCAL :: u8 where [opcode_defs]: "OP_LOAD_LOCAL = 0x16"
definition OP_STORE_LOCAL :: u8 where [opcode_defs]: "OP_STORE_LOCAL = 0x17"
definition OP_LOAD_ARGC :: u8 where [opcode_defs]: "OP_LOAD_ARGC = 0x18"
definition OP_BIND_GLOBAL :: u8 where [opcode_defs]: "OP_BIND_GLOBAL = 0x19"
definition OP_STATIC_INIT :: u8 where [opcode_defs]: "OP_STATIC_INIT = 0x1a"
definition OP_LOAD_NAMED_CONST :: u8 where [opcode_defs]: "OP_LOAD_NAMED_CONST = 0x1b"
definition OP_LOAD_LOCAL_QUIET :: u8 where [opcode_defs]: "OP_LOAD_LOCAL_QUIET = 0x1c"
definition OP_UNSET_LOCAL :: u8 where [opcode_defs]: "OP_UNSET_LOCAL = 0x1d"
definition OP_ADD :: u8 where [opcode_defs]: "OP_ADD = 0x20"
definition OP_SUB :: u8 where [opcode_defs]: "OP_SUB = 0x21"
definition OP_MUL :: u8 where [opcode_defs]: "OP_MUL = 0x22"
definition OP_DIV :: u8 where [opcode_defs]: "OP_DIV = 0x23"
definition OP_MOD :: u8 where [opcode_defs]: "OP_MOD = 0x24"
definition OP_POW :: u8 where [opcode_defs]: "OP_POW = 0x25"
definition OP_NEG :: u8 where [opcode_defs]: "OP_NEG = 0x26"
definition OP_CONCAT :: u8 where [opcode_defs]: "OP_CONCAT = 0x27"
definition OP_BAND :: u8 where [opcode_defs]: "OP_BAND = 0x28"
definition OP_BOR :: u8 where [opcode_defs]: "OP_BOR = 0x29"
definition OP_BXOR :: u8 where [opcode_defs]: "OP_BXOR = 0x2a"
definition OP_BNOT :: u8 where [opcode_defs]: "OP_BNOT = 0x2b"
definition OP_SHL :: u8 where [opcode_defs]: "OP_SHL = 0x2c"
definition OP_SHR :: u8 where [opcode_defs]: "OP_SHR = 0x2d"
definition OP_EQ :: u8 where [opcode_defs]: "OP_EQ = 0x30"
definition OP_NE :: u8 where [opcode_defs]: "OP_NE = 0x31"
definition OP_IDENT :: u8 where [opcode_defs]: "OP_IDENT = 0x32"
definition OP_NIDENT :: u8 where [opcode_defs]: "OP_NIDENT = 0x33"
definition OP_LT :: u8 where [opcode_defs]: "OP_LT = 0x34"
definition OP_LE :: u8 where [opcode_defs]: "OP_LE = 0x35"
definition OP_GT :: u8 where [opcode_defs]: "OP_GT = 0x36"
definition OP_GE :: u8 where [opcode_defs]: "OP_GE = 0x37"
definition OP_CMP :: u8 where [opcode_defs]: "OP_CMP = 0x38"
definition OP_NOT :: u8 where [opcode_defs]: "OP_NOT = 0x39"
definition OP_CAST :: u8 where [opcode_defs]: "OP_CAST = 0x3a"
definition OP_INSTANCEOF_DYNAMIC :: u8 where [opcode_defs]: "OP_INSTANCEOF_DYNAMIC = 0x3c"
definition OP_JMP :: u8 where [opcode_defs]: "OP_JMP = 0x40"
definition OP_JMP_IF :: u8 where [opcode_defs]: "OP_JMP_IF = 0x41"
definition OP_JMP_UNLESS :: u8 where [opcode_defs]: "OP_JMP_UNLESS = 0x42"
definition OP_JMP_IF_KEEP :: u8 where [opcode_defs]: "OP_JMP_IF_KEEP = 0x43"
definition OP_JMP_UNLESS_KEEP :: u8 where [opcode_defs]: "OP_JMP_UNLESS_KEEP = 0x44"
definition OP_JMP_NOTNULL_KEEP :: u8 where [opcode_defs]: "OP_JMP_NOTNULL_KEEP = 0x45"
definition OP_JMP_IFNULL_KEEP :: u8 where [opcode_defs]: "OP_JMP_IFNULL_KEEP = 0x46"
definition OP_CALL :: u8 where [opcode_defs]: "OP_CALL = 0x50"
definition OP_CALL_VALUE :: u8 where [opcode_defs]: "OP_CALL_VALUE = 0x51"
definition OP_RET :: u8 where [opcode_defs]: "OP_RET = 0x52"
definition OP_RET_NULL :: u8 where [opcode_defs]: "OP_RET_NULL = 0x53"
definition OP_ECHO :: u8 where [opcode_defs]: "OP_ECHO = 0x54"
definition OP_CALL_ARRAY :: u8 where [opcode_defs]: "OP_CALL_ARRAY = 0x55"
definition OP_CALL_VALUE_ARRAY :: u8 where [opcode_defs]: "OP_CALL_VALUE_ARRAY = 0x56"
definition OP_INCLUDE :: u8 where [opcode_defs]: "OP_INCLUDE = 0x57"
definition OP_TYPECHECK_ARGS :: u8 where [opcode_defs]: "OP_TYPECHECK_ARGS = 0x58"
definition OP_NEW_ARRAY :: u8 where [opcode_defs]: "OP_NEW_ARRAY = 0x60"
definition OP_ARR_PUSH :: u8 where [opcode_defs]: "OP_ARR_PUSH = 0x61"
definition OP_ARR_SET :: u8 where [opcode_defs]: "OP_ARR_SET = 0x62"
definition OP_IDX_GET :: u8 where [opcode_defs]: "OP_IDX_GET = 0x63"
definition OP_IDX_SET :: u8 where [opcode_defs]: "OP_IDX_SET = 0x64"
definition OP_IDX_APPEND :: u8 where [opcode_defs]: "OP_IDX_APPEND = 0x65"
definition OP_FE_INIT :: u8 where [opcode_defs]: "OP_FE_INIT = 0x66"
definition OP_FE_NEXT :: u8 where [opcode_defs]: "OP_FE_NEXT = 0x67"
definition OP_FE_FREE :: u8 where [opcode_defs]: "OP_FE_FREE = 0x68"
definition OP_ARR_EXTEND :: u8 where [opcode_defs]: "OP_ARR_EXTEND = 0x69"
definition OP_ARR_SEPARATE :: u8 where [opcode_defs]: "OP_ARR_SEPARATE = 0x6a"
definition OP_IDX_UNSET :: u8 where [opcode_defs]: "OP_IDX_UNSET = 0x6b"
definition OP_IDX_GET_QUIET :: u8 where [opcode_defs]: "OP_IDX_GET_QUIET = 0x6c"
definition OP_NEW_OBJ :: u8 where [opcode_defs]: "OP_NEW_OBJ = 0x70"
definition OP_PROP_GET :: u8 where [opcode_defs]: "OP_PROP_GET = 0x71"
definition OP_PROP_SET :: u8 where [opcode_defs]: "OP_PROP_SET = 0x72"
definition OP_MCALL :: u8 where [opcode_defs]: "OP_MCALL = 0x73"
definition OP_MCALL_ARRAY :: u8 where [opcode_defs]: "OP_MCALL_ARRAY = 0x74"
definition OP_NEW_OBJ_ARRAY :: u8 where [opcode_defs]: "OP_NEW_OBJ_ARRAY = 0x75"
definition OP_SCALL :: u8 where [opcode_defs]: "OP_SCALL = 0x76"
definition OP_SCALL_ARRAY :: u8 where [opcode_defs]: "OP_SCALL_ARRAY = 0x77"
definition OP_INSTANCEOF :: u8 where [opcode_defs]: "OP_INSTANCEOF = 0x78"
definition OP_SPROP_GET :: u8 where [opcode_defs]: "OP_SPROP_GET = 0x79"
definition OP_SPROP_SET :: u8 where [opcode_defs]: "OP_SPROP_SET = 0x7a"
definition OP_CLSCONST :: u8 where [opcode_defs]: "OP_CLSCONST = 0x7b"
definition OP_PROP_GET_QUIET :: u8 where [opcode_defs]: "OP_PROP_GET_QUIET = 0x7c"
definition OP_NEW_OBJ_DYNAMIC :: u8 where [opcode_defs]: "OP_NEW_OBJ_DYNAMIC = 0x7d"
definition OP_NEW_OBJ_DYNAMIC_ARRAY :: u8 where [opcode_defs]: "OP_NEW_OBJ_DYNAMIC_ARRAY = 0x7e"
definition OP_CLOSURE :: u8 where [opcode_defs]: "OP_CLOSURE = 0x80"
definition OP_THROW :: u8 where [opcode_defs]: "OP_THROW = 0x81"
definition OP_CLONE :: u8 where [opcode_defs]: "OP_CLONE = 0x82"
definition OP_DEF_FUNC :: u8 where [opcode_defs]: "OP_DEF_FUNC = 0x84"
definition OP_DEF_CCONST :: u8 where [opcode_defs]: "OP_DEF_CCONST = 0x85"
definition OP_DEF_CLASS :: u8 where [opcode_defs]: "OP_DEF_CLASS = 0x86"
definition OP_DEF_METHOD :: u8 where [opcode_defs]: "OP_DEF_METHOD = 0x87"
definition OP_DEF_PROP :: u8 where [opcode_defs]: "OP_DEF_PROP = 0x88"
definition OP_DEF_CONST :: u8 where [opcode_defs]: "OP_DEF_CONST = 0x89"
definition OP_DEF_END :: u8 where [opcode_defs]: "OP_DEF_END = 0x8a"
definition OP_DEF_INTERFACE :: u8 where [opcode_defs]: "OP_DEF_INTERFACE = 0x8b"
definition OP_LINE :: u8 where [opcode_defs]: "OP_LINE = 0x90"
definition OP_PROP_GET_DYNAMIC :: u8 where [opcode_defs]: "OP_PROP_GET_DYNAMIC = 0x91"
definition OP_PROP_SET_DYNAMIC :: u8 where [opcode_defs]: "OP_PROP_SET_DYNAMIC = 0x92"
definition OP_PROP_GET_DYNAMIC_QUIET :: u8 where [opcode_defs]: "OP_PROP_GET_DYNAMIC_QUIET = 0x93"
definition OP_MCALL_DYNAMIC :: u8 where [opcode_defs]: "OP_MCALL_DYNAMIC = 0x94"
definition OP_MCALL_DYNAMIC_ARRAY :: u8 where [opcode_defs]: "OP_MCALL_DYNAMIC_ARRAY = 0x95"

section \<open>Names\<close>

definition opcode_names :: "(u8 \<times> bytes) list" where
  "opcode_names =
    [(OP_NOP, ''NOP''),
     (OP_HALT, ''HALT''),
     (OP_POP, ''POP''),
     (OP_DUP, ''DUP''),
     (OP_SWAP, ''SWAP''),
     (OP_LOAD_NULL, ''LOAD_NULL''),
     (OP_LOAD_TRUE, ''LOAD_TRUE''),
     (OP_LOAD_FALSE, ''LOAD_FALSE''),
     (OP_LOAD_I8, ''LOAD_I8''),
     (OP_LOAD_I32, ''LOAD_I32''),
     (OP_LOAD_CONST, ''LOAD_CONST''),
     (OP_LOAD_LOCAL, ''LOAD_LOCAL''),
     (OP_STORE_LOCAL, ''STORE_LOCAL''),
     (OP_LOAD_ARGC, ''LOAD_ARGC''),
     (OP_BIND_GLOBAL, ''BIND_GLOBAL''),
     (OP_STATIC_INIT, ''STATIC_INIT''),
     (OP_LOAD_NAMED_CONST, ''LOAD_NAMED_CONST''),
     (OP_LOAD_LOCAL_QUIET, ''LOAD_LOCAL_QUIET''),
     (OP_UNSET_LOCAL, ''UNSET_LOCAL''),
     (OP_ADD, ''ADD''),
     (OP_SUB, ''SUB''),
     (OP_MUL, ''MUL''),
     (OP_DIV, ''DIV''),
     (OP_MOD, ''MOD''),
     (OP_POW, ''POW''),
     (OP_NEG, ''NEG''),
     (OP_CONCAT, ''CONCAT''),
     (OP_BAND, ''BAND''),
     (OP_BOR, ''BOR''),
     (OP_BXOR, ''BXOR''),
     (OP_BNOT, ''BNOT''),
     (OP_SHL, ''SHL''),
     (OP_SHR, ''SHR''),
     (OP_EQ, ''EQ''),
     (OP_NE, ''NE''),
     (OP_IDENT, ''IDENT''),
     (OP_NIDENT, ''NIDENT''),
     (OP_LT, ''LT''),
     (OP_LE, ''LE''),
     (OP_GT, ''GT''),
     (OP_GE, ''GE''),
     (OP_CMP, ''CMP''),
     (OP_NOT, ''NOT''),
     (OP_CAST, ''CAST''),
     (OP_INSTANCEOF_DYNAMIC, ''INSTANCEOF_DYNAMIC''),
     (OP_JMP, ''JMP''),
     (OP_JMP_IF, ''JMP_IF''),
     (OP_JMP_UNLESS, ''JMP_UNLESS''),
     (OP_JMP_IF_KEEP, ''JMP_IF_KEEP''),
     (OP_JMP_UNLESS_KEEP, ''JMP_UNLESS_KEEP''),
     (OP_JMP_NOTNULL_KEEP, ''JMP_NOTNULL_KEEP''),
     (OP_JMP_IFNULL_KEEP, ''JMP_IFNULL_KEEP''),
     (OP_CALL, ''CALL''),
     (OP_CALL_VALUE, ''CALL_VALUE''),
     (OP_RET, ''RET''),
     (OP_RET_NULL, ''RET_NULL''),
     (OP_ECHO, ''ECHO''),
     (OP_CALL_ARRAY, ''CALL_ARRAY''),
     (OP_CALL_VALUE_ARRAY, ''CALL_VALUE_ARRAY''),
     (OP_INCLUDE, ''INCLUDE''),
     (OP_TYPECHECK_ARGS, ''TYPECHECK_ARGS''),
     (OP_NEW_ARRAY, ''NEW_ARRAY''),
     (OP_ARR_PUSH, ''ARR_PUSH''),
     (OP_ARR_SET, ''ARR_SET''),
     (OP_IDX_GET, ''IDX_GET''),
     (OP_IDX_SET, ''IDX_SET''),
     (OP_IDX_APPEND, ''IDX_APPEND''),
     (OP_FE_INIT, ''FE_INIT''),
     (OP_FE_NEXT, ''FE_NEXT''),
     (OP_FE_FREE, ''FE_FREE''),
     (OP_ARR_EXTEND, ''ARR_EXTEND''),
     (OP_ARR_SEPARATE, ''ARR_SEPARATE''),
     (OP_IDX_UNSET, ''IDX_UNSET''),
     (OP_IDX_GET_QUIET, ''IDX_GET_QUIET''),
     (OP_NEW_OBJ, ''NEW_OBJ''),
     (OP_PROP_GET, ''PROP_GET''),
     (OP_PROP_SET, ''PROP_SET''),
     (OP_MCALL, ''MCALL''),
     (OP_MCALL_ARRAY, ''MCALL_ARRAY''),
     (OP_NEW_OBJ_ARRAY, ''NEW_OBJ_ARRAY''),
     (OP_SCALL, ''SCALL''),
     (OP_SCALL_ARRAY, ''SCALL_ARRAY''),
     (OP_INSTANCEOF, ''INSTANCEOF''),
     (OP_SPROP_GET, ''SPROP_GET''),
     (OP_SPROP_SET, ''SPROP_SET''),
     (OP_CLSCONST, ''CLSCONST''),
     (OP_PROP_GET_QUIET, ''PROP_GET_QUIET''),
     (OP_NEW_OBJ_DYNAMIC, ''NEW_OBJ_DYNAMIC''),
     (OP_NEW_OBJ_DYNAMIC_ARRAY, ''NEW_OBJ_DYNAMIC_ARRAY''),
     (OP_CLOSURE, ''CLOSURE''),
     (OP_THROW, ''THROW''),
     (OP_CLONE, ''CLONE''),
     (OP_DEF_FUNC, ''DEF_FUNC''),
     (OP_DEF_CCONST, ''DEF_CCONST''),
     (OP_DEF_CLASS, ''DEF_CLASS''),
     (OP_DEF_METHOD, ''DEF_METHOD''),
     (OP_DEF_PROP, ''DEF_PROP''),
     (OP_DEF_CONST, ''DEF_CONST''),
     (OP_DEF_END, ''DEF_END''),
     (OP_DEF_INTERFACE, ''DEF_INTERFACE''),
     (OP_LINE, ''LINE''),
     (OP_PROP_GET_DYNAMIC, ''PROP_GET_DYNAMIC''),
     (OP_PROP_SET_DYNAMIC, ''PROP_SET_DYNAMIC''),
     (OP_PROP_GET_DYNAMIC_QUIET, ''PROP_GET_DYNAMIC_QUIET''),
     (OP_MCALL_DYNAMIC, ''MCALL_DYNAMIC''),
     (OP_MCALL_DYNAMIC_ARRAY, ''MCALL_DYNAMIC_ARRAY'')]"

definition pphp_opcode_name :: "u8 \<Rightarrow> bytes" where
  "pphp_opcode_name opcode =
     (case map_of opcode_names opcode of Some name \<Rightarrow> name | None \<Rightarrow> ''UNKNOWN'')"

end
