(* ===== verification/Pbc.thy ===== *)
theory Pbc
  imports Value Opcode "HOL-Library.Monad_Syntax"
begin

text \<open>
  Compiled modules (\<open>src/pbc.h\<close>, \<open>src/module.c\<close>) and the operations with which the code
  generator builds a function prototype (the first part of \<open>src/pbc.c\<close>), in the build
  without \<open>PPHP_TYPECHECK\<close>.

  A growable array is its contents together with its address and capacity: the element
  counts of the structs (\<open>code_length\<close>, \<open>constant_count\<close>, \<open>n_locals\<close>, \<open>catch_count\<close>,
  \<open>count\<close>) are the lengths of the lists.  The heap and its operations are parameters.
  Accesses to arrays of bytes are checked: \<open>None\<close> is an access outside the array.
\<close>

unbundle bit_operations_syntax

section \<open>Little-endian numbers in byte arrays\<close>

definition get_u16 :: "u8 list \<Rightarrow> nat \<Rightarrow> u16 option" where
  "get_u16 bytes offset = do {
     b0 \<leftarrow> rd bytes offset;
     b1 \<leftarrow> rd bytes (offset + 1);
     Some (ucast b0 OR push_bit 8 (ucast b1))
   }"

definition get_u32 :: "u8 list \<Rightarrow> nat \<Rightarrow> u32 option" where
  "get_u32 bytes offset = do {
     b0 \<leftarrow> rd bytes offset;
     b1 \<leftarrow> rd bytes (offset + 1);
     b2 \<leftarrow> rd bytes (offset + 2);
     b3 \<leftarrow> rd bytes (offset + 3);
     Some (ucast b0 OR push_bit 8 (ucast b1) OR push_bit 16 (ucast b2) OR push_bit 24 (ucast b3))
   }"

definition wr :: "'a list \<Rightarrow> nat \<Rightarrow> 'a \<Rightarrow> 'a list option" where
  "wr xs i x = (if i < length xs then Some (xs[i := x]) else None)"

definition put_u16 :: "u8 list \<Rightarrow> nat \<Rightarrow> u16 \<Rightarrow> u8 list option" where
  "put_u16 bytes offset v = do {
     bytes \<leftarrow> wr bytes offset (ucast (v AND 0xff));
     wr bytes (offset + 1) (ucast (drop_bit 8 v))
   }"

definition put_u32 :: "u8 list \<Rightarrow> nat \<Rightarrow> u32 \<Rightarrow> u8 list option" where
  "put_u32 bytes offset v = do {
     bytes \<leftarrow> wr bytes offset (ucast (v AND 0xff));
     bytes \<leftarrow> wr bytes (offset + 1) (ucast (drop_bit 8 v AND 0xff));
     bytes \<leftarrow> wr bytes (offset + 2) (ucast (drop_bit 16 v AND 0xff));
     wr bytes (offset + 3) (ucast (drop_bit 24 v AND 0xff))
   }"

section \<open>Prototypes and modules\<close>

record pcatch =
  try_start :: u16
  try_end :: u16
  handler_pc :: u16
  class_constant :: u16
  variable_slot :: u8
  reserved :: u8

definition PPROTO_FUNCTION :: u8 where "PPROTO_FUNCTION = 0"
definition PPROTO_MAIN :: u8 where "PPROTO_MAIN = 1"
definition PPROTO_METHOD :: u8 where "PPROTO_METHOD = 2"
definition PPROTO_CLOSURE :: u8 where "PPROTO_CLOSURE = 3"

record pproto =
  pp_addr :: addr
  pp_name :: pstring
  n_params :: u8
  n_required :: u8
  variadic :: bool
  is_method :: bool
  conditional :: bool
  owns_code :: bool
  role :: u8
  max_stack :: u16
  code_ptr :: "addr option"
  pp_code :: "u8 list"
  code_capacity :: nat
  constants_ptr :: "addr option"
  constants :: "pvalue list"
  constant_capacity :: nat
  locals_ptr :: "addr option"
  locals :: "pstring list"
  catches_ptr :: "addr option"
  catches :: "pcatch list"
  catch_capacity :: nat

abbreviation code_length :: "pproto \<Rightarrow> nat" where "code_length p \<equiv> length (pp_code p)"
abbreviation constant_count :: "pproto \<Rightarrow> nat" where "constant_count p \<equiv> length (constants p)"
abbreviation n_locals :: "pproto \<Rightarrow> nat" where "n_locals p \<equiv> length (locals p)"
abbreviation catch_count :: "pproto \<Rightarrow> nat" where "catch_count p \<equiv> length (catches p)"

text \<open>
  A string of a loaded image: the header's \<open>base\<close> with the bytes it points to, and whether
  its \<open>owner\<close> is set to the module.  The table is addressed by \<open>ro_strings_ptr\<close>;
  \<open>ro_string_count\<close> is a field of its own because it is set before the table exists.
\<close>

record pro_string =
  ro_base :: pstring
  ro_owner :: bool

record pmodule =
  protos_ptr :: "addr option"
  protos :: "pproto list"
  pm_capacity :: nat
  ro_strings_ptr :: "addr option"
  ro_strings :: "pro_string list"
  ro_string_count :: nat
  pm_image :: "u8 list"
  backing :: "addr option"
  refcnt :: u16
  owns_backing :: bool
  heap_allocated :: bool

abbreviation pm_count :: "pmodule \<Rightarrow> nat" where "pm_count m \<equiv> length (protos m)"

definition sizeof_pproto :: nat where "sizeof_pproto = 136"
definition sizeof_pvalue :: nat where "sizeof_pvalue = 16"
definition sizeof_pcatch :: nat where "sizeof_pcatch = 10"
definition sizeof_pro_string :: nat where "sizeof_pro_string = 32"

section \<open>Building a prototype\<close>

definition grow_array ::
  "'h heap_ops \<Rightarrow> addr option \<Rightarrow> nat \<Rightarrow> nat \<Rightarrow> nat \<Rightarrow> 'h \<Rightarrow> (addr \<times> nat) option \<times> 'h" where
  "grow_array ops array element_size capacity minimum h =
     (let grown = (if capacity = 0 then 8 else capacity * 2 mod (SIZE_MAX + 1));
          grown = (if grown < minimum then minimum else grown)
      in if SIZE_MAX div element_size < grown then (None, h)
         else
           case h_realloc ops array (grown * element_size) h of
             (None, h') \<Rightarrow> (None, h')
           | (Some resized, h') \<Rightarrow> (Some (resized, grown), h'))"

definition empty_pproto :: "addr \<Rightarrow> pstring \<Rightarrow> pproto" where
  "empty_pproto p name =
     \<lparr>pp_addr = p, pp_name = name, n_params = 0, n_required = 0, variadic = False,
      is_method = False, conditional = False, owns_code = True, role = 0, max_stack = 0,
      code_ptr = None, pp_code = [], code_capacity = 0,
      constants_ptr = None, constants = [], constant_capacity = 0,
      locals_ptr = None, locals = [],
      catches_ptr = None, catches = [], catch_capacity = 0\<rparr>"

definition pproto_new :: "'h heap_ops \<Rightarrow> bytes option \<Rightarrow> 'h \<Rightarrow> pproto option \<times> 'h" where
  "pproto_new ops name h =
     (case h_alloc ops sizeof_pproto h of
        (None, h) \<Rightarrow> (None, h)
      | (Some p, h) \<Rightarrow>
          case ps_new ops (case name of None \<Rightarrow> [] | Some b \<Rightarrow> b) h of
            (None, h) \<Rightarrow> (None, h_free ops (Some p) h)
          | (Some s, h) \<Rightarrow> (Some (empty_pproto p s), h))"

definition pproto_emit_u8 :: "'h heap_ops \<Rightarrow> u8 \<Rightarrow> pproto \<Rightarrow> 'h \<Rightarrow> bool \<times> pproto \<times> 'h" where
  "pproto_emit_u8 ops v p h =
     (if code_length p = code_capacity p
      then case grow_array ops (code_ptr p) 1 (code_capacity p) (code_length p + 1) h of
             (None, h) \<Rightarrow> (False, p, h)
           | (Some (ptr, capacity), h) \<Rightarrow>
               (True, p\<lparr>code_ptr := Some ptr, code_capacity := capacity, pp_code := pp_code p @ [v]\<rparr>, h)
      else (True, p\<lparr>pp_code := pp_code p @ [v]\<rparr>, h))"

text \<open>The calls that \<open>&&\<close> joins: the next byte is written only after the one before it.\<close>

fun emit_bytes :: "'h heap_ops \<Rightarrow> u8 list \<Rightarrow> pproto \<Rightarrow> 'h \<Rightarrow> bool \<times> pproto \<times> 'h" where
  "emit_bytes ops [] p h = (True, p, h)"
| "emit_bytes ops (v # vs) p h =
     (case pproto_emit_u8 ops v p h of
        (False, p, h) \<Rightarrow> (False, p, h)
      | (True, p, h) \<Rightarrow> emit_bytes ops vs p h)"

definition pproto_emit_u16 :: "'h heap_ops \<Rightarrow> u16 \<Rightarrow> pproto \<Rightarrow> 'h \<Rightarrow> bool \<times> pproto \<times> 'h" where
  "pproto_emit_u16 ops v p h = emit_bytes ops [ucast (v AND 0xff), ucast (drop_bit 8 v)] p h"

definition pproto_emit_i32 :: "'h heap_ops \<Rightarrow> 32 word \<Rightarrow> pproto \<Rightarrow> 'h \<Rightarrow> bool \<times> pproto \<times> 'h" where
  "pproto_emit_i32 ops bits p h =
     emit_bytes ops [ucast (bits AND 0xff), ucast (drop_bit 8 bits AND 0xff),
       ucast (drop_bit 16 bits AND 0xff), ucast (drop_bit 24 bits AND 0xff)] p h"

text \<open>
  \<open>pproto_patch_i16\<close>: \<open>None\<close> is an access outside the code, \<open>Some None\<close> the failure of the
  function.
\<close>

definition pproto_patch_i16 :: "pproto \<Rightarrow> nat \<Rightarrow> nat \<Rightarrow> pproto option option" where
  "pproto_patch_i16 p operand_offset target =
     (if code_length p < operand_offset + 2 then Some None
      else
        let relative = int target - int (operand_offset + 2)
        in if relative < - 32768 \<or> 32767 < relative then Some None
           else
             let encoded = (word_of_int relative :: u16)
             in do {
               code' \<leftarrow> wr (pp_code p) operand_offset (ucast (encoded AND 0xff));
               code' \<leftarrow> wr code' (operand_offset + 1) (ucast (drop_bit 8 encoded));
               Some (Some (p\<lparr>pp_code := code'\<rparr>))
             })"

definition pproto_add_constant ::
  "'h heap_ops \<Rightarrow> pvalue \<Rightarrow> pproto \<Rightarrow> 'h \<Rightarrow> u16 option \<times> pproto \<times> rc_event list \<times> 'h" where
  "pproto_add_constant ops v p h =
     (if UINT16_MAX \<le> constant_count p then (None, p, [], h)
      else
        let store = (\<lambda>p h. (Some (of_nat (constant_count p)),
                            p\<lparr>constants := constants p @ [v]\<rparr>, [Retain v], h))
        in if constant_count p = constant_capacity p
           then case grow_array ops (constants_ptr p) sizeof_pvalue (constant_capacity p)
                       (constant_count p + 1) h of
                  (None, h) \<Rightarrow> (None, p, [], h)
                | (Some (ptr, capacity), h) \<Rightarrow>
                    store (p\<lparr>constants_ptr := Some ptr, constant_capacity := capacity\<rparr>) h
           else store p h)"

fun find_local_from :: "nat \<Rightarrow> pstring list \<Rightarrow> bytes \<Rightarrow> u8 option" where
  "find_local_from i [] name = None"
| "find_local_from i (s # names) name =
     (if ps_equal_bytes s name then Some (of_nat i) else find_local_from (i + 1) names name)"

definition pproto_find_local :: "pproto \<Rightarrow> bytes \<Rightarrow> u8 option" where
  "pproto_find_local p name = find_local_from 0 (locals p) name"

definition pproto_add_local ::
  "'h heap_ops \<Rightarrow> bytes \<Rightarrow> pproto \<Rightarrow> 'h \<Rightarrow> u8 option \<times> pproto \<times> 'h" where
  "pproto_add_local ops name p h =
     (case pproto_find_local p name of
        Some slot \<Rightarrow> (Some slot, p, h)
      | None \<Rightarrow>
          if n_locals p = UINT8_MAX then (None, p, h)
          else
            case h_realloc ops (locals_ptr p) ((n_locals p + 1) * sizeof_ptr) h of
              (None, h) \<Rightarrow> (None, p, h)
            | (Some resized, h) \<Rightarrow>
                let p = p\<lparr>locals_ptr := Some resized\<rparr>
                in case ps_new ops name h of
                     (None, h) \<Rightarrow> (None, p, h)
                   | (Some s, h) \<Rightarrow>
                       (Some (of_nat (n_locals p)), p\<lparr>locals := locals p @ [s]\<rparr>, h))"

definition pproto_add_catch :: "'h heap_ops \<Rightarrow> pcatch \<Rightarrow> pproto \<Rightarrow> 'h \<Rightarrow> bool \<times> pproto \<times> 'h" where
  "pproto_add_catch ops entry p h =
     (if UINT16_MAX \<le> catch_count p then (False, p, h)
      else if catch_count p = catch_capacity p
           then case grow_array ops (catches_ptr p) sizeof_pcatch (catch_capacity p)
                       (catch_count p + 1) h of
                  (None, h) \<Rightarrow> (False, p, h)
                | (Some (ptr, capacity), h) \<Rightarrow>
                    (True, p\<lparr>catches_ptr := Some ptr, catch_capacity := capacity,
                             catches := catches p @ [entry]\<rparr>, h)
           else (True, p\<lparr>catches := catches p @ [entry]\<rparr>, h))"

definition pmodule_add :: "'h heap_ops \<Rightarrow> pproto \<Rightarrow> pmodule \<Rightarrow> 'h \<Rightarrow> bool \<times> pmodule \<times> 'h" where
  "pmodule_add ops p m h =
     (let store = (\<lambda>m h.
            let p = (if pm_count m = 0 \<and> role p = PPROTO_FUNCTION
                     then p\<lparr>role := PPROTO_MAIN\<rparr> else p)
            in (True, m\<lparr>protos := protos m @ [p]\<rparr>, h))
      in if pm_count m = pm_capacity m
         then case grow_array ops (protos_ptr m) sizeof_ptr (pm_capacity m) (pm_count m + 1) h of
                (None, h) \<Rightarrow> (False, m, h)
              | (Some (ptr, capacity), h) \<Rightarrow>
                  store (m\<lparr>protos_ptr := Some ptr, pm_capacity := capacity\<rparr>) h
         else store m h)"

section \<open>Looking up a function\<close>

text \<open>The ASCII lower-casing that the lookups write out.\<close>

definition fold_case :: "char \<Rightarrow> char" where
  "fold_case c =
     (if ord CHR ''A'' \<le> ord c \<and> ord c \<le> ord CHR ''Z''
      then char_of (ord c + (ord CHR ''a'' - ord CHR ''A'')) else c)"

fun equal_ci_from :: "bytes \<Rightarrow> bytes \<Rightarrow> bool" where
  "equal_ci_from (a # left) (b # right) =
     (if fold_case a = fold_case b then equal_ci_from left right else False)"
| "equal_ci_from _ _ = True"

definition pbc_bytes_equal_ci :: "bytes \<Rightarrow> bytes \<Rightarrow> bool" where
  "pbc_bytes_equal_ci left right =
     (if length left \<noteq> length right then False else equal_ci_from left right)"

fun find_proto_from :: "pproto list \<Rightarrow> pstring \<Rightarrow> pproto option" where
  "find_proto_from [] name = None"
| "find_proto_from (p # ps) name =
     (if conditional p \<or> role p \<noteq> PPROTO_FUNCTION then find_proto_from ps name
      else if ps_length (pp_name p) = ps_length name \<and>
              equal_ci_from (ps_data (pp_name p)) (ps_data name) then Some p
      else find_proto_from ps name)"

definition pmodule_find :: "pmodule \<Rightarrow> pstring \<Rightarrow> pproto option" where
  "pmodule_find m name = find_proto_from (drop 1 (protos m)) name"

section \<open>The life of a module\<close>

fun destroy_strings :: "'h heap_ops \<Rightarrow> pstring list \<Rightarrow> 'h \<Rightarrow> 'h" where
  "destroy_strings ops [] h = h"
| "destroy_strings ops (s # ss) h = destroy_strings ops ss (ps_destroy ops (Some s) h)"

definition pproto_destroy :: "'h heap_ops \<Rightarrow> pproto option \<Rightarrow> 'h \<Rightarrow> rc_event list \<times> 'h" where
  "pproto_destroy ops proto h =
     (case proto of
        None \<Rightarrow> ([], h)
      | Some p \<Rightarrow>
          let h = (if locals_ptr p = None then h else destroy_strings ops (locals p) h);
              h = ps_destroy ops (Some (pp_name p)) h;
              h = h_free ops (locals_ptr p) h;
              h = h_free ops (constants_ptr p) h;
              h = (if owns_code p then h_free ops (code_ptr p) h else h);
              h = h_free ops (catches_ptr p) h
          in (map Release (constants p), h_free ops (Some (pp_addr p)) h))"

definition zero_module :: pmodule where
  "zero_module =
     \<lparr>protos_ptr = None, protos = [], pm_capacity = 0, ro_strings_ptr = None, ro_strings = [],
      ro_string_count = 0, pm_image = [], backing = None, refcnt = 0, owns_backing = False,
      heap_allocated = False\<rparr>"

definition pmodule_init :: "pmodule option \<Rightarrow> pmodule option" where
  "pmodule_init m = (case m of None \<Rightarrow> None | Some _ \<Rightarrow> Some (zero_module\<lparr>refcnt := 1\<rparr>))"

fun destroy_protos :: "'h heap_ops \<Rightarrow> pproto list \<Rightarrow> 'h \<Rightarrow> rc_event list \<times> 'h" where
  "destroy_protos ops [] h = ([], h)"
| "destroy_protos ops (p # ps) h =
     (let (ev, h) = pproto_destroy ops (Some p) h; (evs, h) = destroy_protos ops ps h
      in (ev @ evs, h))"

text \<open>
  The loop that clears the owners writes \<open>ro_string_count\<close> table entries through
  \<open>ro_strings\<close>: \<open>None\<close> is a write through a null pointer or past the table.
\<close>

definition pmodule_destroy :: "'h heap_ops \<Rightarrow> pmodule \<Rightarrow> 'h \<Rightarrow> (pmodule \<times> rc_event list \<times> 'h) option" where
  "pmodule_destroy ops m h =
     (if ro_string_count m \<noteq> 0 \<and> (ro_strings_ptr m = None \<or> length (ro_strings m) < ro_string_count m)
      then None
      else
        let (evs, h) = destroy_protos ops (protos m) h;
            h = h_free ops (protos_ptr m) h;
            h = h_free ops (ro_strings_ptr m) h;
            h = (if owns_backing m then h_free ops (backing m) h else h)
        in Some (zero_module, evs, h))"

definition pmodule_retain :: "pmodule \<Rightarrow> pmodule" where
  "pmodule_retain m = (if refcnt m \<noteq> 65535 then m\<lparr>refcnt := refcnt m + 1\<rparr> else m)"

text \<open>The struct itself, at \<open>self\<close>, is freed only when it was moved to the heap.\<close>

definition pmodule_release ::
  "'h heap_ops \<Rightarrow> addr \<Rightarrow> pmodule \<Rightarrow> 'h \<Rightarrow> (pmodule \<times> rc_event list \<times> 'h) option" where
  "pmodule_release ops self m h =
     (if refcnt m = 0 \<or> refcnt m = 65535 then Some (m, [], h)
      else
        let m = m\<lparr>refcnt := refcnt m - 1\<rparr>
        in if refcnt m \<noteq> 0 then Some (m, [], h)
           else do {
             (m', evs, h) \<leftarrow> pmodule_destroy ops m h;
             Some (m', evs, if heap_allocated m then h_free ops (Some self) h else h)
           })"

end
