(* ===== verification/PbcVerify.thy ===== *)
theory PbcVerify
  imports Pbc
begin

text \<open>
  The verifier of loaded bytecode in \<open>src/pbc.c\<close>: \<open>pbc_instruction_size\<close>, the search for
  instruction boundaries, \<open>pbc_validate_code\<close> and \<open>pbc_finalize_proto_roles\<close>.

  Every read is checked: the outer \<open>None\<close> is an access outside an array.  The inner option
  is the result of the C function: \<open>None\<close> is \<open>goto invalid\<close>.  Where the code joins tests
  by \<open>||\<close>, the model may read an operand before a test that would have skipped the read;
  that makes freedom from outside accesses harder, not easier.
\<close>

unbundle bit_operations_syntax

section \<open>Helpers\<close>

definition align4 :: "nat \<Rightarrow> nat" where
  "align4 v = (let w = (v + 3) mod (SIZE_MAX + 1) in w - w mod 4)"

definition size_add :: "nat \<Rightarrow> nat \<Rightarrow> nat option" where
  "size_add v amount = (if SIZE_MAX - v < amount then None else Some (v + amount))"

definition size_align4 :: "nat \<Rightarrow> nat option" where
  "size_align4 v = (if SIZE_MAX - 3 < v then None else Some (align4 v))"

definition pbc_range_available :: "nat \<Rightarrow> nat \<Rightarrow> nat \<Rightarrow> bool" where
  "pbc_range_available offset need len \<longleftrightarrow> offset \<le> len \<and> need \<le> len - offset"

definition pbc_advance :: "nat \<Rightarrow> nat \<Rightarrow> nat \<Rightarrow> nat option" where
  "pbc_advance offset need len =
     (if \<not> pbc_range_available offset need len then None else Some (offset + need))"

fun pv_is_string :: "pvalue \<Rightarrow> bool" where
  "pv_is_string (PString s) = True"
| "pv_is_string _ = False"

definition pbc_string_constant :: "pproto \<Rightarrow> u16 \<Rightarrow> bool" where
  "pbc_string_constant p index \<longleftrightarrow>
     unat index < constant_count p \<and> pv_is_string (constants p ! unat index)"

text \<open>\<open>(const pstring *) constants[index].as.gc\<close> of a constant that is a string.\<close>

definition constant_string :: "pproto \<Rightarrow> u16 \<Rightarrow> pstring option" where
  "constant_string p index =
     (case rd (constants p) (unat index) of Some (PString s) \<Rightarrow> Some s | _ \<Rightarrow> None)"

definition pbc_flag_visibility :: "u8 \<Rightarrow> bool" where
  "pbc_flag_visibility flags \<longleftrightarrow>
     (let visibility = flags AND (1 OR 2 OR 4)
      in visibility = 1 \<or> visibility = 2 \<or> visibility = 4)"

definition identifier_start :: "char \<Rightarrow> bool" where
  "identifier_start c \<longleftrightarrow>
     ord CHR ''A'' \<le> ord c \<and> ord c \<le> ord CHR ''Z'' \<or>
     ord CHR ''a'' \<le> ord c \<and> ord c \<le> ord CHR ''z'' \<or> c = CHR ''_'' \<or> 128 \<le> ord c"

fun pbc_identifier_bytes :: "bytes \<Rightarrow> bool" where
  "pbc_identifier_bytes [] = False"
| "pbc_identifier_bytes (c # cs) \<longleftrightarrow>
     identifier_start c \<and> list_all (\<lambda>c. identifier_start c \<or> is_digit c) cs"

section \<open>Instruction sizes\<close>

definition instruction_sizes :: "u8 list" where
  "instruction_sizes =
    [0x11, 0x11, 0x01, 0x00, 0x00, 0x00, 0x00, 0x00,
     0x11, 0x21, 0x35, 0x22, 0x21, 0x34, 0x22, 0x00,
     0x11, 0x11, 0x11, 0x11, 0x11, 0x11, 0x11, 0x00,
     0x11, 0x11, 0x11, 0x11, 0x11, 0x02, 0x01, 0x00,
     0x33, 0x33, 0x33, 0x03, 0x00, 0x00, 0x00, 0x00,
     0x24, 0x11, 0x32, 0x21,
     0x00,
     0x00, 0x00, 0x00,
     0x13, 0x11, 0x11, 0x41, 0x11, 0x11, 0x01, 0x00,
     0x34, 0x43, 0x33, 0x56, 0x53, 0x55, 0x23, 0x01,
     0x1f, 0x01, 0x33, 0x66,
     0x34,
     0x31, 0x00, 0x00,
     0x13, 0x11, 0x12]"

text \<open>\<open>size >> 4\<close> for an odd opcode, \<open>size & 15\<close> for an even one.\<close>

definition opcode_size :: "u8 \<Rightarrow> nat option" where
  "opcode_size opcode = do {
     size \<leftarrow> rd instruction_sizes (unat (drop_bit 1 opcode));
     Some (unat (if opcode AND 1 \<noteq> 0 then drop_bit 4 size else size AND 15))
   }"

definition pbc_instruction_size :: "u8 list \<Rightarrow> nat \<Rightarrow> nat option" where
  "pbc_instruction_size code pc =
     (if length code \<le> pc then Some 0
      else do {
        opcode \<leftarrow> rd code pc;
        let pc = pc + 1;
        if OP_MCALL_DYNAMIC_ARRAY < opcode then Some 0
        else do {
          size \<leftarrow> opcode_size opcode;
          if size = 0 then Some 0
          else if size = 15 then
            if \<not> pbc_range_available pc 3 (length code) then Some 0
            else do {
              count \<leftarrow> rd code (pc + 2);
              let size = 4 + unat count * 2;
              Some (if pbc_range_available pc (size - 1) (length code) then size else 0)
            }
          else Some (if pbc_range_available pc (size - 1) (length code) then size else 0)
        }
      })"

section \<open>Instruction boundaries\<close>

function boundary_loop :: "u8 list \<Rightarrow> nat \<Rightarrow> nat \<Rightarrow> bool option" where
  "boundary_loop code target pc =
     (if pc < target then do {
        size \<leftarrow> pbc_instruction_size code pc;
        if size = 0 \<or> target - pc < size then Some False
        else boundary_loop code target (pc + size)
      } else Some (pc = target))"
  by pat_completeness auto
termination
  by (relation "measure (\<lambda>(code, target, pc). target - pc)") auto

declare boundary_loop.simps [simp del]

definition pbc_instruction_boundary :: "u8 list \<Rightarrow> nat \<Rightarrow> bool option" where
  "pbc_instruction_boundary code target =
     (if length code \<le> target then Some False else boundary_loop code target 0)"

definition pbc_instruction_boundary_or_end :: "u8 list \<Rightarrow> nat \<Rightarrow> bool option" where
  "pbc_instruction_boundary_or_end code target =
     (if target = length code then Some True else pbc_instruction_boundary code target)"

section \<open>Names of methods and closures\<close>

definition pbc_method_proto_name :: "pproto \<Rightarrow> pstring option \<Rightarrow> pstring option \<Rightarrow> bool" where
  "pbc_method_proto_name p class_name method_name =
     (case (class_name, method_name) of
        (Some c, Some m) \<Rightarrow>
          let name = ps_data (pp_name p); class_length = ps_length c; method_length = ps_length m
          in length name = class_length + 2 + method_length \<and>
             take class_length name = ps_data c \<and>
             take 2 (drop class_length name) = ''::'' \<and>
             take method_length (drop (class_length + 2) name) = ps_data m
      | _ \<Rightarrow> False)"

fun closure_digits :: "nat \<Rightarrow> bytes \<Rightarrow> nat option" where
  "closure_digits v [] = Some v"
| "closure_digits v (c # cs) =
     (if \<not> is_digit c then None
      else if (SIZE_MAX - digit_value c) div 10 < v then None
      else closure_digits (v * 10 + digit_value c) cs)"

definition pbc_closure_proto_name :: "pproto \<Rightarrow> nat \<Rightarrow> bool" where
  "pbc_closure_proto_name p index =
     (let name = ps_data (pp_name p)
      in if length name < 11 then False
         else if take 9 name \<noteq> ''{closure#'' \<or> name ! (length name - 1) \<noteq> CHR ''}'' then False
         else if name ! 9 = CHR ''0'' \<and> 9 + 2 < length name then False
         else closure_digits 0 (take (length name - 10) (drop 9 name)) = Some index)"

section \<open>References between prototypes\<close>

definition PBC_REF_FUNCTION :: u8 where "PBC_REF_FUNCTION = 1"
definition PBC_REF_METHOD :: u8 where "PBC_REF_METHOD = 2"
definition PBC_REF_CLOSURE :: u8 where "PBC_REF_CLOSURE = 4"

definition pbc_reference_proto :: "pproto list \<Rightarrow> nat \<Rightarrow> u8 \<Rightarrow> pproto list option option" where
  "pbc_reference_proto ps target r = do {
     p \<leftarrow> rd ps target;
     if role p \<noteq> 0 then Some None
     else Some (Some (ps[target := p\<lparr>role := r\<rparr>]))
   }"

section \<open>Operands\<close>

text \<open>
  The variables of the second pass of \<open>pbc_validate_code\<close> and the prototypes, whose roles
  it writes.
\<close>

record verify_state =
  vs_protos :: "pproto list"
  building_class :: bool
  class_readonly :: bool
  building_class_name :: "pstring option"

abbreviation invalid_if :: "bool \<Rightarrow> verify_state \<Rightarrow> verify_state option option" where
  "invalid_if b st \<equiv> Some (if b then None else Some st)"

definition jump_target :: "nat \<Rightarrow> u16 \<Rightarrow> nat" where
  "jump_target following relative = nat ((int following + sint relative) mod 2 ^ 64)"

definition check_static_init ::
  "pproto \<Rightarrow> nat \<Rightarrow> nat \<Rightarrow> verify_state \<Rightarrow> verify_state option option" where
  "check_static_init p pc following st = do {
     relative \<leftarrow> get_u16 (pp_code p) (pc + 1);
     slot \<leftarrow> rd (pp_code p) pc;
     ok \<leftarrow> pbc_instruction_boundary (pp_code p) (jump_target following relative);
     invalid_if (n_locals p \<le> unat slot \<or> \<not> ok) st
   }"

definition check_def_func :: "u16 \<Rightarrow> verify_state \<Rightarrow> verify_state option option" where
  "check_def_func first st =
     (if length (vs_protos st) \<le> unat first then Some None
      else do {
        q \<leftarrow> rd (vs_protos st) (unat first);
        if is_method q \<or> \<not> conditional q then Some None
        else do {
          marked \<leftarrow> pbc_reference_proto (vs_protos st) (unat first) PBC_REF_FUNCTION;
          Some (map_option (\<lambda>ps. st\<lparr>vs_protos := ps\<rparr>) marked)
        }
      })"

definition check_jump ::
  "pproto \<Rightarrow> nat \<Rightarrow> u16 \<Rightarrow> verify_state \<Rightarrow> verify_state option option" where
  "check_jump p following first st = do {
     ok \<leftarrow> pbc_instruction_boundary (pp_code p) (jump_target following first);
     invalid_if (\<not> ok) st
   }"

definition check_fe_next ::
  "pproto \<Rightarrow> nat \<Rightarrow> nat \<Rightarrow> u16 \<Rightarrow> verify_state \<Rightarrow> verify_state option option" where
  "check_fe_next p pc following first st = do {
     mode \<leftarrow> rd (pp_code p) (pc + 2);
     ok \<leftarrow> pbc_instruction_boundary (pp_code p) (jump_target following first);
     invalid_if (1 < mode \<or> \<not> ok) st
   }"

definition check_def_class ::
  "pproto \<Rightarrow> nat \<Rightarrow> u16 \<Rightarrow> verify_state \<Rightarrow> verify_state option option" where
  "check_def_class p pc first st = do {
     parent \<leftarrow> get_u16 (pp_code p) (pc + 2);
     flags \<leftarrow> rd (pp_code p) (pc + 4);
     invalid_if
       (building_class st \<or> \<not> pbc_string_constant p first \<or>
        (parent \<noteq> 65535 \<and> \<not> pbc_string_constant p parent) \<or>
        flags AND NOT (16 OR 32 OR 64 OR 128) \<noteq> 0 \<or>
        flags AND (16 OR 32) = 16 OR 32 \<or>
        (flags AND 128 \<noteq> 0 \<and> (flags AND 16 = 0 \<or> flags AND (32 OR 64) \<noteq> 0)))
       (st\<lparr>building_class := True, building_class_name := constant_string p first,
           class_readonly := flags AND 64 \<noteq> 0\<rparr>)
   }"

definition check_def_method ::
  "pproto \<Rightarrow> nat \<Rightarrow> u16 \<Rightarrow> verify_state \<Rightarrow> verify_state option option" where
  "check_def_method p pc first st = do {
     target \<leftarrow> get_u16 (pp_code p) (pc + 2);
     flags \<leftarrow> rd (pp_code p) (pc + 4);
     let method_name = (if pbc_string_constant p first then constant_string p first else None);
     let constructor =
       (case method_name of None \<Rightarrow> False | Some m \<Rightarrow> pbc_bytes_equal_ci (ps_data m) ''__construct'');
     let destructor =
       (case method_name of None \<Rightarrow> False | Some m \<Rightarrow> pbc_bytes_equal_ci (ps_data m) ''__destruct'');
     if \<not> building_class st \<or> \<not> pbc_string_constant p first \<or>
        target = 0 \<or> length (vs_protos st) \<le> unat target
     then Some None
     else do {
       q \<leftarrow> rd (vs_protos st) (unat target);
       if conditional q then Some None
       else do {
         marked \<leftarrow> pbc_reference_proto (vs_protos st) (unat target) PBC_REF_METHOD;
         case marked of
           None \<Rightarrow> Some None
         | Some ps \<Rightarrow>
             invalid_if
               (\<not> pbc_method_proto_name q (building_class_name st) method_name \<or>
                \<not> pbc_flag_visibility flags \<or>
                flags AND NOT (1 OR 2 OR 4 OR 8 OR 16 OR 32) \<noteq> 0 \<or>
                flags AND (16 OR 32) = 16 OR 32 \<or>
                ((constructor \<or> destructor) \<and> flags AND 8 \<noteq> 0) \<or>
                (destructor \<and> n_params q \<noteq> 0) \<or>
                (flags AND 8 = 0) \<noteq> is_method q)
               (st\<lparr>vs_protos := ps\<rparr>)
       }
     }
   }"

definition check_def_prop ::
  "pproto \<Rightarrow> nat \<Rightarrow> u16 \<Rightarrow> verify_state \<Rightarrow> verify_state option option" where
  "check_def_prop p pc first st = do {
     flags \<leftarrow> rd (pp_code p) (pc + 2);
     invalid_if
       (\<not> building_class st \<or> \<not> pbc_string_constant p first \<or>
        \<not> pbc_flag_visibility flags \<or>
        flags AND NOT (1 OR 2 OR 4 OR 8 OR 64) \<noteq> 0 \<or>
        flags AND (8 OR 64) = 8 OR 64 \<or>
        (class_readonly st \<and> flags AND 64 = 0))
       st
   }"

fun capture_loop :: "pproto \<Rightarrow> nat \<Rightarrow> nat \<Rightarrow> bool option" where
  "capture_loop p at 0 = Some True"
| "capture_loop p at (Suc count) = do {
     mode \<leftarrow> rd (pp_code p) at;
     slot \<leftarrow> rd (pp_code p) (at + 1);
     if mode \<noteq> 0 \<or> n_locals p \<le> unat slot then Some False
     else capture_loop p (at + 2) count
   }"

definition check_closure ::
  "pproto \<Rightarrow> nat \<Rightarrow> u16 \<Rightarrow> verify_state \<Rightarrow> verify_state option option" where
  "check_closure p pc first st = do {
     count \<leftarrow> rd (pp_code p) (pc + 2);
     if first = 0 \<or> length (vs_protos st) \<le> unat first then Some None
     else do {
       q \<leftarrow> rd (vs_protos st) (unat first);
       if conditional q then Some None
       else do {
         marked \<leftarrow> pbc_reference_proto (vs_protos st) (unat first) PBC_REF_CLOSURE;
         case marked of
           None \<Rightarrow> Some None
         | Some ps \<Rightarrow>
             if \<not> pbc_closure_proto_name q (unat first) \<or>
                n_locals q < unat (n_params q) + unat count
             then Some None
             else do {
               ok \<leftarrow> capture_loop p (pc + 3) (unat count);
               invalid_if (\<not> ok) (st\<lparr>vs_protos := ps\<rparr>)
             }
       }
     }
   }"

text \<open>The \<open>switch\<close>: \<open>pc\<close> is the offset after the opcode, \<open>following\<close> the next instruction.\<close>

definition check_operands ::
  "pproto \<Rightarrow> u8 \<Rightarrow> nat \<Rightarrow> nat \<Rightarrow> u16 \<Rightarrow> verify_state \<Rightarrow> verify_state option option" where
  "check_operands p opcode pc following first st =
     (if opcode \<in> {OP_LOAD_LOCAL, OP_LOAD_LOCAL_QUIET, OP_STORE_LOCAL, OP_UNSET_LOCAL,
                   OP_BIND_GLOBAL}
      then do {
        slot \<leftarrow> rd (pp_code p) pc;
        invalid_if (n_locals p \<le> unat slot) st
      }
      else if opcode = OP_STATIC_INIT then check_static_init p pc following st
      else if opcode = OP_LOAD_CONST then invalid_if (constant_count p \<le> unat first) st
      else if opcode \<in> {OP_LOAD_NAMED_CONST, OP_DEF_CONST, OP_CALL_ARRAY, OP_MCALL_ARRAY,
                        OP_NEW_OBJ_ARRAY, OP_DEF_CCONST, OP_DEF_INTERFACE, OP_PROP_GET,
                        OP_PROP_GET_QUIET, OP_PROP_SET, OP_INSTANCEOF}
      then invalid_if
             (\<not> pbc_string_constant p first \<or>
              ((opcode = OP_DEF_CCONST \<or> opcode = OP_DEF_INTERFACE) \<and> \<not> building_class st)) st
      else if opcode = OP_DEF_FUNC then check_def_func first st
      else if opcode \<in> {OP_CALL, OP_NEW_OBJ, OP_MCALL}
      then do {
        argc \<leftarrow> rd (pp_code p) (pc + 2);
        invalid_if (\<not> pbc_string_constant p first \<or> 31 < argc) st
      }
      else if opcode \<in> {OP_CALL_VALUE, OP_NEW_OBJ_DYNAMIC, OP_MCALL_DYNAMIC}
      then do {
        argc \<leftarrow> rd (pp_code p) pc;
        invalid_if (31 < argc) st
      }
      else if opcode \<in> {OP_SCALL, OP_SCALL_ARRAY, OP_SPROP_GET, OP_SPROP_SET, OP_CLSCONST}
      then do {
        second \<leftarrow> get_u16 (pp_code p) (pc + 2);
        argc \<leftarrow> (if opcode = OP_SCALL then rd (pp_code p) (pc + 4) else Some 0);
        invalid_if (\<not> pbc_string_constant p first \<or> \<not> pbc_string_constant p second \<or>
                    (opcode = OP_SCALL \<and> 31 < argc)) st
      }
      else if opcode \<in> {OP_JMP, OP_JMP_IF, OP_JMP_UNLESS, OP_JMP_IF_KEEP, OP_JMP_UNLESS_KEEP,
                        OP_JMP_NOTNULL_KEEP, OP_JMP_IFNULL_KEEP}
      then check_jump p following first st
      else if opcode = OP_FE_NEXT then check_fe_next p pc following first st
      else if opcode = OP_INCLUDE
      then do {
        kind \<leftarrow> rd (pp_code p) pc;
        invalid_if (kind \<noteq> 113 \<and> kind \<noteq> 114 \<and> kind \<noteq> 129 \<and> kind \<noteq> 130) st
      }
      else if opcode = OP_CAST
      then do {
        type \<leftarrow> rd (pp_code p) pc;
        invalid_if (type \<noteq> 3 \<and> type \<noteq> 5 \<and> type \<noteq> 2 \<and> type \<noteq> 6 \<and> type \<noteq> 4) st
      }
      else if opcode = OP_DEF_CLASS then check_def_class p pc first st
      else if opcode = OP_DEF_METHOD then check_def_method p pc first st
      else if opcode = OP_DEF_PROP then check_def_prop p pc first st
      else if opcode = OP_DEF_END
      then invalid_if (\<not> building_class st)
             (st\<lparr>building_class := False, class_readonly := False, building_class_name := None\<rparr>)
      else if opcode = OP_CLOSURE then check_closure p pc first st
      else Some (Some st))"

section \<open>The verifier\<close>

function sizes_loop :: "u8 list \<Rightarrow> nat \<Rightarrow> bool option" where
  "sizes_loop code pc =
     (if pc < length code then do {
        size \<leftarrow> pbc_instruction_size code pc;
        if size = 0 then Some False else sizes_loop code (pc + size)
      } else Some True)"
  by pat_completeness auto
termination
  by (relation "measure (\<lambda>(code, pc). length code - pc)") auto

declare sizes_loop.simps [simp del]

text \<open>
  The second loop.  A size of 0 does not occur there (the first loop rejected it); the loop
  would then not move, which is \<open>None\<close> here.
\<close>

function operands_loop :: "pproto \<Rightarrow> nat \<Rightarrow> verify_state \<Rightarrow> verify_state option option" where
  "operands_loop p pc st =
     (if pc < code_length p then do {
        size \<leftarrow> pbc_instruction_size (pp_code p) pc;
        opcode \<leftarrow> rd (pp_code p) pc;
        first \<leftarrow> (if 2 < size then get_u16 (pp_code p) (pc + 1) else Some 0);
        checked \<leftarrow> check_operands p opcode (pc + 1) (pc + size) first st;
        case checked of
          None \<Rightarrow> Some None
        | Some st' \<Rightarrow> if size = 0 then None else operands_loop p (pc + size) st'
      } else Some (Some st))"
  by pat_completeness auto
termination
  by (relation "measure (\<lambda>(p, pc, st). code_length p - pc)") auto

declare operands_loop.simps [simp del]

fun catches_loop :: "u8 list \<Rightarrow> pcatch list \<Rightarrow> bool option" where
  "catches_loop code [] = Some True"
| "catches_loop code (entry # entries) = do {
     starts \<leftarrow> pbc_instruction_boundary code (unat (try_start entry));
     ends \<leftarrow> pbc_instruction_boundary_or_end code (unat (try_end entry));
     handles \<leftarrow> pbc_instruction_boundary code (unat (handler_pc entry));
     if \<not> starts \<or> \<not> ends \<or> \<not> handles then Some False else catches_loop code entries
   }"

definition pbc_validate_code :: "pproto list \<Rightarrow> nat \<Rightarrow> pproto list option option" where
  "pbc_validate_code ps proto_index = do {
     p \<leftarrow> rd ps proto_index;
     sized \<leftarrow> sizes_loop (pp_code p) 0;
     if \<not> sized then Some None
     else do {
       checked \<leftarrow> operands_loop p 0 \<lparr>vs_protos = ps, building_class = False,
                    class_readonly = False, building_class_name = None\<rparr>;
       case checked of
         None \<Rightarrow> Some None
       | Some st \<Rightarrow>
           if building_class st then Some None
           else do {
             ok \<leftarrow> catches_loop (pp_code p) (catches p);
             Some (if ok then Some (vs_protos st) else None)
           }
     }
   }"

text \<open>Validation of all prototypes in order, as the loader does it.\<close>

fun validate_from :: "nat \<Rightarrow> nat \<Rightarrow> pproto list \<Rightarrow> pproto list option option" where
  "validate_from i 0 ps = Some (Some ps)"
| "validate_from i (Suc n) ps = do {
     r \<leftarrow> pbc_validate_code ps i;
     case r of None \<Rightarrow> Some None | Some ps' \<Rightarrow> validate_from (i + 1) n ps'
   }"

section \<open>Roles\<close>

definition final_role :: "nat \<Rightarrow> pproto \<Rightarrow> u8 option" where
  "final_role target p =
     (let references = role p
      in if target = 0 then (if references \<noteq> 0 then None else Some PPROTO_MAIN)
         else if references = PBC_REF_METHOD then Some PPROTO_METHOD
         else if references = PBC_REF_CLOSURE then
           (if is_method p then None else Some PPROTO_CLOSURE)
         else if references = PBC_REF_FUNCTION \<or> references = 0 then
           (if (references = PBC_REF_FUNCTION) \<noteq> conditional p \<or> is_method p \<or>
               \<not> pbc_identifier_bytes (ps_data (pp_name p))
            then None else Some PPROTO_FUNCTION)
         else None)"

fun finalize_from :: "nat \<Rightarrow> pproto list \<Rightarrow> pproto list option" where
  "finalize_from target [] = Some []"
| "finalize_from target (p # ps) = do {
     r \<leftarrow> final_role target p;
     ps' \<leftarrow> finalize_from (target + 1) ps;
     Some (p\<lparr>role := r\<rparr> # ps')
   }"

definition pbc_finalize_proto_roles :: "pproto list \<Rightarrow> pproto list option" where
  "pbc_finalize_proto_roles ps = finalize_from 0 ps"

text \<open>
  The end of \<open>pphp_pbc_load\<close>: the roles are cleared to collect references, every prototype
  is validated, and the roles are assigned.
\<close>

definition verify_module :: "pproto list \<Rightarrow> pproto list option option" where
  "verify_module ps = do {
     r \<leftarrow> validate_from 0 (length ps) (map (\<lambda>p. p\<lparr>role := 0\<rparr>) ps);
     Some (case r of None \<Rightarrow> None | Some ps' \<Rightarrow> pbc_finalize_proto_roles ps')
   }"

end
