(* ===== verification/PbcVerifyProps.thy ===== *)
theory PbcVerifyProps
  imports PbcVerify
begin

text \<open>
  What \<open>pbc_validate_code\<close> establishes: it never reads outside an array, it accepts only code
  whose instructions are complete and whose operands are in range, every jump and every
  exception handler goes to the start of an instruction, and every prototype is the target
  of at most one instruction, which fixes its role.
\<close>

section \<open>Reading numbers\<close>

lemma rd_eq_None_iff [simp]: "rd xs i = None \<longleftrightarrow> length xs \<le> i"
  by (simp add: rd_def)

lemma get_u16_total: "offset + 1 < length bytes \<Longrightarrow> get_u16 bytes offset \<noteq> None"
  by (simp add: get_u16_def)

lemma get_u16_Some: "offset + 1 < length bytes \<Longrightarrow>
    get_u16 bytes offset = Some (ucast (bytes ! offset) OR push_bit 8 (ucast (bytes ! (offset + 1))))"
  by (simp add: get_u16_def)

lemma get_u16_None_iff: "get_u16 bytes offset = None \<longleftrightarrow> length bytes \<le> offset + 1"
  by (auto simp: get_u16_def Option.bind_eq_None_conv rd_def)

section \<open>Sizes\<close>

lemmas opcode_size_eval = opcode_size_def instruction_sizes_def opcode_defs

lemma sizes_2:
  "opcode \<in> {OP_LOAD_LOCAL, OP_LOAD_LOCAL_QUIET, OP_STORE_LOCAL, OP_UNSET_LOCAL, OP_BIND_GLOBAL,
     OP_CALL_VALUE, OP_NEW_OBJ_DYNAMIC, OP_MCALL_DYNAMIC, OP_INCLUDE, OP_CAST} \<Longrightarrow>
   opcode_size opcode = Some 2"
  by (elim insertE emptyE) (simp_all add: opcode_size_eval)

lemma sizes_3:
  "opcode \<in> {OP_LOAD_CONST, OP_LOAD_NAMED_CONST, OP_DEF_CONST, OP_CALL_ARRAY, OP_MCALL_ARRAY,
     OP_NEW_OBJ_ARRAY, OP_DEF_CCONST, OP_DEF_INTERFACE, OP_PROP_GET, OP_PROP_GET_QUIET,
     OP_PROP_SET, OP_INSTANCEOF, OP_DEF_FUNC, OP_JMP, OP_JMP_IF, OP_JMP_UNLESS, OP_JMP_IF_KEEP,
     OP_JMP_UNLESS_KEEP, OP_JMP_NOTNULL_KEEP, OP_JMP_IFNULL_KEEP} \<Longrightarrow>
   opcode_size opcode = Some 3"
  by (elim insertE emptyE) (simp_all add: opcode_size_eval)

lemma sizes_4:
  "opcode \<in> {OP_STATIC_INIT, OP_CALL, OP_NEW_OBJ, OP_MCALL, OP_FE_NEXT, OP_DEF_PROP} \<Longrightarrow>
   opcode_size opcode = Some 4"
  by (elim insertE emptyE) (simp_all add: opcode_size_eval)

lemma sizes_5:
  "opcode \<in> {OP_SCALL_ARRAY, OP_SPROP_GET, OP_SPROP_SET, OP_CLSCONST} \<Longrightarrow>
   opcode_size opcode = Some 5"
  by (elim insertE emptyE) (simp_all add: opcode_size_eval)

lemma sizes_6:
  "opcode \<in> {OP_SCALL, OP_DEF_CLASS, OP_DEF_METHOD} \<Longrightarrow> opcode_size opcode = Some 6"
  by (elim insertE emptyE) (simp_all add: opcode_size_eval)

lemma size_closure: "opcode_size OP_CLOSURE = Some 15"
  by (simp add: opcode_size_eval)

lemma opcode_size_total:
  assumes "\<not> OP_MCALL_DYNAMIC_ARRAY < opcode"
  shows "\<exists>n. opcode_size opcode = Some n"
proof -
  have "unat opcode \<le> 149"
    using assms by (simp add: opcode_defs word_less_nat_alt)
  then have "unat (drop_bit 1 opcode) < 75"
    by (simp add: drop_bit_eq_div unat_div)
  moreover have "length instruction_sizes = 75"
    by (simp add: instruction_sizes_def)
  ultimately show ?thesis by (simp add: opcode_size_def)
qed

lemma instruction_size_total: "\<exists>n. pbc_instruction_size code pc = Some n"
  using opcode_size_total [of "code ! pc"]
  by (fastforce simp: pbc_instruction_size_def Let_def pbc_range_available_def)

lemma instruction_size_fixed:
  assumes "pbc_instruction_size code pc = Some n" "n \<noteq> 0"
    and "opcode_size (code ! pc) = Some k" "k \<noteq> 15"
  shows "n = k \<and> pc + n \<le> length code"
  using assms
  by (auto simp: pbc_instruction_size_def Let_def pbc_range_available_def split: if_splits)

lemma instruction_size_closure:
  assumes "pbc_instruction_size code pc = Some n" "n \<noteq> 0" "code ! pc = OP_CLOSURE"
  shows "n = 4 + unat (code ! (pc + 3)) * 2" "pc + n \<le> length code"
  using assms
  by (auto simp: pbc_instruction_size_def Let_def pbc_range_available_def size_closure numeral_3_eq_3
      split: if_splits)

lemma instruction_size_bound:
  assumes "pbc_instruction_size code pc = Some n" "n \<noteq> 0"
  shows "pc < length code" "pc + n \<le> length code"
  using assms
  by (auto simp: pbc_instruction_size_def Let_def pbc_range_available_def
      Option.bind_eq_Some_conv split: if_splits)

section \<open>Instruction boundaries\<close>

text \<open>The offsets at which an instruction starts when the code is decoded from the front.\<close>

inductive_set instruction_starts :: "u8 list \<Rightarrow> nat set" for code where
  first_start: "0 \<in> instruction_starts code"
| next_start: "pc \<in> instruction_starts code \<Longrightarrow> pbc_instruction_size code pc = Some n \<Longrightarrow> n \<noteq> 0 \<Longrightarrow>
    pc + n \<in> instruction_starts code"

lemma starts_do_not_overlap:
  "pc \<in> instruction_starts code \<Longrightarrow> s \<in> instruction_starts code \<Longrightarrow> s < pc \<Longrightarrow>
   \<exists>m. pbc_instruction_size code s = Some m \<and> m \<noteq> 0 \<and> s + m \<le> pc"
proof (induction pc arbitrary: s rule: less_induct)
  case (less pc)
  from less.prems(1) show ?case
  proof cases
    case first_start
    with less.prems show ?thesis by simp
  next
    case (next_start pc' n)
    consider "s < pc'" | "s = pc'" | "pc' < s" by linarith
    then show ?thesis
    proof cases
      case 1
      then obtain m where "pbc_instruction_size code s = Some m" "m \<noteq> 0" "s + m \<le> pc'"
        using less.IH [of pc' s] next_start less.prems(2) by auto
      then show ?thesis using next_start(1) by auto
    next
      case 2
      then show ?thesis using next_start by auto
    next
      case 3
      then have "s + 0 < pc" "pc' + n \<le> s"
        using less.IH [of s pc'] next_start less.prems(2,3) by auto
      then show ?thesis using next_start(1) by simp
    qed
  qed
qed

lemma boundary_loop_iff:
  "pc \<in> instruction_starts code \<Longrightarrow> pc \<le> target \<Longrightarrow>
   boundary_loop code target pc = Some (target \<in> instruction_starts code)"
proof (induction code target pc rule: boundary_loop.induct)
  case (1 code target pc)
  obtain n where n: "pbc_instruction_size code pc = Some n"
    using instruction_size_total by blast
  show ?case
  proof (cases "pc < target")
    case False
    then show ?thesis using 1 by (simp add: boundary_loop.simps)
  next
    case True
    show ?thesis
    proof (cases "n = 0 \<or> target - pc < n")
      case outside: True
      have "target \<notin> instruction_starts code"
        using starts_do_not_overlap [of target code pc] 1(2) True n outside by auto
      then show ?thesis using True n outside by (simp add: boundary_loop.simps)
    next
      case False
      then have "boundary_loop code target (pc + n) = Some (target \<in> instruction_starts code)"
        using True n 1 by (intro "1.IH") (auto intro: instruction_starts.next_start)
      then show ?thesis using True n False by (subst boundary_loop.simps) simp
    qed
  qed
qed

lemma instruction_boundary_iff:
  "pbc_instruction_boundary code target =
     Some (target < length code \<and> target \<in> instruction_starts code)"
  by (simp add: pbc_instruction_boundary_def boundary_loop_iff instruction_starts.first_start
)

lemma instruction_boundary_or_end_iff:
  "pbc_instruction_boundary_or_end code target =
     Some (target = length code \<or> target < length code \<and> target \<in> instruction_starts code)"
  by (simp add: pbc_instruction_boundary_or_end_def instruction_boundary_iff)

lemma sizes_loop_total: "\<exists>b. sizes_loop code pc = Some b"
proof (induction code pc rule: sizes_loop.induct)
  case (1 code pc)
  obtain n where n: "pbc_instruction_size code pc = Some n"
    using instruction_size_total by blast
  show ?case
    using 1 n by (cases "n = 0") (auto simp: sizes_loop.simps [of code pc])
qed

lemma sizes_loop_accepts:
  "sizes_loop code pc = Some True \<Longrightarrow> pc \<in> instruction_starts code \<Longrightarrow>
   q \<in> instruction_starts code \<Longrightarrow> pc \<le> q \<Longrightarrow> q < length code \<Longrightarrow>
   \<exists>n. pbc_instruction_size code q = Some n \<and> n \<noteq> 0"
proof (induction code pc rule: sizes_loop.induct)
  case (1 code pc)
  obtain n where n: "pbc_instruction_size code pc = Some n"
    using instruction_size_total by blast
  show ?case
  proof (cases "q = pc")
    case True
    then show ?thesis using 1(2,6) n by (auto simp: sizes_loop.simps [of code pc] split: if_splits)
  next
    case False
    with 1 have "pc < q" by simp
    with n 1 starts_do_not_overlap [of q code pc] have "n \<noteq> 0" "pc + n \<le> q" by auto
    then show ?thesis
      using 1 n by (intro "1.IH") (auto simp: sizes_loop.simps [of code pc] split: if_splits intro: instruction_starts.next_start)
  qed
qed

section \<open>The verifier reads inside the code\<close>

lemma operand_in_code:
  assumes "pbc_instruction_size code pc = Some n" "n \<noteq> 0"
    and "opcode_size (code ! pc) = Some k" "k \<noteq> 15" "j < k"
  shows "pc + j < length code"
  using instruction_size_fixed [OF assms(1-4)] assms(5) by simp

lemma reference_proto_total: "target < length ps \<Longrightarrow> pbc_reference_proto ps target r \<noteq> None"
  by (simp add: pbc_reference_proto_def)

lemma capture_loop_total: "at + 2 * count \<le> code_length p \<Longrightarrow> \<exists>b. capture_loop p at count = Some b"
  by (induction p at count rule: capture_loop.induct) auto

lemma not_None_bind: "a \<noteq> None \<Longrightarrow> (\<And>x. a = Some x \<Longrightarrow> f x \<noteq> None) \<Longrightarrow> Option.bind a f \<noteq> None"
  by auto

lemma if_not_None: "(c \<Longrightarrow> a \<noteq> None) \<Longrightarrow> (\<not> c \<Longrightarrow> b \<noteq> None) \<Longrightarrow> (if c then a else b) \<noteq> None"
  by simp

lemma check_static_init_total:
  "pc + 2 < code_length p \<Longrightarrow> check_static_init p pc following st \<noteq> None"
  by (simp add: check_static_init_def instruction_boundary_iff get_u16_Some)

lemma check_def_func_total: "check_def_func first st \<noteq> None"
  by (simp add: check_def_func_def pbc_reference_proto_def)

lemma check_jump_total: "check_jump p following first st \<noteq> None"
  by (simp add: check_jump_def instruction_boundary_iff)

lemma check_fe_next_total:
  "pc + 2 < code_length p \<Longrightarrow> check_fe_next p pc following first st \<noteq> None"
  by (simp add: check_fe_next_def instruction_boundary_iff)

lemma check_def_class_total: "pc + 4 < code_length p \<Longrightarrow> check_def_class p pc first st \<noteq> None"
  by (simp add: check_def_class_def get_u16_Some)

lemma check_def_method_total: "pc + 4 < code_length p \<Longrightarrow> check_def_method p pc first st \<noteq> None"
  by (simp add: check_def_method_def get_u16_Some pbc_reference_proto_def Let_def)

lemma check_def_prop_total: "pc + 2 < code_length p \<Longrightarrow> check_def_prop p pc first st \<noteq> None"
  by (simp add: check_def_prop_def)

lemma check_closure_total:
  assumes "pc + 2 < code_length p" "pc + 3 + 2 * unat (pp_code p ! (pc + 2)) \<le> code_length p"
  shows "check_closure p pc first st \<noteq> None"
proof -
  obtain b where "capture_loop p (pc + 3) (unat (pp_code p ! (pc + 2))) = Some b"
    using capture_loop_total [OF assms(2)] by blast
  then show ?thesis using assms(1)
    by (simp add: check_closure_def pbc_reference_proto_def)
qed

lemma check_operands_total:
  assumes size: "pbc_instruction_size (pp_code p) pc = Some n" "n \<noteq> 0"
    and opcode: "opcode = pp_code p ! pc"
  shows "check_operands p opcode (pc + 1) (pc + n) first st \<noteq> None"
proof -
  have inside: "pc + j < code_length p" if "opcode_size opcode = Some k" "k \<noteq> 15" "j < k" for j k
    using operand_in_code [OF size] that opcode by blast
  note at2 = inside [OF sizes_2, of 1] and at4 = inside [OF sizes_4, of 3]
    and at5 = inside [OF sizes_5, of 4] and at6 = inside [OF sizes_6, of 5]
  have at5': "pc + 4 < code_length p" if "opcode = OP_SCALL"
    using inside [OF sizes_6, of 4] that by simp
  have at_closure: "pc + 3 < code_length p" "pc + 4 + 2 * unat (pp_code p ! (pc + 3)) \<le> code_length p"
    if "opcode = OP_CLOSURE"
    using instruction_size_closure [OF size] opcode that by simp_all
  show ?thesis
    unfolding check_operands_def
    apply (rule if_not_None)
    subgoal using at2 by auto
    apply (rule if_not_None)
    subgoal using at4 by (simp add: check_static_init_total)
    apply (rule if_not_None)
    subgoal by simp
    apply (rule if_not_None)
    subgoal by simp
    apply (rule if_not_None)
    subgoal by (rule check_def_func_total)
    apply (rule if_not_None)
    subgoal using at4 by auto
    apply (rule if_not_None)
    subgoal using at2 by auto
    apply (rule if_not_None)
    subgoal using at5 at5' at6 by (auto simp: get_u16_Some)
    apply (rule if_not_None)
    subgoal by (rule check_jump_total)
    apply (rule if_not_None)
    subgoal using at4 by (simp add: check_fe_next_total)
    apply (rule if_not_None)
    subgoal using at2 by auto
    apply (rule if_not_None)
    subgoal using at2 by auto
    apply (rule if_not_None)
    subgoal using at6 by (simp add: check_def_class_total)
    apply (rule if_not_None)
    subgoal using at6 by (simp add: check_def_method_total)
    apply (rule if_not_None)
    subgoal using at4 by (simp add: check_def_prop_total)
    apply (rule if_not_None)
    subgoal by simp
    apply (rule if_not_None)
    subgoal using at_closure by (simp add: check_closure_total numeral_3_eq_3)
    subgoal by simp
    done
qed

section \<open>What an accepted instruction satisfies\<close>

abbreviation slot_opcodes :: "u8 set" where
  "slot_opcodes \<equiv> {OP_LOAD_LOCAL, OP_LOAD_LOCAL_QUIET, OP_STORE_LOCAL, OP_UNSET_LOCAL,
     OP_BIND_GLOBAL, OP_STATIC_INIT}"

abbreviation name_opcodes :: "u8 set" where
  "name_opcodes \<equiv> {OP_LOAD_NAMED_CONST, OP_DEF_CONST, OP_CALL_ARRAY, OP_MCALL_ARRAY,
     OP_NEW_OBJ_ARRAY, OP_DEF_CCONST, OP_DEF_INTERFACE, OP_PROP_GET, OP_PROP_GET_QUIET,
     OP_PROP_SET, OP_INSTANCEOF, OP_CALL, OP_NEW_OBJ, OP_MCALL, OP_SCALL, OP_SCALL_ARRAY,
     OP_SPROP_GET, OP_SPROP_SET, OP_CLSCONST, OP_DEF_CLASS, OP_DEF_METHOD, OP_DEF_PROP}"

abbreviation member_opcodes :: "u8 set" where
  "member_opcodes \<equiv> {OP_SCALL, OP_SCALL_ARRAY, OP_SPROP_GET, OP_SPROP_SET, OP_CLSCONST}"

abbreviation jump_opcodes :: "u8 set" where
  "jump_opcodes \<equiv> {OP_JMP, OP_JMP_IF, OP_JMP_UNLESS, OP_JMP_IF_KEEP, OP_JMP_UNLESS_KEEP,
     OP_JMP_NOTNULL_KEEP, OP_JMP_IFNULL_KEEP, OP_FE_NEXT}"

definition operand16 :: "u8 list \<Rightarrow> nat \<Rightarrow> (u16 \<Rightarrow> bool) \<Rightarrow> bool" where
  "operand16 code offset P \<longleftrightarrow> (case get_u16 code offset of None \<Rightarrow> False | Some v \<Rightarrow> P v)"

definition lands :: "u8 list \<Rightarrow> nat \<Rightarrow> u16 \<Rightarrow> bool" where
  "lands code following relative \<longleftrightarrow>
     0 \<le> int following + sint relative \<and>
     nat (int following + sint relative) < length code \<and>
     nat (int following + sint relative) \<in> instruction_starts code"

text \<open>
  \<open>accepted_instruction n p pc\<close>, in a module of \<open>n\<close> prototypes: the instruction at \<open>pc\<close> of
  \<open>p\<close> is complete; its local slots, constants and prototypes exist; the constants that name
  something are strings; and the instruction it jumps to exists.
\<close>

definition accepted_instruction :: "nat \<Rightarrow> pproto \<Rightarrow> nat \<Rightarrow> bool" where
  "accepted_instruction count p pc \<longleftrightarrow>
     (let opcode = pp_code p ! pc; size = the (pbc_instruction_size (pp_code p) pc) in
      size \<noteq> 0 \<and> pc + size \<le> code_length p \<and>
      (opcode \<in> slot_opcodes \<longrightarrow> unat (pp_code p ! (pc + 1)) < n_locals p) \<and>
      (opcode = OP_LOAD_CONST \<longrightarrow>
         operand16 (pp_code p) (pc + 1) (\<lambda>k. unat k < constant_count p)) \<and>
      (opcode \<in> name_opcodes \<longrightarrow> operand16 (pp_code p) (pc + 1) (pbc_string_constant p)) \<and>
      (opcode \<in> member_opcodes \<longrightarrow> operand16 (pp_code p) (pc + 3) (pbc_string_constant p)) \<and>
      (opcode \<in> jump_opcodes \<longrightarrow>
         operand16 (pp_code p) (pc + 1) (lands (pp_code p) (pc + size))) \<and>
      (opcode = OP_STATIC_INIT \<longrightarrow>
         operand16 (pp_code p) (pc + 2) (lands (pp_code p) (pc + size))) \<and>
      (opcode = OP_DEF_FUNC \<or> opcode = OP_CLOSURE \<longrightarrow>
         operand16 (pp_code p) (pc + 1) (\<lambda>k. unat k < count)) \<and>
      (opcode = OP_DEF_METHOD \<longrightarrow> operand16 (pp_code p) (pc + 3) (\<lambda>k. unat k < count)) \<and>
      (opcode = OP_CLOSURE \<longrightarrow>
         (\<forall>i < unat (pp_code p ! (pc + 3)). unat (pp_code p ! (pc + 5 + 2 * i)) < n_locals p)))"

text \<open>With at most 65535 bytes of code a target before the code does not wrap into it.\<close>

lemma jump_target_lands:
  assumes "jump_target following relative < length code"
    and "jump_target following relative \<in> instruction_starts code"
    and "length code \<le> UINT16_MAX" "following \<le> length code"
  shows "lands code following relative"
proof -
  have low: "- 32768 \<le> sint relative"
    using sint_greater_eq [of relative] by simp
  have high: "sint relative \<le> 32767"
    using sint_less [of relative] by simp
  show ?thesis
  proof (cases "0 \<le> int following + sint relative")
    case True
    then have "(int following + sint relative) mod 2 ^ 64 = int following + sint relative"
      using high assms(3,4) by (intro mod_pos_pos_trivial) (auto simp: UINT16_MAX_def)
    with True assms(1,2) show ?thesis by (simp add: jump_target_def lands_def)
  next
    case False
    then have "(int following + sint relative + 2 ^ 64) mod 2 ^ 64 = int following + sint relative + 2 ^ 64"
      using low by (intro mod_pos_pos_trivial) auto
    then have "(int following + sint relative) mod 2 ^ 64 = int following + sint relative + 2 ^ 64"
      by (simp only: mod_add_self2)
    then show ?thesis using assms(1,3) low False
      by (simp add: jump_target_def UINT16_MAX_def nat_less_iff)
  qed
qed

lemma capture_loop_accepts:
  "capture_loop p at count = Some True \<Longrightarrow>
   \<forall>i < count. unat (pp_code p ! (at + 1 + 2 * i)) < n_locals p"
proof (induction p at count rule: capture_loop.induct)
  case (1 p at)
  then show ?case by simp
next
  case (2 p at count)
  then obtain mode slot where
    reads: "rd (pp_code p) at = Some mode" "rd (pp_code p) (at + 1) = Some slot"
      "mode = 0" "unat slot < n_locals p" "capture_loop p (at + 2) count = Some True"
    by (auto simp: Option.bind_eq_Some_conv split: if_splits)
  show ?case
  proof (intro allI impI)
    fix i assume "i < Suc count"
    then show "unat (pp_code p ! (at + 1 + 2 * i)) < n_locals p"
      using reads(2,4) "2.IH" [OF reads(1,2) _ reads(5)] reads(3)
      by (cases i) (auto simp: rd_eq_Some_iff algebra_simps)
  qed
qed

lemma check_def_func_accepts:
  "check_def_func first st = Some (Some st') \<Longrightarrow> unat first < length (vs_protos st)"
  by (auto simp: check_def_func_def split: if_splits)

lemma check_jump_accepts:
  "check_jump p following first st = Some (Some st') \<Longrightarrow>
   code_length p \<le> UINT16_MAX \<Longrightarrow> following \<le> code_length p \<Longrightarrow> lands (pp_code p) following first"
  by (auto simp: check_jump_def instruction_boundary_iff intro: jump_target_lands split: if_splits)

lemma check_fe_next_accepts:
  "check_fe_next p pc following first st = Some (Some st') \<Longrightarrow>
   code_length p \<le> UINT16_MAX \<Longrightarrow> following \<le> code_length p \<Longrightarrow> lands (pp_code p) following first"
  by (auto simp: check_fe_next_def instruction_boundary_iff Option.bind_eq_Some_conv
      intro: jump_target_lands split: if_splits)

lemma check_static_init_accepts:
  assumes "check_static_init p pc following st = Some (Some st')"
    and "code_length p \<le> UINT16_MAX" "following \<le> code_length p"
  shows "unat (pp_code p ! pc) < n_locals p"
    and "operand16 (pp_code p) (pc + 1) (lands (pp_code p) following)"
  using assms
  by (auto simp: check_static_init_def instruction_boundary_iff Option.bind_eq_Some_conv
      rd_eq_Some_iff operand16_def intro: jump_target_lands split: if_splits)

lemma check_def_class_accepts:
  "check_def_class p pc first st = Some (Some st') \<Longrightarrow> pbc_string_constant p first"
  by (auto simp: check_def_class_def Option.bind_eq_Some_conv split: if_splits)

lemma check_def_method_accepts:
  assumes "check_def_method p pc first st = Some (Some st')"
  shows "pbc_string_constant p first"
    and "operand16 (pp_code p) (pc + 2) (\<lambda>k. unat k < length (vs_protos st))"
  using assms
  by (auto simp: check_def_method_def Let_def Option.bind_eq_Some_conv operand16_def
      split: if_splits)

lemma check_def_prop_accepts:
  "check_def_prop p pc first st = Some (Some st') \<Longrightarrow> pbc_string_constant p first"
  by (auto simp: check_def_prop_def Option.bind_eq_Some_conv split: if_splits)

lemma check_closure_accepts:
  assumes "check_closure p pc first st = Some (Some st')"
  shows "unat first < length (vs_protos st)"
    and "\<forall>i < unat (pp_code p ! (pc + 2)). unat (pp_code p ! (pc + 4 + 2 * i)) < n_locals p"
proof -
  from assms obtain count where
    count: "rd (pp_code p) (pc + 2) = Some count" "capture_loop p (pc + 3) (unat count) = Some True"
    and first: "unat first < length (vs_protos st)"
    by (auto simp: check_closure_def Option.bind_eq_Some_conv split: if_splits option.splits)
  show "unat first < length (vs_protos st)" by (rule first)
  show "\<forall>i < unat (pp_code p ! (pc + 2)). unat (pp_code p ! (pc + 4 + 2 * i)) < n_locals p"
    using capture_loop_accepts [OF count(2)] count(1) by (auto simp: rd_eq_Some_iff algebra_simps)
qed

section \<open>The branches of the switch\<close>

lemma operands_slot:
  "opcode \<in> slot_opcodes - {OP_STATIC_INIT} \<Longrightarrow>
   check_operands p opcode pc following first st =
     do { slot \<leftarrow> rd (pp_code p) pc; invalid_if (n_locals p \<le> unat slot) st }"
  unfolding check_operands_def by (rule if_P) blast

lemma operands_static_init:
  "check_operands p OP_STATIC_INIT pc following first st = check_static_init p pc following st"
  by (simp add: check_operands_def opcode_defs)

lemma operands_load_const:
  "check_operands p OP_LOAD_CONST pc following first st =
     invalid_if (constant_count p \<le> unat first) st"
  by (simp add: check_operands_def opcode_defs)

lemma operands_named:
  "opcode \<in> {OP_LOAD_NAMED_CONST, OP_DEF_CONST, OP_CALL_ARRAY, OP_MCALL_ARRAY, OP_NEW_OBJ_ARRAY,
     OP_DEF_CCONST, OP_DEF_INTERFACE, OP_PROP_GET, OP_PROP_GET_QUIET, OP_PROP_SET, OP_INSTANCEOF} \<Longrightarrow>
   check_operands p opcode pc following first st =
     invalid_if (\<not> pbc_string_constant p first \<or>
       ((opcode = OP_DEF_CCONST \<or> opcode = OP_DEF_INTERFACE) \<and> \<not> building_class st)) st"
  by (elim insertE emptyE; simp add: check_operands_def opcode_defs)

lemma operands_call:
  "opcode \<in> {OP_CALL, OP_NEW_OBJ, OP_MCALL} \<Longrightarrow>
   check_operands p opcode pc following first st =
     do { argc \<leftarrow> rd (pp_code p) (pc + 2);
          invalid_if (\<not> pbc_string_constant p first \<or> 31 < argc) st }"
  by (elim insertE emptyE; simp add: check_operands_def opcode_defs)

lemma operands_member:
  "opcode \<in> member_opcodes \<Longrightarrow>
   check_operands p opcode pc following first st =
     do { second \<leftarrow> get_u16 (pp_code p) (pc + 2);
          argc \<leftarrow> (if opcode = OP_SCALL then rd (pp_code p) (pc + 4) else Some 0);
          invalid_if (\<not> pbc_string_constant p first \<or> \<not> pbc_string_constant p second \<or>
            (opcode = OP_SCALL \<and> 31 < argc)) st }"
  by (elim insertE emptyE; simp add: check_operands_def opcode_defs)

lemma operands_jump:
  "opcode \<in> jump_opcodes - {OP_FE_NEXT} \<Longrightarrow>
   check_operands p opcode pc following first st = check_jump p following first st"
  by (elim DiffE insertE emptyE; simp add: check_operands_def opcode_defs)

lemma operands_fe_next:
  "check_operands p OP_FE_NEXT pc following first st = check_fe_next p pc following first st"
  by (simp add: check_operands_def opcode_defs)

lemma operands_def_class:
  "check_operands p OP_DEF_CLASS pc following first st = check_def_class p pc first st"
  by (simp add: check_operands_def opcode_defs)

lemma operands_def_prop:
  "check_operands p OP_DEF_PROP pc following first st = check_def_prop p pc first st"
  by (simp add: check_operands_def opcode_defs)

lemma operands_def_func:
  "check_operands p OP_DEF_FUNC pc following first st = check_def_func first st"
  by (simp add: check_operands_def opcode_defs)

lemma operands_def_method:
  "check_operands p OP_DEF_METHOD pc following first st = check_def_method p pc first st"
  by (simp add: check_operands_def opcode_defs)

lemma operands_closure:
  "check_operands p OP_CLOSURE pc following first st = check_closure p pc first st"
  by (simp add: check_operands_def opcode_defs)

lemma accepted_name:
  assumes "opcode \<in> name_opcodes"
    and "check_operands p opcode pc following first st = Some (Some st')"
  shows "pbc_string_constant p first"
proof -
  consider "opcode \<in> {OP_LOAD_NAMED_CONST, OP_DEF_CONST, OP_CALL_ARRAY, OP_MCALL_ARRAY,
      OP_NEW_OBJ_ARRAY, OP_DEF_CCONST, OP_DEF_INTERFACE, OP_PROP_GET, OP_PROP_GET_QUIET,
      OP_PROP_SET, OP_INSTANCEOF}"
    | "opcode \<in> {OP_CALL, OP_NEW_OBJ, OP_MCALL}" | "opcode \<in> member_opcodes"
    | "opcode = OP_DEF_CLASS" | "opcode = OP_DEF_METHOD" | "opcode = OP_DEF_PROP"
    using assms(1) by blast
  then show ?thesis
  proof cases
    case 1
    then show ?thesis using assms(2) unfolding operands_named [OF 1] by (simp split: if_splits)
  next
    case 2
    then show ?thesis using assms(2) unfolding operands_call [OF 2]
      by (auto simp: Option.bind_eq_Some_conv split: if_splits)
  next
    case 3
    then show ?thesis using assms(2) unfolding operands_member [OF 3]
      by (simp add: Option.bind_eq_Some_conv del: insert_iff split: if_splits)
  next
    case 4
    then show ?thesis using assms(2) by (simp add: operands_def_class check_def_class_accepts)
  next
    case 5
    then show ?thesis using assms(2) check_def_method_accepts(1) by (simp add: operands_def_method)
  next
    case 6
    then show ?thesis using assms(2) by (simp add: operands_def_prop check_def_prop_accepts)
  qed
qed

lemma accepted_member:
  assumes "opcode \<in> member_opcodes"
    and "check_operands p opcode pc following first st = Some (Some st')"
  shows "operand16 (pp_code p) (pc + 2) (pbc_string_constant p)"
  using assms(2) unfolding operands_member [OF assms(1)] operand16_def
  by (cases "get_u16 (pp_code p) (pc + 2)")
    (simp_all add: Option.bind_eq_Some_conv split: if_splits)

lemma accepted_jump:
  assumes "opcode \<in> jump_opcodes"
    and "check_operands p opcode pc following first st = Some (Some st')"
    and "code_length p \<le> UINT16_MAX" "following \<le> code_length p"
  shows "lands (pp_code p) following first"
proof (cases "opcode = OP_FE_NEXT")
  case True
  then show ?thesis
    using assms(2-4) by (simp add: operands_fe_next check_fe_next_accepts)
next
  case False
  with assms(1) have "opcode \<in> jump_opcodes - {OP_FE_NEXT}" by blast
  then show ?thesis
    using assms(2-4) by (simp only: operands_jump) (rule check_jump_accepts)
qed

lemma opcode_takes_u16:
  assumes "opcode \<in> name_opcodes \<union> jump_opcodes \<union> {OP_LOAD_CONST, OP_DEF_FUNC}"
    and "opcode_size opcode = Some k"
  shows "2 < k \<and> k \<noteq> 15"
  using assms
  by (elim UnE insertE emptyE; simp add: opcode_size_eval)

lemma check_operands_accepts:
  assumes size: "pbc_instruction_size (pp_code p) pc = Some n" "n \<noteq> 0"
    and first: "first = (if 2 < n then the (get_u16 (pp_code p) (pc + 1)) else 0)"
    and accepted: "check_operands p (pp_code p ! pc) (pc + 1) (pc + n) first st = Some (Some st')"
    and short: "code_length p \<le> UINT16_MAX"
  shows "accepted_instruction (length (vs_protos st)) p pc"
proof -
  define opcode where "opcode = pp_code p ! pc"
  have acc: "check_operands p opcode (pc + 1) (pc + n) first st = Some (Some st')"
    using accepted by (simp add: opcode_def)
  note bound = instruction_size_bound [OF size]
  have u16: "get_u16 (pp_code p) (pc + 1) = Some first" if "2 < n"
    using that first bound by (simp add: get_u16_Some)
  have u16': "get_u16 (pp_code p) (pc + 1) = Some first"
    if "opcode \<in> name_opcodes \<union> jump_opcodes \<union> {OP_LOAD_CONST, OP_DEF_FUNC}"
  proof (rule u16)
    have "\<exists>k. opcode_size opcode = Some k" using that
      by (elim UnE insertE emptyE; simp add: opcode_size_eval)
    then show "2 < n"
      using opcode_takes_u16 [OF that] instruction_size_fixed [OF size] by (auto simp: opcode_def)
  qed
  have closure_u16: "get_u16 (pp_code p) (pc + 1) = Some first" if "opcode = OP_CLOSURE"
    using u16 instruction_size_closure [OF size] that by (simp add: opcode_def)
  have static: "unat (pp_code p ! (pc + 1)) < n_locals p"
    "operand16 (pp_code p) (pc + 2) (lands (pp_code p) (pc + n))" if "opcode = OP_STATIC_INIT"
    using check_static_init_accepts [of p "pc + 1" "pc + n" st st'] acc that short bound
    by (simp_all add: operands_static_init)
  have slot: "unat (pp_code p ! (pc + 1)) < n_locals p" if op: "opcode \<in> slot_opcodes"
  proof (cases "opcode = OP_STATIC_INIT")
    case False
    with op have "opcode \<in> slot_opcodes - {OP_STATIC_INIT}" by blast
    then show ?thesis using acc
      by (simp only: operands_slot)
        (auto simp: Option.bind_eq_Some_conv rd_eq_Some_iff split: if_splits)
  qed (rule static)
  have at_closure: "unat first < length (vs_protos st)"
    "\<forall>i < unat (pp_code p ! (pc + 3)). unat (pp_code p ! (pc + 5 + 2 * i)) < n_locals p"
    if "opcode = OP_CLOSURE"
    using check_closure_accepts [of p "pc + 1" first st st'] acc that
    by (simp_all add: operands_closure numeral_3_eq_3 numeral_eq_Suc)
  have def_func: "unat first < length (vs_protos st)" if "opcode = OP_DEF_FUNC"
    using acc that by (simp add: operands_def_func check_def_func_accepts)
  have at_method: "operand16 (pp_code p) (pc + 3) (\<lambda>k. unat k < length (vs_protos st))"
    if "opcode = OP_DEF_METHOD"
    using check_def_method_accepts(2) [of p "pc + 1" first st st'] acc that
    by (simp add: operands_def_method numeral_3_eq_3)
  have const: "unat first < constant_count p" if "opcode = OP_LOAD_CONST"
    using acc that by (simp add: operands_load_const split: if_splits)
  have member: "operand16 (pp_code p) (pc + 3) (pbc_string_constant p)" if "opcode \<in> member_opcodes"
    using accepted_member [OF that acc] by (simp add: numeral_3_eq_3)
  have op16: "operand16 (pp_code p) (pc + 1) P \<longleftrightarrow> P first"
    if "opcode \<in> name_opcodes \<union> jump_opcodes \<union> {OP_LOAD_CONST, OP_DEF_FUNC, OP_CLOSURE}" for P
  proof -
    have "get_u16 (pp_code p) (pc + 1) = Some first" using that u16' closure_u16 by blast
    then show ?thesis by (simp add: operand16_def)
  qed
  show ?thesis
    unfolding accepted_instruction_def Let_def opcode_def [symmetric] size(1) option.sel
  proof (intro conjI impI)
    assume "opcode \<in> name_opcodes"
    then show "operand16 (pp_code p) (pc + 1) (pbc_string_constant p)"
      using accepted_name [OF _ acc] op16 by blast
  next
    assume "opcode \<in> jump_opcodes"
    then show "operand16 (pp_code p) (pc + 1) (lands (pp_code p) (pc + n))"
      using accepted_jump [OF _ acc short] bound op16 by blast
  next
    assume "opcode = OP_DEF_FUNC \<or> opcode = OP_CLOSURE"
    then show "operand16 (pp_code p) (pc + 1) (\<lambda>k. unat k < length (vs_protos st))"
      using def_func at_closure(1) op16 by blast
  next
    assume "opcode = OP_LOAD_CONST"
    then show "operand16 (pp_code p) (pc + 1) (\<lambda>k. unat k < constant_count p)"
      using const op16 by blast
  qed (rule size(2) bound(2) slot member static(2) at_method at_closure(2); assumption)+
qed

section \<open>References between prototypes\<close>

text \<open>The prototype an instruction refers to, with the mark it leaves there.\<close>

definition reference_at :: "pproto \<Rightarrow> nat \<Rightarrow> (nat \<times> u8) option" where
  "reference_at p pc =
     (let opcode = pp_code p ! pc in
      if opcode = OP_DEF_FUNC
      then map_option (\<lambda>k. (unat k, PBC_REF_FUNCTION)) (get_u16 (pp_code p) (pc + 1))
      else if opcode = OP_DEF_METHOD
      then map_option (\<lambda>k. (unat k, PBC_REF_METHOD)) (get_u16 (pp_code p) (pc + 3))
      else if opcode = OP_CLOSURE
      then map_option (\<lambda>k. (unat k, PBC_REF_CLOSURE)) (get_u16 (pp_code p) (pc + 1))
      else None)"

definition marks :: "(nat \<times> u8) option \<Rightarrow> pproto list \<Rightarrow> pproto list \<Rightarrow> bool" where
  "marks reference ps ps' \<longleftrightarrow>
     (case reference of
        None \<Rightarrow> ps' = ps
      | Some (t, k) \<Rightarrow> t < length ps \<and> role (ps ! t) = 0 \<and> ps' = ps[t := (ps ! t)\<lparr>role := k\<rparr>])"

lemma reference_proto_marks:
  "pbc_reference_proto ps t k = Some (Some ps') \<Longrightarrow> marks (Some (t, k)) ps ps'"
  by (auto simp: pbc_reference_proto_def marks_def Option.bind_eq_Some_conv rd_eq_Some_iff
      split: if_splits)

lemma if_Some_cases:
  "(if c then a else b) = Some (Some x) \<Longrightarrow> (c \<Longrightarrow> a = Some (Some x) \<Longrightarrow> P) \<Longrightarrow>
   (\<not> c \<Longrightarrow> b = Some (Some x) \<Longrightarrow> P) \<Longrightarrow> P"
  by (cases c) auto

lemma operands_keep_protos:
  assumes "check_operands p opcode pc following first st = Some (Some st')"
    and "opcode \<noteq> OP_DEF_FUNC" "opcode \<noteq> OP_DEF_METHOD" "opcode \<noteq> OP_CLOSURE"
  shows "vs_protos st' = vs_protos st"
  using assms(1) unfolding check_operands_def
  apply (elim if_Some_cases)
  subgoal by (auto simp: Option.bind_eq_Some_conv split: if_splits)
  subgoal by (auto simp: check_static_init_def Option.bind_eq_Some_conv split: if_splits)
  subgoal by (simp split: if_splits)
  subgoal by (simp split: if_splits)
  subgoal using assms by simp
  subgoal by (auto simp: Option.bind_eq_Some_conv split: if_splits)
  subgoal by (auto simp: Option.bind_eq_Some_conv split: if_splits)
  subgoal
    by (simp add: Option.bind_eq_Some_conv del: insert_iff split: if_split_asm) (elim exE conjE; simp)
  subgoal by (auto simp: check_jump_def Option.bind_eq_Some_conv split: if_splits)
  subgoal by (auto simp: check_fe_next_def Option.bind_eq_Some_conv split: if_splits)
  subgoal by (auto simp: Option.bind_eq_Some_conv split: if_splits)
  subgoal by (auto simp: Option.bind_eq_Some_conv split: if_splits)
  subgoal by (auto simp: check_def_class_def Option.bind_eq_Some_conv split: if_splits)
  subgoal using assms by simp
  subgoal by (auto simp: check_def_prop_def Option.bind_eq_Some_conv split: if_splits)
  subgoal by (auto split: if_splits)
  subgoal using assms by simp
  subgoal by simp
  done

lemma check_def_func_marks:
  "check_def_func first st = Some (Some st') \<Longrightarrow>
   marks (Some (unat first, PBC_REF_FUNCTION)) (vs_protos st) (vs_protos st')"
  by (auto simp: check_def_func_def Option.bind_eq_Some_conv intro: reference_proto_marks
      split: if_splits)

lemma case_option_accepts:
  "(case x of None \<Rightarrow> Some None | Some y \<Rightarrow> f y) = Some (Some z) \<longleftrightarrow>
   (\<exists>y. x = Some y \<and> f y = Some (Some z))"
  by (cases x) simp_all

lemma check_def_method_marks:
  "check_def_method p pc first st = Some (Some st') \<Longrightarrow>
   \<exists>k. get_u16 (pp_code p) (pc + 2) = Some k \<and>
     marks (Some (unat k, PBC_REF_METHOD)) (vs_protos st) (vs_protos st')"
  by (auto simp: check_def_method_def Let_def Option.bind_eq_Some_conv case_option_accepts intro: reference_proto_marks
      split: if_splits)

lemma check_closure_marks:
  "check_closure p pc first st = Some (Some st') \<Longrightarrow>
   marks (Some (unat first, PBC_REF_CLOSURE)) (vs_protos st) (vs_protos st')"
  by (auto simp: check_closure_def Option.bind_eq_Some_conv case_option_accepts intro: reference_proto_marks
      split: if_splits)

lemma check_operands_marks:
  assumes size: "pbc_instruction_size (pp_code p) pc = Some n" "n \<noteq> 0"
    and first: "first = (if 2 < n then the (get_u16 (pp_code p) (pc + 1)) else 0)"
    and accepted: "check_operands p (pp_code p ! pc) (pc + 1) (pc + n) first st = Some (Some st')"
  shows "marks (reference_at p pc) (vs_protos st) (vs_protos st')"
proof -
  note bound = instruction_size_bound [OF size]
  have u16: "get_u16 (pp_code p) (pc + 1) = Some first" if "2 < n"
    using that first bound by (simp add: get_u16_Some)
  consider "pp_code p ! pc = OP_DEF_FUNC" | "pp_code p ! pc = OP_DEF_METHOD"
    | "pp_code p ! pc = OP_CLOSURE"
    | "pp_code p ! pc \<noteq> OP_DEF_FUNC" "pp_code p ! pc \<noteq> OP_DEF_METHOD" "pp_code p ! pc \<noteq> OP_CLOSURE"
    by blast
  then show ?thesis
  proof cases
    case 1
    then have "n = 3" using instruction_size_fixed [OF size, of 3] sizes_3 by simp
    then show ?thesis using 1 u16 accepted check_def_func_marks
      by (simp add: reference_at_def operands_def_func)
  next
    case 2
    moreover have "OP_DEF_METHOD \<noteq> OP_DEF_FUNC" by (simp add: opcode_defs)
    ultimately show ?thesis using accepted check_def_method_marks [of p "pc + 1" first st st']
      by (auto simp: reference_at_def operands_def_method numeral_3_eq_3)
  next
    case 3
    then have "2 < n" using instruction_size_closure [OF size] by simp
    moreover have "OP_CLOSURE \<noteq> OP_DEF_FUNC" "OP_CLOSURE \<noteq> OP_DEF_METHOD"
      by (simp_all add: opcode_defs)
    ultimately show ?thesis using 3 u16 accepted check_closure_marks
      by (simp add: reference_at_def operands_closure)
  next
    case 4
    then show ?thesis using operands_keep_protos [OF accepted] by (simp add: reference_at_def marks_def)
  qed
qed

text \<open>Prototypes that differ in their roles only.\<close>

abbreviation unmarked :: "pproto \<Rightarrow> pproto" where
  "unmarked p \<equiv> p\<lparr>role := 0\<rparr>"

lemma unmarked_eqD:
  assumes "unmarked p = unmarked q"
  shows "pp_code p = pp_code q" "constants p = constants q" "locals p = locals q"
    "catches p = catches q" "pp_name p = pp_name q" "n_params p = n_params q"
    "is_method p = is_method q" "conditional p = conditional q"
  using assms by (cases p; cases q; simp)+

lemma marks_unmarked: "marks r ps ps' \<Longrightarrow> map unmarked ps' = map unmarked ps"
  by (auto simp: marks_def map_update list_update_same_conv split: option.splits)

lemma unmarked_nth:
  assumes "map unmarked ps = map unmarked qs" "i < length ps"
  shows "unmarked (ps ! i) = unmarked (qs ! i)"
  using arg_cong [OF assms(1), of "\<lambda>xs. xs ! i"] assms(2) map_eq_imp_length_eq [OF assms(1)]
  by simp

text \<open>
  \<open>marked S ps\<close>: \<open>S\<close> holds the references met so far, as prototype, offset, target and
  mark; no two of them have one target, and the roles are their marks.
\<close>

type_synonym reference = "nat \<times> nat \<times> nat \<times> u8"

definition ref_target :: "reference \<Rightarrow> nat" where
  "ref_target = (\<lambda>(i, pc, t, k). t)"

definition ref_mark :: "reference \<Rightarrow> u8" where
  "ref_mark = (\<lambda>(i, pc, t, k). k)"

definition marked :: "reference set \<Rightarrow> pproto list \<Rightarrow> bool" where
  "marked S ps \<longleftrightarrow>
     inj_on ref_target S \<and>
     (\<forall>x \<in> S. ref_target x < length ps \<and> role (ps ! ref_target x) = ref_mark x \<and> ref_mark x \<noteq> 0) \<and>
     (\<forall>t < length ps. role (ps ! t) \<noteq> 0 \<longrightarrow> t \<in> ref_target ` S)"

lemma reference_marks_nonzero: "reference_at p pc = Some (t, k) \<Longrightarrow> k \<noteq> 0"
  by (auto simp: reference_at_def Let_def PBC_REF_FUNCTION_def PBC_REF_METHOD_def
      PBC_REF_CLOSURE_def split: if_splits)

definition references_from :: "nat \<Rightarrow> pproto \<Rightarrow> nat \<Rightarrow> reference set" where
  "references_from i p pc =
     {(i, q, t, k) | q t k. q \<in> instruction_starts (pp_code p) \<and> pc \<le> q \<and> q < code_length p \<and>
        reference_at p q = Some (t, k)}"

lemma marked_step:
  assumes "marked S ps" "marks (reference_at p pc) ps ps'"
  shows "marked (S \<union> {(i, pc, t, k) | t k. reference_at p pc = Some (t, k)}) ps'"
proof (cases "reference_at p pc")
  case None
  then show ?thesis using assms by (simp add: marks_def)
next
  case (Some r)
  obtain t k where r: "r = (t, k)" by (cases r)
  have k: "k \<noteq> 0" using Some r reference_marks_nonzero by simp
  have free: "t < length ps" "role (ps ! t) = 0" and ps': "ps' = ps[t := (ps ! t)\<lparr>role := k\<rparr>]"
    using assms(2) Some r by (simp_all add: marks_def)
  have notin: "t \<notin> ref_target ` S"
    using assms(1) free by (auto simp: marked_def)
  have S: "S \<union> {(i, pc, t, k) | t k. reference_at p pc = Some (t, k)} = insert (i, pc, t, k) S"
    using Some r by auto
  have new: "ref_target (i, pc, t, k) = t" "ref_mark (i, pc, t, k) = k"
    by (simp_all add: ref_target_def ref_mark_def)
  show ?thesis
    unfolding S marked_def ps'
  proof (intro conjI)
    show "inj_on ref_target (insert (i, pc, t, k) S)"
      using assms(1) notin new by (auto simp: marked_def)
    show "\<forall>x \<in> insert (i, pc, t, k) S. ref_target x < length (ps[t := (ps ! t)\<lparr>role := k\<rparr>]) \<and>
        role (ps[t := (ps ! t)\<lparr>role := k\<rparr>] ! ref_target x) = ref_mark x \<and> ref_mark x \<noteq> 0"
      using assms(1) notin new free k by (auto simp: marked_def nth_list_update)
    show "\<forall>u < length (ps[t := (ps ! t)\<lparr>role := k\<rparr>]).
        role (ps[t := (ps ! t)\<lparr>role := k\<rparr>] ! u) \<noteq> 0 \<longrightarrow> u \<in> ref_target ` insert (i, pc, t, k) S"
      using assms(1) new by (auto simp: marked_def nth_list_update split: if_splits)
  qed
qed

end
