(* ===== verification/PbcEmit.thy ===== *)
theory PbcEmit
  imports PbcVerifyProps
begin

text \<open>
  What the code generator relies on when it builds a prototype: bytes are appended inside the
  capacity of the array, numbers are read back as they were written, a patched jump is
  decoded as its target, and every local name has one slot.
\<close>

unbundle bit_operations_syntax

section \<open>Numbers\<close>

lemma mask_255: "(255 :: 'a :: len word) = mask 8"
  by (simp add: mask_eq_decr_exp)

lemma u16_bytes:
  "ucast (ucast (v AND 0xff) :: u8) OR push_bit 8 (ucast (ucast (drop_bit 8 v) :: u8)) = (v :: u16)"
  unfolding mask_255 by (rule bit_word_eqI) (auto simp: bit_simps)

lemma u32_bytes:
  "ucast (ucast (v AND 0xff) :: u8) OR push_bit 8 (ucast (ucast (drop_bit 8 v AND 0xff) :: u8)) OR
   push_bit 16 (ucast (ucast (drop_bit 16 v AND 0xff) :: u8)) OR
   push_bit 24 (ucast (ucast (drop_bit 24 v AND 0xff) :: u8)) = (v :: u32)"
  unfolding mask_255
proof (rule bit_word_eqI, goal_cases)
  case (1 n)
  define j where "j = n mod 8"
  have "j < 8" "n < 32" using 1 by (simp_all add: j_def)
  moreover have "n = j + 8 * (n div 8)" by (simp add: j_def)
  moreover from \<open>n < 32\<close> have "n div 8 = 0 \<or> n div 8 = 1 \<or> n div 8 = 2 \<or> n div 8 = 3" by linarith
  ultimately consider "n = j" | "n = 8 + j" | "n = 16 + j" | "n = 24 + j" by fastforce
  then show ?case using \<open>j < 8\<close> by cases (simp_all add: bit_simps)
qed

definition u16_le :: "u16 \<Rightarrow> u8 list" where
  "u16_le v = [ucast (v AND 0xff), ucast (drop_bit 8 v)]"

definition u32_le :: "u32 \<Rightarrow> u8 list" where
  "u32_le v = [ucast (v AND 0xff), ucast (drop_bit 8 v AND 0xff), ucast (drop_bit 16 v AND 0xff),
     ucast (drop_bit 24 v AND 0xff)]"

lemma length_u16_le [simp]: "length (u16_le v) = 2"
  by (simp add: u16_le_def)

lemma length_u32_le [simp]: "length (u32_le v) = 4"
  by (simp add: u32_le_def)

lemma get_u16_at: "get_u16 (before @ u16_le v @ after) (length before) = Some v"
  by (simp add: get_u16_def u16_le_def nth_append u16_bytes)

lemma get_u32_at: "get_u32 (before @ u32_le v @ after) (length before) = Some v"
  by (simp add: get_u32_def u32_le_def nth_append u32_bytes numeral_2_eq_2 numeral_3_eq_3)

section \<open>Growing\<close>

lemma grow_array_capacity:
  "grow_array ops array element_size capacity minimum h = (Some (ptr, capacity'), h') \<Longrightarrow>
   minimum \<le> capacity'"
  by (auto simp: grow_array_def Let_def split: if_splits prod.splits option.splits)

text \<open>The fields that emission does not touch.\<close>

abbreviation without_code :: "pproto \<Rightarrow> pproto" where
  "without_code p \<equiv> p\<lparr>code_ptr := None, pp_code := [], code_capacity := 0\<rparr>"

lemma emit_u8_True:
  assumes "pproto_emit_u8 ops v p h = (True, p', h')" "code_length p \<le> code_capacity p"
  shows "pp_code p' = pp_code p @ [v]" "code_length p' \<le> code_capacity p'"
    "without_code p' = without_code p"
  using assms grow_array_capacity
  by (fastforce simp: pproto_emit_u8_def split: if_splits prod.splits option.splits)+

lemma emit_u8_False:
  "pproto_emit_u8 ops v p h = (False, p', h') \<Longrightarrow> p' = p"
  by (auto simp: pproto_emit_u8_def split: if_splits prod.splits option.splits)

lemma emit_bytes_True:
  "emit_bytes ops vs p h = (True, p', h') \<Longrightarrow> code_length p \<le> code_capacity p \<Longrightarrow>
   pp_code p' = pp_code p @ vs \<and> code_length p' \<le> code_capacity p' \<and>
   without_code p' = without_code p"
proof (induction vs arbitrary: p h)
  case Nil
  then show ?case by simp
next
  case (Cons v vs)
  obtain ok p1 h1 where emit: "pproto_emit_u8 ops v p h = (ok, p1, h1)"
    by (cases "pproto_emit_u8 ops v p h")
  with Cons.prems(1) have ok: "ok = True" by (cases ok) simp_all
  with emit Cons.prems(1) have rest: "emit_bytes ops vs p1 h1 = (True, p', h')" by simp
  note head = emit_u8_True [OF emit [unfolded ok] Cons.prems(2)]
  from Cons.IH [OF rest head(2)] head show ?case by auto
qed

section \<open>Properties\<close>

text \<open>
  Emitting a 32-bit number appends its four bytes: they stay inside the capacity, the
  code before them is unchanged, and reading a number at the place where the code ended
  gives the number back.
\<close>

lemma emitted_number_is_read_back:
  assumes "pproto_emit_i32 ops v p h = (True, p', h')" "code_length p \<le> code_capacity p"
  shows "get_u32 (pp_code p') (code_length p) = Some v \<and>
    take (code_length p) (pp_code p') = pp_code p \<and> code_length p' = code_length p + 4 \<and>
    code_length p' \<le> code_capacity p' \<and> without_code p' = without_code p"
proof -
  have "emit_bytes ops (u32_le v) p h = (True, p', h')"
    using assms(1) by (simp add: pproto_emit_i32_def u32_le_def)
  note emitted = emit_bytes_True [OF this assms(2)]
  then have "pp_code p' = pp_code p @ u32_le v @ []" by simp
  then show ?thesis using emitted get_u32_at [of "pp_code p" v "[]"] by auto
qed

section \<open>Jumps\<close>

lemma wr_Some: "i < length xs \<Longrightarrow> wr xs i x = Some (xs[i := x])"
  by (simp add: wr_def)

lemma get_u16_put:
  "offset + 1 < length bytes \<Longrightarrow>
   get_u16 ((bytes[offset := ucast (v AND 0xff)])[offset + 1 := ucast (drop_bit 8 v)]) offset = Some v"
  by (simp add: get_u16_def u16_bytes)

lemma sint_of_int16: "- 32768 \<le> d \<Longrightarrow> d \<le> 32767 \<Longrightarrow> sint (word_of_int d :: u16) = d"
  using signed_take_bit_int_eq_self [of 15 d] by (simp add: signed_of_int)

lemma jump_target_of_relative:
  assumes "- 32768 \<le> int target - int following" "int target - int following \<le> 32767"
    and "target < 2 ^ 64"
  shows "jump_target following (word_of_int (int target - int following)) = target"
proof -
  have "int following + sint (word_of_int (int target - int following) :: u16) = int target"
    unfolding sint_of_int16 [OF assms(1,2)] by simp
  moreover have "int target mod 2 ^ 64 = int target"
    by (rule mod_pos_pos_trivial) (use assms(3) in simp_all)
  ultimately show ?thesis unfolding jump_target_def by simp
qed


section \<open>Local variables\<close>

definition locals_ok :: "pproto \<Rightarrow> bool" where
  "locals_ok p \<longleftrightarrow> distinct (map ps_data (locals p)) \<and> n_locals p \<le> UINT8_MAX"

lemma unat_of_nat8: "n < 256 \<Longrightarrow> unat (of_nat n :: u8) = n"
  by (simp add: unsigned_of_nat take_bit_nat_eq_self)

lemma find_local_from_None: "find_local_from i names b = None \<longleftrightarrow> b \<notin> ps_data ` set names"
  by (induction i names b rule: find_local_from.induct) auto

lemma find_local_from_Some:
  "distinct (map ps_data names) \<Longrightarrow> j < length names \<Longrightarrow> ps_data (names ! j) = b \<Longrightarrow>
   find_local_from i names b = Some (of_nat (i + j))"
proof (induction i names b arbitrary: j rule: find_local_from.induct)
  case (1 i name)
  then show ?case by simp
next
  case (2 i s names name)
  show ?case
  proof (cases j)
    case 0
    then show ?thesis using 2(4) by simp
  next
    case (Suc k)
    then have "ps_data s \<noteq> name" using 2(2-4) by auto
    moreover from this have "find_local_from (i + 1) names name = Some (of_nat (i + 1 + k))"
      using 2 Suc by auto
    ultimately show ?thesis using Suc by simp
  qed
qed

lemma find_local_iff:
  assumes "locals_ok p"
  shows "pproto_find_local p name = Some slot \<longleftrightarrow>
    unat slot < n_locals p \<and> ps_data (locals p ! unat slot) = name"
proof -
  have small: "n_locals p \<le> 255" using assms by (simp add: locals_ok_def UINT8_MAX_def)
  have found: "pproto_find_local p name = Some (of_nat j)"
    if "j < n_locals p" "ps_data (locals p ! j) = name" for j
    using find_local_from_Some [of "locals p" j name 0] that assms
    by (simp add: pproto_find_local_def locals_ok_def)
  show ?thesis
  proof
    assume some: "pproto_find_local p name = Some slot"
    then have "name \<in> ps_data ` set (locals p)"
      using find_local_from_None [of 0 "locals p" name] by (auto simp: pproto_find_local_def)
    then obtain j where j: "j < n_locals p" "ps_data (locals p ! j) = name"
      by (auto simp: in_set_conv_nth)
    then have slot: "slot = of_nat j" using found some by simp
    have "unat slot = j" unfolding slot
      by (rule unat_of_nat8) (use j small in simp)
    with j show "unat slot < n_locals p \<and> ps_data (locals p ! unat slot) = name" by simp
  next
    assume "unat slot < n_locals p \<and> ps_data (locals p ! unat slot) = name"
    then show "pproto_find_local p name = Some slot" using found [of "unat slot"] by simp
  qed
qed

lemma add_local_cases:
  assumes "pproto_add_local ops name p h = (r, p', h')"
  obtains slot where "pproto_find_local p name = Some slot" "r = Some slot" "p' = p"
  | "pproto_find_local p name = None" "r = None" "locals p' = locals p"
  | s where "pproto_find_local p name = None" "n_locals p \<noteq> UINT8_MAX" "r = Some (of_nat (n_locals p))"
      "ps_data s = name" "locals p' = locals p @ [s]"
proof (cases "pproto_find_local p name")
  case (Some slot)
  show ?thesis
    by (rule that(1) [OF Some]) (use assms Some in \<open>simp_all add: pproto_add_local_def\<close>)
next
  case None
  obtain q h1 where q: "h_realloc ops (locals_ptr p) ((n_locals p + 1) * sizeof_ptr) h = (q, h1)"
    by (cases "h_realloc ops (locals_ptr p) ((n_locals p + 1) * sizeof_ptr) h")
  obtain s h2 where s: "ps_new ops name h1 = (s, h2)" by (cases "ps_new ops name h1")
  show ?thesis
  proof (cases "n_locals p = UINT8_MAX \<or> q = None \<or> s = None")
    case True
    show ?thesis
      by (rule that(2) [OF None])
        (use assms None q s True in
          \<open>auto simp: pproto_add_local_def Let_def split: if_splits option.split_asm\<close>)
  next
    case False
    then obtain ptr str where some: "q = Some ptr" "s = Some str" "n_locals p \<noteq> UINT8_MAX" by auto
    show ?thesis
      by (rule that(3) [OF None some(3), of str])
        (use assms None q s some ps_new_ok [of ops name h1 str h2] in
          \<open>simp_all add: pproto_add_local_def Let_def\<close>, auto)
  qed
qed

text \<open>
  Adding a local keeps the names distinct and at most 255.  On success the slot names
  the local, looking the name up gives this slot, and no other name moved; on failure the
  locals are unchanged and the name is not among them.
\<close>

theorem local_slots_are_stable:
  assumes "locals_ok p" "pproto_add_local ops name p h = (r, p', h')"
  shows "locals_ok p' \<and>
    (\<forall>other slot. pproto_find_local p other = Some slot \<longrightarrow> pproto_find_local p' other = Some slot) \<and>
    (case r of
       None \<Rightarrow> locals p' = locals p \<and> name \<notin> ps_data ` set (locals p)
     | Some slot \<Rightarrow> unat slot < n_locals p' \<and> ps_data (locals p' ! unat slot) = name \<and>
         pproto_find_local p' name = Some slot)"
  using assms(2)
proof (cases rule: add_local_cases)
  case (1 slot)
  then show ?thesis using assms(1) find_local_iff by simp
next
  case 2
  then have "pproto_find_local p' other = pproto_find_local p other" for other
    by (simp add: pproto_find_local_def)
  moreover have "name \<notin> ps_data ` set (locals p)"
    using 2(1) find_local_from_None by (simp add: pproto_find_local_def)
  ultimately show ?thesis using 2 assms(1) by (simp add: locals_ok_def)
next
  case (3 s)
  have fresh: "name \<notin> ps_data ` set (locals p)"
    using 3(1) find_local_from_None by (simp add: pproto_find_local_def)
  have ok: "locals_ok p'"
    using 3 assms(1) fresh by (auto simp: locals_ok_def)
  have small: "n_locals p < 255"
    using 3(2) assms(1) by (simp add: locals_ok_def UINT8_MAX_def)
  have slot: "unat (of_nat (n_locals p) :: u8) = n_locals p"
    by (rule unat_of_nat8) (use small in simp)
  have "pproto_find_local p' name = Some (of_nat (n_locals p))"
    unfolding find_local_iff [OF ok] slot using 3 by simp
  moreover have "pproto_find_local p' other = Some k" if "pproto_find_local p other = Some k" for other k
    using that 3(5) unfolding find_local_iff [OF ok] find_local_iff [OF assms(1)]
    by (simp add: nth_append)
  ultimately show ?thesis using ok 3 slot by simp
qed

section \<open>Witnesses\<close>

text \<open>A heap that never runs out of memory: the next free address.\<close>

definition bump_ops :: "nat heap_ops" where
  "bump_ops = \<lparr>h_alloc = (\<lambda>n h. (Some h, h + n)), h_free = (\<lambda>p h. h),
     h_realloc = (\<lambda>p n h. (Some h, h + n))\<rparr>"

definition demo_name :: pstring where
  "demo_name = \<lparr>ps_addr = 8, ps_rostring = False, ps_interned = False, ps_hash = 1, ps_data = ''f''\<rparr>"


theorem local_slots_are_stable_witness:
  "locals_ok (fst (snd (pproto_add_local bump_ops ''x'' (empty_pproto 0 demo_name) 64)))"
proof -
  have "locals_ok (empty_pproto 0 demo_name)" by (simp add: locals_ok_def empty_pproto_def)
  moreover obtain r p' h' where "pproto_add_local bump_ops ''x'' (empty_pproto 0 demo_name) 64 = (r, p', h')"
    by (cases "pproto_add_local bump_ops ''x'' (empty_pproto 0 demo_name) 64")
  ultimately show ?thesis using local_slots_are_stable by fastforce
qed

end
