(* ===== verification/PbcVerifySound.thy ===== *)
theory PbcVerifySound
  imports PbcVerifyProps
begin

text \<open>
  The loops of the verifier, and its properties for a whole module.
\<close>

lemma unmarked_lists:
  assumes "map unmarked ps' = map unmarked ps"
  shows "length ps' = length ps"
  using map_eq_imp_length_eq [OF assms] .

lemma operands_loop_total:
  "sizes_loop (pp_code p) pc = Some True \<Longrightarrow> operands_loop p pc st \<noteq> None"
proof (induction p pc st rule: operands_loop.induct)
  case (1 p pc st)
  show ?case
  proof (cases "pc < code_length p")
    case False
    then show ?thesis by (simp add: operands_loop.simps)
  next
    case True
    obtain n where n: "pbc_instruction_size (pp_code p) pc = Some n"
      using instruction_size_total by blast
    have n0: "n \<noteq> 0" and rest: "sizes_loop (pp_code p) (pc + n) = Some True"
      using 1(2) True n by (auto simp: sizes_loop.simps [of "pp_code p" pc] split: if_splits)
    obtain first where first: "(if 2 < n then get_u16 (pp_code p) (pc + 1) else Some 0) = Some first"
      using instruction_size_bound [OF n n0] by (cases "2 < n") (auto simp: get_u16_Some)
    obtain checked where
      checked: "check_operands p (pp_code p ! pc) (pc + 1) (pc + n) first st = Some checked"
      using check_operands_total [OF n n0 refl] by blast
    have "operands_loop p (pc + n) st' \<noteq> None" if "checked = Some st'" for st'
      using "1.IH" [OF True n _ first checked that n0 rest] True by simp
    then show ?thesis using True n n0 first checked
      by (subst operands_loop.simps) (auto split: option.split)
  qed
qed

lemma check_operands_length:
  assumes "pbc_instruction_size (pp_code p) pc = Some n" "n \<noteq> 0"
    and "(if 2 < n then get_u16 (pp_code p) (pc + 1) else Some 0) = Some first"
    and "check_operands p (pp_code p ! pc) (pc + 1) (pc + n) first st = Some (Some st')"
  shows "map unmarked (vs_protos st') = map unmarked (vs_protos st)"
proof -
  have "first = (if 2 < n then the (get_u16 (pp_code p) (pc + 1)) else 0)"
    using assms(3) by (auto split: if_splits)
  then show ?thesis
    using marks_unmarked check_operands_marks [OF assms(1,2) _ assms(4)] by blast
qed

lemma operands_loop_step:
  assumes "operands_loop p pc st = Some (Some st')" "pc < code_length p"
  obtains n first st1 where "pbc_instruction_size (pp_code p) pc = Some n" "n \<noteq> 0"
    "(if 2 < n then get_u16 (pp_code p) (pc + 1) else Some 0) = Some first"
    "check_operands p (pp_code p ! pc) (pc + 1) (pc + n) first st = Some (Some st1)"
    "operands_loop p (pc + n) st1 = Some (Some st')"
proof -
  have none: "(if c then None else x) = Some y \<longleftrightarrow> \<not> c \<and> x = Some y"
    for c and x :: "verify_state option option" and y by simp
  have "\<exists>n first st1. pbc_instruction_size (pp_code p) pc = Some n \<and> n \<noteq> 0 \<and>
      (if 2 < n then get_u16 (pp_code p) (pc + 1) else Some 0) = Some first \<and>
      check_operands p (pp_code p ! pc) (pc + 1) (pc + n) first st = Some (Some st1) \<and>
      operands_loop p (pc + n) st1 = Some (Some st')"
    using assms unfolding operands_loop.simps [of p pc st] if_P [OF assms(2)]
      Option.bind_eq_Some_conv case_option_accepts none rd_eq_Some_iff
    by blast
  then show ?thesis using that by blast
qed

lemma operands_loop_length:
  "operands_loop p pc st = Some (Some st') \<Longrightarrow> length (vs_protos st') = length (vs_protos st)"
proof (induction "code_length p - pc" arbitrary: pc st rule: less_induct)
  case less
  show ?case
  proof (cases "pc < code_length p")
    case False
    then show ?thesis using less.prems by (simp add: operands_loop.simps)
  next
    case True
    from less.prems True obtain n first st1 where
      step: "pbc_instruction_size (pp_code p) pc = Some n" "n \<noteq> 0"
        "(if 2 < n then get_u16 (pp_code p) (pc + 1) else Some 0) = Some first"
        "check_operands p (pp_code p ! pc) (pc + 1) (pc + n) first st = Some (Some st1)"
      and rest: "operands_loop p (pc + n) st1 = Some (Some st')"
      by (rule operands_loop_step)
    have "length (vs_protos st') = length (vs_protos st1)"
      using less.hyps [OF _ rest] True step(2) by simp
    then show ?thesis using unmarked_lists [OF check_operands_length [OF step]] by simp
  qed
qed

lemma references_from_step:
  assumes "pc \<in> instruction_starts (pp_code p)" "pbc_instruction_size (pp_code p) pc = Some n"
    and "n \<noteq> 0"
  shows "references_from i p pc =
    {(i, pc, t, k) | t k. reference_at p pc = Some (t, k)} \<union> references_from i p (pc + n)"
proof -
  note bound = instruction_size_bound [OF assms(2,3)]
  have "q = pc \<or> pc + n \<le> q" if "q \<in> instruction_starts (pp_code p)" "pc \<le> q" for q
    using starts_do_not_overlap [of q "pp_code p" pc] that assms by fastforce
  moreover have "pc \<le> q" if "pc + n \<le> q" for q using that by simp
  ultimately show ?thesis
    using assms(1) bound(1) unfolding references_from_def by blast
qed

lemma references_from_end: "code_length p \<le> pc \<Longrightarrow> references_from i p pc = {}"
  by (auto simp: references_from_def)

lemma operands_loop_sound:
  "operands_loop p pc st = Some (Some st') \<Longrightarrow> pc \<in> instruction_starts (pp_code p) \<Longrightarrow>
   code_length p \<le> UINT16_MAX \<Longrightarrow> marked S (vs_protos st) \<Longrightarrow>
   map unmarked (vs_protos st') = map unmarked (vs_protos st) \<and>
   (\<forall>q \<in> instruction_starts (pp_code p). pc \<le> q \<and> q < code_length p \<longrightarrow>
      accepted_instruction (length (vs_protos st)) p q) \<and>
   marked (S \<union> references_from i p pc) (vs_protos st')"
proof (induction p pc st arbitrary: S rule: operands_loop.induct)
  case (1 p pc st)
  show ?case
  proof (cases "pc < code_length p")
    case False
    then show ?thesis using 1(2,5) by (auto simp: references_from_end operands_loop.simps)
  next
    case True
    from 1(2) True obtain n first st1 where n: "pbc_instruction_size (pp_code p) pc = Some n"
      and n0: "n \<noteq> 0"
      and first: "(if 2 < n then get_u16 (pp_code p) (pc + 1) else Some 0) = Some first"
      and accepted: "check_operands p (pp_code p ! pc) (pc + 1) (pc + n) first st = Some (Some st1)"
      and rest: "operands_loop p (pc + n) st1 = Some (Some st')"
      by (rule operands_loop_step)
    have first': "first = (if 2 < n then the (get_u16 (pp_code p) (pc + 1)) else 0)"
      using first by (auto split: if_splits)
    have here: "accepted_instruction (length (vs_protos st)) p pc"
      by (rule check_operands_accepts [OF n n0 first' accepted 1(4)])
    have marks: "marks (reference_at p pc) (vs_protos st) (vs_protos st1)"
      by (rule check_operands_marks [OF n n0 first' accepted])
    have same: "map unmarked (vs_protos st1) = map unmarked (vs_protos st)"
      by (rule marks_unmarked [OF marks])
    have IH: "map unmarked (vs_protos st') = map unmarked (vs_protos st1) \<and>
       (\<forall>q \<in> instruction_starts (pp_code p). pc + n \<le> q \<and> q < code_length p \<longrightarrow>
          accepted_instruction (length (vs_protos st1)) p q) \<and>
       marked (S \<union> {(i, pc, t, k) | t k. reference_at p pc = Some (t, k)}
                 \<union> references_from i p (pc + n)) (vs_protos st')"
      using True
      by (intro "1.IH" [OF True n _ first accepted refl n0 rest] marked_step [OF 1(5) marks]
          instruction_starts.next_start [OF 1(3) n n0] 1(4)) simp
    have next_or_here: "q = pc \<or> pc + n \<le> q"
      if "q \<in> instruction_starts (pp_code p)" "pc \<le> q" for q
      using starts_do_not_overlap [of q "pp_code p" pc] that 1(3) n by fastforce
    have "accepted_instruction (length (vs_protos st)) p q"
      if "q \<in> instruction_starts (pp_code p)" "pc \<le> q" "q < code_length p" for q
      using next_or_here [OF that(1,2)] here IH that unmarked_lists [OF same] by auto
    then show ?thesis
      using IH same references_from_step [OF 1(3) n n0, of i] by (simp add: Un_assoc)
  qed
qed

lemma catches_loop_total: "\<exists>b. catches_loop code entries = Some b"
  by (induction entries)
    (auto simp: instruction_boundary_iff instruction_boundary_or_end_iff)

definition accepted_catch :: "u8 list \<Rightarrow> pcatch \<Rightarrow> bool" where
  "accepted_catch code entry \<longleftrightarrow>
     unat (try_start entry) \<in> instruction_starts code \<and> unat (try_start entry) < length code \<and>
     (unat (try_end entry) = length code \<or>
      unat (try_end entry) < length code \<and> unat (try_end entry) \<in> instruction_starts code) \<and>
     unat (handler_pc entry) \<in> instruction_starts code \<and> unat (handler_pc entry) < length code"

lemma catches_loop_accepts:
  "catches_loop code entries = Some True \<Longrightarrow> \<forall>entry \<in> set entries. accepted_catch code entry"
  by (induction entries)
    (auto simp: instruction_boundary_iff instruction_boundary_or_end_iff accepted_catch_def
      split: if_splits)

lemma validate_code_total: "i < length ps \<Longrightarrow> pbc_validate_code ps i \<noteq> None"
proof -
  assume i: "i < length ps"
  obtain sized where sized: "sizes_loop (pp_code (ps ! i)) 0 = Some sized"
    using sizes_loop_total by blast
  obtain ok where ok: "catches_loop (pp_code (ps ! i)) (catches (ps ! i)) = Some ok"
    using catches_loop_total by blast
  show ?thesis
  proof (cases sized)
    case False
    then show ?thesis using i sized by (simp add: pbc_validate_code_def)
  next
    case True
    have "operands_loop (ps ! i) 0 \<lparr>vs_protos = ps, building_class = False,
        class_readonly = False, building_class_name = None\<rparr> \<noteq> None"
      by (rule operands_loop_total) (use sized True in simp)
    then obtain checked where "operands_loop (ps ! i) 0 \<lparr>vs_protos = ps, building_class = False,
        class_readonly = False, building_class_name = None\<rparr> = Some checked" by blast
    then show ?thesis using i sized ok True
      by (cases checked) (simp_all add: pbc_validate_code_def)
  qed
qed

definition accepted_proto :: "nat \<Rightarrow> pproto \<Rightarrow> bool" where
  "accepted_proto count p \<longleftrightarrow>
     (\<forall>pc \<in> instruction_starts (pp_code p). pc < code_length p \<longrightarrow> accepted_instruction count p pc) \<and>
     (\<forall>entry \<in> set (catches p). accepted_catch (pp_code p) entry)"

lemma validate_code_sound:
  assumes "pbc_validate_code ps i = Some (Some ps')" "i < length ps"
    and "code_length (ps ! i) \<le> UINT16_MAX" "marked S ps"
  shows "map unmarked ps' = map unmarked ps" "accepted_proto (length ps) (ps ! i)"
    "marked (S \<union> references_from i (ps ! i) 0) ps'"
proof -
  let ?st = "\<lparr>vs_protos = ps, building_class = False, class_readonly = False,
    building_class_name = None\<rparr>"
  from assms(1,2) obtain st where
    loop: "operands_loop (ps ! i) 0 ?st = Some (Some st)" and ps': "ps' = vs_protos st"
    and catch: "catches_loop (pp_code (ps ! i)) (catches (ps ! i)) = Some True"
    by (auto simp: pbc_validate_code_def Option.bind_eq_Some_conv case_option_accepts
        split: if_split_asm)
  have "marked S (vs_protos ?st)" using assms(4) by simp
  note sound = operands_loop_sound [OF loop instruction_starts.first_start assms(3) this, of i]
  show "map unmarked ps' = map unmarked ps" "marked (S \<union> references_from i (ps ! i) 0) ps'"
    using sound ps' by simp_all
  show "accepted_proto (length ps) (ps ! i)"
    using sound catches_loop_accepts [OF catch] by (simp add: accepted_proto_def)
qed

section \<open>Whole modules\<close>

lemma validate_from_total: "i + n \<le> length ps \<Longrightarrow> validate_from i n ps \<noteq> None"
proof (induction n arbitrary: i ps)
  case 0
  then show ?case by simp
next
  case (Suc n)
  have i: "i < length ps" using Suc.prems by simp
  obtain r where r: "pbc_validate_code ps i = Some r"
    using validate_code_total [OF i] by blast
  show ?case
  proof (cases r)
    case None
    then show ?thesis using r by simp
  next
    case (Some ps')
    have "length ps' = length ps"
    proof -
      from r Some i obtain st where
        "operands_loop (ps ! i) 0 \<lparr>vs_protos = ps, building_class = False, class_readonly = False,
           building_class_name = None\<rparr> = Some (Some st)" "ps' = vs_protos st"
        by (auto simp: pbc_validate_code_def Option.bind_eq_Some_conv case_option_accepts
            split: if_split_asm)
      then show ?thesis using operands_loop_length by fastforce
    qed
    then show ?thesis using r Some Suc by simp
  qed
qed

lemma unmarked_same_checks:
  assumes "unmarked p = unmarked q"
  shows "accepted_proto count p = accepted_proto count q"
    and "references_from i p pc = references_from i q pc"
proof -
  note same = unmarked_eqD(1-4) [OF assms]
  have names: "pbc_string_constant p = pbc_string_constant q"
    by (simp add: fun_eq_iff pbc_string_constant_def same)
  show "accepted_proto count p = accepted_proto count q"
    unfolding accepted_proto_def accepted_instruction_def same names ..
  show "references_from i p pc = references_from i q pc"
    unfolding references_from_def reference_at_def same ..
qed

lemma validate_from_sound:
  "validate_from i n ps = Some (Some ps') \<Longrightarrow> i + n \<le> length ps \<Longrightarrow>
   \<forall>p \<in> set ps. code_length p \<le> UINT16_MAX \<Longrightarrow> marked S ps \<Longrightarrow>
   map unmarked ps' = map unmarked ps \<and>
   (\<forall>j. i \<le> j \<and> j < i + n \<longrightarrow> accepted_proto (length ps) (ps ! j)) \<and>
   marked (S \<union> (\<Union>j \<in> {i ..< i + n}. references_from j (ps ! j) 0)) ps'"
proof (induction n arbitrary: i ps S)
  case 0
  then show ?case by auto
next
  case (Suc n)
  then obtain ps1 where
    first: "pbc_validate_code ps i = Some (Some ps1)"
    and rest: "validate_from (i + 1) n ps1 = Some (Some ps')"
    by (auto simp: Option.bind_eq_Some_conv case_option_accepts)
  have i: "i < length ps" using Suc.prems(2) by simp
  have "code_length (ps ! i) \<le> UINT16_MAX" using Suc.prems(3) i by simp
  note sound = validate_code_sound [OF first i this Suc.prems(4)]
  have len: "length ps1 = length ps" using unmarked_lists [OF sound(1)] .
  note same = unmarked_nth [OF sound(1)]
  have short: "\<forall>p \<in> set ps1. code_length p \<le> UINT16_MAX"
    using Suc.prems(3) unmarked_eqD(1) [OF same] len by (metis in_set_conv_nth)
  note proto = unmarked_same_checks [OF same]
  have "i + 1 + n \<le> length ps1" using Suc.prems(2) len by simp
  note IH = Suc.IH [OF rest this short sound(3)]
  have "accepted_proto (length ps) (ps ! j)" if "i \<le> j" "j < i + Suc n" for j
  proof (cases "j = i")
    case True
    then show ?thesis using sound(2) by simp
  next
    case False
    then have "i + 1 \<le> j" "j < i + 1 + n" using that by simp_all
    then have "accepted_proto (length ps1) (ps1 ! j)" using IH by blast
    then show ?thesis using proto(1) [of j] \<open>j < i + 1 + n\<close> Suc.prems(2) len by simp
  qed
  moreover have "(\<Union>j \<in> {i + 1 ..< i + 1 + n}. references_from j (ps1 ! j) 0) =
      (\<Union>j \<in> {i + 1 ..< i + 1 + n}. references_from j (ps ! j) 0)"
    using proto(2) Suc.prems(2) len by (intro SUP_cong) auto
  moreover have "(\<Union>j \<in> {i ..< i + Suc n}. references_from j (ps ! j) 0) =
      references_from i (ps ! i) 0 \<union> (\<Union>j \<in> {i + 1 ..< i + 1 + n}. references_from j (ps ! j) 0)"
  proof -
    have "{i ..< i + Suc n} = insert i {i + 1 ..< i + 1 + n}" by auto
    then show ?thesis by simp
  qed
  ultimately show ?case using IH sound(1) by (simp add: Un_assoc)
qed

lemma finalize_from_roles:
  "finalize_from i ps = Some ps' \<Longrightarrow>
   map unmarked ps' = map unmarked ps \<and>
   (\<forall>j < length ps. final_role (i + j) (ps ! j) = Some (role (ps' ! j)))"
proof (induction ps arbitrary: i ps')
  case Nil
  then show ?case by simp
next
  case (Cons p ps)
  then obtain r ps1 where
    split: "final_role i p = Some r" "finalize_from (i + 1) ps = Some ps1" "ps' = p\<lparr>role := r\<rparr> # ps1"
    by (auto simp: Option.bind_eq_Some_conv)
  from Cons.IH [OF split(2)] split(1,3) show ?case
    by (auto simp: nth_Cons split: nat.split)
qed

definition all_references :: "pproto list \<Rightarrow> reference set" where
  "all_references ps = (\<Union>j < length ps. references_from j (ps ! j) 0)"

lemma verify_loops_sound:
  assumes validated: "validate_from 0 (length ps) ps = Some (Some ps')"
    and finalized: "finalize_from 0 ps' = Some ps''"
    and "\<forall>p \<in> set ps. role p = 0 \<and> code_length p \<le> UINT16_MAX"
  shows "map unmarked ps'' = map unmarked ps"
    and "\<forall>p \<in> set ps''. accepted_proto (length ps'') p"
    and "\<exists>ps'. map unmarked ps' = map unmarked ps \<and> marked (all_references ps) ps' \<and>
           (\<forall>j < length ps. final_role j (ps' ! j) = Some (role (ps'' ! j)))"
proof -
  have zero: "\<forall>t < length ps. role (ps ! t) = 0" using assms(3) by simp
  have "marked {} ps" using zero by (simp add: marked_def)
  then have sound: "map unmarked ps' = map unmarked ps \<and>
     (\<forall>j. 0 \<le> j \<and> j < 0 + length ps \<longrightarrow> accepted_proto (length ps) (ps ! j)) \<and>
     marked ({} \<union> (\<Union>j \<in> {0 ..< 0 + length ps}. references_from j (ps ! j) 0)) ps'"
    by (intro validate_from_sound [OF validated]) (use assms(3) in simp_all)
  note final = finalize_from_roles [OF finalized]
  show same: "map unmarked ps'' = map unmarked ps" using final sound by simp
  have len: "length ps'' = length ps" "length ps' = length ps"
    by (rule unmarked_lists [OF same]) (rule unmarked_lists [OF conjunct1 [OF sound]])
  show "\<forall>p \<in> set ps''. accepted_proto (length ps'') p"
  proof
    fix p assume "p \<in> set ps''"
    then obtain j where j: "j < length ps" "p = ps'' ! j" using len by (auto simp: in_set_conv_nth)
    have "unmarked (ps'' ! j) = unmarked (ps ! j)"
      by (rule unmarked_nth [OF same]) (use j len in simp)
    note checks = unmarked_same_checks(1) [OF this, of "length ps"]
    have "accepted_proto (length ps) (ps ! j)" 
      using conjunct1 [OF conjunct2 [OF sound]] j(1) by simp
    then show "accepted_proto (length ps'') p" using checks j(2) len(1) by simp
  qed
  have "marked (all_references ps) ps'"
    using sound by (simp add: all_references_def atLeast0LessThan)
  then show "\<exists>ps'. map unmarked ps' = map unmarked ps \<and> marked (all_references ps) ps' \<and>
           (\<forall>j < length ps. final_role j (ps' ! j) = Some (role (ps'' ! j)))"
    using sound final len by (intro exI [of _ ps']) simp
qed

lemma verify_module_sound:
  assumes "verify_module ps = Some (Some ps'')"
    and "\<forall>p \<in> set ps. code_length p \<le> UINT16_MAX"
  shows "map unmarked ps'' = map unmarked ps"
    and "\<forall>p \<in> set ps''. accepted_proto (length ps'') p"
    and "\<exists>ps'. map unmarked ps' = map unmarked ps \<and> marked (all_references ps) ps' \<and>
           (\<forall>j < length ps. final_role j (ps' ! j) = Some (role (ps'' ! j)))"
proof -
  let ?ps = "map unmarked ps"
  from assms(1) obtain ps' where
    steps: "validate_from 0 (length ?ps) ?ps = Some (Some ps')" "finalize_from 0 ps' = Some ps''"
    by (auto simp: verify_module_def pbc_finalize_proto_roles_def Option.bind_eq_Some_conv
        split: option.split_asm)
  have "\<forall>p \<in> set ?ps. role p = 0 \<and> code_length p \<le> UINT16_MAX" using assms(2) by simp
  note sound = verify_loops_sound [OF steps this]
  have bare: "map unmarked ?ps = ?ps" by simp
  have refs: "all_references ?ps = all_references ps"
    unfolding all_references_def length_map
    by (intro SUP_cong refl unmarked_same_checks(2)) simp
  show "map unmarked ps'' = ?ps" using sound(1) unfolding bare .
  show "\<forall>p \<in> set ps''. accepted_proto (length ps'') p" by (rule sound(2))
  show "\<exists>ps'. map unmarked ps' = map unmarked ps \<and> marked (all_references ps) ps' \<and>
           (\<forall>j < length ps. final_role j (ps' ! j) = Some (role (ps'' ! j)))"
    using sound(3) unfolding bare refs length_map .
qed

text \<open>The role that the mark of a reference turns into.\<close>

lemma final_role_of_mark:
  assumes "final_role j p = Some r"
  shows "j = 0 \<Longrightarrow> r = PPROTO_MAIN \<and> role p = 0"
    and "j \<noteq> 0 \<Longrightarrow> r = PPROTO_METHOD \<longleftrightarrow> role p = PBC_REF_METHOD"
    and "j \<noteq> 0 \<Longrightarrow> r = PPROTO_CLOSURE \<longleftrightarrow> role p = PBC_REF_CLOSURE"
    and "j \<noteq> 0 \<Longrightarrow> r = PPROTO_FUNCTION \<and> conditional p \<longleftrightarrow> role p = PBC_REF_FUNCTION"
    and "j \<noteq> 0 \<Longrightarrow> r = PPROTO_FUNCTION \<and> \<not> conditional p \<longleftrightarrow> role p = 0"
  using assms
  by (auto simp: final_role_def Let_def PPROTO_MAIN_def PPROTO_METHOD_def PPROTO_CLOSURE_def
      PPROTO_FUNCTION_def PBC_REF_METHOD_def PBC_REF_CLOSURE_def PBC_REF_FUNCTION_def
      split: if_splits)

lemma marked_role_iff:
  assumes "marked S ps" "t < length ps" "k \<noteq> 0"
  shows "role (ps ! t) = k \<longleftrightarrow> (\<exists>i pc. (i, pc, t, k) \<in> S)"
proof
  assume k: "role (ps ! t) = k"
  then have "t \<in> ref_target ` S" using assms by (auto simp: marked_def)
  then obtain i pc k' where "(i, pc, t, k') \<in> S" by (auto simp: ref_target_def)
  moreover from this have "role (ps ! t) = k'"
    using assms(1) unfolding marked_def ref_target_def ref_mark_def by fastforce
  ultimately show "\<exists>i pc. (i, pc, t, k) \<in> S" using k by blast
next
  assume "\<exists>i pc. (i, pc, t, k) \<in> S"
  then show "role (ps ! t) = k"
    using assms(1) unfolding marked_def ref_target_def ref_mark_def by fastforce
qed

lemma marked_role_zero_iff:
  assumes "marked S ps" "t < length ps"
  shows "role (ps ! t) = 0 \<longleftrightarrow> (\<nexists>i pc k. (i, pc, t, k) \<in> S)"
proof -
  have "role (ps ! t) = 0 \<longleftrightarrow> t \<notin> ref_target ` S"
    using assms by (auto simp: marked_def)
  also have "\<dots> \<longleftrightarrow> (\<nexists>i pc k. (i, pc, t, k) \<in> S)"
    by (auto simp: ref_target_def image_iff)
  finally show ?thesis .
qed

lemma marked_unique:
  "marked S ps \<Longrightarrow> (i, pc, t, k) \<in> S \<Longrightarrow> (i', pc', t, k') \<in> S \<Longrightarrow> i = i' \<and> pc = pc' \<and> k = k'"
  by (auto simp: marked_def inj_on_def ref_target_def)

definition role_matches :: "reference set \<Rightarrow> nat \<Rightarrow> pproto \<Rightarrow> bool" where
  "role_matches S t p \<longleftrightarrow>
     (if t = 0 then role p = PPROTO_MAIN \<and> (\<nexists>i pc k. (i, pc, t, k) \<in> S)
      else
        (role p = PPROTO_METHOD \<longleftrightarrow> (\<exists>i pc. (i, pc, t, PBC_REF_METHOD) \<in> S)) \<and>
        (role p = PPROTO_CLOSURE \<longleftrightarrow> (\<exists>i pc. (i, pc, t, PBC_REF_CLOSURE) \<in> S)) \<and>
        (role p = PPROTO_FUNCTION \<and> conditional p \<longleftrightarrow> (\<exists>i pc. (i, pc, t, PBC_REF_FUNCTION) \<in> S)) \<and>
        (role p = PPROTO_FUNCTION \<and> \<not> conditional p \<longleftrightarrow> (\<nexists>i pc k. (i, pc, t, k) \<in> S)))"

lemma marked_final_role:
  assumes "marked S ps" "t < length ps" "final_role t (ps ! t) = Some (role q)"
    and "unmarked (ps ! t) = unmarked q"
  shows "role_matches S t q"
proof -
  have cond: "conditional (ps ! t) = conditional q" by (rule unmarked_eqD(8) [OF assms(4)])
  have nonzero: "PBC_REF_METHOD \<noteq> 0" "PBC_REF_CLOSURE \<noteq> 0" "PBC_REF_FUNCTION \<noteq> 0"
    by (simp_all add: PBC_REF_METHOD_def PBC_REF_CLOSURE_def PBC_REF_FUNCTION_def)
  note iff = marked_role_iff [OF assms(1,2)] and zero = marked_role_zero_iff [OF assms(1,2)]
  show ?thesis
  proof (cases "t = 0")
    case True
    then show ?thesis
      using final_role_of_mark(1) [OF assms(3)] zero by (simp add: role_matches_def)
  next
    case False
    note mark = final_role_of_mark(2-5) [OF assms(3) False, unfolded cond]
    show ?thesis
      unfolding role_matches_def if_not_P [OF False] mark zero iff [OF nonzero(1)]
        iff [OF nonzero(2)] iff [OF nonzero(3)] by blast
  qed
qed

lemma verifier_total: "verify_module ps \<noteq> None"
proof -
  have "validate_from 0 (length ps) (map unmarked ps) \<noteq> None"
    by (rule validate_from_total) simp
  then show ?thesis by (auto simp: verify_module_def)
qed

section \<open>Properties\<close>


text \<open>
  C34. What the verifier accepts is safe to execute: when the second pass and the
  assignment of roles succeed, only roles have changed, and in every prototype each
  instruction reached by decoding from the start is complete, its local slots, constants
  and prototypes exist, the constants that name something are strings, and every jump and
  every exception handler goes to the start of an instruction of the same prototype.
\<close>

theorem verified_code_is_safe:
  assumes "verify_module ps = Some (Some ps'')"
    and "\<forall>p \<in> set ps. code_length p \<le> UINT16_MAX"
  shows "map unmarked ps'' = map unmarked ps \<and> (\<forall>p \<in> set ps''. accepted_proto (length ps'') p)"
  using verify_module_sound(1,2) [OF assms] by blast

text \<open>
  C38. Roles follow the references: no two instructions of a verified module define the same
  prototype; the first prototype is the main program and nothing refers to it; the others
  are methods, closures or conditional functions exactly when a \<open>DEF_METHOD\<close>,
  \<open>CLOSURE\<close> or \<open>DEF_FUNC\<close> instruction refers to them, and unconditional functions
  exactly when no instruction does.
\<close>

theorem roles_follow_references:
  assumes "verify_module ps = Some (Some ps'')"
    and "\<forall>p \<in> set ps. code_length p \<le> UINT16_MAX"
  shows "inj_on ref_target (all_references ps) \<and>
    (\<forall>t < length ps''. role_matches (all_references ps) t (ps'' ! t))"
proof -
  from verify_module_sound(3) [OF assms] obtain ps' where
    same: "map unmarked ps' = map unmarked ps" and marked: "marked (all_references ps) ps'"
    and final: "\<forall>j < length ps. final_role j (ps' ! j) = Some (role (ps'' ! j))" by blast
  have len: "length ps'' = length ps" "length ps' = length ps"
    by (rule unmarked_lists [OF verify_module_sound(1) [OF assms]]) (rule unmarked_lists [OF same])
  have same': "map unmarked ps' = map unmarked ps''"
    using verify_module_sound(1) [OF assms] same by simp
  have "role_matches (all_references ps) t (ps'' ! t)" if t: "t < length ps''" for t
  proof (rule marked_final_role [OF marked])
    show "t < length ps'" using t len by simp
    show "final_role t (ps' ! t) = Some (role (ps'' ! t))" using final t len by simp
    show "unmarked (ps' ! t) = unmarked (ps'' ! t)"
      using unmarked_nth [OF same'] t len by simp
  qed
  then show ?thesis using marked by (simp add: marked_def)
qed

section \<open>Witnesses\<close>

text \<open>
  A main program that loads a constant, jumps over a closure, defines a class with a method
  and halts.
\<close>

definition demo_string :: "addr \<Rightarrow> bytes \<Rightarrow> pstring" where
  "demo_string a b =
     \<lparr>ps_addr = a, ps_rostring = True, ps_interned = False, ps_hash = 1, ps_data = b\<rparr>"

definition demo_main :: pproto where
  "demo_main = (empty_pproto 0 (demo_string 8 ''main''))
     \<lparr>pp_code :=
        [OP_LOAD_CONST, 0, 0, OP_JMP_UNLESS, 5, 0, OP_CLOSURE, 1, 0, 0, OP_POP,
         OP_DEF_CLASS, 0, 0, 0xff, 0xff, 0, OP_DEF_METHOD, 1, 0, 2, 0, 1, OP_DEF_END, OP_HALT],
      constants := [PString (demo_string 16 ''A''), PString (demo_string 24 ''f'')]\<rparr>"

definition demo_closure :: pproto where
  "demo_closure = (empty_pproto 64 (demo_string 32 ''{closure#1}''))\<lparr>pp_code := [OP_RET_NULL]\<rparr>"

definition demo_method :: pproto where
  "demo_method = (empty_pproto 128 (demo_string 40 ''A::f''))
     \<lparr>is_method := True, pp_code := [OP_LOAD_LOCAL, 0, OP_RET], locals := [demo_string 48 ''this'']\<rparr>"

definition demo_protos :: "pproto list" where
  "demo_protos = [demo_main, demo_closure, demo_method]"

definition demo_verified :: "pproto list" where
  "demo_verified =
     [demo_main\<lparr>role := PPROTO_MAIN\<rparr>, demo_closure\<lparr>role := PPROTO_CLOSURE\<rparr>,
      demo_method\<lparr>role := PPROTO_METHOD\<rparr>]"

lemmas demo_defs = demo_protos_def demo_verified_def demo_main_def demo_closure_def demo_method_def
  empty_pproto_def demo_string_def

lemmas verify_eval = pbc_validate_code_def sizes_loop.simps operands_loop.simps
  pbc_instruction_size_def opcode_size_eval Let_def pbc_range_available_def get_u16_def
  check_operands_def check_jump_def jump_target_def pbc_instruction_boundary_def boundary_loop.simps
  check_closure_def pbc_reference_proto_def pbc_closure_proto_name_def
  check_def_class_def check_def_method_def pbc_string_constant_def constant_string_def
  pbc_bytes_equal_ci_def pbc_method_proto_name_def pbc_flag_visibility_def
  is_digit_def digit_value_def ord_def SIZE_MAX_def

lemma demo_sizes: "sizes_loop (pp_code demo_main) 0 = Some True"
  by (simp add: verify_eval demo_defs)

definition demo_marked :: "pproto list" where
  "demo_marked = [demo_main, demo_closure\<lparr>role := PBC_REF_CLOSURE\<rparr>, demo_method\<lparr>role := PBC_REF_METHOD\<rparr>]"

lemma demo_main_valid: "pbc_validate_code demo_protos 0 = Some (Some demo_marked)"
  by (simp add: verify_eval demo_defs demo_marked_def)

lemma demo_closure_valid: "pbc_validate_code demo_marked 1 = Some (Some demo_marked)"
  by (simp add: verify_eval demo_defs demo_marked_def)

lemma demo_method_valid: "pbc_validate_code demo_marked 2 = Some (Some demo_marked)"
  by (simp add: verify_eval demo_defs demo_marked_def)

lemma demo_verifies: "verify_module demo_protos = Some (Some demo_verified)"
proof -
  have "map (\<lambda>p. p\<lparr>role := 0\<rparr>) demo_protos = demo_protos" "length demo_protos = 3"
    by (simp_all add: demo_defs)
  moreover have "validate_from 0 3 demo_protos = Some (Some demo_marked)"
    using demo_main_valid demo_closure_valid demo_method_valid
    by (simp add: numeral_3_eq_3 numeral_2_eq_2)
  moreover have "pbc_finalize_proto_roles demo_marked = Some demo_verified"
    by (simp add: pbc_finalize_proto_roles_def demo_marked_def demo_defs final_role_def Let_def
        PBC_REF_METHOD_def PBC_REF_CLOSURE_def PBC_REF_FUNCTION_def)
  ultimately show ?thesis by (simp add: verify_module_def)
qed

lemma demo_short: "\<forall>p \<in> set demo_protos. code_length p \<le> UINT16_MAX"
  by (simp add: demo_protos_def demo_main_def demo_closure_def demo_method_def empty_pproto_def
      UINT16_MAX_def)

theorem verified_code_is_safe_witness: "list_all (accepted_proto 3) demo_verified"
  using verified_code_is_safe [OF demo_verifies demo_short]
  by (simp add: demo_verified_def numeral_3_eq_3 list_all_iff)

theorem roles_follow_references_witness:
  "inj_on ref_target (all_references demo_protos) \<and>
   role_matches (all_references demo_protos) 2 (demo_method\<lparr>role := PPROTO_METHOD\<rparr>)"
  using roles_follow_references [OF demo_verifies demo_short]
  by (auto simp: demo_verified_def numeral_2_eq_2 dest: spec [of _ 2])

end
