(* ===== verification/PbcLoad.thy ===== *)
theory PbcLoad
  imports PbcVerify
begin

text \<open>
  The loader of bytecode images: \<open>pphp_pbc_load\<close> of \<open>src/pbc.c\<close>.  An image is a list of
  bytes at the address \<open>base\<close>; the module refers to it for code and strings.

  The outer option is \<open>None\<close> where the code would read outside the image or follow a null
  pointer.  A step of the loader returns a status: \<open>PPHP_OK\<close> to go on, and any other code
  for \<open>goto failed_module\<close>.  While a module is loaded or destroyed its strings have no owner,
  and \<open>pv_retain\<close> and \<open>pv_release\<close> of such a string do nothing, so no events are reported.
\<close>

unbundle bit_operations_syntax

section \<open>Result codes and the format\<close>

definition PPHP_OK :: nat where "PPHP_OK = 0"
definition PPHP_E_PARSE :: nat where "PPHP_E_PARSE = 1"
definition PPHP_E_NOMEM :: nat where "PPHP_E_NOMEM = 3"
definition PPHP_E_IO :: nat where "PPHP_E_IO = 4"

definition PPHP_PBC_FORMAT_VERSION :: u16 where "PPHP_PBC_FORMAT_VERSION = 2"
definition PPHP_PBC_FLAG_DOUBLE :: u16 where "PPHP_PBC_FLAG_DOUBLE = 2"
definition PPHP_PBC_FLAG_LINE_INFO :: u16 where "PPHP_PBC_FLAG_LINE_INFO = 4"
definition PPHP_PBC_FLAG_FLOAT :: u16 where "PPHP_PBC_FLAG_FLOAT = 16"
definition PPHP_PBC_FLAG_FEATURES :: u16 where "PPHP_PBC_FLAG_FEATURES = 32"

text \<open>The flags of the host build: doubles, line numbers and floats, 32-bit integers.\<close>

definition expected_flags :: u16 where
  "expected_flags =
     PPHP_PBC_FLAG_DOUBLE OR PPHP_PBC_FLAG_LINE_INFO OR PPHP_PBC_FLAG_FLOAT OR PPHP_PBC_FLAG_FEATURES"

definition PPBC :: "u8 list" where "PPBC = [0x50, 0x50, 0x42, 0x43]"

section \<open>The header and the offset table\<close>

text \<open>Entries \<open>i, i + 1, ...\<close> of the table: aligned, inside the image and increasing.\<close>

fun offsets_loop :: "u8 list \<Rightarrow> nat \<Rightarrow> nat \<Rightarrow> nat \<Rightarrow> bool option" where
  "offsets_loop bytes records_start i 0 = Some True"
| "offsets_loop bytes records_start i (Suc n) = do {
     record_offset \<leftarrow> map_option unat (get_u32 bytes (16 + i * 4));
     previous \<leftarrow> (if i = 0 then Some records_start
                 else map_option unat (get_u32 bytes (16 + (i - 1) * 4)));
     if record_offset AND 3 \<noteq> 0 \<or> record_offset < records_start \<or>
        record_offset < previous \<or> (i \<noteq> 0 \<and> record_offset = previous) \<or>
        length bytes < record_offset
     then Some False
     else offsets_loop bytes records_start (i + 1) n
   }"

text \<open>\<open>Inl\<close> is the code returned; \<open>Inr\<close> the numbers of prototypes and strings.\<close>

definition load_header :: "u8 list \<Rightarrow> (nat + nat \<times> nat) option" where
  "load_header bytes =
     (if \<not> pbc_range_available 0 16 (length bytes) \<or> take 4 bytes \<noteq> PPBC
      then Some (Inl PPHP_E_PARSE)
      else do {
        version \<leftarrow> get_u16 bytes 4;
        total \<leftarrow> get_u32 bytes 8;
        if version \<noteq> PPHP_PBC_FORMAT_VERSION \<or> unat total \<noteq> length bytes
        then Some (Inl PPHP_E_PARSE)
        else do {
          flags \<leftarrow> get_u16 bytes 6;
          let image_flags = (if flags AND PPHP_PBC_FLAG_FEATURES = 0
                             then flags OR (PPHP_PBC_FLAG_FLOAT OR PPHP_PBC_FLAG_FEATURES)
                             else flags);
          if image_flags AND NOT PPHP_PBC_FLAG_FLOAT \<noteq> expected_flags AND NOT PPHP_PBC_FLAG_FLOAT
          then Some (Inl PPHP_E_PARSE)
          else if image_flags \<noteq> expected_flags then Some (Inl PPHP_E_PARSE)
          else do {
            n_protos \<leftarrow> map_option unat (get_u16 bytes 12);
            n_strings \<leftarrow> map_option unat (get_u16 bytes 14);
            let table_entries = n_strings + n_protos;
            if n_protos = 0 \<or> (SIZE_MAX - 16) div 4 < table_entries
            then Some (Inl PPHP_E_PARSE)
            else do {
              let table_size = table_entries * 4;
              if \<not> pbc_range_available 16 table_size (length bytes) then Some (Inl PPHP_E_PARSE)
              else do {
                let records_start = align4 (16 + table_size);
                if length bytes < records_start then Some (Inl PPHP_E_PARSE)
                else do {
                  ok \<leftarrow> offsets_loop bytes records_start 0 table_entries;
                  Some (if ok then Inr (n_protos, n_strings) else Inl PPHP_E_PARSE)
                }
              }
            }
          }
        }
      })"

section \<open>Strings\<close>

definition bytes_chars :: "u8 list \<Rightarrow> bytes" where
  "bytes_chars bs = map (\<lambda>b. char_of (unat b)) bs"

definition zero_ro_string :: pro_string where
  "zero_ro_string =
     \<lparr>ro_base = \<lparr>ps_addr = 0, ps_rostring = False, ps_interned = False, ps_hash = 0, ps_data = []\<rparr>,
      ro_owner = False\<rparr>"

text \<open>The string record between \<open>offset\<close> and \<open>limit\<close>; it is entry \<open>i\<close> of the table at \<open>ptr\<close>.\<close>

definition load_string :: "u8 list \<Rightarrow> addr \<Rightarrow> nat \<Rightarrow> nat \<Rightarrow> nat \<Rightarrow> pro_string option option" where
  "load_string bytes ptr i offset limit =
     (if offset AND 3 \<noteq> 0 \<or> \<not> pbc_range_available offset 2 (length bytes) then Some None
      else do {
        string_length \<leftarrow> map_option unat (get_u16 bytes offset);
        let record_size = 2 + string_length + 1;
        case Option.bind (size_add offset record_size) size_align4 of
          None \<Rightarrow> Some None
        | Some record_end \<Rightarrow>
            if \<not> pbc_range_available offset record_size limit \<or> record_end \<noteq> limit then Some None
            else do {
              terminator \<leftarrow> rd bytes (offset + 2 + string_length);
              if terminator \<noteq> 0 then Some None
              else
                let b = bytes_chars (take string_length (drop (offset + 2) bytes))
                in Some (Some
                     \<lparr>ro_base = \<lparr>ps_addr = ptr + i * sizeof_pro_string, ps_rostring = True,
                        ps_interned = False, ps_hash = ps_hash_bytes b, ps_data = b\<rparr>,
                      ro_owner = False\<rparr>)
            }
      })"

text \<open>The loop over the table: the strings built so far, and whether all were accepted.\<close>

fun load_strings :: "u8 list \<Rightarrow> addr \<Rightarrow> nat \<Rightarrow> nat \<Rightarrow> pro_string list \<Rightarrow> (bool \<times> pro_string list) option" where
  "load_strings bytes ptr i 0 strings = Some (True, strings)"
| "load_strings bytes ptr i (Suc n) strings = do {
     offset \<leftarrow> map_option unat (get_u32 bytes (16 + i * 4));
     limit \<leftarrow> map_option unat (get_u32 bytes (16 + (i + 1) * 4));
     loaded \<leftarrow> load_string bytes ptr i offset limit;
     case loaded of
       None \<Rightarrow> Some (False, strings)
     | Some s \<Rightarrow> load_strings bytes ptr (i + 1) n (strings[i := s])
   }"

section \<open>Constants\<close>

text \<open>
  The conversion of a \<open>float\<close> to a \<open>double\<close>: exact, with subnormal numbers normalised and
  signalling NaNs made quiet.
\<close>

fun floor_log2_of :: "nat \<Rightarrow> nat" where
  "floor_log2_of v = (if 1 < v then Suc (floor_log2_of (v div 2)) else 0)"

declare floor_log2_of.simps [simp del]

definition float_to_double :: "u32 \<Rightarrow> u64" where
  "float_to_double bits =
     (let sign = push_bit 32 (ucast (bits AND 0x80000000));
          exponent = unat (drop_bit 23 bits AND 0xff);
          fraction = (ucast (bits AND 0x007fffff) :: u64)
      in if exponent = 255 then
           sign OR 0x7ff0000000000000 OR push_bit 29 fraction OR
           (if fraction = 0 then 0 else 0x0008000000000000)
         else if exponent \<noteq> 0 then
           sign OR push_bit 52 (of_nat (exponent + 896)) OR push_bit 29 fraction
         else if fraction = 0 then sign
         else
           let k = floor_log2_of (unat fraction)
           in sign OR push_bit 52 (of_nat (k + 874)) OR
              (push_bit (52 - k) fraction AND 0x000fffffffffffff))"

text \<open>One constant at \<open>offset\<close> with its size; \<open>Some None\<close> is an invalid constant.\<close>

definition load_constant ::
  "u8 list \<Rightarrow> pro_string list \<Rightarrow> nat \<Rightarrow> nat \<Rightarrow> (pvalue \<times> nat) option option" where
  "load_constant bytes strings offset limit =
     (if \<not> pbc_range_available offset 8 limit then Some None
      else do {
        tag \<leftarrow> rd bytes offset;
        let constant_size = (if tag = 3 \<or> tag = 4 then 16 else 8);
        if \<not> pbc_range_available offset constant_size limit then Some None
        else if tag = 0 then do {
          bits \<leftarrow> get_u32 bytes (offset + 4);
          Some (Some (PInt bits, constant_size))
        }
        else if tag = 1 then do {
          bits \<leftarrow> get_u32 bytes (offset + 4);
          Some (Some (PFloat (float_to_double bits), constant_size))
        }
        else if tag = 2 then do {
          sid \<leftarrow> map_option unat (get_u32 bytes (offset + 4));
          if length strings \<le> sid then Some None
          else Some (Some (PString (ro_base (strings ! sid)), constant_size))
        }
        else if tag = 3 then do {
          low \<leftarrow> get_u32 bytes (offset + 8);
          high \<leftarrow> get_u32 bytes (offset + 12);
          Some (Some (PFloat (ucast low OR push_bit 32 (ucast high)), constant_size))
        }
        else Some None
      })"

fun load_constants ::
  "'h heap_ops \<Rightarrow> u8 list \<Rightarrow> pro_string list \<Rightarrow> nat \<Rightarrow> nat \<Rightarrow> nat \<Rightarrow> pproto \<Rightarrow> 'h
     \<Rightarrow> (nat \<times> nat \<times> pproto \<times> 'h) option" where
  "load_constants ops bytes strings limit 0 offset p h = Some (PPHP_OK, offset, p, h)"
| "load_constants ops bytes strings limit (Suc n) offset p h = do {
     loaded \<leftarrow> load_constant bytes strings offset limit;
     case loaded of
       None \<Rightarrow> Some (PPHP_E_PARSE, offset, p, h)
     | Some (v, constant_size) \<Rightarrow>
         (case pproto_add_constant ops v p h of
            (None, p, _, h) \<Rightarrow> Some (PPHP_E_NOMEM, offset, p, h)
          | (Some ignored, p, _, h) \<Rightarrow>
              (case pbc_advance offset constant_size limit of
                 None \<Rightarrow> Some (PPHP_E_PARSE, offset, p, h)
               | Some offset \<Rightarrow> load_constants ops bytes strings limit n offset p h))
   }"

section \<open>Locals and exception handlers\<close>

fun load_locals ::
  "'h heap_ops \<Rightarrow> u8 list \<Rightarrow> pro_string list \<Rightarrow> nat \<Rightarrow> nat \<Rightarrow> nat \<Rightarrow> nat \<Rightarrow> pproto \<Rightarrow> 'h
     \<Rightarrow> (nat \<times> nat \<times> pproto \<times> 'h) option" where
  "load_locals ops bytes strings limit j 0 offset p h = Some (PPHP_OK, offset, p, h)"
| "load_locals ops bytes strings limit j (Suc n) offset p h =
     (if \<not> pbc_range_available offset 2 limit then Some (PPHP_E_PARSE, offset, p, h)
      else do {
        local_sid \<leftarrow> map_option unat (get_u16 bytes offset);
        if length strings \<le> local_sid then Some (PPHP_E_PARSE, offset, p, h)
        else
          case pproto_add_local ops (ps_data (ro_base (strings ! local_sid))) p h of
            (None, p, h) \<Rightarrow> Some (PPHP_E_PARSE, offset, p, h)
          | (Some slot, p, h) \<Rightarrow>
              if unat slot \<noteq> j then Some (PPHP_E_PARSE, offset, p, h)
              else
                case pbc_advance offset 2 limit of
                  None \<Rightarrow> Some (PPHP_E_PARSE, offset, p, h)
                | Some offset \<Rightarrow> load_locals ops bytes strings limit (j + 1) n offset p h
      })"

text \<open>The fields of a handler record, and whether they are accepted.\<close>

definition read_catch :: "u8 list \<Rightarrow> nat \<Rightarrow> pproto \<Rightarrow> ((pcatch \<times> u16) option) option" where
  "read_catch bytes offset p = do {
     start_pc \<leftarrow> get_u16 bytes offset;
     end_pc \<leftarrow> get_u16 bytes (offset + 2);
     handler \<leftarrow> get_u16 bytes (offset + 4);
     class_sid \<leftarrow> get_u16 bytes (offset + 6);
     slot \<leftarrow> rd bytes (offset + 8);
     padding \<leftarrow> rd bytes (offset + 9);
     Some (if end_pc < start_pc \<or> code_length p < unat end_pc \<or> code_length p \<le> unat handler \<or>
              padding \<noteq> 0 \<or> (slot \<noteq> 255 \<and> n_locals p \<le> unat slot)
           then None
           else Some (\<lparr>try_start = start_pc, try_end = end_pc, handler_pc = handler,
                       class_constant = 65535, variable_slot = slot, reserved = 0\<rparr>, class_sid))
   }"

definition store_catch ::
  "'h heap_ops \<Rightarrow> u8 list \<Rightarrow> pro_string list \<Rightarrow> pcatch \<Rightarrow> u16 \<Rightarrow> pproto \<Rightarrow> 'h \<Rightarrow> nat \<times> pproto \<times> 'h" where
  "store_catch ops bytes strings entry class_sid p h =
     (let add = (\<lambda>entry p h.
            case pproto_add_catch ops entry p h of
              (False, p, h) \<Rightarrow> (PPHP_E_PARSE, p, h)
            | (True, p, h) \<Rightarrow> (PPHP_OK, p, h))
      in if class_sid = 65535 then add entry p h
         else if length strings \<le> unat class_sid then (PPHP_E_PARSE, p, h)
         else
           case pproto_add_constant ops (PString (ro_base (strings ! unat class_sid))) p h of
             (None, p, _, h) \<Rightarrow> (PPHP_E_NOMEM, p, h)
           | (Some k, p, _, h) \<Rightarrow> add (entry\<lparr>class_constant := k\<rparr>) p h)"

fun load_catches ::
  "'h heap_ops \<Rightarrow> u8 list \<Rightarrow> pro_string list \<Rightarrow> nat \<Rightarrow> nat \<Rightarrow> nat \<Rightarrow> pproto \<Rightarrow> 'h
     \<Rightarrow> (nat \<times> nat \<times> pproto \<times> 'h) option" where
  "load_catches ops bytes strings limit 0 offset p h = Some (PPHP_OK, offset, p, h)"
| "load_catches ops bytes strings limit (Suc n) offset p h =
     (if \<not> pbc_range_available offset 10 limit then Some (PPHP_E_PARSE, offset, p, h)
      else do {
        entry \<leftarrow> read_catch bytes offset p;
        case entry of
          None \<Rightarrow> Some (PPHP_E_PARSE, offset, p, h)
        | Some (entry, class_sid) \<Rightarrow>
            let (status, p, h) = store_catch ops bytes strings entry class_sid p h
            in if status \<noteq> PPHP_OK then Some (status, offset, p, h)
               else
                 case pbc_advance offset 10 limit of
                   None \<Rightarrow> Some (PPHP_E_PARSE, offset, p, h)
                 | Some offset \<Rightarrow> load_catches ops bytes strings limit n offset p h
      })"

section \<open>Prototypes\<close>

record proto_header =
  ph_params :: u8
  ph_required :: u8
  ph_flags :: u8
  ph_locals :: u8
  ph_padding :: "u8 \<times> u8"
  ph_stack :: u16
  ph_code :: nat
  ph_constants :: nat
  ph_catches :: nat
  ph_name :: nat

definition read_proto_header :: "u8 list \<Rightarrow> nat \<Rightarrow> proto_header option" where
  "read_proto_header bytes offset = do {
     params \<leftarrow> rd bytes offset;
     required \<leftarrow> rd bytes (offset + 1);
     flags \<leftarrow> rd bytes (offset + 2);
     locals_n \<leftarrow> rd bytes (offset + 3);
     pad4 \<leftarrow> rd bytes (offset + 4);
     pad5 \<leftarrow> rd bytes (offset + 5);
     stack \<leftarrow> get_u16 bytes (offset + 6);
     code_n \<leftarrow> get_u16 bytes (offset + 8);
     constant_n \<leftarrow> get_u16 bytes (offset + 10);
     catch_n \<leftarrow> get_u16 bytes (offset + 12);
     name_sid \<leftarrow> get_u16 bytes (offset + 14);
     Some \<lparr>ph_params = params, ph_required = required, ph_flags = flags, ph_locals = locals_n,
       ph_padding = (pad4, pad5), ph_stack = stack, ph_code = unat code_n,
       ph_constants = unat constant_n, ph_catches = unat catch_n, ph_name = unat name_sid\<rparr>
   }"

text \<open>The fields that the record's first bytes give the prototype.\<close>

definition proto_of_header :: "proto_header \<Rightarrow> pproto \<Rightarrow> pproto" where
  "proto_of_header ph p =
     p\<lparr>n_params := ph_params ph, n_required := ph_required ph,
       variadic := ph_flags ph AND 1 \<noteq> 0, is_method := ph_flags ph AND 2 \<noteq> 0,
       conditional := ph_flags ph AND 8 \<noteq> 0\<rparr>"

definition header_invalid :: "nat \<Rightarrow> proto_header \<Rightarrow> pproto \<Rightarrow> bool" where
  "header_invalid i ph p \<longleftrightarrow>
     ph_flags ph AND NOT 11 \<noteq> 0 \<or> fst (ph_padding ph) \<noteq> 0 \<or> snd (ph_padding ph) \<noteq> 0 \<or>
     (is_method p \<and> conditional p) \<or>
     (i = 0 \<and> (n_params p \<noteq> 0 \<or> n_required p \<noteq> 0 \<or> variadic p \<or> is_method p \<or> conditional p)) \<or>
     31 < n_params p \<or> n_params p < n_required p \<or> (variadic p \<and> n_params p = 0) \<or>
     unat (ph_locals ph) < unat (n_params p) + (if is_method p then 1 else 0)"

text \<open>The body of the record after the header: code, constants, locals and handlers.\<close>

definition load_body ::
  "'h heap_ops \<Rightarrow> addr \<Rightarrow> u8 list \<Rightarrow> pro_string list \<Rightarrow> proto_header \<Rightarrow> nat \<Rightarrow> nat \<Rightarrow> pproto \<Rightarrow> 'h
     \<Rightarrow> (nat \<times> pproto \<times> 'h) option" where
  "load_body ops base bytes strings ph limit offset p h =
     (let p = p\<lparr>max_stack := ph_stack ph, code_ptr := Some (base + offset + 16),
                pp_code := take (ph_code ph) (drop (offset + 16) bytes), owns_code := False,
                code_capacity := 0\<rparr>
      in case pbc_advance offset (16 + align4 (ph_code ph)) limit of
           None \<Rightarrow> Some (PPHP_E_PARSE, p, h)
         | Some offset \<Rightarrow> do {
             (status, offset, p, h) \<leftarrow> load_constants ops bytes strings limit (ph_constants ph) offset p h;
             if status \<noteq> PPHP_OK then Some (status, p, h)
             else do {
               (status, offset, p, h) \<leftarrow> load_locals ops bytes strings limit 0 (unat (ph_locals ph)) offset p h;
               if status \<noteq> PPHP_OK then Some (status, p, h)
               else do {
                 (status, offset, p, h) \<leftarrow> load_catches ops bytes strings limit (ph_catches ph) offset p h;
                 if status \<noteq> PPHP_OK then Some (status, p, h)
                 else Some (if size_align4 offset \<noteq> Some limit then PPHP_E_PARSE else PPHP_OK, p, h)
               }
             }
           })"

definition load_proto ::
  "'h heap_ops \<Rightarrow> addr \<Rightarrow> u8 list \<Rightarrow> pro_string list \<Rightarrow> nat \<Rightarrow> nat \<Rightarrow> nat \<Rightarrow> pmodule \<Rightarrow> 'h
     \<Rightarrow> (nat \<times> pmodule \<times> 'h) option" where
  "load_proto ops base bytes strings i offset limit m h =
     (if \<not> pbc_range_available offset 16 limit then Some (PPHP_E_PARSE, m, h)
      else do {
        ph \<leftarrow> read_proto_header bytes offset;
        if length strings \<le> ph_name ph \<or>
           \<not> pbc_range_available offset (16 + align4 (ph_code ph)) limit
        then Some (PPHP_E_PARSE, m, h)
        else
          case pproto_new ops (Some (ps_data (ro_base (strings ! ph_name ph)))) h of
            (None, h) \<Rightarrow> Some (PPHP_E_NOMEM, m, h)
          | (Some p, h) \<Rightarrow>
              (case pmodule_add ops p m h of
                 (False, m, h) \<Rightarrow> Some (PPHP_E_NOMEM, m, snd (pproto_destroy ops (Some p) h))
               | (True, m, h) \<Rightarrow>
                   let p = proto_of_header ph (last (protos m))
                   in if header_invalid i ph p
                      then Some (PPHP_E_PARSE, m\<lparr>protos := butlast (protos m) @ [p]\<rparr>, h)
                      else do {
                        (status, p, h) \<leftarrow> load_body ops base bytes strings ph limit offset p h;
                        Some (status, m\<lparr>protos := butlast (protos m) @ [p]\<rparr>, h)
                      })
      })"

fun load_protos ::
  "'h heap_ops \<Rightarrow> addr \<Rightarrow> u8 list \<Rightarrow> pro_string list \<Rightarrow> nat \<Rightarrow> nat \<Rightarrow> nat \<Rightarrow> pmodule \<Rightarrow> 'h
     \<Rightarrow> (nat \<times> pmodule \<times> 'h) option" where
  "load_protos ops base bytes strings proto_table i 0 m h = Some (PPHP_OK, m, h)"
| "load_protos ops base bytes strings proto_table i (Suc n) m h = do {
     offset \<leftarrow> map_option unat (get_u32 bytes (proto_table + i * 4));
     limit \<leftarrow> (if 0 < n then map_option unat (get_u32 bytes (proto_table + (i + 1) * 4))
               else Some (length bytes));
     (status, m, h) \<leftarrow> load_proto ops base bytes strings i offset limit m h;
     if status \<noteq> PPHP_OK then Some (status, m, h)
     else load_protos ops base bytes strings proto_table (i + 1) n m h
   }"

section \<open>The loader\<close>

definition failed_module ::
  "'h heap_ops \<Rightarrow> nat \<Rightarrow> pmodule \<Rightarrow> 'h \<Rightarrow> (nat \<times> pmodule \<times> 'h) option" where
  "failed_module ops result m h = do {
     (m, evs, h) \<leftarrow> pmodule_destroy ops m h;
     Some (result, m, h)
   }"

text \<open>From the accepted header on: strings, prototypes, verification, ownership.\<close>

definition load_records ::
  "'h heap_ops \<Rightarrow> addr \<Rightarrow> u8 list \<Rightarrow> nat \<Rightarrow> nat \<Rightarrow> pmodule \<Rightarrow> 'h \<Rightarrow> (nat \<times> pmodule \<times> 'h) option" where
  "load_records ops base bytes n_protos n_strings m h = do {
     (ok, strings) \<leftarrow> load_strings bytes (case ro_strings_ptr m of None \<Rightarrow> 0 | Some p \<Rightarrow> p) 0 n_strings
                       (ro_strings m);
     let m = m\<lparr>ro_strings := strings\<rparr>;
     if \<not> ok then failed_module ops PPHP_E_PARSE m h
     else do {
       (status, m, h) \<leftarrow> load_protos ops base bytes strings (16 + n_strings * 4) 0 n_protos m h;
       if status \<noteq> PPHP_OK then failed_module ops status m h
       else do {
         verified \<leftarrow> verify_module (protos m);
         case verified of
           None \<Rightarrow> failed_module ops PPHP_E_PARSE m h
         | Some ps \<Rightarrow>
             Some (PPHP_OK, m\<lparr>protos := ps, ro_strings := map (\<lambda>s. s\<lparr>ro_owner := True\<rparr>) strings\<rparr>, h)
       }
     }
   }"

text \<open>
  \<open>m\<close> is the caller's module structure; it is overwritten only after the header was accepted.
  \<open>ro_string_count\<close> is set before the string table is allocated.
\<close>

definition pphp_pbc_load ::
  "'h heap_ops \<Rightarrow> addr \<Rightarrow> u8 list \<Rightarrow> pmodule \<Rightarrow> 'h \<Rightarrow> (nat \<times> pmodule \<times> 'h) option" where
  "pphp_pbc_load ops base bytes m h = do {
     header \<leftarrow> load_header bytes;
     case header of
       Inl result \<Rightarrow> Some (result, m, h)
     | Inr (n_protos, n_strings) \<Rightarrow>
         let m = zero_module\<lparr>refcnt := 1, pm_image := bytes, ro_string_count := n_strings\<rparr>
         in if n_strings = 0 then load_records ops base bytes n_protos n_strings m h
            else
              case h_alloc ops (n_strings * sizeof_pro_string) h of
                (None, h) \<Rightarrow> failed_module ops PPHP_E_NOMEM m h
              | (Some p, h) \<Rightarrow>
                  load_records ops base bytes n_protos n_strings
                    (m\<lparr>ro_strings_ptr := Some p,
                       ro_strings := replicate n_strings zero_ro_string\<rparr>) h
   }"

end
