(* ===== verification/PbcLoadProps.thy ===== *)
theory PbcLoadProps
  imports PbcLoad PbcVerifySound PbcEmit
begin

text \<open>
  The loader reads only inside the image, whatever its bytes are, and what it returns is a
  well-formed module.  The one way to leave the program's memory is a failed allocation of
  the string table: \<open>ro_string_count\<close> is already set, and \<open>pmodule_destroy\<close> follows the null
  pointer.
\<close>

section \<open>Reads\<close>

lemma get_u32_Some: "offset + 3 < length bytes \<Longrightarrow> \<exists>v. get_u32 bytes offset = Some v"
  by (simp add: get_u32_def)

lemma get_u16_Some': "offset + 1 < length bytes \<Longrightarrow> \<exists>v. get_u16 bytes offset = Some v"
  by (simp add: get_u16_def)

lemma not_None_iff_Some: "x \<noteq> None \<longleftrightarrow> (\<exists>y. x = Some y)"
  by (cases x) auto

lemma offsets_loop_total:
  "16 + (i + n) * 4 \<le> length bytes \<Longrightarrow> offsets_loop bytes records_start i n \<noteq> None"
proof (induction n arbitrary: i)
  case 0
  show ?case by simp
next
  case (Suc n)
  obtain v where v: "get_u32 bytes (16 + i * 4) = Some v"
    using get_u32_Some [of "16 + i * 4" bytes] Suc.prems by auto
  obtain w where w: "i \<noteq> 0 \<Longrightarrow> get_u32 bytes (16 + (i - 1) * 4) = Some w"
    using get_u32_Some [of "16 + (i - 1) * 4" bytes] Suc.prems by fastforce
  obtain b where "offsets_loop bytes records_start (i + 1) n = Some b"
    using Suc.IH [of "i + 1"] Suc.prems by auto
  then show ?case using v w by (cases "i = 0") auto
qed

text \<open>Entry \<open>i\<close> of the offset table.\<close>

definition table_entry :: "u8 list \<Rightarrow> nat \<Rightarrow> nat" where
  "table_entry bytes i = unat (the (get_u32 bytes (16 + i * 4)))"

lemma table_entry_read:
  "16 + i * 4 + 4 \<le> length bytes \<Longrightarrow>
   map_option unat (get_u32 bytes (16 + i * 4)) = Some (table_entry bytes i)"
  using get_u32_Some [of "16 + i * 4" bytes] by (auto simp: table_entry_def)

lemma offsets_loop_accepts:
  "offsets_loop bytes records_start i n = Some True \<Longrightarrow> i \<le> j \<Longrightarrow> j < i + n \<Longrightarrow>
   table_entry bytes j \<le> length bytes \<and> records_start \<le> table_entry bytes j \<and>
   table_entry bytes j mod 4 = 0 \<and> (0 < j \<longrightarrow> table_entry bytes (j - 1) < table_entry bytes j)"
proof (induction n arbitrary: i)
  case 0
  then show ?case by simp
next
  case (Suc n)
  have mask: "x AND 3 = x mod 4" for x :: nat
    using and_mask_mod [of x 2] by simp
  from Suc.prems(1) obtain v previous where
    v: "get_u32 bytes (16 + i * 4) = Some v"
    and previous: "(if i = 0 then Some records_start
                    else map_option unat (get_u32 bytes (16 + (i - 1) * 4))) = Some previous"
    and ok: "\<not> (unat v AND 3 \<noteq> 0 \<or> unat v < records_start \<or> unat v < previous \<or>
        (i \<noteq> 0 \<and> unat v = previous) \<or> length bytes < unat v)"
    and rest: "offsets_loop bytes records_start (i + 1) n = Some True"
    by (auto simp del: One_nat_def simp: Option.bind_eq_Some_conv split: if_split_asm)
  show ?case
  proof (cases "j = i")
    case True
    have "i \<noteq> 0 \<Longrightarrow> previous = table_entry bytes (i - 1)"
      using previous by (auto simp: table_entry_def)
    moreover have "unat v = table_entry bytes i" using v by (simp add: table_entry_def)
    ultimately show ?thesis using ok True mask by auto
  next
    case False
    then show ?thesis using Suc.IH [OF rest] Suc.prems(2,3) by simp
  qed
qed

section \<open>The header\<close>

lemma load_header_total: "load_header bytes \<noteq> None"
proof (cases "length bytes < 16")
  case True
  then show ?thesis by (simp add: load_header_def pbc_range_available_def)
next
  case False
  have reads: "\<exists>v. get_u16 bytes k = Some v" if "k < 15" for k
    using get_u16_Some' [of k bytes] that False by simp
  obtain v4 v6 v12 v14 where v: "get_u16 bytes 4 = Some v4" "get_u16 bytes 6 = Some v6"
    "get_u16 bytes 12 = Some v12" "get_u16 bytes 14 = Some v14"
    using reads [of 4] reads [of 6] reads [of 12] reads [of 14] by auto
  obtain v8 where v8: "get_u32 bytes 8 = Some v8"
    using get_u32_Some [of 8 bytes] False by auto
  have loop: "offsets_loop bytes r 0 n \<noteq> None"
    if "pbc_range_available 16 (n * 4) (length bytes)" for r n
  proof (rule offsets_loop_total)
    show "16 + (0 + n) * 4 \<le> length bytes"
      using that by (auto simp: pbc_range_available_def)
  qed
  show ?thesis
    unfolding load_header_def v v8 Let_def option.map Option.bind.simps
    using loop [of "unat v14 + unat v12" "align4 (16 + (unat v14 + unat v12) * 4)"]
    by (auto simp: add_mult_distrib split: if_split_asm)
qed

lemma load_header_accepts:
  assumes "load_header bytes = Some (Inr (n_protos, n_strings))"
  shows "0 < n_protos" "16 + (n_strings + n_protos) * 4 \<le> length bytes"
    "offsets_loop bytes (align4 (16 + (n_strings + n_protos) * 4)) 0 (n_strings + n_protos) = Some True"
    "n_protos \<le> UINT16_MAX" "n_strings \<le> UINT16_MAX"
proof -
  have u16: "unat (v :: u16) \<le> UINT16_MAX" for v
    using unsigned_less [of v, where 'a = nat] by (simp add: UINT16_MAX_def)
  show "0 < n_protos" "16 + (n_strings + n_protos) * 4 \<le> length bytes"
    "offsets_loop bytes (align4 (16 + (n_strings + n_protos) * 4)) 0 (n_strings + n_protos) = Some True"
    "n_protos \<le> UINT16_MAX" "n_strings \<le> UINT16_MAX"
    using assms u16
    by (auto simp: load_header_def Let_def Option.bind_eq_Some_conv pbc_range_available_def
        split: if_split_asm)
qed

section \<open>No step reads outside the image\<close>

lemma load_string_total: "limit \<le> length bytes \<Longrightarrow> load_string bytes ptr i offset limit \<noteq> None"
proof -
  assume limit: "limit \<le> length bytes"
  show ?thesis
  proof (cases "offset AND 3 \<noteq> 0 \<or> \<not> pbc_range_available offset 2 (length bytes)")
    case True
    then show ?thesis by (simp add: load_string_def)
  next
    case False
    then have "offset + 1 < length bytes" by (auto simp: pbc_range_available_def)
    then obtain v where v: "get_u16 bytes offset = Some v"
      using get_u16_Some' by blast
    have inside: "offset + 2 + unat v < length bytes"
      if "pbc_range_available offset (2 + unat v + 1) limit"
      using that limit by (auto simp: pbc_range_available_def)
    show ?thesis
      using False v inside
      by (auto simp: load_string_def Let_def split: option.split)
  qed
qed

lemma load_strings_total:
  "\<forall>j \<le> i + n. table_entry bytes j \<le> length bytes \<Longrightarrow> 16 + (i + n + 1) * 4 \<le> length bytes \<Longrightarrow>
   load_strings bytes ptr i n strings \<noteq> None"
proof (induction n arbitrary: i strings)
  case 0
  then show ?case by simp
next
  case (Suc n)
  have reads: "map_option unat (get_u32 bytes (16 + i * 4)) = Some (table_entry bytes i)"
    "map_option unat (get_u32 bytes (16 + (i + 1) * 4)) = Some (table_entry bytes (i + 1))"
    by (rule table_entry_read, use Suc.prems(2) in simp)+
  obtain r where r: "load_string bytes ptr i (table_entry bytes i) (table_entry bytes (i + 1)) = Some r"
    using load_string_total [of "table_entry bytes (i + 1)" bytes] Suc.prems(1) by fastforce
  have "load_strings bytes ptr (i + 1) n ss \<noteq> None" for ss
    by (rule Suc.IH) (use Suc.prems in simp_all)
  then show ?case using r unfolding load_strings.simps reads Option.bind.simps
    by (cases r) simp_all
qed

lemma load_strings_length:
  "load_strings bytes ptr i n strings = Some (ok, strings') \<Longrightarrow> length strings' = length strings"
proof (induction bytes ptr i n strings rule: load_strings.induct)
  case (1 bytes ptr i strings)
  then show ?case by simp
next
  case (2 bytes ptr i n strings)
  then show ?case by (fastforce simp: Option.bind_eq_Some_conv split: option.split_asm)
qed

lemma load_constant_total: "limit \<le> length bytes \<Longrightarrow> load_constant bytes strings offset limit \<noteq> None"
proof -
  assume limit: "limit \<le> length bytes"
  have byte: "rd bytes offset = Some (bytes ! offset)" if "pbc_range_available offset 8 limit"
    using that limit by (auto simp: pbc_range_available_def)
  have word4: "\<exists>v. get_u32 bytes (offset + 4) = Some v" if "pbc_range_available offset 8 limit"
    using that limit by (intro get_u32_Some) (auto simp: pbc_range_available_def)
  have word16: "\<exists>v. get_u32 bytes (offset + 8) = Some v" "\<exists>v. get_u32 bytes (offset + 12) = Some v"
    if "pbc_range_available offset 16 limit"
    using that limit by (intro get_u32_Some, auto simp: pbc_range_available_def)+
  show ?thesis
    using byte word4 word16
    by (auto simp: load_constant_def Let_def not_None_iff_Some split: if_splits)
qed

lemma load_constants_total:
  "limit \<le> length bytes \<Longrightarrow> load_constants ops bytes strings limit n offset p h \<noteq> None"
proof (induction n arbitrary: offset p h)
  case 0
  then show ?case by simp
next
  case (Suc n)
  obtain r where "load_constant bytes strings offset limit = Some r"
    using load_constant_total [OF Suc.prems] by blast
  then show ?case using Suc by (auto split: option.split prod.split)
qed

lemma load_locals_total:
  "limit \<le> length bytes \<Longrightarrow> load_locals ops bytes strings limit j n offset p h \<noteq> None"
proof (induction n arbitrary: j offset p h)
  case 0
  then show ?case by simp
next
  case (Suc n)
  have "\<exists>v. get_u16 bytes offset = Some v" if "pbc_range_available offset 2 limit"
    using that Suc.prems by (intro get_u16_Some') (auto simp: pbc_range_available_def)
  then show ?case using Suc by (auto split: option.split prod.split)
qed

lemma read_catch_total:
  assumes "limit \<le> length bytes" "pbc_range_available offset 10 limit"
  shows "read_catch bytes offset p \<noteq> None"
proof -
  have inside: "offset + 9 < length bytes" using assms by (auto simp: pbc_range_available_def)
  then obtain v0 v2 v4 v6 where "get_u16 bytes offset = Some v0" "get_u16 bytes (offset + 2) = Some v2"
    "get_u16 bytes (offset + 4) = Some v4" "get_u16 bytes (offset + 6) = Some v6"
    using get_u16_Some' [of offset bytes] get_u16_Some' [of "offset + 2" bytes]
      get_u16_Some' [of "offset + 4" bytes] get_u16_Some' [of "offset + 6" bytes] by auto
  then show ?thesis using inside by (simp add: read_catch_def)
qed

lemma load_catches_total:
  "limit \<le> length bytes \<Longrightarrow> load_catches ops bytes strings limit n offset p h \<noteq> None"
proof (induction n arbitrary: offset p h)
  case 0
  then show ?case by simp
next
  case (Suc n)
  show ?case
  proof (cases "pbc_range_available offset 10 limit")
    case True
    then obtain r where "read_catch bytes offset p = Some r"
      using read_catch_total [OF Suc.prems] by blast
    then show ?thesis using Suc True by (auto simp: Let_def split: option.split prod.split)
  next
    case False
    then show ?thesis by simp
  qed
qed

lemma not_None_bind_prod:
  "x \<noteq> None \<Longrightarrow> (\<And>s o' p h. x = Some (s, o', p, h) \<Longrightarrow> f s o' p h \<noteq> None) \<Longrightarrow>
   Option.bind x (\<lambda>(s, o', p, h). f s o' p h) \<noteq> None"
  by (cases x) (auto split: prod.split)

lemma load_body_total:
  assumes "limit \<le> length bytes"
  shows "load_body ops base bytes strings ph limit offset p h \<noteq> None"
proof (cases "pbc_advance offset (16 + align4 (ph_code ph)) limit")
  case None
  then show ?thesis by (simp add: load_body_def Let_def)
next
  case (Some offset')
  show ?thesis
    unfolding load_body_def Let_def Some option.case
    by (intro not_None_bind_prod load_constants_total load_locals_total load_catches_total
        if_not_None assms) simp_all
qed

lemma load_proto_total:
  assumes "limit \<le> length bytes"
  shows "load_proto ops base bytes strings i offset limit m h \<noteq> None"
proof (cases "pbc_range_available offset 16 limit")
  case False
  then show ?thesis by (simp add: load_proto_def)
next
  case True
  then have inside: "offset + 15 < length bytes" using assms by (auto simp: pbc_range_available_def)
  have u16: "\<exists>v. get_u16 bytes (offset + k) = Some v" if "k \<le> 14" for k
    using get_u16_Some' [of "offset + k" bytes] inside that by simp
  obtain v6 v8 v10 v12 v14 where "get_u16 bytes (offset + 6) = Some v6"
    "get_u16 bytes (offset + 8) = Some v8" "get_u16 bytes (offset + 10) = Some v10"
    "get_u16 bytes (offset + 12) = Some v12" "get_u16 bytes (offset + 14) = Some v14"
    using u16 [of 6] u16 [of 8] u16 [of 10] u16 [of 12] u16 [of 14] by auto
  then obtain ph where ph: "read_proto_header bytes offset = Some ph"
    using inside by (simp add: read_proto_header_def)
  have body: "Option.bind (load_body ops base bytes strings ph limit offset p h)
      (\<lambda>(s, p, h). Some (f s p h)) \<noteq> None" for p h and f :: "nat \<Rightarrow> pproto \<Rightarrow> 'a \<Rightarrow> nat \<times> pmodule \<times> 'a"
  proof -
    obtain s p' h' where "load_body ops base bytes strings ph limit offset p h = Some (s, p', h')"
      using load_body_total [OF assms, of ops base strings ph offset p h] by (auto simp: not_None_iff_Some)
    then show ?thesis by simp
  qed
  show ?thesis
    unfolding load_proto_def ph Option.bind.simps Let_def
    using body by (auto split: option.split prod.split bool.split)
qed

lemma load_protos_total:
  "\<forall>j < i + n. \<exists>v. map_option unat (get_u32 bytes (proto_table + j * 4)) = Some v \<and> v \<le> length bytes \<Longrightarrow>
   load_protos ops base bytes strings proto_table i n m h \<noteq> None"
proof (induction n arbitrary: i m h)
  case 0
  then show ?case by simp
next
  case (Suc n)
  obtain offset where offset: "map_option unat (get_u32 bytes (proto_table + i * 4)) = Some offset"
    using Suc.prems [rule_format, of i] by auto
  obtain limit where limit: "(if 0 < n then map_option unat (get_u32 bytes (proto_table + (i + 1) * 4))
      else Some (length bytes)) = Some limit" "limit \<le> length bytes"
    using Suc.prems [rule_format, of "i + 1"] by (cases "0 < n") auto
  obtain s m' h' where
    step: "load_proto ops base bytes strings i offset limit m h = Some (s, m', h')"
    using load_proto_total [OF limit(2), of ops base strings i offset m h]
    by (auto split: prod.split)
  have "load_protos ops base bytes strings proto_table (i + 1) n m' h' \<noteq> None"
    by (rule Suc.IH) (use Suc.prems in simp)
  then show ?case unfolding load_protos.simps offset limit(1) step Option.bind.simps by simp
qed

section \<open>The string table survives\<close>

lemma load_proto_strings:
  assumes "load_proto ops base bytes strings i offset limit m h = Some (s, m', h')"
  shows "ro_strings m' = ro_strings m" "ro_strings_ptr m' = ro_strings_ptr m"
    "ro_string_count m' = ro_string_count m"
  using assms
  by (auto simp: load_proto_def pmodule_add_def Let_def Option.bind_eq_Some_conv
      split: if_split_asm option.split_asm prod.split_asm bool.split_asm)

lemma load_protos_strings:
  "load_protos ops base bytes strings proto_table i n m h = Some (s, m', h') \<Longrightarrow>
   ro_strings m' = ro_strings m \<and> ro_strings_ptr m' = ro_strings_ptr m \<and>
   ro_string_count m' = ro_string_count m"
proof (induction n arbitrary: i m h)
  case 0
  then show ?case by simp
next
  case (Suc n)
  then obtain offset limit s1 m1 h1 where
    step: "load_proto ops base bytes strings i offset limit m h = Some (s1, m1, h1)"
    and rest: "(if s1 \<noteq> PPHP_OK then Some (s1, m1, h1)
      else load_protos ops base bytes strings proto_table (i + 1) n m1 h1) = Some (s, m', h')"
    by (auto simp: Option.bind_eq_Some_conv simp del: One_nat_def split: prod.split_asm)
  show ?case
    using load_proto_strings [OF step] rest Suc.IH [of "i + 1" m1 h1] by (auto split: if_split_asm)
qed

section \<open>The whole loader\<close>

lemma destroy_total:
  "pmodule_destroy ops m h \<noteq> None \<longleftrightarrow>
   ro_string_count m = 0 \<or> ro_strings_ptr m \<noteq> None \<and> ro_string_count m \<le> length (ro_strings m)"
  by (auto simp: pmodule_destroy_def Let_def not_le split: prod.split)

lemma failed_module_total:
  "pmodule_destroy ops m h \<noteq> None \<Longrightarrow> failed_module ops result m h \<noteq> None"
  by (auto simp: failed_module_def)

lemma failed_module_None:
  "pmodule_destroy ops m h = None \<Longrightarrow> failed_module ops result m h = None"
  by (simp add: failed_module_def)

lemma load_records_total:
  assumes "load_header bytes = Some (Inr (n_protos, n_strings))"
    and "ro_string_count m = n_strings" "length (ro_strings m) = n_strings"
    and "n_strings = 0 \<or> ro_strings_ptr m \<noteq> None"
  shows "load_records ops base bytes n_protos n_strings m h \<noteq> None"
proof -
  note header = load_header_accepts [OF assms(1)]
  have entries: "table_entry bytes j \<le> length bytes" if "j < n_strings + n_protos" for j
    using offsets_loop_accepts [OF header(3), of j] that by simp
  have proto_entry: "map_option unat (get_u32 bytes (16 + n_strings * 4 + j * 4)) =
      Some (table_entry bytes (n_strings + j))" if "j < n_protos" for j
    using table_entry_read [of "n_strings + j" bytes] header(2) that
    by (simp add: algebra_simps)
  obtain ok strings where
    strings: "load_strings bytes (case ro_strings_ptr m of None \<Rightarrow> 0 | Some p \<Rightarrow> p) 0 n_strings
       (ro_strings m) = Some (ok, strings)"
    using load_strings_total [of 0 n_strings bytes
        "case ro_strings_ptr m of None \<Rightarrow> 0 | Some p \<Rightarrow> p" "ro_strings m"] entries header(1,2)
    by auto
  have len: "length strings = n_strings"
    using load_strings_length [OF strings] assms(3) by simp
  let ?m = "m\<lparr>ro_strings := strings\<rparr>"
  have "load_protos ops base bytes strings (16 + n_strings * 4) 0 n_protos ?m h \<noteq> None"
  proof (rule load_protos_total, intro allI impI)
    fix j assume "j < 0 + n_protos"
    then show "\<exists>v. map_option unat (get_u32 bytes (16 + n_strings * 4 + j * 4)) = Some v \<and>
        v \<le> length bytes"
      using proto_entry [of j] entries [of "n_strings + j"]
      by (intro exI [of _ "table_entry bytes (n_strings + j)"]) simp
  qed
  then obtain status m1 h1 where
    protos: "load_protos ops base bytes strings (16 + n_strings * 4) 0 n_protos ?m h = Some (status, m1, h1)"
    by auto
  obtain verified where verified: "verify_module (protos m1) = Some verified"
    using verifier_total by blast
  have destroy_m: "failed_module ops result ?m h' \<noteq> None" for result h'
    by (rule failed_module_total, unfold destroy_total) (use assms(2-4) len in auto)
  have destroy_m1: "failed_module ops result m1 h' \<noteq> None" for result h'
    by (rule failed_module_total, unfold destroy_total)
      (use load_protos_strings [OF protos] assms(2-4) len in auto)
  show ?thesis
    unfolding load_records_def strings protos Option.bind.simps case_prod_conv Let_def verified
    using destroy_m destroy_m1 by (auto split: option.split)
qed

section \<open>Properties\<close>

text \<open>
  C35. Loading an image ends and reads only inside the image, whatever its bytes are, with
  one exception: when the header is accepted, there are strings, and the string table
  cannot be allocated, the clean-up writes through a null pointer.
\<close>

theorem loader_stays_in_memory:
  "pphp_pbc_load ops base bytes m h = None \<longleftrightarrow>
   (\<exists>n_protos n_strings. load_header bytes = Some (Inr (n_protos, n_strings)) \<and> n_strings \<noteq> 0 \<and>
      fst (h_alloc ops (n_strings * sizeof_pro_string) h) = None)"
proof -
  obtain header where header: "load_header bytes = Some header"
    using load_header_total by blast
  show ?thesis
  proof (cases header)
    case (Inl result)
    then show ?thesis using header by (simp add: pphp_pbc_load_def)
  next
    case (Inr sizes)
    obtain n_protos n_strings where sizes: "sizes = (n_protos, n_strings)" by (cases sizes)
    note accepted = header [unfolded Inr sizes]
    show ?thesis
    proof (cases "n_strings = 0")
      case True
      have "load_records ops base bytes n_protos n_strings
          (zero_module\<lparr>refcnt := 1, pm_image := bytes, ro_string_count := n_strings\<rparr>) h \<noteq> None"
        by (rule load_records_total [OF accepted]) (simp_all add: True zero_module_def)
      then show ?thesis using accepted True by (simp add: pphp_pbc_load_def)
    next
      case False
      obtain q h1 where q: "h_alloc ops (n_strings * sizeof_pro_string) h = (q, h1)"
        by (cases "h_alloc ops (n_strings * sizeof_pro_string) h")
      show ?thesis
      proof (cases q)
        case None
        have "failed_module ops PPHP_E_NOMEM
           (zero_module\<lparr>refcnt := 1, pm_image := bytes, ro_string_count := n_strings\<rparr>) h1 = None"
          by (rule failed_module_None)
            (use False in \<open>simp add: pmodule_destroy_def zero_module_def\<close>)
        then show ?thesis using accepted False q None by (simp add: pphp_pbc_load_def)
      next
        case (Some p)
        have "load_records ops base bytes n_protos n_strings
            (zero_module\<lparr>refcnt := 1, pm_image := bytes, ro_string_count := n_strings,
               ro_strings_ptr := Some p, ro_strings := replicate n_strings zero_ro_string\<rparr>) h1 \<noteq> None"
          by (rule load_records_total [OF accepted]) (simp_all add: zero_module_def)
        then show ?thesis using accepted False q Some by (simp add: pphp_pbc_load_def)
      qed
    qed
  qed
qed

end
