(* ===== verification/PbcLoadSound.thy ===== *)
theory PbcLoadSound
  imports PbcLoadProps
begin

text \<open>
  What a successfully loaded module satisfies: the fields of every prototype are within the
  limits of the virtual machine, its names and handlers are consistent, and its code has
  passed the verifier.
\<close>

section \<open>Well-formed prototypes\<close>

definition accepted_handler :: "pproto \<Rightarrow> pcatch \<Rightarrow> bool" where
  "accepted_handler p entry \<longleftrightarrow>
     try_start entry \<le> try_end entry \<and> unat (try_end entry) \<le> code_length p \<and>
     unat (handler_pc entry) < code_length p \<and>
     (variable_slot entry = 255 \<or> unat (variable_slot entry) < n_locals p) \<and>
     (class_constant entry = 65535 \<or> pbc_string_constant p (class_constant entry))"

definition signature_ok :: "pproto \<Rightarrow> bool" where
  "signature_ok p \<longleftrightarrow>
     n_params p \<le> 31 \<and> n_required p \<le> n_params p \<and> (variadic p \<longrightarrow> n_params p \<noteq> 0) \<and>
     \<not> (is_method p \<and> conditional p)"

definition loaded_proto :: "pproto \<Rightarrow> bool" where
  "loaded_proto p \<longleftrightarrow>
     signature_ok p \<and> unat (n_params p) + (if is_method p then 1 else 0) \<le> n_locals p \<and>
     code_length p \<le> UINT16_MAX \<and> locals_ok p \<and>
     (\<forall>entry \<in> set (catches p). accepted_handler p entry)"

text \<open>The fields that the body of a record does not change any more.\<close>

definition signature :: "pproto \<Rightarrow> u8 \<times> u8 \<times> bool \<times> bool \<times> bool \<times> u8 list" where
  "signature p = (n_params p, n_required p, variadic p, is_method p, conditional p, pp_code p)"

section \<open>Constants\<close>

lemma add_constant_frame:
  assumes "pproto_add_constant ops v p h = (r, p', evs, h')"
  shows "signature p' = signature p" "locals p' = locals p" "catches p' = catches p"
    and "\<exists>vs. constants p' = constants p @ vs"
    and "r = Some k \<Longrightarrow> unat k < constant_count p' \<and> constants p' ! unat k = v \<and> k \<noteq> 65535"
proof -
  let ?n = "constant_count p"
  show "signature p' = signature p" "locals p' = locals p" "catches p' = catches p"
    "\<exists>vs. constants p' = constants p @ vs"
    using assms
    by (auto simp: pproto_add_constant_def Let_def signature_def
        split: if_split_asm option.split_asm prod.split_asm)
  assume k: "r = Some k"
  have small: "?n < 65535" and new: "constants p' = constants p @ [v]" "k = of_nat ?n"
    using assms k
    by (auto simp: pproto_add_constant_def Let_def UINT16_MAX_def
        split: if_split_asm option.split_asm prod.split_asm)
  have "unat (of_nat ?n :: u16) = ?n" using small by (simp add: unsigned_of_nat take_bit_nat_eq_self)
  then show "unat k < constant_count p' \<and> constants p' ! unat k = v \<and> k \<noteq> 65535"
    using new small by auto
qed

lemma string_constant_append:
  "constants p' = constants p @ vs \<Longrightarrow> pbc_string_constant p k \<Longrightarrow> pbc_string_constant p' k"
  by (auto simp: pbc_string_constant_def nth_append)

lemma load_constants_frame:
  "load_constants ops bytes strings limit n offset p h = Some (s, offset', p', h') \<Longrightarrow>
   signature p' = signature p \<and> locals p' = locals p \<and> catches p' = catches p"
proof (induction n arbitrary: offset p h)
  case 0
  then show ?case by simp
next
  case (Suc n)
  from Suc.prems obtain loaded where loaded: "load_constant bytes strings offset limit = Some loaded"
    by (auto simp: Option.bind_eq_Some_conv)
  show ?case
  proof (cases loaded)
    case None
    then show ?thesis using Suc.prems loaded by simp
  next
    case (Some vc)
    obtain v c where vc: "vc = (v, c)" by (cases vc)
    obtain r p1 evs h1 where add: "pproto_add_constant ops v p h = (r, p1, evs, h1)"
      by (cases "pproto_add_constant ops v p h")
    note frame = add_constant_frame(1-3) [OF add]
    show ?thesis
      using Suc.prems loaded Some vc add frame Suc.IH
      by (auto split: option.split_asm)
  qed
qed

section \<open>Locals\<close>

lemma add_local_frame:
  "pproto_add_local ops name p h = (r, p', h') \<Longrightarrow>
   signature p' = signature p \<and> catches p' = catches p \<and> constants p' = constants p"
  by (auto simp: pproto_add_local_def Let_def signature_def
      split: if_split_asm option.split_asm prod.split_asm)

lemma load_locals_sound:
  "load_locals ops bytes strings limit j n offset p h = Some (PPHP_OK, offset', p', h') \<Longrightarrow>
   j = n_locals p \<Longrightarrow> locals_ok p \<Longrightarrow>
   signature p' = signature p \<and> catches p' = catches p \<and> locals_ok p' \<and> n_locals p' = j + n"
proof (induction n arbitrary: j offset p h)
  case 0
  then show ?case by simp
next
  case (Suc n)
  from Suc.prems(1) obtain sid where sid: "map_option unat (get_u16 bytes offset) = Some sid"
    and avail: "pbc_range_available offset 2 limit" and bound: "sid < length strings"
    by (auto simp: Option.bind_eq_Some_conv PPHP_OK_def PPHP_E_PARSE_def split: if_split_asm)
  let ?name = "ps_data (ro_base (strings ! sid))"
  obtain r p1 h1 where add: "pproto_add_local ops ?name p h = (r, p1, h1)"
    by (cases "pproto_add_local ops ?name p h")
  obtain slot offset1 where slot: "r = Some slot" "unat slot = j"
    and rest: "load_locals ops bytes strings limit (j + 1) n offset1 p1 h1 = Some (PPHP_OK, offset', p', h')"
    using Suc.prems(1) sid avail bound add
    by (auto simp: Option.bind_eq_Some_conv PPHP_OK_def PPHP_E_PARSE_def
        split: if_split_asm option.split_asm)
  have "n_locals p1 = j + 1 \<and> locals_ok p1"
    using add
  proof (cases rule: add_local_cases)
    case (1 slot')
    then show ?thesis using find_local_iff [OF Suc.prems(3)] slot Suc.prems(2) by auto
  next
    case 2
    then show ?thesis using slot by simp
  next
    case (3 s)
    have "?name \<notin> ps_data ` set (locals p)"
      using 3(1) find_local_from_None by (simp add: pproto_find_local_def)
    then show ?thesis using 3 Suc.prems(2,3) by (auto simp: locals_ok_def)
  qed
  then show ?case
    using Suc.IH [OF rest] add_local_frame [OF add] by simp
qed

section \<open>Handlers\<close>

lemma add_catch_frame:
  assumes "pproto_add_catch ops entry p h = (ok, p', h')"
  shows "signature p' = signature p \<and> locals p' = locals p \<and> constants p' = constants p \<and>
    catches p' = catches p @ (if ok then [entry] else [])"
  using assms
  by (auto simp: pproto_add_catch_def signature_def
      split: if_split_asm option.split_asm prod.split_asm)

lemma accepted_handler_append:
  assumes "accepted_handler p entry" "signature p' = signature p" "locals p' = locals p"
    and "constants p' = constants p @ vs"
  shows "accepted_handler p' entry"
  using assms string_constant_append [OF assms(4)]
  by (auto simp: accepted_handler_def signature_def)

lemma store_catch_sound:
  assumes "store_catch ops bytes strings entry class_sid p h = (PPHP_OK, p', h')"
    and "accepted_handler p entry" "class_constant entry = 65535"
    and "\<forall>e \<in> set (catches p). accepted_handler p e"
  shows "signature p' = signature p \<and> locals p' = locals p \<and>
    (\<forall>e \<in> set (catches p'). accepted_handler p' e)"
proof (cases "class_sid = 65535")
  case True
  then obtain ok p1 h1 where add: "pproto_add_catch ops entry p h = (ok, p1, h1)"
    and p': "p' = p1"
    using assms(1)
    by (cases "pproto_add_catch ops entry p h")
      (auto simp: store_catch_def Let_def PPHP_OK_def PPHP_E_PARSE_def split: bool.split_asm)
  note frame = add_catch_frame [OF add]
  have "accepted_handler p' e" if "e \<in> set (catches p) \<union> {entry}" for e
    using accepted_handler_append [of p e p' "[]"] that assms(2,4) frame p' by auto
  then show ?thesis using frame p' by (auto split: if_split_asm)
next
  case False
  then have sid: "unat class_sid < length strings"
    using assms(1) by (auto simp: store_catch_def Let_def PPHP_OK_def PPHP_E_PARSE_def
        split: if_split_asm)
  let ?v = "PString (ro_base (strings ! unat class_sid))"
  obtain r p1 evs h1 where const: "pproto_add_constant ops ?v p h = (r, p1, evs, h1)"
    by (cases "pproto_add_constant ops ?v p h")
  obtain k where k: "r = Some k"
    using assms(1) False sid const
    by (cases r) (auto simp: store_catch_def Let_def PPHP_OK_def PPHP_E_NOMEM_def)
  let ?entry = "entry\<lparr>class_constant := k\<rparr>"
  obtain ok p2 h2 where add: "pproto_add_catch ops ?entry p1 h1 = (ok, p2, h2)" and p': "p' = p2"
    using assms(1) False sid const k
    by (cases "pproto_add_catch ops ?entry p1 h1")
      (auto simp: store_catch_def Let_def PPHP_OK_def PPHP_E_PARSE_def split: bool.split_asm)
  note c = add_constant_frame [OF const] and a = add_catch_frame [OF add]
  obtain vs where vs: "constants p1 = constants p @ vs" using c(4) by blast
  have string: "pbc_string_constant p1 k"
    using c(5) [OF k] by (simp add: pbc_string_constant_def)
  have "accepted_handler p1 ?entry"
    using assms(2) c(1,2) string by (simp add: accepted_handler_def signature_def)
  moreover have "accepted_handler p1 e" if "e \<in> set (catches p)" for e
    using accepted_handler_append [OF _ c(1,2) vs] assms(4) that by blast
  ultimately have "accepted_handler p2 e" if "e \<in> set (catches p) \<union> {?entry}" for e
    using accepted_handler_append [of p1 e p2 "[]"] that a by auto
  then show ?thesis using a c(1-3) p' by (auto split: if_split_asm)
qed

lemma read_catch_accepts:
  assumes "read_catch bytes offset p = Some (Some (entry, class_sid))"
  shows "accepted_handler p entry \<and> class_constant entry = 65535"
  using assms
  by (auto simp: read_catch_def accepted_handler_def Option.bind_eq_Some_conv split: if_split_asm)

lemma load_catches_sound:
  "load_catches ops bytes strings limit n offset p h = Some (PPHP_OK, offset', p', h') \<Longrightarrow>
   \<forall>e \<in> set (catches p). accepted_handler p e \<Longrightarrow>
   signature p' = signature p \<and> locals p' = locals p \<and>
   (\<forall>e \<in> set (catches p'). accepted_handler p' e)"
proof (induction n arbitrary: offset p h)
  case 0
  then show ?case by simp
next
  case (Suc n)
  from Suc.prems(1) obtain entry class_sid where
    entry: "read_catch bytes offset p = Some (Some (entry, class_sid))"
    and avail: "pbc_range_available offset 10 limit"
    by (auto simp: Option.bind_eq_Some_conv PPHP_OK_def PPHP_E_PARSE_def
        split: if_split_asm option.split_asm)
  obtain s p1 h1 where store: "store_catch ops bytes strings entry class_sid p h = (s, p1, h1)"
    by (cases "store_catch ops bytes strings entry class_sid p h")
  obtain offset1 where ok: "s = PPHP_OK"
    and rest: "load_catches ops bytes strings limit n offset1 p1 h1 = Some (PPHP_OK, offset', p', h')"
    using Suc.prems(1) entry avail store
    by (auto simp: Let_def PPHP_OK_def PPHP_E_PARSE_def split: if_split_asm option.split_asm)
  note stored = store_catch_sound [OF store [unfolded ok] _ _ Suc.prems(2)] read_catch_accepts [OF entry]
  then show ?case using Suc.IH [OF rest] by simp
qed

section \<open>Prototypes\<close>

lemma load_body_sound:
  assumes "load_body ops base bytes strings ph limit offset p h = Some (PPHP_OK, p', h')"
    and "\<not> header_invalid i ph p" "locals p = []" "catches p = []" "ph_code ph \<le> UINT16_MAX"
  shows "loaded_proto p' \<and> (i = 0 \<longrightarrow> n_params p' = 0 \<and> \<not> is_method p' \<and> \<not> conditional p')"
proof -
  let ?p = "p\<lparr>max_stack := ph_stack ph, code_ptr := Some (base + offset + 16),
    pp_code := take (ph_code ph) (drop (offset + 16) bytes), owns_code := False, code_capacity := 0\<rparr>"
  obtain o0 where o0: "pbc_advance offset (16 + align4 (ph_code ph)) limit = Some o0"
    using assms(1) by (cases "pbc_advance offset (16 + align4 (ph_code ph)) limit")
      (simp_all add: load_body_def Let_def PPHP_OK_def PPHP_E_PARSE_def)
  obtain o1 p1 h1 o2 p2 h2 o3 p3 h3 where
    constants: "load_constants ops bytes strings limit (ph_constants ph) o0 ?p h = Some (PPHP_OK, o1, p1, h1)"
    and locals: "load_locals ops bytes strings limit 0 (unat (ph_locals ph)) o1 p1 h1 = Some (PPHP_OK, o2, p2, h2)"
    and catches: "load_catches ops bytes strings limit (ph_catches ph) o2 p2 h2 = Some (PPHP_OK, o3, p3, h3)"
    and p': "p' = p3"
    using assms(1) unfolding load_body_def Let_def o0 option.case
    by (auto simp: Option.bind_eq_Some_conv split: if_split_asm)
  note c = load_constants_frame [OF constants]
  have "locals p1 = []" "catches p1 = []" using c assms(3,4) by simp_all
  then have "0 = n_locals p1" "locals_ok p1" by (simp_all add: locals_ok_def)
  note l = load_locals_sound [OF locals this]
  have "\<forall>e \<in> set (catches p2). accepted_handler p2 e" using l \<open>catches p1 = []\<close> by simp
  note k = load_catches_sound [OF catches this]
  have sig: "signature p' = signature ?p" and loc: "n_locals p' = unat (ph_locals ph)" "locals_ok p'"
    using c l k p' by (simp_all add: locals_ok_def)
  have fields: "n_params p' = n_params p" "n_required p' = n_required p" "variadic p' = variadic p"
    "is_method p' = is_method p" "conditional p' = conditional p"
    "pp_code p' = take (ph_code ph) (drop (offset + 16) bytes)"
    using sig by (simp_all add: signature_def)
  have "signature_ok p'" "unat (n_params p') + (if is_method p' then 1 else 0) \<le> n_locals p'"
    using assms(2) by (auto simp: header_invalid_def signature_ok_def fields loc)
  moreover have "code_length p' \<le> UINT16_MAX" using assms(5) by (simp add: fields)
  moreover have "\<forall>e \<in> set (catches p'). accepted_handler p' e" using k p' by simp
  moreover have "i = 0 \<longrightarrow> n_params p' = 0 \<and> \<not> is_method p' \<and> \<not> conditional p'"
    using assms(2) unfolding fields by (auto simp: header_invalid_def)
  ultimately show ?thesis using loc(2) by (simp add: loaded_proto_def)
qed

lemma read_proto_header_code:
  "read_proto_header bytes offset = Some ph \<Longrightarrow> ph_code ph \<le> UINT16_MAX"
proof -
  have "unat (v :: u16) \<le> UINT16_MAX" for v
    using unsigned_less [of v, where 'a = nat] by (simp add: UINT16_MAX_def)
  then show "read_proto_header bytes offset = Some ph \<Longrightarrow> ph_code ph \<le> UINT16_MAX"
    by (auto simp: read_proto_header_def Option.bind_eq_Some_conv)
qed

lemma pproto_new_empty:
  "pproto_new ops name h = (Some p, h') \<Longrightarrow> locals p = [] \<and> catches p = [] \<and> constants p = []"
  by (auto simp: pproto_new_def empty_pproto_def split: prod.split_asm option.split_asm)

lemma load_proto_sound:
  assumes "load_proto ops base bytes strings i offset limit m h = Some (PPHP_OK, m', h')"
  shows "\<exists>p. protos m' = protos m @ [p] \<and> loaded_proto p \<and>
    (i = 0 \<longrightarrow> n_params p = 0 \<and> \<not> is_method p \<and> \<not> conditional p)"
proof -
  note codes = PPHP_OK_def PPHP_E_PARSE_def PPHP_E_NOMEM_def
  obtain ph where ph: "read_proto_header bytes offset = Some ph"
    and guards: "pbc_range_available offset 16 limit" "ph_name ph < length strings"
      "pbc_range_available offset (16 + align4 (ph_code ph)) limit"
    using assms by (auto simp: load_proto_def Option.bind_eq_Some_conv codes split: if_split_asm)
  let ?name = "ps_data (ro_base (strings ! ph_name ph))"
  obtain q h1 where q: "pproto_new ops (Some ?name) h = (q, h1)"
    by (cases "pproto_new ops (Some ?name) h")
  obtain p0 where p0: "q = Some p0"
    using assms ph guards q by (cases q) (simp_all add: load_proto_def codes)
  obtain ok m1 h2 where add: "pmodule_add ops p0 m h1 = (ok, m1, h2)"
    by (cases "pmodule_add ops p0 m h1")
  have ok: ok
    using assms ph guards q p0 add by (cases ok) (simp_all add: load_proto_def codes)
  obtain r where m1: "protos m1 = protos m @ [p0\<lparr>role := r\<rparr>]"
    using add ok
    by (auto simp: pmodule_add_def Let_def split: if_split_asm option.split_asm prod.split_asm)
      (metis pproto.unfold_congs(9) pproto.surjective pproto.update_convs(9))+
  let ?p = "proto_of_header ph (p0\<lparr>role := r\<rparr>)"
  obtain p h3 where valid: "\<not> header_invalid i ph ?p"
    and body: "load_body ops base bytes strings ph limit offset ?p h2 = Some (PPHP_OK, p, h3)"
    and m': "m' = m1\<lparr>protos := butlast (protos m1) @ [p]\<rparr>"
    using assms ph guards q p0 add ok m1
    by (auto simp: load_proto_def Let_def codes Option.bind_eq_Some_conv split: if_split_asm)
  have "locals ?p = []" "catches ?p = []"
    using pproto_new_empty [OF q [unfolded p0]] by (simp_all add: proto_of_header_def)
  then show ?thesis
    using load_body_sound [OF body valid _ _ read_proto_header_code [OF ph]] m' m1 by simp
qed

lemma load_protos_sound:
  "load_protos ops base bytes strings proto_table i n m h = Some (PPHP_OK, m', h') \<Longrightarrow>
   \<exists>ps. protos m' = protos m @ ps \<and> length ps = n \<and>
     (\<forall>j < n. loaded_proto (ps ! j) \<and>
        (i + j = 0 \<longrightarrow> n_params (ps ! j) = 0 \<and> \<not> is_method (ps ! j) \<and> \<not> conditional (ps ! j)))"
proof (induction n arbitrary: i m h)
  case 0
  then show ?case by simp
next
  case (Suc n)
  then obtain offset limit m1 h1 where
    step: "load_proto ops base bytes strings i offset limit m h = Some (PPHP_OK, m1, h1)"
    and rest: "load_protos ops base bytes strings proto_table (i + 1) n m1 h1 = Some (PPHP_OK, m', h')"
    by (auto simp: Option.bind_eq_Some_conv simp del: One_nat_def split: if_split_asm)
  obtain p where p: "protos m1 = protos m @ [p]" "loaded_proto p"
      "i = 0 \<longrightarrow> n_params p = 0 \<and> \<not> is_method p \<and> \<not> conditional p"
    using load_proto_sound [OF step] by blast
  obtain ps where ps: "protos m' = protos m1 @ ps" "length ps = n"
      "\<forall>j < n. loaded_proto (ps ! j) \<and> (i + 1 + j = 0 \<longrightarrow>
         n_params (ps ! j) = 0 \<and> \<not> is_method (ps ! j) \<and> \<not> conditional (ps ! j))"
    using Suc.IH [OF rest] by blast
  show ?case
  proof (intro exI [of _ "p # ps"] conjI allI impI)
    show "protos m' = protos m @ p # ps" using p ps by simp
    show "length (p # ps) = Suc n" using ps by simp
    fix j assume "j < Suc n"
    then show "loaded_proto ((p # ps) ! j)" using p ps by (cases j) simp_all
    assume "i + j = 0"
    then show "n_params ((p # ps) ! j) = 0" "\<not> is_method ((p # ps) ! j)"
      "\<not> conditional ((p # ps) ! j)" using p by simp_all
  qed
qed

lemma load_proto_refcnt:
  assumes "load_proto ops base bytes strings i offset limit m h = Some (s, m', h')"
  shows "refcnt m' = refcnt m"
  using assms
  by (auto simp: load_proto_def pmodule_add_def Let_def Option.bind_eq_Some_conv
      split: if_split_asm option.split_asm prod.split_asm bool.split_asm)

lemma load_protos_refcnt:
  "load_protos ops base bytes strings proto_table i n m h = Some (s, m', h') \<Longrightarrow> refcnt m' = refcnt m"
proof (induction n arbitrary: i m h)
  case 0
  then show ?case by simp
next
  case (Suc n)
  then obtain offset limit s1 m1 h1 where
    step: "load_proto ops base bytes strings i offset limit m h = Some (s1, m1, h1)"
    and rest: "(if s1 \<noteq> PPHP_OK then Some (s1, m1, h1)
      else load_protos ops base bytes strings proto_table (i + 1) n m1 h1) = Some (s, m', h')"
    by (auto simp: Option.bind_eq_Some_conv simp del: One_nat_def split: prod.split_asm)
  show ?case
    using load_proto_refcnt [OF step] rest Suc.IH [of "i + 1" m1 h1] by (auto split: if_split_asm)
qed

section \<open>Modules\<close>

definition loaded_module :: "pmodule \<Rightarrow> bool" where
  "loaded_module m \<longleftrightarrow>
     protos m \<noteq> [] \<and> refcnt m = 1 \<and>
     n_params (hd (protos m)) = 0 \<and> \<not> is_method (hd (protos m)) \<and>
     role (hd (protos m)) = PPROTO_MAIN \<and>
     (\<forall>p \<in> set (protos m). loaded_proto p \<and> accepted_proto (pm_count m) p)"

lemma unmarked_loaded: "unmarked p = unmarked q \<Longrightarrow> loaded_proto p = loaded_proto q"
proof -
  assume same: "unmarked p = unmarked q"
  have fields: "n_params p = n_params q" "n_required p = n_required q" "variadic p = variadic q"
    "is_method p = is_method q" "conditional p = conditional q" "pp_code p = pp_code q"
    "constants p = constants q" "locals p = locals q" "catches p = catches q"
    using same by (cases p; cases q; simp)+
  have names: "pbc_string_constant p = pbc_string_constant q"
    by (simp add: fun_eq_iff pbc_string_constant_def fields)
  have "accepted_handler p = accepted_handler q"
    by (simp add: fun_eq_iff accepted_handler_def fields names)
  then show ?thesis by (simp add: loaded_proto_def signature_ok_def locals_ok_def fields)
qed

lemma load_records_sound:
  assumes "load_records ops base bytes n_protos n_strings m h = Some (PPHP_OK, m', h')"
    and "0 < n_protos" "protos m = []" "refcnt m = 1"
  shows "loaded_module m'"
proof -
  note codes = PPHP_OK_def PPHP_E_PARSE_def
  have failed: "failed_module ops r x y \<noteq> Some (PPHP_OK, m', h')" if "r \<noteq> PPHP_OK" for r x y
    using that by (auto simp: failed_module_def Option.bind_eq_Some_conv)
  obtain ok strings where
    strings: "load_strings bytes (case ro_strings_ptr m of None \<Rightarrow> 0 | Some p \<Rightarrow> p) 0 n_strings
       (ro_strings m) = Some (ok, strings)"
    using assms(1) by (auto simp: load_records_def Option.bind_eq_Some_conv)
  have ok: ok
    using assms(1) strings failed [of PPHP_E_PARSE] by (cases ok) (simp_all add: load_records_def codes)
  let ?m = "m\<lparr>ro_strings := strings\<rparr>"
  obtain status m1 h1 where
    protos: "load_protos ops base bytes strings (16 + n_strings * 4) 0 n_protos ?m h = Some (status, m1, h1)"
    using assms(1) strings ok by (auto simp: load_records_def Option.bind_eq_Some_conv)
  have status: "status = PPHP_OK"
    using assms(1) strings ok protos failed [of status]
    by (cases "status = PPHP_OK") (simp_all add: load_records_def)
  obtain ps where verified: "verify_module (protos m1) = Some (Some ps)"
    and m': "m' = m1\<lparr>protos := ps, ro_strings := map (\<lambda>s. s\<lparr>ro_owner := True\<rparr>) strings\<rparr>"
    using assms(1) strings ok protos status failed [of PPHP_E_PARSE]
    by (auto simp: load_records_def Option.bind_eq_Some_conv codes split: option.split_asm)
  obtain qs where qs: "protos m1 = qs" "length qs = n_protos"
      "\<forall>j < n_protos. loaded_proto (qs ! j) \<and> (j = 0 \<longrightarrow> n_params (qs ! j) = 0 \<and>
         \<not> is_method (qs ! j) \<and> \<not> conditional (qs ! j))"
    using load_protos_sound [OF protos [unfolded status]] assms(3) by auto
  have short: "\<forall>p \<in> set (protos m1). code_length p \<le> UINT16_MAX"
    using qs by (auto simp: in_set_conv_nth loaded_proto_def)
  note sound = verify_module_sound [OF verified short]
  have len: "length ps = n_protos" using unmarked_lists [OF sound(1)] qs by simp
  have same: "unmarked (ps ! j) = unmarked (qs ! j)" if "j < n_protos" for j
    using unmarked_nth [OF sound(1)] that len qs(1) by simp
  have "loaded_proto (ps ! j)" if "j < n_protos" for j
    using unmarked_loaded [OF same [OF that]] qs(3) that by simp
  then have loaded: "\<forall>p \<in> set ps. loaded_proto p" using len by (auto simp: in_set_conv_nth)
  have zero: "ps \<noteq> []" "hd ps = ps ! 0" using len assms(2) by (auto simp: hd_conv_nth)
  have "n_params (ps ! 0) = n_params (qs ! 0)" "is_method (ps ! 0) = is_method (qs ! 0)"
    using unmarked_eqD(6,7) [OF same [OF assms(2)]] by simp_all
  moreover obtain ps' where "final_role 0 (ps' ! 0) = Some (role (ps ! 0))"
    using sound(3) qs assms(2) by auto
  then have "role (ps ! 0) = PPROTO_MAIN" using final_role_of_mark(1) by blast
  moreover have "refcnt m1 = refcnt m"
    using load_protos_refcnt [OF protos] by simp
  ultimately show ?thesis
    using m' loaded sound(2) zero qs(3) assms(2,4) by (simp add: loaded_module_def)
qed

section \<open>Properties\<close>

text \<open>
  C36. A module that loads is well formed: the first prototype is the main program without
  parameters; every prototype has at most 31 parameters, which have slots among its
  distinct locals; handlers cover an ordered range of the code, store into an existing slot
  and name their class by a string; and the code of every prototype is accepted by the
  verifier.
\<close>

theorem loaded_module_is_well_formed:
  assumes "pphp_pbc_load ops base bytes m h = Some (PPHP_OK, m', h')"
  shows "loaded_module m'"
proof -
  have failed: "failed_module ops PPHP_E_NOMEM x y \<noteq> Some (PPHP_OK, m', h')" for x y
    by (auto simp: failed_module_def Option.bind_eq_Some_conv PPHP_OK_def PPHP_E_NOMEM_def)
  have header: "load_header bytes \<noteq> Some (Inl PPHP_OK)"
    by (auto simp: load_header_def Let_def Option.bind_eq_Some_conv PPHP_OK_def PPHP_E_PARSE_def
        split: if_split_asm)
  obtain r where r: "load_header bytes = Some r" using load_header_total by blast
  have "\<exists>n_protos n_strings. r = Inr (n_protos, n_strings)"
    using assms header r by (cases r) (auto simp: pphp_pbc_load_def)
  then obtain n_protos n_strings where
    accepted: "load_header bytes = Some (Inr (n_protos, n_strings))" using r by auto
  let ?m = "zero_module\<lparr>refcnt := 1, pm_image := bytes, ro_string_count := n_strings\<rparr>"
  have plain: "protos ?m = []" "refcnt ?m = 1" by (simp_all add: zero_module_def)
  note sound = load_records_sound [OF _ load_header_accepts(1) [OF accepted]]
  show ?thesis
  proof (cases "n_strings = 0")
    case True
    then have "load_records ops base bytes n_protos n_strings ?m h = Some (PPHP_OK, m', h')"
      using assms accepted by (simp add: pphp_pbc_load_def)
    then show ?thesis by (rule sound) (rule plain)+
  next
    case False
    obtain q h1 where q: "h_alloc ops (n_strings * sizeof_pro_string) h = (q, h1)"
      by (cases "h_alloc ops (n_strings * sizeof_pro_string) h")
    obtain p where p: "q = Some p"
      using assms accepted False q failed by (cases q) (simp_all add: pphp_pbc_load_def)
    let ?m' = "?m\<lparr>ro_strings_ptr := Some p, ro_strings := replicate n_strings zero_ro_string\<rparr>"
    have "load_records ops base bytes n_protos n_strings ?m' h1 = Some (PPHP_OK, m', h')"
      using assms accepted False q p by (simp add: pphp_pbc_load_def)
    then show ?thesis by (rule sound) (simp_all add: zero_module_def)
  qed
qed

section \<open>Witnesses\<close>

text \<open>An image with the string \<open>main\<close> and a program that halts.\<close>

definition demo_image :: "u8 list" where
  "demo_image =
     [0x50, 0x50, 0x42, 0x43, 2, 0, 54, 0, 52, 0, 0, 0, 1, 0, 1, 0,
      24, 0, 0, 0, 32, 0, 0, 0,
      4, 0, 109, 97, 105, 110, 0, 0,
      0, 0, 0, 0, 0, 0, 1, 0, 1, 0, 0, 0, 0, 0, 0, 0,
      1, 0, 0, 0]"

lemma demo_header: "load_header demo_image = Some (Inr (1, 1))"
  by (simp add: load_header_def demo_image_def pbc_range_available_def PPBC_def get_u16_def get_u32_def
      PPHP_PBC_FORMAT_VERSION_def PPHP_PBC_FLAG_FEATURES_def PPHP_PBC_FLAG_FLOAT_def
      PPHP_PBC_FLAG_DOUBLE_def PPHP_PBC_FLAG_LINE_INFO_def expected_flags_def Let_def SIZE_MAX_def
      align4_def)

definition demo_string_table :: "pro_string list" where
  "demo_string_table =
     [\<lparr>ro_base = \<lparr>ps_addr = 64, ps_rostring = True, ps_interned = False,
        ps_hash = ps_hash_bytes ''main'', ps_data = ''main''\<rparr>, ro_owner = False\<rparr>]"

lemma demo_strings:
  "load_strings demo_image 64 0 1 [zero_ro_string] = Some (True, demo_string_table)"
  by (simp add: demo_image_def get_u32_def get_u16_def load_string_def pbc_range_available_def
      size_add_def size_align4_def SIZE_MAX_def align4_def bytes_chars_def Let_def
      demo_string_table_def char_of_def bit_0)

lemma demo_loads_protos:
  "\<exists>m' h'. load_protos bump_ops 4096 demo_image demo_string_table 20 0 1
       (zero_module\<lparr>refcnt := 1, pm_image := demo_image, ro_string_count := 1,
          ro_strings_ptr := Some 64, ro_strings := demo_string_table\<rparr>) 96 = Some (PPHP_OK, m', h') \<and>
     (\<exists>ps. verify_module (protos m') = Some (Some ps))"
  by (simp add: bump_ops_def load_proto_def pbc_range_available_def read_proto_header_def get_u16_def
      get_u32_def pproto_new_def ps_new_def align4_def SIZE_MAX_def demo_image_def Let_def
      demo_string_table_def pmodule_add_def grow_array_def zero_module_def header_invalid_def
      proto_of_header_def load_body_def pbc_advance_def PPHP_OK_def size_align4_def
      verify_module_def verify_eval PPHP_STR_MAX_def empty_pproto_def sizeof_pstring_def
      sizeof_ptr_def sizeof_pproto_def pbc_finalize_proto_roles_def final_role_def)

lemma demo_loads:
  "\<exists>m' h'. pphp_pbc_load bump_ops 4096 demo_image zero_module 64 = Some (PPHP_OK, m', h')"
proof -
  let ?m = "zero_module\<lparr>refcnt := 1, pm_image := demo_image, ro_string_count := 1\<rparr>"
  let ?full = "?m\<lparr>ro_strings_ptr := Some 64, ro_strings := replicate 1 zero_ro_string\<rparr>"
  have alloc: "h_alloc bump_ops (1 * sizeof_pro_string) 64 = (Some 64, 96)"
    by (simp add: bump_ops_def sizeof_pro_string_def)
  obtain m' h' ps where protos: "load_protos bump_ops 4096 demo_image demo_string_table 20 0 1
       (?m\<lparr>ro_strings_ptr := Some 64, ro_strings := demo_string_table\<rparr>) 96 = Some (PPHP_OK, m', h')"
    and verified: "verify_module (protos m') = Some (Some ps)"
    using demo_loads_protos by blast
  have m0: "ro_strings_ptr ?full = Some 64" "ro_strings ?full = [zero_ro_string]"
    "?full\<lparr>ro_strings := demo_string_table\<rparr> =
       ?m\<lparr>ro_strings_ptr := Some 64, ro_strings := demo_string_table\<rparr>"
    "16 + 1 * 4 = (20 :: nat)"
    by simp_all
  have "load_records bump_ops 4096 demo_image 1 1 ?full 96 =
      Some (PPHP_OK, m'\<lparr>protos := ps, ro_strings := map (\<lambda>s. s\<lparr>ro_owner := True\<rparr>) demo_string_table\<rparr>, h')"
    unfolding load_records_def m0 option.case demo_strings Let_def Option.bind.simps case_prod_conv
      protos verified by simp
  then show ?thesis
    unfolding pphp_pbc_load_def demo_header Option.bind.simps sum.case case_prod_conv Let_def alloc
    by simp
qed

theorem loaded_module_is_well_formed_witness:
  "\<exists>m' h'. pphp_pbc_load bump_ops 4096 demo_image zero_module 64 = Some (PPHP_OK, m', h') \<and>
     loaded_module m'"
proof -
  obtain m' h' where "pphp_pbc_load bump_ops 4096 demo_image zero_module 64 = Some (PPHP_OK, m', h')"
    using demo_loads by blast
  moreover from this have "loaded_module m'" by (rule loaded_module_is_well_formed)
  ultimately show ?thesis by (intro exI conjI)
qed

end
