(* ===== verification/PbcWrite.thy ===== *)
theory PbcWrite
  imports PbcLoad
begin

text \<open>
  Writing a module as a bytecode image: \<open>collect_strings\<close> and \<open>pphp_pbc_write_file\<close> of
  \<open>src/pbc.c\<close>.  The sizes are added up first, then the image is filled in at the offsets
  found.  As in the loader, the outer \<open>None\<close> is an access outside the buffer; the inner
  \<open>None\<close> is \<open>goto done\<close> with an error.
\<close>

unbundle bit_operations_syntax

section \<open>The string table\<close>

record string_list =
  sl_ptr :: "addr option"
  sl_items :: "pstring list"
  sl_capacity :: nat

fun index_from :: "nat \<Rightarrow> pstring list \<Rightarrow> pstring \<Rightarrow> u16 option" where
  "index_from i [] s = None"
| "index_from i (item # items) s =
     (if ps_equal item s then Some (of_nat i) else index_from (i + 1) items s)"

definition string_index :: "string_list \<Rightarrow> pstring \<Rightarrow> u16 option" where
  "string_index strings s = index_from 0 (sl_items strings) s"

definition strings_add ::
  "'h heap_ops \<Rightarrow> pstring \<Rightarrow> string_list \<Rightarrow> 'h \<Rightarrow> u16 option \<times> string_list \<times> 'h" where
  "strings_add ops s strings h =
     (case index_from 0 (sl_items strings) s of
        Some i \<Rightarrow> (Some i, strings, h)
      | None \<Rightarrow>
          let n = length (sl_items strings)
          in if UINT16_MAX \<le> n then (None, strings, h)
             else if n = sl_capacity strings
             then case grow_array ops (sl_ptr strings) sizeof_ptr (sl_capacity strings) (n + 1) h of
                    (None, h) \<Rightarrow> (None, strings, h)
                  | (Some (ptr, capacity), h) \<Rightarrow>
                      (Some (of_nat n),
                       strings\<lparr>sl_ptr := Some ptr, sl_capacity := capacity,
                               sl_items := sl_items strings @ [s]\<rparr>, h)
             else (Some (of_nat n), strings\<lparr>sl_items := sl_items strings @ [s]\<rparr>, h))"

fun add_strings ::
  "'h heap_ops \<Rightarrow> pstring list \<Rightarrow> string_list \<Rightarrow> 'h \<Rightarrow> bool \<times> string_list \<times> 'h" where
  "add_strings ops [] strings h = (True, strings, h)"
| "add_strings ops (s # ss) strings h =
     (case strings_add ops s strings h of
        (None, strings, h) \<Rightarrow> (False, strings, h)
      | (Some ignored, strings, h) \<Rightarrow> add_strings ops ss strings h)"

fun constant_strings :: "pvalue list \<Rightarrow> pstring list" where
  "constant_strings [] = []"
| "constant_strings (PString s # vs) = s # constant_strings vs"
| "constant_strings (_ # vs) = constant_strings vs"

text \<open>The strings of a prototype in the order in which they are added.\<close>

definition proto_strings :: "pproto \<Rightarrow> pstring list" where
  "proto_strings p = pp_name p # constant_strings (constants p) @ locals p"

fun collect_from ::
  "'h heap_ops \<Rightarrow> pproto list \<Rightarrow> string_list \<Rightarrow> 'h \<Rightarrow> bool \<times> string_list \<times> 'h" where
  "collect_from ops [] strings h = (True, strings, h)"
| "collect_from ops (p # ps) strings h =
     (case add_strings ops (proto_strings p) strings h of
        (False, strings, h) \<Rightarrow> (False, strings, h)
      | (True, strings, h) \<Rightarrow> collect_from ops ps strings h)"

definition collect_strings :: "'h heap_ops \<Rightarrow> pmodule \<Rightarrow> 'h \<Rightarrow> bool \<times> string_list \<times> 'h" where
  "collect_strings ops m h =
     collect_from ops (protos m) \<lparr>sl_ptr = None, sl_items = [], sl_capacity = 0\<rparr> h"

section \<open>Sizes and offsets\<close>

fun serialized_constant_size :: "pvalue \<Rightarrow> nat" where
  "serialized_constant_size (PFloat f) = 16"
| "serialized_constant_size v = 8"

definition UINT32_MAXIMUM :: nat where "UINT32_MAXIMUM = 4294967295"

fun string_offsets_loop :: "nat \<Rightarrow> pstring list \<Rightarrow> (nat list \<times> nat) option" where
  "string_offsets_loop tot [] = Some ([], tot)"
| "string_offsets_loop tot (s # ss) =
     (if UINT32_MAXIMUM < tot then None
      else do {
        end1 \<leftarrow> size_add tot (3 + ps_length s);
        end2 \<leftarrow> size_align4 end1;
        (offsets, tot') \<leftarrow> string_offsets_loop end2 ss;
        Some (tot # offsets, tot')
      })"

fun constants_size :: "nat \<Rightarrow> pvalue list \<Rightarrow> nat option" where
  "constants_size tot [] = Some tot"
| "constants_size tot (v # vs) = do {
     tot \<leftarrow> size_add tot (serialized_constant_size v);
     constants_size tot vs
   }"

fun proto_offsets_loop :: "nat \<Rightarrow> pproto list \<Rightarrow> (nat list \<times> nat) option" where
  "proto_offsets_loop tot [] = Some ([], tot)"
| "proto_offsets_loop tot (p # ps) =
     (if UINT16_MAX < code_length p \<or> UINT16_MAX < constant_count p \<or> UINT16_MAX < catch_count p \<or>
         UINT32_MAXIMUM < tot
      then None
      else do {
        t \<leftarrow> size_add tot 16;
        t \<leftarrow> size_add t (align4 (code_length p));
        t \<leftarrow> constants_size t (constants p);
        t \<leftarrow> size_add t (n_locals p * 2);
        t \<leftarrow> size_add t (catch_count p * 10);
        t \<leftarrow> size_align4 t;
        (offsets, tot') \<leftarrow> proto_offsets_loop t ps;
        Some (tot # offsets, tot')
      })"

section \<open>Filling in the image\<close>

definition copy_bytes :: "u8 list \<Rightarrow> nat \<Rightarrow> u8 list \<Rightarrow> u8 list option" where
  "copy_bytes bytes offset data =
     (if offset + length data \<le> length bytes
      then Some (take offset bytes @ data @ drop (offset + length data) bytes) else None)"

definition chars_bytes :: "bytes \<Rightarrow> u8 list" where
  "chars_bytes b = map (\<lambda>c. of_nat (ord c)) b"

definition write_header :: "pmodule \<Rightarrow> string_list \<Rightarrow> u8 list \<Rightarrow> u8 list option" where
  "write_header m strings bytes = do {
     bytes \<leftarrow> copy_bytes bytes 0 PPBC;
     bytes \<leftarrow> put_u16 bytes 4 PPHP_PBC_FORMAT_VERSION;
     bytes \<leftarrow> put_u16 bytes 6 expected_flags;
     bytes \<leftarrow> put_u32 bytes 8 (of_nat (length bytes));
     bytes \<leftarrow> put_u16 bytes 12 (of_nat (pm_count m));
     put_u16 bytes 14 (of_nat (length (sl_items strings)))
   }"

fun write_offsets :: "nat list \<Rightarrow> nat \<Rightarrow> u8 list \<Rightarrow> u8 list option" where
  "write_offsets [] offset bytes = Some bytes"
| "write_offsets (v # vs) offset bytes = do {
     bytes \<leftarrow> put_u32 bytes offset (of_nat v);
     write_offsets vs (offset + 4) bytes
   }"

fun write_strings :: "(nat \<times> pstring) list \<Rightarrow> u8 list \<Rightarrow> u8 list option" where
  "write_strings [] bytes = Some bytes"
| "write_strings ((offset, s) # items) bytes = do {
     bytes \<leftarrow> put_u16 bytes offset (of_nat (ps_length s));
     bytes \<leftarrow> copy_bytes bytes (offset + 2) (chars_bytes (ps_data s));
     write_strings items bytes
   }"

definition flags_byte :: "pproto \<Rightarrow> u8" where
  "flags_byte p =
     (if variadic p then 1 else 0) OR (if is_method p then 2 else 0) OR (if conditional p then 8 else 0)"

definition write_proto_header :: "pproto \<Rightarrow> u16 \<Rightarrow> nat \<Rightarrow> u8 list \<Rightarrow> u8 list option" where
  "write_proto_header p name_sid offset bytes = do {
     bytes \<leftarrow> wr bytes offset (n_params p);
     bytes \<leftarrow> wr bytes (offset + 1) (n_required p);
     bytes \<leftarrow> wr bytes (offset + 2) (flags_byte p);
     bytes \<leftarrow> wr bytes (offset + 3) (of_nat (n_locals p));
     bytes \<leftarrow> put_u16 bytes (offset + 6) (max_stack p);
     bytes \<leftarrow> put_u16 bytes (offset + 8) (of_nat (code_length p));
     bytes \<leftarrow> put_u16 bytes (offset + 10) (of_nat (constant_count p));
     bytes \<leftarrow> put_u16 bytes (offset + 12) (of_nat (catch_count p));
     put_u16 bytes (offset + 14) name_sid
   }"

text \<open>One constant: the image and the offset after it.\<close>

definition write_constant ::
  "string_list \<Rightarrow> pvalue \<Rightarrow> nat \<Rightarrow> u8 list \<Rightarrow> (u8 list \<times> nat) option option" where
  "write_constant strings v offset bytes =
     (case v of
        PInt i \<Rightarrow> do {
          bytes \<leftarrow> wr bytes offset 0;
          bytes \<leftarrow> put_u32 bytes (offset + 4) i;
          Some (Some (bytes, offset + 8))
        }
      | PString s \<Rightarrow>
          (case string_index strings s of
             None \<Rightarrow> Some None
           | Some sid \<Rightarrow> do {
               bytes \<leftarrow> wr bytes offset 2;
               bytes \<leftarrow> put_u32 bytes (offset + 4) (ucast sid);
               Some (Some (bytes, offset + 8))
             })
      | PFloat bits \<Rightarrow> do {
          bytes \<leftarrow> wr bytes offset 3;
          bytes \<leftarrow> put_u32 bytes (offset + 8) (ucast (bits AND 0xffffffff));
          bytes \<leftarrow> put_u32 bytes (offset + 12) (ucast (drop_bit 32 bits));
          Some (Some (bytes, offset + 16))
        }
      | _ \<Rightarrow> Some None)"

fun write_constants ::
  "string_list \<Rightarrow> pvalue list \<Rightarrow> nat \<Rightarrow> u8 list \<Rightarrow> (u8 list \<times> nat) option option" where
  "write_constants strings [] offset bytes = Some (Some (bytes, offset))"
| "write_constants strings (v # vs) offset bytes = do {
     r \<leftarrow> write_constant strings v offset bytes;
     case r of None \<Rightarrow> Some None | Some (bytes, offset) \<Rightarrow> write_constants strings vs offset bytes
   }"

fun write_locals ::
  "string_list \<Rightarrow> pstring list \<Rightarrow> nat \<Rightarrow> u8 list \<Rightarrow> (u8 list \<times> nat) option option" where
  "write_locals strings [] offset bytes = Some (Some (bytes, offset))"
| "write_locals strings (s # ss) offset bytes =
     (case string_index strings s of
        None \<Rightarrow> Some None
      | Some sid \<Rightarrow> do {
          bytes \<leftarrow> put_u16 bytes offset sid;
          write_locals strings ss (offset + 2) bytes
        })"

definition catch_sid :: "string_list \<Rightarrow> pproto \<Rightarrow> pcatch \<Rightarrow> u16 option" where
  "catch_sid strings p entry =
     (if class_constant entry = 65535 then Some 65535
      else
        case rd (constants p) (unat (class_constant entry)) of
          Some (PString s) \<Rightarrow> string_index strings s
        | _ \<Rightarrow> None)"

fun write_catches ::
  "string_list \<Rightarrow> pproto \<Rightarrow> pcatch list \<Rightarrow> nat \<Rightarrow> u8 list \<Rightarrow> (u8 list \<times> nat) option option" where
  "write_catches strings p [] offset bytes = Some (Some (bytes, offset))"
| "write_catches strings p (entry # entries) offset bytes =
     (case catch_sid strings p entry of
        None \<Rightarrow> Some None
      | Some class_sid \<Rightarrow> do {
          bytes \<leftarrow> put_u16 bytes offset (try_start entry);
          bytes \<leftarrow> put_u16 bytes (offset + 2) (try_end entry);
          bytes \<leftarrow> put_u16 bytes (offset + 4) (handler_pc entry);
          bytes \<leftarrow> put_u16 bytes (offset + 6) class_sid;
          bytes \<leftarrow> wr bytes (offset + 8) (variable_slot entry);
          bytes \<leftarrow> wr bytes (offset + 9) 0;
          write_catches strings p entries (offset + 10) bytes
        })"

definition write_proto :: "string_list \<Rightarrow> pproto \<Rightarrow> nat \<Rightarrow> u8 list \<Rightarrow> u8 list option option" where
  "write_proto strings p offset bytes =
     (case string_index strings (pp_name p) of
        None \<Rightarrow> Some None
      | Some name_sid \<Rightarrow> do {
          bytes \<leftarrow> write_proto_header p name_sid offset bytes;
          bytes \<leftarrow> copy_bytes bytes (offset + 16) (pp_code p);
          r \<leftarrow> write_constants strings (constants p) (offset + 16 + align4 (code_length p)) bytes;
          case r of
            None \<Rightarrow> Some None
          | Some (bytes, offset) \<Rightarrow> do {
              r \<leftarrow> write_locals strings (locals p) offset bytes;
              case r of
                None \<Rightarrow> Some None
              | Some (bytes, offset) \<Rightarrow> do {
                  r \<leftarrow> write_catches strings p (catches p) offset bytes;
                  Some (map_option fst r)
                }
            }
        })"

fun write_protos :: "string_list \<Rightarrow> (nat \<times> pproto) list \<Rightarrow> u8 list \<Rightarrow> u8 list option option" where
  "write_protos strings [] bytes = Some (Some bytes)"
| "write_protos strings ((offset, p) # items) bytes = do {
     r \<leftarrow> write_proto strings p offset bytes;
     case r of None \<Rightarrow> Some None | Some bytes \<Rightarrow> write_protos strings items bytes
   }"

text \<open>
  The sizes: \<open>None\<close> where the module does not fit into an image.  The result has the string
  offsets, the prototype offsets and the size of the image.
\<close>

definition image_layout :: "pmodule \<Rightarrow> string_list \<Rightarrow> (nat list \<times> nat list \<times> nat) option" where
  "image_layout m strings = do {
     tot \<leftarrow> size_add 16 (length (sl_items strings) * 4);
     tot \<leftarrow> size_add tot (pm_count m * 4);
     tot \<leftarrow> size_align4 tot;
     (string_offsets, tot) \<leftarrow> string_offsets_loop tot (sl_items strings);
     (proto_offsets, tot) \<leftarrow> proto_offsets_loop tot (protos m);
     if UINT32_MAXIMUM < tot then None else Some (string_offsets, proto_offsets, tot)
   }"

text \<open>The image in a zeroed buffer of its size.\<close>

definition write_image ::
  "pmodule \<Rightarrow> string_list \<Rightarrow> nat list \<Rightarrow> nat list \<Rightarrow> nat \<Rightarrow> u8 list option option" where
  "write_image m strings string_offsets proto_offsets tot = do {
     bytes \<leftarrow> write_header m strings (replicate tot 0);
     bytes \<leftarrow> write_offsets (string_offsets @ proto_offsets) 16 bytes;
     bytes \<leftarrow> write_strings (zip string_offsets (sl_items strings)) bytes;
     write_protos strings (zip proto_offsets (protos m)) bytes
   }"

section \<open>Writing a file\<close>

text \<open>
  The file operations of \<open>include/pphp/fs.h\<close> on a world \<open>'w\<close>, as the writer and the reader
  call them.
\<close>

record ('f, 'w) file_ops =
  fs_open :: "bytes \<Rightarrow> bytes \<Rightarrow> 'w \<Rightarrow> 'f option \<times> 'w"
  fs_seek :: "'f \<Rightarrow> int \<Rightarrow> nat \<Rightarrow> 'w \<Rightarrow> int \<times> 'w"
  fs_read :: "'f \<Rightarrow> nat \<Rightarrow> 'w \<Rightarrow> int \<times> u8 list \<times> 'w"
  fs_write :: "'f \<Rightarrow> u8 list \<Rightarrow> 'w \<Rightarrow> int \<times> 'w"
  fs_close :: "'f \<Rightarrow> 'w \<Rightarrow> bool \<times> 'w"

definition save_image :: "('f, 'w) file_ops \<Rightarrow> bytes \<Rightarrow> u8 list \<Rightarrow> 'w \<Rightarrow> nat \<times> 'w" where
  "save_image fs path bytes w =
     (case fs_open fs path ''wb'' w of
        (None, w) \<Rightarrow> (PPHP_E_IO, w)
      | (Some file, w) \<Rightarrow>
          let (written, w) = fs_write fs file bytes w;
              result = (if written = int (length bytes) then PPHP_OK else PPHP_E_IO);
              (closed, w) = fs_close fs file w
          in (if \<not> closed \<and> result = PPHP_OK then PPHP_E_IO else result, w))"

text \<open>
  The three buffers are allocated in this order and freed at \<open>done\<close>; a failure of
  \<open>collect_strings\<close> returns at once.
\<close>

definition pphp_pbc_write_file ::
  "'h heap_ops \<Rightarrow> ('f, 'w) file_ops \<Rightarrow> pmodule \<Rightarrow> bytes \<Rightarrow> 'h \<Rightarrow> 'w \<Rightarrow> (nat \<times> 'h \<times> 'w) option" where
  "pphp_pbc_write_file ops fs m path h w =
     (if pm_count m = 0 \<or> UINT16_MAX < pm_count m then Some (PPHP_E_NOMEM, h, w)
      else
        case collect_strings ops m h of
          (False, strings, h) \<Rightarrow> Some (PPHP_E_NOMEM, h, w)
        | (True, strings, h) \<Rightarrow>
            let n = length (sl_items strings);
                (string_offsets_ptr, h) = h_alloc ops (n * 4) h;
                (proto_offsets_ptr, h) = h_alloc ops (pm_count m * 4) h;
                done = (\<lambda>bytes_ptr h.
                  h_free ops (sl_ptr strings) (h_free ops proto_offsets_ptr
                    (h_free ops string_offsets_ptr (h_free ops bytes_ptr h))))
            in if (n \<noteq> 0 \<and> string_offsets_ptr = None) \<or> proto_offsets_ptr = None
               then Some (PPHP_E_NOMEM, done None h, w)
               else
                 case image_layout m strings of
                   None \<Rightarrow> Some (PPHP_E_NOMEM, done None h, w)
                 | Some (string_offsets, proto_offsets, tot) \<Rightarrow>
                     case h_alloc ops tot h of
                       (None, h) \<Rightarrow> Some (PPHP_E_NOMEM, done None h, w)
                     | (Some p, h) \<Rightarrow> do {
                         image \<leftarrow> write_image m strings string_offsets proto_offsets tot;
                         case image of
                           None \<Rightarrow> Some (PPHP_E_NOMEM, done (Some p) h, w)
                         | Some bytes \<Rightarrow>
                             let (result, w) = save_image fs path bytes w
                             in Some (result, done (Some p) h, w)
                       })"

text \<open>
  \<open>pphp_pbc_read_file\<close>: the file is read as a whole and the image becomes the module's
  backing store.
\<close>

definition pphp_pbc_read_file ::
  "'h heap_ops \<Rightarrow> ('f, 'w) file_ops \<Rightarrow> bytes \<Rightarrow> pmodule \<Rightarrow> 'h \<Rightarrow> 'w
     \<Rightarrow> (nat \<times> pmodule \<times> 'h \<times> 'w) option" where
  "pphp_pbc_read_file ops fs path m h w =
     (case fs_open fs path ''rb'' w of
        (None, w) \<Rightarrow> Some (PPHP_E_IO, m, h, w)
      | (Some file, w) \<Rightarrow>
          let (file_size, w) = fs_seek fs file 0 2 w;
              (rewound, w) = (if file_size < 0 \<or> int SIZE_MAX < file_size then (- 1, w)
                              else fs_seek fs file 0 0 w)
          in if file_size < 0 \<or> int SIZE_MAX < file_size \<or> rewound < 0
             then Some (PPHP_E_IO, m, h, snd (fs_close fs file w))
             else
               case h_alloc ops (nat file_size) h of
                 (None, h) \<Rightarrow> Some (PPHP_E_NOMEM, m, h, snd (fs_close fs file w))
               | (Some p, h) \<Rightarrow>
                   let (read_count, bytes, w) = fs_read fs file (nat file_size) w;
                       w = snd (fs_close fs file w)
                   in if read_count \<noteq> file_size
                      then Some (PPHP_E_IO, m, h_free ops (Some p) h, w)
                      else do {
                        (result, m, h) \<leftarrow> pphp_pbc_load ops p bytes m h;
                        Some (if result = PPHP_OK
                              then (result, m\<lparr>backing := Some p, owns_backing := True\<rparr>, h, w)
                              else (result, m, h_free ops (Some p) h, w))
                      })"

end
