(* ===== verification/PbcWriteProps.thy ===== *)
theory PbcWriteProps
  imports PbcWrite PbcLoadSound
begin

text \<open>
  The writer's two passes agree: what the second pass stores lies inside the buffer whose
  size the first pass computed, for every module.
\<close>

section \<open>Stores that stay inside\<close>

text \<open>\<open>stays r n\<close>: the store \<open>r\<close> succeeds on a buffer of \<open>n\<close> bytes and keeps its size.\<close>

definition stays :: "u8 list option \<Rightarrow> nat \<Rightarrow> bool" where
  "stays r n \<longleftrightarrow> (\<exists>bytes. r = Some bytes \<and> length bytes = n)"

lemma stays_Some [simp]: "stays (Some bytes) n \<longleftrightarrow> length bytes = n"
  by (simp add: stays_def)

lemma stays_bind: "stays r n \<Longrightarrow> (\<And>bytes. length bytes = n \<Longrightarrow> stays (f bytes) n') \<Longrightarrow> stays (Option.bind r f) n'"
  by (auto simp: stays_def)

lemma stays_wr: "i < n \<Longrightarrow> length bytes = n \<Longrightarrow> stays (wr bytes i x) n"
  by (simp add: wr_def)

lemma stays_put_u16: "i + 1 < n \<Longrightarrow> length bytes = n \<Longrightarrow> stays (put_u16 bytes i x) n"
  by (simp add: put_u16_def wr_def)

lemma stays_put_u32: "i + 3 < n \<Longrightarrow> length bytes = n \<Longrightarrow> stays (put_u32 bytes i x) n"
  by (simp add: put_u32_def wr_def)

lemma stays_copy: "i + length data \<le> n \<Longrightarrow> length bytes = n \<Longrightarrow> stays (copy_bytes bytes i data) n"
  by (simp add: copy_bytes_def)

lemmas stays_intros = stays_bind stays_wr stays_put_u16 stays_put_u32 stays_copy

lemma write_header_stays: "16 \<le> n \<Longrightarrow> length bytes = n \<Longrightarrow> stays (write_header m strings bytes) n"
  unfolding write_header_def by (intro stays_intros) (simp_all add: PPBC_def)

lemma write_offsets_stays:
  "offset + 4 * length vs \<le> n \<Longrightarrow> length bytes = n \<Longrightarrow> stays (write_offsets vs offset bytes) n"
proof (induction vs arbitrary: offset bytes)
  case Nil
  then show ?case by simp
next
  case (Cons v vs)
  have "stays (write_offsets vs (offset + 4) b) n" if "length b = n" for b
    by (rule Cons.IH) (use Cons.prems that in simp_all)
  then show ?case
    unfolding write_offsets.simps
    by (intro stays_bind [OF stays_put_u32]) (use Cons.prems in simp_all)
qed

lemma length_chars_bytes [simp]: "length (chars_bytes b) = length b"
  by (simp add: chars_bytes_def)

lemma write_strings_stays:
  "\<forall>(offset, s) \<in> set items. offset + 3 + ps_length s \<le> n \<Longrightarrow> length bytes = n \<Longrightarrow>
   stays (write_strings items bytes) n"
proof (induction items arbitrary: bytes)
  case Nil
  then show ?case by simp
next
  case (Cons item items)
  obtain offset s where item: "item = (offset, s)" by (cases item)
  have "stays (write_strings items b) n" if "length b = n" for b
    by (rule Cons.IH) (use Cons.prems that in simp_all)
  moreover have "offset + 3 + ps_length s \<le> n" using Cons.prems(1) item by simp
  ultimately show ?case
    unfolding item write_strings.simps
    by (intro stays_bind stays_put_u16 stays_copy) (use Cons.prems(2) in auto)
qed

text \<open>A step that can also fail: \<open>None\<close> inside is \<open>goto done\<close>.\<close>

definition stays_at :: "(u8 list \<times> nat) option option \<Rightarrow> nat \<Rightarrow> nat \<Rightarrow> bool" where
  "stays_at r n offset \<longleftrightarrow>
     (case r of None \<Rightarrow> False | Some None \<Rightarrow> True
      | Some (Some (bytes, o')) \<Rightarrow> length bytes = n \<and> o' = offset)"

lemma stays_at_Some [simp]:
  "stays_at (Some None) n offset"
  "stays_at (Some (Some (bytes, o'))) n offset \<longleftrightarrow> length bytes = n \<and> o' = offset"
  by (simp_all add: stays_at_def)

lemma stays_at_bind:
  "stays r n \<Longrightarrow> (\<And>bytes. length bytes = n \<Longrightarrow> stays_at (f bytes) n offset) \<Longrightarrow>
   stays_at (Option.bind r f) n offset"
  by (auto simp: stays_def)

lemma stays_at_bind_case:
  "stays_at r n o1 \<Longrightarrow> (\<And>bytes. length bytes = n \<Longrightarrow> stays_at (f bytes o1) n offset) \<Longrightarrow>
   stays_at (Option.bind r (\<lambda>x. case x of None \<Rightarrow> Some None | Some (bytes, o') \<Rightarrow> f bytes o')) n offset"
  by (auto simp: stays_at_def split: option.split_asm prod.split_asm)

lemma write_constant_stays:
  "offset + serialized_constant_size v \<le> n \<Longrightarrow> length bytes = n \<Longrightarrow>
   stays_at (write_constant strings v offset bytes) n (offset + serialized_constant_size v)"
  unfolding write_constant_def
  by (cases v)
    (auto intro!: stays_at_bind stays_wr stays_put_u32 split: option.split)

fun constants_bytes :: "pvalue list \<Rightarrow> nat" where
  "constants_bytes [] = 0"
| "constants_bytes (v # vs) = serialized_constant_size v + constants_bytes vs"

lemma write_constants_stays:
  "offset + constants_bytes vs \<le> n \<Longrightarrow> length bytes = n \<Longrightarrow>
   stays_at (write_constants strings vs offset bytes) n (offset + constants_bytes vs)"
proof (induction vs arbitrary: offset bytes)
  case Nil
  then show ?case by simp
next
  case (Cons v vs)
  have "stays_at (write_constants strings vs (offset + serialized_constant_size v) b) n
      (offset + serialized_constant_size v + constants_bytes vs)" if "length b = n" for b
    by (rule Cons.IH) (use Cons.prems that in simp_all)
  then show ?case
    unfolding write_constants.simps
    by (intro stays_at_bind_case [OF write_constant_stays]) (use Cons.prems in \<open>simp_all add: add.assoc\<close>)
qed

lemma write_locals_stays:
  "offset + 2 * length ss \<le> n \<Longrightarrow> length bytes = n \<Longrightarrow>
   stays_at (write_locals strings ss offset bytes) n (offset + 2 * length ss)"
proof (induction ss arbitrary: offset bytes)
  case Nil
  then show ?case by simp
next
  case (Cons s ss)
  have "stays_at (write_locals strings ss (offset + 2) b) n (offset + 2 + 2 * length ss)"
    if "length b = n" for b
    by (rule Cons.IH) (use Cons.prems that in simp_all)
  then show ?case
    unfolding write_locals.simps
    by (cases "string_index strings s")
      (use Cons.prems in \<open>auto intro!: stays_at_bind stays_put_u16\<close>)
qed

lemma write_catches_stays:
  "offset + 10 * length entries \<le> n \<Longrightarrow> length bytes = n \<Longrightarrow>
   stays_at (write_catches strings p entries offset bytes) n (offset + 10 * length entries)"
proof (induction entries arbitrary: offset bytes)
  case Nil
  then show ?case by simp
next
  case (Cons entry entries)
  have "stays_at (write_catches strings p entries (offset + 10) b) n (offset + 10 + 10 * length entries)"
    if "length b = n" for b
    by (rule Cons.IH) (use Cons.prems that in simp_all)
  then show ?case
    unfolding write_catches.simps
    by (cases "catch_sid strings p entry")
      (use Cons.prems in \<open>auto intro!: stays_at_bind stays_put_u16 stays_wr simp: add.assoc\<close>)
qed

definition proto_bytes :: "pproto \<Rightarrow> nat" where
  "proto_bytes p =
     16 + align4 (code_length p) + constants_bytes (constants p) + 2 * n_locals p + 10 * catch_count p"

lemma write_proto_header_stays:
  "offset + 16 \<le> n \<Longrightarrow> length bytes = n \<Longrightarrow> stays (write_proto_header p name_sid offset bytes) n"
  unfolding write_proto_header_def by (intro stays_intros) simp_all

lemma write_proto_stays:
  assumes "offset + proto_bytes p \<le> n" "length bytes = n" "code_length p \<le> align4 (code_length p)"
  shows "case write_proto strings p offset bytes of
      None \<Rightarrow> False | Some None \<Rightarrow> True | Some (Some bytes') \<Rightarrow> length bytes' = n"
proof (cases "string_index strings (pp_name p)")
  case None
  then show ?thesis by (simp add: write_proto_def)
next
  case name: (Some name_sid)
  let ?o1 = "offset + 16 + align4 (code_length p)"
  let ?o2 = "?o1 + constants_bytes (constants p)"
  let ?o3 = "?o2 + 2 * n_locals p"
  have room: "?o3 + 10 * catch_count p \<le> n" using assms(1) by (simp add: proto_bytes_def)
  obtain b1 where b1: "write_proto_header p name_sid offset bytes = Some b1" "length b1 = n"
    using write_proto_header_stays [of offset n bytes p name_sid] assms room by (auto simp: stays_def)
  obtain b2 where b2: "copy_bytes b1 (offset + 16) (pp_code p) = Some b2" "length b2 = n"
    using stays_copy [of "offset + 16" "pp_code p" n b1] b1 assms room by (auto simp: stays_def)
  have c: "stays_at (write_constants strings (constants p) ?o1 b2) n ?o2"
    by (rule write_constants_stays) (use room b2 in simp_all)
  have l: "stays_at (write_locals strings (locals p) ?o2 b) n ?o3" if "length b = n" for b
    by (rule write_locals_stays) (use room that in simp_all)
  have k: "stays_at (write_catches strings p (catches p) ?o3 b) n (?o3 + 10 * catch_count p)"
    if "length b = n" for b
    by (rule write_catches_stays) (use room that in simp_all)
  have locals_and_catches: "case Option.bind (write_locals strings (locals p) ?o2 b)
      (\<lambda>r. case r of None \<Rightarrow> Some None | Some (bytes, offset) \<Rightarrow>
         Option.bind (write_catches strings p (catches p) offset bytes) (\<lambda>r. Some (map_option fst r))) of
      None \<Rightarrow> False | Some None \<Rightarrow> True | Some (Some bytes') \<Rightarrow> length bytes' = n"
    if b: "length b = n" for b
  proof (cases "write_locals strings (locals p) ?o2 b")
    case (Some r)
    show ?thesis
    proof (cases r)
      case (Some x)
      then obtain b4 where b4: "r = Some (b4, ?o3)" "length b4 = n"
        using l [OF b] \<open>write_locals strings (locals p) ?o2 b = Some r\<close>
        by (cases x) (simp add: stays_at_def)
      show ?thesis
        using k [OF b4(2)] \<open>write_locals strings (locals p) ?o2 b = Some r\<close> b4(1)
        by (cases "write_catches strings p (catches p) ?o3 b4")
          (auto simp: stays_at_def split: option.splits)
    qed (simp add: \<open>write_locals strings (locals p) ?o2 b = Some r\<close>)
  qed (use l [OF b] in \<open>simp add: stays_at_def\<close>)
  show ?thesis
  proof (cases "write_constants strings (constants p) ?o1 b2")
    case (Some r)
    show ?thesis
    proof (cases r)
      case None
      then show ?thesis using name b1 b2 Some by (simp add: write_proto_def)
    next
      case (Some x)
      then obtain b3 where b3: "r = Some (b3, ?o2)" "length b3 = n"
        using c \<open>write_constants strings (constants p) ?o1 b2 = Some r\<close>
        by (cases x) (simp add: stays_at_def)
      show ?thesis
        using name b1(1) b2(1) \<open>write_constants strings (constants p) ?o1 b2 = Some r\<close> b3(1)
          locals_and_catches [OF b3(2)]
        by (simp add: write_proto_def)
    qed
  qed (use c in \<open>simp add: stays_at_def\<close>)
qed

lemma write_protos_stays:
  "\<forall>(offset, p) \<in> set items. offset + proto_bytes p \<le> n \<and> code_length p \<le> align4 (code_length p) \<Longrightarrow>
   length bytes = n \<Longrightarrow>
   case write_protos strings items bytes of
     None \<Rightarrow> False | Some None \<Rightarrow> True | Some (Some bytes') \<Rightarrow> length bytes' = n"
proof (induction items arbitrary: bytes)
  case Nil
  then show ?case by simp
next
  case (Cons item items)
  obtain offset p where item: "item = (offset, p)" by (cases item)
  have "case write_proto strings p offset bytes of
      None \<Rightarrow> False | Some None \<Rightarrow> True | Some (Some bytes') \<Rightarrow> length bytes' = n"
    by (rule write_proto_stays) (use Cons.prems item in simp_all)
  then show ?case
    using Cons unfolding item write_protos.simps by (auto split: option.split_asm option.split)
qed

section \<open>The layout\<close>

lemma size_add_Some: "size_add v amount = Some t \<Longrightarrow> t = v + amount"
  by (auto simp: size_add_def split: if_splits)

lemma align4_ge: "v \<le> SIZE_MAX - 3 \<Longrightarrow> v \<le> align4 v \<and> align4 v < v + 4 \<and> align4 v mod 4 = 0"
proof -
  assume "v \<le> SIZE_MAX - 3"
  then have "(v + 3) mod (SIZE_MAX + 1) = v + 3" by (simp add: SIZE_MAX_def)
  then have "align4 v = v + 3 - (v + 3) mod 4" by (simp add: align4_def Let_def)
  moreover have "(v + 3) mod 4 \<le> 3" by simp
  ultimately show ?thesis by (auto simp: minus_mod_eq_mult_div)
qed

lemma size_align4_Some: "size_align4 v = Some t \<Longrightarrow> v \<le> t"
  using align4_ge by (auto simp: size_align4_def split: if_splits)

lemma string_offsets_layout:
  "string_offsets_loop tot ss = Some (offsets, tot') \<Longrightarrow>
   tot \<le> tot' \<and> length offsets = length ss \<and>
   (\<forall>(offset, s) \<in> set (zip offsets ss). offset + 3 + ps_length s \<le> tot')"
proof (induction ss arbitrary: tot offsets)
  case Nil
  then show ?case by simp
next
  case (Cons s ss)
  then obtain end1 end2 offsets' where
    ends: "size_add tot (3 + ps_length s) = Some end1" "size_align4 end1 = Some end2"
    and rest: "string_offsets_loop end2 ss = Some (offsets', tot')" and offsets: "offsets = tot # offsets'"
    by (auto simp: Option.bind_eq_Some_conv split: if_split_asm)
  have "tot + 3 + ps_length s \<le> end2"
    using size_add_Some [OF ends(1)] size_align4_Some [OF ends(2)] by simp
  then show ?case using Cons.IH [OF rest] offsets by auto
qed

lemma constants_size_bytes: "constants_size tot vs = Some t \<Longrightarrow> t = tot + constants_bytes vs"
  by (induction vs arbitrary: tot) (fastforce simp: Option.bind_eq_Some_conv dest: size_add_Some)+

lemma proto_offsets_layout:
  "proto_offsets_loop tot ps = Some (offsets, tot') \<Longrightarrow>
   tot \<le> tot' \<and> length offsets = length ps \<and>
   (\<forall>(offset, p) \<in> set (zip offsets ps).
      offset + proto_bytes p \<le> tot' \<and> code_length p \<le> align4 (code_length p))"
proof (induction ps arbitrary: tot offsets)
  case Nil
  then show ?case by simp
next
  case (Cons p ps)
  then obtain t1 t2 t3 t4 t5 t6 offsets' where
    steps: "size_add tot 16 = Some t1" "size_add t1 (align4 (code_length p)) = Some t2"
      "constants_size t2 (constants p) = Some t3" "size_add t3 (n_locals p * 2) = Some t4"
      "size_add t4 (catch_count p * 10) = Some t5" "size_align4 t5 = Some t6"
    and rest: "proto_offsets_loop t6 ps = Some (offsets', tot')" and offsets: "offsets = tot # offsets'"
    and short: "code_length p \<le> UINT16_MAX"
    by (auto simp: Option.bind_eq_Some_conv split: if_split_asm)
  have "t5 = tot + proto_bytes p"
    using size_add_Some [OF steps(1)] size_add_Some [OF steps(2)] constants_size_bytes [OF steps(3)]
      size_add_Some [OF steps(4)] size_add_Some [OF steps(5)] by (simp add: proto_bytes_def)
  then have "tot + proto_bytes p \<le> t6" using size_align4_Some [OF steps(6)] by simp
  moreover have "code_length p \<le> align4 (code_length p)"
    using align4_ge [of "code_length p"] short by (simp add: UINT16_MAX_def SIZE_MAX_def)
  ultimately show ?case using Cons.IH [OF rest] offsets by auto
qed

lemma image_layout_fits:
  assumes "image_layout m strings = Some (string_offsets, proto_offsets, tot)"
  shows "16 + 4 * (length string_offsets + length proto_offsets) \<le> tot"
    and "length string_offsets = length (sl_items strings)" "length proto_offsets = pm_count m"
    and "\<forall>(offset, s) \<in> set (zip string_offsets (sl_items strings)). offset + 3 + ps_length s \<le> tot"
    and "\<forall>(offset, p) \<in> set (zip proto_offsets (protos m)).
      offset + proto_bytes p \<le> tot \<and> code_length p \<le> align4 (code_length p)"
proof -
  from assms obtain t1 t2 t3 t4 where
    steps: "size_add 16 (length (sl_items strings) * 4) = Some t1" "size_add t1 (pm_count m * 4) = Some t2"
      "size_align4 t2 = Some t3"
    and strings: "string_offsets_loop t3 (sl_items strings) = Some (string_offsets, t4)"
    and protos: "proto_offsets_loop t4 (protos m) = Some (proto_offsets, tot)"
    by (auto simp: image_layout_def Option.bind_eq_Some_conv split: if_split_asm)
  note s = string_offsets_layout [OF strings] and p = proto_offsets_layout [OF protos]
  have "16 + 4 * (length (sl_items strings) + pm_count m) \<le> t3"
    using size_add_Some [OF steps(1)] size_add_Some [OF steps(2)] size_align4_Some [OF steps(3)] by simp
  then show "16 + 4 * (length string_offsets + length proto_offsets) \<le> tot" using s p by simp
  show "length string_offsets = length (sl_items strings)" "length proto_offsets = pm_count m"
    using s p by simp_all
  show "\<forall>(offset, s) \<in> set (zip string_offsets (sl_items strings)). offset + 3 + ps_length s \<le> tot"
    using s p by (auto intro: order.trans)
  show "\<forall>(offset, p) \<in> set (zip proto_offsets (protos m)).
      offset + proto_bytes p \<le> tot \<and> code_length p \<le> align4 (code_length p)"
    using p by blast
qed

lemma write_image_stays:
  assumes "image_layout m strings = Some (string_offsets, proto_offsets, tot)"
  shows "case write_image m strings string_offsets proto_offsets tot of
      None \<Rightarrow> False | Some None \<Rightarrow> True | Some (Some bytes) \<Rightarrow> length bytes = tot"
proof -
  note fits = image_layout_fits [OF assms]
  obtain b1 where b1: "write_header m strings (replicate tot 0) = Some b1" "length b1 = tot"
    using write_header_stays [of tot "replicate tot 0" m strings] fits(1) by (auto simp: stays_def)
  obtain b2 where b2: "write_offsets (string_offsets @ proto_offsets) 16 b1 = Some b2" "length b2 = tot"
    using write_offsets_stays [of 16 "string_offsets @ proto_offsets" tot b1] fits(1) b1
    by (auto simp: stays_def)
  obtain b3 where b3: "write_strings (zip string_offsets (sl_items strings)) b2 = Some b3" "length b3 = tot"
    using write_strings_stays [OF fits(4) b2(2)] by (auto simp: stays_def)
  show ?thesis
    using write_protos_stays [OF fits(5) b3(2), of strings] by (simp add: write_image_def b1 b2 b3)
qed

section \<open>The string table of an image\<close>

lemma index_from_Some:
  "index_from i items s = Some k \<Longrightarrow>
   \<exists>j < length items. k = of_nat (i + j) \<and> ps_equal (items ! j) s"
proof (induction i items s rule: index_from.induct)
  case (1 i s)
  then show ?case by simp
next
  case (2 i item items s)
  show ?case
  proof (cases "ps_equal item s")
    case True
    then show ?thesis using 2(2) by (intro exI [of _ 0]) simp
  next
    case False
    then obtain j where "j < length items" "k = of_nat (i + 1 + j)" "ps_equal (items ! j) s"
      using 2 by auto
    then show ?thesis by (intro exI [of _ "Suc j"]) simp
  qed
qed

lemma index_from_None: "index_from i items s = None \<longleftrightarrow> (\<forall>item \<in> set items. \<not> ps_equal item s)"
  by (induction i items s rule: index_from.induct) auto

lemma index_from_last: "index_from 0 (items @ [s]) s \<noteq> None"
  by (simp add: index_from_None ps_equal_def del: not_None_eq)

lemma strings_add_keeps:
  assumes "strings_add ops s strings h = (r, strings', h')"
  shows "\<exists>new. sl_items strings' = sl_items strings @ new \<and>
     (r \<noteq> None \<longrightarrow> index_from 0 (sl_items strings') s \<noteq> None)"
proof (cases "index_from 0 (sl_items strings) s")
  case (Some i)
  then show ?thesis using assms by (auto simp: strings_add_def)
next
  case None
  have "sl_items strings' = sl_items strings \<and> r = None \<or> sl_items strings' = sl_items strings @ [s]"
    using assms None
    by (auto simp: strings_add_def Let_def split: option.split_asm if_split_asm prod.split_asm)
  then show ?thesis using index_from_last by auto
qed

lemma index_from_append:
  "index_from i items s \<noteq> None \<Longrightarrow> index_from i (items @ new) s \<noteq> None"
  by (auto simp: index_from_None simp flip: not_None_iff_Some)

lemma add_strings_keeps:
  "add_strings ops ss strings h = (ok, strings', h') \<Longrightarrow>
   (\<exists>new. sl_items strings' = sl_items strings @ new) \<and>
   (ok \<longrightarrow> (\<forall>s \<in> set ss. index_from 0 (sl_items strings') s \<noteq> None))"
proof (induction ss arbitrary: strings h)
  case Nil
  then show ?case by simp
next
  case (Cons s ss)
  obtain r strings1 h1 where add: "strings_add ops s strings h = (r, strings1, h1)"
    by (cases "strings_add ops s strings h")
  note first = strings_add_keeps [OF add]
  show ?case
  proof (cases r)
    case None
    then show ?thesis using Cons.prems add first by auto
  next
    case (Some k)
    then have rest: "add_strings ops ss strings1 h1 = (ok, strings', h')" using Cons.prems add by simp
    have "index_from 0 (sl_items strings1) s \<noteq> None" using first Some by simp
    then have "index_from 0 (sl_items strings') s \<noteq> None"
      using Cons.IH [OF rest] index_from_append by auto
    then show ?thesis using Cons.IH [OF rest] first by auto
  qed
qed

lemma collect_from_keeps:
  "collect_from ops ps strings h = (ok, strings', h') \<Longrightarrow>
   (\<exists>new. sl_items strings' = sl_items strings @ new) \<and>
   (ok \<longrightarrow> (\<forall>p \<in> set ps. \<forall>s \<in> set (proto_strings p). index_from 0 (sl_items strings') s \<noteq> None))"
proof (induction ps arbitrary: strings h)
  case Nil
  then show ?case by simp
next
  case (Cons p ps)
  obtain ok1 strings1 h1 where add: "add_strings ops (proto_strings p) strings h = (ok1, strings1, h1)"
    by (cases "add_strings ops (proto_strings p) strings h")
  note first = add_strings_keeps [OF add]
  show ?case
  proof (cases ok1)
    case False
    then show ?thesis using Cons.prems add first by auto
  next
    case True
    then have rest: "collect_from ops ps strings1 h1 = (ok, strings', h')" using Cons.prems add by simp
    have "index_from 0 (sl_items strings') s \<noteq> None" if "s \<in> set (proto_strings p)" for s
    proof -
      obtain new where "sl_items strings' = sl_items strings1 @ new" using Cons.IH [OF rest] by blast
      moreover have "index_from 0 (sl_items strings1) s \<noteq> None" using first True that by blast
      ultimately show ?thesis using index_from_append by metis
    qed
    then show ?thesis using Cons.IH [OF rest] first by auto
  qed
qed

lemma strings_add_bound:
  "strings_add ops s strings h = (r, strings', h') \<Longrightarrow> length (sl_items strings) \<le> UINT16_MAX \<Longrightarrow>
   length (sl_items strings') \<le> UINT16_MAX"
  by (auto simp: strings_add_def Let_def split: option.split_asm if_split_asm prod.split_asm)

lemma add_strings_bound:
  "add_strings ops ss strings h = (ok, strings', h') \<Longrightarrow> length (sl_items strings) \<le> UINT16_MAX \<Longrightarrow>
   length (sl_items strings') \<le> UINT16_MAX"
  by (induction ss arbitrary: strings h)
    (auto dest: strings_add_bound split: prod.split_asm option.split_asm)

lemma collect_from_bound:
  "collect_from ops ps strings h = (ok, strings', h') \<Longrightarrow> length (sl_items strings) \<le> UINT16_MAX \<Longrightarrow>
   length (sl_items strings') \<le> UINT16_MAX"
  by (induction ps arbitrary: strings h)
    (auto dest: add_strings_bound split: prod.split_asm bool.split_asm)

section \<open>Properties\<close>

text \<open>
  C40. Writing a module never stores outside the buffers, for every module: the sizes added
  up in the first pass cover everything the second pass writes.
\<close>

theorem writer_stays_in_buffer: "pphp_pbc_write_file ops fs m path h w \<noteq> None"
proof -
  have image: "write_image m strings so po tot \<noteq> None"
    if "image_layout m strings = Some (so, po, tot)" for strings so po tot
    using write_image_stays [OF that] by (auto split: option.split_asm)
  show ?thesis
    unfolding pphp_pbc_write_file_def
    by (auto simp: Let_def Option.bind_eq_None_conv dest: image iff del: not_None_eq
        split: prod.split option.split bool.split)
qed

text \<open>
  The string table of an image is complete: when the strings were collected, the name,
  the string constants and the locals of every prototype have an index, and the entry there
  is an equal string.
\<close>

theorem collected_strings_are_found:
  assumes "collect_strings ops m h = (True, strings, h')"
    and "p \<in> set (protos m)" "s \<in> set (proto_strings p)"
  shows "\<exists>k. string_index strings s = Some k \<and> unat k < length (sl_items strings) \<and>
    ps_equal (sl_items strings ! unat k) s"
proof -
  note collected = assms(1) [unfolded collect_strings_def]
  obtain k where k: "index_from 0 (sl_items strings) s = Some k"
    using collect_from_keeps [OF collected] assms(2,3) by blast
  obtain j where j: "j < length (sl_items strings)" "k = of_nat j" "ps_equal (sl_items strings ! j) s"
    using index_from_Some [OF k] by auto
  have "length (sl_items strings) \<le> UINT16_MAX"
    using collect_from_bound [OF collected] by simp
  then have "unat k = j" unfolding j(2)
    using j(1) by (simp add: unsigned_of_nat take_bit_nat_eq_self UINT16_MAX_def)
  then show ?thesis using k j by (auto simp: string_index_def)
qed

section \<open>Witnesses\<close>

definition demo_module :: pmodule where
  "demo_module = zero_module\<lparr>protos := [(empty_pproto 0 demo_name)\<lparr>pp_code := [OP_HALT]\<rparr>]\<rparr>"

theorem collected_strings_are_found_witness:
  "\<exists>k. string_index \<lparr>sl_ptr = Some 64, sl_items = [demo_name], sl_capacity = 8\<rparr> demo_name = Some k \<and>
     unat k < 1"
proof -
  have "collect_strings bump_ops demo_module 64 =
      (True, \<lparr>sl_ptr = Some 64, sl_items = [demo_name], sl_capacity = 8\<rparr>, 128)"
    by (simp add: collect_strings_def demo_module_def zero_module_def proto_strings_def empty_pproto_def
        strings_add_def grow_array_def bump_ops_def sizeof_ptr_def SIZE_MAX_def UINT16_MAX_def)
  moreover have "(empty_pproto 0 demo_name)\<lparr>pp_code := [OP_HALT]\<rparr> \<in> set (protos demo_module)"
    by (simp add: demo_module_def)
  ultimately show ?thesis
    using collected_strings_are_found [of bump_ops demo_module 64
        "\<lparr>sl_ptr = Some 64, sl_items = [demo_name], sl_capacity = 8\<rparr>" 128
        "(empty_pproto 0 demo_name)\<lparr>pp_code := [OP_HALT]\<rparr>" demo_name]
    by (simp add: proto_strings_def empty_pproto_def) blast
qed

end
