(* ===== verification/IntegerFloat.thy ===== *)
theory IntegerFloat
  imports Prelude
begin

text \<open>
  Integer literals that do not fit into an integer: \<open>pphp_integer_digits_to_float\<close> of
  \<open>src/value_ops.c\<close> in the build with doubles.  The digits are collected in a number of
  34 limbs of 32 bits, and its leading 53 bits are rounded.  A double is its 64-bit image.
\<close>

unbundle bit_operations_syntax

definition INTEGER_FLOAT_LIMBS :: nat where "INTEGER_FLOAT_LIMBS = 34"
definition INTEGER_FLOAT_PRECISION :: nat where "INTEGER_FLOAT_PRECISION = 53"
definition INTEGER_FLOAT_MAX_EXPONENT :: nat where "INTEGER_FLOAT_MAX_EXPONENT = 1023"

section \<open>The limbs\<close>

text \<open>\<open>used\<close> is the length of the list.\<close>

type_synonym integer_float_big = "u32 list"

definition integer_float_digit :: "char \<Rightarrow> u32" where
  "integer_float_digit c =
     (if is_digit c then of_nat (ord c) - of_nat (ord CHR ''0'')
      else if ord CHR ''a'' \<le> ord c \<and> ord c \<le> ord CHR ''f''
      then of_nat (ord c) - of_nat (ord CHR ''a'') + 10
      else of_nat (ord c) - of_nat (ord CHR ''A'') + 10)"

fun append_loop :: "u32 \<Rightarrow> u64 \<Rightarrow> u32 list \<Rightarrow> u32 list \<times> u64" where
  "append_loop base carry [] = ([], carry)"
| "append_loop base carry (limb # limbs) =
     (let product = (ucast limb * ucast base + carry :: u64);
          (rest, carry') = append_loop base (drop_bit 32 product) limbs
      in (ucast product # rest, carry'))"

definition integer_float_append :: "integer_float_big \<Rightarrow> u32 \<Rightarrow> u32 \<Rightarrow> integer_float_big option" where
  "integer_float_append integer base digit =
     (let (limbs, carry) = append_loop base (ucast digit) integer
      in if carry \<noteq> 0
         then (if length limbs = INTEGER_FLOAT_LIMBS then None else Some (limbs @ [ucast carry]))
         else Some limbs)"

function top_length :: "u32 \<Rightarrow> nat" where
  "top_length v = (if v \<noteq> 0 then Suc (top_length (drop_bit 1 v)) else 0)"
  by pat_completeness auto
termination
proof (relation "measure unat", goal_cases)
  case 1
  show ?case by simp
next
  case (2 v)
  then have "0 < unat v" by (simp add: unat_gt_0)
  then show ?case by (simp add: drop_bit_eq_div unat_div)
qed

declare top_length.simps [simp del]

definition integer_float_bit_length :: "integer_float_big \<Rightarrow> nat" where
  "integer_float_bit_length integer =
     (if length integer = 0 then 0
      else (length integer - 1) * 32 + top_length (integer ! (length integer - 1)))"

definition integer_float_bit :: "integer_float_big \<Rightarrow> nat \<Rightarrow> bool" where
  "integer_float_bit integer position =
     (let limb = position div 32
      in if length integer \<le> limb then False
         else integer ! limb AND push_bit (position mod 32) 1 \<noteq> 0)"

definition integer_float_any_bits_below :: "integer_float_big \<Rightarrow> nat \<Rightarrow> bool" where
  "integer_float_any_bits_below integer limit =
     (let whole = limit div 32
      in if \<exists>limb \<in> set (take whole integer). limb \<noteq> 0 then True
         else if whole < length integer \<and> limit mod 32 \<noteq> 0
         then integer ! whole AND (push_bit (limit mod 32) 1 - 1) \<noteq> 0
         else False)"

text \<open>The loop takes \<open>count\<close> bits from \<open>position\<close> downwards.\<close>

fun top_bits_loop :: "integer_float_big \<Rightarrow> u64 \<Rightarrow> nat \<Rightarrow> nat \<Rightarrow> u64" where
  "top_bits_loop integer v position 0 = v"
| "top_bits_loop integer v position (Suc count) =
     top_bits_loop integer
       (push_bit 1 v OR (if integer_float_bit integer (position - 1) then 1 else 0))
       (position - 1) count"

definition integer_float_top_bits :: "integer_float_big \<Rightarrow> nat \<Rightarrow> nat \<Rightarrow> u64" where
  "integer_float_top_bits integer bit_length count = top_bits_loop integer 0 bit_length count"

section \<open>The conversion\<close>

definition integer_float_infinity :: u64 where
  "integer_float_infinity = 0x7ff0000000000000"

fun collect_digits :: "integer_float_big \<Rightarrow> u32 \<Rightarrow> bytes \<Rightarrow> integer_float_big option" where
  "collect_digits integer base [] = Some integer"
| "collect_digits integer base (c # digits) =
     (if c \<noteq> CHR ''_'' then
        (case integer_float_append integer base (integer_float_digit c) of
           None \<Rightarrow> None
         | Some integer' \<Rightarrow> collect_digits integer' base digits)
      else collect_digits integer base digits)"

definition round_integer :: "integer_float_big \<Rightarrow> nat \<Rightarrow> nat \<times> u64" where
  "round_integer integer bit_length =
     (let retained = (if bit_length < INTEGER_FLOAT_PRECISION then bit_length
                      else INTEGER_FLOAT_PRECISION);
          discarded = bit_length - retained;
          significand = integer_float_top_bits integer bit_length retained;
          significand =
            (if retained < INTEGER_FLOAT_PRECISION
             then push_bit (INTEGER_FLOAT_PRECISION - retained) significand
             else if discarded \<noteq> 0 \<and> integer_float_bit integer (discarded - 1) \<and>
                     (integer_float_any_bits_below integer (discarded - 1) \<or> significand AND 1 \<noteq> 0)
             then significand + 1 else significand);
          exponent = bit_length - 1
      in if significand = push_bit INTEGER_FLOAT_PRECISION 1
         then (exponent + 1, drop_bit 1 significand) else (exponent, significand))"

definition pphp_integer_digits_to_float :: "bytes \<Rightarrow> u32 \<Rightarrow> u64" where
  "pphp_integer_digits_to_float digits base =
     (case collect_digits [] base digits of
        None \<Rightarrow> integer_float_infinity
      | Some integer \<Rightarrow>
          let bit_length = integer_float_bit_length integer
          in if bit_length = 0 then 0
             else
               let (exponent, significand) = round_integer integer bit_length
               in if INTEGER_FLOAT_MAX_EXPONENT < exponent then integer_float_infinity
                  else push_bit 52 (of_nat (exponent + 1023)) OR (significand AND 0x000fffffffffffff))"

section \<open>The number the limbs stand for\<close>

fun big_value :: "u32 list \<Rightarrow> nat" where
  "big_value [] = 0"
| "big_value (limb # limbs) = unat limb + 2 ^ 32 * big_value limbs"

lemma unat32_bound: "unat (x :: u32) < 2 ^ 32"
  using unsigned_less [of x, where 'a = nat] by simp

lemma big_value_bound: "big_value limbs < 2 ^ (32 * length limbs)"
proof (induction limbs)
  case Nil
  then show ?case by simp
next
  case (Cons limb limbs)
  have "unat limb + 2 ^ 32 * big_value limbs < 2 ^ 32 + 2 ^ 32 * big_value limbs"
    using unat32_bound by simp
  also have "\<dots> = 2 ^ 32 * (big_value limbs + 1)" by simp
  also have "\<dots> \<le> 2 ^ 32 * 2 ^ (32 * length limbs)"
    by (rule mult_le_mono2) (use Cons in simp)
  finally show ?case by (simp add: power_add)
qed

lemma big_value_append: "big_value (xs @ ys) = big_value xs + 2 ^ (32 * length xs) * big_value ys"
  by (induction xs) (simp_all add: power_add algebra_simps)

text \<open>One step of the multiplication: low and high word of \<open>limb * base + carry\<close>.\<close>

lemma product_split:
  fixes limb base :: u32 and carry :: u64
  assumes "unat carry < 2 ^ 32"
  defines "product \<equiv> ucast limb * ucast base + carry"
  shows "unat (ucast product :: u32) + 2 ^ 32 * unat (drop_bit 32 product) =
      unat limb * unat base + unat carry"
    and "unat (drop_bit 32 product) < 2 ^ 32"
proof -
  have "unat limb * unat base \<le> (2 ^ 32 - 1) * (2 ^ 32 - 1)"
    by (rule mult_le_mono) (use unat32_bound [of limb] unat32_bound [of base] in simp_all)
  then have small: "unat limb * unat base + unat carry < 2 ^ 64" using assms(1) by simp
  have "unat (ucast limb * ucast base :: u64) = unat limb * unat base"
    using small by (simp add: unat_word_ariths unsigned_ucast_eq take_bit_nat_eq_self
        unat32_bound [THEN order_less_le_trans])
  then have product: "unat product = unat limb * unat base + unat carry"
    unfolding product_def using small by (simp add: unat_word_ariths)
  have low: "unat (ucast product :: u32) = unat product mod 2 ^ 32"
    by (simp add: unsigned_ucast_eq take_bit_eq_mod)
  have high: "unat (drop_bit 32 product) = unat product div 2 ^ 32"
    by (simp add: drop_bit_eq_div unat_div)
  show "unat (ucast product :: u32) + 2 ^ 32 * unat (drop_bit 32 product) =
      unat limb * unat base + unat carry"
    unfolding low high product [symmetric] by simp
  show "unat (drop_bit 32 product) < 2 ^ 32"
    unfolding high product using small by (simp add: div_less_iff_less_mult)
qed

lemma append_loop_value:
  "append_loop base carry limbs = (limbs', carry') \<Longrightarrow> unat carry < 2 ^ 32 \<Longrightarrow>
   length limbs' = length limbs \<and> unat carry' < 2 ^ 32 \<and>
   big_value limbs' + 2 ^ (32 * length limbs) * unat carry' =
     big_value limbs * unat base + unat carry"
proof (induction limbs arbitrary: carry limbs')
  case Nil
  then show ?case by simp
next
  case (Cons limb limbs)
  define product where "product = (ucast limb * ucast base + carry :: u64)"
  obtain rest where rest: "append_loop base (drop_bit 32 product) limbs = (rest, carry')"
    and limbs': "limbs' = ucast product # rest"
    using Cons.prems(1) by (auto simp: product_def Let_def split: prod.split_asm)
  note split = product_split [OF Cons.prems(2), of limb base, folded product_def]
  note IH = Cons.IH [OF rest split(2)]
  have "big_value limbs' + 2 ^ (32 * length (limb # limbs)) * unat carry' =
      unat (ucast product :: u32) + 2 ^ 32 * (big_value rest + 2 ^ (32 * length limbs) * unat carry')"
    using limbs' by (simp add: power_add algebra_simps)
  also have "\<dots> = unat (ucast product :: u32) + 2 ^ 32 * unat (drop_bit 32 product) +
      2 ^ 32 * (big_value limbs * unat base)"
    using IH by (simp add: algebra_simps)
  also have "\<dots> = big_value (limb # limbs) * unat base + unat carry"
    unfolding split(1) by (simp add: algebra_simps)
  finally show ?case using IH limbs' by simp
qed

text \<open>The leading limb is not zero.\<close>

definition normal :: "u32 list \<Rightarrow> bool" where
  "normal limbs \<longleftrightarrow> limbs \<noteq> [] \<longrightarrow> last limbs \<noteq> 0"

lemma normal_value:
  assumes "normal limbs" "limbs \<noteq> []"
  shows "2 ^ (32 * (length limbs - 1)) \<le> big_value limbs"
proof -
  have split: "limbs = butlast limbs @ [last limbs]" using assms(2) by simp
  have "0 < unat (last limbs)" using assms by (simp add: normal_def unat_gt_0)
  then have "2 ^ (32 * (length limbs - 1)) * 1 \<le> 2 ^ (32 * (length limbs - 1)) * unat (last limbs)"
    by (intro mult_le_mono2) simp
  also have "\<dots> \<le> big_value limbs"
    using arg_cong [OF split, of big_value] by (simp add: big_value_append)
  finally show ?thesis by simp
qed

lemma append_value:
  assumes "integer_float_append integer base digit = r" "length integer \<le> INTEGER_FLOAT_LIMBS"
  shows "case r of
      None \<Rightarrow> 2 ^ (32 * INTEGER_FLOAT_LIMBS) \<le> big_value integer * unat base + unat digit
    | Some integer' \<Rightarrow> big_value integer' = big_value integer * unat base + unat digit \<and>
        length integer' \<le> INTEGER_FLOAT_LIMBS"
proof -
  obtain limbs carry where loop: "append_loop base (ucast digit) integer = (limbs, carry)"
    by (cases "append_loop base (ucast digit) integer")
  have digit: "unat (ucast digit :: u64) = unat digit"
    by (simp add: unsigned_ucast_eq take_bit_nat_eq_self unat32_bound [THEN order_less_le_trans])
  note v = append_loop_value [OF loop, unfolded digit, OF unat32_bound]
  have carry: "unat (ucast carry :: u32) = unat carry"
    using v by (simp add: unsigned_ucast_eq take_bit_nat_eq_self)
  show ?thesis
  proof (cases "carry = 0")
    case True
    then show ?thesis using assms loop v by (auto simp: integer_float_append_def)
  next
    case False
    then have pos: "1 \<le> unat carry" by (simp add: unat_gt_0 Suc_leI)
    show ?thesis
    proof (cases "length limbs = INTEGER_FLOAT_LIMBS")
      case True
      then have "r = None" using assms(1) loop False by (simp add: integer_float_append_def)
      moreover have "2 ^ (32 * length integer) \<le> 2 ^ (32 * length integer) * unat carry"
        using pos by simp
      then have "2 ^ (32 * length integer) \<le> big_value integer * unat base + unat digit"
        using v by linarith
      moreover have "length integer = INTEGER_FLOAT_LIMBS" using v True by simp
      ultimately show ?thesis by simp
    next
      case no: False
      then have "r = Some (limbs @ [ucast carry])"
        using assms(1) loop False by (simp add: integer_float_append_def)
      then show ?thesis using v no assms(2) carry by (simp add: big_value_append)
    qed
  qed
qed

lemma append_loop_last:
  "append_loop base carry limbs = (limbs', 0) \<Longrightarrow> unat carry < 2 ^ 32 \<Longrightarrow> base \<noteq> 0 \<Longrightarrow>
   limbs \<noteq> [] \<Longrightarrow> last limbs \<noteq> 0 \<Longrightarrow> last limbs' \<noteq> 0"
proof (induction limbs arbitrary: carry limbs')
  case Nil
  then show ?case by simp
next
  case (Cons limb limbs)
  define product where "product = (ucast limb * ucast base + carry :: u64)"
  obtain rest where rest: "append_loop base (drop_bit 32 product) limbs = (rest, 0)"
    and limbs': "limbs' = ucast product # rest"
    using Cons.prems(1) by (auto simp: product_def Let_def split: prod.split_asm)
  note split = product_split [OF Cons.prems(2), of limb base, folded product_def]
  show ?case
  proof (cases "limbs = []")
    case True
    then have zero: "drop_bit 32 product = 0" "rest = []" using rest by simp_all
    have "0 < unat limb * unat base"
      using Cons.prems(3,5) True by (simp add: unat_gt_0)
    then have "0 < unat (ucast product :: u32)" using split(1) zero(1) by simp
    then show ?thesis using limbs' zero(2) by (simp add: unat_gt_0)
  next
    case False
    then have "rest \<noteq> []"
      using append_loop_value [OF rest split(2)] by auto
    then show ?thesis
      using Cons.IH [OF rest split(2) Cons.prems(3) False] Cons.prems(5) False limbs' by simp
  qed
qed

lemma append_normal:
  assumes "integer_float_append integer base digit = Some integer'" "base \<noteq> 0" "normal integer"
  shows "normal integer'"
proof -
  obtain limbs carry where loop: "append_loop base (ucast digit) integer = (limbs, carry)"
    by (cases "append_loop base (ucast digit) integer")
  have digit: "unat (ucast digit :: u64) < 2 ^ 32"
    using unat32_bound [of digit]
    by (simp add: unsigned_ucast_eq take_bit_nat_eq_self)
  note v = append_loop_value [OF loop digit]
  show ?thesis
  proof (cases "carry = 0")
    case True
    then have "integer' = limbs" using assms(1) loop by (simp add: integer_float_append_def)
    then show ?thesis
      using append_loop_last [OF loop [unfolded True] digit assms(2)] assms(3) v
      by (cases "integer = []") (auto simp: normal_def)
  next
    case False
    then have "integer' = limbs @ [ucast carry]"
      using assms(1) loop by (auto simp: integer_float_append_def split: if_splits)
    moreover have "unat (ucast carry :: u32) = unat carry"
      using v by (simp add: unsigned_ucast_eq take_bit_nat_eq_self)
    then have "(ucast carry :: u32) \<noteq> 0" using False by (metis unat_eq_zero unsigned_0)
    ultimately show ?thesis by (simp add: normal_def)
  qed
qed

text \<open>The number a literal denotes: separators are skipped.\<close>

fun literal_value :: "nat \<Rightarrow> u32 \<Rightarrow> bytes \<Rightarrow> nat" where
  "literal_value v base [] = v"
| "literal_value v base (c # digits) =
     (if c = CHR ''_'' then literal_value v base digits
      else literal_value (v * unat base + unat (integer_float_digit c)) base digits)"

lemma literal_value_mono: "base \<noteq> 0 \<Longrightarrow> v \<le> literal_value v base digits"
proof (induction digits arbitrary: v)
  case Nil
  then show ?case by simp
next
  case (Cons c digits)
  have "1 \<le> unat base" using Cons.prems by (simp add: unat_gt_0 Suc_leI)
  then have "v \<le> v * unat base" by simp
  then have "v \<le> v * unat base + unat (integer_float_digit c)" by (rule trans_le_add1)
  then show ?case using Cons.IH [OF Cons.prems] Cons.IH [OF Cons.prems, of "v * unat base + unat (integer_float_digit c)"]
    by (auto intro: order.trans)
qed

lemma collect_digits_value:
  "collect_digits integer base digits = r \<Longrightarrow> base \<noteq> 0 \<Longrightarrow> normal integer \<Longrightarrow>
   length integer \<le> INTEGER_FLOAT_LIMBS \<Longrightarrow>
   case r of
     None \<Rightarrow> 2 ^ (32 * INTEGER_FLOAT_LIMBS) \<le> literal_value (big_value integer) base digits
   | Some integer' \<Rightarrow> big_value integer' = literal_value (big_value integer) base digits \<and>
       normal integer' \<and> length integer' \<le> INTEGER_FLOAT_LIMBS"
proof (induction digits arbitrary: integer)
  case Nil
  then show ?case by auto
next
  case (Cons c digits)
  show ?case
  proof (cases "c = CHR ''_''")
    case True
    then have "collect_digits integer base digits = r" using Cons.prems(1) by simp
    from Cons.IH [OF this Cons.prems(2-4)] show ?thesis using True by (cases r) simp_all
  next
    case False
    note v = append_value [OF refl Cons.prems(4), of base "integer_float_digit c"]
    show ?thesis
    proof (cases "integer_float_append integer base (integer_float_digit c)")
      case None
      then have "r = None" using Cons.prems(1) False by auto
      moreover have "2 ^ (32 * INTEGER_FLOAT_LIMBS) \<le>
          literal_value (big_value integer * unat base + unat (integer_float_digit c)) base digits"
        using v None literal_value_mono [OF Cons.prems(2)] by (auto intro: order.trans)
      ultimately show ?thesis using False by simp
    next
      case (Some integer')
      then have "collect_digits integer' base digits = r" using Cons.prems(1) False by simp
      from Cons.IH [OF this Cons.prems(2) append_normal [OF Some Cons.prems(2,3)]]
      show ?thesis using v Some False by (cases r) simp_all
    qed
  qed
qed

end
