(* ===== verification/IntegerFloatRound.thy ===== *)
theory IntegerFloatRound
  imports IntegerFloat
begin

text \<open>
  The conversion of integer literals to doubles is correctly rounded: the result is the
  nearest double, the one with an even significand when two are equally near, and infinity
  exactly from half a unit above the largest double.
\<close>

unbundle bit_operations_syntax

section \<open>Bits of the number\<close>

lemma bit_low_word:
  fixes a v k m :: nat
  assumes "k < m"
  shows "bit (a + 2 ^ m * v) k = bit a k"
proof -
  have m: "(2 :: nat) ^ m = 2 ^ k * 2 ^ (m - k)" using assms by (simp flip: power_add)
  have "(a + 2 ^ m * v) div 2 ^ k = a div 2 ^ k + 2 ^ (m - k) * v"
    unfolding m mult.assoc by simp
  moreover have "even (2 ^ (m - k) * v)" using assms by simp
  ultimately show ?thesis by (simp add: bit_iff_odd)
qed

lemma bit_high_word:
  fixes a v k m :: nat
  assumes "a < 2 ^ m" "m \<le> k"
  shows "bit (a + 2 ^ m * v) k = bit v (k - m)"
proof -
  have k: "(2 :: nat) ^ k = 2 ^ m * 2 ^ (k - m)" using assms(2) by (simp flip: power_add)
  have "(a + 2 ^ m * v) div 2 ^ k = v div 2 ^ (k - m)"
    unfolding k div_mult2_eq using assms(1) by simp
  then show ?thesis by (simp add: bit_iff_odd)
qed

lemma mod_low_word:
  fixes a v r m :: nat
  assumes "r \<le> m"
  shows "(a + 2 ^ m * v) mod 2 ^ r = a mod 2 ^ r"
proof -
  have m: "(2 :: nat) ^ m = 2 ^ r * 2 ^ (m - r)" using assms by (simp flip: power_add)
  show ?thesis unfolding m mult.assoc by simp
qed

lemma bit_big_value:
  "bit (big_value limbs) k \<longleftrightarrow> k div 32 < length limbs \<and> bit (limbs ! (k div 32)) (k mod 32)"
proof (induction limbs arbitrary: k)
  case Nil
  then show ?case by simp
next
  case (Cons limb limbs)
  show ?case
  proof (cases "k < 32")
    case True
    have "bit (big_value (limb # limbs)) k = bit (unat limb) k"
      unfolding big_value.simps by (rule bit_low_word [OF True])
    then show ?thesis using True by (simp add: bit_unsigned_iff)
  next
    case False
    then have "32 \<le> k" by simp
    then have "k div 32 = Suc ((k - 32) div 32)" "k mod 32 = (k - 32) mod 32"
      by (simp_all add: le_div_geq le_mod_geq)
    moreover have "bit (big_value (limb # limbs)) k = bit (big_value limbs) (k - 32)"
      unfolding big_value.simps by (rule bit_high_word [OF unat32_bound \<open>32 \<le> k\<close>])
    ultimately show ?thesis using Cons.IH [of "k - 32"] by simp
  qed
qed

lemma integer_float_bit_iff: "integer_float_bit limbs k \<longleftrightarrow> bit (big_value limbs) k"
proof -
  have "x AND push_bit j 1 \<noteq> 0 \<longleftrightarrow> bit x j" for x :: u32 and j
    unfolding push_bit_of_1 and_exp_eq_0_iff_not_bit by simp
  then show ?thesis by (auto simp: integer_float_bit_def Let_def bit_big_value)
qed

lemma big_value_zero: "big_value limbs = 0 \<longleftrightarrow> (\<forall>limb \<in> set limbs. limb = 0)"
  by (induction limbs) (auto simp: unat_eq_zero)

lemma any_bits_below_iff: "integer_float_any_bits_below limbs k \<longleftrightarrow> big_value limbs mod 2 ^ k \<noteq> 0"
proof -
  define w r where "w = k div 32" "r = k mod 32"
  have k: "k = 32 * w + r" "r < 32" by (simp_all add: w_r_def)
  have split: "big_value limbs = big_value (take w limbs) + 2 ^ (32 * length (take w limbs)) * big_value (drop w limbs)"
    using big_value_append [of "take w limbs" "drop w limbs"] by simp
  have mask: "x AND (push_bit r 1 - 1) \<noteq> 0 \<longleftrightarrow> unat x mod 2 ^ r \<noteq> 0" for x :: u32
  proof -
    have "x AND (push_bit r 1 - 1) = take_bit r x"
      by (simp add: push_bit_of_1 take_bit_eq_mask flip: mask_eq_exp_minus_1)
    moreover have "unat (take_bit r x) = unat x mod 2 ^ r"
      unfolding unsigned_take_bit_eq by (rule take_bit_eq_mod)
    ultimately show ?thesis by (metis unat_eq_zero)
  qed
  show ?thesis
  proof (cases "w < length limbs")
    case True
    then have len: "length (take w limbs) = w" by simp
    have drop: "drop w limbs = limbs ! w # drop (Suc w) limbs" using True by (simp add: Cons_nth_drop_Suc)
    have "big_value (drop w limbs) mod 2 ^ r = unat (limbs ! w) mod 2 ^ r"
      unfolding drop big_value.simps by (rule mod_low_word) (use k(2) in simp)
    moreover have "big_value limbs mod 2 ^ k =
        big_value (take w limbs) + 2 ^ (32 * w) * (big_value (drop w limbs) mod 2 ^ r)"
    proof -
      have "big_value (take w limbs) < 2 ^ (32 * w)"
        using big_value_bound [of "take w limbs"] len by simp
      then show ?thesis unfolding split len k(1) power_add
        by (simp add: mod_mult2_eq)
    qed
    ultimately have "big_value limbs mod 2 ^ k \<noteq> 0 \<longleftrightarrow>
        big_value (take w limbs) \<noteq> 0 \<or> unat (limbs ! w) mod 2 ^ r \<noteq> 0" by simp
    also have "\<dots> \<longleftrightarrow> integer_float_any_bits_below limbs k"
      using True mask [of "limbs ! w"]
      by (auto simp: integer_float_any_bits_below_def Let_def big_value_zero simp flip: w_r_def)
    finally show ?thesis by simp
  next
    case False
    then have "big_value limbs < 2 ^ (32 * w)"
      using big_value_bound [of limbs] by (elim order_less_le_trans) simp
    also have "\<dots> \<le> 2 ^ k" using k(1) by simp
    finally have "big_value limbs mod 2 ^ k = big_value limbs" by simp
    then show ?thesis using False
      by (simp add: integer_float_any_bits_below_def Let_def big_value_zero flip: w_r_def)
  qed
qed

section \<open>The bit length\<close>

lemma top_length_bounds: "v \<noteq> 0 \<Longrightarrow> 0 < top_length v \<and> 2 ^ (top_length v - 1) \<le> unat v \<and> unat v < 2 ^ top_length v"
proof (induction v rule: top_length.induct)
  case (1 v)
  have half: "unat (drop_bit 1 v) = unat v div 2" by (simp add: drop_bit_eq_div unat_div)
  have len: "top_length v = Suc (top_length (drop_bit 1 v))" using 1(2) by (simp add: top_length.simps)
  show ?case
  proof (cases "drop_bit 1 v = 0")
    case True
    then have "unat v div 2 = 0" using half by simp
    moreover have "0 < unat v" using 1(2) by (simp add: unat_gt_0)
    ultimately show ?thesis using len True by (simp add: top_length.simps)
  next
    case False
    from 1(1) [OF 1(2) False] half have
      "0 < top_length (drop_bit 1 v)" "2 ^ (top_length (drop_bit 1 v) - 1) \<le> unat v div 2"
      "unat v div 2 < 2 ^ top_length (drop_bit 1 v)" by simp_all
    then show ?thesis using len
      by (cases "top_length (drop_bit 1 v)") (simp_all, linarith+)
  qed
qed

lemma bit_length_bounds:
  assumes "normal limbs" "big_value limbs \<noteq> 0"
  defines "len \<equiv> integer_float_bit_length limbs"
  shows "0 < len" "2 ^ (len - 1) \<le> big_value limbs" "big_value limbs < 2 ^ len"
proof -
  have ne: "limbs \<noteq> []" using assms(2) by auto
  let ?w = "32 * (length limbs - 1)"
  define t where "t = last limbs"
  have len: "len = ?w + top_length t"
    using ne by (simp add: len_def integer_float_bit_length_def last_conv_nth t_def)
  have "t \<noteq> 0" using assms(1) ne by (simp add: normal_def t_def)
  note t = top_length_bounds [OF this]
  have val: "big_value limbs = big_value (butlast limbs) + 2 ^ ?w * unat t"
    using big_value_append [of "butlast limbs" "[last limbs]"] ne by (simp add: t_def)
  have low: "big_value (butlast limbs) < 2 ^ ?w"
    using big_value_bound [of "butlast limbs"] by simp
  show "0 < len" using len t by simp
  have "len - 1 = ?w + (top_length t - 1)" using t len by simp
  then have "(2 :: nat) ^ (len - 1) = 2 ^ ?w * 2 ^ (top_length t - 1)"
    by (simp only: power_add)
  also have "\<dots> \<le> 2 ^ ?w * unat t" using t by simp
  finally show "2 ^ (len - 1) \<le> big_value limbs" using val by simp
  have "big_value limbs < 2 ^ ?w * (unat t + 1)" using val low by simp
  also have "\<dots> \<le> 2 ^ ?w * 2 ^ top_length t" using t by (intro mult_le_mono2) simp
  finally show "big_value limbs < 2 ^ len" using len by (simp add: power_add)
qed

lemma bit_length_zero:
  "normal limbs \<Longrightarrow> integer_float_bit_length limbs = 0 \<longleftrightarrow> big_value limbs = 0"
proof -
  assume normal: "normal limbs"
  show ?thesis
  proof
    assume "integer_float_bit_length limbs = 0"
    then show "big_value limbs = 0" using bit_length_bounds(1) [OF normal] by auto
  next
    assume "big_value limbs = 0"
    then have "limbs = []" using normal normal_value by fastforce
    then show "integer_float_bit_length limbs = 0" by (simp add: integer_float_bit_length_def)
  qed
qed

section \<open>The leading bits\<close>

lemma div_step: "n div 2 ^ k = 2 * (n div 2 ^ Suc k) + of_bool (bit n k)" for n k :: nat
proof -
  have "n div 2 ^ Suc k = n div 2 ^ k div 2" by (simp only: power_Suc2 div_mult2_eq)
  then show ?thesis by (cases "even (n div 2 ^ k)") (simp_all add: bit_iff_odd)
qed

lemma top_bits_loop_value:
  "position = base + count \<Longrightarrow> unat v = big_value limbs div 2 ^ position \<Longrightarrow>
   big_value limbs div 2 ^ base < 2 ^ 64 \<Longrightarrow>
   unat (top_bits_loop limbs v position count) = big_value limbs div 2 ^ base"
proof (induction count arbitrary: v position)
  case 0
  then show ?case by simp
next
  case (Suc count)
  let ?n = "big_value limbs" and ?b = "bit (big_value limbs) (position - 1)"
  have pos: "position = Suc (position - 1)" "position - 1 = base + count" using Suc.prems(1) by simp_all
  have step: "?n div 2 ^ (position - 1) = 2 * unat v + of_bool ?b"
    using div_step [of ?n "position - 1"] pos(1) Suc.prems(2) by simp
  have "?n div 2 ^ (position - 1) \<le> ?n div 2 ^ base"
    unfolding pos(2) by (rule div_le_mono2) simp_all
  then have small: "2 * unat v + of_bool ?b < 2 ^ 64" using step Suc.prems(3) by simp
  have "unat (push_bit 1 v OR (if ?b then 1 else 0)) = 2 * unat v + of_bool ?b"
  proof -
    have even: "unat (push_bit 1 v) = 2 * unat v"
      using small by (simp add: push_bit_eq_mult unat_word_ariths)
    have "push_bit 1 v OR (if ?b then 1 else 0) = push_bit 1 v + (if ?b then 1 else 0)"
      by (simp add: or_one_eq push_bit_eq_mult)
    then show ?thesis using small even by (cases ?b) (simp_all add: unat_word_ariths mult.commute)
  qed
  then have v: "unat (push_bit 1 v OR (if integer_float_bit limbs (position - 1) then 1 else 0)) =
      ?n div 2 ^ (position - 1)"
    using step by (simp add: integer_float_bit_iff)
  show ?case
    using Suc.IH [OF pos(2) v Suc.prems(3)] by simp
qed

lemma top_bits_value:
  assumes "big_value limbs < 2 ^ len" "count \<le> len" "count \<le> 64"
  shows "unat (integer_float_top_bits limbs len count) = big_value limbs div 2 ^ (len - count)"
proof -
  have "big_value limbs div 2 ^ (len - count) < 2 ^ count"
    using assms(1,2) by (simp add: div_less_iff_less_mult flip: power_add)
  also have "\<dots> \<le> 2 ^ 64" by (rule power_increasing [OF assms(3)]) simp
  finally show ?thesis
    unfolding integer_float_top_bits_def
    by (intro top_bits_loop_value) (use assms in simp_all)
qed

section \<open>Rounding to even\<close>

text \<open>\<open>n\<close> divided by \<open>2 ^ k\<close>, rounded to the nearest integer, halves to the even one.\<close>

definition round_even :: "nat \<Rightarrow> nat \<Rightarrow> nat" where
  "round_even n k =
     n div 2 ^ k +
     (if 2 ^ k < 2 * (n mod 2 ^ k) \<or> 2 * (n mod 2 ^ k) = 2 ^ k \<and> odd (n div 2 ^ k) then 1 else 0)"

lemma round_even_bits:
  "round_even n k =
     n div 2 ^ k +
     (if k \<noteq> 0 \<and> bit n (k - 1) \<and> (n mod 2 ^ (k - 1) \<noteq> 0 \<or> odd (n div 2 ^ k)) then 1 else 0)"
proof (cases k)
  case 0
  then show ?thesis by (simp add: round_even_def)
next
  case (Suc j)
  have split: "n mod 2 ^ k = 2 ^ j * of_bool (bit n j) + n mod 2 ^ j"
  proof -
    have "n mod 2 ^ k = 2 ^ j * (n div 2 ^ j mod 2) + n mod 2 ^ j"
      unfolding Suc power_Suc2 by (rule mod_mult2_eq)
    then show ?thesis by (simp add: bit_iff_odd mod_2_eq_odd)
  qed
  define a b where "a = (2 :: nat) ^ j" "b = n mod 2 ^ j"
  have small: "b < a" and pow: "2 ^ k = 2 * a" by (simp_all add: Suc a_b_def)
  have md: "n mod 2 ^ k = a * of_bool (bit n j) + b" using split by (simp only: a_b_def)
  have up: "2 ^ k < 2 * (n mod 2 ^ k) \<longleftrightarrow> bit n j \<and> b \<noteq> 0"
    unfolding md unfolding pow using small by (cases "bit n j") simp_all
  have tie: "2 * (n mod 2 ^ k) = 2 ^ k \<longleftrightarrow> bit n j \<and> b = 0"
    unfolding md unfolding pow using small by (cases "bit n j") simp_all
  have "k \<noteq> 0" "k - 1 = j" using Suc by simp_all
  then show ?thesis unfolding round_even_def up tie a_b_def(2)
    by (cases "bit n j"; cases "n mod 2 ^ j = 0") (simp_all only: simp_thms)
qed

lemma round_even_nearest:
  fixes n k :: nat
  defines "m \<equiv> round_even n k"
  shows "2 * \<bar>int m * 2 ^ k - int n\<bar> \<le> 2 ^ k"
    and "2 * \<bar>int m * 2 ^ k - int n\<bar> = 2 ^ k \<Longrightarrow> even m"
proof -
  define q r where "q = n div 2 ^ k" "r = n mod 2 ^ k"
  define p where "p = (2 :: nat) ^ k"
  have n: "n = q * p + r" unfolding q_r_def p_def by (simp only: div_mult_mod_eq)
  have r: "r < p" by (simp add: q_r_def p_def)
  have pow: "(2 :: int) ^ k = int p" by (simp add: p_def)
  have up: "m = (if p < 2 * r \<or> 2 * r = p \<and> odd q then q + 1 else q)"
    by (simp add: m_def round_even_def q_r_def p_def)
  show "2 * \<bar>int m * 2 ^ k - int n\<bar> \<le> 2 ^ k"
    "2 * \<bar>int m * 2 ^ k - int n\<bar> = 2 ^ k \<Longrightarrow> even m"
    unfolding up pow n using r by (auto simp: algebra_simps split: if_splits)
qed

lemma nearest_multiple:
  fixes n k :: nat and j :: int
  defines "m \<equiv> round_even n k"
  assumes "j \<noteq> int m"
  shows "\<bar>int m * 2 ^ k - int n\<bar> \<le> \<bar>j * 2 ^ k - int n\<bar>"
    and "\<bar>int m * 2 ^ k - int n\<bar> = \<bar>j * 2 ^ k - int n\<bar> \<Longrightarrow> even m"
proof -
  note near = round_even_nearest [of n k, folded m_def]
  have "1 \<le> \<bar>j - int m\<bar>" using assms(2) by linarith
  then have "2 ^ k * 1 \<le> (2 :: int) ^ k * \<bar>j - int m\<bar>" by (intro mult_left_mono) simp_all
  also have "\<dots> = \<bar>j * 2 ^ k - int m * 2 ^ k\<bar>"
    by (simp add: abs_mult flip: left_diff_distrib)
  also have "\<dots> \<le> \<bar>j * 2 ^ k - int n\<bar> + \<bar>int m * 2 ^ k - int n\<bar>" by linarith
  finally have far: "2 ^ k \<le> \<bar>j * 2 ^ k - int n\<bar> + \<bar>int m * 2 ^ k - int n\<bar>" by simp
  have order: "a \<le> b" if "p \<le> b + a" "2 * a \<le> p" for a b p :: int using that by linarith
  show "\<bar>int m * 2 ^ k - int n\<bar> \<le> \<bar>j * 2 ^ k - int n\<bar>" by (rule order [OF far near(1)])
  assume "\<bar>int m * 2 ^ k - int n\<bar> = \<bar>j * 2 ^ k - int n\<bar>"
  then have "2 * \<bar>int m * 2 ^ k - int n\<bar> = 2 ^ k" using near(1) far by (intro antisym) simp_all
  then show "even m" by (rule near(2))
qed

lemma even_unat_word: "even (unat (x :: 'a :: len word)) \<longleftrightarrow> even x"
  by transfer (simp add: even_nat_iff even_take_bit_eq)

section \<open>The rounded significand\<close>

text \<open>The significand of 53 bits before a possible carry into a 54th.\<close>

definition significand_of :: "nat \<Rightarrow> nat \<Rightarrow> nat" where
  "significand_of n len = (if len < 53 then n * 2 ^ (53 - len) else round_even n (len - 53))"

lemma significand_bounds:
  assumes "0 < len" "2 ^ (len - 1) \<le> n" "n < 2 ^ len"
  shows "2 ^ 52 \<le> significand_of n len" "significand_of n len \<le> 2 ^ 53"
proof -
  have low: "2 ^ (len - 1) div 2 ^ (len - 53) \<le> n div 2 ^ (len - 53)" using assms(2) by (rule div_le_mono)
  show "2 ^ 52 \<le> significand_of n len"
  proof (cases "len < 53")
    case True
    have "(2 :: nat) ^ 52 = 2 ^ (len - 1) * 2 ^ (53 - len)"
      using assms(1) True by (simp flip: power_add)
    also have "\<dots> \<le> n * 2 ^ (53 - len)" using assms(2) by simp
    finally show ?thesis using True by (simp add: significand_of_def)
  next
    case False
    then have "len - 1 = 52 + (len - 53)" by simp
    then have "2 ^ (len - 1) div 2 ^ (len - 53) = (2 :: nat) ^ 52"
      by (simp only: power_add) simp
    then show ?thesis using low False by (simp add: significand_of_def round_even_def)
  qed
  show "significand_of n len \<le> 2 ^ 53"
  proof (cases "len < 53")
    case True
    have "n * 2 ^ (53 - len) \<le> 2 ^ len * 2 ^ (53 - len)" using assms(3) by simp
    also have "\<dots> = 2 ^ 53" using True by (simp flip: power_add)
    finally show ?thesis using True by (simp add: significand_of_def)
  next
    case False
    then have "len = 53 + (len - 53)" by simp
    then have "n < 2 ^ 53 * 2 ^ (len - 53)" using assms(3) by (metis power_add)
    then have "n div 2 ^ (len - 53) < 2 ^ 53" by (simp add: div_less_iff_less_mult)
    then show ?thesis using False by (simp add: significand_of_def round_even_def)
  qed
qed

lemma round_integer_value:
  assumes "normal limbs" "big_value limbs \<noteq> 0" "round_integer limbs len = (e, s)"
    and "len = integer_float_bit_length limbs"
  defines "m \<equiv> significand_of (big_value limbs) len"
  shows "if m = 2 ^ 53 then e = len \<and> unat s = 2 ^ 52 else e = len - 1 \<and> unat s = m"
proof -
  let ?n = "big_value limbs"
  note b = bit_length_bounds [OF assms(1,2), folded assms(4)]
  note m = significand_bounds [OF b, folded m_def]
  define retained where "retained = (if len < 53 then len else 53)"
  define top where "top = integer_float_top_bits limbs len retained"
  have retained: "retained \<le> len" "retained \<le> 64" by (auto simp: retained_def)
  have top: "unat top = ?n div 2 ^ (len - retained)"
    unfolding top_def by (rule top_bits_value [OF b(3) retained])
  define sig where "sig = (if retained < 53 then push_bit (53 - retained) top
    else if len - retained \<noteq> 0 \<and> integer_float_bit limbs (len - retained - 1) \<and>
        (integer_float_any_bits_below limbs (len - retained - 1) \<or> top AND 1 \<noteq> 0)
    then top + 1 else top)"
  have sig: "unat sig = m"
  proof (cases "len < 53")
    case True
    then have "retained = len" "m = ?n * 2 ^ (53 - len)" by (simp_all add: retained_def m_def significand_of_def)
    moreover have "?n * 2 ^ (53 - len) < 2 ^ 64" using m calculation(2) by simp
    then have "take_bit 64 (push_bit (53 - len) ?n) = ?n * 2 ^ (53 - len)"
      by (simp only: push_bit_eq_mult) (rule take_bit_nat_eq_self)
    ultimately show ?thesis using True top
      by (simp add: sig_def unsigned_push_bit_eq)
  next
    case False
    then have r: "retained = 53" "m = round_even ?n (len - 53)"
      by (simp_all add: retained_def m_def significand_of_def)
    have "top AND 1 \<noteq> 0 \<longleftrightarrow> odd (unat top)"
      by (simp add: and_one_eq odd_iff_mod_2_eq_one even_unat_word)
    then have "sig = (if len - 53 \<noteq> 0 \<and> bit ?n (len - 53 - 1) \<and>
        (?n mod 2 ^ (len - 53 - 1) \<noteq> 0 \<or> odd (?n div 2 ^ (len - 53))) then top + 1 else top)"
      using top r(1) by (simp add: sig_def integer_float_bit_iff any_bits_below_iff)
    moreover have "unat top + 1 < 2 ^ 64"
      using m r top by (simp add: round_even_def)
    ultimately show ?thesis using top r by (simp add: round_even_bits unat_word_ariths)
  qed
  have "round_integer limbs len = (if sig = push_bit 53 1 then (len - 1 + 1, drop_bit 1 sig) else (len - 1, sig))"
    unfolding round_integer_def Let_def INTEGER_FLOAT_PRECISION_def
      retained_def [symmetric] top_def [symmetric] sig_def [symmetric] by (rule refl)
  moreover have "sig = push_bit 53 1 \<longleftrightarrow> m = 2 ^ 53"
    using sig by (auto simp: word_unat_eq_iff)
  moreover have "unat (drop_bit 1 sig) = unat sig div 2" by (simp add: drop_bit_eq_div unat_div)
  ultimately show ?thesis using assms(3) sig b(1) by (auto split: if_splits)
qed

section \<open>Doubles\<close>

text \<open>
  The value of a finite double in units of \<open>2 ^ -1074\<close>, the smallest positive double: exponent
  field, fraction field and sign.
\<close>

definition double_exponent :: "u64 \<Rightarrow> nat" where
  "double_exponent b = unat b div 2 ^ 52 mod 2 ^ 11"

definition double_finite :: "u64 \<Rightarrow> bool" where
  "double_finite b \<longleftrightarrow> double_exponent b < 2047"

definition double_scaled :: "u64 \<Rightarrow> int" where
  "double_scaled b =
     (let e = double_exponent b; f = unat b mod 2 ^ 52;
          magnitude = (if e = 0 then f else (2 ^ 52 + f) * 2 ^ (e - 1))
      in if 2 ^ 63 \<le> unat b then - int magnitude else int magnitude)"

lemma double_scaled_cases:
  obtains (multiple) j where "double_scaled c = j * 2 ^ t"
  | (small) "double_scaled c < 2 ^ 52 * 2 ^ t"
proof -
  define e f where "e = double_exponent c" "f = unat c mod 2 ^ 52"
  define g where "g = (if e = 0 then f else 2 ^ 52 + f)"
  have f: "f < 2 ^ 52" by (simp add: e_f_def)
  have g: "g < 2 ^ 53" using f by (simp add: g_def)
  have mag: "(if e = 0 then f else (2 ^ 52 + f) * 2 ^ (e - 1)) = g * 2 ^ (e - 1)"
    by (simp add: g_def)
  have scaled: "double_scaled c = (if 2 ^ 63 \<le> unat c then - int (g * 2 ^ (e - 1)) else int (g * 2 ^ (e - 1)))"
    unfolding double_scaled_def Let_def e_f_def [symmetric] mag by (rule refl)
  show thesis
  proof (cases "t \<le> e - 1")
    case True
    have "(2 :: int) ^ (e - 1) = 2 ^ (e - 1 - t) * 2 ^ t"
      using True by (simp only: power_add [symmetric] le_add_diff_inverse2)
    then have "double_scaled c = (if 2 ^ 63 \<le> unat c then - int g * 2 ^ (e - 1 - t) else int g * 2 ^ (e - 1 - t)) * 2 ^ t"
      unfolding scaled by simp
    then show ?thesis by (rule multiple)
  next
    case False
    then have "(2 :: nat) ^ Suc (e - 1) \<le> 2 ^ t" by (intro power_increasing) simp_all
    have "g * 2 ^ (e - 1) < 2 ^ 53 * 2 ^ (e - 1)" using g by simp
    also have "\<dots> = 2 ^ 52 * 2 ^ Suc (e - 1)" by simp
    also have "\<dots> \<le> 2 ^ 52 * 2 ^ t" by (rule mult_le_mono2) fact
    finally have "int (g * 2 ^ (e - 1)) < int (2 ^ 52 * 2 ^ t)" by (simp only: of_nat_less_iff)
    then have "int (g * 2 ^ (e - 1)) < 2 ^ 52 * 2 ^ t" by simp
    then have "double_scaled c < 2 ^ 52 * 2 ^ t"
      unfolding scaled by (cases "2 ^ 63 \<le> unat c") (simp_all add: order.strict_trans1 [OF _ mult_pos_pos])
    then show ?thesis by (rule small)
  qed
qed

text \<open>A double put together from an exponent and a significand of 53 bits.\<close>

lemma packed_double:
  assumes "2 ^ 52 \<le> unat s" "unat s < 2 ^ 53" "e \<le> 1023"
  defines "b \<equiv> push_bit 52 (of_nat (e + 1023)) OR (s AND 0x000fffffffffffff) :: u64"
  shows "double_finite b" "double_scaled b = int (unat s * 2 ^ (e + 1022))" "even (unat b) \<longleftrightarrow> even (unat s)"
proof -
  define f where "f = unat s - 2 ^ 52"
  have s: "unat s = 2 ^ 52 + f" and f: "f < 2 ^ 52" using assms(1,2) by (simp_all add: f_def)
  have mask: "(0x000fffffffffffff :: u64) = mask 52" by (simp add: mask_eq_exp_minus_1)
  have low: "s AND 0x000fffffffffffff = take_bit 52 s" unfolding mask by (simp add: take_bit_eq_mask)
  have flow: "unat (take_bit 52 s) = f"
    using f by (simp only: unsigned_take_bit_eq) (simp add: take_bit_eq_mod s)
  have high: "unat (push_bit 52 (of_nat (e + 1023)) :: u64) = (e + 1023) * 2 ^ 52"
  proof -
    have "(e + 1023) * 2 ^ 52 < 2 ^ 64" using assms(3) by simp
    then have "push_bit 52 (of_nat (e + 1023)) = (of_nat ((e + 1023) * 2 ^ 52) :: u64)"
      by (simp add: push_bit_eq_mult)
    also have "unat \<dots> = (e + 1023) * 2 ^ 52"
      unfolding unat_of_nat using \<open>_ < 2 ^ 64\<close> by (intro mod_less) simp
    finally show ?thesis .
  qed
  have disjoint: "push_bit 52 (of_nat (e + 1023)) AND take_bit 52 s = (0 :: u64)"
    by (rule bit_eqI) (simp add: bit_and_iff bit_push_bit_iff bit_take_bit_iff)
  have b: "unat b = (e + 1023) * 2 ^ 52 + f"
  proof -
    have "b = push_bit 52 (of_nat (e + 1023)) + take_bit 52 s"
      unfolding b_def low by (rule disjunctive_add_eq_or [OF disjoint, symmetric])
    moreover have "(e + 1023) * 2 ^ 52 + f < 2 ^ 64" using assms(3) f by simp
    ultimately show ?thesis using high flow by (simp add: unat_word_ariths)
  qed
  have "unat b div 2 ^ 52 = e + 1023" "unat b mod 2 ^ 52 = f"
    unfolding b using f by (simp_all only: div_mult_self3 mod_mult_self3) simp_all
  moreover from this have "double_exponent b = e + 1023" using assms(3) by (simp add: double_exponent_def)
  moreover have "\<not> 2 ^ 63 \<le> unat b" using b f assms(3) by simp
  ultimately show "double_finite b" "double_scaled b = int (unat s * 2 ^ (e + 1022))"
    using assms(3) by (simp_all add: double_finite_def double_scaled_def Let_def s)
  show "even (unat b) \<longleftrightarrow> even (unat s)" unfolding b s by simp
qed

section \<open>The conversion is correctly rounded\<close>

lemma literal_parts:
  assumes "base \<noteq> 0"
  obtains (large) "collect_digits [] base digits = None" "2 ^ 1088 \<le> literal_value 0 base digits"
  | (fits) limbs where "collect_digits [] base digits = Some limbs"
      "big_value limbs = literal_value 0 base digits" "normal limbs"
proof (cases "collect_digits [] base digits")
  case None
  have "2 ^ 1088 \<le> literal_value 0 base digits"
    using collect_digits_value [OF None assms]
    by (simp only: INTEGER_FLOAT_LIMBS_def) (simp add: normal_def)
  then show ?thesis by (rule large [OF None])
next
  case (Some limbs)
  then show ?thesis
    using collect_digits_value [OF Some assms] fits by (simp add: normal_def)
qed

text \<open>What the conversion returns for the number \<open>n > 0\<close> of \<open>len\<close> bits.\<close>

lemma conversion_result:
  assumes "normal limbs" "collect_digits [] base digits = Some limbs" "big_value limbs = n" "n \<noteq> 0"
  obtains len where "0 < len" "2 ^ (len - 1) \<le> n" "n < 2 ^ len"
    "if 1024 < len \<or> len = 1024 \<and> significand_of n len = 2 ^ 53
     then pphp_integer_digits_to_float digits base = integer_float_infinity
     else double_finite (pphp_integer_digits_to_float digits base) \<and>
       double_scaled (pphp_integer_digits_to_float digits base) =
         int (significand_of n len * 2 ^ (len + 1021)) \<and>
       (even (significand_of n len) \<longrightarrow> even (unat (pphp_integer_digits_to_float digits base)))"
proof -
  let ?r = "pphp_integer_digits_to_float digits base"
  define len where "len = integer_float_bit_length limbs"
  have nz: "big_value limbs \<noteq> 0" using assms by simp
  note b = bit_length_bounds [OF assms(1) nz, folded len_def, unfolded assms(3)]
  obtain e s where round: "round_integer limbs len = (e, s)" by (cases "round_integer limbs len")
  let ?m = "significand_of n len"
  note m = significand_bounds [OF b]
  note v = round_integer_value [OF assms(1) nz round len_def, unfolded assms(3)]
  have r: "?r = (if 1023 < e then integer_float_infinity
      else push_bit 52 (of_nat (e + 1023)) OR (s AND 0x000fffffffffffff))"
    using assms(2) round b(1)
    by (simp add: pphp_integer_digits_to_float_def INTEGER_FLOAT_MAX_EXPONENT_def Let_def flip: len_def)
  have over: "1023 < e \<longleftrightarrow> 1024 < len \<or> len = 1024 \<and> ?m = 2 ^ 53"
    using v b(1) by (auto split: if_splits)
  have s: "2 ^ 52 \<le> unat s" "unat s < 2 ^ 53" using v m by (auto split: if_splits)
  have scaled: "unat s * 2 ^ (e + 1022) = ?m * 2 ^ (len + 1021)"
  proof (cases "?m = 2 ^ 53")
    case True
    then have "e + 1022 = Suc (len + 1021)" "unat s = 2 ^ 52" using v by simp_all
    then show ?thesis using True by (simp only: power_Suc) simp
  next
    case False
    then have "e + 1022 = len + 1021" "unat s = ?m" using v b(1) by simp_all
    then show ?thesis by simp
  qed
  have "even ?m \<longrightarrow> even (unat s)" using v by (auto split: if_splits)
  then have "if 1024 < len \<or> len = 1024 \<and> ?m = 2 ^ 53 then ?r = integer_float_infinity
     else double_finite ?r \<and> double_scaled ?r = int (?m * 2 ^ (len + 1021)) \<and> (even ?m \<longrightarrow> even (unat ?r))"
    unfolding r over [symmetric] scaled [symmetric] using packed_double [OF s, of e]
    by (cases "1023 < e") simp_all
  then show thesis by (rule that [OF b])
qed

lemma significand_overflow:
  assumes "2 ^ 1023 \<le> n" "n < 2 ^ 1024"
  shows "significand_of n 1024 = 2 ^ 53 \<longleftrightarrow> 2 ^ 1024 - 2 ^ 970 \<le> n"
proof -
  define h q r where "h = (2 :: nat) ^ 970" "q = n div 2 ^ 971" "r = n mod 2 ^ 971"
  have pow: "(2 :: nat) ^ 971 = 2 * h" "(2 :: nat) ^ 1024 = 2 ^ 54 * h"
    by (simp_all add: h_q_r_def flip: power_Suc power_add)
  have "n = q * 2 ^ 971 + r" unfolding h_q_r_def(2,3) by (simp only: div_mult_mod_eq)
  then have n: "n = q * (2 * h) + r" by (simp only: pow)
  have h: "0 < h" by (simp add: h_q_r_def)
  have r: "r < 2 * h" unfolding h_q_r_def(3) pow [symmetric] by simp
  have q: "q < 2 ^ 53"
  proof (rule ccontr)
    assume "\<not> q < 2 ^ 53"
    then have "2 ^ 53 * (2 * h) \<le> q * (2 * h)" by (intro mult_le_mono1) simp
    moreover have "(2 :: nat) ^ 53 * (2 * h) = 2 ^ 54 * h" by simp
    ultimately have "2 ^ 54 * h \<le> n" unfolding n by (simp only: trans_le_add1)
    then show False using assms(2) unfolding pow(2) [symmetric] by (simp only: not_le [symmetric] simp_thms)
  qed
  have m: "significand_of n 1024 = q + (if 2 * h < 2 * r \<or> 2 * r = 2 * h \<and> odd q then 1 else 0)"
    by (simp add: significand_of_def round_even_def h_q_r_def(2,3) pow(1) [symmetric])
  show ?thesis
  proof (cases "q = 2 ^ 53 - 1")
    case True
    then have "odd q" by simp
    then show ?thesis unfolding m pow(2) h_q_r_def(1) [symmetric] unfolding n using h True by auto
  next
    case False
    then have "q + 1 \<le> 2 ^ 53 - 1" using q by simp
    then have "(q + 1) * (2 * h) \<le> (2 ^ 53 - 1) * (2 * h)" by (rule mult_le_mono1)
    moreover have "n < (q + 1) * (2 * h)" using n r by simp
    ultimately have "n < (2 ^ 53 - 1) * (2 * h)" by (rule order.strict_trans2 [rotated])
    moreover have "significand_of n 1024 \<noteq> 2 ^ 53" unfolding m using \<open>q + 1 \<le> _\<close> by simp
    ultimately show ?thesis unfolding pow(2) h_q_r_def(1) [symmetric] using h by simp
  qed
qed

lemma conversion_infinite:
  assumes "base \<noteq> 0"
  shows "pphp_integer_digits_to_float digits base = integer_float_infinity \<longleftrightarrow>
    2 ^ 1024 - 2 ^ 970 \<le> literal_value 0 base digits"
proof -
  have inf: "\<not> double_finite integer_float_infinity"
    by (simp add: double_finite_def double_exponent_def integer_float_infinity_def)
  from assms show ?thesis
  proof (cases rule: literal_parts [of base digits])
    case large
    have "(2 :: nat) ^ 1024 - 2 ^ 970 \<le> 2 ^ 1088" by simp
    then show ?thesis using large by (simp add: pphp_integer_digits_to_float_def)
  next
    case (fits limbs)
    define n where "n = literal_value 0 base digits"
    show ?thesis
    proof (cases "n = 0")
      case True
      then have "integer_float_bit_length limbs = 0" using fits bit_length_zero by (simp add: n_def)
      then have "pphp_integer_digits_to_float digits base = 0"
        using fits(1) by (simp add: pphp_integer_digits_to_float_def)
      then show ?thesis using True by (simp add: n_def integer_float_infinity_def)
    next
      case False
      obtain len where len: "2 ^ (len - 1) \<le> n" "n < 2 ^ len"
        and r: "if 1024 < len \<or> len = 1024 \<and> significand_of n len = 2 ^ 53
          then pphp_integer_digits_to_float digits base = integer_float_infinity
          else double_finite (pphp_integer_digits_to_float digits base)"
        using conversion_result [OF fits(3,1) fits(2) [folded n_def] False] by (metis (no_types))
      consider "1024 < len" | "len = 1024" | "len < 1024" by linarith
      then show ?thesis
      proof cases
        case 1
        have "(2 :: nat) ^ 1024 \<le> 2 ^ (len - 1)" by (rule power_increasing) (use 1 in simp_all)
        then have "2 ^ 1024 - 2 ^ 970 \<le> n" using len(1) by linarith
        then show ?thesis using r 1 by (simp add: n_def)
      next
        case 2
        then have "2 ^ 1023 \<le> n" "n < 2 ^ 1024" using len by simp_all
        note over = significand_overflow [OF this]
        show ?thesis unfolding n_def [symmetric] over [symmetric] using r 2 inf
          by (cases "significand_of n 1024 = 2 ^ 53") auto
      next
        case 3
        have "(2 :: nat) ^ len \<le> 2 ^ 1023" by (rule power_increasing) (use 3 in simp_all)
        also have "\<dots> < 2 ^ 1024 - 2 ^ 970" by simp
        finally have "\<not> 2 ^ 1024 - 2 ^ 970 \<le> n" using len(2) by linarith
        then show ?thesis unfolding n_def [symmetric] using r 3 inf by auto
      qed
    qed
  qed
qed

text \<open>
  A significand rounded to even is nearer than every other double.  The doubles below
  \<open>2 ^ 52\<close> units are farther away than \<open>2 ^ 52\<close> units.
\<close>

lemma rounded_nearest:
  fixes n len :: nat and c :: u64
  assumes "53 \<le> len" "2 ^ (len - 1) \<le> n"
  defines "m \<equiv> significand_of n len"
  defines "v \<equiv> int (m * 2 ^ (len + 1021))" and "N \<equiv> int (n * 2 ^ 1074)"
  shows "\<bar>v - N\<bar> \<le> \<bar>double_scaled c - N\<bar> \<and>
    (\<bar>v - N\<bar> = \<bar>double_scaled c - N\<bar> \<and> double_scaled c \<noteq> v \<longrightarrow> even m)"
proof -
  define k where "k = len - 53"
  define z where "z = (2 :: int) ^ 1074"
  have z: "0 < z" by (simp add: z_def)
  have m: "m = round_even n k" using assms(1) by (simp add: m_def significand_of_def k_def)
  have "len + 1021 = k + 1074" using assms(1) by (simp add: k_def)
  then have unit: "(2 :: int) ^ (len + 1021) = 2 ^ k * z" by (simp only: z_def power_add)
  have v: "v = (int m * 2 ^ k) * z" unfolding v_def of_nat_mult of_nat_power of_nat_numeral unit by simp
  have N: "N = int n * z" by (simp add: N_def z_def)
  have dist: "\<bar>j * (2 ^ k * z) - N\<bar> = \<bar>j * 2 ^ k - int n\<bar> * z" for j
  proof -
    have "j * (2 ^ k * z) - N = (j * 2 ^ k - int n) * z" by (simp add: N algebra_simps)
    then show ?thesis using z by (simp add: abs_mult)
  qed
  have near: "\<bar>v - N\<bar> \<le> \<bar>j * (2 ^ k * z) - N\<bar> \<and>
      (\<bar>v - N\<bar> = \<bar>j * (2 ^ k * z) - N\<bar> \<and> j * (2 ^ k * z) \<noteq> v \<longrightarrow> even m)" for j
  proof (cases "j = int m")
    case True
    then show ?thesis by (simp add: v)
  next
    case False
    have vm: "v = int m * (2 ^ k * z)" by (simp add: v)
    show ?thesis
      unfolding vm dist m
      using nearest_multiple [OF False [unfolded m]] z by simp
  qed
  show ?thesis
  proof (cases rule: double_scaled_cases [of c "k + 1074"])
    case (multiple j)
    then have "double_scaled c = j * (2 ^ k * z)" by (simp only: z_def power_add)
    then show ?thesis using near [of j] by simp
  next
    case small
    then have c: "double_scaled c < 2 ^ 52 * (2 ^ k * z)" by (simp only: z_def power_add)
    have "len - 1 = 52 + k" using assms(1) by (simp add: k_def)
    then have "(2 :: nat) ^ 52 * 2 ^ k = 2 ^ (len - 1)" by (simp only: power_add)
    then have "2 ^ 52 * 2 ^ k \<le> n" using assms(2) by simp
    then have "int (2 ^ 52 * 2 ^ k) \<le> int n" by (simp only: of_nat_le_iff)
    then have "(2 ^ 52 * 2 ^ k) * z \<le> N" unfolding N using z by (intro mult_right_mono) simp_all
    then have base: "2 ^ 52 * (2 ^ k * z) \<le> N" by (simp only: mult.assoc)
    have order: "a \<le> \<bar>y - N\<bar> \<and> a \<noteq> \<bar>y - N\<bar>" if "a \<le> \<bar>x - N\<bar>" "x \<le> N" "y < x" for a x y
      using that by linarith
    show ?thesis using order [OF conjunct1 [OF near] base c] by simp
  qed
qed

text \<open>
  C28.  A decimal, hexadecimal, octal or binary integer literal that is too large for an integer
  becomes the double nearest to it.  Exactly from half a unit above the largest double on it
  becomes infinity; below, no double is nearer, and when another double is equally near the
  one with an even significand is chosen.
\<close>

theorem integer_digits_correctly_rounded:
  fixes digits :: bytes
  assumes "base \<noteq> 0"
  defines "r \<equiv> pphp_integer_digits_to_float digits base"
    and "N \<equiv> int (literal_value 0 base digits * 2 ^ 1074)"
  shows "(r = integer_float_infinity \<longleftrightarrow> 2 ^ 1024 - 2 ^ 970 \<le> literal_value 0 base digits) \<and>
    (r \<noteq> integer_float_infinity \<longrightarrow> double_finite r \<and>
      (\<forall>c. \<bar>double_scaled r - N\<bar> \<le> \<bar>double_scaled c - N\<bar> \<and>
        (\<bar>double_scaled r - N\<bar> = \<bar>double_scaled c - N\<bar> \<and> double_scaled c \<noteq> double_scaled r \<longrightarrow>
          even (unat r))))"
proof (intro conjI impI allI)
  show "r = integer_float_infinity \<longleftrightarrow> 2 ^ 1024 - 2 ^ 970 \<le> literal_value 0 base digits"
    unfolding r_def by (rule conversion_infinite [OF assms(1)])
  assume finite: "r \<noteq> integer_float_infinity"
  define n where "n = literal_value 0 base digits"
  from assms(1) have "double_finite r \<and> (double_scaled r = N \<or>
    (\<exists>len. 53 \<le> len \<and> 2 ^ (len - 1) \<le> n \<and> double_scaled r = int (significand_of n len * 2 ^ (len + 1021)) \<and>
      (even (significand_of n len) \<longrightarrow> even (unat r))))"
  proof (cases rule: literal_parts [of base digits])
    case large
    then show ?thesis using finite by (simp add: r_def pphp_integer_digits_to_float_def)
  next
    case (fits limbs)
    show ?thesis
    proof (cases "n = 0")
      case True
      then have "r = 0"
        using fits bit_length_zero by (simp add: r_def n_def pphp_integer_digits_to_float_def)
      then show ?thesis using True
        by (simp add: N_def n_def double_finite_def double_exponent_def double_scaled_def)
    next
      case False
      obtain len where "2 ^ (len - 1) \<le> n" and v: "double_finite r"
        "double_scaled r = int (significand_of n len * 2 ^ (len + 1021))"
        "even (significand_of n len) \<longrightarrow> even (unat r)"
        using conversion_result [OF fits(3,1) fits(2) [folded n_def] False, folded r_def] finite
        by metis
      moreover have "double_scaled r = N" if "len < 53"
      proof -
        have "significand_of n len * 2 ^ (len + 1021) = n * (2 ^ (53 - len) * 2 ^ (len + 1021))"
          using that by (simp add: significand_of_def)
        also have "\<dots> = n * 2 ^ 1074" using that by (simp flip: power_add)
        finally show ?thesis using v(2) by (simp add: N_def n_def)
      qed
      ultimately show ?thesis by (meson not_less)
    qed
  qed
  then show "double_finite r"
    and "\<bar>double_scaled r - N\<bar> \<le> \<bar>double_scaled c - N\<bar>"
    and "\<bar>double_scaled r - N\<bar> = \<bar>double_scaled c - N\<bar> \<and> double_scaled c \<noteq> double_scaled r \<Longrightarrow>
      even (unat r)" for c
    using rounded_nearest [of _ n c, folded N_def [folded n_def]] by (elim conjE disjE exE; simp)+
qed

lemma integer_digits_correctly_rounded_witness:
  "literal_value 0 10 ''9_1'' = 91 \<and> double_finite (pphp_integer_digits_to_float ''9_1'' 10) \<and>
    \<bar>double_scaled (pphp_integer_digits_to_float ''9_1'' 10) - int (91 * 2 ^ 1074)\<bar> \<le>
    \<bar>double_scaled 0 - int (91 * 2 ^ 1074)\<bar>"
proof -
  have number: "literal_value 0 10 ''9_1'' = 91" by (simp add: integer_float_digit_def is_digit_def ord_def)
  have "(10 :: u32) \<noteq> 0" by simp
  note * = integer_digits_correctly_rounded [OF this, of "''9_1''", unfolded number]
  have "\<not> (2 :: nat) ^ 1024 - 2 ^ 970 \<le> 91" by simp
  then show ?thesis using * number by blast
qed

end
