(* ===== verification/LexerToken.thy ===== *)
theory LexerToken
  imports Prelude
begin

text \<open>
  The token types of \<open>compiler/lexer.h\<close>, their names, and the keyword table of
  \<open>compiler/lexer.c\<close> with its case-insensitive search.  A token type is the number the
  enumeration gives it; \<open>token_defs\<close> collects the numbers.
\<close>

named_theorems token_defs \<open>the numbers of the token types\<close>

type_synonym pc_token_type = nat

section \<open>Token types\<close>

definition T_EOF :: pc_token_type where [token_defs]: "T_EOF = 0"
definition T_ERROR :: pc_token_type where [token_defs]: "T_ERROR = 1"
definition T_INLINE_HTML :: pc_token_type where [token_defs]: "T_INLINE_HTML = 2"
definition T_OPEN_TAG :: pc_token_type where [token_defs]: "T_OPEN_TAG = 3"
definition T_OPEN_TAG_ECHO :: pc_token_type where [token_defs]: "T_OPEN_TAG_ECHO = 4"
definition T_CLOSE_TAG :: pc_token_type where [token_defs]: "T_CLOSE_TAG = 5"
definition T_IDENTIFIER :: pc_token_type where [token_defs]: "T_IDENTIFIER = 6"
definition T_VARIABLE :: pc_token_type where [token_defs]: "T_VARIABLE = 7"
definition T_INTEGER :: pc_token_type where [token_defs]: "T_INTEGER = 8"
definition T_FLOAT :: pc_token_type where [token_defs]: "T_FLOAT = 9"
definition T_SINGLE_QUOTED :: pc_token_type where [token_defs]: "T_SINGLE_QUOTED = 10"
definition T_DOUBLE_QUOTED :: pc_token_type where [token_defs]: "T_DOUBLE_QUOTED = 11"
definition T_HEREDOC :: pc_token_type where [token_defs]: "T_HEREDOC = 12"
definition T_NOWDOC :: pc_token_type where [token_defs]: "T_NOWDOC = 13"
definition T_INTERP_START :: pc_token_type where [token_defs]: "T_INTERP_START = 14"
definition T_INTERP_PART :: pc_token_type where [token_defs]: "T_INTERP_PART = 15"
definition T_INTERP_EXPR_START :: pc_token_type where [token_defs]: "T_INTERP_EXPR_START = 16"
definition T_INTERP_EXPR_END :: pc_token_type where [token_defs]: "T_INTERP_EXPR_END = 17"
definition T_INTERP_END :: pc_token_type where [token_defs]: "T_INTERP_END = 18"
definition T_LPAREN :: pc_token_type where [token_defs]: "T_LPAREN = 19"
definition T_RPAREN :: pc_token_type where [token_defs]: "T_RPAREN = 20"
definition T_LBRACE :: pc_token_type where [token_defs]: "T_LBRACE = 21"
definition T_RBRACE :: pc_token_type where [token_defs]: "T_RBRACE = 22"
definition T_LBRACKET :: pc_token_type where [token_defs]: "T_LBRACKET = 23"
definition T_RBRACKET :: pc_token_type where [token_defs]: "T_RBRACKET = 24"
definition T_SEMICOLON :: pc_token_type where [token_defs]: "T_SEMICOLON = 25"
definition T_COLON :: pc_token_type where [token_defs]: "T_COLON = 26"
definition T_COMMA :: pc_token_type where [token_defs]: "T_COMMA = 27"
definition T_DOT :: pc_token_type where [token_defs]: "T_DOT = 28"
definition T_QUESTION :: pc_token_type where [token_defs]: "T_QUESTION = 29"
definition T_PLUS :: pc_token_type where [token_defs]: "T_PLUS = 30"
definition T_MINUS :: pc_token_type where [token_defs]: "T_MINUS = 31"
definition T_STAR :: pc_token_type where [token_defs]: "T_STAR = 32"
definition T_SLASH :: pc_token_type where [token_defs]: "T_SLASH = 33"
definition T_PERCENT :: pc_token_type where [token_defs]: "T_PERCENT = 34"
definition T_AMP :: pc_token_type where [token_defs]: "T_AMP = 35"
definition T_PIPE :: pc_token_type where [token_defs]: "T_PIPE = 36"
definition T_CARET :: pc_token_type where [token_defs]: "T_CARET = 37"
definition T_TILDE :: pc_token_type where [token_defs]: "T_TILDE = 38"
definition T_BANG :: pc_token_type where [token_defs]: "T_BANG = 39"
definition T_EQUAL :: pc_token_type where [token_defs]: "T_EQUAL = 40"
definition T_LT :: pc_token_type where [token_defs]: "T_LT = 41"
definition T_GT :: pc_token_type where [token_defs]: "T_GT = 42"
definition T_PLUS_PLUS :: pc_token_type where [token_defs]: "T_PLUS_PLUS = 43"
definition T_MINUS_MINUS :: pc_token_type where [token_defs]: "T_MINUS_MINUS = 44"
definition T_POW :: pc_token_type where [token_defs]: "T_POW = 45"
definition T_EQUAL_EQUAL :: pc_token_type where [token_defs]: "T_EQUAL_EQUAL = 46"
definition T_NOT_EQUAL :: pc_token_type where [token_defs]: "T_NOT_EQUAL = 47"
definition T_IDENTICAL :: pc_token_type where [token_defs]: "T_IDENTICAL = 48"
definition T_NOT_IDENTICAL :: pc_token_type where [token_defs]: "T_NOT_IDENTICAL = 49"
definition T_LT_EQUAL :: pc_token_type where [token_defs]: "T_LT_EQUAL = 50"
definition T_GT_EQUAL :: pc_token_type where [token_defs]: "T_GT_EQUAL = 51"
definition T_SPACESHIP :: pc_token_type where [token_defs]: "T_SPACESHIP = 52"
definition T_BOOL_AND :: pc_token_type where [token_defs]: "T_BOOL_AND = 53"
definition T_BOOL_OR :: pc_token_type where [token_defs]: "T_BOOL_OR = 54"
definition T_COALESCE :: pc_token_type where [token_defs]: "T_COALESCE = 55"
definition T_NULLSAFE_ARROW :: pc_token_type where [token_defs]: "T_NULLSAFE_ARROW = 56"
definition T_ARROW :: pc_token_type where [token_defs]: "T_ARROW = 57"
definition T_DOUBLE_ARROW :: pc_token_type where [token_defs]: "T_DOUBLE_ARROW = 58"
definition T_SCOPE :: pc_token_type where [token_defs]: "T_SCOPE = 59"
definition T_SHIFT_LEFT :: pc_token_type where [token_defs]: "T_SHIFT_LEFT = 60"
definition T_SHIFT_RIGHT :: pc_token_type where [token_defs]: "T_SHIFT_RIGHT = 61"
definition T_PLUS_EQUAL :: pc_token_type where [token_defs]: "T_PLUS_EQUAL = 62"
definition T_MINUS_EQUAL :: pc_token_type where [token_defs]: "T_MINUS_EQUAL = 63"
definition T_STAR_EQUAL :: pc_token_type where [token_defs]: "T_STAR_EQUAL = 64"
definition T_SLASH_EQUAL :: pc_token_type where [token_defs]: "T_SLASH_EQUAL = 65"
definition T_DOT_EQUAL :: pc_token_type where [token_defs]: "T_DOT_EQUAL = 66"
definition T_PERCENT_EQUAL :: pc_token_type where [token_defs]: "T_PERCENT_EQUAL = 67"
definition T_POW_EQUAL :: pc_token_type where [token_defs]: "T_POW_EQUAL = 68"
definition T_AMP_EQUAL :: pc_token_type where [token_defs]: "T_AMP_EQUAL = 69"
definition T_PIPE_EQUAL :: pc_token_type where [token_defs]: "T_PIPE_EQUAL = 70"
definition T_CARET_EQUAL :: pc_token_type where [token_defs]: "T_CARET_EQUAL = 71"
definition T_SHIFT_LEFT_EQUAL :: pc_token_type where [token_defs]: "T_SHIFT_LEFT_EQUAL = 72"
definition T_SHIFT_RIGHT_EQUAL :: pc_token_type where [token_defs]: "T_SHIFT_RIGHT_EQUAL = 73"
definition T_COALESCE_EQUAL :: pc_token_type where [token_defs]: "T_COALESCE_EQUAL = 74"
definition T_ELLIPSIS :: pc_token_type where [token_defs]: "T_ELLIPSIS = 75"
definition T_ABSTRACT :: pc_token_type where [token_defs]: "T_ABSTRACT = 76"
definition T_AND :: pc_token_type where [token_defs]: "T_AND = 77"
definition T_ARRAY :: pc_token_type where [token_defs]: "T_ARRAY = 78"
definition T_AS :: pc_token_type where [token_defs]: "T_AS = 79"
definition T_BREAK :: pc_token_type where [token_defs]: "T_BREAK = 80"
definition T_CALLABLE :: pc_token_type where [token_defs]: "T_CALLABLE = 81"
definition T_CASE :: pc_token_type where [token_defs]: "T_CASE = 82"
definition T_CATCH :: pc_token_type where [token_defs]: "T_CATCH = 83"
definition T_CLASS :: pc_token_type where [token_defs]: "T_CLASS = 84"
definition T_CLONE :: pc_token_type where [token_defs]: "T_CLONE = 85"
definition T_CONST :: pc_token_type where [token_defs]: "T_CONST = 86"
definition T_CONTINUE :: pc_token_type where [token_defs]: "T_CONTINUE = 87"
definition T_DECLARE :: pc_token_type where [token_defs]: "T_DECLARE = 88"
definition T_DEFAULT :: pc_token_type where [token_defs]: "T_DEFAULT = 89"
definition T_DO :: pc_token_type where [token_defs]: "T_DO = 90"
definition T_ECHO :: pc_token_type where [token_defs]: "T_ECHO = 91"
definition T_ELSE :: pc_token_type where [token_defs]: "T_ELSE = 92"
definition T_ELSEIF :: pc_token_type where [token_defs]: "T_ELSEIF = 93"
definition T_EMPTY :: pc_token_type where [token_defs]: "T_EMPTY = 94"
definition T_ENDDECLARE :: pc_token_type where [token_defs]: "T_ENDDECLARE = 95"
definition T_ENDFOR :: pc_token_type where [token_defs]: "T_ENDFOR = 96"
definition T_ENDFOREACH :: pc_token_type where [token_defs]: "T_ENDFOREACH = 97"
definition T_ENDIF :: pc_token_type where [token_defs]: "T_ENDIF = 98"
definition T_ENDSWITCH :: pc_token_type where [token_defs]: "T_ENDSWITCH = 99"
definition T_ENDWHILE :: pc_token_type where [token_defs]: "T_ENDWHILE = 100"
definition T_ENUM :: pc_token_type where [token_defs]: "T_ENUM = 101"
definition T_EXTENDS :: pc_token_type where [token_defs]: "T_EXTENDS = 102"
definition T_FINAL :: pc_token_type where [token_defs]: "T_FINAL = 103"
definition T_FINALLY :: pc_token_type where [token_defs]: "T_FINALLY = 104"
definition T_FN :: pc_token_type where [token_defs]: "T_FN = 105"
definition T_FOR :: pc_token_type where [token_defs]: "T_FOR = 106"
definition T_FOREACH :: pc_token_type where [token_defs]: "T_FOREACH = 107"
definition T_FUNCTION :: pc_token_type where [token_defs]: "T_FUNCTION = 108"
definition T_GLOBAL :: pc_token_type where [token_defs]: "T_GLOBAL = 109"
definition T_GOTO :: pc_token_type where [token_defs]: "T_GOTO = 110"
definition T_IF :: pc_token_type where [token_defs]: "T_IF = 111"
definition T_IMPLEMENTS :: pc_token_type where [token_defs]: "T_IMPLEMENTS = 112"
definition T_INCLUDE :: pc_token_type where [token_defs]: "T_INCLUDE = 113"
definition T_INCLUDE_ONCE :: pc_token_type where [token_defs]: "T_INCLUDE_ONCE = 114"
definition T_INSTANCEOF :: pc_token_type where [token_defs]: "T_INSTANCEOF = 115"
definition T_INSTEADOF :: pc_token_type where [token_defs]: "T_INSTEADOF = 116"
definition T_INTERFACE :: pc_token_type where [token_defs]: "T_INTERFACE = 117"
definition T_ISSET :: pc_token_type where [token_defs]: "T_ISSET = 118"
definition T_LIST :: pc_token_type where [token_defs]: "T_LIST = 119"
definition T_MATCH :: pc_token_type where [token_defs]: "T_MATCH = 120"
definition T_NAMESPACE :: pc_token_type where [token_defs]: "T_NAMESPACE = 121"
definition T_NEW :: pc_token_type where [token_defs]: "T_NEW = 122"
definition T_OR :: pc_token_type where [token_defs]: "T_OR = 123"
definition T_PRINT :: pc_token_type where [token_defs]: "T_PRINT = 124"
definition T_PRIVATE :: pc_token_type where [token_defs]: "T_PRIVATE = 125"
definition T_PROTECTED :: pc_token_type where [token_defs]: "T_PROTECTED = 126"
definition T_PUBLIC :: pc_token_type where [token_defs]: "T_PUBLIC = 127"
definition T_READONLY :: pc_token_type where [token_defs]: "T_READONLY = 128"
definition T_REQUIRE :: pc_token_type where [token_defs]: "T_REQUIRE = 129"
definition T_REQUIRE_ONCE :: pc_token_type where [token_defs]: "T_REQUIRE_ONCE = 130"
definition T_RETURN :: pc_token_type where [token_defs]: "T_RETURN = 131"
definition T_STATIC :: pc_token_type where [token_defs]: "T_STATIC = 132"
definition T_SWITCH :: pc_token_type where [token_defs]: "T_SWITCH = 133"
definition T_THROW :: pc_token_type where [token_defs]: "T_THROW = 134"
definition T_TRAIT :: pc_token_type where [token_defs]: "T_TRAIT = 135"
definition T_TRY :: pc_token_type where [token_defs]: "T_TRY = 136"
definition T_UNSET :: pc_token_type where [token_defs]: "T_UNSET = 137"
definition T_USE :: pc_token_type where [token_defs]: "T_USE = 138"
definition T_VAR :: pc_token_type where [token_defs]: "T_VAR = 139"
definition T_WHILE :: pc_token_type where [token_defs]: "T_WHILE = 140"
definition T_XOR :: pc_token_type where [token_defs]: "T_XOR = 141"
definition T_YIELD :: pc_token_type where [token_defs]: "T_YIELD = 142"
definition T_TRUE :: pc_token_type where [token_defs]: "T_TRUE = 143"
definition T_FALSE :: pc_token_type where [token_defs]: "T_FALSE = 144"
definition T_NULL :: pc_token_type where [token_defs]: "T_NULL = 145"
definition T_INT_TYPE :: pc_token_type where [token_defs]: "T_INT_TYPE = 146"
definition T_FLOAT_TYPE :: pc_token_type where [token_defs]: "T_FLOAT_TYPE = 147"
definition T_STRING_TYPE :: pc_token_type where [token_defs]: "T_STRING_TYPE = 148"
definition T_BOOL_TYPE :: pc_token_type where [token_defs]: "T_BOOL_TYPE = 149"
definition T_VOID :: pc_token_type where [token_defs]: "T_VOID = 150"
definition T_MIXED :: pc_token_type where [token_defs]: "T_MIXED = 151"
definition T_NEVER :: pc_token_type where [token_defs]: "T_NEVER = 152"
definition T_SELF :: pc_token_type where [token_defs]: "T_SELF = 153"
definition T_PARENT :: pc_token_type where [token_defs]: "T_PARENT = 154"

definition token_names :: "bytes list" where
  "token_names = [
    ''EOF'', ''ERROR'', ''INLINE_HTML'', ''OPEN_TAG'', ''OPEN_TAG_ECHO'', ''CLOSE_TAG'',
    ''IDENTIFIER'', ''VARIABLE'', ''INTEGER'', ''FLOAT'', ''SINGLE_QUOTED'', ''DOUBLE_QUOTED'',
    ''HEREDOC'', ''NOWDOC'', ''INTERP_START'', ''INTERP_PART'', ''INTERP_EXPR_START'',
    ''INTERP_EXPR_END'', ''INTERP_END'', ''LPAREN'', ''RPAREN'', ''LBRACE'', ''RBRACE'',
    ''LBRACKET'', ''RBRACKET'', ''SEMICOLON'', ''COLON'', ''COMMA'', ''DOT'', ''QUESTION'',
    ''PLUS'', ''MINUS'', ''STAR'', ''SLASH'', ''PERCENT'', ''AMP'', ''PIPE'', ''CARET'',
    ''TILDE'', ''BANG'', ''EQUAL'', ''LT'', ''GT'', ''PLUS_PLUS'', ''MINUS_MINUS'', ''POW'',
    ''EQUAL_EQUAL'', ''NOT_EQUAL'', ''IDENTICAL'', ''NOT_IDENTICAL'', ''LT_EQUAL'', ''GT_EQUAL'',
    ''SPACESHIP'', ''BOOL_AND'', ''BOOL_OR'', ''COALESCE'', ''NULLSAFE_ARROW'', ''ARROW'',
    ''DOUBLE_ARROW'', ''SCOPE'', ''SHIFT_LEFT'', ''SHIFT_RIGHT'', ''PLUS_EQUAL'',
    ''MINUS_EQUAL'', ''STAR_EQUAL'', ''SLASH_EQUAL'', ''DOT_EQUAL'', ''PERCENT_EQUAL'',
    ''POW_EQUAL'', ''AMP_EQUAL'', ''PIPE_EQUAL'', ''CARET_EQUAL'', ''SHIFT_LEFT_EQUAL'',
    ''SHIFT_RIGHT_EQUAL'', ''COALESCE_EQUAL'', ''ELLIPSIS'', ''ABSTRACT'', ''AND'', ''ARRAY'',
    ''AS'', ''BREAK'', ''CALLABLE'', ''CASE'', ''CATCH'', ''CLASS'', ''CLONE'', ''CONST'',
    ''CONTINUE'', ''DECLARE'', ''DEFAULT'', ''DO'', ''ECHO'', ''ELSE'', ''ELSEIF'', ''EMPTY'',
    ''ENDDECLARE'', ''ENDFOR'', ''ENDFOREACH'', ''ENDIF'', ''ENDSWITCH'', ''ENDWHILE'', ''ENUM'',
    ''EXTENDS'', ''FINAL'', ''FINALLY'', ''FN'', ''FOR'', ''FOREACH'', ''FUNCTION'', ''GLOBAL'',
    ''GOTO'', ''IF'', ''IMPLEMENTS'', ''INCLUDE'', ''INCLUDE_ONCE'', ''INSTANCEOF'',
    ''INSTEADOF'', ''INTERFACE'', ''ISSET'', ''LIST'', ''MATCH'', ''NAMESPACE'', ''NEW'', ''OR'',
    ''PRINT'', ''PRIVATE'', ''PROTECTED'', ''PUBLIC'', ''READONLY'', ''REQUIRE'',
    ''REQUIRE_ONCE'', ''RETURN'', ''STATIC'', ''SWITCH'', ''THROW'', ''TRAIT'', ''TRY'',
    ''UNSET'', ''USE'', ''VAR'', ''WHILE'', ''XOR'', ''YIELD'', ''TRUE'', ''FALSE'', ''NULL'',
    ''INT_TYPE'', ''FLOAT_TYPE'', ''STRING_TYPE'', ''BOOL_TYPE'', ''VOID'', ''MIXED'', ''NEVER'',
    ''SELF'', ''PARENT'']"

definition pc_token_name :: "pc_token_type \<Rightarrow> bytes" where
  "pc_token_name t = (if length token_names \<le> t then ''UNKNOWN'' else token_names ! t)"

section \<open>Keywords\<close>

text \<open>An entry of the table: text, length, token type.\<close>

definition keyword_table :: "(bytes \<times> nat \<times> pc_token_type) list" where
  "keyword_table = [
    (''abstract'', 8, T_ABSTRACT), (''and'', 3, T_AND), (''array'', 5, T_ARRAY),
    (''as'', 2, T_AS), (''break'', 5, T_BREAK), (''bool'', 4, T_BOOL_TYPE),
    (''callable'', 8, T_CALLABLE), (''case'', 4, T_CASE), (''catch'', 5, T_CATCH),
    (''class'', 5, T_CLASS), (''clone'', 5, T_CLONE), (''const'', 5, T_CONST),
    (''continue'', 8, T_CONTINUE), (''declare'', 7, T_DECLARE), (''default'', 7, T_DEFAULT),
    (''do'', 2, T_DO), (''echo'', 4, T_ECHO), (''else'', 4, T_ELSE), (''elseif'', 6, T_ELSEIF),
    (''empty'', 5, T_EMPTY), (''enddeclare'', 10, T_ENDDECLARE), (''endfor'', 6, T_ENDFOR),
    (''endforeach'', 10, T_ENDFOREACH), (''endif'', 5, T_ENDIF), (''endswitch'', 9, T_ENDSWITCH),
    (''endwhile'', 8, T_ENDWHILE), (''enum'', 4, T_ENUM), (''extends'', 7, T_EXTENDS),
    (''false'', 5, T_FALSE), (''final'', 5, T_FINAL), (''finally'', 7, T_FINALLY),
    (''float'', 5, T_FLOAT_TYPE), (''fn'', 2, T_FN), (''for'', 3, T_FOR),
    (''foreach'', 7, T_FOREACH), (''function'', 8, T_FUNCTION), (''global'', 6, T_GLOBAL),
    (''goto'', 4, T_GOTO), (''if'', 2, T_IF), (''implements'', 10, T_IMPLEMENTS),
    (''include'', 7, T_INCLUDE), (''include_once'', 12, T_INCLUDE_ONCE),
    (''instanceof'', 10, T_INSTANCEOF), (''insteadof'', 9, T_INSTEADOF),
    (''int'', 3, T_INT_TYPE), (''interface'', 9, T_INTERFACE), (''isset'', 5, T_ISSET),
    (''list'', 4, T_LIST), (''match'', 5, T_MATCH), (''mixed'', 5, T_MIXED),
    (''namespace'', 9, T_NAMESPACE), (''never'', 5, T_NEVER), (''new'', 3, T_NEW),
    (''null'', 4, T_NULL), (''or'', 2, T_OR), (''parent'', 6, T_PARENT), (''print'', 5, T_PRINT),
    (''private'', 7, T_PRIVATE), (''protected'', 9, T_PROTECTED), (''public'', 6, T_PUBLIC),
    (''readonly'', 8, T_READONLY), (''require'', 7, T_REQUIRE),
    (''require_once'', 12, T_REQUIRE_ONCE), (''return'', 6, T_RETURN), (''self'', 4, T_SELF),
    (''static'', 6, T_STATIC), (''string'', 6, T_STRING_TYPE), (''switch'', 6, T_SWITCH),
    (''throw'', 5, T_THROW), (''trait'', 5, T_TRAIT), (''true'', 4, T_TRUE), (''try'', 3, T_TRY),
    (''unset'', 5, T_UNSET), (''use'', 3, T_USE), (''var'', 3, T_VAR), (''void'', 4, T_VOID),
    (''while'', 5, T_WHILE), (''xor'', 3, T_XOR), (''yield'', 5, T_YIELD)]"

definition token_fold :: "char \<Rightarrow> nat" where
  "token_fold c = (if 65 \<le> ord c \<and> ord c \<le> 90 then ord c + (97 - 65) else ord c)"

definition ascii_equal_ci :: "bytes \<Rightarrow> bytes \<Rightarrow> nat \<Rightarrow> bool" where
  "ascii_equal_ci left right n = list_all (\<lambda>i. token_fold (left ! i) = ord (right ! i)) [0..<n]"

fun keyword_from :: "(bytes \<times> nat \<times> pc_token_type) list \<Rightarrow> bytes \<Rightarrow> pc_token_type" where
  "keyword_from [] name = T_IDENTIFIER"
| "keyword_from ((word, n, t) # rest) name =
     (if n = length name \<and> ascii_equal_ci name word (length name) then t
      else keyword_from rest name)"

definition identifier_type :: "bytes \<Rightarrow> pc_token_type" where
  "identifier_type name = keyword_from keyword_table name"

section \<open>The search is a lookup of the lower-case text\<close>

definition lower_case :: "char \<Rightarrow> char" where
  "lower_case c = char_of (token_fold c)"

lemma ord_lower_case: "ord (lower_case c) = token_fold c"
proof -
  have "token_fold c < 256" using ord_less_256 [of c] by (simp add: token_fold_def)
  then show ?thesis by (simp add: lower_case_def ord_def of_char_of take_bit_nat_eq_self)
qed

lemma ord_inject: "ord a = ord b \<longleftrightarrow> a = b"
  by (simp add: ord_def of_char_eq_iff)

lemma lower_case_eq: "lower_case a = b \<longleftrightarrow> token_fold a = ord b"
  by (metis ord_inject ord_lower_case)

lemma ascii_equal_ci_iff:
  assumes "length word = length name"
  shows "ascii_equal_ci name word (length name) \<longleftrightarrow> map lower_case name = word"
proof -
  have "map lower_case name = word \<longleftrightarrow> (\<forall>i < length name. lower_case (name ! i) = word ! i)"
    unfolding list_eq_iff_nth_eq using assms by simp
  then show ?thesis unfolding ascii_equal_ci_def list_all_iff lower_case_eq
    by (simp add: atLeast0LessThan Ball_def)
qed

definition words :: "(bytes \<times> nat \<times> pc_token_type) list \<Rightarrow> (bytes \<times> pc_token_type) list" where
  "words table = map (\<lambda>(word, n, t). (word, t)) table"

lemma keyword_from_lookup:
  "list_all (\<lambda>(word, n, t). n = length word) table \<Longrightarrow>
   keyword_from table name =
     (case map_of (words table) (map lower_case name) of None \<Rightarrow> T_IDENTIFIER | Some t \<Rightarrow> t)"
proof (induction table name rule: keyword_from.induct)
  case (1 name)
  then show ?case by (simp add: words_def)
next
  case (2 word n t rest name)
  then have n: "n = length word" by simp
  show ?case
  proof (cases "map lower_case name = word")
    case True
    then have "length word = length name" by auto
    then show ?thesis using True n ascii_equal_ci_iff [of word name] by (simp add: words_def)
  next
    case False
    then have "\<not> (length word = length name \<and> ascii_equal_ci name word (length name))"
      using ascii_equal_ci_iff by blast
    then show ?thesis using 2 n False by (auto simp: words_def)
  qed
qed

lemma keyword_lengths: "list_all (\<lambda>(word, n, t). n = length word) keyword_table"
  by (simp add: keyword_table_def)

text \<open>
   The type of an identifier is found by its lower-case spelling: the keyword of the
  table when there is one, and otherwise a plain identifier.  So keywords are
  case-insensitive, and only whole words are keywords.
\<close>

theorem identifier_type_correct:
  "identifier_type name =
     (case map_of (words keyword_table) (map lower_case name) of
        None \<Rightarrow> T_IDENTIFIER | Some t \<Rightarrow> t)"
  unfolding identifier_type_def by (rule keyword_from_lookup [OF keyword_lengths])

text \<open>What the scanners need of it: keywords are neither the end nor an error.\<close>

lemma keyword_from_type:
  "list_all (\<lambda>(word, n, t). T_ERROR < t) table \<Longrightarrow> T_ERROR < keyword_from table name"
  by (induction table name rule: keyword_from.induct) (auto simp: token_defs)

lemma identifier_type_proper: "T_ERROR < identifier_type name"
  unfolding identifier_type_def
  by (rule keyword_from_type) (simp add: keyword_table_def token_defs)

end
