(* ===== verification/Lexer.thy ===== *)
theory Lexer
  imports LexerToken
begin

text \<open>
  The lexer (\<open>compiler/lexer.c\<close>, \<open>compiler/lexer.h\<close>).  A pointer into the source is an
  offset, \<open>end\<close> is the length of the source.  \<open>lx_outside\<close> is no field of the code: it
  records that \<open>advance\<close> read the byte behind the end.  Every other read of the source
  stands behind a comparison with \<open>end\<close>, which the definitions keep.
\<close>

section \<open>Tokens and the state\<close>

record pc_token =
  tk_type :: pc_token_type
  tk_start :: nat
  tk_length :: nat
  tk_line :: u32
  tk_column :: u32

datatype pc_lexer_mode = PC_LEX_NORMAL | PC_LEX_INTERPOLATION | PC_LEX_INTERPOLATION_EXPR

record pc_lexer =
  lx_source :: bytes
  lx_current :: nat
  lx_interp_end :: "nat option"
  lx_interp_expr_end :: "nat option"
  lx_error_start :: "nat option"
  lx_line :: u32
  lx_column :: u32
  lx_token_line :: u32
  lx_token_column :: u32
  lx_interp_braces :: u32
  lx_error_line :: u32
  lx_error_column :: u32
  lx_in_php :: bool
  lx_repl :: bool
  lx_pending_error :: bool
  lx_mode :: pc_lexer_mode
  lx_error :: bytes
  lx_outside :: bool

definition pc_lexer_init :: "bytes \<Rightarrow> bool \<Rightarrow> pc_lexer" where
  "pc_lexer_init source repl =
     \<lparr>lx_source = source, lx_current = 0, lx_interp_end = None, lx_interp_expr_end = None,
      lx_error_start = None, lx_line = 1, lx_column = 1, lx_token_line = 0, lx_token_column = 0,
      lx_interp_braces = 0, lx_error_line = 0, lx_error_column = 0, lx_in_php = repl,
      lx_repl = repl, lx_pending_error = False, lx_mode = PC_LEX_NORMAL, lx_error = [],
      lx_outside = False\<rparr>"

abbreviation NUL :: char where "NUL \<equiv> CHR 0x00"
abbreviation LF :: char where "LF \<equiv> CHR 0x0A"
abbreviation CR :: char where "CR \<equiv> CHR 0x0D"
abbreviation TAB :: char where "TAB \<equiv> CHR 0x09"
abbreviation BACKSLASH :: char where "BACKSLASH \<equiv> CHR 0x5C"
abbreviation QUOTE :: char where "QUOTE \<equiv> CHR 0x27"
abbreviation DQUOTE :: char where "DQUOTE \<equiv> CHR 0x22"

section \<open>Reading\<close>

definition at_end :: "pc_lexer \<Rightarrow> bool" where
  "at_end L \<longleftrightarrow> length (lx_source L) \<le> lx_current L"

definition peek :: "pc_lexer \<Rightarrow> char" where
  "peek L = (if at_end L then NUL else lx_source L ! lx_current L)"

definition peek_next :: "pc_lexer \<Rightarrow> char" where
  "peek_next L =
     (if length (lx_source L) \<le> lx_current L + 1 then NUL else lx_source L ! (lx_current L + 1))"

definition advance :: "pc_lexer \<Rightarrow> char \<times> pc_lexer" where
  "advance L =
     (let c = (if at_end L then NUL else lx_source L ! lx_current L);
          L' = L\<lparr>lx_current := lx_current L + 1, lx_outside := lx_outside L \<or> at_end L\<rparr>
      in (c, if c = LF then L'\<lparr>lx_line := lx_line L + 1, lx_column := 1\<rparr>
             else L'\<lparr>lx_column := lx_column L + 1\<rparr>))"

definition skip :: "pc_lexer \<Rightarrow> pc_lexer" where
  "skip L = snd (advance L)"

definition match_char :: "pc_lexer \<Rightarrow> char \<Rightarrow> bool \<times> pc_lexer" where
  "match_char L expected =
     (if at_end L \<or> lx_source L ! lx_current L \<noteq> expected then (False, L) else (True, skip L))"

definition make_token :: "pc_lexer \<Rightarrow> pc_token_type \<Rightarrow> nat \<Rightarrow> pc_token" where
  "make_token L t start =
     \<lparr>tk_type = t, tk_start = start, tk_length = lx_current L - start,
      tk_line = lx_token_line L, tk_column = lx_token_column L\<rparr>"

text \<open>\<open>vsnprintf\<close> into \<open>error[160]\<close>: the message is cut to 159 bytes.\<close>

definition set_error :: "pc_lexer \<Rightarrow> bytes \<Rightarrow> pc_lexer" where
  "set_error L message = L\<lparr>lx_error := take 159 message\<rparr>"

definition error_token :: "pc_lexer \<Rightarrow> nat \<Rightarrow> bytes \<Rightarrow> pc_token \<times> pc_lexer" where
  "error_token L start message = (let L = set_error L message in (make_token L T_ERROR start, L))"

text \<open>\<open>%u\<close> and \<open>%02x\<close> of the messages.\<close>

fun decimal_text :: "nat \<Rightarrow> bytes" where
  "decimal_text n = (if n < 10 then [digit_char n] else decimal_text (n div 10) @ [digit_char (n mod 10)])"

declare decimal_text.simps [simp del]

definition hex_digit :: "nat \<Rightarrow> char" where
  "hex_digit d = (if d < 10 then digit_char d else char_of (97 + (d - 10)))"

definition hex_text :: "char \<Rightarrow> bytes" where
  "hex_text c = [hex_digit (ord c div 16), hex_digit (ord c mod 16)]"

text \<open>A loop that advances while a condition holds of the next byte.\<close>

function advance_while :: "(pc_lexer \<Rightarrow> bool) \<Rightarrow> pc_lexer \<Rightarrow> pc_lexer" where
  "advance_while p L = (if \<not> at_end L \<and> p L then advance_while p (skip L) else L)"
  by pat_completeness auto
termination
  by (relation "measure (\<lambda>(p, L). length (lx_source L) - lx_current L)")
    (auto simp: at_end_def skip_def advance_def Let_def)

declare advance_while.simps [simp del]

section \<open>Identifiers and numbers\<close>

definition is_identifier_start :: "char \<Rightarrow> bool" where
  "is_identifier_start c \<longleftrightarrow>
     c = CHR ''_'' \<or> (ord CHR ''a'' \<le> ord c \<and> ord c \<le> ord CHR ''z'') \<or>
     (ord CHR ''A'' \<le> ord c \<and> ord c \<le> ord CHR ''Z'') \<or> 0x80 \<le> ord c"

definition is_identifier_part :: "char \<Rightarrow> bool" where
  "is_identifier_part c \<longleftrightarrow> is_identifier_start c \<or> is_digit c"

definition scan_identifier :: "pc_lexer \<Rightarrow> nat \<Rightarrow> pc_token \<times> pc_lexer" where
  "scan_identifier L start =
     (let L = advance_while (\<lambda>L. is_identifier_part (peek L)) L
      in (make_token L (identifier_type (take (lx_current L - start) (drop start (lx_source L)))) start, L))"

definition is_digit_for_base :: "char \<Rightarrow> nat \<Rightarrow> bool" where
  "is_digit_for_base c base \<longleftrightarrow>
     (if is_digit c then ord c - ord CHR ''0'' < base
      else if ord CHR ''a'' \<le> ord c \<and> ord c \<le> ord CHR ''f'' then base = 16
      else if ord CHR ''A'' \<le> ord c \<and> ord c \<le> ord CHR ''F'' then base = 16
      else False)"

function digits_loop :: "nat \<Rightarrow> pc_lexer \<Rightarrow> nat \<Rightarrow> bool \<Rightarrow> nat \<times> pc_lexer" where
  "digits_loop base L count underscore =
     (if at_end L then (count, L)
      else if is_digit_for_base (peek L) base then digits_loop base (skip L) (count + 1) False
      else if peek L = CHR ''_'' \<and> \<not> underscore \<and> 0 < lx_current L \<and>
        is_digit_for_base (lx_source L ! (lx_current L - 1)) base \<and>
        lx_current L + 1 < length (lx_source L) \<and>
        is_digit_for_base (lx_source L ! (lx_current L + 1)) base
      then digits_loop base (skip L) count True
      else (count, L))"
  by pat_completeness auto
termination
  by (relation "measure (\<lambda>(base, L, count, underscore). length (lx_source L) - lx_current L)")
    (auto simp: at_end_def skip_def advance_def Let_def)

declare digits_loop.simps [simp del]

definition scan_digits :: "pc_lexer \<Rightarrow> nat \<Rightarrow> nat \<times> pc_lexer" where
  "scan_digits L base = digits_loop base L 0 False"

definition prefix_base :: "char \<Rightarrow> nat" where
  "prefix_base prefix =
     (if prefix = CHR ''x'' \<or> prefix = CHR ''X'' then 16
      else if prefix = CHR ''b'' \<or> prefix = CHR ''B'' then 2
      else if prefix = CHR ''o'' \<or> prefix = CHR ''O'' then 8
      else 0)"

definition scan_exponent :: "pc_lexer \<Rightarrow> bool \<Rightarrow> bool \<times> pc_lexer" where
  "scan_exponent L is_float =
     (if \<not> at_end L \<and> (peek L = CHR ''e'' \<or> peek L = CHR ''E'')
      then
        let exponent = lx_current L; exponent_column = lx_column L;
            L = skip L;
            L = (if peek L = CHR ''+'' \<or> peek L = CHR ''-'' then skip L else L);
            (count, L) = scan_digits L 10
        in if count = 0 then (is_float, L\<lparr>lx_current := exponent, lx_column := exponent_column\<rparr>)
           else (True, L)
      else (is_float, L))"

definition scan_fraction :: "pc_lexer \<Rightarrow> nat \<Rightarrow> bool \<Rightarrow> pc_token \<times> pc_lexer" where
  "scan_fraction L start is_float =
     (let (is_float, L) =
            (if \<not> at_end L \<and> peek L = CHR ''.'' \<and> peek_next L \<noteq> CHR ''.''
             then (True, snd (scan_digits (skip L) 10)) else (is_float, L));
          (is_float, L) = scan_exponent L is_float
      in (make_token L (if is_float then T_FLOAT else T_INTEGER) start, L))"

definition scan_number :: "pc_lexer \<Rightarrow> nat \<Rightarrow> bool \<Rightarrow> pc_token \<times> pc_lexer" where
  "scan_number L start leading_dot =
     (if leading_dot then scan_fraction (snd (scan_digits L 10)) start leading_dot
      else if lx_source L ! start = CHR ''0'' \<and> \<not> at_end L
      then
        let base = prefix_base (peek L)
        in if base \<noteq> 0
           then
             let (count, L) = scan_digits (skip L) base
             in if count = 0
                then error_token L start
                       (''expected base-'' @ decimal_text base @ '' digit after numeric prefix'')
                else (make_token L T_INTEGER start, L)
           else scan_fraction (snd (scan_digits L 10)) start leading_dot
      else scan_fraction (snd (scan_digits L 10)) start leading_dot)"

section \<open>Strings\<close>

function double_quote_end :: "bytes \<Rightarrow> nat \<Rightarrow> nat option" where
  "double_quote_end source cursor =
     (if cursor < length source then
        if source ! cursor = BACKSLASH \<and> cursor + 1 < length source
        then double_quote_end source (cursor + 2)
        else if source ! cursor = DQUOTE then Some cursor
        else double_quote_end source (cursor + 1)
      else None)"
  by pat_completeness auto
termination by (relation "measure (\<lambda>(source, cursor). length source - cursor)") auto

declare double_quote_end.simps [simp del]

definition find_double_quote_end :: "pc_lexer \<Rightarrow> nat option" where
  "find_double_quote_end L = double_quote_end (lx_source L) (lx_current L)"

function contains_interpolation :: "bytes \<Rightarrow> nat \<Rightarrow> nat \<Rightarrow> bool" where
  "contains_interpolation source cursor limit =
     (if cursor < limit then
        if source ! cursor = BACKSLASH \<and> cursor + 1 < limit
        then contains_interpolation source (cursor + 2) limit
        else if source ! cursor = CHR ''$'' \<and> cursor + 1 < limit \<and>
          is_identifier_start (source ! (cursor + 1)) then True
        else if source ! cursor = CHR ''{'' \<and> cursor + 2 < limit \<and>
          source ! (cursor + 1) = CHR ''$'' \<and> is_identifier_start (source ! (cursor + 2)) then True
        else contains_interpolation source (cursor + 1) limit
      else False)"
  by pat_completeness auto
termination by (relation "measure (\<lambda>(source, cursor, limit). limit - cursor)") auto

declare contains_interpolation.simps [simp del]

text \<open>The loop of \<open>scan_quoted\<close>: whether the closing quote was found.\<close>

function quoted_loop :: "pc_lexer \<Rightarrow> char \<Rightarrow> bool \<times> pc_lexer" where
  "quoted_loop L quote =
     (if at_end L then (False, L)
      else if peek L = quote then (True, skip L)
      else if peek L = BACKSLASH \<and> \<not> at_end (skip L) then quoted_loop (skip (skip L)) quote
      else quoted_loop (skip L) quote)"
  by pat_completeness auto
termination
  by (relation "measure (\<lambda>(L, quote). length (lx_source L) - lx_current L)")
    (auto simp: at_end_def skip_def advance_def Let_def)

declare quoted_loop.simps [simp del]

definition scan_plain :: "pc_lexer \<Rightarrow> nat \<Rightarrow> char \<Rightarrow> pc_token \<times> pc_lexer" where
  "scan_plain L start quote =
     (let (closed, L) = quoted_loop L quote
      in if closed
         then (make_token L (if quote = QUOTE then T_SINGLE_QUOTED else T_DOUBLE_QUOTED) start, L)
         else error_token L start
                (''unterminated '' @ (if quote = QUOTE then ''single'' else ''double'') @ ''-quoted string''))"

definition scan_quoted :: "pc_lexer \<Rightarrow> nat \<Rightarrow> char \<Rightarrow> pc_token \<times> pc_lexer" where
  "scan_quoted L start quote =
     (if quote = DQUOTE then
        (case find_double_quote_end L of
           None \<Rightarrow>
             error_token (advance_while (\<lambda>L. True) L) start ''unterminated double-quoted string''
         | Some limit \<Rightarrow>
             if contains_interpolation (lx_source L) (lx_current L) limit
             then
               let L = L\<lparr>lx_interp_end := Some limit, lx_mode := PC_LEX_INTERPOLATION\<rparr>
               in (make_token L T_INTERP_START start, L)
             else scan_plain L start quote)
      else scan_plain L start quote)"

definition is_line_end :: "char \<Rightarrow> bool" where
  "is_line_end c \<longleftrightarrow> c = LF \<or> c = CR \<or> c = NUL"

text \<open>\<open>memcmp (current, text, length) = 0\<close> behind \<open>length \<le> end - current\<close>.\<close>

definition starts_with :: "bytes \<Rightarrow> nat \<Rightarrow> bytes \<Rightarrow> bool" where
  "starts_with source i name \<longleftrightarrow>
     length name \<le> length source - i \<and> take (length name) (drop i source) = name"

definition starts_open_tag :: "pc_lexer \<Rightarrow> bool" where
  "starts_open_tag L =
     (if starts_with (lx_source L) (lx_current L) ''<?='' then True
      else if \<not> starts_with (lx_source L) (lx_current L) ''<?php'' then False
      else lx_current L + 5 = length (lx_source L) \<or>
        lx_source L ! (lx_current L + 5) \<in> {CHR '' '', TAB, CR, LF})"

section \<open>Heredoc\<close>

text \<open>
  The label is collected in \<open>label[64]\<close>; \<open>None\<close> is a label that does not fit.
\<close>

function heredoc_label :: "pc_lexer \<Rightarrow> bytes \<Rightarrow> bytes option \<times> pc_lexer" where
  "heredoc_label L label =
     (if \<not> at_end L \<and> is_identifier_part (peek L) then
        if 64 \<le> length label + 1 then (None, L)
        else heredoc_label (skip L) (label @ [peek L])
      else (Some label, L))"
  by pat_completeness auto
termination
  by (relation "measure (\<lambda>(L, label). length (lx_source L) - lx_current L)")
    (auto simp: at_end_def skip_def advance_def Let_def)

declare heredoc_label.simps [simp del]

definition label_here :: "pc_lexer \<Rightarrow> bytes \<Rightarrow> bool" where
  "label_here L label \<longleftrightarrow>
     starts_with (lx_source L) (lx_current L) label \<and>
     (lx_current L + length label = length (lx_source L) \<or>
      lx_source L ! (lx_current L + length label) = CHR '';'' \<or>
      is_line_end (lx_source L ! (lx_current L + length label)))"

lemma current_skip [simp]: "lx_current (skip L) = lx_current L + 1"
  and source_skip [simp]: "lx_source (skip L) = lx_source L"
  by (simp_all add: skip_def advance_def Let_def)

lemma source_advance_while [simp]: "lx_source (advance_while p L) = lx_source L"
  by (induction p L rule: advance_while.induct) (subst advance_while.simps, simp)

lemma current_advance_while: "lx_current L \<le> lx_current (advance_while p L)"
  by (induction p L rule: advance_while.induct) (subst advance_while.simps, auto)

text \<open>The rest of a line of the body, from its start on.\<close>

definition skip_line :: "pc_lexer \<Rightarrow> pc_lexer" where
  "skip_line L =
     (let L = advance_while (\<lambda>L. peek L \<noteq> LF) L in if \<not> at_end L then skip L else L)"

lemma skip_line_source [simp]: "lx_source (skip_line L) = lx_source L"
  by (simp add: skip_line_def Let_def)

lemma skip_line_moves: "\<not> at_end L \<Longrightarrow> lx_current L < lx_current (skip_line L)"
  using current_advance_while [of L "\<lambda>L. peek L \<noteq> LF"]
  by (auto simp: skip_line_def Let_def at_end_def)

function heredoc_body :: "pc_lexer \<Rightarrow> bytes \<Rightarrow> bool \<times> pc_lexer" where
  "heredoc_body L label =
     (if at_end L then (False, L)
      else
        let line_start = lx_current L;
            C = advance_while (\<lambda>L. peek L = CHR '' '' \<or> peek L = TAB) L
        in if label_here C label
           then (True, C\<lparr>lx_current := lx_current C + length label,
                         lx_column := lx_column C + of_nat (length label)\<rparr>)
           else heredoc_body (skip_line (C\<lparr>lx_current := line_start, lx_column := 1\<rparr>)) label)"
  by pat_completeness auto
termination
proof (relation "measure (\<lambda>(L, label). length (lx_source L) - lx_current L)", goal_cases)
  case 1
  show ?case by simp
next
  case (2 L label line_start C)
  let ?L = "C\<lparr>lx_current := line_start, lx_column := 1\<rparr>"
  have "\<not> at_end ?L" using 2 by (simp add: at_end_def)
  from skip_line_moves [OF this] show ?case using 2 by (simp add: at_end_def)
qed

declare heredoc_body.simps [simp del]

definition scan_heredoc :: "pc_lexer \<Rightarrow> nat \<Rightarrow> pc_token \<times> pc_lexer" where
  "scan_heredoc L start =
     (let (quote, L) = (if peek L = QUOTE \<or> peek L = DQUOTE then (peek L, skip L) else (NUL, L));
          nowdoc = (quote = QUOTE)
      in case heredoc_label L [] of
           (None, L) \<Rightarrow> error_token L start ''heredoc label is too long''
         | (Some label, L) \<Rightarrow>
             let (quoted, L) =
               (if length label = 0 then (False, L)
                else if quote \<noteq> NUL then match_char L quote else (True, L))
             in if \<not> quoted then error_token L start ''invalid heredoc label''
                else
                  let L = (if peek L = CR then skip L else L);
                      (newline, L) = match_char L LF
                  in if \<not> newline then error_token L start ''expected newline after heredoc label''
                     else
                       let (closed, L) = heredoc_body L label
                       in if closed then (make_token L (if nowdoc then T_NOWDOC else T_HEREDOC) start, L)
                          else error_token L start (''unterminated heredoc '' @ label))"

section \<open>White space, comments and text outside PHP\<close>

function skip_space_and_comments :: "pc_lexer \<Rightarrow> pc_lexer" where
  "skip_space_and_comments L =
     (if at_end L then L
      else if peek L = CHR '' '' \<or> peek L = TAB \<or> peek L = CR \<or> peek L = LF
      then skip_space_and_comments (skip L)
      else if peek L = CHR ''#'' \<or> (peek L = CHR ''/'' \<and> peek_next L = CHR ''/'')
      then skip_space_and_comments
        (advance_while
           (\<lambda>L. peek L \<noteq> LF \<and> \<not> (peek L = CHR ''?'' \<and> peek_next L = CHR ''>'')) L)
      else if peek L = CHR ''/'' \<and> peek_next L = CHR ''*''
      then
        let C = advance_while
              (\<lambda>L. \<not> (peek L = CHR ''*'' \<and> peek_next L = CHR ''/'')) (skip (skip L))
        in if at_end C
           then set_error
             (C\<lparr>lx_error_start := Some (lx_current L), lx_error_line := lx_line L,
                lx_error_column := lx_column L, lx_pending_error := True\<rparr>)
             ''unterminated block comment''
           else skip_space_and_comments (skip (skip C))
      else L)"
  by pat_completeness auto
termination
proof (relation "measure (\<lambda>L. length (lx_source L) - lx_current L)", goal_cases)
  case 1
  show ?case by simp
next
  case (2 L)
  then show ?case by (simp add: at_end_def)
next
  case (3 L)
  let ?p = "\<lambda>L. peek L \<noteq> LF \<and> \<not> (peek L = CHR ''?'' \<and> peek_next L = CHR ''>'')"
  have "?p L" using 3 by auto
  then have "advance_while ?p L = advance_while ?p (skip L)"
    using 3(1) by (subst advance_while.simps) simp
  then have "lx_current L < lx_current (advance_while ?p L)"
    using current_advance_while [of "skip L" ?p] by simp
  then show ?case using 3(1) by (simp add: at_end_def)
next
  case (4 L C)
  have "lx_current L < lx_current C"
  proof -
    have "lx_current (skip (skip L)) \<le> lx_current C" unfolding 4(5) by (rule current_advance_while)
    then show ?thesis by simp
  qed
  then show ?case using 4 by (simp add: at_end_def)
qed

declare skip_space_and_comments.simps [simp del]

definition scan_inline_html :: "pc_lexer \<Rightarrow> pc_token \<times> pc_lexer" where
  "scan_inline_html L =
     (let start = lx_current L;
          L = L\<lparr>lx_token_line := lx_line L, lx_token_column := lx_column L\<rparr>;
          L = advance_while (\<lambda>L. \<not> (peek L = CHR ''<'' \<and> starts_open_tag L)) L
      in (make_token L T_INLINE_HTML start, L))"

section \<open>Interpolated strings\<close>

text \<open>The null pointer is below every position.\<close>

definition interp_limit :: "pc_lexer \<Rightarrow> nat" where
  "interp_limit L = (case lx_interp_end L of Some limit \<Rightarrow> limit | None \<Rightarrow> 0)"

text \<open>The loops over \<open>cursor\<close> and \<open>closing\<close>.\<close>

function scan_to :: "(char \<Rightarrow> bool) \<Rightarrow> bytes \<Rightarrow> nat \<Rightarrow> nat \<Rightarrow> nat" where
  "scan_to p source cursor limit =
     (if cursor < limit \<and> p (source ! cursor) then scan_to p source (cursor + 1) limit else cursor)"
  by pat_completeness auto
termination by (relation "measure (\<lambda>(p, source, cursor, limit). limit - cursor)") auto

declare scan_to.simps [simp del]

text \<open>\<open>tail_end\<close>: where the index or the property behind a variable ends.\<close>

definition interpolation_tail :: "bytes \<Rightarrow> nat \<Rightarrow> nat \<Rightarrow> nat option" where
  "interpolation_tail source start limit =
     (let cursor = scan_to is_identifier_part source (start + 2) limit
      in if cursor < limit \<and> source ! cursor = CHR ''[''
         then
           let closing = scan_to (\<lambda>c. c \<noteq> CHR '']'') source (cursor + 1) limit
           in if closing < limit then Some (closing + 1) else None
         else if cursor + 2 < limit \<and> source ! cursor = CHR ''-'' \<and>
           source ! (cursor + 1) = CHR ''>'' \<and> is_identifier_start (source ! (cursor + 2))
         then Some (scan_to is_identifier_part source (cursor + 3) limit)
         else None)"

definition part_stops :: "pc_lexer \<Rightarrow> bool" where
  "part_stops L \<longleftrightarrow>
     (peek L = CHR ''$'' \<and> lx_current L + 1 < interp_limit L \<and>
      is_identifier_start (lx_source L ! (lx_current L + 1))) \<or>
     (peek L = CHR ''{'' \<and> lx_current L + 2 < interp_limit L \<and>
      lx_source L ! (lx_current L + 1) = CHR ''$'')"

lemma interp_limit_skip [simp]: "interp_limit (skip L) = interp_limit L"
  by (simp add: interp_limit_def skip_def advance_def Let_def)

function part_loop :: "pc_lexer \<Rightarrow> pc_lexer" where
  "part_loop L =
     (if lx_current L < interp_limit L then
        if peek L = BACKSLASH \<and> lx_current L + 1 < interp_limit L then part_loop (skip (skip L))
        else if part_stops L then L
        else part_loop (skip L)
      else L)"
  by pat_completeness auto
termination by (relation "measure (\<lambda>L. interp_limit L - lx_current L)") auto

declare part_loop.simps [simp del]

definition lex_interpolation :: "pc_lexer \<Rightarrow> pc_token \<times> pc_lexer" where
  "lex_interpolation L0 =
     (let start = lx_current L0;
          L = L0\<lparr>lx_token_line := lx_line L0, lx_token_column := lx_column L0\<rparr>;
          limit = interp_limit L
      in if limit \<le> start
         then
           let L = (skip L)\<lparr>lx_mode := PC_LEX_NORMAL, lx_interp_end := None\<rparr>
           in (make_token L T_INTERP_END start, L)
         else if peek L = CHR ''$'' \<and> start + 1 < limit \<and>
           is_identifier_start (lx_source L ! (start + 1))
         then
           (case interpolation_tail (lx_source L) start limit of
              Some tail_end \<Rightarrow>
                let L = L\<lparr>lx_interp_expr_end := Some tail_end, lx_mode := PC_LEX_INTERPOLATION_EXPR\<rparr>
                in (make_token L T_INTERP_EXPR_START start, L)
            | None \<Rightarrow>
                let L = advance_while
                      (\<lambda>L. lx_current L < interp_limit L \<and> is_identifier_part (peek L)) (skip L)
                in (make_token L T_VARIABLE start, L))
         else if peek L = CHR ''{'' \<and> start + 2 < limit \<and> lx_source L ! (start + 1) = CHR ''$'' \<and>
           is_identifier_start (lx_source L ! (start + 2))
         then
           let L = (skip L)\<lparr>lx_mode := PC_LEX_INTERPOLATION_EXPR, lx_interp_braces := 0\<rparr>
           in (make_token L T_INTERP_EXPR_START start, L)
         else
           let L = part_loop L in (make_token L T_INTERP_PART start, L))"

section \<open>Operators\<close>

text \<open>\<open>return make_token\<close>, and a branch on \<open>match_char\<close>.\<close>

definition token :: "nat \<Rightarrow> pc_token_type \<Rightarrow> pc_lexer \<Rightarrow> pc_token \<times> pc_lexer" where
  "token start t L = (make_token L t start, L)"

definition on_match ::
    "char \<Rightarrow> (pc_lexer \<Rightarrow> pc_token \<times> pc_lexer) \<Rightarrow> (pc_lexer \<Rightarrow> pc_token \<times> pc_lexer) \<Rightarrow>
     pc_lexer \<Rightarrow> pc_token \<times> pc_lexer" where
  "on_match c yes no L = (let (matched, L) = match_char L c in if matched then yes L else no L)"

definition single_operator :: "char \<Rightarrow> pc_token_type option" where
  "single_operator c =
     (if c = CHR ''('' then Some T_LPAREN else if c = CHR '')'' then Some T_RPAREN
      else if c = CHR ''{'' then Some T_LBRACE else if c = CHR ''}'' then Some T_RBRACE
      else if c = CHR ''['' then Some T_LBRACKET else if c = CHR '']'' then Some T_RBRACKET
      else if c = CHR '';'' then Some T_SEMICOLON
      else if c = CHR '','' then Some T_COMMA else if c = CHR ''~'' then Some T_TILDE else None)"

definition question_operator :: "nat \<Rightarrow> pc_lexer \<Rightarrow> pc_token \<times> pc_lexer" where
  "question_operator start L =
     (if starts_with (lx_source L) (lx_current L) ''->''
      then token start T_NULLSAFE_ARROW (skip (skip L)) else token start T_QUESTION L)"

definition compound_operator :: "nat \<Rightarrow> char \<Rightarrow> pc_lexer \<Rightarrow> pc_token \<times> pc_lexer" where
  "compound_operator start c =
     (let t = token start; eq = on_match CHR ''=''
      in if c = CHR '':'' then on_match CHR '':'' (t T_SCOPE) (t T_COLON)
      else if c = CHR ''.'' then
        on_match CHR ''.''
          (on_match CHR ''.'' (t T_ELLIPSIS)
             (\<lambda>L. error_token L start (''unexpected '' @ [QUOTE] @ ''..'' @ [QUOTE])))
          (eq (t T_DOT_EQUAL) (t T_DOT))
      else if c = CHR ''+'' then on_match CHR ''+'' (t T_PLUS_PLUS) (eq (t T_PLUS_EQUAL) (t T_PLUS))
      else if c = CHR ''-'' then
        on_match CHR ''-'' (t T_MINUS_MINUS)
          (on_match CHR ''>'' (t T_ARROW) (eq (t T_MINUS_EQUAL) (t T_MINUS)))
      else if c = CHR ''*'' then
        on_match CHR ''*'' (eq (t T_POW_EQUAL) (t T_POW)) (eq (t T_STAR_EQUAL) (t T_STAR))
      else if c = CHR ''/'' then eq (t T_SLASH_EQUAL) (t T_SLASH)
      else if c = CHR ''%'' then eq (t T_PERCENT_EQUAL) (t T_PERCENT)
      else if c = CHR ''^'' then eq (t T_CARET_EQUAL) (t T_CARET)
      else if c = CHR ''&'' then on_match CHR ''&'' (t T_BOOL_AND) (eq (t T_AMP_EQUAL) (t T_AMP))
      else if c = CHR ''|'' then on_match CHR ''|'' (t T_BOOL_OR) (eq (t T_PIPE_EQUAL) (t T_PIPE))
      else if c = CHR ''!'' then eq (eq (t T_NOT_IDENTICAL) (t T_NOT_EQUAL)) (t T_BANG)
      else if c = CHR ''='' then
        eq (eq (t T_IDENTICAL) (t T_EQUAL_EQUAL)) (on_match CHR ''>'' (t T_DOUBLE_ARROW) (t T_EQUAL))
      else if c = CHR ''<'' then
        eq (on_match CHR ''>'' (t T_SPACESHIP) (t T_LT_EQUAL))
          (on_match CHR ''<'' (eq (t T_SHIFT_LEFT_EQUAL) (t T_SHIFT_LEFT))
            (on_match CHR ''>'' (t T_NOT_EQUAL) (t T_LT)))
      else if c = CHR ''>'' then
        on_match CHR ''>'' (eq (t T_SHIFT_RIGHT_EQUAL) (t T_SHIFT_RIGHT)) (eq (t T_GT_EQUAL) (t T_GT))
      else if c = CHR ''?'' then
        on_match CHR ''?'' (eq (t T_COALESCE_EQUAL) (t T_COALESCE)) (question_operator start)
      else (\<lambda>L. error_token L start (''unexpected byte 0x'' @ hex_text c)))"

definition scan_operator :: "pc_lexer \<Rightarrow> nat \<Rightarrow> char \<Rightarrow> pc_token \<times> pc_lexer" where
  "scan_operator L start c =
     (case single_operator c of Some t \<Rightarrow> token start t L | None \<Rightarrow> compound_operator start c L)"

section \<open>The next token\<close>

text \<open>What follows the first byte \<open>c\<close> of a token.\<close>

definition scan_variable :: "pc_lexer \<Rightarrow> nat \<Rightarrow> pc_token \<times> pc_lexer" where
  "scan_variable L start =
     (if \<not> is_identifier_start (peek L)
      then error_token L start (''expected identifier after '' @ [QUOTE] @ ''$'' @ [QUOTE])
      else
        let L = advance_while (\<lambda>L. is_identifier_part (peek L)) L
        in (make_token L T_VARIABLE start, L))"

definition scan_from :: "pc_lexer \<Rightarrow> nat \<Rightarrow> char \<Rightarrow> pc_token \<times> pc_lexer" where
  "scan_from L start c =
     (if is_identifier_start c then scan_identifier L start
      else if is_digit c then scan_number L start False
      else if c = CHR ''.'' \<and> is_digit (peek L) then scan_number L start True
      else if c = CHR ''$'' then scan_variable L start
      else if c = QUOTE \<or> c = DQUOTE then scan_quoted L start c
      else if c = CHR ''<'' \<and> starts_with (lx_source L) (lx_current L) ''<<''
      then scan_heredoc (skip (skip L)) start
      else scan_operator L start c)"

definition scan_php :: "pc_lexer \<Rightarrow> nat \<Rightarrow> pc_token \<times> pc_lexer" where
  "scan_php L0 start =
     (let (c, L) = advance L0
      in if lx_mode L = PC_LEX_INTERPOLATION_EXPR \<and> c = CHR ''}'' \<and> lx_interp_braces L = 0
         then
           let L = L\<lparr>lx_mode := PC_LEX_INTERPOLATION\<rparr> in (make_token L T_INTERP_EXPR_END start, L)
         else
           let L =
             (if lx_mode L = PC_LEX_INTERPOLATION_EXPR then
                (if c = CHR ''{'' then L\<lparr>lx_interp_braces := lx_interp_braces L + 1\<rparr>
                 else if c = CHR ''}'' \<and> lx_interp_braces L \<noteq> 0
                 then L\<lparr>lx_interp_braces := lx_interp_braces L - 1\<rparr> else L)
              else L)
           in scan_from L start c)"

definition scan_token :: "pc_lexer \<Rightarrow> pc_token \<times> pc_lexer" where
  "scan_token L0 =
     (let L = L0\<lparr>lx_token_line := lx_line L0, lx_token_column := lx_column L0\<rparr>;
          start = lx_current L
      in if at_end L then (make_token L T_EOF start, L)
         else if \<not> lx_in_php L \<and> starts_open_tag L \<and> starts_with (lx_source L) start ''<?php''
         then
           let L = L\<lparr>lx_current := start + 5, lx_column := lx_column L + 5, lx_in_php := True\<rparr>
           in (make_token L T_OPEN_TAG start, L)
         else if \<not> lx_in_php L \<and> starts_with (lx_source L) start ''<?=''
         then
           let L = L\<lparr>lx_current := start + 3, lx_column := lx_column L + 3, lx_in_php := True\<rparr>
           in (make_token L T_OPEN_TAG_ECHO start, L)
         else if lx_in_php L \<and> peek L = CHR ''?'' \<and> peek_next L = CHR ''>''
         then
           let L = (skip (skip L))\<lparr>lx_in_php := lx_repl L\<rparr>
           in (make_token L T_CLOSE_TAG start, L)
         else scan_php L start)"

definition pending_token :: "pc_lexer \<Rightarrow> pc_token \<times> pc_lexer" where
  "pending_token L =
     (let start = (case lx_error_start L of Some start \<Rightarrow> start | None \<Rightarrow> 0)
      in (\<lparr>tk_type = T_ERROR, tk_start = start, tk_length = lx_current L - start,
           tk_line = lx_error_line L, tk_column = lx_error_column L\<rparr>, L\<lparr>lx_pending_error := False\<rparr>))"

definition expression_ended :: "pc_lexer \<Rightarrow> bool" where
  "expression_ended L \<longleftrightarrow>
     lx_mode L = PC_LEX_INTERPOLATION_EXPR \<and>
     (case lx_interp_expr_end L of Some limit \<Rightarrow> limit \<le> lx_current L | None \<Rightarrow> False)"

definition pc_lexer_next :: "pc_lexer \<Rightarrow> pc_token \<times> pc_lexer" where
  "pc_lexer_next L =
     (if lx_mode L = PC_LEX_INTERPOLATION then lex_interpolation L
      else if expression_ended L
      then
        let L = L\<lparr>lx_mode := PC_LEX_INTERPOLATION, lx_interp_expr_end := None,
                  lx_token_line := lx_line L, lx_token_column := lx_column L\<rparr>
        in (make_token L T_INTERP_EXPR_END (lx_current L), L)
      else if \<not> lx_in_php L \<and> \<not> at_end L \<and> \<not> (peek L = CHR ''<'' \<and> starts_open_tag L)
      then scan_inline_html L
      else
        let L = skip_space_and_comments L
        in if lx_pending_error L then pending_token L else scan_token L)"

definition pc_lexer_error :: "pc_lexer \<Rightarrow> bytes" where
  "pc_lexer_error L = lx_error L"

text \<open>The state after \<open>n\<close> tokens.\<close>

fun lexer_after :: "nat \<Rightarrow> pc_lexer \<Rightarrow> pc_lexer" where
  "lexer_after 0 L = L"
| "lexer_after (Suc n) L = lexer_after n (snd (pc_lexer_next L))"

end
