(* ===== verification/LexerTrack.thy ===== *)
theory LexerTrack
  imports Lexer
begin

text \<open>
  Every scanner of the lexer only moves along the source: from the state at offset \<open>k\<close> with
  the exact line and column it comes to the state at a later offset with the exact line and
  column there (\<open>scans\<close>).  The loops are handled once, in \<open>while_at\<close>.
\<close>

section \<open>The state at an offset\<close>

definition line_at :: "bytes \<Rightarrow> nat \<Rightarrow> u32" where
  "line_at source k = 1 + of_nat (count_list (take k source) LF)"

definition column_at :: "bytes \<Rightarrow> nat \<Rightarrow> u32" where
  "column_at source k = 1 + of_nat (length (takeWhile (\<lambda>c. c \<noteq> LF) (rev (take k source))))"

definition lx_at :: "pc_lexer \<Rightarrow> nat \<Rightarrow> pc_lexer" where
  "lx_at L k =
     L\<lparr>lx_current := k, lx_line := line_at (lx_source L) k, lx_column := column_at (lx_source L) k\<rparr>"

abbreviation lx_length :: "pc_lexer \<Rightarrow> nat" where
  "lx_length L \<equiv> length (lx_source L)"

lemma lx_at_fields [simp]:
  "lx_source (lx_at L k) = lx_source L" "lx_current (lx_at L k) = k"
  "lx_interp_end (lx_at L k) = lx_interp_end L" "lx_interp_expr_end (lx_at L k) = lx_interp_expr_end L"
  "lx_error_start (lx_at L k) = lx_error_start L" "lx_line (lx_at L k) = line_at (lx_source L) k"
  "lx_column (lx_at L k) = column_at (lx_source L) k"
  "lx_token_line (lx_at L k) = lx_token_line L" "lx_token_column (lx_at L k) = lx_token_column L"
  "lx_interp_braces (lx_at L k) = lx_interp_braces L" "lx_error_line (lx_at L k) = lx_error_line L"
  "lx_error_column (lx_at L k) = lx_error_column L" "lx_in_php (lx_at L k) = lx_in_php L"
  "lx_repl (lx_at L k) = lx_repl L" "lx_pending_error (lx_at L k) = lx_pending_error L"
  "lx_mode (lx_at L k) = lx_mode L" "lx_error (lx_at L k) = lx_error L"
  "lx_outside (lx_at L k) = lx_outside L"
  by (simp_all add: lx_at_def)

lemma lx_at_at [simp]: "lx_at (lx_at L k) j = lx_at L j"
  by (simp add: lx_at_def)

lemma lx_at_updates:
  "lx_at (L\<lparr>lx_interp_end := a\<rparr>) k = (lx_at L k)\<lparr>lx_interp_end := a\<rparr>"
  "lx_at (L\<lparr>lx_interp_expr_end := a\<rparr>) k = (lx_at L k)\<lparr>lx_interp_expr_end := a\<rparr>"
  "lx_at (L\<lparr>lx_token_line := u\<rparr>) k = (lx_at L k)\<lparr>lx_token_line := u\<rparr>"
  "lx_at (L\<lparr>lx_token_column := u\<rparr>) k = (lx_at L k)\<lparr>lx_token_column := u\<rparr>"
  "lx_at (L\<lparr>lx_interp_braces := u\<rparr>) k = (lx_at L k)\<lparr>lx_interp_braces := u\<rparr>"
  "lx_at (L\<lparr>lx_in_php := b\<rparr>) k = (lx_at L k)\<lparr>lx_in_php := b\<rparr>"
  "lx_at (L\<lparr>lx_pending_error := b\<rparr>) k = (lx_at L k)\<lparr>lx_pending_error := b\<rparr>"
  "lx_at (L\<lparr>lx_error_start := a\<rparr>) k = (lx_at L k)\<lparr>lx_error_start := a\<rparr>"
  "lx_at (L\<lparr>lx_error_line := u\<rparr>) k = (lx_at L k)\<lparr>lx_error_line := u\<rparr>"
  "lx_at (L\<lparr>lx_error_column := u\<rparr>) k = (lx_at L k)\<lparr>lx_error_column := u\<rparr>"
  "lx_at (L\<lparr>lx_mode := m\<rparr>) k = (lx_at L k)\<lparr>lx_mode := m\<rparr>"
  "lx_at (L\<lparr>lx_error := M\<rparr>) k = (lx_at L k)\<lparr>lx_error := M\<rparr>"
  by (simp_all add: lx_at_def)

lemma at_end_at [simp]: "at_end (lx_at L k) \<longleftrightarrow> lx_length L \<le> k"
  by (simp add: at_end_def)

lemma peek_at [simp]: "k < lx_length L \<Longrightarrow> peek (lx_at L k) = lx_source L ! k"
  by (simp add: peek_def)

lemma peek_at_end [simp]: "lx_length L \<le> k \<Longrightarrow> peek (lx_at L k) = NUL"
  by (simp add: peek_def)

lemma line_at_Suc: "k < length source \<Longrightarrow>
    line_at source (k + 1) = (if source ! k = LF then line_at source k + 1 else line_at source k)"
  by (simp add: line_at_def take_Suc_conv_app_nth)

lemma column_at_Suc: "k < length source \<Longrightarrow>
    column_at source (k + 1) = (if source ! k = LF then 1 else column_at source k + 1)"
  by (simp add: column_at_def take_Suc_conv_app_nth)

lemma advance_at: "k < lx_length L \<Longrightarrow> advance (lx_at L k) = (lx_source L ! k, lx_at L (k + 1))"
  using line_at_Suc [of k "lx_source L"] column_at_Suc [of k "lx_source L"]
  by (simp add: advance_def Let_def lx_at_def at_end_def)

lemma skip_at [simp]: "k < lx_length L \<Longrightarrow> skip (lx_at L k) = lx_at L (Suc k)"
  by (simp add: skip_def advance_at)

lemma match_at:
  "match_char (lx_at L k) c =
     (if k < lx_length L \<and> lx_source L ! k = c then (True, lx_at L (Suc k)) else (False, lx_at L k))"
  by (auto simp: match_char_def)

lemma peek_not_NUL: "peek (lx_at L k) = c \<Longrightarrow> c \<noteq> NUL \<Longrightarrow> k < lx_length L"
  by (cases "k < lx_length L") auto

text \<open>A stretch without line ends.\<close>

lemma stretch_at:
  "k \<le> j \<Longrightarrow> j \<le> length source \<Longrightarrow> (\<forall>i. k \<le> i \<and> i < j \<longrightarrow> source ! i \<noteq> LF) \<Longrightarrow>
   line_at source j = line_at source k \<and> column_at source j = column_at source k + of_nat (j - k)"
proof (induction j)
  case 0
  then show ?case by simp
next
  case (Suc j)
  show ?case
  proof (cases "k = Suc j")
    case False
    then show ?thesis
      using Suc line_at_Suc [of j source] column_at_Suc [of j source] by (simp add: Suc_diff_le)
  qed simp
qed

section \<open>The loops\<close>

lemma while_at:
  assumes "k \<le> lx_length L"
  obtains j where "k \<le> j" "j \<le> lx_length L" "advance_while p (lx_at L k) = lx_at L j"
    "j < lx_length L \<Longrightarrow> \<not> p (lx_at L j)" "\<And>i. k \<le> i \<Longrightarrow> i < j \<Longrightarrow> p (lx_at L i)"
proof -
  have "\<exists>j. k \<le> j \<and> j \<le> lx_length L \<and> advance_while p (lx_at L k) = lx_at L j \<and>
      (j < lx_length L \<longrightarrow> \<not> p (lx_at L j)) \<and> (\<forall>i. k \<le> i \<and> i < j \<longrightarrow> p (lx_at L i))"
    using assms
  proof (induction "lx_length L - k" arbitrary: k)
    case 0
    then have k: "k = lx_length L" by simp
    then show ?case unfolding k
      by (intro exI [of _ "lx_length L"])
        (auto simp: advance_while.simps [of p "lx_at L (lx_length L)"])
  next
    case (Suc n)
    show ?case
    proof (cases "p (lx_at L k)")
      case True
      have "n = lx_length L - Suc k" "Suc k \<le> lx_length L" using Suc(2) by simp_all
      from Suc(1) [OF this] obtain j where j: "Suc k \<le> j" "j \<le> lx_length L"
        "advance_while p (lx_at L (Suc k)) = lx_at L j" "j < lx_length L \<longrightarrow> \<not> p (lx_at L j)"
        "\<forall>i. Suc k \<le> i \<and> i < j \<longrightarrow> p (lx_at L i)" by blast
      have "advance_while p (lx_at L k) = lx_at L j"
        using True Suc(2) j(3) by (simp add: advance_while.simps [of p "lx_at L k"])
      moreover have "\<forall>i. k \<le> i \<and> i < j \<longrightarrow> p (lx_at L i)"
        using j(5) True by (metis le_antisym not_less_eq_eq)
      ultimately show ?thesis using j by (intro exI [of _ j]) simp
    next
      case False
      then show ?thesis
        using Suc(3) by (intro exI [of _ k]) (auto simp: advance_while.simps [of p "lx_at L k"])
    qed
  qed
  then show thesis using that by blast
qed

lemma digits_at:
  "k \<le> lx_length L \<Longrightarrow> \<exists>j n. k \<le> j \<and> j \<le> lx_length L \<and>
     digits_loop base (lx_at L k) count underscore = (n, lx_at L j) \<and>
     (\<forall>i. k \<le> i \<and> i < j \<longrightarrow> lx_source L ! i \<noteq> LF)"
proof (induction "lx_length L - k" arbitrary: k count underscore)
  case 0
  then have k: "k = lx_length L" by simp
  show ?case unfolding k
    by (rule exI [of _ "lx_length L"], rule exI [of _ count])
      (auto simp: digits_loop.simps [of base "lx_at L (lx_length L)"])
next
  case (Suc n)
  have less: "k < lx_length L" "n = lx_length L - Suc k" "Suc k \<le> lx_length L" using Suc(2) by simp_all
  let ?c = "lx_source L ! k"
  have step: ?case
    if "digits_loop base (lx_at L k) count underscore = digits_loop base (lx_at L (Suc k)) count' u'"
      "?c \<noteq> LF" for count' u'
  proof -
    obtain j m where j: "Suc k \<le> j" "j \<le> lx_length L"
      "digits_loop base (lx_at L (Suc k)) count' u' = (m, lx_at L j)"
      "\<forall>i. Suc k \<le> i \<and> i < j \<longrightarrow> lx_source L ! i \<noteq> LF"
      using Suc(1) [OF less(2,3), of count' u'] by blast
    have "\<forall>i. k \<le> i \<and> i < j \<longrightarrow> lx_source L ! i \<noteq> LF"
      using j(4) that(2) by (metis le_antisym not_less_eq_eq)
    then show ?thesis using j that(1) by (intro exI [of _ j] exI [of _ m]) simp
  qed
  have digit: "?c \<noteq> LF" if "is_digit_for_base ?c base"
    using that by (auto simp: is_digit_for_base_def is_digit_def ord_def split: if_splits)
  consider "is_digit_for_base ?c base"
    | "digits_loop base (lx_at L k) count underscore = digits_loop base (lx_at L (Suc k)) count True"
      "?c = CHR ''_''"
    | "digits_loop base (lx_at L k) count underscore = (count, lx_at L k)"
    using less(1) digits_loop.simps [of base "lx_at L k" count underscore] by (auto split: if_splits)
  then show ?case
  proof cases
    case 1
    then have "digits_loop base (lx_at L k) count underscore =
        digits_loop base (lx_at L (Suc k)) (count + 1) False"
      using less(1) by (simp add: digits_loop.simps [of base "lx_at L k"])
    from step [OF this digit [OF 1]] show ?thesis .
  next
    case 2
    from step [OF 2(1)] 2(2) show ?thesis by simp
  next
    case 3
    then show ?thesis using Suc(3) by - (rule exI [of _ k], rule exI [of _ count], auto)
  qed
qed

lemma scan_digits_at:
  assumes "k \<le> lx_length L"
  obtains j n where "k \<le> j" "j \<le> lx_length L" "scan_digits (lx_at L k) base = (n, lx_at L j)"
    "\<forall>i. k \<le> i \<and> i < j \<longrightarrow> lx_source L ! i \<noteq> LF"
  using digits_at [OF assms] unfolding scan_digits_def by blast

lemma quoted_at:
  "k \<le> lx_length L \<Longrightarrow> \<exists>j closed. k \<le> j \<and> j \<le> lx_length L \<and>
     quoted_loop (lx_at L k) quote = (closed, lx_at L j)"
proof (induction "lx_length L - k" arbitrary: k rule: less_induct)
  case less
  note unfold = quoted_loop.simps [of "lx_at L k" quote]
  show ?case
  proof (cases "k < lx_length L")
    case False
    then show ?thesis using less.prems unfold by (intro exI [of _ k]) auto
  next
    case True
    consider "lx_source L ! k = quote"
      | "quoted_loop (lx_at L k) quote = quoted_loop (lx_at L (Suc (Suc k))) quote" "Suc k < lx_length L"
      | "quoted_loop (lx_at L k) quote = quoted_loop (lx_at L (Suc k)) quote"
      using unfold True by (auto split: if_splits)
    then show ?thesis
    proof cases
      case 1
      then show ?thesis using True unfold by (intro exI [of _ "Suc k"] exI [of _ True]) simp
    next
      case 2
      have "lx_length L - Suc (Suc k) < lx_length L - k" "Suc (Suc k) \<le> lx_length L" using 2(2) by simp_all
      from less.hyps [OF this] show ?thesis unfolding 2(1) by (meson Suc_leD)
    next
      case 3
      have "lx_length L - Suc k < lx_length L - k" "Suc k \<le> lx_length L" using True by simp_all
      from less.hyps [OF this] show ?thesis unfolding 3 by (meson Suc_leD)
    qed
  qed
qed

lemma label_at:
  "k \<le> lx_length L \<Longrightarrow> LF \<notin> set label \<Longrightarrow> \<exists>j r. k \<le> j \<and> j \<le> lx_length L \<and>
     heredoc_label (lx_at L k) label = (r, lx_at L j) \<and> (\<forall>l. r = Some l \<longrightarrow> LF \<notin> set l)"
proof (induction "lx_length L - k" arbitrary: k label)
  case 0
  then have k: "k = lx_length L" by simp
  show ?case using 0(3) unfolding k
    by (intro exI [of _ "lx_length L"] exI [of _ "Some label"])
      (simp add: heredoc_label.simps [of "lx_at L (lx_length L)"])
next
  case (Suc n)
  have less: "k < lx_length L" "n = lx_length L - Suc k" "Suc k \<le> lx_length L" using Suc(2) by simp_all
  note unfold = heredoc_label.simps [of "lx_at L k" label]
  consider "is_identifier_part (lx_source L ! k)" "\<not> 64 \<le> length label + 1"
    | "is_identifier_part (lx_source L ! k)" "64 \<le> length label + 1"
    | "\<not> is_identifier_part (lx_source L ! k)" by blast
  then show ?case
  proof cases
    case 1
    have "lx_source L ! k \<noteq> LF"
      using 1(1) by (auto simp: is_identifier_part_def is_identifier_start_def is_digit_def ord_def)
    then have "LF \<notin> set (label @ [lx_source L ! k])" using Suc(4) by auto
    from Suc(1) [OF less(2,3) this] show ?thesis
      unfolding unfold using 1 less(1) by simp (meson Suc_leD)
  next
    case 2
    then show ?thesis unfolding unfold using less(1) by (intro exI [of _ k] exI [of _ None]) simp
  next
    case 3
    then show ?thesis unfolding unfold using less(1) Suc(4)
      by (intro exI [of _ k] exI [of _ "Some label"]) simp
  qed
qed

lemma skip_line_at:
  assumes "k < lx_length L"
  obtains j where "k < j" "j \<le> lx_length L" "skip_line (lx_at L k) = lx_at L j"
    "j < lx_length L \<Longrightarrow> column_at (lx_source L) j = 1"
proof -
  obtain j where j: "k \<le> j" "j \<le> lx_length L"
    "advance_while (\<lambda>L. peek L \<noteq> LF) (lx_at L k) = lx_at L j"
    "j < lx_length L \<Longrightarrow> \<not> (peek (lx_at L j) \<noteq> LF)"
    using while_at [OF less_imp_le [OF assms], of "\<lambda>L. peek L \<noteq> LF"] by metis
  show thesis
  proof (cases "j < lx_length L")
    case True
    then have "lx_source L ! j = LF" using j(4) by simp
    then have "column_at (lx_source L) (Suc j) = 1" using column_at_Suc [OF True] by simp
    moreover have "skip_line (lx_at L k) = lx_at L (Suc j)" using j(3) True by (simp add: skip_line_def)
    ultimately show ?thesis using that [of "Suc j"] j(1) True by simp
  next
    case False
    then have "skip_line (lx_at L k) = lx_at L j" using j(2,3) by (simp add: skip_line_def)
    then show ?thesis using that [of j] j(2) False assms by simp
  qed
qed

lemma starts_with_stretch:
  assumes "starts_with (lx_source L) k label" "LF \<notin> set label" "k \<le> lx_length L"
  defines "j \<equiv> k + length label"
  shows "j \<le> lx_length L"
    and "(lx_at L k)\<lparr>lx_current := j, lx_column := column_at (lx_source L) k + of_nat (length label)\<rparr> = lx_at L j"
proof -
  have fits: "length label \<le> lx_length L - k" and same: "take (length label) (drop k (lx_source L)) = label"
    using assms(1) by (simp_all add: starts_with_def)
  show j: "j \<le> lx_length L" using fits assms(3) by (simp add: j_def)
  have "lx_source L ! i \<noteq> LF" if "k \<le> i" "i < j" for i
  proof -
    have i: "i - k < length label" using that by (simp add: j_def)
    then have "label ! (i - k) = lx_source L ! i"
      using arg_cong [OF same, of "\<lambda>xs. xs ! (i - k)"] that(1) assms(3) by simp
    then show ?thesis using nth_mem [OF i] assms(2) by metis
  qed
  then show "(lx_at L k)\<lparr>lx_current := j,
      lx_column := column_at (lx_source L) k + of_nat (length label)\<rparr> = lx_at L j"
    using stretch_at [of k j "lx_source L"] j by (simp add: j_def lx_at_def)
qed

lemma blanks_at:
  assumes "k \<le> lx_length L"
  obtains j where "k \<le> j" "j \<le> lx_length L"
    "advance_while (\<lambda>L. peek L = CHR '' '' \<or> peek L = TAB) (lx_at L k) = lx_at L j"
    "line_at (lx_source L) j = line_at (lx_source L) k"
proof -
  let ?p = "\<lambda>L. peek L = CHR '' '' \<or> peek L = TAB"
  show thesis
  proof (rule while_at [OF assms, of ?p])
    fix j
    assume j: "k \<le> j" "j \<le> lx_length L" "advance_while ?p (lx_at L k) = lx_at L j"
      and blank: "\<And>i. k \<le> i \<Longrightarrow> i < j \<Longrightarrow> ?p (lx_at L i)"
    have "lx_source L ! i \<noteq> LF" if "k \<le> i" "i < j" for i
      using blank [OF that] that(2) j(2) by auto
    then show thesis using that [OF j] stretch_at [OF j(1,2)] by blast
  qed
qed

lemma heredoc_at:
  "k \<le> lx_length L \<Longrightarrow> k < lx_length L \<longrightarrow> column_at (lx_source L) k = 1 \<Longrightarrow> LF \<notin> set label \<Longrightarrow>
   \<exists>j closed. k \<le> j \<and> j \<le> lx_length L \<and> heredoc_body (lx_at L k) label = (closed, lx_at L j)"
proof (induction "lx_length L - k" arbitrary: k rule: less_induct)
  case less
  note unfold = heredoc_body.simps [of "lx_at L k" label]
  show ?case
  proof (cases "k < lx_length L")
    case False
    then show ?thesis using less.prems(1) unfold by (intro exI [of _ k]) auto
  next
    case True
    obtain c where c: "k \<le> c" "c \<le> lx_length L"
      "advance_while (\<lambda>L. peek L = CHR '' '' \<or> peek L = TAB) (lx_at L k) = lx_at L c"
      "line_at (lx_source L) c = line_at (lx_source L) k"
      using blanks_at [OF less.prems(1)] .
    show ?thesis
    proof (cases "label_here (lx_at L c) label")
      case here: True
      have "starts_with (lx_source L) c label" using here by (simp add: label_here_def)
      note j = starts_with_stretch [OF this less.prems(3) c(2)]
      show ?thesis unfolding unfold Let_def c(3) using True here j c(1)
        by (intro exI [of _ "c + length label"] exI [of _ True]) simp
    next
      case no: False
      have again: "(lx_at L c)\<lparr>lx_current := k, lx_column := 1\<rparr> = lx_at L k"
        using c(4) less.prems(2) True by (simp add: lx_at_def)
      obtain j where j: "k < j" "j \<le> lx_length L" "skip_line (lx_at L k) = lx_at L j"
        "j < lx_length L \<Longrightarrow> column_at (lx_source L) j = 1"
        using skip_line_at [OF True] by metis
      have step: "heredoc_body (lx_at L k) label = heredoc_body (lx_at L j) label"
        unfolding unfold Let_def c(3) using True no again j(3) by simp
      have "lx_length L - j < lx_length L - k" using j(1) True by simp
      from less.hyps [OF this j(2)] j(1,4) less.prems(3) show ?thesis
        unfolding step by (meson less_imp_le order.trans)
    qed
  qed
qed

lemma part_at:
  "k \<le> lx_length L \<Longrightarrow> lx_interp_end L = Some limit \<Longrightarrow> limit \<le> lx_length L \<Longrightarrow>
   \<exists>j. k \<le> j \<and> j \<le> lx_length L \<and> part_loop (lx_at L k) = lx_at L j \<and>
     (k < limit \<and> \<not> part_stops (lx_at L k) \<longrightarrow> k < j)"
proof (induction "lx_length L - k" arbitrary: k rule: less_induct)
  case less
  note unfold = part_loop.simps [of "lx_at L k"]
  have lim: "interp_limit (lx_at L k) = limit" for k using less.prems(2) by (simp add: interp_limit_def)
  have IH: "\<exists>j. i \<le> j \<and> j \<le> lx_length L \<and> part_loop (lx_at L i) = lx_at L j"
    if "k < i" "i \<le> lx_length L" for i
    using less.hyps [of i] that less.prems by (meson diff_less_mono2 order.strict_trans2)
  show ?case
  proof (cases "k < limit")
    case False
    then show ?thesis using less.prems(1) unfold lim by (intro exI [of _ k]) auto
  next
    case True
    then have k: "k < lx_length L" using less.prems(3) by simp
    have step: "part_loop (lx_at L k) =
        (if lx_source L ! k = BACKSLASH \<and> Suc k < limit then part_loop (skip (skip (lx_at L k)))
         else if part_stops (lx_at L k) then lx_at L k else part_loop (lx_at L (Suc k)))"
      unfolding unfold lim using True k by simp
    consider (escape) "lx_source L ! k = BACKSLASH \<and> Suc k < limit"
      | (stop) "\<not> (lx_source L ! k = BACKSLASH \<and> Suc k < limit)" "part_stops (lx_at L k)"
      | (more) "\<not> (lx_source L ! k = BACKSLASH \<and> Suc k < limit)" "\<not> part_stops (lx_at L k)" by blast
    then show ?thesis
    proof cases
      case escape
      then have "Suc k < lx_length L" using less.prems(3) by simp
      moreover from this have "part_loop (lx_at L k) = part_loop (lx_at L (Suc (Suc k)))"
        unfolding step using escape k by simp
      moreover obtain j where "Suc (Suc k) \<le> j" "j \<le> lx_length L"
        "part_loop (lx_at L (Suc (Suc k))) = lx_at L j"
        using IH [of "Suc (Suc k)"] calculation(1) by auto
      ultimately show ?thesis by (intro exI [of _ j]) simp
    next
      case stop
      then show ?thesis unfolding step if_not_P [OF stop(1)] using k by (intro exI [of _ k]) simp
    next
      case more
      obtain j where "Suc k \<le> j" "j \<le> lx_length L" "part_loop (lx_at L (Suc k)) = lx_at L j"
        using IH [of "Suc k"] k by auto
      then show ?thesis unfolding step if_not_P [OF more(1)] using more by (intro exI [of _ j]) simp
    qed
  qed
qed

end
