(* ===== verification/LexerScan.thy ===== *)
theory LexerScan
  imports LexerTrack
begin

text \<open>
  The scanners one by one.  \<open>scans L start k r\<close>: from offset \<open>k\<close> of the state \<open>L\<close> a scanner
  produced the token that starts at \<open>start\<close> and ends where the lexer now stands; besides the
  position only the message and the switch into an interpolated string may have changed.
\<close>

definition scans :: "pc_lexer \<Rightarrow> nat \<Rightarrow> nat \<Rightarrow> pc_token \<times> pc_lexer \<Rightarrow> bool" where
  "scans L start k r \<longleftrightarrow>
     (\<exists>j t M m e. k \<le> j \<and> j \<le> lx_length L \<and> t \<noteq> T_EOF \<and> (t = T_ERROR \<longrightarrow> M \<noteq> []) \<and>
       (m = lx_mode L \<and> e = lx_interp_end L \<or>
        m = PC_LEX_INTERPOLATION \<and> (\<exists>limit < lx_length L. e = Some limit)) \<and>
       r = (make_token (lx_at L j) t start,
            (lx_at L j)\<lparr>lx_error := M, lx_mode := m, lx_interp_end := e\<rparr>))"

lemma same_fields: "L\<lparr>lx_error := lx_error L, lx_mode := lx_mode L, lx_interp_end := lx_interp_end L\<rparr> = L"
  by simp

lemma scans_token:
  assumes "k \<le> j" "j \<le> lx_length L" "T_ERROR < t"
  shows "scans L start k (make_token (lx_at L j) t start, lx_at L j)"
proof -
  have "t \<noteq> T_EOF" "t \<noteq> T_ERROR" using assms(3) by (auto simp: token_defs)
  then show ?thesis unfolding scans_def
    by (intro exI [of _ j] exI [of _ t] exI [of _ "lx_error L"] exI [of _ "lx_mode L"]
        exI [of _ "lx_interp_end L"]) (simp add: assms)
qed

lemma scans_error:
  assumes "k \<le> j" "j \<le> lx_length L" "message \<noteq> []"
  shows "scans L start k (error_token (lx_at L j) start message)"
proof -
  have "T_ERROR \<noteq> T_EOF" "take 159 message \<noteq> []" using assms(3) by (auto simp: token_defs)
  then show ?thesis unfolding scans_def
    by (intro exI [of _ j] exI [of _ T_ERROR] exI [of _ "take 159 message"] exI [of _ "lx_mode L"]
        exI [of _ "lx_interp_end L"])
      (simp add: assms error_token_def set_error_def make_token_def)
qed

lemma scans_interpolated:
  assumes "k \<le> j" "j \<le> lx_length L" "T_ERROR < t" "limit < lx_length L"
  shows "scans L start k (make_token ((lx_at L j)\<lparr>lx_interp_end := Some limit, lx_mode := PC_LEX_INTERPOLATION\<rparr>) t start,
    (lx_at L j)\<lparr>lx_interp_end := Some limit, lx_mode := PC_LEX_INTERPOLATION\<rparr>)"
proof -
  have "t \<noteq> T_EOF" "t \<noteq> T_ERROR" using assms(3) by (auto simp: token_defs)
  then show ?thesis unfolding scans_def
    by (intro exI [of _ j] exI [of _ t] exI [of _ "lx_error L"] exI [of _ PC_LEX_INTERPOLATION]
        exI [of _ "Some limit"]) (simp add: assms make_token_def)
qed

section \<open>Identifiers and numbers\<close>

lemma scan_identifier_scans:
  assumes "k \<le> lx_length L"
  shows "scans L start k (scan_identifier (lx_at L k) start)"
proof (rule while_at [OF assms, of "\<lambda>L. is_identifier_part (peek L)"])
  fix j
  assume j: "k \<le> j" "j \<le> lx_length L"
    "advance_while (\<lambda>L. is_identifier_part (peek L)) (lx_at L k) = lx_at L j"
  show ?thesis
    unfolding scan_identifier_def Let_def j(3) by (rule scans_token [OF j(1,2) identifier_type_proper])
qed

lemma skip_if_at:
  assumes "k \<le> lx_length L" "\<not> p NUL"
  shows "\<exists>s. k \<le> s \<and> s \<le> lx_length L \<and>
    (if p (peek (lx_at L k)) then skip (lx_at L k) else lx_at L k) = lx_at L s \<and>
    (\<forall>i. k \<le> i \<and> i < s \<longrightarrow> p (lx_source L ! i))"
proof (cases "k < lx_length L \<and> p (lx_source L ! k)")
  case True
  then show ?thesis by (intro exI [of _ "Suc k"]) (auto simp: le_less_Suc_eq)
next
  case False
  then have "\<not> p (peek (lx_at L k))" using assms by (cases "k < lx_length L") simp_all
  then show ?thesis using assms by (intro exI [of _ k]) auto
qed

lemma scan_exponent_at:
  assumes "k \<le> lx_length L"
  obtains j is_float' where "k \<le> j" "j \<le> lx_length L"
    "scan_exponent (lx_at L k) is_float = (is_float', lx_at L j)"
proof (cases "k < lx_length L \<and> (lx_source L ! k = CHR ''e'' \<or> lx_source L ! k = CHR ''E'')")
  case False
  then have "scan_exponent (lx_at L k) is_float = (is_float, lx_at L k)"
    by (auto simp: scan_exponent_def)
  then show ?thesis using that assms by blast
next
  case True
  let ?p = "\<lambda>c. c = CHR ''+'' \<or> c = CHR ''-''"
  have Suc: "Suc k \<le> lx_length L" using True by simp
  obtain s where s: "Suc k \<le> s" "s \<le> lx_length L"
    and L2: "(if ?p (peek (lx_at L (Suc k))) then skip (lx_at L (Suc k)) else lx_at L (Suc k)) = lx_at L s"
    and signs: "\<forall>i. Suc k \<le> i \<and> i < s \<longrightarrow> ?p (lx_source L ! i)"
  proof -
    have "\<not> ?p NUL" by simp
    from skip_if_at [where p = ?p, OF Suc this] show thesis by (elim exE conjE) (rule that)
  qed
  obtain j n where j: "s \<le> j" "j \<le> lx_length L" "scan_digits (lx_at L s) 10 = (n, lx_at L j)"
    and digits: "\<forall>i. s \<le> i \<and> i < j \<longrightarrow> lx_source L ! i \<noteq> LF"
    using scan_digits_at [OF s(2)] by metis
  have "lx_source L ! i \<noteq> LF" if lo: "k \<le> i" and hi: "i < j" for i
  proof -
    consider "i = k" | "Suc k \<le> i" "i < s" | "s \<le> i" using lo by linarith
    then show ?thesis
    proof cases
      case 1
      then show ?thesis using True by auto
    next
      case 2
      then show ?thesis using signs by auto
    next
      case 3
      then show ?thesis using digits hi by blast
    qed
  qed
  then have "line_at (lx_source L) j = line_at (lx_source L) k"
    using stretch_at [of k j "lx_source L"] j(1,2) s(1) by simp
  then have again: "(lx_at L j)\<lparr>lx_current := k, lx_column := column_at (lx_source L) k\<rparr> = lx_at L k"
    by (simp add: lx_at_def)
  have "scan_exponent (lx_at L k) is_float =
      (if n = 0 then (is_float, (lx_at L j)\<lparr>lx_current := k, lx_column := column_at (lx_source L) k\<rparr>)
       else (True, lx_at L j))"
    unfolding scan_exponent_def using True L2 j(3) by (simp add: Let_def)
  then show ?thesis unfolding again
    using that [of k is_float] that [of j True] assms j s by (cases "n = 0") simp_all
qed

lemma scan_fraction_scans:
  assumes "k \<le> lx_length L"
  shows "scans L start k (scan_fraction (lx_at L k) start is_float)"
proof -
  obtain j f where j: "k \<le> j" "j \<le> lx_length L"
    and first: "(if \<not> at_end (lx_at L k) \<and> peek (lx_at L k) = CHR ''.'' \<and> peek_next (lx_at L k) \<noteq> CHR ''.''
      then (True, snd (scan_digits (skip (lx_at L k)) 10)) else (is_float, lx_at L k)) = (f, lx_at L j)"
  proof (cases "k < lx_length L \<and> lx_source L ! k = CHR ''.'' \<and> peek_next (lx_at L k) \<noteq> CHR ''.''")
    case True
    obtain j n where "Suc k \<le> j" "j \<le> lx_length L" "scan_digits (lx_at L (Suc k)) 10 = (n, lx_at L j)"
      using scan_digits_at [of "Suc k" L 10] True by (metis Suc_leI)
    then show ?thesis using that [of j True] True by simp
  next
    case False
    then have "\<not> (\<not> at_end (lx_at L k) \<and> peek (lx_at L k) = CHR ''.'' \<and> peek_next (lx_at L k) \<noteq> CHR ''.'')"
      by (cases "k < lx_length L") simp_all
    then show ?thesis by (intro that [of k is_float]) (simp_all only: order.refl assms if_False)
  qed
  obtain i g where i: "j \<le> i" "i \<le> lx_length L" "scan_exponent (lx_at L j) f = (g, lx_at L i)"
    using scan_exponent_at [OF j(2)] .
  have "T_ERROR < (if g then T_FLOAT else T_INTEGER)" by (simp add: token_defs)
  from scans_token [OF order.trans [OF j(1) i(1)] i(2) this] show ?thesis
    unfolding scan_fraction_def first by (simp add: i(3))
qed

lemma scans_mono: "scans L start j r \<Longrightarrow> k \<le> j \<Longrightarrow> scans L start k r"
  unfolding scans_def by (elim ex_forward) simp

lemma scan_number_scans:
  assumes "k \<le> lx_length L"
  shows "scans L start k (scan_number (lx_at L k) start leading_dot)"
proof -
  have plain: "scans L start k (scan_fraction (snd (scan_digits (lx_at L k) 10)) start leading_dot)"
  proof -
    obtain j n where j: "k \<le> j" "j \<le> lx_length L" "scan_digits (lx_at L k) 10 = (n, lx_at L j)"
      using scan_digits_at [OF assms] by blast
    show ?thesis
      unfolding j(3) snd_conv by (rule scans_mono [OF scan_fraction_scans [OF j(2)] j(1)])
  qed
  define base where "base = prefix_base (peek (lx_at L k))"
  show ?thesis
  proof (cases "\<not> leading_dot \<and> lx_source L ! start = CHR ''0'' \<and> k < lx_length L \<and> base \<noteq> 0")
    case False
    then have "scan_number (lx_at L k) start leading_dot =
        scan_fraction (snd (scan_digits (lx_at L k) 10)) start leading_dot"
      by (auto simp: scan_number_def base_def)
    then show ?thesis using plain by simp
  next
    case True
    then have "Suc k \<le> lx_length L" by simp
    obtain j n where j: "Suc k \<le> j" "j \<le> lx_length L" "scan_digits (lx_at L (Suc k)) base = (n, lx_at L j)"
      using scan_digits_at [OF \<open>Suc k \<le> _\<close>, of base] by (metis (no_types))
    let ?message = "''expected base-'' @ decimal_text base @ '' digit after numeric prefix''"
    have number: "scan_number (lx_at L k) start leading_dot =
        (if n = 0 then error_token (lx_at L j) start ?message else (make_token (lx_at L j) T_INTEGER start, lx_at L j))"
      using True j(3) by (simp add: scan_number_def Let_def del: peek_at flip: base_def)
    have "scans L start k (error_token (lx_at L j) start ?message)"
      by (rule scans_error [OF Suc_leD [OF j(1)] j(2)]) simp
    moreover have "scans L start k (make_token (lx_at L j) T_INTEGER start, lx_at L j)"
      by (rule scans_token [OF Suc_leD [OF j(1)] j(2)]) (simp add: token_defs)
    ultimately show ?thesis unfolding number by simp
  qed
qed

section \<open>Strings and heredoc\<close>

lemma double_quote_end_bound: "double_quote_end source k = Some j \<Longrightarrow> k \<le> j \<and> j < length source"
proof (induction source k rule: double_quote_end.induct)
  case (1 source k)
  show ?case
    using 1 by (subst (asm) double_quote_end.simps) (auto split: if_splits)
qed

lemma scan_plain_scans:
  assumes "k \<le> lx_length L"
  shows "scans L start k (scan_plain (lx_at L k) start quote)"
proof -
  obtain j closed where j: "k \<le> j" "j \<le> lx_length L" "quoted_loop (lx_at L k) quote = (closed, lx_at L j)"
    using quoted_at [OF assms] by blast
  have "T_ERROR < (if quote = QUOTE then T_SINGLE_QUOTED else T_DOUBLE_QUOTED)" by (simp add: token_defs)
  from scans_token [OF j(1,2) this] show ?thesis
    unfolding scan_plain_def j(3) by (simp add: scans_error [OF j(1,2)])
qed

lemma scan_quoted_scans:
  assumes "k \<le> lx_length L"
  shows "scans L start k (scan_quoted (lx_at L k) start quote)"
proof (cases "quote = DQUOTE")
  case False
  then show ?thesis using scan_plain_scans [OF assms] by (simp add: scan_quoted_def)
next
  case True
  show ?thesis
  proof (cases "double_quote_end (lx_source L) k")
    case None
    show ?thesis
    proof (rule while_at [OF assms, of "\<lambda>L. True"])
      fix j
      assume "k \<le> j" "j \<le> lx_length L" "advance_while (\<lambda>L. True) (lx_at L k) = lx_at L j"
      then show ?thesis
        using scans_error [of k j L] True None by (simp add: scan_quoted_def find_double_quote_end_def)
    qed
  next
    case (Some limit)
    have "T_ERROR < T_INTERP_START" by (simp add: token_defs)
    note interpolated = scans_interpolated [OF order.refl assms this conjunct2 [OF double_quote_end_bound [OF Some]]]
    show ?thesis
    proof (cases "contains_interpolation (lx_source L) k limit")
      case True
      then show ?thesis using interpolated \<open>quote = DQUOTE\<close> Some
        by (simp add: scan_quoted_def find_double_quote_end_def Let_def)
    next
      case False
      then show ?thesis using scan_plain_scans [OF assms] \<open>quote = DQUOTE\<close> Some
        by (simp add: scan_quoted_def find_double_quote_end_def)
    qed
  qed
qed

lemma scan_heredoc_scans:
  assumes "k \<le> lx_length L"
  shows "scans L start k (scan_heredoc (lx_at L k) start)"
proof -
  let ?p = "\<lambda>c. c = QUOTE \<or> c = DQUOTE"
  define quote where "quote = (if ?p (peek (lx_at L k)) then peek (lx_at L k) else NUL)"
  obtain a where a: "k \<le> a" "a \<le> lx_length L"
    and "(if ?p (peek (lx_at L k)) then skip (lx_at L k) else lx_at L k) = lx_at L a"
  proof -
    have "\<not> ?p NUL" by simp
    from skip_if_at [where p = ?p, OF assms this] show thesis by (elim exE conjE) (rule that)
  qed
  then have opened: "(if ?p (peek (lx_at L k)) then (peek (lx_at L k), skip (lx_at L k)) else (NUL, lx_at L k)) =
      (quote, lx_at L a)" unfolding quote_def by (cases "?p (peek (lx_at L k))") simp_all
  obtain b r where b: "a \<le> b" "b \<le> lx_length L" "heredoc_label (lx_at L a) [] = (r, lx_at L b)"
    "\<forall>l. r = Some l \<longrightarrow> LF \<notin> set l"
    using label_at [OF a(2), of "[]"] by auto
  have kb: "k \<le> b" using a b by simp
  show ?thesis
  proof (cases r)
    case None
    show ?thesis unfolding scan_heredoc_def opened
      using b(3) None scans_error [OF kb b(2)] by simp
  next
    case (Some label)
    obtain c quoted where c: "b \<le> c" "c \<le> lx_length L"
      and closing: "(if length label = 0 then (False, lx_at L b)
        else if quote \<noteq> NUL then match_char (lx_at L b) quote else (True, lx_at L b)) = (quoted, lx_at L c)"
    proof -
      consider "label = []" | "label \<noteq> []" "quote = NUL"
        | "label \<noteq> []" "quote \<noteq> NUL" "b < lx_length L \<and> lx_source L ! b = quote"
        | "label \<noteq> []" "quote \<noteq> NUL" "\<not> (b < lx_length L \<and> lx_source L ! b = quote)"
        by blast
      then show thesis
      proof cases
        case 1
        then show ?thesis using b(2) by (intro that [of b False]) simp_all
      next
        case 2
        then show ?thesis using b(2) by (intro that [of b True]) simp_all
      next
        case 3
        then show ?thesis by (intro that [of "Suc b" True]) (simp_all add: match_at)
      next
        case 4
        show ?thesis unfolding match_at if_not_P [OF 4(3)]
          using 4(1,2) b(2) by (intro that [of b False]) (simp_all add: match_at if_not_P [OF 4(3)])
      qed
    qed
    have kc: "k \<le> c" using kb c(1) by simp
    obtain d where d: "c \<le> d" "d \<le> lx_length L"
      and cr: "(if peek (lx_at L c) = CR then skip (lx_at L c) else lx_at L c) = lx_at L d"
    proof -
      have "NUL \<noteq> CR" by simp
      from skip_if_at [OF c(2), of "\<lambda>c. c = CR", OF this] show thesis by (elim exE conjE) (rule that)
    qed
    have unfolded: "scan_heredoc (lx_at L k) start =
      (if \<not> quoted then error_token (lx_at L c) start ''invalid heredoc label''
       else let (newline, M) = match_char (lx_at L d) LF
         in if \<not> newline then error_token M start ''expected newline after heredoc label''
            else let (closed, M) = heredoc_body M label
              in if closed then (make_token M (if quote = QUOTE then T_NOWDOC else T_HEREDOC) start, M)
                 else error_token M start (''unterminated heredoc '' @ label))"
      unfolding scan_heredoc_def opened using b(3) Some closing cr by (simp add: Let_def)
    show ?thesis
    proof (cases "quoted \<and> d < lx_length L \<and> lx_source L ! d = LF")
      case False
      have "k \<le> d" using kc d(1) by simp
      show ?thesis unfolding unfolded match_at
        using False scans_error [OF kc c(2)] scans_error [OF \<open>k \<le> d\<close> d(2)] by auto
    next
      case True
      then have "Suc d \<le> lx_length L" "column_at (lx_source L) (Suc d) = 1"
        using column_at_Suc [of d "lx_source L"] by simp_all
      then obtain e closed where e: "Suc d \<le> e" "e \<le> lx_length L"
        "heredoc_body (lx_at L (Suc d)) label = (closed, lx_at L e)"
        using heredoc_at [of "Suc d" L label] b(4) Some by auto
      have ke: "k \<le> e" using kc d(1) e(1) by simp
      have "T_ERROR < (if quote = QUOTE then T_NOWDOC else T_HEREDOC)" by (simp add: token_defs)
      from scans_token [OF ke e(2) this] show ?thesis unfolding unfolded match_at
        using True e(3) scans_error [OF ke e(2)] by simp
    qed
  qed
qed

end
