(* ===== verification/LexerProps.thy ===== *)
theory LexerProps
  imports LexerScan
begin

text \<open>
  The lexer as a whole: \<open>pc_lexer_next\<close> keeps the state on track and moves over the source,
  so the tokens follow each other with exact positions, and the end of the source is reached.
\<close>

section \<open>Operators and variables\<close>

lemma on_match_scans:
  assumes "k \<le> j" "j \<le> lx_length L"
    and "\<And>i. k \<le> i \<Longrightarrow> i \<le> lx_length L \<Longrightarrow> scans L start k (yes (lx_at L i))"
    and "\<And>i. k \<le> i \<Longrightarrow> i \<le> lx_length L \<Longrightarrow> scans L start k (no (lx_at L i))"
  shows "scans L start k (on_match c yes no (lx_at L j))"
  using assms by (simp add: on_match_def match_at)

lemma token_scans:
  "k \<le> j \<Longrightarrow> j \<le> lx_length L \<Longrightarrow> T_ERROR < t \<Longrightarrow> scans L start k (token start t (lx_at L j))"
  unfolding token_def by (rule scans_token)

lemma starts_with_bound: "starts_with source i name \<Longrightarrow> i \<le> length source \<Longrightarrow> i + length name \<le> length source"
  unfolding starts_with_def by linarith

lemma question_operator_scans:
  assumes "k \<le> j" "j \<le> lx_length L"
  shows "scans L start k (question_operator start (lx_at L j))"
proof (cases "starts_with (lx_source L) j ''->''")
  case True
  then have "j + 2 \<le> lx_length L" using starts_with_bound [OF True assms(2)] by simp
  then show ?thesis using True assms(1)
    by (simp add: question_operator_def token_scans token_defs)
next
  case False
  then show ?thesis using assms by (simp add: question_operator_def token_scans token_defs)
qed

lemma single_operator_type: "single_operator c = Some t \<Longrightarrow> T_ERROR < t"
  by (auto simp: single_operator_def token_defs split: if_splits)

lemma if_scans:
  "scans L start k (f M) \<Longrightarrow> scans L start k (g M) \<Longrightarrow> scans L start k ((if b then f else g) M)"
  by simp

lemma compound_operator_scans:
  assumes "k \<le> lx_length L"
  shows "scans L start k (compound_operator start c (lx_at L k))"
  unfolding compound_operator_def Let_def
  by (rule if_scans on_match_scans token_scans scans_error question_operator_scans order.refl assms
      | assumption | (simp add: token_defs; fail))+

lemma scan_operator_scans:
  assumes "k \<le> lx_length L"
  shows "scans L start k (scan_operator (lx_at L k) start c)"
proof (cases "single_operator c")
  case None
  then show ?thesis using compound_operator_scans [OF assms] by (simp add: scan_operator_def)
next
  case (Some t)
  show ?thesis
    using token_scans [OF order.refl assms single_operator_type [OF Some]] Some
    by (simp add: scan_operator_def)
qed

lemma scan_variable_scans:
  assumes "k \<le> lx_length L"
  shows "scans L start k (scan_variable (lx_at L k) start)"
proof (rule while_at [OF assms, of "\<lambda>L. is_identifier_part (peek L)"])
  fix j
  assume j: "k \<le> j" "j \<le> lx_length L"
    "advance_while (\<lambda>L. is_identifier_part (peek L)) (lx_at L k) = lx_at L j"
  have "T_ERROR < T_VARIABLE" by (simp add: token_defs)
  from scans_token [OF j(1,2) this] scans_error [OF order.refl assms] show ?thesis
    unfolding scan_variable_def Let_def j(3) by simp
qed

lemma scan_from_scans:
  assumes "k \<le> lx_length L"
  shows "scans L start k (scan_from (lx_at L k) start c)"
proof -
  have "scans L start k (scan_heredoc (skip (skip (lx_at L k))) start)"
    if "starts_with (lx_source L) k ''<<''"
  proof -
    have two: "k + 2 \<le> lx_length L" using starts_with_bound [OF that assms] by simp
    then have "skip (skip (lx_at L k)) = lx_at L (k + 2)" by simp
    then show ?thesis using scans_mono [OF scan_heredoc_scans [OF two]] by simp
  qed
  then show ?thesis
    unfolding scan_from_def
    using assms by (simp add: scan_identifier_scans scan_number_scans scan_variable_scans
        scan_quoted_scans scan_operator_scans)
qed

section \<open>White space and comments\<close>

lemma peek_next_at: "peek_next (lx_at L k) = c \<Longrightarrow> c \<noteq> NUL \<Longrightarrow> Suc k < lx_length L"
  by (cases "Suc k < lx_length L") (auto simp: peek_next_def)

definition unterminated :: "pc_lexer \<Rightarrow> nat \<Rightarrow> pc_lexer" where
  "unterminated L c = set_error
     ((lx_at L (lx_length L))\<lparr>lx_error_start := Some c, lx_error_line := line_at (lx_source L) c,
        lx_error_column := column_at (lx_source L) c, lx_pending_error := True\<rparr>)
     ''unterminated block comment''"

lemma space_at:
  "k \<le> lx_length L \<Longrightarrow>
   (\<exists>j. k \<le> j \<and> j \<le> lx_length L \<and> skip_space_and_comments (lx_at L k) = lx_at L j) \<or>
   (\<exists>c. k \<le> c \<and> c < lx_length L \<and> skip_space_and_comments (lx_at L k) = unterminated L c)"
proof (induction "lx_length L - k" arbitrary: k rule: less_induct)
  case less
  note unfold = skip_space_and_comments.simps [of "lx_at L k"]
  have IH: ?case
    if "skip_space_and_comments (lx_at L k) = skip_space_and_comments (lx_at L j)" "k < j" "j \<le> lx_length L" for j
  proof -
    have "lx_length L - j < lx_length L - k" using that(2,3) by simp
    from less.hyps [OF this that(3)] show ?thesis unfolding that(1) using that(2) by (meson less_imp_le order.trans)
  qed
  let ?c = "lx_source L ! k"
  consider (finished) "\<not> k < lx_length L"
    | (blank) "k < lx_length L" "?c = CHR '' '' \<or> ?c = TAB \<or> ?c = CR \<or> ?c = LF"
    | (line) "k < lx_length L" "\<not> (?c = CHR '' '' \<or> ?c = TAB \<or> ?c = CR \<or> ?c = LF)"
        "?c = CHR ''#'' \<or> (?c = CHR ''/'' \<and> peek_next (lx_at L k) = CHR ''/'')"
    | (block) "k < lx_length L" "?c = CHR ''/''" "peek_next (lx_at L k) = CHR ''*''"
    | (other) "k < lx_length L" "\<not> (?c = CHR '' '' \<or> ?c = TAB \<or> ?c = CR \<or> ?c = LF)"
        "\<not> (?c = CHR ''#'' \<or> (?c = CHR ''/'' \<and> peek_next (lx_at L k) = CHR ''/''))"
        "\<not> (?c = CHR ''/'' \<and> peek_next (lx_at L k) = CHR ''*'')"
    by blast
  then show ?case
  proof cases
    case finished
    then show ?thesis using less.prems unfold by auto
  next
    case blank
    have "skip_space_and_comments (lx_at L k) = skip_space_and_comments (lx_at L (Suc k))"
      unfolding unfold using blank by simp
    from IH [OF this] show ?thesis using blank by simp
  next
    case line
    let ?p = "\<lambda>L. peek L \<noteq> LF \<and> \<not> (peek L = CHR ''?'' \<and> peek_next L = CHR ''>'')"
    show ?thesis
    proof (rule while_at [OF less.prems, of ?p])
      fix j
      assume j: "k \<le> j" "j \<le> lx_length L" "advance_while ?p (lx_at L k) = lx_at L j"
        and stop: "j < lx_length L \<Longrightarrow> \<not> ?p (lx_at L j)"
      have "?p (lx_at L k)" using line by auto
      then have "k < j" using stop line(1) j(1) by (cases "j = k") auto
      moreover have "skip_space_and_comments (lx_at L k) = skip_space_and_comments (lx_at L j)"
        unfolding unfold j(3) [symmetric] using line by simp
      ultimately show ?thesis using IH j(2) by blast
    qed
  next
    case block
    have two: "k + 2 \<le> lx_length L" using peek_next_at [OF block(3)] by simp
    then have start: "skip (skip (lx_at L k)) = lx_at L (k + 2)" by simp
    let ?p = "\<lambda>L. \<not> (peek L = CHR ''*'' \<and> peek_next L = CHR ''/'')"
    show ?thesis
    proof (rule while_at [OF two, of ?p])
      fix j
      assume j: "k + 2 \<le> j" "j \<le> lx_length L" "advance_while ?p (lx_at L (k + 2)) = lx_at L j"
        and stop: "j < lx_length L \<Longrightarrow> \<not> ?p (lx_at L j)"
      show ?thesis
      proof (cases "j < lx_length L")
        case False
        then have "j = lx_length L" using j(2) by simp
        then have "skip_space_and_comments (lx_at L k) = unterminated L k"
          unfolding unfold Let_def start j(3) using block by (simp add: unterminated_def)
        then show ?thesis using block(1) by blast
      next
        case True
        then have "peek_next (lx_at L j) = CHR ''/''" using stop by simp
        from peek_next_at [OF this] have j2: "Suc j < lx_length L" by simp
        then have "skip_space_and_comments (lx_at L k) = skip_space_and_comments (lx_at L (Suc (Suc j)))"
          unfolding unfold Let_def start j(3) using block True by simp
        from IH [OF this] show ?thesis using j(1) j2 by simp
      qed
    qed
  next
    case other
    have "skip_space_and_comments (lx_at L k) = lx_at L k"
      unfolding unfold using other by auto
    then show ?thesis using less.prems by blast
  qed
qed

section \<open>The state between tokens\<close>

text \<open>
  On track: the line and the column are those of the offset.  Between tokens no error is
  pending, and inside an interpolated string the closing quote is a byte of the source.
\<close>

definition lexer_ok :: "pc_lexer \<Rightarrow> bool" where
  "lexer_ok L \<longleftrightarrow>
     lx_at L (lx_current L) = L \<and> lx_current L \<le> lx_length L \<and> \<not> lx_pending_error L \<and>
     (lx_mode L \<noteq> PC_LEX_NORMAL \<longrightarrow> (\<exists>limit < lx_length L. lx_interp_end L = Some limit))"

text \<open>What one token does.\<close>

definition token_ok :: "pc_lexer \<Rightarrow> pc_token \<Rightarrow> pc_lexer \<Rightarrow> bool" where
  "token_ok L t L' \<longleftrightarrow>
     lexer_ok L' \<and> lx_source L' = lx_source L \<and> lx_outside L' = lx_outside L \<and>
     lx_current L \<le> tk_start t \<and> tk_start t + tk_length t = lx_current L' \<and>
     tk_line t = line_at (lx_source L) (tk_start t) \<and> tk_column t = column_at (lx_source L) (tk_start t) \<and>
     (tk_type t = T_ERROR \<longrightarrow> pc_lexer_error L' \<noteq> []) \<and>
     (tk_type t = T_EOF \<longrightarrow> lx_current L' = lx_length L)"

abbreviation begin_token :: "pc_lexer \<Rightarrow> nat \<Rightarrow> pc_lexer" where
  "begin_token L k \<equiv> (lx_at L k)\<lparr>lx_token_line := line_at (lx_source L) k,
     lx_token_column := column_at (lx_source L) k\<rparr>"

lemma scans_token_ok:
  assumes "scans M start k (t, L')" "lx_current L \<le> start" "start \<le> k"
    and "lx_token_line M = line_at (lx_source L) start" "lx_token_column M = column_at (lx_source L) start"
    and "lx_source M = lx_source L" "lx_outside M = lx_outside L" "\<not> lx_pending_error M"
    and "lx_mode M \<noteq> PC_LEX_NORMAL \<longrightarrow> (\<exists>limit < lx_length L. lx_interp_end M = Some limit)"
  shows "token_ok L t L' \<and> k \<le> lx_current L' \<and> tk_type t \<noteq> T_EOF"
proof -
  obtain j tt message m e where j: "k \<le> j" "j \<le> lx_length M" "tt \<noteq> T_EOF" "tt = T_ERROR \<longrightarrow> message \<noteq> []"
    and m: "m = lx_mode M \<and> e = lx_interp_end M \<or>
      m = PC_LEX_INTERPOLATION \<and> (\<exists>limit < lx_length M. e = Some limit)"
    and r: "t = make_token (lx_at M j) tt start"
      "L' = (lx_at M j)\<lparr>lx_error := message, lx_mode := m, lx_interp_end := e\<rparr>"
    using assms(1) unfolding scans_def prod.inject by (elim exE conjE) (rule that)
  have "m \<noteq> PC_LEX_NORMAL \<longrightarrow> (\<exists>limit < lx_length L. e = Some limit)"
    using m assms(6,9) by auto
  then have "lexer_ok L'" unfolding lexer_ok_def r using assms(6,8) j(2) by (simp add: lx_at_def)
  then show ?thesis
    unfolding token_ok_def using assms j r by (simp add: make_token_def pc_lexer_error_def)
qed

lemma token_okI:
  assumes "lexer_ok L'" "lx_source L' = lx_source L" "lx_outside L' = lx_outside L"
    and "lx_current L \<le> start" "start \<le> lx_current L'"
    and "lx_token_line L' = line_at (lx_source L) start" "lx_token_column L' = column_at (lx_source L) start"
    and "tt \<noteq> T_ERROR" "tt = T_EOF \<longrightarrow> lx_current L' = lx_length L"
  shows "token_ok L (make_token L' tt start) L'"
  using assms by (simp add: token_ok_def make_token_def)

lemma lexer_ok_at:
  assumes "lexer_ok L" "k \<le> lx_length L"
  shows "lexer_ok ((lx_at L k)\<lparr>lx_token_line := a, lx_token_column := b\<rparr>)"
  using assms by (simp add: lexer_ok_def lx_at_updates)

lemma lexer_ok_here: "lexer_ok L \<Longrightarrow> lx_at L (lx_current L) = L"
  by (simp add: lexer_ok_def)

lemma begin_here:
  assumes "lexer_ok L"
  shows "L\<lparr>lx_token_line := lx_line L, lx_token_column := lx_column L\<rparr> = begin_token L (lx_current L)"
  using lexer_ok_here [OF assms] by (metis lx_at_fields(6,7))

section \<open>One token\<close>

text \<open>
  The measure: a token ends the source, moves on, or switches between the text and an
  expression of a string, which happens at most twice without moving.
\<close>

definition lexer_weight :: "pc_lexer \<Rightarrow> nat" where
  "lexer_weight L = 3 * (lx_length L - lx_current L) +
     (if lx_mode L = PC_LEX_INTERPOLATION then 1 else if expression_ended L then 2 else 0)"

lemma moved_weight:
  assumes "lx_current L < lx_current L'" "lx_current L' \<le> lx_length L" "lx_source L' = lx_source L"
  shows "lexer_weight L' < lexer_weight L"
proof -
  have "lexer_weight L' \<le> 3 * (lx_length L - lx_current L') + 2"
    using assms(3) by (simp add: lexer_weight_def)
  moreover have "3 * (lx_length L - lx_current L) \<le> lexer_weight L" by (simp add: lexer_weight_def)
  ultimately show ?thesis using assms(1,2) by linarith
qed

text \<open>Where the lexer does not move: before \<open>{$\<close> and a byte that starts no identifier.\<close>

definition stalled :: "pc_lexer \<Rightarrow> bool" where
  "stalled L \<longleftrightarrow>
     lx_mode L = PC_LEX_INTERPOLATION \<and> lx_current L + 2 < interp_limit L \<and>
     lx_source L ! lx_current L = CHR ''{'' \<and> lx_source L ! (lx_current L + 1) = CHR ''$'' \<and>
     \<not> is_identifier_start (lx_source L ! (lx_current L + 2))"

lemma scan_to_bound: "cursor \<le> scan_to p source cursor limit"
  by (induction p source cursor limit rule: scan_to.induct) (subst scan_to.simps, auto)

lemma interpolation_tail_bound:
  assumes "interpolation_tail source start limit = Some tail_end"
  shows "start < tail_end"
proof -
  define cursor where "cursor = scan_to is_identifier_part source (start + 2) limit"
  have "start + 2 \<le> cursor" unfolding cursor_def by (rule scan_to_bound)
  moreover have "cursor < tail_end"
    using assms scan_to_bound [of "cursor + 1" "\<lambda>c. c \<noteq> CHR '']''" source limit]
      scan_to_bound [of "cursor + 3" is_identifier_part source limit]
    unfolding interpolation_tail_def cursor_def [symmetric] by (auto simp: Let_def split: if_splits)
  ultimately show ?thesis by simp
qed

lemma lex_interpolation_ok:
  assumes ok: "lexer_ok L" and mode: "lx_mode L = PC_LEX_INTERPOLATION"
    and inside: "lx_current L < lx_length L" and step: "lex_interpolation L = (t, L')"
  shows "token_ok L t L' \<and> tk_type t \<noteq> T_EOF \<and> (stalled L \<or> lexer_weight L' < lexer_weight L)"
proof -
  define k where "k = lx_current L"
  define B where "B = begin_token L k"
  obtain limit where limit: "limit < lx_length L" "lx_interp_end L = Some limit"
    using ok mode by (auto simp: lexer_ok_def)
  have k: "k < lx_length L" using inside by (simp add: k_def)
  have B: "B = lx_at B k" "lx_source B = lx_source L" "lx_interp_end B = Some limit" "interp_limit B = limit"
    "lx_mode B = PC_LEX_INTERPOLATION" "lexer_ok B" "lx_outside B = lx_outside L"
    "lx_token_line B = line_at (lx_source L) k" "lx_token_column B = column_at (lx_source L) k"
    using mode limit(2) lexer_ok_at [OF ok] k
    by (simp_all add: B_def lx_at_updates interp_limit_def)
  have okB: "lexer_ok ((lx_at B j)\<lparr>lx_mode := m, lx_interp_end := e\<rparr>)"
    if "j \<le> lx_length L" "m \<noteq> PC_LEX_NORMAL \<longrightarrow> e = Some limit" for j m e
    using B(2,6) that limit(1) by (auto simp: lexer_ok_def lx_at_updates)
  have start: "L\<lparr>lx_token_line := lx_line L, lx_token_column := lx_column L\<rparr> = B"
    unfolding B_def k_def by (rule begin_here [OF ok])
  have skipB: "skip B = lx_at B (Suc k)" using skip_at [of k B] k B(1,2) by simp
  have peekB: "peek B = lx_source L ! k" using peek_at [of k B] k B(1,2) by simp
  have moved: "token_ok L t L' \<and> tk_type t \<noteq> T_EOF \<and> (stalled L \<or> lexer_weight L' < lexer_weight L)"
    if "t = make_token L' tt k" "L' = (lx_at B j)\<lparr>lx_mode := m, lx_interp_end := e, lx_interp_braces := b\<rparr>"
      "k < j" "j \<le> lx_length L" "m \<noteq> PC_LEX_NORMAL \<longrightarrow> e = Some limit" "T_ERROR < tt" for tt j m e b
  proof -
    have "lexer_ok L'" using okB [OF that(4,5)] by (simp add: that(2) lexer_ok_def lx_at_updates)
    moreover have "tt \<noteq> T_EOF" "tt \<noteq> T_ERROR" using that(6) by (auto simp: token_defs)
    ultimately have "token_ok L t L'"
      unfolding that(1) using that(2,3) B by (intro token_okI) (simp_all add: k_def)
    moreover have "lexer_weight L' < lexer_weight L"
      using that(2-4) B(2) by (intro moved_weight) (simp_all add: k_def)
    ultimately show ?thesis using that(1) \<open>tt \<noteq> T_EOF\<close> by (simp add: make_token_def)
  qed
  have proper: "T_ERROR < T_INTERP_END" "T_ERROR < T_INTERP_EXPR_START" "T_ERROR < T_VARIABLE" "T_ERROR < T_INTERP_PART"
    "T_INTERP_EXPR_START \<noteq> T_EOF" "T_INTERP_EXPR_START \<noteq> T_ERROR" "T_INTERP_PART \<noteq> T_EOF" "T_INTERP_PART \<noteq> T_ERROR"
    by (simp_all add: token_defs)
  consider (close) "limit \<le> k"
    | (var) "\<not> limit \<le> k" "lx_source L ! k = CHR ''$'' \<and> k + 1 < limit \<and> is_identifier_start (lx_source L ! (k + 1))"
    | (expr) "\<not> limit \<le> k" "\<not> (lx_source L ! k = CHR ''$'' \<and> k + 1 < limit \<and> is_identifier_start (lx_source L ! (k + 1)))"
      "lx_source L ! k = CHR ''{'' \<and> k + 2 < limit \<and> lx_source L ! (k + 1) = CHR ''$'' \<and> is_identifier_start (lx_source L ! (k + 2))"
    | (part) "\<not> limit \<le> k" "\<not> (lx_source L ! k = CHR ''$'' \<and> k + 1 < limit \<and> is_identifier_start (lx_source L ! (k + 1)))"
      "\<not> (lx_source L ! k = CHR ''{'' \<and> k + 2 < limit \<and> lx_source L ! (k + 1) = CHR ''$'' \<and> is_identifier_start (lx_source L ! (k + 2)))"
    by blast
  then show ?thesis
  proof cases
    case close
    define M where "M = (lx_at B (Suc k))\<lparr>lx_mode := PC_LEX_NORMAL, lx_interp_end := None\<rparr>"
    have "L' = M" "t = make_token L' T_INTERP_END k"
      using step close unfolding lex_interpolation_def start k_def [symmetric] B(4) skipB Let_def
      by (auto simp: M_def)
    then show ?thesis using k
      by (intro moved [where tt = T_INTERP_END and j = "Suc k" and m = PC_LEX_NORMAL and e = None and b = "lx_interp_braces B"])
        (simp_all add: proper M_def)
  next
    case expr
    define M where "M = (lx_at B (Suc k))\<lparr>lx_mode := PC_LEX_INTERPOLATION_EXPR, lx_interp_braces := 0\<rparr>"
    have "L' = M" "t = make_token L' T_INTERP_EXPR_START k"
      using step expr unfolding lex_interpolation_def start k_def [symmetric] B(4) skipB peekB Let_def B(2)
      by (auto simp: M_def)
    then show ?thesis using k B(3)
      by (intro moved [where tt = T_INTERP_EXPR_START and j = "Suc k" and m = PC_LEX_INTERPOLATION_EXPR and e = "Some limit" and b = 0])
        (simp_all add: proper M_def)
  next
    case var
    show ?thesis
    proof (cases "interpolation_tail (lx_source L) k limit")
      case None
      let ?p = "\<lambda>L. lx_current L < interp_limit L \<and> is_identifier_part (peek L)"
      have sk: "Suc k \<le> lx_length B" using k B(2) by simp
      show ?thesis
      proof (rule while_at [OF sk, of ?p])
        fix j
        assume j: "Suc k \<le> j" "j \<le> lx_length B" "advance_while ?p (lx_at B (Suc k)) = lx_at B j"
        have "L' = lx_at B j" "t = make_token L' T_VARIABLE k"
          using step var None unfolding lex_interpolation_def start k_def [symmetric] B(4) skipB peekB Let_def B(2) j(3)
          by auto
        then show ?thesis using j B
          by (intro moved [where tt = T_VARIABLE and j = j and m = PC_LEX_INTERPOLATION and e = "Some limit" and b = "lx_interp_braces B"]) (simp_all add: proper)
      qed
    next
      case (Some tail_end)
      define M where "M = B\<lparr>lx_interp_expr_end := Some tail_end, lx_mode := PC_LEX_INTERPOLATION_EXPR\<rparr>"
      have r: "t = make_token M T_INTERP_EXPR_START k" "L' = M"
        using step var Some unfolding lex_interpolation_def start k_def [symmetric] B(4) skipB peekB Let_def B(2)
        by (auto simp: M_def)
      have cur: "lx_current B = k" by (simp add: B_def)
      have ok': "lexer_ok M" using B(2,3,6) limit(1) by (simp add: M_def lexer_ok_def lx_at_updates)
      have "token_ok L t L'" unfolding r
        using ok' B cur by (intro token_okI) (simp_all add: M_def k_def proper)
      moreover have "\<not> expression_ended M"
        using interpolation_tail_bound [OF Some] cur by (simp add: M_def expression_ended_def)
      then have "lexer_weight L' < lexer_weight L"
        using mode cur B(2) r(2) by (simp add: lexer_weight_def M_def k_def)
      ultimately show ?thesis using r(1) by (simp add: make_token_def proper)
    qed
  next
    case part
    have kB: "k \<le> lx_length B" "limit \<le> lx_length B" using k limit(1) B(2) by simp_all
    obtain j where j: "k \<le> j" "j \<le> lx_length B" "part_loop (lx_at B k) = lx_at B j"
      "k < limit \<and> \<not> part_stops (lx_at B k) \<longrightarrow> k < j"
      using part_at [OF kB(1) B(3) kB(2)] by blast
    have r: "t = make_token (lx_at B j) T_INTERP_PART k" "L' = lx_at B j"
      using step part unfolding lex_interpolation_def start k_def [symmetric] B(4) skipB peekB Let_def B(2)
        j(3) [unfolded B(1) [symmetric]] by auto
    show ?thesis
    proof (cases "k < j")
      case True
      then show ?thesis using r j B
        by (intro moved [where tt = T_INTERP_PART and j = j and m = PC_LEX_INTERPOLATION and e = "Some limit" and b = "lx_interp_braces B"]) (simp_all add: proper)
    next
      case False
      then have "part_stops B" "j = k" using j(1,4) part(1) B(1) by auto
      then have "stalled L"
        using part mode limit(2) peekB B(2,4) unfolding part_stops_def stalled_def k_def [symmetric]
        by (auto simp: B_def interp_limit_def)
      moreover have "token_ok L t L'"
      proof -
        have "lx_at B j = B" using B(1) \<open>j = k\<close> by simp
        moreover have "lx_current B = k" by (simp add: B_def)
        ultimately show ?thesis unfolding r using B by (intro token_okI) (simp_all add: k_def proper)
      qed
      ultimately show ?thesis using r(1) by (simp add: make_token_def proper)
    qed
  qed
qed

lemma scan_php_ok:
  assumes ok: "lexer_ok L" and j: "lx_current L \<le> j" "j < lx_length L"
    and step: "scan_php (begin_token L j) j = (t, L')"
  shows "token_ok L t L' \<and> tk_type t \<noteq> T_EOF \<and> lx_current L < lx_current L'"
proof -
  define B where "B = begin_token L j"
  have B: "B = lx_at B j" "lx_source B = lx_source L" "lexer_ok B" "lx_outside B = lx_outside L"
    "lx_token_line B = line_at (lx_source L) j" "lx_token_column B = column_at (lx_source L) j"
    "lx_mode B = lx_mode L"
    using lexer_ok_at [OF ok] j by (simp_all add: B_def lx_at_updates)
  have adv: "advance B = (lx_source L ! j, lx_at B (Suc j))"
    using advance_at [of j B] j(2) B(1,2) by simp
  have mode: "lx_mode B \<noteq> PC_LEX_NORMAL \<longrightarrow> (\<exists>limit < lx_length L. lx_interp_end B = Some limit)"
    "\<not> lx_pending_error B" using B(2,3) by (simp_all add: lexer_ok_def)
  let ?c = "lx_source L ! j"
  show ?thesis
  proof (cases "lx_mode B = PC_LEX_INTERPOLATION_EXPR \<and> ?c = CHR ''}'' \<and> lx_interp_braces B = 0")
    case True
    have proper: "T_INTERP_EXPR_END \<noteq> T_EOF" "T_INTERP_EXPR_END \<noteq> T_ERROR" by (simp_all add: token_defs)
    have L': "L' = (lx_at B (Suc j))\<lparr>lx_mode := PC_LEX_INTERPOLATION\<rparr>" "t = make_token L' T_INTERP_EXPR_END j"
      using step True unfolding scan_php_def B_def [symmetric] adv by (auto simp: Let_def)
    have "lexer_ok L'" using mode True B(2) j(2) by (simp add: L'(1) lexer_ok_def lx_at_updates)
    then have "token_ok L t L'" unfolding L'(2) using B j L'(1) by (intro token_okI) (simp_all add: proper)
    then show ?thesis using L' j(1) by (simp add: make_token_def proper)
  next
    case False
    obtain braces where "scan_php B j = scan_from (lx_at (B\<lparr>lx_interp_braces := braces\<rparr>) (Suc j)) j ?c"
    proof -
      define M where "M = lx_at B (Suc j)"
      have "scan_php B j = scan_from (if lx_mode M = PC_LEX_INTERPOLATION_EXPR then
          (if ?c = CHR ''{'' then M\<lparr>lx_interp_braces := lx_interp_braces M + 1\<rparr>
           else if ?c = CHR ''}'' \<and> lx_interp_braces M \<noteq> 0
           then M\<lparr>lx_interp_braces := lx_interp_braces M - 1\<rparr> else M) else M) j ?c"
      proof -
        have no: "\<not> (lx_mode M = PC_LEX_INTERPOLATION_EXPR \<and> ?c = CHR ''}'' \<and> lx_interp_braces M = 0)"
          using False by (simp add: M_def)
        show ?thesis unfolding scan_php_def adv Let_def prod.case M_def [symmetric] if_not_P [OF no]
          by (rule refl)
      qed
      moreover have "(if lx_mode M = PC_LEX_INTERPOLATION_EXPR then
          (if ?c = CHR ''{'' then M\<lparr>lx_interp_braces := lx_interp_braces M + 1\<rparr>
           else if ?c = CHR ''}'' \<and> lx_interp_braces M \<noteq> 0
           then M\<lparr>lx_interp_braces := lx_interp_braces M - 1\<rparr> else M) else M) =
        M\<lparr>lx_interp_braces :=
          (if lx_mode M = PC_LEX_INTERPOLATION_EXPR then
             (if ?c = CHR ''{'' then lx_interp_braces M + 1
              else if ?c = CHR ''}'' \<and> lx_interp_braces M \<noteq> 0 then lx_interp_braces M - 1
              else lx_interp_braces M) else lx_interp_braces M)\<rparr>" by simp
      ultimately obtain braces where "scan_php B j = scan_from (M\<lparr>lx_interp_braces := braces\<rparr>) j ?c"
        by (simp only:)
      then show thesis using that by (simp add: M_def lx_at_updates)
    qed
    moreover have "Suc j \<le> lx_length (B\<lparr>lx_interp_braces := braces\<rparr>)" using j(2) B(2) by simp
    ultimately have "scans (B\<lparr>lx_interp_braces := braces\<rparr>) j (Suc j) (t, L')"
      using scan_from_scans [of "Suc j" "B\<lparr>lx_interp_braces := braces\<rparr>" j ?c] step
      by (simp add: B_def)
    from scans_token_ok [OF this j(1)] show ?thesis
      using B(2-7) mode j(1) by auto
  qed
qed

lemma scan_token_ok:
  assumes ok: "lexer_ok L" and j: "lx_current L \<le> j" "j \<le> lx_length L"
    and step: "scan_token (lx_at L j) = (t, L')"
  shows "token_ok L t L' \<and> (tk_type t = T_EOF \<or> lx_current L < lx_current L')"
proof -
  define B where "B = begin_token L j"
  have B: "B = lx_at B j" "lx_source B = lx_source L" "lexer_ok B" "lx_outside B = lx_outside L"
    "lx_token_line B = line_at (lx_source L) j" "lx_token_column B = column_at (lx_source L) j"
    "lx_column B = column_at (lx_source L) j" "lx_current B = j"
    using lexer_ok_at [OF ok] j by (simp_all add: B_def lx_at_updates)
  have start: "(lx_at L j)\<lparr>lx_token_line := lx_line (lx_at L j), lx_token_column := lx_column (lx_at L j)\<rparr> = B"
    by (simp add: B_def)
  have moved: "token_ok L t L' \<and> (tk_type t = T_EOF \<or> lx_current L < lx_current L')"
    if "t = make_token L' tt j" "L' = (lx_at B i)\<lparr>lx_in_php := b\<rparr>" "j < i" "i \<le> lx_length L" "T_ERROR < tt" for tt i b
  proof -
    have "lexer_ok L'" using B(3) that(4) B(2) by (simp add: that(2) lexer_ok_def lx_at_updates)
    moreover have "tt \<noteq> T_EOF" "tt \<noteq> T_ERROR" using that(5) by (auto simp: token_defs)
    ultimately have "token_ok L t L'"
      unfolding that(1) using that(2,3) B j(1) by (intro token_okI) simp_all
    then show ?thesis using that(2,3) j(1) by simp
  qed
  have tag: "B\<lparr>lx_current := j + length name, lx_column := lx_column B + of_nat (length name), lx_in_php := True\<rparr> =
      (lx_at B (j + length name))\<lparr>lx_in_php := True\<rparr>" "j + length name \<le> lx_length L"
    if "starts_with (lx_source L) j name" "LF \<notin> set name" for name
    using starts_with_stretch [of B j name] that j(2) B(1,2,7) by simp_all
  have len5: "length ''<?php'' = 5" and len3: "length ''<?='' = 3" by simp_all
  note tag5 = tag [of "''<?php''", unfolded len5 of_nat_numeral]
    and tag3 = tag [of "''<?=''", unfolded len3 of_nat_numeral]
  have proper: "T_ERROR < T_OPEN_TAG" "T_ERROR < T_OPEN_TAG_ECHO" "T_ERROR < T_CLOSE_TAG" by (simp_all add: token_defs)
  have e: "at_end B \<longleftrightarrow> lx_length L \<le> j" using B(2,8) by (simp add: at_end_def)
  have unf: "scan_token (lx_at L j) =
      (if lx_length L \<le> j then (make_token B T_EOF j, B)
       else if \<not> lx_in_php B \<and> starts_open_tag B \<and> starts_with (lx_source L) j ''<?php''
       then (make_token (B\<lparr>lx_current := j + 5, lx_column := lx_column B + 5, lx_in_php := True\<rparr>) T_OPEN_TAG j,
         B\<lparr>lx_current := j + 5, lx_column := lx_column B + 5, lx_in_php := True\<rparr>)
       else if \<not> lx_in_php B \<and> starts_with (lx_source L) j ''<?=''
       then (make_token (B\<lparr>lx_current := j + 3, lx_column := lx_column B + 3, lx_in_php := True\<rparr>) T_OPEN_TAG_ECHO j,
         B\<lparr>lx_current := j + 3, lx_column := lx_column B + 3, lx_in_php := True\<rparr>)
       else if lx_in_php B \<and> peek B = CHR ''?'' \<and> peek_next B = CHR ''>''
       then (make_token ((skip (skip B))\<lparr>lx_in_php := lx_repl B\<rparr>) T_CLOSE_TAG j,
         (skip (skip B))\<lparr>lx_in_php := lx_repl B\<rparr>)
       else scan_php B j)"
    unfolding scan_token_def start Let_def e B(2,8) by (rule refl)
  consider (eof) "j = lx_length L"
    | (php) "j < lx_length L" "\<not> lx_in_php B \<and> starts_open_tag B \<and> starts_with (lx_source L) j ''<?php''"
    | (echo) "j < lx_length L" "\<not> (\<not> lx_in_php B \<and> starts_open_tag B \<and> starts_with (lx_source L) j ''<?php'')"
        "\<not> lx_in_php B \<and> starts_with (lx_source L) j ''<?=''"
    | (close) "j < lx_length L" "\<not> (\<not> lx_in_php B \<and> starts_open_tag B \<and> starts_with (lx_source L) j ''<?php'')"
        "\<not> (\<not> lx_in_php B \<and> starts_with (lx_source L) j ''<?='')"
        "lx_in_php B \<and> peek B = CHR ''?'' \<and> peek_next B = CHR ''>''"
    | (other) "j < lx_length L" "\<not> (\<not> lx_in_php B \<and> starts_open_tag B \<and> starts_with (lx_source L) j ''<?php'')"
        "\<not> (\<not> lx_in_php B \<and> starts_with (lx_source L) j ''<?='')"
        "\<not> (lx_in_php B \<and> peek B = CHR ''?'' \<and> peek_next B = CHR ''>'')"
    using order.not_eq_order_implies_strict [OF _ j(2)] by blast
  then show ?thesis
  proof cases
    case eof
    then have "L' = B" "t = make_token B T_EOF j"
      using step unfolding unf by auto
    moreover have "T_EOF \<noteq> T_ERROR" by (simp add: token_defs)
    ultimately have "token_ok L t L'" using B j eof by (auto intro: token_okI)
    then show ?thesis using \<open>t = _\<close> by (simp add: make_token_def)
  next
    case php
    then have "L' = (lx_at B (j + 5))\<lparr>lx_in_php := True\<rparr>" "t = make_token L' T_OPEN_TAG j"
      using step tag5(1) unfolding unf by auto
    then show ?thesis using tag5(2) php
      by (intro moved [where tt = T_OPEN_TAG and i = "j + 5" and b = True]) (simp_all add: proper)
  next
    case echo
    then have "L' = (lx_at B (j + 3))\<lparr>lx_in_php := True\<rparr>" "t = make_token L' T_OPEN_TAG_ECHO j"
      using step tag3(1) unfolding unf by auto
    then show ?thesis using tag3(2) echo
      by (intro moved [where tt = T_OPEN_TAG_ECHO and i = "j + 3" and b = True]) (simp_all add: proper)
  next
    case close
    have two: "Suc j < lx_length L" using peek_next_at [of B j] close(4) B(1,2) by simp
    then have "skip (skip B) = lx_at B (j + 2)" using B(1,2) skip_at [of j B] skip_at [of "Suc j" B] by simp
    then have "L' = (lx_at B (j + 2))\<lparr>lx_in_php := lx_repl B\<rparr>" "t = make_token L' T_CLOSE_TAG j"
      using step close unfolding unf by auto
    then show ?thesis using two
      by (intro moved [where tt = T_CLOSE_TAG and i = "j + 2" and b = "lx_repl B"])
        (simp_all add: proper)
  next
    case other
    then have "\<not> lx_length L \<le> j" by simp
    then have "scan_token (lx_at L j) = scan_php B j"
      by (simp only: unf if_not_P [OF other(2)] if_not_P [OF other(3)] if_not_P [OF other(4)] if_False)
    then have "scan_php (begin_token L j) j = (t, L')" using step by (simp add: B_def)
    from scan_php_ok [OF ok j(1) other(1) this] show ?thesis by blast
  qed
qed

lemma pending_token_ok:
  assumes ok: "lexer_ok L" and c: "lx_current L \<le> c" "c < lx_length L"
    and step: "pending_token (unterminated L c) = (t, L')"
  shows "token_ok L t L' \<and> tk_type t \<noteq> T_EOF \<and> lx_current L < lx_current L'"
proof -
  have "T_ERROR \<noteq> T_EOF" by (simp add: token_defs)
  moreover have "lexer_ok ((unterminated L c)\<lparr>lx_pending_error := False\<rparr>)"
    using ok by (simp add: lexer_ok_def unterminated_def set_error_def lx_at_def)
  ultimately show ?thesis
    using step c by (auto simp: pending_token_def unterminated_def set_error_def token_ok_def pc_lexer_error_def)
qed

lemma inline_html_ok:
  assumes ok: "lexer_ok L" and k: "lx_current L < lx_length L"
    and html: "\<not> (peek L = CHR ''<'' \<and> starts_open_tag L)"
    and step: "scan_inline_html L = (t, L')"
  shows "token_ok L t L' \<and> tk_type t \<noteq> T_EOF \<and> lx_current L < lx_current L'"
proof -
  define k where "k = lx_current L"
  define B where "B = begin_token L k"
  have B: "B = lx_at B k" "lx_source B = lx_source L" "lexer_ok B" "lx_outside B = lx_outside L"
    "lx_token_line B = line_at (lx_source L) k" "lx_token_column B = column_at (lx_source L) k"
    "lx_current B = k"
    using lexer_ok_at [OF ok] assms(2) by (simp_all add: B_def lx_at_updates k_def)
  let ?p = "\<lambda>L. \<not> (peek L = CHR ''<'' \<and> starts_open_tag L)"
  have start: "L\<lparr>lx_token_line := lx_line L, lx_token_column := lx_column L\<rparr> = B"
    unfolding B_def k_def by (rule begin_here [OF ok])
  have "?p B"
    using html start by (auto simp: peek_def at_end_def starts_open_tag_def)
  have kB: "k \<le> lx_length B" using assms(2) B(2) by (simp add: k_def)
  show ?thesis
  proof (rule while_at [OF kB, of ?p])
    fix j
    assume j: "k \<le> j" "j \<le> lx_length B" "advance_while ?p (lx_at B k) = lx_at B j"
      and stop: "j < lx_length B \<Longrightarrow> \<not> ?p (lx_at B j)"
    have "j \<noteq> k"
    proof
      assume "j = k"
      then have "\<not> ?p (lx_at B k)" using stop assms(2) B(2) by (simp add: k_def)
      then show False using \<open>?p B\<close> unfolding B(1) [symmetric] by blast
    qed
    then have kj: "k < j" using j(1) by simp
    have r: "L' = lx_at B j" "t = make_token L' T_INLINE_HTML k"
      using step j(3) unfolding scan_inline_html_def start k_def [symmetric] B(1) [symmetric] Let_def
      by auto
    have proper: "T_INLINE_HTML \<noteq> T_EOF" "T_INLINE_HTML \<noteq> T_ERROR" by (simp_all add: token_defs)
    have "lexer_ok L'" using B(3) j(2) by (simp add: r(1) lexer_ok_def)
    then have "token_ok L t L'"
      unfolding r(2) using B(2-7) kj r(1) by (intro token_okI) (simp_all add: proper k_def)
    then show ?thesis using r kj by (simp add: make_token_def proper k_def)
  qed
qed

lemma expression_end_ok:
  assumes ok: "lexer_ok L" and ended: "expression_ended L"
  defines "L' \<equiv> L\<lparr>lx_mode := PC_LEX_INTERPOLATION, lx_interp_expr_end := None,
    lx_token_line := lx_line L, lx_token_column := lx_column L\<rparr>"
  shows "token_ok L (make_token L' T_INTERP_EXPR_END (lx_current L)) L' \<and> lexer_weight L' < lexer_weight L"
proof -
  have mode: "lx_mode L = PC_LEX_INTERPOLATION_EXPR" using ended by (simp add: expression_ended_def)
  have proper: "T_INTERP_EXPR_END \<noteq> T_EOF" "T_INTERP_EXPR_END \<noteq> T_ERROR" by (simp_all add: token_defs)
  have here: "lx_line L = line_at (lx_source L) (lx_current L)" "lx_column L = column_at (lx_source L) (lx_current L)"
    using lexer_ok_here [OF ok] by (metis lx_at_fields(6), metis lx_at_fields(7))
  have "lexer_ok L'" using ok mode by (simp add: L'_def lexer_ok_def lx_at_updates)
  then have "token_ok L (make_token L' T_INTERP_EXPR_END (lx_current L)) L'"
    by (intro token_okI) (simp_all add: L'_def here proper)
  then show ?thesis using mode ended by (simp add: lexer_weight_def L'_def)
qed

lemma pc_lexer_next_ok:
  assumes ok: "lexer_ok L" and step: "pc_lexer_next L = (t, L')"
    and inside: "\<not> (lx_mode L = PC_LEX_INTERPOLATION \<and> at_end L)"
  shows "token_ok L t L'" and "tk_type t = T_EOF \<or> stalled L \<or> lexer_weight L' < lexer_weight L"
proof -
  have "token_ok L t L' \<and> (tk_type t = T_EOF \<or> stalled L \<or> lexer_weight L' < lexer_weight L)"
  proof -
    have moved: ?thesis if "token_ok L t L' \<and> (tk_type t = T_EOF \<or> lx_current L < lx_current L')"
    proof -
      have "lx_current L' \<le> lx_length L" "lx_source L' = lx_source L"
        using that by (auto simp: token_ok_def lexer_ok_def)
      then show ?thesis using that moved_weight by blast
    qed
    consider (inner) "lx_mode L = PC_LEX_INTERPOLATION"
      | (expr) "lx_mode L \<noteq> PC_LEX_INTERPOLATION" "expression_ended L"
      | (html) "lx_mode L \<noteq> PC_LEX_INTERPOLATION" "\<not> expression_ended L"
          "\<not> lx_in_php L \<and> \<not> at_end L \<and> \<not> (peek L = CHR ''<'' \<and> starts_open_tag L)"
      | (code) "lx_mode L \<noteq> PC_LEX_INTERPOLATION" "\<not> expression_ended L"
          "\<not> (\<not> lx_in_php L \<and> \<not> at_end L \<and> \<not> (peek L = CHR ''<'' \<and> starts_open_tag L))"
      by blast
    then show ?thesis
    proof cases
      case inner
      then have "lx_current L < lx_length L" "lex_interpolation L = (t, L')"
        using inside step by (simp_all add: at_end_def pc_lexer_next_def)
      from lex_interpolation_ok [OF ok inner this] show ?thesis by blast
    next
      case expr
      then show ?thesis using step expression_end_ok [OF ok expr(2)]
        by (auto simp: pc_lexer_next_def Let_def)
    next
      case html
      then have "scan_inline_html L = (t, L')" "lx_current L < lx_length L"
        using step by (auto simp: pc_lexer_next_def at_end_def)
      from inline_html_ok [OF ok this(2) _ this(1)] html show ?thesis by (intro moved) auto
    next
      case code
      then have step': "(let M = skip_space_and_comments (lx_at L (lx_current L))
          in if lx_pending_error M then pending_token M else scan_token M) = (t, L')"
        using step lexer_ok_here [OF ok] unfolding pc_lexer_next_def by (simp only: if_False if_not_P)
      have "lx_current L \<le> lx_length L" "\<not> lx_pending_error L" using ok by (simp_all add: lexer_ok_def)
      from space_at [OF this(1)] show ?thesis
      proof (elim disjE exE conjE)
        fix j
        assume j: "lx_current L \<le> j" "j \<le> lx_length L"
          "skip_space_and_comments (lx_at L (lx_current L)) = lx_at L j"
        then have "scan_token (lx_at L j) = (t, L')" using step' \<open>\<not> lx_pending_error L\<close> by simp
        from scan_token_ok [OF ok j(1,2) this] show ?thesis by (intro moved) blast
      next
        fix c
        assume c: "lx_current L \<le> c" "c < lx_length L"
          "skip_space_and_comments (lx_at L (lx_current L)) = unterminated L c"
        moreover have "lx_pending_error (unterminated L c)" by (simp add: unterminated_def set_error_def)
        ultimately have "pending_token (unterminated L c) = (t, L')" using step' by simp
        from pending_token_ok [OF ok c(1,2) this] show ?thesis by (intro moved) blast
      qed
    qed
  qed
  then show "token_ok L t L'" "tk_type t = T_EOF \<or> stalled L \<or> lexer_weight L' < lexer_weight L" by blast+
qed

end
