(* ===== verification/LexerSound.thy ===== *)
theory LexerSound
  imports LexerProps
begin

text \<open>
  The properties of the lexer over whole runs: which reads leave the source, that the tokens
  tile the source with exact positions, and when the end of the source is reached.
\<close>

section \<open>The states of a run\<close>

lemma init_ok: "lexer_ok (pc_lexer_init source repl)" "\<not> lx_outside (pc_lexer_init source repl)"
  by (simp_all add: lexer_ok_def pc_lexer_init_def lx_at_def line_at_def column_at_def)

text \<open>Behind the end: nothing more happens.\<close>

definition lexer_done :: "pc_lexer \<Rightarrow> bool" where
  "lexer_done L \<longleftrightarrow>
     lx_outside L \<and> at_end L \<and> lx_mode L = PC_LEX_NORMAL \<and> \<not> lx_pending_error L"

lemma done_next:
  assumes "lexer_done L"
  shows "lexer_done (snd (pc_lexer_next L))" "tk_type (fst (pc_lexer_next L)) = T_EOF"
proof -
  have "skip_space_and_comments L = L" using assms by (simp add: skip_space_and_comments.simps lexer_done_def)
  then have "pc_lexer_next L = scan_token L"
    using assms by (simp add: pc_lexer_next_def lexer_done_def expression_ended_def)
  then show "lexer_done (snd (pc_lexer_next L))" "tk_type (fst (pc_lexer_next L)) = T_EOF"
    using assms by (simp_all add: scan_token_def lexer_done_def at_end_def make_token_def)
qed

lemma overrun_next:
  assumes "lexer_ok L" "lx_mode L = PC_LEX_INTERPOLATION" "at_end L"
  shows "lexer_done (snd (pc_lexer_next L))"
proof -
  obtain limit where "limit < lx_length L" "lx_interp_end L = Some limit"
    using assms(1,2) by (auto simp: lexer_ok_def)
  then have "interp_limit L \<le> lx_current L" using assms(3) by (simp add: interp_limit_def at_end_def)
  then show ?thesis
    using assms by (simp add: pc_lexer_next_def lex_interpolation_def lexer_done_def Let_def
        interp_limit_def skip_def advance_def at_end_def lexer_ok_def)
qed

lemma lexer_after_Suc: "lexer_after (Suc n) L = snd (pc_lexer_next (lexer_after n L))"
  by (induction n arbitrary: L) simp_all

definition run_state :: "pc_lexer \<Rightarrow> bool" where
  "run_state L \<longleftrightarrow> lexer_ok L \<and> \<not> lx_outside L \<or> lexer_done L"

lemma run_next:
  assumes "run_state L"
  shows "run_state (snd (pc_lexer_next L))"
    and "lx_outside (snd (pc_lexer_next L)) \<longleftrightarrow>
      lx_outside L \<or> lx_mode L = PC_LEX_INTERPOLATION \<and> at_end L"
proof -
  obtain t L' where step: "pc_lexer_next L = (t, L')" by (cases "pc_lexer_next L")
  consider (finished) "lexer_done L"
    | (overrun) "lexer_ok L" "\<not> lx_outside L" "lx_mode L = PC_LEX_INTERPOLATION" "at_end L"
    | (inside) "lexer_ok L" "\<not> lx_outside L" "\<not> (lx_mode L = PC_LEX_INTERPOLATION \<and> at_end L)"
    using assms by (auto simp: run_state_def)
  then have "run_state L' \<and> (lx_outside L' \<longleftrightarrow> lx_outside L \<or> lx_mode L = PC_LEX_INTERPOLATION \<and> at_end L)"
  proof cases
    case finished
    then show ?thesis using done_next(1) [OF finished] step by (simp add: run_state_def lexer_done_def)
  next
    case overrun
    then show ?thesis using overrun_next [OF overrun(1,3,4)] step by (simp add: run_state_def lexer_done_def)
  next
    case inside
    from pc_lexer_next_ok(1) [OF inside(1) step inside(3)] inside show ?thesis
      by (auto simp: run_state_def token_ok_def)
  qed
  then show "run_state (snd (pc_lexer_next L))" "lx_outside (snd (pc_lexer_next L)) \<longleftrightarrow>
      lx_outside L \<or> lx_mode L = PC_LEX_INTERPOLATION \<and> at_end L"
    using step by simp_all
qed

lemma run_after: "run_state L \<Longrightarrow> run_state (lexer_after n L)"
  by (induction n) (simp_all only: lexer_after.simps(1) lexer_after_Suc run_next(1))

lemma run_init: "run_state (lexer_after n (pc_lexer_init source repl))"
  by (rule run_after) (simp add: run_state_def init_ok)

lemma source_after:
  "\<not> lx_outside (lexer_after n (pc_lexer_init source repl)) \<Longrightarrow>
   lx_source (lexer_after n (pc_lexer_init source repl)) = source"
proof (induction n)
  case 0
  then show ?case by (simp add: pc_lexer_init_def)
next
  case (Suc n)
  let ?L = "lexer_after n (pc_lexer_init source repl)"
  obtain t L' where step: "pc_lexer_next ?L = (t, L')" by (cases "pc_lexer_next ?L")
  have inside: "\<not> lx_outside ?L" "\<not> (lx_mode ?L = PC_LEX_INTERPOLATION \<and> at_end ?L)"
    using Suc.prems run_next(2) [OF run_init, of n source repl] unfolding lexer_after_Suc step
    by blast+
  then have "lexer_ok ?L" using run_init [of n source repl] by (auto simp: run_state_def lexer_done_def)
  from pc_lexer_next_ok(1) [OF this step inside(2)] Suc.IH [OF inside(1)] show ?case
    by (simp add: lexer_after_Suc step token_ok_def del: lexer_after.simps)
qed

section \<open>Reads and positions\<close>


text \<open>
  C30.  Unless the lexer has left the source, every token starts at or behind the end of the
  one before it, ends where the lexer then stands, and carries the line and column of its
  first byte; an error token comes with a message, and the end of file is the end of the
  source.
\<close>

theorem tokens_tile_the_source:
  "case pc_lexer_next (lexer_after n (pc_lexer_init source repl)) of (t, L') \<Rightarrow>
     lx_outside L' \<or>
     lx_current (lexer_after n (pc_lexer_init source repl)) \<le> tk_start t \<and>
     tk_start t + tk_length t = lx_current L' \<and> lx_current L' \<le> length source \<and>
     tk_line t = line_at source (tk_start t) \<and> tk_column t = column_at source (tk_start t) \<and>
     (if tk_type t = T_ERROR then pc_lexer_error L' \<noteq> [] else True) \<and>
     (if tk_type t = T_EOF then lx_current L' = length source else True)"
proof -
  let ?L = "lexer_after n (pc_lexer_init source repl)"
  obtain t L' where step: "pc_lexer_next ?L = (t, L')" by (cases "pc_lexer_next ?L")
  show ?thesis
  proof (cases "lx_outside L'")
    case True
    then show ?thesis unfolding step by simp
  next
    case False
    then have inside: "\<not> lx_outside ?L" "\<not> (lx_mode ?L = PC_LEX_INTERPOLATION \<and> at_end ?L)"
      using run_next(2) [OF run_init, of n source repl] step by simp_all
    then have "lexer_ok ?L" using run_init [of n source repl] by (auto simp: run_state_def lexer_done_def)
    from pc_lexer_next_ok(1) [OF this step inside(2)] source_after [OF inside(1)]
    have "token_ok ?L t L'" "lx_current L' \<le> length source" "lx_source ?L = source"
      by (auto simp: token_ok_def lexer_ok_def)
    then show ?thesis unfolding step by (simp add: token_ok_def)
  qed
qed

section \<open>The end of the source is reached\<close>

text \<open>No \<open>{$\<close> is followed by a byte that starts no identifier.\<close>

fun braces_introduce_names :: "bytes \<Rightarrow> bool" where
  "braces_introduce_names (a # b # c # source) =
     ((a = CHR ''{'' \<and> b = CHR ''$'' \<longrightarrow> is_identifier_start c) \<and>
      braces_introduce_names (b # c # source))"
| "braces_introduce_names source = True"

lemma braces_introduce_namesD:
  "braces_introduce_names source \<Longrightarrow> i + 2 < length source \<Longrightarrow> source ! i = CHR ''{'' \<Longrightarrow>
   source ! (i + 1) = CHR ''$'' \<Longrightarrow> is_identifier_start (source ! (i + 2))"
proof (induction source arbitrary: i rule: braces_introduce_names.induct)
  case (1 a b c source)
  then show ?case by (cases i) auto
qed auto

lemma not_stalled:
  assumes "braces_introduce_names source" "lexer_ok L" "lx_source L = source"
  shows "\<not> stalled L"
proof
  assume stalled: "stalled L"
  then obtain limit where "limit < lx_length L" "lx_interp_end L = Some limit"
    using assms(2) by (auto simp: lexer_ok_def stalled_def)
  then have "lx_current L + 2 < length source"
    using stalled assms(3) by (simp add: stalled_def interp_limit_def)
  then show False
    using braces_introduce_namesD [OF assms(1)] stalled assms(3) by (auto simp: stalled_def)
qed

lemma eof_within:
  "lexer_weight L < m \<Longrightarrow> lexer_ok L \<Longrightarrow> lx_source L = source \<Longrightarrow> braces_introduce_names source \<Longrightarrow>
   \<exists>n \<le> m. tk_type (fst (pc_lexer_next (lexer_after n L))) = T_EOF"
proof (induction m arbitrary: L)
  case 0
  then show ?case by simp
next
  case (Suc m)
  obtain t L' where step: "pc_lexer_next L = (t, L')" by (cases "pc_lexer_next L")
  have after: "lexer_after (Suc n) L = lexer_after n L'" for n using step by simp
  show ?case
  proof (cases "lx_mode L = PC_LEX_INTERPOLATION \<and> at_end L")
    case True
    then have "lexer_done L'" using overrun_next [OF Suc.prems(2)] step by simp
    then have "tk_type (fst (pc_lexer_next (lexer_after 1 L))) = T_EOF"
      using done_next(2) step by simp
    then show ?thesis by (intro exI [of _ 1]) simp
  next
    case False
    note t = pc_lexer_next_ok [OF Suc.prems(2) step False]
    have "tk_type t = T_EOF \<or> lexer_weight L' < lexer_weight L"
      using t(2) not_stalled [OF Suc.prems(4,2,3)] by blast
    then show ?thesis
    proof
      assume "tk_type t = T_EOF"
      then show ?thesis using step by (intro exI [of _ 0]) simp
    next
      assume "lexer_weight L' < lexer_weight L"
      then have "lexer_weight L' < m" using Suc.prems(1) by simp
      moreover have "lexer_ok L'" "lx_source L' = source" using t(1) Suc.prems(3) by (simp_all add: token_ok_def)
      ultimately obtain n where "n \<le> m" "tk_type (fst (pc_lexer_next (lexer_after n L'))) = T_EOF"
        using Suc.IH Suc.prems(4) by blast
      then show ?thesis by (intro exI [of _ "Suc n"]) (simp add: step)
    qed
  qed
qed

text \<open>
  C29.  Every source in which each \<open>{$\<close> introduces a name is tokenised to its end: after at
  most three tokens per byte, and one more, the lexer returns the end of file.
\<close>

theorem lexer_reaches_the_end:
  assumes "braces_introduce_names source"
  shows "\<exists>n \<le> 3 * length source + 1.
    tk_type (fst (pc_lexer_next (lexer_after n (pc_lexer_init source repl)))) = T_EOF"
proof (rule eof_within [OF _ init_ok(1) _ assms])
  show "lexer_weight (pc_lexer_init source repl) < 3 * length source + 1"
    by (simp add: lexer_weight_def expression_ended_def pc_lexer_init_def)
qed (simp add: pc_lexer_init_def)

theorem lexer_reaches_the_end_witness:
  "\<exists>n \<le> 31. tk_type (fst (pc_lexer_next (lexer_after n (pc_lexer_init ''<?php {$a}'' False)))) = T_EOF"
proof -
  have "braces_introduce_names ''<?php {$a}''" by (simp add: is_identifier_start_def ord_def)
  from lexer_reaches_the_end [OF this, of False] show ?thesis by simp
qed

section \<open>Where the lexer does not get on\<close>

lemma stalled_next:
  assumes "lexer_ok L" "stalled L"
  shows "tk_type (fst (pc_lexer_next L)) = T_INTERP_PART" "tk_length (fst (pc_lexer_next L)) = 0"
    "lexer_ok (snd (pc_lexer_next L))" "stalled (snd (pc_lexer_next L))"
    "lx_current (snd (pc_lexer_next L)) = lx_current L"
proof -
  define k where "k = lx_current L"
  define M where "M = L\<lparr>lx_token_line := lx_line L, lx_token_column := lx_column L\<rparr>"
  have mode: "lx_mode L = PC_LEX_INTERPOLATION" and here: "k + 2 < interp_limit L"
    "lx_source L ! k = CHR ''{''" "lx_source L ! (k + 1) = CHR ''$''"
    "\<not> is_identifier_start (lx_source L ! (k + 2))"
    using assms(2) by (simp_all add: stalled_def k_def)
  obtain limit where "limit < lx_length L" "lx_interp_end L = Some limit"
    using assms(1) mode by (auto simp: lexer_ok_def)
  then have k: "k < lx_length L" using here(1) by (simp add: interp_limit_def)
  have M: "lx_current M = k" "interp_limit M = interp_limit L" "lx_source M = lx_source L" "lx_mode M = lx_mode L"
    by (simp_all add: M_def interp_limit_def k_def)
  have peek: "peek M = CHR ''{''" using k M here(2) by (simp add: peek_def at_end_def)
  have "part_stops M" using peek M here by (simp add: part_stops_def)
  then have "part_loop M = M" using peek by (simp add: part_loop.simps [of M])
  then have step: "pc_lexer_next L = (make_token M T_INTERP_PART k, M)"
    unfolding pc_lexer_next_def lex_interpolation_def M_def [symmetric] k_def [symmetric] Let_def M(2)
    using mode here peek M(3) by simp
  then show "tk_type (fst (pc_lexer_next L)) = T_INTERP_PART" "tk_length (fst (pc_lexer_next L)) = 0"
    "lx_current (snd (pc_lexer_next L)) = lx_current L"
    using M(1) by (simp_all add: make_token_def k_def)
  show "lexer_ok (snd (pc_lexer_next L))" using assms(1) unfolding step snd_conv
    by (simp add: M_def lexer_ok_def lx_at_updates)
  show "stalled (snd (pc_lexer_next L))" unfolding step snd_conv using mode here M
    by (simp add: stalled_def)
qed

text \<open>
  C32.  At a \<open>{$\<close> inside an interpolated string that is not followed by a name, the lexer
  returns empty string parts for ever and never moves on.
\<close>

theorem lexer_stalls:
  assumes "lexer_ok L" "stalled L"
  shows "tk_type (fst (pc_lexer_next (lexer_after n L))) = T_INTERP_PART \<and>
    tk_length (fst (pc_lexer_next (lexer_after n L))) = 0 \<and>
    lx_current (lexer_after n L) = lx_current L"
proof -
  have "lexer_ok (lexer_after n L) \<and> stalled (lexer_after n L) \<and> lx_current (lexer_after n L) = lx_current L"
  proof (induction n)
    case 0
    then show ?case using assms by simp
  next
    case (Suc n)
    then show ?case unfolding lexer_after_Suc using stalled_next [of "lexer_after n L"] by simp
  qed
  then show ?thesis using stalled_next(1,2) by blast
qed

text \<open>A string in which \<open>{$1\<close> stands before \<open>$a\<close>: the lexer gets there after two tokens.\<close>

definition stalling_source :: bytes where
  "stalling_source = ''<?php '' @ [DQUOTE] @ ''{$1 $a'' @ [DQUOTE]"

lemma stalling_source_stalls: "stalled (lexer_after 2 (pc_lexer_init stalling_source False))"
  by code_simp

lemma stalled_is_ok: "run_state L \<Longrightarrow> stalled L \<Longrightarrow> lexer_ok L"
  by (auto simp: run_state_def lexer_done_def stalled_def)

theorem lexer_stalls_witness:
  "tk_type (fst (pc_lexer_next (lexer_after 1000
     (lexer_after 2 (pc_lexer_init stalling_source False))))) = T_INTERP_PART"
  using lexer_stalls [OF stalled_is_ok [OF run_init stalling_source_stalls] stalling_source_stalls, of 1000]
  by blast

text \<open>A comment that hides the closing quote: the sixth token is read behind the end.\<close>

definition overrunning_source :: bytes where
  "overrunning_source = ''<?php '' @ [DQUOTE] @ ''{$a /*'' @ [DQUOTE] @ ''*/}''"

lemma overrunning_source_overruns:
  "\<not> lx_outside (lexer_after 5 (pc_lexer_init overrunning_source False))"
  "lx_outside (lexer_after 6 (pc_lexer_init overrunning_source False))"
  by code_simp+

section \<open>Single-quoted strings\<close>

definition escape_single :: "bytes \<Rightarrow> bytes" where
  "escape_single content =
     concat (map (\<lambda>c. if c = QUOTE \<or> c = BACKSLASH then [BACKSLASH, c] else [c]) content)"

lemma escape_single_simps [simp]:
  "escape_single [] = []"
  "escape_single (c # content) =
     (if c = QUOTE \<or> c = BACKSLASH then BACKSLASH # c # escape_single content
      else c # escape_single content)"
  by (simp_all add: escape_single_def)

lemma drop_Cons:
  assumes "drop k xs = y # ys"
  shows "k < length xs" "xs ! k = y" "drop (Suc k) xs = ys"
proof -
  show less: "k < length xs" using assms by (metis drop_all list.distinct(1) not_less)
  have "drop k xs = xs ! k # drop (Suc k) xs" using less by (simp add: Cons_nth_drop_Suc)
  then show "xs ! k = y" "drop (Suc k) xs = ys" using assms by simp_all
qed

lemma quoted_loop_content:
  "drop k (lx_source L) = escape_single content @ rest \<Longrightarrow>
   quoted_loop (lx_at L k) QUOTE = quoted_loop (lx_at L (k + length (escape_single content))) QUOTE"
proof (induction content arbitrary: k)
  case Nil
  then show ?case by simp
next
  case (Cons c content)
  note unfold = quoted_loop.simps [of "lx_at L k" QUOTE]
  show ?case
  proof (cases "c = QUOTE \<or> c = BACKSLASH")
    case True
    then have "drop k (lx_source L) = BACKSLASH # c # (escape_single content @ rest)" using Cons.prems by simp
    note first = drop_Cons [OF this] note second = drop_Cons [OF first(3)]
    have "quoted_loop (lx_at L k) QUOTE = quoted_loop (lx_at L (Suc (Suc k))) QUOTE"
      unfolding unfold using first second by simp
    also have "\<dots> = quoted_loop (lx_at L (Suc (Suc k) + length (escape_single content))) QUOTE"
      by (rule Cons.IH [OF second(3)])
    finally show ?thesis using True by simp
  next
    case False
    then have "drop k (lx_source L) = c # (escape_single content @ rest)" using Cons.prems by simp
    note first = drop_Cons [OF this]
    have "quoted_loop (lx_at L k) QUOTE = quoted_loop (lx_at L (Suc k)) QUOTE"
      unfolding unfold using first False by simp
    also have "\<dots> = quoted_loop (lx_at L (Suc k + length (escape_single content))) QUOTE"
      by (rule Cons.IH [OF first(3)])
    finally show ?thesis using False by simp
  qed
qed

lemma next_quoted:
  assumes "lexer_ok L" "lx_mode L = PC_LEX_NORMAL" "lx_in_php L"
    and "k = lx_current L" "k < lx_length L" "lx_source L ! k = QUOTE"
  shows "pc_lexer_next L = scan_plain (lx_at (begin_token L k) (Suc k)) k QUOTE"
proof -
  have L: "lx_at L k = L" using lexer_ok_here [OF assms(1)] assms(4) by simp
  have peek: "peek L = QUOTE" "\<not> at_end L" using assms(4-6) by (simp_all add: peek_def at_end_def)
  have pending: "\<not> lx_pending_error L" using assms(1) by (simp add: lexer_ok_def)
  have space: "skip_space_and_comments L = L"
    using peek by (simp add: skip_space_and_comments.simps [of L])
  define B where "B = begin_token L k"
  have start: "L\<lparr>lx_token_line := lx_line L, lx_token_column := lx_column L\<rparr> = B"
    unfolding B_def assms(4) by (rule begin_here [OF assms(1)])
  have B: "lx_at B k = B" "lx_source B = lx_source L" "lx_current B = k" "lx_mode B = PC_LEX_NORMAL" "lx_in_php B"
    using assms(2,3) by (simp_all add: B_def lx_at_updates)
  have adv: "advance B = (QUOTE, lx_at B (Suc k))"
    using advance_at [of k B] B(1,2) assms(5,6) by simp
  have "pc_lexer_next L = scan_token L"
    using assms(2,3) space pending by (simp add: pc_lexer_next_def expression_ended_def)
  also have "\<dots> = scan_php B k"
  proof -
    have "peek B = QUOTE" "\<not> at_end B" using B(2,3) assms(5,6) by (simp_all add: peek_def at_end_def)
    then show ?thesis unfolding scan_token_def start Let_def B(3) using B(5) by simp
  qed
  also have "\<dots> = scan_from (lx_at B (Suc k)) k QUOTE" using B(4) by (simp add: scan_php_def adv)
  also have "\<dots> = scan_plain (lx_at B (Suc k)) k QUOTE"
    by (simp add: scan_from_def scan_quoted_def is_identifier_start_def is_digit_def ord_def)
  finally show ?thesis by (simp add: B_def)
qed

text \<open>
  C33.  A single-quoted literal whose content is escaped is one token that covers exactly the
  literal, whatever the content is; without its closing quote it is an error token that
  covers the rest of the source, with the message that the string is unterminated.
\<close>

theorem single_quoted_literal_is_one_token:
  assumes "lexer_ok L" "lx_mode L = PC_LEX_NORMAL" "lx_in_php L"
    and "drop (lx_current L) (lx_source L) =
      QUOTE # escape_single content @ (if closed then QUOTE # rest else [])"
  shows "case pc_lexer_next L of (t, L') \<Rightarrow>
    tk_type t = (if closed then T_SINGLE_QUOTED else T_ERROR) \<and>
    tk_start t = lx_current L \<and>
    tk_length t = length (escape_single content) + (if closed then 2 else 1) \<and>
    (if closed then lx_error L' = lx_error L
     else pc_lexer_error L' = ''unterminated single-quoted string'')"
proof -
  define k where "k = lx_current L"
  define B where "B = begin_token L k"
  define e where "e = Suc k + length (escape_single content)"
  note first = drop_Cons [OF assms(4), folded k_def]
  have B: "lx_source B = lx_source L" "lx_error B = lx_error L" by (simp_all add: B_def)
  have step: "pc_lexer_next L = scan_plain (lx_at B (Suc k)) k QUOTE"
    unfolding B_def by (rule next_quoted [OF assms(1-3) k_def first(1,2)])
  have "drop (Suc k) (lx_source B) = escape_single content @ (if closed then QUOTE # rest else [])"
    using first(3) B(1) by simp
  note loop = quoted_loop_content [OF this, folded e_def]
  have tail: "drop e (lx_source B) = (if closed then QUOTE # rest else [])"
    using arg_cong [OF first(3), of "drop (length (escape_single content))"] B(1)
    by (simp add: e_def add.commute)
  show ?thesis
  proof (cases closed)
    case True
    then have "drop e (lx_source B) = QUOTE # rest" using tail by simp
    note quote = drop_Cons [OF this]
    have "quoted_loop (lx_at B e) QUOTE = (True, lx_at B (Suc e))"
      using quote by (simp add: quoted_loop.simps [of "lx_at B e"])
    then show ?thesis
      using True B(2) unfolding step scan_plain_def loop
      by (simp add: make_token_def e_def k_def)
  next
    case False
    then have "lx_length B \<le> e" using tail by simp
    moreover have "e \<le> lx_length B"
      using arg_cong [OF first(3), of length] False first(1) B(1) by (simp add: e_def)
    ultimately have "quoted_loop (lx_at B e) QUOTE = (False, lx_at B e)"
      by (simp add: quoted_loop.simps [of "lx_at B e"])
    then show ?thesis
      using False unfolding step scan_plain_def loop
      by (simp add: error_token_def set_error_def make_token_def pc_lexer_error_def e_def k_def Let_def)
  qed
qed

text \<open>In interactive mode the lexer starts inside PHP.\<close>

theorem single_quoted_literal_is_one_token_witness:
  "tk_length (fst (pc_lexer_next (pc_lexer_init ([QUOTE] @ [BACKSLASH, QUOTE, CHR ''a'', QUOTE, CHR '';'']) True))) = 5"
proof -
  let ?L = "pc_lexer_init ([QUOTE] @ [BACKSLASH, QUOTE, CHR ''a'', QUOTE, CHR '';'']) True"
  have "lx_mode ?L = PC_LEX_NORMAL" "lx_in_php ?L"
    "drop (lx_current ?L) (lx_source ?L) = QUOTE # escape_single [QUOTE, CHR ''a''] @ (if True then QUOTE # '';'' else [])"
    by (simp_all add: pc_lexer_init_def)
  from single_quoted_literal_is_one_token [OF init_ok(1) this] show ?thesis
    by (auto split: prod.splits)
qed

end
