(* ===== verification/Gc.thy ===== *)
theory Gc
  imports PArray "HOL-Library.Monad_Syntax"
begin

text \<open>
  The cycle collector (\<open>src/gc.c\<close>) and the counting part of \<open>pv_retain\<close> and \<open>pv_release\<close>
  (\<open>src/value.c\<close>).  The heap maps the address of a container to its header and contents;
  following a pointer to nothing is the result \<open>None\<close>.  The collector's calls of
  \<open>pv_retain\<close> and \<open>pv_release\<close> are events in the order of the code, as everywhere; what the
  release of a value outside the garbage sets off in turn is not part of the model.
\<close>

unbundle bit_operations_syntax

definition PPHP_GC_BUFFER_MAX :: nat where "PPHP_GC_BUFFER_MAX = 256"
definition PPHP_GC_BUFFERED :: u8 where "PPHP_GC_BUFFERED = push_bit 5 1"
definition PPHP_GC_COLLECTING :: u8 where "PPHP_GC_COLLECTING = push_bit 6 1"
definition PPHP_GC_DESTROYING :: u8 where "PPHP_GC_DESTROYING = push_bit 7 1"

section \<open>Containers\<close>

text \<open>
  What the collector sees of a container: the \<open>used\<close> entries of an array, the slots of an
  object (one per property of its class), the captures of a closure.
\<close>

datatype gc_body = GArray "pentry list" | GObject "pvalue list" | GClosure "pvalue list"

record gc_node =
  gn_refcnt :: u16
  gn_flags :: u8
  gn_body :: gc_body

type_synonym gc_heap = "addr \<Rightarrow> gc_node option"

text \<open>The static state between collections: \<open>candidates\<close> up to \<open>candidate_count\<close>.\<close>

record gc_state =
  gs_candidates :: "addr list"
  gs_collecting :: bool
  gs_requested :: bool

text \<open>A non-null reference to a container (\<open>is_container_type\<close>); address 0 is null.\<close>

fun container_of :: "pvalue \<Rightarrow> addr option" where
  "container_of (PArray a) = (if a = 0 then None else Some a)"
| "container_of (PObject a) = (if a = 0 then None else Some a)"
| "container_of (PClosure a) = (if a = 0 then None else Some a)"
| "container_of v = None"

fun header_value :: "addr \<Rightarrow> gc_body \<Rightarrow> pvalue" where
  "header_value a (GArray entries) = PArray a"
| "header_value a (GObject slots) = PObject a"
| "header_value a (GClosure captures) = PClosure a"

text \<open>The children in the order they are visited: entries with a null key are skipped.\<close>

fun visit_children :: "gc_body \<Rightarrow> pvalue list" where
  "visit_children (GArray entries) =
     concat (map (\<lambda>e. if pe_key e = PNull then [] else [pe_key e, pe_value e]) entries)"
| "visit_children (GObject slots) = slots"
| "visit_children (GClosure captures) = captures"

section \<open>The candidate buffer\<close>

definition pphp_gc_buffer :: "addr \<Rightarrow> gc_heap \<Rightarrow> gc_state \<Rightarrow> gc_heap \<times> gc_state" where
  "pphp_gc_buffer a heap gs =
     (case heap a of
        None \<Rightarrow> (heap, gs)
      | Some n \<Rightarrow>
          if gn_refcnt n = 0 \<or> gn_refcnt n = 65535 \<or>
            gn_flags n AND (PPHP_GC_BUFFERED OR PPHP_GC_COLLECTING OR PPHP_GC_DESTROYING) \<noteq> 0
          then (heap, gs)
          else if length (gs_candidates gs) < PPHP_GC_BUFFER_MAX
          then
            (heap(a \<mapsto> n\<lparr>gn_flags := gn_flags n OR PPHP_GC_BUFFERED\<rparr>),
             gs\<lparr>gs_candidates := gs_candidates gs @ [a],
                gs_requested := (if length (gs_candidates gs) + 1 = PPHP_GC_BUFFER_MAX then True
                                 else gs_requested gs)\<rparr>)
          else (heap, gs\<lparr>gs_requested := True\<rparr>))"

text \<open>\<open>candidates[i] = candidates[--candidate_count]\<close> at the first place of the header.\<close>

fun find_node :: "addr list \<Rightarrow> addr \<Rightarrow> nat" where
  "find_node [] a = 0"
| "find_node (n # nodes) a = (if n = a then 0 else Suc (find_node nodes a))"

definition remove_candidate :: "addr \<Rightarrow> addr list \<Rightarrow> addr list" where
  "remove_candidate a candidates =
     (let i = find_node candidates a
      in if i < length candidates then butlast (candidates[i := last candidates]) else candidates)"

definition pphp_gc_unbuffer :: "addr \<Rightarrow> gc_heap \<Rightarrow> gc_state \<Rightarrow> gc_heap \<times> gc_state" where
  "pphp_gc_unbuffer a heap gs =
     (case heap a of
        None \<Rightarrow> (heap, gs)
      | Some n \<Rightarrow>
          if gn_flags n AND PPHP_GC_BUFFERED = 0 then (heap, gs)
          else
            (heap(a \<mapsto> n\<lparr>gn_flags := gn_flags n AND NOT PPHP_GC_BUFFERED\<rparr>),
             gs\<lparr>gs_candidates := remove_candidate a (gs_candidates gs)\<rparr>))"

text \<open>
  Counting a reference to a container.  The count \<open>UINT16_MAX\<close> is sticky.  The second result
  of a release tells that the count has reached zero and the container is destroyed.
\<close>

definition pv_retain :: "addr \<Rightarrow> gc_heap \<Rightarrow> gc_heap option" where
  "pv_retain a heap =
     (case heap a of
        None \<Rightarrow> None
      | Some n \<Rightarrow>
          Some (if gn_refcnt n \<noteq> 65535 then heap(a \<mapsto> n\<lparr>gn_refcnt := gn_refcnt n + 1\<rparr>) else heap))"

definition pv_release :: "addr \<Rightarrow> gc_heap \<Rightarrow> gc_state \<Rightarrow> (gc_heap \<times> gc_state \<times> bool) option" where
  "pv_release a heap gs =
     (case heap a of
        None \<Rightarrow> None
      | Some n \<Rightarrow>
          if gn_refcnt n = 65535 \<or> gn_refcnt n = 0 then Some (heap, gs, False)
          else
            let heap = heap(a \<mapsto> n\<lparr>gn_refcnt := gn_refcnt n - 1\<rparr>)
            in if gn_refcnt n - 1 \<noteq> 0
               then (case pphp_gc_buffer a heap gs of (heap, gs) \<Rightarrow> Some (heap, gs, False))
               else Some (heap, gs, True))"

section \<open>Discovery\<close>

definition discover_child :: "pvalue \<Rightarrow> addr list \<Rightarrow> addr list" where
  "discover_child child nodes =
     (case container_of child of
        None \<Rightarrow> nodes
      | Some a \<Rightarrow>
          if find_node nodes a = length nodes \<and> length nodes < PPHP_GC_BUFFER_MAX
          then nodes @ [a] else nodes)"

lemma discover_child_length:
  "length nodes \<le> length (discover_child child nodes)"
  "length (discover_child child nodes) \<le> max PPHP_GC_BUFFER_MAX (length nodes)"
  by (auto simp: discover_child_def split: option.splits)

lemma discover_children_length:
  "length nodes \<le> length (fold discover_child children nodes) \<and>
   length (fold discover_child children nodes) \<le> max PPHP_GC_BUFFER_MAX (length nodes)"
proof (induction children arbitrary: nodes)
  case Nil
  then show ?case by simp
next
  case (Cons child children)
  show ?case
    using Cons [of "discover_child child nodes"] discover_child_length [where child = child and nodes = nodes]
    unfolding fold_simps o_apply max_def by (auto split: if_splits)
qed

text \<open>\<open>for (i = 0; i < node_count; i++)\<close> while \<open>nodes\<close> grows.\<close>

function discover_loop :: "gc_heap \<Rightarrow> nat \<Rightarrow> addr list \<Rightarrow> addr list option" where
  "discover_loop heap i nodes =
     (if i < length nodes then
        (case heap (nodes ! i) of
           None \<Rightarrow> None
         | Some n \<Rightarrow> discover_loop heap (i + 1) (fold discover_child (visit_children (gn_body n)) nodes))
      else Some nodes)"
  by pat_completeness auto
termination
proof (relation "measure (\<lambda>(heap, i, nodes). max PPHP_GC_BUFFER_MAX (length nodes) - i)", goal_cases)
  case 1
  show ?case by simp
next
  case (2 heap i nodes n)
  then show ?case using discover_children_length [of nodes "visit_children (gn_body n)"] by auto
qed

declare discover_loop.simps [simp del]

section \<open>Counting the references between the nodes\<close>

fun read_refs :: "gc_heap \<Rightarrow> addr list \<Rightarrow> u16 list option" where
  "read_refs heap [] = Some []"
| "read_refs heap (a # nodes) =
     (case heap a of
        None \<Rightarrow> None
      | Some n \<Rightarrow> map_option (Cons (gn_refcnt n)) (read_refs heap nodes))"

definition subtract_internal_ref :: "addr list \<Rightarrow> pvalue \<Rightarrow> u16 list \<Rightarrow> u16 list" where
  "subtract_internal_ref nodes child refs =
     (case container_of child of
        None \<Rightarrow> refs
      | Some a \<Rightarrow>
          let index = find_node nodes a
          in if index < length nodes \<and> refs ! index \<noteq> 0 then refs[index := refs ! index - 1] else refs)"

fun subtract_loop :: "gc_heap \<Rightarrow> addr list \<Rightarrow> addr list \<Rightarrow> u16 list \<Rightarrow> u16 list option" where
  "subtract_loop heap nodes [] refs = Some refs"
| "subtract_loop heap nodes (a # rest) refs =
     (case heap a of
        None \<Rightarrow> None
      | Some n \<Rightarrow>
          subtract_loop heap nodes rest
            (fold (subtract_internal_ref nodes) (visit_children (gn_body n)) refs))"

section \<open>Marking\<close>

definition mark_reachable_child :: "addr list \<Rightarrow> pvalue \<Rightarrow> bool list \<times> bool \<Rightarrow> bool list \<times> bool" where
  "mark_reachable_child nodes child rc =
     (case container_of child of
        None \<Rightarrow> rc
      | Some a \<Rightarrow>
          let index = find_node nodes a
          in if index < length nodes \<and> \<not> fst rc ! index then ((fst rc)[index := True], True) else rc)"

fun mark_pass :: "gc_heap \<Rightarrow> addr list \<Rightarrow> nat list \<Rightarrow> bool list \<times> bool \<Rightarrow> (bool list \<times> bool) option" where
  "mark_pass heap nodes [] rc = Some rc"
| "mark_pass heap nodes (i # rest) rc =
     (if fst rc ! i then
        (case heap (nodes ! i) of
           None \<Rightarrow> None
         | Some n \<Rightarrow>
             mark_pass heap nodes rest
               (fold (mark_reachable_child nodes) (visit_children (gn_body n)) rc))
      else mark_pass heap nodes rest rc)"

text \<open>How many nodes are not marked yet.\<close>

definition unmarked_nodes :: "bool list \<Rightarrow> nat" where
  "unmarked_nodes reach = length (filter Not reach)"

lemma unmarked_update:
  "i < length reach \<Longrightarrow> \<not> reach ! i \<Longrightarrow> unmarked_nodes (reach[i := True]) < unmarked_nodes reach"
  by (induction reach arbitrary: i) (auto simp: unmarked_nodes_def nth_Cons' split: nat.splits)

text \<open>Marking keeps the length; a change marks a node.\<close>

definition marks_more :: "bool list \<times> bool \<Rightarrow> bool list \<times> bool \<Rightarrow> bool" where
  "marks_more rc rc' \<longleftrightarrow>
     length (fst rc') = length (fst rc) \<and> unmarked_nodes (fst rc') \<le> unmarked_nodes (fst rc) \<and>
     (snd rc' \<longrightarrow> snd rc \<or> unmarked_nodes (fst rc') < unmarked_nodes (fst rc))"

lemma marks_more_trans: "marks_more a b \<Longrightarrow> marks_more b c \<Longrightarrow> marks_more a c"
  by (auto simp: marks_more_def)

lemma mark_child_more:
  "length (fst rc) = length nodes \<Longrightarrow> marks_more rc (mark_reachable_child nodes child rc)"
  using unmarked_update [of _ "fst rc"]
  by (auto simp: mark_reachable_child_def marks_more_def Let_def less_imp_le split: option.splits)

lemma mark_children_more:
  "length (fst rc) = length nodes \<Longrightarrow> marks_more rc (fold (mark_reachable_child nodes) children rc)"
proof (induction children arbitrary: rc)
  case Nil
  then show ?case by (simp add: marks_more_def)
next
  case (Cons child children)
  note step = mark_child_more [OF Cons.prems, of child]
  have "length (fst (mark_reachable_child nodes child rc)) = length nodes"
    using step Cons.prems by (simp add: marks_more_def)
  from marks_more_trans [OF step Cons.IH [OF this]] show ?case by simp
qed

lemma mark_pass_more:
  "mark_pass heap nodes is rc = Some rc' \<Longrightarrow> length (fst rc) = length nodes \<Longrightarrow> marks_more rc rc'"
proof (induction heap nodes "is" rc arbitrary: rc' rule: mark_pass.induct)
  case (1 heap nodes rc)
  then show ?case by (simp add: marks_more_def)
next
  case (2 heap nodes i rest rc)
  show ?case
  proof (cases "fst rc ! i")
    case False
    then show ?thesis using 2(2) 2(3,4) by simp
  next
    case True
    then obtain n where n: "heap (nodes ! i) = Some n" using 2(3) by (auto split: option.splits)
    note step = mark_children_more [OF 2(4), of "visit_children (gn_body n)"]
    then have "length (fst (fold (mark_reachable_child nodes) (visit_children (gn_body n)) rc)) = length nodes"
      using 2(4) by (simp add: marks_more_def)
    from marks_more_trans [OF step 2(1) [OF True n _ this]] show ?thesis using 2(3) True n by simp
  qed
qed

text \<open>\<open>do \<dots> while (changed)\<close>.  The test of the length is always true; it is for the measure.\<close>

function mark_loop :: "gc_heap \<Rightarrow> addr list \<Rightarrow> bool list \<Rightarrow> bool list option" where
  "mark_loop heap nodes reach =
     (case mark_pass heap nodes [0..<length nodes] (reach, False) of
        None \<Rightarrow> None
      | Some (reach', changed) \<Rightarrow>
          if changed \<and> length reach = length nodes then mark_loop heap nodes reach' else Some reach')"
  by pat_completeness auto
termination
proof (relation "measure (\<lambda>(heap, nodes, reach). unmarked_nodes reach)", goal_cases)
  case 1
  show ?case by simp
next
  case (2 heap nodes reach x reach' changed)
  then have "marks_more (reach, False) (reach', changed)" by (intro mark_pass_more) simp_all
  then show ?case using 2(3) by (simp add: marks_more_def)
qed

declare mark_loop.simps [simp del]

section \<open>Collection\<close>

text \<open>The node flagged, and the node with its visited children replaced by null.\<close>

definition flag_node :: "addr \<Rightarrow> gc_heap \<Rightarrow> gc_heap" where
  "flag_node a heap =
     (case heap a of None \<Rightarrow> heap
      | Some n \<Rightarrow> heap(a \<mapsto> n\<lparr>gn_flags := gn_flags n OR PPHP_GC_COLLECTING\<rparr>))"

definition unflag_node :: "addr \<Rightarrow> gc_heap \<Rightarrow> gc_heap" where
  "unflag_node a heap =
     (case heap a of None \<Rightarrow> heap
      | Some n \<Rightarrow> heap(a \<mapsto> n\<lparr>gn_flags := gn_flags n AND NOT PPHP_GC_BUFFERED\<rparr>))"

fun clear_body :: "gc_body \<Rightarrow> gc_body" where
  "clear_body (GArray entries) =
     GArray (map (\<lambda>e. if pe_key e = PNull then e else e\<lparr>pe_key := PNull, pe_value := PNull\<rparr>) entries)"
| "clear_body (GObject slots) = GObject (map (\<lambda>v. PNull) slots)"
| "clear_body (GClosure captures) = GClosure (map (\<lambda>v. PNull) captures)"

definition clear_node :: "addr \<Rightarrow> gc_heap \<Rightarrow> gc_heap" where
  "clear_node a heap =
     (case heap a of None \<Rightarrow> heap | Some n \<Rightarrow> heap(a \<mapsto> n\<lparr>gn_body := clear_body (gn_body n)\<rparr>))"

definition node_value :: "gc_heap \<Rightarrow> addr \<Rightarrow> pvalue" where
  "node_value heap a = (case heap a of None \<Rightarrow> PNull | Some n \<Rightarrow> header_value a (gn_body n))"

definition node_children :: "gc_heap \<Rightarrow> addr \<Rightarrow> pvalue list" where
  "node_children heap a = (case heap a of None \<Rightarrow> [] | Some n \<Rightarrow> visit_children (gn_body n))"

definition unreachable_nodes :: "addr list \<Rightarrow> bool list \<Rightarrow> addr list" where
  "unreachable_nodes nodes reach = map fst (filter (\<lambda>(a, r). \<not> r) (zip nodes reach))"

definition find_garbage :: "gc_heap \<Rightarrow> addr list \<Rightarrow> addr list option" where
  "find_garbage heap candidates = do {
     nodes \<leftarrow> discover_loop heap 0 candidates;
     refs \<leftarrow> read_refs heap nodes;
     refs \<leftarrow> subtract_loop heap nodes nodes refs;
     reach \<leftarrow> mark_loop heap nodes (map (\<lambda>r. r \<noteq> 0) refs);
     Some (unreachable_nodes nodes reach)
   }"

definition pphp_gc_collect ::
  "bool \<Rightarrow> gc_heap \<Rightarrow> gc_state \<Rightarrow> (nat \<times> gc_heap \<times> gc_state \<times> rc_event list) option" where
  "pphp_gc_collect has_state heap gs =
     (if \<not> has_state \<or> gs_collecting gs \<or> gs_candidates gs = [] then Some (0, heap, gs, [])
      else if \<exists>a \<in> set (gs_candidates gs). heap a = None then None
      else
        let candidates = gs_candidates gs;
            gs = gs\<lparr>gs_candidates := [], gs_requested := False\<rparr>;
            heap = fold unflag_node candidates heap
        in case find_garbage heap candidates of
             None \<Rightarrow> None
           | Some garbage \<Rightarrow>
               Some (length garbage,
                 fold clear_node garbage (fold flag_node garbage heap), gs,
                 map (\<lambda>a. Retain (node_value heap a)) garbage @
                 concat (map (\<lambda>a. map Release (node_children heap a)) garbage) @
                 map (\<lambda>a. Release (node_value heap a)) garbage))"

definition pphp_gc_maybe_collect ::
  "bool \<Rightarrow> gc_heap \<Rightarrow> gc_state \<Rightarrow> (nat \<times> gc_heap \<times> gc_state \<times> rc_event list) option" where
  "pphp_gc_maybe_collect has_state heap gs =
     (if gs_requested gs \<and> \<not> gs_collecting gs then pphp_gc_collect has_state heap gs
      else Some (0, heap, gs, []))"

definition pphp_gc_set_state :: "bool \<Rightarrow> gc_heap \<Rightarrow> gc_state \<Rightarrow> gc_heap \<times> gc_state" where
  "pphp_gc_set_state has_state heap gs =
     (if has_state then (heap, gs)
      else (fold unflag_node (gs_candidates gs) heap, gs\<lparr>gs_candidates := [], gs_requested := False\<rparr>))"

end
