(* ===== verification/GcSound.thy ===== *)
theory GcSound
  imports Gc PArrayOps
begin

text \<open>
  What the cycle collector achieves.  The containers form a graph (\<open>gc_edge\<close>) whose
  reference counts are exact: each is the number of references from outside the containers
  (\<open>ext\<close>) and from the containers themselves, and below the sticky value (\<open>gc_exact\<close>).  The discovery is a bounded
  breadth-first search, the subtraction leaves the references from outside the nodes found,
  the marking is their closure; so what is cleared is what nothing outside reaches.
\<close>

section \<open>The graph of containers\<close>

definition child_addrs :: "pvalue list \<Rightarrow> addr list" where
  "child_addrs vs = List.map_filter container_of vs"

definition targets :: "gc_heap \<Rightarrow> addr \<Rightarrow> addr list" where
  "targets heap a = child_addrs (node_children heap a)"

definition gc_edge :: "gc_heap \<Rightarrow> addr \<Rightarrow> addr \<Rightarrow> bool" where
  "gc_edge heap y x \<longleftrightarrow> x \<in> set (targets heap y)"

definition reaches :: "gc_heap \<Rightarrow> addr \<Rightarrow> addr \<Rightarrow> bool" where
  "reaches heap = (gc_edge heap)\<^sup>*\<^sup>*"

definition incoming :: "gc_heap \<Rightarrow> addr list \<Rightarrow> addr \<Rightarrow> nat" where
  "incoming heap addrs x = (\<Sum>y\<leftarrow>addrs. count_list (targets heap y) x)"

definition gc_graph :: "gc_heap \<Rightarrow> addr list \<Rightarrow> bool" where
  "gc_graph heap addrs \<longleftrightarrow>
     distinct addrs \<and> 0 \<notin> set addrs \<and> dom heap = set addrs \<and>
     (\<forall>y \<in> set addrs. set (targets heap y) \<subseteq> set addrs)"

definition gc_exact :: "gc_heap \<Rightarrow> (addr \<Rightarrow> nat) \<Rightarrow> addr list \<Rightarrow> bool" where
  "gc_exact heap ext addrs \<longleftrightarrow>
     (\<forall>x \<in> set addrs. ext x + incoming heap addrs x < 65535 \<and>
        (\<exists>n. heap x = Some n \<and> unat (gn_refcnt n) = ext x + incoming heap addrs x))"

lemma child_addrs_simps [simp]:
  "child_addrs [] = []"
  "child_addrs (v # vs) = (case container_of v of None \<Rightarrow> child_addrs vs | Some a \<Rightarrow> a # child_addrs vs)"
  "child_addrs (vs @ ws) = child_addrs vs @ child_addrs ws"
  by (simp_all add: child_addrs_def map_filter_def split: option.splits)

lemma reaches_step: "reaches heap x y \<Longrightarrow> gc_edge heap y z \<Longrightarrow> reaches heap x z"
  unfolding reaches_def by (rule rtranclp.rtrancl_into_rtrancl)

lemma reaches_refl [simp]: "reaches heap x x"
  by (simp add: reaches_def)

lemma targets_node: "heap a = Some n \<Longrightarrow> targets heap a = child_addrs (visit_children (gn_body n))"
  by (simp add: targets_def node_children_def)

section \<open>Places of nodes\<close>

lemma find_node_le: "find_node ns a \<le> length ns"
  by (induction ns) auto

lemma find_node_less: "find_node ns a < length ns \<longleftrightarrow> a \<in> set ns"
  by (induction ns) auto

lemma find_node_nth: "a \<in> set ns \<Longrightarrow> ns ! find_node ns a = a"
  by (induction ns) auto

lemma find_node_absent: "find_node ns a = length ns \<longleftrightarrow> a \<notin> set ns"
  using find_node_less [of ns a] find_node_le [of ns a] by auto

lemma find_node_unique: "distinct ns \<Longrightarrow> i < length ns \<Longrightarrow> find_node ns (ns ! i) = i"
  using find_node_nth [of "ns ! i" ns] find_node_less [of ns "ns ! i"] by (simp add: nth_eq_iff_index_eq)

lemmas find_node_facts = find_node_less find_node_nth find_node_absent find_node_unique

section \<open>Discovery\<close>

text \<open>The nodes found so far: distinct, at most the capacity.\<close>

definition found :: "addr list \<Rightarrow> bool" where
  "found nodes \<longleftrightarrow> distinct nodes \<and> length nodes \<le> PPHP_GC_BUFFER_MAX"

lemma discover_child_found:
  assumes "found nodes"
  shows "found (discover_child v nodes)"
    and "\<exists>more. discover_child v nodes = nodes @ more \<and> set more \<subseteq> set (child_addrs [v])"
    and "length (discover_child v nodes) = PPHP_GC_BUFFER_MAX \<or>
         set (child_addrs [v]) \<subseteq> set (discover_child v nodes)"
  using assms by (auto simp: discover_child_def found_def find_node_absent split: option.splits)

lemma discover_children_found:
  "found nodes \<Longrightarrow> found (fold discover_child vs nodes) \<and>
     (\<exists>more. fold discover_child vs nodes = nodes @ more \<and> set more \<subseteq> set (child_addrs vs)) \<and>
     (length (fold discover_child vs nodes) = PPHP_GC_BUFFER_MAX \<or>
      set (child_addrs vs) \<subseteq> set (fold discover_child vs nodes))"
proof (induction vs arbitrary: nodes)
  case Nil
  then show ?case by simp
next
  case (Cons v vs)
  let ?one = "discover_child v nodes"
  note head = discover_child_found [OF Cons.prems, of v]
  obtain m1 where m1: "?one = nodes @ m1" "set m1 \<subseteq> set (child_addrs [v])" using head(2) by blast
  obtain m2 where m2: "fold discover_child vs ?one = ?one @ m2" "set m2 \<subseteq> set (child_addrs vs)"
    using Cons.IH [OF head(1)] by blast
  have split: "set (child_addrs (v # vs)) = set (child_addrs [v]) \<union> set (child_addrs vs)"
    by (simp split: option.splits)
  have all: "fold discover_child (v # vs) nodes = nodes @ (m1 @ m2)" using m1(1) m2(1) by simp
  have "length (fold discover_child vs ?one) \<le> PPHP_GC_BUFFER_MAX"
    using Cons.IH [OF head(1)] by (simp add: found_def)
  then have "length (fold discover_child vs ?one) = PPHP_GC_BUFFER_MAX \<or>
      set (child_addrs (v # vs)) \<subseteq> set (fold discover_child vs ?one)"
    using head(3) Cons.IH [OF head(1)] m2(1) unfolding split by auto
  moreover have "set (m1 @ m2) \<subseteq> set (child_addrs (v # vs))" using m1(2) m2(2) unfolding split by auto
  ultimately show ?case using Cons.IH [OF head(1)] all by auto
qed

text \<open>What a discovery from \<open>start\<close> ends with.\<close>

definition discovered :: "gc_heap \<Rightarrow> addr list \<Rightarrow> addr list \<Rightarrow> bool" where
  "discovered heap start W \<longleftrightarrow>
     found W \<and> set start \<subseteq> set W \<and> (\<forall>x \<in> set W. \<exists>c \<in> set start. reaches heap c x) \<and>
     (length W = PPHP_GC_BUFFER_MAX \<or> (\<forall>x \<in> set W. set (targets heap x) \<subseteq> set W))"

lemma discover_loop_found:
  assumes "found nodes" and "\<forall>x \<in> set nodes. heap x \<noteq> None \<and> (\<exists>c \<in> set start. reaches heap c x)"
    and "set start \<subseteq> set nodes" and "\<forall>y \<in> dom heap. set (targets heap y) \<subseteq> dom heap"
    and "length nodes = PPHP_GC_BUFFER_MAX \<or> (\<forall>x \<in> set (take i nodes). set (targets heap x) \<subseteq> set nodes)"
  shows "\<exists>W. discover_loop heap i nodes = Some W \<and> discovered heap start W \<and> set W \<subseteq> dom heap"
  using assms
proof (induction heap i nodes rule: discover_loop.induct)
  case (1 heap i nodes)
  note IH = 1(1) and prems = 1(2-6)
  show ?case
  proof (cases "i < length nodes")
    case False
    then show ?thesis using prems by (subst discover_loop.simps) (auto simp: discovered_def)
  next
    case True
    then have "nodes ! i \<in> set nodes" by simp
    then obtain n where n: "heap (nodes ! i) = Some n" using prems(2) by blast
    let ?vs = "visit_children (gn_body n)"
    let ?new = "fold discover_child ?vs nodes"
    note step = discover_children_found [OF prems(1), of ?vs]
    obtain more where more: "?new = nodes @ more" "set more \<subseteq> set (child_addrs ?vs)" using step by blast
    have t: "child_addrs ?vs = targets heap (nodes ! i)" using n by (simp add: targets_node)
    have mem: "\<forall>x \<in> set ?new. heap x \<noteq> None \<and> (\<exists>c \<in> set start. reaches heap c x)"
    proof
      fix x assume "x \<in> set ?new"
      then consider "x \<in> set nodes" | "x \<in> set (targets heap (nodes ! i))" using more t by auto
      then show "heap x \<noteq> None \<and> (\<exists>c \<in> set start. reaches heap c x)"
      proof cases
        case 1
        then show ?thesis using prems(2) by blast
      next
        case 2
        obtain c where "c \<in> set start" "reaches heap c (nodes ! i)"
          using prems(2) \<open>nodes ! i \<in> set nodes\<close> by blast
        moreover have "x \<in> dom heap" using 2 n prems(4) by blast
        ultimately show ?thesis using 2 reaches_step [of heap c "nodes ! i" x] by (auto simp: gc_edge_def)
      qed
    qed
    have "length ?new = PPHP_GC_BUFFER_MAX \<or> (\<forall>x \<in> set (take (i + 1) ?new). set (targets heap x) \<subseteq> set ?new)"
    proof (cases "length ?new = PPHP_GC_BUFFER_MAX")
      case full: False
      then have "length nodes \<noteq> PPHP_GC_BUFFER_MAX"
        using step more(1) by (auto simp: found_def)
      then have old: "\<forall>x \<in> set (take i nodes). set (targets heap x) \<subseteq> set nodes" using prems(5) by blast
      have "take (i + 1) ?new = take i nodes @ [nodes ! i]"
        using True more(1) by (simp add: take_Suc_conv_app_nth)
      moreover have "set (targets heap (nodes ! i)) \<subseteq> set ?new" using full step t by simp
      moreover have "set nodes \<subseteq> set ?new" using more(1) by simp
      ultimately show ?thesis using old by auto
    qed simp
    from IH [OF True n _ mem _ prems(4) this] step more(1) prems(3)
    obtain W where "discover_loop heap (i + 1) ?new = Some W" "discovered heap start W" "set W \<subseteq> dom heap"
      by auto
    then show ?thesis using True n by (subst discover_loop.simps) simp
  qed
qed

section \<open>Subtraction\<close>

lemma read_refs_some:
  assumes "set nodes \<subseteq> dom heap"
  shows "\<exists>E. read_refs heap nodes = Some E \<and> length E = length nodes \<and>
    (\<forall>i < length nodes. \<forall>n. heap (nodes ! i) = Some n \<longrightarrow> E ! i = gn_refcnt n)"
  using assms
proof (induction nodes)
  case Nil
  then show ?case by simp
next
  case (Cons a nodes)
  then obtain n where n: "heap a = Some n" by auto
  obtain E where E: "read_refs heap nodes = Some E" "length E = length nodes"
    "\<And>i m. i < length nodes \<Longrightarrow> heap (nodes ! i) = Some m \<Longrightarrow> E ! i = gn_refcnt m"
    using Cons by auto
  have "\<forall>i < length (a # nodes). \<forall>m. heap ((a # nodes) ! i) = Some m \<longrightarrow> (gn_refcnt n # E) ! i = gn_refcnt m"
    using n E(3) by (auto simp: less_Suc_eq_0_disj)
  then show ?case using n E(1,2) by simp
qed

lemma unat_dec: "(r::u16) \<noteq> 0 \<Longrightarrow> unat (r - 1) = unat r - 1"
  by (rule unat_minus_one)

text \<open>The counts after taking away the references \<open>k\<close> to each node.\<close>

definition lowered :: "addr list \<Rightarrow> u16 list \<Rightarrow> (addr \<Rightarrow> nat) \<Rightarrow> u16 list \<Rightarrow> bool" where
  "lowered nodes E k R \<longleftrightarrow>
     length E = length nodes \<and> length R = length nodes \<and>
     (\<forall>i < length nodes. unat (R ! i) = unat (E ! i) - k (nodes ! i))"

lemma lowered_trans:
  "lowered nodes E k R \<Longrightarrow> lowered nodes R k' S \<Longrightarrow> lowered nodes E (\<lambda>a. k a + k' a) S"
  by (simp add: lowered_def)

lemma lowered_none: "length E = length nodes \<Longrightarrow> lowered nodes E (\<lambda>a. 0) E"
  by (simp add: lowered_def)

lemma subtract_internal_lowered:
  assumes "distinct nodes" and "length E = length nodes"
  shows "lowered nodes E (count_list (child_addrs [v])) (subtract_internal_ref nodes v E)"
proof (cases "container_of v")
  case None
  then show ?thesis using assms(2) by (simp add: lowered_def subtract_internal_ref_def)
next
  case (Some a)
  show ?thesis
  proof (cases "a \<in> set nodes \<and> E ! find_node nodes a \<noteq> 0")
    case True
    have "unat ((E[find_node nodes a := E ! find_node nodes a - 1]) ! i) =
      unat (E ! i) - count_list [a] (nodes ! i)" if "i < length nodes" for i
    proof (cases "nodes ! i = a")
      case same: True
      then have "find_node nodes a = i" using find_node_unique [OF assms(1) that] by simp
      then show ?thesis using same True assms(2) that unat_dec by simp
    next
      case other: False
      then have "find_node nodes a \<noteq> i" using find_node_nth True by metis
      then show ?thesis using other by simp
    qed
    then show ?thesis
      using Some True assms(2) by (simp add: lowered_def subtract_internal_ref_def find_node_less Let_def)
  next
    case False
    then have "subtract_internal_ref nodes v E = E"
      using Some by (auto simp: subtract_internal_ref_def find_node_less Let_def)
    moreover have "unat (E ! i) = unat (E ! i) - count_list [a] (nodes ! i)" if "i < length nodes" for i
    proof (cases "nodes ! i = a")
      case True
      then have "find_node nodes a = i" "a \<in> set nodes"
        using find_node_unique [OF assms(1) that] that by (simp, metis nth_mem)
      then have "E ! i = 0" using False by simp
      then show ?thesis by simp
    qed simp
    ultimately show ?thesis using Some assms(2) by (simp add: lowered_def)
  qed
qed

lemma count_child_addrs:
  "count_list (child_addrs (v # vs)) a = count_list (child_addrs [v]) a + count_list (child_addrs vs) a"
  by (simp split: option.splits)

lemma subtract_children_lowered:
  assumes "distinct nodes"
  shows "length E = length nodes \<Longrightarrow>
    lowered nodes E (count_list (child_addrs vs)) (fold (subtract_internal_ref nodes) vs E)"
proof (induction vs arbitrary: E)
  case Nil
  have "count_list (child_addrs []) = (\<lambda>a. 0)" by (rule ext) simp
  then show ?case using lowered_none [OF Nil] by simp
next
  case (Cons v vs)
  note first = subtract_internal_lowered [OF assms Cons.prems, of v]
  then have "length (subtract_internal_ref nodes v E) = length nodes" by (simp add: lowered_def)
  from lowered_trans [OF first Cons.IH [OF this]] show ?case
    unfolding fold_simps o_apply count_child_addrs [symmetric] .
qed

lemma subtract_loop_lowered:
  assumes "distinct nodes"
  shows "set rest \<subseteq> dom heap \<Longrightarrow> length E = length nodes \<Longrightarrow>
    \<exists>R. subtract_loop heap nodes rest E = Some R \<and> lowered nodes E (incoming heap rest) R"
proof (induction rest arbitrary: E)
  case Nil
  have "incoming heap [] = (\<lambda>a. 0)" by (rule ext) (simp add: incoming_def)
  then show ?case using lowered_none [OF Nil(2)] by simp
next
  case (Cons y rest)
  then obtain n where n: "heap y = Some n" by auto
  let ?F = "fold (subtract_internal_ref nodes) (visit_children (gn_body n)) E"
  note first = subtract_children_lowered [OF assms Cons.prems(2), of "visit_children (gn_body n)"]
  then have "length ?F = length nodes" by (simp add: lowered_def)
  then obtain R where R: "subtract_loop heap nodes rest ?F = Some R"
      "lowered nodes ?F (incoming heap rest) R" using Cons.IH Cons.prems(1) by auto
  have "incoming heap (y # rest) = (\<lambda>a. count_list (child_addrs (visit_children (gn_body n))) a + incoming heap rest a)"
    by (rule ext) (simp add: incoming_def targets_node [where heap = heap and a = y, OF n])
  then show ?case using R(1) n lowered_trans [OF first R(2)] by simp
qed

section \<open>Marking\<close>

definition mark_le :: "bool list \<Rightarrow> bool list \<Rightarrow> bool" where
  "mark_le r r' \<longleftrightarrow> length r' = length r \<and> (\<forall>i < length r. r ! i \<longrightarrow> r' ! i)"

lemma mark_le_refl [simp]: "mark_le r r" by (simp add: mark_le_def)

lemma mark_le_trans: "mark_le r r' \<Longrightarrow> mark_le r' r'' \<Longrightarrow> mark_le r r''"
  by (auto simp: mark_le_def)

text \<open>The marked nodes among \<open>as\<close>.\<close>

definition all_marked :: "addr list \<Rightarrow> bool list \<Rightarrow> addr list \<Rightarrow> bool" where
  "all_marked nodes r as \<longleftrightarrow> (\<forall>a \<in> set as. a \<in> set nodes \<longrightarrow> r ! find_node nodes a)"

text \<open>All marked nodes satisfy \<open>P\<close>.\<close>

definition marks_only :: "addr list \<Rightarrow> (addr \<Rightarrow> bool) \<Rightarrow> bool list \<Rightarrow> bool" where
  "marks_only nodes P r \<longleftrightarrow> (\<forall>i < length nodes. r ! i \<longrightarrow> P (nodes ! i))"

text \<open>A step of the marking: marks grow; when nothing has changed, the children are all marked.\<close>

definition mark_step ::
  "addr list \<Rightarrow> (addr \<Rightarrow> bool) \<Rightarrow> addr list \<Rightarrow> bool list \<times> bool \<Rightarrow> bool list \<times> bool \<Rightarrow> bool" where
  "mark_step nodes P as rc rc' \<longleftrightarrow>
     mark_le (fst rc) (fst rc') \<and> marks_only nodes P (fst rc') \<and>
     (\<not> snd rc' \<longrightarrow> rc' = rc \<and> all_marked nodes (fst rc) as)"

lemma mark_child_step:
  assumes "length (fst rc) = length nodes" and "marks_only nodes P (fst rc)" and "\<forall>a \<in> set (child_addrs [v]). P a"
  shows "mark_step nodes P (child_addrs [v]) rc (mark_reachable_child nodes v rc)"
  using assms find_node_le [of nodes] find_node_nth [of _ nodes]
  by (cases rc) (auto simp: mark_reachable_child_def mark_step_def mark_le_def marks_only_def all_marked_def
      nth_list_update find_node_less Let_def split: option.splits)

lemma mark_step_append:
  assumes "mark_step nodes P as rc rc'" and "mark_step nodes P bs rc' rc''"
  shows "mark_step nodes P (as @ bs) rc rc''"
  using assms mark_le_trans [of "fst rc" "fst rc'" "fst rc''"]
  by (auto simp: mark_step_def all_marked_def)

lemma mark_children_step:
  "length (fst rc) = length nodes \<Longrightarrow> marks_only nodes P (fst rc) \<Longrightarrow> \<forall>a \<in> set (child_addrs vs). P a \<Longrightarrow>
     mark_step nodes P (child_addrs vs) rc (fold (mark_reachable_child nodes) vs rc)"
proof (induction vs arbitrary: rc)
  case Nil
  then show ?case by (simp add: mark_step_def all_marked_def)
next
  case (Cons v vs)
  have all: "child_addrs (v # vs) = child_addrs [v] @ child_addrs vs" by (simp split: option.splits)
  have "\<forall>a \<in> set (child_addrs [v]). P a" "\<forall>a \<in> set (child_addrs vs). P a"
    using Cons.prems(3) unfolding all by auto
  note first = mark_child_step [OF Cons.prems(1,2) this(1)] and rest = this(2)
  have "length (fst (mark_reachable_child nodes v rc)) = length nodes"
    "marks_only nodes P (fst (mark_reachable_child nodes v rc))"
    using first Cons.prems(1) by (simp_all add: mark_step_def mark_le_def)
  from mark_step_append [OF first Cons.IH [OF this rest]] show ?case unfolding all by simp
qed

lemma mark_pass_step:
  assumes "set nodes \<subseteq> dom heap" and P: "\<And>y x. P y \<Longrightarrow> gc_edge heap y x \<Longrightarrow> P x"
  shows "length (fst rc) = length nodes \<Longrightarrow> marks_only nodes P (fst rc) \<Longrightarrow> \<forall>i \<in> set is. i < length nodes \<Longrightarrow>
    \<exists>rc'. mark_pass heap nodes is rc = Some rc' \<and> mark_step nodes P [] rc rc' \<and>
      (\<not> snd rc' \<longrightarrow> (\<forall>i \<in> set is. fst rc ! i \<longrightarrow> all_marked nodes (fst rc) (targets heap (nodes ! i))))"
proof (induction "is" arbitrary: rc)
  case Nil
  then show ?case by (simp add: mark_step_def all_marked_def)
next
  case (Cons i rest)
  show ?case
  proof (cases "fst rc ! i")
    case False
    then show ?thesis using Cons.IH [OF Cons.prems(1,2)] Cons.prems(3) by auto
  next
    case True
    then have "nodes ! i \<in> set nodes" using Cons.prems(3) by simp
    then obtain n where n: "heap (nodes ! i) = Some n" using assms(1) by auto
    let ?F = "fold (mark_reachable_child nodes) (visit_children (gn_body n)) rc"
    have "P (nodes ! i)" using True Cons.prems(2,3) by (simp add: marks_only_def)
    then have "\<forall>a \<in> set (targets heap (nodes ! i)). P a" using P by (auto simp: gc_edge_def)
    then have first: "mark_step nodes P (targets heap (nodes ! i)) rc ?F"
      unfolding targets_node [where heap = heap, OF n] by (rule mark_children_step [OF Cons.prems(1,2)])
    then have "length (fst ?F) = length nodes" "marks_only nodes P (fst ?F)"
      using Cons.prems(1) by (simp_all add: mark_step_def mark_le_def)
    from Cons.IH [OF this] Cons.prems(3)
    obtain rc' where rc': "mark_pass heap nodes rest ?F = Some rc'" "mark_step nodes P [] ?F rc'"
        "\<not> snd rc' \<Longrightarrow> \<forall>i \<in> set rest. fst ?F ! i \<longrightarrow> all_marked nodes (fst ?F) (targets heap (nodes ! i))"
      by (metis list.set_intros(2))
    have "mark_step nodes P (targets heap (nodes ! i)) rc rc'" using mark_step_append [OF first rc'(2)] by simp
    then have "mark_step nodes P [] rc rc'" "\<not> snd rc' \<Longrightarrow> all_marked nodes (fst rc) (targets heap (nodes ! i))"
      by (auto simp: mark_step_def all_marked_def)
    moreover have "?F = rc" if "\<not> snd rc'"
      using that rc'(2) first by (auto simp: mark_step_def)
    ultimately show ?thesis using True n rc'(1,3) by auto
  qed
qed

lemma mark_loop_closed:
  assumes "set nodes \<subseteq> dom heap" and P: "\<And>y x. P y \<Longrightarrow> gc_edge heap y x \<Longrightarrow> P x"
  shows "length r = length nodes \<Longrightarrow> marks_only nodes P r \<Longrightarrow>
    \<exists>r'. mark_loop heap nodes r = Some r' \<and> mark_le r r' \<and> marks_only nodes P r' \<and>
      (\<forall>i < length nodes. r' ! i \<longrightarrow> all_marked nodes r' (targets heap (nodes ! i)))"
proof (induction "unmarked_nodes r" arbitrary: r rule: less_induct)
  case less
  have "\<exists>rc'. mark_pass heap nodes [0..<length nodes] (r, False) = Some rc' \<and>
      mark_step nodes P [] (r, False) rc' \<and>
      (\<not> snd rc' \<longrightarrow> (\<forall>i \<in> set [0..<length nodes]. fst (r, False) ! i \<longrightarrow>
         all_marked nodes (fst (r, False)) (targets heap (nodes ! i))))"
    by (rule mark_pass_step [OF assms]) (use less.prems in auto)
  then obtain r' c where rc: "mark_pass heap nodes [0..<length nodes] (r, False) = Some (r', c)"
    and step: "mark_step nodes P [] (r, False) (r', c)"
    and closed: "\<not> c \<Longrightarrow> \<forall>i < length nodes. r ! i \<longrightarrow> all_marked nodes r (targets heap (nodes ! i))"
    by (metis (no_types, lifting) atLeastLessThan_iff fst_conv le0 set_upt snd_conv surj_pair)
  show ?case
  proof (cases c)
    case False
    then have "r' = r" using step by (simp add: mark_step_def)
    then show ?thesis using False rc closed less.prems(2) by (subst mark_loop.simps) simp
  next
    case True
    have "marks_more (r, False) (r', c)" using mark_pass_more [OF rc] less.prems(1) by simp
    then have "unmarked_nodes r' < unmarked_nodes r" "length r' = length nodes"
      using True less.prems(1) by (simp_all add: marks_more_def)
    moreover have "marks_only nodes P r'" "mark_le r r'" using step by (simp_all add: mark_step_def)
    ultimately obtain r'' where "mark_loop heap nodes r' = Some r''" "mark_le r r''" "marks_only nodes P r''"
        "\<forall>i < length nodes. r'' ! i \<longrightarrow> all_marked nodes r'' (targets heap (nodes ! i))"
      using less.hyps [of r'] mark_le_trans [of r r'] by blast
    then show ?thesis using True rc less.prems(1) by (subst mark_loop.simps) simp
  qed
qed

section \<open>The garbage\<close>

text \<open>
  What stays: reached from a container that is outside the nodes \<open>W\<close> examined, or that has a
  reference from outside the containers.
\<close>

definition gc_live :: "gc_heap \<Rightarrow> (addr \<Rightarrow> nat) \<Rightarrow> addr list \<Rightarrow> addr set \<Rightarrow> addr \<Rightarrow> bool" where
  "gc_live heap ext addrs W x \<longleftrightarrow> (\<exists>y \<in> set addrs. (0 < ext y \<or> y \<notin> W) \<and> reaches heap y x)"

lemma incoming_split:
  assumes "distinct addrs" "distinct W" "set W \<subseteq> set addrs"
  shows "incoming heap addrs x = incoming heap W x + (\<Sum>y \<in> set addrs - set W. count_list (targets heap y) x)"
proof -
  have "incoming heap addrs x = (\<Sum>y \<in> set addrs. count_list (targets heap y) x)"
    using assms(1) by (simp add: incoming_def sum_list_distinct_conv_sum_set)
  also have "\<dots> = (\<Sum>y \<in> set W. count_list (targets heap y) x) + (\<Sum>y \<in> set addrs - set W. count_list (targets heap y) x)"
    using sum.subset_diff [OF assms(3), of "\<lambda>y. count_list (targets heap y) x"] by simp
  finally show ?thesis using assms(2) by (simp add: incoming_def sum_list_distinct_conv_sum_set)
qed

lemma gc_live_step: "gc_live heap ext addrs W y \<Longrightarrow> gc_edge heap y x \<Longrightarrow> gc_live heap ext addrs W x"
  unfolding gc_live_def using reaches_step by blast

lemma external_entry:
  assumes graph: "gc_graph heap addrs" and exact: "gc_exact heap ext addrs"
    and W: "distinct W" "set W \<subseteq> set addrs" "x \<in> set W" and n: "heap x = Some n"
  shows "incoming heap W x < unat (gn_refcnt n) \<longleftrightarrow> 0 < ext x \<or> (\<exists>y \<in> set addrs - set W. gc_edge heap y x)"
proof -
  have "unat (gn_refcnt n) = ext x + incoming heap W x + (\<Sum>y \<in> set addrs - set W. count_list (targets heap y) x)"
    using exact W n graph incoming_split [OF _ W(1,2), of heap x] by (fastforce simp: gc_exact_def gc_graph_def)
  moreover have "(\<Sum>y \<in> set addrs - set W. count_list (targets heap y) x) \<noteq> 0 \<longleftrightarrow>
      (\<exists>y \<in> set addrs - set W. gc_edge heap y x)"
    by (simp add: gc_edge_def count_list_0_iff)
  ultimately show ?thesis by linarith
qed

lemma live_when_closed:
  assumes graph: "gc_graph heap addrs" and W: "set W \<subseteq> set addrs"
    and entry: "\<And>x. x \<in> set W \<Longrightarrow> 0 < ext x \<or> (\<exists>y \<in> set addrs - set W. gc_edge heap y x) \<Longrightarrow> M x"
    and closed: "\<And>y x. y \<in> set W \<Longrightarrow> M y \<Longrightarrow> gc_edge heap y x \<Longrightarrow> x \<in> set W \<Longrightarrow> M x"
    and live: "gc_live heap ext addrs (set W) x" and x: "x \<in> set W"
  shows "M x"
proof -
  obtain y where y: "y \<in> set addrs" "0 < ext y \<or> y \<notin> set W" "(gc_edge heap)\<^sup>*\<^sup>* y x"
    using live by (auto simp: gc_live_def reaches_def)
  from y(3) have "x \<in> set addrs \<and> (x \<in> set W \<longrightarrow> M x)"
  proof (induction rule: rtranclp_induct)
    case base
    show ?case using y(1,2) entry by blast
  next
    case (step z w)
    then have "w \<in> set addrs" using graph by (auto simp: gc_graph_def gc_edge_def)
    then show ?case using step.hyps(2) step.IH entry [of w] closed [of z w] by blast
  qed
  then show ?thesis using x by blast
qed

lemma unreachable_nodes_set:
  "length reach = length nodes \<Longrightarrow>
     set (unreachable_nodes nodes reach) = {nodes ! i |i. i < length nodes \<and> \<not> reach ! i}"
  by (force simp: unreachable_nodes_def set_zip)

lemma unreachable_nodes_distinct:
  "distinct nodes \<Longrightarrow> length reach = length nodes \<Longrightarrow> distinct (unreachable_nodes nodes reach)"
proof (induction nodes arbitrary: reach)
  case Nil
  then show ?case by (simp add: unreachable_nodes_def)
next
  case (Cons a nodes)
  then obtain r rs where "reach = r # rs" by (cases reach) auto
  then show ?case using Cons unreachable_nodes_set [of rs nodes]
    by (auto simp: unreachable_nodes_def)
qed

text \<open>Exactly the nodes that are not live.\<close>

lemma find_garbage_exact:
  assumes graph: "gc_graph heap addrs" and exact: "gc_exact heap ext addrs"
    and cands: "found cands" "set cands \<subseteq> set addrs"
  shows "\<exists>W G. find_garbage heap cands = Some G \<and> discovered heap cands W \<and> set W \<subseteq> set addrs \<and>
    distinct G \<and> set G = {x \<in> set W. \<not> gc_live heap ext addrs (set W) x}"
proof -
  have dom: "dom heap = set addrs" "\<forall>y \<in> dom heap. set (targets heap y) \<subseteq> dom heap"
    using graph by (auto simp: gc_graph_def)
  have "\<forall>x \<in> set cands. heap x \<noteq> None \<and> (\<exists>c \<in> set cands. reaches heap c x)"
    using cands(2) dom(1) reaches_refl by blast
  from discover_loop_found [OF cands(1) this subset_refl dom(2), of 0]
  obtain W where W: "discover_loop heap 0 cands = Some W" "discovered heap cands W" "set W \<subseteq> dom heap" by auto
  then have Wd: "distinct W" "set W \<subseteq> set addrs" using dom(1) by (simp_all add: discovered_def found_def)
  obtain E where E: "read_refs heap W = Some E" "length E = length W"
    "\<And>i n. i < length W \<Longrightarrow> heap (W ! i) = Some n \<Longrightarrow> E ! i = gn_refcnt n"
    using read_refs_some [OF W(3)] by blast
  obtain R where R: "subtract_loop heap W W E = Some R" "lowered W E (incoming heap W) R"
    using subtract_loop_lowered [OF Wd(1) W(3) E(2)] by blast
  let ?entry = "\<lambda>x. 0 < ext x \<or> (\<exists>y \<in> set addrs - set W. gc_edge heap y x)"
  let ?live = "gc_live heap ext addrs (set W)"
  have lenR: "length R = length W" using R(2) by (simp add: lowered_def)
  have entry: "R ! i \<noteq> 0 \<longleftrightarrow> ?entry (W ! i)" if i: "i < length W" for i
  proof -
    have "W ! i \<in> set W" using i by simp
    then obtain n where n: "heap (W ! i) = Some n" using W(3) by auto
    have "R ! i \<noteq> 0 \<longleftrightarrow> unat (R ! i) \<noteq> 0" by (simp add: unat_eq_0)
    also have "\<dots> \<longleftrightarrow> incoming heap W (W ! i) < unat (gn_refcnt n)"
      using R(2) E(3) [OF i n] i by (simp add: lowered_def linorder_not_le)
    finally show ?thesis using external_entry [OF graph exact Wd \<open>W ! i \<in> set W\<close> n] by simp
  qed
  have "?live (W ! i)" if "i < length W" "R ! i \<noteq> 0" for i
  proof -
    have "?entry (W ! i)" using entry that by simp
    then show ?thesis
    proof
      assume "0 < ext (W ! i)"
      then show ?thesis using that(1) Wd(2) nth_mem reaches_refl unfolding gc_live_def by blast
    next
      assume "\<exists>y \<in> set addrs - set W. gc_edge heap y (W ! i)"
      then show ?thesis unfolding gc_live_def using reaches_step [OF reaches_refl] by blast
    qed
  qed
  then have only: "marks_only W ?live (map (\<lambda>r. r \<noteq> 0) R)" using lenR by (simp add: marks_only_def)
  have "length (map (\<lambda>r. r \<noteq> 0) R) = length W" using lenR by simp
  note start = this only
  have "\<exists>r. mark_loop heap W (map (\<lambda>r. r \<noteq> 0) R) = Some r \<and> mark_le (map (\<lambda>r. r \<noteq> 0) R) r \<and>
      marks_only W ?live r \<and> (\<forall>i < length W. r ! i \<longrightarrow> all_marked W r (targets heap (W ! i)))"
    by (rule mark_loop_closed [OF W(3) _ start]) (rule gc_live_step)
  then
  obtain r where r: "mark_loop heap W (map (\<lambda>r. r \<noteq> 0) R) = Some r"
    "mark_le (map (\<lambda>r. r \<noteq> 0) R) r" "marks_only W ?live r"
    "\<forall>i < length W. r ! i \<longrightarrow> all_marked W r (targets heap (W ! i))" by blast
  have lenr: "length r = length W" using r(2) lenR by (simp add: mark_le_def)
  have marked: "r ! i \<longleftrightarrow> ?live (W ! i)" if i: "i < length W" for i
  proof
    show "r ! i \<Longrightarrow> ?live (W ! i)" using r(3) i by (simp add: marks_only_def)
    assume live: "?live (W ! i)"
    have "r ! find_node W (W ! i)"
    proof (rule live_when_closed [OF graph Wd(2) _ _ live])
      show "r ! find_node W x" if "x \<in> set W" "?entry x" for x
        using that entry [of "find_node W x"] r(2) lenR find_node_less [of W x] find_node_nth [of x W]
        by (simp add: mark_le_def)
      show "r ! find_node W x" if "y \<in> set W" "r ! find_node W y" "gc_edge heap y x" "x \<in> set W" for y x
        using that r(4) find_node_less [of W y] find_node_nth [of y W]
        by (auto simp: all_marked_def gc_edge_def)
    qed (use i in simp)
    then show "r ! i" using find_node_unique [OF Wd(1) i] by simp
  qed
  let ?G = "unreachable_nodes W r"
  have "find_garbage heap cands = Some ?G" using W(1) E(1) R(1) r(1) by (simp add: find_garbage_def)
  moreover have "set ?G = {x \<in> set W. \<not> ?live x}"
    unfolding unreachable_nodes_set [OF lenr] using marked by (auto simp: in_set_conv_nth)
  ultimately show ?thesis using W(2) Wd(2) unreachable_nodes_distinct [OF Wd(1) lenr] by blast
qed

section \<open>The collection\<close>

text \<open>Two heaps with the same graph and the same counts.\<close>

definition same_graph :: "gc_heap \<Rightarrow> gc_heap \<Rightarrow> bool" where
  "same_graph heap heap' \<longleftrightarrow>
     (\<forall>a. map_option gn_body (heap' a) = map_option gn_body (heap a) \<and>
          map_option gn_refcnt (heap' a) = map_option gn_refcnt (heap a))"

lemma same_graph_fold:
  assumes "\<And>a heap. same_graph heap (f a heap)"
  shows "same_graph heap (fold f as heap)"
proof (induction as arbitrary: heap)
  case Nil
  then show ?case by (simp add: same_graph_def)
next
  case (Cons a as)
  show ?case using assms [of heap a] Cons [of "f a heap"] by (simp add: same_graph_def)
qed

lemma same_graph_flags [intro]:
  "same_graph heap (flag_node a heap)" "same_graph heap (unflag_node a heap)"
  by (auto simp: same_graph_def flag_node_def unflag_node_def split: option.splits)

lemma same_graph_node:
  assumes "same_graph heap heap'"
  shows "node_value heap' = node_value heap" "node_children heap' = node_children heap"
    "targets heap' = targets heap" "dom heap' = dom heap"
proof -
  have "heap' a = None \<longleftrightarrow> heap a = None"
    "heap a = Some n \<Longrightarrow> heap' a = Some n' \<Longrightarrow> gn_body n' = gn_body n" for a n n'
    using assms unfolding same_graph_def by (metis map_option_is_None, metis option.map(2) option.inject)
  note same = this
  show "node_value heap' = node_value heap" "node_children heap' = node_children heap"
    by (rule ext; simp add: node_value_def node_children_def split: option.split; metis same option.distinct(1))+
  then show "targets heap' = targets heap" by (intro ext) (simp add: targets_def)
  show "dom heap' = dom heap" by (simp only: dom_def same(1))
qed

lemma same_graph_wf:
  assumes "same_graph heap heap'"
  shows "gc_graph heap' addrs = gc_graph heap addrs" "gc_exact heap' ext addrs = gc_exact heap ext addrs"
    "gc_live heap' ext addrs W x = gc_live heap ext addrs W x" "discovered heap' cs W' = discovered heap cs W'"
proof -
  note t = same_graph_node(3) [OF assms]
  have "gc_edge heap' = gc_edge heap" by (intro ext) (simp add: gc_edge_def t)
  then have r: "reaches heap' = reaches heap" by (simp add: reaches_def)
  have i: "incoming heap' addrs x = incoming heap addrs x" for x by (simp add: incoming_def t)
  have c: "(\<exists>n. heap' x = Some n \<and> unat (gn_refcnt n) = m) \<longleftrightarrow> (\<exists>n. heap x = Some n \<and> unat (gn_refcnt n) = m)" for x m
  proof -
    have "map_option gn_refcnt (heap' x) = map_option gn_refcnt (heap x)" using assms by (simp add: same_graph_def)
    then show ?thesis by (cases "heap x"; cases "heap' x") simp_all
  qed
  show "gc_graph heap' addrs = gc_graph heap addrs" by (simp only: gc_graph_def t same_graph_node(4) [OF assms])
  show "gc_exact heap' ext addrs = gc_exact heap ext addrs" by (simp only: gc_exact_def i c)
  show "gc_live heap' ext addrs W x = gc_live heap ext addrs W x" by (simp only: gc_live_def r)
  show "discovered heap' cs W' = discovered heap cs W'" by (simp only: discovered_def r t)
qed

lemma child_addrs_nulls: "child_addrs (map (\<lambda>v. PNull) vs) = []"
  by (induction vs) simp_all

lemma clear_body_targets: "child_addrs (visit_children (clear_body b)) = []"
proof (cases b)
  case (GArray es)
  have "visit_children (clear_body (GArray es)) = []"
    unfolding clear_body.simps visit_children.simps concat_eq_Nil_conv set_map by (rule ballI) fastforce
  then show ?thesis unfolding GArray by (simp only: child_addrs_simps)
qed (simp_all add: child_addrs_nulls)

lemma clear_node_targets: "targets (clear_node a heap) x = (if x = a then [] else targets heap x)"
  by (auto simp: clear_node_def targets_def node_children_def clear_body_targets split: option.splits)

lemma clear_nodes_targets:
  "targets (fold clear_node as heap) x = (if x \<in> set as then [] else targets heap x)"
  by (induction as arbitrary: heap) (auto simp: clear_node_targets)

text \<open>How many of the references are to the container.\<close>

definition refs_to :: "addr \<Rightarrow> pvalue multiset \<Rightarrow> nat" where
  "refs_to x M = size (filter_mset (\<lambda>v. container_of v = Some x) M)"

lemma refs_to_add [simp]: "refs_to x (M + N) = refs_to x M + refs_to x N"
  by (simp add: refs_to_def)

lemma refs_to_mset: "refs_to x (mset vs) = count_list (child_addrs vs) x"
  by (induction vs) (auto simp: refs_to_def split: option.splits)

lemma refs_to_none [simp]: "refs_to x {#} = 0"
  by (simp add: refs_to_def)

lemma gains_losses_map [simp]:
  "gains (map Retain vs) = mset vs" "losses (map Retain vs) = {#}"
  "gains (map Release vs) = {#}" "losses (map Release vs) = mset vs"
  by (induction vs) simp_all

lemma refs_to_children:
  "refs_to x (mset (concat (map (node_children heap) as))) = incoming heap as x"
  by (induction as) (auto simp: refs_to_mset incoming_def targets_def)

lemma released_children:
  "concat (map (\<lambda>a. map Release (node_children heap a)) as) = map Release (concat (map (node_children heap) as))"
  by (induction as) simp_all

lemma node_value_container: "a \<noteq> 0 \<Longrightarrow> heap a \<noteq> None \<Longrightarrow> container_of (node_value heap a) = Some a"
proof -
  have "a \<noteq> 0 \<Longrightarrow> container_of (header_value a b) = Some a" for b by (cases b) simp_all
  then show "a \<noteq> 0 \<Longrightarrow> heap a \<noteq> None \<Longrightarrow> ?thesis" by (auto simp: node_value_def)
qed

lemma refs_to_nodes:
  assumes "0 \<notin> set as" "set as \<subseteq> dom heap"
  shows "refs_to x (mset (map (node_value heap) as)) = count_list as x"
proof -
  have "child_addrs (map (node_value heap) as) = as"
    using assms by (induction as) (auto simp: node_value_container)
  then show ?thesis by (simp only: refs_to_mset)
qed

text \<open>A collection in terms of the garbage \<open>G\<close>.\<close>

lemma gc_collect_garbage:
  assumes graph: "gc_graph heap addrs" and exact: "gc_exact heap ext addrs"
    and cands: "found (gs_candidates gs)" "set (gs_candidates gs) \<subseteq> set addrs" "gs_candidates gs \<noteq> []"
    and idle: "\<not> gs_collecting gs"
  shows "\<exists>W G heap' events.
    pphp_gc_collect True heap gs =
      Some (length G, heap', gs\<lparr>gs_candidates := [], gs_requested := False\<rparr>, events) \<and>
    discovered heap (gs_candidates gs) W \<and> set W \<subseteq> set addrs \<and>
    distinct G \<and> set G = {x \<in> set W. \<not> gc_live heap ext addrs (set W) x} \<and>
    (\<forall>x. targets heap' x = (if x \<in> set G then [] else targets heap x)) \<and>
    (\<forall>x. refs_to x (gains events) = count_list G x) \<and>
    (\<forall>x. refs_to x (losses events) = count_list G x + incoming heap G x)"
proof -
  let ?h = "fold unflag_node (gs_candidates gs) heap"
  have same: "same_graph heap ?h" by (rule same_graph_fold) (rule same_graph_flags)
  note node = same_graph_node [OF same] and wf = same_graph_wf [OF same]
  have "gc_graph ?h addrs" "gc_exact ?h ext addrs" using graph exact by (simp_all only: wf)
  from find_garbage_exact [OF this cands(1,2)]
  obtain W G where G: "find_garbage ?h (gs_candidates gs) = Some G"
    and W: "discovered heap (gs_candidates gs) W" "set W \<subseteq> set addrs"
    and Gs: "distinct G" "set G = {x \<in> set W. \<not> gc_live heap ext addrs (set W) x}"
    unfolding wf by blast
  have dom: "dom heap = set addrs" "0 \<notin> set addrs" using graph by (auto simp: gc_graph_def)
  have sub: "set G \<subseteq> dom heap" "0 \<notin> set G" using Gs(2) W(2) dom by auto
  let ?final = "fold clear_node G (fold flag_node G ?h)"
  let ?ev = "map (\<lambda>a. Retain (node_value heap a)) G @
     concat (map (\<lambda>a. map Release (node_children heap a)) G) @ map (\<lambda>a. Release (node_value heap a)) G"
  have "same_graph ?h (fold flag_node G ?h)" by (rule same_graph_fold) (rule same_graph_flags)
  then have targets: "\<forall>x. targets ?final x = (if x \<in> set G then [] else targets heap x)"
    using same_graph_node(3) [of ?h "fold flag_node G ?h"] by (simp add: clear_nodes_targets node(3))
  have "map (\<lambda>a. Retain (node_value heap a)) G = map Retain (map (node_value heap) G)"
    "map (\<lambda>a. Release (node_value heap a)) G = map Release (map (node_value heap) G)" by simp_all
  then have "gains ?ev = mset (map (node_value heap) G)"
    "losses ?ev = mset (concat (map (node_children heap) G)) + mset (map (node_value heap) G)"
    unfolding released_children by (simp_all only: gains_append losses_append gains_losses_map add_0 add_0_right)
  then have counts: "refs_to x (gains ?ev) = count_list G x" "refs_to x (losses ?ev) = count_list G x + incoming heap G x" for x
    using refs_to_nodes [OF sub(2,1)] refs_to_children by simp_all
  have "\<not> (\<exists>a \<in> set (gs_candidates gs). heap a = None)" using cands(2) dom(1) by auto
  then have "pphp_gc_collect True heap gs =
      Some (length G, ?final, gs\<lparr>gs_candidates := [], gs_requested := False\<rparr>, ?ev)"
    using cands(3) idle G by (simp add: pphp_gc_collect_def node)
  then show ?thesis using W Gs targets counts by blast
qed

end
