(* ===== verification/GcProps.thy ===== *)
theory GcProps
  imports GcSound
begin

text \<open>
  The properties of the cycle collector: what a collection clears, what it does to the
  counts, and the invariant of the candidate buffer over every sequence of operations.
\<close>

section \<open>The candidate buffer\<close>

definition is_buffered :: "gc_heap \<Rightarrow> addr \<Rightarrow> bool" where
  "is_buffered heap a \<longleftrightarrow> (case heap a of None \<Rightarrow> False | Some n \<Rightarrow> gn_flags n AND PPHP_GC_BUFFERED \<noteq> 0)"

text \<open>The flag marks the candidates, and a full buffer has requested a collection.\<close>

definition gc_buffer_ok :: "gc_heap \<Rightarrow> gc_state \<Rightarrow> bool" where
  "gc_buffer_ok heap gs \<longleftrightarrow>
     found (gs_candidates gs) \<and> set (gs_candidates gs) = {a. is_buffered heap a} \<and>
     (length (gs_candidates gs) = PPHP_GC_BUFFER_MAX \<longrightarrow> gs_requested gs)"

lemma gc_buffer_ok_cong:
  "(\<And>a. is_buffered heap' a = is_buffered heap a) \<Longrightarrow> gc_buffer_ok heap' gs = gc_buffer_ok heap gs"
  by (simp add: gc_buffer_ok_def)

lemma buffered_bit: "f AND PPHP_GC_BUFFERED \<noteq> 0 \<longleftrightarrow> bit f 5" for f :: u8
  unfolding PPHP_GC_BUFFERED_def push_bit_of_1 by (simp only: and_exp_eq_0_iff_not_bit not_not)

lemma buffered_bits [simp]:
  "bit (f OR PPHP_GC_BUFFERED) 5" "\<not> bit (f AND NOT PPHP_GC_BUFFERED) 5"
  "bit (f OR PPHP_GC_COLLECTING) 5 = bit f 5" for f :: u8
  by (simp_all add: PPHP_GC_BUFFERED_def PPHP_GC_COLLECTING_def bit_simps)

lemma is_buffered_upd [simp]:
  "is_buffered (heap(a \<mapsto> n)) b \<longleftrightarrow> (if b = a then bit (gn_flags n) 5 else is_buffered heap b)"
  "is_buffered (heap(a := None)) b \<longleftrightarrow> b \<noteq> a \<and> is_buffered heap b"
  by (simp_all add: is_buffered_def buffered_bit)

lemma is_buffered_node: "heap a = Some n \<Longrightarrow> is_buffered heap a \<longleftrightarrow> bit (gn_flags n) 5"
  by (simp add: is_buffered_def buffered_bit)

lemma remove_candidate_set:
  assumes "distinct cs"
  shows "set (remove_candidate a cs) = set cs - {a} \<and> distinct (remove_candidate a cs) \<and>
    length (remove_candidate a cs) \<le> length cs \<and> (a \<in> set cs \<longrightarrow> length (remove_candidate a cs) < length cs)"
proof (cases "a \<in> set cs")
  case False
  then show ?thesis using assms find_node_less [of cs a] by (simp add: remove_candidate_def Let_def)
next
  case True
  define i where "i = find_node cs a"
  have i: "i < length cs" "cs ! i = a" using True by (simp_all add: i_def find_node_facts)
  have r: "remove_candidate a cs = butlast (cs[i := last cs])" using i by (simp add: remove_candidate_def i_def)
  obtain ini z where cs: "cs = ini @ [z]" using True by (metis empty_iff list.set(1) rev_exhaust)
  show ?thesis
  proof (cases "i < length ini")
    case False
    then show ?thesis using i assms unfolding r unfolding cs by (simp add: nth_append list_update_append)
  next
    case in_ini: True
    then have "ini ! i = a" using i(2) by (simp add: cs nth_append)
    then have split: "ini = take i ini @ a # drop (Suc i) ini" using id_take_nth_drop [OF in_ini] by simp
    have "remove_candidate a cs = take i ini @ z # drop (Suc i) ini"
      using in_ini unfolding r unfolding cs by (simp add: list_update_append butlast_append upd_conv_take_nth_drop)
    then obtain xs ys where rc: "remove_candidate a cs = xs @ z # ys" and ini: "ini = xs @ a # ys"
      using split by blast
    show ?thesis using assms unfolding rc unfolding cs ini by auto
  qed
qed

lemma unflag_buffered: "is_buffered (unflag_node a heap) b \<longleftrightarrow> b \<noteq> a \<and> is_buffered heap b"
  by (auto simp: unflag_node_def is_buffered_node split: option.splits) (simp add: is_buffered_def)

lemma unflag_nodes_buffered: "is_buffered (fold unflag_node as heap) b \<longleftrightarrow> b \<notin> set as \<and> is_buffered heap b"
  by (induction as arbitrary: heap) (auto simp: unflag_buffered)

lemma flag_buffered: "is_buffered (flag_node a heap) b = is_buffered heap b"
  by (auto simp: flag_node_def is_buffered_node split: option.splits)

lemma clear_buffered: "is_buffered (clear_node a heap) b = is_buffered heap b"
  by (auto simp: clear_node_def is_buffered_node split: option.splits)

lemma fold_buffered:
  "is_buffered (fold clear_node as (fold flag_node bs heap)) b = is_buffered heap b"
proof -
  have "is_buffered (fold flag_node bs heap) b = is_buffered heap b" for heap
    by (induction bs arbitrary: heap) (simp_all add: flag_buffered)
  moreover have "is_buffered (fold clear_node as heap) b = is_buffered heap b" for heap
    by (induction as arbitrary: heap) (simp_all add: clear_buffered)
  ultimately show ?thesis by simp
qed

lemma flags_part:
  "f AND PPHP_GC_BUFFERED =
     (f AND (PPHP_GC_BUFFERED OR PPHP_GC_COLLECTING OR PPHP_GC_DESTROYING)) AND PPHP_GC_BUFFERED" for f :: u8
  by (rule bit_word_eqI) (auto simp: bit_and_iff bit_or_iff)

lemma gc_buffer_kept:
  assumes "gc_buffer_ok heap gs"
  shows "case pphp_gc_buffer a heap gs of (heap', gs') \<Rightarrow> gc_buffer_ok heap' gs'"
proof (cases "heap a")
  case None
  then show ?thesis using assms by (simp add: pphp_gc_buffer_def)
next
  case (Some n)
  show ?thesis
  proof (cases "gn_flags n AND (PPHP_GC_BUFFERED OR PPHP_GC_COLLECTING OR PPHP_GC_DESTROYING) = 0")
    case False
    then show ?thesis using assms Some by (simp add: pphp_gc_buffer_def)
  next
    case True
    then have "gn_flags n AND PPHP_GC_BUFFERED = 0"
      using flags_part [of "gn_flags n"] by simp
    then have "\<not> is_buffered heap a" using Some by (simp add: is_buffered_def)
    then have fresh: "a \<notin> set (gs_candidates gs)" using assms by (simp add: gc_buffer_ok_def)
    let ?h = "heap(a \<mapsto> n\<lparr>gn_flags := gn_flags n OR PPHP_GC_BUFFERED\<rparr>)"
    have new: "{b. is_buffered ?h b} = insert a {b. is_buffered heap b}" by auto
    show ?thesis
    proof (cases "gn_refcnt n = 0 \<or> gn_refcnt n = 65535")
      case True
      then have "pphp_gc_buffer a heap gs = (heap, gs)" using Some by (auto simp: pphp_gc_buffer_def)
      then show ?thesis using assms by simp
    next
      case False
      then have run: "pphp_gc_buffer a heap gs =
          (if length (gs_candidates gs) < PPHP_GC_BUFFER_MAX
           then (?h, gs\<lparr>gs_candidates := gs_candidates gs @ [a],
             gs_requested := (if length (gs_candidates gs) + 1 = PPHP_GC_BUFFER_MAX then True
               else gs_requested gs)\<rparr>)
           else (heap, gs\<lparr>gs_requested := True\<rparr>))"
        unfolding pphp_gc_buffer_def Some option.case using True by (simp only: if_False simp_thms)
      show ?thesis
      proof (cases "length (gs_candidates gs) < PPHP_GC_BUFFER_MAX")
        case True
        then show ?thesis using assms fresh unfolding run gc_buffer_ok_def found_def by (simp add: new del: is_buffered_upd)
      next
        case False
        then show ?thesis using assms unfolding run gc_buffer_ok_def by simp
      qed
    qed
  qed
qed

lemma gc_unbuffer_kept:
  assumes "gc_buffer_ok heap gs"
  shows "case pphp_gc_unbuffer a heap gs of (heap', gs') \<Rightarrow> gc_buffer_ok heap' gs' \<and> \<not> is_buffered heap' a"
proof (cases "heap a")
  case None
  then show ?thesis using assms by (simp add: pphp_gc_unbuffer_def is_buffered_def)
next
  case (Some n)
  have cs: "distinct (gs_candidates gs)" "set (gs_candidates gs) = {a. is_buffered heap a}"
    "length (gs_candidates gs) \<le> PPHP_GC_BUFFER_MAX"
    using assms by (simp_all add: gc_buffer_ok_def found_def)
  show ?thesis
  proof (cases "is_buffered heap a")
    case False
    then show ?thesis using assms Some by (simp add: pphp_gc_unbuffer_def is_buffered_def)
  next
    case True
    then have "a \<in> set (gs_candidates gs)" using cs(2) by simp
    then show ?thesis using remove_candidate_set [OF cs(1), of a] cs True Some
      by (auto simp: pphp_gc_unbuffer_def gc_buffer_ok_def found_def is_buffered_node buffered_bit split: if_splits)
  qed
qed

lemma gc_release_kept:
  assumes "gc_buffer_ok heap gs" and "pv_release a heap gs = Some (heap', gs', dead)"
  shows "gc_buffer_ok heap' gs'"
proof -
  obtain n where n: "heap a = Some n" using assms(2) by (auto simp: pv_release_def split: option.splits)
  let ?h = "heap(a \<mapsto> n\<lparr>gn_refcnt := gn_refcnt n - 1\<rparr>)"
  have "is_buffered ?h b = is_buffered heap b" for b using is_buffered_node [where heap = heap, OF n] by simp
  then have h: "gc_buffer_ok ?h gs" using assms(1) gc_buffer_ok_cong by blast
  show ?thesis using assms n h gc_buffer_kept [OF h, of a]
    by (auto simp: pv_release_def Let_def split: if_splits prod.splits)
qed

lemma gc_collect_kept:
  assumes ok: "gc_buffer_ok heap gs" and run: "pphp_gc_collect b heap gs = Some (k, heap', gs', ev)"
  shows "gc_buffer_ok heap' gs'"
proof (cases "\<not> b \<or> gs_collecting gs \<or> gs_candidates gs = []")
  case True
  then show ?thesis using ok run by (simp add: pphp_gc_collect_def)
next
  case False
  let ?h = "fold unflag_node (gs_candidates gs) heap"
  obtain G where "heap' = fold clear_node G (fold flag_node G ?h)" "gs' = gs\<lparr>gs_candidates := [], gs_requested := False\<rparr>"
    using run False by (auto simp: pphp_gc_collect_def Let_def split: if_splits option.splits)
  then show ?thesis using ok
    by (auto simp: gc_buffer_ok_def fold_buffered unflag_nodes_buffered found_def PPHP_GC_BUFFER_MAX_def)
qed

text \<open>
  What happens to the containers and the collector's state: creation (with the flag clear),
  writes to the contents, the counting, destruction (which starts with
  \<open>pphp_gc_unbuffer\<close>), collections, and the start and end of an interpreter.
\<close>

inductive gc_step :: "gc_heap \<times> gc_state \<Rightarrow> gc_heap \<times> gc_state \<Rightarrow> bool" where
  create: "heap a = None \<Longrightarrow> gn_flags n AND PPHP_GC_BUFFERED = 0 \<Longrightarrow>
    gc_step (heap, gs) (heap(a \<mapsto> n), gs)"
| change: "heap a = Some n \<Longrightarrow> gc_step (heap, gs) (heap(a \<mapsto> n\<lparr>gn_body := b\<rparr>), gs)"
| retain: "pv_retain a heap = Some heap' \<Longrightarrow> gc_step (heap, gs) (heap', gs)"
| release: "pv_release a heap gs = Some (heap', gs', dead) \<Longrightarrow> gc_step (heap, gs) (heap', gs')"
| destroy: "pphp_gc_unbuffer a heap gs = (heap', gs') \<Longrightarrow> gc_step (heap, gs) (heap'(a := None), gs')"
| collect: "pphp_gc_collect s heap gs = Some (k, heap', gs', ev) \<Longrightarrow> gc_step (heap, gs) (heap', gs')"
| maybe_collect: "pphp_gc_maybe_collect s heap gs = Some (k, heap', gs', ev) \<Longrightarrow> gc_step (heap, gs) (heap', gs')"
| set_state: "pphp_gc_set_state s heap gs = (heap', gs') \<Longrightarrow> gc_step (heap, gs) (heap', gs')"

lemma gc_step_kept:
  assumes "gc_step x y" and "gc_buffer_ok (fst x) (snd x)"
  shows "gc_buffer_ok (fst y) (snd y)"
  using assms
proof (induction rule: gc_step.induct)
  case (create heap a n gs)
  then have "\<not> bit (gn_flags n) 5" "\<not> is_buffered heap a" by (auto simp: is_buffered_def buffered_bit [symmetric])
  then have "is_buffered (heap(a \<mapsto> n)) b = is_buffered heap b" for b by simp
  then show ?case using create(3) gc_buffer_ok_cong unfolding fst_conv snd_conv by blast
next
  case (change heap a n gs b)
  then have "is_buffered (heap(a \<mapsto> n\<lparr>gn_body := b\<rparr>)) c = is_buffered heap c" for c
    by (simp add: is_buffered_node)
  then show ?case using change(2) gc_buffer_ok_cong unfolding fst_conv snd_conv by blast
next
  case (retain a heap heap' gs)
  then have "is_buffered heap' c = is_buffered heap c" for c
    by (auto simp: pv_retain_def is_buffered_node split: option.splits if_splits)
  then show ?case using retain(2) gc_buffer_ok_cong unfolding fst_conv snd_conv by blast
next
  case (release a heap gs heap' gs' dead)
  then show ?case using gc_release_kept [OF _ release(1)] by simp
next
  case (destroy a heap gs heap' gs')
  then have kept: "gc_buffer_ok heap' gs'" "\<not> is_buffered heap' a" using gc_unbuffer_kept [of heap gs a] by auto
  then have "is_buffered (heap'(a := None)) b = is_buffered heap' b" for b by auto
  then show ?case using kept(1) gc_buffer_ok_cong unfolding fst_conv snd_conv by blast
next
  case (collect s heap gs k heap' gs' ev)
  then show ?case using gc_collect_kept [OF _ collect(1)] by simp
next
  case (maybe_collect s heap gs k heap' gs' ev)
  then show ?case using gc_collect_kept [of heap gs s k heap' gs' ev]
    by (auto simp: pphp_gc_maybe_collect_def split: if_splits)
next
  case (set_state s heap gs heap' gs')
  then show ?case
    by (auto simp: pphp_gc_set_state_def gc_buffer_ok_def found_def unflag_nodes_buffered PPHP_GC_BUFFER_MAX_def
        split: if_splits)
qed

section \<open>Properties\<close>

definition gc_initial :: "gc_state" where
  "gc_initial = \<lparr>gs_candidates = [], gs_collecting = False, gs_requested = False\<rparr>"

text \<open>
  C18. The candidate buffer: after every sequence of operations (containers created, written,
  retained, released, destroyed, collections, interpreters started and stopped) the buffer
  holds each container that carries the flag \<open>PPHP_GC_BUFFERED\<close> exactly once and nothing else
  (no dangling candidate is left behind by a destruction), it never exceeds its 256 places,
  and when it is full a collection has been requested.
\<close>

theorem candidates_are_the_flagged_containers:
  assumes "gc_step\<^sup>*\<^sup>* (\<lambda>a. None, gc_initial) (heap, gs)"
  shows "distinct (gs_candidates gs) \<and> length (gs_candidates gs) \<le> 256 \<and>
    (\<forall>a. a \<in> set (gs_candidates gs) \<longleftrightarrow> is_buffered heap a) \<and>
    (length (gs_candidates gs) = 256 \<longrightarrow> gs_requested gs)"
proof -
  have "gc_buffer_ok (fst (heap, gs)) (snd (heap, gs))"
    using assms
  proof (induction rule: rtranclp_induct)
    case base
    show ?case
      by (simp add: gc_buffer_ok_def gc_initial_def found_def is_buffered_def PPHP_GC_BUFFER_MAX_def)
  next
    case (step y z)
    then show ?case using gc_step_kept by blast
  qed
  then show ?thesis by (auto simp: gc_buffer_ok_def found_def PPHP_GC_BUFFER_MAX_def)
qed



section \<open>An example\<close>

text \<open>Two arrays that hold each other, and a third, held by a variable, that holds nothing.\<close>

definition gc_example :: "gc_heap" where
  "gc_example =
     (\<lambda>a. None)
       (1 \<mapsto> \<lparr>gn_refcnt = 1, gn_flags = 32,
             gn_body = GArray [\<lparr>pe_key = PInt 0, pe_value = PArray 2, pe_next = 0\<rparr>]\<rparr>,
        2 \<mapsto> \<lparr>gn_refcnt = 1, gn_flags = 0, gn_body = GClosure [PArray 1, PArray 3]\<rparr>,
        3 \<mapsto> \<lparr>gn_refcnt = 2, gn_flags = 0, gn_body = GArray []\<rparr>)"

definition gc_example_state :: "gc_state" where
  "gc_example_state = gc_initial\<lparr>gs_candidates := [1]\<rparr>"

definition gc_example_ext :: "addr \<Rightarrow> nat" where
  "gc_example_ext x = (if x = 3 then 1 else 0)"

lemma gc_example_targets:
  "targets gc_example x = (if x = 1 then [2] else if x = 2 then [1, 3] else [])"
  by (simp add: targets_def node_children_def gc_example_def)

lemma gc_example_ok:
  "gc_graph gc_example [1, 2, 3]" "gc_exact gc_example gc_example_ext [1, 2, 3]"
  "found (gs_candidates gc_example_state)" "set (gs_candidates gc_example_state) \<subseteq> set [1, 2, 3]"
  "gs_candidates gc_example_state \<noteq> []" "\<not> gs_collecting gc_example_state"
proof -
  have "dom gc_example = set [1, 2, 3]" by (auto simp: gc_example_def)
  then show "gc_graph gc_example [1, 2, 3]" by (simp add: gc_graph_def gc_example_targets)
  show "gc_exact gc_example gc_example_ext [1, 2, 3]"
    by (simp add: gc_exact_def incoming_def gc_example_targets gc_example_ext_def) (simp add: gc_example_def)
qed (simp_all add: gc_example_state_def gc_initial_def found_def PPHP_GC_BUFFER_MAX_def)



text \<open>A container with two references loses one and becomes a candidate.\<close>

theorem candidates_are_the_flagged_containers_witness:
  "\<exists>heap gs. gc_step\<^sup>*\<^sup>* (\<lambda>a. None, gc_initial) (heap, gs) \<and> gs_candidates gs = [1] \<and> is_buffered heap 1"
proof -
  let ?n = "\<lparr>gn_refcnt = 2, gn_flags = 0, gn_body = GArray []\<rparr>"
  let ?h = "(\<lambda>a. None)(1 \<mapsto> ?n)"
  have "gc_step (\<lambda>a. None, gc_initial) (?h, gc_initial)" by (rule gc_step.create) simp_all
  moreover obtain heap gs where last: "pv_release 1 ?h gc_initial = Some (heap, gs, False)" "gs_candidates gs = [1]"
    by (simp add: pv_release_def pphp_gc_buffer_def gc_initial_def PPHP_GC_BUFFER_MAX_def)
  ultimately have run: "gc_step\<^sup>*\<^sup>* (\<lambda>a. None, gc_initial) (heap, gs)"
    using gc_step.release [OF last(1)] by (meson converse_rtranclp_into_rtranclp r_into_rtranclp)
  have "1 \<in> set (gs_candidates gs) \<longleftrightarrow> is_buffered heap 1"
    using candidates_are_the_flagged_containers [OF run] by blast
  then have "is_buffered heap 1" using last(2) by simp
  then show ?thesis using run last(2) by blast
qed

end
