(* ===== verification/Pclass.thy ===== *)
theory Pclass
  imports PArrayOps Pbc
begin

text \<open>
  Classes (\<open>src/pclass.c\<close>, \<open>src/pclass.h\<close>) in the build without \<open>PPHP_TYPECHECK\<close>.  Classes
  refer to each other, so they live in a map from addresses to records, next to the memory
  of the pool.  The element counts of the growable arrays are the lengths of the lists.
  A loop along the parents, or a recursion into the interfaces, ends only when the classes
  do not refer to each other in a circle: these are partial functions, whose result \<open>None\<close>
  is not returning or following a pointer to nothing.  The calls of \<open>pv_retain\<close>,
  \<open>pv_release\<close>, \<open>pmodule_retain\<close> and \<open>pmodule_release\<close> are events in their order.
\<close>

unbundle bit_operations_syntax

section \<open>Loops over a list\<close>

primrec fold_m :: "('a \<Rightarrow> 's \<Rightarrow> 's option) \<Rightarrow> 'a list \<Rightarrow> 's \<Rightarrow> 's option" where
  "fold_m f [] s = Some s"
| "fold_m f (x # xs) s = Option.bind (f x s) (fold_m f xs)"

lemma fold_m_mono [partial_function_mono]:
  assumes "\<And>x s. mono_option (\<lambda>g. F g x s)"
  shows "mono_option (\<lambda>g. fold_m (F g) xs s)"
proof (induction xs arbitrary: s)
  case Nil
  show ?case by (simp add: option.const_mono)
next
  case (Cons x xs)
  then show ?case by (simp add: bind_mono [OF assms])
qed

text \<open>With early return: \<open>Inl\<close> leaves the loop.\<close>

primrec each_m :: "('a \<Rightarrow> 's \<Rightarrow> ('r + 's) option) \<Rightarrow> 'a list \<Rightarrow> 's \<Rightarrow> ('r + 's) option" where
  "each_m f [] s = Some (Inr s)"
| "each_m f (x # xs) s =
     Option.bind (f x s) (\<lambda>r. case r of Inl v \<Rightarrow> Some (Inl v) | Inr s \<Rightarrow> each_m f xs s)"

lemma each_m_mono [partial_function_mono]:
  assumes "\<And>x s. mono_option (\<lambda>g. F g x s)"
  shows "mono_option (\<lambda>g. each_m (F g) xs s)"
proof (induction xs arbitrary: s)
  case Nil
  show ?case by (simp add: option.const_mono)
next
  case (Cons x xs)
  have "mono_option (\<lambda>g. case r of Inl v \<Rightarrow> Some (Inl v) | Inr s \<Rightarrow> each_m (F g) xs s)" for r
    using Cons by (cases r) (simp_all add: option.const_mono)
  then show ?case by (simp add: bind_mono [OF assms])
qed

section \<open>Classes\<close>

definition PC_PUBLIC :: u8 where "PC_PUBLIC = push_bit 0 1"
definition PC_PROTECTED :: u8 where "PC_PROTECTED = push_bit 1 1"
definition PC_PRIVATE :: u8 where "PC_PRIVATE = push_bit 2 1"
definition PC_STATIC :: u8 where "PC_STATIC = push_bit 3 1"
definition PC_ABSTRACT :: u8 where "PC_ABSTRACT = push_bit 4 1"
definition PC_FINAL :: u8 where "PC_FINAL = push_bit 5 1"
definition PC_READONLY :: u8 where "PC_READONLY = push_bit 6 1"
definition PC_INTERFACE :: u8 where "PC_INTERFACE = push_bit 7 1"

record pproperty =
  pr_name :: pstring
  pr_slot :: u8
  pr_flags :: u8
  pr_default :: pvalue
  pr_owner :: addr

record pmethod =
  me_name :: pstring
  me_flags :: u8
  me_proto :: "pproto option"
  me_module :: "addr option"
  me_owner :: addr
  me_native :: "addr option"

record pclass =
  cl_name :: pstring
  cl_parent :: "addr option"
  cl_properties_ptr :: "addr option"
  cl_properties :: "pproperty list"
  cl_property_capacity :: nat
  cl_methods_ptr :: "addr option"
  cl_methods :: "pmethod list"
  cl_method_capacity :: nat
  cl_statics :: "parray option"
  cl_static_defs_ptr :: "addr option"
  cl_static_defs :: "pproperty list"
  cl_static_capacity :: nat
  cl_constants :: "parray option"
  cl_interfaces_ptr :: "addr option"
  cl_interfaces :: "addr list"
  cl_interface_capacity :: nat
  cl_refcnt :: u16
  cl_runtime_refs :: u16
  cl_flags :: u8
  cl_values_released :: bool

type_synonym pclass_heap = "addr \<Rightarrow> pclass option"

datatype class_event = Ref rc_event | RetainModule "addr option" | ReleaseModule "addr option"

definition sizeof_pclass :: nat where "sizeof_pclass = 136"
definition sizeof_pproperty :: nat where "sizeof_pproperty = 40"
definition sizeof_pmethod :: nat where "sizeof_pmethod = 48"

text \<open>A class as \<open>memset\<close> and the first assignments of \<open>pclass_new\<close> leave it.\<close>

definition empty_class :: "pstring \<Rightarrow> addr option \<Rightarrow> u8 \<Rightarrow> pclass" where
  "empty_class name parent flags =
     \<lparr>cl_name = name, cl_parent = parent,
      cl_properties_ptr = None, cl_properties = [], cl_property_capacity = 0,
      cl_methods_ptr = None, cl_methods = [], cl_method_capacity = 0,
      cl_statics = None, cl_static_defs_ptr = None, cl_static_defs = [], cl_static_capacity = 0,
      cl_constants = None, cl_interfaces_ptr = None, cl_interfaces = [], cl_interface_capacity = 0,
      cl_refcnt = 1, cl_runtime_refs = 0, cl_flags = flags, cl_values_released = False\<rparr>"

definition grow :: "'h heap_ops \<Rightarrow> addr option \<Rightarrow> nat \<Rightarrow> nat \<Rightarrow> 'h \<Rightarrow> (addr option \<times> nat) option \<times> 'h" where
  "grow ops array element_size capacity h =
     (let next_capacity = (if capacity = 0 then 4 else capacity * 2)
      in case h_realloc ops array (next_capacity * element_size) h of
           (None, h) \<Rightarrow> (None, h)
         | (Some resized, h) \<Rightarrow> (Some (Some resized, next_capacity), h))"

definition fold_byte :: "char \<Rightarrow> nat" where
  "fold_byte c = (if 65 \<le> ord c \<and> ord c \<le> 90 then ord c + (97 - 65) else ord c)"

definition name_equal_ci :: "pstring \<Rightarrow> bytes \<Rightarrow> bool" where
  "name_equal_ci name other \<longleftrightarrow>
     (if ps_length name \<noteq> length other then False
      else list_all2 (\<lambda>left right. fold_byte left = fold_byte right) (ps_data name) other)"

section \<open>Counting references to a class\<close>

definition pclass_retain :: "addr option \<Rightarrow> pclass_heap \<Rightarrow> pclass_heap option" where
  "pclass_retain c classes =
     (case c of
        None \<Rightarrow> Some classes
      | Some a \<Rightarrow>
          (case classes a of
             None \<Rightarrow> None
           | Some k \<Rightarrow>
               Some (if cl_refcnt k \<noteq> 65535 then classes(a \<mapsto> k\<lparr>cl_refcnt := cl_refcnt k + 1\<rparr>)
                     else classes)))"

definition pclass_retain_runtime :: "addr option \<Rightarrow> pclass_heap \<Rightarrow> pclass_heap option" where
  "pclass_retain_runtime c classes =
     (case c of
        None \<Rightarrow> Some classes
      | Some a \<Rightarrow> do {
          classes \<leftarrow> pclass_retain c classes;
          k \<leftarrow> classes a;
          Some (if cl_runtime_refs k \<noteq> 65535
                then classes(a \<mapsto> k\<lparr>cl_runtime_refs := cl_runtime_refs k + 1\<rparr>) else classes)
        })"

text \<open>Defaults of properties, then the tables of static properties and constants.\<close>

definition release_values :: "'h heap_ops \<Rightarrow> pclass \<Rightarrow> 'h \<Rightarrow> pclass \<times> class_event list \<times> 'h" where
  "release_values ops k h =
     (if cl_values_released k then (k, [], h)
      else
        let defaults = map (\<lambda>p. Ref (Release (pr_default p))) (cl_properties k);
            k' = k\<lparr>cl_values_released := True,
                   cl_properties := map (\<lambda>p. p\<lparr>pr_default := PNull\<rparr>) (cl_properties k),
                   cl_statics := None, cl_constants := None\<rparr>
        in case pa_destroy ops (cl_statics k) h of
             (ev1, h) \<Rightarrow>
               (case pa_destroy ops (cl_constants k) h of
                  (ev2, h) \<Rightarrow> (k', defaults @ map Ref ev1 @ map Ref ev2, h)))"

definition pclass_release_values ::
  "'h heap_ops \<Rightarrow> addr option \<Rightarrow> pclass_heap \<Rightarrow> 'h \<Rightarrow> (pclass_heap \<times> class_event list \<times> 'h) option" where
  "pclass_release_values ops c classes h =
     (case c of
        None \<Rightarrow> Some (classes, [], h)
      | Some a \<Rightarrow>
          (case classes a of
             None \<Rightarrow> None
           | Some k \<Rightarrow>
               (case release_values ops k h of (k, ev, h) \<Rightarrow> Some (classes(a \<mapsto> k), ev, h))))"

definition free_names :: "'h heap_ops \<Rightarrow> pstring list \<Rightarrow> 'h \<Rightarrow> 'h" where
  "free_names ops names h = fold (\<lambda>s. ps_destroy ops (Some s)) names h"

text \<open>What a class owns besides its interfaces and its parent.\<close>

definition free_members :: "'h heap_ops \<Rightarrow> pclass \<Rightarrow> 'h \<Rightarrow> class_event list \<times> 'h" where
  "free_members ops k h =
     (let h = free_names ops (map pr_name (cl_properties k)) h;
          h = free_names ops (map me_name (cl_methods k)) h;
          h = ps_destroy ops (Some (cl_name k)) h;
          h = h_free ops (cl_properties_ptr k) h;
          h = h_free ops (cl_methods_ptr k) h;
          h = free_names ops (map pr_name (cl_static_defs k)) h;
          h = h_free ops (cl_static_defs_ptr k) h
      in (map (\<lambda>m. ReleaseModule (me_module m)) (cl_methods k), h))"

partial_function (option) pclass_release ::
  "'h heap_ops \<Rightarrow> addr option \<Rightarrow> pclass_heap \<times> class_event list \<times> 'h \<Rightarrow>
     (pclass_heap \<times> class_event list \<times> 'h) option" where
  "pclass_release ops c st =
     (case c of
        None \<Rightarrow> Some st
      | Some a \<Rightarrow>
          (case st of (classes, ev, h) \<Rightarrow>
             (case classes a of
                None \<Rightarrow> None
              | Some k \<Rightarrow>
                  if cl_refcnt k = 0 \<or> cl_refcnt k = 65535 then Some st
                  else
                    let k = k\<lparr>cl_refcnt := cl_refcnt k - 1\<rparr>
                    in if cl_refcnt k \<noteq> 0 then Some (classes(a \<mapsto> k), ev, h)
                       else
                         (case release_values ops k h of
                            (k, ev1, h) \<Rightarrow>
                              (case free_members ops k h of
                                 (ev2, h) \<Rightarrow> do {
                                   st \<leftarrow> fold_m (\<lambda>i. pclass_release ops (Some i)) (cl_interfaces k)
                                     (classes(a \<mapsto> k), ev @ ev1 @ ev2, h);
                                   st \<leftarrow> (case st of (classes, ev, h) \<Rightarrow>
                                     pclass_release ops (cl_parent k)
                                       (classes, ev, h_free ops (cl_interfaces_ptr k) h));
                                   (case st of (classes, ev, h) \<Rightarrow>
                                      Some (classes(a := None), ev, h_free ops (Some a) h))
                                 })))))"

definition pclass_release_runtime ::
  "'h heap_ops \<Rightarrow> addr option \<Rightarrow> pclass_heap \<times> class_event list \<times> 'h \<Rightarrow>
     (pclass_heap \<times> class_event list \<times> 'h) option" where
  "pclass_release_runtime ops c st =
     (case c of
        None \<Rightarrow> Some st
      | Some a \<Rightarrow>
          (case st of (classes, ev, h) \<Rightarrow>
             (case classes a of
                None \<Rightarrow> None
              | Some k \<Rightarrow>
                  pclass_release ops c
                    (if cl_runtime_refs k \<noteq> 0 \<and> cl_runtime_refs k \<noteq> 65535
                     then classes(a \<mapsto> k\<lparr>cl_runtime_refs := cl_runtime_refs k - 1\<rparr>) else classes, ev, h))))"

definition pclass_destroy ::
  "'h heap_ops \<Rightarrow> addr option \<Rightarrow> pclass_heap \<times> class_event list \<times> 'h \<Rightarrow>
     (pclass_heap \<times> class_event list \<times> 'h) option" where
  "pclass_destroy ops c st = pclass_release ops c st"

section \<open>Lookup\<close>

text \<open>Members are pointers into the array of a class; here their records.\<close>

definition find_prop :: "pproperty list \<Rightarrow> bytes \<Rightarrow> pproperty option" where
  "find_prop properties name = List.find (\<lambda>p. ps_equal_bytes (pr_name p) name) properties"

definition find_own_method :: "pmethod list \<Rightarrow> bytes \<Rightarrow> pmethod option" where
  "find_own_method methods name = List.find (\<lambda>m. name_equal_ci (me_name m) name) methods"

definition pclass_find_property :: "addr option \<Rightarrow> bytes \<Rightarrow> pclass_heap \<Rightarrow> pproperty option option" where
  "pclass_find_property c name classes =
     (case c of
        None \<Rightarrow> Some None
      | Some a \<Rightarrow> map_option (\<lambda>k. find_prop (cl_properties k) name) (classes a))"

partial_function (option) pclass_find_method ::
  "pclass_heap \<Rightarrow> bytes \<Rightarrow> addr option \<Rightarrow> pmethod option option" where
  "pclass_find_method classes name c =
     (case c of
        None \<Rightarrow> Some None
      | Some a \<Rightarrow>
          (case classes a of
             None \<Rightarrow> None
           | Some k \<Rightarrow>
               (case find_own_method (cl_methods k) name of
                  Some m \<Rightarrow> Some (Some m)
                | None \<Rightarrow> pclass_find_method classes name (cl_parent k))))"

partial_function (option) pclass_find_static_property ::
  "pclass_heap \<Rightarrow> bytes \<Rightarrow> addr option \<Rightarrow> pproperty option option" where
  "pclass_find_static_property classes name c =
     (case c of
        None \<Rightarrow> Some None
      | Some a \<Rightarrow>
          (case classes a of
             None \<Rightarrow> None
           | Some k \<Rightarrow>
               (case find_prop (cl_static_defs k) name of
                  Some p \<Rightarrow> Some (Some p)
                | None \<Rightarrow> pclass_find_static_property classes name (cl_parent k))))"

partial_function (option) pclass_is_a ::
  "pclass_heap \<Rightarrow> addr option \<Rightarrow> addr option \<Rightarrow> bool option" where
  "pclass_is_a classes expected c =
     (case c of
        None \<Rightarrow> Some False
      | Some a \<Rightarrow>
          if c = expected then Some True
          else
            (case classes a of
               None \<Rightarrow> None
             | Some k \<Rightarrow> do {
                 r \<leftarrow> each_m (\<lambda>i u. do {
                        found \<leftarrow> pclass_is_a classes expected (Some i);
                        Some (if found then Inl True else Inr u)
                      }) (cl_interfaces k) ();
                 (case r of
                    Inl v \<Rightarrow> Some v
                  | Inr u \<Rightarrow> pclass_is_a classes expected (cl_parent k))
               }))"

definition pclass_member_visible ::
  "pclass_heap \<Rightarrow> u8 \<Rightarrow> addr option \<Rightarrow> addr option \<Rightarrow> bool option" where
  "pclass_member_visible classes flags owner scope =
     (if flags AND PC_PRIVATE \<noteq> 0 then Some (scope = owner)
      else if flags AND PC_PROTECTED \<noteq> 0 then
        (if scope = None then Some False
         else do {
           below \<leftarrow> pclass_is_a classes owner scope;
           if below then Some True else pclass_is_a classes scope owner
         })
      else Some True)"

section \<open>Adding members\<close>

type_synonym 'h class_result = "(bool \<times> pclass_heap \<times> class_event list \<times> 'h) option"

definition pclass_add_property ::
  "'h heap_ops \<Rightarrow> addr option \<Rightarrow> bytes \<Rightarrow> u8 \<Rightarrow> pvalue \<Rightarrow> pclass_heap \<Rightarrow> 'h \<Rightarrow> 'h class_result" where
  "pclass_add_property ops c name flags default_value classes h =
     (case c of
        None \<Rightarrow> Some (False, classes, [], h)
      | Some a \<Rightarrow> do {
          k \<leftarrow> classes a;
          if 255 \<le> length (cl_properties k) \<or> find_prop (cl_properties k) name \<noteq> None
          then Some (False, classes, [], h)
          else
            (case (if length (cl_properties k) = cl_property_capacity k
                   then grow ops (cl_properties_ptr k) sizeof_pproperty (cl_property_capacity k) h
                   else (Some (cl_properties_ptr k, cl_property_capacity k), h)) of
               (None, h) \<Rightarrow> Some (False, classes, [], h)
             | (Some (ptr, capacity), h) \<Rightarrow>
                 let k = k\<lparr>cl_properties_ptr := ptr, cl_property_capacity := capacity\<rparr>
                 in (case ps_new ops name h of
                       (None, h) \<Rightarrow> Some (False, classes(a \<mapsto> k), [], h)
                     | (Some s, h) \<Rightarrow>
                         let property = \<lparr>pr_name = s, pr_slot = of_nat (length (cl_properties k)),
                               pr_flags = flags, pr_default = default_value, pr_owner = a\<rparr>
                         in Some (True,
                              classes(a \<mapsto> k\<lparr>cl_properties := cl_properties k @ [property]\<rparr>),
                              [Ref (Retain default_value)], h)))
        })"

definition pclass_add_method ::
  "'h heap_ops \<Rightarrow> addr option \<Rightarrow> bytes \<Rightarrow> u8 \<Rightarrow> pproto option \<Rightarrow> addr option \<Rightarrow>
     pclass_heap \<Rightarrow> 'h \<Rightarrow> 'h class_result" where
  "pclass_add_method ops c name flags proto module classes h =
     (case c of
        None \<Rightarrow> Some (False, classes, [], h)
      | Some a \<Rightarrow> do {
          k \<leftarrow> classes a;
          inherited \<leftarrow> pclass_find_method classes name (cl_parent k);
          if (case inherited of None \<Rightarrow> False | Some m \<Rightarrow> me_flags m AND PC_FINAL \<noteq> 0) \<or>
             find_own_method (cl_methods k) name \<noteq> None
          then Some (False, classes, [], h)
          else
            (case (if length (cl_methods k) = cl_method_capacity k
                   then grow ops (cl_methods_ptr k) sizeof_pmethod (cl_method_capacity k) h
                   else (Some (cl_methods_ptr k, cl_method_capacity k), h)) of
               (None, h) \<Rightarrow> Some (False, classes, [], h)
             | (Some (ptr, capacity), h) \<Rightarrow>
                 let k = k\<lparr>cl_methods_ptr := ptr, cl_method_capacity := capacity\<rparr>
                 in (case ps_new ops name h of
                       (None, h) \<Rightarrow> Some (False, classes(a \<mapsto> k), [], h)
                     | (Some s, h) \<Rightarrow>
                         let m = \<lparr>me_name = s, me_flags = flags, me_proto = proto, me_module = module,
                               me_owner = a, me_native = None\<rparr>
                         in Some (True, classes(a \<mapsto> k\<lparr>cl_methods := cl_methods k @ [m]\<rparr>),
                              [RetainModule module], h)))
        })"

definition pclass_add_native_method ::
  "'h heap_ops \<Rightarrow> addr option \<Rightarrow> bytes \<Rightarrow> u8 \<Rightarrow> addr option \<Rightarrow> pclass_heap \<Rightarrow> 'h \<Rightarrow> 'h class_result" where
  "pclass_add_native_method ops c name flags function classes h =
     (if function = None then Some (False, classes, [], h)
      else do {
        (ok, classes, ev, h) \<leftarrow> pclass_add_method ops c name flags None None classes h;
        if \<not> ok then Some (False, classes, ev, h)
        else do {
          a \<leftarrow> c;
          k \<leftarrow> classes a;
          let i = length (cl_methods k) - 1;
          Some (True, classes(a \<mapsto> k\<lparr>cl_methods :=
              (cl_methods k)[i := (cl_methods k ! i)\<lparr>me_native := function\<rparr>]\<rparr>), ev, h)
        }
      })"

definition pclass_add_interface ::
  "'h heap_ops \<Rightarrow> addr option \<Rightarrow> addr option \<Rightarrow> pclass_heap \<Rightarrow> 'h \<Rightarrow> 'h class_result" where
  "pclass_add_interface ops c i classes h =
     (case (c, i) of
        (Some a, Some b) \<Rightarrow> do {
          entry \<leftarrow> classes b;
          if cl_flags entry AND PC_INTERFACE = 0 then Some (False, classes, [], h)
          else do {
            k \<leftarrow> classes a;
            if b \<in> set (cl_interfaces k) then Some (False, classes, [], h)
            else
              (case (if length (cl_interfaces k) = cl_interface_capacity k
                     then
                       (let capacity = (if cl_interface_capacity k = 0 then 2
                                        else cl_interface_capacity k * 2)
                        in case h_realloc ops (cl_interfaces_ptr k) (capacity * sizeof_ptr) h of
                             (None, h) \<Rightarrow> (None, h)
                           | (Some p, h) \<Rightarrow> (Some (Some p, capacity), h))
                     else (Some (cl_interfaces_ptr k, cl_interface_capacity k), h)) of
                 (None, h) \<Rightarrow> Some (False, classes, [], h)
               | (Some (ptr, capacity), h) \<Rightarrow> do {
                   classes \<leftarrow> pclass_retain i
                     (classes(a \<mapsto> k\<lparr>cl_interfaces_ptr := ptr, cl_interface_capacity := capacity\<rparr>));
                   k \<leftarrow> classes a;
                   Some (True, classes(a \<mapsto> k\<lparr>cl_interfaces := cl_interfaces k @ [b]\<rparr>), [], h)
                 })
          }
        }
      | _ \<Rightarrow> Some (False, classes, [], h))"

section \<open>Static properties and constants\<close>

definition class_table_add ::
  "'h heap_ops \<Rightarrow> parray option \<Rightarrow> bytes \<Rightarrow> pvalue \<Rightarrow> 'h \<Rightarrow>
     (bool \<times> parray option \<times> class_event list \<times> 'h) option" where
  "class_table_add ops table name v h =
     (case (case table of None \<Rightarrow> pa_new ops 4 h | Some t \<Rightarrow> (Some t, h)) of
        (None, h) \<Rightarrow> Some (False, None, [], h)
      | (Some t, h) \<Rightarrow>
          (case ps_new ops name h of
             (None, h) \<Rightarrow> Some (False, Some t, [], h)
           | (Some key, h) \<Rightarrow> do {
               (existing, ev, h) \<leftarrow> pa_get ops (Some t) (PString key) h;
               (case existing of
                  Some v' \<Rightarrow>
                    Some (False, Some t, map Ref ev @ [Ref (Release v')], ps_destroy ops (Some key) h)
                | None \<Rightarrow> do {
                    (added, t', ev', h) \<leftarrow> pa_set ops (Some t) (PString key) v h;
                    Some (added, t',
                      map Ref (ev @ Create (PString key) # ev' @ [Release (PString key)]), h)
                  })
             }))"

text \<open>\<open>constants ? cursor->constants : cursor->static_properties\<close>\<close>

definition class_table :: "bool \<Rightarrow> pclass \<Rightarrow> parray option" where
  "class_table in_constants k = (if in_constants then cl_constants k else cl_statics k)"

partial_function (option) table_loop ::
  "'h heap_ops \<Rightarrow> pclass_heap \<Rightarrow> bool \<Rightarrow> pstring \<Rightarrow> addr option \<Rightarrow> class_event list \<times> 'h \<Rightarrow>
     (pvalue option \<times> class_event list \<times> 'h) option" where
  "table_loop ops classes in_constants key c st =
     (case c of
        None \<Rightarrow> (case st of (ev, h) \<Rightarrow> Some (None, ev, h))
      | Some a \<Rightarrow>
          (case classes a of
             None \<Rightarrow> None
           | Some k \<Rightarrow>
               (case class_table in_constants k of
                  None \<Rightarrow> table_loop ops classes in_constants key (cl_parent k) st
                | Some t \<Rightarrow>
                    (case st of (ev, h) \<Rightarrow> do {
                       r \<leftarrow> pa_get ops (Some t) (PString key) h;
                       (case r of (found, ev', h) \<Rightarrow>
                          (case found of
                             Some v \<Rightarrow> Some (Some v, ev @ map Ref ev', h)
                           | None \<Rightarrow>
                               table_loop ops classes in_constants key (cl_parent k) (ev @ map Ref ev', h)))
                     }))))"

definition class_table_get ::
  "'h heap_ops \<Rightarrow> addr option \<Rightarrow> bool \<Rightarrow> bytes \<Rightarrow> pclass_heap \<Rightarrow> 'h \<Rightarrow>
     (pvalue option \<times> class_event list \<times> 'h) option" where
  "class_table_get ops c in_constants name classes h =
     (case ps_new ops name h of
        (None, h) \<Rightarrow> Some (None, [], h)
      | (Some key, h) \<Rightarrow> do {
          (r, ev, h) \<leftarrow> table_loop ops classes in_constants key c ([], h);
          Some (r, ev, ps_destroy ops (Some key) h)
        })"

definition pclass_add_static_property ::
  "'h heap_ops \<Rightarrow> addr option \<Rightarrow> bytes \<Rightarrow> u8 \<Rightarrow> pvalue \<Rightarrow> pclass_heap \<Rightarrow> 'h \<Rightarrow> 'h class_result" where
  "pclass_add_static_property ops c name flags default_value classes h =
     (case c of
        None \<Rightarrow> Some (False, classes, [], h)
      | Some a \<Rightarrow> do {
          k \<leftarrow> classes a;
          if find_prop (cl_static_defs k) name \<noteq> None then Some (False, classes, [], h)
          else
            (case (if length (cl_static_defs k) = cl_static_capacity k
                   then grow ops (cl_static_defs_ptr k) sizeof_pproperty (cl_static_capacity k) h
                   else (Some (cl_static_defs_ptr k, cl_static_capacity k), h)) of
               (None, h) \<Rightarrow> Some (False, classes, [], h)
             | (Some (ptr, capacity), h) \<Rightarrow>
                 let k = k\<lparr>cl_static_defs_ptr := ptr, cl_static_capacity := capacity\<rparr>
                 in (case ps_new ops name h of
                       (None, h) \<Rightarrow> Some (False, classes(a \<mapsto> k), [], h)
                     | (Some s, h) \<Rightarrow> do {
                         let property = \<lparr>pr_name = s, pr_slot = 0, pr_flags = flags,
                               pr_default = PNull, pr_owner = a\<rparr>;
                         (added, table, ev, h) \<leftarrow> class_table_add ops (cl_statics k) name default_value h;
                         let k = k\<lparr>cl_statics := table\<rparr>;
                         if \<not> added
                         then Some (False, classes(a \<mapsto> k), ev, ps_destroy ops (Some s) h)
                         else Some (True,
                           classes(a \<mapsto> k\<lparr>cl_static_defs := cl_static_defs k @ [property]\<rparr>), ev, h)
                       }))
        })"

definition pclass_get_static_property ::
  "'h heap_ops \<Rightarrow> addr option \<Rightarrow> bytes \<Rightarrow> pclass_heap \<Rightarrow> 'h \<Rightarrow>
     (pvalue option \<times> class_event list \<times> 'h) option" where
  "pclass_get_static_property ops c name classes h =
     (if c = None then Some (None, [], h) else class_table_get ops c False name classes h)"

partial_function (option) set_static_loop ::
  "'h heap_ops \<Rightarrow> pstring \<Rightarrow> pvalue \<Rightarrow> addr option \<Rightarrow> pclass_heap \<times> class_event list \<times> 'h \<Rightarrow>
     (bool \<times> pclass_heap \<times> class_event list \<times> 'h) option" where
  "set_static_loop ops key v c st =
     (case st of (classes, ev, h) \<Rightarrow>
        (case c of
           None \<Rightarrow> Some (False, classes, ev, h)
         | Some a \<Rightarrow>
             (case classes a of
                None \<Rightarrow> None
              | Some k \<Rightarrow>
                  (case cl_statics k of
                     None \<Rightarrow> set_static_loop ops key v (cl_parent k) st
                   | Some t \<Rightarrow> do {
                       r \<leftarrow> pa_get ops (Some t) (PString key) h;
                       (case r of (existing, ev1, h) \<Rightarrow>
                          (case existing of
                             None \<Rightarrow> set_static_loop ops key v (cl_parent k) (classes, ev @ map Ref ev1, h)
                           | Some old \<Rightarrow> do {
                               r \<leftarrow> pa_set ops (Some t) (PString key) v h;
                               (case r of (ok, t', ev2, h) \<Rightarrow>
                                  Some (ok, classes(a \<mapsto> k\<lparr>cl_statics := t'\<rparr>),
                                    ev @ map Ref (ev1 @ Release old # ev2), h))
                             }))
                     }))))"

definition pclass_set_static_property ::
  "'h heap_ops \<Rightarrow> addr option \<Rightarrow> bytes \<Rightarrow> pvalue \<Rightarrow> pclass_heap \<Rightarrow> 'h \<Rightarrow> 'h class_result" where
  "pclass_set_static_property ops c name v classes h =
     (if c = None then Some (False, classes, [], h)
      else
        (case ps_new ops name h of
           (None, h) \<Rightarrow> Some (False, classes, [], h)
         | (Some key, h) \<Rightarrow> do {
             (ok, classes, ev, h) \<leftarrow> set_static_loop ops key v c (classes, [], h);
             Some (ok, classes, ev, ps_destroy ops (Some key) h)
           }))"

definition pclass_add_constant ::
  "'h heap_ops \<Rightarrow> addr option \<Rightarrow> bytes \<Rightarrow> pvalue \<Rightarrow> pclass_heap \<Rightarrow> 'h \<Rightarrow> 'h class_result" where
  "pclass_add_constant ops c name v classes h =
     (case c of
        None \<Rightarrow> Some (False, classes, [], h)
      | Some a \<Rightarrow> do {
          k \<leftarrow> classes a;
          (ok, table, ev, h) \<leftarrow> class_table_add ops (cl_constants k) name v h;
          Some (ok, classes(a \<mapsto> k\<lparr>cl_constants := table\<rparr>), ev, h)
        })"

definition pclass_get_constant ::
  "'h heap_ops \<Rightarrow> addr option \<Rightarrow> bytes \<Rightarrow> pclass_heap \<Rightarrow> 'h \<Rightarrow>
     (pvalue option \<times> class_event list \<times> 'h) option" where
  "pclass_get_constant ops c name classes h =
     (if c = None then Some (None, [], h) else class_table_get ops c True name classes h)"

section \<open>Creation\<close>

text \<open>The properties of the parent, added in order; each keeps its owner.\<close>

fun inherit_properties ::
  "'h heap_ops \<Rightarrow> addr \<Rightarrow> pproperty list \<Rightarrow> pclass_heap \<Rightarrow> class_event list \<Rightarrow> 'h \<Rightarrow> 'h class_result" where
  "inherit_properties ops a [] classes ev h = Some (True, classes, ev, h)"
| "inherit_properties ops a (p # properties) classes ev h = do {
     (ok, classes, ev', h) \<leftarrow>
       pclass_add_property ops (Some a) (ps_data (pr_name p)) (pr_flags p) (pr_default p) classes h;
     if \<not> ok then Some (False, classes, ev @ ev', h)
     else do {
       k \<leftarrow> classes a;
       let i = length (cl_properties k) - 1;
       inherit_properties ops a properties
         (classes(a \<mapsto> k\<lparr>cl_properties :=
            (cl_properties k)[i := (cl_properties k ! i)\<lparr>pr_owner := pr_owner p\<rparr>]\<rparr>)) (ev @ ev') h
     }
   }"

definition pclass_new ::
  "'h heap_ops \<Rightarrow> bytes \<Rightarrow> addr option \<Rightarrow> u8 \<Rightarrow> pclass_heap \<Rightarrow> 'h \<Rightarrow>
     (addr option \<times> pclass_heap \<times> class_event list \<times> 'h) option" where
  "pclass_new ops name parent flags classes h =
     (case h_alloc ops sizeof_pclass h of
        (None, h) \<Rightarrow> Some (None, classes, [], h)
      | (Some a, h) \<Rightarrow>
          (case ps_new ops name h of
             (None, h) \<Rightarrow> Some (None, classes, [], h_free ops (Some a) h)
           | (Some s, h) \<Rightarrow> do {
               classes \<leftarrow> pclass_retain parent (classes(a \<mapsto> empty_class s parent flags));
               (case parent of
                  None \<Rightarrow> Some (Some a, classes, [], h)
                | Some p \<Rightarrow> do {
                    k \<leftarrow> classes p;
                    (ok, classes, ev, h) \<leftarrow> inherit_properties ops a (cl_properties k) classes [] h;
                    if ok then Some (Some a, classes, ev, h)
                    else do {
                      (classes, ev, h) \<leftarrow> pclass_destroy ops (Some a) (classes, ev, h);
                      Some (None, classes, ev, h)
                    }
                  })
             }))"

section \<open>Completeness\<close>

datatype method_relation = METHOD_INCOMPATIBLE | METHOD_COMPATIBLE | METHOD_PENDING

definition method_visibility_compatible :: "u8 \<Rightarrow> u8 \<Rightarrow> bool" where
  "method_visibility_compatible implementation requirement \<longleftrightarrow>
     (if requirement AND PC_PUBLIC \<noteq> 0 then implementation AND PC_PUBLIC \<noteq> 0
      else if requirement AND PC_PROTECTED \<noteq> 0 then implementation AND PC_PRIVATE = 0
      else True)"

definition method_signature_compatible :: "pmethod \<Rightarrow> pmethod \<Rightarrow> method_relation" where
  "method_signature_compatible implementation requirement =
     (if me_flags requirement AND PC_STATIC \<noteq> me_flags implementation AND PC_STATIC
      then METHOD_INCOMPATIBLE
      else if \<not> method_visibility_compatible (me_flags implementation) (me_flags requirement)
      then METHOD_INCOMPATIBLE
      else
        (case (me_proto implementation, me_proto requirement) of
           (Some actual, Some required) \<Rightarrow>
             if n_required required < n_required actual \<or>
                variadic required \<and> \<not> variadic actual \<or>
                \<not> variadic actual \<and> n_params actual < n_params required
             then METHOD_INCOMPATIBLE else METHOD_COMPATIBLE
         | _ \<Rightarrow> METHOD_COMPATIBLE))"

definition method_implements ::
  "pclass_heap \<Rightarrow> addr option \<Rightarrow> pmethod \<Rightarrow> bool \<Rightarrow> method_relation option" where
  "method_implements classes c requirement require_concrete = do {
     found \<leftarrow> pclass_find_method classes (ps_data (me_name requirement)) c;
     (case found of
        None \<Rightarrow> Some METHOD_INCOMPATIBLE
      | Some implementation \<Rightarrow>
          if require_concrete \<and> me_flags implementation AND PC_ABSTRACT \<noteq> 0
          then Some METHOD_INCOMPATIBLE
          else Some (method_signature_compatible implementation requirement))
   }"

text \<open>
  The state of the loops: \<open>*missing\<close> and \<open>pending\<close>.  A requirement that is met leaves it, one
  that is pending is recorded, one that is not met ends the loop.
\<close>

type_synonym complete_state = "pmethod option \<times> bool"

definition record_relation ::
  "pmethod \<Rightarrow> method_relation \<Rightarrow> complete_state \<Rightarrow> (method_relation \<times> pmethod option) + complete_state" where
  "record_relation requirement relation st =
     (case st of (missing, pending) \<Rightarrow>
        (case relation of
           METHOD_INCOMPATIBLE \<Rightarrow> Inl (METHOD_INCOMPATIBLE, Some requirement)
         | METHOD_PENDING \<Rightarrow>
             Inr (case missing of None \<Rightarrow> Some requirement | Some m \<Rightarrow> missing, True)
         | METHOD_COMPATIBLE \<Rightarrow> Inr (missing, pending)))"

definition final_relation :: "complete_state \<Rightarrow> method_relation \<times> pmethod option" where
  "final_relation st =
     (case st of (missing, pending) \<Rightarrow>
        (if pending then METHOD_PENDING else METHOD_COMPATIBLE, missing))"

definition interface_method ::
  "pclass_heap \<Rightarrow> addr option \<Rightarrow> bool \<Rightarrow> pmethod \<Rightarrow> complete_state \<Rightarrow>
     ((method_relation \<times> pmethod option) + complete_state) option" where
  "interface_method classes c require_concrete requirement st = do {
     implementation \<leftarrow> pclass_find_method classes (ps_data (me_name requirement)) c;
     if require_concrete \<or> implementation \<noteq> None then do {
       relation \<leftarrow> method_implements classes c requirement require_concrete;
       Some (record_relation requirement relation st)
     } else Some (Inr st)
   }"

partial_function (option) interfaces_complete ::
  "pclass_heap \<Rightarrow> addr option \<Rightarrow> bool \<Rightarrow> addr \<Rightarrow> pmethod option \<Rightarrow>
     (method_relation \<times> pmethod option) option" where
  "interfaces_complete classes c require_concrete i missing =
     (case classes i of
        None \<Rightarrow> None
      | Some entry \<Rightarrow> do {
          r \<leftarrow> each_m (interface_method classes c require_concrete) (cl_methods entry) (missing, False);
          (case r of
             Inl result \<Rightarrow> Some result
           | Inr st \<Rightarrow> do {
               r \<leftarrow> each_m (\<lambda>j st. (case st of (missing, pending) \<Rightarrow> do {
                      inner \<leftarrow> interfaces_complete classes c require_concrete j missing;
                      (case inner of (relation, missing) \<Rightarrow>
                         Some (if relation = METHOD_INCOMPATIBLE then Inl (relation, missing)
                               else Inr (missing, pending \<or> relation = METHOD_PENDING)))
                    })) (cl_interfaces entry) st;
               Some (case r of Inl result \<Rightarrow> result | Inr st \<Rightarrow> final_relation st)
             })
        })"

text \<open>An own method against the one it overrides.\<close>

definition override_method ::
  "pclass_heap \<Rightarrow> addr option \<Rightarrow> pmethod \<Rightarrow> complete_state \<Rightarrow>
     ((method_relation \<times> pmethod option) + complete_state) option" where
  "override_method classes parent m st = do {
     found \<leftarrow> pclass_find_method classes (ps_data (me_name m)) parent;
     Some (case found of
       None \<Rightarrow> Inr st
     | Some requirement \<Rightarrow>
         if me_flags requirement AND PC_PRIVATE = 0 \<and>
            \<not> name_equal_ci (me_name requirement) ''__construct''
         then record_relation requirement (method_signature_compatible m requirement) st
         else Inr st)
   }"

definition abstract_method ::
  "pclass_heap \<Rightarrow> addr option \<Rightarrow> bool \<Rightarrow> pmethod \<Rightarrow> complete_state \<Rightarrow>
     ((method_relation \<times> pmethod option) + complete_state) option" where
  "abstract_method classes c require_concrete m st =
     (if require_concrete \<and> me_flags m AND PC_ABSTRACT \<noteq> 0 then do {
        relation \<leftarrow> method_implements classes c m True;
        Some (record_relation m relation st)
      } else Some (Inr st))"

partial_function (option) complete_loop ::
  "pclass_heap \<Rightarrow> addr option \<Rightarrow> bool \<Rightarrow> addr option \<Rightarrow> complete_state \<Rightarrow>
     (method_relation \<times> pmethod option) option" where
  "complete_loop classes c require_concrete cursor st =
     (case cursor of
        None \<Rightarrow> Some (final_relation st)
      | Some a \<Rightarrow>
          (case classes a of
             None \<Rightarrow> None
           | Some k \<Rightarrow> do {
               r \<leftarrow> each_m (abstract_method classes c require_concrete) (cl_methods k) st;
               (case r of
                  Inl result \<Rightarrow> Some result
                | Inr st \<Rightarrow> do {
                    r \<leftarrow> each_m (\<lambda>i st. (case st of (missing, pending) \<Rightarrow> do {
                           inner \<leftarrow> interfaces_complete classes c require_concrete i missing;
                           (case inner of (relation, missing) \<Rightarrow>
                              Some (if relation = METHOD_INCOMPATIBLE then Inl (relation, missing)
                                    else Inr (missing, pending \<or> relation = METHOD_PENDING)))
                         })) (cl_interfaces k) st;
                    (case r of
                       Inl result \<Rightarrow> Some result
                     | Inr st \<Rightarrow> complete_loop classes c require_concrete (cl_parent k) st)
                  })
             }))"

definition pclass_is_complete ::
  "pclass_heap \<Rightarrow> addr option \<Rightarrow> (method_relation \<times> pmethod option) option" where
  "pclass_is_complete classes c =
     (case c of
        None \<Rightarrow> Some (METHOD_INCOMPATIBLE, None)
      | Some a \<Rightarrow> do {
          k \<leftarrow> classes a;
          let require_concrete = (cl_flags k AND (PC_ABSTRACT OR PC_INTERFACE) = 0);
          r \<leftarrow> (if cl_parent k \<noteq> None
                then each_m (override_method classes (cl_parent k)) (cl_methods k) (None, False)
                else Some (Inr (None, False)));
          (case r of
             Inl result \<Rightarrow> Some result
           | Inr st \<Rightarrow> complete_loop classes c require_concrete c st)
        })"

end
