(* ===== verification/PclassGraph.thy ===== *)
theory PclassGraph
  imports Pclass
begin

text \<open>
  Lookups in a class graph without circles: they return, and give what the relation between
  the classes says.  An edge leads from a class to its parent and to its interfaces.
\<close>

section \<open>The class graph\<close>

definition class_edge :: "pclass_heap \<Rightarrow> addr \<Rightarrow> addr \<Rightarrow> bool" where
  "class_edge classes a b \<longleftrightarrow>
     (\<exists>k. classes a = Some k \<and> (cl_parent k = Some b \<or> b \<in> set (cl_interfaces k)))"

definition parent_edge :: "pclass_heap \<Rightarrow> addr \<Rightarrow> addr \<Rightarrow> bool" where
  "parent_edge classes a b \<longleftrightarrow> (\<exists>k. classes a = Some k \<and> cl_parent k = Some b)"

definition interface_edge :: "pclass_heap \<Rightarrow> addr \<Rightarrow> addr \<Rightarrow> bool" where
  "interface_edge classes a b \<longleftrightarrow> (\<exists>k. classes a = Some k \<and> b \<in> set (cl_interfaces k))"

text \<open>No pointer leads to nothing, and a rank falls along the edges: there are no circles.\<close>

definition class_graph :: "pclass_heap \<Rightarrow> (addr \<Rightarrow> nat) \<Rightarrow> bool" where
  "class_graph classes rank \<longleftrightarrow>
     (\<forall>a b. class_edge classes a b \<longrightarrow> classes b \<noteq> None \<and> rank b < rank a)"

lemma class_edgeI:
  "classes a = Some k \<Longrightarrow> cl_parent k = Some b \<Longrightarrow> class_edge classes a b"
  "classes a = Some k \<Longrightarrow> b \<in> set (cl_interfaces k) \<Longrightarrow> class_edge classes a b"
  by (auto simp: class_edge_def)

lemma class_graphD:
  "class_graph classes rank \<Longrightarrow> class_edge classes a b \<Longrightarrow> (\<exists>k. classes b = Some k) \<and> rank b < rank a"
  by (auto simp: class_graph_def)

lemma class_edge_at: "classes a = Some k \<Longrightarrow>
  class_edge classes a b \<longleftrightarrow> cl_parent k = Some b \<or> b \<in> set (cl_interfaces k)"
  by (simp add: class_edge_def)

lemma parent_edge_at: "classes a = Some k \<Longrightarrow> parent_edge classes a b \<longleftrightarrow> cl_parent k = Some b"
  by (simp add: parent_edge_def)

text \<open>Induction along the edges.\<close>

lemma class_induct [consumes 2, case_names node]:
  assumes "class_graph classes rank" and "classes a = Some k"
    and step: "\<And>a k. classes a = Some k \<Longrightarrow>
      (\<And>b k'. class_edge classes a b \<Longrightarrow> classes b = Some k' \<Longrightarrow> P b) \<Longrightarrow> P a"
  shows "P a"
  using assms(2)
proof (induction "rank a" arbitrary: a k rule: less_induct)
  case less
  show ?case
  proof (rule step [OF less.prems])
    fix b k' assume "class_edge classes a b" "classes b = Some k'"
    then show "P b" using less.hyps class_graphD [OF assms(1)] by blast
  qed
qed

section \<open>Early return\<close>

text \<open>A search for an element with a property, and a search that every element passes.\<close>

lemma each_m_search:
  assumes "\<And>x. x \<in> set xs \<Longrightarrow> f x = Some (p x)"
  shows "each_m (\<lambda>x u. Option.bind (f x) (\<lambda>r. Some (if r then Inl True else Inr u))) xs u =
    Some (if \<exists>x \<in> set xs. p x then Inl True else Inr u)"
  using assms by (induction xs) auto

section \<open>\<open>pclass_is_a\<close>\<close>

lemma is_a_steps:
  assumes "class_graph classes rank" and "classes a = Some k"
  shows "pclass_is_a classes (Some e) (Some a) = Some ((class_edge classes)\<^sup>*\<^sup>* a e)"
  using assms
proof (induction a rule: class_induct)
  case (node a k)
  show ?case
  proof (cases "a = e")
    case True
    then show ?thesis by (subst pclass_is_a.simps) simp
  next
    case False
    have rest: "pclass_is_a classes (Some e) (Some b) = Some ((class_edge classes)\<^sup>*\<^sup>* b e)"
      if "class_edge classes a b" for b
      using node.IH [OF that] class_graphD [OF assms(1) that] by blast
    let ?r = "\<lambda>b. (class_edge classes)\<^sup>*\<^sup>* b e"
    have interfaces: "each_m (\<lambda>i u. Option.bind (pclass_is_a classes (Some e) (Some i))
         (\<lambda>found. Some (if found then Inl True else Inr u))) (cl_interfaces k) u =
       Some (if \<exists>i \<in> set (cl_interfaces k). ?r i then Inl True else Inr u)" for u :: unit
      by (rule each_m_search) (rule rest [OF class_edgeI(2) [where classes = classes, OF node.hyps]])
    have parent: "pclass_is_a classes (Some e) (cl_parent k) =
        Some (case cl_parent k of None \<Rightarrow> False | Some b \<Rightarrow> ?r b)"
    proof (cases "cl_parent k")
      case None
      then show ?thesis by (subst pclass_is_a.simps) simp
    next
      case (Some b)
      then show ?thesis using rest [OF class_edgeI(1) [where classes = classes, OF node.hyps]] by simp
    qed
    have "?r a \<longleftrightarrow> (\<exists>b. class_edge classes a b \<and> ?r b)"
      using False by (metis converse_rtranclpE converse_rtranclp_into_rtranclp)
    also have "\<dots> \<longleftrightarrow> (\<exists>i \<in> set (cl_interfaces k). ?r i) \<or> (case cl_parent k of None \<Rightarrow> False | Some b \<Rightarrow> ?r b)"
      unfolding class_edge_at [where classes = classes, OF node.hyps] by (auto split: option.splits)
    finally show ?thesis using False node.hyps
      by (subst pclass_is_a.simps) (simp add: interfaces parent)
  qed
qed

section \<open>Method lookup\<close>

text \<open>The ancestors of a class, itself the first, and the method that each has itself.\<close>

definition parent_of :: "pclass_heap \<Rightarrow> addr option \<Rightarrow> addr option" where
  "parent_of classes c = Option.bind c (\<lambda>a. Option.bind (classes a) cl_parent)"

definition ancestor :: "pclass_heap \<Rightarrow> nat \<Rightarrow> addr option \<Rightarrow> addr option" where
  "ancestor classes n c = (parent_of classes ^^ n) c"

definition own_method :: "pclass_heap \<Rightarrow> bytes \<Rightarrow> addr option \<Rightarrow> pmethod option" where
  "own_method classes name c =
     Option.bind c (\<lambda>a. Option.bind (classes a) (\<lambda>k. find_own_method (cl_methods k) name))"

lemma ancestor_simps [simp]:
  "ancestor classes 0 c = c"
  "ancestor classes (Suc n) c = ancestor classes n (parent_of classes c)"
  by (simp_all add: ancestor_def funpow_swap1 del: funpow.simps(2)) (simp add: funpow_swap1)

lemma ancestor_none [simp]: "ancestor classes n None = None"
  by (induction n) (simp_all add: parent_of_def)

text \<open>\<open>r\<close> is the first method on the way up.\<close>

definition first_method :: "pclass_heap \<Rightarrow> bytes \<Rightarrow> addr option \<Rightarrow> pmethod option \<Rightarrow> bool" where
  "first_method classes name c r \<longleftrightarrow>
     (case r of
        None \<Rightarrow> \<forall>n. own_method classes name (ancestor classes n c) = None
      | Some m \<Rightarrow> \<exists>n. own_method classes name (ancestor classes n c) = Some m \<and>
          (\<forall>i < n. own_method classes name (ancestor classes i c) = None))"

lemma first_method_own: "own_method classes name c = Some m \<Longrightarrow> first_method classes name c (Some m)"
  unfolding first_method_def by (simp, rule exI [of _ 0]) simp

lemma first_method_up:
  assumes "own_method classes name c = None" and "first_method classes name (parent_of classes c) r"
  shows "first_method classes name c r"
proof (cases r)
  case None
  have "own_method classes name (ancestor classes n c) = None" for n
    using assms None by (cases n) (simp_all add: first_method_def)
  then show ?thesis using None by (simp add: first_method_def)
next
  case (Some m)
  then obtain n where n: "own_method classes name (ancestor classes (Suc n) c) = Some m"
    "\<And>i. i < n \<Longrightarrow> own_method classes name (ancestor classes (Suc i) c) = None"
    using assms(2) by (auto simp: first_method_def)
  have "own_method classes name (ancestor classes i c) = None" if "i < Suc n" for i
    using that n(2) assms(1) by (cases i) simp_all
  then show ?thesis using Some n(1) unfolding first_method_def by (simp, intro exI [of _ "Suc n"]) simp
qed

lemma find_method_first:
  assumes "class_graph classes rank" and "classes a = Some k"
  shows "\<exists>r. pclass_find_method classes name (Some a) = Some r \<and> first_method classes name (Some a) r"
  using assms
proof (induction a rule: class_induct)
  case (node a k)
  show ?case
  proof (cases "find_own_method (cl_methods k) name")
    case (Some m)
    then have "own_method classes name (Some a) = Some m" using node.hyps by (simp add: own_method_def)
    then show ?thesis using Some node.hyps first_method_own
      by (subst pclass_find_method.simps) auto
  next
    case None
    then have own: "own_method classes name (Some a) = None" using node.hyps by (simp add: own_method_def)
    have up: "parent_of classes (Some a) = cl_parent k" using node.hyps by (simp add: parent_of_def)
    have "\<exists>r. pclass_find_method classes name (cl_parent k) = Some r \<and> first_method classes name (cl_parent k) r"
    proof (cases "cl_parent k")
      case None
      then show ?thesis
        by (subst pclass_find_method.simps) (simp add: first_method_def own_method_def)
    next
      case (Some b)
      then have "class_edge classes a b" using class_edgeI(1) [where classes = classes, OF node.hyps] by blast
      then show ?thesis using node.IH class_graphD [OF assms(1)] Some by metis
    qed
    then show ?thesis using first_method_up [OF own, unfolded up] None node.hyps
      by (subst pclass_find_method.simps) auto
  qed
qed

lemma find_method_returns:
  assumes "class_graph classes rank" and "\<And>a. c = Some a \<Longrightarrow> classes a \<noteq> None"
  shows "\<exists>r. pclass_find_method classes name c = Some r"
proof (cases c)
  case None
  then show ?thesis by (subst pclass_find_method.simps) simp
next
  case (Some a)
  then show ?thesis using find_method_first [OF assms(1)] assms(2) by blast
qed

section \<open>Completeness\<close>

text \<open>
  \<open>unmet\<close> are the requirements that fail.  A loop over what they come from ends with one of
  them, or leaves its state when there is none.
\<close>

definition settles ::
  "(pmethod \<Rightarrow> bool) \<Rightarrow> pmethod option \<Rightarrow> (method_relation \<times> pmethod option) + complete_state \<Rightarrow> bool" where
  "settles unmet missing r \<longleftrightarrow>
     (if \<exists>q. unmet q then \<exists>q. unmet q \<and> r = Inl (METHOD_INCOMPATIBLE, Some q)
      else r = Inr (missing, False))"

definition settled :: "(pmethod \<Rightarrow> bool) \<Rightarrow> pmethod option \<Rightarrow> method_relation \<times> pmethod option \<Rightarrow> bool" where
  "settled unmet missing r \<longleftrightarrow>
     (if \<exists>q. unmet q then \<exists>q. unmet q \<and> r = (METHOD_INCOMPATIBLE, Some q)
      else r = (METHOD_COMPATIBLE, missing))"

lemma each_m_settles:
  assumes "\<And>x missing. x \<in> set xs \<Longrightarrow> \<exists>r. f x (missing, False) = Some r \<and> settles (unmet x) missing r"
  shows "\<exists>r. each_m f xs (missing, False) = Some r \<and> settles (\<lambda>q. \<exists>x \<in> set xs. unmet x q) missing r"
  using assms
proof (induction xs)
  case Nil
  then show ?case by (simp add: settles_def)
next
  case (Cons x xs)
  obtain r where r: "f x (missing, False) = Some r" "settles (unmet x) missing r"
    using Cons.prems [of x missing] by auto
  show ?case
  proof (cases "\<exists>q. unmet x q")
    case True
    then obtain q where "unmet x q" "r = Inl (METHOD_INCOMPATIBLE, Some q)"
      using r(2) by (auto simp: settles_def)
    then show ?thesis using r(1) by (auto simp: settles_def)
  next
    case False
    then have "r = Inr (missing, False)" using r(2) by (simp add: settles_def)
    moreover have "settles (\<lambda>q. \<exists>x \<in> set xs. unmet x q) missing r' \<Longrightarrow>
        settles (\<lambda>q. \<exists>x \<in> set (x # xs). unmet x q) missing r'" for r'
      using False by (simp add: settles_def)
    ultimately show ?thesis using r(1) Cons by auto
  qed
qed

lemma settles_relation:
  assumes "relation \<noteq> METHOD_PENDING"
  shows "settles (\<lambda>q. q = m \<and> relation \<noteq> METHOD_COMPATIBLE) missing (record_relation m relation (missing, False))"
  using assms by (cases relation) (simp_all add: settles_def record_relation_def)

lemma settles_none: "\<not> (\<exists>q. unmet q) \<Longrightarrow> settles unmet missing (Inr (missing, False))"
  by (simp add: settles_def)

lemma settles_inner:
  "settled unmet missing (relation, missing') \<Longrightarrow>
     settles unmet missing (if relation = METHOD_INCOMPATIBLE then Inl (relation, missing')
       else Inr (missing', False \<or> relation = METHOD_PENDING))"
  by (auto simp: settles_def settled_def split: if_splits)

lemma settles_final:
  "settles unmet missing r \<Longrightarrow> settled unmet missing (case r of Inl result \<Rightarrow> result | Inr st \<Rightarrow> final_relation st)"
  by (auto simp: settles_def settled_def final_relation_def split: if_splits)

text \<open>What a requirement asks of the class \<open>c\<close>.\<close>

definition meets :: "pclass_heap \<Rightarrow> addr option \<Rightarrow> bool \<Rightarrow> pmethod \<Rightarrow> bool" where
  "meets classes c require_concrete q \<longleftrightarrow>
     (\<exists>m. pclass_find_method classes (ps_data (me_name q)) c = Some (Some m) \<and>
        (require_concrete \<longrightarrow> me_flags m AND PC_ABSTRACT = 0) \<and>
        method_signature_compatible m q = METHOD_COMPATIBLE)"

definition unmet_interface :: "pclass_heap \<Rightarrow> addr option \<Rightarrow> bool \<Rightarrow> addr \<Rightarrow> pmethod \<Rightarrow> bool" where
  "unmet_interface classes c require_concrete i q \<longleftrightarrow>
     (\<exists>j k. (interface_edge classes)\<^sup>*\<^sup>* i j \<and> classes j = Some k \<and> q \<in> set (cl_methods k) \<and>
        (require_concrete \<or> pclass_find_method classes (ps_data (me_name q)) c \<noteq> Some None) \<and>
        \<not> meets classes c require_concrete q)"

definition unmet_override :: "pclass_heap \<Rightarrow> addr option \<Rightarrow> pmethod \<Rightarrow> pmethod \<Rightarrow> bool" where
  "unmet_override classes parent m q \<longleftrightarrow>
     pclass_find_method classes (ps_data (me_name m)) parent = Some (Some q) \<and>
     me_flags q AND PC_PRIVATE = 0 \<and> \<not> name_equal_ci (me_name q) ''__construct'' \<and>
     method_signature_compatible m q \<noteq> METHOD_COMPATIBLE"

definition unmet_abstract :: "pclass_heap \<Rightarrow> addr option \<Rightarrow> bool \<Rightarrow> pmethod \<Rightarrow> pmethod \<Rightarrow> bool" where
  "unmet_abstract classes c require_concrete m q \<longleftrightarrow>
     q = m \<and> require_concrete \<and> me_flags m AND PC_ABSTRACT \<noteq> 0 \<and> \<not> meets classes c True m"

lemma signature_not_pending: "method_signature_compatible m q \<noteq> METHOD_PENDING"
  by (simp add: method_signature_compatible_def split: option.splits)

lemma method_implements_meets:
  assumes "pclass_find_method classes (ps_data (me_name q)) c \<noteq> None"
  shows "\<exists>relation. method_implements classes c q require_concrete = Some relation \<and>
    relation \<noteq> METHOD_PENDING \<and> (relation = METHOD_COMPATIBLE \<longleftrightarrow> meets classes c require_concrete q)"
  using assms signature_not_pending [of _ q]
  by (auto simp: method_implements_def meets_def split: option.splits)

lemma interface_edge_at: "classes a = Some k \<Longrightarrow> interface_edge classes a b \<longleftrightarrow> b \<in> set (cl_interfaces k)"
  by (simp add: interface_edge_def)

lemma rtranclp_first: "R\<^sup>*\<^sup>* x y \<longleftrightarrow> x = y \<or> (\<exists>z. R x z \<and> R\<^sup>*\<^sup>* z y)"
  by (auto elim: converse_rtranclpE intro: converse_rtranclp_into_rtranclp)

lemma implements_settles:
  assumes graph: "class_graph classes rank" and c: "\<And>a. c = Some a \<Longrightarrow> classes a \<noteq> None"
  shows "\<exists>relation. method_implements classes c q b = Some relation \<and>
     settles (\<lambda>q'. q' = q \<and> \<not> meets classes c b q) missing (record_relation q relation (missing, False))"
proof -
  have "pclass_find_method classes (ps_data (me_name q)) c \<noteq> None"
    using find_method_returns [OF graph c] by auto
  from method_implements_meets [OF this, of b] obtain relation where
    "method_implements classes c q b = Some relation" "relation \<noteq> METHOD_PENDING"
    "relation = METHOD_COMPATIBLE \<longleftrightarrow> meets classes c b q" by blast
  then show ?thesis using settles_relation [of relation q missing] by simp
qed

lemma interface_method_settles:
  assumes graph: "class_graph classes rank" and c: "\<And>a. c = Some a \<Longrightarrow> classes a \<noteq> None"
  shows "\<exists>r. interface_method classes c b q (missing, False) = Some r \<and>
     settles (\<lambda>q'. q' = q \<and> (b \<or> pclass_find_method classes (ps_data (me_name q)) c \<noteq> Some None) \<and>
       \<not> meets classes c b q) missing r"
proof -
  obtain f where f: "pclass_find_method classes (ps_data (me_name q)) c = Some f"
    using find_method_returns [OF graph c] by blast
  obtain relation where rel: "method_implements classes c q b = Some relation"
    "settles (\<lambda>q'. q' = q \<and> \<not> meets classes c b q) missing (record_relation q relation (missing, False))"
    using implements_settles [OF graph c] by blast
  show ?thesis
  proof (cases "b \<or> f \<noteq> None")
    case True
    then show ?thesis using f rel by (auto simp: interface_method_def)
  next
    case False
    then show ?thesis using f by (auto simp: interface_method_def settles_def)
  qed
qed

lemma abstract_method_settles:
  assumes graph: "class_graph classes rank" and c: "\<And>a. c = Some a \<Longrightarrow> classes a \<noteq> None"
  shows "\<exists>r. abstract_method classes c b m (missing, False) = Some r \<and>
     settles (unmet_abstract classes c b m) missing r"
proof (cases "b \<and> me_flags m AND PC_ABSTRACT \<noteq> 0")
  case True
  obtain relation where "method_implements classes c m True = Some relation"
    "settles (\<lambda>q'. q' = m \<and> \<not> meets classes c True m) missing (record_relation m relation (missing, False))"
    using implements_settles [OF graph c] by blast
  moreover have "unmet_abstract classes c b m = (\<lambda>q'. q' = m \<and> \<not> meets classes c True m)"
    using True by (auto simp: unmet_abstract_def)
  ultimately show ?thesis using True by (auto simp: abstract_method_def)
next
  case False
  then show ?thesis by (auto simp: abstract_method_def settles_def unmet_abstract_def)
qed

lemma override_method_settles:
  assumes graph: "class_graph classes rank" and parent: "\<And>a. parent = Some a \<Longrightarrow> classes a \<noteq> None"
  shows "\<exists>r. override_method classes parent m (missing, False) = Some r \<and>
    settles (unmet_override classes parent m) missing r"
proof -
  obtain f where f: "pclass_find_method classes (ps_data (me_name m)) parent = Some f"
    using find_method_returns [OF graph parent] by blast
  show ?thesis
  proof (cases "\<exists>q. f = Some q \<and> me_flags q AND PC_PRIVATE = 0 \<and> \<not> name_equal_ci (me_name q) ''__construct''")
    case True
    then obtain q where q: "f = Some q" "me_flags q AND PC_PRIVATE = 0" "\<not> name_equal_ci (me_name q) ''__construct''"
      by blast
    have "unmet_override classes parent m = (\<lambda>q'. q' = q \<and> method_signature_compatible m q \<noteq> METHOD_COMPATIBLE)"
      using f q by (auto simp: unmet_override_def)
    then show ?thesis
      using f q settles_relation [OF signature_not_pending, of q m q missing] by (simp add: override_method_def)
  next
    case False
    then have "\<not> (\<exists>q. unmet_override classes parent m q)" using f by (auto simp: unmet_override_def)
    then show ?thesis using f False by (auto simp: override_method_def settles_def split: option.splits)
  qed
qed

lemma interfaces_complete_settled:
  assumes graph: "class_graph classes rank" and c: "\<And>a. c = Some a \<Longrightarrow> classes a \<noteq> None"
    and "classes i = Some k"
  shows "\<exists>r. interfaces_complete classes c b i missing = Some r \<and>
    settled (unmet_interface classes c b i) missing r"
  using graph assms(3)
proof (induction i arbitrary: missing rule: class_induct)
  case (node i k)
  let ?own = "\<lambda>q. q \<in> set (cl_methods k) \<and>
    (b \<or> pclass_find_method classes (ps_data (me_name q)) c \<noteq> Some None) \<and> \<not> meets classes c b q"
  have split: "unmet_interface classes c b i q \<longleftrightarrow>
      ?own q \<or> (\<exists>j \<in> set (cl_interfaces k). unmet_interface classes c b j q)" for q
  proof -
    have "(interface_edge classes)\<^sup>*\<^sup>* i j \<longleftrightarrow> j = i \<or> (\<exists>l \<in> set (cl_interfaces k). (interface_edge classes)\<^sup>*\<^sup>* l j)" for j
      using interface_edge_at [where classes = classes, OF node.hyps] rtranclp_first [of "interface_edge classes" i j] by auto
    then show ?thesis using node.hyps unfolding unmet_interface_def by auto
  qed
  have own: "\<exists>r. each_m (interface_method classes c b) (cl_methods k) (missing, False) = Some r \<and>
      settles (\<lambda>q. \<exists>x \<in> set (cl_methods k). q = x \<and>
        (b \<or> pclass_find_method classes (ps_data (me_name x)) c \<noteq> Some None) \<and> \<not> meets classes c b x) missing r"
    by (rule each_m_settles) (rule interface_method_settles [OF graph c])
  moreover have "(\<lambda>q. \<exists>x \<in> set (cl_methods k). q = x \<and>
        (b \<or> pclass_find_method classes (ps_data (me_name x)) c \<noteq> Some None) \<and> \<not> meets classes c b x) = ?own"
    by auto
  ultimately obtain r where r: "each_m (interface_method classes c b) (cl_methods k) (missing, False) = Some r"
    "settles ?own missing r" by auto
  show ?case
  proof (cases "\<exists>q. ?own q")
    case True
    then obtain q where "?own q" "r = Inl (METHOD_INCOMPATIBLE, Some q)" using r(2) unfolding settles_def by auto
    then show ?thesis using node.hyps r(1) split
      by (subst interfaces_complete.simps) (auto simp: settled_def)
  next
    case False
    then have r': "r = Inr (missing, False)" using r(2) by (simp add: settles_def)
    let ?inner = "\<lambda>j st. (case st of (missing, pending) \<Rightarrow>
        Option.bind (interfaces_complete classes c b j missing) (\<lambda>inner. (case inner of (relation, missing) \<Rightarrow>
          Some (if relation = METHOD_INCOMPATIBLE then Inl (relation, missing)
                else Inr (missing, pending \<or> relation = METHOD_PENDING)))))"
    have "\<exists>r. ?inner j (m, False) = Some r \<and> settles (unmet_interface classes c b j) m r"
      if "j \<in> set (cl_interfaces k)" for j m
    proof -
      have e: "class_edge classes i j" using class_edgeI(2) [where classes = classes, OF node.hyps that] .
      then obtain relation m' where "interfaces_complete classes c b j m = Some (relation, m')"
        "settled (unmet_interface classes c b j) m (relation, m')"
        using node.IH [OF e] class_graphD [OF graph e] by (metis surj_pair)
      then show ?thesis using settles_inner by simp
    qed
    from each_m_settles [where f = ?inner and unmet = "unmet_interface classes c b", OF this]
    obtain r'' where r'': "each_m ?inner (cl_interfaces k) (missing, False) = Some r''"
      "settles (\<lambda>q. \<exists>j \<in> set (cl_interfaces k). unmet_interface classes c b j q) missing r''" by blast
    have "unmet_interface classes c b i = (\<lambda>q. \<exists>j \<in> set (cl_interfaces k). unmet_interface classes c b j q)"
    proof (rule ext)
      show "unmet_interface classes c b i q = (\<exists>j \<in> set (cl_interfaces k). unmet_interface classes c b j q)" for q
        using False split [of q] by blast
    qed
    then show ?thesis using node.hyps r(1) r' r''(1) settles_final [OF r''(2)]
      by (subst interfaces_complete.simps) simp
  qed
qed

text \<open>What a class on the way up contributes, and the whole of it.\<close>

definition unmet_at :: "pclass_heap \<Rightarrow> addr option \<Rightarrow> bool \<Rightarrow> addr \<Rightarrow> pmethod \<Rightarrow> bool" where
  "unmet_at classes c require_concrete d q \<longleftrightarrow>
     (\<exists>k. classes d = Some k \<and>
        ((\<exists>m \<in> set (cl_methods k). unmet_abstract classes c require_concrete m q) \<or>
         (\<exists>i \<in> set (cl_interfaces k). unmet_interface classes c require_concrete i q)))"

definition unmet_above :: "pclass_heap \<Rightarrow> addr option \<Rightarrow> bool \<Rightarrow> addr option \<Rightarrow> pmethod \<Rightarrow> bool" where
  "unmet_above classes c require_concrete cursor q \<longleftrightarrow>
     (\<exists>n d. ancestor classes n cursor = Some d \<and> unmet_at classes c require_concrete d q)"

definition unmet_requirement :: "pclass_heap \<Rightarrow> addr \<Rightarrow> pmethod \<Rightarrow> bool" where
  "unmet_requirement classes a q \<longleftrightarrow>
     (\<exists>k. classes a = Some k \<and>
        ((cl_parent k \<noteq> None \<and> (\<exists>m \<in> set (cl_methods k). unmet_override classes (cl_parent k) m q)) \<or>
         unmet_above classes (Some a) (cl_flags k AND (PC_ABSTRACT OR PC_INTERFACE) = 0) (Some a) q))"

lemma unmet_above_cases:
  assumes "classes a = Some k"
  shows "unmet_above classes c b (Some a) q \<longleftrightarrow> unmet_at classes c b a q \<or> unmet_above classes c b (cl_parent k) q"
proof -
  have up: "parent_of classes (Some a) = cl_parent k" using assms by (simp add: parent_of_def)
  have "(\<exists>n. P (ancestor classes n (Some a))) \<longleftrightarrow> P (Some a) \<or> (\<exists>n. P (ancestor classes n (cl_parent k)))" for P
  proof
    assume "\<exists>n. P (ancestor classes n (Some a))"
    then obtain n where "P (ancestor classes n (Some a))" ..
    then show "P (Some a) \<or> (\<exists>n. P (ancestor classes n (cl_parent k)))" using up by (cases n) auto
  next
    assume "P (Some a) \<or> (\<exists>n. P (ancestor classes n (cl_parent k)))"
    then show "\<exists>n. P (ancestor classes n (Some a))" using up by (metis ancestor_simps)
  qed
  from this [of "\<lambda>d. \<exists>e. d = Some e \<and> unmet_at classes c b e q"] show ?thesis
    unfolding unmet_above_def by simp
qed

lemma settles_step:
  assumes "settles unmet1 missing r"
    and "\<And>st. r = Inr st \<Longrightarrow> st = (missing, False) \<Longrightarrow> \<exists>r'. next_step st = Some r' \<and> settled unmet2 missing r'"
    and "\<And>q. unmet q \<longleftrightarrow> unmet1 q \<or> unmet2 q"
  shows "\<exists>r'. (case r of Inl result \<Rightarrow> Some result | Inr st \<Rightarrow> next_step st) = Some r' \<and> settled unmet missing r'"
proof (cases "\<exists>q. unmet1 q")
  case True
  then obtain q where "unmet1 q" "r = Inl (METHOD_INCOMPATIBLE, Some q)" using assms(1) by (auto simp: settles_def)
  then show ?thesis using assms(3) by (auto simp: settled_def)
next
  case False
  then have r: "r = Inr (missing, False)" using assms(1) by (simp add: settles_def)
  have "unmet = unmet2" using assms(3) False by auto
  then show ?thesis using assms(2) r by simp
qed

lemma interface_list_settles:
  assumes graph: "class_graph classes rank" and c: "\<And>a. c = Some a \<Longrightarrow> classes a \<noteq> None"
    and k: "\<And>j. j \<in> set is \<Longrightarrow> classes j \<noteq> None"
  shows "\<exists>r. each_m (\<lambda>i st. (case st of (missing, pending) \<Rightarrow>
        Option.bind (interfaces_complete classes c b i missing) (\<lambda>inner. (case inner of (relation, missing) \<Rightarrow>
          Some (if relation = METHOD_INCOMPATIBLE then Inl (relation, missing)
                else Inr (missing, pending \<or> relation = METHOD_PENDING)))))) is (missing, False) = Some r \<and>
    settles (\<lambda>q. \<exists>i \<in> set is. unmet_interface classes c b i q) missing r"
proof (rule each_m_settles)
  fix i m assume "i \<in> set is"
  then obtain relation m' where "interfaces_complete classes c b i m = Some (relation, m')"
    "settled (unmet_interface classes c b i) m (relation, m')"
    using interfaces_complete_settled [OF graph c] k by (metis not_None_eq surj_pair)
  then show "\<exists>r. (case (m, False) of (missing, pending) \<Rightarrow>
        Option.bind (interfaces_complete classes c b i missing) (\<lambda>inner. (case inner of (relation, missing) \<Rightarrow>
          Some (if relation = METHOD_INCOMPATIBLE then Inl (relation, missing)
                else Inr (missing, pending \<or> relation = METHOD_PENDING))))) = Some r \<and>
      settles (unmet_interface classes c b i) m r"
    using settles_inner by simp
qed

lemma complete_loop_settled:
  assumes graph: "class_graph classes rank" and c: "\<And>a. c = Some a \<Longrightarrow> classes a \<noteq> None"
    and k: "classes a = Some k"
  shows "\<exists>r. complete_loop classes c b (Some a) (None, False) = Some r \<and>
    settled (unmet_above classes c b (Some a)) None r"
  using graph k
proof (induction a rule: class_induct)
  case (node a k)
  have edges: "j \<in> set (cl_interfaces k) \<Longrightarrow> classes j \<noteq> None"
    "cl_parent k = Some j \<Longrightarrow> classes j \<noteq> None" for j
    using class_graphD [OF graph] class_edgeI [where classes = classes, OF node.hyps] by blast+
  have up: "\<exists>r. complete_loop classes c b (cl_parent k) (None, False) = Some r \<and>
      settled (unmet_above classes c b (cl_parent k)) None r"
  proof (cases "cl_parent k")
    case None
    then show ?thesis
      by (subst complete_loop.simps) (simp add: unmet_above_def settled_def final_relation_def)
  next
    case (Some p)
    obtain k' where "classes p = Some k'" using edges(2) [OF Some] by auto
    then show ?thesis unfolding Some
      by (rule node.IH [OF class_edgeI(1) [where classes = classes, OF node.hyps Some]])
  qed
  obtain r1 where r1: "each_m (abstract_method classes c b) (cl_methods k) (None, False) = Some r1"
    "settles (\<lambda>q. \<exists>m \<in> set (cl_methods k). unmet_abstract classes c b m q) None r1"
    using each_m_settles [where f = "abstract_method classes c b" and unmet = "unmet_abstract classes c b"
        and xs = "cl_methods k" and missing = None] abstract_method_settles [OF graph c] by blast
  obtain r2 where r2: "each_m (\<lambda>i st. (case st of (missing, pending) \<Rightarrow>
        Option.bind (interfaces_complete classes c b i missing) (\<lambda>inner. (case inner of (relation, missing) \<Rightarrow>
          Some (if relation = METHOD_INCOMPATIBLE then Inl (relation, missing)
                else Inr (missing, pending \<or> relation = METHOD_PENDING)))))) (cl_interfaces k) (None, False) = Some r2"
    "settles (\<lambda>q. \<exists>i \<in> set (cl_interfaces k). unmet_interface classes c b i q) None r2"
    using interface_list_settles [OF graph c edges(1), where b = b and missing = None] by blast
  have second: "\<exists>r. (case r2 of Inl result \<Rightarrow> Some result | Inr st \<Rightarrow> complete_loop classes c b (cl_parent k) st) = Some r \<and>
      settled (\<lambda>q. (\<exists>i \<in> set (cl_interfaces k). unmet_interface classes c b i q) \<or>
        unmet_above classes c b (cl_parent k) q) None r"
    by (rule settles_step [OF r2(2)]) (use up in auto)
  have "\<exists>r. (case r1 of Inl result \<Rightarrow> Some result | Inr st \<Rightarrow>
      Option.bind (each_m (\<lambda>i st. (case st of (missing, pending) \<Rightarrow>
        Option.bind (interfaces_complete classes c b i missing) (\<lambda>inner. (case inner of (relation, missing) \<Rightarrow>
          Some (if relation = METHOD_INCOMPATIBLE then Inl (relation, missing)
                else Inr (missing, pending \<or> relation = METHOD_PENDING)))))) (cl_interfaces k) st)
       (\<lambda>r2. case r2 of Inl result \<Rightarrow> Some result | Inr st \<Rightarrow> complete_loop classes c b (cl_parent k) st)) = Some r \<and>
     settled (unmet_above classes c b (Some a)) None r"
  proof (rule settles_step [OF r1(2)])
    show "unmet_above classes c b (Some a) q \<longleftrightarrow> (\<exists>m \<in> set (cl_methods k). unmet_abstract classes c b m q) \<or>
        ((\<exists>i \<in> set (cl_interfaces k). unmet_interface classes c b i q) \<or> unmet_above classes c b (cl_parent k) q)" for q
      using node.hyps by (simp add: unmet_above_cases [where classes = classes, OF node.hyps] unmet_at_def)
  qed (use second r2(1) in simp)
  then show ?case using node.hyps r1(1) by (subst complete_loop.simps) simp
qed

lemma is_complete_settled:
  assumes graph: "class_graph classes rank" and k: "classes a = Some k"
  shows "\<exists>r. pclass_is_complete classes (Some a) = Some r \<and> settled (unmet_requirement classes a) None r"
proof -
  let ?b = "cl_flags k AND (PC_ABSTRACT OR PC_INTERFACE) = 0"
  have c: "\<And>b. Some a = Some b \<Longrightarrow> classes b \<noteq> None" using k by auto
  have parent: "\<And>p. cl_parent k = Some p \<Longrightarrow> classes p \<noteq> None"
    using class_graphD [OF graph] class_edgeI(1) [where classes = classes, OF k] by blast
  let ?u = "\<lambda>q. cl_parent k \<noteq> None \<and> (\<exists>m \<in> set (cl_methods k). unmet_override classes (cl_parent k) m q)"
  have "\<exists>r. (if cl_parent k \<noteq> None then each_m (override_method classes (cl_parent k)) (cl_methods k) (None, False)
      else Some (Inr (None, False))) = Some r \<and> settles ?u None r"
  proof (cases "cl_parent k = None")
    case True
    then show ?thesis by (simp add: settles_def)
  next
    case False
    then show ?thesis
      using each_m_settles [where f = "override_method classes (cl_parent k)"
          and unmet = "unmet_override classes (cl_parent k)" and xs = "cl_methods k" and missing = None]
        override_method_settles [OF graph parent] by simp
  qed
  then obtain r where r: "(if cl_parent k \<noteq> None then each_m (override_method classes (cl_parent k)) (cl_methods k) (None, False)
      else Some (Inr (None, False))) = Some r" "settles ?u None r" by blast
  have loop: "\<exists>r. complete_loop classes (Some a) ?b (Some a) (None, False) = Some r \<and>
      settled (unmet_above classes (Some a) ?b (Some a)) None r"
    by (rule complete_loop_settled [OF graph c k])
  have "\<exists>r'. (case r of Inl result \<Rightarrow> Some result | Inr st \<Rightarrow> complete_loop classes (Some a) ?b (Some a) st) = Some r' \<and>
      settled (unmet_requirement classes a) None r'"
    by (rule settles_step [OF r(2)])
      (use loop k in \<open>auto simp: unmet_requirement_def\<close>)
  then show ?thesis using k r(1) by (simp add: pclass_is_complete_def Let_def)
qed

end
