(* ===== verification/PclassInv.thy ===== *)
theory PclassInv
  imports PclassGraph
begin

text \<open>
  The invariant of the class table: counts of references are exact, no pointer leads to
  nothing, the layout of an object's slots extends that of the parent, and no method
  overrides a final one.  Releasing a class recursively keeps the counts exact and ends.
\<close>

section \<open>Counts\<close>

definition refs_from :: "pclass \<Rightarrow> addr \<Rightarrow> nat" where
  "refs_from k x = (if cl_parent k = Some x then 1 else 0) + count_list (cl_interfaces k) x"

definition class_refs :: "pclass_heap \<Rightarrow> addr \<Rightarrow> nat" where
  "class_refs classes x = (\<Sum>b \<in> dom classes. refs_from (the (classes b)) x)"

text \<open>The classes that are not being destroyed.\<close>

definition live_classes :: "pclass_heap \<Rightarrow> pclass_heap" where
  "live_classes classes a =
     Option.bind (classes a) (\<lambda>k. if cl_refcnt k = 0 then None else Some k)"

definition counted :: "pclass_heap \<Rightarrow> (addr \<Rightarrow> nat) \<Rightarrow> bool" where
  "counted classes ext \<longleftrightarrow>
     finite (dom classes) \<and>
     (\<forall>x. 0 < ext x + class_refs classes x \<longrightarrow> classes x \<noteq> None) \<and>
     (\<forall>x k. classes x = Some k \<longrightarrow> cl_refcnt k \<noteq> 0 \<and>
        (cl_refcnt k = 65535 \<or> unat (cl_refcnt k) = ext x + class_refs classes x))"

lemma countedD:
  assumes "counted classes ext"
  shows "finite (dom classes)" "0 < ext x + class_refs classes x \<Longrightarrow> \<exists>k. classes x = Some k"
    "classes x = Some k \<Longrightarrow> cl_refcnt k \<noteq> 0"
    "classes x = Some k \<Longrightarrow> cl_refcnt k \<noteq> 65535 \<Longrightarrow> unat (cl_refcnt k) = ext x + class_refs classes x"
  using assms by (auto simp: counted_def)

lemma class_refs_edge:
  assumes "finite (dom classes)" "class_edge classes a b"
  shows "0 < class_refs classes b"
proof -
  obtain k where k: "classes a = Some k" "cl_parent k = Some b \<or> b \<in> set (cl_interfaces k)"
    using assms(2) unfolding class_edge_def by blast
  have "count_list (cl_interfaces k) b \<noteq> 0 \<longleftrightarrow> b \<in> set (cl_interfaces k)" by (simp add: count_list_0_iff)
  then have "0 < refs_from k b" using k(2) unfolding refs_from_def by auto
  have "refs_from (the (classes a)) b \<le> class_refs classes b"
    unfolding class_refs_def by (rule member_le_sum) (use k assms(1) in auto)
  then show ?thesis using k(1) \<open>0 < refs_from k b\<close> by simp
qed

lemma class_refs_upd:
  assumes "finite (dom classes)" "classes a = Some k"
  shows "class_refs (classes(a \<mapsto> k')) x + refs_from k x = class_refs classes x + refs_from k' x"
proof -
  have d: "dom (classes(a \<mapsto> k')) = dom classes" using assms(2) by auto
  have r: "class_refs c x = (\<Sum>b \<in> dom classes - {a}. refs_from (the (c b)) x) + refs_from (the (c a)) x"
    if "dom c = dom classes" for c
    unfolding class_refs_def that using sum.remove [OF assms(1), of a "\<lambda>b. refs_from (the (c b)) x"] assms(2)
    by (simp add: domI)
  have "(\<Sum>b \<in> dom classes - {a}. refs_from (the ((classes(a \<mapsto> k')) b)) x) =
      (\<Sum>b \<in> dom classes - {a}. refs_from (the (classes b)) x)"
    by (rule sum.cong) auto
  then show ?thesis using r [OF d] r [OF refl] assms(2) by simp
qed

lemma class_refs_new:
  assumes "finite (dom classes)" "classes a = None"
  shows "class_refs (classes(a \<mapsto> k)) x = class_refs classes x + refs_from k x"
proof -
  have "(\<Sum>b \<in> dom classes. refs_from (the ((classes(a \<mapsto> k)) b)) x) = class_refs classes x"
    unfolding class_refs_def by (rule sum.cong) (use assms(2) in auto)
  then show ?thesis using assms by (simp add: class_refs_def domIff)
qed

lemma class_refs_remove:
  assumes "finite (dom classes)" "classes a = Some k"
  shows "class_refs classes x = class_refs (classes(a := None)) x + refs_from k x"
proof -
  have "finite (dom (classes(a := None)))" "(classes(a := None)) a = None" using assms(1) by simp_all
  note new = class_refs_new [OF this, of k x]
  have "(classes(a := None))(a \<mapsto> k) = classes" using assms(2) by auto
  then show ?thesis using new by (simp only:)
qed

lemma class_refs_same:
  assumes "finite (dom classes)" "classes a = Some k" "refs_from k' = refs_from k"
  shows "class_refs (classes(a \<mapsto> k')) = class_refs classes"
  using class_refs_upd [OF assms(1,2), of k'] assms(3) by (intro ext) simp

lemma live_classes_upd:
  "live_classes (classes(a \<mapsto> k)) = (live_classes classes)(a := if cl_refcnt k = 0 then None else Some k)"
  "live_classes (classes(a := None)) = (live_classes classes)(a := None)"
  by (auto simp: live_classes_def)

lemma live_classes_Some: "live_classes classes a = Some k \<longleftrightarrow> classes a = Some k \<and> cl_refcnt k \<noteq> 0"
  by (auto simp: live_classes_def split: bind_splits if_splits)

section \<open>What a release leaves alone\<close>

text \<open>The part of a class that lookups depend on.\<close>

definition property_shape :: "pproperty \<Rightarrow> bytes \<times> u8 \<times> u8 \<times> addr" where
  "property_shape p = (ps_data (pr_name p), pr_slot p, pr_flags p, pr_owner p)"

definition same_shape :: "pclass \<Rightarrow> pclass \<Rightarrow> bool" where
  "same_shape k k' \<longleftrightarrow>
     cl_parent k' = cl_parent k \<and> cl_interfaces k' = cl_interfaces k \<and> cl_methods k' = cl_methods k \<and>
     cl_flags k' = cl_flags k \<and> map property_shape (cl_properties k') = map property_shape (cl_properties k)"

definition fewer_classes :: "pclass_heap \<Rightarrow> pclass_heap \<Rightarrow> bool" where
  "fewer_classes classes classes' \<longleftrightarrow>
     (\<forall>a k'. classes' a = Some k' \<longrightarrow>
        (\<exists>k. classes a = Some k \<and> same_shape k k' \<and> unat (cl_refcnt k') \<le> unat (cl_refcnt k)))"

lemma same_shape_refl [simp]: "same_shape k k"
  by (simp add: same_shape_def)

lemma same_shape_trans: "same_shape k k' \<Longrightarrow> same_shape k' k'' \<Longrightarrow> same_shape k k''"
  by (simp add: same_shape_def)

lemma same_shape_refs: "same_shape k k' \<Longrightarrow> refs_from k' = refs_from k"
  by (intro ext) (simp add: same_shape_def refs_from_def)

lemma fewer_classes_refl [simp]: "fewer_classes classes classes"
  by (simp add: fewer_classes_def)

lemma fewer_classes_trans:
  "fewer_classes a b \<Longrightarrow> fewer_classes b c \<Longrightarrow> fewer_classes a c"
  unfolding fewer_classes_def by (meson le_trans same_shape_trans)

lemma fewer_classes_edge:
  "fewer_classes classes classes' \<Longrightarrow> class_edge classes' a b \<Longrightarrow> class_edge classes a b"
  unfolding fewer_classes_def class_edge_def same_shape_def by metis

lemma release_values_shape:
  assumes "release_values ops k h = (k', ev, h')"
  shows "same_shape k k'" "cl_refcnt k' = cl_refcnt k"
  using assms by (auto simp: release_values_def same_shape_def property_shape_def Let_def comp_def
      split: if_splits prod.splits)

section \<open>Releasing\<close>

text \<open>
  A release of \<open>c\<close>, whose count includes a reference from outside.  The classes being
  destroyed (those with count 0) are not touched.
\<close>

definition released ::
  "pclass_heap \<Rightarrow> (addr \<Rightarrow> nat) \<Rightarrow> (pclass_heap \<times> class_event list \<times> 'h) option \<Rightarrow> bool" where
  "released classes ext' r \<longleftrightarrow>
     (\<exists>classes' ev h. r = Some (classes', ev, h) \<and> counted (live_classes classes') ext' \<and>
        fewer_classes (live_classes classes) (live_classes classes') \<and>
        (\<forall>z k. classes z = Some k \<longrightarrow> cl_refcnt k = 0 \<longrightarrow> classes' z = Some k) \<and>
        (\<forall>z k. classes' z = Some k \<longrightarrow> cl_refcnt k = 0 \<longrightarrow> classes z = Some k))"

definition ranked :: "pclass_heap \<Rightarrow> (addr \<Rightarrow> nat) \<Rightarrow> bool" where
  "ranked classes rank \<longleftrightarrow> (\<forall>a b. class_edge classes a b \<longrightarrow> rank b < rank a)"

lemma ranked_fewer: "ranked classes rank \<Longrightarrow> fewer_classes classes classes' \<Longrightarrow> ranked classes' rank"
  using fewer_classes_edge unfolding ranked_def by blast

lemma released_trans:
  assumes "released classes ext1 r"
    and "\<And>classes1 ev1 h1. counted (live_classes classes1) ext1 \<Longrightarrow>
      fewer_classes (live_classes classes) (live_classes classes1) \<Longrightarrow>
      released classes1 ext2 (g (classes1, ev1, h1))"
  shows "released classes ext2 (Option.bind r g)"
proof -
  obtain c1 e1 h1 where 1: "r = Some (c1, e1, h1)" "counted (live_classes c1) ext1"
    "fewer_classes (live_classes classes) (live_classes c1)"
    "\<forall>z k. classes z = Some k \<longrightarrow> cl_refcnt k = 0 \<longrightarrow> c1 z = Some k"
    "\<forall>z k. c1 z = Some k \<longrightarrow> cl_refcnt k = 0 \<longrightarrow> classes z = Some k"
    using assms(1) unfolding released_def by blast
  obtain c2 e2 h2 where 2: "g (c1, e1, h1) = Some (c2, e2, h2)" "counted (live_classes c2) ext2"
    "fewer_classes (live_classes c1) (live_classes c2)"
    "\<forall>z k. c1 z = Some k \<longrightarrow> cl_refcnt k = 0 \<longrightarrow> c2 z = Some k"
    "\<forall>z k. c2 z = Some k \<longrightarrow> cl_refcnt k = 0 \<longrightarrow> c1 z = Some k"
    using assms(2) [OF 1(2,3), of e1 h1] unfolding released_def by blast
  have "Option.bind r g = Some (c2, e2, h2)" using 1(1) 2(1) by simp
  moreover have "\<forall>z k. classes z = Some k \<longrightarrow> cl_refcnt k = 0 \<longrightarrow> c2 z = Some k"
    using 1(4) 2(4) by blast
  moreover have "\<forall>z k. c2 z = Some k \<longrightarrow> cl_refcnt k = 0 \<longrightarrow> classes z = Some k"
    using 1(5) 2(5) by blast
  ultimately show ?thesis
    unfolding released_def using 2(2) fewer_classes_trans [OF 1(3) 2(3)] by blast
qed

lemma release_list:
  assumes one: "\<And>i cs ext ev h. i \<in> set is \<Longrightarrow> counted (live_classes cs) ext \<Longrightarrow> 0 < ext i \<Longrightarrow>
      ranked (live_classes cs) rank \<Longrightarrow>
      released cs (ext(i := ext i - 1)) (pclass_release ops (Some i) (cs, ev, h))"
  shows "counted (live_classes cs) (\<lambda>x. ext x + count_list is x) \<Longrightarrow> ranked (live_classes cs) rank \<Longrightarrow>
    released cs ext (fold_m (\<lambda>i. pclass_release ops (Some i)) is (cs, ev, h))"
  using one
proof (induction "is" arbitrary: cs ev h)
  case Nil
  then show ?case by (simp add: released_def)
next
  case (Cons i rest)
  let ?e = "\<lambda>x. ext x + count_list (i # rest) x"
  have "?e(i := ?e i - 1) = (\<lambda>x. ext x + count_list rest x)" by auto
  moreover have "released cs (?e(i := ?e i - 1)) (pclass_release ops (Some i) (cs, ev, h))"
    by (rule Cons.prems(3)) (use Cons.prems(1,2) in auto)
  ultimately have first: "released cs (\<lambda>x. ext x + count_list rest x) (pclass_release ops (Some i) (cs, ev, h))"
    by simp
  have "released cs ext (Option.bind (pclass_release ops (Some i) (cs, ev, h))
      (fold_m (\<lambda>i. pclass_release ops (Some i)) rest))"
  proof (rule released_trans [OF first])
    fix cs1 ev1 h1
    assume "counted (live_classes cs1) (\<lambda>x. ext x + count_list rest x)"
      and "fewer_classes (live_classes cs) (live_classes cs1)"
    then show "released cs1 ext (fold_m (\<lambda>i. pclass_release ops (Some i)) rest (cs1, ev1, h1))"
      using Cons.IH ranked_fewer [OF Cons.prems(2)] Cons.prems(3) by simp
  qed
  then show ?case by simp
qed

lemma release_lower:
  assumes counted: "counted (live_classes cs) ext" and ext: "0 < ext a"
    and k: "live_classes cs a = Some k" and low: "cl_refcnt k \<noteq> 65535" "cl_refcnt k - 1 \<noteq> 0"
  shows "released cs (ext(a := ext a - 1)) (Some (cs(a \<mapsto> k\<lparr>cl_refcnt := cl_refcnt k - 1\<rparr>), ev, h))"
proof -
  let ?k = "k\<lparr>cl_refcnt := cl_refcnt k - 1\<rparr>"
  note D = countedD [OF counted]
  have nz: "cl_refcnt k \<noteq> 0" using D(3) k by blast
  have u: "unat (cl_refcnt k - 1) = unat (cl_refcnt k) - 1" using nz by (rule unat_minus_one)
  have r: "unat (cl_refcnt k) = ext a + class_refs (live_classes cs) a" using D(4) k low(1) by blast
  have live: "live_classes (cs(a \<mapsto> ?k)) = (live_classes cs)(a \<mapsto> ?k)" using low(2) by (simp add: live_classes_upd)
  have refs: "class_refs ((live_classes cs)(a \<mapsto> ?k)) = class_refs (live_classes cs)"
    by (rule class_refs_same [OF D(1) k]) (simp add: refs_from_def fun_eq_iff)
  have "counted ((live_classes cs)(a \<mapsto> ?k)) (ext(a := ext a - 1))"
    unfolding counted_def refs
  proof (intro conjI allI impI)
    show "finite (dom ((live_classes cs)(a \<mapsto> ?k)))" using D(1) by simp
    fix x
    show "((live_classes cs)(a \<mapsto> ?k)) x \<noteq> None" if "0 < (ext(a := ext a - 1)) x + class_refs (live_classes cs) x"
      using that D(2) [of x] by (cases "x = a") auto
    fix k' assume k': "((live_classes cs)(a \<mapsto> ?k)) x = Some k'"
    show "cl_refcnt k' \<noteq> 0" using k' low(2) D(3) by (cases "x = a") auto
    show "cl_refcnt k' = 65535 \<or> unat (cl_refcnt k') = (ext(a := ext a - 1)) x + class_refs (live_classes cs) x"
      using k' u r ext D(4) [of x k'] by (cases "x = a") auto
  qed
  moreover have "fewer_classes (live_classes cs) ((live_classes cs)(a \<mapsto> ?k))"
    using k u by (auto simp: fewer_classes_def same_shape_def)
  ultimately show ?thesis
    using live low(2) k nz by (auto simp: released_def live_classes_Some)
qed

lemma release_sticky:
  assumes counted: "counted (live_classes cs) ext" and k: "live_classes cs a = Some k" "cl_refcnt k = 65535"
  shows "released cs (ext(a := ext a - 1)) (Some (cs, ev, h))"
proof -
  note D = countedD [OF counted]
  have "counted (live_classes cs) (ext(a := ext a - 1))"
    unfolding counted_def
  proof (intro conjI allI impI)
    show "finite (dom (live_classes cs))" by (rule D(1))
    fix x
    show "live_classes cs x \<noteq> None" if "0 < (ext(a := ext a - 1)) x + class_refs (live_classes cs) x"
      using that D(2) [of x] k(1) by (cases "x = a") auto
    fix k' assume k': "live_classes cs x = Some k'"
    show "cl_refcnt k' \<noteq> 0" using k' D(3) by blast
    show "cl_refcnt k' = 65535 \<or> unat (cl_refcnt k') = (ext(a := ext a - 1)) x + class_refs (live_classes cs) x"
      using k' k D(4) [of x k'] by (cases "x = a") auto
  qed
  then show ?thesis by (auto simp: released_def)
qed

text \<open>The references of a class that is being destroyed count as references from outside.\<close>

lemma counted_dying:
  assumes counted: "counted L ext" and k: "L a = Some k" and last: "ext a + class_refs L a = 1" "ext a = 1"
  shows "counted (L(a := None)) (\<lambda>x. (ext(a := 0)) x + refs_from k x)"
proof -
  note D = countedD [OF counted]
  have split: "class_refs L x = class_refs (L(a := None)) x + refs_from k x" for x
    by (rule class_refs_remove [OF D(1) k])
  then have self: "refs_from k a = 0" "class_refs (L(a := None)) a = 0" using last split [of a] by simp_all
  have eq: "(ext(a := 0)) x + refs_from k x + class_refs (L(a := None)) x = ext x + class_refs L x" if "x \<noteq> a" for x
    using split [of x] that by simp
  show ?thesis
    unfolding counted_def
  proof (intro conjI allI impI)
    show "finite (dom (L(a := None)))" using D(1) by simp
    fix x
    show "(L(a := None)) x \<noteq> None" if "0 < (ext(a := 0)) x + refs_from k x + class_refs (L(a := None)) x"
    proof (cases "x = a")
      case True
      then show ?thesis using that self by simp
    next
      case False
      then show ?thesis using that D(2) [of x] eq [OF False] by auto
    qed
    fix k' assume k': "(L(a := None)) x = Some k'"
    then have x: "x \<noteq> a" "L x = Some k'" by (auto split: if_splits)
    show "cl_refcnt k' \<noteq> 0" using D(3) x(2) by blast
    show "cl_refcnt k' = 65535 \<or>
        unat (cl_refcnt k') = (ext(a := 0)) x + refs_from k x + class_refs (L(a := None)) x"
      unfolding eq [OF x(1)] using D(4) [OF x(2)] by blast
  qed
qed

lemma released_end:
  assumes "released (cs(a \<mapsto> k)) ext (Some (cs', ev, h))" and "cl_refcnt k = 0"
    and "live_classes cs a = Some k0" and "same_shape k0 k"
  shows "released cs ext (Some (cs'(a := None), ev', h'))"
proof -
  have c: "counted (live_classes cs') ext" "fewer_classes ((live_classes cs)(a := None)) (live_classes cs')"
    "\<forall>z j. (cs(a \<mapsto> k)) z = Some j \<longrightarrow> cl_refcnt j = 0 \<longrightarrow> cs' z = Some j"
    "\<forall>z j. cs' z = Some j \<longrightarrow> cl_refcnt j = 0 \<longrightarrow> (cs(a \<mapsto> k)) z = Some j"
    using assms(1) unfolding released_def live_classes_upd if_P [OF assms(2)] by blast+
  have "live_classes cs' a = None" using c(3) assms(2) by (auto simp: live_classes_def)
  then have live: "live_classes (cs'(a := None)) = live_classes cs'" by (auto simp: live_classes_upd)
  have "fewer_classes (live_classes cs) ((live_classes cs)(a := None))"
    by (auto simp: fewer_classes_def)
  then have "fewer_classes (live_classes cs) (live_classes cs')" using c(2) fewer_classes_trans by blast
  note fewer = this
  have zombie: "(cs'(a := None)) z = Some j" if "cs z = Some j" "cl_refcnt j = 0" for z j
  proof (cases "z = a")
    case True
    then show ?thesis using that assms(3) by (simp add: live_classes_Some)
  next
    case False
    then show ?thesis using that c(3) [rule_format, of z j] by simp
  qed
  have was: "cs z = Some j" if "(cs'(a := None)) z = Some j" "cl_refcnt j = 0" for z j
  proof (cases "z = a")
    case True
    then show ?thesis using that by simp
  next
    case False
    then show ?thesis using that c(4) [rule_format, of z j] by simp
  qed
  show ?thesis
    unfolding released_def
  proof (intro exI conjI allI impI)
    show "Some (cs'(a := None), ev', h') = Some (cs'(a := None), ev', h')" by (rule refl)
    show "counted (live_classes (cs'(a := None))) ext" unfolding live by (rule c(1))
    show "fewer_classes (live_classes cs) (live_classes (cs'(a := None)))" unfolding live by (rule fewer)
  qed (fact zombie was)+
qed

lemma release_counted:
  assumes "counted (live_classes cs) ext" and "0 < ext a" and "ranked (live_classes cs) rank"
  shows "released cs (ext(a := ext a - 1)) (pclass_release ops (Some a) (cs, ev, h))"
  using assms
proof (induction "rank a" arbitrary: a cs ext ev h rule: less_induct)
  case less
  note D = countedD [OF less.prems(1)]
  obtain k where k: "live_classes cs a = Some k" using D(2) [of a] less.prems(2) by auto
  then have cs: "cs a = Some k" "cl_refcnt k \<noteq> 0" by (simp_all add: live_classes_Some)
  consider (sticky) "cl_refcnt k = 65535" | (lower) "cl_refcnt k \<noteq> 65535" "cl_refcnt k - 1 \<noteq> 0"
    | (last) "cl_refcnt k \<noteq> 65535" "cl_refcnt k - 1 = 0" by blast
  then show ?case
  proof cases
    case sticky
    then show ?thesis using release_sticky [OF less.prems(1) k] cs
      by (subst pclass_release.simps) simp
  next
    case lower
    then show ?thesis using release_lower [OF less.prems(1,2) k] cs
      by (subst pclass_release.simps) (simp add: Let_def)
  next
    case last
    let ?k = "k\<lparr>cl_refcnt := cl_refcnt k - 1\<rparr>"
    obtain k2 ev1 h1 where vals: "release_values ops ?k h = (k2, ev1, h1)" by (metis prod_cases3)
    obtain ev2 h2 where members: "free_members ops k2 h1 = (ev2, h2)" by fastforce
    have k2: "same_shape k k2" "cl_refcnt k2 = 0"
      using release_values_shape [OF vals] last(2) by (auto simp: same_shape_def)
    have "unat (cl_refcnt k) = 1" using last(2) by (simp only: eq_iff_diff_eq_0 [symmetric]) simp
    then have one: "ext a + class_refs (live_classes cs) a = 1" "ext a = 1"
      using D(4) [OF k last(1)] less.prems(2) by auto
    have live: "live_classes (cs(a \<mapsto> k2)) = (live_classes cs)(a := None)" using k2(2) by (simp add: live_classes_upd)
    let ?own = "\<lambda>x. (ext(a := 0)) x + (if cl_parent k2 = Some x then 1 else 0)"
    have "counted (live_classes (cs(a \<mapsto> k2))) (\<lambda>x. ?own x + count_list (cl_interfaces k2) x)"
      using counted_dying [OF less.prems(1) k one] k2(1)
      unfolding live by (simp add: refs_from_def same_shape_def add.assoc)
    note dying = this
    have fewer: "fewer_classes (live_classes cs) (live_classes (cs(a \<mapsto> k2)))" unfolding live by (auto simp: fewer_classes_def)
    have low: "rank b < rank a" if "cl_parent k = Some b \<or> b \<in> set (cl_interfaces k)" for b
      using less.prems(3) that k unfolding ranked_def class_edge_def by blast
    have "released (cs(a \<mapsto> k2)) ?own (fold_m (\<lambda>i. pclass_release ops (Some i)) (cl_interfaces k2) (cs(a \<mapsto> k2), ev @ ev1 @ ev2, h2))"
      by (rule release_list [OF _ dying ranked_fewer [OF less.prems(3) fewer]])
        (rule less.hyps [OF low], use k2(1) in \<open>auto simp: same_shape_def\<close>)
    note interfaces = this
    let ?parent = "\<lambda>st. (case st of (classes, ev, h) \<Rightarrow>
        pclass_release ops (cl_parent k2) (classes, ev, h_free ops (cl_interfaces_ptr k2) h))"
    have "released (cs(a \<mapsto> k2)) (ext(a := 0)) (Option.bind
        (fold_m (\<lambda>i. pclass_release ops (Some i)) (cl_interfaces k2) (cs(a \<mapsto> k2), ev @ ev1 @ ev2, h2)) ?parent)"
    proof (rule released_trans [OF interfaces])
      fix cs1 e1 h1
      assume c1: "counted (live_classes cs1) ?own"
        and f1: "fewer_classes (live_classes (cs(a \<mapsto> k2))) (live_classes cs1)"
      show "released cs1 (ext(a := 0)) (?parent (cs1, e1, h1))"
      proof (cases "cl_parent k2")
        case None
        then have "?own = ext(a := 0)" by auto
        then show ?thesis using c1 None by (subst pclass_release.simps) (simp add: released_def)
      next
        case (Some p)
        have "?own(p := ?own p - 1) = ext(a := 0)" using Some by auto
        moreover have "released cs1 (?own(p := ?own p - 1))
            (pclass_release ops (Some p) (cs1, e1, h_free ops (cl_interfaces_ptr k2) h1))"
          by (rule less.hyps [OF low c1 _ ranked_fewer [OF less.prems(3) fewer_classes_trans [OF fewer f1]]])
            (use Some k2(1) in \<open>auto simp: same_shape_def\<close>)
        ultimately show ?thesis using Some by simp
      qed
    qed
    then obtain cs3 e3 h3 where st: "Option.bind
        (fold_m (\<lambda>i. pclass_release ops (Some i)) (cl_interfaces k2) (cs(a \<mapsto> k2), ev @ ev1 @ ev2, h2)) ?parent =
        Some (cs3, e3, h3)" and rel: "released (cs(a \<mapsto> k2)) (ext(a := 0)) (Some (cs3, e3, h3))"
      unfolding released_def by auto
    have run: "pclass_release ops (Some a) (cs, ev, h) =
        Option.bind (Option.bind
          (fold_m (\<lambda>i. pclass_release ops (Some i)) (cl_interfaces k2) (cs(a \<mapsto> k2), ev @ ev1 @ ev2, h2)) ?parent)
          (\<lambda>st. case st of (classes, ev, h) \<Rightarrow> Some (classes(a := None), ev, h_free ops (Some a) h))"
      using cs last vals members by (subst pclass_release.simps) (simp add: Let_def)
    have "ext(a := ext a - 1) = ext(a := 0)" using one by simp
    then show ?thesis unfolding run st
      using released_end [OF rel k2(2) k k2(1)] by simp
  qed
qed

end
