(* ===== verification/PclassSteps.thy ===== *)
theory PclassSteps
  imports PclassInv
begin

text \<open>
  Every operation on classes keeps the invariant of the class table, as long as members are
  only added to classes that no other class refers to (a class is complete before it is
  extended, which is how declarations are executed).
\<close>

section \<open>Members\<close>

definition method_key :: "pmethod \<Rightarrow> nat list" where
  "method_key m = map fold_byte (ps_data (me_name m))"

definition property_id :: "pproperty \<Rightarrow> bytes \<times> u8 \<times> addr" where
  "property_id p = (ps_data (pr_name p), pr_flags p, pr_owner p)"

definition slots_ok :: "pproperty list \<Rightarrow> bool" where
  "slots_ok ps \<longleftrightarrow> length ps \<le> 255 \<and> distinct (map (\<lambda>p. ps_data (pr_name p)) ps) \<and>
     (\<forall>i < length ps. pr_slot (ps ! i) = of_nat i)"

definition layout_ok :: "pproperty list \<Rightarrow> pproperty list \<Rightarrow> bool" where
  "layout_ok inherited own \<longleftrightarrow> (\<exists>more. map property_id own = map property_id inherited @ more)"

definition no_final_above :: "pclass_heap \<Rightarrow> addr \<Rightarrow> nat list \<Rightarrow> bool" where
  "no_final_above classes a key \<longleftrightarrow>
     (\<forall>n d k q. ancestor classes (Suc n) (Some a) = Some d \<longrightarrow> classes d = Some k \<longrightarrow>
        q \<in> set (cl_methods k) \<longrightarrow> method_key q = key \<longrightarrow> me_flags q AND PC_FINAL = 0)"

definition members_ok :: "pclass_heap \<Rightarrow> bool" where
  "members_ok classes \<longleftrightarrow>
     (\<forall>a k. classes a = Some k \<longrightarrow>
        slots_ok (cl_properties k) \<and> distinct (map method_key (cl_methods k)) \<and>
        (\<forall>p kp. cl_parent k = Some p \<longrightarrow> classes p = Some kp \<longrightarrow>
           layout_ok (cl_properties kp) (cl_properties k)) \<and>
        (\<forall>m \<in> set (cl_methods k). no_final_above classes a (method_key m)))"

lemma members_okD:
  assumes "members_ok classes" "classes a = Some k"
  shows "slots_ok (cl_properties k)" "distinct (map method_key (cl_methods k))"
    "cl_parent k = Some p \<Longrightarrow> classes p = Some kp \<Longrightarrow> layout_ok (cl_properties kp) (cl_properties k)"
    "m \<in> set (cl_methods k) \<Longrightarrow> no_final_above classes a (method_key m)"
  using assms unfolding members_ok_def by blast+

lemma name_equal_ci_key: "name_equal_ci s b \<longleftrightarrow> map fold_byte (ps_data s) = map fold_byte b"
  by (auto simp: name_equal_ci_def list_all2_conv_all_nth list_eq_iff_nth_eq)

lemma find_own_None: "find_own_method ms name = None \<longleftrightarrow> (\<forall>m \<in> set ms. method_key m \<noteq> map fold_byte name)"
  by (auto simp: find_own_method_def find_None_iff name_equal_ci_key method_key_def)

lemma find_own_Some:
  "find_own_method ms name = Some m \<Longrightarrow> m \<in> set ms \<and> method_key m = map fold_byte name"
  by (auto simp: find_own_method_def find_Some_iff name_equal_ci_key method_key_def)

lemma find_prop_None: "find_prop ps name = None \<longleftrightarrow> name \<notin> (\<lambda>p. ps_data (pr_name p)) ` set ps"
  by (auto simp: find_prop_def find_None_iff)

lemma property_shape_id: "map property_shape ps = map property_shape qs \<Longrightarrow> map property_id ps = map property_id qs"
  by (auto simp: list_eq_iff_nth_eq property_shape_def property_id_def)

lemma property_shape_slots:
  assumes "map property_shape ps = map property_shape qs"
  shows "slots_ok ps \<longleftrightarrow> slots_ok qs"
proof -
  have "map fst (map property_shape ps) = map fst (map property_shape qs)"
    "map (fst \<circ> snd) (map property_shape ps) = map (fst \<circ> snd) (map property_shape qs)"
    using assms by simp_all
  then have "map (\<lambda>p. ps_data (pr_name p)) ps = map (\<lambda>p. ps_data (pr_name p)) qs" "map pr_slot ps = map pr_slot qs"
    by (simp_all add: comp_def property_shape_def)
  moreover from this(1) have "length ps = length qs" by (rule map_eq_imp_length_eq)
  ultimately show ?thesis unfolding slots_ok_def by (metis nth_map)
qed

section \<open>Fewer classes\<close>

definition shape_below :: "pclass_heap \<Rightarrow> pclass_heap \<Rightarrow> bool" where
  "shape_below classes classes' \<longleftrightarrow>
     (\<forall>a k'. classes' a = Some k' \<longrightarrow> (\<exists>k. classes a = Some k \<and> same_shape k k'))"

lemma fewer_shape_below: "fewer_classes classes classes' \<Longrightarrow> shape_below classes classes'"
  unfolding fewer_classes_def shape_below_def by blast

lemma shape_below_upd: "classes a = Some k \<Longrightarrow> same_shape k k' \<Longrightarrow> shape_below classes (classes(a \<mapsto> k'))"
  by (auto simp: shape_below_def)

lemma shape_below_refl [simp]: "shape_below classes classes"
  by (simp add: shape_below_def)

lemma ancestor_shape_below:
  "shape_below classes classes' \<Longrightarrow> ancestor classes' n c = Some d \<Longrightarrow> ancestor classes n c = Some d"
proof (induction n arbitrary: c)
  case 0
  then show ?case by simp
next
  case (Suc n)
  then have "ancestor classes' n (parent_of classes' c) = Some d" by simp
  then obtain p where p: "parent_of classes' c = Some p" by (cases "parent_of classes' c") simp_all
  then obtain x k' where x: "c = Some x" "classes' x = Some k'" "cl_parent k' = Some p"
    by (auto simp: parent_of_def split: bind_splits)
  then obtain k where "classes x = Some k" "cl_parent k = Some p"
    using Suc.prems(1) unfolding shape_below_def same_shape_def by metis
  then have "parent_of classes c = Some p" using x(1) by (simp add: parent_of_def)
  then show ?case using Suc p by simp
qed

lemma members_ok_below:
  assumes ok: "members_ok classes" and below: "shape_below classes classes'"
  shows "members_ok classes'"
  unfolding members_ok_def
proof (intro allI impI conjI ballI)
  fix a k' assume k': "classes' a = Some k'"
  then obtain k where k: "classes a = Some k" "same_shape k k'" using below unfolding shape_below_def by blast
  have shape: "map property_shape (cl_properties k') = map property_shape (cl_properties k)"
    "cl_methods k' = cl_methods k" "cl_parent k' = cl_parent k" using k(2) by (simp_all add: same_shape_def)
  show "slots_ok (cl_properties k')" using property_shape_slots [OF shape(1)] members_okD(1) [OF ok k(1)] by blast
  show "distinct (map method_key (cl_methods k'))" using members_okD(2) [OF ok k(1)] shape(2) by simp
  show "layout_ok (cl_properties kp') (cl_properties k')" if up: "cl_parent k' = Some p" and kp': "classes' p = Some kp'" for p kp'
  proof -
    obtain kp where kp: "classes p = Some kp" "same_shape kp kp'" using below kp' unfolding shape_below_def by blast
    have old: "layout_ok (cl_properties kp) (cl_properties k)"
      by (rule members_okD(3) [OF ok k(1) _ kp(1)]) (use up shape(3) in simp)
    have eq: "map property_id (cl_properties kp') = map property_id (cl_properties kp)"
      "map property_id (cl_properties k') = map property_id (cl_properties k)"
      by (rule property_shape_id, use kp(2) shape(1) in \<open>simp add: same_shape_def\<close>)+
    show ?thesis using old unfolding layout_ok_def eq .
  qed
  show "no_final_above classes' a (method_key m)" if "m \<in> set (cl_methods k')" for m
    unfolding no_final_above_def
  proof (intro allI impI)
    fix n d kd' q
    assume d: "ancestor classes' (Suc n) (Some a) = Some d" "classes' d = Some kd'" "q \<in> set (cl_methods kd')"
      "method_key q = method_key m"
    obtain kd where "classes d = Some kd" "cl_methods kd' = cl_methods kd"
      using below d(2) unfolding shape_below_def same_shape_def by metis
    then show "me_flags q AND PC_FINAL = 0"
      using members_okD(4) [OF ok k(1), of m] that shape(2) ancestor_shape_below [OF below d(1)] d(3,4)
      unfolding no_final_above_def by metis
  qed
qed

section \<open>Changing a class that nothing refers to\<close>

definition unreferenced :: "pclass_heap \<Rightarrow> addr \<Rightarrow> bool" where
  "unreferenced classes a \<longleftrightarrow> (\<forall>b. \<not> class_edge classes b a)"

lemma parent_of_upd:
  assumes "classes a = Some k" "cl_parent k' = cl_parent k"
  shows "parent_of (classes(a \<mapsto> k')) c = parent_of classes c"
  using assms by (auto simp: parent_of_def split: bind_splits)

lemma ancestor_upd:
  assumes "classes a = Some k" "cl_parent k' = cl_parent k"
  shows "ancestor (classes(a \<mapsto> k')) n c = ancestor classes n c"
proof -
  have "parent_of (classes(a \<mapsto> k')) = parent_of classes" by (rule ext) (rule parent_of_upd [where classes = classes, OF assms])
  then show ?thesis by (simp add: ancestor_def)
qed

lemma ancestor_edge:
  "ancestor classes (Suc n) c = Some d \<Longrightarrow> \<exists>b. class_edge classes b d"
proof (induction n arbitrary: c)
  case 0
  then show ?case by (auto simp: parent_of_def class_edge_def split: bind_splits)
next
  case (Suc n)
  then show ?case by simp
qed

lemma members_ok_upd:
  assumes ok: "members_ok classes" and a: "classes a = Some k" "unreferenced classes a"
    and k': "cl_parent k' = cl_parent k" "slots_ok (cl_properties k')" "distinct (map method_key (cl_methods k'))"
    and layout: "\<And>p kp. cl_parent k = Some p \<Longrightarrow> classes p = Some kp \<Longrightarrow> layout_ok (cl_properties kp) (cl_properties k')"
    and final: "\<And>m. m \<in> set (cl_methods k') \<Longrightarrow> no_final_above classes a (method_key m)"
  shows "members_ok (classes(a \<mapsto> k'))"
proof -
  have not_parent: "cl_parent j \<noteq> Some a" if "classes b = Some j" for b j
    using a(2) that unfolding unreferenced_def class_edge_def by blast
  have final_eq: "no_final_above (classes(a \<mapsto> k')) b key = no_final_above classes b key" for b key
  proof -
    have "ancestor classes (Suc n) (Some b) \<noteq> Some a" for n
      using ancestor_edge a(2) unfolding unreferenced_def by blast
    then show ?thesis
      unfolding no_final_above_def ancestor_upd [where classes = classes, OF a(1) k'(1)] by (metis fun_upd_other)
  qed
  show ?thesis
    unfolding members_ok_def final_eq
  proof (intro allI impI)
    fix b j assume j: "(classes(a \<mapsto> k')) b = Some j"
    show "slots_ok (cl_properties j) \<and> distinct (map method_key (cl_methods j)) \<and>
        (\<forall>p kp. cl_parent j = Some p \<longrightarrow> (classes(a \<mapsto> k')) p = Some kp \<longrightarrow>
           layout_ok (cl_properties kp) (cl_properties j)) \<and>
        (\<forall>m \<in> set (cl_methods j). no_final_above classes b (method_key m))"
    proof (cases "b = a")
      case True
      then have "j = k'" using j by simp
      moreover have "cl_parent k' = Some p \<Longrightarrow> p \<noteq> a" for p using not_parent [OF a(1)] k'(1) by auto
      ultimately show ?thesis using True k' layout final by auto
    next
      case False
      then have jb: "classes b = Some j" using j by simp
      have "cl_parent j = Some p \<Longrightarrow> p \<noteq> a" for p using not_parent [OF jb] by auto
      then show ?thesis using members_okD [OF ok jb] by auto
    qed
  qed
qed

section \<open>Frames\<close>

text \<open>What adding members leaves alone.\<close>

definition same_frame :: "pclass \<Rightarrow> pclass \<Rightarrow> bool" where
  "same_frame k k' \<longleftrightarrow>
     cl_parent k' = cl_parent k \<and> cl_interfaces k' = cl_interfaces k \<and> cl_refcnt k' = cl_refcnt k \<and>
     cl_flags k' = cl_flags k"

lemma same_frame_refl [simp]: "same_frame k k"
  by (simp add: same_frame_def)

lemma same_frame_trans: "same_frame k k' \<Longrightarrow> same_frame k' k'' \<Longrightarrow> same_frame k k''"
  by (simp add: same_frame_def)

lemma class_edge_refs: "class_edge classes a b \<longleftrightarrow> (\<exists>k. classes a = Some k \<and> 0 < refs_from k b)"
proof -
  have "0 < refs_from k b \<longleftrightarrow> cl_parent k = Some b \<or> b \<in> set (cl_interfaces k)" for k
    unfolding refs_from_def using count_list_0_iff [of "cl_interfaces k" b] by (cases "cl_parent k = Some b") auto
  then show ?thesis unfolding class_edge_def by simp
qed

lemma class_edge_upd:
  assumes "classes a = Some k" "refs_from k' = refs_from k"
  shows "class_edge (classes(a \<mapsto> k')) = class_edge classes"
  using assms by (intro ext) (auto simp: class_edge_refs)

lemma counted_upd:
  assumes "counted classes ext" "classes a = Some k" "refs_from k' = refs_from k" "cl_refcnt k' = cl_refcnt k"
  shows "counted (classes(a \<mapsto> k')) ext"
proof -
  note D = countedD [OF assms(1)]
  show ?thesis
    unfolding counted_def class_refs_same [where classes = classes, OF D(1) assms(2,3)]
  proof (intro conjI allI impI)
    show "finite (dom (classes(a \<mapsto> k')))" using D(1) by simp
    fix x
    show "(classes(a \<mapsto> k')) x \<noteq> None" if "0 < ext x + class_refs classes x" using D(2) [OF that] by auto
    fix j assume j: "(classes(a \<mapsto> k')) x = Some j"
    obtain j' where "classes x = Some j'" "cl_refcnt j = cl_refcnt j'"
      using j assms(2,4) by (cases "x = a") auto
    then show "cl_refcnt j \<noteq> 0" "cl_refcnt j = 65535 \<or> unat (cl_refcnt j) = ext x + class_refs classes x"
      using D(3,4) by auto
  qed
qed

definition class_inv :: "pclass_heap \<Rightarrow> (addr \<Rightarrow> nat) \<Rightarrow> bool" where
  "class_inv classes ext \<longleftrightarrow> counted classes ext \<and> (\<exists>rank. ranked classes rank) \<and> members_ok classes"

lemma class_inv_upd:
  assumes "class_inv classes ext" "classes a = Some k" "same_frame k k'" "members_ok (classes(a \<mapsto> k'))"
  shows "class_inv (classes(a \<mapsto> k')) ext"
proof -
  have refs: "refs_from k' = refs_from k" using assms(3) by (intro ext) (simp add: same_frame_def refs_from_def)
  show ?thesis
    using assms counted_upd [where classes = classes, OF _ assms(2) refs] class_edge_upd [where classes = classes, OF assms(2) refs]
    unfolding class_inv_def ranked_def same_frame_def by metis
qed

lemma class_inv_shape:
  assumes "class_inv classes ext" "classes a = Some k" "same_shape k k'" "cl_refcnt k' = cl_refcnt k"
  shows "class_inv (classes(a \<mapsto> k')) ext"
proof (rule class_inv_upd [OF assms(1,2)])
  show "same_frame k k'" using assms(3,4) by (simp add: same_shape_def same_frame_def)
  show "members_ok (classes(a \<mapsto> k'))"
    using assms(1) members_ok_below [OF _ shape_below_upd [where classes = classes, OF assms(2,3)]]
    by (simp add: class_inv_def)
qed

text \<open>Enlarging an array: its address and capacity change, nothing else.\<close>

lemma add_property_result:
  assumes run: "pclass_add_property ops (Some a) name flags v classes h = Some (ok, classes', ev, h')"
    and a: "classes a = Some k"
  shows "\<exists>k'. classes' = classes(a \<mapsto> k') \<and> same_frame k k' \<and> cl_methods k' = cl_methods k \<and>
    (if ok then length (cl_properties k) < 255 \<and> find_prop (cl_properties k) name = None \<and>
       (\<exists>p. cl_properties k' = cl_properties k @ [p] \<and> ps_data (pr_name p) = name \<and> pr_flags p = flags \<and>
          pr_slot p = of_nat (length (cl_properties k)) \<and> pr_owner p = a)
     else cl_properties k' = cl_properties k)"
proof -
  have same: "classes = classes(a \<mapsto> k)" using a by auto
  show ?thesis
  proof (cases "255 \<le> length (cl_properties k) \<or> find_prop (cl_properties k) name \<noteq> None")
    case True
    then have "\<not> ok" "classes' = classes" using run a by (auto simp: pclass_add_property_def)
    then show ?thesis using same by (intro exI [of _ k]) simp
  next
    case False
    obtain g h1 where g: "(if length (cl_properties k) = cl_property_capacity k
        then grow ops (cl_properties_ptr k) sizeof_pproperty (cl_property_capacity k) h
        else (Some (cl_properties_ptr k, cl_property_capacity k), h)) = (g, h1)" by fastforce
    note step = run [unfolded pclass_add_property_def option.case a bind.bind_lunit if_not_P [OF False] g prod.case]
    show ?thesis
    proof (cases g)
      case None
      then have "\<not> ok" "classes' = classes" using step by auto
      then show ?thesis using same by (intro exI [of _ k]) simp
    next
      case (Some pc)
      obtain ptr capacity where pc: "pc = (ptr, capacity)" by fastforce
      let ?k = "k\<lparr>cl_properties_ptr := ptr, cl_property_capacity := capacity\<rparr>"
      obtain s h2 where s: "ps_new ops name h1 = (s, h2)" by fastforce
      show ?thesis
      proof (cases s)
        case None
        then have "\<not> ok" "classes' = classes(a \<mapsto> ?k)" using step Some pc s by (auto simp: Let_def)
        then show ?thesis by (intro exI [of _ ?k]) (simp add: same_frame_def)
      next
        case (Some s')
        let ?p = "\<lparr>pr_name = s', pr_slot = of_nat (length (cl_properties k)),
          pr_flags = flags, pr_default = v, pr_owner = a\<rparr>"
        have "ps_data s' = name" using ps_new_ok [of ops name h1 s' h2] s Some by simp
        moreover have "ok" "classes' = classes(a \<mapsto> ?k\<lparr>cl_properties := cl_properties k @ [?p]\<rparr>)"
          using step \<open>g = Some pc\<close> pc s Some by (auto simp: Let_def)
        ultimately show ?thesis using False
          by (intro exI [of _ "?k\<lparr>cl_properties := cl_properties k @ [?p]\<rparr>"]) (auto simp: same_frame_def)
      qed
    qed
  qed
qed

lemma slots_ok_append:
  assumes "slots_ok ps" "length ps < 255" "find_prop ps name = None"
    and "ps_data (pr_name p) = name" "pr_slot p = of_nat (length ps)"
  shows "slots_ok (ps @ [p])"
  using assms by (auto simp: slots_ok_def find_prop_None nth_append less_Suc_eq image_iff)

lemma layout_ok_append: "layout_ok qs ps \<Longrightarrow> layout_ok qs (ps @ rest)"
  by (auto simp: layout_ok_def)

lemma add_property_inv:
  assumes inv: "class_inv classes ext" and a: "classes a = Some k" "unreferenced classes a"
    and run: "pclass_add_property ops (Some a) name flags v classes h = Some (ok, classes', ev, h')"
  shows "class_inv classes' ext"
proof -
  obtain k' where k': "classes' = classes(a \<mapsto> k')" "same_frame k k'" "cl_methods k' = cl_methods k"
    and props: "if ok then length (cl_properties k) < 255 \<and> find_prop (cl_properties k) name = None \<and>
       (\<exists>p. cl_properties k' = cl_properties k @ [p] \<and> ps_data (pr_name p) = name \<and> pr_flags p = flags \<and>
          pr_slot p = of_nat (length (cl_properties k)) \<and> pr_owner p = a)
     else cl_properties k' = cl_properties k"
    using add_property_result [OF run a(1)] by blast
  have mem: "members_ok classes" using inv by (simp add: class_inv_def)
  note M = members_okD [OF mem a(1)]
  have slots: "slots_ok (cl_properties k')"
    using props M(1) slots_ok_append [OF M(1)] by (cases ok) auto
  have layout: "layout_ok (cl_properties kp) (cl_properties k')" if "cl_parent k = Some p" "classes p = Some kp" for p kp
    using props M(3) [OF that] layout_ok_append by (cases ok) auto
  have "members_ok (classes(a \<mapsto> k'))"
    by (rule members_ok_upd [OF mem a _ slots _ layout])
      (use M(2,4) k'(2,3) in \<open>auto simp: same_frame_def\<close>)
  then show ?thesis unfolding k'(1) by (rule class_inv_upd [OF inv a(1) k'(2)])
qed

section \<open>Methods\<close>

lemma add_method_result:
  assumes run: "pclass_add_method ops (Some a) name flags proto module classes h = Some (ok, classes', ev, h')"
    and a: "classes a = Some k"
  shows "\<exists>k' inherited. classes' = classes(a \<mapsto> k') \<and> same_frame k k' \<and> cl_properties k' = cl_properties k \<and>
    (if ok then pclass_find_method classes name (cl_parent k) = Some inherited \<and>
       (\<forall>q. inherited = Some q \<longrightarrow> me_flags q AND PC_FINAL = 0) \<and> find_own_method (cl_methods k) name = None \<and>
       (\<exists>m. cl_methods k' = cl_methods k @ [m] \<and> ps_data (me_name m) = name \<and> me_native m = None)
     else cl_methods k' = cl_methods k)"
proof -
  have same: "classes = classes(a \<mapsto> k)" using a by auto
  obtain inherited where inh: "pclass_find_method classes name (cl_parent k) = Some inherited"
    using run a by (auto simp: pclass_add_method_def split: bind_splits)
  let ?refuse = "(case inherited of None \<Rightarrow> False | Some m \<Rightarrow> me_flags m AND PC_FINAL \<noteq> 0) \<or>
             find_own_method (cl_methods k) name \<noteq> None"
  show ?thesis
  proof (cases ?refuse)
    case True
    then have "\<not> ok" "classes' = classes" using run a inh by (auto simp: pclass_add_method_def split: option.splits)
    then show ?thesis using same by (intro exI [of _ k]) simp
  next
    case False
    obtain g h1 where g: "(if length (cl_methods k) = cl_method_capacity k
        then grow ops (cl_methods_ptr k) sizeof_pmethod (cl_method_capacity k) h
        else (Some (cl_methods_ptr k, cl_method_capacity k), h)) = (g, h1)" by fastforce
    note step = run [unfolded pclass_add_method_def option.case a inh bind.bind_lunit if_not_P [OF False] g prod.case]
    show ?thesis
    proof (cases g)
      case None
      then have "\<not> ok" "classes' = classes" using step by auto
      then show ?thesis using same by (intro exI [of _ k]) simp
    next
      case (Some pc)
      obtain ptr capacity where pc: "pc = (ptr, capacity)" by fastforce
      let ?k = "k\<lparr>cl_methods_ptr := ptr, cl_method_capacity := capacity\<rparr>"
      obtain s h2 where s: "ps_new ops name h1 = (s, h2)" by fastforce
      show ?thesis
      proof (cases s)
        case None
        then have "\<not> ok" "classes' = classes(a \<mapsto> ?k)" using step Some pc s by (auto simp: Let_def)
        then show ?thesis by (intro exI [of _ ?k]) (simp add: same_frame_def)
      next
        case (Some s')
        let ?m = "\<lparr>me_name = s', me_flags = flags, me_proto = proto, me_module = module,
                               me_owner = a, me_native = None\<rparr>"
        have "ps_data s' = name" using ps_new_ok [of ops name h1 s' h2] s Some by simp
        moreover have "ok" "classes' = classes(a \<mapsto> ?k\<lparr>cl_methods := cl_methods k @ [?m]\<rparr>)"
          using step \<open>g = Some pc\<close> pc s Some by (auto simp: Let_def)
        ultimately show ?thesis using False inh
          by (intro exI [of _ "?k\<lparr>cl_methods := cl_methods k @ [?m]\<rparr>"] exI [of _ inherited])
            (auto simp: same_frame_def)
      qed
    qed
  qed
qed

text \<open>The nearest inherited method speaks for all: no final one can hide behind it.\<close>

lemma own_method_at: "classes d = Some k \<Longrightarrow> own_method classes name (Some d) = find_own_method (cl_methods k) name"
  by (simp add: own_method_def)

lemma ancestor_add: "ancestor classes (m + n) c = ancestor classes n (ancestor classes m c)"
proof -
  have "(parent_of classes ^^ (n + m)) c = (parent_of classes ^^ n) ((parent_of classes ^^ m) c)"
    by (simp only: funpow_add o_apply)
  then show ?thesis by (simp add: ancestor_def add.commute)
qed

lemma inherited_not_final:
  assumes mem: "members_ok classes" and p: "classes a = Some k"
    and first: "first_method classes name (cl_parent k) r" and nf: "\<And>q. r = Some q \<Longrightarrow> me_flags q AND PC_FINAL = 0"
  shows "no_final_above classes a (map fold_byte name)"
  unfolding no_final_above_def
proof (intro allI impI)
  fix n d kd q
  assume d: "ancestor classes (Suc n) (Some a) = Some d" "classes d = Some kd" "q \<in> set (cl_methods kd)"
    "method_key q = map fold_byte name"
  have up: "parent_of classes (Some a) = cl_parent k" using p by (simp add: parent_of_def)
  then have dn: "ancestor classes n (cl_parent k) = Some d" using d(1) by simp
  have "find_own_method (cl_methods kd) name \<noteq> None" using d(3,4) find_own_None by blast
  then have own: "own_method classes name (ancestor classes n (cl_parent k)) \<noteq> None"
    unfolding dn own_method_at [where classes = classes, OF d(2)] .
  then obtain q0 n0 where q0: "r = Some q0" "own_method classes name (ancestor classes n0 (cl_parent k)) = Some q0"
    "\<And>i. i < n0 \<Longrightarrow> own_method classes name (ancestor classes i (cl_parent k)) = None"
    using first unfolding first_method_def by (cases r) auto
  obtain d0 k0 where d0: "ancestor classes n0 (cl_parent k) = Some d0" "classes d0 = Some k0"
    "find_own_method (cl_methods k0) name = Some q0"
    using q0(2) by (auto simp: own_method_def split: bind_splits)
  have q0k: "q0 \<in> set (cl_methods k0)" "method_key q0 = map fold_byte name" using find_own_Some [OF d0(3)] by simp_all
  have "n0 \<le> n"
  proof (rule ccontr)
    assume "\<not> n0 \<le> n"
    then show False using own q0(3) [of n] by simp
  qed
  then obtain j where j: "n = n0 + j" using le_Suc_ex by blast
  show "me_flags q AND PC_FINAL = 0"
  proof (cases j)
    case 0
    then have "d = d0" "kd = k0" using j dn d0(1,2) d(2) by simp_all
    then have "q = q0" using members_okD(2) [OF mem d0(2)] d(3,4) q0k
      by (metis distinct_map inj_onD)
    then show ?thesis using nf q0(1) by simp
  next
    case (Suc i)
    then have "ancestor classes (Suc i) (Some d0) = Some d" using dn j ancestor_add d0(1) by metis
    then show ?thesis using members_okD(4) [OF mem d0(2) q0k(1)] d(2,3,4) q0k(2)
      unfolding no_final_above_def by metis
  qed
qed

lemma class_inv_graph:
  assumes "class_inv classes ext"
  obtains rank where "class_graph classes rank"
proof -
  obtain rank where "ranked classes rank" using assms by (auto simp: class_inv_def)
  moreover have "classes b \<noteq> None" if "class_edge classes a b" for a b
  proof -
    have c: "counted classes ext" using assms by (simp add: class_inv_def)
    from class_refs_edge [OF countedD(1) [OF c] that] show ?thesis using countedD(2) [OF c, of b] by auto
  qed
  ultimately have "class_graph classes rank" by (simp add: class_graph_def ranked_def)
  then show ?thesis by (rule that)
qed

lemma add_method_inv:
  assumes inv: "class_inv classes ext" and a: "classes a = Some k" "unreferenced classes a"
    and run: "pclass_add_method ops (Some a) name flags proto module classes h = Some (ok, classes', ev, h')"
  shows "class_inv classes' ext"
proof -
  obtain k' inherited where k': "classes' = classes(a \<mapsto> k')" "same_frame k k'" "cl_properties k' = cl_properties k"
    and meths: "if ok then pclass_find_method classes name (cl_parent k) = Some inherited \<and>
       (\<forall>q. inherited = Some q \<longrightarrow> me_flags q AND PC_FINAL = 0) \<and> find_own_method (cl_methods k) name = None \<and>
       (\<exists>m. cl_methods k' = cl_methods k @ [m] \<and> ps_data (me_name m) = name \<and> me_native m = None)
     else cl_methods k' = cl_methods k"
    using add_method_result [OF run a(1)] by blast
  have mem: "members_ok classes" using inv by (simp add: class_inv_def)
  note M = members_okD [OF mem a(1)]
  obtain rank where graph: "class_graph classes rank" using class_inv_graph [OF inv] .
  have new: "distinct (map method_key (cl_methods k')) \<and>
      (\<forall>m \<in> set (cl_methods k'). no_final_above classes a (method_key m))"
  proof (cases ok)
    case False
    then show ?thesis using meths M(2,4) by simp
  next
    case True
    then obtain m where m: "cl_methods k' = cl_methods k @ [m]" "ps_data (me_name m) = name"
      and f: "pclass_find_method classes name (cl_parent k) = Some inherited"
      "\<And>q. inherited = Some q \<Longrightarrow> me_flags q AND PC_FINAL = 0" "find_own_method (cl_methods k) name = None"
      using meths by auto
    have key: "method_key m = map fold_byte name" using m(2) by (simp add: method_key_def)
    have "first_method classes name (cl_parent k) inherited"
    proof (cases "cl_parent k")
      case None
      then have "inherited = None" using f(1) by (subst (asm) pclass_find_method.simps) simp
      then show ?thesis using None by (simp add: first_method_def own_method_def)
    next
      case (Some p)
      obtain kp where "classes p = Some kp"
        using class_graphD [OF graph class_edgeI(1) [where classes = classes, OF a(1) Some]] by blast
      then show ?thesis using find_method_first [OF graph, of p kp name] f(1) Some by auto
    qed
    from inherited_not_final [OF mem a(1) this f(2)] have "no_final_above classes a (map fold_byte name)" .
    then show ?thesis using m(1) key M(2,4) f(3) by (auto simp: find_own_None image_iff)
  qed
  have "members_ok (classes(a \<mapsto> k'))"
    by (rule members_ok_upd [OF mem a]) (use M(1,3) new k'(2,3) in \<open>auto simp: same_frame_def\<close>)
  then show ?thesis unfolding k'(1) by (rule class_inv_upd [OF inv a(1) k'(2)])
qed

lemma add_native_method_inv:
  assumes inv: "class_inv classes ext" and a: "classes a = Some k" "unreferenced classes a"
    and run: "pclass_add_native_method ops (Some a) name flags function classes h = Some (ok, classes', ev, h')"
  shows "class_inv classes' ext"
proof (cases "function = None")
  case True
  then show ?thesis using run inv by (simp add: pclass_add_native_method_def)
next
  case False
  obtain ok1 c1 ev1 h1 where m: "pclass_add_method ops (Some a) name flags None None classes h = Some (ok1, c1, ev1, h1)"
    using run False by (auto simp: pclass_add_native_method_def split: bind_splits)
  note inv1 = add_method_inv [OF inv a m]
  obtain k1 where k1: "c1 = classes(a \<mapsto> k1)" "same_frame k k1" using add_method_result [OF m a(1)] by blast
  show ?thesis
  proof (cases ok1)
    case False
    then show ?thesis using run \<open>function \<noteq> None\<close> m inv1 by (simp add: pclass_add_native_method_def)
  next
    case True
    let ?i = "length (cl_methods k1) - 1"
    let ?k = "k1\<lparr>cl_methods := (cl_methods k1)[?i := (cl_methods k1 ! ?i)\<lparr>me_native := function\<rparr>]\<rparr>"
    have c1a: "c1 a = Some k1" using k1(1) by simp
    have classes': "classes' = c1(a \<mapsto> ?k)"
      using run \<open>function \<noteq> None\<close> m True c1a by (simp add: pclass_add_native_method_def Let_def)
    have key: "method_key (m\<lparr>me_native := f\<rparr>) = method_key m" for m f by (simp add: method_key_def)
    have keys: "map method_key (cl_methods ?k) = map method_key (cl_methods k1)"
      by (rule nth_equalityI) (auto simp: nth_list_update key)
    have refs: "refs_from k1 = refs_from k" using k1(2) by (intro ext) (simp add: same_frame_def refs_from_def)
    have unref: "unreferenced c1 a"
      using a(2) class_edge_upd [where classes = classes, OF a(1) refs] unfolding unreferenced_def k1(1) by simp
    have mem: "members_ok c1" using inv1 by (simp add: class_inv_def)
    note M = members_okD [OF mem c1a]
    have "members_ok (c1(a \<mapsto> ?k))"
    proof (rule members_ok_upd [OF mem c1a unref])
      show "distinct (map method_key (cl_methods ?k))" unfolding keys by (rule M(2))
      show "no_final_above c1 a (method_key m)" if "m \<in> set (cl_methods ?k)" for m
      proof -
        have "method_key m \<in> set (map method_key (cl_methods ?k))" using that by simp
        then obtain m' where "m' \<in> set (cl_methods k1)" "method_key m = method_key m'" unfolding keys by auto
        then show ?thesis using M(4) by simp
      qed
    qed (use M(1,3) in simp_all)
    moreover have "same_frame k1 ?k" by (simp add: same_frame_def)
    ultimately show ?thesis unfolding classes' by (intro class_inv_upd [OF inv1 c1a])
  qed
qed

section \<open>References\<close>

lemma retain_result:
  assumes "pclass_retain (Some a) classes = Some classes'" "classes a = Some k"
  shows "\<exists>k'. classes' = classes(a \<mapsto> k') \<and> same_shape k k' \<and>
    cl_refcnt k' = (if cl_refcnt k = 65535 then 65535 else cl_refcnt k + 1)"
proof (cases "cl_refcnt k = 65535")
  case True
  then have "classes' = classes(a \<mapsto> k)" using assms by (auto simp: pclass_retain_def)
  then show ?thesis using True by (intro exI [of _ k]) simp
next
  case False
  then have "classes' = classes(a \<mapsto> k\<lparr>cl_refcnt := cl_refcnt k + 1\<rparr>)" using assms by (simp add: pclass_retain_def)
  then show ?thesis using False by (intro exI [of _ "k\<lparr>cl_refcnt := cl_refcnt k + 1\<rparr>"]) (simp add: same_shape_def)
qed

lemma unat_Suc_u16: "(r::u16) \<noteq> 65535 \<Longrightarrow> unat (r + 1) = unat r + 1"
proof -
  assume "r \<noteq> 65535"
  then have "unat r \<noteq> 65535" using word_unat_eq_iff [of r 65535] by simp
  moreover have "unat r < 65536" using unsigned_less [of r] by simp
  ultimately show ?thesis by (simp add: unat_word_ariths)
qed

lemma counted_retain:
  assumes counted: "counted classes ext" and a: "classes a = Some k"
    and k': "same_shape k k'" "cl_refcnt k' = (if cl_refcnt k = 65535 then 65535 else cl_refcnt k + 1)"
  shows "counted (classes(a \<mapsto> k')) (ext(a := ext a + 1))"
proof -
  note D = countedD [OF counted]
  have refs: "class_refs (classes(a \<mapsto> k')) = class_refs classes"
    by (rule class_refs_same [OF D(1) a same_shape_refs [OF k'(1)]])
  have cnt: "cl_refcnt k' = 65535 \<or> unat (cl_refcnt k') = unat (cl_refcnt k) + 1" "cl_refcnt k' \<noteq> 0"
    using k'(2) unat_Suc_u16 [of "cl_refcnt k"] by (auto simp: unat_eq_0 [symmetric] simp del: unat_eq_0)
  show ?thesis
    unfolding counted_def refs
  proof (intro conjI allI impI)
    show "finite (dom (classes(a \<mapsto> k')))" using D(1) by simp
    fix x
    show "(classes(a \<mapsto> k')) x \<noteq> None" if "0 < (ext(a := ext a + 1)) x + class_refs classes x"
      using that D(2) [of x] by (cases "x = a") auto
    fix j assume j: "(classes(a \<mapsto> k')) x = Some j"
    show "cl_refcnt j \<noteq> 0" using j cnt(2) D(3) by (cases "x = a") auto
    show "cl_refcnt j = 65535 \<or> unat (cl_refcnt j) = (ext(a := ext a + 1)) x + class_refs classes x"
    proof (cases "x = a")
      case True
      then have "j = k'" using j by simp
      then show ?thesis using True cnt(1) D(4) [OF a] k'(2) by (cases "cl_refcnt k = 65535") auto
    next
      case False
      then have "classes x = Some j" using j by simp
      then show ?thesis using D(4) [of x j] False by auto
    qed
  qed
qed

lemma class_inv_retain:
  assumes inv: "class_inv classes ext" and a: "classes a = Some k"
    and k': "same_shape k k'" "cl_refcnt k' = (if cl_refcnt k = 65535 then 65535 else cl_refcnt k + 1)"
  shows "class_inv (classes(a \<mapsto> k')) (ext(a := ext a + 1))"
proof -
  have edges: "class_edge (classes(a \<mapsto> k')) = class_edge classes"
    by (rule class_edge_upd [where classes = classes, OF a same_shape_refs [OF k'(1)]])
  have "members_ok (classes(a \<mapsto> k'))"
    using inv members_ok_below [OF _ shape_below_upd [where classes = classes, OF a k'(1)]] by (simp add: class_inv_def)
  moreover have "counted (classes(a \<mapsto> k')) (ext(a := ext a + 1))"
    using counted_retain [where classes = classes, OF _ a k'] inv by (simp add: class_inv_def)
  ultimately show ?thesis using inv by (simp add: class_inv_def ranked_def edges)
qed

lemma live_classes_counted: "counted classes ext \<Longrightarrow> live_classes classes = classes"
  using countedD(3) by (intro ext) (auto simp: live_classes_def split: bind_splits)

lemma class_inv_release:
  assumes inv: "class_inv classes ext" and e: "0 < ext a"
  shows "\<exists>classes' ev' h'. pclass_release ops (Some a) (classes, ev, h) = Some (classes', ev', h') \<and>
    class_inv classes' (ext(a := ext a - 1)) \<and> fewer_classes classes classes'"
proof -
  have c: "counted classes ext" using inv by (simp add: class_inv_def)
  note live = live_classes_counted [OF c]
  obtain rank where rank: "ranked classes rank" using inv by (auto simp: class_inv_def)
  have "released classes (ext(a := ext a - 1)) (pclass_release ops (Some a) (classes, ev, h))"
    by (rule release_counted) (use c e rank in \<open>simp_all add: live\<close>)
  then obtain c' ev' h' where r: "pclass_release ops (Some a) (classes, ev, h) = Some (c', ev', h')"
    "counted (live_classes c') (ext(a := ext a - 1))" "fewer_classes classes (live_classes c')"
    "\<forall>z k. c' z = Some k \<longrightarrow> cl_refcnt k = 0 \<longrightarrow> classes z = Some k"
    unfolding released_def live by blast
  have "cl_refcnt k \<noteq> 0" if "c' z = Some k" for z k using r(4) that countedD(3) [OF c] by blast
  then have live': "live_classes c' = c'" by (intro ext) (auto simp: live_classes_def split: bind_splits)
  have "class_inv c' (ext(a := ext a - 1))"
    unfolding class_inv_def
    using r(2,3) ranked_fewer [OF rank] members_ok_below [OF _ fewer_shape_below] inv
    unfolding live' class_inv_def by blast
  then show ?thesis using r(1,3) unfolding live' by blast
qed

text \<open>A reference from outside becomes one of the class \<open>a\<close>.\<close>

lemma counted_moved:
  assumes counted: "counted classes ext" and a: "classes a = Some k"
    and k': "\<And>x. refs_from k' x = refs_from k x + (if x = b then 1 else 0)" "cl_refcnt k' = cl_refcnt k"
    and e: "0 < ext b"
  shows "counted (classes(a \<mapsto> k')) (ext(b := ext b - 1))"
proof -
  note D = countedD [OF counted]
  have refs: "class_refs (classes(a \<mapsto> k')) x = class_refs classes x + (if x = b then 1 else 0)" for x
    using class_refs_upd [where classes = classes, OF D(1) a, of k' x] k'(1) [of x] by simp
  have eq: "(ext(b := ext b - 1)) x + class_refs (classes(a \<mapsto> k')) x = ext x + class_refs classes x" for x
    unfolding refs using e by simp
  show ?thesis
    unfolding counted_def eq
  proof (intro conjI allI impI)
    show "finite (dom (classes(a \<mapsto> k')))" using D(1) by simp
    fix x
    show "(classes(a \<mapsto> k')) x \<noteq> None" if "0 < ext x + class_refs classes x" using D(2) [OF that] by auto
    fix j assume j: "(classes(a \<mapsto> k')) x = Some j"
    obtain j' where "classes x = Some j'" "cl_refcnt j = cl_refcnt j'" using j a k'(2) by (cases "x = a") auto
    then show "cl_refcnt j \<noteq> 0" "cl_refcnt j = 65535 \<or> unat (cl_refcnt j) = ext x + class_refs classes x"
      using D(3,4) by auto
  qed
qed

lemma counted_new:
  assumes counted: "counted classes ext" and a: "classes a = None"
    and k: "\<And>x. refs_from k x = (if parent = Some x then 1 else 0)" "cl_refcnt k = 1"
    and e: "\<And>p. parent = Some p \<Longrightarrow> 0 < ext p"
  shows "counted (classes(a \<mapsto> k)) (\<lambda>x. if x = a then 1 else if parent = Some x then ext x - 1 else ext x)"
proof -
  note D = countedD [OF counted]
  have none: "ext a = 0" "class_refs classes a = 0" using D(2) [of a] a by (auto simp: neq0_conv [symmetric] simp del: neq0_conv)
  have par: "parent \<noteq> Some a" using e none(1) by auto
  have refs: "class_refs (classes(a \<mapsto> k)) x = class_refs classes x + (if parent = Some x then 1 else 0)" for x
    using class_refs_new [OF D(1) a] k(1) by simp
  show ?thesis
    unfolding counted_def refs
  proof (intro conjI allI impI)
    show "finite (dom (classes(a \<mapsto> k)))" using D(1) by simp
    fix x
    have eq: "(if x = a then 1 else if parent = Some x then ext x - 1 else ext x) +
        (class_refs classes x + (if parent = Some x then 1 else 0)) =
        (if x = a then 1 else ext x + class_refs classes x)"
      using none par e [of x] by auto
    show "(classes(a \<mapsto> k)) x \<noteq> None"
      if "0 < (if x = a then 1 else if parent = Some x then ext x - 1 else ext x) +
        (class_refs classes x + (if parent = Some x then 1 else 0))"
      using that D(2) [of x] unfolding eq by (cases "x = a") auto
    fix j assume j: "(classes(a \<mapsto> k)) x = Some j"
    show "cl_refcnt j \<noteq> 0" using j k(2) D(3) by (cases "x = a") auto
    show "cl_refcnt j = 65535 \<or> unat (cl_refcnt j) =
        (if x = a then 1 else if parent = Some x then ext x - 1 else ext x) +
        (class_refs classes x + (if parent = Some x then 1 else 0))"
      unfolding eq using j k(2) D(4) [of x j] by (cases "x = a") auto
  qed
qed

end
