(* ===== verification/PclassTable.thy ===== *)
theory PclassTable
  imports PclassSteps
begin

text \<open>
  The class table as a state machine: the operations of \<open>src/pclass.c\<close> as steps, the invariant
  of the reachable tables, and the properties of the component.
\<close>

section \<open>Interfaces\<close>

lemma ranked_raise:
  assumes "ranked classes rank" "unreferenced classes a" "classes a = Some k" "b \<noteq> a"
    and k': "\<And>x. class_edge (classes(a \<mapsto> k')) a x \<Longrightarrow> class_edge classes a x \<or> x = b"
  shows "ranked (classes(a \<mapsto> k')) (rank(a := rank a + rank b + 1))"
  unfolding ranked_def
proof (intro allI impI)
  fix x y assume e: "class_edge (classes(a \<mapsto> k')) x y"
  show "(rank(a := rank a + rank b + 1)) y < (rank(a := rank a + rank b + 1)) x"
  proof (cases "x = a")
    case True
    then have "class_edge classes a y \<or> y = b" using e k' by blast
    moreover have "\<not> class_edge classes a a" using assms(2) by (simp add: unreferenced_def)
    ultimately show ?thesis using assms(1,4) True unfolding ranked_def by fastforce
  next
    case False
    then have "class_edge classes x y" using e by (simp add: class_edge_def)
    then show ?thesis using assms(1,2) False unfolding ranked_def unreferenced_def by auto
  qed
qed

lemma add_interface_inv:
  assumes inv: "class_inv classes ext" and a: "classes a = Some k" "unreferenced classes a"
    and b: "classes b \<noteq> None" "b \<noteq> a"
    and run: "pclass_add_interface ops (Some a) (Some b) classes h = Some (ok, classes', ev, h')"
  shows "class_inv classes' ext"
proof -
  obtain entry where entry: "classes b = Some entry" using b(1) by auto
  have same: "classes = classes(a \<mapsto> k)" using a(1) by auto
  show ?thesis
  proof (cases "cl_flags entry AND PC_INTERFACE = 0 \<or> b \<in> set (cl_interfaces k)")
    case True
    then have "classes' = classes"
      using run entry a(1) by (cases "cl_flags entry AND PC_INTERFACE = 0") (simp_all add: pclass_add_interface_def)
    then show ?thesis using inv by simp
  next
    case False
    then have guards: "cl_flags entry AND PC_INTERFACE \<noteq> 0" "b \<notin> set (cl_interfaces k)" by simp_all
    obtain g h1 where g: "(if length (cl_interfaces k) = cl_interface_capacity k
       then
         (let capacity = (if cl_interface_capacity k = 0 then 2 else cl_interface_capacity k * 2)
          in case h_realloc ops (cl_interfaces_ptr k) (capacity * sizeof_ptr) h of
               (None, h) \<Rightarrow> (None, h)
             | (Some p, h) \<Rightarrow> (Some (Some p, capacity), h))
       else (Some (cl_interfaces_ptr k, cl_interface_capacity k), h)) = (g, h1)" by fastforce
    note step = run [unfolded pclass_add_interface_def prod.case option.case entry bind.bind_lunit
        if_not_P [OF guards(1)] a(1) if_not_P [OF guards(2)] g]
    show ?thesis
    proof (cases g)
      case None
      then have "classes' = classes" using step by simp
      then show ?thesis using inv by simp
    next
      case (Some pc)
      obtain ptr capacity where pc: "pc = (ptr, capacity)" by fastforce
      let ?k = "k\<lparr>cl_interfaces_ptr := ptr, cl_interface_capacity := capacity\<rparr>"
      let ?c1 = "classes(a \<mapsto> ?k)"
      have inv1: "class_inv ?c1 ext"
        by (rule class_inv_shape [OF inv a(1)]) (simp_all add: same_shape_def)
      obtain c2 where c2: "pclass_retain (Some b) ?c1 = Some c2"
        using step Some pc by (auto split: bind_splits)
      have b1: "?c1 b = Some entry" using entry b(2) by simp
      obtain entry' where e': "c2 = ?c1(b \<mapsto> entry')" "same_shape entry entry'"
        "cl_refcnt entry' = (if cl_refcnt entry = 65535 then 65535 else cl_refcnt entry + 1)"
        using retain_result [OF c2 b1] by blast
      have inv2: "class_inv c2 (ext(b := ext b + 1))"
        unfolding e'(1) by (rule class_inv_retain [OF inv1 b1 e'(2,3)])
      have c2a: "c2 a = Some ?k" using e'(1) b(2) by simp
      let ?k' = "?k\<lparr>cl_interfaces := cl_interfaces ?k @ [b]\<rparr>"
      have classes': "classes' = c2(a \<mapsto> ?k')" using step Some pc c2 c2a by (simp add: Let_def)
      have "unreferenced c2 a"
      proof -
        have "class_edge ?c1 = class_edge classes"
          by (rule class_edge_upd [where classes = classes, OF a(1)]) (simp add: refs_from_def fun_eq_iff)
        moreover have "class_edge c2 = class_edge ?c1"
          unfolding e'(1) by (rule class_edge_upd [where classes = ?c1, OF b1 same_shape_refs [OF e'(2)]])
        ultimately show ?thesis using a(2) by (simp add: unreferenced_def)
      qed
      note unref = this
      have mem: "members_ok c2" using inv2 by (simp add: class_inv_def)
      have "members_ok (c2(a \<mapsto> ?k'))"
        by (rule members_ok_upd [OF mem c2a unref]) (use members_okD [OF mem c2a] in simp_all)
      moreover have "counted (c2(a \<mapsto> ?k')) ext"
      proof -
        have "refs_from ?k' x = refs_from ?k x + (if x = b then 1 else 0)" for x
          by (simp add: refs_from_def)
        from counted_moved [where classes = c2 and ext = "ext(b := ext b + 1)", OF _ c2a this]
        have "counted (c2(a \<mapsto> ?k')) ((ext(b := ext b + 1))(b := (ext(b := ext b + 1)) b - 1))"
          using inv2 by (simp add: class_inv_def)
        then show ?thesis by simp
      qed
      moreover obtain rank where rank: "ranked c2 rank" using inv2 by (auto simp: class_inv_def)
      have "ranked (c2(a \<mapsto> ?k')) (rank(a := rank a + rank b + 1))"
        by (rule ranked_raise [OF rank unref c2a b(2)]) (use c2a in \<open>auto simp: class_edge_def\<close>)
      ultimately show ?thesis unfolding classes' class_inv_def by blast
    qed
  qed
qed

section \<open>Tables\<close>

text \<open>Changes of a class that no lookup of members sees.\<close>

definition table_change :: "pclass_heap \<Rightarrow> pclass_heap \<Rightarrow> bool" where
  "table_change classes classes' \<longleftrightarrow>
     (\<exists>a k k'. classes a = Some k \<and> classes' = classes(a \<mapsto> k') \<and> same_shape k k' \<and> cl_refcnt k' = cl_refcnt k) \<or>
     classes' = classes"

lemma table_change_inv: "table_change classes classes' \<Longrightarrow> class_inv classes ext \<Longrightarrow> class_inv classes' ext"
  unfolding table_change_def using class_inv_shape by blast

lemma table_changeI:
  "classes a = Some k \<Longrightarrow> same_shape k k' \<Longrightarrow> cl_refcnt k' = cl_refcnt k \<Longrightarrow> table_change classes (classes(a \<mapsto> k'))"
  unfolding table_change_def by blast

lemma table_change_refl [simp]: "table_change classes classes"
  by (simp add: table_change_def)

lemma add_constant_change:
  assumes "pclass_add_constant ops c name v classes h = Some (ok, classes', ev, h')"
  shows "table_change classes classes'"
proof (cases c)
  case None
  then show ?thesis using assms by (simp add: pclass_add_constant_def)
next
  case (Some a)
  then obtain k t where "classes a = Some k" "classes' = classes(a \<mapsto> k\<lparr>cl_constants := t\<rparr>)"
    using assms by (auto simp: pclass_add_constant_def split: bind_splits)
  then show ?thesis by (auto intro!: table_changeI simp: same_shape_def)
qed

lemma add_static_change:
  assumes run: "pclass_add_static_property ops c name flags v classes h = Some (ok, classes', ev, h')"
  shows "table_change classes classes'"
proof (cases c)
  case None
  then show ?thesis using run by (simp add: pclass_add_static_property_def)
next
  case (Some a)
  then obtain k where k: "classes a = Some k"
    using run by (auto simp: pclass_add_static_property_def split: bind_splits)
  have change: "table_change classes (classes(a \<mapsto> k'))"
    if "same_shape k k'" "cl_refcnt k' = cl_refcnt k" for k' using table_changeI [where classes = classes, OF k that] .
  show ?thesis
  proof (cases "find_prop (cl_static_defs k) name = None")
    case False
    then show ?thesis using run Some k by (simp add: pclass_add_static_property_def)
  next
    case True
    obtain g h1 where g: "(if length (cl_static_defs k) = cl_static_capacity k
        then grow ops (cl_static_defs_ptr k) sizeof_pproperty (cl_static_capacity k) h
        else (Some (cl_static_defs_ptr k, cl_static_capacity k), h)) = (g, h1)" by fastforce
    have nf: "\<not> find_prop (cl_static_defs k) name \<noteq> None" using True by simp
    note step = run [unfolded pclass_add_static_property_def Some option.case k bind.bind_lunit
        if_not_P [OF nf] g prod.case]
    show ?thesis
    proof (cases g)
      case None
      then show ?thesis using step by simp
    next
      case (Some pc)
      obtain ptr capacity where pc: "pc = (ptr, capacity)" by fastforce
      let ?k = "k\<lparr>cl_static_defs_ptr := ptr, cl_static_capacity := capacity\<rparr>"
      obtain s h2 where s: "ps_new ops name h1 = (s, h2)" by fastforce
      show ?thesis
      proof (cases s)
        case None
        then have "classes' = classes(a \<mapsto> ?k)" using step Some pc s by (simp add: Let_def)
        then show ?thesis using change by (simp add: same_shape_def)
      next
        case s': (Some s')
        obtain added table ev1 h3 where "class_table_add ops (cl_statics ?k) name v h2 = Some (added, table, ev1, h3)"
          using step Some pc s s' by (auto simp: Let_def split: bind_splits)
        then have "classes' = classes(a \<mapsto> ?k\<lparr>cl_statics := table\<rparr>) \<or>
            (\<exists>ds. classes' = classes(a \<mapsto> ?k\<lparr>cl_statics := table, cl_static_defs := ds\<rparr>))"
          using step Some pc s s' by (auto simp: Let_def split: if_splits)
        then show ?thesis using change by (auto simp: same_shape_def)
      qed
    qed
  qed
qed

lemma set_static_loop_change:
  assumes "set_static_loop ops key v c (classes, ev, h) = Some (ok, classes', ev', h')"
  shows "table_change classes classes'"
proof -
  have "table_change (fst st) (fst (snd r))"
    if ret: "set_static_loop ops key v c st = Some r" for c st r
  proof (rule set_static_loop.raw_induct [where P = "\<lambda>ops key v c st r. table_change (fst st) (fst (snd r))", OF _ ret])
    fix f ops key v c st r
    assume IH: "\<And>ops key v c st r. f ops key v c st = Some r \<Longrightarrow> table_change (fst st) (fst (snd r))"
      and eq: "(case st of (classes, ev, h) \<Rightarrow>
        (case c of
           None \<Rightarrow> Some (False, classes, ev, h)
         | Some a \<Rightarrow>
             (case classes a of
                None \<Rightarrow> None
              | Some k \<Rightarrow>
                  (case cl_statics k of
                     None \<Rightarrow> f ops key v (cl_parent k) st
                   | Some t \<Rightarrow> do {
                       r \<leftarrow> pa_get ops (Some t) (PString key) h;
                       (case r of (existing, ev1, h) \<Rightarrow>
                          (case existing of
                             None \<Rightarrow> f ops key v (cl_parent k) (classes, ev @ map Ref ev1, h)
                           | Some old \<Rightarrow> do {
                               r \<leftarrow> pa_set ops (Some t) (PString key) v h;
                               (case r of (ok, t', ev2, h) \<Rightarrow>
                                  Some (ok, classes(a \<mapsto> k\<lparr>cl_statics := t'\<rparr>),
                                    ev @ map Ref (ev1 @ Release old # ev2), h))
                             }))
                     })))) = Some r"
    obtain classes ev h where st: "st = (classes, ev, h)" by (metis prod_cases3)
    show "table_change (fst st) (fst (snd r))"
    proof (cases "\<exists>c' st'. fst st' = classes \<and> f ops key v c' st' = Some r")
      case True
      then obtain c' st' where "fst st' = classes" "f ops key v c' st' = Some r" by blast
      then show ?thesis using IH [of ops key v c' st' r] st by simp
    next
      case False
      then obtain a k t' where "fst (snd r) = classes \<or> classes a = Some k \<and> fst (snd r) = classes(a \<mapsto> k\<lparr>cl_statics := t'\<rparr>)"
        using eq unfolding st by (fastforce split: option.splits bind_splits)
      then show ?thesis using st by (auto intro!: table_changeI simp: same_shape_def)
    qed
  qed
  from this [OF assms] show ?thesis by simp
qed

lemma set_static_change:
  assumes "pclass_set_static_property ops c name v classes h = Some (ok, classes', ev, h')"
  shows "table_change classes classes'"
  using assms set_static_loop_change
  by (fastforce simp: pclass_set_static_property_def split: if_splits option.splits prod.splits bind_splits)

lemma release_values_change:
  assumes "pclass_release_values ops c classes h = Some (classes', ev, h')"
  shows "table_change classes classes'"
proof (cases c)
  case None
  then show ?thesis using assms by (simp add: pclass_release_values_def)
next
  case (Some a)
  then obtain k k' where "classes a = Some k" "release_values ops k h = (k', ev, h')" "classes' = classes(a \<mapsto> k')"
    using assms by (auto simp: pclass_release_values_def split: option.splits prod.splits)
  then show ?thesis using release_values_shape [of ops k h k' ev h'] by (auto intro: table_changeI)
qed

section \<open>Creation\<close>

lemma inherit_result:
  assumes "inherit_properties ops a ps classes ev h = Some (ok, classes', ev', h')"
    and "classes a = Some k" "slots_ok (cl_properties k)"
  shows "\<exists>k'. classes' = classes(a \<mapsto> k') \<and> same_frame k k' \<and> cl_methods k' = cl_methods k \<and>
    slots_ok (cl_properties k') \<and>
    (ok \<longrightarrow> map property_id (cl_properties k') = map property_id (cl_properties k) @ map property_id ps)"
  using assms
proof (induction ps arbitrary: classes ev h k)
  case Nil
  then have "classes' = classes(a \<mapsto> k)" by auto
  then show ?case using Nil by (intro exI [of _ k]) simp
next
  case (Cons p ps)
  obtain ok1 c1 ev1 h1 where add: "pclass_add_property ops (Some a) (ps_data (pr_name p)) (pr_flags p) (pr_default p) classes h =
      Some (ok1, c1, ev1, h1)"
    using Cons.prems(1) by (auto split: bind_splits)
  obtain k1 where k1: "c1 = classes(a \<mapsto> k1)" "same_frame k k1" "cl_methods k1 = cl_methods k"
    and props: "if ok1 then length (cl_properties k) < 255 \<and> find_prop (cl_properties k) (ps_data (pr_name p)) = None \<and>
       (\<exists>q. cl_properties k1 = cl_properties k @ [q] \<and> ps_data (pr_name q) = ps_data (pr_name p) \<and> pr_flags q = pr_flags p \<and>
          pr_slot q = of_nat (length (cl_properties k)) \<and> pr_owner q = a)
     else cl_properties k1 = cl_properties k"
    using add_property_result [OF add Cons.prems(2)] by blast
  show ?case
  proof (cases ok1)
    case False
    then have "classes' = c1" "\<not> ok" using Cons.prems(1) add by auto
    then show ?thesis using k1 props False Cons.prems(3) by (intro exI [of _ k1]) simp
  next
    case True
    then obtain q where q: "cl_properties k1 = cl_properties k @ [q]" "ps_data (pr_name q) = ps_data (pr_name p)"
      "pr_flags q = pr_flags p" "pr_slot q = of_nat (length (cl_properties k))"
      and room: "length (cl_properties k) < 255" "find_prop (cl_properties k) (ps_data (pr_name p)) = None"
      using props by auto
    let ?q = "q\<lparr>pr_owner := pr_owner p\<rparr>"
    let ?k2 = "k1\<lparr>cl_properties := cl_properties k @ [?q]\<rparr>"
    have c1a: "c1 a = Some k1" using k1(1) by simp
    have "(cl_properties k1)[length (cl_properties k1) - 1 := (cl_properties k1 ! (length (cl_properties k1) - 1))\<lparr>pr_owner := pr_owner p\<rparr>] =
        cl_properties k @ [?q]"
      using q(1) by (simp add: list_update_append)
    then have step: "inherit_properties ops a ps (c1(a \<mapsto> ?k2)) (ev @ ev1) h1 = Some (ok, classes', ev', h')"
      using Cons.prems(1) add True c1a by (simp add: Let_def)
    have slots: "slots_ok (cl_properties ?k2)"
      using slots_ok_append [OF Cons.prems(3) room, of ?q] q(2,4) by simp
    obtain k' where k': "classes' = (c1(a \<mapsto> ?k2))(a \<mapsto> k')" "same_frame ?k2 k'" "cl_methods k' = cl_methods ?k2"
      "slots_ok (cl_properties k')"
      "ok \<Longrightarrow> map property_id (cl_properties k') = map property_id (cl_properties ?k2) @ map property_id ps"
      using Cons.IH [OF step fun_upd_same slots] by blast
    have "property_id ?q = property_id p" using q(2,3) by (simp add: property_id_def)
    moreover have "classes' = classes(a \<mapsto> k')" using k'(1) k1(1) by simp
    moreover have "same_frame k k'" using k1(2) k'(2) by (simp add: same_frame_def)
    ultimately show ?thesis using k'(3-5) k1(3) by (intro exI [of _ k']) simp
  qed
qed

lemma ancestor_new:
  assumes "classes a = None" "unreferenced classes a" "c \<noteq> Some a"
  shows "ancestor (classes(a \<mapsto> k)) n c = ancestor classes n c"
  using assms(3)
proof (induction n arbitrary: c)
  case 0
  then show ?case by simp
next
  case (Suc n)
  have eq: "parent_of (classes(a \<mapsto> k)) c = parent_of classes c"
    using Suc.prems by (auto simp: parent_of_def split: bind_splits)
  have "parent_of classes c \<noteq> Some a"
    using assms(2) by (auto simp: unreferenced_def class_edge_def parent_of_def split: bind_splits)
  then show ?case using Suc.IH unfolding ancestor_simps eq by blast
qed

lemma members_ok_new:
  assumes mem: "members_ok classes" and a: "classes a = None" "unreferenced classes a"
    and k: "slots_ok (cl_properties k)" "cl_methods k = []"
    and layout: "\<And>p kp. cl_parent k = Some p \<Longrightarrow> classes p = Some kp \<Longrightarrow> layout_ok (cl_properties kp) (cl_properties k)"
    and self: "cl_parent k \<noteq> Some a"
  shows "members_ok (classes(a \<mapsto> k))"
  unfolding members_ok_def
proof (intro allI impI)
  fix b j assume j: "(classes(a \<mapsto> k)) b = Some j"
  show "slots_ok (cl_properties j) \<and> distinct (map method_key (cl_methods j)) \<and>
      (\<forall>p kp. cl_parent j = Some p \<longrightarrow> (classes(a \<mapsto> k)) p = Some kp \<longrightarrow>
         layout_ok (cl_properties kp) (cl_properties j)) \<and>
      (\<forall>m \<in> set (cl_methods j). no_final_above (classes(a \<mapsto> k)) b (method_key m))"
  proof (cases "b = a")
    case True
    then have "j = k" using j by simp
    then show ?thesis using k layout self by auto
  next
    case False
    then have jb: "classes b = Some j" using j by simp
    have np: "cl_parent j \<noteq> Some a" using a(2) jb by (auto simp: unreferenced_def class_edge_def)
    have "ancestor classes (Suc n) (Some b) \<noteq> Some a" for n
      using ancestor_edge a(2) unfolding unreferenced_def by blast
    moreover have "ancestor (classes(a \<mapsto> k)) (Suc n) (Some b) = ancestor classes (Suc n) (Some b)" for n
      using False by (intro ancestor_new [OF a]) simp
    ultimately have "no_final_above (classes(a \<mapsto> k)) b key = no_final_above classes b key" for key
      unfolding no_final_above_def by (metis fun_upd_other)
    then show ?thesis using members_okD [OF mem jb] np by auto
  qed
qed

lemma counted_unreferenced:
  assumes "counted classes ext" "classes a = None"
  shows "unreferenced classes a" "ext a = 0"
proof -
  have zero: "class_refs classes a = 0 \<and> ext a = 0" using countedD(2) [OF assms(1), of a] assms(2) by fastforce
  then show "ext a = 0" by simp
  show "unreferenced classes a"
    unfolding unreferenced_def
  proof (intro allI notI)
    fix b assume "class_edge classes b a"
    from class_refs_edge [OF countedD(1) [OF assms(1)] this] zero show False by simp
  qed
qed

lemma ranked_new:
  assumes "ranked classes rank" "classes a = None" "unreferenced classes a"
    and "cl_interfaces k = []" "cl_parent k \<noteq> Some a"
  shows "ranked (classes(a \<mapsto> k)) (rank(a := case cl_parent k of None \<Rightarrow> 0 | Some p \<Rightarrow> rank p + 1))"
  unfolding ranked_def
proof (intro allI impI)
  fix x y assume e: "class_edge (classes(a \<mapsto> k)) x y"
  show "(rank(a := case cl_parent k of None \<Rightarrow> 0 | Some p \<Rightarrow> rank p + 1)) y <
      (rank(a := case cl_parent k of None \<Rightarrow> 0 | Some p \<Rightarrow> rank p + 1)) x"
  proof (cases "x = a")
    case True
    then have "cl_parent k = Some y" using e assms(4) by (simp add: class_edge_def)
    then show ?thesis using True assms(5) by auto
  next
    case False
    then have "class_edge classes x y" using e by (simp add: class_edge_def)
    then show ?thesis using assms(1,3) False by (auto simp: ranked_def unreferenced_def)
  qed
qed

lemma released_Some:
  "released classes ext (Some (classes', ev, h)) \<longleftrightarrow>
     counted (live_classes classes') ext \<and> fewer_classes (live_classes classes) (live_classes classes') \<and>
     (\<forall>z k. classes z = Some k \<longrightarrow> cl_refcnt k = 0 \<longrightarrow> classes' z = Some k) \<and>
     (\<forall>z k. classes' z = Some k \<longrightarrow> cl_refcnt k = 0 \<longrightarrow> classes z = Some k)"
  by (simp add: released_def)

text \<open>A class that holds the only reference to itself disappears when it is released.\<close>

lemma release_new:
  assumes counted: "counted (classes(a \<mapsto> k)) ext" and a: "ext a = 1" "cl_refcnt k = 1"
    and unref: "\<not> (\<exists>b. class_edge (classes(a \<mapsto> k)) b a)" and rank: "ranked (classes(a \<mapsto> k)) rank"
    and mem: "members_ok classes"
    and run: "pclass_release ops (Some a) (classes(a \<mapsto> k), ev, h) = Some (classes', ev', h')"
  shows "class_inv classes' (ext(a := 0))"
proof -
  let ?c = "classes(a \<mapsto> k)"
  note live = live_classes_counted [OF counted]
  have e: "ext(a := ext a - 1) = ext(a := 0)" using a(1) by simp
  have "released ?c (ext(a := ext a - 1)) (pclass_release ops (Some a) (?c, ev, h))"
  proof (rule release_counted)
    show "counted (live_classes ?c) ext" "ranked (live_classes ?c) rank" unfolding live by (rule counted, rule rank)
    show "0 < ext a" using a(1) by simp
  qed
  then have r: "counted (live_classes classes') (ext(a := 0))" "fewer_classes ?c (live_classes classes')"
    "\<forall>z k. classes' z = Some k \<longrightarrow> cl_refcnt k = 0 \<longrightarrow> ?c z = Some k"
    unfolding run e released_Some live by blast+
  have "cl_refcnt j \<noteq> 0" if "classes' z = Some j" for z j using r(3) that countedD(3) [OF counted] by blast
  then have live': "live_classes classes' = classes'" by (intro ext) (auto simp: live_classes_def split: bind_splits)
  note c' = r(1,2) [unfolded live']
  have gone: "classes' a = None"
  proof (rule ccontr)
    assume "classes' a \<noteq> None"
    then obtain j where j: "classes' a = Some j" by auto
    have "unat (cl_refcnt j) \<le> 1" using c'(2) j a(2) unfolding fewer_classes_def by fastforce
    moreover have "class_refs classes' a = 0"
    proof (rule ccontr)
      assume "class_refs classes' a \<noteq> 0"
      then obtain b where "b \<in> dom classes'" "refs_from (the (classes' b)) a \<noteq> 0"
        unfolding class_refs_def by (meson sum.not_neutral_contains_not_neutral)
      then have "class_edge classes' b a" by (auto simp: class_edge_refs)
      then show False using fewer_classes_edge [OF c'(2)] unref by blast
    qed
    ultimately show False
      using countedD(3,4) [OF c'(1) j] by (cases "cl_refcnt j = 65535") (auto simp: unat_eq_0)
  qed
  have "shape_below classes classes'"
    unfolding shape_below_def
  proof (intro allI impI)
    fix x j assume j: "classes' x = Some j"
    then have "x \<noteq> a" using gone by auto
    then show "\<exists>k. classes x = Some k \<and> same_shape k j" using c'(2) j unfolding fewer_classes_def by fastforce
  qed
  then show ?thesis
    using c'(1) ranked_fewer [OF rank c'(2)] members_ok_below [OF mem] unfolding class_inv_def by blast
qed

lemma pclass_new_inv:
  assumes inv: "class_inv classes ext"
    and fresh: "\<And>a h1. h_alloc ops sizeof_pclass h = (Some a, h1) \<Longrightarrow> classes a = None"
    and run: "pclass_new ops name parent flags classes h = Some (r, classes', ev, h')"
    and parent: "\<And>p. parent = Some p \<Longrightarrow> classes p \<noteq> None"
  shows "case r of None \<Rightarrow> class_inv classes' ext | Some a \<Rightarrow> classes a = None \<and> class_inv classes' (ext(a := 1))"
proof -
  obtain a0 h1 where alloc: "h_alloc ops sizeof_pclass h = (a0, h1)" by fastforce
  show ?thesis
  proof (cases a0)
    case None
    then show ?thesis using run alloc inv by (simp add: pclass_new_def)
  next
    case (Some a)
    obtain s0 h2 where s0: "ps_new ops name h1 = (s0, h2)" by fastforce
    show ?thesis
    proof (cases s0)
      case None
      then show ?thesis using run alloc Some s0 inv by (simp add: pclass_new_def)
    next
      case s: (Some s)
      let ?e = "empty_class s parent flags"
      have a: "classes a = None" using fresh alloc Some by simp
      have counted: "counted classes ext" using inv by (simp add: class_inv_def)
      note un = counted_unreferenced [OF counted a]
      have slots: "slots_ok (cl_properties ?e)" by (simp add: empty_class_def slots_ok_def)
      show ?thesis
      proof (cases parent)
        case None
        then have res: "r = Some a" "classes' = classes(a \<mapsto> ?e)"
          using run alloc Some s0 s by (simp_all add: pclass_new_def pclass_retain_def)
        have "counted classes' (\<lambda>x. if x = a then 1 else if None = Some x then ext x - 1 else ext x)"
          unfolding res by (rule counted_new [OF counted a]) (simp_all add: empty_class_def refs_from_def None)
        moreover have "(\<lambda>x. if x = a then 1 else if None = Some x then ext x - 1 else ext x) = ext(a := 1)" by auto
        ultimately have "counted classes' (ext(a := 1))" by simp
        moreover obtain rank where rank: "ranked classes rank" using inv by (auto simp: class_inv_def)
        have "\<exists>rank. ranked classes' rank"
          unfolding res by (rule exI, rule ranked_new [OF rank a un(1)]) (simp_all add: empty_class_def None)
        moreover have "members_ok classes'"
          unfolding res by (rule members_ok_new [OF _ a un(1)])
            (use inv slots in \<open>simp_all add: class_inv_def empty_class_def None\<close>)
        ultimately show ?thesis using res a by (simp add: class_inv_def)
      next
        case p: (Some p)
        obtain kp where kp: "classes p = Some kp" using parent [OF p] by auto
        have pa: "p \<noteq> a" using kp a by auto
        obtain c2 where c2: "pclass_retain (Some p) (classes(a \<mapsto> ?e)) = Some c2"
          using run alloc Some s0 s p by (auto simp: pclass_new_def split: bind_splits)
        obtain kp' where kp': "c2 = classes(a \<mapsto> ?e, p \<mapsto> kp')" "same_shape kp kp'"
          "cl_refcnt kp' = (if cl_refcnt kp = 65535 then 65535 else cl_refcnt kp + 1)"
          using retain_result [OF c2] kp pa by auto
        let ?base = "classes(p \<mapsto> kp')"
        have twist: "c2 = ?base(a \<mapsto> ?e)" using kp'(1) pa by (simp add: fun_upd_twist)
        have inv1: "class_inv ?base (ext(p := ext p + 1))" by (rule class_inv_retain [OF inv kp kp'(2,3)])
        have counted1: "counted ?base (ext(p := ext p + 1))" using inv1 by (simp add: class_inv_def)
        have a1: "?base a = None" using a pa by simp
        note un1 = counted_unreferenced [OF counted1 a1]
        obtain ok c3 ev3 h3 where inh: "inherit_properties ops a (cl_properties kp') c2 [] h2 = Some (ok, c3, ev3, h3)"
          using run alloc Some s0 s p c2 kp'(1) by (auto simp: pclass_new_def split: bind_splits)
        have c2a: "c2 a = Some ?e" using twist by simp
        obtain k' where k': "c3 = c2(a \<mapsto> k')" "same_frame ?e k'" "cl_methods k' = cl_methods ?e" "slots_ok (cl_properties k')"
          "ok \<Longrightarrow> map property_id (cl_properties k') = map property_id (cl_properties ?e) @ map property_id (cl_properties kp')"
          using inherit_result [OF inh c2a slots] by blast
        have c3: "c3 = ?base(a \<mapsto> k')" using k'(1) twist by simp
        have frame: "cl_parent k' = Some p" "cl_interfaces k' = []" "cl_refcnt k' = 1" "cl_methods k' = []"
          using k'(2,3) p by (simp_all add: same_frame_def empty_class_def)
        have "counted c3 (\<lambda>x. if x = a then 1 else if Some p = Some x then (ext(p := ext p + 1)) x - 1 else (ext(p := ext p + 1)) x)"
          unfolding c3 by (rule counted_new [OF counted1 a1]) (simp_all add: frame refs_from_def)
        moreover have "(\<lambda>x. if x = a then 1 else if Some p = Some x then (ext(p := ext p + 1)) x - 1 else (ext(p := ext p + 1)) x) =
            ext(a := 1)" by auto
        ultimately have counted3: "counted c3 (ext(a := 1))" by simp
        obtain rank where rank: "ranked ?base rank" using inv1 by (auto simp: class_inv_def)
        have "ranked c3 (rank(a := case cl_parent k' of None \<Rightarrow> 0 | Some p \<Rightarrow> rank p + 1))"
          unfolding c3 by (rule ranked_new [OF rank a1 un1(1)]) (simp_all add: frame pa)
        note rank3 = this
        have mem1: "members_ok ?base" using inv1 by (simp add: class_inv_def)
        show ?thesis
        proof (cases ok)
          case True
          then have res: "r = Some a" "classes' = c3"
            using run alloc Some s0 s p c2 kp'(1) inh by (simp_all add: pclass_new_def)
          have "members_ok c3"
            unfolding c3
          proof (rule members_ok_new [OF mem1 a1 un1(1) k'(4) frame(4)])
            show "layout_ok (cl_properties kq) (cl_properties k')" if "cl_parent k' = Some q" "?base q = Some kq" for q kq
              using that frame(1) k'(5) [OF True] by (simp add: layout_ok_def empty_class_def)
          qed (simp add: frame pa)
          then show ?thesis using res a counted3 rank3 by (auto simp: class_inv_def)
        next
          case False
          obtain c4 ev4 h4 where rel: "pclass_release ops (Some a) (c3, ev3, h3) = Some (c4, ev4, h4)"
            and res: "r = None" "classes' = c4"
            using run alloc Some s0 s p c2 kp'(1) inh False
            by (auto simp: pclass_new_def pclass_destroy_def split: bind_splits)
          have "\<not> (\<exists>b. class_edge c3 b a)"
            using un1(1) frame pa unfolding c3 by (auto simp: unreferenced_def class_edge_def split: if_splits)
          from release_new [OF counted3 [unfolded c3] _ frame(3) this [unfolded c3] rank3 [unfolded c3] mem1 rel [unfolded c3]]
          have "class_inv c4 ((ext(a := 1))(a := 0))" by simp
          moreover have "(ext(a := 1))(a := 0) = ext" using un(2) by auto
          ultimately show ?thesis using res by simp
        qed
      qed
    qed
  qed
qed

section \<open>Steps\<close>

text \<open>
  The table, the references to each class from outside it, and the memory.  A new class gets an
  address where no class lives (the pool never returns a live block); members are only added to a
  class that no class refers to; only a reference from outside is given up.
\<close>

inductive class_step ::
  "'h heap_ops \<Rightarrow> pclass_heap \<times> (addr \<Rightarrow> nat) \<times> 'h \<Rightarrow> pclass_heap \<times> (addr \<Rightarrow> nat) \<times> 'h \<Rightarrow> bool"
  for ops :: "'h heap_ops" where
  new: "pclass_new ops name parent flags cs h = Some (r, cs', ev, h') \<Longrightarrow>
    \<forall>a h1. h_alloc ops sizeof_pclass h = (Some a, h1) \<longrightarrow> cs a = None \<Longrightarrow>
    \<forall>p. parent = Some p \<longrightarrow> cs p \<noteq> None \<Longrightarrow>
    class_step ops (cs, ext, h) (cs', case r of None \<Rightarrow> ext | Some a \<Rightarrow> ext(a := 1), h')"
| add_property: "pclass_add_property ops (Some a) name flags v cs h = Some (ok, cs', ev, h') \<Longrightarrow>
    unreferenced cs a \<Longrightarrow> class_step ops (cs, ext, h) (cs', ext, h')"
| add_method: "pclass_add_method ops (Some a) name flags proto module cs h = Some (ok, cs', ev, h') \<Longrightarrow>
    unreferenced cs a \<Longrightarrow> class_step ops (cs, ext, h) (cs', ext, h')"
| add_native: "pclass_add_native_method ops (Some a) name flags function cs h = Some (ok, cs', ev, h') \<Longrightarrow>
    unreferenced cs a \<Longrightarrow> class_step ops (cs, ext, h) (cs', ext, h')"
| add_interface: "pclass_add_interface ops (Some a) (Some b) cs h = Some (ok, cs', ev, h') \<Longrightarrow>
    unreferenced cs a \<Longrightarrow> cs a \<noteq> None \<Longrightarrow> b \<noteq> a \<Longrightarrow> class_step ops (cs, ext, h) (cs', ext, h')"
| add_static: "pclass_add_static_property ops c name flags v cs h = Some (ok, cs', ev, h') \<Longrightarrow>
    class_step ops (cs, ext, h) (cs', ext, h')"
| set_static: "pclass_set_static_property ops c name v cs h = Some (ok, cs', ev, h') \<Longrightarrow>
    class_step ops (cs, ext, h) (cs', ext, h')"
| add_constant: "pclass_add_constant ops c name v cs h = Some (ok, cs', ev, h') \<Longrightarrow>
    class_step ops (cs, ext, h) (cs', ext, h')"
| release_values: "pclass_release_values ops c cs h = Some (cs', ev, h') \<Longrightarrow>
    class_step ops (cs, ext, h) (cs', ext, h')"
| retain: "pclass_retain (Some a) cs = Some cs' \<Longrightarrow> class_step ops (cs, ext, h) (cs', ext(a := ext a + 1), h)"
| retain_runtime: "pclass_retain_runtime (Some a) cs = Some cs' \<Longrightarrow>
    class_step ops (cs, ext, h) (cs', ext(a := ext a + 1), h)"
| release: "pclass_release ops (Some a) (cs, [], h) = Some (cs', ev, h') \<Longrightarrow> 0 < ext a \<Longrightarrow>
    class_step ops (cs, ext, h) (cs', ext(a := ext a - 1), h')"
| release_runtime: "pclass_release_runtime ops (Some a) (cs, [], h) = Some (cs', ev, h') \<Longrightarrow> 0 < ext a \<Longrightarrow>
    class_step ops (cs, ext, h) (cs', ext(a := ext a - 1), h')"

inductive_cases class_step_cases: "class_step ops x y"

lemma add_member_at:
  "pclass_add_property ops (Some a) name flags v cs h = Some r \<Longrightarrow> cs a \<noteq> None"
  "pclass_add_method ops (Some a) name flags proto module cs h = Some r' \<Longrightarrow> cs a \<noteq> None"
  by (rule notI, simp add: pclass_add_property_def pclass_add_method_def)+

lemma class_step_inv:
  assumes "class_step ops x y" and "class_inv (fst x) (fst (snd x))"
  shows "class_inv (fst y) (fst (snd y))"
  using assms
proof (induction rule: class_step.induct)
  case (new name parent flags cs h r cs' ev h' ext)
  then have "case r of None \<Rightarrow> class_inv cs' ext | Some a \<Rightarrow> cs a = None \<and> class_inv cs' (ext(a := 1))"
    by (intro pclass_new_inv [OF _ _ new(1)]) auto
  then show ?case by (cases r) (simp_all add: fun_upd_def)
next
  case (add_property a name flags v cs h ok cs' ev h' ext)
  obtain k where k: "cs a = Some k" using add_member_at(1) [OF add_property(1)] by auto
  show ?case unfolding fst_conv snd_conv
    by (rule add_property_inv [OF _ k add_property(2,1)]) (use add_property(3) in simp)
next
  case (add_method a name flags proto module cs h ok cs' ev h' ext)
  obtain k where k: "cs a = Some k" using add_member_at(2) [OF add_method(1)] by auto
  show ?case unfolding fst_conv snd_conv
    by (rule add_method_inv [OF _ k add_method(2,1)]) (use add_method(3) in simp)
next
  case (add_native a name flags fn cs h ok cs' ev h' ext)
  show ?case
  proof (cases "fn = None")
    case True
    then show ?thesis using add_native(1,3) by (simp add: pclass_add_native_method_def)
  next
    case False
    then obtain r where "pclass_add_method ops (Some a) name flags None None cs h = Some r"
      using add_native(1) by (auto simp: pclass_add_native_method_def split: bind_splits)
    then have "cs a \<noteq> None" by (rule add_member_at(2))
    then obtain k where k: "cs a = Some k" by auto
    show ?thesis unfolding fst_conv snd_conv
      by (rule add_native_method_inv [OF _ k add_native(2,1)]) (use add_native(3) in simp)
  qed
next
  case (add_interface a b cs h ok cs' ev h' ext)
  then obtain k where k: "cs a = Some k" by auto
  have b: "cs b \<noteq> None"
  proof
    assume "cs b = None"
    then show False using add_interface(1) by (simp add: pclass_add_interface_def)
  qed
  show ?case unfolding fst_conv snd_conv
    by (rule add_interface_inv [OF _ k add_interface(2) b add_interface(4,1)]) (use add_interface(5) in simp)
next
  case (add_static c name flags v cs h ok cs' ev h' ext)
  then show ?case using table_change_inv [OF add_static_change [OF add_static(1)]] unfolding fst_conv snd_conv by blast
next
  case (set_static c name v cs h ok cs' ev h' ext)
  then show ?case using table_change_inv [OF set_static_change [OF set_static(1)]] unfolding fst_conv snd_conv by blast
next
  case (add_constant c name v cs h ok cs' ev h' ext)
  then show ?case using table_change_inv [OF add_constant_change [OF add_constant(1)]] unfolding fst_conv snd_conv by blast
next
  case (release_values c cs h cs' ev h' ext)
  then show ?case using table_change_inv [OF release_values_change [OF release_values(1)]] unfolding fst_conv snd_conv by blast
next
  case (retain a cs cs' ext h)
  then obtain k where k: "cs a = Some k" by (auto simp: pclass_retain_def split: option.splits)
  then show ?case using retain_result [OF retain(1) k] class_inv_retain [where classes = cs, OF _ k] retain(2)
    unfolding fst_conv snd_conv by blast
next
  case (retain_runtime a cs cs' ext h)
  then obtain c1 where c1: "pclass_retain (Some a) cs = Some c1"
    by (auto simp: pclass_retain_runtime_def split: bind_splits)
  then obtain k where k: "cs a = Some k" by (auto simp: pclass_retain_def split: option.splits)
  obtain k' where k': "c1 = cs(a \<mapsto> k')" "same_shape k k'"
    "cl_refcnt k' = (if cl_refcnt k = 65535 then 65535 else cl_refcnt k + 1)" using retain_result [OF c1 k] by blast
  have inv1: "class_inv c1 (ext(a := ext a + 1))"
    unfolding k'(1) by (rule class_inv_retain [where classes = cs, OF _ k k'(2,3)]) (use retain_runtime(2) in simp)
  have "cs' = c1 \<or> cs' = c1(a \<mapsto> k'\<lparr>cl_runtime_refs := cl_runtime_refs k' + 1\<rparr>)"
    using retain_runtime(1) c1 k'(1) by (auto simp: pclass_retain_runtime_def split: if_splits)
  moreover have "c1 a = Some k'" using k'(1) by simp
  then have "table_change c1 (c1(a \<mapsto> k'\<lparr>cl_runtime_refs := cl_runtime_refs k' + 1\<rparr>))"
    by (rule table_changeI) (simp_all add: same_shape_def)
  ultimately have "table_change c1 cs'" by auto
  then show ?case using table_change_inv inv1 unfolding fst_conv snd_conv by blast
next
  case (release a cs h cs' ev h' ext)
  have "class_inv cs ext" using release(3) by simp
  from class_inv_release [OF this release(2), of ops "[]" h] show ?case
    unfolding release(1) fst_conv snd_conv by blast
next
  case (release_runtime a cs h cs' ev h' ext)
  then obtain k where k: "cs a = Some k" by (auto simp: pclass_release_runtime_def split: option.splits)
  let ?c = "if cl_runtime_refs k \<noteq> 0 \<and> cl_runtime_refs k \<noteq> 65535
     then cs(a \<mapsto> k\<lparr>cl_runtime_refs := cl_runtime_refs k - 1\<rparr>) else cs"
  have "table_change cs ?c" using k by (auto intro!: table_changeI simp: same_shape_def)
  then have inv1: "class_inv ?c ext" using table_change_inv release_runtime(3) unfolding fst_conv snd_conv by blast
  have run: "pclass_release ops (Some a) (?c, [], h) = Some (cs', ev, h')"
    using release_runtime(1) k by (simp add: pclass_release_runtime_def)
  from class_inv_release [OF inv1 release_runtime(2), of ops "[]" h] show ?case
    unfolding run fst_conv snd_conv by blast
qed

lemma class_inv_empty: "class_inv (\<lambda>a. None) (\<lambda>a. 0)"
  by (simp add: class_inv_def counted_def class_refs_def members_ok_def ranked_def class_edge_def)

lemma class_reachable_inv:
  assumes "(class_step ops)\<^sup>*\<^sup>* (\<lambda>a. None, \<lambda>a. 0, h0) (cs, ext, h)"
  shows "class_inv cs ext"
proof -
  have "class_inv (fst (cs, ext, h)) (fst (snd (cs, ext, h)))"
    using assms
  proof (induction rule: rtranclp_induct)
    case base
    show ?case using class_inv_empty by simp
  next
    case (step y z)
    then show ?case using class_step_inv by blast
  qed
  then show ?thesis by simp
qed

lemma ranked_no_cycle: "(class_edge classes)\<^sup>+\<^sup>+ a b \<Longrightarrow> ranked classes rank \<Longrightarrow> rank b < rank a"
proof (induction rule: tranclp_induct)
  case (base y)
  then show ?case by (simp add: ranked_def)
next
  case (step y z)
  then have "rank z < rank y" by (simp add: ranked_def)
  then show ?case using step by simp
qed

section \<open>Properties\<close>

text \<open>
  C11. The class table in every reachable state.  A class is in the table as long as something
  refers to it, and its count is the number of its references (unless it has reached the
  sticky maximum); parents and interfaces are in the table and never lead back to a class; every
  property has the number of its place as its slot and every property of the parent keeps its
  place, its flags and its owner in the child, so code that addresses a slot of the parent works on the
  child's objects; methods are distinct up to case, and no method has the name of a final
  method of an ancestor.
\<close>

theorem class_table_is_consistent:
  assumes "(class_step ops)\<^sup>*\<^sup>* (\<lambda>a. None, \<lambda>a. 0, h0) (cs, ext, h)" and "cs a = Some k"
  shows "(cl_refcnt k = 65535 \<or> 0 < unat (cl_refcnt k) \<and> unat (cl_refcnt k) = ext a + class_refs cs a) \<and>
    (\<forall>b. class_edge cs a b \<longrightarrow> cs b \<noteq> None) \<and> \<not> (class_edge cs)\<^sup>+\<^sup>+ a a \<and>
    (\<forall>i < length (cl_properties k). pr_slot (cl_properties k ! i) = of_nat i) \<and>
    (\<forall>p kp. cl_parent k = Some p \<longrightarrow> cs p = Some kp \<longrightarrow>
       (\<exists>more. map property_id (cl_properties k) = map property_id (cl_properties kp) @ more)) \<and>
    distinct (map method_key (cl_methods k)) \<and>
    (\<forall>n d kd m q. ancestor cs (Suc n) (Some a) = Some d \<longrightarrow> cs d = Some kd \<longrightarrow> m \<in> set (cl_methods k) \<longrightarrow>
       q \<in> set (cl_methods kd) \<longrightarrow> method_key q = method_key m \<longrightarrow> me_flags q AND PC_FINAL = 0)"
proof -
  have inv: "class_inv cs ext" by (rule class_reachable_inv [OF assms(1)])
  then have c: "counted cs ext" and mem: "members_ok cs" by (simp_all add: class_inv_def)
  obtain rank where rank: "ranked cs rank" using inv by (auto simp: class_inv_def)
  have "cl_refcnt k = 65535 \<or> 0 < unat (cl_refcnt k) \<and> unat (cl_refcnt k) = ext a + class_refs cs a"
    using countedD(3,4) [OF c assms(2)] by (auto simp: unat_gt_0)
  moreover have "\<forall>b. class_edge cs a b \<longrightarrow> cs b \<noteq> None"
    using class_refs_edge [OF countedD(1) [OF c]] countedD(2) [OF c] by (metis add_pos_nonneg add.commute le0 option.distinct(1))
  moreover have "\<not> (class_edge cs)\<^sup>+\<^sup>+ a a" using ranked_no_cycle [OF _ rank, of a a] by auto
  ultimately show ?thesis
    using members_okD [OF mem assms(2)] unfolding slots_ok_def layout_ok_def no_final_above_def by blast
qed

text \<open>
  C14. \<open>pclass_is_a\<close> (instanceof, the check of thrown classes and of protected members) decides
  reachability over parents and interfaces: in every reachable table it returns, and its answer is
  whether a path of parents and interfaces leads from the class to the expected one.
\<close>

theorem is_a_decides_reachability:
  assumes "(class_step ops)\<^sup>*\<^sup>* (\<lambda>a. None, \<lambda>a. 0, h0) (cs, ext, h)" and "cs a \<noteq> None"
  shows "pclass_is_a cs (Some e) (Some a) = Some ((class_edge cs)\<^sup>*\<^sup>* a e)"
proof -
  obtain k where "cs a = Some k" using assms(2) by auto
  moreover obtain rank where "class_graph cs rank" using class_inv_graph [OF class_reachable_inv [OF assms(1)]] .
  ultimately show ?thesis using is_a_steps by blast
qed

text \<open>
  C15. Methods are dispatched to the nearest ancestor: in every reachable table the lookup returns, and
  finds the method of the first class on the way up that has one with the name, up to case;
  it finds none only when no ancestor has one.
\<close>

theorem methods_dispatch_to_the_nearest:
  assumes "(class_step ops)\<^sup>*\<^sup>* (\<lambda>a. None, \<lambda>a. 0, h0) (cs, ext, h)" and "cs a \<noteq> None"
  shows "case pclass_find_method cs name (Some a) of
      None \<Rightarrow> False
    | Some None \<Rightarrow> \<forall>n. own_method cs name (ancestor cs n (Some a)) = None
    | Some (Some m) \<Rightarrow> method_key m = map fold_byte name \<and>
        (\<exists>n. own_method cs name (ancestor cs n (Some a)) = Some m \<and>
           (\<forall>i < n. own_method cs name (ancestor cs i (Some a)) = None))"
proof -
  obtain k where k: "cs a = Some k" using assms(2) by auto
  obtain rank where "class_graph cs rank" using class_inv_graph [OF class_reachable_inv [OF assms(1)]] .
  from find_method_first [OF this k, of name] obtain r where
    r: "pclass_find_method cs name (Some a) = Some r" "first_method cs name (Some a) r" by blast
  have "method_key m = map fold_byte name" if "own_method cs name c = Some m" for c m
    using that find_own_Some by (auto simp: own_method_def split: bind_splits)
  then show ?thesis using r unfolding first_method_def by (cases r) auto
qed


text \<open>
  C12. Releasing a class, with everything that goes with it: in every reachable table the release of a
  reference from outside returns; the classes left are unchanged but for their counts, those
  counts are exact again, a class stays exactly as long as something refers to it, and the
  recursion into parents and interfaces leaves no pointer to a class that is gone.
\<close>

theorem releasing_a_class_is_exact:
  assumes "(class_step ops)\<^sup>*\<^sup>* (\<lambda>a. None, \<lambda>a. 0, h0) (cs, ext, h)" and "0 < ext a"
  shows "case pclass_release ops (Some a) (cs, [], h) of
      None \<Rightarrow> False
    | Some (cs', ev, h') \<Rightarrow>
        (let ext' = ext(a := ext a - 1) in
           (\<forall>x. 0 < ext' x + class_refs cs' x \<longrightarrow> cs' x \<noteq> None) \<and>
           (\<forall>x k'. cs' x = Some k' \<longrightarrow>
              (\<exists>k. cs x = Some k \<and> same_shape k k') \<and>
              (cl_refcnt k' = 65535 \<or> 0 < unat (cl_refcnt k') \<and> unat (cl_refcnt k') = ext' x + class_refs cs' x)) \<and>
           (\<forall>x b. class_edge cs' x b \<longrightarrow> cs' b \<noteq> None))"
proof -
  obtain cs' ev h' where r: "pclass_release ops (Some a) (cs, [], h) = Some (cs', ev, h')"
    and inv: "class_inv cs' (ext(a := ext a - 1))" and fewer: "fewer_classes cs cs'"
    using class_inv_release [OF class_reachable_inv [OF assms(1)] assms(2), where ops = ops and ev = "[]" and h = h] by blast
  have c: "counted cs' (ext(a := ext a - 1))" using inv by (simp add: class_inv_def)
  note D = countedD [OF c]
  have "\<forall>x. 0 < (ext(a := ext a - 1)) x + class_refs cs' x \<longrightarrow> cs' x \<noteq> None" using D(2) by fastforce
  moreover have "\<forall>x b. class_edge cs' x b \<longrightarrow> cs' b \<noteq> None"
    using class_inv_graph [OF inv] unfolding class_graph_def by metis
  moreover have "(\<exists>k. cs x = Some k \<and> same_shape k k') \<and>
      (cl_refcnt k' = 65535 \<or> 0 < unat (cl_refcnt k') \<and>
       unat (cl_refcnt k') = (ext(a := ext a - 1)) x + class_refs cs' x)" if "cs' x = Some k'" for x k'
  proof
    show "\<exists>k. cs x = Some k \<and> same_shape k k'" using fewer that unfolding fewer_classes_def by blast
    show "cl_refcnt k' = 65535 \<or> 0 < unat (cl_refcnt k') \<and>
       unat (cl_refcnt k') = (ext(a := ext a - 1)) x + class_refs cs' x"
      using D(3,4) [OF that] by (metis unat_gt_0)
  qed
  ultimately show ?thesis unfolding r Let_def option.case prod.case by blast
qed

section \<open>Witnesses\<close>

text \<open>A heap that never runs out, and the table after the declaration of one class.\<close>

definition endless_heap :: "nat heap_ops" where
  "endless_heap = \<lparr>h_alloc = (\<lambda>n h. (Some h, h + n)), h_free = (\<lambda>p h. h),
     h_realloc = (\<lambda>p n h. (Some h, h + n))\<rparr>"

definition demo_class :: pclass where
  "demo_class = empty_class \<lparr>ps_addr = 144, ps_rostring = False, ps_interned = False,
     ps_hash = ps_hash_bytes ''A'', ps_data = ''A''\<rparr> None 0"

definition demo_table :: pclass_heap where
  "demo_table = (\<lambda>a. None)(8 \<mapsto> demo_class)"

definition demo_ext :: "addr \<Rightarrow> nat" where
  "demo_ext = (\<lambda>a. 0)(8 := 1)"

lemma demo_table_reachable:
  "(class_step endless_heap)\<^sup>*\<^sup>* (\<lambda>a. None, \<lambda>a. 0, 8) (demo_table, demo_ext, 158)"
proof (rule r_into_rtranclp)
  have "pclass_new endless_heap ''A'' None 0 (\<lambda>a. None) 8 = Some (Some 8, demo_table, [], 158)"
    by (simp add: pclass_new_def endless_heap_def ps_new_def PPHP_STR_MAX_def sizeof_pclass_def sizeof_pstring_def
        pclass_retain_def demo_table_def demo_class_def)
  from class_step.new [OF this, of "\<lambda>a. 0"]
  show "class_step endless_heap (\<lambda>a. None, \<lambda>a. 0, 8) (demo_table, demo_ext, 158)"
    by (simp add: demo_ext_def)
qed

lemma demo_table_at: "demo_table 8 = Some demo_class" "demo_table 8 \<noteq> None"
  by (simp_all add: demo_table_def)

theorem class_table_is_consistent_witness:
  "unat (cl_refcnt demo_class) = demo_ext 8 + class_refs demo_table 8 \<and> \<not> (class_edge demo_table)\<^sup>+\<^sup>+ 8 8"
  using class_table_is_consistent [OF demo_table_reachable demo_table_at(1)]
  by (simp add: demo_class_def empty_class_def)

theorem is_a_decides_reachability_witness:
  "pclass_is_a demo_table (Some 8) (Some 8) = Some True"
  using is_a_decides_reachability [OF demo_table_reachable demo_table_at(2), of 8] by simp

theorem methods_dispatch_to_the_nearest_witness:
  "case pclass_find_method demo_table ''f'' (Some 8) of
      None \<Rightarrow> False
    | Some None \<Rightarrow> \<forall>n. own_method demo_table ''f'' (ancestor demo_table n (Some 8)) = None
    | Some (Some m) \<Rightarrow> method_key m = map fold_byte ''f''"
  using methods_dispatch_to_the_nearest [OF demo_table_reachable demo_table_at(2), of "''f''"]
  by (auto split: option.splits)


lemma release_null: "pclass_release ops None st = Some st"
  by (subst pclass_release.simps) simp

theorem releasing_a_class_is_exact_witness:
  "case pclass_release endless_heap (Some 8) (demo_table, [], 158) of
     None \<Rightarrow> False
   | Some (cs', ev, h') \<Rightarrow> cs' 8 = None"
proof -
  have "0 < demo_ext 8" by (simp add: demo_ext_def)
  note released = releasing_a_class_is_exact [OF demo_table_reachable this]
  then obtain cs' ev h' where r: "pclass_release endless_heap (Some 8) (demo_table, [], 158) = Some (cs', ev, h')"
    by (cases "pclass_release endless_heap (Some 8) (demo_table, [], 158)") auto
  moreover have "\<exists>cs' ev h'. pclass_release endless_heap (Some 8) (demo_table, [], 158) = Some (cs', ev, h') \<and> cs' 8 = None"
    by (subst pclass_release.simps) (simp add: release_null demo_table_def demo_class_def empty_class_def
        release_values_def free_members_def free_names_def pa_destroy_def)
  ultimately show ?thesis by auto
qed

end
