(* ===== verification/PState.thy ===== *)
theory PState
  imports Pclass Gc IntOps Symbol
begin

text \<open>
  The interpreter state (\<open>src/state.h\<close>, \<open>src/state.c\<close>): the value stack, the frames, the
  tables of classes, functions and variables, and the pending error, together with the
  memory they point into.  The stack is the fixed array of the struct, with the count of
  the slots in use; the frames in use are a list, the innermost first.  Classes, objects,
  arrays, closures, iterators and modules are maps from addresses to records.  The calls of \<open>pv_retain\<close> and
  \<open>pv_release\<close>, of their counterparts for modules, and of a native finalizer are
  appended to a log, in their order: what a release that reaches zero sets off is the
  subject of \<open>Gc\<close> and of \<open>pobject_destroy\<close>.  The state is the root state
  (\<open>root_state == NULL\<close>).
\<close>

section \<open>Data\<close>

text \<open>
  A slot of the value stack: a value, or the null whose \<open>reserved[0]\<close> marks a variable that
  was never assigned.
\<close>

datatype cell = Cell pvalue | Undefined

fun cell_value :: "cell \<Rightarrow> pvalue" where
  "cell_value (Cell v) = v"
| "cell_value Undefined = PNull"

definition PPHP_STACK_SLOTS :: nat where "PPHP_STACK_SLOTS = 384"
definition PPHP_FRAME_MAX :: nat where "PPHP_FRAME_MAX = 48"

record pframe =
  fr_proto :: pproto
  fr_module :: "addr option"
  fr_pc :: nat
  fr_base :: nat
  fr_line :: u32
  fr_argument_count :: u8
  fr_all_globals :: bool
  fr_global_mask :: "u8 list"
  fr_static_mask :: "u8 list"
  fr_return_override :: pvalue
  fr_has_return_override :: bool
  fr_called_scope :: "addr option"
  fr_called_class :: "addr option"
  fr_owns_closure_context :: bool

text \<open>
  An object (\<open>src/pclass.h\<close>); \<open>ob_owned\<close> tells that \<open>owner_state\<close> is set, \<open>ob_written\<close> are
  the bytes after the slots.
\<close>

record pobject =
  ob_refcnt :: u16
  ob_flags :: u8
  ob_class :: addr
  ob_owned :: bool
  ob_prev :: "addr option"
  ob_next :: "addr option"
  ob_native_data :: "addr option"
  ob_native_finalizer :: "addr option"
  ob_slots :: "pvalue list"
  ob_written :: "u8 list"

text \<open>
  A closure (\<open>src/closure.h\<close>), with the values of the variables it captured, and the resource
  that iterates over an array (\<open>src/resource.h\<close>).
\<close>

record pclosure =
  co_refcnt :: u16
  co_flags :: u8
  co_proto :: pproto
  co_module :: "addr option"
  co_called_scope :: "addr option"
  co_called_class :: "addr option"
  co_captures :: "pvalue list"

record parray_iterator =
  it_refcnt :: u16
  it_flags :: u8
  it_array :: addr
  it_position :: nat

type_synonym object_heap = "addr \<Rightarrow> pobject option"
type_synonym array_heap = "addr \<Rightarrow> parray option"

datatype vm_event = Ev class_event | Finalize addr "addr option"

record 'h pphp_state =
  vm_heap :: 'h
  vm_classes :: pclass_heap
  vm_objects :: object_heap
  vm_arrays :: array_heap
  vm_closures :: "addr \<Rightarrow> pclosure option"
  vm_iterators :: "addr \<Rightarrow> parray_iterator option"
  vm_modules :: "addr \<Rightarrow> pmodule option"
  vm_gc :: gc_state
  vm_stack :: "cell list"
  vm_stack_count :: nat
  vm_frames :: "pframe list"
  vm_module :: "addr option"
  vm_repl_modules :: "addr list"
  vm_symbols :: psymbol_table
  vm_globals :: "parray option"
  vm_statics :: "parray option"
  vm_constants :: "parray option"
  vm_class_table_ptr :: "addr option"
  vm_class_table :: "addr list"
  vm_class_capacity :: nat
  vm_gc_objects :: "addr option"
  vm_runtime_functions_ptr :: "addr option"
  vm_runtime_functions :: "(pproto \<times> addr) list"
  vm_runtime_function_capacity :: nat
  vm_oom_exception :: "addr option"
  vm_output :: bytes
  vm_chunk_name :: "bytes option"
  vm_error_line :: u32
  vm_exit_requested :: bool
  vm_capture_halt_result :: bool
  vm_halt_result :: "pvalue option"
  vm_error :: bytes
  vm_raised_class :: bytes
  vm_log :: "vm_event list"

definition log_events :: "vm_event list \<Rightarrow> 'h pphp_state \<Rightarrow> 'h pphp_state" where
  "log_events ev s = s\<lparr>vm_log := vm_log s @ ev\<rparr>"

definition log_rc :: "rc_event list \<Rightarrow> 'h pphp_state \<Rightarrow> 'h pphp_state" where
  "log_rc ev s = log_events (map (\<lambda>e. Ev (Ref e)) ev) s"

lemma log_events_simps [simp]:
  "vm_heap (log_events ev s) = vm_heap s"
  "vm_classes (log_events ev s) = vm_classes s"
  "vm_objects (log_events ev s) = vm_objects s"
  "vm_arrays (log_events ev s) = vm_arrays s"
  "vm_closures (log_events ev s) = vm_closures s"
  "vm_iterators (log_events ev s) = vm_iterators s"
  "vm_modules (log_events ev s) = vm_modules s"
  "vm_gc (log_events ev s) = vm_gc s"
  "vm_stack (log_events ev s) = vm_stack s"
  "vm_stack_count (log_events ev s) = vm_stack_count s"
  "vm_frames (log_events ev s) = vm_frames s"
  "vm_module (log_events ev s) = vm_module s"
  "vm_repl_modules (log_events ev s) = vm_repl_modules s"
  "vm_symbols (log_events ev s) = vm_symbols s"
  "vm_globals (log_events ev s) = vm_globals s"
  "vm_statics (log_events ev s) = vm_statics s"
  "vm_constants (log_events ev s) = vm_constants s"
  "vm_class_table_ptr (log_events ev s) = vm_class_table_ptr s"
  "vm_class_table (log_events ev s) = vm_class_table s"
  "vm_class_capacity (log_events ev s) = vm_class_capacity s"
  "vm_gc_objects (log_events ev s) = vm_gc_objects s"
  "vm_runtime_functions_ptr (log_events ev s) = vm_runtime_functions_ptr s"
  "vm_runtime_functions (log_events ev s) = vm_runtime_functions s"
  "vm_runtime_function_capacity (log_events ev s) = vm_runtime_function_capacity s"
  "vm_oom_exception (log_events ev s) = vm_oom_exception s"
  "vm_output (log_events ev s) = vm_output s"
  "vm_chunk_name (log_events ev s) = vm_chunk_name s"
  "vm_error_line (log_events ev s) = vm_error_line s"
  "vm_exit_requested (log_events ev s) = vm_exit_requested s"
  "vm_capture_halt_result (log_events ev s) = vm_capture_halt_result s"
  "vm_halt_result (log_events ev s) = vm_halt_result s"
  "vm_error (log_events ev s) = vm_error s"
  "vm_raised_class (log_events ev s) = vm_raised_class s"
  "vm_log (log_events ev s) = vm_log s @ ev"
  by (simp_all add: log_events_def)

lemma log_rc_simps [simp]:
  "vm_heap (log_rc ev s) = vm_heap s"
  "vm_classes (log_rc ev s) = vm_classes s"
  "vm_objects (log_rc ev s) = vm_objects s"
  "vm_arrays (log_rc ev s) = vm_arrays s"
  "vm_closures (log_rc ev s) = vm_closures s"
  "vm_iterators (log_rc ev s) = vm_iterators s"
  "vm_modules (log_rc ev s) = vm_modules s"
  "vm_gc (log_rc ev s) = vm_gc s"
  "vm_stack (log_rc ev s) = vm_stack s"
  "vm_stack_count (log_rc ev s) = vm_stack_count s"
  "vm_frames (log_rc ev s) = vm_frames s"
  "vm_module (log_rc ev s) = vm_module s"
  "vm_repl_modules (log_rc ev s) = vm_repl_modules s"
  "vm_symbols (log_rc ev s) = vm_symbols s"
  "vm_globals (log_rc ev s) = vm_globals s"
  "vm_statics (log_rc ev s) = vm_statics s"
  "vm_constants (log_rc ev s) = vm_constants s"
  "vm_class_table_ptr (log_rc ev s) = vm_class_table_ptr s"
  "vm_class_table (log_rc ev s) = vm_class_table s"
  "vm_class_capacity (log_rc ev s) = vm_class_capacity s"
  "vm_gc_objects (log_rc ev s) = vm_gc_objects s"
  "vm_runtime_functions_ptr (log_rc ev s) = vm_runtime_functions_ptr s"
  "vm_runtime_functions (log_rc ev s) = vm_runtime_functions s"
  "vm_runtime_function_capacity (log_rc ev s) = vm_runtime_function_capacity s"
  "vm_oom_exception (log_rc ev s) = vm_oom_exception s"
  "vm_output (log_rc ev s) = vm_output s"
  "vm_chunk_name (log_rc ev s) = vm_chunk_name s"
  "vm_error_line (log_rc ev s) = vm_error_line s"
  "vm_exit_requested (log_rc ev s) = vm_exit_requested s"
  "vm_capture_halt_result (log_rc ev s) = vm_capture_halt_result s"
  "vm_halt_result (log_rc ev s) = vm_halt_result s"
  "vm_error (log_rc ev s) = vm_error s"
  "vm_raised_class (log_rc ev s) = vm_raised_class s"
  "vm_log (log_rc ev s) = vm_log s @ map (\<lambda>e. Ev (Ref e)) ev"
  by (simp_all add: log_rc_def)

section \<open>Output and errors\<close>

text \<open>
  \<open>%.*s\<close> prints the bytes up to the precision or the first NUL; a buffer of \<open>n\<close> bytes keeps
  the first \<open>n - 1\<close> of a text.
\<close>

definition fmt_string :: "bytes \<Rightarrow> bytes" where
  "fmt_string b = takeWhile (\<lambda>c. c \<noteq> CHR 0x00) b"

definition fits :: "nat \<Rightarrow> bytes \<Rightarrow> bytes" where
  "fits n b = take (n - 1) b"

definition newline :: bytes where "newline = [CHR 0x0A]"

definition pphp_output :: "bytes \<Rightarrow> 'h pphp_state \<Rightarrow> 'h pphp_state" where
  "pphp_output b s = s\<lparr>vm_output := vm_output s @ b\<rparr>"

definition pphp_warning :: "u32 \<Rightarrow> bytes \<Rightarrow> 'h pphp_state \<Rightarrow> 'h pphp_state" where
  "pphp_warning line message s =
     (let line = (if line = 0 then (case vm_frames s of [] \<Rightarrow> line | f # _ \<Rightarrow> fr_line f) else line);
          prefix = ''Warning: '';
          used = prefix @ fits (320 - length prefix - 32) message
      in pphp_output (used @ fits (320 - length used)
           ('' on line '' @ decimal (unat line) @ newline)) s)"

definition sizeof_error :: nat where "sizeof_error = 256"

definition pphp_runtime_error :: "u32 \<Rightarrow> bytes \<Rightarrow> 'h pphp_state \<Rightarrow> 'h pphp_state" where
  "pphp_runtime_error line message s =
     (if vm_error s \<noteq> [] then s
      else s\<lparr>vm_error := fits sizeof_error message, vm_error_line := line\<rparr>)"

section \<open>Classes and functions by name\<close>

definition class_name_equal :: "pstring \<Rightarrow> bytes \<Rightarrow> bool" where
  "class_name_equal name other \<longleftrightarrow>
     (if ps_length name \<noteq> length other then False
      else list_all2 (\<lambda>a b. fold_byte a = fold_byte b) (ps_data name) other)"

definition function_name_equal :: "pstring \<Rightarrow> pstring \<Rightarrow> bool" where
  "function_name_equal left right \<longleftrightarrow>
     (if ps_length left \<noteq> ps_length right then False
      else list_all2 (\<lambda>a b. fold_byte a = fold_byte b) (ps_data left) (ps_data right))"

fun find_class_from :: "pclass_heap \<Rightarrow> addr list \<Rightarrow> bytes \<Rightarrow> addr option option" where
  "find_class_from classes [] name = Some None"
| "find_class_from classes (a # as) name =
     (case classes a of
        None \<Rightarrow> None
      | Some k \<Rightarrow>
          if class_name_equal (cl_name k) name then Some (Some a)
          else find_class_from classes as name)"

definition pphp_find_class :: "bytes \<Rightarrow> 'h pphp_state \<Rightarrow> addr option option" where
  "pphp_find_class name s = find_class_from (vm_classes s) (vm_class_table s) name"

definition pphp_register_class ::
  "'h heap_ops \<Rightarrow> addr option \<Rightarrow> 'h pphp_state \<Rightarrow> (bool \<times> 'h pphp_state) option" where
  "pphp_register_class ops c s =
     (case c of
        None \<Rightarrow> Some (False, s)
      | Some a \<Rightarrow> do {
          k \<leftarrow> vm_classes s a;
          found \<leftarrow> pphp_find_class (ps_data (cl_name k)) s;
          if found \<noteq> None then Some (False, s)
          else if length (vm_class_table s) = vm_class_capacity s then
            (let capacity = (if vm_class_capacity s = 0 then 8 else vm_class_capacity s * 2)
             in case h_realloc ops (vm_class_table_ptr s) (capacity * sizeof_ptr) (vm_heap s) of
                  (None, h) \<Rightarrow> Some (False, s\<lparr>vm_heap := h\<rparr>)
                | (Some p, h) \<Rightarrow>
                    Some (True, s\<lparr>vm_heap := h, vm_class_table_ptr := Some p,
                                  vm_class_capacity := capacity,
                                  vm_class_table := vm_class_table s @ [a]\<rparr>))
          else Some (True, s\<lparr>vm_class_table := vm_class_table s @ [a]\<rparr>)
        })"

fun find_runtime :: "(pproto \<times> addr) list \<Rightarrow> pstring \<Rightarrow> (pproto \<times> addr) option" where
  "find_runtime [] name = None"
| "find_runtime (entry # entries) name =
     (if function_name_equal (pp_name (fst entry)) name then Some entry
      else find_runtime entries name)"

fun find_repl ::
  "(addr \<Rightarrow> pmodule option) \<Rightarrow> addr option \<Rightarrow> addr list \<Rightarrow> pstring \<Rightarrow> (pproto \<times> addr) option option" where
  "find_repl modules current [] name = Some None"
| "find_repl modules current (m # ms) name =
     (if Some m = current then find_repl modules current ms name
      else
        (case modules m of
           None \<Rightarrow> None
         | Some module \<Rightarrow>
             (case pmodule_find module name of
                Some proto \<Rightarrow> Some (Some (proto, m))
              | None \<Rightarrow> find_repl modules current ms name)))"

definition pphp_find_function :: "pstring \<Rightarrow> 'h pphp_state \<Rightarrow> (pproto \<times> addr) option option" where
  "pphp_find_function name s =
     (case find_runtime (rev (vm_runtime_functions s)) name of
        Some entry \<Rightarrow> Some (Some entry)
      | None \<Rightarrow>
          (case vm_module s of
             None \<Rightarrow> find_repl (vm_modules s) None (rev (vm_repl_modules s)) name
           | Some m \<Rightarrow>
               (case vm_modules s m of
                  None \<Rightarrow> None
                | Some module \<Rightarrow>
                    (case pmodule_find module name of
                       Some proto \<Rightarrow> Some (Some (proto, m))
                     | None \<Rightarrow> find_repl (vm_modules s) (Some m) (rev (vm_repl_modules s)) name))))"

definition sizeof_runtime_function :: nat where "sizeof_runtime_function = 16"

definition pphp_register_runtime_function ::
  "'h heap_ops \<Rightarrow> pproto \<Rightarrow> addr \<Rightarrow> 'h pphp_state \<Rightarrow> bool \<times> 'h pphp_state" where
  "pphp_register_runtime_function ops proto module s =
     (let store = (\<lambda>s. (True, log_events [Ev (RetainModule (Some module))]
                  (s\<lparr>vm_runtime_functions := vm_runtime_functions s @ [(proto, module)]\<rparr>)))
      in if 512 \<le> length (vm_runtime_functions s) then (False, s)
         else if length (vm_runtime_functions s) = vm_runtime_function_capacity s then
           (let capacity = (if vm_runtime_function_capacity s = 0 then 8
                            else vm_runtime_function_capacity s * 2)
            in case h_realloc ops (vm_runtime_functions_ptr s)
                      (capacity * sizeof_runtime_function) (vm_heap s) of
                 (None, h) \<Rightarrow> (False, s\<lparr>vm_heap := h\<rparr>)
               | (Some p, h) \<Rightarrow>
                   store (s\<lparr>vm_heap := h, vm_runtime_functions_ptr := Some p,
                            vm_runtime_function_capacity := capacity\<rparr>))
         else store s)"

definition pphp_remove_module_functions :: "addr \<Rightarrow> 'h pphp_state \<Rightarrow> 'h pphp_state" where
  "pphp_remove_module_functions module s =
     (let (kept, removed) = partition (\<lambda>f. snd f \<noteq> module) (vm_runtime_functions s)
      in log_events (map (\<lambda>_. Ev (ReleaseModule (Some module))) removed)
           (s\<lparr>vm_runtime_functions := kept\<rparr>))"

end
