(* ===== verification/Pobject.thy ===== *)
theory Pobject
  imports PState
begin

text \<open>
  Objects (the second half of \<open>src/pclass.c\<close>): creation, cloning, the written flags, the
  destructor and destruction.  Every object of a state is linked into its list
  \<open>gc_objects\<close>.  A block that the allocator hands out is not the address of an object or an
  array in use; where it would be, the operations have no result.  The state's \<open>invoke\<close> function is a pointer that the embedding sets, here
  a parameter.
\<close>

unbundle bit_operations_syntax

definition sizeof_pobject :: nat where "sizeof_pobject = 56"

text \<open>Linking an object in front of \<open>gc_objects\<close>, and taking it out.\<close>

definition link_object :: "addr \<Rightarrow> 'h pphp_state \<Rightarrow> 'h pphp_state option" where
  "link_object a s =
     (case vm_gc_objects s of
        None \<Rightarrow> Some (s\<lparr>vm_gc_objects := Some a\<rparr>)
      | Some first \<Rightarrow> do {
          ob \<leftarrow> vm_objects s first;
          Some (s\<lparr>vm_objects := (vm_objects s)(first \<mapsto> ob\<lparr>ob_prev := Some a\<rparr>),
                  vm_gc_objects := Some a\<rparr>)
        })"

definition unlink_object :: "pobject \<Rightarrow> 'h pphp_state \<Rightarrow> 'h pphp_state option" where
  "unlink_object ob s = do {
     s \<leftarrow> (case ob_prev ob of
            None \<Rightarrow> Some (s\<lparr>vm_gc_objects := ob_next ob\<rparr>)
          | Some p \<Rightarrow> do {
              before \<leftarrow> vm_objects s p;
              Some (s\<lparr>vm_objects := (vm_objects s)(p \<mapsto> before\<lparr>ob_next := ob_next ob\<rparr>)\<rparr>)
            });
     (case ob_next ob of
        None \<Rightarrow> Some s
      | Some n \<Rightarrow> do {
          after \<leftarrow> vm_objects s n;
          Some (s\<lparr>vm_objects := (vm_objects s)(n \<mapsto> after\<lparr>ob_prev := ob_prev ob\<rparr>)\<rparr>)
        })
   }"

definition pobject_new ::
  "'h heap_ops \<Rightarrow> bool \<Rightarrow> addr option \<Rightarrow> 'h pphp_state \<Rightarrow> (addr option \<times> 'h pphp_state) option" where
  "pobject_new ops with_state c s =
     (case c of
        None \<Rightarrow> Some (None, s)
      | Some ca \<Rightarrow> do {
          k \<leftarrow> vm_classes s ca;
          if cl_flags k AND (PC_ABSTRACT OR PC_INTERFACE) \<noteq> 0 then Some (None, s)
          else
            (let count = length (cl_properties k)
             in case h_alloc ops (sizeof_pobject + count * sizeof_pvalue + count) (vm_heap s) of
                  (None, h) \<Rightarrow> Some (None, s\<lparr>vm_heap := h\<rparr>)
                | (Some a, h) \<Rightarrow>
                    if vm_objects s a \<noteq> None then None
                    else do {
                    classes \<leftarrow> pclass_retain_runtime (Some ca) (vm_classes s);
                    let defaults = map pr_default (cl_properties k);
                    let ob = \<lparr>ob_refcnt = 1, ob_flags = 0, ob_class = ca, ob_owned = with_state,
                              ob_prev = None,
                              ob_next = (if with_state then vm_gc_objects s else None),
                              ob_native_data = None, ob_native_finalizer = None,
                              ob_slots = defaults, ob_written = replicate count 0\<rparr>;
                    let s = s\<lparr>vm_heap := h, vm_classes := classes,
                              vm_objects := (vm_objects s)(a \<mapsto> ob)\<rparr>;
                    s \<leftarrow> (if with_state then link_object a s else Some s);
                    Some (Some a, log_rc (Create (PObject a) # map Retain defaults) s)
                  })
        })"

text \<open>The loop that replaces the slots of a copy: \<open>pv_release\<close>, assignment, \<open>pv_retain\<close>.\<close>

definition pobject_clone ::
  "'h heap_ops \<Rightarrow> addr option \<Rightarrow> 'h pphp_state \<Rightarrow> (addr option \<times> 'h pphp_state) option" where
  "pobject_clone ops source s =
     (case source of
        None \<Rightarrow> Some (None, s)
      | Some sa \<Rightarrow> do {
          src \<leftarrow> vm_objects s sa;
          (copy, s) \<leftarrow> pobject_new ops (ob_owned src) (Some (ob_class src)) s;
          (case copy of
             None \<Rightarrow> Some (None, s)
           | Some a \<Rightarrow> do {
               k \<leftarrow> vm_classes s (ob_class src);
               src \<leftarrow> vm_objects s sa;
               ob \<leftarrow> vm_objects s a;
               let count = length (cl_properties k);
               let slots = take count (ob_slots src);
               Some (Some a, log_rc (concat (map2 (\<lambda>old v. [Release old, Retain v]) (ob_slots ob) slots))
                 (s\<lparr>vm_objects := (vm_objects s)(a \<mapsto> ob\<lparr>ob_slots := slots @ drop count (ob_slots ob),
                     ob_written := take count (ob_written src) @ drop count (ob_written ob)\<rparr>)\<rparr>))
             })
        })"

definition pobject_property_written :: "addr option \<Rightarrow> u8 \<Rightarrow> 'h pphp_state \<Rightarrow> bool option" where
  "pobject_property_written object slot s =
     (case object of
        None \<Rightarrow> Some False
      | Some a \<Rightarrow> do {
          ob \<leftarrow> vm_objects s a;
          k \<leftarrow> vm_classes s (ob_class ob);
          if length (cl_properties k) \<le> unat slot then Some False
          else do { w \<leftarrow> rd (ob_written ob) (unat slot); Some (w \<noteq> 0) }
        })"

definition pobject_mark_property_written ::
  "addr option \<Rightarrow> u8 \<Rightarrow> 'h pphp_state \<Rightarrow> 'h pphp_state option" where
  "pobject_mark_property_written object slot s =
     (case object of
        None \<Rightarrow> Some s
      | Some a \<Rightarrow> do {
          ob \<leftarrow> vm_objects s a;
          k \<leftarrow> vm_classes s (ob_class ob);
          if length (cl_properties k) \<le> unat slot then Some s
          else do {
            w \<leftarrow> rd (ob_written ob) (unat slot);
            Some (s\<lparr>vm_objects := (vm_objects s)(a \<mapsto>
              ob\<lparr>ob_written := (ob_written ob)[unat slot := 1]\<rparr>)\<rparr>)
          }
        })"

section \<open>The destructor\<close>

text \<open>The invocation returns whether it succeeded and the result it stored.\<close>

type_synonym 'h invoke_function =
  "pvalue \<Rightarrow> pvalue list \<Rightarrow> 'h pphp_state \<Rightarrow> (bool \<times> pvalue \<times> 'h pphp_state) option"

definition set_object :: "addr \<Rightarrow> (pobject \<Rightarrow> pobject) \<Rightarrow> 'h pphp_state \<Rightarrow> 'h pphp_state option" where
  "set_object a f s = do {
     ob \<leftarrow> vm_objects s a;
     Some (s\<lparr>vm_objects := (vm_objects s)(a \<mapsto> f ob)\<rparr>)
   }"

text \<open>\<open>ps_new\<close> and \<open>pa_new\<close>: the caller owns the reference.\<close>

definition new_string :: "'h heap_ops \<Rightarrow> bytes \<Rightarrow> 'h pphp_state \<Rightarrow> pstring option \<times> 'h pphp_state" where
  "new_string ops b s =
     (case ps_new ops b (vm_heap s) of
        (None, h) \<Rightarrow> (None, s\<lparr>vm_heap := h\<rparr>)
      | (Some str, h) \<Rightarrow> (Some str, log_rc [Create (PString str)] (s\<lparr>vm_heap := h\<rparr>)))"

definition new_array ::
  "'h heap_ops \<Rightarrow> nat \<Rightarrow> 'h pphp_state \<Rightarrow> (addr option \<times> 'h pphp_state) option" where
  "new_array ops hint s =
     (case pa_new ops hint (vm_heap s) of
        (None, h) \<Rightarrow> Some (None, s\<lparr>vm_heap := h\<rparr>)
      | (Some a, h) \<Rightarrow>
          if vm_arrays s (pa_addr a) \<noteq> None then None
          else Some (Some (pa_addr a), log_rc [Create (PArray (pa_addr a))]
             (s\<lparr>vm_heap := h, vm_arrays := (vm_arrays s)(pa_addr a \<mapsto> a)\<rparr>)))"

definition array_push ::
  "'h heap_ops \<Rightarrow> addr \<Rightarrow> pvalue \<Rightarrow> 'h pphp_state \<Rightarrow> (bool \<times> 'h pphp_state) option" where
  "array_push ops a v s = do {
     arr \<leftarrow> vm_arrays s a;
     (ok, arr, ev, h) \<leftarrow> pa_push ops (Some arr) v (vm_heap s);
     (case arr of
        None \<Rightarrow> None
      | Some arr \<Rightarrow>
          Some (ok, log_rc ev (s\<lparr>vm_heap := h, vm_arrays := (vm_arrays s)(a \<mapsto> arr)\<rparr>)))
   }"

text \<open>
  The condition of the call: both parts exist and could be pushed.  The operands of \<open>&&\<close>
  are evaluated from the left.
\<close>

definition build_callable ::
  "'h heap_ops \<Rightarrow> addr \<Rightarrow> pstring option \<Rightarrow> addr option \<Rightarrow> 'h pphp_state \<Rightarrow> (bool \<times> 'h pphp_state) option" where
  "build_callable ops object method_name callable s =
     (case (method_name, callable) of
        (Some name, Some arr) \<Rightarrow> do {
          (ok, s) \<leftarrow> array_push ops arr (PObject object) s;
          if ok then array_push ops arr (PString name) s else Some (False, s)
        }
      | _ \<Rightarrow> Some (False, s))"

definition release_option :: "('a \<Rightarrow> pvalue) \<Rightarrow> 'a option \<Rightarrow> 'h pphp_state \<Rightarrow> 'h pphp_state" where
  "release_option f r s = (case r of None \<Rightarrow> s | Some x \<Rightarrow> log_rc [Release (f x)] s)"

definition guard_object :: "bool \<Rightarrow> u16 \<Rightarrow> addr \<Rightarrow> 'h pphp_state \<Rightarrow> 'h pphp_state option" where
  "guard_object needs_guard n a s =
     (if needs_guard then set_object a (\<lambda>ob. ob\<lparr>ob_refcnt := n\<rparr>) s else Some s)"

definition call_destructor ::
  "'h heap_ops \<Rightarrow> 'h invoke_function option \<Rightarrow> addr \<Rightarrow> pstring option \<Rightarrow> addr option \<Rightarrow>
     'h pphp_state \<Rightarrow> 'h pphp_state option" where
  "call_destructor ops invoke a method_name callable s =
     (case invoke of
        None \<Rightarrow> Some s
      | Some call \<Rightarrow> do {
          (ok, s) \<leftarrow> build_callable ops a method_name callable s;
          (case (ok, callable) of
             (True, Some arr) \<Rightarrow> do {
               (_, ignored, s) \<leftarrow> call (PArray arr) [] s;
               Some (log_rc [Release ignored] s)
             }
           | _ \<Rightarrow> Some s)
        })"

text \<open>
  The object counts as destroyed from here on, and an object without references gets one for
  the duration of the call.  The pending error is the one of before.
\<close>

definition run_destructor_method ::
  "'h heap_ops \<Rightarrow> 'h invoke_function option \<Rightarrow> addr \<Rightarrow> 'h pphp_state \<Rightarrow> 'h pphp_state option" where
  "run_destructor_method ops invoke a s = do {
     ob \<leftarrow> vm_objects s a;
     let needs_guard = (ob_refcnt ob = 0);
     let saved_error = fits 256 (vm_error s);
     let saved_line = vm_error_line s;
     let (method_name, s) = new_string ops ''__destruct'' s;
     (callable, s) \<leftarrow> new_array ops 2 s;
     s \<leftarrow> set_object a (\<lambda>ob. ob\<lparr>ob_flags := ob_flags ob OR 0x80\<rparr>) s;
     s \<leftarrow> guard_object needs_guard 1 a s;
     s \<leftarrow> call_destructor ops invoke a method_name callable s;
     s \<leftarrow> guard_object needs_guard 0 a
       (release_option PString method_name (release_option PArray callable s));
     Some (s\<lparr>vm_error := fits 256 saved_error, vm_error_line := saved_line\<rparr>)
   }"

definition pobject_run_destructor ::
  "'h heap_ops \<Rightarrow> 'h invoke_function option \<Rightarrow> addr option \<Rightarrow> 'h pphp_state \<Rightarrow>
     (bool \<times> 'h pphp_state) option" where
  "pobject_run_destructor ops invoke object s =
     (case object of
        None \<Rightarrow> Some (False, s)
      | Some a \<Rightarrow> do {
          ob \<leftarrow> vm_objects s a;
          if \<not> ob_owned ob \<or> ob_flags ob AND 0xc0 \<noteq> 0 then Some (False, s)
          else do {
            destructor \<leftarrow> pclass_find_method (vm_classes s) ''__destruct'' (Some (ob_class ob));
            (case destructor of
               None \<Rightarrow> Some (False, s)
             | Some m \<Rightarrow>
                 if me_flags m AND PC_STATIC \<noteq> 0 then Some (False, s)
                 else do { s \<leftarrow> run_destructor_method ops invoke a s; Some (True, s) })
          }
        })"

section \<open>Destruction\<close>

definition gc_unbuffer_object :: "addr \<Rightarrow> 'h pphp_state \<Rightarrow> 'h pphp_state option" where
  "gc_unbuffer_object a s = do {
     ob \<leftarrow> vm_objects s a;
     if ob_flags ob AND PPHP_GC_BUFFERED = 0 then Some s
     else Some (s\<lparr>vm_objects := (vm_objects s)(a \<mapsto> ob\<lparr>ob_flags := ob_flags ob AND NOT PPHP_GC_BUFFERED\<rparr>),
                  vm_gc := (vm_gc s)\<lparr>gs_candidates := remove_candidate a (gs_candidates (vm_gc s))\<rparr>\<rparr>)
   }"

definition finalize_native :: "'h heap_ops \<Rightarrow> pobject \<Rightarrow> 'h pphp_state \<Rightarrow> 'h pphp_state" where
  "finalize_native ops ob s =
     (let s = (case ob_native_finalizer ob of
                 None \<Rightarrow> s
               | Some f \<Rightarrow> log_events [Finalize f (ob_native_data ob)] s)
      in s\<lparr>vm_heap := h_free ops (ob_native_data ob) (vm_heap s)\<rparr>)"

text \<open>The slots, the object itself, and its reference to the class.\<close>

definition free_object ::
  "'h heap_ops \<Rightarrow> addr \<Rightarrow> addr \<Rightarrow> pobject \<Rightarrow> 'h pphp_state \<Rightarrow> 'h pphp_state option" where
  "free_object ops a c ob s = do {
     k \<leftarrow> vm_classes s c;
     let s = log_rc (map Release (take (length (cl_properties k)) (ob_slots ob)))
       (s\<lparr>vm_objects := (vm_objects s)(a := None)\<rparr>);
     let s = s\<lparr>vm_heap := h_free ops (Some a) (vm_heap s)\<rparr>;
     (classes, ev, h) \<leftarrow> pclass_release_runtime ops (Some c) (vm_classes s, [], vm_heap s);
     Some (log_events (map Ev ev) (s\<lparr>vm_classes := classes, vm_heap := h\<rparr>))
   }"

definition pobject_destroy ::
  "'h heap_ops \<Rightarrow> 'h invoke_function option \<Rightarrow> addr option \<Rightarrow> 'h pphp_state \<Rightarrow> 'h pphp_state option" where
  "pobject_destroy ops invoke object s =
     (case object of
        None \<Rightarrow> Some s
      | Some a \<Rightarrow> do {
          first \<leftarrow> vm_objects s a;
          s \<leftarrow> gc_unbuffer_object a s;
          (_, s) \<leftarrow> pobject_run_destructor ops invoke (Some a) s;
          ob \<leftarrow> vm_objects s a;
          s \<leftarrow> (if ob_owned ob then unlink_object ob s else Some s);
          free_object ops a (ob_class first) ob (finalize_native ops ob s)
        })"

end
