(* ===== verification/Exceptions.thy ===== *)
theory Exceptions
  imports Pobject
begin

text \<open>
  Exceptions (\<open>src/exception.c\<close>): the built-in classes and their registration with its
  rollback, and the fields of an exception object.
\<close>

unbundle bit_operations_syntax

section \<open>Classes through the state\<close>

definition with_class_result ::
  "(bool \<times> pclass_heap \<times> class_event list \<times> 'h) option \<Rightarrow> 'h pphp_state \<Rightarrow> (bool \<times> 'h pphp_state) option" where
  "with_class_result r s = do {
     (ok, classes, ev, h) \<leftarrow> r;
     Some (ok, log_events (map Ev ev) (s\<lparr>vm_classes := classes, vm_heap := h\<rparr>))
   }"

definition state_destroy_class ::
  "'h heap_ops \<Rightarrow> addr option \<Rightarrow> 'h pphp_state \<Rightarrow> 'h pphp_state option" where
  "state_destroy_class ops c s = do {
     (classes, ev, h) \<leftarrow> pclass_destroy ops c (vm_classes s, [], vm_heap s);
     Some (log_events (map Ev ev) (s\<lparr>vm_classes := classes, vm_heap := h\<rparr>))
   }"

text \<open>
  \<open>class_entry->persistent\<close> is read only by the shell's class cleanup and is not part of the
  class record.
\<close>

definition register_builtin_class ::
  "'h heap_ops \<Rightarrow> bytes \<Rightarrow> addr option \<Rightarrow> u8 \<Rightarrow> 'h pphp_state \<Rightarrow> (addr option \<times> 'h pphp_state) option" where
  "register_builtin_class ops name parent flags s = do {
     (c, classes, ev, h) \<leftarrow> pclass_new ops name parent flags (vm_classes s) (vm_heap s);
     let s = log_events (map Ev ev) (s\<lparr>vm_classes := classes, vm_heap := h\<rparr>);
     (ok, s) \<leftarrow> pphp_register_class ops c s;
     if ok then Some (c, s)
     else do { s \<leftarrow> state_destroy_class ops c s; Some (None, s) }
   }"

definition add_property ::
  "'h heap_ops \<Rightarrow> addr option \<Rightarrow> bytes \<Rightarrow> pvalue \<Rightarrow> 'h pphp_state \<Rightarrow> (bool \<times> 'h pphp_state) option" where
  "add_property ops c name default_value s = do {
     (added, s) \<leftarrow> with_class_result
       (pclass_add_property ops c name PC_PROTECTED default_value (vm_classes s) (vm_heap s)) s;
     Some (added, log_rc [Release default_value] s)
   }"

definition add_string_property ::
  "'h heap_ops \<Rightarrow> addr option \<Rightarrow> bytes \<Rightarrow> 'h pphp_state \<Rightarrow> (bool \<times> 'h pphp_state) option" where
  "add_string_property ops c name s =
     (case new_string ops [] s of
        (None, s) \<Rightarrow> Some (False, s)
      | (Some str, s) \<Rightarrow> add_property ops c name (PString str) s)"

text \<open>The calls that \<open>&&\<close> joins.\<close>

fun all_calls :: "('s \<Rightarrow> (bool \<times> 's) option) list \<Rightarrow> 's \<Rightarrow> (bool \<times> 's) option" where
  "all_calls [] s = Some (True, s)"
| "all_calls (f # fs) s = do {
     (ok, s) \<leftarrow> f s;
     if ok then all_calls fs s else Some (False, s)
   }"

definition add_exception_properties ::
  "'h heap_ops \<Rightarrow> addr option \<Rightarrow> 'h pphp_state \<Rightarrow> (bool \<times> 'h pphp_state) option" where
  "add_exception_properties ops c s =
     all_calls
       [add_string_property ops c ''message'',
        add_property ops c ''code'' (PInt 0),
        add_string_property ops c ''file'',
        add_property ops c ''line'' (PInt 0),
        add_string_property ops c ''trace''] s"

section \<open>Exception objects\<close>

text \<open>A field is a pointer to a slot of the object: here the index of the slot.\<close>

definition pphp_exception_field :: "addr option \<Rightarrow> bytes \<Rightarrow> 'h pphp_state \<Rightarrow> nat option option" where
  "pphp_exception_field object name s =
     (case object of
        None \<Rightarrow> Some None
      | Some a \<Rightarrow> do {
          ob \<leftarrow> vm_objects s a;
          property \<leftarrow> pclass_find_property (Some (ob_class ob)) name (vm_classes s);
          Some (map_option (\<lambda>p. unat (pr_slot p)) property)
        })"

definition field_value :: "addr option \<Rightarrow> bytes \<Rightarrow> 'h pphp_state \<Rightarrow> pvalue option option" where
  "field_value object name s = do {
     field \<leftarrow> pphp_exception_field object name s;
     (case (field, object) of
        (Some i, Some a) \<Rightarrow> do {
          ob \<leftarrow> vm_objects s a;
          v \<leftarrow> rd (ob_slots ob) i;
          Some (Some v)
        }
      | _ \<Rightarrow> Some None)
   }"

definition pphp_exception_message :: "addr option \<Rightarrow> 'h pphp_state \<Rightarrow> pstring option option" where
  "pphp_exception_message object s = do {
     v \<leftarrow> field_value object ''message'' s;
     Some (case v of Some (PString str) \<Rightarrow> Some str | _ \<Rightarrow> None)
   }"

definition store_slot :: "addr \<Rightarrow> nat \<Rightarrow> pvalue \<Rightarrow> 'h pphp_state \<Rightarrow> 'h pphp_state option" where
  "store_slot a i v s = do {
     ob \<leftarrow> vm_objects s a;
     old \<leftarrow> rd (ob_slots ob) i;
     Some (log_rc [Release old]
       (s\<lparr>vm_objects := (vm_objects s)(a \<mapsto> ob\<lparr>ob_slots := (ob_slots ob)[i := v]\<rparr>)\<rparr>))
   }"

definition set_field :: "addr \<Rightarrow> bytes \<Rightarrow> pvalue \<Rightarrow> 'h pphp_state \<Rightarrow> 'h pphp_state option" where
  "set_field a name v s = do {
     ob \<leftarrow> vm_objects s a;
     property \<leftarrow> pclass_find_property (Some (ob_class ob)) name (vm_classes s);
     (case property of
        None \<Rightarrow> Some (log_rc [Release v] s)
      | Some p \<Rightarrow> store_slot a (unat (pr_slot p)) v s)
   }"

definition pphp_exception_set_location ::
  "'h heap_ops \<Rightarrow> addr option \<Rightarrow> bytes option \<Rightarrow> u32 \<Rightarrow> 'h pphp_state \<Rightarrow> 'h pphp_state option" where
  "pphp_exception_set_location ops object file line s =
     (case object of
        None \<Rightarrow> Some s
      | Some a \<Rightarrow>
          let file = (case file of None \<Rightarrow> ''<source>'' | Some f \<Rightarrow> f) in do {
            s \<leftarrow> (case new_string ops file s of
                    (None, s) \<Rightarrow> Some s
                  | (Some str, s) \<Rightarrow> set_field a ''file'' (PString str) s);
            set_field a ''line'' (PInt line) s
          })"

definition pphp_exception_set_code ::
  "addr option \<Rightarrow> pphp_int \<Rightarrow> 'h pphp_state \<Rightarrow> 'h pphp_state option" where
  "pphp_exception_set_code object code s =
     (case object of None \<Rightarrow> Some s | Some a \<Rightarrow> set_field a ''code'' (PInt code) s)"

text \<open>
  The failing path destroys the string and the object directly; with that, the references
  that their creation gave end, which the log records as releases.
\<close>

definition pphp_exception_new ::
  "'h heap_ops \<Rightarrow> 'h invoke_function option \<Rightarrow> bytes \<Rightarrow> bytes option \<Rightarrow> 'h pphp_state \<Rightarrow>
     (addr option \<times> 'h pphp_state) option" where
  "pphp_exception_new ops invoke class_name message s = do {
     c \<leftarrow> pphp_find_class class_name s;
     (object, s) \<leftarrow> (case c of None \<Rightarrow> Some (None, s) | Some k \<Rightarrow> pobject_new ops True (Some k) s);
     (case object of
        None \<Rightarrow> Some (None, s)
      | Some a \<Rightarrow> do {
          property \<leftarrow> pclass_find_property c ''message'' (vm_classes s);
          let (str, s) = new_string ops (case message of None \<Rightarrow> [] | Some m \<Rightarrow> m) s;
          (case (property, str) of
             (Some p, Some str) \<Rightarrow> do {
               s \<leftarrow> store_slot a (unat (pr_slot p)) (PString str) s;
               s \<leftarrow> pphp_exception_set_location ops (Some a)
                      (Some (case vm_chunk_name s of None \<Rightarrow> ''<source>'' | Some n \<Rightarrow> n))
                      (vm_error_line s) s;
               Some (Some a, s)
             }
           | _ \<Rightarrow> do {
               let s = (case str of
                          None \<Rightarrow> s
                        | Some x \<Rightarrow> log_rc [Release (PString x)]
                                      (s\<lparr>vm_heap := ps_destroy ops (Some x) (vm_heap s)\<rparr>));
               s \<leftarrow> pobject_destroy ops invoke (Some a) s;
               Some (None, log_rc [Release (PObject a)] s)
             })
        })
   }"

definition pphp_object_is_throwable :: "addr option \<Rightarrow> 'h pphp_state \<Rightarrow> bool option" where
  "pphp_object_is_throwable object s = do {
     throwable \<leftarrow> pphp_find_class ''Throwable'' s;
     (case (object, throwable) of
        (Some a, Some t) \<Rightarrow> do {
          ob \<leftarrow> vm_objects s a;
          pclass_is_a (vm_classes s) (Some t) (Some (ob_class ob))
        }
      | _ \<Rightarrow> Some False)
   }"

text \<open>
  The trace: one line per frame, the innermost first, while it fits into a buffer of 512
  bytes.  A line that does not fit is cut, and ends the loop.
\<close>

definition trace_line :: "bytes \<Rightarrow> nat \<Rightarrow> pframe \<Rightarrow> bytes" where
  "trace_line chunk n frame =
     ''#'' @ decimal n @ '' '' @ chunk @ '':'' @ decimal (unat (fr_line frame)) @ '' '' @
     fmt_string (ps_data (pp_name (fr_proto frame))) @ ''()'' @ newline"

fun trace_loop :: "bytes \<Rightarrow> nat \<Rightarrow> pframe list \<Rightarrow> bytes \<Rightarrow> bytes" where
  "trace_loop chunk n [] buffer = buffer"
| "trace_loop chunk n (frame # frames) buffer =
     (if 512 \<le> length buffer then buffer
      else
        let line = trace_line chunk n frame
        in if 512 - length buffer \<le> length line
           then buffer @ fits (512 - length buffer) line
           else trace_loop chunk (n + 1) frames (buffer @ line))"

definition pphp_exception_capture_trace ::
  "'h heap_ops \<Rightarrow> addr option \<Rightarrow> 'h pphp_state \<Rightarrow> 'h pphp_state option" where
  "pphp_exception_capture_trace ops object s = do {
     existing \<leftarrow> field_value object ''trace'' s;
     (case object of
        None \<Rightarrow> Some s
      | Some a \<Rightarrow>
          if (case existing of Some (PString str) \<Rightarrow> ps_length str \<noteq> 0 | _ \<Rightarrow> False) then Some s
          else
            let chunk = (case vm_chunk_name s of None \<Rightarrow> ''<source>'' | Some n \<Rightarrow> n)
            in (case new_string ops (trace_loop chunk 0 (vm_frames s) []) s of
                  (None, s) \<Rightarrow> Some s
                | (Some str, s) \<Rightarrow> set_field a ''trace'' (PString str) s))
   }"

section \<open>Registration of the built-in classes\<close>

text \<open>
  Where the registration fails, the classes added so far lose their values, the collector
  runs (its effect is the subject of \<open>Gc\<close>), and they are released, the last first.
\<close>

definition release_class_values ::
  "'h heap_ops \<Rightarrow> addr \<Rightarrow> 'h pphp_state \<Rightarrow> 'h pphp_state option" where
  "release_class_values ops c s = do {
     (classes, ev, h) \<leftarrow> pclass_release_values ops (Some c) (vm_classes s) (vm_heap s);
     Some (log_events (map Ev ev) (s\<lparr>vm_classes := classes, vm_heap := h\<rparr>))
   }"

definition rollback_exception_runtime ::
  "'h heap_ops \<Rightarrow> nat \<Rightarrow> addr option \<Rightarrow> 'h pphp_state \<Rightarrow> 'h pphp_state option" where
  "rollback_exception_runtime ops class_checkpoint oom_checkpoint s = do {
     let s = (if vm_oom_exception s \<noteq> oom_checkpoint then
                (case vm_oom_exception s of None \<Rightarrow> s | Some a \<Rightarrow> log_rc [Release (PObject a)] s)
                \<lparr>vm_oom_exception := oom_checkpoint\<rparr>
              else s);
     let added = drop class_checkpoint (vm_class_table s);
     s \<leftarrow> fold_m (release_class_values ops) added s;
     s \<leftarrow> fold_m (\<lambda>c. state_destroy_class ops (Some c)) (rev added) s;
     Some (s\<lparr>vm_class_table := take class_checkpoint (vm_class_table s)\<rparr>)
   }"

text \<open>One built-in class: registration, and its own properties where the root of a branch.\<close>

definition builtin_step ::
  "'h heap_ops \<Rightarrow> bytes \<Rightarrow> addr option \<Rightarrow> u8 \<Rightarrow> bool \<Rightarrow> 'h pphp_state \<Rightarrow> (addr option \<times> 'h pphp_state) option" where
  "builtin_step ops name parent flags properties s = do {
     (c, s) \<leftarrow> register_builtin_class ops name parent flags s;
     (case c of
        None \<Rightarrow> Some (None, s)
      | Some a \<Rightarrow>
          if properties then do {
            (ok, s) \<leftarrow> add_exception_properties ops (Some a) s;
            Some (if ok then Some a else None, s)
          } else Some (Some a, s))
   }"

text \<open>
  The table of the function: name, parent, and what is registered in which order.  The parent
  is the position of an earlier class.
\<close>

type_synonym builtin = "bytes \<times> nat option \<times> u8 \<times> bool"

definition builtin_classes :: "builtin list" where
  "builtin_classes =
     [(''Throwable'', None, PC_INTERFACE, False),
      (''Exception'', Some 0, 0, True),
      (''RuntimeException'', Some 1, 0, False),
      (''InvalidArgumentException'', Some 2, 0, False),
      (''Error'', Some 0, 0, True),
      (''TypeError'', Some 4, 0, False),
      (''ValueError'', Some 4, 0, False),
      (''ArgumentCountError'', Some 4, 0, False),
      (''UnhandledMatchError'', Some 4, 0, False),
      (''OutOfMemoryError'', Some 4, 0, False),
      (''ArithmeticError'', Some 4, 0, False),
      (''DivisionByZeroError'', Some 10, 0, False)]"

fun register_builtins ::
  "'h heap_ops \<Rightarrow> builtin list \<Rightarrow> addr list \<Rightarrow> 'h pphp_state \<Rightarrow> (addr list option \<times> 'h pphp_state) option" where
  "register_builtins ops [] done_classes s = Some (Some done_classes, s)"
| "register_builtins ops ((name, parent, flags, properties) # rest) done_classes s = do {
     (c, s) \<leftarrow> builtin_step ops name (map_option (\<lambda>i. done_classes ! i) parent) flags properties s;
     (case c of
        None \<Rightarrow> Some (None, s)
      | Some a \<Rightarrow> register_builtins ops rest (done_classes @ [a]) s)
   }"

definition pphp_register_exception_classes ::
  "'h heap_ops \<Rightarrow> 'h invoke_function option \<Rightarrow> 'h pphp_state \<Rightarrow> (bool \<times> 'h pphp_state) option" where
  "pphp_register_exception_classes ops invoke s = do {
     let class_checkpoint = length (vm_class_table s);
     let oom_checkpoint = vm_oom_exception s;
     let failed = (\<lambda>s. do {
       s \<leftarrow> rollback_exception_runtime ops class_checkpoint oom_checkpoint s;
       Some (False, s)
     });
     (added, s) \<leftarrow> register_builtins ops builtin_classes [] s;
     (case added of
        None \<Rightarrow> failed s
      | Some _ \<Rightarrow> do {
          (oom, s) \<leftarrow> pphp_exception_new ops invoke ''OutOfMemoryError'' (Some ''Out of memory'') s;
          let s = s\<lparr>vm_oom_exception := oom\<rparr>;
          (case oom of None \<Rightarrow> failed s | Some _ \<Rightarrow> Some (True, s))
        })
   }"

end
