(* ===== verification/Vm.thy ===== *)
theory Vm
  imports Exceptions PbcVerify
begin

text \<open>
  The stack machine (\<open>src/vm.c\<close>): the value stack, the operands of instructions, local
  variables with their \<open>global\<close> and \<open>static\<close> bindings, calls, returns and the unwinding of
  exceptions.  \<open>VmStep\<close> holds the instructions.  An access outside an object, and reading an
  instruction where there is no frame, is \<open>None\<close>.
\<close>

unbundle bit_operations_syntax

section \<open>The value stack\<close>

definition push :: "cell \<Rightarrow> 'h pphp_state \<Rightarrow> bool \<times> 'h pphp_state" where
  "push c s =
     (if PPHP_STACK_SLOTS \<le> vm_stack_count s
      then (False, log_rc [Release (cell_value c)] (pphp_runtime_error 0 ''value stack overflow'' s))
      else (True, s\<lparr>vm_stack := (vm_stack s)[vm_stack_count s := c],
                    vm_stack_count := vm_stack_count s + 1\<rparr>))"

definition push_value :: "pvalue \<Rightarrow> 'h pphp_state \<Rightarrow> 'h pphp_state" where
  "push_value v s = snd (push (Cell v) s)"

definition pop :: "'h pphp_state \<Rightarrow> cell \<times> 'h pphp_state" where
  "pop s =
     (if vm_stack_count s = 0
      then (Cell PNull, pphp_runtime_error 0 ''bytecode stack underflow'' s)
      else (vm_stack s ! (vm_stack_count s - 1), s\<lparr>vm_stack_count := vm_stack_count s - 1\<rparr>))"

definition release_cell :: "cell \<Rightarrow> 'h pphp_state \<Rightarrow> 'h pphp_state" where
  "release_cell c s = log_rc [Release (cell_value c)] s"

definition release_range :: "nat \<Rightarrow> nat \<Rightarrow> 'h pphp_state \<Rightarrow> 'h pphp_state" where
  "release_range begin_slot end_slot s =
     log_rc (map (\<lambda>i. Release (cell_value (vm_stack s ! i))) [begin_slot..<end_slot]) s"

section \<open>The current frame\<close>

definition top_frame :: "'h pphp_state \<Rightarrow> pframe option" where
  "top_frame s = (case vm_frames s of [] \<Rightarrow> None | f # _ \<Rightarrow> Some f)"

definition set_top :: "pframe \<Rightarrow> 'h pphp_state \<Rightarrow> 'h pphp_state" where
  "set_top f s = s\<lparr>vm_frames := f # tl (vm_frames s)\<rparr>"

definition frame_error :: "bytes \<Rightarrow> 'h pphp_state \<Rightarrow> 'h pphp_state option" where
  "frame_error message s = do { f \<leftarrow> top_frame s; Some (pphp_runtime_error (fr_line f) message s) }"

definition read_u8 :: "'h pphp_state \<Rightarrow> (u8 \<times> 'h pphp_state) option" where
  "read_u8 s = do {
     f \<leftarrow> top_frame s;
     if code_length (fr_proto f) \<le> fr_pc f
     then Some (0, pphp_runtime_error (fr_line f) ''truncated bytecode'' s)
     else Some (pp_code (fr_proto f) ! fr_pc f, set_top (f\<lparr>fr_pc := fr_pc f + 1\<rparr>) s)
   }"

definition read_u16 :: "'h pphp_state \<Rightarrow> (u16 \<times> 'h pphp_state) option" where
  "read_u16 s = do {
     (low, s) \<leftarrow> read_u8 s;
     (high, s) \<leftarrow> read_u8 s;
     Some (ucast low OR push_bit 8 (ucast high), s)
   }"

definition read_i32 :: "'h pphp_state \<Rightarrow> (pphp_int \<times> 'h pphp_state) option" where
  "read_i32 s = do {
     (a, s) \<leftarrow> read_u8 s;
     (b, s) \<leftarrow> read_u8 s;
     (c, s) \<leftarrow> read_u8 s;
     (d, s) \<leftarrow> read_u8 s;
     Some (ucast a OR push_bit 8 (ucast b) OR push_bit 16 (ucast c) OR push_bit 24 (ucast d), s)
   }"

text \<open>\<open>read_i16\<close> is \<open>read_u16\<close> read as a signed number.\<close>

definition jump_relative :: "u16 \<Rightarrow> 'h pphp_state \<Rightarrow> 'h pphp_state option" where
  "jump_relative relative s = do {
     f \<leftarrow> top_frame s;
     let target = int (fr_pc f) + sint relative;
     if target < 0 \<or> int (code_length (fr_proto f)) < target
     then Some (pphp_runtime_error (fr_line f) ''bytecode jump is out of range'' s)
     else Some (set_top (f\<lparr>fr_pc := nat target\<rparr>) s)
   }"

section \<open>Local variables\<close>

definition slot_mask_has :: "u8 list \<Rightarrow> u8 \<Rightarrow> bool" where
  "slot_mask_has bitmap slot \<longleftrightarrow>
     bitmap ! unat (drop_bit 3 slot) AND push_bit (unat (slot AND 7)) 1 \<noteq> 0"

definition slot_mask_set :: "u8 list \<Rightarrow> u8 \<Rightarrow> u8 list" where
  "slot_mask_set bitmap slot =
     bitmap[unat (drop_bit 3 slot) := bitmap ! unat (drop_bit 3 slot) OR push_bit (unat (slot AND 7)) 1]"

definition slot_mask_clear :: "u8 list \<Rightarrow> u8 \<Rightarrow> u8 list" where
  "slot_mask_clear bitmap slot =
     bitmap[unat (drop_bit 3 slot) := bitmap ! unat (drop_bit 3 slot) AND NOT (push_bit (unat (slot AND 7)) 1)]"

definition warn_undefined_variable :: "u8 \<Rightarrow> 'h pphp_state \<Rightarrow> 'h pphp_state option" where
  "warn_undefined_variable slot s = do {
     f \<leftarrow> top_frame s;
     name \<leftarrow> rd (locals (fr_proto f)) (unat slot);
     Some (pphp_warning (fr_line f) (''Undefined variable $'' @ fmt_string (ps_data name)) s)
   }"

definition intern :: "'h heap_ops \<Rightarrow> bytes \<Rightarrow> 'h pphp_state \<Rightarrow> (pstring option \<times> 'h pphp_state) option" where
  "intern ops b s = do {
     (key, table, h) \<leftarrow> psymbol_intern ops (vm_symbols s) b (vm_heap s);
     Some (key, s\<lparr>vm_symbols := table, vm_heap := h\<rparr>)
   }"

definition static_slot_key ::
  "'h heap_ops \<Rightarrow> u8 \<Rightarrow> 'h pphp_state \<Rightarrow> (pstring option \<times> 'h pphp_state) option" where
  "static_slot_key ops slot s = do {
     f \<leftarrow> top_frame s;
     local_name \<leftarrow> rd (locals (fr_proto f)) (unat slot);
     let b = ps_data (pp_name (fr_proto f)) @ ''::'' @ ps_data local_name;
     (case h_alloc ops (length b) (vm_heap s) of
        (None, h) \<Rightarrow> Some (None, s\<lparr>vm_heap := h\<rparr>)
      | (Some p, h) \<Rightarrow> do {
          (key, s) \<leftarrow> intern ops b (s\<lparr>vm_heap := h\<rparr>);
          Some (key, s\<lparr>vm_heap := h_free ops (Some p) (vm_heap s)\<rparr>)
        })
   }"

datatype storage = OnStack | InStatics "pstring option" | InGlobals "pstring option"

definition slot_storage :: "'h heap_ops \<Rightarrow> u8 \<Rightarrow> 'h pphp_state \<Rightarrow> (storage \<times> 'h pphp_state) option" where
  "slot_storage ops slot s = do {
     f \<leftarrow> top_frame s;
     if slot_mask_has (fr_static_mask f) slot then do {
       (key, s) \<leftarrow> static_slot_key ops slot s;
       Some (if vm_statics s = None then OnStack else InStatics key, s)
     }
     else if fr_all_globals f \<or> slot_mask_has (fr_global_mask f) slot then do {
       local_name \<leftarrow> rd (locals (fr_proto f)) (unat slot);
       (key, s) \<leftarrow> intern ops (ps_data local_name) s;
       Some (if vm_globals s = None then OnStack else InGlobals key, s)
     }
     else Some (OnStack, s)
   }"

text \<open>The slot on the stack, and the two arrays as storage.\<close>

definition slot_index :: "u8 \<Rightarrow> 'h pphp_state \<Rightarrow> nat option" where
  "slot_index slot s = do { f \<leftarrow> top_frame s; Some (fr_base f + unat slot) }"

definition set_slot :: "u8 \<Rightarrow> cell \<Rightarrow> 'h pphp_state \<Rightarrow> 'h pphp_state option" where
  "set_slot slot c s = do {
     i \<leftarrow> slot_index slot s;
     old \<leftarrow> rd (vm_stack s) i;
     Some ((release_cell old s)\<lparr>vm_stack := (vm_stack s)[i := c]\<rparr>)
   }"

definition storage_array :: "storage \<Rightarrow> 'h pphp_state \<Rightarrow> parray option" where
  "storage_array st s = (case st of InStatics _ \<Rightarrow> vm_statics s | _ \<Rightarrow> vm_globals s)"

definition set_storage :: "storage \<Rightarrow> parray option \<Rightarrow> 'h pphp_state \<Rightarrow> 'h pphp_state" where
  "set_storage st a s =
     (case st of InStatics _ \<Rightarrow> s\<lparr>vm_statics := a\<rparr> | InGlobals _ \<Rightarrow> s\<lparr>vm_globals := a\<rparr> | OnStack \<Rightarrow> s)"

fun storage_key :: "storage \<Rightarrow> pstring option" where
  "storage_key OnStack = None"
| "storage_key (InStatics key) = key"
| "storage_key (InGlobals key) = key"

definition read_local_value ::
  "'h heap_ops \<Rightarrow> u8 \<Rightarrow> bool \<Rightarrow> 'h pphp_state \<Rightarrow> (bool \<times> pvalue \<times> 'h pphp_state) option" where
  "read_local_value ops slot quiet s = do {
     (st, s) \<leftarrow> slot_storage ops slot s;
     if st = OnStack then do {
       i \<leftarrow> slot_index slot s;
       c \<leftarrow> rd (vm_stack s) i;
       (case c of
          Undefined \<Rightarrow> do {
            s \<leftarrow> (if quiet then Some s else warn_undefined_variable slot s);
            Some (True, PNull, s)
          }
        | Cell v \<Rightarrow> Some (True, v, log_rc [Retain v] s))
     }
     else
       (case storage_key st of
          None \<Rightarrow> do {
            s \<leftarrow> frame_error ''out of memory resolving variable storage'' s;
            Some (False, PNull, s)
          }
        | Some key \<Rightarrow> do {
            (found, ev, h) \<leftarrow> pa_get ops (storage_array st s) (PString key) (vm_heap s);
            let s = log_rc ev (s\<lparr>vm_heap := h\<rparr>);
            (case found of
               Some v \<Rightarrow> Some (True, v, s)
             | None \<Rightarrow> do {
                 s \<leftarrow> (if quiet then Some s else warn_undefined_variable slot s);
                 Some (True, PNull, s)
               })
          })
   }"

definition load_local_value ::
  "'h heap_ops \<Rightarrow> u8 \<Rightarrow> bool \<Rightarrow> 'h pphp_state \<Rightarrow> 'h pphp_state option" where
  "load_local_value ops slot quiet s = do {
     (ok, v, s) \<leftarrow> read_local_value ops slot quiet s;
     Some (if ok then push_value v s else s)
   }"

definition store_local_value ::
  "'h heap_ops \<Rightarrow> u8 \<Rightarrow> cell \<Rightarrow> 'h pphp_state \<Rightarrow> 'h pphp_state option" where
  "store_local_value ops slot c s = do {
     (st, s) \<leftarrow> slot_storage ops slot s;
     if st = OnStack then set_slot slot c s
     else do {
       (ok, s) \<leftarrow> (case storage_key st of
           None \<Rightarrow> Some (False, s)
         | Some key \<Rightarrow> do {
             (ok, a, ev, h) \<leftarrow> pa_set ops (storage_array st s) (PString key) (cell_value c) (vm_heap s);
             Some (ok, log_rc ev (set_storage st a (s\<lparr>vm_heap := h\<rparr>)))
           });
       let s = release_cell c s;
       if ok then Some s else frame_error ''out of memory storing persistent variable'' s
     }
   }"

definition unset_local_value ::
  "'h heap_ops \<Rightarrow> u8 \<Rightarrow> 'h pphp_state \<Rightarrow> 'h pphp_state option" where
  "unset_local_value ops slot s = do {
     (st, s) \<leftarrow> slot_storage ops slot s;
     if st = OnStack then set_slot slot Undefined s
     else
       (case storage_key st of
          None \<Rightarrow> frame_error ''out of memory resolving variable storage'' s
        | Some key \<Rightarrow> do {
            (ok, a, ev, h) \<leftarrow> pa_remove ops (storage_array st s) (PString key) (vm_heap s);
            Some (log_rc ev (set_storage st a (s\<lparr>vm_heap := h\<rparr>)))
          })
   }"

section \<open>Frames\<close>

definition release_frame_owners ::
  "'h heap_ops \<Rightarrow> pframe \<Rightarrow> 'h pphp_state \<Rightarrow> 'h pphp_state option" where
  "release_frame_owners ops f s =
     (let s = (if fr_has_return_override f then log_rc [Release (fr_return_override f)] s else s)
      in if \<not> fr_owns_closure_context f then Some s
         else do {
           let s = log_events [Ev (ReleaseModule (fr_module f))] s;
           st \<leftarrow> pclass_release_runtime ops (fr_called_scope f) (vm_classes s, [], vm_heap s);
           (classes, ev, h) \<leftarrow> pclass_release_runtime ops (fr_called_class f) st;
           Some (log_events (map Ev ev) (s\<lparr>vm_classes := classes, vm_heap := h\<rparr>))
         })"

definition pop_frame :: "'h heap_ops \<Rightarrow> pframe \<Rightarrow> 'h pphp_state \<Rightarrow> 'h pphp_state option" where
  "pop_frame ops f s = do {
     s \<leftarrow> release_frame_owners ops f s;
     Some (s\<lparr>vm_frames := tl (vm_frames s)\<rparr>)
   }"

fun release_frames :: "'h heap_ops \<Rightarrow> pframe list \<Rightarrow> 'h pphp_state \<Rightarrow> 'h pphp_state option" where
  "release_frames ops [] s = Some s"
| "release_frames ops (f # fs) s = do { s \<leftarrow> pop_frame ops f s; release_frames ops fs s }"

definition release_all_frames :: "'h heap_ops \<Rightarrow> 'h pphp_state \<Rightarrow> 'h pphp_state option" where
  "release_all_frames ops s = release_frames ops (vm_frames s) s"

section \<open>Calls\<close>

text \<open>The collected arguments of a variadic function.\<close>

fun push_cells :: "'h heap_ops \<Rightarrow> addr \<Rightarrow> cell list \<Rightarrow> 'h pphp_state \<Rightarrow> (bool \<times> 'h pphp_state) option" where
  "push_cells ops a [] s = Some (True, s)"
| "push_cells ops a (c # cs) s = do {
     (ok, s) \<leftarrow> array_push ops a (cell_value c) s;
     if ok then push_cells ops a cs s else Some (False, s)
   }"

definition collect_rest ::
  "'h heap_ops \<Rightarrow> cell list \<Rightarrow> u32 \<Rightarrow> 'h pphp_state \<Rightarrow> (addr option \<times> 'h pphp_state) option" where
  "collect_rest ops extra line s =
     (let out_of_memory = pphp_runtime_error line ''out of memory collecting variadic arguments''
      in do {
        (r, s) \<leftarrow> new_array ops (length extra) s;
        (case r of
           None \<Rightarrow> Some (None, out_of_memory s)
         | Some a \<Rightarrow> do {
             (ok, s) \<leftarrow> push_cells ops a extra s;
             Some (if ok then (Some a, s)
                   else (None, out_of_memory (log_rc [Release (PArray a)] s)))
           })
      })"

definition move_cells :: "nat \<Rightarrow> nat \<Rightarrow> nat \<Rightarrow> cell list \<Rightarrow> cell list option" where
  "move_cells target source n xs =
     (if target + n \<le> length xs \<and> source + n \<le> length xs
      then Some (take target xs @ take n (drop source xs) @ drop (target + n) xs) else None)"

definition undefine :: "nat \<Rightarrow> nat \<Rightarrow> cell list \<Rightarrow> cell list" where
  "undefine from_slot to_slot xs = fold (\<lambda>i xs. xs[i := Undefined]) [from_slot..<to_slot] xs"

text \<open>The slots of the callee, once the arguments that are left over are released.\<close>

definition place_arguments ::
  "pproto \<Rightarrow> nat \<Rightarrow> nat \<Rightarrow> nat \<Rightarrow> nat \<Rightarrow> nat \<Rightarrow> addr option \<Rightarrow> cell list \<Rightarrow> cell list option" where
  "place_arguments callee target_base argument_base local_offset supplied fixed_count rest xs = do {
     let first = target_base + local_offset;
     xs \<leftarrow> (if supplied \<noteq> 0 \<and> first \<noteq> argument_base then move_cells first argument_base supplied xs
            else Some xs);
     let xs = undefine (first + supplied) (first + fixed_count) xs;
     let xs = (case rest of None \<Rightarrow> xs | Some a \<Rightarrow> xs[first + fixed_count := Cell (PArray a)]);
     Some (undefine (first + unat (n_params callee)) (target_base + n_locals callee) xs)
   }"

definition bind_arguments ::
  "'h heap_ops \<Rightarrow> pproto \<Rightarrow> nat \<Rightarrow> nat \<Rightarrow> u8 \<Rightarrow> nat \<Rightarrow> u32 \<Rightarrow> 'h pphp_state \<Rightarrow>
     (bool \<times> 'h pphp_state) option" where
  "bind_arguments ops callee target_base argument_base argument_count local_offset line s =
     (if variadic callee \<and> n_params callee = 0
      then Some (False, pphp_runtime_error line ''invalid variadic function metadata'' s)
      else
        let fixed_count = (if variadic callee then unat (n_params callee) - 1 else unat (n_params callee));
            given = unat argument_count
        in if PPHP_STACK_SLOTS \<le> target_base + n_locals callee \<or>
              n_locals callee < local_offset + unat (n_params callee)
           then Some (False, pphp_runtime_error line ''value stack overflow entering function'' s)
           else do {
             let supplied = (if given < fixed_count then given else fixed_count);
             let extra = drop fixed_count (take given (drop argument_base (vm_stack s)));
             (ok, rest, s) \<leftarrow>
               (if variadic callee then do {
                  (rest, s) \<leftarrow> collect_rest ops extra line s;
                  Some (rest \<noteq> None, rest, s)
                } else Some (True, None, s));
             if \<not> ok then Some (False, s)
             else do {
               let s = (if fixed_count < given
                        then release_range (argument_base + fixed_count) (argument_base + given) s else s);
               xs \<leftarrow> place_arguments callee target_base argument_base local_offset supplied fixed_count
                      rest (vm_stack s);
               Some (True, s\<lparr>vm_stack := xs\<rparr>)
             }
           })"

text \<open>
  The functions of the standard library (\<open>pphp_call_builtin\<close>) and those the embedding
  program registers (\<open>pphp_call_native_function\<close>) are one parameter, tried before the
  functions of the script: they get the name and the arguments.
\<close>

datatype host_result = NotHost | HostFailed | HostResult pvalue

type_synonym 'h host =
  "pstring \<Rightarrow> pvalue list \<Rightarrow> 'h pphp_state \<Rightarrow> (host_result \<times> 'h pphp_state) option"

definition new_frame :: "pproto \<Rightarrow> addr \<Rightarrow> nat \<Rightarrow> u8 \<Rightarrow> pframe" where
  "new_frame callee module base argument_count =
     \<lparr>fr_proto = callee, fr_module = Some module, fr_pc = 0, fr_base = base, fr_line = 1,
      fr_argument_count = argument_count, fr_all_globals = False,
      fr_global_mask = replicate 32 0, fr_static_mask = replicate 32 0,
      fr_return_override = PNull, fr_has_return_override = False,
      fr_called_scope = None, fr_called_class = None, fr_owns_closure_context = False\<rparr>"

text \<open>\<open>n_required\<close> is an 8-bit count, printed with \<open>%u\<close>.\<close>

definition too_few_message :: "bytes \<Rightarrow> u8 \<Rightarrow> u8 \<Rightarrow> bytes" where
  "too_few_message name required given =
     ''Too few arguments to function '' @ fmt_string name @ ''(), '' @ decimal (unat required) @
     '' required, '' @ decimal (unat given) @ '' given''"

definition enter_function ::
  "'h heap_ops \<Rightarrow> pframe \<Rightarrow> pstring \<Rightarrow> pproto \<times> addr \<Rightarrow> nat \<Rightarrow> u8 \<Rightarrow> 'h pphp_state \<Rightarrow> 'h pphp_state option" where
  "enter_function ops caller name callee argument_base argument_count s =
     (case callee of (callee, module) \<Rightarrow>
        if argument_count < n_required callee
        then Some (pphp_runtime_error (fr_line caller)
               (too_few_message (ps_data name) (n_required callee) argument_count) s)
        else if PPHP_FRAME_MAX \<le> length (vm_frames s)
        then Some (pphp_runtime_error (fr_line caller) ''call stack overflow'' s)
        else do {
          (ok, s) \<leftarrow> bind_arguments ops callee argument_base argument_base argument_count 0
                       (fr_line caller) s;
          Some (if ok
                then s\<lparr>vm_stack_count := argument_base + n_locals callee,
                       vm_frames := new_frame callee module argument_base argument_count # vm_frames s\<rparr>
                else s)
        })"

definition call_function ::
  "'h heap_ops \<Rightarrow> 'h host \<Rightarrow> u16 \<Rightarrow> u8 \<Rightarrow> 'h pphp_state \<Rightarrow> 'h pphp_state option" where
  "call_function ops host name_index argument_count s = do {
     caller \<leftarrow> top_frame s;
     (case PbcVerify.constant_string (fr_proto caller) name_index of
        None \<Rightarrow> Some (pphp_runtime_error (fr_line caller) ''invalid CALL instruction'' s)
      | Some name \<Rightarrow>
          if vm_stack_count s < unat argument_count
          then Some (pphp_runtime_error (fr_line caller) ''invalid CALL instruction'' s)
          else do {
            let argument_base = vm_stack_count s - unat argument_count;
            (r, s) \<leftarrow> host name (map cell_value (take (unat argument_count)
                        (drop argument_base (vm_stack s)))) s;
            (case r of
               NotHost \<Rightarrow> do {
                 found \<leftarrow> pphp_find_function name s;
                 (case found of
                    None \<Rightarrow> Some (pphp_runtime_error (fr_line caller)
                              (''Call to undefined function '' @ fmt_string (ps_data name) @ ''()'') s)
                  | Some callee \<Rightarrow>
                      enter_function ops caller name callee argument_base argument_count s)
               }
             | HostFailed \<Rightarrow>
                 Some ((release_range argument_base (vm_stack_count s) s)\<lparr>vm_stack_count := argument_base\<rparr>)
             | HostResult v \<Rightarrow>
                 Some (push_value v
                   ((release_range argument_base (vm_stack_count s) s)\<lparr>vm_stack_count := argument_base\<rparr>)))
          })
   }"

definition return_from_function :: "'h heap_ops \<Rightarrow> cell \<Rightarrow> 'h pphp_state \<Rightarrow> 'h pphp_state option" where
  "return_from_function ops result s = do {
     f \<leftarrow> top_frame s;
     let (result, f, s) =
       (if fr_has_return_override f
        then (Cell (fr_return_override f),
              f\<lparr>fr_return_override := PNull, fr_has_return_override := False\<rparr>, release_cell result s)
        else (result, f, s));
     let s = (release_range (fr_base f) (vm_stack_count s) s)\<lparr>vm_stack_count := fr_base f\<rparr>;
     s \<leftarrow> pop_frame ops f s;
     if vm_frames s = [] then Some (release_cell result s)
     else Some (snd (push result s))
   }"

section \<open>Exceptions\<close>

text \<open>Does an entry of the table catch the exception?\<close>

definition catch_matches :: "pproto \<Rightarrow> pvalue \<Rightarrow> pcatch \<Rightarrow> 'h pphp_state \<Rightarrow> bool option" where
  "catch_matches p exception entry s =
     (if unat (class_constant entry) = UINT16_MAX then Some True
      else
        (case PbcVerify.constant_string p (class_constant entry) of
           None \<Rightarrow> Some False
         | Some name \<Rightarrow> do {
             expected \<leftarrow> pphp_find_class (ps_data name) s;
             (case (exception, expected) of
                (PObject a, Some c) \<Rightarrow> do {
                  ob \<leftarrow> vm_objects s a;
                  pclass_is_a (vm_classes s) (Some c) (Some (ob_class ob))
                }
              | _ \<Rightarrow> Some False)
           }))"

fun find_catch ::
  "pproto \<Rightarrow> pvalue \<Rightarrow> nat \<Rightarrow> pcatch list \<Rightarrow> 'h pphp_state \<Rightarrow> pcatch option option" where
  "find_catch p exception throw_pc [] s = Some None"
| "find_catch p exception throw_pc (entry # entries) s =
     (if throw_pc < unat (try_start entry) \<or> unat (try_end entry) \<le> throw_pc
      then find_catch p exception throw_pc entries s
      else do {
        matches \<leftarrow> catch_matches p exception entry s;
        if matches then Some (Some entry) else find_catch p exception throw_pc entries s
      })"

definition set_pc :: "nat \<Rightarrow> 'h pphp_state \<Rightarrow> 'h pphp_state option" where
  "set_pc target s = do { f \<leftarrow> top_frame s; Some (set_top (f\<lparr>fr_pc := target\<rparr>) s) }"

text \<open>
  The handler takes over: the operands of the frame are released, the exception goes to the
  handler's variable.  The result tells whether the exception was handled.
\<close>

definition enter_handler ::
  "'h heap_ops \<Rightarrow> pframe \<Rightarrow> pcatch \<Rightarrow> pvalue \<Rightarrow> 'h pphp_state \<Rightarrow> (bool \<times> 'h pphp_state) option" where
  "enter_handler ops f entry exception s = do {
     let floor = fr_base f + n_locals (fr_proto f);
     let s = (release_range floor (vm_stack_count s) s)\<lparr>vm_stack_count := floor\<rparr>;
     let bound = (unat (variable_slot entry) \<noteq> UINT8_MAX \<and>
                  unat (variable_slot entry) < n_locals (fr_proto f));
     if bound then do {
       s \<leftarrow> store_local_value ops (variable_slot entry) (Cell exception) s;
       s \<leftarrow> set_pc (unat (handler_pc entry)) s;
       Some (True, s)
     }
     else
       (let s = log_rc [Release exception] s
        in if unat (class_constant entry) = UINT16_MAX
           then Some (False, pphp_runtime_error (fr_line f)
                  ''finally handler has no pending exception slot'' s)
           else do { s \<leftarrow> set_pc (unat (handler_pc entry)) s; Some (True, s) })
   }"

definition uncaught_message :: "bytes \<Rightarrow> bytes \<Rightarrow> bytes \<Rightarrow> u32 \<Rightarrow> bytes" where
  "uncaught_message class_name message file line =
     ''PHP Fatal error: Uncaught '' @ fmt_string class_name @ '': '' @ fmt_string message @
     '' in '' @ fmt_string file @ '':'' @ decimal (unat line)"

definition uncaught_exception :: "pvalue \<Rightarrow> 'h pphp_state \<Rightarrow> 'h pphp_state option" where
  "uncaught_exception exception s =
     (case exception of
        PObject a \<Rightarrow> do {
          ob \<leftarrow> vm_objects s a;
          message \<leftarrow> pphp_exception_message (Some a) s;
          file_value \<leftarrow> field_value (Some a) ''file'' s;
          line_value \<leftarrow> field_value (Some a) ''line'' s;
          k \<leftarrow> vm_classes s (ob_class ob);
          let file = (case file_value of Some (PString str) \<Rightarrow> ps_data str | _ \<Rightarrow> ''<source>'');
          let line = (case line_value of Some (PInt i) \<Rightarrow> if 0 \<le>s i then i else 0 | _ \<Rightarrow> 0);
          let text = (case message of None \<Rightarrow> [] | Some str \<Rightarrow> ps_data str);
          Some (log_rc [Release exception]
            (pphp_runtime_error line (uncaught_message (ps_data (cl_name k)) text file line) s))
        }
      | _ \<Rightarrow> Some (log_rc [Release exception]
               (pphp_runtime_error 0 ''Uncaught non-object exception'' s)))"

text \<open>
  The frames, innermost first.  In a caller the exception arises at the last byte of the call
  instruction, before the address of return.
\<close>

definition caller_pc :: "pframe list \<Rightarrow> nat \<Rightarrow> nat" where
  "caller_pc frames throw_pc =
     (case frames of [] \<Rightarrow> throw_pc | f # _ \<Rightarrow> if fr_pc f = 0 then 0 else fr_pc f - 1)"

fun unwind ::
  "'h heap_ops \<Rightarrow> pvalue \<Rightarrow> nat \<Rightarrow> pframe list \<Rightarrow> 'h pphp_state \<Rightarrow> (bool \<times> 'h pphp_state) option" where
  "unwind ops exception throw_pc [] s = do {
     s \<leftarrow> uncaught_exception exception s;
     Some (False, s)
   }"
| "unwind ops exception throw_pc (f # fs) s = do {
     found \<leftarrow> find_catch (fr_proto f) exception throw_pc (catches (fr_proto f)) s;
     (case found of
        Some entry \<Rightarrow> enter_handler ops f entry exception s
      | None \<Rightarrow> do {
          let s = (release_range (fr_base f) (vm_stack_count s) s)\<lparr>vm_stack_count := fr_base f\<rparr>;
          s \<leftarrow> pop_frame ops f s;
          unwind ops exception (caller_pc fs throw_pc) fs s
        })
   }"

definition throw_exception ::
  "'h heap_ops \<Rightarrow> pvalue \<Rightarrow> nat \<Rightarrow> 'h pphp_state \<Rightarrow> (bool \<times> 'h pphp_state) option" where
  "throw_exception ops exception throw_pc s = do {
     s \<leftarrow> (case exception of
             PObject a \<Rightarrow> pphp_exception_capture_trace ops (Some a) s
           | _ \<Rightarrow> Some s);
     unwind ops exception throw_pc (vm_frames s) s
   }"

text \<open>The class of the exception that a pending error becomes.\<close>

definition error_class :: "bytes \<Rightarrow> bytes \<Rightarrow> bytes" where
  "error_class raised_class message =
     (if raised_class \<noteq> [] then fits 48 raised_class
      else if ps_contains_cstr message ''Division by zero'' \<or> ps_contains_cstr message ''Modulo by zero''
      then ''DivisionByZeroError''
      else if ps_contains_cstr message ''out of memory'' \<or> ps_contains_cstr message ''Out of memory''
      then ''OutOfMemoryError''
      else if ps_contains_cstr message ''Too few arguments'' \<or>
              ps_contains_cstr message ''Too many arguments'' \<or>
              ps_contains_cstr message ''expects exactly'' \<or>
              ps_contains_cstr message ''expects at most''
      then ''ArgumentCountError''
      else if ps_contains_cstr message ''expects'' \<or> ps_contains_cstr message ''unsupported operand''
      then ''TypeError''
      else ''Error'')"

definition convert_runtime_error ::
  "'h heap_ops \<Rightarrow> 'h invoke_function option \<Rightarrow> nat \<Rightarrow> 'h pphp_state \<Rightarrow> 'h pphp_state option" where
  "convert_runtime_error ops invoke throw_pc s =
     (case vm_frames s of
        [] \<Rightarrow> Some s
      | f # _ \<Rightarrow>
          if vm_error s = [] then Some s
          else do {
            let message = fits 256 (vm_error s);
            let s = (if vm_error_line s = 0 then s\<lparr>vm_error_line := fr_line f\<rparr> else s);
            let class_name = error_class (vm_raised_class s) message;
            let s = s\<lparr>vm_error := [], vm_raised_class := []\<rparr>;
            (exception, s) \<leftarrow>
              (case (class_name = ''OutOfMemoryError'', vm_oom_exception s) of
                 (True, Some a) \<Rightarrow> Some (Some a, log_rc [Retain (PObject a)] s)
               | _ \<Rightarrow> pphp_exception_new ops invoke class_name (Some message) s);
            (case exception of
               None \<Rightarrow> Some (s\<lparr>vm_error := fits 256 message\<rparr>)
             | Some a \<Rightarrow> do {
                 (_, s) \<leftarrow> throw_exception ops (PObject a) throw_pc s;
                 Some s
               })
          })"

end
