(* ===== verification/Closures.thy ===== *)
theory Closures
  imports Pobject
begin

text \<open>
  Closures (\<open>src/closure.c\<close>) and iterators over arrays (\<open>src/resource.c\<close>).  As for objects, a
  block that the allocator hands out is not the address of one in use.
\<close>

unbundle bit_operations_syntax

section \<open>Closures\<close>

definition sizeof_pclosure :: nat where "sizeof_pclosure = 48"

definition pclosure_new ::
  "'h heap_ops \<Rightarrow> pproto option \<Rightarrow> addr option \<Rightarrow> addr option \<Rightarrow> addr option \<Rightarrow> pvalue list \<Rightarrow>
     'h pphp_state \<Rightarrow> (addr option \<times> 'h pphp_state) option" where
  "pclosure_new ops proto module called_scope called_class captures s =
     (case proto of
        None \<Rightarrow> Some (None, s)
      | Some proto \<Rightarrow>
          if UINT8_MAX < length captures then Some (None, s)
          else
            (case h_alloc ops (sizeof_pclosure + length captures * sizeof_pvalue) (vm_heap s) of
               (None, h) \<Rightarrow> Some (None, s\<lparr>vm_heap := h\<rparr>)
             | (Some a, h) \<Rightarrow>
                 if vm_closures s a \<noteq> None then None
                 else do {
                   classes \<leftarrow> pclass_retain_runtime called_scope (vm_classes s);
                   classes \<leftarrow> pclass_retain_runtime called_class classes;
                   let closure = \<lparr>co_refcnt = 1, co_flags = 0, co_proto = proto, co_module = module,
                                  co_called_scope = called_scope, co_called_class = called_class,
                                  co_captures = captures\<rparr>;
                   Some (Some a, log_events
                     (Ev (Ref (Create (PClosure a))) # Ev (RetainModule module) #
                       map (\<lambda>v. Ev (Ref (Retain v))) captures)
                     (s\<lparr>vm_heap := h, vm_classes := classes,
                        vm_closures := (vm_closures s)(a \<mapsto> closure)\<rparr>))
                 }))"

definition gc_unbuffer_closure :: "addr \<Rightarrow> pclosure \<Rightarrow> 'h pphp_state \<Rightarrow> 'h pphp_state" where
  "gc_unbuffer_closure a closure s =
     (if co_flags closure AND PPHP_GC_BUFFERED = 0 then s
      else s\<lparr>vm_closures := (vm_closures s)(a \<mapsto>
                closure\<lparr>co_flags := co_flags closure AND NOT PPHP_GC_BUFFERED\<rparr>),
              vm_gc := (vm_gc s)\<lparr>gs_candidates := remove_candidate a (gs_candidates (vm_gc s))\<rparr>\<rparr>)"

text \<open>The references to the two classes, given up one after the other.\<close>

definition release_context ::
  "'h heap_ops \<Rightarrow> addr option \<Rightarrow> addr option \<Rightarrow> 'h pphp_state \<Rightarrow> 'h pphp_state option" where
  "release_context ops called_scope called_class s = do {
     st \<leftarrow> pclass_release_runtime ops called_scope (vm_classes s, [], vm_heap s);
     (classes, ev, h) \<leftarrow> pclass_release_runtime ops called_class st;
     Some (log_events (map Ev ev) (s\<lparr>vm_classes := classes, vm_heap := h\<rparr>))
   }"

definition pclosure_destroy ::
  "'h heap_ops \<Rightarrow> addr option \<Rightarrow> 'h pphp_state \<Rightarrow> 'h pphp_state option" where
  "pclosure_destroy ops closure s =
     (case closure of
        None \<Rightarrow> Some s
      | Some a \<Rightarrow> do {
          c \<leftarrow> vm_closures s a;
          let s = gc_unbuffer_closure a c s;
          let s = log_rc (map Release (co_captures c)) (s\<lparr>vm_closures := (vm_closures s)(a := None)\<rparr>);
          let s = log_events [Ev (ReleaseModule (co_module c))] s;
          s \<leftarrow> release_context ops (co_called_scope c) (co_called_class c) s;
          Some (s\<lparr>vm_heap := h_free ops (Some a) (vm_heap s)\<rparr>)
        })"

section \<open>Iterators\<close>

definition sizeof_parray_iterator :: nat where "sizeof_parray_iterator = 40"

definition pa_iterator_new ::
  "'h heap_ops \<Rightarrow> addr option \<Rightarrow> 'h pphp_state \<Rightarrow> (addr option \<times> 'h pphp_state) option" where
  "pa_iterator_new ops array s =
     (case array of
        None \<Rightarrow> Some (None, s)
      | Some arr \<Rightarrow>
          (case h_alloc ops sizeof_parray_iterator (vm_heap s) of
             (None, h) \<Rightarrow> Some (None, s\<lparr>vm_heap := h\<rparr>)
           | (Some a, h) \<Rightarrow>
               if vm_iterators s a \<noteq> None then None
               else
                 (let it = \<lparr>it_refcnt = 1, it_flags = 0, it_array = arr, it_position = 0\<rparr>
                  in Some (Some a, log_rc [Create (PResource a), Retain (PArray arr)]
                       (s\<lparr>vm_heap := h, vm_iterators := (vm_iterators s)(a \<mapsto> it)\<rparr>)))))"

text \<open>The next entry, with references to key and value that the caller owns.\<close>

definition pa_iterator_next ::
  "addr option \<Rightarrow> 'h pphp_state \<Rightarrow> ((pvalue \<times> pvalue) option \<times> 'h pphp_state) option" where
  "pa_iterator_next iterator s =
     (case iterator of
        None \<Rightarrow> Some (None, s)
      | Some a \<Rightarrow> do {
          it \<leftarrow> vm_iterators s a;
          arr \<leftarrow> vm_arrays s (it_array it);
          (case pa_entry_at (Some arr) (it_position it) of
             None \<Rightarrow> Some (None, s)
           | Some (key, v, next_position, ev) \<Rightarrow>
               Some (Some (key, v), log_rc ev
                 (s\<lparr>vm_iterators := (vm_iterators s)(a \<mapsto> it\<lparr>it_position := next_position\<rparr>)\<rparr>)))
        })"

text \<open>
  A resource is destroyed by its own function; that of an iterator is \<open>iterator_destroy\<close>.  The
  files of the standard library are resources too and not in the map.
\<close>

definition iterator_destroy :: "'h heap_ops \<Rightarrow> addr \<Rightarrow> parray_iterator \<Rightarrow> 'h pphp_state \<Rightarrow> 'h pphp_state" where
  "iterator_destroy ops a it s =
     (log_rc [Release (PArray (it_array it))] s)
       \<lparr>vm_heap := h_free ops (Some a) (vm_heap s), vm_iterators := (vm_iterators s)(a := None)\<rparr>"

definition presource_destroy ::
  "'h heap_ops \<Rightarrow> addr option \<Rightarrow> 'h pphp_state \<Rightarrow> 'h pphp_state option" where
  "presource_destroy ops resource s =
     (case resource of
        None \<Rightarrow> Some s
      | Some a \<Rightarrow> do { it \<leftarrow> vm_iterators s a; Some (iterator_destroy ops a it s) })"

end
