(* ===== verification/VmStep.thy ===== *)
theory VmStep
  imports Vm Closures
begin

text \<open>
  The instructions of \<open>pphp_vm_execute\<close>: stack, constants, local variables, jumps, calls,
  returns, building and unpacking of arrays, iteration, tests of the class, making of closures,
  exceptions and line numbers, and an opcode that does not exist.  The instructions left out
  (arithmetic, output, element access, class and method definition, properties and methods of
  objects, calls of values, inclusion) are \<open>None\<close>.  Between two instructions
  the loop also traces, lets the collector run and polls the timer: none of it is part of an
  instruction.
\<close>

unbundle bit_operations_syntax

section \<open>Instructions\<close>

text \<open>The truth of a value reads the size of an array.\<close>

definition truthy :: "pvalue \<Rightarrow> 'h pphp_state \<Rightarrow> bool option" where
  "truthy v s =
     (case v of
        PArray a \<Rightarrow> map_option (\<lambda>arr. pv_is_truthy (\<lambda>_. pa_size arr) v) (vm_arrays s a)
      | _ \<Rightarrow> Some (pv_is_truthy (\<lambda>_. 0) v))"

definition op_halt :: "'h heap_ops \<Rightarrow> 'h pphp_state \<Rightarrow> 'h pphp_state option" where
  "op_halt ops s = do {
     f \<leftarrow> top_frame s;
     if length (vm_frames s) \<noteq> 1 then Some (pphp_runtime_error (fr_line f) ''HALT inside function'' s)
     else do {
       s \<leftarrow> (if vm_capture_halt_result s \<and> vm_halt_result s \<noteq> None \<and>
                fr_base f + n_locals (fr_proto f) < vm_stack_count s
             then do {
               c \<leftarrow> rd (vm_stack s) (vm_stack_count s - 1);
               Some (log_rc [Retain (cell_value c)] (s\<lparr>vm_halt_result := Some (cell_value c)\<rparr>))
             }
             else Some s);
       release_all_frames ops ((release_range 0 (vm_stack_count s) s)\<lparr>vm_stack_count := 0\<rparr>)
     }
   }"

definition op_pop :: "'h pphp_state \<Rightarrow> 'h pphp_state" where
  "op_pop s = (case pop s of (c, s) \<Rightarrow> release_cell c s)"

definition op_dup :: "'h pphp_state \<Rightarrow> 'h pphp_state option" where
  "op_dup s =
     (if vm_stack_count s = 0 then frame_error ''DUP on empty stack'' s
      else
        let c = vm_stack s ! (vm_stack_count s - 1)
        in Some (snd (push c (log_rc [Retain (cell_value c)] s))))"

definition op_swap :: "'h pphp_state \<Rightarrow> 'h pphp_state option" where
  "op_swap s =
     (let n = vm_stack_count s
      in if n < 2 then frame_error ''SWAP requires two stack values'' s
         else Some (s\<lparr>vm_stack := (vm_stack s)[n - 1 := vm_stack s ! (n - 2), n - 2 := vm_stack s ! (n - 1)]\<rparr>))"

definition op_load_const :: "'h pphp_state \<Rightarrow> 'h pphp_state option" where
  "op_load_const s = do {
     (index, s) \<leftarrow> read_u16 s;
     f \<leftarrow> top_frame s;
     (case rd (constants (fr_proto f)) (unat index) of
        None \<Rightarrow> frame_error ''constant index out of range'' s
      | Some v \<Rightarrow> Some (push_value v (log_rc [Retain v] s)))
   }"

text \<open>Instructions on a local slot read it first and check it against the frame.\<close>

definition on_slot ::
  "bytes \<Rightarrow> u8 \<Rightarrow> ('h pphp_state \<Rightarrow> 'h pphp_state option) \<Rightarrow> 'h pphp_state \<Rightarrow> 'h pphp_state option" where
  "on_slot message slot body s = do {
     f \<leftarrow> top_frame s;
     if n_locals (fr_proto f) \<le> unat slot then frame_error message s else body s
   }"

definition op_load_local :: "'h heap_ops \<Rightarrow> bool \<Rightarrow> 'h pphp_state \<Rightarrow> 'h pphp_state option" where
  "op_load_local ops quiet s = do {
     (slot, s) \<leftarrow> read_u8 s;
     on_slot ''local index out of range'' slot (load_local_value ops slot quiet) s
   }"

definition op_store_local :: "'h heap_ops \<Rightarrow> 'h pphp_state \<Rightarrow> 'h pphp_state option" where
  "op_store_local ops s = do {
     (slot, s) \<leftarrow> read_u8 s;
     let (c, s) = pop s;
     f \<leftarrow> top_frame s;
     if n_locals (fr_proto f) \<le> unat slot
     then frame_error ''local index out of range'' (release_cell c s)
     else store_local_value ops slot c s
   }"

definition op_unset_local :: "'h heap_ops \<Rightarrow> 'h pphp_state \<Rightarrow> 'h pphp_state option" where
  "op_unset_local ops s = do {
     (slot, s) \<leftarrow> read_u8 s;
     on_slot ''local index out of range'' slot (unset_local_value ops slot) s
   }"

text \<open>\<open>BIND_GLOBAL\<close> and \<open>STATIC_INIT\<close> change where a slot is stored; its own value goes.\<close>

definition op_bind_global :: "'h pphp_state \<Rightarrow> 'h pphp_state option" where
  "op_bind_global s = do {
     (slot, s) \<leftarrow> read_u8 s;
     on_slot ''global binding slot is invalid'' slot (\<lambda>s. do {
       f \<leftarrow> top_frame s;
       set_slot slot (Cell PNull)
         (set_top (f\<lparr>fr_static_mask := slot_mask_clear (fr_static_mask f) slot,
                     fr_global_mask := slot_mask_set (fr_global_mask f) slot\<rparr>) s)
     }) s
   }"

definition op_static_init :: "'h heap_ops \<Rightarrow> 'h pphp_state \<Rightarrow> 'h pphp_state option" where
  "op_static_init ops s = do {
     (slot, s) \<leftarrow> read_u8 s;
     (relative, s) \<leftarrow> read_u16 s;
     on_slot ''static binding slot is invalid'' slot (\<lambda>s. do {
       f \<leftarrow> top_frame s;
       s \<leftarrow> set_slot slot (Cell PNull)
         (set_top (f\<lparr>fr_global_mask := slot_mask_clear (fr_global_mask f) slot,
                     fr_static_mask := slot_mask_set (fr_static_mask f) slot\<rparr>) s);
       (key, s) \<leftarrow> static_slot_key ops slot s;
       (case key of
          None \<Rightarrow> frame_error ''out of memory binding static variable'' s
        | Some key \<Rightarrow> do {
            (existing, ev, h) \<leftarrow> pa_get ops (vm_statics s) (PString key) (vm_heap s);
            let s = log_rc ev (s\<lparr>vm_heap := h\<rparr>);
            (case existing of
               None \<Rightarrow> Some s
             | Some v \<Rightarrow> jump_relative relative (log_rc [Release v] s))
          })
     }) s
   }"

definition op_load_named_const :: "'h heap_ops \<Rightarrow> 'h pphp_state \<Rightarrow> 'h pphp_state option" where
  "op_load_named_const ops s = do {
     (index, s) \<leftarrow> read_u16 s;
     f \<leftarrow> top_frame s;
     (case PbcVerify.constant_string (fr_proto f) index of
        None \<Rightarrow> frame_error ''name constant is invalid'' s
      | Some name \<Rightarrow> do {
          (found, ev, h) \<leftarrow> pa_get ops (vm_constants s) (PString name) (vm_heap s);
          let s = log_rc ev (s\<lparr>vm_heap := h\<rparr>);
          (case found of
             None \<Rightarrow> frame_error (''undefined constant '' @ fmt_string (ps_data name)) s
           | Some v \<Rightarrow> Some (push_value v s))
        })
   }"

definition op_not :: "'h pphp_state \<Rightarrow> 'h pphp_state option" where
  "op_not s =
     (case pop s of (c, s) \<Rightarrow> do {
        t \<leftarrow> truthy (cell_value c) s;
        Some (push_value (pv_bool (\<not> t)) (release_cell c s))
      })"

definition op_jump :: "'h pphp_state \<Rightarrow> 'h pphp_state option" where
  "op_jump s = do { (relative, s) \<leftarrow> read_u16 s; jump_relative relative s }"

definition op_jump_if :: "bool \<Rightarrow> 'h pphp_state \<Rightarrow> 'h pphp_state option" where
  "op_jump_if expected s = do {
     (relative, s) \<leftarrow> read_u16 s;
     (case pop s of (c, s) \<Rightarrow> do {
        t \<leftarrow> truthy (cell_value c) s;
        let s = release_cell c s;
        if t = expected then jump_relative relative s else Some s
      })
   }"

definition op_jump_keep ::
  "(pvalue \<Rightarrow> 'h pphp_state \<Rightarrow> bool option) \<Rightarrow> 'h pphp_state \<Rightarrow> 'h pphp_state option" where
  "op_jump_keep condition s = do {
     (relative, s) \<leftarrow> read_u16 s;
     if vm_stack_count s = 0 then frame_error ''conditional jump on empty stack'' s
     else do {
       take_jump \<leftarrow> condition (cell_value (vm_stack s ! (vm_stack_count s - 1))) s;
       if take_jump then jump_relative relative s else Some (op_pop s)
     }
   }"

definition op_jump_ifnull_keep :: "'h pphp_state \<Rightarrow> 'h pphp_state option" where
  "op_jump_ifnull_keep s = do {
     (relative, s) \<leftarrow> read_u16 s;
     if vm_stack_count s = 0 then frame_error ''conditional jump on empty stack'' s
     else if cell_value (vm_stack s ! (vm_stack_count s - 1)) = PNull then jump_relative relative s
     else Some s
   }"

definition op_call :: "'h heap_ops \<Rightarrow> 'h host \<Rightarrow> 'h pphp_state \<Rightarrow> 'h pphp_state option" where
  "op_call ops host s = do {
     (name, s) \<leftarrow> read_u16 s;
     (count, s) \<leftarrow> read_u8 s;
     call_function ops host name count s
   }"

definition op_new_array :: "'h heap_ops \<Rightarrow> 'h pphp_state \<Rightarrow> 'h pphp_state option" where
  "op_new_array ops s = do {
     (hint, s) \<leftarrow> read_u16 s;
     (r, s) \<leftarrow> new_array ops (unat hint) s;
     (case r of
        None \<Rightarrow> frame_error ''out of memory creating array'' s
      | Some a \<Rightarrow> Some (push_value (PArray a) s))
   }"

definition array_set ::
  "'h heap_ops \<Rightarrow> addr \<Rightarrow> pvalue \<Rightarrow> pvalue \<Rightarrow> 'h pphp_state \<Rightarrow> (bool \<times> 'h pphp_state) option" where
  "array_set ops a key v s = do {
     arr \<leftarrow> vm_arrays s a;
     (ok, arr, ev, h) \<leftarrow> pa_set ops (Some arr) key v (vm_heap s);
     (case arr of
        None \<Rightarrow> None
      | Some arr \<Rightarrow>
          Some (ok, log_rc ev (s\<lparr>vm_heap := h, vm_arrays := (vm_arrays s)(a \<mapsto> arr)\<rparr>)))
   }"

definition op_arr_store :: "'h heap_ops \<Rightarrow> bool \<Rightarrow> 'h pphp_state \<Rightarrow> 'h pphp_state option" where
  "op_arr_store ops appending s =
     (case pop s of (v, s) \<Rightarrow>
        (case (if appending then (Cell PNull, s) else pop s) of (key, s) \<Rightarrow>
           (case pop s of (array_value, s) \<Rightarrow>
              (case cell_value array_value of
                 PArray a \<Rightarrow> do {
                   (ok, s) \<leftarrow> (if appending then array_push ops a (cell_value v) s
                               else array_set ops a (cell_value key) (cell_value v) s);
                   let s = release_cell v (release_cell key s);
                   if \<not> ok then frame_error ''array construction failed'' (release_cell array_value s)
                   else Some (snd (push array_value s))
                 }
               | _ \<Rightarrow>
                   frame_error ''array construction stack is invalid''
                     (release_cell v (release_cell key (release_cell array_value s)))))))"

text \<open>Unpacking: integer keys are renumbered, others kept.\<close>

partial_function (option) extend_from ::
  "'h heap_ops \<Rightarrow> addr \<Rightarrow> addr \<Rightarrow> nat \<Rightarrow> 'h pphp_state \<Rightarrow> (bool \<times> 'h pphp_state) option" where
  "extend_from ops source target position s =
     Option.bind (vm_arrays s source) (\<lambda>src.
       if pa_used src \<le> position then Some (True, s)
       else
         (case pa_entry_at (Some src) position of
            None \<Rightarrow> Some (True, s)
          | Some (key, v, next_position, ev) \<Rightarrow>
              Option.bind
                (case key of
                   PInt _ \<Rightarrow> array_push ops target v (log_rc ev s)
                 | _ \<Rightarrow> array_set ops target key v (log_rc ev s))
                (\<lambda>(ok, s).
                   if ok then extend_from ops source target next_position (log_rc [Release key, Release v] s)
                   else Some (False, log_rc [Release key, Release v] s))))"

definition op_arr_extend :: "'h heap_ops \<Rightarrow> 'h pphp_state \<Rightarrow> 'h pphp_state option" where
  "op_arr_extend ops s =
     (case pop s of (source, s) \<Rightarrow>
        (case pop s of (target, s) \<Rightarrow> do {
           (ok, s) \<leftarrow> (case (cell_value source, cell_value target) of
               (PArray a, PArray b) \<Rightarrow> extend_from ops a b 0 s
             | _ \<Rightarrow> do {
                 s \<leftarrow> frame_error ''only arrays can be unpacked into arrays'' s;
                 Some (False, s)
               });
           let s = release_cell source s;
           if ok then Some (snd (push target s))
           else
             (let s = release_cell target s
              in if vm_error s = [] then frame_error ''array unpacking failed'' s else Some s)
         }))"

section \<open>Iteration\<close>

text \<open>The public properties of an object, by name.\<close>

fun collect_properties ::
  "'h heap_ops \<Rightarrow> addr \<Rightarrow> pvalue list \<Rightarrow> pproperty list \<Rightarrow> 'h pphp_state \<Rightarrow>
     (addr option \<times> 'h pphp_state) option" where
  "collect_properties ops arr slots [] s = Some (Some arr, s)"
| "collect_properties ops arr slots (p # ps) s =
     (if pr_flags p AND (PC_STATIC OR PC_PRIVATE OR PC_PROTECTED) \<noteq> 0
      then collect_properties ops arr slots ps s
      else do {
        v \<leftarrow> rd slots (unat (pr_slot p));
        (ok, s) \<leftarrow> array_set ops arr (PString (pr_name p)) v s;
        if ok then collect_properties ops arr slots ps s
        else Some (None, log_rc [Release (PArray arr)] s)
      })"

definition property_array ::
  "'h heap_ops \<Rightarrow> addr \<Rightarrow> 'h pphp_state \<Rightarrow> (addr option \<times> 'h pphp_state) option" where
  "property_array ops a s = do {
     ob \<leftarrow> vm_objects s a;
     k \<leftarrow> vm_classes s (ob_class ob);
     (r, s) \<leftarrow> new_array ops (length (cl_properties k)) s;
     (case r of
        None \<Rightarrow> Some (None, s)
      | Some arr \<Rightarrow> collect_properties ops arr (ob_slots ob) (cl_properties k) s)
   }"

text \<open>The iterator keeps the array; an array made for an object belongs to it alone.\<close>

definition start_iteration ::
  "'h heap_ops \<Rightarrow> cell \<Rightarrow> bool \<Rightarrow> addr option \<Rightarrow> 'h pphp_state \<Rightarrow> 'h pphp_state option" where
  "start_iteration ops iterable of_object array s = do {
     (it, s) \<leftarrow> pa_iterator_new ops array s;
     let s = release_cell iterable (if of_object then release_option PArray array s else s);
     (case it of
        None \<Rightarrow> frame_error ''out of memory creating iterator'' s
      | Some r \<Rightarrow> Some (push_value (PResource r) s))
   }"

definition op_fe_init :: "'h heap_ops \<Rightarrow> 'h pphp_state \<Rightarrow> 'h pphp_state option" where
  "op_fe_init ops s =
     (case pop s of (c, s) \<Rightarrow>
        (case cell_value c of
           PArray a \<Rightarrow> start_iteration ops c False (Some a) s
         | PObject a \<Rightarrow> do {
             (array, s) \<leftarrow> property_array ops a s;
             start_iteration ops c True array s
           }
         | _ \<Rightarrow> frame_error ''foreach argument must be array or object'' (release_cell c s)))"

definition op_fe_next :: "'h pphp_state \<Rightarrow> 'h pphp_state option" where
  "op_fe_next s = do {
     (relative, s) \<leftarrow> read_u16 s;
     (has_key, s) \<leftarrow> read_u8 s;
     if vm_stack_count s = 0 then frame_error ''invalid foreach iterator'' s
     else
       (case cell_value (vm_stack s ! (vm_stack_count s - 1)) of
          PResource r \<Rightarrow> do {
            (entry, s) \<leftarrow> pa_iterator_next (Some r) s;
            (case entry of
               None \<Rightarrow> jump_relative relative (op_pop s)
             | Some (key, v) \<Rightarrow>
                 Some (push_value v
                   (if has_key \<noteq> 0 then push_value key s else log_rc [Release key] s)))
          }
        | _ \<Rightarrow> frame_error ''invalid foreach iterator'' s)
   }"

definition op_fe_free :: "'h pphp_state \<Rightarrow> 'h pphp_state option" where
  "op_fe_free s =
     (if vm_stack_count s = 0 then frame_error ''invalid foreach cleanup'' s
      else
        (case cell_value (vm_stack s ! (vm_stack_count s - 1)) of
           PResource r \<Rightarrow> Some (op_pop s)
         | _ \<Rightarrow> frame_error ''invalid foreach cleanup'' s))"

section \<open>Classes of values and closures\<close>

definition resolve_class_name :: "pstring \<Rightarrow> 'h pphp_state \<Rightarrow> addr option option" where
  "resolve_class_name name s = do {
     f \<leftarrow> top_frame s;
     if ps_equal_bytes name ''self'' then Some (fr_called_scope f)
     else if ps_equal_bytes name ''parent'' then
       (case fr_called_scope f of
          None \<Rightarrow> Some None
        | Some c \<Rightarrow> do { k \<leftarrow> vm_classes s c; Some (cl_parent k) })
     else if ps_equal_bytes name ''static'' then
       Some (if fr_called_class f = None then fr_called_scope f else fr_called_class f)
     else pphp_find_class (ps_data name) s
   }"

text \<open>\<open>constant_string\<close> of \<open>src/vm.c\<close> reports an error and goes on without a name.\<close>

definition name_constant :: "u16 \<Rightarrow> 'h pphp_state \<Rightarrow> (pstring option \<times> 'h pphp_state) option" where
  "name_constant index s = do {
     f \<leftarrow> top_frame s;
     (case PbcVerify.constant_string (fr_proto f) index of
        None \<Rightarrow> do { s \<leftarrow> frame_error ''name constant is invalid'' s; Some (None, s) }
      | Some name \<Rightarrow> Some (Some name, s))
   }"

definition object_is_a :: "pvalue \<Rightarrow> addr option \<Rightarrow> 'h pphp_state \<Rightarrow> bool option" where
  "object_is_a v expected s =
     (case (v, expected) of
        (PObject a, Some c) \<Rightarrow> do {
          ob \<leftarrow> vm_objects s a;
          pclass_is_a (vm_classes s) (Some c) (Some (ob_class ob))
        }
      | _ \<Rightarrow> Some False)"

definition op_instanceof :: "'h pphp_state \<Rightarrow> 'h pphp_state option" where
  "op_instanceof s = do {
     (index, s) \<leftarrow> read_u16 s;
     (name, s) \<leftarrow> name_constant index s;
     (case pop s of (c, s) \<Rightarrow> do {
        matches \<leftarrow> (case (name, cell_value c) of
            (Some name, PObject a) \<Rightarrow> do {
              expected \<leftarrow> resolve_class_name name s;
              object_is_a (PObject a) expected s
            }
          | _ \<Rightarrow> Some False);
        Some (push_value (pv_bool matches) (release_cell c s))
      })
   }"

definition op_instanceof_dynamic :: "'h pphp_state \<Rightarrow> 'h pphp_state option" where
  "op_instanceof_dynamic s =
     (case pop s of (class_cell, s) \<Rightarrow>
        (case pop s of (c, s) \<Rightarrow> do {
           matches \<leftarrow> (case (cell_value class_cell, cell_value c) of
               (PString name, PObject a) \<Rightarrow> do {
                 expected \<leftarrow> pphp_find_class (ps_data name) s;
                 object_is_a (PObject a) expected s
               }
             | _ \<Rightarrow> Some False);
           Some (push_value (pv_bool matches) (release_cell c (release_cell class_cell s)))
         }))"

text \<open>
  \<open>CLOSURE\<close> lists the slots it captures, each after a byte that must be 0.  A capture that is
  not valid is null and the rest is still read.
\<close>

fun read_captures ::
  "'h heap_ops \<Rightarrow> nat \<Rightarrow> 'h pphp_state \<Rightarrow> (bool \<times> pvalue list \<times> 'h pphp_state) option" where
  "read_captures ops 0 s = Some (True, [], s)"
| "read_captures ops (Suc n) s = do {
     (kind, s) \<leftarrow> read_u8 s;
     (slot, s) \<leftarrow> read_u8 s;
     f \<leftarrow> top_frame s;
     (ok, v, s) \<leftarrow> (if kind \<noteq> 0 \<or> n_locals (fr_proto f) \<le> unat slot then Some (False, PNull, s)
                 else read_local_value ops slot False s);
     (valid, vs, s) \<leftarrow> read_captures ops n s;
     Some (ok \<and> valid, v # vs, s)
   }"

definition op_closure :: "'h heap_ops \<Rightarrow> 'h pphp_state \<Rightarrow> 'h pphp_state option" where
  "op_closure ops s = do {
     (proto_index, s) \<leftarrow> read_u16 s;
     (capture_count, s) \<leftarrow> read_u8 s;
     f \<leftarrow> top_frame s;
     proto \<leftarrow> (case fr_module f of
         None \<Rightarrow> Some None
       | Some m \<Rightarrow> do { code \<leftarrow> vm_modules s m; Some (rd (protos code) (unat proto_index)) });
     (valid, captures, s) \<leftarrow> read_captures ops (unat capture_count) s;
     if \<not> valid \<or> proto = None then
       frame_error ''invalid CLOSURE instruction'' (log_rc (map Release (rev captures)) s)
     else do {
       (closure, s) \<leftarrow> pclosure_new ops proto (fr_module f) (fr_called_scope f) (fr_called_class f) captures s;
       let s = log_rc (map Release captures) s;
       (case closure of
          None \<Rightarrow> frame_error ''out of memory creating closure'' s
        | Some a \<Rightarrow> Some (push_value (PClosure a) s))
     }
   }"

section \<open>Exceptions and lines\<close>

text \<open>\<open>THROW\<close> also tells whether the exception has been processed.\<close>

definition op_throw :: "'h heap_ops \<Rightarrow> nat \<Rightarrow> 'h pphp_state \<Rightarrow> (bool \<times> 'h pphp_state) option" where
  "op_throw ops instruction_pc s =
     (case pop s of (c, s) \<Rightarrow> do {
        throwable \<leftarrow> (case cell_value c of
            PObject a \<Rightarrow> pphp_object_is_throwable (Some a) s
          | _ \<Rightarrow> Some False);
        if \<not> throwable then do {
          s \<leftarrow> frame_error ''Can only throw objects implementing Throwable'' (release_cell c s);
          Some (False, s)
        }
        else do {
          (_, s) \<leftarrow> throw_exception ops (cell_value c) instruction_pc s;
          Some (True, s)
        }
      })"

definition op_line :: "'h pphp_state \<Rightarrow> 'h pphp_state option" where
  "op_line s = do {
     (line, s) \<leftarrow> read_u16 s;
     f \<leftarrow> top_frame s;
     Some (set_top (f\<lparr>fr_line := ucast line\<rparr>) s)
   }"

section \<open>The switch\<close>

definition plain_instruction ::
  "'h heap_ops \<Rightarrow> 'h host \<Rightarrow> u8 \<Rightarrow> 'h pphp_state \<Rightarrow> 'h pphp_state option" where
  "plain_instruction ops host opcode s =
     (if opcode = OP_NOP then Some s
      else if opcode = OP_HALT then op_halt ops s
      else if opcode = OP_POP then Some (op_pop s)
      else if opcode = OP_DUP then op_dup s
      else if opcode = OP_SWAP then op_swap s
      else if opcode = OP_LOAD_NULL then Some (push_value PNull s)
      else if opcode = OP_LOAD_TRUE then Some (push_value (pv_bool True) s)
      else if opcode = OP_LOAD_FALSE then Some (push_value (pv_bool False) s)
      else if opcode = OP_LOAD_I8 then do { (b, s) \<leftarrow> read_u8 s; Some (push_value (PInt (scast b)) s) }
      else if opcode = OP_LOAD_I32 then do { (i, s) \<leftarrow> read_i32 s; Some (push_value (PInt i) s) }
      else if opcode = OP_LOAD_CONST then op_load_const s
      else if opcode = OP_LOAD_LOCAL then op_load_local ops False s
      else if opcode = OP_LOAD_LOCAL_QUIET then op_load_local ops True s
      else if opcode = OP_STORE_LOCAL then op_store_local ops s
      else if opcode = OP_UNSET_LOCAL then op_unset_local ops s
      else if opcode = OP_LOAD_ARGC
        then do { f \<leftarrow> top_frame s; Some (push_value (PInt (ucast (fr_argument_count f))) s) }
      else if opcode = OP_BIND_GLOBAL then op_bind_global s
      else if opcode = OP_STATIC_INIT then op_static_init ops s
      else if opcode = OP_LOAD_NAMED_CONST then op_load_named_const ops s
      else if opcode = OP_NOT then op_not s
      else if opcode = OP_JMP then op_jump s
      else if opcode = OP_JMP_IF then op_jump_if True s
      else if opcode = OP_JMP_UNLESS then op_jump_if False s
      else if opcode = OP_JMP_IF_KEEP then op_jump_keep truthy s
      else if opcode = OP_JMP_UNLESS_KEEP then op_jump_keep (\<lambda>v s. map_option Not (truthy v s)) s
      else if opcode = OP_JMP_NOTNULL_KEEP then op_jump_keep (\<lambda>v s. Some (v \<noteq> PNull)) s
      else if opcode = OP_JMP_IFNULL_KEEP then op_jump_ifnull_keep s
      else if opcode = OP_CALL then op_call ops host s
      else if opcode = OP_RET then (case pop s of (c, s) \<Rightarrow> return_from_function ops c s)
      else if opcode = OP_RET_NULL then return_from_function ops (Cell PNull) s
      else if opcode = OP_NEW_ARRAY then op_new_array ops s
      else if opcode = OP_ARR_PUSH then op_arr_store ops True s
      else if opcode = OP_ARR_SET then op_arr_store ops False s
      else if opcode = OP_ARR_EXTEND then op_arr_extend ops s
      else if opcode = OP_FE_INIT then op_fe_init ops s
      else if opcode = OP_FE_NEXT then op_fe_next s
      else if opcode = OP_FE_FREE then op_fe_free s
      else if opcode = OP_INSTANCEOF then op_instanceof s
      else if opcode = OP_INSTANCEOF_DYNAMIC then op_instanceof_dynamic s
      else if opcode = OP_CLOSURE then op_closure ops s
      else if opcode = OP_LINE then op_line s
      else None)"

text \<open>The message of the default case, with the byte in two hexadecimal digits.\<close>

definition hex_digit_char :: "nat \<Rightarrow> char" where
  "hex_digit_char d = ''0123456789abcdef'' ! d"

definition unknown_opcode :: "u8 \<Rightarrow> bytes" where
  "unknown_opcode opcode =
     ''unknown opcode 0x'' @ [hex_digit_char (unat opcode div 16), hex_digit_char (unat opcode mod 16)]"

text \<open>The labels of the switch.\<close>

definition switch_labels :: "u8 list" where
  "switch_labels = [
      OP_NOP, OP_HALT, OP_POP, OP_DUP, OP_SWAP, OP_LOAD_NULL, OP_LOAD_TRUE, OP_LOAD_FALSE,
      OP_LOAD_I8, OP_LOAD_I32, OP_LOAD_CONST, OP_LOAD_LOCAL, OP_LOAD_LOCAL_QUIET,
      OP_STORE_LOCAL, OP_UNSET_LOCAL, OP_LOAD_ARGC, OP_BIND_GLOBAL, OP_STATIC_INIT,
      OP_LOAD_NAMED_CONST, OP_ADD, OP_SUB, OP_MUL, OP_DIV, OP_MOD, OP_POW, OP_CONCAT, OP_BAND,
      OP_BOR, OP_BXOR, OP_SHL, OP_SHR, OP_NEG, OP_BNOT, OP_EQ, OP_NE, OP_IDENT, OP_NIDENT,
      OP_LT, OP_LE, OP_GT, OP_GE, OP_CMP, OP_NOT, OP_CAST, OP_JMP, OP_JMP_IF, OP_JMP_UNLESS,
      OP_JMP_IF_KEEP, OP_JMP_UNLESS_KEEP, OP_JMP_NOTNULL_KEEP, OP_JMP_IFNULL_KEEP, OP_CALL,
      OP_CALL_VALUE, OP_CALL_ARRAY, OP_CALL_VALUE_ARRAY, OP_INCLUDE, OP_RET, OP_RET_NULL,
      OP_ECHO, OP_NEW_ARRAY, OP_ARR_PUSH, OP_ARR_SET, OP_ARR_EXTEND, OP_ARR_SEPARATE,
      OP_IDX_GET, OP_IDX_GET_QUIET, OP_IDX_SET, OP_IDX_APPEND, OP_IDX_UNSET, OP_FE_INIT,
      OP_FE_NEXT, OP_FE_FREE, OP_DEF_FUNC, OP_DEF_CLASS, OP_DEF_PROP, OP_DEF_INTERFACE,
      OP_DEF_CCONST, OP_DEF_METHOD, OP_DEF_CONST, OP_DEF_END, OP_NEW_OBJ, OP_NEW_OBJ_ARRAY,
      OP_NEW_OBJ_DYNAMIC, OP_NEW_OBJ_DYNAMIC_ARRAY, OP_PROP_GET_QUIET,
      OP_PROP_GET_DYNAMIC_QUIET, OP_PROP_GET, OP_PROP_GET_DYNAMIC, OP_PROP_SET,
      OP_PROP_SET_DYNAMIC, OP_MCALL, OP_MCALL_ARRAY, OP_MCALL_DYNAMIC, OP_MCALL_DYNAMIC_ARRAY,
      OP_SCALL, OP_SCALL_ARRAY, OP_SPROP_GET, OP_SPROP_SET, OP_CLSCONST, OP_INSTANCEOF,
      OP_INSTANCEOF_DYNAMIC, OP_CLOSURE, OP_THROW, OP_CLONE, OP_LINE]"

definition vm_switch ::
  "'h heap_ops \<Rightarrow> 'h host \<Rightarrow> u8 \<Rightarrow> nat \<Rightarrow> 'h pphp_state \<Rightarrow> (bool \<times> 'h pphp_state) option" where
  "vm_switch ops host opcode instruction_pc s =
     (if opcode = OP_THROW then op_throw ops instruction_pc s
      else if opcode \<notin> set switch_labels then do {
        s \<leftarrow> frame_error (unknown_opcode opcode) s;
        Some (False, s)
      }
      else do { s \<leftarrow> plain_instruction ops host opcode s; Some (False, s) })"

text \<open>One turn of the loop: fetch, execute, and make a pending error an exception.\<close>

definition vm_step ::
  "'h heap_ops \<Rightarrow> 'h host \<Rightarrow> 'h invoke_function option \<Rightarrow> 'h pphp_state \<Rightarrow> 'h pphp_state option" where
  "vm_step ops host invoke s = do {
     f \<leftarrow> top_frame s;
     let instruction_pc = fr_pc f;
     (opcode, s) \<leftarrow> read_u8 s;
     (exception_processed, s) \<leftarrow> vm_switch ops host opcode instruction_pc s;
     if vm_error s \<noteq> [] \<and> \<not> exception_processed then convert_runtime_error ops invoke instruction_pc s
     else Some s
   }"

text \<open>The condition of the loop; the loop itself may not end.\<close>

definition vm_running :: "'h pphp_state \<Rightarrow> bool" where
  "vm_running s \<longleftrightarrow> vm_frames s \<noteq> [] \<and> vm_error s = [] \<and> \<not> vm_exit_requested s"

partial_function (option) vm_loop ::
  "'h heap_ops \<Rightarrow> 'h host \<Rightarrow> 'h invoke_function option \<Rightarrow> 'h pphp_state \<Rightarrow> 'h pphp_state option" where
  "vm_loop ops host invoke s =
     (if vm_running s then Option.bind (vm_step ops host invoke s) (vm_loop ops host invoke) else Some s)"

section \<open>Execution of a module\<close>

definition missing_method_message :: "bytes \<Rightarrow> pmethod option \<Rightarrow> bytes" where
  "missing_method_message class_name missing =
     ''class '' @ fmt_string class_name @ '' must implement method '' @
     (case missing of None \<Rightarrow> [] | Some m \<Rightarrow> fmt_string (ps_data (me_name m))) @ ''()''"

fun validate_classes ::
  "u32 \<Rightarrow> bool \<Rightarrow> addr list \<Rightarrow> 'h pphp_state \<Rightarrow> (bool \<times> 'h pphp_state) option" where
  "validate_classes line reject_pending [] s = Some (True, s)"
| "validate_classes line reject_pending (a # as) s = do {
     (complete, missing) \<leftarrow> pclass_is_complete (vm_classes s) (Some a);
     if complete \<noteq> METHOD_INCOMPATIBLE \<and> (\<not> reject_pending \<or> complete = METHOD_COMPATIBLE)
     then validate_classes line reject_pending as s
     else do {
       k \<leftarrow> vm_classes s a;
       Some (False, pphp_runtime_error line (missing_method_message (ps_data (cl_name k)) missing) s)
     }
   }"

definition validate_class_signatures ::
  "u32 \<Rightarrow> bool \<Rightarrow> 'h pphp_state \<Rightarrow> (bool \<times> 'h pphp_state) option" where
  "validate_class_signatures line reject_pending s =
     validate_classes line reject_pending (vm_class_table s) s"

text \<open>
  What \<open>pphp_vm_execute\<close> does before the loop and after it.  Without the instructions that
  define classes no class is under construction (\<open>building_class\<close> is \<open>NULL\<close>).
\<close>

definition drain :: "'h heap_ops \<Rightarrow> 'h pphp_state \<Rightarrow> 'h pphp_state option" where
  "drain ops s =
     release_all_frames ops ((release_range 0 (vm_stack_count s) s)\<lparr>vm_stack_count := 0\<rparr>)"

definition vm_start :: "addr \<Rightarrow> pproto \<Rightarrow> 'h pphp_state \<Rightarrow> 'h pphp_state" where
  "vm_start module entry s =
     s\<lparr>vm_module := Some module, vm_stack_count := n_locals entry,
       vm_frames := [(new_frame entry module 0 0)\<lparr>fr_all_globals := True\<rparr>],
       vm_stack := undefine 0 (n_locals entry) (vm_stack s)\<rparr>"

definition vm_finish :: "'h heap_ops \<Rightarrow> 'h pphp_state \<Rightarrow> (bool \<times> 'h pphp_state) option" where
  "vm_finish ops s = do {
     s \<leftarrow> (if vm_error s = [] \<and> \<not> vm_capture_halt_result s
          then map_option snd (validate_class_signatures 0 True s) else Some s);
     if vm_error s \<noteq> [] then do { s \<leftarrow> drain ops s; Some (False, s) }
     else if vm_exit_requested s then do { s \<leftarrow> drain ops s; Some (True, s) }
     else Some (True, s)
   }"

definition pphp_vm_execute ::
  "'h heap_ops \<Rightarrow> 'h host \<Rightarrow> 'h invoke_function option \<Rightarrow> addr option \<Rightarrow> 'h pphp_state \<Rightarrow>
     (bool \<times> 'h pphp_state) option" where
  "pphp_vm_execute ops host invoke module s =
     (case module of
        None \<Rightarrow> Some (False, pphp_runtime_error 0 ''module has no entry point'' s)
      | Some m \<Rightarrow> do {
          code \<leftarrow> vm_modules s m;
          (case protos code of
             [] \<Rightarrow> Some (False, pphp_runtime_error 0 ''module has no entry point'' s)
           | entry # _ \<Rightarrow> do {
               found \<leftarrow> pphp_find_class ''Throwable'' s;
               (ok, s) \<leftarrow> (if found = None then pphp_register_exception_classes ops invoke s
                          else Some (True, s));
               if \<not> ok then Some (False, pphp_runtime_error 0 ''cannot initialize exception classes'' s)
               else do {
                 s \<leftarrow> vm_loop ops host invoke (vm_start m entry s);
                 vm_finish ops s
               }
             })
        })"

end
