(* ===== verification/ArrayRefs.thy ===== *)
theory ArrayRefs
  imports ArrayProps
begin

unbundle bit_operations_syntax

text \<open>
  The references an array holds, without any assumption about the memory it is in: the only
  thing asked of the array is that a packed one has no deleted entries.  Every operation
  keeps this, and what it retains and releases accounts for the change of what it holds.
\<close>

definition tidy :: "parray \<Rightarrow> bool" where
  "tidy a \<longleftrightarrow> (pa_packed a \<longrightarrow> (\<forall>e \<in> set (pa_entries a). pe_key e \<noteq> PNull))"

lemma tidy_empty [simp]: "tidy (empty_array p)"
  by (simp add: tidy_def empty_array_def)

lemma refs_empty [simp]: "refs (empty_array p) = {#}"
  by (simp add: refs_def empty_array_def)

lemma tidy_cong: "pa_packed a' = pa_packed a \<Longrightarrow> pa_entries a' = pa_entries a \<Longrightarrow> tidy a' = tidy a"
  by (simp add: tidy_def)

lemma refs_cong: "pa_entries a' = pa_entries a \<Longrightarrow> refs a' = refs a"
  by (simp add: refs_def)

lemma link_entries_same:
  "link_entries n i es bk = (es', bk') \<Longrightarrow> map pe_key es' = map pe_key es \<and> map pe_value es' = map pe_value es"
  by (induction n i es bk arbitrary: es' bk' rule: link_entries.induct)
    (auto simp: Let_def split: prod.splits if_splits)

lemma ensure_entries_refs:
  "ensure_entries ops a n h = (ok, a', h') \<Longrightarrow>
     refs a' = refs a \<and> pa_entries a' = pa_entries a \<and> pa_packed a' = pa_packed a \<and> pa_addr a' = pa_addr a"
  by (auto simp: ensure_entries_def Let_def refs_def split: if_splits prod.splits option.splits)

lemma rehash_refs:
  "rehash ops a n h = (ok, a', h') \<Longrightarrow>
     refs a' = refs a \<and> (tidy a \<longrightarrow> tidy a') \<and> (ok \<longrightarrow> \<not> pa_packed a') \<and> pa_addr a' = pa_addr a"
  by (auto simp: rehash_def Let_def refs_def tidy_def split: if_splits prod.splits option.splits
      dest!: link_entries_same entry_refs_cong)

lemma promote_hash_refs:
  "promote_hash ops a h = (ok, a', h') \<Longrightarrow>
     refs a' = refs a \<and> (tidy a \<longrightarrow> tidy a') \<and> (ok \<longrightarrow> \<not> pa_packed a') \<and> pa_addr a' = pa_addr a"
  unfolding promote_hash_def by (rule rehash_refs)

lemma keys_equal_not_null: "keys_equal k key \<Longrightarrow> k \<noteq> PNull"
  by (cases k) auto

lemma find_loop_key:
  assumes "find_loop es key link cursor = Some r"
  shows "\<forall>i. fst r = Some i \<longrightarrow> i < length es \<and> pe_key (es ! i) \<noteq> PNull"
proof (rule find_loop.raw_induct [where P = "\<lambda>es key link cursor r.
    \<forall>i. fst r = Some i \<longrightarrow> i < length es \<and> pe_key (es ! i) \<noteq> PNull", OF _ assms])
  fix f es key link cursor r
  assume "\<And>es key link cursor r. f es key link cursor = Some r \<Longrightarrow>
      \<forall>i. fst r = Some i \<longrightarrow> i < length es \<and> pe_key (es ! i) \<noteq> PNull"
    and "(if cursor = EMPTY_BUCKET then Some (None, link)
      else case rd es cursor of None \<Rightarrow> None
        | Some e \<Rightarrow> if keys_equal (pe_key e) key then Some (Some cursor, link)
            else f es key (InEntry cursor) (pe_next e)) = Some r"
  then show "\<forall>i. fst r = Some i \<longrightarrow> i < length es \<and> pe_key (es ! i) \<noteq> PNull"
    by (auto split: if_splits option.splits dest: keys_equal_not_null simp: rd_eq_Some_iff)
qed

lemma find_entry_key:
  assumes "find_entry a key = Some (Some i, l)" "tidy a"
  shows "i < pa_used a \<and> pe_key (pa_entries a ! i) \<noteq> PNull"
proof (cases "pa_packed a")
  case True
  with assms(1) obtain j where j: "key = PInt j"
    by (cases key) (auto simp: find_entry_def)
  with assms(1) True have i: "i = unat j" "0 \<le>s j" "sint j < int (pa_used a)"
    by (auto simp: find_entry_def split: if_splits)
  then have "0 \<le> sint j" by (simp add: word_sle_eq)
  from nat_sint32 [OF this] this i have "i < pa_used a" by linarith
  then show ?thesis using assms(2) True by (simp add: tidy_def)
next
  case False
  show ?thesis
  proof (cases "pa_bucket_count a = 0")
    case True
    then show ?thesis using assms(1) False by (simp add: find_entry_def)
  next
    case nonzero: False
    from assms(1) False nonzero obtain link cursor r where
      "find_loop (pa_entries a) key link cursor = Some r" "fst r = Some i"
      by (auto simp: find_entry_def Let_def split: if_splits option.splits)
    from find_loop_key [OF this(1)] this(2) show ?thesis by blast
  qed
qed

section \<open>Storing and deleting\<close>

lemma set_updateD: "x \<in> set (xs[i := y]) \<Longrightarrow> x = y \<or> x \<in> set xs"
  by (meson insertE set_update_subset_insert subsetD)

lemma replace_value_refs:
  assumes "i < pa_used a" "pe_key (pa_entries a ! i) \<noteq> PNull"
  shows "refs (a\<lparr>pa_entries := (pa_entries a)[i := (pa_entries a ! i)\<lparr>pe_value := v\<rparr>]\<rparr>) +
    {#pe_value (pa_entries a ! i)#} = refs a + {#v#}"
  using entry_refs_update [OF assms(1), of "(pa_entries a ! i)\<lparr>pe_value := v\<rparr>"] assms(2)
  by (simp add: refs_def entry_refs_def)

lemma append_entry_refs:
  assumes "key \<noteq> PNull"
  shows "refs (append_entry a key v) = refs a + {#key, v#}" "tidy a \<Longrightarrow> tidy (append_entry a key v)"
    "pa_addr (append_entry a key v) = pa_addr a"
proof -
  let ?e = "\<lambda>n. \<lparr>pe_key = key, pe_value = v, pe_next = n\<rparr>"
  obtain n where e: "pa_entries (append_entry a key v) = pa_entries a @ [?e n]"
    and p: "pa_packed (append_entry a key v) = pa_packed a"
  proof (cases "pa_packed a")
    case True
    then show ?thesis
      by (intro that [of EMPTY_BUCKET]) (simp_all add: append_entry_def Let_def split: pvalue.split)
  next
    case False
    then show ?thesis
      by (intro that [of "pa_buckets a ! (unat (key_hash key) AND (pa_bucket_count a - 1))"])
        (simp_all add: append_entry_def Let_def split: pvalue.split)
  qed
  from e show "refs (append_entry a key v) = refs a + {#key, v#}"
    using assms by (simp add: refs_def entry_refs_def)
  show "tidy a \<Longrightarrow> tidy (append_entry a key v)" using e p assms by (auto simp: tidy_def)
  show "pa_addr (append_entry a key v) = pa_addr a"
    by (simp add: append_entry_def Let_def split: pvalue.split)
qed

lemma pa_store_refs:
  assumes ret: "pa_store ops a v key h = Some (ok, a', ev, h')" and "tidy a" "key \<noteq> PNull"
  shows "refs a' + losses ev = refs a + gains ev \<and> tidy a' \<and> pa_addr a' = pa_addr a"
proof (cases "find_entry a key")
  case None
  then show ?thesis using ret by (simp add: pa_store_def)
next
  case (Some r)
  obtain found l where r: "r = (found, l)" by force
  show ?thesis
  proof (cases found)
    case (Some i)
    from find_entry_key [of a key i l] \<open>find_entry a key = Some r\<close> r Some assms(2)
    have i: "i < pa_used a" "pe_key (pa_entries a ! i) \<noteq> PNull" by auto
    have eq: "a' = a\<lparr>pa_entries := (pa_entries a)[i := (pa_entries a ! i)\<lparr>pe_value := v\<rparr>]\<rparr>"
      "ev = [Retain v, Release (pe_value (pa_entries a ! i))]"
      using ret \<open>find_entry a key = Some r\<close> r Some i by (auto simp: pa_store_def)
    have "tidy a'" using assms(2) i eq(1) by (auto simp: tidy_def dest!: set_updateD)
    then show ?thesis using replace_value_refs [OF i, of v] eq by simp
  next
    case none: None
    obtain ok1 a1 h1 where 1: "(if pa_packed a \<and> \<not> (case key of PInt i \<Rightarrow> sint i = int (pa_used a) | _ \<Rightarrow> False)
      then promote_hash ops a h else (True, a, h)) = (ok1, a1, h1)" by (metis prod_cases3)
    have k1: "refs a1 = refs a \<and> tidy a1 \<and> pa_addr a1 = pa_addr a"
      using 1 assms(2) promote_hash_refs [of ops a h ok1 a1 h1] by (auto split: if_splits)
    obtain ok2 a2 h2 where 2: "(if \<not> pa_packed a1 \<and> pa_bucket_count a1 * 3 < (pa_size a1 + 1) * 4
      then rehash ops a1 (pa_bucket_count a1 * 2) h1 else (True, a1, h1)) = (ok2, a2, h2)" by (metis prod_cases3)
    have k2: "refs a2 = refs a \<and> tidy a2 \<and> pa_addr a2 = pa_addr a"
      using 2 k1 rehash_refs [of ops a1 "pa_bucket_count a1 * 2" h1 ok2 a2 h2] by (auto split: if_splits)
    obtain ok3 a3 h3 where 3: "ensure_entries ops a2 (pa_used a2 + 1) h2 = (ok3, a3, h3)" by (metis prod_cases3)
    have k3: "refs a3 = refs a \<and> tidy a3 \<and> pa_addr a3 = pa_addr a"
      using ensure_entries_refs [OF 3] k2 tidy_cong [of a3 a2] by auto
    show ?thesis
      using ret \<open>find_entry a key = Some r\<close> none r 1 2 3 k1 k2 k3 append_entry_refs [OF assms(3), of a3 v]
      by (cases ok1; cases ok2; cases ok3) (auto simp: pa_store_def simp del: One_nat_def)
  qed
qed

lemma store_link_refs:
  "refs (store_link l i a) = refs a" "pa_packed (store_link l i a) = pa_packed a"
  "map pe_key (pa_entries (store_link l i a)) = map pe_key (pa_entries a)"
  "map pe_value (pa_entries (store_link l i a)) = map pe_value (pa_entries a)"
  "pa_addr (store_link l i a) = pa_addr a"
proof -
  show k: "map pe_key (pa_entries (store_link l i a)) = map pe_key (pa_entries a)"
    by (cases l) (simp_all add: map_update list_update_id_nth)
  show v: "map pe_value (pa_entries (store_link l i a)) = map pe_value (pa_entries a)"
    by (cases l) (simp_all add: map_update list_update_id_nth)
  show "refs (store_link l i a) = refs a" unfolding refs_def by (rule entry_refs_cong [OF k v])
qed (cases l; simp)+

lemma pa_delete_refs:
  assumes ret: "pa_delete ops a key h = Some (ok, a', ev, h')" and "tidy a"
  shows "refs a' + losses ev = refs a + gains ev \<and> tidy a' \<and> pa_addr a' = pa_addr a"
proof -
  obtain ok1 a1 h1 where 1: "(if pa_packed a then promote_hash ops a h else (True, a, h)) = (ok1, a1, h1)"
    by (metis prod_cases3)
  have k1: "refs a1 = refs a \<and> tidy a1 \<and> (ok1 \<longrightarrow> \<not> pa_packed a1) \<and> pa_addr a1 = pa_addr a"
    using 1 assms(2) promote_hash_refs [of ops a h ok1 a1 h1] by (auto split: if_splits)
  show ?thesis
  proof (cases ok1)
    case False
    then show ?thesis using ret 1 k1 by (auto simp: pa_delete_def)
  next
    case ok: True
    show ?thesis
    proof (cases "find_entry a1 key")
      case None
      then show ?thesis using ret 1 ok by (simp add: pa_delete_def)
    next
      case (Some r)
      obtain found l where r: "r = (found, l)" by force
      show ?thesis
      proof (cases found)
        case None
        then show ?thesis using ret 1 ok Some r k1 by (auto simp: pa_delete_def)
      next
        case found: (Some i)
        from find_entry_key [of a1 key i l] Some r found k1
        have i: "i < pa_used a1" "pe_key (pa_entries a1 ! i) \<noteq> PNull" by auto
        define a2 where "a2 = (case l of None \<Rightarrow> a1 | Some l \<Rightarrow> store_link l (pe_next (pa_entries a1 ! i)) a1)"
        have s2: "map pe_key (pa_entries a2) = map pe_key (pa_entries a1)"
          "map pe_value (pa_entries a2) = map pe_value (pa_entries a1)"
          "refs a2 = refs a1" "pa_packed a2 = pa_packed a1" "pa_addr a2 = pa_addr a1"
          by (auto simp: a2_def store_link_refs split: option.split)
        have len: "pa_used a2 = pa_used a1" using s2(1) map_eq_imp_length_eq by blast
        have nth: "pe_key (pa_entries a2 ! i) = pe_key (pa_entries a1 ! i)"
          "pe_value (pa_entries a2 ! i) = pe_value (pa_entries a1 ! i)"
          using s2(1,2) i(1) len by (metis nth_map)+
        have eq: "a' = a2\<lparr>pa_entries := (pa_entries a2)[i := \<lparr>pe_key = PNull, pe_value = PNull, pe_next = EMPTY_BUCKET\<rparr>],
            pa_size := pa_size a2 - 1\<rparr>"
          "ev = [Release (pe_key (pa_entries a1 ! i)), Release (pe_value (pa_entries a1 ! i))]"
          using ret 1 ok Some r found i by (auto simp: pa_delete_def a2_def Let_def split: option.splits)
        have "refs a' + {#pe_key (pa_entries a1 ! i), pe_value (pa_entries a1 ! i)#} = refs a2"
          using entry_refs_update [of i "pa_entries a2" "\<lparr>pe_key = PNull, pe_value = PNull, pe_next = EMPTY_BUCKET\<rparr>"]
            i len nth unfolding eq(1) refs_def by (simp add: entry_refs_def)
        then show ?thesis using s2 k1 ok eq by (simp add: tidy_def)
      qed
    qed
  qed
qed

section \<open>The public operations\<close>

lemma normalize_key_not_null: "normalize_key ops input h = (Some (key, t), h') \<Longrightarrow> key \<noteq> PNull"
  by (cases input) (auto simp: normalize_key_def split: option.splits prod.splits)

lemma with_key_refs:
  assumes ret: "with_key ops a input h body = Some (ok, b, ev, h')"
    and body: "\<And>key h ok a' ev h'. key \<noteq> PNull \<Longrightarrow> body key h = Some (ok, a', ev, h') \<Longrightarrow>
      refs a' + losses ev = refs a + gains ev \<and> tidy a' \<and> pa_addr a' = pa_addr a"
    and "tidy a"
  shows "\<exists>a'. b = Some a' \<and> refs a' + losses ev = refs a + gains ev \<and> tidy a' \<and> pa_addr a' = pa_addr a"
proof -
  obtain n h1 where n: "normalize_key ops input h = (n, h1)" by force
  show ?thesis
  proof (cases n)
    case None
    then show ?thesis using ret n assms(3) by (auto simp: with_key_def)
  next
    case (Some kt)
    obtain key t where kt: "kt = (key, t)" by force
    obtain ok1 a1 ev1 h2 where b1: "body key h1 = Some (ok1, a1, ev1, h2)"
      using ret n Some kt by (auto simp: with_key_def split: option.splits)
    have "normalize_key ops input h = (Some (key, t), h1)" using n Some kt by simp
    from body [OF normalize_key_not_null [OF this] b1] have
      eq: "refs a1 + losses ev1 = refs a + gains ev1" and k: "tidy a1" "pa_addr a1 = pa_addr a" by simp_all
    have r: "b = Some a1" "ev = temporary_created t key @ ev1 @ release_temporary t key"
      using ret n Some kt b1 by (simp_all add: with_key_def)
    have "refs a1 + losses ev = (refs a1 + losses ev1) + losses (release_temporary t key)"
      by (simp add: r(2))
    also have "\<dots> = refs a + gains ev" unfolding eq by (simp add: r(2) ac_simps)
    finally show ?thesis using r(1) k by simp
  qed
qed

lemma pa_set_refs:
  "pa_set ops (Some a) input v h = Some (ok, b, ev, h') \<Longrightarrow> tidy a \<Longrightarrow>
     \<exists>a'. b = Some a' \<and> refs a' + losses ev = refs a + gains ev \<and> tidy a' \<and> pa_addr a' = pa_addr a"
  unfolding pa_set_def option.case by (erule with_key_refs) (rule pa_store_refs; assumption)

lemma pa_push_refs:
  "pa_push ops (Some a) v h = Some (ok, b, ev, h') \<Longrightarrow> tidy a \<Longrightarrow>
     \<exists>a'. b = Some a' \<and> refs a' + losses ev = refs a + gains ev \<and> tidy a' \<and> pa_addr a' = pa_addr a"
  by (rule pa_set_refs [of ops a "PInt (pa_next_index a)" v h]) (simp_all add: pa_push_def)

lemma pa_remove_refs:
  "pa_remove ops (Some a) input h = Some (ok, b, ev, h') \<Longrightarrow> tidy a \<Longrightarrow>
     \<exists>a'. b = Some a' \<and> refs a' + losses ev = refs a + gains ev \<and> tidy a' \<and> pa_addr a' = pa_addr a"
  unfolding pa_remove_def option.case by (erule with_key_refs) (rule pa_delete_refs; assumption)

lemma pa_get_refs:
  "pa_get ops a input h = Some (r, ev, h') \<Longrightarrow>
     gains ev = losses ev + (case r of None \<Rightarrow> {#} | Some v \<Rightarrow> {#v#})"
  by (auto simp: pa_get_def Let_def split: option.splits prod.splits)

lemma pa_new_refs: "pa_new ops n h = (Some a, h') \<Longrightarrow> refs a = {#} \<and> tidy a"
  by (auto simp: pa_new_def Let_def tidy_def refs_def empty_array_def ensure_entries_def
      split: prod.splits option.splits if_splits)

lemma pa_destroy_refs: "pa_destroy ops a h = (ev, h') \<Longrightarrow>
    losses ev = (case a of None \<Rightarrow> {#} | Some a \<Rightarrow> refs a) \<and> gains ev = {#}"
  by (auto simp: pa_destroy_def Let_def refs_def entry_refs_released split: option.splits)

end
