(* ===== verification/Accounts.thy ===== *)
theory Accounts
  imports "HOL-Library.Multiset"
begin

text \<open>
  Accounts of owned things.  \<open>R s A s' B\<close> relates a state and what a caller owns before an
  operation to a state and what it owns after.  Three laws are enough to run the accounts of
  a sequence of operations: nothing changes without one, two of them follow each other, and
  what an operation does not touch stays with its owner.
\<close>

locale accounts =
  fixes R :: "'s \<Rightarrow> 'v multiset \<Rightarrow> 's \<Rightarrow> 'v multiset \<Rightarrow> bool"
  assumes idle: "R s A s A"
    and then_step: "R s A s' B \<Longrightarrow> R s' B s'' C \<Longrightarrow> R s A s'' C"
    and untouched: "R s A s' B \<Longrightarrow> R s (A + C) s' (B + C)"
begin

lemma spend: "R s A s' {#} \<Longrightarrow> R s (A + C) s' C"
  using untouched [of s A s' "{#}" C] by simp

lemma earn: "R s {#} s' B \<Longrightarrow> R s C s' (B + C)"
  using untouched [of s "{#}" s' B C] by simp

lemma keep: "R s {#} s' {#} \<Longrightarrow> R s C s' C"
  using untouched [of s "{#}" s' "{#}" C] by simp

lemma spend_one: "R s {#v#} s' {#} \<Longrightarrow> R s (add_mset v C) s' C"
  using spend [of s "{#v#}" s' C] by simp

lemma earn_one: "R s {#} s' {#v#} \<Longrightarrow> R s C s' (add_mset v C)"
  using earn [of s s' "{#v#}" C] by simp

lemma earn_then_spend: "R s {#} s' B \<Longrightarrow> R s' B s'' {#} \<Longrightarrow> R s C s'' C"
  by (rule keep) (rule then_step)

end

end
