(* ===== verification/VmInv.thy ===== *)
theory VmInv
  imports VmStep ArrayRefs Accounts
begin

text \<open>
  Accounting for references.  \<open>held\<close> is the multiset of references that the state owns: the
  slots of the stack in use, the pending results of constructors, variables, arrays, objects
  and classes.  A reference is acquired by a creation or a retain and given up by a release;
  only values with a header are counted.  \<open>balance s A s' B\<close> states that between \<open>s\<close> and \<open>s'\<close>
  nothing is lost and nothing is released twice, where \<open>A\<close> and \<open>B\<close> are the references the
  C locals own before and after.
\<close>

section \<open>References\<close>

fun has_header :: "pvalue \<Rightarrow> bool" where
  "has_header (PString _) = True"
| "has_header (PArray _) = True"
| "has_header (PObject _) = True"
| "has_header (PClosure _) = True"
| "has_header (PCfunc _) = True"
| "has_header (PResource _) = True"
| "has_header _ = False"

abbreviation cnt :: "pvalue multiset \<Rightarrow> pvalue multiset" where
  "cnt M \<equiv> filter_mset has_header M"

definition orefs :: "parray option \<Rightarrow> pvalue multiset" where
  "orefs a = (case a of None \<Rightarrow> {#} | Some a \<Rightarrow> refs a)"

definition class_values :: "pclass \<Rightarrow> pvalue multiset" where
  "class_values k =
     (if cl_values_released k then {#}
      else mset (map pr_default (cl_properties k)) + orefs (cl_statics k) + orefs (cl_constants k))"

definition held_map :: "('a \<Rightarrow> pvalue multiset) \<Rightarrow> (addr \<Rightarrow> 'a option) \<Rightarrow> pvalue multiset" where
  "held_map r m = (\<Sum>a \<in> dom m. r (the (m a)))"

definition stack_refs :: "'h pphp_state \<Rightarrow> pvalue multiset" where
  "stack_refs s = mset (map cell_value (take (vm_stack_count s) (vm_stack s)))"

definition frame_refs :: "pframe list \<Rightarrow> pvalue multiset" where
  "frame_refs fs = mset (map fr_return_override (filter fr_has_return_override fs))"

definition pending_refs :: "'h pphp_state \<Rightarrow> pvalue multiset" where
  "pending_refs s =
     (case vm_halt_result s of None \<Rightarrow> {#} | Some v \<Rightarrow> {#v#}) +
     (case vm_oom_exception s of None \<Rightarrow> {#} | Some a \<Rightarrow> {#PObject a#})"

definition iterated :: "parray_iterator \<Rightarrow> pvalue multiset" where
  "iterated it = {#PArray (it_array it)#}"

definition table_refs :: "'h pphp_state \<Rightarrow> pvalue multiset" where
  "table_refs s = orefs (vm_globals s) + orefs (vm_statics s) + orefs (vm_constants s) +
     held_map refs (vm_arrays s) + held_map (mset \<circ> ob_slots) (vm_objects s) +
     held_map (mset \<circ> co_captures) (vm_closures s) + held_map iterated (vm_iterators s) +
     held_map class_values (vm_classes s) + pending_refs s"

definition held :: "'h pphp_state \<Rightarrow> pvalue multiset" where
  "held s = stack_refs s + frame_refs (vm_frames s) + table_refs s"

fun rc_log :: "vm_event list \<Rightarrow> rc_event list" where
  "rc_log [] = []"
| "rc_log (Ev (Ref e) # log) = e # rc_log log"
| "rc_log (_ # log) = rc_log log"

definition acquired :: "'h pphp_state \<Rightarrow> pvalue multiset" where
  "acquired s = cnt (gains (rc_log (vm_log s)))"

definition given_up :: "'h pphp_state \<Rightarrow> pvalue multiset" where
  "given_up s = cnt (losses (rc_log (vm_log s)))"

definition balance ::
  "'h pphp_state \<Rightarrow> pvalue multiset \<Rightarrow> 'h pphp_state \<Rightarrow> pvalue multiset \<Rightarrow> bool" where
  "balance s A s' B \<longleftrightarrow>
     cnt (held s') + cnt B + given_up s' + acquired s = cnt (held s) + cnt A + given_up s + acquired s'"

lemma balance_refl [simp]: "balance s A s A"
  by (simp add: balance_def ac_simps)

lemma balance_trans:
  assumes "balance s A s' B" "balance s' B s'' C"
  shows "balance s A s'' C"
proof -
  let ?l = "cnt (held s'') + cnt C + given_up s'' + acquired s" 
  let ?m = "cnt (held s') + cnt B + given_up s' + acquired s'"
  let ?r = "cnt (held s) + cnt A + given_up s + acquired s''"
  have "?l + ?m = (cnt (held s') + cnt B + given_up s' + acquired s) + (cnt (held s'') + cnt C + given_up s'' + acquired s')"
    by (simp add: ac_simps)
  also have "\<dots> = (cnt (held s) + cnt A + given_up s + acquired s') + (cnt (held s') + cnt B + given_up s' + acquired s'')"
    using assms unfolding balance_def by simp
  also have "\<dots> = ?r + ?m" by (simp add: ac_simps)
  finally show ?thesis unfolding balance_def by simp
qed

lemma balance_frame: "balance s A s' B \<Longrightarrow> balance s (A + C) s' (B + C)"
  unfolding balance_def by (simp add: ac_simps)

interpretation balance: accounts balance
  by unfold_locales (simp, blast intro: balance_trans, blast intro: balance_frame)

lemma rc_log_append [simp]: "rc_log (a @ b) = rc_log a @ rc_log b"
  by (induction a rule: rc_log.induct) auto

lemma rc_log_refs [simp]: "rc_log (map (\<lambda>e. Ev (Ref e)) ev) = ev"
  by (induction ev) auto

lemma rc_log_refs_comp [simp]: "rc_log (map ((\<lambda>e. Ev (Ref e)) \<circ> f) xs) = map f xs"
  by (induction xs) auto

lemma moved_values [simp]:
  "gains (map Retain vs) = mset vs" "losses (map Retain vs) = {#}"
  "gains (map Release vs) = {#}" "losses (map Release vs) = mset vs"
  by (induction vs) auto

lemma moved_values_comp [simp]:
  "gains (map (Release \<circ> f) xs) = {#}" "losses (map (Release \<circ> f) xs) = image_mset f (mset xs)"
  by (induction xs) auto

section \<open>Sums over memory\<close>

lemma held_map_upd:
  assumes "finite (dom m)"
  shows "held_map r (m(a \<mapsto> x)) + (case m a of None \<Rightarrow> {#} | Some y \<Rightarrow> r y) = held_map r m + r x"
proof -
  have cong: "(\<Sum>b \<in> dom m - {a}. r (the ((m(a \<mapsto> x)) b))) = (\<Sum>b \<in> dom m - {a}. r (the (m b)))"
    by (rule sum.cong) auto
  have "held_map r (m(a \<mapsto> x)) = r x + (\<Sum>b \<in> dom m - {a}. r (the (m b)))"
    unfolding held_map_def dom_fun_upd using assms cong
    by (simp add: sum.insert_remove)
  moreover have "held_map r m = (case m a of None \<Rightarrow> {#} | Some y \<Rightarrow> r y) + (\<Sum>b \<in> dom m - {a}. r (the (m b)))"
  proof (cases "m a")
    case None
    then have "dom m - {a} = dom m" by auto
    then show ?thesis using None by (simp add: held_map_def)
  next
    case (Some y)
    then show ?thesis using assms unfolding held_map_def
      by (simp add: sum.remove [of "dom m" a] domI)
  qed
  ultimately show ?thesis by (simp add: ac_simps)
qed

lemma held_map_fresh:
  "finite (dom m) \<Longrightarrow> m a = None \<Longrightarrow> held_map r (m(a \<mapsto> x)) = held_map r m + r x"
  using held_map_upd [of m r a x] by simp

lemma held_map_same:
  assumes "finite (dom m)" "m a = Some y" "r x = r y"
  shows "held_map r (m(a \<mapsto> x)) = held_map r m"
  using held_map_upd [OF assms(1), of r a x] assms(2,3) by simp

lemma held_map_del:
  assumes "finite (dom m)" "m a = Some y"
  shows "held_map r (m(a := None)) + r y = held_map r m"
proof -
  have "dom (m(a := None)) = dom m - {a}" by auto
  then have "held_map r (m(a := None)) = (\<Sum>b \<in> dom m - {a}. r (the (m b)))"
    unfolding held_map_def by (auto intro: sum.cong)
  moreover have "held_map r m = r (the (m a)) + (\<Sum>b \<in> dom m - {a}. r (the (m b)))"
    unfolding held_map_def by (rule sum.remove) (use assms in auto)
  ultimately show ?thesis using assms(2) by (simp add: add.commute)
qed

section \<open>The memory of the interpreter\<close>

definition mem_ok :: "'h pphp_state \<Rightarrow> bool" where
  "mem_ok s \<longleftrightarrow>
     finite (dom (vm_arrays s)) \<and> finite (dom (vm_objects s)) \<and> finite (dom (vm_classes s)) \<and>
     finite (dom (vm_closures s)) \<and> finite (dom (vm_iterators s)) \<and>
     (\<forall>a arr. vm_arrays s a = Some arr \<longrightarrow> tidy arr \<and> pa_addr arr = a) \<and>
     (\<forall>arr \<in> set_option (vm_globals s) \<union> set_option (vm_statics s). tidy arr) \<and>
     (\<forall>a ob k. vm_objects s a = Some ob \<longrightarrow> vm_classes s (ob_class ob) = Some k \<longrightarrow>
        length (ob_slots ob) = length (cl_properties k))"

text \<open>
  What everything but the instructions themselves leaves alone: the part of the stack in use, the frames, the
  functions that can be called, and the condition of the loop.
\<close>

definition view :: "'h pphp_state \<Rightarrow> 'h pphp_state \<Rightarrow> bool" where
  "view s s' \<longleftrightarrow>
     length (vm_stack s') = length (vm_stack s) \<and> vm_stack_count s' = vm_stack_count s \<and>
     take (vm_stack_count s) (vm_stack s') = take (vm_stack_count s) (vm_stack s) \<and>
     vm_frames s' = vm_frames s \<and>
     vm_modules s' = vm_modules s \<and> vm_module s' = vm_module s \<and>
     vm_repl_modules s' = vm_repl_modules s \<and> vm_runtime_functions s' = vm_runtime_functions s \<and>
     vm_halt_result s' = vm_halt_result s \<and> vm_oom_exception s' = vm_oom_exception s"

definition quiet ::
  "'h pphp_state \<Rightarrow> pvalue multiset \<Rightarrow> 'h pphp_state \<Rightarrow> pvalue multiset \<Rightarrow> bool" where
  "quiet s A s' B \<longleftrightarrow> view s s' \<and> (mem_ok s \<longrightarrow> mem_ok s' \<and> balance s A s' B)"

lemma view_refl [simp]: "view s s"
  by (simp add: view_def)

lemma view_trans: "view s s' \<Longrightarrow> view s' s'' \<Longrightarrow> view s s''"
  by (simp add: view_def)

lemma quiet_refl [simp]: "quiet s A s A"
  by (simp add: quiet_def)

lemma quiet_trans [trans]: "quiet s A s' B \<Longrightarrow> quiet s' B s'' C \<Longrightarrow> quiet s A s'' C"
  unfolding quiet_def by (blast intro: view_trans balance_trans)

lemma quiet_frame: "quiet s A s' B \<Longrightarrow> quiet s (A + C) s' (B + C)"
  by (simp add: quiet_def balance_frame)

interpretation quiet: accounts quiet
  by unfold_locales (simp, blast intro: quiet_trans, blast intro: quiet_frame)

end
