(* ===== verification/VmQuiet.thy ===== *)
theory VmQuiet
  imports VmInv
begin

text \<open>
  The operations below the instructions are quiet: strings, arrays, class reference counts,
  objects and exception objects.  Each lemma says which references the caller owns before
  and after.
\<close>

lemmas held_defs = held_def stack_refs_def table_refs_def pending_refs_def

section \<open>Updates that move no reference\<close>

lemma quiet_same:
  assumes "view s s'" "vm_globals s' = vm_globals s" "vm_statics s' = vm_statics s"
    "vm_constants s' = vm_constants s" "vm_arrays s' = vm_arrays s" "vm_objects s' = vm_objects s"
    "vm_closures s' = vm_closures s" "vm_iterators s' = vm_iterators s"
    "vm_classes s' = vm_classes s" "vm_log s' = vm_log s"
  shows "quiet s A s' A"
  using assms by (simp add: quiet_def view_def mem_ok_def balance_def held_defs acquired_def given_up_def)

lemma quiet_heap [simp, intro]:
  "quiet s A (s\<lparr>vm_heap := h\<rparr>) A" "quiet s A (s\<lparr>vm_symbols := t, vm_heap := h\<rparr>) A"
  "quiet s A (s\<lparr>vm_error_line := l\<rparr>) A" "quiet s A (s\<lparr>vm_error := e\<rparr>) A"
  "quiet s A (s\<lparr>vm_error := e, vm_error_line := l\<rparr>) A" "quiet s A (s\<lparr>vm_error := e, vm_raised_class := c\<rparr>) A"
  by (rule quiet_same; simp add: view_def)+

lemma quiet_runtime_error [simp, intro]: "quiet s A (pphp_runtime_error line message s) A"
  unfolding pphp_runtime_error_def by simp

lemma quiet_warning [simp, intro]: "quiet s A (pphp_warning line message s) A"
  unfolding pphp_warning_def pphp_output_def Let_def by (rule quiet_same) (simp_all add: view_def)

lemma quiet_frame_error: "frame_error message s = Some s' \<Longrightarrow> quiet s A s' A"
  by (auto simp: frame_error_def split: bind_splits)

lemma quiet_warn_undefined: "warn_undefined_variable slot s = Some s' \<Longrightarrow> quiet s A s' A"
  by (auto simp: warn_undefined_variable_def split: bind_splits)

lemma quiet_log:
  assumes "A + gains (rc_log ev) = B + losses (rc_log ev)"
  shows "quiet s A (log_events ev s) B"
proof -
  have "cnt A + cnt (gains (rc_log ev)) = cnt B + cnt (losses (rc_log ev))"
    using arg_cong [OF assms, of cnt] by simp
  then show ?thesis
    by (simp add: quiet_def view_def mem_ok_def balance_def held_defs acquired_def given_up_def ac_simps)
qed

lemma quiet_log_rc: "A + gains ev = B + losses ev \<Longrightarrow> quiet s A (log_rc ev s) B"
  unfolding log_rc_def by (rule quiet_log) simp

lemma quiet_release [simp, intro]: "quiet s {#v#} (log_rc [Release v] s) {#}"
  by (rule quiet_log_rc) simp

lemma quiet_release_cell [simp, intro]: "quiet s {#cell_value c#} (release_cell c s) {#}"
  unfolding release_cell_def by (rule quiet_release)

section \<open>Strings and arrays\<close>

abbreviation oref :: "('a \<Rightarrow> pvalue) \<Rightarrow> 'a option \<Rightarrow> pvalue multiset" where
  "oref f r \<equiv> (case r of None \<Rightarrow> {#} | Some x \<Rightarrow> {#f x#})"

lemma quiet_new_string: "new_string ops b s = (r, s') \<Longrightarrow> quiet s {#} s' (oref PString r)"
  unfolding new_string_def
  by (auto split: prod.splits option.splits intro: quiet_trans [OF quiet_heap(1) quiet_log_rc])

lemma quiet_array_update:
  assumes arr: "vm_arrays s a = Some arr" and ok: "mem_ok s \<Longrightarrow> tidy arr' \<and> pa_addr arr' = a \<and>
      refs arr' + losses ev = refs arr + gains ev"
  shows "quiet s {#} (log_rc ev (s\<lparr>vm_heap := h, vm_arrays := (vm_arrays s)(a \<mapsto> arr')\<rparr>)) {#}"
proof -
  let ?s = "log_rc ev (s\<lparr>vm_heap := h, vm_arrays := (vm_arrays s)(a \<mapsto> arr')\<rparr>)"
  have "mem_ok ?s \<and> balance s {#} ?s {#}" if m: "mem_ok s"
  proof
    from ok [OF m] have k: "tidy arr'" "pa_addr arr' = a" and e: "refs arr' + losses ev = refs arr + gains ev" by auto
    have fin: "finite (dom (vm_arrays s))" using m by (simp add: mem_ok_def)
    show "mem_ok ?s" using m k by (auto simp: mem_ok_def)
    have "held_map refs ((vm_arrays s)(a \<mapsto> arr')) + refs arr = held_map refs (vm_arrays s) + refs arr'"
      using held_map_upd [OF fin, of refs a arr'] arr by simp
    from arg_cong [OF this, of cnt] have
      1: "cnt (held_map refs ((vm_arrays s)(a \<mapsto> arr'))) + cnt (refs arr) = cnt (held_map refs (vm_arrays s)) + cnt (refs arr')"
      by simp
    from arg_cong [OF e, of cnt] have 2: "cnt (refs arr') + cnt (losses ev) = cnt (refs arr) + cnt (gains ev)"
      by simp
    have "cnt (held_map refs ((vm_arrays s)(a \<mapsto> arr'))) + cnt (losses ev) = cnt (held_map refs (vm_arrays s)) + cnt (gains ev)"
      using 1 2 by (smt (verit) add.assoc add.commute add_right_cancel)
    then show "balance s {#} ?s {#}"
      by (simp add: balance_def held_defs acquired_def given_up_def ac_simps)
  qed
  then show ?thesis by (simp add: quiet_def view_def)
qed

lemma quiet_new_array:
  assumes "new_array ops n s = Some (r, s')"
  shows "quiet s {#} s' (oref PArray r)" "r = Some a \<Longrightarrow> vm_arrays s' a \<noteq> None"
proof -
  obtain x h where n: "pa_new ops n (vm_heap s) = (x, h)" by force
  have "quiet s {#} s' (oref PArray r) \<and> (r = Some a \<longrightarrow> vm_arrays s' a \<noteq> None)"
  proof (cases x)
    case None
    then show ?thesis using assms n by (auto simp: new_array_def)
  next
    case (Some arr)
    with assms n have r: "r = Some (pa_addr arr)" and f: "vm_arrays s (pa_addr arr) = None"
      and s': "s' = log_rc [Create (PArray (pa_addr arr))]
        (s\<lparr>vm_heap := h, vm_arrays := (vm_arrays s)(pa_addr arr \<mapsto> arr)\<rparr>)"
      by (auto simp: new_array_def split: if_splits)
    have k: "refs arr = {#}" "tidy arr" using n Some pa_new_refs [of ops n "vm_heap s" arr h] by auto
    have "mem_ok s' \<and> balance s {#} s' (oref PArray r)" if m: "mem_ok s"
    proof
      show "mem_ok s'" using m k by (auto simp: mem_ok_def s')
      have "held_map refs ((vm_arrays s)(pa_addr arr \<mapsto> arr)) = held_map refs (vm_arrays s)"
        using held_map_fresh [of "vm_arrays s" "pa_addr arr" refs arr] m f k by (simp add: mem_ok_def)
      then show "balance s {#} s' (oref PArray r)"
        by (simp add: balance_def held_defs acquired_def given_up_def r s' ac_simps)
    qed
    then show ?thesis by (simp add: quiet_def view_def s' r)
  qed
  then show "quiet s {#} s' (oref PArray r)" "r = Some a \<Longrightarrow> vm_arrays s' a \<noteq> None" by auto
qed

lemma quiet_array_push: "array_push ops a v s = Some (ok, s') \<Longrightarrow> quiet s {#} s' {#}"
  unfolding array_push_def
  by (auto split: bind_splits prod.splits option.splits simp: mem_ok_def
      intro!: quiet_array_update dest: pa_push_refs)

lemma quiet_array_set: "array_set ops a key v s = Some (ok, s') \<Longrightarrow> quiet s {#} s' {#}"
  unfolding array_set_def
  by (auto split: bind_splits prod.splits option.splits simp: mem_ok_def
      intro!: quiet_array_update dest: pa_set_refs)

lemma quiet_push_cells: "push_cells ops a cs s = Some (ok, s') \<Longrightarrow> quiet s {#} s' {#}"
  by (induction cs arbitrary: s)
    (auto split: bind_splits if_splits intro: quiet_trans dest!: quiet_array_push)

section \<open>Variables\<close>

lemma quiet_intern: "intern ops b s = Some (key, s') \<Longrightarrow> quiet s A s' A"
  by (auto simp: intern_def split: bind_splits prod.splits)

lemma quiet_static_slot_key: "static_slot_key ops slot s = Some (key, s') \<Longrightarrow> quiet s A s' A"
  unfolding static_slot_key_def
  by (auto simp: Let_def split: bind_splits prod.splits option.splits
      intro: quiet_trans [OF quiet_heap(1) quiet_trans [OF quiet_intern quiet_heap(1)]])

lemma quiet_slot_storage: "slot_storage ops slot s = Some (st, s') \<Longrightarrow> quiet s A s' A"
  unfolding slot_storage_def
  by (auto split: bind_splits if_splits prod.splits intro: quiet_static_slot_key quiet_intern)

lemma quiet_storage_update:
  assumes st: "st \<noteq> OnStack"
    and ok: "(case storage_array st s of
        None \<Rightarrow> a = None \<and> ev = []
      | Some arr \<Rightarrow> tidy arr \<longrightarrow> (\<exists>arr'. a = Some arr' \<and> tidy arr' \<and> refs arr' + losses ev = refs arr + gains ev))"
  shows "quiet s {#} (log_rc ev (set_storage st a (s\<lparr>vm_heap := h\<rparr>))) {#}"
proof -
  let ?s = "log_rc ev (set_storage st a (s\<lparr>vm_heap := h\<rparr>))"
  have "mem_ok ?s \<and> balance s {#} ?s {#}" if m: "mem_ok s"
  proof -
    have e: "orefs a + losses ev = orefs (storage_array st s) + gains ev" and t: "\<forall>arr \<in> set_option a. tidy arr"
    proof -
      have "orefs a + losses ev = orefs (storage_array st s) + gains ev \<and> (\<forall>arr \<in> set_option a. tidy arr)"
      proof (cases "storage_array st s")
        case None
        then show ?thesis using ok by (simp add: orefs_def)
      next
        case (Some arr)
        with m have "tidy arr" by (cases st) (auto simp: mem_ok_def storage_array_def)
        with ok Some show ?thesis by (auto simp: orefs_def)
      qed
      then show "orefs a + losses ev = orefs (storage_array st s) + gains ev" "\<forall>arr \<in> set_option a. tidy arr" by auto
    qed
    from arg_cong [OF e, of cnt] have
      "cnt (orefs a) + cnt (losses ev) = cnt (orefs (storage_array st s)) + cnt (gains ev)" by simp
    with st have "balance s {#} ?s {#}"
      by (cases st) (simp_all add: balance_def held_defs acquired_def given_up_def set_storage_def storage_array_def ac_simps)
    moreover from m t st have "mem_ok ?s" by (cases st) (auto simp: mem_ok_def set_storage_def)
    ultimately show ?thesis by simp
  qed
  moreover have "view s ?s" by (cases st) (simp_all add: view_def set_storage_def)
  ultimately show ?thesis by (simp add: quiet_def)
qed

lemma quiet_storage_set:
  assumes "st \<noteq> OnStack" "pa_set ops (storage_array st s) key v h0 = Some (ok, a, ev, h)"
  shows "quiet s {#} (log_rc ev (set_storage st a (s\<lparr>vm_heap := h\<rparr>))) {#}"
  by (rule quiet_storage_update [OF assms(1)])
    (use assms(2) in \<open>auto split: option.split dest!: pa_set_refs simp: pa_set_def [of ops None]\<close>)

lemma quiet_storage_remove:
  assumes "st \<noteq> OnStack" "pa_remove ops (storage_array st s) key h0 = Some (ok, a, ev, h)"
  shows "quiet s {#} (log_rc ev (set_storage st a (s\<lparr>vm_heap := h\<rparr>))) {#}"
  by (rule quiet_storage_update [OF assms(1)])
    (use assms(2) in \<open>auto split: option.split dest!: pa_remove_refs simp: pa_remove_def [of ops None]\<close>)

lemma quiet_get:
  assumes "pa_get ops a key h0 = Some (r, ev, h)"
  shows "quiet s {#} (log_rc ev (s\<lparr>vm_heap := h\<rparr>)) (oref id r)"
  by (rule quiet_trans [OF quiet_heap(1) quiet_log_rc])
    (use pa_get_refs [OF assms] in \<open>auto split: option.split\<close>)

lemma quiet_read_local:
  assumes "read_local_value ops slot quiet_read s = Some (ok, v, s')"
  shows "quiet s {#} s' {#v#}"
proof -
  obtain st s1 where st: "slot_storage ops slot s = Some (st, s1)"
    using assms by (auto simp: read_local_value_def split: bind_splits)
  have warn: "quiet a {#} b {#PNull#}"
    if "(if quiet_read then Some a else warn_undefined_variable slot a) = Some b" for a b :: "'a pphp_state"
  proof -
    have "quiet a {#} b {#}" using that quiet_warn_undefined by (auto split: if_splits)
    then show ?thesis by (simp add: quiet_def balance_def)
  qed
  have "quiet s1 {#} s' {#v#}"
  proof (cases "st = OnStack")
    case True
    have "quiet s1 {#} (log_rc [Retain v] s1) {#v#}" by (rule quiet_log_rc) simp
    with True st assms show ?thesis
      by (auto simp: read_local_value_def split: bind_splits cell.splits intro: warn)
  next
    case False
    show ?thesis
    proof (cases "storage_key st")
      case None
      with False st assms have "quiet s1 {#} s' {#}" "v = PNull"
        by (auto simp: read_local_value_def split: bind_splits intro: quiet_frame_error)
      then show ?thesis by (simp add: quiet_def balance_def)
    next
      case (Some key)
      with False st assms obtain found ev h where
        g: "pa_get ops (storage_array st s1) (PString key) (vm_heap s1) = Some (found, ev, h)"
        and r: "(case found of Some v \<Rightarrow> Some (True, v, log_rc ev (s1\<lparr>vm_heap := h\<rparr>))
           | None \<Rightarrow> do { s \<leftarrow> (if quiet_read then Some (log_rc ev (s1\<lparr>vm_heap := h\<rparr>))
                    else warn_undefined_variable slot (log_rc ev (s1\<lparr>vm_heap := h\<rparr>)));
                  Some (True, PNull, s) }) = Some (ok, v, s')"
        by (auto simp: read_local_value_def Let_def split: bind_splits)
      from quiet_get [OF g, of s1] r show ?thesis
        by (cases found) (auto split: bind_splits intro: quiet_trans warn)
    qed
  qed
  with quiet_slot_storage [OF st] show ?thesis by (rule quiet_trans)
qed

section \<open>Fields of objects\<close>

lemma quiet_object_update:
  assumes ob: "vm_objects s a = Some ob" and same: "ob_class ob' = ob_class ob"
    "length (ob_slots ob') = length (ob_slots ob)"
    and e: "A + mset (ob_slots ob) + gains (rc_log ev) = B + mset (ob_slots ob') + losses (rc_log ev)"
  shows "quiet s A (log_events ev (s\<lparr>vm_objects := (vm_objects s)(a \<mapsto> ob')\<rparr>)) B"
proof -
  let ?s = "log_events ev (s\<lparr>vm_objects := (vm_objects s)(a \<mapsto> ob')\<rparr>)"
  have "mem_ok ?s \<and> balance s A ?s B" if m: "mem_ok s"
  proof
    show "mem_ok ?s" using m ob same unfolding mem_ok_def by auto
    have "held_map (mset \<circ> ob_slots) ((vm_objects s)(a \<mapsto> ob')) + mset (ob_slots ob) =
        held_map (mset \<circ> ob_slots) (vm_objects s) + mset (ob_slots ob')"
      using held_map_upd [of "vm_objects s" "mset \<circ> ob_slots" a ob'] m ob by (simp add: mem_ok_def)
    from arg_cong [OF this, of cnt] have 1: "cnt (held_map (mset \<circ> ob_slots) ((vm_objects s)(a \<mapsto> ob'))) +
        cnt (mset (ob_slots ob)) = cnt (held_map (mset \<circ> ob_slots) (vm_objects s)) + cnt (mset (ob_slots ob'))"
      by simp
    from arg_cong [OF e, of cnt] have 2: "cnt A + cnt (mset (ob_slots ob)) + cnt (gains (rc_log ev)) =
        cnt B + cnt (mset (ob_slots ob')) + cnt (losses (rc_log ev))" by simp
    have "cnt (held_map (mset \<circ> ob_slots) ((vm_objects s)(a \<mapsto> ob'))) + cnt B + cnt (losses (rc_log ev)) =
        cnt (held_map (mset \<circ> ob_slots) (vm_objects s)) + cnt A + cnt (gains (rc_log ev))"
      using 1 2 by (smt (verit) add.assoc add.commute add_right_cancel)
    then show "balance s A ?s B"
      by (simp add: balance_def held_defs acquired_def given_up_def ac_simps)
  qed
  then show ?thesis by (simp add: quiet_def view_def)
qed

lemma log_events_Nil [simp]: "log_events [] s = s"
  by (simp add: log_events_def)

lemma quiet_object_same:
  assumes "vm_objects s a = Some ob" "ob_class ob' = ob_class ob" "ob_slots ob' = ob_slots ob"
  shows "quiet s A (s\<lparr>vm_objects := (vm_objects s)(a \<mapsto> ob')\<rparr>) A"
  using quiet_object_update [OF assms(1,2), of A "[]" A] assms(3) by simp

lemma list_update_mset: "i < length xs \<Longrightarrow> mset (xs[i := v]) + {#xs ! i#} = mset xs + {#v#}"
  by (simp add: mset_update)

lemma quiet_store_slot: "store_slot a i v s = Some s' \<Longrightarrow> quiet s {#v#} s' {#}"
proof -
  assume "store_slot a i v s = Some s'"
  then obtain ob where ob: "vm_objects s a = Some ob" "i < length (ob_slots ob)"
    and s': "s' = log_rc [Release (ob_slots ob ! i)]
      (s\<lparr>vm_objects := (vm_objects s)(a \<mapsto> ob\<lparr>ob_slots := (ob_slots ob)[i := v]\<rparr>)\<rparr>)"
    by (auto simp: store_slot_def rd_eq_Some_iff split: bind_splits)
  show ?thesis unfolding s' log_rc_def
    by (rule quiet_object_update [OF ob(1)]) (use list_update_mset [OF ob(2), of v] in \<open>simp_all add: ac_simps\<close>)
qed

lemma quiet_set_field: "set_field a name v s = Some s' \<Longrightarrow> quiet s {#v#} s' {#}"
  by (auto simp: set_field_def split: bind_splits option.splits intro: quiet_store_slot)

lemma quiet_set_field_int: "set_field a name (PInt i) s = Some s' \<Longrightarrow> quiet s {#} s' {#}"
  using quiet_set_field [of a name "PInt i" s s'] by (simp add: quiet_def balance_def)

lemma quiet_set_location:
  assumes "pphp_exception_set_location ops object file line s = Some s'"
  shows "quiet s {#} s' {#}"
proof (cases object)
  case None
  then show ?thesis using assms by (simp add: pphp_exception_set_location_def)
next
  case (Some a)
  obtain r s1 where n: "new_string ops (case file of None \<Rightarrow> ''<source>'' | Some f \<Rightarrow> f) s = (r, s1)" by force
  with assms Some obtain s2 where
    1: "(case r of None \<Rightarrow> Some s1 | Some str \<Rightarrow> set_field a ''file'' (PString str) s1) = Some s2"
    and 2: "set_field a ''line'' (PInt line) s2 = Some s'"
    by (auto simp: pphp_exception_set_location_def Let_def split: bind_splits option.splits)
  have "quiet s1 (oref PString r) s2 {#}" using 1 by (auto split: option.splits intro: quiet_set_field)
  from quiet_trans [OF quiet_trans [OF quiet_new_string [OF n] this] quiet_set_field_int [OF 2]] show ?thesis .
qed

lemma quiet_capture_trace:
  assumes "pphp_exception_capture_trace ops object s = Some s'"
  shows "quiet s {#} s' {#}"
proof -
  have "quiet s {#} s' {#}"
    if "(case new_string ops b s of (None, s) \<Rightarrow> Some s
       | (Some str, s) \<Rightarrow> set_field a ''trace'' (PString str) s) = Some s'" for a b
  proof -
    obtain r s1 where n: "new_string ops b s = (r, s1)" by force
    have "quiet s1 (oref PString r) s' {#}" using that n by (auto split: option.splits intro: quiet_set_field)
    with quiet_new_string [OF n] show ?thesis by (rule quiet_trans)
  qed
  then show ?thesis using assms
    by (auto simp: pphp_exception_capture_trace_def Let_def split: bind_splits option.splits if_splits pvalue.splits)
qed

end
