(* ===== verification/VmObjects.thy ===== *)
theory VmObjects
  imports VmQuiet
begin

text \<open>
  Classes, objects and exceptions are quiet too.  Releasing a class gives up exactly what
  the classes that go with it hold; creating and destroying an object moves its slots.
\<close>

unbundle bit_operations_syntax

section \<open>Classes\<close>

abbreviation class_log :: "class_event list \<Rightarrow> rc_event list" where
  "class_log ev \<equiv> rc_log (map Ev ev)"

definition class_move ::
  "pclass_heap \<times> class_event list \<times> 'h \<Rightarrow> pclass_heap \<times> class_event list \<times> 'h \<Rightarrow> bool" where
  "class_move st st' \<longleftrightarrow>
     (case (st, st') of ((classes, ev, h), (classes', ev', h')) \<Rightarrow>
        (\<forall>a k'. classes' a = Some k' \<longrightarrow> (\<exists>k. classes a = Some k \<and>
           length (cl_properties k') = length (cl_properties k) \<and>
           (class_values k = {#} \<longrightarrow> class_values k' = {#}))) \<and>
        (finite (dom classes) \<longrightarrow>
           held_map class_values classes' + losses (class_log ev') + gains (class_log ev) =
           held_map class_values classes + losses (class_log ev) + gains (class_log ev')))"

lemma class_step_refl [simp]: "class_move st st"
  by (auto simp: class_move_def ac_simps split: prod.split)

lemma class_step_finite: "class_move (classes, ev, h) (classes', ev', h') \<Longrightarrow> finite (dom classes) \<Longrightarrow> finite (dom classes')"
  by (rule finite_subset [of _ "dom classes"]) (auto simp: class_move_def)

lemma class_step_trans:
  assumes 1: "class_move st st1" and 2: "class_move st1 st2"
  shows "class_move st st2"
proof -
  obtain classes ev h classes1 ev1 h1 classes2 ev2 h2 where
    st: "st = (classes, ev, h)" "st1 = (classes1, ev1, h1)" "st2 = (classes2, ev2, h2)"
    by (metis prod_cases3)
  have "held_map class_values classes2 + losses (class_log ev2) + gains (class_log ev) =
      held_map class_values classes + losses (class_log ev) + gains (class_log ev2)" if fin: "finite (dom classes)"
  proof -
    have "finite (dom classes1)" by (rule class_step_finite [OF 1 [unfolded st] fin])
    with 1 2 fin have
      a: "held_map class_values classes1 + losses (class_log ev1) + gains (class_log ev) =
        held_map class_values classes + losses (class_log ev) + gains (class_log ev1)" and
      b: "held_map class_values classes2 + losses (class_log ev2) + gains (class_log ev1) =
        held_map class_values classes1 + losses (class_log ev1) + gains (class_log ev2)"
      unfolding st class_move_def by auto
    show ?thesis using a b by (smt (verit) add.assoc add.commute add_right_cancel)
  qed
  moreover have "\<exists>k. classes a = Some k \<and> length (cl_properties k') = length (cl_properties k) \<and>
      (class_values k = {#} \<longrightarrow> class_values k' = {#})" if "classes2 a = Some k'" for a k'
  proof -
    from 2 that obtain k1 where k1: "classes1 a = Some k1" "length (cl_properties k') = length (cl_properties k1)"
      "class_values k1 = {#} \<longrightarrow> class_values k' = {#}" unfolding st class_move_def by auto
    from 1 k1(1) obtain k where "classes a = Some k" "length (cl_properties k1) = length (cl_properties k)"
      "class_values k = {#} \<longrightarrow> class_values k1 = {#}" unfolding st class_move_def by auto
    with k1 show ?thesis by auto
  qed
  ultimately show ?thesis unfolding st class_move_def by auto
qed

lemma class_step_upd:
  assumes "classes a = Some k" "length (cl_properties k') = length (cl_properties k)"
    "class_values k' + losses (class_log es) = class_values k + gains (class_log es)"
    "class_values k = {#} \<longrightarrow> class_values k' = {#}"
  shows "class_move (classes, ev, h) (classes(a \<mapsto> k'), ev @ es, h')"
proof -
  have "held_map class_values (classes(a \<mapsto> k')) + losses (class_log es) =
      held_map class_values classes + gains (class_log es)" if "finite (dom classes)"
    using held_map_upd [OF that, of class_values a k'] assms(1,3)
    by (simp add: option.case) (smt (verit) add.assoc add.commute add_right_cancel)
  then show ?thesis using assms by (auto simp: class_move_def ac_simps)
qed

lemma class_step_del:
  assumes "\<And>k. classes a = Some k \<Longrightarrow> class_values k = {#}"
  shows "class_move (classes, ev, h) (classes(a := None), ev, h')"
proof -
  have "held_map class_values (classes(a := None)) = held_map class_values classes" if "finite (dom classes)"
  proof (cases "classes a")
    case None
    then have "classes(a := None) = classes" by auto
    then show ?thesis by simp
  next
    case (Some k)
    with assms held_map_del [OF that Some, of class_values] show ?thesis by simp
  qed
  then show ?thesis by (auto simp: class_move_def ac_simps split: if_splits)
qed

lemma class_step_more:
  assumes "gains (class_log ev1) = losses (class_log ev1)"
  shows "class_move (classes, ev, h) (classes, ev @ ev1, h')"
  using assms by (auto simp: class_move_def ac_simps)

lemma fold_class_step:
  assumes "fold_m f xs st = Some st'" "\<And>x st st'. f x st = Some st' \<Longrightarrow> class_move st st'"
  shows "class_move st st'"
  using assms(1)
proof (induction xs arbitrary: st)
  case Nil
  then show ?case by simp
next
  case (Cons x xs)
  then show ?case by (auto split: bind_splits intro: class_step_trans assms(2))
qed

lemma released_values:
  assumes "release_values ops k h = (k', ev, h')"
  shows "class_values k' = {#}" "losses (class_log ev) = class_values k" "gains (class_log ev) = {#}"
    "length (cl_properties k') = length (cl_properties k)"
proof -
  have props: "losses (rc_log (map (Ev \<circ> (\<lambda>p. Ref (Release (pr_default p)))) ps)) = mset (map pr_default ps)"
    "gains (rc_log (map (Ev \<circ> (\<lambda>p. Ref (Release (pr_default p)))) ps)) = {#}" for ps
    by (induction ps) auto
  have refs: "rc_log (map (Ev \<circ> Ref) ev) = ev" for ev
    by (induction ev) auto
  have "class_values k' = {#} \<and> losses (class_log ev) = class_values k \<and> gains (class_log ev) = {#} \<and>
      length (cl_properties k') = length (cl_properties k)"
  proof (cases "cl_values_released k")
    case True
    then show ?thesis using assms by (auto simp: release_values_def class_values_def)
  next
    case False
    obtain e1 h1 e2 h2 where d: "pa_destroy ops (cl_statics k) h = (e1, h1)" "pa_destroy ops (cl_constants k) h1 = (e2, h2)"
      by (meson surj_pair)
    from pa_destroy_refs [OF d(1)] pa_destroy_refs [OF d(2)] False d assms
    show ?thesis
      by (auto simp: release_values_def Let_def class_values_def orefs_def refs props split: option.splits)
  qed
  then show "class_values k' = {#}" "losses (class_log ev) = class_values k" "gains (class_log ev) = {#}"
    "length (cl_properties k') = length (cl_properties k)" by auto
qed

lemma free_members_log:
  "free_members ops k h = (ev, h') \<Longrightarrow> class_log ev = []"
proof -
  have "class_log (map (\<lambda>m. ReleaseModule (me_module m)) ms) = []" for ms
    by (induction ms) auto
  then show "free_members ops k h = (ev, h') \<Longrightarrow> class_log ev = []" by (auto simp: free_members_def Let_def)
qed

lemma pclass_release_step:
  assumes "pclass_release ops c st = Some st'"
  shows "class_move st st'"
proof (rule pclass_release.raw_induct [where P = "\<lambda>ops c st st'. class_move st st'", OF _ assms])
  fix f ops c st st'
  assume IH: "\<And>ops c st st'. f ops c st = Some st' \<Longrightarrow> class_move st st'"
    and eq: "(case c of
        None \<Rightarrow> Some st
      | Some a \<Rightarrow>
          (case st of (classes, ev, h) \<Rightarrow>
             (case classes a of
                None \<Rightarrow> None
              | Some k \<Rightarrow>
                  if cl_refcnt k = 0 \<or> cl_refcnt k = 65535 then Some st
                  else
                    let k = k\<lparr>cl_refcnt := cl_refcnt k - 1\<rparr>
                    in if cl_refcnt k \<noteq> 0 then Some (classes(a \<mapsto> k), ev, h)
                       else
                         (case release_values ops k h of
                            (k, ev1, h) \<Rightarrow>
                              (case free_members ops k h of
                                 (ev2, h) \<Rightarrow> do {
                                   st \<leftarrow> fold_m (\<lambda>i. f ops (Some i)) (cl_interfaces k)
                                     (classes(a \<mapsto> k), ev @ ev1 @ ev2, h);
                                   st \<leftarrow> (case st of (classes, ev, h) \<Rightarrow>
                                     f ops (cl_parent k)
                                       (classes, ev, h_free ops (cl_interfaces_ptr k) h));
                                   (case st of (classes, ev, h) \<Rightarrow>
                                      Some (classes(a := None), ev, h_free ops (Some a) h))
                                 }))))) = Some st'"
  obtain classes ev h where st: "st = (classes, ev, h)" by (metis prod_cases3)
  show "class_move st st'"
  proof (cases "\<exists>a k. c = Some a \<and> classes a = Some k \<and> cl_refcnt k \<noteq> 0 \<and> cl_refcnt k \<noteq> 65535 \<and> cl_refcnt k - 1 = 0")
    case False
    then show ?thesis using eq st
      by (auto split: option.splits if_splits simp: Let_def
          intro!: class_step_upd [where es = "[]" and ev = ev, simplified] simp: class_values_def)
  next
    case True
    then obtain a k where c: "c = Some a" "classes a = Some k" "cl_refcnt k \<noteq> 0" "cl_refcnt k \<noteq> 65535" "cl_refcnt k - 1 = 0"
      by blast
    define k0 where "k0 = k\<lparr>cl_refcnt := 0\<rparr>"
    obtain k1 ev1 h1 where rv: "release_values ops k0 h = (k1, ev1, h1)" by (metis prod_cases3)
    obtain ev2 h2 where fm: "free_members ops k1 h1 = (ev2, h2)" by force
    have zero: "cl_refcnt k0 = 0" by (simp add: k0_def)
    from eq c st rv fm zero obtain st1 where
      1: "fold_m (\<lambda>i. f ops (Some i)) (cl_interfaces k1) (classes(a \<mapsto> k1), ev @ ev1 @ ev2, h2) = Some st1"
      and r1: "do { st \<leftarrow> (case st1 of (classes, ev, h) \<Rightarrow>
            f ops (cl_parent k1) (classes, ev, h_free ops (cl_interfaces_ptr k1) h));
          (case st of (classes, ev, h) \<Rightarrow> Some (classes(a := None), ev, h_free ops (Some a) h)) } = Some st'"
      by (auto simp: Let_def simp flip: k0_def split: bind_splits)
    obtain cl1 e1 g1 where st1: "st1 = (cl1, e1, g1)" by (metis prod_cases3)
    from r1 st1 obtain cl2 e2 g2 where
      2: "f ops (cl_parent k1) (cl1, e1, h_free ops (cl_interfaces_ptr k1) g1) = Some (cl2, e2, g2)"
      and st': "st' = (cl2(a := None), e2, h_free ops (Some a) g2)"
      by (auto split: bind_splits)
    have k0: "class_values k0 = class_values k" "length (cl_properties k0) = length (cl_properties k)"
      by (simp_all add: k0_def class_values_def)
    have s0: "class_move st (classes(a \<mapsto> k1), ev @ ev1 @ ev2, h2)" unfolding st
      by (rule class_step_upd [where classes = classes, OF c(2)])
        (use released_values [OF rv] free_members_log [OF fm] k0 in simp_all)
    have s1: "class_move (classes(a \<mapsto> k1), ev @ ev1 @ ev2, h2) (cl1, e1, g1)"
      using fold_class_step [OF 1 IH] st1 by simp
    have s1': "class_move (cl1, e1, g1) (cl1, e1, h_free ops (cl_interfaces_ptr k1) g1)"
      using class_step_more [of "[]" cl1 e1] by simp
    have s2: "class_move (cl1, e1, h_free ops (cl_interfaces_ptr k1) g1) (cl2, e2, g2)" by (rule IH [OF 2])
    have s12: "class_move (classes(a \<mapsto> k1), ev @ ev1 @ ev2, h2) (cl2, e2, g2)"
      by (rule class_step_trans [OF s1 class_step_trans [OF s1' s2]])
    have "class_values k2 = {#}" if "cl2 a = Some k2" for k2
    proof -
      from s12 that obtain k where "(classes(a \<mapsto> k1)) a = Some k" "class_values k = {#} \<longrightarrow> class_values k2 = {#}"
        unfolding class_move_def by blast
      then show ?thesis using released_values(1) [OF rv] by simp
    qed
    then have "class_move (cl2, e2, g2) st'" unfolding st' by (rule class_step_del)
    then show ?thesis by (rule class_step_trans [OF class_step_trans [OF s0 s12]])
  qed
qed

lemma pclass_release_runtime_step:
  assumes "pclass_release_runtime ops c (classes, ev, h) = Some st'"
  shows "class_move (classes, ev, h) st'"
proof (cases c)
  case None
  then show ?thesis using assms by (simp add: pclass_release_runtime_def)
next
  case (Some a)
  then obtain k where k: "classes a = Some k"
    using assms by (auto simp: pclass_release_runtime_def split: option.splits)
  define classes1 where "classes1 = (if cl_runtime_refs k \<noteq> 0 \<and> cl_runtime_refs k \<noteq> 65535
    then classes(a \<mapsto> k\<lparr>cl_runtime_refs := cl_runtime_refs k - 1\<rparr>) else classes)"
  have same: "class_values (k\<lparr>cl_runtime_refs := cl_runtime_refs k - 1\<rparr>) = class_values k"
    by (simp add: class_values_def)
  have "class_move (classes, ev, h) (classes1, ev, h)" unfolding classes1_def
    using class_step_upd [where es = "[]" and ev = ev and classes = classes and h = h and h' = h,
        OF k, of "k\<lparr>cl_runtime_refs := cl_runtime_refs k - 1\<rparr>"] same by simp
  moreover have "class_move (classes1, ev, h) st'"
    using assms Some k by (auto simp: pclass_release_runtime_def classes1_def intro: pclass_release_step)
  ultimately show ?thesis by (rule class_step_trans)
qed

lemma pclass_retain_runtime_step:
  "pclass_retain_runtime c classes = Some classes' \<Longrightarrow> class_move (classes, ev, h) (classes', ev, h')"
proof -
  have upd: "class_move (m, ev, h) (m(a \<mapsto> f k), ev, h)"
    if "m a = Some k" "\<And>k. class_values (f k) = class_values k \<and> cl_properties (f k) = cl_properties k" for m a k f
    using class_step_upd [where es = "[]" and ev = ev and classes = m, OF that(1), of "f k"] that(2) by simp
  assume ret: "pclass_retain_runtime c classes = Some classes'"
  have heap: "class_move (classes', ev, h) (classes', ev, h')"
    using class_step_more [of "[]" classes' ev h h'] by simp
  show ?thesis
  proof (cases c)
    case None
    then show ?thesis using ret heap by (simp add: pclass_retain_runtime_def)
  next
    case (Some a)
    with ret obtain classes1 k1 where 1: "pclass_retain (Some a) classes = Some classes1" "classes1 a = Some k1"
      and 2: "classes' = (if cl_runtime_refs k1 \<noteq> 65535
        then classes1(a \<mapsto> k1\<lparr>cl_runtime_refs := cl_runtime_refs k1 + 1\<rparr>) else classes1)"
      by (auto simp: pclass_retain_runtime_def split: bind_splits)
    have "class_move (classes, ev, h) (classes1, ev, h)" using 1(1)
      by (auto simp: pclass_retain_def class_values_def split: option.splits if_splits
          intro!: upd [where f = "\<lambda>k. k\<lparr>cl_refcnt := cl_refcnt k + 1\<rparr>"])
    moreover have "class_move (classes1, ev, h) (classes', ev, h)" unfolding 2
      using upd [where m = classes1, OF 1(2), of "\<lambda>k. k\<lparr>cl_runtime_refs := cl_runtime_refs k + 1\<rparr>"] by (simp add: class_values_def)
    ultimately show ?thesis using heap by (blast intro: class_step_trans)
  qed
qed

lemma quiet_classes:
  assumes "class_move (vm_classes s, [], h0) (classes, ev, h)"
  shows "quiet s A (log_events (map Ev ev) (s\<lparr>vm_classes := classes, vm_heap := h\<rparr>)) A"
proof -
  let ?s = "log_events (map Ev ev) (s\<lparr>vm_classes := classes, vm_heap := h\<rparr>)"
  have "mem_ok ?s \<and> balance s A ?s A" if m: "mem_ok s"
  proof
    from m have fin: "finite (dom (vm_classes s))" by (simp add: mem_ok_def)
    show "mem_ok ?s"
      using m class_step_finite [OF assms fin] assms unfolding mem_ok_def class_move_def by fastforce
    have e: "held_map class_values classes + losses (class_log ev) = held_map class_values (vm_classes s) + gains (class_log ev)"
      using assms fin by (simp add: class_move_def)
    from arg_cong [OF e, of cnt] show "balance s A ?s A"
      by (simp add: balance_def held_defs acquired_def given_up_def ac_simps)
  qed
  then show ?thesis by (simp add: quiet_def view_def)
qed

lemma quiet_release_runtime:
  assumes "pclass_release_runtime ops c (vm_classes s, [], vm_heap s) = Some (classes, ev, h)"
  shows "quiet s A (log_events (map Ev ev) (s\<lparr>vm_classes := classes, vm_heap := h\<rparr>)) A"
  by (rule quiet_classes [OF pclass_release_runtime_step [OF assms]])

section \<open>Objects\<close>

lemma quiet_list_head: "quiet s A (s\<lparr>vm_gc_objects := p\<rparr>) A" "quiet s A (s\<lparr>vm_gc := g\<rparr>) A"
  by (rule quiet_same; simp add: view_def)+

lemma quiet_link: "link_object a s = Some s' \<Longrightarrow> quiet s A s' A"
  unfolding link_object_def
  by (auto split: option.splits bind_splits
      intro: quiet_list_head quiet_trans [OF quiet_object_same quiet_list_head(1)])

lemma quiet_unlink:
  assumes "unlink_object ob s = Some s'"
  shows "quiet s A s' A"
proof -
  from assms obtain s1 where
    1: "(case ob_prev ob of None \<Rightarrow> Some (s\<lparr>vm_gc_objects := ob_next ob\<rparr>)
       | Some p \<Rightarrow> do { before \<leftarrow> vm_objects s p;
           Some (s\<lparr>vm_objects := (vm_objects s)(p \<mapsto> before\<lparr>ob_next := ob_next ob\<rparr>)\<rparr>) }) = Some s1"
    and 2: "(case ob_next ob of None \<Rightarrow> Some s1
       | Some n \<Rightarrow> do { after \<leftarrow> vm_objects s1 n;
           Some (s1\<lparr>vm_objects := (vm_objects s1)(n \<mapsto> after\<lparr>ob_prev := ob_prev ob\<rparr>)\<rparr>) }) = Some s'"
    by (auto simp: unlink_object_def bind_eq_Some_conv)
  have "quiet s A s1 A" using 1
    by (auto split: option.splits bind_splits intro: quiet_list_head quiet_object_same)
  moreover have "quiet s1 A s' A" using 2
    by (auto split: option.splits bind_splits intro: quiet_object_same)
  ultimately show ?thesis by (rule quiet_trans)
qed

lemma quiet_unbuffer: "gc_unbuffer_object a s = Some s' \<Longrightarrow> quiet s A s' A"
  unfolding gc_unbuffer_object_def
  by (auto split: bind_splits if_splits
      intro: quiet_trans [OF quiet_object_same quiet_list_head(2)])

lemma quiet_set_object:
  "set_object a f s = Some s' \<Longrightarrow> (\<And>ob. ob_class (f ob) = ob_class ob \<and> ob_slots (f ob) = ob_slots ob) \<Longrightarrow>
     quiet s A s' A"
  unfolding set_object_def by (auto split: bind_splits intro: quiet_object_same)

lemma quiet_new_object:
  assumes "vm_objects s a = None" "vm_classes s (ob_class ob) = Some k"
    "ob_slots ob = map pr_default (cl_properties k)"
  shows "quiet s {#} (log_rc (Create (PObject a) # map Retain (ob_slots ob))
    (s\<lparr>vm_objects := (vm_objects s)(a \<mapsto> ob)\<rparr>)) {#PObject a#}"
proof -
  let ?s = "log_rc (Create (PObject a) # map Retain (ob_slots ob)) (s\<lparr>vm_objects := (vm_objects s)(a \<mapsto> ob)\<rparr>)"
  have "mem_ok ?s \<and> balance s {#} ?s {#PObject a#}" if m: "mem_ok s"
  proof
    show "mem_ok ?s" using m assms by (auto simp: mem_ok_def)
    have "held_map (mset \<circ> ob_slots) ((vm_objects s)(a \<mapsto> ob)) = held_map (mset \<circ> ob_slots) (vm_objects s) + mset (ob_slots ob)"
      using held_map_fresh [of "vm_objects s" a "mset \<circ> ob_slots" ob] m assms(1) by (simp add: mem_ok_def)
    then show "balance s {#} ?s {#PObject a#}"
      by (simp add: balance_def held_defs acquired_def given_up_def ac_simps)
  qed
  then show ?thesis by (simp add: quiet_def view_def)
qed

lemma retain_same_class:
  assumes "pclass_retain_runtime (Some ca) classes = Some classes'" "classes ca = Some k"
  shows "\<exists>k'. classes' ca = Some k' \<and> cl_properties k' = cl_properties k"
  using assms by (auto simp: pclass_retain_runtime_def pclass_retain_def split: bind_splits option.splits if_splits)

lemma quiet_pobject_new:
  assumes "pobject_new ops w c s = Some (r, s')"
  shows "quiet s {#} s' (oref PObject r)"
proof (cases "r = None")
  case True
  have "s' = s \<or> (\<exists>h. s' = s\<lparr>vm_heap := h\<rparr>)"
    using assms True unfolding pobject_new_def Let_def
    by (auto split: option.splits bind_splits if_splits prod.splits)
  then show ?thesis using True by auto
next
  case False
  then obtain a where r: "r = Some a" by blast
  with assms obtain ca k h classes where c: "c = Some ca" "vm_classes s ca = Some k"
    and al: "h_alloc ops (sizeof_pobject + length (cl_properties k) * sizeof_pvalue + length (cl_properties k)) (vm_heap s) = (Some a, h)"
    and fresh: "vm_objects s a = None"
    and rt: "pclass_retain_runtime (Some ca) (vm_classes s) = Some classes"
    by (auto simp: pobject_new_def Let_def split: option.splits bind_splits if_splits prod.splits)
  define ob where "ob = \<lparr>ob_refcnt = 1, ob_flags = 0, ob_class = ca, ob_owned = w, ob_prev = None,
      ob_next = (if w then vm_gc_objects s else None), ob_native_data = None, ob_native_finalizer = None,
      ob_slots = map pr_default (cl_properties k), ob_written = replicate (length (cl_properties k)) 0\<rparr>"
  define s1 where "s1 = s\<lparr>vm_heap := h, vm_classes := classes\<rparr>"
  define s2 where "s2 = s1\<lparr>vm_objects := (vm_objects s1)(a \<mapsto> ob)\<rparr>"
  define ev where "ev = Create (PObject a) # map Retain (map pr_default (cl_properties k))"
  define F where "F = (if w then link_object a s2 else Some s2)"
  have "Option.bind F (\<lambda>s. Some (Some a, log_rc ev s)) = Some (r, s')"
    using assms r c al fresh rt
    by (simp add: pobject_new_def Let_def s1_def s2_def ob_def ev_def F_def split: if_splits)
  then obtain s3 where 3: "F = Some s3" and s': "s' = log_rc ev s3" by (auto simp: bind_eq_Some_conv)
  have q1: "quiet s {#} s1 {#}"
  proof -
    have "class_move (vm_classes s, [], h) (classes, [], h)" by (rule pclass_retain_runtime_step [OF rt])
    moreover have "s1 = s\<lparr>vm_classes := classes, vm_heap := h\<rparr>" unfolding s1_def by (cases s) simp
    ultimately show ?thesis using quiet_classes [of s h classes "[]" h "{#}"] by simp
  qed
  obtain k' where k': "classes ca = Some k'" "cl_properties k' = cl_properties k"
    using retain_same_class [OF rt c(2)] by blast
  have "quiet s1 {#} (log_rc (Create (PObject a) # map Retain (ob_slots ob))
      (s1\<lparr>vm_objects := (vm_objects s1)(a \<mapsto> ob)\<rparr>)) {#PObject a#}"
    by (rule quiet_new_object [where k = k']) (use fresh k' in \<open>simp_all add: s1_def ob_def\<close>)
  then have q2: "quiet s1 {#} (log_rc ev s2) {#PObject a#}" by (simp add: s2_def ob_def ev_def)
  have link: "(if w then link_object a (log_rc ev s2) else Some (log_rc ev s2)) = Some (log_rc ev s3)"
    using 3 by (auto simp: F_def link_object_def log_rc_def log_events_def split: if_splits option.splits bind_splits)
  have "quiet (log_rc ev s2) {#PObject a#} s' {#PObject a#}" unfolding s'
    using link by (auto split: if_splits intro: quiet_link)
  with q1 q2 show ?thesis using r by (auto intro: quiet_trans)
qed

section \<open>Destruction\<close>

text \<open>
  What is asked of the function that runs a destructor: it leaves the stack and the frames of
  its caller alone, hands out a result it owns, and an object whose destructor is running
  stays and keeps the mark of it.
\<close>

definition invoke_ok :: "'h invoke_function option \<Rightarrow> bool" where
  "invoke_ok invoke \<longleftrightarrow>
     (case invoke of
        None \<Rightarrow> True
      | Some call \<Rightarrow>
          (\<forall>v args s ok result s'. call v args s = Some (ok, result, s') \<longrightarrow>
             quiet s {#} s' {#result#} \<and>
             (\<forall>a ob. vm_objects s a = Some ob \<longrightarrow> ob_flags ob AND 0x80 \<noteq> 0 \<longrightarrow>
                (\<exists>ob'. vm_objects s' a = Some ob' \<and> ob_class ob' = ob_class ob \<and>
                   ob_flags ob' AND 0x80 \<noteq> 0))))"

lemma quiet_build_callable:
  "build_callable ops a m c s = Some (ok, s') \<Longrightarrow> quiet s {#} s' {#}"
  unfolding build_callable_def
  by (auto split: option.splits bind_splits if_splits intro: quiet_trans dest!: quiet_array_push)

lemma quiet_release_option: "quiet s (oref f r) (release_option f r s) {#}"
  by (cases r) (auto simp: release_option_def)

lemma quiet_guard: "guard_object g n a s = Some s' \<Longrightarrow> quiet s A s' A"
  unfolding guard_object_def by (auto split: if_splits intro: quiet_set_object)

lemma quiet_call_destructor:
  assumes "call_destructor ops invoke a name c s = Some s'" "invoke_ok invoke"
  shows "quiet s {#} s' {#}"
proof (cases invoke)
  case None
  then show ?thesis using assms by (simp add: call_destructor_def)
next
  case (Some call)
  with assms(1) obtain ok t where b: "build_callable ops a name c s = Some (ok, t)"
    and r: "(case (ok, c) of (True, Some arr) \<Rightarrow> do {
        (_, ignored, s) \<leftarrow> call (PArray arr) [] t; Some (log_rc [Release ignored] s) }
      | _ \<Rightarrow> Some t) = Some s'" by (auto simp: call_destructor_def bind_eq_Some_conv)
  have "quiet t {#} s' {#}" using r assms(2) Some
    by (auto simp: invoke_ok_def bind_eq_Some_conv split: bool.splits option.splits
        intro: quiet_trans [OF _ quiet_release])
  with quiet_build_callable [OF b] show ?thesis by (rule quiet_trans)
qed

lemma quiet_run_destructor_method:
  assumes ret: "run_destructor_method ops invoke a s = Some s'" and inv: "invoke_ok invoke"
  shows "quiet s {#} s' {#}"
proof -
  obtain name s1 where 1: "new_string ops ''__destruct'' s = (name, s1)" by force
  obtain ob where ob: "vm_objects s a = Some ob"
    using ret by (auto simp: run_destructor_method_def bind_eq_Some_conv)
  from ret 1 ob obtain c s2 s3 s4 s5 s6 where
    2: "new_array ops 2 s1 = Some (c, s2)" and
    3: "set_object a (\<lambda>ob. ob\<lparr>ob_flags := ob_flags ob OR 0x80\<rparr>) s2 = Some s3" and
    4: "guard_object (ob_refcnt ob = 0) 1 a s3 = Some s4" and
    5: "call_destructor ops invoke a name c s4 = Some s5" and
    6: "guard_object (ob_refcnt ob = 0) 0 a (release_option PString name (release_option PArray c s5)) = Some s6" and
    7: "s' = s6\<lparr>vm_error := fits 256 (fits 256 (vm_error s)), vm_error_line := vm_error_line s\<rparr>"
    by (auto simp: run_destructor_method_def Let_def bind_eq_Some_conv)
  let ?n = "oref PString name" and ?c = "oref PArray c"
  have "quiet s {#} s1 ?n" by (rule quiet_new_string [OF 1])
  also have "quiet s1 ?n s2 (?c + ?n)" using quiet_frame [OF quiet_new_array(1) [OF 2], of ?n] by simp
  also have "quiet s2 (?c + ?n) s3 (?c + ?n)" by (rule quiet_set_object [OF 3]) simp
  also have "quiet s3 (?c + ?n) s4 (?c + ?n)" by (rule quiet_guard [OF 4])
  also have "quiet s4 (?c + ?n) s5 (?c + ?n)"
    using quiet_frame [OF quiet_call_destructor [OF 5 inv], of "?c + ?n"] by simp
  also have "quiet s5 (?c + ?n) (release_option PArray c s5) ?n"
    using quiet_frame [OF quiet_release_option [of s5 PArray c], of ?n] by simp
  also have "quiet (release_option PArray c s5) ?n (release_option PString name (release_option PArray c s5)) {#}"
    by (rule quiet_release_option)
  also have "quiet (release_option PString name (release_option PArray c s5)) {#} s6 {#}" by (rule quiet_guard [OF 6])
  also have "quiet s6 {#} s' {#}" unfolding 7 by simp
  finally show ?thesis .
qed

lemma quiet_run_destructor:
  assumes "pobject_run_destructor ops invoke object s = Some (r, s')" "invoke_ok invoke"
  shows "quiet s {#} s' {#}"
  using assms unfolding pobject_run_destructor_def
  by (auto split: option.splits bind_splits if_splits intro: quiet_run_destructor_method)

lemma quiet_delete_object:
  assumes ob: "vm_objects s a = Some ob"
  shows "quiet s {#} (log_rc (map Release (ob_slots ob)) (s\<lparr>vm_objects := (vm_objects s)(a := None)\<rparr>)) {#}"
proof -
  let ?s = "log_rc (map Release (ob_slots ob)) (s\<lparr>vm_objects := (vm_objects s)(a := None)\<rparr>)"
  have "mem_ok ?s \<and> balance s {#} ?s {#}" if m: "mem_ok s"
  proof
    show "mem_ok ?s" using m unfolding mem_ok_def
      by (auto intro: finite_subset [of "dom (vm_objects s) - {a}"])
    have "held_map (mset \<circ> ob_slots) ((vm_objects s)(a := None)) + mset (ob_slots ob) = held_map (mset \<circ> ob_slots) (vm_objects s)"
      using held_map_del [of "vm_objects s" a ob "mset \<circ> ob_slots"] m ob by (simp add: mem_ok_def)
    from arg_cong [OF this, of cnt] show "balance s {#} ?s {#}"
      by (simp add: balance_def held_defs acquired_def given_up_def ac_simps)
  qed
  then show ?thesis by (simp add: quiet_def view_def)
qed

lemma quiet_finalize: "quiet s A (log_events [Finalize f d] s) A"
  by (rule quiet_log) simp

lemma quiet_finalize_native: "quiet s A (finalize_native ops ob s) A"
  unfolding finalize_native_def Let_def
  by (auto split: option.split intro: quiet_trans [OF quiet_finalize quiet_heap(1)])

lemma quiet_free_object:
  assumes ret: "free_object ops a c ob s = Some s'" and ob: "vm_objects s a = Some obj"
    and same: "ob_slots ob = ob_slots obj" "ob_class obj = c"
  shows "quiet s {#} s' {#}"
proof -
  from ret obtain k classes ev h where k: "vm_classes s c = Some k" and
    r: "pclass_release_runtime ops (Some c) (vm_classes s, [], h_free ops (Some a) (vm_heap s)) = Some (classes, ev, h)" and
    s': "s' = log_events (map Ev ev) ((log_rc (map Release (take (length (cl_properties k)) (ob_slots ob)))
      (s\<lparr>vm_objects := (vm_objects s)(a := None)\<rparr>))\<lparr>vm_heap := h_free ops (Some a) (vm_heap s),
        vm_classes := classes, vm_heap := h\<rparr>)"
    by (auto simp: free_object_def Let_def bind_eq_Some_conv)
  let ?s1 = "log_rc (map Release (take (length (cl_properties k)) (ob_slots ob))) (s\<lparr>vm_objects := (vm_objects s)(a := None)\<rparr>)"
  let ?s2 = "?s1\<lparr>vm_heap := h_free ops (Some a) (vm_heap s)\<rparr>"
  have 1: "quiet s {#} ?s1 {#}"
  proof (cases "mem_ok s")
    case True
    then have "length (ob_slots obj) = length (cl_properties k)" using ob k same(2) by (simp add: mem_ok_def)
    then show ?thesis using quiet_delete_object [OF ob] same(1) by simp
  qed (simp add: quiet_def view_def)
  have 2: "quiet ?s1 {#} ?s2 {#}" by simp
  have "pclass_release_runtime ops (Some c) (vm_classes ?s2, [], vm_heap ?s2) = Some (classes, ev, h)"
    using r by simp
  from quiet_release_runtime [OF this, of "{#}"] have 3: "quiet ?s2 {#} s' {#}" unfolding s' by simp
  show ?thesis by (rule quiet_trans [OF quiet_trans [OF 1 2] 3])
qed

lemma array_push_objects: "array_push ops a v s = Some (ok, s') \<Longrightarrow> vm_objects s' = vm_objects s"
  by (auto simp: array_push_def bind_eq_Some_conv split: option.splits)

lemma build_callable_objects: "build_callable ops a m c s = Some (ok, s') \<Longrightarrow> vm_objects s' = vm_objects s"
  by (auto simp: build_callable_def bind_eq_Some_conv split: option.splits if_splits dest!: array_push_objects)

lemma new_string_objects: "new_string ops b s = (r, s') \<Longrightarrow> vm_objects s' = vm_objects s"
  by (auto simp: new_string_def split: prod.splits option.splits)

lemma new_array_objects: "new_array ops n s = Some (r, s') \<Longrightarrow> vm_objects s' = vm_objects s"
  by (auto simp: new_array_def split: prod.splits option.splits if_splits)

lemma release_option_objects [simp]: "vm_objects (release_option f r s) = vm_objects s"
  by (simp add: release_option_def split: option.split)

lemma call_destructor_keeps:
  assumes ret: "call_destructor ops invoke a name c s = Some s'" and inv: "invoke_ok invoke"
    and ob: "vm_objects s a = Some ob" "ob_flags ob AND 0x80 \<noteq> 0"
  shows "\<exists>ob'. vm_objects s' a = Some ob' \<and> ob_class ob' = ob_class ob \<and> ob_flags ob' AND 0x80 \<noteq> 0"
proof (cases invoke)
  case None
  then show ?thesis using ret ob by (simp add: call_destructor_def)
next
  case (Some call)
  with ret obtain ok t where b: "build_callable ops a name c s = Some (ok, t)"
    and r: "(case (ok, c) of (True, Some arr) \<Rightarrow> do {
        (_, ignored, s) \<leftarrow> call (PArray arr) [] t; Some (log_rc [Release ignored] s) }
      | _ \<Rightarrow> Some t) = Some s'" by (auto simp: call_destructor_def bind_eq_Some_conv)
  have t: "vm_objects t a = Some ob" using build_callable_objects [OF b] ob by simp
  show ?thesis
  proof (cases "ok \<and> c \<noteq> None")
    case False
    then show ?thesis using r t ob(2) by (auto split: bool.splits option.splits)
  next
    case True
    with r obtain arr k v u where "call (PArray arr) [] t = Some (k, v, u)" "s' = log_rc [Release v] u"
      by (auto simp: bind_eq_Some_conv)
    then show ?thesis using inv Some t ob(2) by (fastforce simp: invoke_ok_def)
  qed
qed

lemma set_object_result:
  "set_object a f s = Some s' \<Longrightarrow> vm_objects s a = Some ob \<Longrightarrow> vm_objects s' a = Some (f ob)"
  by (auto simp: set_object_def)

lemma guard_object_result:
  "guard_object g n a s = Some s' \<Longrightarrow> vm_objects s a = Some ob \<Longrightarrow>
     \<exists>ob'. vm_objects s' a = Some ob' \<and> ob_class ob' = ob_class ob \<and> ob_flags ob' = ob_flags ob \<and>
       ob_slots ob' = ob_slots ob"
  by (auto simp: guard_object_def dest: set_object_result split: if_splits)

lemma run_destructor_method_result:
  assumes m: "run_destructor_method ops invoke a s = Some s'" and inv: "invoke_ok invoke"
    and ob: "vm_objects s a = Some ob"
  shows "\<exists>ob'. vm_objects s' a = Some ob' \<and> ob_class ob' = ob_class ob \<and> ob_flags ob' AND 0x80 \<noteq> 0"
    "vm_error s' = fits 256 (vm_error s)" "vm_error_line s' = vm_error_line s"
proof -
  obtain name s1 where 1: "new_string ops ''__destruct'' s = (name, s1)" by force
  from m 1 ob obtain c s2 s3 s4 s5 s6 where
    2: "new_array ops 2 s1 = Some (c, s2)" and
    3: "set_object a (\<lambda>ob. ob\<lparr>ob_flags := ob_flags ob OR 0x80\<rparr>) s2 = Some s3" and
    4: "guard_object (ob_refcnt ob = 0) 1 a s3 = Some s4" and
    5: "call_destructor ops invoke a name c s4 = Some s5" and
    6: "guard_object (ob_refcnt ob = 0) 0 a (release_option PString name (release_option PArray c s5)) = Some s6" and
    7: "s' = s6\<lparr>vm_error := fits 256 (fits 256 (vm_error s)), vm_error_line := vm_error_line s\<rparr>"
    by (auto simp: run_destructor_method_def Let_def bind_eq_Some_conv)
  show "vm_error s' = fits 256 (vm_error s)" "vm_error_line s' = vm_error_line s"
    unfolding 7 by (simp_all add: fits_def)
  have "vm_objects s2 a = Some ob" using ob new_string_objects [OF 1] new_array_objects [OF 2] by simp
  from set_object_result [OF 3 this] obtain ob3 where
    ob3: "vm_objects s3 a = Some ob3" "ob_class ob3 = ob_class ob" "ob_flags ob3 = ob_flags ob OR 0x80" by simp
  from guard_object_result [OF 4 ob3(1)] ob3 obtain ob4 where
    ob4: "vm_objects s4 a = Some ob4" "ob_class ob4 = ob_class ob" "ob_flags ob4 = ob_flags ob OR 0x80" by auto
  have "bit (ob_flags ob4 AND 0x80) 7" unfolding ob4(3) by (simp add: bit_and_iff bit_or_iff)
  then have "ob_flags ob4 AND 0x80 \<noteq> 0" by auto
  from call_destructor_keeps [OF 5 inv ob4(1) this] ob4(2) obtain ob5 where
    "vm_objects s5 a = Some ob5" "ob_class ob5 = ob_class ob" "ob_flags ob5 AND 0x80 \<noteq> 0" by auto
  with guard_object_result [OF 6, of ob5]
  show "\<exists>ob'. vm_objects s' a = Some ob' \<and> ob_class ob' = ob_class ob \<and> ob_flags ob' AND 0x80 \<noteq> 0"
    unfolding 7 by auto
qed

lemma run_destructor_cases:
  assumes "pobject_run_destructor ops invoke (Some a) s = Some (r, s')" "vm_objects s a = Some ob"
  shows "\<not> r \<and> s' = s \<or> r \<and> run_destructor_method ops invoke a s = Some s'"
  using assms by (auto simp: pobject_run_destructor_def bind_eq_Some_conv split: option.splits if_splits)

lemma run_destructor_keeps:
  assumes ret: "pobject_run_destructor ops invoke (Some a) s = Some (r, s')" and inv: "invoke_ok invoke"
    and ob: "vm_objects s a = Some ob"
  shows "\<exists>ob'. vm_objects s' a = Some ob' \<and> ob_class ob' = ob_class ob"
  using run_destructor_cases [OF ret ob] run_destructor_method_result(1) [OF _ inv ob] ob by blast

lemma unlink_keeps:
  assumes "unlink_object ob0 s = Some s'" "vm_objects s a = Some ob"
  shows "\<exists>ob'. vm_objects s' a = Some ob' \<and> ob_class ob' = ob_class ob \<and> ob_slots ob' = ob_slots ob"
  using assms by (auto simp: unlink_object_def bind_eq_Some_conv split: option.splits if_splits)

lemma quiet_destroy:
  assumes ret: "pobject_destroy ops invoke object s = Some s'" and inv: "invoke_ok invoke"
  shows "quiet s {#} s' {#}"
proof (cases object)
  case None
  then show ?thesis using ret by (simp add: pobject_destroy_def)
next
  case (Some a)
  with ret obtain first s1 r s2 ob s3 where
    1: "vm_objects s a = Some first" "gc_unbuffer_object a s = Some s1" and
    2: "pobject_run_destructor ops invoke (Some a) s1 = Some (r, s2)" "vm_objects s2 a = Some ob" and
    3: "(if ob_owned ob then unlink_object ob s2 else Some s2) = Some s3" and
    4: "free_object ops a (ob_class first) ob (finalize_native ops ob s3) = Some s'"
    by (auto simp: pobject_destroy_def bind_eq_Some_conv)
  from 1 obtain ob1 where "vm_objects s1 a = Some ob1" "ob_class ob1 = ob_class first"
    by (auto simp: gc_unbuffer_object_def split: if_splits)
  with run_destructor_keeps [OF 2(1) inv] 2(2) have c: "ob_class ob = ob_class first" by auto
  have "quiet s2 {#} s3 {#}" using 3 by (auto split: if_splits intro: quiet_unlink)
  moreover obtain ob3 where ob3: "vm_objects s3 a = Some ob3" "ob_class ob3 = ob_class ob" "ob_slots ob3 = ob_slots ob"
    using 3 2(2) unlink_keeps [of ob s2 s3 a ob] by (auto split: if_splits)
  have fin: "vm_objects (finalize_native ops ob s3) = vm_objects s3"
    by (simp add: finalize_native_def Let_def split: option.split)
  have "quiet (finalize_native ops ob s3) {#} s' {#}"
    by (rule quiet_free_object [where obj = ob3, OF 4]) (use ob3 c fin in simp_all)
  moreover have "quiet s {#} s2 {#}"
    by (rule quiet_trans [OF quiet_unbuffer [OF 1(2)] quiet_run_destructor [OF 2(1) inv]])
  ultimately show ?thesis
    using quiet_finalize_native [of s3 "{#}" ops ob] by (metis quiet_trans)
qed

section \<open>Exception objects\<close>

lemma quiet_exception_new:
  assumes ret: "pphp_exception_new ops invoke class_name message s = Some (r, s')" and inv: "invoke_ok invoke"
  shows "quiet s {#} s' (oref PObject r)"
proof -
  from ret obtain c where c: "pphp_find_class class_name s = Some c"
    by (auto simp: pphp_exception_new_def bind_eq_Some_conv)
  from ret c obtain object s1 where
    1: "(case c of None \<Rightarrow> Some (None, s) | Some k \<Rightarrow> pobject_new ops True (Some k) s) = Some (object, s1)"
    by (auto simp: pphp_exception_new_def bind_eq_Some_conv)
  have q1: "quiet s {#} s1 (oref PObject object)"
    using 1 by (cases c) (auto dest: quiet_pobject_new)
  show ?thesis
  proof (cases object)
    case None
    then show ?thesis using ret c 1 q1 by (simp add: pphp_exception_new_def)
  next
    case (Some a)
    obtain str s2 where n: "new_string ops (case message of None \<Rightarrow> [] | Some m \<Rightarrow> m) s1 = (str, s2)" by force
    from ret c 1 Some n obtain property where
      p: "pclass_find_property c ''message'' (vm_classes s1) = Some property"
      and rest: "(case (property, str) of
             (Some p, Some str) \<Rightarrow> do {
               s \<leftarrow> store_slot a (unat (pr_slot p)) (PString str) s2;
               s \<leftarrow> pphp_exception_set_location ops (Some a)
                      (Some (case vm_chunk_name s of None \<Rightarrow> ''<source>'' | Some n \<Rightarrow> n))
                      (vm_error_line s) s;
               Some (Some a, s)
             }
           | _ \<Rightarrow> do {
               let s = (case str of
                          None \<Rightarrow> s2
                        | Some x \<Rightarrow> log_rc [Release (PString x)]
                                      (s2\<lparr>vm_heap := ps_destroy ops (Some x) (vm_heap s2)\<rparr>));
               s \<leftarrow> pobject_destroy ops invoke (Some a) s;
               Some (None, log_rc [Release (PObject a)] s)
             }) = Some (r, s')"
      by (auto simp: pphp_exception_new_def bind_eq_Some_conv)
    let ?o = "{#PObject a#}"
    have q2: "quiet s {#} s2 (oref PString str + ?o)"
    proof -
      have "quiet s {#} s1 ?o" using q1 Some by simp
      moreover have "quiet s1 ?o s2 (oref PString str + ?o)"
        using quiet_frame [OF quiet_new_string [OF n], of ?o] by simp
      ultimately show ?thesis by (rule quiet_trans)
    qed
    show ?thesis
    proof (cases "property \<noteq> None \<and> str \<noteq> None")
      case True
      then obtain p x where px: "property = Some p" "str = Some x" by auto
      with rest obtain s3 where s3: "store_slot a (unat (pr_slot p)) (PString x) s2 = Some s3"
        and l: "pphp_exception_set_location ops (Some a)
          (Some (case vm_chunk_name s3 of None \<Rightarrow> ''<source>'' | Some n \<Rightarrow> n)) (vm_error_line s3) s3 = Some s'"
        and r: "r = Some a" by (auto simp: bind_eq_Some_conv)
      have "quiet s2 {#PString x#} s' {#}" by (rule quiet_trans [OF quiet_store_slot [OF s3] quiet_set_location [OF l]])
      moreover have "quiet s {#} s2 ({#PString x#} + ?o)" using q2 by (simp only: px option.case)
      ultimately have "quiet s {#} s' ({#} + ?o)" using quiet_frame quiet_trans by blast
      then show ?thesis using r by simp
    next
      case False
      define s3 where "s3 = (case str of None \<Rightarrow> s2 | Some x \<Rightarrow> log_rc [Release (PString x)]
        (s2\<lparr>vm_heap := ps_destroy ops (Some x) (vm_heap s2)\<rparr>))"
      from False rest obtain s4 where s4: "pobject_destroy ops invoke (Some a) s3 = Some s4"
        and r: "r = None" "s' = log_rc [Release (PObject a)] s4"
        unfolding s3_def by (cases property; cases str) (auto simp: Let_def bind_eq_Some_conv)
      have q3: "quiet s2 (oref PString str) s3 {#}" unfolding s3_def
        by (cases str) (auto intro: quiet_trans [OF quiet_heap(1) quiet_release])
      have q4: "quiet s3 ?o s4 ?o" using quiet_frame [OF quiet_destroy [OF s4 inv], of ?o] by simp
      have q5: "quiet s4 ?o s' {#}" unfolding r by simp
      have q3': "quiet s2 (oref PString str + ?o) s3 ?o" using quiet_frame [OF q3, of ?o] by simp
      show ?thesis using quiet_trans [OF q2 quiet_trans [OF q3' quiet_trans [OF q4 q5]]] r by simp
    qed
  qed
qed

end
