(* ===== verification/VmClosures.thy ===== *)
theory VmClosures
  imports VmObjects Closures
begin

text \<open>
  Closures and iterators are quiet: creating and destroying them moves the captured values
  and the array, and advancing an iterator hands out references to key and value.
\<close>

unbundle bit_operations_syntax

section \<open>Updates of the two maps\<close>

lemma quiet_new_closure:
  assumes "vm_closures s a = None"
  shows "quiet s {#} (log_rc (Create (PClosure a) # map Retain (co_captures c))
    (s\<lparr>vm_closures := (vm_closures s)(a \<mapsto> c)\<rparr>)) {#PClosure a#}"
proof -
  let ?s = "log_rc (Create (PClosure a) # map Retain (co_captures c)) (s\<lparr>vm_closures := (vm_closures s)(a \<mapsto> c)\<rparr>)"
  have "mem_ok ?s \<and> balance s {#} ?s {#PClosure a#}" if m: "mem_ok s"
  proof
    show "mem_ok ?s" using m by (auto simp: mem_ok_def)
    have "held_map (mset \<circ> co_captures) ((vm_closures s)(a \<mapsto> c)) =
        held_map (mset \<circ> co_captures) (vm_closures s) + mset (co_captures c)"
      using held_map_fresh [of "vm_closures s" a "mset \<circ> co_captures" c] m assms by (simp add: mem_ok_def)
    then show "balance s {#} ?s {#PClosure a#}"
      by (simp add: balance_def held_defs acquired_def given_up_def ac_simps)
  qed
  then show ?thesis by (simp add: quiet_def view_def)
qed

lemma quiet_delete_closure:
  assumes "vm_closures s a = Some c"
  shows "quiet s {#} (log_rc (map Release (co_captures c)) (s\<lparr>vm_closures := (vm_closures s)(a := None)\<rparr>)) {#}"
proof -
  let ?s = "log_rc (map Release (co_captures c)) (s\<lparr>vm_closures := (vm_closures s)(a := None)\<rparr>)"
  have "mem_ok ?s \<and> balance s {#} ?s {#}" if m: "mem_ok s"
  proof
    show "mem_ok ?s" using m unfolding mem_ok_def by simp
    have "held_map (mset \<circ> co_captures) ((vm_closures s)(a := None)) + mset (co_captures c) =
        held_map (mset \<circ> co_captures) (vm_closures s)"
      using held_map_del [of "vm_closures s" a c "mset \<circ> co_captures"] m assms by (simp add: mem_ok_def)
    from arg_cong [OF this, of cnt] show "balance s {#} ?s {#}"
      by (simp add: balance_def held_defs acquired_def given_up_def ac_simps)
  qed
  then show ?thesis by (simp add: quiet_def view_def)
qed

lemma quiet_closure_same:
  assumes "vm_closures s a = Some c" "co_captures c' = co_captures c"
  shows "quiet s A (s\<lparr>vm_closures := (vm_closures s)(a \<mapsto> c')\<rparr>) A"
proof -
  let ?s = "s\<lparr>vm_closures := (vm_closures s)(a \<mapsto> c')\<rparr>"
  have "mem_ok ?s \<and> balance s A ?s A" if m: "mem_ok s"
  proof
    show "mem_ok ?s" using m by (auto simp: mem_ok_def)
    have "held_map (mset \<circ> co_captures) ((vm_closures s)(a \<mapsto> c')) = held_map (mset \<circ> co_captures) (vm_closures s)"
      by (rule held_map_same) (use m assms in \<open>auto simp: mem_ok_def\<close>)
    then show "balance s A ?s A"
      by (simp add: balance_def held_defs acquired_def given_up_def ac_simps)
  qed
  then show ?thesis by (simp add: quiet_def view_def)
qed

lemma quiet_unbuffer_closure:
  assumes "vm_closures s a = Some c"
  shows "quiet s A (gc_unbuffer_closure a c s) A"
    "\<exists>c'. vm_closures (gc_unbuffer_closure a c s) a = Some c' \<and> co_captures c' = co_captures c"
  using assms unfolding gc_unbuffer_closure_def
  by (auto intro: quiet_trans [OF quiet_closure_same quiet_list_head(2)])

lemma quiet_new_iterator:
  assumes "vm_iterators s a = None"
  shows "quiet s {#} (log_rc [Create (PResource a), Retain (PArray (it_array it))]
    (s\<lparr>vm_iterators := (vm_iterators s)(a \<mapsto> it)\<rparr>)) {#PResource a#}"
proof -
  let ?s = "log_rc [Create (PResource a), Retain (PArray (it_array it))] (s\<lparr>vm_iterators := (vm_iterators s)(a \<mapsto> it)\<rparr>)"
  have "mem_ok ?s \<and> balance s {#} ?s {#PResource a#}" if m: "mem_ok s"
  proof
    show "mem_ok ?s" using m by (auto simp: mem_ok_def)
    have "held_map iterated ((vm_iterators s)(a \<mapsto> it)) = held_map iterated (vm_iterators s) + iterated it"
      using held_map_fresh [of "vm_iterators s" a iterated it] m assms by (simp add: mem_ok_def)
    then show "balance s {#} ?s {#PResource a#}"
      by (simp add: balance_def held_defs acquired_def given_up_def iterated_def ac_simps)
  qed
  then show ?thesis by (simp add: quiet_def view_def)
qed

lemma quiet_move_iterator:
  assumes "vm_iterators s a = Some it" "it_array it' = it_array it"
  shows "quiet s A (s\<lparr>vm_iterators := (vm_iterators s)(a \<mapsto> it')\<rparr>) A"
proof -
  let ?s = "s\<lparr>vm_iterators := (vm_iterators s)(a \<mapsto> it')\<rparr>"
  have "mem_ok ?s \<and> balance s A ?s A" if m: "mem_ok s"
  proof
    show "mem_ok ?s" using m by (auto simp: mem_ok_def)
    have "held_map iterated ((vm_iterators s)(a \<mapsto> it')) = held_map iterated (vm_iterators s)"
      by (rule held_map_same) (use m assms in \<open>auto simp: mem_ok_def iterated_def\<close>)
    then show "balance s A ?s A"
      by (simp add: balance_def held_defs acquired_def given_up_def ac_simps)
  qed
  then show ?thesis by (simp add: quiet_def view_def)
qed

lemma quiet_delete_iterator:
  assumes "vm_iterators s a = Some it"
  shows "quiet s {#} (log_rc [Release (PArray (it_array it))] (s\<lparr>vm_iterators := (vm_iterators s)(a := None)\<rparr>)) {#}"
proof -
  let ?s = "log_rc [Release (PArray (it_array it))] (s\<lparr>vm_iterators := (vm_iterators s)(a := None)\<rparr>)"
  have "mem_ok ?s \<and> balance s {#} ?s {#}" if m: "mem_ok s"
  proof
    show "mem_ok ?s" using m unfolding mem_ok_def by simp
    have "held_map iterated ((vm_iterators s)(a := None)) + iterated it = held_map iterated (vm_iterators s)"
      using held_map_del [of "vm_iterators s" a it iterated] m assms by (simp add: mem_ok_def)
    from arg_cong [OF this, of cnt] show "balance s {#} ?s {#}"
      by (simp add: balance_def held_defs acquired_def given_up_def iterated_def ac_simps)
  qed
  then show ?thesis by (simp add: quiet_def view_def)
qed

section \<open>The operations\<close>

lemma quiet_release_context:
  assumes "release_context ops scope class s = Some s'"
  shows "quiet s A s' A"
proof -
  from assms obtain st classes ev h where
    1: "pclass_release_runtime ops scope (vm_classes s, [], vm_heap s) = Some st" and
    2: "pclass_release_runtime ops class st = Some (classes, ev, h)" and
    s': "s' = log_events (map Ev ev) (s\<lparr>vm_classes := classes, vm_heap := h\<rparr>)"
    by (auto simp: release_context_def bind_eq_Some_conv)
  obtain c1 e1 h1 where st: "st = (c1, e1, h1)" by (metis prod_cases3)
  have "class_move (vm_classes s, [], vm_heap s) (classes, ev, h)"
    using 1 2 unfolding st by (blast intro: class_step_trans pclass_release_runtime_step)
  then show ?thesis unfolding s' by (rule quiet_classes)
qed

lemma quiet_log_module: "quiet s A (log_events [Ev (RetainModule m)] s) A" "quiet s A (log_events [Ev (ReleaseModule m)] s) A"
  by (rule quiet_log; simp)+

lemma quiet_pclosure_new:
  assumes ret: "pclosure_new ops proto module scope class captures s = Some (r, s')"
  shows "quiet s {#} s' (oref PClosure r)"
proof (cases r)
  case None
  have "s' = s \<or> (\<exists>h. s' = s\<lparr>vm_heap := h\<rparr>)"
    using ret None unfolding pclosure_new_def Let_def
    by (auto split: option.splits bind_splits if_splits prod.splits)
  then show ?thesis using None by auto
next
  case (Some a)
  with ret obtain p h c1 classes where
    fresh: "vm_closures s a = None" and
    1: "pclass_retain_runtime scope (vm_classes s) = Some c1" and
    2: "pclass_retain_runtime class c1 = Some classes" and
    s': "s' = log_events (Ev (Ref (Create (PClosure a))) # Ev (RetainModule module) #
            map (\<lambda>v. Ev (Ref (Retain v))) captures)
          (s\<lparr>vm_heap := h, vm_classes := classes, vm_closures := (vm_closures s)(a \<mapsto>
             \<lparr>co_refcnt = 1, co_flags = 0, co_proto = p, co_module = module, co_called_scope = scope,
              co_called_class = class, co_captures = captures\<rparr>)\<rparr>)"
    unfolding pclosure_new_def Let_def
    by (auto split: option.splits bind_splits if_splits prod.splits)
  let ?c = "\<lparr>co_refcnt = 1, co_flags = 0, co_proto = p, co_module = module, co_called_scope = scope,
      co_called_class = class, co_captures = captures\<rparr>"
  let ?s1 = "s\<lparr>vm_classes := classes, vm_heap := h\<rparr>"
  let ?s2 = "log_rc (Create (PClosure a) # map Retain (co_captures ?c)) (?s1\<lparr>vm_closures := (vm_closures ?s1)(a \<mapsto> ?c)\<rparr>)"
  have "class_move (vm_classes s, [], vm_heap s) (classes, [], h)"
    by (rule class_step_trans [OF pclass_retain_runtime_step [OF 1] pclass_retain_runtime_step [OF 2]])
  from quiet_classes [OF this] have q1: "quiet s {#} ?s1 {#}" by simp
  have q2: "quiet ?s1 {#} ?s2 {#PClosure a#}" by (rule quiet_new_closure) (simp add: fresh)
  have q: "quiet s {#} ?s2 {#PClosure a#}" by (rule quiet_trans [OF q1 q2])
  have log: "rc_log (map (\<lambda>v. Ev (Ref (Retain v))) vs) = map Retain vs" for vs by (induction vs) auto
  have "view ?s2 s'" "mem_ok ?s2 \<Longrightarrow> mem_ok s'" "held s' = held ?s2"
    unfolding s' by (simp_all add: view_def mem_ok_def held_defs)
  moreover have "rc_log (vm_log s') = rc_log (vm_log ?s2)" unfolding s' by (simp add: log)
  then have "acquired s' = acquired ?s2" "given_up s' = given_up ?s2"
    by (simp_all only: acquired_def given_up_def)
  ultimately have "quiet ?s2 {#PClosure a#} s' {#PClosure a#}" by (simp only: quiet_def balance_def) simp
  then show ?thesis using quiet_trans [OF q] Some by simp
qed

lemma quiet_pclosure_destroy:
  assumes "pclosure_destroy ops closure s = Some s'"
  shows "quiet s {#} s' {#}"
proof (cases closure)
  case None
  then show ?thesis using assms by (simp add: pclosure_destroy_def)
next
  case (Some a)
  define s1 where "s1 c = gc_unbuffer_closure a c s" for c
  from assms Some obtain c s2 where c: "vm_closures s a = Some c" and
    2: "release_context ops (co_called_scope c) (co_called_class c)
      (log_events [Ev (ReleaseModule (co_module c))] (log_rc (map Release (co_captures c))
        ((s1 c)\<lparr>vm_closures := (vm_closures (s1 c))(a := None)\<rparr>))) = Some s2" and
    s': "s' = s2\<lparr>vm_heap := h_free ops (Some a) (vm_heap s2)\<rparr>"
    by (auto simp: pclosure_destroy_def Let_def bind_eq_Some_conv s1_def)
  have q1: "quiet s {#} (s1 c) {#}" unfolding s1_def by (rule quiet_unbuffer_closure(1) [OF c])
  obtain c1 where c1: "vm_closures (s1 c) a = Some c1" "co_captures c1 = co_captures c"
    using quiet_unbuffer_closure(2) [OF c] unfolding s1_def by blast
  note q2 = quiet_delete_closure [OF c1(1), unfolded c1(2)]
  note q3 = quiet_trans [OF q2 quiet_log_module(2) [of _ "{#}" "co_module c"]]
  show ?thesis unfolding s'
    by (rule quiet_trans [OF quiet_trans [OF q1 quiet_trans [OF q3 quiet_release_context [OF 2]]] quiet_heap(1)])
qed

lemma quiet_pa_iterator_new:
  assumes "pa_iterator_new ops array s = Some (r, s')"
  shows "quiet s {#} s' (oref PResource r)"
proof (cases r)
  case None
  have "s' = s \<or> (\<exists>h. s' = s\<lparr>vm_heap := h\<rparr>)"
    using assms None unfolding pa_iterator_new_def Let_def by (auto split: option.splits if_splits prod.splits)
  then show ?thesis using None by auto
next
  case (Some a)
  with assms obtain arr h where "vm_iterators s a = None" and
    s': "s' = log_rc [Create (PResource a), Retain (PArray arr)]
      (s\<lparr>vm_heap := h, vm_iterators := (vm_iterators s)(a \<mapsto>
         \<lparr>it_refcnt = 1, it_flags = 0, it_array = arr, it_position = 0\<rparr>)\<rparr>)"
    unfolding pa_iterator_new_def Let_def by (auto split: option.splits if_splits prod.splits)
  then have "quiet (s\<lparr>vm_heap := h\<rparr>) {#} s' {#PResource a#}"
    using quiet_new_iterator [of "s\<lparr>vm_heap := h\<rparr>" a "\<lparr>it_refcnt = 1, it_flags = 0, it_array = arr, it_position = 0\<rparr>"]
    by simp
  then show ?thesis using quiet_trans [OF quiet_heap(1)] Some by simp
qed

lemma quiet_pa_iterator_next:
  assumes "pa_iterator_next iterator s = Some (r, s')"
  shows "quiet s {#} s' (case r of None \<Rightarrow> {#} | Some (k, v) \<Rightarrow> {#k, v#})"
proof (cases iterator)
  case None
  then show ?thesis using assms by (auto simp: pa_iterator_next_def)
next
  case (Some a)
  with assms obtain it arr where it: "vm_iterators s a = Some it" "vm_arrays s (it_array it) = Some arr"
    by (auto simp: pa_iterator_next_def bind_eq_Some_conv)
  show ?thesis
  proof (cases "pa_entry_at (Some arr) (it_position it)")
    case None
    then show ?thesis using assms it Some by (auto simp: pa_iterator_next_def)
  next
    case entry: (Some e)
    obtain k v n ev where e: "e = (k, v, n, ev)" by (metis prod_cases4)
    have ev: "ev = [Retain k, Retain v]" using entry e by (auto simp: pa_entry_at_def Let_def split: if_splits)
    let ?s = "s\<lparr>vm_iterators := (vm_iterators s)(a \<mapsto> it\<lparr>it_position := n\<rparr>)\<rparr>"
    have r: "r = Some (k, v)" "s' = log_rc ev ?s"
      using assms it Some entry e by (auto simp: pa_iterator_next_def)
    have "quiet s {#} ?s {#}" by (rule quiet_move_iterator [OF it(1)]) simp
    moreover have "quiet ?s {#} s' {#k, v#}" unfolding r by (rule quiet_log_rc) (simp add: ev)
    ultimately show ?thesis using r(1) quiet_trans by fastforce
  qed
qed

lemma quiet_presource_destroy: "presource_destroy ops resource s = Some s' \<Longrightarrow> quiet s {#} s' {#}"
proof -
  have eq: "iterator_destroy ops a it s = (log_rc [Release (PArray (it_array it))]
      (s\<lparr>vm_iterators := (vm_iterators s)(a := None)\<rparr>))\<lparr>vm_heap := h_free ops (Some a) (vm_heap s)\<rparr>" for a it
    by (simp add: iterator_destroy_def log_rc_def log_events_def)
  show "presource_destroy ops resource s = Some s' \<Longrightarrow> quiet s {#} s' {#}"
    by (auto simp: presource_destroy_def bind_eq_Some_conv eq split: option.splits
        intro: quiet_trans [OF quiet_delete_iterator quiet_heap(1)])
qed

end
