(* ===== verification/VmDepth.thy ===== *)
theory VmDepth
  imports VmClosures
begin

text \<open>
  The stack discipline of compiled code, as a static check: to every instruction that can be
  reached belongs the number of operands on the stack, above the locals of the frame.  A
  state conforms when the stack of every frame has the height that the check gives, a
  suspended frame being one result short of it.
\<close>

unbundle bit_operations_syntax

section \<open>The static check\<close>

type_synonym depths = "nat \<Rightarrow> nat option"

definition code_u16 :: "pproto \<Rightarrow> nat \<Rightarrow> u16" where
  "code_u16 p i = ucast (pp_code p ! i) OR push_bit 8 (ucast (pp_code p ! Suc i))"

definition jump_depth :: "pproto \<Rightarrow> depths \<Rightarrow> nat \<Rightarrow> u16 \<Rightarrow> nat \<Rightarrow> bool" where
  "jump_depth p D following relative d \<longleftrightarrow>
     (let target = int following + sint relative
      in 0 \<le> target \<and> target \<le> int (code_length p) \<and> D (nat target) = Some d)"

text \<open>Size, operands taken and results left by the instructions that go on to the next.\<close>

definition straight :: "u8 \<Rightarrow> (nat \<times> nat \<times> nat) option" where
  "straight opcode =
     (if opcode = OP_NOP then Some (1, 0, 0)
      else if opcode \<in> {OP_POP, OP_FE_FREE} then Some (1, 1, 0)
      else if opcode = OP_DUP then Some (1, 1, 2)
      else if opcode = OP_SWAP then Some (1, 2, 2)
      else if opcode \<in> {OP_LOAD_NULL, OP_LOAD_TRUE, OP_LOAD_FALSE, OP_LOAD_ARGC} then Some (1, 0, 1)
      else if opcode \<in> {OP_LOAD_I8, OP_LOAD_LOCAL, OP_LOAD_LOCAL_QUIET} then Some (2, 0, 1)
      else if opcode = OP_LOAD_I32 then Some (5, 0, 1)
      else if opcode \<in> {OP_LOAD_CONST, OP_LOAD_NAMED_CONST, OP_NEW_ARRAY} then Some (3, 0, 1)
      else if opcode = OP_STORE_LOCAL then Some (2, 1, 0)
      else if opcode \<in> {OP_UNSET_LOCAL, OP_BIND_GLOBAL} then Some (2, 0, 0)
      else if opcode \<in> {OP_NOT, OP_FE_INIT} then Some (1, 1, 1)
      else if opcode = OP_INSTANCEOF then Some (3, 1, 1)
      else if opcode \<in> {OP_ARR_PUSH, OP_ARR_EXTEND, OP_INSTANCEOF_DYNAMIC} then Some (1, 2, 1)
      else if opcode = OP_ARR_SET then Some (1, 3, 1)
      else if opcode = OP_LINE then Some (3, 0, 0)
      else None)"

definition instr_ok :: "pproto \<Rightarrow> depths \<Rightarrow> nat \<Rightarrow> nat \<Rightarrow> bool" where
  "instr_ok p D pc d \<longleftrightarrow>
     (let opcode = pp_code p ! pc; inside = (\<lambda>n. pc + n \<le> code_length p)
      in case straight opcode of
           Some (n, needs, results) \<Rightarrow>
             inside n \<and> needs \<le> d \<and> D (pc + n) = Some (d - needs + results)
         | None \<Rightarrow>
             if opcode = OP_CALL then
               inside 4 \<and> unat (pp_code p ! (pc + 3)) \<le> d \<and>
               D (pc + 4) = Some (d - unat (pp_code p ! (pc + 3)) + 1)
             else if opcode = OP_STATIC_INIT then
               inside 4 \<and> D (pc + 4) = Some d \<and> jump_depth p D (pc + 4) (code_u16 p (pc + 2)) d
             else if opcode = OP_JMP then inside 3 \<and> jump_depth p D (pc + 3) (code_u16 p (pc + 1)) d
             else if opcode \<in> {OP_JMP_IF, OP_JMP_UNLESS} then
               inside 3 \<and> 1 \<le> d \<and> D (pc + 3) = Some (d - 1) \<and>
               jump_depth p D (pc + 3) (code_u16 p (pc + 1)) (d - 1)
             else if opcode \<in> {OP_JMP_IF_KEEP, OP_JMP_UNLESS_KEEP, OP_JMP_NOTNULL_KEEP} then
               inside 3 \<and> 1 \<le> d \<and> D (pc + 3) = Some (d - 1) \<and>
               jump_depth p D (pc + 3) (code_u16 p (pc + 1)) d
             else if opcode = OP_JMP_IFNULL_KEEP then
               inside 3 \<and> 1 \<le> d \<and> D (pc + 3) = Some d \<and>
               jump_depth p D (pc + 3) (code_u16 p (pc + 1)) d
             else if opcode = OP_FE_NEXT then
               inside 4 \<and> 1 \<le> d \<and> D (pc + 4) = Some (d + (if pp_code p ! (pc + 3) = 0 then 1 else 2)) \<and>
               jump_depth p D (pc + 4) (code_u16 p (pc + 1)) (d - 1)
             else if opcode = OP_CLOSURE then
               inside (4 + 2 * unat (pp_code p ! (pc + 3))) \<and>
               D (pc + (4 + 2 * unat (pp_code p ! (pc + 3)))) = Some (d + 1)
             else if opcode \<in> {OP_RET, OP_THROW} then 1 \<le> d
             else opcode \<in> {OP_HALT, OP_RET_NULL})"

definition well_stacked :: "pproto \<Rightarrow> depths \<Rightarrow> bool" where
  "well_stacked p D \<longleftrightarrow>
     D 0 = Some 0 \<and>
     (\<forall>pc d. D pc = Some d \<longrightarrow> pc < code_length p \<and> instr_ok p D pc d) \<and>
     (\<forall>e \<in> set (catches p). D (unat (handler_pc e)) = Some 0)"

lemma well_stacked_list:
  assumes "map_of ds 0 = Some 0"
    and "list_all (\<lambda>(pc, d). pc < code_length p \<and> instr_ok p (map_of ds) pc d) ds"
    and "list_all (\<lambda>e. map_of ds (unat (handler_pc e)) = Some 0) (catches p)"
  shows "well_stacked p (map_of ds)"
  using assms unfolding well_stacked_def list_all_iff by (blast dest: map_of_SomeD)

section \<open>Conforming states\<close>

abbreviation frame_floor :: "pframe \<Rightarrow> nat" where
  "frame_floor f \<equiv> fr_base f + n_locals (fr_proto f)"

definition frame_ok :: "(pproto \<Rightarrow> depths) \<Rightarrow> pframe \<Rightarrow> bool" where
  "frame_ok \<Phi> f \<longleftrightarrow> well_stacked (fr_proto f) (\<Phi> (fr_proto f)) \<and>
     \<not> fr_has_return_override f \<and> \<not> fr_owns_closure_context f"

fun callers_ok :: "(pproto \<Rightarrow> depths) \<Rightarrow> pframe list \<Rightarrow> nat \<Rightarrow> bool" where
  "callers_ok \<Phi> [] b = (b = 0)"
| "callers_ok \<Phi> (g # gs) b =
     (frame_ok \<Phi> g \<and> callers_ok \<Phi> gs (fr_base g) \<and>
      (\<exists>d. \<Phi> (fr_proto g) (fr_pc g) = Some (Suc d) \<and> b = frame_floor g + d))"

definition conforms :: "(pproto \<Rightarrow> depths) \<Rightarrow> 'h pphp_state \<Rightarrow> bool" where
  "conforms \<Phi> s \<longleftrightarrow>
     (case vm_frames s of
        [] \<Rightarrow> vm_stack_count s = 0
      | f # fs \<Rightarrow> frame_ok \<Phi> f \<and> callers_ok \<Phi> fs (fr_base f) \<and>
          (\<exists>d. \<Phi> (fr_proto f) (fr_pc f) = Some d \<and> vm_stack_count s = frame_floor f + d))"

text \<open>In the middle of an instruction, or after an error, the locals are still there.\<close>

definition floor_ok :: "(pproto \<Rightarrow> depths) \<Rightarrow> 'h pphp_state \<Rightarrow> bool" where
  "floor_ok \<Phi> s \<longleftrightarrow>
     (case vm_frames s of
        [] \<Rightarrow> vm_stack_count s = 0
      | f # fs \<Rightarrow> frame_ok \<Phi> f \<and> callers_ok \<Phi> fs (fr_base f) \<and> frame_floor f \<le> vm_stack_count s)"

lemma conforms_locals: "conforms \<Phi> s \<Longrightarrow> floor_ok \<Phi> s"
  by (auto simp: conforms_def floor_ok_def split: list.splits)

definition functions_ok :: "(pproto \<Rightarrow> depths) \<Rightarrow> 'h pphp_state \<Rightarrow> bool" where
  "functions_ok \<Phi> s \<longleftrightarrow>
     (\<forall>name p m. pphp_find_function name s = Some (Some (p, m)) \<longrightarrow> well_stacked p (\<Phi> p))"

text \<open>What an instruction leaves alone besides.\<close>

definition same_tables :: "'h pphp_state \<Rightarrow> 'h pphp_state \<Rightarrow> bool" where
  "same_tables s s' \<longleftrightarrow>
     length (vm_stack s') = length (vm_stack s) \<and>
     vm_modules s' = vm_modules s \<and> vm_module s' = vm_module s \<and>
     vm_repl_modules s' = vm_repl_modules s \<and> vm_runtime_functions s' = vm_runtime_functions s \<and>
     vm_oom_exception s' = vm_oom_exception s"

definition bal :: "'h pphp_state \<Rightarrow> pvalue multiset \<Rightarrow> 'h pphp_state \<Rightarrow> pvalue multiset \<Rightarrow> bool" where
  "bal s A s' B \<longleftrightarrow> same_tables s s' \<and> (mem_ok s \<longrightarrow> mem_ok s' \<and> balance s A s' B)"

lemma quiet_bal: "quiet s A s' B \<Longrightarrow> bal s A s' B"
  by (simp add: quiet_def bal_def view_def same_tables_def)

lemma bal_trans [trans]: "bal s A s' B \<Longrightarrow> bal s' B s'' C \<Longrightarrow> bal s A s'' C"
  unfolding bal_def same_tables_def by (auto intro: balance_trans)

lemma bal_quiet [trans]: "bal s A s' B \<Longrightarrow> quiet s' B s'' C \<Longrightarrow> bal s A s'' C"
  by (blast intro: bal_trans quiet_bal)

lemma quiet_bal_trans [trans]: "quiet s A s' B \<Longrightarrow> bal s' B s'' C \<Longrightarrow> bal s A s'' C"
  by (blast intro: bal_trans quiet_bal)

lemma bal_frame: "bal s A s' B \<Longrightarrow> bal s (A + C) s' (B + C)"
  by (simp add: bal_def balance_frame)

lemma bal_refl [simp]: "bal s A s A"
  by (simp add: bal_def same_tables_def)

interpretation bal: accounts bal
  by unfold_locales (simp, blast intro: bal_trans, blast intro: bal_frame)

lemma find_function_cong:
  "same_tables s s' \<Longrightarrow> pphp_find_function name s' = pphp_find_function name s"
  by (auto simp: same_tables_def pphp_find_function_def split: option.split)

lemma functions_ok_cong: "same_tables s s' \<Longrightarrow> functions_ok \<Phi> s \<Longrightarrow> functions_ok \<Phi> s'"
  unfolding functions_ok_def using find_function_cong by metis

section \<open>Stack primitives\<close>

text \<open>The fields \<open>held\<close> depends on besides the stack and the frames.\<close>

lemma bal_stack:
  assumes "same_tables s s'" "mem_ok s \<Longrightarrow> mem_ok s'" "table_refs s' = table_refs s" "vm_log s' = vm_log s"
    and "stack_refs s' + frame_refs (vm_frames s') + B = stack_refs s + frame_refs (vm_frames s) + A"
  shows "bal s A s' B"
proof -
  have "held s' + B = held s + A" using assms(3,5) by (simp add: held_def ac_simps)
  from arg_cong [OF this, of cnt] have "cnt (held s') + cnt B = cnt (held s) + cnt A" by simp
  then show ?thesis using assms by (simp add: bal_def balance_def acquired_def given_up_def)
qed

lemma take_Suc_update: "n < length xs \<Longrightarrow> take (Suc n) (xs[n := c]) = take n xs @ [c]"
  by (simp add: take_Suc_conv_app_nth)

lemma bal_push:
  assumes "vm_stack_count s < PPHP_STACK_SLOTS" "length (vm_stack s) = PPHP_STACK_SLOTS"
  shows "bal s {#cell_value c#} (snd (push c s)) {#}"
  using assms by (intro bal_stack)
    (auto simp: push_def same_tables_def mem_ok_def table_refs_def pending_refs_def stack_refs_def take_Suc_update)

lemma push_overflow:
  assumes "PPHP_STACK_SLOTS \<le> vm_stack_count s"
  shows "bal s {#cell_value c#} (snd (push c s)) {#}" "vm_frames (snd (push c s)) = vm_frames s"
    "vm_stack_count (snd (push c s)) = vm_stack_count s" "vm_error (snd (push c s)) \<noteq> []"
proof -
  have "quiet s {#cell_value c#} (snd (push c s)) {#}" using assms
    by (auto simp: push_def intro: quiet_trans [OF quiet_runtime_error quiet_release])
  then show "bal s {#cell_value c#} (snd (push c s)) {#}" "vm_frames (snd (push c s)) = vm_frames s"
    "vm_stack_count (snd (push c s)) = vm_stack_count s"
    by (auto intro: quiet_bal simp: quiet_def view_def)
  show "vm_error (snd (push c s)) \<noteq> []"
    using assms by (simp add: push_def pphp_runtime_error_def fits_def sizeof_error_def)
qed

lemma push_simps:
  assumes "vm_stack_count s < PPHP_STACK_SLOTS"
  shows "vm_frames (snd (push c s)) = vm_frames s" "vm_stack_count (snd (push c s)) = Suc (vm_stack_count s)"
    "vm_error (snd (push c s)) = vm_error s" "vm_halt_result (snd (push c s)) = vm_halt_result s"
  using assms by (simp_all add: push_def)

lemma push_any:
  assumes "length (vm_stack s) = PPHP_STACK_SLOTS"
  shows "bal s {#cell_value c#} (snd (push c s)) {#}"
    "vm_frames (snd (push c s)) = vm_frames s" "vm_stack_count s \<le> vm_stack_count (snd (push c s))"
    "vm_stack_count s \<le> PPHP_STACK_SLOTS \<Longrightarrow> vm_stack_count (snd (push c s)) \<le> PPHP_STACK_SLOTS"
    "vm_error (snd (push c s)) = [] \<Longrightarrow> vm_stack_count (snd (push c s)) = Suc (vm_stack_count s)"
    "vm_halt_result (snd (push c s)) = vm_halt_result s"
  using bal_push [OF _ assms, of c] push_overflow [of s c] push_simps [of s c]
  by (cases "vm_stack_count s < PPHP_STACK_SLOTS"; simp add: push_def pphp_runtime_error_def)+

lemma pop_simps:
  assumes "0 < vm_stack_count s" "vm_stack_count s \<le> length (vm_stack s)" "pop s = (c, s')"
  shows "bal s {#} s' {#cell_value c#}" "vm_frames s' = vm_frames s" "vm_stack_count s' = vm_stack_count s - 1"
    "vm_error s' = vm_error s" "vm_stack s' = vm_stack s" "vm_halt_result s' = vm_halt_result s"
proof -
  obtain n where n: "vm_stack_count s = Suc n" using assms(1) by (cases "vm_stack_count s") auto
  have p: "c = vm_stack s ! n" "s' = s\<lparr>vm_stack_count := n\<rparr>" using assms(3) n by (auto simp: pop_def)
  show "bal s {#} s' {#cell_value c#}" using assms(2) n unfolding p
    by (intro bal_stack) (auto simp: same_tables_def mem_ok_def table_refs_def pending_refs_def stack_refs_def
        take_Suc_conv_app_nth)
  show "vm_frames s' = vm_frames s" "vm_stack_count s' = vm_stack_count s - 1" "vm_error s' = vm_error s"
    "vm_stack s' = vm_stack s" "vm_halt_result s' = vm_halt_result s"
    using n p by simp_all
qed

lemma take_slice: "b \<le> n \<Longrightarrow> n \<le> length xs \<Longrightarrow> take n xs = take b xs @ map ((!) xs) [b..<n]"
  by (rule nth_equalityI) (auto simp: nth_append)

lemma cut_simps:
  assumes "b \<le> vm_stack_count s" "vm_stack_count s \<le> length (vm_stack s)"
    and "s' = (release_range b (vm_stack_count s) s)\<lparr>vm_stack_count := b\<rparr>"
  shows "bal s {#} s' {#}" "vm_frames s' = vm_frames s" "vm_stack_count s' = b" "vm_error s' = vm_error s"
    "vm_stack s' = vm_stack s" "vm_halt_result s' = vm_halt_result s"
    "mset (map cell_value (take b (vm_stack s))) + cnt {#} = stack_refs s'"
proof -
  let ?cut = "map (\<lambda>i. cell_value (vm_stack s ! i)) [b..<vm_stack_count s]"
  have rr: "release_range b (vm_stack_count s) s = log_rc (map Release ?cut) s"
    by (simp add: release_range_def comp_def)
  have split: "stack_refs s = stack_refs s' + mset ?cut"
    using take_slice [OF assms(1,2)] unfolding stack_refs_def assms(3) rr by (simp add: comp_def)
  from arg_cong [OF split, of cnt] have c: "cnt (stack_refs s) = cnt (stack_refs s') + cnt (mset ?cut)" by simp
  have t: "table_refs s' = table_refs s" "vm_frames s' = vm_frames s"
    by (simp_all add: assms(3) rr table_refs_def pending_refs_def)
  have "mem_ok s \<Longrightarrow> mem_ok s'" by (simp add: assms(3) rr mem_ok_def)
  moreover have "balance s {#} s' {#}"
    unfolding balance_def held_def t using c
    by (simp add: assms(3) rr acquired_def given_up_def ac_simps)
  ultimately show "bal s {#} s' {#}"
    by (simp add: bal_def) (simp add: same_tables_def assms(3) rr)
  show "vm_frames s' = vm_frames s" "vm_stack_count s' = b" "vm_error s' = vm_error s"
    "vm_stack s' = vm_stack s" "vm_halt_result s' = vm_halt_result s"
    "mset (map cell_value (take b (vm_stack s))) + cnt {#} = stack_refs s'"
    by (simp_all add: assms(3) rr stack_refs_def)
qed

lemma set_slot_simps:
  assumes "set_slot slot c s = Some s'" "vm_frames s = f # fs" "fr_base f + unat slot < vm_stack_count s"
  shows "bal s {#cell_value c#} s' {#}" "vm_frames s' = vm_frames s" "vm_stack_count s' = vm_stack_count s"
    "vm_error s' = vm_error s" "vm_halt_result s' = vm_halt_result s"
proof -
  let ?i = "fr_base f + unat slot"
  have i: "?i < length (vm_stack s)" and s': "s' = (release_cell (vm_stack s ! ?i) s)\<lparr>vm_stack := (vm_stack s)[?i := c]\<rparr>"
    using assms by (auto simp: set_slot_def slot_index_def top_frame_def rd_eq_Some_iff bind_eq_Some_conv)
  have t: "table_refs s' = table_refs s" "vm_frames s' = vm_frames s"
    by (simp_all add: s' release_cell_def table_refs_def pending_refs_def)
  have "stack_refs s' + {#cell_value (vm_stack s ! ?i)#} = stack_refs s + {#cell_value c#}"
    using list_update_mset [of ?i "map cell_value (take (vm_stack_count s) (vm_stack s))" "cell_value c"] i assms(3)
    by (simp add: stack_refs_def s' release_cell_def take_update_swap map_update)
  from arg_cong [OF this, of cnt] have c: "cnt (stack_refs s') + cnt {#cell_value (vm_stack s ! ?i)#} =
    cnt (stack_refs s) + cnt {#cell_value c#}" by (simp only: filter_union_mset)
  then have "balance s {#cell_value c#} s' {#}" unfolding balance_def held_def t
    by (cases "has_header (cell_value c)"; cases "has_header (cell_value (vm_stack s ! ?i))")
      (simp_all add: s' release_cell_def acquired_def given_up_def ac_simps)
  then show "bal s {#cell_value c#} s' {#}"
    by (simp add: bal_def) (simp add: same_tables_def mem_ok_def s' release_cell_def)
  show "vm_frames s' = vm_frames s" "vm_stack_count s' = vm_stack_count s" "vm_error s' = vm_error s"
    "vm_halt_result s' = vm_halt_result s"
    by (simp_all add: s' release_cell_def)
qed

text \<open>A change of the current frame that keeps its pending result.\<close>

definition same_owner :: "pframe \<Rightarrow> pframe \<Rightarrow> bool" where
  "same_owner f f' \<longleftrightarrow> fr_proto f' = fr_proto f \<and> fr_base f' = fr_base f \<and>
     fr_has_return_override f' = fr_has_return_override f \<and> fr_return_override f' = fr_return_override f \<and>
     fr_owns_closure_context f' = fr_owns_closure_context f"

lemma same_owner_refl [simp]: "same_owner f f"
  by (simp add: same_owner_def)

lemma same_owner_trans: "same_owner f g \<Longrightarrow> same_owner g h \<Longrightarrow> same_owner f h"
  by (simp add: same_owner_def)

lemma frame_ok_same: "same_owner f f' \<Longrightarrow> frame_ok \<Phi> f' = frame_ok \<Phi> f"
  by (simp add: same_owner_def frame_ok_def)

lemma set_top_simps:
  assumes "vm_frames s = f # fs" "same_owner f f'"
  shows "bal s A (set_top f' s) A" "vm_frames (set_top f' s) = f' # fs"
  using assms by (auto simp: set_top_def frame_refs_def same_owner_def same_tables_def mem_ok_def table_refs_def
      pending_refs_def stack_refs_def intro!: bal_stack)

lemma set_top_fields [simp]:
  "vm_stack_count (set_top f s) = vm_stack_count s" "vm_error (set_top f s) = vm_error s"
  "vm_stack (set_top f s) = vm_stack s" "vm_halt_result (set_top f s) = vm_halt_result s"
  by (simp_all add: set_top_def)

end
