(* ===== verification/VmSafe.thy ===== *)
theory VmSafe
  imports VmDepth
begin

text \<open>
  What each instruction does to the stack, the frame and the references.  \<open>outcome\<close> collects
  it: no reference is lost, the callers' frames stay, the locals stay, and unless an error is
  pending the program counter and the height of the stack are those of \<open>P\<close>.
\<close>

unbundle bit_operations_syntax

declare add_2_eq_Suc [simp del] add_2_eq_Suc' [simp del]

definition fits_stack :: "'h pphp_state \<Rightarrow> bool" where
  "fits_stack s \<longleftrightarrow> length (vm_stack s) = PPHP_STACK_SLOTS \<and> vm_stack_count s \<le> PPHP_STACK_SLOTS"

definition outcome ::
  "pframe \<Rightarrow> pframe list \<Rightarrow> 'h pphp_state \<Rightarrow> pvalue multiset \<Rightarrow> 'h pphp_state \<Rightarrow> (nat \<Rightarrow> nat \<Rightarrow> bool) \<Rightarrow> bool" where
  "outcome f fs s A s' P \<longleftrightarrow>
     bal s A s' {#} \<and> (fits_stack s \<longrightarrow> fits_stack s') \<and> vm_halt_result s' = vm_halt_result s \<and>
     (\<exists>f'. vm_frames s' = f' # fs \<and> same_owner f f' \<and> frame_floor f \<le> vm_stack_count s' \<and>
        (vm_error s' = [] \<longrightarrow> P (fr_pc f') (vm_stack_count s')))"

lemma outcomeI:
  assumes "bal s A s' {#}" "fits_stack s \<Longrightarrow> fits_stack s'" "vm_halt_result s' = vm_halt_result s"
    "vm_frames s' = f' # fs" "same_owner f f'" "frame_floor f \<le> vm_stack_count s'"
    "vm_error s' = [] \<Longrightarrow> P (fr_pc f') (vm_stack_count s')"
  shows "outcome f fs s A s' P"
  using assms by (auto simp: outcome_def)

lemma outcome_step:
  assumes "bal s A s1 B" "fits_stack s \<Longrightarrow> fits_stack s1" "vm_halt_result s1 = vm_halt_result s"
    "same_owner f f1" "outcome f1 fs s1 B s' P"
  shows "outcome f fs s A s' P"
  using assms unfolding outcome_def
  by (auto intro: bal_trans same_owner_trans simp: same_owner_def)

lemma quiet_fields:
  assumes "quiet s A s' B"
  shows "vm_frames s' = vm_frames s" "vm_stack_count s' = vm_stack_count s"
    "length (vm_stack s') = length (vm_stack s)"
    "take (vm_stack_count s) (vm_stack s') = take (vm_stack_count s) (vm_stack s)"
    "vm_halt_result s' = vm_halt_result s" "fits_stack s' = fits_stack s"
  using assms by (simp_all add: quiet_def view_def fits_stack_def)

lemma outcome_after_quiet:
  "quiet s A s1 B \<Longrightarrow> outcome f fs s1 B s' P \<Longrightarrow> outcome f fs s A s' P"
  by (rule outcome_step [OF quiet_bal]) (auto dest: quiet_fields)

lemma outcome_quiet:
  assumes "quiet s A s' {#}" "vm_frames s = f # fs" "frame_floor f \<le> vm_stack_count s"
    "vm_error s' = [] \<Longrightarrow> P (fr_pc f) (vm_stack_count s)"
  shows "outcome f fs s A s' P"
  by (rule outcomeI [OF quiet_bal [OF assms(1)]])
    (use assms quiet_fields [OF assms(1)] in auto)

lemma outcome_push:
  assumes "vm_frames s = f # fs" "frame_floor f \<le> vm_stack_count s" "fits_stack s"
    "P (fr_pc f) (Suc (vm_stack_count s))"
  shows "outcome f fs s {#cell_value c#} (snd (push c s)) P"
proof -
  have l: "length (vm_stack s) = PPHP_STACK_SLOTS" using assms(3) by (simp add: fits_stack_def)
  have "length (vm_stack (snd (push c s))) = PPHP_STACK_SLOTS"
    using push_any(1) [OF l] l by (simp add: bal_def same_tables_def)
  then show ?thesis using assms push_any [OF l, of c]
    by (intro outcomeI [of s _ _ f]) (auto simp: fits_stack_def)
qed

lemma outcome_push_value:
  assumes "vm_frames s = f # fs" "frame_floor f \<le> vm_stack_count s" "fits_stack s"
    "P (fr_pc f) (Suc (vm_stack_count s))"
  shows "outcome f fs s {#v#} (push_value v s) P"
  using outcome_push [where P = P and c = "Cell v", OF assms] by (simp add: push_value_def)

lemma outcome_weak:
  assumes "outcome f fs s A s' P" "cnt A = cnt B"
  shows "outcome f fs s B s' P"
  using assms by (auto simp: outcome_def bal_def balance_def)

lemma outcome_push_plain:
  assumes "\<not> has_header v" "vm_frames s = f # fs" "frame_floor f \<le> vm_stack_count s" "fits_stack s"
    "P (fr_pc f) (Suc (vm_stack_count s))"
  shows "outcome f fs s {#} (push_value v s) P"
  by (rule outcome_weak [OF outcome_push_value [where P = P, OF assms(2-5)]]) (simp add: assms(1))

lemma outcome_pop:
  assumes "pop s = (c, s1)" "0 < vm_stack_count s" "fits_stack s" "outcome f fs s1 {#cell_value c#} s' P"
  shows "outcome f fs s {#} s' P"
proof -
  have "vm_stack_count s \<le> length (vm_stack s)" using assms(3) by (simp add: fits_stack_def)
  note p = pop_simps [OF assms(2) this assms(1)]
  show ?thesis by (rule outcome_step [OF p(1) _ p(6) same_owner_refl assms(4)])
      (use assms(3) p in \<open>simp add: fits_stack_def; linarith\<close>)
qed

lemma error_is_set: "m \<noteq> [] \<Longrightarrow> vm_error (pphp_runtime_error line m s) \<noteq> []"
  by (simp add: pphp_runtime_error_def fits_def sizeof_error_def)

lemma frame_error_sets: "frame_error m s = Some s' \<Longrightarrow> m \<noteq> [] \<Longrightarrow> vm_error s' \<noteq> []"
  by (auto simp: frame_error_def bind_eq_Some_conv error_is_set)

lemma outcome_error:
  assumes "frame_error m s = Some s'" "m \<noteq> []" "vm_frames s = f # fs" "frame_floor f \<le> vm_stack_count s"
  shows "outcome f fs s {#} s' P"
  by (rule outcome_quiet [OF quiet_frame_error [OF assms(1)] assms(3,4)])
    (use frame_error_sets [OF assms(1,2)] in simp)

section \<open>Operands\<close>

abbreviation at_pc :: "pframe \<Rightarrow> nat \<Rightarrow> 'h pphp_state \<Rightarrow> 'h pphp_state" where
  "at_pc f n s \<equiv> set_top (f\<lparr>fr_pc := n\<rparr>) s"

lemma set_top_twice [simp]: "set_top f (set_top g s) = set_top f s"
  by (simp add: set_top_def)

lemma set_top_frames [simp]: "vm_frames (set_top f s) = f # tl (vm_frames s)"
  by (simp add: set_top_def)

lemma read_u8_at:
  "vm_frames s = f # fs \<Longrightarrow> fr_pc f < code_length (fr_proto f) \<Longrightarrow>
     read_u8 s = Some (pp_code (fr_proto f) ! fr_pc f, at_pc f (Suc (fr_pc f)) s)"
  by (simp add: read_u8_def top_frame_def)

lemma read_u16_at:
  "vm_frames s = f # fs \<Longrightarrow> fr_pc f + 2 \<le> code_length (fr_proto f) \<Longrightarrow>
     read_u16 s = Some (code_u16 (fr_proto f) (fr_pc f), at_pc f (fr_pc f + 2) s)"
  by (simp add: read_u16_def read_u8_def top_frame_def code_u16_def add_2_eq_Suc')

lemma read_i32_at:
  assumes "vm_frames s = f # fs" "fr_pc f + 4 \<le> code_length (fr_proto f)"
  shows "\<exists>i. read_i32 s = Some (i, at_pc f (fr_pc f + 4) s)"
proof -
  have "fr_pc f + 4 = Suc (Suc (Suc (Suc (fr_pc f))))" by simp
  with assms show ?thesis unfolding read_i32_def read_u8_def top_frame_def
    by (simp del: numeral_eq_Suc add: eval_nat_numeral)
qed

lemma outcome_at:
  assumes "vm_frames s = f # fs" "outcome (f\<lparr>fr_pc := n\<rparr>) fs (at_pc f n s) A s' P"
  shows "outcome f fs s A s' P"
proof -
  have same: "same_owner f (f\<lparr>fr_pc := n\<rparr>)" by (simp add: same_owner_def)
  show ?thesis
    by (rule outcome_step [OF set_top_simps(1) [OF assms(1) same] _ _ same assms(2)])
      (simp_all add: fits_stack_def)
qed

text \<open>
  An instruction in a frame: the state after the opcode byte, with room for its operand bytes
  and with its operands on the stack.
\<close>

definition ready :: "pframe \<Rightarrow> pframe list \<Rightarrow> 'h pphp_state \<Rightarrow> nat \<Rightarrow> nat \<Rightarrow> bool" where
  "ready f fs s operands needs \<longleftrightarrow>
     vm_frames s = f # fs \<and> fits_stack s \<and> vm_error s = [] \<and>
     fr_pc f + operands \<le> code_length (fr_proto f) \<and> frame_floor f + needs \<le> vm_stack_count s"

text \<open>The result of an instruction that goes on to the next.\<close>

definition next_at :: "pframe \<Rightarrow> 'h pphp_state \<Rightarrow> nat \<Rightarrow> nat \<Rightarrow> nat \<Rightarrow> nat \<Rightarrow> nat \<Rightarrow> bool" where
  "next_at f s operands needs results pc n \<longleftrightarrow>
     pc = fr_pc f + operands \<and> n = vm_stack_count s - needs + results"

section \<open>Stack instructions and constants\<close>

lemma op_pop_outcome: "ready f fs s 0 1 \<Longrightarrow> outcome f fs s {#} (op_pop s) (next_at f s 0 1 0)"
proof -
  assume r: "ready f fs s 0 1"
  obtain c s1 where p: "pop s = (c, s1)" by force
  from r have pos: "0 < vm_stack_count s" "fits_stack s" "vm_stack_count s \<le> length (vm_stack s)"
    by (auto simp: ready_def fits_stack_def)
  note ps = pop_simps [OF pos(1,3) p]
  have "outcome f fs s1 {#cell_value c#} (release_cell c s1) (next_at f s 0 1 0)"
    by (rule outcome_quiet) (use r ps in \<open>auto simp: ready_def next_at_def\<close>)
  then show ?thesis using outcome_pop [OF p pos(1,2)] p by (simp add: op_pop_def)
qed

lemma op_dup_outcome:
  assumes r: "ready f fs s 0 1" and ret: "op_dup s = Some s'"
  shows "outcome f fs s {#} s' (next_at f s 0 1 2)"
proof -
  let ?c = "vm_stack s ! (vm_stack_count s - 1)"
  let ?s = "log_rc [Retain (cell_value ?c)] s"
  have n: "vm_stack_count s \<noteq> 0" using r by (simp add: ready_def)
  have q: "quiet s {#} ?s {#cell_value ?c#}" by (rule quiet_log_rc) simp
  have "s' = snd (push ?c ?s)" using ret n by (simp add: op_dup_def Let_def)
  moreover have "outcome f fs ?s {#cell_value ?c#} (snd (push ?c ?s)) (next_at f s 0 1 2)"
    by (rule outcome_push) (use r n in \<open>auto simp: ready_def next_at_def fits_stack_def\<close>)
  ultimately show ?thesis using outcome_after_quiet [OF q] by simp
qed

lemma swap_mset:
  assumes "i < length xs" "j < length xs"
  shows "mset (xs[i := xs ! j, j := xs ! i]) = mset xs"
  by (cases "i = j") (use mset_swap [OF assms(2,1)] in \<open>simp_all add: list_update_swap\<close>)

lemma op_swap_outcome:
  assumes r: "ready f fs s 0 2" and ret: "op_swap s = Some s'"
  shows "outcome f fs s {#} s' (next_at f s 0 2 2)"
proof -
  define n where "n = vm_stack_count s"
  have n: "2 \<le> n" "n \<le> length (vm_stack s)" using r by (auto simp: ready_def n_def fits_stack_def)
  have s': "s' = s\<lparr>vm_stack := (vm_stack s)[n - 1 := vm_stack s ! (n - 2), n - 2 := vm_stack s ! (n - 1)]\<rparr>"
    using ret n(1) by (auto simp: op_swap_def Let_def n_def)
  have "take n (vm_stack s') = (take n (vm_stack s))[n - 1 := take n (vm_stack s) ! (n - 2), n - 2 := take n (vm_stack s) ! (n - 1)]"
    using n by (simp add: s' take_update_swap)
  then have "stack_refs s' = stack_refs s"
    using swap_mset [of "n - 1" "take n (vm_stack s)" "n - 2"] n unfolding stack_refs_def
    by (simp add: s' n_def [symmetric])
  then have "bal s {#} s' {#}"
    by (intro bal_stack) (simp_all add: s' same_tables_def mem_ok_def table_refs_def pending_refs_def)
  then show ?thesis
    by (rule outcomeI [where f' = f]) (use r n in \<open>auto simp: s' ready_def fits_stack_def next_at_def\<close>)
qed

lemma load_plain_outcome:
  "ready f fs s 0 0 \<Longrightarrow> \<not> has_header v \<Longrightarrow> outcome f fs s {#} (push_value v s) (next_at f s 0 0 1)"
  by (rule outcome_push_plain) (auto simp: ready_def next_at_def)

lemma ready_at:
  "ready f fs s k n \<Longrightarrow> j \<le> k \<Longrightarrow> ready (f\<lparr>fr_pc := fr_pc f + j\<rparr>) fs (at_pc f (fr_pc f + j) s) (k - j) n"
  by (auto simp: ready_def fits_stack_def)

lemma ready_weak: "ready f fs s k n \<Longrightarrow> k' \<le> k \<Longrightarrow> n' \<le> n \<Longrightarrow> ready f fs s k' n'"
  by (auto simp: ready_def)

lemma outcome_operands:
  assumes r: "ready f fs s k n"
    and out: "outcome (f\<lparr>fr_pc := fr_pc f + k\<rparr>) fs (at_pc f (fr_pc f + k) s) A s'
      (next_at (f\<lparr>fr_pc := fr_pc f + k\<rparr>) (at_pc f (fr_pc f + k) s) 0 a b)"
  shows "outcome f fs s A s' (next_at f s k a b)"
proof (rule outcome_at)
  show "vm_frames s = f # fs" using r by (simp add: ready_def)
  have "next_at (f\<lparr>fr_pc := fr_pc f + k\<rparr>) (at_pc f (fr_pc f + k) s) 0 a b = next_at f s k a b"
    by (intro ext) (simp add: next_at_def)
  then show "outcome (f\<lparr>fr_pc := fr_pc f + k\<rparr>) fs (at_pc f (fr_pc f + k) s) A s' (next_at f s k a b)"
    using out by simp
qed

lemma load_i8_outcome:
  assumes r: "ready f fs s 1 0" and ret: "do { (b, s) \<leftarrow> read_u8 s; Some (push_value (PInt (scast b)) s) } = Some s'"
  shows "outcome f fs s {#} s' (next_at f s 1 0 1)"
proof (rule outcome_operands [OF r])
  have "read_u8 s = Some (pp_code (fr_proto f) ! fr_pc f, at_pc f (Suc (fr_pc f)) s)"
    using r by (intro read_u8_at) (auto simp: ready_def)
  then have "s' = push_value (PInt (scast (pp_code (fr_proto f) ! fr_pc f))) (at_pc f (fr_pc f + 1) s)"
    using ret by simp
  then show "outcome (f\<lparr>fr_pc := fr_pc f + 1\<rparr>) fs (at_pc f (fr_pc f + 1) s) {#} s'
      (next_at (f\<lparr>fr_pc := fr_pc f + 1\<rparr>) (at_pc f (fr_pc f + 1) s) 0 0 1)"
    using load_plain_outcome [OF ready_at [OF r, of 1, simplified]] by simp
qed

lemma load_i32_outcome:
  assumes r: "ready f fs s 4 0" and ret: "do { (i, s) \<leftarrow> read_i32 s; Some (push_value (PInt i) s) } = Some s'"
  shows "outcome f fs s {#} s' (next_at f s 4 0 1)"
proof (rule outcome_operands [OF r])
  from r obtain i where "read_i32 s = Some (i, at_pc f (fr_pc f + 4) s)"
    using read_i32_at [of s f fs] by (auto simp: ready_def)
  then have "s' = push_value (PInt i) (at_pc f (fr_pc f + 4) s)" using ret by simp
  then show "outcome (f\<lparr>fr_pc := fr_pc f + 4\<rparr>) fs (at_pc f (fr_pc f + 4) s) {#} s'
      (next_at (f\<lparr>fr_pc := fr_pc f + 4\<rparr>) (at_pc f (fr_pc f + 4) s) 0 0 1)"
    using load_plain_outcome [OF ready_at [OF r, of 4, simplified]] by simp
qed

lemma read_u16_ready:
  "ready f fs s k n \<Longrightarrow> 2 \<le> k \<Longrightarrow>
     read_u16 s = Some (code_u16 (fr_proto f) (fr_pc f), at_pc f (fr_pc f + 2) s)"
  by (intro read_u16_at) (auto simp: ready_def)

lemma read_u8_ready:
  "ready f fs s k n \<Longrightarrow> 1 \<le> k \<Longrightarrow>
     read_u8 s = Some (pp_code (fr_proto f) ! fr_pc f, at_pc f (fr_pc f + 1) s)"
  using read_u8_at [of s f fs] by (auto simp: ready_def)

lemma ready_error:
  "ready f fs s k n \<Longrightarrow> frame_error m s = Some s' \<Longrightarrow> m \<noteq> [] \<Longrightarrow> outcome f fs s {#} s' P"
  by (rule outcome_error) (auto simp: ready_def)

lemma op_load_const_outcome:
  assumes r: "ready f fs s 2 0" and ret: "op_load_const s = Some s'"
  shows "outcome f fs s {#} s' (next_at f s 2 0 1)"
proof (rule outcome_operands [OF r])
  let ?f = "f\<lparr>fr_pc := fr_pc f + 2\<rparr>" and ?s = "at_pc f (fr_pc f + 2) s"
  have r1: "ready ?f fs ?s 0 0" using ready_at [OF r, of 2] by simp
  show "outcome ?f fs ?s {#} s' (next_at ?f ?s 0 0 1)"
  proof (cases "rd (constants (fr_proto f)) (unat (code_u16 (fr_proto f) (fr_pc f)))")
    case None
    then show ?thesis using ret read_u16_ready [OF r]
      by (intro ready_error [OF r1]) (auto simp: op_load_const_def top_frame_def)
  next
    case (Some v)
    have q: "quiet ?s {#} (log_rc [Retain v] ?s) {#v#}" by (rule quiet_log_rc) simp
    have "s' = push_value v (log_rc [Retain v] ?s)"
      using ret Some read_u16_ready [OF r] by (simp add: op_load_const_def top_frame_def)
    moreover have "outcome ?f fs (log_rc [Retain v] ?s) {#v#} (push_value v (log_rc [Retain v] ?s)) (next_at ?f ?s 0 0 1)"
      by (rule outcome_push_value) (use r1 quiet_fields [OF q] in \<open>auto simp: ready_def next_at_def\<close>)
    ultimately show ?thesis using outcome_after_quiet [OF q] by simp
  qed
qed

lemma op_load_named_const_outcome:
  assumes r: "ready f fs s 2 0" and ret: "op_load_named_const ops s = Some s'"
  shows "outcome f fs s {#} s' (next_at f s 2 0 1)"
proof (rule outcome_operands [OF r])
  let ?f = "f\<lparr>fr_pc := fr_pc f + 2\<rparr>" and ?s = "at_pc f (fr_pc f + 2) s"
  have r1: "ready ?f fs ?s 0 0" using ready_at [OF r, of 2] by simp
  show "outcome ?f fs ?s {#} s' (next_at ?f ?s 0 0 1)"
  proof (cases "PbcVerify.constant_string (fr_proto f) (code_u16 (fr_proto f) (fr_pc f))")
    case None
    then show ?thesis using ret read_u16_ready [OF r]
      by (intro ready_error [OF r1]) (auto simp: op_load_named_const_def top_frame_def)
  next
    case (Some name)
    with ret read_u16_ready [OF r] obtain found ev h where
      g: "pa_get ops (vm_constants ?s) (PString name) (vm_heap ?s) = Some (found, ev, h)"
      and rest: "(case found of
             None \<Rightarrow> frame_error (''undefined constant '' @ fmt_string (ps_data name)) (log_rc ev (?s\<lparr>vm_heap := h\<rparr>))
           | Some v \<Rightarrow> Some (push_value v (log_rc ev (?s\<lparr>vm_heap := h\<rparr>)))) = Some s'"
      by (auto simp: op_load_named_const_def top_frame_def Let_def bind_eq_Some_conv)
    let ?t = "log_rc ev (?s\<lparr>vm_heap := h\<rparr>)"
    note q = quiet_get [OF g, of ?s]
    have r2: "ready ?f fs ?t 0 0" using r1 quiet_fields [OF q] by (simp add: ready_def)
    show ?thesis
    proof (cases found)
      case None
      then show ?thesis using rest q
        by (auto intro: outcome_after_quiet ready_error [OF r2])
    next
      case (Some v)
      have "outcome ?f fs ?t {#v#} (push_value v ?t) (next_at ?f ?s 0 0 1)"
        by (rule outcome_push_value) (use r2 in \<open>auto simp: ready_def next_at_def\<close>)
      then show ?thesis using Some rest outcome_after_quiet [OF q] by simp
    qed
  qed
qed

end
