(* ===== verification/VmSafeOps.thy ===== *)
theory VmSafeOps
  imports VmSafe
begin

text \<open>
  The instructions on variables, the jumps and the building of arrays.
\<close>

unbundle bit_operations_syntax

declare add_2_eq_Suc [simp del] add_2_eq_Suc' [simp del]

section \<open>Local variables\<close>

lemma no_cell: "\<forall>v. c \<noteq> Cell v \<Longrightarrow> c = Undefined"
  by (cases c) auto

lemma read_local_error:
  assumes "read_local_value ops slot qr s = Some (False, v, s')"
  shows "vm_error s' \<noteq> []"
proof -
  obtain st s1 where "slot_storage ops slot s = Some (st, s1)"
    using assms by (auto simp: read_local_value_def bind_eq_Some_conv)
  with assms show ?thesis
    by (auto simp: read_local_value_def Let_def bind_eq_Some_conv dest: frame_error_sets no_cell
        split: if_splits cell.split_asm option.split_asm)
qed

lemma load_local_outcome:
  assumes r: "ready f fs s 0 0" and ret: "load_local_value ops slot qr s = Some s'"
  shows "outcome f fs s {#} s' (next_at f s 0 0 1)"
proof -
  from ret obtain ok v s1 where l: "read_local_value ops slot qr s = Some (ok, v, s1)"
    and s': "s' = (if ok then push_value v s1 else s1)"
    by (auto simp: load_local_value_def bind_eq_Some_conv)
  note q = quiet_read_local [OF l]
  note qf = quiet_fields [OF q]
  show ?thesis
  proof (cases ok)
    case True
    have "outcome f fs s1 {#v#} (push_value v s1) (next_at f s 0 0 1)"
      by (rule outcome_push_value) (use r qf in \<open>auto simp: ready_def next_at_def\<close>)
    then show ?thesis using outcome_after_quiet [OF q] s' True by simp
  next
    case False
    with l have e: "vm_error s1 \<noteq> []" by (auto dest: read_local_error)
    have "v = PNull" using l False
      by (auto simp: read_local_value_def Let_def bind_eq_Some_conv dest: no_cell split: if_splits cell.split_asm option.split_asm)
    then have "quiet s {#} s1 {#}" using q by (simp add: quiet_def balance_def)
    then show ?thesis unfolding s' using False
      using r by (intro outcome_quiet) (auto simp: e ready_def)
  qed
qed

lemma op_load_local_outcome:
  assumes r: "ready f fs s 1 0" and ret: "op_load_local ops qr s = Some s'"
  shows "outcome f fs s {#} s' (next_at f s 1 0 1)"
proof (rule outcome_operands [OF r])
  let ?f = "f\<lparr>fr_pc := fr_pc f + 1\<rparr>" and ?s = "at_pc f (fr_pc f + 1) s"
  have r1: "ready ?f fs ?s 0 0" using ready_at [OF r, of 1] by simp
  from ret read_u8_ready [OF r] have e: "on_slot ''local index out of range'' (pp_code (fr_proto f) ! fr_pc f)
      (load_local_value ops (pp_code (fr_proto f) ! fr_pc f) qr) ?s = Some s'" by (simp add: op_load_local_def)
  show "outcome ?f fs ?s {#} s' (next_at ?f ?s 0 0 1)"
  proof (cases "n_locals (fr_proto f) \<le> unat (pp_code (fr_proto f) ! fr_pc f)")
    case True
    with e show ?thesis by (intro ready_error [OF r1]) (auto simp: on_slot_def top_frame_def)
  next
    case False
    with e have "load_local_value ops (pp_code (fr_proto f) ! fr_pc f) qr ?s = Some s'"
      by (simp add: on_slot_def top_frame_def)
    then show ?thesis by (rule load_local_outcome [OF r1])
  qed
qed

lemma set_slot_outcome:
  assumes ret: "set_slot slot c s = Some s'" and f: "vm_frames s = f # fs"
    and slot: "unat slot < n_locals (fr_proto f)" and room: "frame_floor f \<le> vm_stack_count s"
    and P: "P (fr_pc f) (vm_stack_count s)"
  shows "outcome f fs s {#cell_value c#} s' P"
proof -
  have "fr_base f + unat slot < vm_stack_count s" using slot room by simp
  note ss = set_slot_simps [OF ret f this]
  have "length (vm_stack s') = length (vm_stack s)" using ss(1) by (simp add: bal_def same_tables_def)
  then show ?thesis
    by (intro outcomeI [where f' = f]) (use ss f room P in \<open>auto simp: fits_stack_def\<close>)
qed

lemma set_slot_null_outcome:
  assumes "set_slot slot c s = Some s'" "\<not> has_header (cell_value c)" "vm_frames s = f # fs"
    "unat slot < n_locals (fr_proto f)" "frame_floor f \<le> vm_stack_count s" "P (fr_pc f) (vm_stack_count s)"
  shows "outcome f fs s {#} s' P"
  by (rule outcome_weak [OF set_slot_outcome [where P = P, OF assms(1,3-6)]]) (simp add: assms(2))

lemma store_local_outcome:
  assumes ret: "store_local_value ops slot c s = Some s'" and f: "vm_frames s = f # fs"
    and slot: "unat slot < n_locals (fr_proto f)" and room: "frame_floor f \<le> vm_stack_count s"
    and P: "P (fr_pc f) (vm_stack_count s)"
  shows "outcome f fs s {#cell_value c#} s' P"
proof -
  obtain st s1 where st: "slot_storage ops slot s = Some (st, s1)"
    using ret by (auto simp: store_local_value_def bind_eq_Some_conv)
  note q = quiet_slot_storage [OF st, of "{#cell_value c#}"]
  note qf = quiet_fields [OF q]
  have "outcome f fs s1 {#cell_value c#} s' P"
  proof (cases "st = OnStack")
    case True
    then have "set_slot slot c s1 = Some s'" using ret st by (simp add: store_local_value_def)
    then show ?thesis by (rule set_slot_outcome) (use f slot room P qf in auto)
  next
    case False
    with ret st obtain ok s2 where
      1: "(case storage_key st of
           None \<Rightarrow> Some (False, s1)
         | Some key \<Rightarrow> do {
             (ok, a, ev, h) \<leftarrow> pa_set ops (storage_array st s1) (PString key) (cell_value c) (vm_heap s1);
             Some (ok, log_rc ev (set_storage st a (s1\<lparr>vm_heap := h\<rparr>)))
           }) = Some (ok, s2)"
      and 2: "(if ok then Some (release_cell c s2)
          else frame_error ''out of memory storing persistent variable'' (release_cell c s2)) = Some s'"
      by (auto simp: store_local_value_def bind_eq_Some_conv Let_def)
    have "quiet s1 {#} s2 {#}" using 1
      by (auto split: option.splits simp: bind_eq_Some_conv intro: quiet_storage_set [OF False])
    then have q2: "quiet s1 {#cell_value c#} s2 {#cell_value c#}"
      using quiet_frame [of s1 "{#}" s2 "{#}" "{#cell_value c#}"] by simp
    have q3: "quiet s1 {#cell_value c#} s' {#}"
    proof (rule quiet_trans [OF quiet_trans [OF q2 quiet_release_cell]])
      show "quiet (release_cell c s2) {#} s' {#}" using 2
        by (auto split: if_splits intro: quiet_frame_error)
    qed
    show ?thesis by (rule outcome_quiet [OF q3]) (use f room P qf in auto)
  qed
  then show ?thesis by (rule outcome_after_quiet [OF q])
qed

lemma op_store_local_outcome:
  assumes r: "ready f fs s 1 1" and ret: "op_store_local ops s = Some s'"
  shows "outcome f fs s {#} s' (next_at f s 1 1 0)"
proof (rule outcome_at)
  let ?f = "f\<lparr>fr_pc := fr_pc f + 1\<rparr>" and ?s = "at_pc f (fr_pc f + 1) s"
  show "vm_frames s = f # fs" using r by (simp add: ready_def)
  have r1: "ready ?f fs ?s 0 1" using ready_at [OF r, of 1] by simp
  obtain c s1 where p: "pop ?s = (c, s1)" by force
  have pos: "0 < vm_stack_count ?s" "fits_stack ?s" "vm_stack_count ?s \<le> length (vm_stack ?s)"
    using r1 by (auto simp: ready_def fits_stack_def)
  note ps = pop_simps [OF pos(1,3) p]
  let ?P = "next_at f s 1 1 0" and ?slot = "pp_code (fr_proto f) ! fr_pc f"
  have f1: "vm_frames s1 = ?f # fs" using ps(2) r1 by (simp add: ready_def)
  have room: "frame_floor ?f \<le> vm_stack_count s1" using ps(3) r1 by (auto simp: ready_def)
  have P: "?P (fr_pc ?f) (vm_stack_count s1)" using ps(3) by (simp add: next_at_def)
  have "outcome ?f fs s1 {#cell_value c#} s' ?P"
  proof (cases "n_locals (fr_proto f) \<le> unat ?slot")
    case True
    have "frame_error ''local index out of range'' (release_cell c s1) = Some s'"
      using ret read_u8_ready [OF r] p True f1 by (simp add: op_store_local_def top_frame_def)
    moreover have "vm_frames (release_cell c s1) = ?f # fs" "frame_floor ?f \<le> vm_stack_count (release_cell c s1)"
      using f1 room by (simp_all add: release_cell_def)
    ultimately have "outcome ?f fs (release_cell c s1) {#} s' ?P" by (intro outcome_error) auto
    then show ?thesis by (rule outcome_after_quiet [OF quiet_release_cell])
  next
    case False
    have "store_local_value ops ?slot c s1 = Some s'"
      using ret read_u8_ready [OF r] p False f1 by (simp add: op_store_local_def top_frame_def)
    then show ?thesis by (rule store_local_outcome [OF _ f1]) (use False room P in auto)
  qed
  then show "outcome ?f fs ?s {#} s' ?P" by (rule outcome_pop [OF p pos(1,2)])
qed

lemma unset_local_outcome:
  assumes ret: "unset_local_value ops slot s = Some s'" and f: "vm_frames s = f # fs"
    and slot: "unat slot < n_locals (fr_proto f)" and room: "frame_floor f \<le> vm_stack_count s"
    and P: "P (fr_pc f) (vm_stack_count s)"
  shows "outcome f fs s {#} s' P"
proof -
  obtain st s1 where st: "slot_storage ops slot s = Some (st, s1)"
    using ret by (auto simp: unset_local_value_def bind_eq_Some_conv)
  note q = quiet_slot_storage [OF st, of "{#}"]
  note qf = quiet_fields [OF q]
  have "outcome f fs s1 {#} s' P"
  proof (cases "st = OnStack")
    case True
    then have "set_slot slot Undefined s1 = Some s'" using ret st by (simp add: unset_local_value_def)
    then show ?thesis by (rule set_slot_null_outcome) (use f slot room P qf in auto)
  next
    case False
    with ret st have "(case storage_key st of
          None \<Rightarrow> frame_error ''out of memory resolving variable storage'' s1
        | Some key \<Rightarrow> do {
            (ok, a, ev, h) \<leftarrow> pa_remove ops (storage_array st s1) (PString key) (vm_heap s1);
            Some (log_rc ev (set_storage st a (s1\<lparr>vm_heap := h\<rparr>)))
          }) = Some s'" by (simp add: unset_local_value_def)
    then have "quiet s1 {#} s' {#}"
      by (auto split: option.splits simp: bind_eq_Some_conv intro: quiet_frame_error quiet_storage_remove [OF False])
    then show ?thesis by (rule outcome_quiet) (use f room P qf in auto)
  qed
  then show ?thesis by (rule outcome_after_quiet [OF q])
qed

lemma op_unset_local_outcome:
  assumes r: "ready f fs s 1 0" and ret: "op_unset_local ops s = Some s'"
  shows "outcome f fs s {#} s' (next_at f s 1 0 0)"
proof (rule outcome_operands [OF r])
  let ?f = "f\<lparr>fr_pc := fr_pc f + 1\<rparr>" and ?s = "at_pc f (fr_pc f + 1) s"
  have r1: "ready ?f fs ?s 0 0" using ready_at [OF r, of 1] by simp
  then have P: "next_at ?f ?s 0 0 0 (fr_pc ?f) (vm_stack_count ?s)" by (simp add: next_at_def)
  from ret read_u8_ready [OF r] have e: "on_slot ''local index out of range'' (pp_code (fr_proto f) ! fr_pc f)
      (unset_local_value ops (pp_code (fr_proto f) ! fr_pc f)) ?s = Some s'" by (simp add: op_unset_local_def)
  show "outcome ?f fs ?s {#} s' (next_at ?f ?s 0 0 0)"
  proof (cases "n_locals (fr_proto f) \<le> unat (pp_code (fr_proto f) ! fr_pc f)")
    case True
    with e show ?thesis by (intro ready_error [OF r1]) (auto simp: on_slot_def top_frame_def)
  next
    case False
    with e have "unset_local_value ops (pp_code (fr_proto f) ! fr_pc f) ?s = Some s'"
      by (simp add: on_slot_def top_frame_def)
    then show ?thesis by (rule unset_local_outcome) (use r1 P False in \<open>auto simp: ready_def\<close>)
  qed
qed

lemma op_bind_global_outcome:
  assumes r: "ready f fs s 1 0" and ret: "op_bind_global s = Some s'"
  shows "outcome f fs s {#} s' (next_at f s 1 0 0)"
proof -
  let ?slot = "pp_code (fr_proto f) ! fr_pc f" and ?s = "at_pc f (fr_pc f + 1) s" and ?f = "f\<lparr>fr_pc := fr_pc f + 1\<rparr>"
  have fr: "vm_frames s = f # fs" using r by (simp add: ready_def)
  have r1: "ready ?f fs ?s 0 0" using ready_at [OF r, of 1] by simp
  show ?thesis
  proof (cases "n_locals (fr_proto f) \<le> unat ?slot")
    case True
    have e: "frame_error ''global binding slot is invalid'' ?s = Some s'"
      using ret read_u8_ready [OF r] True by (simp add: op_bind_global_def on_slot_def top_frame_def)
    show ?thesis by (rule outcome_at [OF fr ready_error [OF r1 e]]) simp
  next
    case False
    define g where "g = ?f\<lparr>fr_static_mask := slot_mask_clear (fr_static_mask f) ?slot,
      fr_global_mask := slot_mask_set (fr_global_mask f) ?slot\<rparr>"
    have same: "same_owner f g" by (simp add: g_def same_owner_def)
    have "set_slot ?slot (Cell PNull) (set_top g s) = Some s'"
      using ret read_u8_ready [OF r] False by (simp add: op_bind_global_def on_slot_def top_frame_def g_def)
    then have "outcome g fs (set_top g s) {#} s' (next_at f s 1 0 0)"
      by (rule set_slot_null_outcome) (use r same False in \<open>auto simp: ready_def same_owner_def next_at_def g_def\<close>)
    then show ?thesis
      by (intro outcome_step [OF set_top_simps(1) [OF fr same] _ _ same]) (auto simp: fits_stack_def)
  qed
qed

section \<open>Jumps\<close>

definition jump_at :: "pframe \<Rightarrow> u16 \<Rightarrow> nat \<Rightarrow> nat" where
  "jump_at f relative following = nat (int following + sint relative)"

lemma jump_outcome:
  assumes ret: "jump_relative relative s = Some s'" and f: "vm_frames s = f # fs"
    and room: "frame_floor f \<le> vm_stack_count s" and P: "P (jump_at f relative (fr_pc f)) (vm_stack_count s)"
  shows "outcome f fs s {#} s' P"
proof (cases "int (fr_pc f) + sint relative < 0 \<or> int (code_length (fr_proto f)) < int (fr_pc f) + sint relative")
  case True
  then have s': "s' = pphp_runtime_error (fr_line f) ''bytecode jump is out of range'' s"
    using ret f by (auto simp: jump_relative_def top_frame_def Let_def)
  show ?thesis unfolding s' by (rule outcome_quiet [OF _ f room]) (auto simp: error_is_set)
next
  case False
  then have s': "s' = at_pc f (jump_at f relative (fr_pc f)) s"
    using ret f by (auto simp: jump_relative_def top_frame_def Let_def jump_at_def)
  have same: "same_owner f (f\<lparr>fr_pc := jump_at f relative (fr_pc f)\<rparr>)" by (simp add: same_owner_def)
  show ?thesis unfolding s'
    by (rule outcomeI [OF set_top_simps(1) [OF f same] _ _ set_top_simps(2) [OF f same] same])
      (use room P in \<open>auto simp: fits_stack_def\<close>)
qed

text \<open>A jump taken or not: two places, two heights.\<close>

definition branch_at :: "pframe \<Rightarrow> u16 \<Rightarrow> nat \<Rightarrow> nat \<Rightarrow> nat \<Rightarrow> nat \<Rightarrow> nat \<Rightarrow> bool" where
  "branch_at f relative following taken passed pc n \<longleftrightarrow>
     pc = jump_at f relative following \<and> n = taken \<or> pc = following \<and> n = passed"

lemma op_jump_outcome:
  assumes r: "ready f fs s 2 0" and ret: "op_jump s = Some s'"
  shows "outcome f fs s {#} s' (\<lambda>pc n. pc = jump_at f (code_u16 (fr_proto f) (fr_pc f)) (fr_pc f + 2) \<and> n = vm_stack_count s)"
proof (rule outcome_at)
  show "vm_frames s = f # fs" using r by (simp add: ready_def)
  show "outcome (f\<lparr>fr_pc := fr_pc f + 2\<rparr>) fs (at_pc f (fr_pc f + 2) s) {#} s'
      (\<lambda>pc n. pc = jump_at f (code_u16 (fr_proto f) (fr_pc f)) (fr_pc f + 2) \<and> n = vm_stack_count s)"
    by (rule jump_outcome [where relative = "code_u16 (fr_proto f) (fr_pc f)"])
      (use ret r read_u16_ready [OF r] in \<open>auto simp: op_jump_def ready_def jump_at_def\<close>)
qed

lemma op_jump_if_outcome:
  assumes r: "ready f fs s 2 1" and ret: "op_jump_if b s = Some s'"
  shows "outcome f fs s {#} s' (branch_at f (code_u16 (fr_proto f) (fr_pc f)) (fr_pc f + 2)
    (vm_stack_count s - 1) (vm_stack_count s - 1))" (is "outcome f fs s {#} s' ?P")
proof (rule outcome_at)
  let ?f = "f\<lparr>fr_pc := fr_pc f + 2\<rparr>" and ?s = "at_pc f (fr_pc f + 2) s" and ?rel = "code_u16 (fr_proto f) (fr_pc f)"
  show "vm_frames s = f # fs" using r by (simp add: ready_def)
  have r1: "ready ?f fs ?s 0 1" using ready_at [OF r, of 2] by simp
  obtain c s1 where p: "pop ?s = (c, s1)" by force
  have pos: "0 < vm_stack_count ?s" "fits_stack ?s" "vm_stack_count ?s \<le> length (vm_stack ?s)"
    using r1 by (auto simp: ready_def fits_stack_def)
  note ps = pop_simps [OF pos(1,3) p]
  let ?s2 = "release_cell c s1"
  have f1: "vm_frames ?s2 = ?f # fs" "vm_stack_count ?s2 = vm_stack_count s - 1"
    using ps(2,3) r1 by (simp_all add: ready_def release_cell_def)
  have room: "frame_floor ?f \<le> vm_stack_count ?s2" using f1 r by (auto simp: ready_def)
  from ret read_u16_ready [OF r] p obtain t where
    t: "(if t = b then jump_relative ?rel ?s2 else Some ?s2) = Some s'"
    by (auto simp: op_jump_if_def bind_eq_Some_conv Let_def)
  have "outcome ?f fs ?s2 {#} s' ?P"
  proof (cases "t = b")
    case True
    then show ?thesis using t
      by (intro jump_outcome [where relative = ?rel, OF _ f1(1) room]) (auto simp: branch_at_def f1 jump_at_def)
  next
    case False
    then show ?thesis using t
      by (intro outcome_quiet [OF _ f1(1) room]) (auto simp: branch_at_def f1)
  qed
  then have "outcome ?f fs s1 {#cell_value c#} s' ?P" by (rule outcome_after_quiet [OF quiet_release_cell])
  then show "outcome ?f fs ?s {#} s' ?P" by (rule outcome_pop [OF p pos(1,2)])
qed

lemma op_jump_keep_outcome:
  assumes r: "ready f fs s 2 1" and ret: "op_jump_keep condition s = Some s'"
  shows "outcome f fs s {#} s' (branch_at f (code_u16 (fr_proto f) (fr_pc f)) (fr_pc f + 2)
    (vm_stack_count s) (vm_stack_count s - 1))" (is "outcome f fs s {#} s' ?P")
proof (rule outcome_at)
  let ?f = "f\<lparr>fr_pc := fr_pc f + 2\<rparr>" and ?s = "at_pc f (fr_pc f + 2) s" and ?rel = "code_u16 (fr_proto f) (fr_pc f)"
  show "vm_frames s = f # fs" using r by (simp add: ready_def)
  have r1: "ready ?f fs ?s 0 1" using ready_at [OF r, of 2] by simp
  then have nz: "vm_stack_count ?s \<noteq> 0" by (simp add: ready_def)
  with ret read_u16_ready [OF r] obtain t where
    t: "(if t then jump_relative ?rel ?s else Some (op_pop ?s)) = Some s'"
    by (auto simp: op_jump_keep_def bind_eq_Some_conv)
  show "outcome ?f fs ?s {#} s' ?P"
  proof (cases t)
    case True
    then show ?thesis using t r1
      by (intro jump_outcome [where relative = ?rel]) (auto simp: branch_at_def ready_def jump_at_def)
  next
    case False
    then have "s' = op_pop ?s" using t by simp
    moreover have "outcome ?f fs ?s {#} (op_pop ?s) (next_at ?f ?s 0 1 0)" by (rule op_pop_outcome [OF r1])
    ultimately show ?thesis by (auto simp: outcome_def next_at_def branch_at_def)
  qed
qed

lemma op_jump_ifnull_outcome:
  assumes r: "ready f fs s 2 1" and ret: "op_jump_ifnull_keep s = Some s'"
  shows "outcome f fs s {#} s' (branch_at f (code_u16 (fr_proto f) (fr_pc f)) (fr_pc f + 2)
    (vm_stack_count s) (vm_stack_count s))" (is "outcome f fs s {#} s' ?P")
proof (rule outcome_at)
  let ?f = "f\<lparr>fr_pc := fr_pc f + 2\<rparr>" and ?s = "at_pc f (fr_pc f + 2) s" and ?rel = "code_u16 (fr_proto f) (fr_pc f)"
  show "vm_frames s = f # fs" using r by (simp add: ready_def)
  have r1: "ready ?f fs ?s 0 1" using ready_at [OF r, of 2] by simp
  then have nz: "vm_stack_count ?s \<noteq> 0" by (simp add: ready_def)
  with ret read_u16_ready [OF r] have "jump_relative ?rel ?s = Some s' \<or> s' = ?s"
    by (auto simp: op_jump_ifnull_keep_def split: if_splits)
  then show "outcome ?f fs ?s {#} s' ?P"
  proof
    assume "jump_relative ?rel ?s = Some s'"
    then show ?thesis using r1
      by (intro jump_outcome [where relative = ?rel]) (auto simp: branch_at_def ready_def jump_at_def)
  next
    assume "s' = ?s"
    then show ?thesis using r1
      by (intro outcome_quiet) (auto simp: branch_at_def ready_def)
  qed
qed

section \<open>The rest\<close>

lemma op_not_outcome:
  assumes r: "ready f fs s 0 1" and ret: "op_not s = Some s'"
  shows "outcome f fs s {#} s' (next_at f s 0 1 1)"
proof -
  obtain c s1 where p: "pop s = (c, s1)" by force
  have pos: "0 < vm_stack_count s" "fits_stack s" "vm_stack_count s \<le> length (vm_stack s)"
    using r by (auto simp: ready_def fits_stack_def)
  note ps = pop_simps [OF pos(1,3) p]
  let ?s2 = "release_cell c s1"
  note qf = quiet_fields [OF quiet_release_cell [of s1 c]]
  from ret p obtain t where "s' = push_value (pv_bool (\<not> t)) ?s2"
    by (auto simp: op_not_def bind_eq_Some_conv)
  moreover have "outcome f fs ?s2 {#} (push_value (pv_bool (\<not> t)) ?s2) (next_at f s 0 1 1)"
    by (rule outcome_push_plain) (use r ps qf in \<open>auto simp: ready_def next_at_def fits_stack_def pv_bool_def\<close>)
  ultimately have "outcome f fs s1 {#cell_value c#} s' (next_at f s 0 1 1)"
    using outcome_after_quiet [OF quiet_release_cell] by metis
  then show ?thesis by (rule outcome_pop [OF p pos(1,2)])
qed

lemma op_line_outcome:
  assumes r: "ready f fs s 2 0" and ret: "op_line s = Some s'"
  shows "outcome f fs s {#} s' (next_at f s 2 0 0)"
proof -
  have fr: "vm_frames s = f # fs" using r by (simp add: ready_def)
  define g where "g = f\<lparr>fr_pc := fr_pc f + 2, fr_line := ucast (code_u16 (fr_proto f) (fr_pc f))\<rparr>"
  have same: "same_owner f g" by (simp add: g_def same_owner_def)
  have s': "s' = set_top g s" using ret read_u16_ready [OF r] by (simp add: op_line_def top_frame_def g_def)
  show ?thesis unfolding s'
    by (rule outcomeI [OF set_top_simps(1) [OF fr same] _ _ set_top_simps(2) [OF fr same] same])
      (use r in \<open>auto simp: ready_def fits_stack_def next_at_def g_def\<close>)
qed

lemma op_new_array_outcome:
  assumes r: "ready f fs s 2 0" and ret: "op_new_array ops s = Some s'"
  shows "outcome f fs s {#} s' (next_at f s 2 0 1)"
proof (rule outcome_operands [OF r])
  let ?f = "f\<lparr>fr_pc := fr_pc f + 2\<rparr>" and ?s = "at_pc f (fr_pc f + 2) s"
  have r1: "ready ?f fs ?s 0 0" using ready_at [OF r, of 2] by simp
  from ret read_u16_ready [OF r] obtain a s1 where
    n: "new_array ops (unat (code_u16 (fr_proto f) (fr_pc f))) ?s = Some (a, s1)"
    and rest: "(case a of None \<Rightarrow> frame_error ''out of memory creating array'' s1
      | Some a \<Rightarrow> Some (push_value (PArray a) s1)) = Some s'"
    by (auto simp: op_new_array_def bind_eq_Some_conv)
  note q = quiet_new_array(1) [OF n]
  have r2: "ready ?f fs s1 0 0 \<or> vm_error s1 \<noteq> []" using r1 quiet_fields [OF q] by (auto simp: ready_def)
  have fr: "vm_frames s1 = ?f # fs" "frame_floor ?f \<le> vm_stack_count s1" "fits_stack s1"
    "vm_stack_count s1 = vm_stack_count ?s"
    using r1 quiet_fields [OF q] by (auto simp: ready_def)
  show "outcome ?f fs ?s {#} s' (next_at ?f ?s 0 0 1)"
  proof (cases a)
    case None
    then have e: "frame_error ''out of memory creating array'' s1 = Some s'" using rest by simp
    have "outcome ?f fs s1 {#} s' (next_at ?f ?s 0 0 1)" by (rule outcome_error [OF e _ fr(1,2)]) simp
    then show ?thesis using None outcome_after_quiet [OF q] by simp
  next
    case (Some b)
    have "outcome ?f fs s1 {#PArray b#} (push_value (PArray b) s1) (next_at ?f ?s 0 0 1)"
      by (rule outcome_push_value) (use fr in \<open>auto simp: next_at_def\<close>)
    then show ?thesis using Some rest outcome_after_quiet [OF q] by simp
  qed
qed

lemma op_static_init_outcome:
  assumes r: "ready f fs s 3 0" and ret: "op_static_init ops s = Some s'"
  shows "outcome f fs s {#} s' (branch_at f (code_u16 (fr_proto f) (Suc (fr_pc f))) (fr_pc f + 3)
    (vm_stack_count s) (vm_stack_count s))" (is "outcome f fs s {#} s' ?P")
proof -
  let ?slot = "pp_code (fr_proto f) ! fr_pc f" and ?rel = "code_u16 (fr_proto f) (Suc (fr_pc f))"
  let ?f = "f\<lparr>fr_pc := fr_pc f + 3\<rparr>" and ?s = "at_pc f (fr_pc f + 3) s"
  have fr: "vm_frames s = f # fs" using r by (simp add: ready_def)
  have r1: "ready (f\<lparr>fr_pc := fr_pc f + 1\<rparr>) fs (at_pc f (fr_pc f + 1) s) 2 0"
    using ready_at [OF r, of 1] by simp
  have r3: "ready ?f fs ?s 0 0" using ready_at [OF r, of 3] by simp
  have r16: "read_u16 (at_pc f (Suc (fr_pc f)) s) = Some (?rel, ?s)"
  proof -
    have "fr_pc f + 1 + 2 = fr_pc f + 3" by simp
    then show ?thesis using read_u16_ready [OF r1] by (simp add: add.commute)
  qed
  have e: "on_slot ''static binding slot is invalid'' ?slot (\<lambda>s. do {
       f \<leftarrow> top_frame s;
       s \<leftarrow> set_slot ?slot (Cell PNull)
         (set_top (f\<lparr>fr_global_mask := slot_mask_clear (fr_global_mask f) ?slot,
                     fr_static_mask := slot_mask_set (fr_static_mask f) ?slot\<rparr>) s);
       (key, s) \<leftarrow> static_slot_key ops ?slot s;
       (case key of
          None \<Rightarrow> frame_error ''out of memory binding static variable'' s
        | Some key \<Rightarrow> do {
            (existing, ev, h) \<leftarrow> pa_get ops (vm_statics s) (PString key) (vm_heap s);
            let s = log_rc ev (s\<lparr>vm_heap := h\<rparr>);
            (case existing of
               None \<Rightarrow> Some s
             | Some v \<Rightarrow> jump_relative ?rel (log_rc [Release v] s))
          })
     }) ?s = Some s'"
    using ret read_u8_ready [OF r] r16 by (simp add: op_static_init_def)
  show ?thesis
  proof (cases "n_locals (fr_proto f) \<le> unat ?slot")
    case True
    with e have "frame_error ''static binding slot is invalid'' ?s = Some s'" by (simp add: on_slot_def top_frame_def)
    from outcome_at [OF fr ready_error [OF r3 this]] show ?thesis by simp
  next
    case False
    define g where "g = ?f\<lparr>fr_global_mask := slot_mask_clear (fr_global_mask f) ?slot,
      fr_static_mask := slot_mask_set (fr_static_mask f) ?slot\<rparr>"
    have same: "same_owner f g" and pc: "fr_pc g = fr_pc f + 3" by (simp_all add: g_def same_owner_def)
    from e False obtain s1 key s2 where 1: "set_slot ?slot (Cell PNull) (set_top g s) = Some s1"
      and 2: "static_slot_key ops ?slot s1 = Some (key, s2)"
      and 3: "(case key of
          None \<Rightarrow> frame_error ''out of memory binding static variable'' s2
        | Some key \<Rightarrow> do {
            (existing, ev, h) \<leftarrow> pa_get ops (vm_statics s2) (PString key) (vm_heap s2);
            let s = log_rc ev (s2\<lparr>vm_heap := h\<rparr>);
            (case existing of
               None \<Rightarrow> Some s
             | Some v \<Rightarrow> jump_relative ?rel (log_rc [Release v] s))
          }) = Some s'"
      by (auto simp: on_slot_def top_frame_def bind_eq_Some_conv g_def)
    have room: "frame_floor g \<le> vm_stack_count s" using r same by (simp add: ready_def same_owner_def)
    have "vm_frames (set_top g s) = g # fs" by (rule set_top_simps(2) [OF fr same])
    note ss = set_slot_simps [OF 1 this]
    have slot: "fr_base g + unat ?slot < vm_stack_count (set_top g s)"
      using room False same by (simp add: same_owner_def)
    note ss = ss [OF slot]
    have fits: "fits_stack s1" using r ss(1) ss(3) by (simp add: ready_def bal_def same_tables_def fits_stack_def)
    have b1: "bal (set_top g s) {#} s1 {#}" using ss(1) by (simp add: bal_def balance_def)
    note q2 = quiet_static_slot_key [OF 2, of "{#}"]
    note q2f = quiet_fields [OF q2]
    have f2: "vm_frames s2 = g # fs" "vm_stack_count s2 = vm_stack_count s" "frame_floor g \<le> vm_stack_count s2"
      using q2f ss room set_top_simps(2) [OF fr same] by simp_all
    have "outcome g fs s2 {#} s' ?P"
    proof (cases key)
      case None
      with 3 have "frame_error ''out of memory binding static variable'' s2 = Some s'" by simp
      then show ?thesis by (rule outcome_error [OF _ _ f2(1,3)]) simp
    next
      case (Some k)
      with 3 obtain existing ev h where
        4: "pa_get ops (vm_statics s2) (PString k) (vm_heap s2) = Some (existing, ev, h)"
        and 5: "(case existing of None \<Rightarrow> Some (log_rc ev (s2\<lparr>vm_heap := h\<rparr>))
          | Some v \<Rightarrow> jump_relative ?rel (log_rc [Release v] (log_rc ev (s2\<lparr>vm_heap := h\<rparr>)))) = Some s'"
        by (auto simp: bind_eq_Some_conv Let_def)
      note q4 = quiet_get [OF 4, of s2]
      note q4f = quiet_fields [OF q4]
      show ?thesis
      proof (cases existing)
        case None
        then show ?thesis using 5 q4 f2
          by (intro outcome_quiet) (auto simp: branch_at_def pc)
      next
        case (Some v)
        let ?t = "log_rc [Release v] (log_rc ev (s2\<lparr>vm_heap := h\<rparr>))"
        have q5: "quiet s2 {#} ?t {#}" using quiet_trans [OF q4 [unfolded Some, simplified] quiet_release] .
        note q5f = quiet_fields [OF q5]
        have "outcome g fs ?t {#} s' ?P"
          by (rule jump_outcome [where relative = ?rel]) (use 5 Some q5f f2 pc in \<open>auto simp: branch_at_def jump_at_def\<close>)
        then show ?thesis by (rule outcome_after_quiet [OF q5])
      qed
    qed
    from outcome_step [OF b1 _ _ same_owner_refl outcome_after_quiet [OF q2 this]]
    have "outcome g fs (set_top g s) {#} s' ?P"
      using fits ss by (simp add: fits_stack_def)
    then show ?thesis
      by (intro outcome_step [OF set_top_simps(1) [OF fr same] _ _ same]) (auto simp: fits_stack_def)
  qed
qed

lemma op_arr_store_outcome:
  assumes r: "ready f fs s 0 (if appending then 2 else 3)" and ret: "op_arr_store ops appending s = Some s'"
  shows "outcome f fs s {#} s' (next_at f s 0 (if appending then 2 else 3) 1)" (is "outcome f fs s {#} s' ?P")
proof -
  obtain v s1 where p1: "pop s = (v, s1)" by force
  obtain key s2 where p2: "(if appending then (Cell PNull, s1) else pop s1) = (key, s2)" by force
  obtain c s3 where p3: "pop s2 = (c, s3)" by force
  define n where "n = (if appending then 0 else 1 :: nat)"
  have need: "frame_floor f + (2 + n) \<le> vm_stack_count s" and fits: "fits_stack s"
    and fr: "vm_frames s = f # fs" using r by (auto simp: ready_def n_def)
  have P: "?P = next_at f s 0 (2 + n) 1" by (simp add: n_def)
  have pos: "0 < vm_stack_count s" "vm_stack_count s \<le> length (vm_stack s)"
    using need fits by (auto simp: fits_stack_def)
  note ps1 = pop_simps [OF pos p1]
  have n1: "frame_floor f + (1 + n) \<le> vm_stack_count s1" "fits_stack s1" using ps1 need fits by (auto simp: fits_stack_def)
  have ps2: "vm_frames s2 = f # fs" "vm_stack_count s2 = vm_stack_count s1 - n" "vm_stack s2 = vm_stack s1"
  proof -
    have "vm_frames s2 = f # fs \<and> vm_stack_count s2 = vm_stack_count s1 - n \<and> vm_stack s2 = vm_stack s1"
    proof (cases appending)
      case True
      then show ?thesis using p2 ps1 fr by (simp add: n_def)
    next
      case False
      then have "0 < vm_stack_count s1" "vm_stack_count s1 \<le> length (vm_stack s1)"
        using n1 by (auto simp: fits_stack_def n_def)
      from pop_simps [OF this] show ?thesis using p2 False ps1 fr by (simp add: n_def)
    qed
    then show "vm_frames s2 = f # fs" "vm_stack_count s2 = vm_stack_count s1 - n" "vm_stack s2 = vm_stack s1" by auto
  qed
  have n2: "frame_floor f + 1 \<le> vm_stack_count s2" "fits_stack s2" using ps2 n1 by (auto simp: fits_stack_def)
  have pos2: "0 < vm_stack_count s2" "vm_stack_count s2 \<le> length (vm_stack s2)" using n2 by (auto simp: fits_stack_def)
  note ps3 = pop_simps [OF pos2 p3]
  have f3: "vm_frames s3 = f # fs" "frame_floor f \<le> vm_stack_count s3" "fits_stack s3"
    "vm_stack_count s3 + 1 = vm_stack_count s - (2 + n) + 1"
    using ps3 ps2 ps1 n2 n1 by (auto simp: fits_stack_def)
  have last_step: "outcome f fs s3 {#cell_value c, cell_value key, cell_value v#} s' ?P"
  proof (cases "\<exists>a. cell_value c = PArray a")
    case True
    then obtain a where a: "cell_value c = PArray a" by blast
    with ret p1 p2 p3 obtain ok s4 where
      4: "(if appending then array_push ops a (cell_value v) s3
           else array_set ops a (cell_value key) (cell_value v) s3) = Some (ok, s4)"
      and 5: "(if \<not> ok then frame_error ''array construction failed'' (release_cell c (release_cell v (release_cell key s4)))
           else Some (snd (push c (release_cell v (release_cell key s4))))) = Some s'"
      by (auto simp: op_arr_store_def Let_def bind_eq_Some_conv split: if_splits)
    have "quiet s3 {#} s4 {#}" using 4 by (auto split: if_splits intro: quiet_array_push quiet_array_set)
    from quiet_frame [OF this, of "{#cell_value c, cell_value key, cell_value v#}"]
    have q4: "quiet s3 {#cell_value c, cell_value key, cell_value v#} s4 {#cell_value c, cell_value key, cell_value v#}" by simp
    have q5: "quiet s4 {#cell_value c, cell_value key, cell_value v#} (release_cell key s4) {#cell_value c, cell_value v#}"
      using quiet_frame [OF quiet_release_cell, of s4 key "{#cell_value c, cell_value v#}"] by (simp add: add_mset_commute)
    have q6: "quiet (release_cell key s4) {#cell_value c, cell_value v#} (release_cell v (release_cell key s4)) {#cell_value c#}"
      using quiet_frame [OF quiet_release_cell, of "release_cell key s4" v "{#cell_value c#}"] by (simp add: add_mset_commute)
    let ?t = "release_cell v (release_cell key s4)"
    note q = quiet_trans [OF quiet_trans [OF q4 q5] q6]
    note qf = quiet_fields [OF q]
    show ?thesis
    proof (cases ok)
      case True
      have "outcome f fs ?t {#cell_value c#} (snd (push c ?t)) ?P"
        by (rule outcome_push) (use f3 qf in \<open>auto simp: P next_at_def n_def\<close>)
      then show ?thesis using 5 True outcome_after_quiet [OF q] by simp
    next
      case False
      have "outcome f fs (release_cell c ?t) {#} s' ?P"
        by (rule outcome_error) (use 5 False f3 qf in \<open>auto simp: release_cell_def\<close>)
      then show ?thesis using outcome_after_quiet [OF quiet_trans [OF q quiet_release_cell]] by blast
    qed
  next
    case False
    then have e: "frame_error ''array construction stack is invalid''
        (release_cell v (release_cell key (release_cell c s3))) = Some s'"
      using ret p1 p2 p3 by (cases "cell_value c") (auto simp: op_arr_store_def)
    let ?t = "release_cell v (release_cell key (release_cell c s3))"
    have q1: "quiet s3 {#cell_value c, cell_value key, cell_value v#} (release_cell c s3) {#cell_value key, cell_value v#}"
      using quiet_frame [OF quiet_release_cell, of s3 c "{#cell_value key, cell_value v#}"] by (simp add: add_mset_commute)
    have q2: "quiet (release_cell c s3) {#cell_value key, cell_value v#} (release_cell key (release_cell c s3)) {#cell_value v#}"
      using quiet_frame [OF quiet_release_cell, of "release_cell c s3" key "{#cell_value v#}"] by (simp add: add_mset_commute)
    note q = quiet_trans [OF quiet_trans [OF q1 q2] quiet_release_cell]
    have "outcome f fs ?t {#} s' ?P"
      by (rule outcome_error [OF e]) (use f3 in \<open>auto simp: release_cell_def\<close>)
    then show ?thesis by (rule outcome_after_quiet [OF q])
  qed
  have o2: "outcome f fs s2 {#cell_value key, cell_value v#} s' ?P"
    by (rule outcome_step [OF _ _ ps3(6) same_owner_refl last_step])
      (use bal_frame [OF ps3(1), of "{#cell_value key, cell_value v#}"] f3 in \<open>simp_all add: add_mset_commute\<close>)
  have o1: "outcome f fs s1 {#cell_value v#} s' ?P"
  proof (cases appending)
    case True
    then show ?thesis using p2 outcome_weak [OF o2, of "{#cell_value v#}"] by auto
  next
    case False
    then have p2': "pop s1 = (key, s2)" and pos1: "0 < vm_stack_count s1" "vm_stack_count s1 \<le> length (vm_stack s1)"
      using p2 n1 by (auto simp: fits_stack_def n_def)
    note ps2' = pop_simps [OF pos1 p2']
    show ?thesis
      by (rule outcome_step [OF _ _ ps2'(6) same_owner_refl o2])
        (use bal_frame [OF ps2'(1), of "{#cell_value v#}"] n2 in \<open>simp_all add: add_mset_commute\<close>)
  qed
  show ?thesis by (rule outcome_pop [OF p1 pos(1) fits o1])
qed

end
