(* ===== verification/VmSafeIter.thy ===== *)
theory VmSafeIter
  imports VmSafeOps
begin

text \<open>
  The instructions that take arrays and objects apart: unpacking, iteration, tests of the
  class, and closures.
\<close>

unbundle bit_operations_syntax

declare add_2_eq_Suc [simp del] add_2_eq_Suc' [simp del]

section \<open>More than one operand or result\<close>

lemma outcome_pop_more:
  assumes "pop s = (c, s1)" "0 < vm_stack_count s" "fits_stack s"
    "outcome f fs s1 (add_mset (cell_value c) A) s' P"
  shows "outcome f fs s A s' P"
proof -
  have "vm_stack_count s \<le> length (vm_stack s)" using assms(3) by (simp add: fits_stack_def)
  note p = pop_simps [OF assms(2) this assms(1)]
  show ?thesis by (rule outcome_step [OF bal.earn_one [OF p(1)] _ p(6) same_owner_refl assms(4)])
      (use assms(3) p in \<open>simp add: fits_stack_def; linarith\<close>)
qed

lemma pop_two:
  assumes r: "ready f fs s 0 2" and p: "pop s = (c, s1)" "pop s1 = (d, s2)"
    and out: "outcome f fs s2 {#cell_value d, cell_value c#} s' P"
  shows "outcome f fs s {#} s' P"
proof -
  have pos: "0 < vm_stack_count s" "fits_stack s" "vm_stack_count s \<le> length (vm_stack s)"
    using r by (auto simp: ready_def fits_stack_def)
  note ps = pop_simps [OF pos(1,3) p(1)]
  have "0 < vm_stack_count s1" "fits_stack s1" using r ps by (auto simp: ready_def fits_stack_def)
  from outcome_pop_more [OF p(2) this out] have "outcome f fs s1 {#cell_value c#} s' P" .
  then show ?thesis by (rule outcome_pop [OF p(1) pos(1,2)])
qed

lemma popped_one:
  assumes r: "ready f fs s 0 n" "0 < n" and p: "pop s = (c, s1)"
  shows "ready f fs s1 0 (n - 1)" "vm_stack_count s1 = vm_stack_count s - 1" "0 < vm_stack_count s" "fits_stack s"
    "c = vm_stack s ! (vm_stack_count s - 1)" "vm_stack s1 = vm_stack s"
proof -
  have pos: "0 < vm_stack_count s" "fits_stack s" "vm_stack_count s \<le> length (vm_stack s)"
    using r by (auto simp: ready_def fits_stack_def)
  note ps = pop_simps [OF pos(1,3) p]
  show "ready f fs s1 0 (n - 1)" using r ps pos by (auto simp: ready_def fits_stack_def)
  show "vm_stack_count s1 = vm_stack_count s - 1" "vm_stack s1 = vm_stack s" by (rule ps)+
  show "0 < vm_stack_count s" "fits_stack s" by (rule pos)+
  show "c = vm_stack s ! (vm_stack_count s - 1)" using p pos(1) by (auto simp: pop_def)
qed

text \<open>After a quiet operation, with the operands that the C locals own.\<close>

lemma outcome_quiet_error:
  assumes "quiet s A s1 {#}" "frame_error m s1 = Some s'" "m \<noteq> []" "vm_frames s = f # fs" "frame_floor f \<le> vm_stack_count s"
  shows "outcome f fs s A s' P"
  by (rule outcome_after_quiet [OF assms(1)], rule outcome_error [OF assms(2,3)])
    (use quiet_fields [OF assms(1)] assms(4,5) in auto)

lemma outcome_quiet_push:
  assumes "quiet s A s1 {#v#}" "vm_frames s = f # fs" "frame_floor f \<le> vm_stack_count s" "fits_stack s"
    "P (fr_pc f) (Suc (vm_stack_count s))"
  shows "outcome f fs s A (push_value v s1) P"
  by (rule outcome_after_quiet [OF assms(1)], rule outcome_push_value)
    (use quiet_fields [OF assms(1)] assms(2-5) in auto)

lemma outcome_quiet_push_plain:
  assumes "quiet s A s1 {#}" "\<not> has_header v" "vm_frames s = f # fs" "frame_floor f \<le> vm_stack_count s" "fits_stack s"
    "P (fr_pc f) (Suc (vm_stack_count s))"
  shows "outcome f fs s A (push_value v s1) P"
  by (rule outcome_after_quiet [OF assms(1)], rule outcome_push_plain)
    (use quiet_fields [OF assms(1)] assms(2-6) in auto)

lemma push_keeps_error: "vm_error s \<noteq> [] \<Longrightarrow> vm_error (snd (push c s)) \<noteq> []"
  by (simp add: push_def pphp_runtime_error_def release_cell_def)

lemma outcome_push_pending:
  assumes "vm_frames s = f # fs" "frame_floor f \<le> vm_stack_count s" "fits_stack s" "vm_error s \<noteq> []"
  shows "outcome f fs s {#cell_value c#} (snd (push c s)) P"
proof -
  have l: "length (vm_stack s) = PPHP_STACK_SLOTS" using assms(3) by (simp add: fits_stack_def)
  have "length (vm_stack (snd (push c s))) = PPHP_STACK_SLOTS"
    using push_any(1) [OF l] l by (simp add: bal_def same_tables_def)
  then show ?thesis using assms push_any [OF l, of c] push_keeps_error [OF assms(4)]
    by (intro outcomeI [of s _ _ f]) (auto simp: fits_stack_def)
qed

lemma outcome_push_two:
  assumes f: "vm_frames s = f # fs" "frame_floor f \<le> vm_stack_count s" "fits_stack s"
    and P: "P (fr_pc f) (vm_stack_count s + 2)"
  shows "outcome f fs s {#k, v#} (push_value v (push_value k s)) P"
proof -
  let ?s = "push_value k s"
  have l: "length (vm_stack s) = PPHP_STACK_SLOTS" using f(3) by (simp add: fits_stack_def)
  note pu = push_any [OF l, of "Cell k", folded push_value_def]
  have b: "bal s {#k, v#} ?s {#v#}" using bal.spend_one [of s k ?s "{#v#}"] pu(1) by simp
  have "length (vm_stack ?s) = PPHP_STACK_SLOTS" using b l by (simp add: bal_def same_tables_def)
  then have st: "vm_frames ?s = f # fs" "frame_floor f \<le> vm_stack_count ?s" "fits_stack ?s"
    using pu f by (auto simp: fits_stack_def)
  have "outcome f fs ?s {#v#} (push_value v ?s) P"
  proof (cases "vm_error ?s = []")
    case True
    then show ?thesis using st pu(5) P by (intro outcome_push_value) (auto simp: add_2_eq_Suc')
  next
    case False
    then show ?thesis using outcome_push_pending [OF st, of "Cell v"] by (simp add: push_value_def)
  qed
  from outcome_step [OF b _ pu(6) same_owner_refl this] st(3) show ?thesis by blast
qed

section \<open>Iteration\<close>

lemma quiet_collect_properties:
  "collect_properties ops arr slots ps s = Some (r, s') \<Longrightarrow> quiet s {#PArray arr#} s' (oref PArray r)"
proof (induction ps arbitrary: s)
  case Nil
  then show ?case by auto
next
  case (Cons p ps)
  show ?case
  proof (cases "pr_flags p AND (PC_STATIC OR PC_PRIVATE OR PC_PROTECTED) \<noteq> 0")
    case True
    then show ?thesis using Cons by simp
  next
    case False
    with Cons.prems obtain v ok s1 where 1: "array_set ops arr (PString (pr_name p)) v s = Some (ok, s1)"
      and r: "(if ok then collect_properties ops arr slots ps s1 else Some (None, log_rc [Release (PArray arr)] s1)) = Some (r, s')"
      by (auto simp: bind_eq_Some_conv)
    note q = quiet.keep [OF quiet_array_set [OF 1]]
    have "quiet s1 {#PArray arr#} s' (oref PArray r)"
    proof (cases ok)
      case True
      then show ?thesis using r Cons.IH [of s1] by simp
    next
      case False
      then show ?thesis using r by auto
    qed
    with q show ?thesis by (rule quiet_trans)
  qed
qed

lemma quiet_property_array:
  assumes "property_array ops a s = Some (r, s')"
  shows "quiet s {#} s' (oref PArray r)"
proof -
  from assms obtain ob k where "vm_objects s a = Some ob" "vm_classes s (ob_class ob) = Some k"
    by (auto simp: property_array_def bind_eq_Some_conv)
  with assms obtain x s1 where
    n: "new_array ops (length (cl_properties k)) s = Some (x, s1)" and
    c: "(case x of None \<Rightarrow> Some (None, s1)
      | Some arr \<Rightarrow> collect_properties ops arr (ob_slots ob) (cl_properties k) s1) = Some (r, s')"
    by (auto simp: property_array_def bind_eq_Some_conv)
  have "quiet s1 (oref PArray x) s' (oref PArray r)"
    using c by (cases x) (auto dest: quiet_collect_properties)
  then show ?thesis by (rule quiet_trans [OF quiet_new_array(1) [OF n]])
qed

lemma start_iteration_outcome:
  assumes ret: "start_iteration ops c of_object array s = Some s'"
    and f: "vm_frames s = f # fs" "frame_floor f \<le> vm_stack_count s" "fits_stack s"
      "P (fr_pc f) (Suc (vm_stack_count s))"
  shows "outcome f fs s ((if of_object then oref PArray array else {#}) + {#cell_value c#}) s' P"
proof -
  let ?own = "if of_object then oref PArray array else {#}"
  from ret obtain it s1 where n: "pa_iterator_new ops array s = Some (it, s1)" by (auto simp: start_iteration_def bind_eq_Some_conv)
  define s2 where "s2 = (if of_object then release_option PArray array s1 else s1)"
  define s3 where "s3 = release_cell c s2"
  have r: "(case it of None \<Rightarrow> frame_error ''out of memory creating iterator'' s3
      | Some r \<Rightarrow> Some (push_value (PResource r) s3)) = Some s'"
    using ret n unfolding start_iteration_def s3_def s2_def Let_def by simp
  have q1: "quiet s (?own + {#cell_value c#}) s1 (oref PResource it + (?own + {#cell_value c#}))"
    by (rule quiet.earn [OF quiet_pa_iterator_new [OF n]])
  have "quiet s1 ?own s2 {#}" unfolding s2_def by (auto intro: quiet_release_option)
  from quiet.spend [OF this, of "{#cell_value c#}"]
  have "quiet s1 (?own + {#cell_value c#}) s3 {#}" unfolding s3_def by (rule quiet_trans) simp
  from quiet.spend [OF this, of "oref PResource it"]
  have q: "quiet s (?own + {#cell_value c#}) s3 (oref PResource it)"
    by (intro quiet_trans [OF q1]) (simp add: add.commute)
  show ?thesis
  proof (cases it)
    case None
    then show ?thesis using r q by (intro outcome_quiet_error [where ?s1.0 = s3] f) auto
  next
    case (Some a)
    then have s': "s' = push_value (PResource a) s3" using r by simp
    show ?thesis unfolding s' by (rule outcome_quiet_push) (use q Some f in simp_all)
  qed
qed

lemma op_fe_init_outcome:
  assumes r: "ready f fs s 0 1" and ret: "op_fe_init ops s = Some s'"
  shows "outcome f fs s {#} s' (next_at f s 0 1 1)" (is "outcome f fs s {#} s' ?P")
proof -
  obtain c s1 where p: "pop s = (c, s1)" by force
  note po = popped_one [OF r _ p, simplified]
  have f: "vm_frames s1 = f # fs" "frame_floor f \<le> vm_stack_count s1" "fits_stack s1"
    "?P (fr_pc f) (Suc (vm_stack_count s1))"
    using po r by (auto simp: ready_def next_at_def)
  have error: "outcome f fs s1 {#cell_value c#} s' ?P"
    if "frame_error ''foreach argument must be array or object'' (release_cell c s1) = Some s'"
    by (rule outcome_quiet_error [OF quiet_release_cell that _ f(1,2)]) simp
  have "outcome f fs s1 {#cell_value c#} s' ?P"
  proof (cases "cell_value c")
    case (PArray a)
    then have "start_iteration ops c False (Some a) s1 = Some s'" using ret p by (simp add: op_fe_init_def)
    from start_iteration_outcome [where P = ?P, OF this f] show ?thesis by simp
  next
    case (PObject a)
    with ret p obtain array s2 where 1: "property_array ops a s1 = Some (array, s2)"
      and 2: "start_iteration ops c True array s2 = Some s'"
      by (auto simp: op_fe_init_def bind_eq_Some_conv)
    note q = quiet.earn [OF quiet_property_array [OF 1], of "{#cell_value c#}"]
    have "outcome f fs s2 (oref PArray array + {#cell_value c#}) s' ?P"
      using start_iteration_outcome [where P = ?P, OF 2] quiet_fields [OF q] f by simp
    then show ?thesis by (rule outcome_after_quiet [OF q])
  qed (use ret p f error in \<open>auto simp: op_fe_init_def\<close>)
  then show ?thesis by (rule outcome_pop [OF p po(3,4)])
qed

lemma op_fe_free_outcome:
  assumes r: "ready f fs s 0 1" and ret: "op_fe_free s = Some s'"
  shows "outcome f fs s {#} s' (next_at f s 0 1 0)"
proof -
  have "vm_stack_count s \<noteq> 0" using r by (simp add: ready_def)
  with ret have "s' = op_pop s \<or> frame_error ''invalid foreach cleanup'' s = Some s'"
    by (auto simp: op_fe_free_def split: pvalue.splits)
  then show ?thesis
    using op_pop_outcome [OF r] ready_error [OF ready_weak [OF r, of 0 0]] by auto
qed

lemma op_fe_next_outcome:
  assumes r: "ready f fs s 3 1" and ret: "op_fe_next s = Some s'"
  shows "outcome f fs s {#} s' (branch_at f (code_u16 (fr_proto f) (fr_pc f)) (fr_pc f + 3)
    (vm_stack_count s - 1) (vm_stack_count s + (if pp_code (fr_proto f) ! (fr_pc f + 2) = 0 then 1 else 2)))"
    (is "outcome f fs s {#} s' ?P")
proof (rule outcome_at)
  let ?f = "f\<lparr>fr_pc := fr_pc f + 3\<rparr>" and ?s = "at_pc f (fr_pc f + 3) s" and ?rel = "code_u16 (fr_proto f) (fr_pc f)"
  let ?has_key = "pp_code (fr_proto f) ! (fr_pc f + 2)"
  show "vm_frames s = f # fs" using r by (simp add: ready_def)
  have r1: "ready ?f fs ?s 0 1" using ready_at [OF r, of 3] by simp
  then have nz: "vm_stack_count ?s \<noteq> 0" by (simp add: ready_def)
  have r2: "ready (f\<lparr>fr_pc := fr_pc f + 2\<rparr>) fs (at_pc f (fr_pc f + 2) s) 1 1" using ready_at [OF r, of 2] by simp
  have "fr_pc f + 2 + 1 = fr_pc f + 3" by simp
  then have "read_u8 (at_pc f (fr_pc f + 2) s) = Some (?has_key, ?s)"
    using read_u8_ready [OF r2] by (simp add: add.commute)
  with ret read_u16_ready [OF r] nz have e: "(case cell_value (vm_stack ?s ! (vm_stack_count ?s - 1)) of
          PResource r \<Rightarrow> do {
            (entry, s) \<leftarrow> pa_iterator_next (Some r) ?s;
            (case entry of
               None \<Rightarrow> jump_relative ?rel (op_pop s)
             | Some (key, v) \<Rightarrow>
                 Some (push_value v (if ?has_key \<noteq> 0 then push_value key s else log_rc [Release key] s)))
          }
        | _ \<Rightarrow> frame_error ''invalid foreach iterator'' ?s) = Some s'"
    by (simp add: op_fe_next_def)
  show "outcome ?f fs ?s {#} s' ?P"
  proof (cases "\<exists>r. cell_value (vm_stack ?s ! (vm_stack_count ?s - 1)) = PResource r")
    case False
    then have "frame_error ''invalid foreach iterator'' ?s = Some s'"
      using e by (auto split: pvalue.split_asm)
    then show ?thesis by (rule ready_error [OF r1]) simp
  next
    case True
    then obtain res where res: "cell_value (vm_stack ?s ! (vm_stack_count ?s - 1)) = PResource res" by blast
    with e obtain entry s1 where n: "pa_iterator_next (Some res) ?s = Some (entry, s1)"
      and c: "(case entry of None \<Rightarrow> jump_relative ?rel (op_pop s1)
         | Some (key, v) \<Rightarrow> Some (push_value v (if ?has_key \<noteq> 0 then push_value key s1 else log_rc [Release key] s1))) = Some s'"
      by (auto simp: bind_eq_Some_conv)
    note q = quiet_pa_iterator_next [OF n]
    note qf = quiet_fields [OF q]
    have f1: "vm_frames s1 = ?f # fs" "frame_floor ?f < vm_stack_count s1" "fits_stack s1" "vm_stack_count s1 = vm_stack_count s"
      using r1 qf by (auto simp: ready_def)
    show ?thesis
    proof (cases entry)
      case None
      obtain d s2 where p: "pop s1 = (d, s2)" by force
      have pos: "0 < vm_stack_count s1" "vm_stack_count s1 \<le> length (vm_stack s1)"
        using f1 by (auto simp: fits_stack_def)
      note ps = pop_simps [OF pos p]
      let ?s2 = "release_cell d s2"
      have "outcome ?f fs ?s2 {#} s' ?P"
        by (rule jump_outcome [where relative = ?rel])
          (use c None p ps f1 in \<open>auto simp: op_pop_def release_cell_def branch_at_def jump_at_def\<close>)
      then have "outcome ?f fs s2 {#cell_value d#} s' ?P" by (rule outcome_after_quiet [OF quiet_release_cell])
      then have "outcome ?f fs s1 {#} s' ?P" by (rule outcome_pop [OF p pos(1) f1(3)])
      then show ?thesis using outcome_after_quiet [OF q] None by simp
    next
      case (Some kv)
      obtain k v where kv: "kv = (k, v)" by force
      note q = q [unfolded Some kv, simplified]
      show ?thesis
      proof (cases "?has_key = 0")
        case True
        then have s': "s' = push_value v (log_rc [Release k] s1)" using c Some kv by simp
        have "quiet ?s {#} (log_rc [Release k] s1) {#v#}"
          by (rule quiet_trans [OF q quiet.spend_one [OF quiet_release]])
        then show ?thesis unfolding s'
          by (rule outcome_quiet_push) (use r1 True in \<open>auto simp: ready_def branch_at_def\<close>)
      next
        case False
        then have s': "s' = push_value v (push_value k s1)" using c Some kv by simp
        have "outcome ?f fs s1 {#k, v#} s' ?P" unfolding s'
          by (rule outcome_push_two) (use f1 False in \<open>auto simp: branch_at_def\<close>)
        then show ?thesis by (rule outcome_after_quiet [OF q])
      qed
    qed
  qed
qed

section \<open>Unpacking\<close>

lemma quiet_extend_from:
  assumes "extend_from ops source target position s = Some (ok, s')"
  shows "quiet s {#} s' {#}"
proof -
  have "quiet s {#} (snd r) {#}" if "extend_from ops source target position s = Some r" for r
  proof (rule extend_from.raw_induct [where P = "\<lambda>ops source target position s r. quiet s {#} (snd r) {#}", OF _ that])
    fix f ops source target position and s :: "'b pphp_state" and r
    assume IH: "\<And>ops source target position s r. f ops source target position s = Some r \<Longrightarrow> quiet s {#} (snd r) {#}"
      and eq: "Option.bind (vm_arrays s source) (\<lambda>src.
       if pa_used src \<le> position then Some (True, s)
       else
         (case pa_entry_at (Some src) position of
            None \<Rightarrow> Some (True, s)
          | Some (key, v, next_position, ev) \<Rightarrow>
              Option.bind
                (case key of
                   PInt _ \<Rightarrow> array_push ops target v (log_rc ev s)
                 | _ \<Rightarrow> array_set ops target key v (log_rc ev s))
                (\<lambda>(ok, s).
                   if ok then f ops source target next_position (log_rc [Release key, Release v] s)
                   else Some (False, log_rc [Release key, Release v] s)))) = Some r"
    then obtain src where src: "vm_arrays s source = Some src" by (auto simp: bind_eq_Some_conv)
    show "quiet s {#} (snd r) {#}"
    proof (cases "pa_used src \<le> position \<or> pa_entry_at (Some src) position = None")
      case True
      then have "r = (True, s)" using eq src by (auto split: if_splits)
      then show ?thesis by simp
    next
      case False
      then obtain key v n ev where e: "pa_entry_at (Some src) position = Some (key, v, n, ev)" by auto
      have ev: "ev = [Retain key, Retain v]" using e by (auto simp: pa_entry_at_def Let_def split: if_splits)
      from eq src False e obtain ok s1 where
        1: "(case key of PInt _ \<Rightarrow> array_push ops target v (log_rc ev s)
          | _ \<Rightarrow> array_set ops target key v (log_rc ev s)) = Some (ok, s1)"
        and 2: "(if ok then f ops source target n (log_rc [Release key, Release v] s1)
          else Some (False, log_rc [Release key, Release v] s1)) = Some r"
        by (auto simp: bind_eq_Some_conv)
      have "array_push ops target v (log_rc ev s) = Some (ok, s1) \<or> array_set ops target key v (log_rc ev s) = Some (ok, s1)"
        using 1 by (cases key) auto
      then have "quiet (log_rc ev s) {#} s1 {#}" by (auto intro: quiet_array_push quiet_array_set)
      note q1 = quiet.keep [OF this, of "{#key, v#}"]
      have q0: "quiet s {#} (log_rc ev s) {#key, v#}" by (rule quiet_log_rc) (simp add: ev)
      let ?s2 = "log_rc [Release key, Release v] s1"
      have "quiet s1 {#key, v#} ?s2 {#}" by (rule quiet_log_rc) simp
      note q2 = quiet_trans [OF quiet_trans [OF q0 q1] this]
      have "quiet ?s2 {#} (snd r) {#}" using 2 IH [of ops source target n ?s2 r] by (cases ok) auto
      with q2 show ?thesis by (rule quiet_trans)
    qed
  qed
  from this [OF assms] show ?thesis by simp
qed

lemma op_arr_extend_outcome:
  assumes r: "ready f fs s 0 2" and ret: "op_arr_extend ops s = Some s'"
  shows "outcome f fs s {#} s' (next_at f s 0 2 1)" (is "outcome f fs s {#} s' ?P")
proof -
  obtain c s1 where p1: "pop s = (c, s1)" by force
  obtain d s2 where p2: "pop s1 = (d, s2)" by force
  note o1 = popped_one [OF r _ p1, simplified]
  note o2 = popped_one [OF o1(1) _ p2, simplified]
  have f2: "vm_frames s2 = f # fs" "frame_floor f \<le> vm_stack_count s2" "fits_stack s2"
    "vm_stack_count s2 = vm_stack_count s - 2"
    using o1 o2 by (auto simp: ready_def)
  from ret p1 p2 obtain ok s3 where
    3: "(case (cell_value c, cell_value d) of
          (PArray a, PArray b) \<Rightarrow> extend_from ops a b 0 s2
        | _ \<Rightarrow> do { s \<leftarrow> frame_error ''only arrays can be unpacked into arrays'' s2; Some (False, s) }) = Some (ok, s3)"
    and 4: "(if ok then Some (snd (push d (release_cell c s3)))
       else if vm_error (release_cell d (release_cell c s3)) = []
       then frame_error ''array unpacking failed'' (release_cell d (release_cell c s3))
       else Some (release_cell d (release_cell c s3))) = Some s'"
    unfolding op_arr_extend_def Let_def by (auto simp: bind_eq_Some_conv)
  have q3: "quiet s2 {#} s3 {#}" using 3
    by (auto split: pvalue.splits bind_splits intro: quiet_extend_from quiet_frame_error)
  have q4: "quiet s2 {#cell_value d, cell_value c#} (release_cell c s3) {#cell_value d#}"
    using quiet_trans [OF quiet.keep [OF q3, of "{#cell_value c, cell_value d#}"] quiet.spend_one [OF quiet_release_cell]]
    by (simp add: add_mset_commute)
  note qf = quiet_fields [OF q4]
  have "outcome f fs (release_cell c s3) {#cell_value d#} s' ?P"
  proof (cases ok)
    case True
    then have s': "s' = snd (push d (release_cell c s3))" using 4 by simp
    show ?thesis unfolding s'
      by (rule outcome_push) (use f2 qf r in \<open>auto simp: next_at_def ready_def\<close>)
  next
    case False
    let ?s4 = "release_cell d (release_cell c s3)"
    have "quiet ?s4 {#} s' {#} \<and> vm_error s' \<noteq> []"
      using 4 False by (auto split: if_splits intro: quiet_frame_error dest: frame_error_sets)
    then have "quiet (release_cell c s3) {#cell_value d#} s' {#}" "vm_error s' \<noteq> []"
      using quiet_trans [OF quiet_release_cell] by auto
    then show ?thesis using f2 qf by (intro outcome_quiet) auto
  qed
  from outcome_after_quiet [OF q4 this] show ?thesis by (rule pop_two [OF r p1 p2])
qed

section \<open>Classes of values\<close>

lemma quiet_name_constant: "name_constant index s = Some (r, s') \<Longrightarrow> quiet s A s' A"
  unfolding name_constant_def by (auto split: bind_splits option.splits intro: quiet_frame_error)

lemma op_instanceof_outcome:
  assumes r: "ready f fs s 2 1" and ret: "op_instanceof s = Some s'"
  shows "outcome f fs s {#} s' (next_at f s 2 1 1)"
proof (rule outcome_operands [OF r])
  let ?f = "f\<lparr>fr_pc := fr_pc f + 2\<rparr>" and ?s = "at_pc f (fr_pc f + 2) s"
  have r1: "ready ?f fs ?s 0 1" using ready_at [OF r, of 2] by simp
  from ret read_u16_ready [OF r] obtain name s1 where
    n: "name_constant (code_u16 (fr_proto f) (fr_pc f)) ?s = Some (name, s1)"
    by (auto simp: op_instanceof_def bind_eq_Some_conv)
  note q = quiet_name_constant [OF n, of "{#}"]
  note qf = quiet_fields [OF q]
  obtain c s2 where p: "pop s1 = (c, s2)" by force
  have pos: "0 < vm_stack_count s1" "fits_stack s1" "vm_stack_count s1 \<le> length (vm_stack s1)"
    using r1 qf by (auto simp: ready_def fits_stack_def)
  note ps = pop_simps [OF pos(1,3) p]
  from ret read_u16_ready [OF r] n p obtain b where s': "s' = push_value (pv_bool b) (release_cell c s2)"
    by (auto simp: op_instanceof_def bind_eq_Some_conv)
  have "outcome ?f fs s2 {#cell_value c#} s' (next_at ?f ?s 0 1 1)" unfolding s'
    by (rule outcome_quiet_push_plain [OF quiet_release_cell])
      (use r1 qf ps pos in \<open>auto simp: ready_def next_at_def pv_bool_def fits_stack_def\<close>)
  from outcome_pop [OF p pos(1,2) this] have "outcome ?f fs s1 {#} s' (next_at ?f ?s 0 1 1)" .
  then show "outcome ?f fs ?s {#} s' (next_at ?f ?s 0 1 1)" by (rule outcome_after_quiet [OF q])
qed

lemma op_instanceof_dynamic_outcome:
  assumes r: "ready f fs s 0 2" and ret: "op_instanceof_dynamic s = Some s'"
  shows "outcome f fs s {#} s' (next_at f s 0 2 1)"
proof -
  obtain c s1 where p1: "pop s = (c, s1)" by force
  obtain d s2 where p2: "pop s1 = (d, s2)" by force
  note o1 = popped_one [OF r _ p1, simplified]
  note o2 = popped_one [OF o1(1) _ p2, simplified]
  from ret p1 p2 obtain b where s': "s' = push_value (pv_bool b) (release_cell d (release_cell c s2))"
    by (auto simp: op_instanceof_dynamic_def bind_eq_Some_conv)
  have "quiet s2 {#cell_value d, cell_value c#} (release_cell d (release_cell c s2)) {#}"
    using quiet_trans [OF quiet.spend_one [OF quiet_release_cell [of s2 c], of "{#cell_value d#}"] quiet_release_cell]
    by (simp add: add_mset_commute)
  then have "outcome f fs s2 {#cell_value d, cell_value c#} s' (next_at f s 0 2 1)" unfolding s'
    by (rule outcome_quiet_push_plain) (use o1 o2 r in \<open>auto simp: ready_def next_at_def pv_bool_def\<close>)
  then show ?thesis by (rule pop_two [OF r p1 p2])
qed

section \<open>Closures\<close>

text \<open>Reading the captures leaves the frame at the end of the instruction.\<close>

definition captured ::
  "pframe \<Rightarrow> pframe list \<Rightarrow> 'h pphp_state \<Rightarrow> nat \<Rightarrow> pvalue list \<Rightarrow> 'h pphp_state \<Rightarrow> bool" where
  "captured f fs s n vs s' \<longleftrightarrow>
     bal s {#} s' (mset vs) \<and> fits_stack s' \<and> vm_halt_result s' = vm_halt_result s \<and>
     vm_stack_count s' = vm_stack_count s \<and> vm_frames s' = f\<lparr>fr_pc := fr_pc f + 2 * n\<rparr> # fs"

lemma read_captures_outcome:
  assumes "read_captures ops n s = Some (valid, vs, s')" "vm_frames s = f # fs" "fits_stack s"
    "fr_pc f + 2 * n \<le> code_length (fr_proto f)"
  shows "captured f fs s n vs s'"
  using assms
proof (induction n arbitrary: s f valid vs)
  case 0
  then show ?case by (simp add: captured_def)
next
  case (Suc n)
  let ?f = "f\<lparr>fr_pc := fr_pc f + 2\<rparr>" and ?s = "at_pc f (fr_pc f + 2) s"
  have r1: "read_u8 s = Some (pp_code (fr_proto f) ! fr_pc f, at_pc f (Suc (fr_pc f)) s)"
    by (rule read_u8_at [OF Suc.prems(2)]) (use Suc.prems(4) in simp)
  have r2: "read_u8 (at_pc f (Suc (fr_pc f)) s) = Some (pp_code (fr_proto f) ! Suc (fr_pc f), ?s)"
  proof -
    have "vm_frames (at_pc f (Suc (fr_pc f)) s) = f\<lparr>fr_pc := Suc (fr_pc f)\<rparr> # fs" using Suc.prems(2) by simp
    from read_u8_at [OF this] show ?thesis using Suc.prems(4) by (simp add: add_2_eq_Suc')
  qed
  have same: "same_owner f ?f" by (simp add: same_owner_def)
  note st = set_top_simps [OF Suc.prems(2) same]
  obtain v s1 vs' valid' where
    1: "(if pp_code (fr_proto f) ! fr_pc f \<noteq> 0 \<or> n_locals (fr_proto f) \<le> unat (pp_code (fr_proto f) ! Suc (fr_pc f))
         then Some (False, PNull, ?s) else read_local_value ops (pp_code (fr_proto f) ! Suc (fr_pc f)) False ?s) = Some (v, s1)"
    and 2: "read_captures ops n (snd s1) = Some (valid', vs', s')" and vs: "vs = fst s1 # vs'"
    using Suc.prems(1) r1 r2 Suc.prems(2)
    by (simp add: top_frame_def bind_eq_Some_conv split: if_splits) fastforce+
  have q: "quiet ?s {#} (snd s1) {#fst s1#}"
  proof (cases "(v, s1) = (False, PNull, ?s)")
    case True
    then show ?thesis by (simp add: quiet_def balance_def)
  next
    case False
    then have "read_local_value ops (pp_code (fr_proto f) ! Suc (fr_pc f)) False ?s = Some (v, fst s1, snd s1)"
      using 1 by (simp split: if_splits)
    then show ?thesis by (rule quiet_read_local)
  qed
  note qf = quiet_fields [OF q]
  have "captured ?f fs (snd s1) n vs' s'"
    by (rule Suc.IH [OF 2]) (use qf st Suc.prems in \<open>simp_all add: fits_stack_def\<close>)
  then have c: "bal (snd s1) {#} s' (mset vs')" "fits_stack s'" "vm_halt_result s' = vm_halt_result (snd s1)"
    "vm_stack_count s' = vm_stack_count (snd s1)" "vm_frames s' = f\<lparr>fr_pc := fr_pc f + 2 + 2 * n\<rparr> # fs"
    by (simp_all add: captured_def)
  have "bal (snd s1) {#fst s1#} s' (mset vs)"
    using bal.earn [OF c(1), of "{#fst s1#}"] vs by simp
  then have "bal s {#} s' (mset vs)"
    by (rule bal_trans [OF bal_quiet [OF st(1) q]])
  then show ?case using c qf by (simp add: captured_def add.commute add.left_commute)
qed

lemma op_closure_outcome:
  assumes r: "ready f fs s (3 + 2 * unat (pp_code (fr_proto f) ! (fr_pc f + 2))) 0"
    and ret: "op_closure ops s = Some s'"
  shows "outcome f fs s {#} s' (next_at f s (3 + 2 * unat (pp_code (fr_proto f) ! (fr_pc f + 2))) 0 1)"
    (is "outcome f fs s {#} s' ?P")
proof -
  let ?n = "unat (pp_code (fr_proto f) ! (fr_pc f + 2))"
  let ?f = "f\<lparr>fr_pc := fr_pc f + 3\<rparr>" and ?s = "at_pc f (fr_pc f + 3) s"
  have fr: "vm_frames s = f # fs" "fits_stack s" "frame_floor f \<le> vm_stack_count s" using r by (auto simp: ready_def)
  have same: "same_owner f ?f" by (simp add: same_owner_def)
  note st = set_top_simps [OF fr(1) same]
  have r2: "ready (f\<lparr>fr_pc := fr_pc f + 2\<rparr>) fs (at_pc f (fr_pc f + 2) s) 1 0"
    using ready_weak [OF ready_at [OF r, of 2], of 1 0] by simp
  have "fr_pc f + 2 + 1 = fr_pc f + 3" by simp
  then have "read_u8 (at_pc f (fr_pc f + 2) s) = Some (pp_code (fr_proto f) ! (fr_pc f + 2), ?s)"
    using read_u8_ready [OF r2] by (simp add: add.commute)
  with ret read_u16_ready [OF r] st(2) obtain proto valid captures s1 where
    1: "read_captures ops ?n ?s = Some (valid, captures, s1)"
    and 2: "(if \<not> valid \<or> proto = None then
       frame_error ''invalid CLOSURE instruction'' (log_rc (map Release (rev captures)) s1)
     else do {
       (closure, s) \<leftarrow> pclosure_new ops proto (fr_module ?f) (fr_called_scope ?f) (fr_called_class ?f) captures s1;
       let s = log_rc (map Release captures) s;
       (case closure of
          None \<Rightarrow> frame_error ''out of memory creating closure'' s
        | Some a \<Rightarrow> Some (push_value (PClosure a) s))
     }) = Some s'"
    by (auto simp: op_closure_def top_frame_def bind_eq_Some_conv)
  have "captured ?f fs ?s ?n captures s1"
    by (rule read_captures_outcome [OF 1]) (use r st in \<open>auto simp: ready_def fits_stack_def\<close>)
  moreover define g where "g = ?f\<lparr>fr_pc := fr_pc f + 3 + 2 * ?n\<rparr>"
  ultimately have c: "bal ?s {#} s1 (mset captures)" "fits_stack s1" "vm_halt_result s1 = vm_halt_result ?s"
    "vm_stack_count s1 = vm_stack_count s" "vm_frames s1 = g # fs"
    by (simp_all add: captured_def)
  have same_g: "same_owner f g" by (simp add: g_def same_owner_def)
  have f1: "vm_frames s1 = g # fs" "frame_floor g \<le> vm_stack_count s1" "fits_stack s1"
    using c fr same_g by (simp_all add: same_owner_def)
  have P: "?P (fr_pc g) (Suc (vm_stack_count s1))" using c by (simp add: g_def next_at_def)
  have "outcome g fs s1 (mset captures) s' ?P"
  proof (cases "\<not> valid \<or> proto = None")
    case True
    then have e: "frame_error ''invalid CLOSURE instruction'' (log_rc (map Release (rev captures)) s1) = Some s'"
      using 2 by simp
    have "quiet s1 (mset captures) (log_rc (map Release (rev captures)) s1) {#}" by (rule quiet_log_rc) simp
    then show ?thesis by (rule outcome_quiet_error [OF _ e _ f1(1,2)]) simp
  next
    case False
    with 2 obtain closure s2 where
      n: "pclosure_new ops proto (fr_module ?f) (fr_called_scope ?f) (fr_called_class ?f) captures s1 = Some (closure, s2)"
      and e: "(case closure of
          None \<Rightarrow> frame_error ''out of memory creating closure'' (log_rc (map Release captures) s2)
        | Some a \<Rightarrow> Some (push_value (PClosure a) (log_rc (map Release captures) s2))) = Some s'"
      by (auto simp: bind_eq_Some_conv Let_def)
    have "quiet s1 (mset captures) s2 (oref PClosure closure + mset captures)"
      by (rule quiet.earn [OF quiet_pclosure_new [OF n]])
    moreover have "quiet s2 (oref PClosure closure + mset captures) (log_rc (map Release captures) s2) (oref PClosure closure)"
      by (rule quiet_log_rc) simp
    ultimately have q: "quiet s1 (mset captures) (log_rc (map Release captures) s2) (oref PClosure closure)"
      by (rule quiet_trans)
    show ?thesis
    proof (cases closure)
      case None
      then show ?thesis using e q f1
        by (intro outcome_quiet_error [where ?s1.0 = "log_rc (map Release captures) s2"]) auto
    next
      case (Some a)
      then have s': "s' = push_value (PClosure a) (log_rc (map Release captures) s2)" using e by simp
      show ?thesis unfolding s' by (rule outcome_quiet_push) (use q Some f1 P in simp_all)
    qed
  qed
  from outcome_step [OF bal_trans [OF st(1) c(1)] _ _ same_g this] c show ?thesis by simp
qed

end
