(* ===== verification/VmCalls.thy ===== *)
theory VmCalls
  imports VmSafeIter
begin

text \<open>
  Calls, returns and exceptions: how the frames of the machine come and go.
\<close>

unbundle bit_operations_syntax

declare add_2_eq_Suc [simp del] add_2_eq_Suc' [simp del]

section \<open>Frames that end\<close>

lemma fits_bal: "bal s A s' B \<Longrightarrow> fits_stack s \<Longrightarrow> vm_stack_count s' \<le> PPHP_STACK_SLOTS \<Longrightarrow> fits_stack s'"
  by (simp add: bal_def same_tables_def fits_stack_def)

lemma pop_frame_ok:
  assumes "frame_ok \<Phi> f" "vm_frames s = f # fs" "pop_frame ops f s = Some s'"
  shows "s' = s\<lparr>vm_frames := fs\<rparr>" "bal s A s' A"
proof -
  show s': "s' = s\<lparr>vm_frames := fs\<rparr>"
    using assms by (simp add: pop_frame_def release_frame_owners_def frame_ok_def Let_def)
  show "bal s A s' A"
    unfolding s' by (rule bal_stack)
      (use assms in \<open>simp_all add: same_tables_def mem_ok_def table_refs_def pending_refs_def stack_refs_def
        frame_refs_def frame_ok_def\<close>)
qed

lemma drop_frame:
  assumes ok: "frame_ok \<Phi> f" and f: "vm_frames s = f # fs" and fits: "fits_stack s"
    and room: "fr_base f \<le> vm_stack_count s"
    and ret: "pop_frame ops f ((release_range (fr_base f) (vm_stack_count s) s)\<lparr>vm_stack_count := fr_base f\<rparr>) = Some s'"
  shows "bal s {#} s' {#}" "vm_frames s' = fs" "vm_stack_count s' = fr_base f" "vm_error s' = vm_error s"
    "fits_stack s'" "vm_halt_result s' = vm_halt_result s"
proof -
  let ?s = "(release_range (fr_base f) (vm_stack_count s) s)\<lparr>vm_stack_count := fr_base f\<rparr>"
  have "vm_stack_count s \<le> length (vm_stack s)" using fits by (simp add: fits_stack_def)
  note c = cut_simps [OF room this refl]
  have "vm_frames ?s = f # fs" using c(2) f by simp
  note p = pop_frame_ok [OF ok this ret]
  show b: "bal s {#} s' {#}" by (rule bal_trans [OF c(1) p(2)])
  show "vm_frames s' = fs" "vm_stack_count s' = fr_base f" "vm_error s' = vm_error s"
    "vm_halt_result s' = vm_halt_result s"
    using c p(1) by simp_all
  then show "fits_stack s'" using fits room by (intro fits_bal [OF b fits]) (auto simp: fits_stack_def)
qed

lemma callers_locals:
  assumes "callers_ok \<Phi> fs b" "vm_frames s = fs" "vm_stack_count s = b"
  shows "floor_ok \<Phi> s"
  using assms by (cases fs) (auto simp: floor_ok_def)

lemma return_outcome:
  assumes ok: "frame_ok \<Phi> f" "callers_ok \<Phi> fs (fr_base f)"
    and f: "vm_frames s = f # fs" and fits: "fits_stack s" and room: "frame_floor f \<le> vm_stack_count s"
    and ret: "return_from_function ops c s = Some s'"
  shows "bal s {#cell_value c#} s' {#}" "fits_stack s'" "vm_halt_result s' = vm_halt_result s"
    "floor_ok \<Phi> s'" "vm_error s' = [] \<Longrightarrow> conforms \<Phi> s'"
proof -
  have "\<not> fr_has_return_override f" using ok by (simp add: frame_ok_def)
  with ret f obtain s1 where
    p: "pop_frame ops f ((release_range (fr_base f) (vm_stack_count s) s)\<lparr>vm_stack_count := fr_base f\<rparr>) = Some s1"
    and r: "(if vm_frames s1 = [] then Some (release_cell c s1) else Some (snd (push c s1))) = Some s'"
    by (auto simp: return_from_function_def top_frame_def bind_eq_Some_conv Let_def)
  have "fr_base f \<le> vm_stack_count s" using room by simp
  note d = drop_frame [OF ok(1) f fits this p]
  have b: "bal s {#cell_value c#} s1 {#cell_value c#}" using bal_frame [OF d(1), of "{#cell_value c#}"] by simp
  have "bal s {#cell_value c#} s' {#} \<and> fits_stack s' \<and> vm_halt_result s' = vm_halt_result s \<and>
    floor_ok \<Phi> s' \<and> (vm_error s' = [] \<longrightarrow> conforms \<Phi> s')"
  proof (cases fs)
    case Nil
    then have s': "s' = release_cell c s1" using r d(2) by simp
    have q: "quiet s1 {#cell_value c#} s' {#}" unfolding s' by simp
    note qf = quiet_fields [OF q]
    have "vm_frames s' = []" "vm_stack_count s' = 0" using qf d Nil ok(2) by auto
    then show ?thesis using bal_quiet [OF b q] qf d by (simp add: floor_ok_def conforms_def)
  next
    case (Cons g gs)
    then have s': "s' = snd (push c s1)" using r d(2) by simp
    have len: "length (vm_stack s1) = PPHP_STACK_SLOTS" using d(5) by (simp add: fits_stack_def)
    note pu = push_any [OF len, of c, folded s']
    have fr: "vm_frames s' = g # gs" using pu(2) d(2) Cons by simp
    obtain k where k: "\<Phi> (fr_proto g) (fr_pc g) = Some (Suc k)" "fr_base f = frame_floor g + k"
      and g: "frame_ok \<Phi> g" "callers_ok \<Phi> gs (fr_base g)" using ok(2) Cons by auto
    have "floor_ok \<Phi> s'" using fr g k pu(3) d(3) by (simp add: floor_ok_def)
    moreover have "conforms \<Phi> s'" if "vm_error s' = []"
      using fr g k pu(5) [OF that] d(3) by (simp add: conforms_def)
    moreover have "fits_stack s'"
      by (rule fits_bal [OF pu(1) d(5)]) (use pu(4) d(5) in \<open>simp add: fits_stack_def\<close>)
    ultimately show ?thesis using bal_trans [OF b pu(1)] pu(6) d(6) by simp
  qed
  then show "bal s {#cell_value c#} s' {#}" "fits_stack s'" "vm_halt_result s' = vm_halt_result s"
    "floor_ok \<Phi> s'" "vm_error s' = [] \<Longrightarrow> conforms \<Phi> s'" by auto
qed

section \<open>Arguments\<close>

lemma undefine_slots:
  assumes "j \<le> length xs"
  shows "undefine i j xs = take i xs @ replicate (j - i) Undefined @ drop (max i j) xs"
proof (cases "i \<le> j")
  case True
  then obtain k where k: "j = i + k" by (metis le_Suc_ex)
  have "fold (\<lambda>i xs. xs[i := Undefined]) [i..<i + k] xs = take i xs @ replicate k Undefined @ drop (i + k) xs"
    using assms unfolding k
  proof (induction k)
    case 0
    then show ?case by simp
  next
    case (Suc k)
    then have "drop (i + k) xs = xs ! (i + k) # drop (Suc (i + k)) xs" by (simp add: Cons_nth_drop_Suc)
    with Suc show ?case
      by (simp add: list_update_append replicate_app_Cons_same [symmetric] min_def
          flip: replicate_append_same)
  qed
  then show ?thesis using k by (simp add: undefine_def)
next
  case False
  then show ?thesis by (simp add: undefine_def)
qed

text \<open>The slots of the callee: the arguments given, the missing ones, the rest, the other locals.\<close>

definition callee_slots :: "pproto \<Rightarrow> nat \<Rightarrow> cell list \<Rightarrow> addr option \<Rightarrow> cell list" where
  "callee_slots callee fixed arguments rest =
     take fixed arguments @ replicate (fixed - length arguments) Undefined @
     (case rest of None \<Rightarrow> [] | Some a \<Rightarrow> [Cell (PArray a)]) @
     replicate (n_locals callee - unat (n_params callee)) Undefined"

lemma place_arguments_slots:
  assumes n: "base + length arguments \<le> length xs" "base + n_locals callee \<le> length xs"
    "unat (n_params callee) \<le> n_locals callee"
    "unat (n_params callee) = fixed + (if rest = None then 0 else 1)"
    and args: "take (length arguments) (drop base xs) = arguments"
    and supplied: "supplied = min (length arguments) fixed"
  shows "place_arguments callee base base 0 supplied fixed rest xs =
    Some (take base xs @ callee_slots callee fixed arguments rest @ drop (base + n_locals callee) xs)"
proof -
  let ?np = "unat (n_params callee)"
  have xs: "take (base + supplied) xs = take base xs @ take fixed arguments"
    using args supplied by (metis take_add take_take min.commute)
  have len: "length (take (base + supplied) xs) = base + supplied" using n supplied by simp
  have gap: "fixed - length arguments = fixed - supplied" using supplied by simp
  have 1: "undefine (base + supplied) (base + fixed) xs =
      take (base + supplied) xs @ replicate (fixed - supplied) Undefined @ drop (base + fixed) xs"
    using n supplied by (subst undefine_slots) auto
  let ?ys = "case rest of None \<Rightarrow> undefine (base + supplied) (base + fixed) xs
    | Some a \<Rightarrow> (undefine (base + supplied) (base + fixed) xs)[base + fixed := Cell (PArray a)]"
  have 2: "?ys = take (base + supplied) xs @ replicate (fixed - supplied) Undefined @
      (case rest of None \<Rightarrow> [] | Some a \<Rightarrow> [Cell (PArray a)]) @ drop (base + ?np) xs"
  proof (cases rest)
    case None
    then show ?thesis using 1 n by simp
  next
    case (Some a)
    then have np: "?np = Suc fixed" using n by simp
    have "drop (base + fixed) xs = xs ! (base + fixed) # drop (base + ?np) xs"
      using n np by (simp add: Cons_nth_drop_Suc)
    then show ?thesis unfolding 1 using Some n supplied by (simp add: list_update_append)
  qed
  define pre where "pre = take (base + supplied) xs @ replicate (fixed - supplied) Undefined @
      (case rest of None \<Rightarrow> [] | Some a \<Rightarrow> [Cell (PArray a)])"
  have l: "length pre = base + ?np"
    using len supplied n by (auto simp: pre_def split: option.split)
  have ys: "?ys = pre @ drop (base + ?np) xs" unfolding 2 pre_def by simp
  have "length ?ys = length xs" unfolding ys using l n by simp
  then have "undefine (base + ?np) (base + n_locals callee) ?ys =
      take (base + ?np) ?ys @ replicate (n_locals callee - ?np) Undefined @ drop (base + n_locals callee) ?ys"
    using n by (subst undefine_slots) auto
  moreover have "take (base + ?np) ?ys = pre" unfolding ys using l by simp
  moreover have "drop (base + n_locals callee) ?ys = drop (base + n_locals callee) xs"
    unfolding ys using l n by (simp add: add.commute)
  ultimately show ?thesis
    unfolding place_arguments_def callee_slots_def
    by (simp add: xs gap Let_def pre_def)
qed

lemma callee_slots_length:
  "unat (n_params callee) \<le> n_locals callee \<Longrightarrow>
   unat (n_params callee) = fixed + (if rest = None then 0 else 1) \<Longrightarrow>
   length (callee_slots callee fixed arguments rest) = n_locals callee"
  by (auto simp: callee_slots_def split: option.split)

lemma callee_slots_refs:
  "cnt (mset (map cell_value (callee_slots callee fixed arguments rest))) =
   cnt (mset (map cell_value (take fixed arguments))) + cnt (oref PArray rest)"
  by (auto simp: callee_slots_def split: option.split)

lemma collect_rest_outcome:
  assumes "collect_rest ops extra line s = Some (rest, s')"
  shows "quiet s {#} s' (oref PArray rest)" "rest = None \<Longrightarrow> vm_error s' \<noteq> []"
proof -
  obtain r s1 where n: "new_array ops (length extra) s = Some (r, s1)"
    using assms by (auto simp: collect_rest_def Let_def bind_eq_Some_conv)
  note q = quiet_new_array(1) [OF n]
  have "quiet s {#} s' (oref PArray rest) \<and> (rest = None \<longrightarrow> vm_error s' \<noteq> [])"
  proof (cases r)
    case None
    then have "rest = None" "s' = pphp_runtime_error line ''out of memory collecting variadic arguments'' s1"
      using assms n by (auto simp: collect_rest_def)
    then show ?thesis using q None by (auto intro: quiet_trans simp: error_is_set)
  next
    case (Some a)
    with assms n obtain ok s2 where p: "push_cells ops a extra s1 = Some (ok, s2)"
      and r: "(rest, s') = (if ok then (Some a, s2) else (None, pphp_runtime_error line
        ''out of memory collecting variadic arguments'' (log_rc [Release (PArray a)] s2)))"
      by (auto simp: collect_rest_def Let_def bind_eq_Some_conv)
    have q2: "quiet s {#} s2 {#PArray a#}"
      using quiet_trans [OF q] quiet_frame [OF quiet_push_cells [OF p], of "{#PArray a#}"] Some by simp
    show ?thesis
    proof (cases ok)
      case True
      then show ?thesis using r q2 by simp
    next
      case False
      then show ?thesis using r quiet_trans [OF q2 quiet_trans [OF quiet_release quiet_runtime_error]]
        by (simp add: error_is_set)
    qed
  qed
  then show "quiet s {#} s' (oref PArray rest)" "rest = None \<Longrightarrow> vm_error s' \<noteq> []" by auto
qed

lemma bind_arguments_cases:
  assumes ret: "bind_arguments ops callee base base argc 0 line s = Some (ok, s')"
    and fits: "fits_stack s" and base: "base + unat argc = vm_stack_count s"
  shows "\<not> ok \<and> quiet s {#} s' {#} \<and> vm_error s' \<noteq> [] \<or>
    ok \<and> unat (n_params callee) \<le> n_locals callee \<and> base + n_locals callee < PPHP_STACK_SLOTS \<and>
    (\<exists>fixed rest s1. unat (n_params callee) = fixed + (if rest = None then 0 else 1) \<and>
       (rest = None \<longleftrightarrow> \<not> variadic callee) \<and> quiet s {#} s1 (oref PArray rest) \<and>
       s' = (log_rc (map Release (map cell_value (drop fixed (take (unat argc) (drop base (vm_stack s)))))) s1)
         \<lparr>vm_stack := take base (vm_stack s) @
            callee_slots callee fixed (take (unat argc) (drop base (vm_stack s))) rest @
            drop (base + n_locals callee) (vm_stack s1)\<rparr>)"
proof (cases "variadic callee \<and> n_params callee = 0 \<or> PPHP_STACK_SLOTS \<le> base + n_locals callee \<or>
    n_locals callee < unat (n_params callee)")
  case True
  then have "\<not> ok \<and> quiet s {#} s' {#} \<and> vm_error s' \<noteq> []"
    using ret by (auto simp: bind_arguments_def Let_def error_is_set split: if_splits)
  then show ?thesis by blast
next
  case False
  define arguments where "arguments = take (unat argc) (drop base (vm_stack s))"
  define fixed where "fixed = (if variadic callee then unat (n_params callee) - 1 else unat (n_params callee))"
  have len: "length (vm_stack s) = PPHP_STACK_SLOTS" "length arguments = unat argc"
    using fits base by (auto simp: fits_stack_def arguments_def)
  from False ret obtain b rest s1 where
    c: "(if variadic callee then do { (rest, s) \<leftarrow> collect_rest ops (drop fixed arguments) line s; Some (rest \<noteq> None, rest, s) }
       else Some (True, None, s)) = Some (b, rest, s1)"
    and r: "(if \<not> b then Some (False, s1)
       else do { let t = (if fixed < unat argc then release_range (base + fixed) (base + unat argc) s1 else s1);
         xs \<leftarrow> place_arguments callee base base 0 (if unat argc < fixed then unat argc else fixed) fixed rest (vm_stack t);
         Some (True, t\<lparr>vm_stack := xs\<rparr>) }) = Some (ok, s')"
    by (auto simp: bind_arguments_def Let_def bind_eq_Some_conv arguments_def fixed_def split: if_splits)
  have q: "quiet s {#} s1 (oref PArray rest)" and b: "b \<Longrightarrow> rest = None \<longleftrightarrow> \<not> variadic callee"
    "\<not> b \<Longrightarrow> vm_error s1 \<noteq> [] \<and> rest = None"
    using c by (auto simp: bind_eq_Some_conv split: if_splits dest: collect_rest_outcome)
  show ?thesis
  proof (cases b)
    case False
    then show ?thesis using r q b(2) by simp
  next
    case True
    have np: "unat (n_params callee) = fixed + (if rest = None then 0 else 1)"
    proof -
      have "n_params callee \<noteq> 0 \<Longrightarrow> unat (n_params callee) \<noteq> 0" by (simp add: unat_eq_0)
      then show ?thesis using b(1) [OF True] False by (cases rest) (auto simp: fixed_def)
    qed
    note qf = quiet_fields [OF q]
    have st: "take (base + unat argc) (vm_stack s1) = take base (vm_stack s) @ arguments"
      using qf(4) unfolding base [symmetric] arguments_def by (simp add: take_add)
    have args: "take (unat argc) (drop base (vm_stack s1)) = arguments"
    proof -
      have "unat argc = vm_stack_count s - base" using base by simp
      then show ?thesis using arg_cong [OF st, of "drop base"] base fits by (simp add: fits_stack_def drop_take)
    qed
    have pre: "take base (vm_stack s1) = take base (vm_stack s)"
      using arg_cong [OF st, of "take base"] base fits by (simp add: fits_stack_def)
    have rel: "(if fixed < unat argc then release_range (base + fixed) (base + unat argc) s1 else s1) =
        log_rc (map Release (map cell_value (drop fixed arguments))) s1"
    proof -
      have "drop fixed arguments = map ((!) (vm_stack s1)) [base + fixed..<base + unat argc]" if "fixed < unat argc"
        using that len base fits qf(3)
        by (intro nth_equalityI) (simp_all add: args [symmetric] fits_stack_def add.assoc)
      then show ?thesis using len by (simp add: release_range_def comp_def log_rc_def)
    qed
    have "place_arguments callee base base 0 (min (length arguments) fixed) fixed rest (vm_stack s1) =
      Some (take base (vm_stack s1) @ callee_slots callee fixed arguments rest @ drop (base + n_locals callee) (vm_stack s1))"
      by (rule place_arguments_slots) (use False len fits base qf(3) np args in \<open>auto simp: fits_stack_def\<close>)
    moreover have "(if unat argc < fixed then unat argc else fixed) = min (length arguments) fixed"
      using len by simp
    ultimately have "ok" "s' = (log_rc (map Release (map cell_value (drop fixed arguments))) s1)
        \<lparr>vm_stack := take base (vm_stack s) @ callee_slots callee fixed arguments rest @
            drop (base + n_locals callee) (vm_stack s1)\<rparr>"
      using r True unfolding rel by (auto simp: pre Let_def)
    then show ?thesis using np False q b(1) [OF True] unfolding arguments_def by auto
  qed
qed

lemma bind_arguments_enter:
  assumes ret: "bind_arguments ops callee base base argc 0 line s = Some (True, s1)"
    and fits: "fits_stack s" and base: "base + unat argc = vm_stack_count s"
    and s': "s' = s1\<lparr>vm_stack_count := base + n_locals callee,
      vm_frames := new_frame callee module base argc # vm_frames s1\<rparr>"
  shows "bal s {#} s' {#}" "fits_stack s'" "vm_halt_result s' = vm_halt_result s"
    "vm_frames s' = new_frame callee module base argc # vm_frames s"
    "vm_stack_count s' = base + n_locals callee"
proof -
  define arguments where "arguments = take (unat argc) (drop base (vm_stack s))"
  from bind_arguments_cases [OF ret fits base] obtain fixed rest t where
    np: "unat (n_params callee) \<le> n_locals callee" "base + n_locals callee < PPHP_STACK_SLOTS"
      "unat (n_params callee) = fixed + (if rest = None then 0 else 1)"
    and q: "quiet s {#} t (oref PArray rest)"
    and s1: "s1 = (log_rc (map Release (map cell_value (drop fixed arguments))) t)
         \<lparr>vm_stack := take base (vm_stack s) @ callee_slots callee fixed arguments rest @
            drop (base + n_locals callee) (vm_stack t)\<rparr>"
    unfolding arguments_def by blast
  note qf = quiet_fields [OF q]
  let ?slots = "callee_slots callee fixed arguments rest"
  have sl: "length ?slots = n_locals callee" by (rule callee_slots_length [OF np(1,3)])
  have len: "length (vm_stack s) = PPHP_STACK_SLOTS" "length (take base (vm_stack s)) = base"
    using fits base by (auto simp: fits_stack_def)
  have st': "vm_stack s' = take base (vm_stack s) @ ?slots @ drop (base + n_locals callee) (vm_stack t)"
    by (simp add: s' s1)
  have l': "length (vm_stack s') = PPHP_STACK_SLOTS"
    unfolding st' using len sl np(2) qf(3) by simp
  have new: "stack_refs s' = mset (map cell_value (take base (vm_stack s))) + mset (map cell_value ?slots)"
    unfolding stack_refs_def st' using len sl by (simp add: s' s1)
  have "take (vm_stack_count s) (vm_stack s) = take base (vm_stack s) @ arguments"
    unfolding base [symmetric] arguments_def by (simp add: take_add)
  then have old: "stack_refs t = mset (map cell_value (take base (vm_stack s))) + mset (map cell_value arguments)"
    unfolding stack_refs_def qf(2) using qf(4) by simp
  have args: "mset (map cell_value arguments) =
      mset (map cell_value (take fixed arguments)) + mset (map cell_value (drop fixed arguments))"
    by (metis append_take_drop_id map_append mset_append)
  have t: "table_refs s' = table_refs t" "frame_refs (vm_frames s') = frame_refs (vm_frames t)"
    by (simp_all add: s' s1 table_refs_def pending_refs_def frame_refs_def new_frame_def)
  have c: "cnt (stack_refs s') + cnt (mset (map cell_value (drop fixed arguments))) =
      cnt (stack_refs t) + cnt (oref PArray rest)"
    unfolding new old args by (simp add: callee_slots_refs del: mset_map)
  have rc: "acquired s' = acquired t" "given_up s' = given_up t + cnt (mset (map cell_value (drop fixed arguments)))"
    by (simp_all add: s' s1 acquired_def given_up_def ac_simps)
  have "balance t (oref PArray rest) s' {#}"
    unfolding balance_def held_def t rc filter_union_mset using c
    by (smt (verit) add.assoc add.commute add.right_neutral filter_empty_mset)
  moreover have "same_tables t s'" "mem_ok t \<Longrightarrow> mem_ok s'"
    using l' len qf(3) by (simp_all add: same_tables_def mem_ok_def) (simp_all add: s' s1)
  ultimately have "bal t (oref PArray rest) s' {#}" by (simp add: bal_def)
  then show "bal s {#} s' {#}" by (rule quiet_bal_trans [OF q])
  show "vm_halt_result s' = vm_halt_result s"
    "vm_frames s' = new_frame callee module base argc # vm_frames s"
    "vm_stack_count s' = base + n_locals callee"
    using qf by (simp_all add: s' s1)
  then show "fits_stack s'" using l' np(2) by (simp add: fits_stack_def)
qed

text \<open>
  What is asked of the functions of the host: they keep the stack and the frames of their
  caller, own the result they return, and report an error when they fail.
\<close>

definition host_ok :: "'h host \<Rightarrow> bool" where
  "host_ok host \<longleftrightarrow>
     (\<forall>name arguments s r s'. host name arguments s = Some (r, s') \<longrightarrow>
        quiet s {#} s' (case r of HostResult v \<Rightarrow> {#v#} | _ \<Rightarrow> {#}) \<and>
        (r = HostFailed \<longrightarrow> vm_error s' \<noteq> []))"

lemma call_outcome:
  assumes f: "vm_frames s = f # fs" and fits: "fits_stack s" and ok: "functions_ok \<Phi> s" and host: "host_ok host"
    and room: "frame_floor f + unat argc \<le> vm_stack_count s"
    and ret: "call_function ops host name argc s = Some s'"
  shows "bal s {#} s' {#} \<and> fits_stack s' \<and> vm_halt_result s' = vm_halt_result s \<and>
    (vm_frames s' = f # fs \<and> frame_floor f \<le> vm_stack_count s' \<and>
       (vm_error s' = [] \<longrightarrow> vm_stack_count s' = vm_stack_count s - unat argc + 1) \<or>
     (\<exists>callee module. well_stacked callee (\<Phi> callee) \<and>
       vm_frames s' = new_frame callee module (vm_stack_count s - unat argc) argc # f # fs \<and>
       vm_stack_count s' = vm_stack_count s - unat argc + n_locals callee))"
    (is "?good s'")
proof -
  have error: "?good (pphp_runtime_error l m t)" if "quiet s {#} t {#}" "m \<noteq> []" for l m t
  proof -
    have q: "quiet s {#} (pphp_runtime_error l m t) {#}" using that(1) by (rule quiet_trans) simp
    show ?thesis using quiet_fields [OF q] quiet_bal [OF q] f fits room that(2) by (simp add: error_is_set)
  qed
  let ?base = "vm_stack_count s - unat argc"
  show ?thesis
  proof (cases "PbcVerify.constant_string (fr_proto f) name")
    case None
    then have "s' = pphp_runtime_error (fr_line f) ''invalid CALL instruction'' s"
      using ret f by (simp add: call_function_def top_frame_def)
    then show ?thesis using error [OF quiet_refl] by simp
  next
    case (Some nm)
    with ret f room obtain r s1 where
      h: "host nm (map cell_value (take (unat argc) (drop ?base (vm_stack s)))) s = Some (r, s1)"
      and rest: "(case r of
               NotHost \<Rightarrow> do {
                 found \<leftarrow> pphp_find_function nm s1;
                 (case found of
                    None \<Rightarrow> Some (pphp_runtime_error (fr_line f)
                              (''Call to undefined function '' @ fmt_string (ps_data nm) @ ''()'') s1)
                  | Some callee \<Rightarrow> enter_function ops f nm callee ?base argc s1)
               }
             | HostFailed \<Rightarrow>
                 Some ((release_range ?base (vm_stack_count s1) s1)\<lparr>vm_stack_count := ?base\<rparr>)
             | HostResult v \<Rightarrow>
                 Some (push_value v
                   ((release_range ?base (vm_stack_count s1) s1)\<lparr>vm_stack_count := ?base\<rparr>))) = Some s'"
      by (auto simp: call_function_def top_frame_def bind_eq_Some_conv Let_def)
    from host h have q: "quiet s {#} s1 (case r of HostResult v \<Rightarrow> {#v#} | _ \<Rightarrow> {#})"
      and fail: "r = HostFailed \<Longrightarrow> vm_error s1 \<noteq> []" by (auto simp: host_ok_def)
    note qf = quiet_fields [OF q]
    let ?cut = "(release_range ?base (vm_stack_count s1) s1)\<lparr>vm_stack_count := ?base\<rparr>"
    have cut_pre: "?base \<le> vm_stack_count s1" "vm_stack_count s1 \<le> length (vm_stack s1)"
      using qf fits by (auto simp: fits_stack_def)
    note cut = cut_simps [OF cut_pre refl]
    have cut_fits: "fits_stack ?cut" using fits qf(3) cut(5) by (auto simp: fits_stack_def)
    show ?thesis
    proof (cases r)
      case NotHost
      then have q': "quiet s {#} s1 {#}" using q by simp
      from NotHost rest obtain found where found: "pphp_find_function nm s1 = Some found"
        by (cases "pphp_find_function nm s1") auto
      from NotHost rest found have rest: "(case found of
            None \<Rightarrow> Some (pphp_runtime_error (fr_line f)
              (''Call to undefined function '' @ fmt_string (ps_data nm) @ ''()'') s1)
          | Some callee \<Rightarrow> enter_function ops f nm callee ?base argc s1) = Some s'"
        by (simp only: host_result.case Option.bind.simps)
      show ?thesis
      proof (cases found)
        case None
        then show ?thesis using rest error [OF q'] by auto
      next
        case (Some cm)
        obtain callee module where cm: "cm = (callee, module)" by force
        have ws: "well_stacked callee (\<Phi> callee)"
          using functions_ok_cong [OF _ ok, of s1] quiet_bal [OF q'] found Some cm
          by (auto simp: functions_ok_def bal_def)
        show ?thesis
        proof (cases "argc < n_required callee \<or> PPHP_FRAME_MAX \<le> length (vm_frames s1)")
          case True
          then show ?thesis using rest Some cm error [OF q']
            by (auto simp: enter_function_def too_few_message_def split: if_splits)
        next
          case False
          with rest Some cm obtain ok s2 where
            b: "bind_arguments ops callee ?base ?base argc 0 (fr_line f) s1 = Some (ok, s2)"
            and s': "s' = (if ok then s2\<lparr>vm_stack_count := ?base + n_locals callee,
                vm_frames := new_frame callee module ?base argc # vm_frames s2\<rparr> else s2)"
            by (auto simp: enter_function_def bind_eq_Some_conv)
          have fits1: "fits_stack s1" and base1: "?base + unat argc = vm_stack_count s1"
            using qf fits room by auto
          show ?thesis
          proof (cases ok)
            case True
            have b1: "bind_arguments ops callee ?base ?base argc 0 (fr_line f) s1 = Some (True, s2)"
              using b True by simp
            note e = bind_arguments_enter [OF b1 fits1 base1, of s' module]
            have "s' = s2\<lparr>vm_stack_count := ?base + n_locals callee,
                vm_frames := new_frame callee module ?base argc # vm_frames s2\<rparr>" using s' True by simp
            note e = e [OF this]
            show ?thesis using e qf f ws quiet_bal_trans [OF q' e(1)] by auto
          next
            case False
            then have "quiet s1 {#} s' {#}" "vm_error s' \<noteq> []"
              using bind_arguments_cases [OF b fits1 base1] s' by auto
            then show ?thesis using quiet_trans [OF q'] quiet_fields [of s "{#}" s' "{#}"] quiet_bal [of s "{#}" s' "{#}"]
                f fits room by auto
          qed
        qed
      qed
    next
      case HostFailed
      then have s': "s' = ?cut" and q': "quiet s {#} s1 {#}" using rest q by auto
      show ?thesis using quiet_bal_trans [OF q' cut(1)] cut cut_fits qf f room fail [OF HostFailed]
        unfolding s' by auto
    next
      case (HostResult v)
      then have s': "s' = snd (push (Cell v) ?cut)" and q': "quiet s {#} s1 {#v#}"
        using rest q by (auto simp: push_value_def)
      have len: "length (vm_stack ?cut) = PPHP_STACK_SLOTS" using cut_fits by (simp add: fits_stack_def)
      note pu = push_any [OF len, of "Cell v", folded s']
      have b: "bal s1 {#v#} ?cut {#v#}" using bal_frame [OF cut(1), of "{#v#}"] by simp
      have b': "bal s {#} s' {#}" using bal_trans [OF quiet_bal_trans [OF q' b]] pu(1) by simp
      have "vm_stack_count s' \<le> PPHP_STACK_SLOTS"
        using pu(4) cut_fits by (simp add: fits_stack_def)
      then have "fits_stack s'" by (rule fits_bal [OF b' fits])
      then show ?thesis using b' pu cut qf f room by auto
    qed
  qed
qed

end
