(* ===== verification/VmSound.thy ===== *)
theory VmSound
  imports VmCalls
begin

text \<open>
  Soundness of the machine: every turn of the loop keeps the accounts of references, and code
  that passes the static check keeps its stack discipline.
\<close>

unbundle bit_operations_syntax

declare add_2_eq_Suc [simp del] add_2_eq_Suc' [simp del]

section \<open>Settled states\<close>

definition rests ::
  "(pproto \<Rightarrow> depths) \<Rightarrow> 'h pphp_state \<Rightarrow> pvalue multiset \<Rightarrow> 'h pphp_state \<Rightarrow> bool" where
  "rests \<Phi> s A s' \<longleftrightarrow>
     bal s A s' {#} \<and> fits_stack s' \<and> floor_ok \<Phi> s' \<and> (vm_error s' = [] \<longrightarrow> conforms \<Phi> s') \<and>
     (vm_frames s' \<noteq> [] \<longrightarrow> vm_halt_result s' = vm_halt_result s)"

lemma settled_after:
  assumes "bal s A s1 B" "vm_halt_result s1 = vm_halt_result s" "rests \<Phi> s1 B s'"
  shows "rests \<Phi> s A s'"
  using assms by (auto simp: rests_def intro: bal_trans)

lemma settled_after_quiet: "quiet s A s1 B \<Longrightarrow> rests \<Phi> s1 B s' \<Longrightarrow> rests \<Phi> s A s'"
  by (rule settled_after [OF quiet_bal]) (auto dest: quiet_fields)

lemma floor_ok_quiet: "quiet s A s' B \<Longrightarrow> floor_ok \<Phi> s' = floor_ok \<Phi> s"
  by (auto simp: floor_ok_def quiet_fields split: list.split)

lemma conforms_quiet: "quiet s A s' B \<Longrightarrow> conforms \<Phi> s' = conforms \<Phi> s"
  by (auto simp: conforms_def quiet_fields split: list.split)

lemma settled_quiet:
  assumes "quiet s A s' {#}" "fits_stack s" "floor_ok \<Phi> s" "vm_error s' = [] \<Longrightarrow> conforms \<Phi> s"
  shows "rests \<Phi> s A s'"
  using assms quiet_fields [OF assms(1)] quiet_bal [OF assms(1)]
  by (simp add: rests_def floor_ok_quiet [OF assms(1)] conforms_quiet [OF assms(1)])

text \<open>An instruction that stays in its frame.\<close>

lemma outcome_settled:
  assumes out: "outcome f fs s A s' P" and fits: "fits_stack s"
    and ok: "frame_ok \<Phi> f" "callers_ok \<Phi> fs (fr_base f)"
    and P: "\<And>pc n. P pc n \<Longrightarrow> \<exists>d. \<Phi> (fr_proto f) pc = Some d \<and> n = frame_floor f + d"
  shows "rests \<Phi> s A s'"
proof -
  from out obtain f' where "bal s A s' {#}" "fits_stack s'" "vm_halt_result s' = vm_halt_result s"
    "vm_frames s' = f' # fs" and same: "same_owner f f'" and "frame_floor f \<le> vm_stack_count s'"
    "vm_error s' = [] \<Longrightarrow> P (fr_pc f') (vm_stack_count s')"
    using fits by (auto simp: outcome_def)
  moreover have "frame_ok \<Phi> f'" using ok(1) frame_ok_same [OF same] by simp
  ultimately show ?thesis using P ok(2) same
    by (auto simp: rests_def floor_ok_def conforms_def same_owner_def)
qed

section \<open>Exceptions\<close>

lemma find_catch_in: "find_catch p e pc entries s = Some (Some entry) \<Longrightarrow> entry \<in> set entries"
  by (induction entries) (auto split: if_splits bind_splits)

lemma quiet_uncaught:
  assumes "uncaught_exception e s = Some s'"
  shows "quiet s {#e#} s' {#}" "vm_error s' \<noteq> []"
proof -
  have "\<exists>line m. m \<noteq> [] \<and> s' = log_rc [Release e] (pphp_runtime_error line m s)"
    using assms by (auto simp: uncaught_exception_def bind_eq_Some_conv Let_def uncaught_message_def
        split: pvalue.splits)
  then show "quiet s {#e#} s' {#}" "vm_error s' \<noteq> []"
    by (auto intro: quiet_trans [OF quiet_runtime_error quiet_release] simp: error_is_set)
qed

lemma enter_handler_settled:
  assumes f: "vm_frames s = f # fs" and fits: "fits_stack s"
    and ok: "frame_ok \<Phi> f" "callers_ok \<Phi> fs (fr_base f)" and room: "frame_floor f \<le> vm_stack_count s"
    and entry: "entry \<in> set (catches (fr_proto f))"
    and ret: "enter_handler ops f entry e s = Some (b, s')"
  shows "rests \<Phi> s {#e#} s'"
proof -
  let ?cut = "(release_range (frame_floor f) (vm_stack_count s) s)\<lparr>vm_stack_count := frame_floor f\<rparr>"
  have "vm_stack_count s \<le> length (vm_stack s)" using fits by (simp add: fits_stack_def)
  note cut = cut_simps [OF room this refl]
  have b: "bal s {#e#} ?cut {#e#}" using bal_frame [OF cut(1), of "{#e#}"] by simp
  have cut_fits: "fits_stack ?cut" using fits cut(3,5) room by (simp add: fits_stack_def)
  have fc: "vm_frames ?cut = f # fs" "frame_floor f \<le> vm_stack_count ?cut" using cut f by auto
  define P where "P = (\<lambda>(pc::nat) n. n = frame_floor f)"
  have depth: "\<Phi> (fr_proto f) (unat (handler_pc entry)) = Some 0"
    using ok(1) entry by (auto simp: frame_ok_def well_stacked_def)
  have handler: "rests \<Phi> ?cut {#e#} s'"
    if out: "outcome f fs ?cut {#e#} s1 P" and pc: "set_pc (unat (handler_pc entry)) s1 = Some s'" for s1
  proof -
    from out obtain f1 where o: "bal ?cut {#e#} s1 {#}" "fits_stack s1" "vm_halt_result s1 = vm_halt_result ?cut"
      "vm_frames s1 = f1 # fs" "same_owner f f1" "frame_floor f \<le> vm_stack_count s1"
      "vm_error s1 = [] \<Longrightarrow> vm_stack_count s1 = frame_floor f"
      using cut_fits by (auto simp: outcome_def P_def)
    have s': "s' = at_pc f1 (unat (handler_pc entry)) s1" using pc o(4) by (simp add: set_pc_def top_frame_def)
    have "outcome f1 fs s1 {#} s' (\<lambda>pc n. pc = unat (handler_pc entry) \<and> n = frame_floor f)"
      unfolding s'
      by (rule outcomeI [OF set_top_simps(1) [OF o(4)] _ _ set_top_simps(2) [OF o(4)]])
        (use o in \<open>auto simp: fits_stack_def same_owner_def\<close>)
    then have "rests \<Phi> s1 {#} s'"
      by (rule outcome_settled [OF _ o(2)])
        (use ok o(5) depth frame_ok_same [OF o(5), of \<Phi>] in \<open>auto simp: same_owner_def\<close>)
    then show ?thesis by (rule settled_after [OF o(1,3)])
  qed
  have "rests \<Phi> ?cut {#e#} s'"
  proof (cases "unat (variable_slot entry) \<noteq> UINT8_MAX \<and> unat (variable_slot entry) < n_locals (fr_proto f)")
    case True
    with ret obtain s1 where
      1: "store_local_value ops (variable_slot entry) (Cell e) ?cut = Some s1"
      and 2: "set_pc (unat (handler_pc entry)) s1 = Some s'"
      by (auto simp: enter_handler_def Let_def bind_eq_Some_conv)
    have "outcome f fs ?cut {#cell_value (Cell e)#} s1 P"
      by (rule store_local_outcome [OF 1 fc(1) _ fc(2)]) (use True cut(3) in \<open>auto simp: P_def\<close>)
    then show ?thesis using handler [OF _ 2] by simp
  next
    case False
    let ?t = "log_rc [Release e] ?cut"
    show ?thesis
    proof (cases "unat (class_constant entry) = UINT16_MAX")
      case True
      with ret False have s': "s' = pphp_runtime_error (fr_line f) ''finally handler has no pending exception slot'' ?t"
        by (auto simp: enter_handler_def Let_def)
      have "quiet ?cut {#e#} s' {#}" unfolding s' by (rule quiet_trans [OF quiet_release quiet_runtime_error])
      then show ?thesis
        by (rule settled_quiet [OF _ cut_fits]) (use fc ok in \<open>auto simp: floor_ok_def s' error_is_set\<close>)
    next
      case no_finally: False
      with ret False have 2: "set_pc (unat (handler_pc entry)) ?t = Some s'"
        by (auto simp: enter_handler_def Let_def bind_eq_Some_conv)
      have "outcome f fs ?cut {#e#} ?t P"
        by (rule outcome_quiet [OF quiet_release fc]) (use cut in \<open>simp add: P_def\<close>)
      then show ?thesis using handler [OF _ 2] by simp
    qed
  qed
  then show ?thesis by (rule settled_after [OF b cut(6)])
qed

lemma unwind_settled:
  assumes "unwind ops e pc fs s = Some (b, s')" "vm_frames s = fs" "fits_stack s" "floor_ok \<Phi> s"
  shows "rests \<Phi> s {#e#} s'"
  using assms
proof (induction fs arbitrary: pc s)
  case Nil
  then have u: "uncaught_exception e s = Some s'" by (auto simp: bind_eq_Some_conv)
  show ?case
    by (rule settled_quiet [OF quiet_uncaught(1) [OF u]]) (use Nil quiet_uncaught(2) [OF u] in auto)
next
  case (Cons f fs)
  from Cons.prems have l: "frame_ok \<Phi> f" "callers_ok \<Phi> fs (fr_base f)" "frame_floor f \<le> vm_stack_count s"
    by (auto simp: floor_ok_def)
  from Cons.prems(1) obtain found where c: "find_catch (fr_proto f) e pc (catches (fr_proto f)) s = Some found"
    by (auto simp: bind_eq_Some_conv)
  show ?case
  proof (cases found)
    case (Some entry)
    then have "enter_handler ops f entry e s = Some (b, s')" "entry \<in> set (catches (fr_proto f))"
      using Cons.prems(1) c by (auto dest: find_catch_in)
    then show ?thesis by (intro enter_handler_settled [OF Cons.prems(2,3) l])
  next
    case None
    with Cons.prems(1) c obtain s1 where
      p: "pop_frame ops f ((release_range (fr_base f) (vm_stack_count s) s)\<lparr>vm_stack_count := fr_base f\<rparr>) = Some s1"
      and u: "unwind ops e (caller_pc fs pc) fs s1 = Some (b, s')"
      by (auto simp: bind_eq_Some_conv Let_def)
    have "fr_base f \<le> vm_stack_count s" using l by simp
    note d = drop_frame [OF l(1) Cons.prems(2,3) this p]
    have "rests \<Phi> s1 {#e#} s'"
      by (rule Cons.IH [OF u d(2,5) callers_locals [OF l(2) d(2,3)]])
    moreover have "bal s {#e#} s1 {#e#}" using bal_frame [OF d(1), of "{#e#}"] by simp
    ultimately show ?thesis using settled_after d(6) by blast
  qed
qed

lemma throw_settled:
  assumes ret: "throw_exception ops e pc s = Some (b, s')" and fits: "fits_stack s" and l: "floor_ok \<Phi> s"
  shows "rests \<Phi> s {#e#} s'"
proof -
  from ret obtain s1 where
    1: "(case e of PObject a \<Rightarrow> pphp_exception_capture_trace ops (Some a) s | _ \<Rightarrow> Some s) = Some s1"
    and 2: "unwind ops e pc (vm_frames s1) s1 = Some (b, s')"
    by (auto simp: throw_exception_def bind_eq_Some_conv)
  have "quiet s {#} s1 {#}" using 1 by (auto split: pvalue.splits intro: quiet_capture_trace)
  from quiet_frame [OF this, of "{#e#}"] have q: "quiet s {#e#} s1 {#e#}" by simp
  have "rests \<Phi> s1 {#e#} s'"
    by (rule unwind_settled [OF 2 refl]) (use quiet_fields [OF q] fits l floor_ok_quiet [OF q] in auto)
  then show ?thesis by (rule settled_after_quiet [OF q])
qed

lemma convert_settled:
  assumes ret: "convert_runtime_error ops invoke pc s = Some s'" and inv: "invoke_ok invoke"
    and fits: "fits_stack s" and l: "floor_ok \<Phi> s" and e: "vm_error s \<noteq> []"
  shows "rests \<Phi> s {#} s'"
proof (cases "vm_frames s")
  case Nil
  then show ?thesis using ret e fits l by (auto simp: convert_runtime_error_def intro: settled_quiet)
next
  case (Cons f fs)
  define s1 where "s1 = (if vm_error_line s = 0 then s\<lparr>vm_error_line := fr_line f\<rparr> else s)"
  define s2 where "s2 = s1\<lparr>vm_error := [], vm_raised_class := []\<rparr>"
  define message where "message = fits 256 (vm_error s)"
  from ret Cons e obtain exc s3 where
    1: "(case (error_class (vm_raised_class s1) message = ''OutOfMemoryError'', vm_oom_exception s2) of
         (True, Some a) \<Rightarrow> Some (Some a, log_rc [Retain (PObject a)] s2)
       | _ \<Rightarrow> pphp_exception_new ops invoke (error_class (vm_raised_class s1) message) (Some message) s2) = Some (exc, s3)"
    and 2: "(case exc of
         None \<Rightarrow> Some (s3\<lparr>vm_error := fits 256 message\<rparr>)
       | Some a \<Rightarrow> do { (_, s) \<leftarrow> throw_exception ops (PObject a) pc s3; Some s }) = Some s'"
    unfolding s2_def
    by (auto simp: convert_runtime_error_def Let_def bind_eq_Some_conv s1_def [symmetric] message_def [symmetric]
        cong: bool.case_cong option.case_cong)
  have "quiet s {#} s1 {#}" unfolding s1_def by simp
  then have q2: "quiet s {#} s2 {#}" unfolding s2_def by (rule quiet_trans) simp
  from 1 have "(\<exists>a. exc = Some a \<and> s3 = log_rc [Retain (PObject a)] s2) \<or>
      (\<exists>c. pphp_exception_new ops invoke c (Some message) s2 = Some (exc, s3))"
    by (cases "error_class (vm_raised_class s1) message = ''OutOfMemoryError''"; cases "vm_oom_exception s2"; simp; blast)
  then have "quiet s2 {#} s3 (oref PObject exc)"
  proof
    assume "\<exists>a. exc = Some a \<and> s3 = log_rc [Retain (PObject a)] s2"
    then show ?thesis by (auto intro: quiet_log_rc)
  next
    assume "\<exists>c. pphp_exception_new ops invoke c (Some message) s2 = Some (exc, s3)"
    then show ?thesis using quiet_exception_new [OF _ inv] by blast
  qed
  with q2 have q: "quiet s {#} s3 (oref PObject exc)" by (rule quiet_trans)
  note qf = quiet_fields [OF q]
  have l3: "fits_stack s3" "floor_ok \<Phi> s3" using qf fits l floor_ok_quiet [OF q] by auto
  show ?thesis
  proof (cases exc)
    case None
    then have s': "s' = s3\<lparr>vm_error := fits 256 message\<rparr>" using 2 by simp
    have "vm_error s' \<noteq> []" using e unfolding s' message_def by (simp add: fits_def)
    moreover have "quiet s {#} s' {#}" using q None unfolding s' by (auto intro: quiet_trans)
    ultimately show ?thesis using fits l by (intro settled_quiet) auto
  next
    case (Some a)
    then obtain b where "throw_exception ops (PObject a) pc s3 = Some (b, s')"
      using 2 by (auto simp: bind_eq_Some_conv)
    from throw_settled [OF this l3] show ?thesis using settled_after_quiet [OF q] Some by simp
  qed
qed

section \<open>Instructions\<close>

lemma opcode_switch:
  "plain_instruction ops host OP_NOP s = Some s"
  "plain_instruction ops host OP_HALT s = op_halt ops s"
  "plain_instruction ops host OP_POP s = Some (op_pop s)"
  "plain_instruction ops host OP_DUP s = op_dup s"
  "plain_instruction ops host OP_SWAP s = op_swap s"
  "plain_instruction ops host OP_LOAD_NULL s = Some (push_value PNull s)"
  "plain_instruction ops host OP_LOAD_TRUE s = Some (push_value (pv_bool True) s)"
  "plain_instruction ops host OP_LOAD_FALSE s = Some (push_value (pv_bool False) s)"
  "plain_instruction ops host OP_LOAD_I8 s = do { (b, s) \<leftarrow> read_u8 s; Some (push_value (PInt (scast b)) s) }"
  "plain_instruction ops host OP_LOAD_I32 s = do { (i, s) \<leftarrow> read_i32 s; Some (push_value (PInt i) s) }"
  "plain_instruction ops host OP_LOAD_CONST s = op_load_const s"
  "plain_instruction ops host OP_LOAD_LOCAL s = op_load_local ops False s"
  "plain_instruction ops host OP_LOAD_LOCAL_QUIET s = op_load_local ops True s"
  "plain_instruction ops host OP_STORE_LOCAL s = op_store_local ops s"
  "plain_instruction ops host OP_UNSET_LOCAL s = op_unset_local ops s"
  "plain_instruction ops host OP_LOAD_ARGC s =
     do { f \<leftarrow> top_frame s; Some (push_value (PInt (ucast (fr_argument_count f))) s) }"
  "plain_instruction ops host OP_BIND_GLOBAL s = op_bind_global s"
  "plain_instruction ops host OP_LOAD_NAMED_CONST s = op_load_named_const ops s"
  "plain_instruction ops host OP_NOT s = op_not s"
  "plain_instruction ops host OP_NEW_ARRAY s = op_new_array ops s"
  "plain_instruction ops host OP_ARR_PUSH s = op_arr_store ops True s"
  "plain_instruction ops host OP_ARR_SET s = op_arr_store ops False s"
  "plain_instruction ops host OP_ARR_EXTEND s = op_arr_extend ops s"
  "plain_instruction ops host OP_FE_INIT s = op_fe_init ops s"
  "plain_instruction ops host OP_FE_FREE s = op_fe_free s"
  "plain_instruction ops host OP_INSTANCEOF s = op_instanceof s"
  "plain_instruction ops host OP_INSTANCEOF_DYNAMIC s = op_instanceof_dynamic s"
  "plain_instruction ops host OP_LINE s = op_line s"
  by (simp_all add: plain_instruction_def opcode_defs)

lemma branch_switch:
  "plain_instruction ops host OP_STATIC_INIT s = op_static_init ops s"
  "plain_instruction ops host OP_JMP s = op_jump s"
  "plain_instruction ops host OP_JMP_IF s = op_jump_if True s"
  "plain_instruction ops host OP_JMP_UNLESS s = op_jump_if False s"
  "plain_instruction ops host OP_JMP_IF_KEEP s = op_jump_keep truthy s"
  "plain_instruction ops host OP_JMP_UNLESS_KEEP s = op_jump_keep (\<lambda>v s. map_option Not (truthy v s)) s"
  "plain_instruction ops host OP_JMP_NOTNULL_KEEP s = op_jump_keep (\<lambda>v s. Some (v \<noteq> PNull)) s"
  "plain_instruction ops host OP_JMP_IFNULL_KEEP s = op_jump_ifnull_keep s"
  "plain_instruction ops host OP_CALL s = op_call ops host s"
  "plain_instruction ops host OP_FE_NEXT s = op_fe_next s"
  "plain_instruction ops host OP_CLOSURE s = op_closure ops s"
  "plain_instruction ops host OP_RET s = (case pop s of (c, s) \<Rightarrow> return_from_function ops c s)"
  "plain_instruction ops host OP_RET_NULL s = return_from_function ops (Cell PNull) s"
  by (simp_all add: plain_instruction_def opcode_defs)

lemma load_argc_outcome:
  assumes "ready f fs s 0 0"
    "do { f \<leftarrow> top_frame s; Some (push_value (PInt (ucast (fr_argument_count f))) s) } = Some s'"
  shows "outcome f fs s {#} s' (next_at f s 0 0 1)"
  using assms load_plain_outcome [OF assms(1)] by (auto simp: ready_def top_frame_def)

lemma nop_outcome: "ready f fs s 0 0 \<Longrightarrow> outcome f fs s {#} s (next_at f s 0 0 0)"
  by (rule outcome_quiet) (auto simp: ready_def next_at_def)

lemma straight_outcome:
  assumes st: "straight opcode = Some (n, needs, results)" and r: "ready f fs s (n - 1) needs"
    and ret: "plain_instruction ops host opcode s = Some s'"
  shows "outcome f fs s {#} s' (next_at f s (n - 1) needs results)"
proof -
  consider "opcode = OP_NOP" "(n, needs, results) = (1, 0, 0)"
    | "opcode \<in> {OP_POP, OP_FE_FREE}" "(n, needs, results) = (1, 1, 0)"
    | "opcode = OP_DUP" "(n, needs, results) = (1, 1, 2)"
    | "opcode = OP_SWAP" "(n, needs, results) = (1, 2, 2)"
    | "opcode \<in> {OP_LOAD_NULL, OP_LOAD_TRUE, OP_LOAD_FALSE, OP_LOAD_ARGC}" "(n, needs, results) = (1, 0, 1)"
    | "opcode \<in> {OP_LOAD_I8, OP_LOAD_LOCAL, OP_LOAD_LOCAL_QUIET}" "(n, needs, results) = (2, 0, 1)"
    | "opcode = OP_LOAD_I32" "(n, needs, results) = (5, 0, 1)"
    | "opcode \<in> {OP_LOAD_CONST, OP_LOAD_NAMED_CONST, OP_NEW_ARRAY}" "(n, needs, results) = (3, 0, 1)"
    | "opcode = OP_STORE_LOCAL" "(n, needs, results) = (2, 1, 0)"
    | "opcode \<in> {OP_UNSET_LOCAL, OP_BIND_GLOBAL}" "(n, needs, results) = (2, 0, 0)"
    | "opcode \<in> {OP_NOT, OP_FE_INIT}" "(n, needs, results) = (1, 1, 1)"
    | "opcode \<in> {OP_ARR_PUSH, OP_ARR_EXTEND, OP_INSTANCEOF_DYNAMIC}" "(n, needs, results) = (1, 2, 1)"
    | "opcode = OP_ARR_SET" "(n, needs, results) = (1, 3, 1)"
    | "opcode = OP_LINE" "(n, needs, results) = (3, 0, 0)"
    | "opcode = OP_INSTANCEOF" "(n, needs, results) = (3, 1, 1)"
    using st unfolding straight_def by (auto split: if_split_asm)
  then show ?thesis
  proof cases
    case 1
    then show ?thesis using ret r by (auto simp: opcode_switch intro: nop_outcome)
  next
    case 2
    then show ?thesis using ret r op_pop_outcome op_fe_free_outcome by (auto simp: opcode_switch)
  next
    case 3
    then show ?thesis using ret r op_dup_outcome by (auto simp: opcode_switch)
  next
    case 4
    then show ?thesis using ret r op_swap_outcome by (auto simp: opcode_switch)
  next
    case 5
    then have "needs = 0" "n = 1" "results = 1" "ready f fs s 0 0" using r by auto
    moreover from this have "outcome f fs s {#} (push_value v s) (next_at f s 0 0 1)" if "\<not> has_header v" for v
      using load_plain_outcome that by blast
    ultimately show ?thesis using ret 5(1) load_argc_outcome [of f fs s s']
      by (auto simp: opcode_switch pv_bool_def)
  next
    case 6
    then show ?thesis using ret r load_i8_outcome op_load_local_outcome by (auto simp: opcode_switch)
  next
    case 7
    then show ?thesis using ret r load_i32_outcome by (auto simp: opcode_switch)
  next
    case 8
    then show ?thesis using ret r op_load_const_outcome op_load_named_const_outcome op_new_array_outcome
      by (auto simp: opcode_switch)
  next
    case 9
    then show ?thesis using ret r op_store_local_outcome by (auto simp: opcode_switch)
  next
    case 10
    then show ?thesis using ret r op_unset_local_outcome op_bind_global_outcome by (auto simp: opcode_switch)
  next
    case 11
    then show ?thesis using ret r op_not_outcome op_fe_init_outcome by (auto simp: opcode_switch)
  next
    case 12
    then show ?thesis using ret r op_arr_store_outcome [where appending = True] op_arr_extend_outcome
        op_instanceof_dynamic_outcome by (auto simp: opcode_switch)
  next
    case 13
    then show ?thesis using ret r op_arr_store_outcome [where appending = False] by (auto simp: opcode_switch)
  next
    case 14
    then show ?thesis using ret r op_line_outcome by (auto simp: opcode_switch)
  next
    case 15
    then show ?thesis using ret r op_instanceof_outcome by (auto simp: opcode_switch)
  qed
qed

end
