(* ===== verification/VmRun.thy ===== *)
theory VmRun
  imports VmSound
begin

text \<open>
  Turns of the loop and whole runs.
\<close>

unbundle bit_operations_syntax

declare add_2_eq_Suc [simp del] add_2_eq_Suc' [simp del]

section \<open>Good states\<close>

definition good :: "(pproto \<Rightarrow> depths) \<Rightarrow> 'h pphp_state \<Rightarrow> bool" where
  "good \<Phi> s \<longleftrightarrow>
     mem_ok s \<and> fits_stack s \<and> functions_ok \<Phi> s \<and> floor_ok \<Phi> s \<and>
     (vm_error s = [] \<longrightarrow> conforms \<Phi> s) \<and>
     (vm_frames s \<noteq> [] \<longrightarrow> \<not> (\<exists>v. vm_halt_result s = Some v \<and> has_header v))"

lemma settled_good:
  assumes "rests \<Phi> s {#} s'" "good \<Phi> s" "vm_frames s \<noteq> []"
  shows "good \<Phi> s'" "balance s {#} s' {#}"
  using assms functions_ok_cong [of s s' \<Phi>] by (auto simp: rests_def good_def bal_def)

section \<open>Instructions that leave the straight line\<close>

text \<open>A state in front of an instruction, its opcode byte read.\<close>

definition at_instruction :: "(pproto \<Rightarrow> depths) \<Rightarrow> pframe \<Rightarrow> pframe list \<Rightarrow> nat \<Rightarrow> 'h pphp_state \<Rightarrow> bool" where
  "at_instruction \<Phi> f fs d s \<longleftrightarrow>
     vm_frames s = f # fs \<and> fits_stack s \<and> vm_error s = [] \<and> functions_ok \<Phi> s \<and>
     frame_ok \<Phi> f \<and> callers_ok \<Phi> fs (fr_base f) \<and> vm_stack_count s = frame_floor f + d \<and>
     0 < fr_pc f \<and> instr_ok (fr_proto f) (\<Phi> (fr_proto f)) (fr_pc f - 1) d"

lemma branch_settled:
  assumes out: "outcome f fs s {#} s' (branch_at f rel following taken passed)"
    and fits: "fits_stack s" and ok: "frame_ok \<Phi> f" "callers_ok \<Phi> fs (fr_base f)"
    and jump: "jump_depth (fr_proto f) (\<Phi> (fr_proto f)) following rel a" "taken = frame_floor f + a"
    and pass: "\<Phi> (fr_proto f) following = Some b" "passed = frame_floor f + b"
  shows "rests \<Phi> s {#} s'"
  by (rule outcome_settled [OF out fits ok])
    (use jump pass in \<open>auto simp: branch_at_def jump_depth_def jump_at_def Let_def\<close>)

lemma halt_settled:
  assumes at: "at_instruction \<Phi> f fs d s" and ret: "op_halt ops s = Some s'"
    and halt: "\<not> (\<exists>v. vm_halt_result s = Some v \<and> has_header v)"
  shows "rests \<Phi> s {#} s'"
proof (cases fs)
  case (Cons g gs)
  then have s': "s' = pphp_runtime_error (fr_line f) ''HALT inside function'' s"
    using ret at by (auto simp: op_halt_def top_frame_def at_instruction_def)
  show ?thesis unfolding s'
    by (rule settled_quiet) (use at in \<open>auto simp: at_instruction_def floor_ok_def error_is_set\<close>)
next
  case Nil
  have at': "vm_frames s = [f]" "fits_stack s" "frame_ok \<Phi> f" "fr_base f = 0"
    using at Nil by (auto simp: at_instruction_def)
  from ret at' obtain s1 where
    1: "(if vm_capture_halt_result s \<and> vm_halt_result s \<noteq> None \<and>
                fr_base f + n_locals (fr_proto f) < vm_stack_count s
             then do {
               c \<leftarrow> rd (vm_stack s) (vm_stack_count s - 1);
               Some (log_rc [Retain (cell_value c)] (s\<lparr>vm_halt_result := Some (cell_value c)\<rparr>))
             }
             else Some s) = Some s1"
    and 2: "release_all_frames ops ((release_range 0 (vm_stack_count s1) s1)\<lparr>vm_stack_count := 0\<rparr>) = Some s'"
    by (auto simp: op_halt_def top_frame_def bind_eq_Some_conv)
  have b1: "bal s {#} s1 {#} \<and> vm_frames s1 = vm_frames s \<and> vm_stack_count s1 = vm_stack_count s \<and> vm_error s1 = vm_error s"
  proof (cases "vm_capture_halt_result s \<and> vm_halt_result s \<noteq> None \<and> fr_base f + n_locals (fr_proto f) < vm_stack_count s")
    case True
    with 1 obtain c where s1: "s1 = log_rc [Retain (cell_value c)] (s\<lparr>vm_halt_result := Some (cell_value c)\<rparr>)"
      by (auto simp: bind_eq_Some_conv)
    have none: "cnt (case vm_halt_result s of None \<Rightarrow> {#} | Some v \<Rightarrow> {#v#}) = {#}"
      using halt by (auto split: option.split)
    have "balance s {#} s1 {#}"
      unfolding s1 balance_def held_def table_refs_def pending_refs_def acquired_def given_up_def
      using none by (simp add: stack_refs_def ac_simps)
    moreover have "same_tables s s1" "mem_ok s \<Longrightarrow> mem_ok s1" by (simp_all add: s1 same_tables_def mem_ok_def)
    ultimately show ?thesis by (simp add: bal_def s1)
  next
    case False
    then have "s1 = s" using 1 by (auto split: if_splits)
    then show ?thesis by simp
  qed
  then have fits: "fits_stack s1" using at'(2) by (auto simp: bal_def same_tables_def fits_stack_def)
  have fr: "vm_frames s1 = f # []" using b1 at' by simp
  have "pop_frame ops f ((release_range (fr_base f) (vm_stack_count s1) s1)\<lparr>vm_stack_count := fr_base f\<rparr>) = Some s'"
    using 2 fr at'(4) by (simp add: release_all_frames_def release_range_def bind_eq_Some_conv)
  from drop_frame [OF at'(3) fr fits _ this] have d: "bal s1 {#} s' {#}" "vm_frames s' = []" "vm_stack_count s' = 0"
    "vm_error s' = vm_error s1" "fits_stack s'" using at'(4) by auto
  then show ?thesis using bal_trans [OF _ d(1)] b1 by (auto simp: rests_def floor_ok_def conforms_def)
qed

lemma call_settled:
  assumes at: "at_instruction \<Phi> f fs d s" and host: "host_ok host"
    and call: "pp_code (fr_proto f) ! (fr_pc f - 1) = OP_CALL" and ret: "op_call ops host s = Some s'"
  shows "rests \<Phi> s {#} s'"
proof -
  define argc where "argc = pp_code (fr_proto f) ! (fr_pc f + 2)"
  obtain pc where pc: "fr_pc f = Suc pc" using at by (cases "fr_pc f") (auto simp: at_instruction_def)
  have argc: "pp_code (fr_proto f) ! (pc + 3) = argc" using pc by (simp add: argc_def add.commute)
  have ok: "pc + 4 \<le> code_length (fr_proto f)" "unat argc \<le> d"
    "\<Phi> (fr_proto f) (pc + 4) = Some (d - unat argc + 1)"
    using at call pc unfolding at_instruction_def instr_ok_def straight_def
    by (auto simp: opcode_defs argc)
  let ?f = "f\<lparr>fr_pc := fr_pc f + 3\<rparr>" and ?s = "at_pc f (fr_pc f + 3) s"
  have r: "ready f fs s 3 d" using at ok(1) pc by (simp add: at_instruction_def ready_def)
  have r2: "ready (f\<lparr>fr_pc := fr_pc f + 2\<rparr>) fs (at_pc f (fr_pc f + 2) s) 1 d"
    using ready_at [OF r, of 2] by simp
  have "fr_pc f + 2 + 1 = fr_pc f + 3" by simp
  then have r8: "read_u8 (at_pc f (fr_pc f + 2) s) = Some (argc, ?s)"
    using read_u8_ready [OF r2] by (simp add: argc_def add.commute)
  have c: "call_function ops host (code_u16 (fr_proto f) (fr_pc f)) argc ?s = Some s'"
    using ret read_u16_ready [OF r] r8 by (simp add: op_call_def)
  have fr: "vm_frames s = f # fs" and same: "same_owner f ?f" using at by (auto simp: at_instruction_def same_owner_def)
  have st: "vm_frames ?s = ?f # fs" "fits_stack ?s" "functions_ok \<Phi> ?s" "vm_stack_count ?s = frame_floor ?f + d"
    using at functions_ok_cong [of s ?s \<Phi>] set_top_simps(1) [OF fr same, of "{#}"]
    by (auto simp: at_instruction_def bal_def fits_stack_def)
  have room: "frame_floor ?f + unat argc \<le> vm_stack_count ?s" using st(4) ok(2) by simp
  note o = call_outcome [OF st(1-3) host room c]
  have fok: "frame_ok \<Phi> ?f" "callers_ok \<Phi> fs (fr_base ?f)"
    using at frame_ok_same [OF same] by (auto simp: at_instruction_def)
  have next_pc: "\<Phi> (fr_proto ?f) (fr_pc ?f) = Some (d - unat argc + 1)" using ok(3) pc
    by (simp add: add.commute)
  have "rests \<Phi> ?s {#} s'"
    using o
  proof (elim conjE disjE)
    assume "vm_frames s' = ?f # fs" "frame_floor ?f \<le> vm_stack_count s'"
      "vm_error s' = [] \<longrightarrow> vm_stack_count s' = vm_stack_count ?s - unat argc + 1"
    then show ?thesis using o fok next_pc st(4) ok(2)
      by (auto simp: rests_def floor_ok_def conforms_def)
  next
    assume "\<exists>callee module. well_stacked callee (\<Phi> callee) \<and>
       vm_frames s' = new_frame callee module (vm_stack_count ?s - unat argc) argc # ?f # fs \<and>
       vm_stack_count s' = vm_stack_count ?s - unat argc + n_locals callee"
    then obtain callee module where ws: "well_stacked callee (\<Phi> callee)"
      and fr': "vm_frames s' = new_frame callee module (vm_stack_count ?s - unat argc) argc # ?f # fs"
      and n: "vm_stack_count s' = vm_stack_count ?s - unat argc + n_locals callee" by blast
    have "vm_stack_count ?s - unat argc = frame_floor ?f + (d - unat argc)" using st(4) ok(2) by simp
    moreover have "\<Phi> (fr_proto ?f) (fr_pc ?f) = Some (Suc (d - unat argc))" using next_pc by simp
    ultimately have "callers_ok \<Phi> (?f # fs) (vm_stack_count ?s - unat argc)"
      using fok by auto
    moreover have "frame_ok \<Phi> (new_frame callee module b argc)" for b
      using ws by (simp add: frame_ok_def new_frame_def)
    moreover have "\<Phi> callee 0 = Some 0" using ws by (simp add: well_stacked_def)
    ultimately show ?thesis using o fr' n
      by (auto simp: rests_def floor_ok_def conforms_def new_frame_def)
  qed
  from settled_after [OF set_top_simps(1) [OF fr same] _ this] show ?thesis by simp
qed

text \<open>An operand taken before the rest of the instruction.\<close>

lemma settled_pop:
  assumes "pop s = (c, s1)" "0 < vm_stack_count s" "fits_stack s" "rests \<Phi> s1 {#cell_value c#} s'"
  shows "rests \<Phi> s {#} s'"
proof -
  have "vm_stack_count s \<le> length (vm_stack s)" using assms(3) by (simp add: fits_stack_def)
  note p = pop_simps [OF assms(2) this assms(1)]
  show ?thesis by (rule settled_after [OF p(1) p(6) assms(4)])
qed

lemma popped:
  assumes at: "at_instruction \<Phi> f fs d s" and d: "1 \<le> d" and p: "pop s = (c, s1)"
  shows "0 < vm_stack_count s" "fits_stack s" "vm_frames s1 = f # fs" "fits_stack s1"
    "frame_floor f \<le> vm_stack_count s1" "floor_ok \<Phi> s1"
proof -
  show pos: "0 < vm_stack_count s" "fits_stack s" using at d by (auto simp: at_instruction_def)
  then have "vm_stack_count s \<le> length (vm_stack s)" by (simp add: fits_stack_def)
  note ps = pop_simps [OF pos(1) this p]
  show "vm_frames s1 = f # fs" "frame_floor f \<le> vm_stack_count s1" using ps at d by (auto simp: at_instruction_def)
  then show "floor_ok \<Phi> s1" using at by (simp add: floor_ok_def at_instruction_def)
  show "fits_stack s1" using ps pos by (auto simp: fits_stack_def)
qed

lemma ret_settled:
  assumes at: "at_instruction \<Phi> f fs d s" and d: "1 \<le> d"
    and ret: "(case pop s of (c, s) \<Rightarrow> return_from_function ops c s) = Some s'"
  shows "rests \<Phi> s {#} s'"
proof -
  obtain c s1 where p: "pop s = (c, s1)" by force
  note ps = popped [OF at d p]
  have ok: "frame_ok \<Phi> f" "callers_ok \<Phi> fs (fr_base f)" using at by (auto simp: at_instruction_def)
  have "return_from_function ops c s1 = Some s'" using ret p by simp
  note ro = return_outcome [OF ok ps(3-5) this]
  have "rests \<Phi> s1 {#cell_value c#} s'" using ro by (simp add: rests_def)
  then show ?thesis by (rule settled_pop [OF p ps(1,2)])
qed

lemma ret_null_settled:
  assumes at: "at_instruction \<Phi> f fs d s" and ret: "return_from_function ops (Cell PNull) s = Some s'"
  shows "rests \<Phi> s {#} s'"
proof -
  have ok: "frame_ok \<Phi> f" "callers_ok \<Phi> fs (fr_base f)" "vm_frames s = f # fs" "fits_stack s"
    "frame_floor f \<le> vm_stack_count s" using at by (auto simp: at_instruction_def)
  note ro = return_outcome [OF ok ret]
  have "bal s {#} s' {#}" using ro(1) by (simp add: bal_def balance_def)
  then show ?thesis using ro by (simp add: rests_def)
qed

lemma op_throw_settled:
  assumes at: "at_instruction \<Phi> f fs d s" and d: "1 \<le> d" and ret: "op_throw ops pc s = Some (done', s')"
  shows "rests \<Phi> s {#} s' \<and> (\<not> done' \<longrightarrow> vm_frames s' \<noteq> [])"
proof -
  obtain c s1 where p: "pop s = (c, s1)" by force
  note ps = popped [OF at d p]
  from ret p obtain t where "(case cell_value c of
            PObject a \<Rightarrow> pphp_object_is_throwable (Some a) s1
          | _ \<Rightarrow> Some False) = Some t"
    and r: "(if \<not> t then do {
          s \<leftarrow> frame_error ''Can only throw objects implementing Throwable'' (release_cell c s1);
          Some (False, s)
        }
        else do { (_, s) \<leftarrow> throw_exception ops (cell_value c) pc s1; Some (True, s) }) = Some (done', s')"
    unfolding op_throw_def by (auto simp: bind_eq_Some_conv)
  have "rests \<Phi> s1 {#cell_value c#} s' \<and> (\<not> done' \<longrightarrow> vm_frames s' \<noteq> [])"
  proof (cases t)
    case True
    with r obtain b where th: "throw_exception ops (cell_value c) pc s1 = Some (b, s')" and "done'"
      by (auto simp: bind_eq_Some_conv)
    with throw_settled [OF th ps(4,6)] show ?thesis by simp
  next
    case False
    with r have e: "frame_error ''Can only throw objects implementing Throwable'' (release_cell c s1) = Some s'"
      by (auto simp: bind_eq_Some_conv)
    have q: "quiet s1 {#cell_value c#} s' {#}"
      by (rule quiet_trans [OF quiet_release_cell quiet_frame_error [OF e]])
    have "vm_error s' \<noteq> []" by (rule frame_error_sets [OF e]) simp
    then show ?thesis using settled_quiet [OF q ps(4,6)] quiet_fields(1) [OF q] ps(3) by simp
  qed
  then show ?thesis using settled_pop [OF p ps(1,2)] by blast
qed

section \<open>One turn of the loop\<close>

lemma instruction_settled:
  assumes at: "at_instruction \<Phi> f fs d s" and host: "host_ok host"
    and halt: "\<not> (\<exists>v. vm_halt_result s = Some v \<and> has_header v)"
    and opcode: "pp_code (fr_proto f) ! (fr_pc f - 1) = opcode" "opcode \<noteq> OP_THROW"
    and ret: "plain_instruction ops host opcode s = Some s'"
  shows "rests \<Phi> s {#} s'"
proof -
  let ?p = "fr_proto f"
  obtain pc where pc: "fr_pc f = Suc pc" using at by (cases "fr_pc f") (auto simp: at_instruction_def)
  have fits: "fits_stack s" and ok: "frame_ok \<Phi> f" "callers_ok \<Phi> fs (fr_base f)"
    and n: "vm_stack_count s = frame_floor f + d" and io: "instr_ok ?p (\<Phi> ?p) pc d"
    and op: "pp_code ?p ! pc = opcode"
    using at pc opcode by (auto simp: at_instruction_def)
  have ready: "ready f fs s k m" if "pc + Suc k \<le> code_length ?p" "m \<le> d" for k m
    using at pc that by (simp add: at_instruction_def ready_def)
  have sums: "fr_pc f + 1 = pc + 2" "fr_pc f + 2 = pc + 3" "fr_pc f + 3 = pc + 4"
    "Suc (fr_pc f) = pc + 2" using pc by simp_all
  show ?thesis
  proof (cases "straight opcode")
    case (Some t)
    obtain k needs results where t: "t = (k, needs, results)" by (cases t)
    with Some io op have i: "pc + k \<le> code_length ?p" "needs \<le> d" "\<Phi> ?p (pc + k) = Some (d - needs + results)"
      by (simp_all add: instr_ok_def Let_def)
    have k: "0 < k" using Some t by (auto simp: straight_def split: if_split_asm)
    then have "pc + Suc (k - 1) \<le> code_length ?p" and pk: "fr_pc f + (k - 1) = pc + k" using i(1) pc by auto
    note r = ready [OF this(1) i(2)]
    have st: "straight opcode = Some (k, needs, results)" using Some t by simp
    show ?thesis
      by (rule outcome_settled [OF straight_outcome [OF st r ret] fits ok]) (use i n pk in \<open>auto simp: next_at_def\<close>)
  next
    case None
    have io: "if opcode = OP_CALL then
               pc + 4 \<le> code_length ?p \<and> unat (pp_code ?p ! (pc + 3)) \<le> d \<and>
               \<Phi> ?p (pc + 4) = Some (d - unat (pp_code ?p ! (pc + 3)) + 1)
             else if opcode = OP_STATIC_INIT then
               pc + 4 \<le> code_length ?p \<and> \<Phi> ?p (pc + 4) = Some d \<and> jump_depth ?p (\<Phi> ?p) (pc + 4) (code_u16 ?p (pc + 2)) d
             else if opcode = OP_JMP then pc + 3 \<le> code_length ?p \<and> jump_depth ?p (\<Phi> ?p) (pc + 3) (code_u16 ?p (pc + 1)) d
             else if opcode \<in> {OP_JMP_IF, OP_JMP_UNLESS} then
               pc + 3 \<le> code_length ?p \<and> 1 \<le> d \<and> \<Phi> ?p (pc + 3) = Some (d - 1) \<and>
               jump_depth ?p (\<Phi> ?p) (pc + 3) (code_u16 ?p (pc + 1)) (d - 1)
             else if opcode \<in> {OP_JMP_IF_KEEP, OP_JMP_UNLESS_KEEP, OP_JMP_NOTNULL_KEEP} then
               pc + 3 \<le> code_length ?p \<and> 1 \<le> d \<and> \<Phi> ?p (pc + 3) = Some (d - 1) \<and>
               jump_depth ?p (\<Phi> ?p) (pc + 3) (code_u16 ?p (pc + 1)) d
             else if opcode = OP_JMP_IFNULL_KEEP then
               pc + 3 \<le> code_length ?p \<and> 1 \<le> d \<and> \<Phi> ?p (pc + 3) = Some d \<and>
               jump_depth ?p (\<Phi> ?p) (pc + 3) (code_u16 ?p (pc + 1)) d
             else if opcode = OP_FE_NEXT then
               pc + 4 \<le> code_length ?p \<and> 1 \<le> d \<and>
               \<Phi> ?p (pc + 4) = Some (d + (if pp_code ?p ! (pc + 3) = 0 then 1 else 2)) \<and>
               jump_depth ?p (\<Phi> ?p) (pc + 4) (code_u16 ?p (pc + 1)) (d - 1)
             else if opcode = OP_CLOSURE then
               pc + (4 + 2 * unat (pp_code ?p ! (pc + 3))) \<le> code_length ?p \<and>
               \<Phi> ?p (pc + (4 + 2 * unat (pp_code ?p ! (pc + 3)))) = Some (d + 1)
             else if opcode \<in> {OP_RET, OP_THROW} then 1 \<le> d
             else opcode \<in> {OP_HALT, OP_RET_NULL}"
      using io None op by (simp add: instr_ok_def Let_def)
    consider "opcode = OP_CALL" | "opcode = OP_STATIC_INIT" | "opcode = OP_JMP"
      | "opcode \<in> {OP_JMP_IF, OP_JMP_UNLESS}"
      | "opcode \<in> {OP_JMP_IF_KEEP, OP_JMP_UNLESS_KEEP, OP_JMP_NOTNULL_KEEP}"
      | "opcode = OP_JMP_IFNULL_KEEP" | "opcode = OP_RET" | "opcode = OP_HALT" | "opcode = OP_RET_NULL"
      | "opcode = OP_FE_NEXT" | "opcode = OP_CLOSURE"
      using io opcode(2) by (auto split: if_split_asm)
    then show ?thesis
    proof cases
      case 1
      then show ?thesis using call_settled [OF at host] opcode(1) ret by (simp add: branch_switch)
    next
      case 2
      with io have j: "pc + 4 \<le> code_length ?p" "\<Phi> ?p (pc + 4) = Some d"
        "jump_depth ?p (\<Phi> ?p) (pc + 4) (code_u16 ?p (pc + 2)) d" by (auto simp: opcode_defs)
      have "op_static_init ops s = Some s'" using ret 2 by (simp add: branch_switch)
      from op_static_init_outcome [OF ready this] j have
        "outcome f fs s {#} s' (branch_at f (code_u16 ?p (pc + 2)) (pc + 4) (vm_stack_count s) (vm_stack_count s))"
        unfolding sums by simp
      then show ?thesis by (rule branch_settled [OF _ fits ok j(3) n j(2) n])
    next
      case 3
      with io have j: "pc + 3 \<le> code_length ?p"
        "jump_depth ?p (\<Phi> ?p) (pc + 3) (code_u16 ?p (pc + 1)) d" by (auto simp: opcode_defs)
      have "op_jump s = Some s'" using ret 3 by (simp add: branch_switch)
      from op_jump_outcome [OF ready this] j have
        "outcome f fs s {#} s' (\<lambda>pc' n. pc' = jump_at f (code_u16 ?p (pc + 1)) (pc + 3) \<and> n = vm_stack_count s)"
        unfolding sums by (simp add: pc)
      then show ?thesis
        by (rule outcome_settled [OF _ fits ok]) (use j(2) n in \<open>auto simp: jump_depth_def jump_at_def Let_def\<close>)
    next
      case 4
      with io have j: "pc + 3 \<le> code_length ?p" "1 \<le> d" "\<Phi> ?p (pc + 3) = Some (d - 1)"
        "jump_depth ?p (\<Phi> ?p) (pc + 3) (code_u16 ?p (pc + 1)) (d - 1)" by (auto simp: opcode_defs split: if_split_asm)
      obtain b where "op_jump_if b s = Some s'" using ret 4 by (auto simp: branch_switch)
      from op_jump_if_outcome [OF ready this] j have
        "outcome f fs s {#} s' (branch_at f (code_u16 ?p (pc + 1)) (pc + 3) (vm_stack_count s - 1) (vm_stack_count s - 1))"
        unfolding sums by (simp add: pc)
      then show ?thesis by (rule branch_settled [OF _ fits ok j(4) _ j(3)]) (use n j(2) in auto)
    next
      case 5
      with io have j: "pc + 3 \<le> code_length ?p" "1 \<le> d" "\<Phi> ?p (pc + 3) = Some (d - 1)"
        "jump_depth ?p (\<Phi> ?p) (pc + 3) (code_u16 ?p (pc + 1)) d" by (auto simp: opcode_defs)
      obtain condition where "op_jump_keep condition s = Some s'" using ret 5 by (auto simp: branch_switch)
      from op_jump_keep_outcome [OF ready this] j have
        "outcome f fs s {#} s' (branch_at f (code_u16 ?p (pc + 1)) (pc + 3) (vm_stack_count s) (vm_stack_count s - 1))"
        unfolding sums by (simp add: pc)
      then show ?thesis by (rule branch_settled [OF _ fits ok j(4) n j(3)]) (use n j(2) in auto)
    next
      case 6
      with io have j: "pc + 3 \<le> code_length ?p" "1 \<le> d" "\<Phi> ?p (pc + 3) = Some d"
        "jump_depth ?p (\<Phi> ?p) (pc + 3) (code_u16 ?p (pc + 1)) d" by (auto simp: opcode_defs)
      have "op_jump_ifnull_keep s = Some s'" using ret 6 by (simp add: branch_switch)
      from op_jump_ifnull_outcome [OF ready this] j have
        "outcome f fs s {#} s' (branch_at f (code_u16 ?p (pc + 1)) (pc + 3) (vm_stack_count s) (vm_stack_count s))"
        unfolding sums by (simp add: pc)
      then show ?thesis by (rule branch_settled [OF _ fits ok j(4) n j(3) n])
    next
      case 7
      with io have "1 \<le> d" by (auto simp: opcode_defs)
      then show ?thesis using ret_settled [OF at] ret 7 by (simp add: branch_switch)
    next
      case 8
      then show ?thesis using halt_settled [OF at _ halt] ret by (simp add: opcode_switch)
    next
      case 9
      then show ?thesis using ret_null_settled [OF at] ret by (simp add: branch_switch)
    next
      case 10
      let ?k = "if pp_code ?p ! (pc + 3) = 0 then 1 else 2 :: nat"
      from 10 io have j: "pc + 4 \<le> code_length ?p" "1 \<le> d" "\<Phi> ?p (pc + 4) = Some (d + ?k)"
        "jump_depth ?p (\<Phi> ?p) (pc + 4) (code_u16 ?p (pc + 1)) (d - 1)" by (auto simp: opcode_defs)
      have "op_fe_next s = Some s'" using ret 10 by (simp add: branch_switch)
      from op_fe_next_outcome [OF ready this] j have
        "outcome f fs s {#} s' (branch_at f (code_u16 ?p (pc + 1)) (pc + 4) (vm_stack_count s - 1) (vm_stack_count s + ?k))"
        unfolding sums by (simp add: pc)
      then show ?thesis by (rule branch_settled [OF _ fits ok j(4) _ j(3)]) (use n j(2) in auto)
    next
      case 11
      let ?n = "unat (pp_code ?p ! (pc + 3))"
      from 11 io have j: "pc + (4 + 2 * ?n) \<le> code_length ?p" "\<Phi> ?p (pc + (4 + 2 * ?n)) = Some (d + 1)"
        by (auto simp: opcode_defs)
      have c: "op_closure ops s = Some s'" using ret 11 by (simp add: branch_switch)
      have at_n: "fr_pc f + 2 = pc + 3" "fr_pc f + (3 + 2 * ?n) = pc + (4 + 2 * ?n)" using pc by simp_all
      have "ready f fs s (3 + 2 * ?n) 0" by (rule ready) (use j(1) in simp_all)
      from op_closure_outcome [of f fs s, unfolded at_n(1), OF this c]
      show ?thesis by (rule outcome_settled [OF _ fits ok]) (use j(2) n at_n(2) in \<open>auto simp: next_at_def\<close>)
    qed
  qed
qed

lemma floor_ok_frames: "floor_ok \<Phi> s \<Longrightarrow> vm_frames s = [] \<Longrightarrow> vm_stack_count s = 0"
  by (simp add: floor_ok_def)

lemma step_settled:
  assumes g: "good \<Phi> s" and run: "vm_running s" and host: "host_ok host" and inv: "invoke_ok invoke"
    and ret: "vm_step ops host invoke s = Some s'"
  shows "rests \<Phi> s {#} s'"
proof -
  from run obtain f fs where f: "vm_frames s = f # fs" and e: "vm_error s = []"
    by (auto simp: vm_running_def neq_Nil_conv)
  from g f e obtain d where ok: "frame_ok \<Phi> f" "callers_ok \<Phi> fs (fr_base f)"
    and d: "\<Phi> (fr_proto f) (fr_pc f) = Some d" "vm_stack_count s = frame_floor f + d"
    by (auto simp: good_def conforms_def)
  from ok d have pc: "fr_pc f < code_length (fr_proto f)"
    and io: "instr_ok (fr_proto f) (\<Phi> (fr_proto f)) (fr_pc f) d"
    by (auto simp: frame_ok_def well_stacked_def)
  let ?f = "f\<lparr>fr_pc := Suc (fr_pc f)\<rparr>" and ?s = "at_pc f (Suc (fr_pc f)) s"
  have same: "same_owner f ?f" by (simp add: same_owner_def)
  have st: "bal s {#} ?s {#}" "vm_frames ?s = ?f # fs" using set_top_simps [OF f same] by auto
  have at: "at_instruction \<Phi> ?f fs d ?s"
    using st ok d io e g functions_ok_cong [of s ?s \<Phi>] frame_ok_same [OF same, of \<Phi>]
    by (auto simp: at_instruction_def good_def bal_def fits_stack_def)
  have halt: "\<not> (\<exists>v. vm_halt_result ?s = Some v \<and> has_header v)" using g f by (simp add: good_def)
  let ?opcode = "pp_code (fr_proto f) ! fr_pc f"
  from ret f read_u8_at [OF f pc] obtain processed s2 where
    sw: "vm_switch ops host ?opcode (fr_pc f) ?s = Some (processed, s2)"
    and conv: "(if vm_error s2 \<noteq> [] \<and> \<not> processed then convert_runtime_error ops invoke (fr_pc f) s2
      else Some s2) = Some s'"
    by (auto simp: vm_step_def top_frame_def bind_eq_Some_conv Let_def)
  have "rests \<Phi> ?s {#} s2"
  proof -
    consider "?opcode = OP_THROW" | "?opcode \<noteq> OP_THROW" "?opcode \<notin> set switch_labels"
      | "?opcode \<noteq> OP_THROW" "?opcode \<in> set switch_labels" by blast
    then show ?thesis
    proof cases
      case 1
      then have "1 \<le> d" using io by (auto simp: instr_ok_def Let_def straight_def opcode_defs)
      moreover have "op_throw ops (fr_pc f) ?s = Some (processed, s2)" using sw 1 by (simp add: vm_switch_def)
      ultimately show ?thesis using op_throw_settled [OF at] by blast
    next
      case 2
      then have fe: "frame_error (unknown_opcode ?opcode) ?s = Some s2"
        using sw by (auto simp: vm_switch_def bind_eq_Some_conv)
      have "vm_error s2 \<noteq> []" by (rule frame_error_sets [OF fe]) (simp add: unknown_opcode_def)
      moreover have "fits_stack ?s" "floor_ok \<Phi> ?s" using at by (auto simp: at_instruction_def floor_ok_def)
      ultimately show ?thesis by (intro settled_quiet [OF quiet_frame_error [OF fe]]) auto
    next
      case 3
      then have "plain_instruction ops host ?opcode ?s = Some s2"
        using sw by (auto simp: vm_switch_def bind_eq_Some_conv)
      then show ?thesis by (intro instruction_settled [OF at host halt _ 3(1)]) auto
    qed
  qed
  from settled_after [OF st(1) _ this] have s2: "rests \<Phi> s {#} s2" by simp
  show ?thesis
  proof (cases "vm_error s2 \<noteq> [] \<and> \<not> processed")
    case False
    then show ?thesis using s2 conv by auto
  next
    case True
    then have c: "convert_runtime_error ops invoke (fr_pc f) s2 = Some s'" using conv by simp
    show ?thesis
    proof (cases "vm_frames s2 = []")
      case True
      then have "s' = s2" using c by (simp add: convert_runtime_error_def)
      then show ?thesis using s2 by simp
    next
      case False
      have "rests \<Phi> s2 {#} s'"
        by (rule convert_settled [OF c inv]) (use s2 True in \<open>auto simp: rests_def\<close>)
      then show ?thesis using s2 False by (intro settled_after [of s "{#}" s2 "{#}"]) (auto simp: rests_def)
    qed
  qed
qed

section \<open>Runs\<close>

text \<open>The states the loop goes through.\<close>

inductive vm_run ::
  "'h heap_ops \<Rightarrow> 'h host \<Rightarrow> 'h invoke_function option \<Rightarrow> 'h pphp_state \<Rightarrow> 'h pphp_state \<Rightarrow> bool"
  for ops host invoke where
  stop: "vm_run ops host invoke s s"
| turn: "vm_running s \<Longrightarrow> vm_step ops host invoke s = Some t \<Longrightarrow> vm_run ops host invoke t s' \<Longrightarrow>
    vm_run ops host invoke s s'"

lemma run_good:
  assumes "vm_run ops host invoke s s'" "good \<Phi> s" "host_ok host" "invoke_ok invoke"
  shows "good \<Phi> s' \<and> balance s {#} s' {#}"
  using assms
proof (induction rule: vm_run.induct)
  case (stop s)
  then show ?case by simp
next
  case (turn s t s')
  have "rests \<Phi> s {#} t" by (rule step_settled [OF turn.prems(1) turn.hyps(1) turn.prems(2,3) turn.hyps(2)])
  moreover have "vm_frames s \<noteq> []" using turn.hyps(1) by (simp add: vm_running_def)
  ultimately have "good \<Phi> t" "balance s {#} t {#}" using settled_good turn.prems(1) by blast+
  then show ?case using turn by (blast intro: balance_trans)
qed

lemma loop_run:
  assumes "vm_loop ops host invoke s = Some s'"
  shows "vm_run ops host invoke s s' \<and> \<not> vm_running s'"
proof (rule vm_loop.raw_induct [where P = "\<lambda>ops host invoke s s'. vm_run ops host invoke s s' \<and> \<not> vm_running s'", OF _ assms])
  fix loop ops host invoke s s'
  assume IH: "\<And>ops host invoke s s'. loop ops host invoke s = Some s' \<Longrightarrow> vm_run ops host invoke s s' \<and> \<not> vm_running s'"
    and eq: "(if vm_running s then Option.bind (vm_step ops host invoke s) (loop ops host invoke) else Some s) = Some s'"
  then show "vm_run ops host invoke s s' \<and> \<not> vm_running s'"
    by (cases "vm_running s") (auto simp: bind_eq_Some_conv intro: vm_run.intros)
qed

section \<open>Start and finish\<close>

lemma release_frames_ok:
  assumes "callers_ok \<Phi> fs b" "vm_frames s = fs" "release_frames ops fs s = Some s'"
  shows "s' = s\<lparr>vm_frames := []\<rparr>" "bal s {#} s' {#}"
proof -
  have "s' = s\<lparr>vm_frames := []\<rparr> \<and> bal s {#} s' {#}"
    using assms
  proof (induction fs arbitrary: b s)
    case Nil
    then show ?case by simp
  next
    case (Cons f fs)
    then obtain s1 where p: "pop_frame ops f s = Some s1" and r: "release_frames ops fs s1 = Some s'"
      by (auto simp: bind_eq_Some_conv)
    have f: "frame_ok \<Phi> f" "callers_ok \<Phi> fs (fr_base f)" using Cons.prems by auto
    note po = pop_frame_ok [OF f(1) Cons.prems(2) p]
    have "s' = s1\<lparr>vm_frames := []\<rparr>" and b: "bal s1 {#} s' {#}" using Cons.IH [OF f(2) _ r] po(1) by auto
    then have "s' = s\<lparr>vm_frames := []\<rparr>" using po(1) by simp
    then show ?case using bal_trans [OF po(2) b] by blast
  qed
  then show "s' = s\<lparr>vm_frames := []\<rparr>" "bal s {#} s' {#}" by auto
qed

lemma drain_ok:
  assumes l: "floor_ok \<Phi> s" and fits: "fits_stack s" and ret: "drain ops s = Some s'"
  shows "bal s {#} s' {#}" "vm_frames s' = []" "vm_stack_count s' = 0" "vm_error s' = vm_error s"
proof -
  let ?s = "(release_range 0 (vm_stack_count s) s)\<lparr>vm_stack_count := 0\<rparr>"
  have "vm_stack_count s \<le> length (vm_stack s)" using fits by (simp add: fits_stack_def)
  note c = cut_simps [OF _ this refl, of 0, simplified]
  have rel: "release_frames ops (vm_frames ?s) ?s = Some s'"
    using ret by (simp add: drain_def release_all_frames_def)
  have r: "bal ?s {#} s' {#} \<and> vm_frames s' = [] \<and> vm_stack_count s' = 0 \<and> vm_error s' = vm_error s"
  proof (cases "vm_frames s")
    case Nil
    then have "s' = ?s" using rel c(2) by simp
    then show ?thesis using c Nil by simp
  next
    case (Cons f fs)
    then have "frame_ok \<Phi> f" "callers_ok \<Phi> fs (fr_base f)" using l by (auto simp: floor_ok_def)
    moreover from rel c(2) Cons obtain s1 where p: "pop_frame ops f ?s = Some s1"
      and r: "release_frames ops fs s1 = Some s'" by (auto simp: bind_eq_Some_conv)
    moreover have "vm_frames ?s = f # fs" using c(2) Cons by simp
    ultimately have po: "s1 = ?s\<lparr>vm_frames := fs\<rparr>" "bal ?s {#} s1 {#}" and cs: "callers_ok \<Phi> fs (fr_base f)"
      using pop_frame_ok [OF _ _ p, of \<Phi> fs] by auto
    have "vm_frames s1 = fs" using po(1) by simp
    note rf = release_frames_ok [OF cs this r]
    have "vm_frames s' = []" "vm_stack_count s' = 0" "vm_error s' = vm_error s"
      using rf(1) po(1) c by simp_all
    then show ?thesis using bal_trans [OF po(2) rf(2)] by blast
  qed
  then show "bal s {#} s' {#}" "vm_frames s' = []" "vm_stack_count s' = 0" "vm_error s' = vm_error s"
    using bal_trans [OF c(1)] by auto
qed

lemma validate_quiet:
  "validate_classes line rp as s = Some (ok, s') \<Longrightarrow> quiet s {#} s' {#} \<and> (ok \<longrightarrow> s' = s) \<and> (\<not> ok \<longrightarrow> vm_error s' \<noteq> [])"
  by (induction as) (auto simp: bind_eq_Some_conv missing_method_message_def error_is_set split: if_splits)

lemma finish_ok:
  assumes g: "good \<Phi> s" and stop: "\<not> vm_running s" and ret: "vm_finish ops s = Some (ok, s')"
  shows "balance s {#} s' {#}" "vm_frames s' = []" "vm_stack_count s' = 0" "mem_ok s'"
    "ok \<longleftrightarrow> vm_error s' = []"
proof -
  from ret obtain s1 where
    1: "(if vm_error s = [] \<and> \<not> vm_capture_halt_result s
          then map_option snd (validate_class_signatures 0 True s) else Some s) = Some s1"
    and 2: "(if vm_error s1 \<noteq> [] then do { s \<leftarrow> drain ops s1; Some (False, s) }
     else if vm_exit_requested s1 then do { s \<leftarrow> drain ops s1; Some (True, s) }
     else Some (True, s1)) = Some (ok, s')"
    by (auto simp: vm_finish_def bind_eq_Some_conv)
  have q: "quiet s {#} s1 {#}" and same: "vm_error s1 \<noteq> [] \<or> s1 = s"
  proof -
    have "s1 = s \<or> (\<exists>b. validate_classes 0 True (vm_class_table s) s = Some (b, s1))"
      using 1 by (auto simp: validate_class_signatures_def split: if_splits)
    then show "quiet s {#} s1 {#}" "vm_error s1 \<noteq> [] \<or> s1 = s" by (auto dest: validate_quiet)
  qed
  have l: "floor_ok \<Phi> s1" "fits_stack s1" "mem_ok s1" "balance s {#} s1 {#}"
    using g q quiet_fields [OF q] floor_ok_quiet [OF q] by (auto simp: good_def quiet_def)
  have "balance s {#} s' {#} \<and> vm_frames s' = [] \<and> vm_stack_count s' = 0 \<and> mem_ok s' \<and> (ok \<longleftrightarrow> vm_error s' = [])"
  proof (cases "vm_error s1 \<noteq> [] \<or> vm_exit_requested s1")
    case True
    then obtain b where d: "drain ops s1 = Some s'" and ok: "ok \<longleftrightarrow> vm_error s1 = []"
      using 2 by (auto simp: bind_eq_Some_conv split: if_splits)
    note dr = drain_ok [OF l(1,2) d]
    then show ?thesis using l ok balance_trans by (auto simp: bal_def)
  next
    case False
    then have "s' = s1" "ok" "s1 = s" "vm_error s = []" using 2 same by auto
    moreover from this False stop have "vm_frames s = []" by (auto simp: vm_running_def)
    ultimately show ?thesis using l floor_ok_frames by auto
  qed
  then show "balance s {#} s' {#}" "vm_frames s' = []" "vm_stack_count s' = 0" "mem_ok s'"
    "ok \<longleftrightarrow> vm_error s' = []" by auto
qed

text \<open>The code a run may enter: the entry of the module and the functions that can be called.\<close>

definition checked_module :: "(pproto \<Rightarrow> depths) \<Rightarrow> addr \<Rightarrow> pproto \<Rightarrow> 'h pphp_state \<Rightarrow> bool" where
  "checked_module \<Phi> module entry s \<longleftrightarrow>
     well_stacked entry (\<Phi> entry) \<and> n_locals entry \<le> PPHP_STACK_SLOTS \<and>
     functions_ok \<Phi> (s\<lparr>vm_module := Some module\<rparr>)"

text \<open>A state between two executions.\<close>

definition idle :: "'h pphp_state \<Rightarrow> bool" where
  "idle s \<longleftrightarrow> mem_ok s \<and> vm_frames s = [] \<and> vm_stack_count s = 0 \<and>
     length (vm_stack s) = PPHP_STACK_SLOTS \<and> \<not> (\<exists>v. vm_halt_result s = Some v \<and> has_header v)"

lemma start_good:
  assumes "idle s" "checked_module \<Phi> module entry s"
  shows "good \<Phi> (vm_start module entry s)" "balance s {#} (vm_start module entry s) {#}"
proof -
  let ?s = "vm_start module entry s"
  have st: "vm_stack ?s = replicate (n_locals entry) Undefined @ drop (n_locals entry) (vm_stack s)"
    using assms by (simp add: vm_start_def undefine_slots idle_def checked_module_def)
  have fr: "vm_frames ?s = [(new_frame entry module 0 0)\<lparr>fr_all_globals := True\<rparr>]"
    "vm_stack_count ?s = n_locals entry" by (simp_all add: vm_start_def)
  have "functions_ok \<Phi> ?s = functions_ok \<Phi> (s\<lparr>vm_module := Some module\<rparr>)"
    by (simp add: functions_ok_def pphp_find_function_def vm_start_def cong: option.case_cong)
  moreover have "frame_ok \<Phi> ((new_frame entry module 0 0)\<lparr>fr_all_globals := True\<rparr>)"
    using assms by (simp add: frame_ok_def new_frame_def checked_module_def)
  moreover have "\<Phi> entry 0 = Some 0" using assms by (simp add: checked_module_def well_stacked_def)
  moreover have "mem_ok ?s" "\<not> (\<exists>v. vm_halt_result ?s = Some v \<and> has_header v)"
    using assms by (auto simp: idle_def vm_start_def mem_ok_def)
  ultimately show "good \<Phi> ?s"
    using assms st fr
    by (simp add: good_def fits_stack_def floor_ok_def conforms_def idle_def checked_module_def)
      (simp add: new_frame_def)
  have "cnt (stack_refs ?s) = {#}" "frame_refs (vm_frames ?s) = {#}"
    unfolding stack_refs_def st fr by (simp_all add: frame_refs_def new_frame_def)
  then show "balance s {#} ?s {#}"
    using assms unfolding balance_def held_def
    by (simp add: idle_def stack_refs_def frame_refs_def vm_start_def table_refs_def pending_refs_def
        acquired_def given_up_def)
qed

lemma execute_ok:
  assumes ret: "pphp_vm_execute ops host invoke (Some module) s = Some (ok, s')"
    and idle: "idle s" and code: "vm_modules s module = Some code" "protos code = entry # rest"
    and ready: "pphp_find_class ''Throwable'' s = Some (Some c)"
    and checked: "checked_module \<Phi> module entry s" and host: "host_ok host" and inv: "invoke_ok invoke"
  shows "balance s {#} s' {#}" "vm_frames s' = []" "vm_stack_count s' = 0" "mem_ok s'" "ok \<longleftrightarrow> vm_error s' = []"
proof -
  from ret code ready obtain s1 where l: "vm_loop ops host invoke (vm_start module entry s) = Some s1"
    and fin: "vm_finish ops s1 = Some (ok, s')"
    by (auto simp: pphp_vm_execute_def bind_eq_Some_conv)
  note st = start_good [OF idle checked]
  from loop_run [OF l] have run: "vm_run ops host invoke (vm_start module entry s) s1" "\<not> vm_running s1" by auto
  from run_good [OF run(1) st(1) host inv] have g: "good \<Phi> s1" and b: "balance (vm_start module entry s) {#} s1 {#}" by auto
  note f = finish_ok [OF g run(2) fin]
  show "balance s {#} s' {#}" by (rule balance_trans [OF st(2) balance_trans [OF b f(1)]])
  show "vm_frames s' = []" "vm_stack_count s' = 0" "mem_ok s'" "ok \<longleftrightarrow> vm_error s' = []" using f by auto
qed

end
