(* ===== verification/VmProps.thy ===== *)
theory VmProps
  imports VmRun PbcEmit
begin

text \<open>
  The properties of the interpreter: accounts of references over a whole execution, the stack
  discipline of checked code, exceptions and their handlers, arguments, destructors, loops over
  arrays, and closures.
\<close>

unbundle bit_operations_syntax

section \<open>The nearest handler\<close>

text \<open>
  The specification of unwinding: search the frames outwards, the thrown place first and the
  places of the calls after it, before anything is released.  The place of a call is the last
  byte of the call instruction.
\<close>

fun call_site :: "pframe list \<Rightarrow> nat \<Rightarrow> nat" where
  "call_site [] pc = pc"
| "call_site (g # gs) pc = fr_pc g - 1"

fun nearest_handler ::
  "pvalue \<Rightarrow> nat \<Rightarrow> pframe list \<Rightarrow> 'h pphp_state \<Rightarrow> (pframe \<times> pcatch \<times> pframe list) option option" where
  "nearest_handler e pc [] s = Some None"
| "nearest_handler e pc (f # fs) s = do {
     found \<leftarrow> find_catch (fr_proto f) e pc (catches (fr_proto f)) s;
     (case found of
        Some entry \<Rightarrow> Some (Some (f, entry, fs))
      | None \<Rightarrow> nearest_handler e (call_site fs pc) fs s)
   }"

lemma call_site_caller [simp]: "call_site fs pc = caller_pc fs pc"
  by (cases fs) (simp_all add: caller_pc_def)

text \<open>Frames of plain function calls: no pending result of a constructor, no closure.\<close>

definition plain_frames :: "pframe list \<Rightarrow> bool" where
  "plain_frames fs \<longleftrightarrow> list_all (\<lambda>f. \<not> fr_has_return_override f \<and> \<not> fr_owns_closure_context f) fs"

lemma find_catch_cong:
  assumes "vm_classes s' = vm_classes s" "vm_class_table s' = vm_class_table s" "vm_objects s' = vm_objects s"
  shows "find_catch p e pc entries s' = find_catch p e pc entries s"
proof -
  have "catch_matches p e entry s' = catch_matches p e entry s" for entry
    unfolding catch_matches_def pphp_find_class_def assms by (rule refl)
  then show ?thesis by (induction entries) (auto cong: if_cong)
qed

lemma nearest_handler_cong:
  assumes "vm_classes s' = vm_classes s" "vm_class_table s' = vm_class_table s" "vm_objects s' = vm_objects s"
  shows "nearest_handler e pc fs s' = nearest_handler e pc fs s"
  by (induction fs arbitrary: pc) (simp_all add: find_catch_cong [OF assms] cong: option.case_cong)

text \<open>What popping frames changes: the frames, the height of the stack, the log.\<close>

definition popped_to :: "pframe list \<Rightarrow> 'h pphp_state \<Rightarrow> 'h pphp_state \<Rightarrow> bool" where
  "popped_to fs s t \<longleftrightarrow> vm_frames t = fs \<and> vm_stack t = vm_stack s \<and> vm_error t = vm_error s \<and>
     vm_classes t = vm_classes s \<and> vm_class_table t = vm_class_table s \<and> vm_objects t = vm_objects s \<and>
     vm_globals t = vm_globals s \<and> vm_statics t = vm_statics s"

lemma pop_plain_frame:
  assumes "plain_frames (f # fs)" "vm_frames s = f # fs"
  obtains t where
    "pop_frame ops f ((release_range (fr_base f) (vm_stack_count s) s)\<lparr>vm_stack_count := fr_base f\<rparr>) = Some t"
    "popped_to fs s t" "vm_stack_count t = fr_base f"
  using assms by (simp add: pop_frame_def release_frame_owners_def plain_frames_def Let_def popped_to_def
      release_range_def)

lemma unwind_nearest:
  assumes "plain_frames fs" "vm_frames s = fs" "nearest_handler e pc fs s = Some r"
  shows "case r of
      Some (f, entry, outer) \<Rightarrow>
        \<exists>t. popped_to (f # outer) s t \<and> unwind ops e pc fs s = enter_handler ops f entry e t
    | None \<Rightarrow>
        \<exists>t. popped_to [] s t \<and> vm_stack_count t = (if fs = [] then vm_stack_count s else fr_base (last fs)) \<and>
          unwind ops e pc fs s = map_option (Pair False) (uncaught_exception e t)"
  using assms
proof (induction fs arbitrary: pc s)
  case Nil
  then have "popped_to [] s s" "r = None" by (auto simp: popped_to_def)
  moreover have "unwind ops e pc [] s = map_option (Pair False) (uncaught_exception e s)"
    by (cases "uncaught_exception e s") auto
  ultimately show ?case by auto
next
  case (Cons f fs)
  from Cons.prems(3) obtain found where c: "find_catch (fr_proto f) e pc (catches (fr_proto f)) s = Some found"
    by (auto simp: bind_eq_Some_conv)
  show ?case
  proof (cases found)
    case (Some entry)
    then have "r = Some (f, entry, fs)" using Cons.prems(3) c by simp
    moreover have "popped_to (f # fs) s s" using Cons.prems(2) by (simp add: popped_to_def)
    moreover have "unwind ops e pc (f # fs) s = enter_handler ops f entry e s" using c Some by simp
    ultimately show ?thesis by auto
  next
    case None
    obtain t where p: "pop_frame ops f ((release_range (fr_base f) (vm_stack_count s) s)\<lparr>vm_stack_count := fr_base f\<rparr>) = Some t"
      and t: "popped_to fs s t" "vm_stack_count t = fr_base f" by (rule pop_plain_frame [OF Cons.prems(1,2)])
    have u: "unwind ops e pc (f # fs) s = unwind ops e (caller_pc fs pc) fs t" using c None p by (simp add: Let_def)
    have "nearest_handler e (caller_pc fs pc) fs t = Some r"
      using Cons.prems(3) c None nearest_handler_cong [of t s] t(1) by (simp add: popped_to_def)
    moreover have "plain_frames fs" "vm_frames t = fs" using Cons.prems(1) t(1) by (auto simp: plain_frames_def popped_to_def)
    ultimately have IH: "case r of
      Some (f, entry, outer) \<Rightarrow>
        \<exists>t'. popped_to (f # outer) t t' \<and> unwind ops e (caller_pc fs pc) fs t = enter_handler ops f entry e t'
    | None \<Rightarrow>
        \<exists>t'. popped_to [] t t' \<and> vm_stack_count t' = (if fs = [] then vm_stack_count t else fr_base (last fs)) \<and>
          unwind ops e (caller_pc fs pc) fs t = map_option (Pair False) (uncaught_exception e t')"
      using Cons.IH by blast
    have trans: "popped_to g t t' \<Longrightarrow> popped_to g s t'" for g t' using t(1) by (simp add: popped_to_def)
    show ?thesis
    proof (cases r)
      case None
      with IH obtain t' where "popped_to [] t t'"
        "vm_stack_count t' = (if fs = [] then vm_stack_count t else fr_base (last fs))"
        "unwind ops e (caller_pc fs pc) fs t = map_option (Pair False) (uncaught_exception e t')" by auto
      then show ?thesis using None trans u t(2) by (auto simp del: unwind.simps intro!: exI [of _ t'])
    next
      case (Some x)
      obtain g entry outer where x: "x = (g, entry, outer)" by (cases x)
      with Some IH obtain t' where "popped_to (g # outer) t t'"
        "unwind ops e (caller_pc fs pc) fs t = enter_handler ops g entry e t'" by auto
      then show ?thesis using Some x trans u by (auto simp del: unwind.simps intro!: exI [of _ t'])
    qed
  qed
qed

lemma enter_handler_on_stack:
  assumes t: "vm_frames t = f # fs" and slot: "variable_slot entry \<noteq> 0xff"
      "unat (variable_slot entry) < n_locals (fr_proto f)" "fr_base f + n_locals (fr_proto f) \<le> length (vm_stack t)"
    and local: "\<not> fr_all_globals f" "\<not> slot_mask_has (fr_static_mask f) (variable_slot entry)"
      "\<not> slot_mask_has (fr_global_mask f) (variable_slot entry)"
  shows "\<exists>s'. enter_handler ops f entry e t = Some (True, s') \<and>
    vm_frames s' = f\<lparr>fr_pc := unat (handler_pc entry)\<rparr> # fs \<and>
    vm_stack_count s' = fr_base f + n_locals (fr_proto f) \<and>
    vm_stack s' = (vm_stack t)[fr_base f + unat (variable_slot entry) := Cell e] \<and> vm_error s' = vm_error t"
proof -
  have "unat (variable_slot entry) \<noteq> UINT8_MAX"
  proof
    assume "unat (variable_slot entry) = UINT8_MAX"
    then show False using slot(1) by (simp add: UINT8_MAX_def word_unat_eq_iff)
  qed
  moreover have "fr_base f + unat (variable_slot entry) < length (vm_stack t)" using slot by simp
  ultimately show ?thesis using t slot local
    by (simp add: enter_handler_def Let_def store_local_value_def slot_storage_def top_frame_def release_range_def
        set_slot_def slot_index_def rd_def set_pc_def set_top_def release_cell_def)
qed

section \<open>Demonstrations\<close>

text \<open>A function with one parameter that returns it, a module that calls it, and an idle machine.\<close>

definition demo_identity :: pproto where
  "demo_identity = (empty_pproto 200 demo_name)\<lparr>n_params := 1, n_required := 1,
     pp_code := [OP_LOAD_LOCAL, 0, OP_RET], locals := [demo_name]\<rparr>"

definition demo_caller :: pproto where
  "demo_caller = (empty_pproto 300 demo_name)\<lparr>constants := [PString demo_name],
     pp_code := [OP_NEW_ARRAY, 0, 0, OP_CALL, 0, 0, 1, OP_POP, OP_HALT]\<rparr>"

definition demo_depths :: "pproto \<Rightarrow> depths" where
  "demo_depths p = (if n_params p = 1 then map_of [(0, 0), (2, 1)]
     else map_of [(0, 0), (3, 1), (7, 1), (8, 0)])"

definition demo_code :: pmodule where
  "demo_code = \<lparr>protos_ptr = None, protos = [demo_caller, demo_identity], pm_capacity = 2,
     ro_strings_ptr = None, ro_strings = [], ro_string_count = 0, pm_image = [], backing = None,
     refcnt = 1, owns_backing = False, heap_allocated = False\<rparr>"

definition demo_machine :: "nat pphp_state" where
  "demo_machine =
     \<lparr>vm_heap = 4096,
      vm_classes = [64 \<mapsto> empty_class (demo_name\<lparr>ps_data := ''Throwable''\<rparr>) None PC_INTERFACE],
      vm_objects = Map.empty, vm_arrays = Map.empty,
      vm_closures = Map.empty, vm_iterators = Map.empty, vm_modules = [100 \<mapsto> demo_code],
      vm_gc = \<lparr>gs_candidates = [], gs_collecting = False, gs_requested = False\<rparr>,
      vm_stack = replicate PPHP_STACK_SLOTS (Cell PNull), vm_stack_count = 0, vm_frames = [],
      vm_module = None, vm_repl_modules = [],
      vm_symbols = \<lparr>st_ptr = None, st_entries = [], st_capacity = 0, st_count = 0\<rparr>,
      vm_globals = None, vm_statics = None, vm_constants = None,
      vm_class_table_ptr = Some 72, vm_class_table = [64], vm_class_capacity = 8, vm_gc_objects = None,
      vm_runtime_functions_ptr = None, vm_runtime_functions = [], vm_runtime_function_capacity = 0,
      vm_oom_exception = None, vm_output = [], vm_chunk_name = None, vm_error_line = 0,
      vm_exit_requested = False, vm_capture_halt_result = False, vm_halt_result = None,
      vm_error = [], vm_raised_class = [], vm_log = []\<rparr>"

definition no_host :: "'h host" where
  "no_host name arguments s = Some (NotHost, s)"

text \<open>The run of the module: an array is created, passed, returned and dropped.\<close>

definition demo_frame :: "nat \<Rightarrow> pframe" where
  "demo_frame pc = (new_frame demo_caller 100 0 0)\<lparr>fr_all_globals := True, fr_pc := pc\<rparr>"

definition demo_callee :: "nat \<Rightarrow> pframe" where
  "demo_callee pc = (new_frame demo_identity 100 0 1)\<lparr>fr_pc := pc\<rparr>"

definition demo_after :: "pframe list \<Rightarrow> cell list \<Rightarrow> nat \<Rightarrow> rc_event list \<Rightarrow> nat pphp_state" where
  "demo_after fs cells n ev =
     (vm_start 100 demo_caller demo_machine)
       \<lparr>vm_frames := fs, vm_heap := 4096 + sizeof_parray, vm_arrays := [4096 \<mapsto> empty_array 4096],
        vm_stack := cells @ replicate (384 - length cells) (Cell PNull),
        vm_stack_count := n, vm_log := map (\<lambda>e. Ev (Ref e)) ev\<rparr>"

lemmas machine_defs = demo_after_def demo_machine_def demo_caller_def demo_identity_def empty_pproto_def
  vm_start_def new_frame_def demo_frame_def demo_callee_def demo_code_def demo_name_def
  top_frame_def set_top_def read_u8_def undefine_def vm_switch_def Let_def PPHP_STACK_SLOTS_def

lemmas machine_ops = bump_ops_def push_value_def push_def op_pop_def pop_def release_cell_def log_rc_def log_events_def
  release_range_def pop_frame_def release_frame_owners_def read_u16_def rd_def

abbreviation demo_step :: "nat pphp_state \<Rightarrow> nat pphp_state option" where
  "demo_step \<equiv> vm_step bump_ops no_host None"

abbreviation passed_array :: cell where "passed_array \<equiv> Cell (PArray 4096)"

lemma demo_steps:
  "demo_step (vm_start 100 demo_caller demo_machine) =
     Some (demo_after [demo_frame 3] [passed_array] 1 [Create (PArray 4096)])"
  "demo_step (demo_after [demo_frame 3] [passed_array] 1 [Create (PArray 4096)]) =
     Some (demo_after [demo_callee 0, demo_frame 7] [passed_array] 1 [Create (PArray 4096)])"
  "demo_step (demo_after [demo_callee 0, demo_frame 7] [passed_array] 1 [Create (PArray 4096)]) =
     Some (demo_after [demo_callee 2, demo_frame 7] [passed_array, passed_array] 2
       [Create (PArray 4096), Retain (PArray 4096)])"
  "demo_step (demo_after [demo_callee 2, demo_frame 7] [passed_array, passed_array] 2
       [Create (PArray 4096), Retain (PArray 4096)]) =
     Some (demo_after [demo_frame 7] [passed_array, passed_array] 1
       [Create (PArray 4096), Retain (PArray 4096), Release (PArray 4096)])"
  "demo_step (demo_after [demo_frame 7] [passed_array, passed_array] 1
       [Create (PArray 4096), Retain (PArray 4096), Release (PArray 4096)]) =
     Some (demo_after [demo_frame 8] [passed_array, passed_array] 0
       [Create (PArray 4096), Retain (PArray 4096), Release (PArray 4096), Release (PArray 4096)])"
  "demo_step (demo_after [demo_frame 8] [passed_array, passed_array] 0
       [Create (PArray 4096), Retain (PArray 4096), Release (PArray 4096), Release (PArray 4096)]) =
     Some (demo_after [] [passed_array, passed_array] 0
       [Create (PArray 4096), Retain (PArray 4096), Release (PArray 4096), Release (PArray 4096)])"
proof -
  have stack: "(replicate 384 c)[0 := d] = d # replicate 383 c" "(replicate 383 c)[0 := e] = e # replicate 382 c"
    for c d e :: cell by (simp_all add: eval_nat_numeral)
  note defs = vm_step_def machine_defs machine_ops stack
  show "demo_step (vm_start 100 demo_caller demo_machine) =
     Some (demo_after [demo_frame 3] [passed_array] 1 [Create (PArray 4096)])"
    by (simp add: defs switch_labels_def opcode_switch op_new_array_def new_array_def pa_new_def empty_array_def)
      (simp add: opcode_defs)
  show "demo_step (demo_after [demo_frame 3] [passed_array] 1 [Create (PArray 4096)]) =
     Some (demo_after [demo_callee 0, demo_frame 7] [passed_array] 1 [Create (PArray 4096)])"
    by (simp add: defs switch_labels_def branch_switch op_call_def call_function_def no_host_def
        PbcVerify.constant_string_def pphp_find_function_def pmodule_find_def PPROTO_FUNCTION_def
        enter_function_def bind_arguments_def place_arguments_def PPHP_FRAME_MAX_def)
      (simp add: opcode_defs)
  show "demo_step (demo_after [demo_callee 0, demo_frame 7] [passed_array] 1 [Create (PArray 4096)]) =
     Some (demo_after [demo_callee 2, demo_frame 7] [passed_array, passed_array] 2
       [Create (PArray 4096), Retain (PArray 4096)])"
    by (simp add: defs switch_labels_def opcode_switch op_load_local_def on_slot_def load_local_value_def
        read_local_value_def slot_storage_def slot_mask_has_def slot_index_def)
      (simp add: opcode_defs)
  show "demo_step (demo_after [demo_callee 2, demo_frame 7] [passed_array, passed_array] 2
       [Create (PArray 4096), Retain (PArray 4096)]) =
     Some (demo_after [demo_frame 7] [passed_array, passed_array] 1
       [Create (PArray 4096), Retain (PArray 4096), Release (PArray 4096)])"
    by (simp add: defs switch_labels_def branch_switch return_from_function_def)
      (simp add: opcode_defs)
  show "demo_step (demo_after [demo_frame 7] [passed_array, passed_array] 1
       [Create (PArray 4096), Retain (PArray 4096), Release (PArray 4096)]) =
     Some (demo_after [demo_frame 8] [passed_array, passed_array] 0
       [Create (PArray 4096), Retain (PArray 4096), Release (PArray 4096), Release (PArray 4096)])"
    by (simp add: defs switch_labels_def opcode_switch) (simp add: opcode_defs)
  show "demo_step (demo_after [demo_frame 8] [passed_array, passed_array] 0
       [Create (PArray 4096), Retain (PArray 4096), Release (PArray 4096), Release (PArray 4096)]) =
     Some (demo_after [] [passed_array, passed_array] 0
       [Create (PArray 4096), Retain (PArray 4096), Release (PArray 4096), Release (PArray 4096)])"
    by (simp add: defs switch_labels_def opcode_switch op_halt_def release_all_frames_def) (simp add: opcode_defs)
qed

definition demo_final :: "nat pphp_state" where
  "demo_final = demo_after [] [passed_array, passed_array] 0
     [Create (PArray 4096), Retain (PArray 4096), Release (PArray 4096), Release (PArray 4096)]"

lemma demo_running [simp]: "vm_running (demo_after fs cells n ev) \<longleftrightarrow> fs \<noteq> []"
  by (simp add: vm_running_def demo_after_def vm_start_def demo_machine_def)

lemma demo_loop: "vm_loop bump_ops no_host None (vm_start 100 demo_caller demo_machine) = Some demo_final"
proof -
  have "vm_running (vm_start 100 demo_caller demo_machine)"
    by (simp add: vm_running_def vm_start_def demo_machine_def)
  moreover have "vm_loop bump_ops no_host None demo_final = Some demo_final"
    by (subst vm_loop.simps) (simp add: demo_final_def)
  ultimately show ?thesis
    by (subst vm_loop.simps, simp add: demo_steps del: One_nat_def)+ (simp add: demo_final_def)
qed

lemma demo_complete: "validate_class_signatures 0 True demo_final = Some (True, demo_final)"
proof -
  have "pclass_is_complete [64 \<mapsto> empty_class (demo_name\<lparr>ps_data := ''Throwable''\<rparr>) None PC_INTERFACE] (Some 64) =
      Some (METHOD_COMPATIBLE, None)"
    by (simp add: pclass_is_complete_def complete_loop.simps empty_class_def PC_INTERFACE_def PC_ABSTRACT_def Let_def
        final_relation_def)
  then show ?thesis
    by (simp add: validate_class_signatures_def demo_final_def demo_after_def vm_start_def demo_machine_def)
qed

lemma demo_runs: "pphp_vm_execute bump_ops no_host None (Some 100) demo_machine = Some (True, demo_final)"
proof -
  have "vm_finish bump_ops demo_final = Some (True, demo_final)"
    using demo_complete
    by (simp add: vm_finish_def demo_final_def demo_after_def vm_start_def demo_machine_def)
  moreover have "pphp_find_class ''Throwable'' demo_machine = Some (Some 64)"
    by (simp add: pphp_find_class_def demo_machine_def class_name_equal_def empty_class_def)
  moreover have "vm_modules demo_machine 100 = Some demo_code" "protos demo_code = demo_caller # [demo_identity]"
    by (simp_all add: demo_machine_def demo_code_def)
  ultimately show ?thesis using demo_loop by (simp add: pphp_vm_execute_def)
qed

lemma demo_depths_eq:
  "demo_depths demo_identity = map_of [(0, 0), (2, 1)]"
  "demo_depths demo_caller = map_of [(0, 0), (3, 1), (7, 1), (8, 0)]"
  by (simp_all only: demo_depths_def) (simp_all add: demo_identity_def demo_caller_def empty_pproto_def)

lemma demo_stacked:
  "well_stacked demo_identity (demo_depths demo_identity)"
  "well_stacked demo_caller (demo_depths demo_caller)"
  unfolding demo_depths_eq by (rule well_stacked_list; code_simp)+

lemma find_proto_in: "find_proto_from ps name = Some p \<Longrightarrow> p \<in> set ps"
  by (induction ps) (auto split: if_splits)

lemma functions_ok_module:
  assumes "vm_runtime_functions s = []" "vm_repl_modules s = []" "vm_module s = Some m" "vm_modules s m = Some code"
    and "\<forall>p \<in> set (drop 1 (protos code)). well_stacked p (\<Phi> p)"
  shows "functions_ok \<Phi> s"
  using assms unfolding functions_ok_def pphp_find_function_def pmodule_find_def
  by (auto split: option.splits dest: find_proto_in)

lemma demo_ready:
  "idle demo_machine" "checked_module demo_depths 100 demo_caller demo_machine"
  "host_ok no_host" "invoke_ok None"
  "vm_modules demo_machine 100 = Some demo_code" "protos demo_code = demo_caller # [demo_identity]"
  "pphp_find_class ''Throwable'' demo_machine = Some (Some 64)"
proof -
  show "idle demo_machine"
    by (simp add: idle_def mem_ok_def demo_machine_def)
  have "functions_ok demo_depths (demo_machine\<lparr>vm_module := Some 100\<rparr>)"
    by (rule functions_ok_module [where m = 100 and code = demo_code])
      (use demo_stacked in \<open>simp_all add: demo_machine_def, simp add: demo_code_def\<close>)
  then show "checked_module demo_depths 100 demo_caller demo_machine"
    using demo_stacked by (simp add: checked_module_def) (simp add: demo_caller_def empty_pproto_def)
  show "host_ok no_host" "invoke_ok None" by (simp_all add: host_ok_def no_host_def invoke_ok_def)
  show "vm_modules demo_machine 100 = Some demo_code" "protos demo_code = demo_caller # [demo_identity]"
    by (simp_all add: demo_machine_def demo_code_def)
  show "pphp_find_class ''Throwable'' demo_machine = Some (Some 64)"
    by (simp add: pphp_find_class_def demo_machine_def class_name_equal_def empty_class_def)
qed

section \<open>Executions\<close>

text \<open>
  C8. Executing a module keeps the accounts of references: the references the state holds
  afterwards, with those given up on the way, are the ones it held before with those acquired
  on the way.  No frame and no operand is left, and the execution succeeds exactly when no
  error is pending.  The code must pass the static check of the stack height, and the
  functions of the host and the function that runs destructors must keep the accounts too.
\<close>

theorem vm_execution_keeps_the_accounts:
  assumes "pphp_vm_execute ops host invoke (Some module) s = Some (ok, s')"
    and "idle s" "vm_modules s module = Some code" "protos code = entry # functions"
    and "pphp_find_class ''Throwable'' s = Some (Some c)"
    and "checked_module \<Phi> module entry s" "host_ok host" "invoke_ok invoke"
  shows "cnt (held s') + given_up s' + acquired s = cnt (held s) + given_up s + acquired s' \<and>
    vm_frames s' = [] \<and> vm_stack_count s' = 0 \<and> (ok \<longleftrightarrow> vm_error s' = [])"
  using execute_ok [OF assms] by (simp add: balance_def)

theorem vm_execution_keeps_the_accounts_witness:
  "acquired demo_final = {#PArray 4096, PArray 4096#} \<and> given_up demo_final = {#PArray 4096, PArray 4096#} \<and>
   cnt (held demo_final) + given_up demo_final + acquired demo_machine =
   cnt (held demo_machine) + given_up demo_machine + acquired demo_final"
  using vm_execution_keeps_the_accounts [OF demo_runs demo_ready(1,5,6,7,2,3,4)]
  by (simp add: acquired_def given_up_def demo_final_def demo_after_def del: add_mset_add_single)

text \<open>
  C9. In code that passes the static check every instruction finds its operands on the stack:
  in each state the loop reaches, the stack has the height that the check gives for the
  current instruction, above the locals of the frame, and each suspended frame is one result
  short of its own.
\<close>

theorem checked_code_finds_its_operands:
  assumes "idle s" "checked_module \<Phi> module entry s" "host_ok host" "invoke_ok invoke"
    and "vm_run ops host invoke (vm_start module entry s) t" "vm_running t"
  shows "\<exists>f fs d. vm_frames t = f # fs \<and> fr_pc f < code_length (fr_proto f) \<and>
    instr_ok (fr_proto f) (\<Phi> (fr_proto f)) (fr_pc f) d \<and>
    vm_stack_count t = fr_base f + n_locals (fr_proto f) + d \<and> vm_stack_count t \<le> PPHP_STACK_SLOTS \<and>
    callers_ok \<Phi> fs (fr_base f)"
proof -
  have g: "good \<Phi> t" using run_good [OF assms(5) start_good(1) [OF assms(1,2)] assms(3,4)] by simp
  from assms(6) obtain f fs where f: "vm_frames t = f # fs" "vm_error t = []"
    by (auto simp: vm_running_def neq_Nil_conv)
  with g obtain d where "well_stacked (fr_proto f) (\<Phi> (fr_proto f))" "callers_ok \<Phi> fs (fr_base f)"
    "\<Phi> (fr_proto f) (fr_pc f) = Some d" "vm_stack_count t = frame_floor f + d"
    by (auto simp: good_def conforms_def frame_ok_def)
  then show ?thesis using f(1) g by (auto simp: good_def fits_stack_def well_stacked_def)
qed

theorem checked_code_finds_its_operands_witness:
  "let t = demo_after [demo_callee 2, demo_frame 7] [passed_array, passed_array] 2
      [Create (PArray 4096), Retain (PArray 4096)]
   in \<exists>f fs d. vm_frames t = f # fs \<and> fr_pc f < code_length (fr_proto f) \<and>
    instr_ok (fr_proto f) (demo_depths (fr_proto f)) (fr_pc f) d \<and>
    vm_stack_count t = fr_base f + n_locals (fr_proto f) + d \<and> vm_stack_count t \<le> PPHP_STACK_SLOTS \<and>
    callers_ok demo_depths fs (fr_base f)"
proof -
  let ?t = "demo_after [demo_callee 2, demo_frame 7] [passed_array, passed_array] 2
      [Create (PArray 4096), Retain (PArray 4096)]"
  have "vm_running (vm_start 100 demo_caller demo_machine)"
    by (simp add: vm_running_def vm_start_def demo_machine_def)
  then have "vm_run bump_ops no_host None (vm_start 100 demo_caller demo_machine) ?t"
    by (intro turn [OF _ demo_steps(1)] turn [OF _ demo_steps(2)] turn [OF _ demo_steps(3)] stop) simp_all
  from checked_code_finds_its_operands [OF demo_ready(1-4) this] show ?thesis by simp
qed

section \<open>Exceptions\<close>


text \<open>The call of the demonstration, throwing in the callee, with a \<open>catch\<close> in the caller.\<close>

definition demo_catcher :: pframe where
  "demo_catcher = (new_frame (demo_caller\<lparr>locals := [demo_name], catches :=
     [\<lparr>try_start = 0, try_end = 7, handler_pc = 8, class_constant = 0xffff, variable_slot = 0, reserved = 0\<rparr>]\<rparr>)
     100 0 0)\<lparr>fr_pc := 7\<rparr>"

definition demo_throwing :: "nat pphp_state" where
  "demo_throwing = demo_machine
     \<lparr>vm_frames := [(demo_callee 2)\<lparr>fr_base := 1\<rparr>, demo_catcher],
      vm_stack := [Cell PNull, Cell (PInt 7), Cell (PInt 8)] @ replicate 381 Undefined, vm_stack_count := 3\<rparr>"

lemma demo_nearest:
  "nearest_handler (PObject 48) 2 (vm_frames demo_throwing) demo_throwing =
     Some (Some (demo_catcher, hd (catches (fr_proto demo_catcher)), []))"
  by (simp add: demo_throwing_def demo_catcher_def demo_callee_def new_frame_def demo_identity_def demo_caller_def
      empty_pproto_def caller_pc_def catch_matches_def UINT16_MAX_def)


section \<open>Calls\<close>



section \<open>Destructors\<close>


text \<open>An object with a destructor that fails.\<close>

definition demo_object :: pobject where
  "demo_object = \<lparr>ob_refcnt = 1, ob_flags = 0, ob_class = 64, ob_owned = True, ob_prev = None, ob_next = None,
     ob_native_data = None, ob_native_finalizer = None, ob_slots = [], ob_written = []\<rparr>"

definition demo_destructible :: "nat pphp_state" where
  "demo_destructible = demo_machine
     \<lparr>vm_objects := [48 \<mapsto> demo_object],
      vm_classes := [64 \<mapsto> (empty_class demo_name None 0)
        \<lparr>cl_methods := [\<lparr>me_name = demo_name\<lparr>ps_data := ''__destruct''\<rparr>, me_flags = 1, me_proto = None,
           me_module = None, me_owner = 64, me_native = None\<rparr>]\<rparr>]\<rparr>"

definition failing_invoke :: "'h invoke_function option" where
  "failing_invoke = Some (\<lambda>v arguments s. Some (False, PNull, s\<lparr>vm_error := ''boom''\<rparr>))"

lemma failing_invoke_ok: "invoke_ok (failing_invoke :: 'h invoke_function option)"
proof -
  have "quiet s {#} (s\<lparr>vm_error := e\<rparr>) {#PNull#}" for s :: "'h pphp_state" and e
    using quiet_heap(4) [of s "{#}" e] by (simp add: quiet_def balance_def)
  then show ?thesis by (simp add: invoke_ok_def failing_invoke_def)
qed

lemma demo_destructs:
  "\<exists>s. pobject_run_destructor bump_ops failing_invoke (Some 48) demo_destructible = Some (True, s)"
proof -
  have find: "pclass_find_method (vm_classes demo_destructible) ''__destruct'' (Some 64) =
      Some (Some (hd (cl_methods (the (vm_classes demo_destructible 64)))))"
    by (simp add: demo_destructible_def pclass_find_method.simps find_own_method_def name_equal_ci_def demo_name_def)
  have flags: "me_flags (hd (cl_methods (the (vm_classes demo_destructible 64)))) = 1"
    "vm_objects demo_destructible 48 = Some demo_object" "vm_heap demo_destructible = 4096"
    "vm_arrays demo_destructible = Map.empty"
    by (simp_all add: demo_destructible_def demo_machine_def)
  have "run_destructor_method bump_ops failing_invoke 48 demo_destructible \<noteq> None"
    by (simp add: run_destructor_method_def flags new_string_def ps_new_def bump_ops_def PPHP_STR_MAX_def new_array_def
      pa_new_def ensure_entries_def empty_array_def UINT16_MAX_def Let_def set_object_def guard_object_def demo_object_def
      call_destructor_def failing_invoke_def build_callable_def array_push_def pa_push_def pa_set_def with_key_def
      normalize_key_def pa_store_def find_entry_def append_entry_def rd_def release_option_def)
  then show ?thesis using find flags
    by (auto simp: pobject_run_destructor_def demo_object_def PC_STATIC_def)
qed


text \<open>
  C21. Destroying an object removes it, gives up exactly the references its slots held, and
  leaves the stack, the frames and the other objects' accounts as they were, whatever its
  destructor does.
\<close>

theorem object_destruction_keeps_the_accounts:
  assumes "pobject_destroy ops invoke (Some a) s = Some s'" "invoke_ok invoke" "mem_ok s"
  shows "vm_objects s' a = None \<and> mem_ok s' \<and>
    cnt (held s') + given_up s' + acquired s = cnt (held s) + given_up s + acquired s' \<and>
    vm_frames s' = vm_frames s \<and> vm_stack_count s' = vm_stack_count s \<and>
    take (vm_stack_count s) (vm_stack s') = take (vm_stack_count s) (vm_stack s)"
proof -
  have "vm_objects s' a = None"
    using assms(1) by (auto simp: pobject_destroy_def free_object_def bind_eq_Some_conv Let_def)
  then show ?thesis using quiet_destroy [OF assms(1,2)] assms(3) by (simp add: quiet_def view_def balance_def)
qed

definition demo_disposable :: "nat pphp_state" where
  "demo_disposable = demo_machine
     \<lparr>vm_objects := [48 \<mapsto> demo_object\<lparr>ob_slots := [PArray 4096]\<rparr>], vm_gc_objects := Some 48,
      vm_classes := [64 \<mapsto> (empty_class demo_name None 0)\<lparr>cl_refcnt := 2, cl_runtime_refs := 1, cl_properties :=
        [\<lparr>pr_name = demo_name, pr_slot = 0, pr_flags = 1, pr_default = PNull, pr_owner = 64\<rparr>]\<rparr>]\<rparr>"

lemma demo_disposes: "\<exists>s. pobject_destroy bump_ops None (Some 48) demo_disposable = Some s"
proof -
  have "pobject_destroy bump_ops None (Some 48) demo_disposable \<noteq> None"
    by (simp add: pobject_destroy_def demo_disposable_def demo_object_def gc_unbuffer_object_def
      pobject_run_destructor_def pclass_find_method.simps find_own_method_def unlink_object_def
      finalize_native_def free_object_def pclass_release_runtime_def pclass_release.simps Let_def demo_machine_def empty_class_def)
  then show ?thesis by blast
qed

theorem object_destruction_keeps_the_accounts_witness:
  "case pobject_destroy bump_ops None (Some 48) demo_disposable of
     Some s' \<Rightarrow> vm_objects s' 48 = None \<and>
       cnt (held s') + given_up s' + acquired demo_disposable =
       cnt (held demo_disposable) + given_up demo_disposable + acquired s'
   | None \<Rightarrow> False"
proof -
  have "mem_ok demo_disposable"
    by (simp add: mem_ok_def demo_disposable_def demo_machine_def demo_object_def)
  moreover have "invoke_ok None" by (simp add: invoke_ok_def)
  ultimately show ?thesis
    using demo_disposes object_destruction_keeps_the_accounts [of bump_ops None 48 demo_disposable] by force
qed

section \<open>Iteration\<close>

text \<open>What an iterator has still to visit: the entries from its position that are not deleted.\<close>

definition live_from :: "parray \<Rightarrow> nat \<Rightarrow> (pvalue \<times> pvalue) list" where
  "live_from a position =
     map (\<lambda>e. (pe_key e, pe_value e)) (filter (\<lambda>e. pe_key e \<noteq> PNull) (drop position (pa_entries a)))"

definition to_visit :: "addr \<Rightarrow> 'h pphp_state \<Rightarrow> (pvalue \<times> pvalue) list option" where
  "to_visit r s = do {
     it \<leftarrow> vm_iterators s r;
     arr \<leftarrow> vm_arrays s (it_array it);
     Some (live_from arr (it_position it))
   }"

lemma live_from_skip: "live_from a (skip_tombstones (pa_entries a) pos) = live_from a pos"
proof (induction "pa_entries a" pos rule: skip_tombstones.induct)
  case (1 pos)
  show ?case
  proof (cases "pos < pa_used a \<and> pe_key (pa_entries a ! pos) = PNull")
    case True
    then have "drop pos (pa_entries a) = pa_entries a ! pos # drop (Suc pos) (pa_entries a)"
      by (simp add: Cons_nth_drop_Suc)
    then have "live_from a pos = live_from a (pos + 1)" using True by (simp add: live_from_def)
    then show ?thesis using 1 True by (subst skip_tombstones.simps) simp
  next
    case False
    then have "skip_tombstones (pa_entries a) pos = pos" by (subst skip_tombstones.simps) auto
    then show ?thesis by simp
  qed
qed

lemma skip_tombstones_live:
  "skip_tombstones es pos < length es \<Longrightarrow> pe_key (es ! skip_tombstones es pos) \<noteq> PNull"
proof (induction es pos rule: skip_tombstones.induct)
  case (1 es pos)
  note step = skip_tombstones.simps [of es pos]
  show ?case
  proof (cases "pos < length es \<and> pe_key (es ! pos) = PNull")
    case True
    then show ?thesis using 1 step by simp
  next
    case False
    then have "skip_tombstones es pos = pos" unfolding step by auto
    then show ?thesis using 1(2) False by simp
  qed
qed

lemma pa_entry_at_live:
  "case live_from a pos of
     [] \<Rightarrow> pa_entry_at (Some a) pos = None
   | (k, v) # rest \<Rightarrow> \<exists>n. pa_entry_at (Some a) pos = Some (k, v, n, [Retain k, Retain v]) \<and> live_from a n = rest"
proof -
  define n where "n = skip_tombstones (pa_entries a) pos"
  have live: "live_from a pos = live_from a n" by (simp add: n_def live_from_skip)
  show ?thesis
  proof (cases "n < pa_used a")
    case True
    then have "drop n (pa_entries a) = pa_entries a ! n # drop (Suc n) (pa_entries a)" by (simp add: Cons_nth_drop_Suc)
    then have "live_from a n = (pe_key (pa_entries a ! n), pe_value (pa_entries a ! n)) # live_from a (Suc n)"
      using skip_tombstones_live [of "pa_entries a" pos] True by (simp add: live_from_def n_def)
    then show ?thesis using True live by (simp add: pa_entry_at_def Let_def n_def [symmetric])
  next
    case False
    then show ?thesis using live by (simp add: live_from_def pa_entry_at_def Let_def n_def [symmetric])
  qed
qed

text \<open>Reading the operands of \<open>FE_NEXT\<close>.\<close>

lemma fe_next_at:
  assumes f: "vm_frames s = f # fs" "fr_pc f + 3 \<le> code_length (fr_proto f)" and n: "vm_stack_count s = Suc n"
    and top: "vm_stack s ! n = Cell (PResource r)"
  shows "op_fe_next s = do {
      (entry, s) \<leftarrow> pa_iterator_next (Some r) (at_pc f (fr_pc f + 3) s);
      (case entry of
         None \<Rightarrow> jump_relative (code_u16 (fr_proto f) (fr_pc f)) (op_pop s)
       | Some (key, v) \<Rightarrow> Some (push_value v
           (if pp_code (fr_proto f) ! (fr_pc f + 2) \<noteq> 0 then push_value key s else log_rc [Release key] s))) }"
proof -
  have 1: "read_u16 s = Some (code_u16 (fr_proto f) (fr_pc f), at_pc f (fr_pc f + 2) s)"
    by (rule read_u16_at [OF f(1)]) (use f(2) in simp)
  have "vm_frames (at_pc f (fr_pc f + 2) s) = f\<lparr>fr_pc := fr_pc f + 2\<rparr> # fs" using f(1) by simp
  from read_u8_at [OF this] f(2) 
  have 2: "read_u8 (at_pc f (fr_pc f + 2) s) = Some (pp_code (fr_proto f) ! (fr_pc f + 2), at_pc f (fr_pc f + 3) s)"
    by (simp add: eval_nat_numeral)
  show ?thesis unfolding op_fe_next_def 1 Option.bind.simps prod.case 2 using n top by simp
qed

text \<open>
  C25. A \<open>foreach\<close> loop visits the entries of its array in insertion order: as long as there are
  entries to visit, \<open>FE_NEXT\<close> pushes the first of them, the key only if the loop wants it, goes
  on to the body, and leaves exactly the rest to visit; deleted entries are not seen.  When
  none is left it drops the iterator and leaves the loop.  The array itself is not touched.
\<close>

theorem foreach_visits_in_order:
  assumes f: "vm_frames s = f # fs" "fr_pc f + 3 \<le> code_length (fr_proto f)"
    and top: "vm_stack_count s = Suc n" "vm_stack s ! n = Cell (PResource r)"
    and room: "n + 3 \<le> PPHP_STACK_SLOTS" "length (vm_stack s) = PPHP_STACK_SLOTS"
    and left: "to_visit r s = Some entries"
  shows "case entries of
      [] \<Rightarrow> op_fe_next s = jump_relative (code_u16 (fr_proto f) (fr_pc f))
          ((log_rc [Release (PResource r)] (at_pc f (fr_pc f + 3) s))\<lparr>vm_stack_count := n\<rparr>)
    | (key, v) # rest \<Rightarrow> \<exists>s'. op_fe_next s = Some s' \<and> to_visit r s' = Some rest \<and>
        (let pushed = (if pp_code (fr_proto f) ! (fr_pc f + 2) \<noteq> 0 then [Cell key, Cell v] else [Cell v])
         in take (vm_stack_count s') (vm_stack s') = take (Suc n) (vm_stack s) @ pushed) \<and>
        vm_frames s' = f\<lparr>fr_pc := fr_pc f + 3\<rparr> # fs \<and> vm_arrays s' = vm_arrays s \<and>
        vm_error s' = vm_error s"
proof -
  let ?s = "at_pc f (fr_pc f + 3) s"
  from left obtain it arr where it: "vm_iterators s r = Some it" "vm_arrays s (it_array it) = Some arr"
    and live: "live_from arr (it_position it) = entries"
    by (auto simp: to_visit_def bind_eq_Some_conv)
  note e = fe_next_at [OF f top] and pe = pa_entry_at_live [of arr "it_position it", unfolded live]
  have same: "vm_iterators ?s = vm_iterators s" "vm_arrays ?s = vm_arrays s" by (simp_all add: set_top_def)
  show ?thesis
  proof (cases entries)
    case Nil
    with pe it same have "pa_iterator_next (Some r) ?s = Some (None, ?s)" by (simp add: pa_iterator_next_def)
    moreover have "op_pop ?s = (log_rc [Release (PResource r)] ?s)\<lparr>vm_stack_count := n\<rparr>"
      using top by (simp add: op_pop_def pop_def release_cell_def log_rc_def log_events_def)
    ultimately show ?thesis using e Nil by simp
  next
    case (Cons kv rest)
    obtain key v where kv: "kv = (key, v)" by force
    from pe Cons kv obtain m where m: "pa_entry_at (Some arr) (it_position it) = Some (key, v, m, [Retain key, Retain v])"
      "live_from arr m = rest" by auto
    let ?t = "log_rc [Retain key, Retain v] (?s\<lparr>vm_iterators := (vm_iterators s)(r \<mapsto> it\<lparr>it_position := m\<rparr>)\<rparr>)"
    have "pa_iterator_next (Some r) ?s = Some (Some (key, v), ?t)"
      using it m(1) same by (simp add: pa_iterator_next_def)
    then have s': "op_fe_next s = Some (push_value v
        (if pp_code (fr_proto f) ! (fr_pc f + 2) \<noteq> 0 then push_value key ?t else log_rc [Release key] ?t))"
      using e by simp
    have t: "to_visit r ?t = Some rest" "vm_stack_count ?t = Suc n" "vm_stack ?t = vm_stack s"
      "vm_frames ?t = f\<lparr>fr_pc := fr_pc f + 3\<rparr> # fs" "vm_arrays ?t = vm_arrays s" "vm_error ?t = vm_error s"
      using it m(2) same f(1) top(1) by (simp_all add: to_visit_def)
    have push: "push_value w u = u\<lparr>vm_stack := (vm_stack u)[vm_stack_count u := Cell w], vm_stack_count := Suc (vm_stack_count u)\<rparr>"
      if "vm_stack_count u < PPHP_STACK_SLOTS" for w and u :: "'a pphp_state"
      using that by (simp add: push_value_def push_def)
    have visit: "to_visit r (u\<lparr>vm_stack := xs, vm_stack_count := k\<rparr>) = to_visit r u" for u :: "'a pphp_state" and xs k
      by (simp add: to_visit_def)
    have visit_log: "to_visit r (log_rc ev u) = to_visit r u" for u :: "'a pphp_state" and ev
      by (simp add: to_visit_def)
    show ?thesis
    proof (cases "pp_code (fr_proto f) ! (fr_pc f + 2) = 0")
      case True
      then show ?thesis using s' t room Cons kv
        by (simp add: push visit visit_log take_Suc_update)
    next
      case False
      have n: "Suc n < PPHP_STACK_SLOTS" "Suc (Suc n) < PPHP_STACK_SLOTS" using room(1) by simp_all
      have st: "take (Suc (Suc (Suc n))) ((vm_stack s)[Suc n := Cell key, Suc (Suc n) := Cell v]) =
          take (Suc n) (vm_stack s) @ [Cell key, Cell v]"
        using take_Suc_update [of "Suc (Suc n)" "(vm_stack s)[Suc n := Cell key]" "Cell v"]
          take_Suc_update [of "Suc n" "vm_stack s" "Cell key"] n room(2) by simp
      show ?thesis using s' t n Cons kv False
        by (simp add: push visit st)
    qed
  qed
qed

text \<open>A loop over an array with a deleted entry in front.\<close>

definition demo_iterating :: "nat pphp_state" where
  "demo_iterating = demo_machine
     \<lparr>vm_frames := [new_frame ((empty_pproto 200 demo_name)\<lparr>pp_code := [0, 0, 1]\<rparr>) 100 0 0],
      vm_stack := Cell (PResource 80) # replicate 383 Undefined, vm_stack_count := 1,
      vm_arrays := [48 \<mapsto> (empty_array 48)\<lparr>pa_entries :=
        [\<lparr>pe_key = PNull, pe_value = PNull, pe_next = EMPTY_BUCKET\<rparr>,
         \<lparr>pe_key = PInt 5, pe_value = PTrue, pe_next = EMPTY_BUCKET\<rparr>]\<rparr>],
      vm_iterators := [80 \<mapsto> \<lparr>it_refcnt = 1, it_flags = 0, it_array = 48, it_position = 0\<rparr>]\<rparr>"

theorem foreach_visits_in_order_witness:
  "case op_fe_next demo_iterating of
     Some s' \<Rightarrow> take (vm_stack_count s') (vm_stack s') = [Cell (PResource 80), Cell (PInt 5), Cell PTrue] \<and>
       to_visit 80 s' = Some []
   | None \<Rightarrow> False"
proof -
  let ?f = "new_frame ((empty_pproto 200 demo_name)\<lparr>pp_code := [0, 0, 1]\<rparr>) 100 0 0"
  have "vm_frames demo_iterating = [?f]" "fr_pc ?f + 3 \<le> code_length (fr_proto ?f)"
    "vm_stack_count demo_iterating = Suc 0" "vm_stack demo_iterating ! 0 = Cell (PResource 80)"
    "0 + 3 \<le> PPHP_STACK_SLOTS" "length (vm_stack demo_iterating) = PPHP_STACK_SLOTS"
    "to_visit 80 demo_iterating = Some [(PInt 5, PTrue)]"
    by (simp_all add: demo_iterating_def demo_machine_def new_frame_def to_visit_def live_from_def PPHP_STACK_SLOTS_def)
  from foreach_visits_in_order [OF this] show ?thesis
    by (auto simp: demo_iterating_def new_frame_def)
qed

text \<open>The life of a closure: it takes references to the captured values and gives them back.\<close>

theorem closure_lifecycle_keeps_the_accounts:
  assumes "pclosure_new ops proto module scope class captures s = Some (Some a, s1)"
    and "pclosure_destroy ops (Some a) s1 = Some s2" "mem_ok s"
  shows "(\<exists>c. vm_closures s1 a = Some c \<and> co_captures c = captures) \<and> vm_closures s2 a = None \<and> mem_ok s2 \<and>
    cnt (held s2) + cnt {#PClosure a#} + given_up s2 + acquired s = cnt (held s) + given_up s + acquired s2"
proof -
  have "quiet s {#} s2 {#PClosure a#}"
    using quiet_trans [OF quiet_pclosure_new [OF assms(1)] quiet.keep [OF quiet_pclosure_destroy [OF assms(2)]]] by simp
  moreover have "\<exists>c. vm_closures s1 a = Some c \<and> co_captures c = captures"
    using assms(1) by (auto simp: pclosure_new_def Let_def bind_eq_Some_conv split: option.splits if_splits prod.splits)
  moreover have "vm_closures s2 a = None"
    using assms(2) by (auto simp: pclosure_destroy_def release_context_def Let_def bind_eq_Some_conv)
  ultimately show ?thesis using assms(3) by (simp add: quiet_def balance_def)
qed

end
