(* ===== verification/Spec2Isabelle.thy ===== *)
theory Spec2Isabelle
  imports IntOps Symbol ArrayProps PbcEmit PbcVerifySound PbcLoadSound PbcWriteProps
    IntegerFloatRound LexerSound GcProps PclassTable VmProps
begin

text \<open>
  A verification of the core of php-pico, a PHP interpreter for microcontrollers written in C.
  All paths below are relative to \<open>src/\<close> of the repository.

  \<^bold>\<open>The program.\<close>  A source text is cut into tokens by the lexer (\<open>compiler/lexer.c\<close>), parsed
  and compiled to bytecode modules, which are built, written, loaded and verified by
  \<open>src/pbc.c\<close> and \<open>src/module.c\<close> and run by a stack machine (\<open>src/vm.c\<close>).  Everything the
  interpreter allocates comes from one memory pool (\<open>src/alloc.c\<close>, a two-level segregated fit
  allocator).  PHP arrays are ordered hash tables (\<open>src/parray.c\<close>), identifiers are interned
  (\<open>src/symbol.c\<close>), integers are 32 bits with checked arithmetic and fall over to floats
  (\<open>src/value_ops.c\<close>).

  \<^bold>\<open>The configuration\<close> is the default of \<open>include/pphp/pphp_config.h\<close> on a host:
  \<open>pphp_int\<close> is \<open>int32_t\<close>, floats are doubles, the release build without
  \<open>PPHP_RC_DEBUG\<close> and \<open>PPHP_TYPECHECK\<close>.  Sizes and offsets are natural numbers; where the
  wrap-around of \<open>size_t\<close> matters it is written out (\<open>Alloc\<close> for both 32 and 64 bits, \<open>Pbc\<close>
  for 64 bits), and fields of fixed width are words.

  \<^bold>\<open>Conventions.\<close>  An operation of the code is a function on the record of its state.  A result
  \<open>None\<close> at the outermost level is undefined behaviour (a read or write outside an array, a
  null pointer that is followed, a loop that does not end); the properties show when it cannot
  arise.  An error of the code is a value inside.  Loops are functions with a measure, or run
  on a fuel of the number of entries they may visit, and the properties state that the fuel
  is enough because they give the result.  Reference counts are not a field of values: the
  operations report \<open>Retain\<close> and \<open>Release\<close> events in their order.

  \<^bold>\<open>The theories.\<close>

  \<open>Prelude\<close>: widths, byte strings, checked reads, signed 32-bit arithmetic.

  \<open>IntOps\<close> models the checked integer operations, exponentiation, shifts and
  \<open>pphp_format_integer\<close> of \<open>src/value_ops.c\<close>.  The overflow guards are exact, the power is
  the mathematical one whenever it is representable, formatting gives the decimal numeral.

  \<open>IntegerFloat\<close>, \<open>IntegerFloatRound\<close> model \<open>pphp_integer_digits_to_float\<close>: limbs of 32 bits
  in a list, the double as its 64-bit image.  The result is the correctly rounded one.

  \<open>HeapIface\<close> is the interface of the pool to its clients, a locale with the laws of allocation,
  reallocation and release.  \<open>Alloc\<close> models every operation of \<open>src/alloc.c\<close> on a record of the
  control block and the headers, \<open>AllocInv\<close> states the invariant of headers and free lists, and
  \<open>Pool\<close> proves that every operation keeps it, refines the abstract set of live blocks, and
  interprets the interface on the model for both pointer widths.

  \<open>Value\<close> has the values of \<open>include/pphp/value.h\<close> with truthiness and type names, and the
  strings of \<open>src/pstring.c\<close>.  \<open>Symbol\<close> models the symbol table of \<open>src/symbol.c\<close>: open
  addressing with rehashing, whose invariant makes interning return one string per content.

  \<open>PArray\<close> models \<open>src/parray.c\<close> with entries, buckets, tombstones, the packed mode and the
  normalisation of keys.  \<open>PArrayInv\<close> and \<open>PArrayOps\<close> hold the invariant and the steps,
  \<open>ArrayProps\<close> the refinement of an association list with insertion order, over the interface
  \<open>HeapIface\<close> instantiated with the pool.

  \<open>Gc\<close> models the cycle collector of \<open>src/gc.c\<close> and the counting of \<open>src/value.c\<close> on a heap
  of containers; \<open>GcSound\<close> relates discovery, subtraction and marking to reachability in the
  graph of references, and \<open>GcProps\<close> shows that a collection clears exactly the garbage it
  examines, keeps counts exact, and that the candidate buffer is sound in every reachable
  state.  The nodes are at most the 256 of the code's arrays; marking ends because each pass
  but the last marks a node.

  \<open>Pclass\<close> models the classes of \<open>src/pclass.c\<close>: a map from addresses to records, with members,
  lookup, static tables, completeness and the recursive release; the loops along parents and
  interfaces are partial functions.  \<open>PclassGraph\<close> shows that they return on a class graph
  without circles and what they compute, \<open>PclassInv\<close> that a release keeps the counts of references
  exact, \<open>PclassSteps\<close> and \<open>PclassTable\<close> that every operation keeps the invariant of the table:
  in every reachable state there are no circles and no dangling pointers, slots extend the
  layout of the parent, and final methods are not overridden.  Members are added only to a class
  that nothing refers to, as \<open>building_class\<close> of the virtual machine.

  \<open>Opcode\<close> lists the instruction set of \<open>src/opcode.h\<close>.  \<open>Pbc\<close> models modules and prototypes:
  emitting and patching code, constants, locals, handlers, the life cycle of modules, and the
  byte order of images.  \<open>PbcEmit\<close>: emitted operands are read back, patched jumps decoded,
  slots of locals stable.  \<open>PbcVerify\<close> is the bytecode verifier with every read checked;
  \<open>PbcVerifyProps\<close> and \<open>PbcVerifySound\<close> show that it ends, reads inside its arrays, and
  that accepted code has complete instructions, operands in range, jumps to instructions and
  consistent roles.  \<open>PbcLoad\<close> is \<open>pphp_pbc_load\<close>, \<open>PbcLoadProps\<close> and
  \<open>PbcLoadSound\<close> show its memory safety (with one exception) and what loaded modules satisfy.
  \<open>PbcWrite\<close> is \<open>pphp_pbc_write_file\<close>, \<open>PbcWriteProps\<close> shows that it stays in its buffer.

  \<open>LexerToken\<close> has the token types and keywords of \<open>compiler/lexer.h\<close> and
  \<open>compiler/lexer.c\<close>, \<open>Lexer\<close> all scanners and modes of \<open>pc_lexer_next\<close>.  Pointers into the
  source are offsets; the one unguarded read, in \<open>advance\<close>, is recorded in a ghost field.
  \<open>LexerTrack\<close> and \<open>LexerScan\<close> show that each scanner only moves over the source with exact
  lines and columns, \<open>LexerProps\<close> does so for a whole token, and \<open>LexerSound\<close> has the
  properties of runs: positions, reads, termination, and literals.

  \<open>PState\<close> has the interpreter state of \<open>src/state.h\<close> and \<open>src/state.c\<close>: stack, frames, tables of
  classes and functions, pending error, and the memory they point into, with the calls of
  \<open>pv_retain\<close> and \<open>pv_release\<close> in a log.  \<open>Pobject\<close> models the objects of \<open>src/pclass.c\<close> (creation,
  cloning, destructors, destruction, the list of objects), \<open>Closures\<close> the closures of
  \<open>src/closure.c\<close> and the iterators of \<open>src/resource.c\<close>, \<open>Exceptions\<close> models
  \<open>src/exception.c\<close> with the built-in hierarchy.  \<open>Vm\<close> and \<open>VmStep\<close> model the stack machine of
  \<open>src/vm.c\<close>: locals with their global and static bindings, argument passing, calls, returns,
  unwinding, the conversion of errors to exceptions, and the instructions for the stack,
  constants, locals, jumps, calls, building and unpacking of arrays, \<open>foreach\<close>, \<open>instanceof\<close>,
  closures, exceptions and lines; \<open>vm_switch\<close> knows all labels of the switch, and the
  instructions left out have no result (\<open>None\<close>).  The functions of the standard
  library and of the embedding program are the parameter \<open>host\<close>, the function that calls back
  into the interpreter for a destructor is the parameter \<open>invoke\<close>.

  \<open>Accounts\<close> is the interface of an account of owned things, a locale with the laws of idling,
  sequence and untouched property; \<open>balance\<close>, \<open>quiet\<close> and \<open>bal\<close> of the interpreter are instances
  of it.  \<open>ArrayRefs\<close>, \<open>VmInv\<close>, \<open>VmQuiet\<close>, \<open>VmObjects\<close> and \<open>VmClosures\<close> keep the accounts: \<open>held\<close> is
  what the state owns, \<open>acquired\<close> and \<open>given_up\<close> are read off the log, \<open>quiet\<close> states that an
  operation balances them and leaves the stack and the frames alone.  \<open>VmDepth\<close> defines a static
  check of the height of the stack per instruction and the states that conform to it;
  \<open>VmSafe\<close>, \<open>VmSafeOps\<close>, \<open>VmSafeIter\<close>, \<open>VmCalls\<close>, \<open>VmSound\<close> and \<open>VmRun\<close> show for every modelled
  instruction, call, return and handler that accounts and discipline are kept, and lift it to
  the runs of the loop, an inductive relation, and to \<open>pphp_vm_execute\<close>.  \<open>VmProps\<close> holds the
  properties: the accounts of an execution, operands that are always there, the nearest
  handler, bound arguments, destructors, and loops that visit an array in order.  What is asked
  of \<open>host\<close> and \<open>invoke\<close> is \<open>host_ok\<close> and \<open>invoke_ok\<close>.  The loop of the
  machine may run for ever and is a partial function; the properties speak of the states it
  reaches and of executions that end.

  \<^bold>\<open>What the proofs found\<close> is listed with the manifest: among others an unbounded loop and a
  read behind the source in the lexer, a write through a null pointer when loading runs out
  of memory, and requests of almost 4 GiB that wrap to a minimal block on 32-bit targets.

  \<^bold>\<open>Not modelled.\<close>  The parser and the code generator are large and would have to be modelled as
  a whole to say anything.  Of the virtual machine the instructions for arithmetic and
  comparison (they rest on floats of the C library), output, element access, definitions of
  classes and functions, property access, method calls, calls of closures and other values, and
  inclusion are left out, as are the polls of timer and collector between two instructions,
  nested interpreter states, and in \<open>src/state.c\<close> the life cycle of the state and of checkpoints.
  Of the resources only iterators are modelled; files belong to the standard library.  Float formatting and \<open>printf\<close> rest on the C
  library's arithmetic of doubles.  The leak diagnostics exist in debug builds only.  The
  standard library of PHP functions, the shell, file systems and device layers are input
  and output on top of the core.
\<close>

end
